(* ===== verification/LruCache.thy ===== *)
theory LruCache imports Prelude begin

text \<open>
  The insertion-order LRU of \<open>src/common/lru-cache.ts\<close>: an association list from the
  oldest entry to the most recent one, and a capacity.  The locale \<open>bounded_cache\<close> is
  what the caches' clients rely on: a stored value is found, a store never invents or
  changes another key's value (it may evict it), reads change no value.
\<close>

record ('k, 'v) lru =
  lru_cap :: nat
  lru_map :: "('k \<times> 'v) list"

text \<open>The constructor throws on a capacity below one.\<close>

definition lru_new :: "nat \<Rightarrow> ('k, 'v) lru option" where
  "lru_new n = (if n < 1 then None else Some \<lparr>lru_cap = n, lru_map = []\<rparr>)"

definition lru_has :: "('k, 'v) lru \<Rightarrow> 'k \<Rightarrow> bool" where
  "lru_has c k \<longleftrightarrow> k \<in> set (map fst (lru_map c))"

definition lru_size :: "('k, 'v) lru \<Rightarrow> nat" where
  "lru_size c = length (lru_map c)"

definition lru_delete :: "'k \<Rightarrow> ('k, 'v) lru \<Rightarrow> ('k, 'v) lru" where
  "lru_delete k c = c\<lparr>lru_map := filter (\<lambda>e. fst e \<noteq> k) (lru_map c)\<rparr>"

definition lru_get :: "'k \<Rightarrow> ('k, 'v) lru \<Rightarrow> 'v option \<times> ('k, 'v) lru" where
  "lru_get k c =
     (case map_of (lru_map c) k of
        None \<Rightarrow> (None, c)
      | Some v \<Rightarrow> (Some v, c\<lparr>lru_map := filter (\<lambda>e. fst e \<noteq> k) (lru_map c) @ [(k, v)]\<rparr>))"

definition lru_set :: "'k \<Rightarrow> 'v \<Rightarrow> ('k, 'v) lru \<Rightarrow> ('k, 'v) lru" where
  "lru_set k v c =
     (let m = (if lru_has c k then filter (\<lambda>e. fst e \<noteq> k) (lru_map c)
               else if lru_cap c \<le> lru_size c then tl (lru_map c)
               else lru_map c)
      in c\<lparr>lru_map := m @ [(k, v)]\<rparr>)"

definition lru_clear :: "('k, 'v) lru \<Rightarrow> ('k, 'v) lru" where
  "lru_clear c = c\<lparr>lru_map := []\<rparr>"

definition lru_peek :: "('k, 'v) lru \<Rightarrow> 'k \<Rightarrow> 'v option" where
  "lru_peek c k = map_of (lru_map c) k"

definition lru_inv :: "('k, 'v) lru \<Rightarrow> bool" where
  "lru_inv c \<longleftrightarrow> 1 \<le> lru_cap c \<and> distinct (map fst (lru_map c)) \<and> lru_size c \<le> lru_cap c"

section \<open>Invariant\<close>

lemma length_filter_other_key:
  assumes "k \<in> set (map fst xs)"
  shows "length (filter (\<lambda>e. fst e \<noteq> k) xs) < length xs"
proof -
  from assms obtain e where "e \<in> set xs" "fst e = k" by auto
  then show ?thesis by (intro length_filter_less [of e]) auto
qed

lemma lru_inv_new: "lru_new n = Some c \<Longrightarrow> lru_inv c"
  by (auto simp: lru_new_def lru_inv_def lru_size_def split: if_splits)

lemma lru_inv_delete: "lru_inv c \<Longrightarrow> lru_inv (lru_delete k c)"
  by (auto simp: lru_inv_def lru_delete_def lru_size_def distinct_map_fst_filter
      intro: le_trans [OF length_filter_le])

lemma lru_inv_get: "lru_inv c \<Longrightarrow> lru_inv (snd (lru_get k c))"
proof (cases "map_of (lru_map c) k")
  case (Some v)
  assume inv: "lru_inv c"
  from Some have "k \<in> set (map fst (lru_map c))"
    by (metis domI dom_map_of_conv_image_fst image_set)
  from length_filter_other_key [OF this] inv Some show ?thesis
    by (auto simp: lru_inv_def lru_get_def lru_size_def distinct_map_fst_filter)
qed (simp add: lru_get_def)

lemma lru_inv_set: "lru_inv c \<Longrightarrow> lru_inv (lru_set k v c)"
proof (cases "lru_has c k")
  case True
  assume inv: "lru_inv c"
  from True have "k \<in> set (map fst (lru_map c))" by (simp add: lru_has_def)
  from length_filter_other_key [OF this] inv True show ?thesis
    by (auto simp: lru_inv_def lru_set_def lru_size_def distinct_map_fst_filter Let_def)
next
  case False
  assume "lru_inv c"
  with False show ?thesis
    by (cases "lru_map c")
      (auto simp: lru_inv_def lru_set_def lru_size_def lru_has_def Let_def)
qed

section \<open>Contract\<close>

locale bounded_cache =
  fixes peek :: "'c \<Rightarrow> 'k \<Rightarrow> 'v option"
    and store :: "'k \<Rightarrow> 'v \<Rightarrow> 'c \<Rightarrow> 'c"
    and touch :: "'k \<Rightarrow> 'c \<Rightarrow> 'c"
    and drop_key :: "'k \<Rightarrow> 'c \<Rightarrow> 'c"
    and inv :: "'c \<Rightarrow> bool"
  assumes peek_store_same: "inv c \<Longrightarrow> peek (store k v c) k = Some v"
    and peek_store_other: "inv c \<Longrightarrow> k' \<noteq> k \<Longrightarrow> peek (store k v c) k' = Some w \<Longrightarrow> peek c k' = Some w"
    and peek_touch: "inv c \<Longrightarrow> peek (touch k c) k' = peek c k'"
    and peek_drop: "inv c \<Longrightarrow> peek (drop_key k c) k' = (if k' = k then None else peek c k')"
    and inv_store: "inv c \<Longrightarrow> inv (store k v c)"
    and inv_touch: "inv c \<Longrightarrow> inv (touch k c)"
    and inv_drop: "inv c \<Longrightarrow> inv (drop_key k c)"
begin

text \<open>A predicate on entries that holds of what is stored holds of what is found.\<close>

definition entries_sat :: "('k \<Rightarrow> 'v \<Rightarrow> bool) \<Rightarrow> 'c \<Rightarrow> bool" where
  "entries_sat P c \<longleftrightarrow> (\<forall>k v. peek c k = Some v \<longrightarrow> P k v)"

lemma entries_sat_store: "inv c \<Longrightarrow> entries_sat P c \<Longrightarrow> P k v \<Longrightarrow> entries_sat P (store k v c)"
  unfolding entries_sat_def by (metis option.inject peek_store_other peek_store_same)

lemma entries_sat_touch: "inv c \<Longrightarrow> entries_sat P c \<Longrightarrow> entries_sat P (touch k c)"
  by (simp add: entries_sat_def peek_touch)

lemma entries_sat_drop: "inv c \<Longrightarrow> entries_sat P c \<Longrightarrow> entries_sat P (drop_key k c)"
  by (simp add: entries_sat_def peek_drop)

lemma store_all_sat:
  assumes "inv c" "entries_sat P c" "\<forall>e \<in> set es. P (fst e) (snd e)"
  shows "inv (fold (\<lambda>e. store (fst e) (snd e)) es c) \<and>
         entries_sat P (fold (\<lambda>e. store (fst e) (snd e)) es c)"
  using assms
  by (induction es arbitrary: c) (simp_all add: entries_sat_store inv_store)

end

lemma map_of_filter_key: "map_of (filter (\<lambda>e. fst e \<noteq> k) xs) k' = (if k' = k then None else map_of xs k')"
  by (induction xs) auto

lemma map_of_tl:
  "distinct (map fst xs) \<Longrightarrow> map_of (tl xs) k = Some w \<Longrightarrow> map_of xs k = Some w"
  by (cases xs) (force dest: map_of_SomeD)+

lemma lru_peek_set_same: "lru_inv c \<Longrightarrow> lru_peek (lru_set k v c) k = Some v"
proof -
  assume inv: "lru_inv c"
  have "map_of (tl (lru_map c)) k = None" if "\<not> lru_has c k"
    using that by (cases "lru_map c") (auto simp: lru_has_def map_of_eq_None_iff)
  moreover have "map_of (lru_map c) k = None" if "\<not> lru_has c k"
    using that by (auto simp: lru_has_def map_of_eq_None_iff)
  ultimately show ?thesis
    by (auto simp: lru_peek_def lru_set_def Let_def map_add_def map_of_filter_key)
qed

lemma lru_peek_set_other:
  assumes "lru_inv c" "k' \<noteq> k" "lru_peek (lru_set k v c) k' = Some w"
  shows "lru_peek c k' = Some w"
proof (cases "lru_has c k \<or> \<not> lru_cap c \<le> lru_size c")
  case True
  with assms show ?thesis
    by (auto simp: lru_peek_def lru_set_def Let_def map_of_filter_key split: if_splits)
next
  case False
  with assms have "map_of (tl (lru_map c)) k' = Some w"
    by (simp add: lru_peek_def lru_set_def Let_def map_add_def split: option.splits)
  with assms(1) show ?thesis
    unfolding lru_peek_def lru_inv_def by (metis map_of_tl)
qed

lemma lru_peek_get: "lru_peek (snd (lru_get k c)) k' = lru_peek c k'"
  by (auto simp: lru_peek_def lru_get_def map_add_def map_of_filter_key split: option.splits)

lemma lru_get_value [simp]: "fst (lru_get k c) = lru_peek c k"
  by (simp add: lru_get_def lru_peek_def split: option.splits)

lemma lru_peek_delete: "lru_peek (lru_delete k c) k' = (if k' = k then None else lru_peek c k')"
  by (simp add: lru_peek_def lru_delete_def map_of_filter_key)

interpretation lru: bounded_cache
  lru_peek lru_set "\<lambda>k c. snd (lru_get k c)" lru_delete lru_inv
  by unfold_locales
    (auto simp: lru_peek_set_same lru_peek_get lru_peek_delete lru_inv_set lru_inv_get lru_inv_delete
      dest: lru_peek_set_other)

lemma lru_size_card: "lru_inv c \<Longrightarrow> lru_size c = card (dom (lru_peek c))"
proof -
  assume "lru_inv c"
  then have "card (fst ` set (lru_map c)) = length (lru_map c)"
    using distinct_card [of "map fst (lru_map c)"] by (simp add: lru_inv_def)
  moreover have "dom (lru_peek c) = fst ` set (lru_map c)"
    by (simp add: lru_peek_def [abs_def] dom_map_of_conv_image_fst)
  ultimately show ?thesis by (simp add: lru_size_def)
qed

lemma lru_get_cap [simp]: "lru_cap (snd (lru_get k c)) = lru_cap c"
  by (simp add: lru_get_def split: option.splits)

text \<open>What is evicted: only the least recently used entry, and only at capacity.\<close>

lemma lru_set_evicts_oldest:
  assumes "lru_inv c" "\<not> lru_has c k" "lru_map c = (k0, v0) # rest"
  shows "lru_map (lru_set k v c) =
           (if lru_size c = lru_cap c then rest else lru_map c) @ [(k, v)]"
  using assms by (auto simp: lru_set_def Let_def lru_inv_def)

end
