(* ===== verification/EnvFlag.thy ===== *)
theory EnvFlag imports Prelude begin

text \<open>
  The boolean readers of \<open>src/common/env-flag.ts\<close> on ASCII values: \<open>trim\<close> and
  \<open>toLowerCase\<close> as far as they act on ASCII text.
\<close>

definition is_space :: "char \<Rightarrow> bool" where
  "is_space c \<longleftrightarrow> c = CHR 0x20 \<or> (9 \<le> (of_char c :: nat) \<and> (of_char c :: nat) \<le> 13)"

definition trim :: "string \<Rightarrow> string" where
  "trim s = rev (dropWhile is_space (rev (dropWhile is_space s)))"

definition lower_char :: "char \<Rightarrow> char" where
  "lower_char c = (if 65 \<le> (of_char c :: nat) \<and> (of_char c :: nat) \<le> 90
     then char_of (of_char c + (32::nat)) else c)"

definition flag_text :: "string option \<Rightarrow> string" where
  "flag_text value = map lower_char (trim (case value of None \<Rightarrow> [] | Some s \<Rightarrow> s))"

definition envFlagEnabled :: "string option \<Rightarrow> bool" where
  "envFlagEnabled value = (let v = flag_text value in v = ''1'' \<or> v = ''true'')"

definition envFlagNotDisabled :: "string option \<Rightarrow> bool" where
  "envFlagNotDisabled value = (let v = flag_text value in v \<noteq> ''0'' \<and> v \<noteq> ''false'')"

text \<open>A flag set to a value outside the vocabulary is off for a default-off flag and on for a
  default-on flag.\<close>

lemma flag_enabled_not_disabled: "envFlagEnabled v \<Longrightarrow> envFlagNotDisabled v"
  by (auto simp: envFlagEnabled_def envFlagNotDisabled_def Let_def)

end
