(* ===== verification/JsValue.thy ===== *)
theory JsValue imports Prelude begin

text \<open>
  Untyped JavaScript values, as far as the program inspects them: the type tests
  (\<open>typeof\<close>, null and undefined), strict equality with a primitive, property reads
  with the members every object inherits from \<open>Object.prototype\<close>, and
  \<open>JSON.stringify\<close>.  Finite numbers are exact rationals (comparison of doubles is
  exact); their text form and the parsing of numbers and dates belong to the language
  runtime and are the three functions of the record \<open>js_lib\<close>.
\<close>

datatype jnum = JFin rat | JNaN | JPosInf | JNegInf

datatype jval =
    JUndef
  | JNull
  | JBool bool
  | JNum jnum
  | JStr string
  | JArr "jval list"
  | JObj "(string \<times> jval) list"
  | JOther \<comment> \<open>a function or any other value of no further interest\<close>

record js_lib =
  num_str :: "rat \<Rightarrow> string"   \<comment> \<open>\<open>String(n)\<close> of a finite number\<close>
  str_num :: "string \<Rightarrow> jnum"  \<comment> \<open>\<open>Number(s)\<close>\<close>
  date_ms :: "string \<Rightarrow> int option" \<comment> \<open>\<open>new Date(s).getTime()\<close>, None for NaN\<close>

definition present :: "jval \<Rightarrow> bool" where
  "present x \<longleftrightarrow> x \<noteq> JUndef \<and> x \<noteq> JNull"

definition nullish :: "jval \<Rightarrow> bool" where
  "nullish x \<longleftrightarrow> \<not> present x"

text \<open>\<open>a ?? b\<close>.\<close>

definition nullish_or :: "jval \<Rightarrow> jval \<Rightarrow> jval" where
  "nullish_or a b = (if nullish a then b else a)"

text \<open>\<open>x \&\& typeof x === 'object'\<close>: arrays and objects, not null.\<close>

fun is_object :: "jval \<Rightarrow> bool" where
  "is_object (JArr _) = True"
| "is_object (JObj _) = True"
| "is_object _ = False"

text \<open>\<open>x === want\<close> for a primitive \<open>want\<close>; a NaN equals nothing, and two array or object
  values compared here are never the same reference.\<close>

fun is_primitive :: "jval \<Rightarrow> bool" where
  "is_primitive (JArr _) = False"
| "is_primitive (JObj _) = False"
| "is_primitive JOther = False"
| "is_primitive _ = True"

definition strict_eq :: "jval \<Rightarrow> jval \<Rightarrow> bool" where
  "strict_eq x y \<longleftrightarrow> x = y \<and> x \<noteq> JNum JNaN \<and> is_primitive x"

definition object_prototype_names :: "string list" where
  "object_prototype_names =
     [''constructor'', ''__defineGetter__'', ''__defineSetter__'', ''hasOwnProperty'',
      ''__lookupGetter__'', ''__lookupSetter__'', ''isPrototypeOf'',
      ''propertyIsEnumerable'', ''toString'', ''valueOf'', ''__proto__'', ''toLocaleString'']"

text \<open>The other inherited members of an array.\<close>

definition array_prototype_names :: "string list" where
  "array_prototype_names =
     [''at'', ''concat'', ''copyWithin'', ''fill'', ''find'', ''findIndex'', ''findLast'',
      ''findLastIndex'', ''lastIndexOf'', ''pop'', ''push'', ''reverse'', ''shift'',
      ''unshift'', ''slice'', ''sort'', ''splice'', ''includes'', ''indexOf'', ''join'',
      ''keys'', ''entries'', ''values'', ''forEach'', ''filter'', ''flat'', ''flatMap'',
      ''map'', ''every'', ''some'', ''reduce'', ''reduceRight'', ''toReversed'',
      ''toSorted'', ''toSpliced'', ''with'']"

text \<open>\<open>v?.[k]\<close>: the own property, else the inherited one, else undefined.\<close>

fun jget :: "jval \<Rightarrow> string \<Rightarrow> jval" where
  "jget (JObj kvs) k =
     (case map_of kvs k of Some v \<Rightarrow> v
      | None \<Rightarrow> if k \<in> set object_prototype_names then JOther else JUndef)"
| "jget (JArr xs) k =
     (if k = ''length'' then JNum (JFin (of_nat (length xs)))
      else case map_of (zip (map string_of_nat [0..<length xs]) xs) k of
             Some v \<Rightarrow> v
           | None \<Rightarrow> if k \<in> set object_prototype_names \<union> set array_prototype_names
                      then JOther else JUndef)"
| "jget _ k = JUndef"

text \<open>\<open>{ ...o, k: v }\<close> on an object value (spreading anything else here gives no keys
  but those of an array).\<close>

definition jspread :: "jval \<Rightarrow> (string \<times> jval) list" where
  "jspread v = (case v of JObj kvs \<Rightarrow> kvs
      | JArr xs \<Rightarrow> zip (map string_of_nat [0..<length xs]) xs
      | JStr s \<Rightarrow> zip (map string_of_nat [0..<length s]) (map (\<lambda>c. JStr [c]) s)
      | _ \<Rightarrow> [])"

definition jset :: "jval \<Rightarrow> string \<Rightarrow> jval \<Rightarrow> jval" where
  "jset o1 k v = JObj (AList.update k v (jspread o1))"

lemma jget_jset_same [js_simps]: "jget (jset v k w) k = w"
  by (simp add: jset_def)

lemma jget_jset_other [js_simps]: "k' \<noteq> k \<Longrightarrow> jget (jset v k w) k' = jget (JObj (jspread v)) k'"
  by (simp add: jset_def)

lemma jspread_JObj [js_simps]: "jspread (JObj kvs) = kvs"
  by (simp add: jspread_def)

section \<open>\<open>JSON.stringify\<close>\<close>

definition hex_digit :: "nat \<Rightarrow> char" where
  "hex_digit d = (if d < 10 then char_of (48 + d) else char_of (87 + d))"

definition json_char :: "char \<Rightarrow> string" where
  "json_char c =
     (if c = CHR 0x22 then [CHR 0x5C, CHR 0x22]
      else if c = CHR 0x5C then [CHR 0x5C, CHR 0x5C]
      else if c = CHR 0x08 then [CHR 0x5C, CHR ''b'']
      else if c = CHR 0x09 then [CHR 0x5C, CHR ''t'']
      else if c = CHR 0x0A then [CHR 0x5C, CHR ''n'']
      else if c = CHR 0x0C then [CHR 0x5C, CHR ''f'']
      else if c = CHR 0x0D then [CHR 0x5C, CHR ''r'']
      else if of_char c < (32::nat)
      then [CHR 0x5C, CHR ''u'', CHR ''0'', CHR ''0'',
            hex_digit (of_char c div 16), hex_digit (of_char c mod 16)]
      else [c])"

definition json_string :: "string \<Rightarrow> string" where
  "json_string s = CHR 0x22 # concat (map json_char s) @ [CHR 0x22]"

definition json_wrap :: "char \<Rightarrow> string list \<Rightarrow> char \<Rightarrow> string" where
  "json_wrap l parts r = l # join '','' parts @ [r]"

text \<open>Undefined and functions are left out of objects and written \<open>null\<close> in arrays; the
  result is None where \<open>JSON.stringify\<close> returns undefined.\<close>

fun json_stringify :: "js_lib \<Rightarrow> jval \<Rightarrow> string option" where
  "json_stringify js JUndef = None"
| "json_stringify js JOther = None"
| "json_stringify js JNull = Some ''null''"
| "json_stringify js (JBool b) = Some (if b then ''true'' else ''false'')"
| "json_stringify js (JNum (JFin q)) = Some (num_str js q)"
| "json_stringify js (JNum _) = Some ''null''"
| "json_stringify js (JStr s) = Some (json_string s)"
| "json_stringify js (JArr xs) =
     Some (json_wrap (CHR ''['')
       (map (\<lambda>x. case json_stringify js x of None \<Rightarrow> ''null'' | Some t \<Rightarrow> t) xs)
       (CHR '']''))"
| "json_stringify js (JObj kvs) =
     Some (json_wrap (CHR ''{'')
       (concat (map (\<lambda>kv. case json_stringify js (snd kv) of
           None \<Rightarrow> [] | Some t \<Rightarrow> [json_string (fst kv) @ '':'' @ t]) kvs))
       (CHR ''}''))"

end
