(* ===== verification/PolicyTypes.thy ===== *)
theory PolicyTypes imports JsValue begin

text \<open>
  The ABAC policy document of \<open>src/policy/policy.types.ts\<close>: its data, the attribute
  vocabulary, the shape the schema asks for and the cross-field refinements the schema
  adds (\<open>superRefine\<close>), as lists of issues.  The parsing library itself (zod) is not
  modelled: a document is a value of the parsed type, \<open>*_shape\<close> is what the base
  schema requires of it and \<open>refine_*\<close> are the program's own callbacks, which run once
  the base schema has accepted the value.
\<close>

section \<open>Enumerations and attribute vocabulary\<close>

datatype effect = Allow | Deny
datatype rule_kind = RuleAction | RuleSource
datatype policy_mode = ReportOnly | Enforce | Disabled
datatype decision = DecAllow | DecDeny | DecWouldDeny
datatype action_kind = KindRead | KindWrite | KindAdmin

datatype match_op = OpEq | OpIn | OpPrefix | OpGte | OpGt | OpLte | OpLt | OpExists | OpNotExists

fun op_name :: "match_op \<Rightarrow> string" where
  "op_name OpEq = ''eq''"
| "op_name OpIn = ''in''"
| "op_name OpPrefix = ''prefix''"
| "op_name OpGte = ''gte''"
| "op_name OpGt = ''gt''"
| "op_name OpLte = ''lte''"
| "op_name OpLt = ''lt''"
| "op_name OpExists = ''exists''"
| "op_name OpNotExists = ''not_exists''"

datatype attr_type = TyString | TyNumber | TyBoolean

fun type_name :: "attr_type \<Rightarrow> string" where
  "type_name TyString = ''string''"
| "type_name TyNumber = ''number''"
| "type_name TyBoolean = ''boolean''"

record attr_spec =
  as_type :: attr_type
  as_ops :: "match_op list"

definition mk_spec :: "attr_type \<Rightarrow> match_op list \<Rightarrow> attr_spec" where
  "mk_spec t ops = \<lparr>as_type = t, as_ops = ops\<rparr>"

definition POLICY_ATTRIBUTES :: "(string \<times> attr_spec) list" where
  "POLICY_ATTRIBUTES =
     [(''predicate'', mk_spec TyString [OpEq, OpIn, OpPrefix]),
      (''piiClass'', mk_spec TyString [OpEq, OpIn]),
      (''source.vertical'', mk_spec TyString [OpEq, OpIn]),
      (''source.recorder'', mk_spec TyString [OpEq, OpIn]),
      (''source.documentId'', mk_spec TyString [OpEq, OpIn]),
      (''source.originKey'', mk_spec TyString [OpEq, OpIn, OpPrefix]),
      (''trust.authority'', mk_spec TyNumber [OpGte, OpGt, OpLte, OpLt]),
      (''trust.declaredTrust'', mk_spec TyNumber [OpGte, OpGt, OpLte, OpLt]),
      (''trust.learnedTrust'', mk_spec TyNumber [OpGte, OpGt, OpLte, OpLt]),
      (''corroboration.count'', mk_spec TyNumber [OpGte, OpGt, OpLte, OpLt]),
      (''provenance.purged'', mk_spec TyBoolean [OpEq]),
      (''userId'', mk_spec TyString [OpEq, OpIn, OpExists, OpNotExists])]"

definition is_lower :: "char \<Rightarrow> bool" where
  "is_lower c \<longleftrightarrow> 97 \<le> (of_char c :: nat) \<and> (of_char c :: nat) \<le> 122"

definition is_digit :: "char \<Rightarrow> bool" where
  "is_digit c \<longleftrightarrow> 48 \<le> (of_char c :: nat) \<and> (of_char c :: nat) \<le> 57"

definition is_upper :: "char \<Rightarrow> bool" where
  "is_upper c \<longleftrightarrow> 65 \<le> (of_char c :: nat) \<and> (of_char c :: nat) \<le> 90"

definition SOURCE_META_ATTR :: "string \<Rightarrow> bool" where
  "SOURCE_META_ATTR s \<longleftrightarrow>
     starts_with ''source.meta.'' s \<and>
     (case drop 12 s of [] \<Rightarrow> False
      | c # cs \<Rightarrow> is_lower c \<and> length cs \<le> 63 \<and>
          list_all (\<lambda>d. is_lower d \<or> is_digit d \<or> d = CHR ''_'') cs)"

definition META_ATTR_OPS :: "match_op list" where
  "META_ATTR_OPS = [OpEq, OpIn, OpExists, OpNotExists]"

text \<open>\<open>attributeSpec\<close>.  The lookup \<open>POLICY_ATTRIBUTES[attr]\<close> also finds the members every
  object inherits; they are truthy, are returned as they are and have no \<open>ops\<close>.\<close>

datatype spec_result = SpecNone | SpecOf attr_spec | SpecInherited

definition attributeSpec :: "string \<Rightarrow> spec_result" where
  "attributeSpec attr =
     (case map_of POLICY_ATTRIBUTES attr of
        Some fixed \<Rightarrow> SpecOf fixed
      | None \<Rightarrow>
          if attr \<in> set object_prototype_names then SpecInherited
          else if SOURCE_META_ATTR attr then SpecOf (mk_spec TyString META_ATTR_OPS)
          else SpecNone)"

section \<open>The document\<close>

datatype match_value =
  VAbsent | VStr string | VNum rat | VBool bool | VList "string list"

fun value_jval :: "match_value \<Rightarrow> jval" where
  "value_jval VAbsent = JUndef"
| "value_jval (VStr s) = JStr s"
| "value_jval (VNum q) = JNum (JFin q)"
| "value_jval (VBool b) = JBool b"
| "value_jval (VList xs) = JArr (map JStr xs)"

record match_condition =
  mc_attr :: string
  mc_op :: match_op
  mc_value :: match_value

record policy_rule =
  pr_id :: string
  pr_effect :: effect
  pr_kind :: rule_kind
  pr_enabled :: bool
  pr_description :: "string option"
  pr_actions :: "string list option"
  pr_match :: "match_condition list option"

record posture =
  po_actions :: effect
  po_reads :: effect

record policy_document =
  pd_name :: string
  pd_description :: string
  pd_posture :: posture
  pd_mode :: policy_mode
  pd_activeFrom :: "string option"
  pd_activeUntil :: "string option"
  pd_rules :: "policy_rule list"

definition POLICY_MACROS :: "string list" where
  "POLICY_MACROS = [''@readonly'', ''@write'', ''@all'']"

definition MAX_RULES_PER_SET :: nat where "MAX_RULES_PER_SET = 64"
definition MAX_VALUES_PER_LIST :: nat where "MAX_VALUES_PER_LIST = 128"
definition MAX_DOCUMENT_BYTES :: nat where "MAX_DOCUMENT_BYTES = 32 * 1024"
definition MAX_SETS_PER_KEY :: nat where "MAX_SETS_PER_KEY = 8"

section \<open>Base shape\<close>

definition RULE_ID :: "string \<Rightarrow> bool" where
  "RULE_ID s \<longleftrightarrow> (case s of [] \<Rightarrow> False
     | c # cs \<Rightarrow> (is_lower c \<or> is_digit c) \<and> length cs \<le> 63 \<and>
         list_all (\<lambda>d. is_lower d \<or> is_digit d \<or> d = CHR ''_'' \<or> d = CHR ''-'') cs)"

definition SET_NAME :: "string \<Rightarrow> bool" where
  "SET_NAME s \<longleftrightarrow> (case s of [] \<Rightarrow> False
     | c # cs \<Rightarrow> is_lower c \<and> 1 \<le> length cs \<and> length cs \<le> 63 \<and>
         list_all (\<lambda>d. is_lower d \<or> is_digit d \<or> d = CHR ''_'' \<or> d = CHR ''-'') cs)"

definition ACTION_NAME :: "string \<Rightarrow> bool" where
  "ACTION_NAME s \<longleftrightarrow> (case s of [] \<Rightarrow> False
     | c # cs \<Rightarrow>
         (c = CHR ''@'' \<and> cs \<noteq> [] \<and> list_all is_lower cs) \<or>
         (is_lower c \<and> length cs \<le> 127 \<and>
          list_all (\<lambda>d. is_lower d \<or> is_digit d \<or> d = CHR ''_'' \<or> d = CHR ''.'' \<or> d = CHR ''-'') cs))"

definition match_condition_shape :: "match_condition \<Rightarrow> bool" where
  "match_condition_shape c \<longleftrightarrow>
     length (mc_attr c) \<le> 96 \<and>
     (case mc_value c of
        VStr s \<Rightarrow> length s \<le> 256
      | VList xs \<Rightarrow> 1 \<le> length xs \<and> length xs \<le> MAX_VALUES_PER_LIST \<and>
                   list_all (\<lambda>s. length s \<le> 256) xs
      | _ \<Rightarrow> True)"

definition policy_rule_shape :: "policy_rule \<Rightarrow> bool" where
  "policy_rule_shape r \<longleftrightarrow>
     RULE_ID (pr_id r) \<and>
     (case pr_description r of None \<Rightarrow> True | Some d \<Rightarrow> length d \<le> 300) \<and>
     (case pr_actions r of None \<Rightarrow> True
      | Some as \<Rightarrow> list_all ACTION_NAME as \<and> 1 \<le> length as \<and> length as \<le> MAX_VALUES_PER_LIST) \<and>
     (case pr_match r of None \<Rightarrow> True
      | Some ms \<Rightarrow> list_all match_condition_shape ms \<and> 1 \<le> length ms \<and> length ms \<le> 16)"

definition policy_document_shape :: "policy_document \<Rightarrow> bool" where
  "policy_document_shape d \<longleftrightarrow>
     SET_NAME (pd_name d) \<and> length (pd_description d) \<le> 500 \<and>
     list_all policy_rule_shape (pd_rules d) \<and> length (pd_rules d) \<le> MAX_RULES_PER_SET"

section \<open>Refinements\<close>

record issue =
  is_message :: string
  is_path :: "string list"

definition mk_issue :: "string list \<Rightarrow> string \<Rightarrow> issue" where
  "mk_issue path msg = \<lparr>is_message = msg, is_path = path\<rparr>"

definition quoted :: "string \<Rightarrow> string" where
  "quoted s = CHR 0x27 # s @ [CHR 0x27]"

fun scalar_ok :: "attr_type \<Rightarrow> match_value \<Rightarrow> bool" where
  "scalar_ok TyNumber (VNum _) = True"
| "scalar_ok TyBoolean (VBool _) = True"
| "scalar_ok TyString (VStr _) = True"
| "scalar_ok _ _ = False"

text \<open>The callback returns its issues, or None where it throws: an inherited member has no
  \<open>ops\<close> to search.\<close>

definition refine_match_condition :: "match_condition \<Rightarrow> issue list option" where
  "refine_match_condition cond =
     (case attributeSpec (mc_attr cond) of
        SpecNone \<Rightarrow> Some [mk_issue [''attr''] (''Unknown attribute '' @ quoted (mc_attr cond))]
      | SpecInherited \<Rightarrow> None
      | SpecOf spec \<Rightarrow> Some (
          if mc_op cond \<notin> set (as_ops spec) then
            [mk_issue [''op''] (''Operator '' @ quoted (op_name (mc_op cond)) @ '' not valid for '' @
               quoted (mc_attr cond) @ '' (allowed: '' @
               join '', '' (map op_name (as_ops spec)) @ '')'')]
          else if mc_op cond = OpExists \<or> mc_op cond = OpNotExists then
            (if mc_value cond \<noteq> VAbsent
             then [mk_issue [''value''] (''Operator '' @ quoted (op_name (mc_op cond)) @ '' takes no value'')]
             else [])
          else if mc_value cond = VAbsent then
            [mk_issue [''value''] (''Operator '' @ quoted (op_name (mc_op cond)) @ '' requires a value'')]
          else if mc_op cond = OpIn then
            (case mc_value cond of
               VList _ \<Rightarrow> if as_type spec \<noteq> TyString
                 then [mk_issue [''value''] (''Operator '' @ quoted ''in'' @ '' only applies to string attributes'')]
                 else []
             | _ \<Rightarrow> [mk_issue [''value''] (''Operator '' @ quoted ''in'' @ '' requires an array of strings'')])
          else if (case mc_value cond of VList _ \<Rightarrow> True | _ \<Rightarrow> False) \<or>
                  \<not> scalar_ok (as_type spec) (mc_value cond) then
            [mk_issue [''value''] (''Value type does not match attribute type '' @ quoted (type_name (as_type spec)))]
          else []))"

definition unknown_macros :: "string list \<Rightarrow> string list" where
  "unknown_macros as = filter (\<lambda>a. starts_with ''@'' a \<and> a \<notin> set POLICY_MACROS) as"

definition refine_policy_rule :: "policy_rule \<Rightarrow> issue list" where
  "refine_policy_rule r =
     (case pr_kind r of
        RuleAction \<Rightarrow>
          (if pr_actions r = None
           then [mk_issue [''actions''] (''kind=action rule requires '' @ quoted ''actions'')] else []) @
          (if pr_match r \<noteq> None
           then [mk_issue [''match''] (''kind=action rule cannot carry '' @ quoted ''match'')] else []) @
          map (\<lambda>a. mk_issue [''actions''] (''Unknown macro '' @ quoted a @ '' (known: '' @
                 join '', '' POLICY_MACROS @ '')''))
              (unknown_macros (case pr_actions r of None \<Rightarrow> [] | Some as \<Rightarrow> as))
      | RuleSource \<Rightarrow>
          (if pr_match r = None
           then [mk_issue [''match''] (''kind=source rule requires '' @ quoted ''match'')] else []) @
          (if pr_actions r \<noteq> None
           then [mk_issue [''actions''] (''kind=source rule cannot carry '' @ quoted ''actions'')] else []))"

fun duplicate_ids :: "string set \<Rightarrow> policy_rule list \<Rightarrow> string list" where
  "duplicate_ids seen [] = []"
| "duplicate_ids seen (r # rs) =
     (if pr_id r \<in> seen then [pr_id r] else []) @ duplicate_ids (insert (pr_id r) seen) rs"

text \<open>The document as the value \<open>JSON.stringify\<close> sees (keys in the schema's order; optional
  fields that are absent are left out).\<close>

definition effect_name :: "effect \<Rightarrow> string" where
  "effect_name e = (case e of Allow \<Rightarrow> ''allow'' | Deny \<Rightarrow> ''deny'')"

definition mode_name :: "policy_mode \<Rightarrow> string" where
  "mode_name m = (case m of ReportOnly \<Rightarrow> ''report_only'' | Enforce \<Rightarrow> ''enforce''
                   | Disabled \<Rightarrow> ''disabled'')"

definition opt_jval :: "('a \<Rightarrow> jval) \<Rightarrow> 'a option \<Rightarrow> jval" where
  "opt_jval f x = (case x of None \<Rightarrow> JUndef | Some v \<Rightarrow> f v)"

definition condition_jval :: "match_condition \<Rightarrow> jval" where
  "condition_jval c = JObj [(''attr'', JStr (mc_attr c)), (''op'', JStr (op_name (mc_op c))),
     (''value'', value_jval (mc_value c))]"

definition rule_jval :: "policy_rule \<Rightarrow> jval" where
  "rule_jval r = JObj
     [(''id'', JStr (pr_id r)), (''effect'', JStr (effect_name (pr_effect r))),
      (''kind'', JStr (case pr_kind r of RuleAction \<Rightarrow> ''action'' | RuleSource \<Rightarrow> ''source'')),
      (''enabled'', JBool (pr_enabled r)),
      (''description'', opt_jval JStr (pr_description r)),
      (''actions'', opt_jval (\<lambda>as. JArr (map JStr as)) (pr_actions r)),
      (''match'', opt_jval (\<lambda>ms. JArr (map condition_jval ms)) (pr_match r))]"

definition document_jval :: "policy_document \<Rightarrow> jval" where
  "document_jval d = JObj
     [(''name'', JStr (pd_name d)), (''description'', JStr (pd_description d)),
      (''posture'', JObj [(''actions'', JStr (effect_name (po_actions (pd_posture d)))),
                        (''reads'', JStr (effect_name (po_reads (pd_posture d))))]),
      (''mode'', JStr (mode_name (pd_mode d))),
      (''activeFrom'', opt_jval JStr (pd_activeFrom d)),
      (''activeUntil'', opt_jval JStr (pd_activeUntil d)),
      (''rules'', JArr (map rule_jval (pd_rules d)))]"

definition json_length :: "js_lib \<Rightarrow> jval \<Rightarrow> nat" where
  "json_length js v = (case json_stringify js v of None \<Rightarrow> 0 | Some s \<Rightarrow> length s)"

text \<open>A window bound counts when it is a non-empty string; a bound the runtime cannot parse
  (NaN) makes every comparison false.\<close>

definition window_bound :: "string option \<Rightarrow> string option" where
  "window_bound b = (if b = Some [] then None else b)"

definition window_inverted :: "js_lib \<Rightarrow> policy_document \<Rightarrow> bool" where
  "window_inverted js d =
     (case (window_bound (pd_activeFrom d), window_bound (pd_activeUntil d)) of
        (Some f, Some u) \<Rightarrow>
          (case (date_ms js f, date_ms js u) of (Some a, Some b) \<Rightarrow> b \<le> a | _ \<Rightarrow> False)
      | _ \<Rightarrow> False)"

definition refine_policy_document :: "js_lib \<Rightarrow> policy_document \<Rightarrow> issue list" where
  "refine_policy_document js d =
     map (\<lambda>i. mk_issue [''rules''] (''Duplicate rule id '' @ quoted i)) (duplicate_ids {} (pd_rules d)) @
     (if json_length js (document_jval d) > MAX_DOCUMENT_BYTES
      then [mk_issue [] (''Policy document exceeds '' @ string_of_nat MAX_DOCUMENT_BYTES @ '' bytes'')]
      else []) @
     (if window_inverted js d
      then [mk_issue [''activeFrom''] ''activeFrom must be strictly before activeUntil''] else [])"

text \<open>\<open>PolicyDocumentSchema.safeParse\<close> succeeds.\<close>

definition rule_accepted :: "policy_rule \<Rightarrow> bool" where
  "rule_accepted r \<longleftrightarrow> policy_rule_shape r \<and> refine_policy_rule r = [] \<and>
     list_all (\<lambda>c. refine_match_condition c = Some [])
       (case pr_match r of None \<Rightarrow> [] | Some ms \<Rightarrow> ms)"

definition document_accepted :: "js_lib \<Rightarrow> policy_document \<Rightarrow> bool" where
  "document_accepted js d \<longleftrightarrow> policy_document_shape d \<and>
     list_all rule_accepted (pd_rules d) \<and> refine_policy_document js d = []"

section \<open>Facts\<close>

lemma duplicate_ids_Nil_iff:
  "duplicate_ids seen rs = [] \<longleftrightarrow> distinct (map pr_id rs) \<and> set (map pr_id rs) \<inter> seen = {}"
  by (induction rs arbitrary: seen) auto

lemma accepted_distinct_ids: "document_accepted js d \<Longrightarrow> distinct (map pr_id (pd_rules d))"
  by (simp add: document_accepted_def refine_policy_document_def duplicate_ids_Nil_iff)

lemma accepted_window: "document_accepted js d \<Longrightarrow> \<not> window_inverted js d"
  by (auto simp: document_accepted_def refine_policy_document_def split: if_splits)

text \<open>What an accepted condition looks like: an operator the attribute knows and a value of
  the right type.\<close>

fun value_fits :: "match_op \<Rightarrow> attr_type \<Rightarrow> match_value \<Rightarrow> bool" where
  "value_fits OpExists t v = (v = VAbsent)"
| "value_fits OpNotExists t v = (v = VAbsent)"
| "value_fits OpIn t v = (t = TyString \<and> (\<exists>xs. v = VList xs))"
| "value_fits p t v = scalar_ok t v"

lemma refine_match_condition_iff:
  "refine_match_condition c = Some [] \<longleftrightarrow>
     (\<exists>spec. attributeSpec (mc_attr c) = SpecOf spec \<and> mc_op c \<in> set (as_ops spec) \<and>
        value_fits (mc_op c) (as_type spec) (mc_value c))"
  unfolding refine_match_condition_def
  by (cases "mc_op c"; cases "mc_value c")
    (auto split: spec_result.splits if_splits intro: attr_type.exhaust)

end
