(* ===== verification/ActionRegistry.thy ===== *)
theory ActionRegistry imports PolicyTypes begin

text \<open>
  The flat action namespace of \<open>src/policy/action-registry.ts\<close>: the registered tools and
  REST actions with their kind, the kind an unregistered name gets, and how one compiled
  action rule covers an action.
\<close>

datatype action_family =
  FamMcpRead | FamMcpWrite | FamMcpCommunity | FamMcpProcedural | FamMcpSource | FamRest

record action_spec =
  ac_kind :: action_kind
  ac_family :: action_family
  ac_title :: string

definition act :: "string \<Rightarrow> action_kind \<Rightarrow> action_family \<Rightarrow> string \<Rightarrow> string \<times> action_spec" where
  "act n k f t = (n, \<lparr>ac_kind = k, ac_family = f, ac_title = t\<rparr>)"

definition MCP_ACTIONS :: "(string \<times> action_spec) list" where
  "MCP_ACTIONS =
     [act ''search_knowledge'' KindRead FamMcpRead ''Search knowledge'',
      act ''search_multi_hop'' KindRead FamMcpRead ''Multi-hop search'',
      act ''graph_retrieve'' KindRead FamMcpRead ''Graph-first retrieval'',
      act ''synthesize'' KindRead FamMcpRead ''Synthesize answer'',
      act ''agent_qa'' KindRead FamMcpRead ''Agent-in-loop answer'',
      act ''memory_diff'' KindRead FamMcpRead ''Memory diff'',
      act ''get_entity_profile'' KindRead FamMcpRead ''Entity profile'',
      act ''get_entity_timeline'' KindRead FamMcpRead ''Entity timeline'',
      act ''autocomplete_entities'' KindRead FamMcpRead ''Entity name autocomplete'',
      act ''get_competing_facts'' KindRead FamMcpRead ''Competing facts'',
      act ''relationship_context'' KindRead FamMcpRead ''Relationship context'',
      act ''get_fact'' KindRead FamMcpRead ''Get fact'',
      act ''get_fact_provenance'' KindRead FamMcpRead ''Fact provenance (grounding episodes)'',
      act ''get_belief'' KindRead FamMcpRead ''Get belief'',
      act ''list_beliefs'' KindRead FamMcpRead ''List beliefs'',
      act ''get_scene'' KindRead FamMcpRead ''Get scene'',
      act ''list_scenes'' KindRead FamMcpRead ''List scenes'',
      act ''summarize_entity'' KindRead FamMcpRead ''Summarize entity'',
      act ''detect_contradiction'' KindRead FamMcpRead ''Detect contradiction'',
      act ''why'' KindRead FamMcpRead ''Code-memory why'',
      act ''recall_decisions'' KindRead FamMcpRead ''Recall decisions'',
      act ''record_fact'' KindWrite FamMcpWrite ''Record fact'',
      act ''retract_fact'' KindWrite FamMcpWrite ''Retract fact'',
      act ''link_entities'' KindWrite FamMcpWrite ''Link entities'',
      act ''forget_entity'' KindWrite FamMcpWrite ''Forget entity'',
      act ''ingest_document'' KindWrite FamMcpWrite ''Ingest document'',
      act ''record_decision'' KindWrite FamMcpWrite ''Record decision'',
      act ''record_feedback'' KindWrite FamMcpWrite ''Record retrieval feedback'',
      act ''take_memory_work'' KindWrite FamMcpWrite ''Take memory work'',
      act ''submit_memory_work'' KindWrite FamMcpWrite ''Submit memory work'',
      act ''list_communities'' KindRead FamMcpCommunity ''List communities'',
      act ''search_communities'' KindRead FamMcpCommunity ''Search communities'',
      act ''find_entity_communities'' KindRead FamMcpCommunity ''Entity communities'',
      act ''find_related_entities'' KindRead FamMcpCommunity ''Related entities'',
      act ''list_procedures'' KindRead FamMcpProcedural ''List procedures'',
      act ''match_procedure'' KindRead FamMcpProcedural ''Match procedure'',
      act ''record_procedure'' KindWrite FamMcpProcedural ''Record procedure'',
      act ''retire_procedure'' KindWrite FamMcpProcedural ''Retire procedure'',
      act ''get_source_reputation'' KindRead FamMcpSource ''Source reputation'',
      act ''workspace_status'' KindRead FamMcpRead ''Workspace status'',
      act ''rename_workspace'' KindWrite FamMcpWrite ''Name the workspace'',
      act ''find_tool'' KindRead FamMcpRead ''Find tool'',
      act ''run_tool'' KindWrite FamMcpWrite ''Run tool'',
      act ''search'' KindRead FamMcpRead ''Search'',
      act ''fetch'' KindRead FamMcpRead ''Fetch'',
      act ''about_brain'' KindRead FamMcpRead ''About brain'',
      act ''how_to_connect'' KindRead FamMcpRead ''How to connect'']"

definition REST_ACTIONS :: "(string \<times> action_spec) list" where
  "REST_ACTIONS =
     [act ''rest.users.forget'' KindWrite FamRest ''GDPR user forget'',
      act ''rest.users.affect.export'' KindRead FamRest ''Export emotional data'',
      act ''rest.users.affect.erase'' KindWrite FamRest ''Erase emotional data'',
      act ''rest.users.affect.contest'' KindWrite FamRest ''Contest an inference'',
      act ''rest.users.consents.list'' KindRead FamRest ''List consents'',
      act ''rest.users.consents.record'' KindWrite FamRest ''Record consent'',
      act ''rest.users.consents.revoke'' KindWrite FamRest ''Withdraw consent'',
      act ''rest.users.age.get'' KindRead FamRest ''Get age assurance'',
      act ''rest.users.age.set'' KindWrite FamRest ''Record age assurance'',
      act ''rest.users.guardian.set'' KindWrite FamRest ''Record guardian'',
      act ''rest.users.guardian.remove'' KindWrite FamRest ''Remove guardian'',
      act ''rest.users.safety_events.record'' KindWrite FamRest ''Record a safety event'',
      act ''rest.users.safety_events.list'' KindRead FamRest ''List safety events'',
      act ''rest.admin.residency.get'' KindRead FamRest ''Get tenant residency'',
      act ''rest.admin.residency.pin'' KindWrite FamRest ''Pin tenant residency'',
      act ''rest.admin.safety_report'' KindRead FamRest ''Safety report (no identifiers)'',
      act ''rest.ingest.mention'' KindWrite FamRest ''Ingest mention'',
      act ''rest.ingest.evidence_asset'' KindWrite FamRest ''Ingest evidence asset (metadata-only)'',
      act ''rest.ingest.evidence_blob'' KindWrite FamRest ''Upload evidence blob (bytes)'',
      act ''rest.documents.get'' KindRead FamRest ''Get document'',
      act ''rest.documents.candidates'' KindRead FamRest ''List candidates'',
      act ''rest.documents.commit'' KindWrite FamRest ''Commit candidates'',
      act ''rest.documents.stage_candidates'' KindWrite FamRest ''Stage external candidates'',
      act ''rest.documents.purge_content'' KindWrite FamRest ''Purge document content'',
      act ''rest.indexer.work'' KindRead FamRest ''List indexer work'',
      act ''rest.indexer.claim'' KindWrite FamRest ''Claim indexer work'',
      act ''rest.indexer.heartbeat'' KindWrite FamRest ''Heartbeat indexer claim'',
      act ''rest.indexer.content'' KindRead FamRest ''Read work document content'',
      act ''rest.indexer.fail'' KindWrite FamRest ''Release indexer work'',
      act ''rest.artifacts.get'' KindRead FamRest ''Get artifact'',
      act ''rest.artifacts.recompile'' KindWrite FamRest ''Recompile artifact'',
      act ''rest.stats.overview'' KindRead FamRest ''Stats overview'',
      act ''rest.dreams.run'' KindWrite FamRest ''Run dreams pass'',
      act ''rest.sources.list'' KindRead FamRest ''List source reputations'',
      act ''rest.registry.pricing.set'' KindWrite FamRest ''Set pack pricing'',
      act ''rest.registry.pricing.clear'' KindWrite FamRest ''Clear pack pricing'',
      act ''rest.registry.feature'' KindWrite FamRest ''Feature pack'',
      act ''rest.registry.unfeature'' KindWrite FamRest ''Unfeature pack'',
      act ''rest.registry.publisher.upsert'' KindWrite FamRest ''Upsert publisher profile'',
      act ''rest.registry.publisher.get'' KindRead FamRest ''Get publisher page'',
      act ''rest.episodes.list'' KindRead FamRest ''List episodes'',
      act ''rest.episodes.export'' KindRead FamRest ''Export episodes (NDJSON)'',
      act ''rest.projections.list'' KindRead FamRest ''List derived projections'',
      act ''rest.projections.rebuild'' KindAdmin FamRest ''Rebuild a derived projection'',
      act ''rest.episodes.subscribe'' KindAdmin FamRest ''Register an episode webhook'',
      act ''rest.episodes.subscriptions'' KindRead FamRest ''List episode webhooks'',
      act ''rest.memory_files.read'' KindRead FamRest ''Read file-shaped memory'',
      act ''rest.memory_files.write'' KindWrite FamRest ''Write file-shaped memory'',
      act ''rest.keys.issue'' KindAdmin FamRest ''Issue an API key'',
      act ''rest.keys.list'' KindRead FamRest ''List API keys'',
      act ''rest.keys.revoke'' KindAdmin FamRest ''Revoke an API key'',
      act ''rest.episodes.unsubscribe'' KindAdmin FamRest ''Delete an episode webhook'',
      act ''rest.registry.checkout'' KindWrite FamRest ''Create pack checkout session'',
      act ''rest.evidence.raw'' KindRead FamRest ''Read raw evidence bytes'',
      act ''rest.evidence.grant'' KindWrite FamRest ''Grant evidence access'',
      act ''rest.evidence.revoke'' KindWrite FamRest ''Revoke an evidence grant'',
      act ''rest.evidence.grants'' KindRead FamRest ''List evidence grants'',
      act ''get_user_profile'' KindRead FamRest ''Get user profile'']"

definition ACTIONS :: "(string \<times> action_spec) list" where
  "ACTIONS = MCP_ACTIONS @ REST_ACTIONS"

text \<open>
  \<open>actionKind\<close>.  A name every object inherits (\<open>constructor\<close>, \<open>toString\<close>, \dots) is found by
  the lookup, is truthy and has no \<open>kind\<close>: the result is then undefined (None).
\<close>

definition actionKind :: "string \<Rightarrow> action_kind option" where
  "actionKind action =
     (case map_of ACTIONS action of
        Some spec \<Rightarrow> Some (ac_kind spec)
      | None \<Rightarrow>
          if action \<in> set object_prototype_names then None
          else if starts_with ''GET '' action then Some KindRead
          else Some KindWrite)"

record compiled_action_rule =
  ca_id :: string
  ca_effect :: effect
  ca_names :: "string list"
  ca_macros :: "string list"

definition actionRuleMatches :: "compiled_action_rule \<Rightarrow> string \<Rightarrow> action_kind option \<Rightarrow> bool" where
  "actionRuleMatches rule action kind =
     (if action \<in> set (ca_names rule) then True
      else if ''@all'' \<in> set (ca_macros rule) then True
      else if ''@readonly'' \<in> set (ca_macros rule) \<and> kind = Some KindRead then True
      else if ''@write'' \<in> set (ca_macros rule) \<and> kind = Some KindWrite then True
      else False)"

lemma actionRuleMatches_iff [policy_simps]:
  "actionRuleMatches rule action kind \<longleftrightarrow>
     action \<in> set (ca_names rule) \<or> ''@all'' \<in> set (ca_macros rule) \<or>
     (''@readonly'' \<in> set (ca_macros rule) \<and> kind = Some KindRead) \<or>
     (''@write'' \<in> set (ca_macros rule) \<and> kind = Some KindWrite)"
  by (simp add: actionRuleMatches_def)

lemma actionKind_registered: "map_of ACTIONS a = Some s \<Longrightarrow> actionKind a = Some (ac_kind s)"
  by (simp add: actionKind_def)

lemma actionKind_fallback:
  "map_of ACTIONS a = None \<Longrightarrow> a \<notin> set object_prototype_names \<Longrightarrow>
     actionKind a = Some (if starts_with ''GET '' a then KindRead else KindWrite)"
  by (simp add: actionKind_def)

end
