(* ===== verification/PolicyCompile.thy ===== *)
theory PolicyCompile imports ActionRegistry begin

text \<open>
  \<open>src/policy/policy-compile.ts\<close>: an attribute reader and a matcher per condition, the
  rules split by effect, the activity window, and the fail-closed sentinel set.  The
  compiled condition holds its matcher as a function, as the code holds a closure.
\<close>

section \<open>Row views\<close>

record row_view =
  rv_predicate :: string
  rv_piiClass :: string
  rv_source :: jval         \<comment> \<open>an object, or null\<close>
  rv_trust :: jval
  rv_corroboration :: jval
  rv_userId :: jval

definition accessor :: "string \<Rightarrow> row_view \<Rightarrow> jval" where
  "accessor attr v =
     (if attr = ''predicate'' then JStr (rv_predicate v)
      else if attr = ''piiClass'' then JStr (rv_piiClass v)
      else if attr = ''provenance.purged'' then jget (rv_source v) ''provenancePurged''
      else if attr = ''userId'' then rv_userId v
      else if attr = ''corroboration.count'' then jget (rv_corroboration v) ''count''
      else if starts_with ''trust.'' attr then jget (rv_trust v) (drop 6 attr)
      else if starts_with ''source.meta.'' attr then
        (let meta = jget (rv_source v) ''meta''
         in if \<not> is_object meta then JUndef else jget meta (drop 12 attr))
      else if starts_with ''source.'' attr then jget (rv_source v) (drop 7 attr)
      else JUndef)"

section \<open>Conditions\<close>

datatype expected = ExNull | ExScalar match_value | ExSet "string list"

record compiled_condition =
  cc_attr :: string
  cc_op :: match_op
  cc_expected :: expected
  cc_matches :: "row_view \<Rightarrow> bool"
  cc_actual :: "row_view \<Rightarrow> jval"

text \<open>Coercions of a condition's value where an operator meets a value of another type.\<close>

definition value_string :: "js_lib \<Rightarrow> match_value \<Rightarrow> string" where
  "value_string js v = (case v of VStr s \<Rightarrow> s | VNum q \<Rightarrow> num_str js q
      | VBool b \<Rightarrow> (if b then ''true'' else ''false'')
      | VList xs \<Rightarrow> join '','' xs | VAbsent \<Rightarrow> ''undefined'')"

definition value_number :: "js_lib \<Rightarrow> match_value \<Rightarrow> jnum" where
  "value_number js v = (case v of VNum q \<Rightarrow> JFin q | VBool b \<Rightarrow> JFin (if b then 1 else 0)
      | VStr s \<Rightarrow> str_num js s | VList xs \<Rightarrow> str_num js (join '','' xs) | VAbsent \<Rightarrow> JNaN)"

text \<open>\<open>new Set(value)\<close>: None where the value is not iterable.\<close>

definition value_set :: "match_value \<Rightarrow> string list option" where
  "value_set v = (case v of VList xs \<Rightarrow> Some (dedupe xs)
      | VStr s \<Rightarrow> Some (dedupe (map (\<lambda>c. [c]) s))
      | VAbsent \<Rightarrow> Some [] | VNum _ \<Rightarrow> None | VBool _ \<Rightarrow> None)"

definition num_cmp :: "match_op \<Rightarrow> rat \<Rightarrow> jnum \<Rightarrow> bool" where
  "num_cmp p x want =
     (case want of JNaN \<Rightarrow> False
      | JPosInf \<Rightarrow> p = OpLte \<or> p = OpLt
      | JNegInf \<Rightarrow> p = OpGte \<or> p = OpGt
      | JFin w \<Rightarrow>
          (if p = OpGte then x \<ge> w else if p = OpGt then x > w
           else if p = OpLte then x \<le> w else x < w))"

definition match_numeric :: "match_op \<Rightarrow> jnum \<Rightarrow> jval \<Rightarrow> bool" where
  "match_numeric p want x = (case x of JNum (JFin q) \<Rightarrow> num_cmp p q want | _ \<Rightarrow> False)"

definition match_string :: "(string \<Rightarrow> bool) \<Rightarrow> jval \<Rightarrow> bool" where
  "match_string f x = (case x of JStr s \<Rightarrow> f s | _ \<Rightarrow> False)"

text \<open>The result is None where building the matcher throws a TypeError.\<close>

definition compileCondition :: "js_lib \<Rightarrow> match_condition \<Rightarrow> compiled_condition option" where
  "compileCondition js cond =
     (let get = accessor (mc_attr cond);
          mk = (\<lambda>ex m. Some \<lparr>cc_attr = mc_attr cond, cc_op = mc_op cond, cc_expected = ex,
                            cc_matches = m, cc_actual = get\<rparr>)
      in case mc_op cond of
           OpExists \<Rightarrow> mk ExNull (\<lambda>v. present (get v))
         | OpNotExists \<Rightarrow> mk ExNull (\<lambda>v. \<not> present (get v))
         | OpEq \<Rightarrow> mk (ExScalar (mc_value cond))
             (\<lambda>v. present (get v) \<and> strict_eq (get v) (value_jval (mc_value cond)))
         | OpIn \<Rightarrow>
             (case value_set (mc_value cond) of None \<Rightarrow> None
              | Some xs \<Rightarrow> mk (ExSet xs) (\<lambda>v. match_string (\<lambda>s. s \<in> set xs) (get v)))
         | OpPrefix \<Rightarrow> mk (ExScalar (mc_value cond))
             (\<lambda>v. match_string (starts_with (value_string js (mc_value cond))) (get v))
         | p \<Rightarrow> mk (ExScalar (mc_value cond))
             (\<lambda>v. match_numeric p (value_number js (mc_value cond)) (get v)))"

section \<open>Rules and sets\<close>

record compiled_source_rule =
  cr_id :: string
  cr_effect :: effect
  cr_conditions :: "compiled_condition list"

definition compileSourceRule :: "js_lib \<Rightarrow> policy_rule \<Rightarrow> compiled_source_rule option" where
  "compileSourceRule js r =
     (case map_opt (compileCondition js) (case pr_match r of None \<Rightarrow> [] | Some ms \<Rightarrow> ms) of
        None \<Rightarrow> None
      | Some cs \<Rightarrow> Some \<lparr>cr_id = pr_id r, cr_effect = pr_effect r, cr_conditions = cs\<rparr>)"

definition compileActionRule :: "policy_rule \<Rightarrow> compiled_action_rule" where
  "compileActionRule r =
     (let as = (case pr_actions r of None \<Rightarrow> [] | Some as \<Rightarrow> as)
      in \<lparr>ca_id = pr_id r, ca_effect = pr_effect r,
          ca_names = dedupe (filter (\<lambda>a. \<not> starts_with ''@'' a) as),
          ca_macros = dedupe (filter (starts_with ''@'') as)\<rparr>)"

record compiled_policy_set =
  cs_name :: string
  cs_mode :: policy_mode
  cs_posture :: posture
  cs_actionDeny :: "compiled_action_rule list"
  cs_actionAllow :: "compiled_action_rule list"
  cs_sourceDeny :: "compiled_source_rule list"
  cs_sourceAllow :: "compiled_source_rule list"
  cs_document :: policy_document

text \<open>The four lists the rule loop fills, in order.\<close>

definition rules_for :: "rule_kind \<Rightarrow> effect \<Rightarrow> policy_document \<Rightarrow> policy_rule list" where
  "rules_for k e d =
     filter (\<lambda>r. pr_enabled r \<and> pr_kind r = k \<and> pr_effect r = e) (pd_rules d)"

datatype compile_result = CompileThrew | CompileNull | CompileSet compiled_policy_set

definition before_window :: "js_lib \<Rightarrow> int \<Rightarrow> policy_document \<Rightarrow> bool" where
  "before_window js now d =
     (case window_bound (pd_activeFrom d) of None \<Rightarrow> False
      | Some f \<Rightarrow> (case date_ms js f of None \<Rightarrow> False | Some t \<Rightarrow> now < t))"

definition after_window :: "js_lib \<Rightarrow> int \<Rightarrow> policy_document \<Rightarrow> bool" where
  "after_window js now d =
     (case window_bound (pd_activeUntil d) of None \<Rightarrow> False
      | Some u \<Rightarrow> (case date_ms js u of None \<Rightarrow> False | Some t \<Rightarrow> t \<le> now))"

definition compilePolicySet :: "js_lib \<Rightarrow> int \<Rightarrow> policy_document \<Rightarrow> compile_result" where
  "compilePolicySet js now doc =
     (if pd_mode doc = Disabled then CompileNull
      else if before_window js now doc then CompileNull
      else if after_window js now doc then CompileNull
      else
        (case (map_opt (compileSourceRule js) (rules_for RuleSource Deny doc),
               map_opt (compileSourceRule js) (rules_for RuleSource Allow doc)) of
           (Some sd, Some sa) \<Rightarrow>
             CompileSet \<lparr>cs_name = pd_name doc, cs_mode = pd_mode doc,
               cs_posture = pd_posture doc,
               cs_actionDeny = map compileActionRule (rules_for RuleAction Deny doc),
               cs_actionAllow = map compileActionRule (rules_for RuleAction Allow doc),
               cs_sourceDeny = sd, cs_sourceAllow = sa, cs_document = doc\<rparr>
         | _ \<Rightarrow> CompileThrew))"

definition denyAllSet :: "string \<Rightarrow> compiled_policy_set" where
  "denyAllSet name =
     (let doc = \<lparr>pd_name = name,
                 pd_description = ''fail-closed: referenced policy set not found'',
                 pd_posture = \<lparr>po_actions = Deny, po_reads = Deny\<rparr>,
                 pd_mode = Enforce, pd_activeFrom = None, pd_activeUntil = None, pd_rules = []\<rparr>
      in \<lparr>cs_name = name, cs_mode = Enforce, cs_posture = pd_posture doc,
          cs_actionDeny = [], cs_actionAllow = [], cs_sourceDeny = [], cs_sourceAllow = [],
          cs_document = doc\<rparr>)"

section \<open>Facts\<close>

lemma compileCondition_fields:
  "compileCondition js c = Some cc \<Longrightarrow>
     cc_attr cc = mc_attr c \<and> cc_op cc = mc_op c \<and> cc_actual cc = accessor (mc_attr c)"
  by (auto simp: compileCondition_def Let_def split: match_op.splits option.splits)

lemma value_fits_compiles:
  "value_fits (mc_op c) t (mc_value c) \<Longrightarrow> compileCondition js c \<noteq> None"
  by (cases "mc_op c"; cases "mc_value c")
    (auto simp: compileCondition_def value_set_def Let_def)

text \<open>Absence never matches a value comparison.\<close>

lemma absent_never_matches:
  assumes "compileCondition js c = Some cc" "\<not> present (accessor (mc_attr c) v)"
  shows "cc_matches cc v = (mc_op c = OpNotExists)"
  using assms
  by (cases "mc_op c"; cases "accessor (mc_attr c) v")
    (auto simp: compileCondition_def Let_def present_def match_string_def match_numeric_def
          split: option.splits)

lemma accepted_condition_compiles:
  "refine_match_condition c = Some [] \<Longrightarrow> compileCondition js c \<noteq> None"
  unfolding refine_match_condition_iff using value_fits_compiles by blast

lemma accepted_rule_compiles: "rule_accepted r \<Longrightarrow> compileSourceRule js r \<noteq> None"
  unfolding compileSourceRule_def rule_accepted_def list_all_iff
  by (auto split: option.splits)
    (metis accepted_condition_compiles map_opt_total option.distinct(1))+

lemma accepted_document_compiles:
  assumes "document_accepted js d"
  shows "\<exists>rs. map_opt (compileSourceRule js) (rules_for k e d) = Some rs"
proof (rule map_opt_total, rule ballI)
  fix r assume "r \<in> set (rules_for k e d)"
  then have "r \<in> set (pd_rules d)" by (simp add: rules_for_def)
  with assms have "rule_accepted r" by (simp add: document_accepted_def list_all_iff)
  then show "compileSourceRule js r \<noteq> None" by (rule accepted_rule_compiles)
qed

lemma compiled_fields:
  assumes "compilePolicySet js now d = CompileSet s"
  shows "cs_name s = pd_name d" "cs_mode s = pd_mode d" "cs_posture s = pd_posture d"
    "cs_document s = d" "pd_mode d \<noteq> Disabled"
    "cs_actionDeny s = map compileActionRule (rules_for RuleAction Deny d)"
    "cs_actionAllow s = map compileActionRule (rules_for RuleAction Allow d)"
    "map_opt (compileSourceRule js) (rules_for RuleSource Deny d) = Some (cs_sourceDeny s)"
    "map_opt (compileSourceRule js) (rules_for RuleSource Allow d) = Some (cs_sourceAllow s)"
  using assms by (auto simp: compilePolicySet_def split: if_splits option.splits)

lemma map_opt_pairs: "map_opt f xs = Some ys \<Longrightarrow> list_all2 (\<lambda>x y. f x = Some y) xs ys"
  by (induction xs arbitrary: ys) (auto split: option.splits)

lemma rules_for_partition:
  "length (rules_for RuleSource Deny d) + length (rules_for RuleSource Allow d) +
   length (rules_for RuleAction Deny d) + length (rules_for RuleAction Allow d) =
   length (filter pr_enabled (pd_rules d))"
proof -
  have "length (filter (\<lambda>r. pr_enabled r \<and> pr_kind r = RuleSource \<and> pr_effect r = Deny) rs) +
      length (filter (\<lambda>r. pr_enabled r \<and> pr_kind r = RuleSource \<and> pr_effect r = Allow) rs) +
      length (filter (\<lambda>r. pr_enabled r \<and> pr_kind r = RuleAction \<and> pr_effect r = Deny) rs) +
      length (filter (\<lambda>r. pr_enabled r \<and> pr_kind r = RuleAction \<and> pr_effect r = Allow) rs) =
      length (filter pr_enabled rs)" for rs
  proof (induction rs)
    case (Cons r rs)
    then show ?case by (cases "pr_kind r"; cases "pr_effect r") auto
  qed simp
  then show ?thesis by (simp add: rules_for_def)
qed

section \<open>Sample data\<close>

definition sample_js :: js_lib where
  "sample_js = \<lparr>num_str = (\<lambda>_. ''0''), str_num = (\<lambda>_. JNaN), date_ms = (\<lambda>_. None)\<rparr>"

definition sample_rule :: policy_rule where
  "sample_rule = \<lparr>pr_id = ''r1'', pr_effect = Deny, pr_kind = RuleSource, pr_enabled = True,
     pr_description = None, pr_actions = None,
     pr_match = Some [\<lparr>mc_attr = ''source.meta.data_class'', mc_op = OpEq, mc_value = VStr ''hr''\<rparr>]\<rparr>"

definition sample_document :: "string \<Rightarrow> policy_document" where
  "sample_document name = \<lparr>pd_name = name, pd_description = [],
     pd_posture = \<lparr>po_actions = Allow, po_reads = Allow\<rparr>, pd_mode = Enforce,
     pd_activeFrom = None, pd_activeUntil = None, pd_rules = [sample_rule]\<rparr>"

lemma sample_accepted: "document_accepted sample_js (sample_document ''p1'')"
  by code_simp

section \<open>Properties\<close>

text \<open>C30: A document the schema accepts never makes the compiler throw, at any time.  It compiles to
  nothing exactly when it is disabled or outside its window, and otherwise to a set with the document's
  name, mode and posture whose four lists are, rule by rule and in the order of the document, the
  compilations of the enabled rules of that kind and effect; together they have as many rules as are
  enabled.\<close>

theorem accepted_documents_compile:
  assumes "document_accepted js d"
  shows "if pd_mode d = Disabled \<or> before_window js now d \<or> after_window js now d
         then compilePolicySet js now d = CompileNull
         else \<exists>s. compilePolicySet js now d = CompileSet s \<and>
            cs_name s = pd_name d \<and> cs_mode s = pd_mode d \<and> cs_posture s = pd_posture d \<and>
            list_all2 (\<lambda>r c. compileSourceRule js r = Some c)
              (filter (\<lambda>r. pr_enabled r \<and> pr_kind r = RuleSource \<and> pr_effect r = Deny) (pd_rules d)) (cs_sourceDeny s) \<and>
            list_all2 (\<lambda>r c. compileSourceRule js r = Some c)
              (filter (\<lambda>r. pr_enabled r \<and> pr_kind r = RuleSource \<and> pr_effect r = Allow) (pd_rules d)) (cs_sourceAllow s) \<and>
            list_all2 (\<lambda>r c. compileActionRule r = c)
              (filter (\<lambda>r. pr_enabled r \<and> pr_kind r = RuleAction \<and> pr_effect r = Deny) (pd_rules d)) (cs_actionDeny s) \<and>
            list_all2 (\<lambda>r c. compileActionRule r = c)
              (filter (\<lambda>r. pr_enabled r \<and> pr_kind r = RuleAction \<and> pr_effect r = Allow) (pd_rules d)) (cs_actionAllow s) \<and>
            length (cs_sourceDeny s) + length (cs_sourceAllow s) +
            length (cs_actionDeny s) + length (cs_actionAllow s) =
            length (filter pr_enabled (pd_rules d))"
proof -
  obtain sd sa where sd: "map_opt (compileSourceRule js) (rules_for RuleSource Deny d) = Some sd"
    and sa: "map_opt (compileSourceRule js) (rules_for RuleSource Allow d) = Some sa"
    using accepted_document_compiles [OF assms] by blast
  have "length (rules_for RuleSource Deny d) + length (rules_for RuleSource Allow d) +
      length (rules_for RuleAction Deny d) + length (rules_for RuleAction Allow d) =
      length (filter pr_enabled (pd_rules d))"
    by (rule rules_for_partition)
  then show ?thesis
    using sd sa map_opt_length [OF sd] map_opt_length [OF sa] map_opt_pairs [OF sd] map_opt_pairs [OF sa]
    by (simp add: compilePolicySet_def rules_for_def list_all2_map2 list_all2_same)
qed

theorem accepted_documents_compile_witness:
  "document_accepted sample_js (sample_document ''p1'') \<and>
   (\<exists>s. compilePolicySet sample_js 0 (sample_document ''p1'') = CompileSet s \<and>
      length (cs_sourceDeny s) = 1)"
proof -
  have "compilePolicySet sample_js 0 (sample_document ''p1'') \<noteq> CompileNull"
    by (auto simp: compilePolicySet_def sample_document_def before_window_def after_window_def
        window_bound_def split: option.splits)
  with accepted_documents_compile [OF sample_accepted, of 0]
  obtain s where s: "compilePolicySet sample_js 0 (sample_document ''p1'') = CompileSet s"
    by (auto split: if_splits)
  have "map_opt (compileSourceRule sample_js) (rules_for RuleSource Deny (sample_document ''p1''))
      = Some (cs_sourceDeny s)"
    using compiled_fields(8) [OF s] .
  from map_opt_length [OF this] have "length (cs_sourceDeny s) = 1"
    by (simp add: rules_for_def sample_document_def sample_rule_def)
  with s sample_accepted show ?thesis by blast
qed

text \<open>Absence never matches.  When the attribute of a compiled condition is absent from a row
  (missing, null, or below a missing parent), the condition holds of the row only if its
  operator is \<open>not_exists\<close>; so a rule with any other condition on it does not match.\<close>

theorem absent_attribute_never_matches:
  assumes "compileSourceRule js r = Some rule" "c \<in> set (cr_conditions rule)"
    and "cc_op c \<noteq> OpNotExists" "\<not> present (cc_actual c v)"
  shows "\<not> list_all (\<lambda>c. cc_matches c v) (cr_conditions rule)"
proof -
  from assms(1,2) obtain m where m: "compileCondition js m = Some c"
    by (auto simp: compileSourceRule_def split: option.splits dest!: map_opt_set)
  from compileCondition_fields [OF m] have "\<not> present (accessor (mc_attr m) v)" "mc_op m \<noteq> OpNotExists"
    using assms(3,4) by simp_all
  with absent_never_matches [OF m] have "\<not> cc_matches c v" by simp
  with assms(2) show ?thesis by (auto simp: list_all_iff)
qed

definition sample_row :: "jval \<Rightarrow> row_view" where
  "sample_row src = \<lparr>rv_predicate = ''email'', rv_piiClass = ''none'', rv_source = src,
     rv_trust = JNull, rv_corroboration = JNull, rv_userId = JNull\<rparr>"

theorem absent_attribute_never_matches_witness:
  "\<exists>rule c. compileSourceRule sample_js sample_rule = Some rule \<and> c \<in> set (cr_conditions rule) \<and>
     \<not> present (cc_actual c (sample_row JNull)) \<and>
     \<not> list_all (\<lambda>c. cc_matches c (sample_row JNull)) (cr_conditions rule)"
proof -
  have "\<exists>rule. compileSourceRule sample_js sample_rule = Some rule"
    by (simp add: compileSourceRule_def sample_rule_def compileCondition_def Let_def)
  then obtain rule where rule: "compileSourceRule sample_js sample_rule = Some rule" ..
  then have "map_opt (compileCondition sample_js) (the (pr_match sample_rule)) = Some (cr_conditions rule)"
    by (auto simp: compileSourceRule_def sample_rule_def split: option.splits)
  from this [symmetric] obtain c where c: "cr_conditions rule = [c]"
      "cc_op c = OpEq" "cc_actual c = accessor ''source.meta.data_class''"
    by (auto simp: sample_rule_def compileCondition_def Let_def)
  then have "\<not> present (cc_actual c (sample_row JNull))"
    by (simp add: accessor_def sample_row_def present_def)
  with absent_attribute_never_matches [OF rule, of c] c rule show ?thesis by auto
qed

end
