(* ===== verification/PolicyEngine.thy ===== *)
theory PolicyEngine imports PolicyCompile "HOL-Library.Multiset" begin

text \<open>
  The pure evaluation core of \<open>src/policy/policy-engine.ts\<close>: deny overrides inside a set,
  the most restrictive set wins across sets, and the explain traces.  What holds for the
  action decision and for the row decision alike is proved once, in a locale over a
  per-set verdict, and the two verdict functions of the code interpret it.
\<close>

section \<open>Verdicts\<close>

record policy_context =
  cx_companyId :: string
  cx_keyHash :: string
  cx_sets :: "compiled_policy_set list"
  cx_forceReportOnly :: bool
  cx_resolutionError :: bool

record set_verdict =
  sv_set :: string
  sv_mode :: policy_mode
  sv_verdict :: effect
  sv_rule :: "string option"

record evaluation =
  ev_decision :: decision
  ev_verdicts :: "set_verdict list"

fun all_match :: "compiled_condition list \<Rightarrow> row_view \<Rightarrow> bool" where
  "all_match [] v = True"
| "all_match (c # cs) v = (if \<not> cc_matches c v then False else all_match cs v)"

definition sourceRuleMatches :: "compiled_source_rule \<Rightarrow> row_view \<Rightarrow> bool" where
  "sourceRuleMatches rule v = all_match (cr_conditions rule) v"

definition set_verdict_of :: "compiled_policy_set \<Rightarrow> effect \<Rightarrow> string option \<Rightarrow> set_verdict" where
  "set_verdict_of s e r =
     \<lparr>sv_set = cs_name s, sv_mode = cs_mode s, sv_verdict = e, sv_rule = r\<rparr>"

definition setVerdictForAction ::
    "compiled_policy_set \<Rightarrow> string \<Rightarrow> action_kind option \<Rightarrow> set_verdict" where
  "setVerdictForAction s action kind =
     (case find (\<lambda>r. actionRuleMatches r action kind) (cs_actionDeny s) of
        Some r \<Rightarrow> set_verdict_of s Deny (Some (ca_id r))
      | None \<Rightarrow>
          (case find (\<lambda>r. actionRuleMatches r action kind) (cs_actionAllow s) of
             Some r \<Rightarrow> set_verdict_of s Allow (Some (ca_id r))
           | None \<Rightarrow> set_verdict_of s (po_actions (cs_posture s)) None))"

definition setVerdictForRow :: "compiled_policy_set \<Rightarrow> row_view \<Rightarrow> set_verdict" where
  "setVerdictForRow s v =
     (case find (\<lambda>r. sourceRuleMatches r v) (cs_sourceDeny s) of
        Some r \<Rightarrow> set_verdict_of s Deny (Some (cr_id r))
      | None \<Rightarrow>
          (case find (\<lambda>r. sourceRuleMatches r v) (cs_sourceAllow s) of
             Some r \<Rightarrow> set_verdict_of s Allow (Some (cr_id r))
           | None \<Rightarrow> set_verdict_of s (po_reads (cs_posture s)) None))"

text \<open>The loop of \<open>combine\<close> over its two flags.\<close>

fun combine_flags :: "bool \<Rightarrow> set_verdict list \<Rightarrow> bool \<times> bool \<Rightarrow> bool \<times> bool" where
  "combine_flags forced [] flags = flags"
| "combine_flags forced (v # vs) (enforced, would) =
     (if sv_verdict v \<noteq> Deny then combine_flags forced vs (enforced, would)
      else if sv_mode v = Enforce \<and> \<not> forced then combine_flags forced vs (True, would)
      else combine_flags forced vs (enforced, True))"

definition combine :: "policy_context \<Rightarrow> set_verdict list \<Rightarrow> evaluation" where
  "combine ctx verdicts =
     (let (enforcedDeny, wouldDeny) = combine_flags (cx_forceReportOnly ctx) verdicts (False, False)
      in \<lparr>ev_decision = (if enforcedDeny then DecDeny else if wouldDeny then DecWouldDeny
                         else DecAllow),
          ev_verdicts = verdicts\<rparr>)"

definition evaluateAction ::
    "policy_context \<Rightarrow> string \<Rightarrow> action_kind option \<Rightarrow> evaluation" where
  "evaluateAction ctx action kind =
     combine ctx (map (\<lambda>s. setVerdictForAction s action kind) (cx_sets ctx))"

definition evaluateRow :: "policy_context \<Rightarrow> row_view \<Rightarrow> evaluation" where
  "evaluateRow ctx v = combine ctx (map (\<lambda>s. setVerdictForRow s v) (cx_sets ctx))"

text \<open>A retrieved fact row, untyped where the database leaves it untyped.\<close>

record fact_row =
  fr_id :: jval
  fr_predicate :: string
  fr_source :: jval
  fr_trust :: jval
  fr_corroboration :: jval
  fr_userId :: jval

definition toRowView :: "fact_row \<Rightarrow> (string \<Rightarrow> string) \<Rightarrow> row_view" where
  "toRowView row piiClassOf =
     \<lparr>rv_predicate = fr_predicate row,
      rv_piiClass = piiClassOf (fr_predicate row),
      rv_source = (if is_object (fr_source row) then fr_source row else JNull),
      rv_trust = nullish_or (fr_trust row) JNull,
      rv_corroboration = nullish_or (fr_corroboration row) JNull,
      rv_userId = nullish_or (fr_userId row) JNull\<rparr>"

section \<open>Explain traces\<close>

record field_trace =
  ft_attr :: string
  ft_op :: match_op
  ft_expected :: expected
  ft_actual :: jval
  ft_matched :: bool

record rule_trace =
  rt_rule :: string
  rt_effect :: effect
  rt_matched :: bool
  rt_fields :: "field_trace list option"

record set_trace =
  st_set :: string
  st_mode :: policy_mode
  st_verdict :: effect
  st_decidedBy :: string
  st_rules :: "rule_trace list"

definition traceSourceRule :: "compiled_source_rule \<Rightarrow> row_view \<Rightarrow> rule_trace" where
  "traceSourceRule rule v =
     (let fields = map (\<lambda>c. \<lparr>ft_attr = cc_attr c, ft_op = cc_op c, ft_expected = cc_expected c,
                              ft_actual = cc_actual c v, ft_matched = cc_matches c v\<rparr>)
                       (cr_conditions rule)
      in \<lparr>rt_rule = cr_id rule, rt_effect = cr_effect rule,
          rt_matched = list_all ft_matched fields, rt_fields = Some fields\<rparr>)"

definition decided_by :: "set_verdict \<Rightarrow> string" where
  "decided_by v = (case sv_rule v of None \<Rightarrow> ''posture'' | Some r \<Rightarrow> r)"

definition explainRow :: "policy_context \<Rightarrow> row_view \<Rightarrow> set_trace list" where
  "explainRow ctx v =
     map (\<lambda>s. let verdict = setVerdictForRow s v
              in \<lparr>st_set = cs_name s, st_mode = cs_mode s, st_verdict = sv_verdict verdict,
                  st_decidedBy = decided_by verdict,
                  st_rules = map (\<lambda>r. traceSourceRule r v) (cs_sourceDeny s @ cs_sourceAllow s)\<rparr>)
         (cx_sets ctx)"

definition explainAction ::
    "policy_context \<Rightarrow> string \<Rightarrow> action_kind option \<Rightarrow> set_trace list" where
  "explainAction ctx action kind =
     map (\<lambda>s. let verdict = setVerdictForAction s action kind
              in \<lparr>st_set = cs_name s, st_mode = cs_mode s, st_verdict = sv_verdict verdict,
                  st_decidedBy = decided_by verdict,
                  st_rules = map (\<lambda>r. \<lparr>rt_rule = ca_id r, rt_effect = ca_effect r,
                                       rt_matched = actionRuleMatches r action kind,
                                       rt_fields = None\<rparr>)
                                 (cs_actionDeny s @ cs_actionAllow s)\<rparr>)
         (cx_sets ctx)"

section \<open>Facts about the loops\<close>

lemma all_match_iff [simp]: "all_match cs v \<longleftrightarrow> (\<forall>c \<in> set cs. cc_matches c v)"
  by (induction cs) auto

lemma sourceRuleMatches_iff [policy_simps]:
  "sourceRuleMatches r v \<longleftrightarrow> (\<forall>c \<in> set (cr_conditions r). cc_matches c v)"
  by (simp add: sourceRuleMatches_def)

lemma set_verdict_of_simps [simp]:
  "sv_set (set_verdict_of s e r) = cs_name s"
  "sv_mode (set_verdict_of s e r) = cs_mode s"
  "sv_verdict (set_verdict_of s e r) = e"
  "sv_rule (set_verdict_of s e r) = r"
  by (simp_all add: set_verdict_of_def)

definition enforced_deny :: "bool \<Rightarrow> set_verdict \<Rightarrow> bool" where
  "enforced_deny forced v \<longleftrightarrow> sv_verdict v = Deny \<and> sv_mode v = Enforce \<and> \<not> forced"

lemma combine_flags_eq:
  "combine_flags forced vs (e, w) =
     (e \<or> (\<exists>v \<in> set vs. enforced_deny forced v),
      w \<or> (\<exists>v \<in> set vs. sv_verdict v = Deny \<and> \<not> enforced_deny forced v))"
  by (induction vs arbitrary: e w) (auto simp: enforced_deny_def)

lemma combine_verdicts [simp]: "ev_verdicts (combine ctx vs) = vs"
  by (simp add: combine_def Let_def split: prod.splits)

lemma combine_deny_iff [policy_simps]:
  "ev_decision (combine ctx vs) = DecDeny \<longleftrightarrow>
     (\<exists>v \<in> set vs. enforced_deny (cx_forceReportOnly ctx) v)"
  by (simp add: combine_def combine_flags_eq)

lemma combine_allow_iff [policy_simps]:
  "ev_decision (combine ctx vs) = DecAllow \<longleftrightarrow> (\<forall>v \<in> set vs. sv_verdict v \<noteq> Deny)"
  by (auto simp: combine_def combine_flags_eq enforced_deny_def)

lemma combine_decision_cong:
  "cx_forceReportOnly ctx = cx_forceReportOnly ctx' \<Longrightarrow> set vs = set vs' \<Longrightarrow>
     ev_decision (combine ctx vs) = ev_decision (combine ctx' vs')"
  by (simp add: combine_def combine_flags_eq)

lemma find_None_iff': "find P xs = None \<longleftrightarrow> (\<forall>x \<in> set xs. \<not> P x)"
  by (auto simp: find_None_iff)

lemma find_SomeD: "find P xs = Some x \<Longrightarrow> x \<in> set xs \<and> P x"
  by (metis find_Some_iff nth_mem)

section \<open>The contract of a per-set verdict\<close>

locale deny_overrides =
  fixes verdict :: "compiled_policy_set \<Rightarrow> 'q \<Rightarrow> set_verdict"
    and denied :: "compiled_policy_set \<Rightarrow> 'q \<Rightarrow> bool"
    and allowed :: "compiled_policy_set \<Rightarrow> 'q \<Rightarrow> bool"
    and default :: "compiled_policy_set \<Rightarrow> effect"
  assumes verdict_deny_iff:
      "sv_verdict (verdict s q) = Deny \<longleftrightarrow> denied s q \<or> (\<not> allowed s q \<and> default s = Deny)"
    and verdict_set: "sv_set (verdict s q) = cs_name s"
    and verdict_mode: "sv_mode (verdict s q) = cs_mode s"
begin

definition evaluate :: "policy_context \<Rightarrow> 'q \<Rightarrow> evaluation" where
  "evaluate ctx q = combine ctx (map (\<lambda>s. verdict s q) (cx_sets ctx))"

definition blocks :: "compiled_policy_set \<Rightarrow> 'q \<Rightarrow> bool" where
  "blocks s q \<longleftrightarrow> denied s q \<or> (\<not> allowed s q \<and> default s = Deny)"

lemma evaluate_deny_iff:
  "ev_decision (evaluate ctx q) = DecDeny \<longleftrightarrow>
     \<not> cx_forceReportOnly ctx \<and> (\<exists>s \<in> set (cx_sets ctx). cs_mode s = Enforce \<and> blocks s q)"
  by (auto simp: evaluate_def combine_deny_iff enforced_deny_def verdict_deny_iff verdict_mode
      blocks_def)

lemma evaluate_allow_iff:
  "ev_decision (evaluate ctx q) = DecAllow \<longleftrightarrow> (\<forall>s \<in> set (cx_sets ctx). \<not> blocks s q)"
  by (auto simp: evaluate_def combine_allow_iff verdict_deny_iff blocks_def)

lemma evaluate_more_sets_deny:
  assumes "set (cx_sets ctx) \<subseteq> set (cx_sets ctx')"
    "cx_forceReportOnly ctx' = cx_forceReportOnly ctx"
    "ev_decision (evaluate ctx q) = DecDeny"
  shows "ev_decision (evaluate ctx' q) = DecDeny"
  using assms by (auto simp: evaluate_deny_iff)

lemma evaluate_sets_order:
  assumes "set (cx_sets ctx) = set (cx_sets ctx')"
    "cx_forceReportOnly ctx = cx_forceReportOnly ctx'"
  shows "ev_decision (evaluate ctx q) = ev_decision (evaluate ctx' q)"
  unfolding evaluate_def using assms by (intro combine_decision_cong) auto

lemma evaluate_not_enforced:
  "cx_forceReportOnly ctx \<or> (\<forall>s \<in> set (cx_sets ctx). cs_mode s \<noteq> Enforce) \<Longrightarrow>
     ev_decision (evaluate ctx q) \<noteq> DecDeny"
  by (auto simp: evaluate_deny_iff)

lemma evaluate_forced_reports:
  "ev_decision (evaluate (ctx\<lparr>cx_forceReportOnly := True\<rparr>) q) =
     (if ev_decision (evaluate ctx q) = DecAllow then DecAllow else DecWouldDeny)"
proof -
  let ?d = "ev_decision (evaluate (ctx\<lparr>cx_forceReportOnly := True\<rparr>) q)"
  have "?d \<noteq> DecDeny" by (simp add: evaluate_deny_iff)
  moreover have "?d = DecAllow \<longleftrightarrow> ev_decision (evaluate ctx q) = DecAllow"
    by (simp add: evaluate_allow_iff)
  ultimately show ?thesis by (cases ?d) auto
qed

end

section \<open>The code's verdicts keep the contract\<close>

definition action_denied :: "compiled_policy_set \<Rightarrow> string \<times> action_kind option \<Rightarrow> bool" where
  "action_denied s q \<longleftrightarrow> (\<exists>r \<in> set (cs_actionDeny s). actionRuleMatches r (fst q) (snd q))"

definition action_allowed :: "compiled_policy_set \<Rightarrow> string \<times> action_kind option \<Rightarrow> bool" where
  "action_allowed s q \<longleftrightarrow> (\<exists>r \<in> set (cs_actionAllow s). actionRuleMatches r (fst q) (snd q))"

definition row_denied :: "compiled_policy_set \<Rightarrow> row_view \<Rightarrow> bool" where
  "row_denied s v \<longleftrightarrow> (\<exists>r \<in> set (cs_sourceDeny s). sourceRuleMatches r v)"

definition row_allowed :: "compiled_policy_set \<Rightarrow> row_view \<Rightarrow> bool" where
  "row_allowed s v \<longleftrightarrow> (\<exists>r \<in> set (cs_sourceAllow s). sourceRuleMatches r v)"

lemma setVerdictForAction_deny:
  "sv_verdict (setVerdictForAction s a k) = Deny \<longleftrightarrow>
     action_denied s (a, k) \<or> (\<not> action_allowed s (a, k) \<and> po_actions (cs_posture s) = Deny)"
  by (auto simp: setVerdictForAction_def action_denied_def action_allowed_def find_None_iff'
      simp del: actionRuleMatches_iff split: option.splits dest: find_SomeD)

lemma setVerdictForRow_deny:
  "sv_verdict (setVerdictForRow s v) = Deny \<longleftrightarrow>
     row_denied s v \<or> (\<not> row_allowed s v \<and> po_reads (cs_posture s) = Deny)"
  by (auto simp: setVerdictForRow_def row_denied_def row_allowed_def find_None_iff'
      split: option.splits dest: find_SomeD)

interpretation action_verdict: deny_overrides
  "\<lambda>s q. setVerdictForAction s (fst q) (snd q)" action_denied action_allowed
  "\<lambda>s. po_actions (cs_posture s)"
  by unfold_locales
    (simp_all add: setVerdictForAction_deny, simp_all add: setVerdictForAction_def split: option.splits)

interpretation row_verdict: deny_overrides
  setVerdictForRow row_denied row_allowed "\<lambda>s. po_reads (cs_posture s)"
  by unfold_locales
    (simp_all add: setVerdictForRow_deny, simp_all add: setVerdictForRow_def split: option.splits)

lemma evaluateAction_eq: "evaluateAction ctx a k = action_verdict.evaluate ctx (a, k)"
  by (simp add: evaluateAction_def action_verdict.evaluate_def)

lemma evaluateRow_eq: "evaluateRow ctx v = row_verdict.evaluate ctx v"
  by (simp add: evaluateRow_def row_verdict.evaluate_def)

section \<open>Properties\<close>

text \<open>C2: An action is denied exactly when the context is not forced to report only and some
  enforced set has a deny rule covering it, or no allow rule covering it and a posture of
  deny for actions; the order of rules and sets plays no part.\<close>

theorem action_denied_iff:
  "ev_decision (evaluateAction ctx a k) = DecDeny \<longleftrightarrow>
     \<not> cx_forceReportOnly ctx \<and>
     (\<exists>s \<in> set (cx_sets ctx). cs_mode s = Enforce \<and>
        ((\<exists>r \<in> set (cs_actionDeny s). actionRuleMatches r a k) \<or>
         (\<not> (\<exists>r \<in> set (cs_actionAllow s). actionRuleMatches r a k) \<and>
          po_actions (cs_posture s) = Deny)))"
  unfolding evaluateAction_eq action_verdict.evaluate_deny_iff action_verdict.blocks_def
    action_denied_def action_allowed_def fst_conv snd_conv ..

text \<open>C1: A row is denied exactly when the context is not forced to report only and some
  enforced set has a deny rule all of whose conditions hold of the row, or no such allow
  rule and a posture of deny for reads.\<close>

theorem row_denied_iff:
  "ev_decision (evaluateRow ctx v) = DecDeny \<longleftrightarrow>
     \<not> cx_forceReportOnly ctx \<and>
     (\<exists>s \<in> set (cx_sets ctx). cs_mode s = Enforce \<and>
        ((\<exists>r \<in> set (cs_sourceDeny s). list_all (\<lambda>c. cc_matches c v) (cr_conditions r)) \<or>
         (\<not> (\<exists>r \<in> set (cs_sourceAllow s). list_all (\<lambda>c. cc_matches c v) (cr_conditions r)) \<and>
          po_reads (cs_posture s) = Deny)))"
  unfolding evaluateRow_eq row_verdict.evaluate_deny_iff row_verdict.blocks_def
    row_denied_def row_allowed_def sourceRuleMatches_iff list_all_iff ..

text \<open>Attaching further policy sets never widens access: what the smaller context denies,
  the larger one denies, for actions and for rows.\<close>

theorem more_sets_never_widen:
  assumes "set (cx_sets ctx) \<subseteq> set (cx_sets ctx')"
    and "cx_forceReportOnly ctx' = cx_forceReportOnly ctx"
  shows "(ev_decision (evaluateAction ctx a k) = DecDeny \<longrightarrow>
            ev_decision (evaluateAction ctx' a k) = DecDeny) \<and>
         (ev_decision (evaluateRow ctx v) = DecDeny \<longrightarrow>
            ev_decision (evaluateRow ctx' v) = DecDeny)"
  unfolding evaluateAction_eq evaluateRow_eq
  using action_verdict.evaluate_more_sets_deny [OF assms, of "(a, k)"]
    row_verdict.evaluate_more_sets_deny [OF assms, of v]
  by blast

definition sample_context :: "compiled_policy_set list \<Rightarrow> policy_context" where
  "sample_context ss = \<lparr>cx_companyId = ''co'', cx_keyHash = ''k'', cx_sets = ss,
     cx_forceReportOnly = False, cx_resolutionError = False\<rparr>"

definition sample_view :: row_view where
  "sample_view = \<lparr>rv_predicate = ''email'', rv_piiClass = ''none'', rv_source = JNull,
     rv_trust = JNull, rv_corroboration = JNull, rv_userId = JNull\<rparr>"

lemma denyAll_sample:
  "ev_decision (evaluateAction (sample_context (denyAllSet n # ss)) a k) = DecDeny"
  "ev_decision (evaluateRow (sample_context (denyAllSet n # ss)) v) = DecDeny"
  unfolding evaluateAction_eq evaluateRow_eq action_verdict.evaluate_deny_iff
    row_verdict.evaluate_deny_iff action_verdict.blocks_def row_verdict.blocks_def
  by (simp_all add: sample_context_def denyAllSet_def action_allowed_def row_allowed_def Let_def)

theorem more_sets_never_widen_witness:
  "ev_decision (evaluateAction (sample_context [denyAllSet ''a'']) ''search_knowledge'' (Some KindRead)) = DecDeny \<and>
   ev_decision (evaluateAction (sample_context [denyAllSet ''b'', denyAllSet ''a'']) ''search_knowledge''
     (Some KindRead)) = DecDeny"
  using more_sets_never_widen
      [of "sample_context [denyAllSet ''a'']" "sample_context [denyAllSet ''b'', denyAllSet ''a'']"
          "''search_knowledge''" "Some KindRead" sample_view]
    denyAll_sample(1) [of "''a''" "[]" "''search_knowledge''" "Some KindRead"]
  by (simp add: sample_context_def)

text \<open>The kill switch turns every denial into a report and nothing else: with
  \<open>forceReportOnly\<close> the decision is allow where it was allow and would-deny where any set
  denied, for actions and for rows.\<close>

lemma forced_report_only:
  "ev_decision (evaluateAction (ctx\<lparr>cx_forceReportOnly := True\<rparr>) a k) =
     (if ev_decision (evaluateAction ctx a k) = DecAllow then DecAllow else DecWouldDeny) \<and>
   ev_decision (evaluateRow (ctx\<lparr>cx_forceReportOnly := True\<rparr>) v) =
     (if ev_decision (evaluateRow ctx v) = DecAllow then DecAllow else DecWouldDeny)"
  unfolding evaluateAction_eq evaluateRow_eq
    action_verdict.evaluate_forced_reports row_verdict.evaluate_forced_reports
  by (rule conjI) (rule refl)+

text \<open>Explain agrees with enforcement.  The traces list the sets in order with the verdicts
  the evaluation combined, and every rule's trace says whether that rule matches the row.\<close>

theorem explain_agrees:
  "map (\<lambda>t. (st_set t, st_mode t, st_verdict t)) (explainRow ctx v) =
     map (\<lambda>x. (sv_set x, sv_mode x, sv_verdict x)) (ev_verdicts (evaluateRow ctx v)) \<and>
   map (\<lambda>t. map rt_matched (st_rules t)) (explainRow ctx v) =
     map (\<lambda>s. map (\<lambda>r. sourceRuleMatches r v) (cs_sourceDeny s @ cs_sourceAllow s)) (cx_sets ctx) \<and>
   map (\<lambda>t. (st_set t, st_mode t, st_verdict t)) (explainAction ctx a k) =
     map (\<lambda>x. (sv_set x, sv_mode x, sv_verdict x)) (ev_verdicts (evaluateAction ctx a k))"
  by (simp add: explainRow_def explainAction_def evaluateRow_def evaluateAction_def Let_def
      row_verdict.verdict_set row_verdict.verdict_mode
      action_verdict.verdict_set [where q = "(a, k)", simplified]
      action_verdict.verdict_mode [where q = "(a, k)", simplified]
      traceSourceRule_def sourceRuleMatches_iff list_all_iff)

end
