(* ===== verification/DbFence.thy ===== *)
theory DbFence imports PolicyEngine begin

text \<open>
  The pushdown of deny rules to the database: \<open>src/policy/db-fence.ts\<close> extracts the rules
  made of equality conditions only, and the stored function \<open>fn::policy_row_denied\<close>
  (\<open>src/db/migrations/0057_abac_db_fence.surql\<close>) evaluates them on a stored row.
  Attributes are looked up by own key only: an accepted document holds no attribute that
  names a member of \<open>Object.prototype\<close>, since the schema's refinement throws on it.
\<close>

datatype pushdown_key = PkPredicate | PkVertical | PkRecorder | PkDocumentId | PkOriginKey

definition PUSHDOWN_ATTRS :: "(string \<times> pushdown_key) list" where
  "PUSHDOWN_ATTRS =
     [(''predicate'', PkPredicate),
      (''source.vertical'', PkVertical),
      (''source.recorder'', PkRecorder),
      (''source.documentId'', PkDocumentId),
      (''source.originKey'', PkOriginKey)]"

text \<open>A pushed rule: the lists present, by key.\<close>

type_synonym pushdown_rule = "(pushdown_key \<times> string list) list"

definition equalityValues :: "compiled_condition \<Rightarrow> string list option" where
  "equalityValues c =
     (case (cc_op c, cc_expected c) of
        (OpEq, ExScalar (VStr s)) \<Rightarrow> Some [s]
      | (OpIn, ExSet xs) \<Rightarrow> Some xs
      | _ \<Rightarrow> None)"

text \<open>The condition loop; None as soon as a condition makes the rule unpushable.\<close>

fun push_conditions :: "compiled_condition list \<Rightarrow> pushdown_rule \<Rightarrow> pushdown_rule option" where
  "push_conditions [] pushed = Some pushed"
| "push_conditions (c # cs) pushed =
     (case (map_of PUSHDOWN_ATTRS (cc_attr c), equalityValues c) of
        (Some k, Some vs) \<Rightarrow>
          (if map_of pushed k \<noteq> None then None
           else push_conditions cs (AList.update k vs pushed))
      | _ \<Rightarrow> None)"

definition push_rule :: "compiled_source_rule \<Rightarrow> pushdown_rule option" where
  "push_rule r =
     (if cr_conditions r = [] then None
      else (case push_conditions (cr_conditions r) [] of
              None \<Rightarrow> None
            | Some pushed \<Rightarrow> if pushed = [] then None else Some pushed))"

definition compileDenyPushdown :: "policy_context option \<Rightarrow> pushdown_rule list" where
  "compileDenyPushdown octx =
     (case octx of
        None \<Rightarrow> []
      | Some ctx \<Rightarrow>
          if cx_forceReportOnly ctx then []
          else concat (map (\<lambda>s. if cs_mode s \<noteq> Enforce then []
                 else List.map_filter push_rule (cs_sourceDeny s)) (cx_sets ctx)))"

section \<open>The stored function\<close>

text \<open>A field of the optional source object, NONE when absent.\<close>

definition sql_field :: "jval \<Rightarrow> string \<Rightarrow> jval" where
  "sql_field src k = (case src of JObj kvs \<Rightarrow> (case map_of kvs k of Some v \<Rightarrow> v | None \<Rightarrow> JUndef)
                       | _ \<Rightarrow> JUndef)"

definition sql_inside :: "jval \<Rightarrow> string list \<Rightarrow> bool" where
  "sql_inside v xs = (case v of JStr s \<Rightarrow> s \<in> set xs | _ \<Rightarrow> False)"

definition sql_key_value :: "pushdown_key \<Rightarrow> string \<Rightarrow> jval \<Rightarrow> jval" where
  "sql_key_value k predicate src =
     (case k of
        PkPredicate \<Rightarrow> JStr predicate
      | PkVertical \<Rightarrow> nullish_or (sql_field src ''vertical'') (JStr [])
      | PkRecorder \<Rightarrow> nullish_or (sql_field src ''recorder'') (JStr [])
      | PkDocumentId \<Rightarrow> nullish_or (sql_field src ''documentId'') (JStr [])
      | PkOriginKey \<Rightarrow> nullish_or (sql_field src ''originKey'') (JStr []))"

definition pushdown_keys :: "pushdown_key list" where
  "pushdown_keys = [PkPredicate, PkVertical, PkRecorder, PkDocumentId, PkOriginKey]"

definition sql_rule_denies :: "string \<Rightarrow> jval \<Rightarrow> pushdown_rule \<Rightarrow> bool" where
  "sql_rule_denies predicate src rule =
     list_all (\<lambda>k. case map_of rule k of None \<Rightarrow> True
                   | Some xs \<Rightarrow> sql_inside (sql_key_value k predicate src) xs) pushdown_keys"

definition policy_row_denied :: "string \<Rightarrow> jval \<Rightarrow> pushdown_rule list \<Rightarrow> bool" where
  "policy_row_denied predicate src deny =
     (length (filter (sql_rule_denies predicate src) deny) > 0)"

section \<open>Facts\<close>

lemma policy_row_denied_iff:
  "policy_row_denied p src deny \<longleftrightarrow> (\<exists>r \<in> set deny. sql_rule_denies p src r)"
  by (auto simp: policy_row_denied_def filter_empty_conv)

lemma sql_rule_denies_iff:
  "sql_rule_denies p src rule \<longleftrightarrow>
     (\<forall>k xs. map_of rule k = Some xs \<longrightarrow> sql_inside (sql_key_value k p src) xs)"
proof -
  have "k \<in> set pushdown_keys" for k by (cases k) (simp_all add: pushdown_keys_def)
  then show ?thesis
    by (auto simp: sql_rule_denies_def list_all_iff split: option.splits)
qed

lemma push_conditions_Cons:
  assumes "push_conditions (c # cs) pushed = Some out"
  obtains k vs where "map_of PUSHDOWN_ATTRS (cc_attr c) = Some k" "equalityValues c = Some vs"
    "map_of pushed k = None" "push_conditions cs (AList.update k vs pushed) = Some out"
  using assms by (auto split: option.splits if_splits)

lemma push_conditions_keeps:
  "push_conditions cs pushed = Some out \<Longrightarrow> map_of pushed k = Some vs \<Longrightarrow> map_of out k = Some vs"
proof (induction cs arbitrary: pushed)
  case (Cons c cs)
  from Cons.prems(1) obtain k' vs' where "map_of pushed k' = None"
      "push_conditions cs (AList.update k' vs' pushed) = Some out"
    by (rule push_conditions_Cons)
  with Cons.prems(2) show ?case by (intro Cons.IH [of "AList.update k' vs' pushed"]) auto
qed simp

lemma push_conditions_covers:
  assumes "push_conditions cs pushed = Some out" "c \<in> set cs"
  shows "\<exists>k vs. map_of PUSHDOWN_ATTRS (cc_attr c) = Some k \<and> equalityValues c = Some vs \<and>
           map_of out k = Some vs"
  using assms
proof (induction cs arbitrary: pushed)
  case (Cons c' cs)
  from Cons.prems(1) obtain k vs where kv: "map_of PUSHDOWN_ATTRS (cc_attr c') = Some k"
      "equalityValues c' = Some vs" "map_of pushed k = None"
      "push_conditions cs (AList.update k vs pushed) = Some out"
    by (rule push_conditions_Cons)
  show ?case
  proof (cases "c = c'")
    case True
    have "map_of out k = Some vs"
      by (rule push_conditions_keeps [OF kv(4)]) simp
    with kv True show ?thesis by blast
  next
    case False
    with Cons.prems(2) have "c \<in> set cs" by simp
    then show ?thesis by (rule Cons.IH [OF kv(4)])
  qed
qed simp

text \<open>A pushed rule comes from a deny rule of an enforced set.\<close>

lemma compileDenyPushdown_mem:
  assumes "p \<in> set (compileDenyPushdown (Some ctx))"
  shows "\<not> cx_forceReportOnly ctx"
    "\<exists>s \<in> set (cx_sets ctx). cs_mode s = Enforce \<and>
       (\<exists>r \<in> set (cs_sourceDeny s). push_rule r = Some p)"
  using assms
  by (auto simp: compileDenyPushdown_def map_filter_def split: if_splits intro!: bexI)

text \<open>What the application reads for a pushable attribute.\<close>

definition key_attr :: "pushdown_key \<Rightarrow> string" where
  "key_attr k = (case k of PkPredicate \<Rightarrow> ''predicate'' | PkVertical \<Rightarrow> ''source.vertical''
     | PkRecorder \<Rightarrow> ''source.recorder'' | PkDocumentId \<Rightarrow> ''source.documentId''
     | PkOriginKey \<Rightarrow> ''source.originKey'')"

lemma PUSHDOWN_ATTRS_key: "map_of PUSHDOWN_ATTRS a = Some k \<Longrightarrow> a = key_attr k"
  by (auto simp: PUSHDOWN_ATTRS_def key_attr_def split: if_splits)

definition stored_source :: "jval \<Rightarrow> bool" where
  "stored_source src \<longleftrightarrow> src = JUndef \<or> src = JNull \<or> (\<exists>kvs. src = JObj kvs)"

lemma sql_inside_app:
  assumes "stored_source (fr_source row)"
    "sql_inside (sql_key_value k (fr_predicate row) (fr_source row)) xs"
    "k \<noteq> PkPredicate \<Longrightarrow> [] \<notin> set xs"
  shows "\<exists>s \<in> set xs. accessor (key_attr k) (toRowView row pii) = JStr s"
  using assms
  by (cases k)
    (auto simp: key_attr_def accessor_def toRowView_def sql_key_value_def sql_inside_def
      sql_field_def stored_source_def nullish_or_def nullish_def present_def
      split: jval.splits option.splits if_splits)

text \<open>A compiled equality condition matches exactly the strings it lists.\<close>

lemma equality_condition_matches:
  assumes "compileCondition js c = Some cc" "equalityValues cc = Some vs"
    "accessor (mc_attr c) v = JStr s" "s \<in> set vs"
  shows "cc_matches cc v"
  using assms
  by (cases "mc_op c"; cases "mc_value c")
    (auto simp: compileCondition_def equalityValues_def Let_def present_def strict_eq_def
      match_string_def split: option.splits)

definition compiled_by :: "js_lib \<Rightarrow> compiled_policy_set \<Rightarrow> bool" where
  "compiled_by js s \<longleftrightarrow> (\<exists>now d. compilePolicySet js now d = CompileSet s) \<or> (\<exists>n. s = denyAllSet n)"

lemma compiled_by_condition:
  assumes "compiled_by js s" "r \<in> set (cs_sourceDeny s)" "cc \<in> set (cr_conditions r)"
  shows "\<exists>c. compileCondition js c = Some cc"
proof -
  from assms(1,2) obtain now d where d: "compilePolicySet js now d = CompileSet s"
    by (auto simp: compiled_by_def denyAllSet_def Let_def)
  from compiled_fields(8) [OF d] assms(2) obtain pr where "compileSourceRule js pr = Some r"
    by (auto dest: map_opt_set)
  with assms(3) show ?thesis
    by (auto simp: compileSourceRule_def split: option.splits dest!: map_opt_set)
qed

definition no_empty_value :: "pushdown_rule list \<Rightarrow> bool" where
  "no_empty_value ps \<longleftrightarrow> (\<forall>p \<in> set ps. \<forall>kv \<in> set p. fst kv \<noteq> PkPredicate \<longrightarrow> [] \<notin> set (snd kv))"

lemma pushed_rule_matches:
  assumes s: "compiled_by js s" "r \<in> set (cs_sourceDeny s)" and p: "push_rule r = Some p"
    and src: "stored_source (fr_source row)"
    and ne: "\<forall>kv \<in> set p. fst kv \<noteq> PkPredicate \<longrightarrow> [] \<notin> set (snd kv)"
    and deny: "sql_rule_denies (fr_predicate row) (fr_source row) p"
  shows "sourceRuleMatches r (toRowView row pii)"
  unfolding sourceRuleMatches_iff
proof
  fix cc assume cc: "cc \<in> set (cr_conditions r)"
  obtain c where c: "compileCondition js c = Some cc"
    using compiled_by_condition [OF s cc] ..
  from p have "push_conditions (cr_conditions r) [] = Some p"
    by (auto simp: push_rule_def split: if_splits option.splits)
  from push_conditions_covers [OF this cc] obtain k vs
    where k: "map_of PUSHDOWN_ATTRS (cc_attr cc) = Some k" "equalityValues cc = Some vs"
      "map_of p k = Some vs" by blast
  have attr: "mc_attr c = key_attr k"
    using PUSHDOWN_ATTRS_key [OF k(1)] compileCondition_fields [OF c] by simp
  have "k \<noteq> PkPredicate \<Longrightarrow> [] \<notin> set vs"
    using ne map_of_SomeD [OF k(3)] by fastforce
  moreover have "sql_inside (sql_key_value k (fr_predicate row) (fr_source row)) vs"
    using deny k(3) by (simp add: sql_rule_denies_iff)
  ultimately obtain x where "x \<in> set vs" "accessor (mc_attr c) (toRowView row pii) = JStr x"
    using sql_inside_app [OF src, of k vs pii] attr by auto
  then show "cc_matches cc (toRowView row pii)"
    using equality_condition_matches [OF c k(2)] by blast
qed

section \<open>Properties\<close>

text \<open>C34: The database fence never denies what the application would serve.  For compiled sets
  whose pushed lists hold no empty string (other than for the predicate), a stored row the
  fence denies is denied by the evaluation of that row.\<close>

theorem fence_has_no_false_denial:
  assumes "\<forall>s \<in> set (cx_sets ctx). compiled_by js s"
    and "no_empty_value (compileDenyPushdown (Some ctx))"
    and "stored_source (fr_source row)"
    and "policy_row_denied (fr_predicate row) (fr_source row) (compileDenyPushdown (Some ctx))"
  shows "ev_decision (evaluateRow ctx (toRowView row pii)) = DecDeny"
proof -
  from assms(4) obtain p where p: "p \<in> set (compileDenyPushdown (Some ctx))"
      "sql_rule_denies (fr_predicate row) (fr_source row) p"
    by (auto simp: policy_row_denied_iff)
  from compileDenyPushdown_mem [OF p(1)] obtain s r where sr: "\<not> cx_forceReportOnly ctx"
      "s \<in> set (cx_sets ctx)" "cs_mode s = Enforce" "r \<in> set (cs_sourceDeny s)" "push_rule r = Some p"
    by blast
  have ne: "\<forall>kv \<in> set p. fst kv \<noteq> PkPredicate \<longrightarrow> [] \<notin> set (snd kv)"
    using assms(2) p(1) by (simp add: no_empty_value_def)
  have "sourceRuleMatches r (toRowView row pii)"
    using pushed_rule_matches [OF _ sr(4,5) assms(3) ne p(2)] assms(1) sr(2) by blast
  then have "row_verdict.blocks s (toRowView row pii)"
    using sr(4) by (auto simp: row_verdict.blocks_def row_denied_def)
  then show ?thesis
    unfolding evaluateRow_eq row_verdict.evaluate_deny_iff using sr(1-3) by blast
qed

definition fence_document :: "string \<Rightarrow> policy_document" where
  "fence_document value = \<lparr>pd_name = ''p1'', pd_description = [],
     pd_posture = \<lparr>po_actions = Allow, po_reads = Allow\<rparr>, pd_mode = Enforce,
     pd_activeFrom = None, pd_activeUntil = None,
     pd_rules = [\<lparr>pr_id = ''r1'', pr_effect = Deny, pr_kind = RuleSource, pr_enabled = True,
       pr_description = None, pr_actions = None,
       pr_match = Some [\<lparr>mc_attr = ''source.vertical'', mc_op = OpEq, mc_value = VStr value\<rparr>]\<rparr>]\<rparr>"

definition fence_condition :: "string \<Rightarrow> compiled_condition" where
  "fence_condition value = the (compileCondition sample_js
     \<lparr>mc_attr = ''source.vertical'', mc_op = OpEq, mc_value = VStr value\<rparr>)"

definition fence_set :: "string \<Rightarrow> compiled_policy_set" where
  "fence_set value = \<lparr>cs_name = ''p1'', cs_mode = Enforce,
     cs_posture = \<lparr>po_actions = Allow, po_reads = Allow\<rparr>,
     cs_actionDeny = [], cs_actionAllow = [],
     cs_sourceDeny = [\<lparr>cr_id = ''r1'', cr_effect = Deny, cr_conditions = [fence_condition value]\<rparr>],
     cs_sourceAllow = [], cs_document = fence_document value\<rparr>"

definition fence_row :: "(string \<times> jval) list \<Rightarrow> fact_row" where
  "fence_row src = \<lparr>fr_id = JStr ''f1'', fr_predicate = ''email'', fr_source = JObj src,
     fr_trust = JNull, fr_corroboration = JNull, fr_userId = JNull\<rparr>"

lemma fence_set_compiled: "compilePolicySet sample_js 0 (fence_document value) = CompileSet (fence_set value)"
  by (simp add: compilePolicySet_def fence_document_def fence_set_def fence_condition_def
      rules_for_def compileSourceRule_def compileCondition_def Let_def before_window_def
      after_window_def window_bound_def)

lemma fence_pushdown:
  "compileDenyPushdown (Some (sample_context [fence_set value])) = [[(PkVertical, [value])]]"
  by (simp add: compileDenyPushdown_def sample_context_def fence_set_def fence_condition_def
      map_filter_def push_rule_def compileCondition_def Let_def PUSHDOWN_ATTRS_def equalityValues_def)

theorem fence_has_no_false_denial_witness:
  "policy_row_denied ''email'' (JObj [(''vertical'', JStr ''crm'')])
     (compileDenyPushdown (Some (sample_context [fence_set ''crm'']))) \<and>
   ev_decision (evaluateRow (sample_context [fence_set ''crm''])
     (toRowView (fence_row [(''vertical'', JStr ''crm'')]) (\<lambda>_. ''none''))) = DecDeny"
proof -
  have denied: "policy_row_denied ''email'' (JObj [(''vertical'', JStr ''crm'')])
     (compileDenyPushdown (Some (sample_context [fence_set ''crm''])))"
    by (simp add: fence_pushdown policy_row_denied_def sql_rule_denies_def pushdown_keys_def
        sql_key_value_def sql_field_def sql_inside_def nullish_or_def nullish_def present_def)
  have "\<forall>s \<in> set (cx_sets (sample_context [fence_set ''crm''])). compiled_by sample_js s"
    using fence_set_compiled by (auto simp: sample_context_def compiled_by_def)
  from fence_has_no_false_denial [OF this, of "fence_row [(''vertical'', JStr ''crm'')]" "\<lambda>_. ''none''"]
    denied show ?thesis
    by (simp add: fence_pushdown no_empty_value_def stored_source_def fence_row_def)
qed

text \<open>The hypothesis on empty strings is needed: an accepted rule on the empty string denies, in
  the database only, every row without that attribute.\<close>

lemma fence_denies_absent_attribute:
  "policy_row_denied ''email'' (JObj [])
     (compileDenyPushdown (Some (sample_context [fence_set []]))) \<and>
   ev_decision (evaluateRow (sample_context [fence_set []]) (toRowView (fence_row []) (\<lambda>_. ''none'')))
     = DecAllow"
proof
  show "policy_row_denied ''email'' (JObj [])
     (compileDenyPushdown (Some (sample_context [fence_set []])))"
    by (simp add: fence_pushdown policy_row_denied_def sql_rule_denies_def pushdown_keys_def
        sql_key_value_def sql_field_def sql_inside_def nullish_or_def nullish_def present_def)
  have "\<not> row_denied (fence_set []) (toRowView (fence_row []) (\<lambda>_. ''none''))"
    by (simp add: row_denied_def fence_set_def fence_condition_def compileCondition_def Let_def
        sourceRuleMatches_def accessor_def toRowView_def fence_row_def object_prototype_names_def
        strict_eq_def)
  then show "ev_decision (evaluateRow (sample_context [fence_set []])
      (toRowView (fence_row []) (\<lambda>_. ''none''))) = DecAllow"
    unfolding evaluateRow_eq row_verdict.evaluate_allow_iff
    by (simp add: row_verdict.blocks_def sample_context_def, simp add: fence_set_def)
qed

lemma fence_empty_value_accepted: "document_accepted sample_js (fence_document [])"
  by code_simp

end
