(* ===== verification/RowFilter.thy ===== *)
theory RowFilter imports PolicyEngine begin

text \<open>
  The read seam of \<open>src/policy/row-filter.ts\<close> and the action gate of
  \<open>src/policy/policy-gate.service.ts\<close>.  A filter instance is a state: the statistics per
  policy set (insertion ordered) and the number of rows that reached the policy.  The
  gate's metrics and sink calls are events, in the order they are made; the sampling
  draw is an argument.  Evaluation times are not modelled (the clock is read only to be
  reported).
\<close>

section \<open>Row filter\<close>

record predicate_policy =
  pp_requiresScope :: "string option"
  pp_piiClass :: string

record set_stats =
  ss_set :: string
  ss_mode :: policy_mode
  ss_denied :: nat
  ss_wouldDeny :: nat
  ss_ruleIds :: "string list"
  ss_sampleFactIds :: "string list"
  ss_samplePredicates :: "string list"

record filter_state =
  fs_perSet :: "(string \<times> set_stats) list"
  fs_total :: nat

definition SAMPLE_CAP :: nat where "SAMPLE_CAP = 3"

definition filter_init :: filter_state where
  "filter_init = \<lparr>fs_perSet = [], fs_total = 0\<rparr>"

definition new_stats :: "set_verdict \<Rightarrow> set_stats" where
  "new_stats v = \<lparr>ss_set = sv_set v, ss_mode = sv_mode v, ss_denied = 0, ss_wouldDeny = 0,
                  ss_ruleIds = [], ss_sampleFactIds = [], ss_samplePredicates = []\<rparr>"

text \<open>One denying verdict: counters, then the bounded samples.\<close>

definition count_verdict ::
    "(jval \<Rightarrow> string) \<Rightarrow> policy_context \<Rightarrow> fact_row \<Rightarrow> set_verdict \<Rightarrow> set_stats \<Rightarrow> set_stats" where
  "count_verdict id_str ctx row v stats =
     (let enforced = sv_mode v = Enforce \<and> \<not> cx_forceReportOnly ctx;
          s1 = (if enforced then stats\<lparr>ss_denied := ss_denied stats + 1\<rparr>
                else stats\<lparr>ss_wouldDeny := ss_wouldDeny stats + 1\<rparr>);
          ruleId = decided_by v;
          s2 = (if ruleId \<notin> set (ss_ruleIds s1) \<and> length (ss_ruleIds s1) < SAMPLE_CAP
                then s1\<lparr>ss_ruleIds := ss_ruleIds s1 @ [ruleId]\<rparr> else s1)
      in if length (ss_sampleFactIds s2) < SAMPLE_CAP \<and> fr_id row \<noteq> JUndef
         then s2\<lparr>ss_sampleFactIds := ss_sampleFactIds s2 @ [id_str (fr_id row)],
                 ss_samplePredicates := ss_samplePredicates s2 @ [fr_predicate row]\<rparr>
         else s2)"

fun count_verdicts ::
    "(jval \<Rightarrow> string) \<Rightarrow> policy_context \<Rightarrow> fact_row \<Rightarrow> set_verdict list \<Rightarrow>
     (string \<times> set_stats) list \<Rightarrow> (string \<times> set_stats) list" where
  "count_verdicts id_str ctx row [] perSet = perSet"
| "count_verdicts id_str ctx row (v # vs) perSet =
     (if sv_verdict v \<noteq> Deny then count_verdicts id_str ctx row vs perSet
      else
        (let stats = (case map_of perSet (sv_set v) of None \<Rightarrow> new_stats v | Some s \<Rightarrow> s)
         in count_verdicts id_str ctx row vs
              (AList.update (sv_set v) (count_verdict id_str ctx row v stats) perSet)))"

text \<open>\<open>predicatePolicy.requiresScope \&\& !scopes.includes(...)\<close>: an empty scope name is falsy.\<close>

definition scope_blocked :: "string list \<Rightarrow> predicate_policy \<Rightarrow> bool" where
  "scope_blocked scopes pp =
     (case pp_requiresScope pp of None \<Rightarrow> False | Some s \<Rightarrow> s \<noteq> [] \<and> s \<notin> set scopes)"

definition filter_row ::
    "(jval \<Rightarrow> string) \<Rightarrow> (string \<Rightarrow> predicate_policy) \<Rightarrow> string list \<Rightarrow> policy_context option \<Rightarrow>
     fact_row \<Rightarrow> filter_state \<Rightarrow> bool \<times> filter_state" where
  "filter_row id_str lookup scopes octx row st =
     (if scope_blocked scopes (lookup (fr_predicate row)) then (False, st)
      else case octx of
        None \<Rightarrow> (True, st)
      | Some ctx \<Rightarrow>
          (let ev = evaluateRow ctx (toRowView row (\<lambda>p. pp_piiClass (lookup p)))
           in (ev_decision ev \<noteq> DecDeny,
               \<lparr>fs_perSet = count_verdicts id_str ctx row (ev_verdicts ev) (fs_perSet st),
                fs_total = fs_total st + 1\<rparr>)))"

text \<open>A batch through one filter instance, as the read surfaces use it.\<close>

fun filter_rows ::
    "(jval \<Rightarrow> string) \<Rightarrow> (string \<Rightarrow> predicate_policy) \<Rightarrow> string list \<Rightarrow> policy_context option \<Rightarrow>
     fact_row list \<Rightarrow> filter_state \<Rightarrow> fact_row list \<times> filter_state" where
  "filter_rows id_str lookup scopes octx [] st = ([], st)"
| "filter_rows id_str lookup scopes octx (r # rs) st =
     (let (keep, st1) = filter_row id_str lookup scopes octx r st;
          (out, st2) = filter_rows id_str lookup scopes octx rs st1
      in (if keep then r # out else out, st2))"

record row_summary =
  rs_surface :: string
  rs_total :: nat
  rs_perSet :: "set_stats list"

definition filter_finish :: "string \<Rightarrow> policy_context option \<Rightarrow> filter_state \<Rightarrow> row_summary option" where
  "filter_finish surface octx st =
     (if octx = None \<or> fs_total st = 0 then None
      else Some \<lparr>rs_surface = surface, rs_total = fs_total st, rs_perSet = map snd (fs_perSet st)\<rparr>)"

section \<open>Action gate\<close>

datatype gate_event =
    CountDecision decision string policy_mode
  | RecordAction decision policy_mode string "string option" "string option"
      \<comment> \<open>decision, mode, action, policy set, rule\<close>
  | RecordRow decision policy_mode string "string option" "string option" nat nat
      "string list" "string list"
      \<comment> \<open>decision, mode, surface, policy set, first rule, total, denied, sampled ids and predicates\<close>

record forbidden =
  fb_action :: string
  fb_set :: "string option"
  fb_rule :: "string option"

definition POLICY_ACTION_EXEMPT :: string where "POLICY_ACTION_EXEMPT = ''@exempt''"

definition deny_events :: "policy_context \<Rightarrow> string \<Rightarrow> decision \<Rightarrow> set_verdict \<Rightarrow> gate_event list" where
  "deny_events ctx action overall v =
     (let enforced = sv_mode v = Enforce \<and> \<not> cx_forceReportOnly ctx \<and> overall = DecDeny;
          d = (if enforced then DecDeny else DecWouldDeny)
      in [CountDecision d ''action'' (sv_mode v),
          RecordAction d (sv_mode v) action (Some (sv_set v)) (sv_rule v)])"

definition gate_enforce ::
    "bool \<Rightarrow> policy_context \<Rightarrow> string \<Rightarrow> action_kind option \<Rightarrow> gate_event list \<times> forbidden option" where
  "gate_enforce sampled ctx action kind =
     (let ev = evaluateAction ctx action kind;
          denies = filter (\<lambda>v. sv_verdict v = Deny) (ev_verdicts ev);
          events = concat (map (deny_events ctx action (ev_decision ev)) denies) @
            (if denies = [] then
               CountDecision DecAllow ''action'' Enforce #
               (if sampled then [RecordAction DecAllow Enforce action None None] else [])
             else [])
      in (events,
          if ev_decision ev = DecDeny
          then Some \<lparr>fb_action = action,
                     fb_set = (case denies of [] \<Rightarrow> None | v # _ \<Rightarrow> Some (sv_set v)),
                     fb_rule = (case denies of [] \<Rightarrow> None | v # _ \<Rightarrow> sv_rule v)\<rparr>
          else None))"

definition gate_enforceAction ::
    "bool \<Rightarrow> policy_context \<Rightarrow> string \<Rightarrow> gate_event list \<times> forbidden option" where
  "gate_enforceAction sampled ctx action = gate_enforce sampled ctx action (actionKind action)"

definition gate_enforceToolAction ::
    "bool \<Rightarrow> policy_context \<Rightarrow> string \<Rightarrow> action_kind option \<Rightarrow> gate_event list \<times> forbidden option" where
  "gate_enforceToolAction sampled ctx action kind =
     gate_enforce sampled ctx action (case kind of None \<Rightarrow> actionKind action | Some k \<Rightarrow> Some k)"

text \<open>\<open>gate\<close>: the resolved context, or the exception; an exempt route resolves only.\<close>

definition gate ::
    "bool \<Rightarrow> policy_context option \<Rightarrow> string \<Rightarrow> gate_event list \<times> (forbidden + policy_context option)" where
  "gate sampled octx action =
     (case octx of
        None \<Rightarrow> ([], Inr None)
      | Some ctx \<Rightarrow>
          if action = POLICY_ACTION_EXEMPT then ([], Inr (Some ctx))
          else (case gate_enforceAction sampled ctx action of
                  (evs, None) \<Rightarrow> (evs, Inr (Some ctx))
                | (evs, Some e) \<Rightarrow> (evs, Inl e)))"

definition summary_events :: "row_summary \<Rightarrow> set_stats \<Rightarrow> gate_event list" where
  "summary_events sm s =
     concat (map (\<lambda>(d, n). if n = 0 then []
         else [CountDecision d ''row'' (ss_mode s),
               RecordRow d (ss_mode s) (rs_surface sm) (Some (ss_set s))
                 (case ss_ruleIds s of [] \<Rightarrow> None | r # _ \<Rightarrow> Some r)
                 (rs_total sm) n (ss_sampleFactIds s) (ss_samplePredicates s)])
       [(DecDeny, ss_denied s), (DecWouldDeny, ss_wouldDeny s)])"

definition recordRowSummary :: "bool \<Rightarrow> row_summary \<Rightarrow> gate_event list" where
  "recordRowSummary sampled sm =
     (let evs = concat (map (summary_events sm) (rs_perSet sm))
      in evs @ (if evs = []
                then CountDecision DecAllow ''row'' Enforce #
                     (if sampled then [RecordRow DecAllow Enforce (rs_surface sm) None None
                                         (rs_total sm) 0 [] []] else [])
                else []))"

section \<open>Facts\<close>

definition row_allowed_by ::
    "(string \<Rightarrow> predicate_policy) \<Rightarrow> string list \<Rightarrow> policy_context option \<Rightarrow> fact_row \<Rightarrow> bool" where
  "row_allowed_by lookup scopes octx row \<longleftrightarrow>
     \<not> scope_blocked scopes (lookup (fr_predicate row)) \<and>
     (case octx of None \<Rightarrow> True
      | Some ctx \<Rightarrow>
          ev_decision (evaluateRow ctx (toRowView row (\<lambda>p. pp_piiClass (lookup p)))) \<noteq> DecDeny)"

lemma filter_row_keeps: "fst (filter_row i l sc octx r st) = row_allowed_by l sc octx r"
  by (simp add: filter_row_def row_allowed_by_def Let_def split: option.splits)

lemma filter_rows_out: "fst (filter_rows i l sc octx rs st) = filter (row_allowed_by l sc octx) rs"
proof (induction rs arbitrary: st)
  case (Cons r rs)
  show ?case
    using filter_row_keeps [of i l sc octx r st] Cons.IH [of "snd (filter_row i l sc octx r st)"]
    by (simp add: Let_def case_prod_beta)
qed simp

definition stats_bounded :: "set_stats \<Rightarrow> bool" where
  "stats_bounded s \<longleftrightarrow> length (ss_ruleIds s) \<le> SAMPLE_CAP \<and> distinct (ss_ruleIds s) \<and>
     length (ss_sampleFactIds s) \<le> SAMPLE_CAP \<and>
     length (ss_samplePredicates s) = length (ss_sampleFactIds s)"

definition filter_inv :: "filter_state \<Rightarrow> bool" where
  "filter_inv st \<longleftrightarrow> distinct (map fst (fs_perSet st)) \<and>
     (\<forall>e \<in> set (fs_perSet st). stats_bounded (snd e) \<and>
        0 < ss_denied (snd e) + ss_wouldDeny (snd e) \<and> ss_ruleIds (snd e) \<noteq> [])"

lemma stats_bounded_count: "stats_bounded s \<Longrightarrow> stats_bounded (count_verdict i ctx row v s)"
  by (auto simp: count_verdict_def stats_bounded_def Let_def SAMPLE_CAP_def)

lemma count_verdict_positive:
  "0 < ss_denied (count_verdict i ctx row v s) + ss_wouldDeny (count_verdict i ctx row v s)"
  by (simp add: count_verdict_def Let_def)

lemma count_verdict_ruleIds: "ss_ruleIds (count_verdict i ctx row v s) \<noteq> []"
  by (auto simp: count_verdict_def Let_def SAMPLE_CAP_def)

lemma stats_bounded_new: "stats_bounded (new_stats v)"
  by (simp add: stats_bounded_def new_stats_def)

definition perSet_ok :: "(string \<times> set_stats) list \<Rightarrow> bool" where
  "perSet_ok ps \<longleftrightarrow> distinct (map fst ps) \<and>
     (\<forall>k s. map_of ps k = Some s \<longrightarrow> stats_bounded s \<and>
        0 < ss_denied s + ss_wouldDeny s \<and> ss_ruleIds s \<noteq> [])"

lemma filter_inv_perSet: "filter_inv st \<longleftrightarrow> perSet_ok (fs_perSet st)"
  unfolding filter_inv_def perSet_ok_def by (force simp: map_of_eq_Some_iff dest: map_of_SomeD)

lemma perSet_ok_counted: "perSet_ok ps \<Longrightarrow> perSet_ok (count_verdicts i ctx row vs ps)"
proof (induction vs arbitrary: ps)
  case (Cons v vs)
  let ?s = "case map_of ps (sv_set v) of None \<Rightarrow> new_stats v | Some s \<Rightarrow> s"
  have "stats_bounded ?s"
    using Cons.prems by (auto simp: perSet_ok_def stats_bounded_new split: option.splits)
  then have "perSet_ok (AList.update (sv_set v) (count_verdict i ctx row v ?s) ps)"
    using Cons.prems
    by (auto simp: perSet_ok_def stats_bounded_count count_verdict_positive count_verdict_ruleIds
        simp del: add_is_0 add_gr_0)
  with Cons show ?case by (simp add: Let_def)
qed simp

lemma filter_inv_row:
  "filter_inv st \<Longrightarrow> filter_inv (snd (filter_row i l sc octx r st))"
  by (auto simp: filter_inv_perSet filter_row_def Let_def perSet_ok_counted split: option.splits)

lemma filter_inv_rows:
  "filter_inv st \<Longrightarrow> filter_inv (snd (filter_rows i l sc octx rs st))"
proof (induction rs arbitrary: st)
  case (Cons r rs)
  show ?case
    using Cons.IH [OF filter_inv_row [OF Cons.prems]]
    by (simp add: Let_def case_prod_beta)
qed simp

lemma filter_inv_init: "filter_inv filter_init"
  by (simp add: filter_inv_def filter_init_def)

lemma gate_enforce_denies:
  "snd (gate_enforce b ctx a k) = None \<longleftrightarrow> ev_decision (evaluateAction ctx a k) \<noteq> DecDeny"
  by (simp add: gate_enforce_def Let_def)

lemma filter_inv_stats:
  "filter_inv st \<Longrightarrow> s \<in> set (map snd (fs_perSet st)) \<Longrightarrow>
     stats_bounded s \<and> 0 < ss_denied s + ss_wouldDeny s \<and> ss_ruleIds s \<noteq> []"
  by (auto simp: filter_inv_def)

lemma filter_row_total:
  "fs_total (snd (filter_row i l sc octx r st)) =
     fs_total st + (if octx \<noteq> None \<and> \<not> scope_blocked sc (l (fr_predicate r)) then 1 else 0)"
  by (auto simp: filter_row_def Let_def split: option.splits)

lemma filter_rows_total:
  "fs_total (snd (filter_rows i l sc octx rs st)) =
     fs_total st + (if octx = None then 0
       else length (filter (\<lambda>r. \<not> scope_blocked sc (l (fr_predicate r))) rs))"
proof (induction rs arbitrary: st)
  case (Cons r rs)
  from Cons.IH [of "snd (filter_row i l sc octx r st)"] show ?case
    by (simp add: Let_def case_prod_beta filter_row_total)
qed simp

definition deny_recorded :: "gate_event \<Rightarrow> bool" where
  "deny_recorded e \<longleftrightarrow> (case e of RecordAction d _ _ _ _ \<Rightarrow> d = DecDeny | _ \<Rightarrow> False)"

section \<open>Properties\<close>

text \<open>A filter run over a batch keeps, in order, exactly the rows whose predicate needs no
  scope the caller lacks and which the policy context does not deny; its summary is absent
  only when no context applied or no row reached the policy, and otherwise counts every row
  that passed the scope check, with entries that each have a positive count, at least one
  and at most three distinct rule ids and at most three sampled facts.\<close>

theorem row_filter_correct:
  "fst (filter_rows i l sc octx rs filter_init) = filter (row_allowed_by l sc octx) rs \<and>
   (case filter_finish surface octx (snd (filter_rows i l sc octx rs filter_init)) of
      None \<Rightarrow> octx = None \<or> list_all (\<lambda>r. scope_blocked sc (l (fr_predicate r))) rs
    | Some sm \<Rightarrow>
        rs_total sm = length (filter (\<lambda>r. \<not> scope_blocked sc (l (fr_predicate r))) rs) \<and>
        0 < rs_total sm \<and>
        list_all (\<lambda>s. 0 < ss_denied s + ss_wouldDeny s \<and> ss_ruleIds s \<noteq> [] \<and>
          distinct (ss_ruleIds s) \<and> length (ss_ruleIds s) \<le> 3 \<and>
          length (ss_sampleFactIds s) \<le> 3 \<and>
          length (ss_samplePredicates s) = length (ss_sampleFactIds s)) (rs_perSet sm))"
proof -
  let ?st = "snd (filter_rows i l sc octx rs filter_init)"
  have total: "fs_total ?st = (if octx = None then 0
       else length (filter (\<lambda>r. \<not> scope_blocked sc (l (fr_predicate r))) rs))"
    by (simp add: filter_rows_total filter_init_def)
  have "filter_inv ?st" by (intro filter_inv_rows filter_inv_init)
  from filter_inv_stats [OF this] have stats: "list_all (\<lambda>s. 0 < ss_denied s + ss_wouldDeny s \<and>
      ss_ruleIds s \<noteq> [] \<and> distinct (ss_ruleIds s) \<and> length (ss_ruleIds s) \<le> 3 \<and>
      length (ss_sampleFactIds s) \<le> 3 \<and>
      length (ss_samplePredicates s) = length (ss_sampleFactIds s)) (map snd (fs_perSet ?st))"
    by (simp add: list_all_iff stats_bounded_def SAMPLE_CAP_def)
  have "octx = None \<or> list_all (\<lambda>r. scope_blocked sc (l (fr_predicate r))) rs"
    if "filter_finish surface octx ?st = None"
    using that total by (auto simp: filter_finish_def filter_empty_conv list_all_iff split: if_splits)
  moreover have "rs_total sm = length (filter (\<lambda>r. \<not> scope_blocked sc (l (fr_predicate r))) rs) \<and>
      0 < rs_total sm \<and> rs_perSet sm = map snd (fs_perSet ?st)"
    if "filter_finish surface octx ?st = Some sm" for sm
    using that total by (auto simp: filter_finish_def split: if_splits)
  ultimately show ?thesis
    using filter_rows_out [of i l sc octx rs filter_init] stats by (auto split: option.splits)
qed

text \<open>The gate throws exactly when the action is denied, names a set that voted deny, and its
  audit agrees: a deny is recorded if and only if it throws, and every call leaves an event.\<close>

theorem gate_throws_iff_denied:
  "(snd (gate_enforce sampled ctx a k) = None) = (ev_decision (evaluateAction ctx a k) \<noteq> DecDeny) \<and>
   (list_ex deny_recorded (fst (gate_enforce sampled ctx a k))) =
     (ev_decision (evaluateAction ctx a k) = DecDeny) \<and>
   (case snd (gate_enforce sampled ctx a k) of None \<Rightarrow> True
    | Some f \<Rightarrow> list_ex (\<lambda>v. sv_verdict v = Deny \<and> fb_set f = Some (sv_set v) \<and> fb_rule f = sv_rule v)
                  (ev_verdicts (evaluateAction ctx a k))) \<and>
   fst (gate_enforce sampled ctx a k) \<noteq> []"
proof -
  let ?ev = "evaluateAction ctx a k"
  let ?denies = "filter (\<lambda>v. sv_verdict v = Deny) (ev_verdicts ?ev)"
  have iff: "ev_decision ?ev = DecDeny \<longleftrightarrow>
      (\<exists>v \<in> set (ev_verdicts ?ev). enforced_deny (cx_forceReportOnly ctx) v)"
    by (simp add: evaluateAction_def combine_deny_iff)
  have ev: "list_ex deny_recorded (deny_events ctx a d v) \<longleftrightarrow>
      sv_mode v = Enforce \<and> \<not> cx_forceReportOnly ctx \<and> d = DecDeny" for d v
    by (simp add: deny_events_def deny_recorded_def Let_def)
  have "list_ex deny_recorded (fst (gate_enforce sampled ctx a k)) \<longleftrightarrow>
      (\<exists>v \<in> set ?denies. list_ex deny_recorded (deny_events ctx a (ev_decision ?ev) v))"
    by (auto simp: gate_enforce_def Let_def list_ex_iff deny_recorded_def)
  then have rec: "list_ex deny_recorded (fst (gate_enforce sampled ctx a k)) \<longleftrightarrow> ev_decision ?ev = DecDeny"
    unfolding ev iff enforced_deny_def by auto
  have "?denies \<noteq> []" if "ev_decision ?ev = DecDeny"
    using that iff by (auto simp: enforced_deny_def filter_empty_conv)
  moreover have "v \<in> set (ev_verdicts ?ev) \<and> sv_verdict v = Deny" if "?denies = v # vs" for v vs
  proof -
    from that have "v \<in> set ?denies" by simp
    then show ?thesis by simp
  qed
  ultimately have "case snd (gate_enforce sampled ctx a k) of None \<Rightarrow> True
    | Some f \<Rightarrow> list_ex (\<lambda>v. sv_verdict v = Deny \<and> fb_set f = Some (sv_set v) \<and> fb_rule f = sv_rule v)
                  (ev_verdicts ?ev)"
    by (cases ?denies) (auto simp: gate_enforce_def Let_def list_ex_iff split: option.splits)
  moreover have "fst (gate_enforce sampled ctx a k) \<noteq> []"
    by (auto simp: gate_enforce_def Let_def deny_events_def filter_empty_conv)
  ultimately show ?thesis using rec gate_enforce_denies by blast
qed

end
