(* ===== verification/SourceMeta.thy ===== *)
theory SourceMeta imports PolicyCompile begin

text \<open>
  The sanitizer of operator metadata (\<open>src/policy/source-meta.ts\<close>), which decides what a
  \<open>source.meta.<key>\<close> condition can ever see.  The reasons for a dropped entry are
  constructors instead of sentences; the entries of an object come in its key order.
\<close>

definition SOURCE_META_MAX_KEYS :: nat where "SOURCE_META_MAX_KEYS = 16"
definition SOURCE_META_MAX_VALUE_CHARS :: nat where "SOURCE_META_MAX_VALUE_CHARS = 256"

definition META_KEY :: "string \<Rightarrow> bool" where
  "META_KEY s \<longleftrightarrow> (case s of [] \<Rightarrow> False
     | c # cs \<Rightarrow> is_lower c \<and> length cs \<le> 63 \<and>
         list_all (\<lambda>d. is_lower d \<or> is_digit d \<or> d = CHR ''_'') cs)"

datatype drop_reason = NotAnObject | BadKey string | BadValue string | OverCap string

record sanitized =
  sm_meta :: "(string \<times> jval) list option"
  sm_dropped :: "drop_reason list"

definition meta_value_ok :: "jval \<Rightarrow> bool" where
  "meta_value_ok v = (case v of JBool _ \<Rightarrow> True | JNum (JFin _) \<Rightarrow> True
      | JStr s \<Rightarrow> length s \<le> SOURCE_META_MAX_VALUE_CHARS | _ \<Rightarrow> False)"

text \<open>The loop over the entries, with the kept entries and the reasons collected so far.\<close>

fun sanitize_entries ::
    "(string \<times> jval) list \<Rightarrow> (string \<times> jval) list \<Rightarrow> drop_reason list \<Rightarrow>
     (string \<times> jval) list \<times> drop_reason list" where
  "sanitize_entries [] meta dropped = (meta, dropped)"
| "sanitize_entries ((k, v) # es) meta dropped =
     (if \<not> META_KEY k then sanitize_entries es meta (dropped @ [BadKey k])
      else if \<not> meta_value_ok v then sanitize_entries es meta (dropped @ [BadValue k])
      else if SOURCE_META_MAX_KEYS \<le> length meta then sanitize_entries es meta (dropped @ [OverCap k])
      else sanitize_entries es (meta @ [(k, v)]) dropped)"

definition sanitizeSourceMeta :: "jval \<Rightarrow> sanitized" where
  "sanitizeSourceMeta raw =
     (case raw of
        JUndef \<Rightarrow> \<lparr>sm_meta = None, sm_dropped = []\<rparr>
      | JNull \<Rightarrow> \<lparr>sm_meta = None, sm_dropped = []\<rparr>
      | JObj kvs \<Rightarrow>
          (let (meta, dropped) = sanitize_entries kvs [] []
           in \<lparr>sm_meta = (if meta = [] then None else Some meta), sm_dropped = dropped\<rparr>)
      | _ \<Rightarrow> \<lparr>sm_meta = None, sm_dropped = [NotAnObject]\<rparr>)"

definition meta_ok :: "(string \<times> jval) list \<Rightarrow> bool" where
  "meta_ok meta \<longleftrightarrow> length meta \<le> SOURCE_META_MAX_KEYS \<and>
     (\<forall>e \<in> set meta. META_KEY (fst e) \<and> meta_value_ok (snd e))"

lemma sanitize_entries_ok:
  "meta_ok meta \<Longrightarrow> meta_ok (fst (sanitize_entries es meta dropped))"
proof (induction es meta dropped rule: sanitize_entries.induct)
  case (2 k v es meta dropped)
  have "meta_ok (meta @ [(k, v)])"
    if "META_KEY k" "meta_value_ok v" "\<not> SOURCE_META_MAX_KEYS \<le> length meta"
    using that "2.prems" by (auto simp: meta_ok_def)
  with 2 show ?case by simp
qed simp

text \<open>Every entry is kept or accounted for.\<close>

lemma sanitize_entries_count:
  "length (fst (sanitize_entries es meta dropped)) + length (snd (sanitize_entries es meta dropped))
     = length meta + length dropped + length es"
  by (induction es meta dropped rule: sanitize_entries.induct) auto

lemma sanitize_entries_subset:
  "set (fst (sanitize_entries es meta dropped)) \<subseteq> set meta \<union> set es"
  by (induction es meta dropped rule: sanitize_entries.induct) auto

lemma meta_key_vocabulary: "SOURCE_META_ATTR (''source.meta.'' @ k) \<longleftrightarrow> META_KEY k"
  by (simp add: SOURCE_META_ATTR_def META_KEY_def)

lemma sanitize_entries_id:
  "meta_ok (meta @ es) \<Longrightarrow> sanitize_entries es meta dropped = (meta @ es, dropped)"
proof (induction es arbitrary: meta)
  case (Cons e es)
  obtain k v where e: "e = (k, v)" by (cases e)
  from Cons.prems have "META_KEY k" "meta_value_ok v" "\<not> SOURCE_META_MAX_KEYS \<le> length meta"
    by (auto simp: meta_ok_def e)
  with Cons show ?case by (simp add: e)
qed simp

section \<open>Properties\<close>

text \<open>Sanitising source metadata yields what the policy vocabulary can name and nothing else:
  what is kept obeys the key grammar, the value types and the cap, comes from the input,
  every entry is kept or reported, each kept key is a legal policy attribute, and sanitising
  the result again changes nothing.\<close>

theorem sanitize_source_meta:
  "case sm_meta (sanitizeSourceMeta (JObj kvs)) of
     None \<Rightarrow> length (sm_dropped (sanitizeSourceMeta (JObj kvs))) = length kvs
   | Some meta \<Rightarrow>
       0 < length meta \<and> length meta \<le> SOURCE_META_MAX_KEYS \<and> set meta \<subseteq> set kvs \<and>
       list_all (\<lambda>e. SOURCE_META_ATTR (''source.meta.'' @ fst e) \<and> meta_value_ok (snd e)) meta \<and>
       length meta + length (sm_dropped (sanitizeSourceMeta (JObj kvs))) = length kvs \<and>
       sanitizeSourceMeta (JObj meta) = \<lparr>sm_meta = Some meta, sm_dropped = []\<rparr>"
proof -
  obtain meta dropped where md: "sanitize_entries kvs [] [] = (meta, dropped)" by fastforce
  have ok: "meta_ok meta" using sanitize_entries_ok [of "[]" kvs "[]"] md by (simp add: meta_ok_def)
  have count: "length meta + length dropped = length kvs"
    using sanitize_entries_count [of kvs "[]" "[]"] md by simp
  have "set meta \<subseteq> set kvs" using sanitize_entries_subset [of kvs "[]" "[]"] md by simp
  moreover have "sanitize_entries meta [] [] = (meta, [])"
    using sanitize_entries_id [of "[]" meta "[]"] ok by simp
  ultimately show ?thesis
    using ok count meta_key_vocabulary
    by (auto simp: sanitizeSourceMeta_def md meta_ok_def list_all_iff simp del: append.simps)
qed

end
