(* ===== verification/PolicyStore.thy ===== *)
theory PolicyStore imports PolicyEngine SourceMeta "HOL-Library.Char_ord" "HOL-Library.List_Lexorder" begin

text \<open>
  CRUD over a tenant's policy tables (\<open>src/policy/policy-store.service.ts\<close>): the sets, the
  bindings of subjects to set names, and the coherence counter the writes bump.  A call is a
  chain of database statements; each statement is atomic and other calls may run between two
  of them, so the state of a call is the statement it sends next (\<open>store_call\<close>) and
  \<open>store_stmt\<close> runs that statement and the code up to the following one.  \<open>store_step\<close>
  interleaves the calls.  Time stamps are left out.  Statements of one query text run one
  after the other, each on its own, and a failing one does not stop the next; both tables
  have a unique index (migration 0056), on the name and on the subject; \<open>+=\<close> on an array
  appends and \<open>-=\<close> takes out the first occurrence (the database's documented behaviour).
\<close>

record stored_policy =
  sp_name :: string
  sp_mode :: policy_mode
  sp_document :: policy_document
  sp_version :: int
  sp_updatedBy :: string

record policy_db =
  db_policies :: "stored_policy list"
  db_bindings :: "(string \<times> string list) list"
  db_version :: int

record policy_set_view =
  pv_policy :: stored_policy
  pv_attached :: "string list"

datatype store_error =
    InvalidDocument
  | NameImmutable string string
  | VersionConflict policy_set_view
  | NotFound string
  | AlreadyExists string
  | PolicyAttached "string list"
  | InvalidSubject string
  | TooManySets string nat

definition bump_version :: "policy_db \<Rightarrow> policy_db" where
  "bump_version db = db\<lparr>db_version := db_version db + 1\<rparr>"

definition attached_subjects :: "(string \<times> string list) list \<Rightarrow> string \<Rightarrow> string list" where
  "attached_subjects bs name =
     concat (map (\<lambda>(s, ns). map (\<lambda>_. s) (filter (\<lambda>n. n = name) ns)) bs)"

definition list_views ::
    "stored_policy list \<Rightarrow> (string \<times> string list) list \<Rightarrow> policy_set_view list" where
  "list_views ps bs =
     map (\<lambda>p. \<lparr>pv_policy = p, pv_attached = attached_subjects bs (sp_name p)\<rparr>) (sort_key sp_name ps)"

definition find_view ::
    "string \<Rightarrow> stored_policy list \<Rightarrow> (string \<times> string list) list \<Rightarrow> store_error + policy_set_view" where
  "find_view name ps bs =
     (case find (\<lambda>v. sp_name (pv_policy v) = name) (list_views ps bs) of
        None \<Rightarrow> Inl (NotFound name)
      | Some v \<Rightarrow> Inr v)"

text \<open>The list and one set as tables at rest give them.\<close>

definition store_list :: "policy_db \<Rightarrow> policy_set_view list" where
  "store_list db = list_views (db_policies db) (db_bindings db)"

definition store_get :: "policy_db \<Rightarrow> string \<Rightarrow> store_error + policy_set_view" where
  "store_get db name = find_view name (db_policies db) (db_bindings db)"

definition store_listBindings :: "policy_db \<Rightarrow> (string \<times> string list) list" where
  "store_listBindings db = sort_key fst (db_bindings db)"

section \<open>Attachments\<close>

definition subject_char :: "char \<Rightarrow> bool" where
  "subject_char c \<longleftrightarrow> is_upper c \<or> is_lower c \<or> is_digit c \<or>
     c = CHR '':'' \<or> c = CHR ''.'' \<or> c = CHR ''_'' \<or> c = CHR ''-''"

definition subject_tail :: "string \<Rightarrow> bool" where
  "subject_tail s \<longleftrightarrow> 1 \<le> length s \<and> length s \<le> 200 \<and> list_all subject_char s"

definition SUBJECT_SHAPE :: "string \<Rightarrow> bool" where
  "SUBJECT_SHAPE s \<longleftrightarrow>
     (starts_with ''key:'' s \<and> subject_tail (drop 4 s)) \<or>
     (starts_with ''jwt:'' s \<and> subject_tail (drop 4 s)) \<or>
     (starts_with ''agent:'' s \<and> subject_tail (drop 6 s))"

definition bound_names :: "policy_db \<Rightarrow> string \<Rightarrow> string list option" where
  "bound_names db subject = map_of (db_bindings db) subject"

section \<open>Calls, statement by statement\<close>

text \<open>What a call that reads a set (\<open>get\<close>) does with it: it is the answer, or the first step of
  a replacement, a removal or a change of attachments.\<close>

datatype get_for =
    ForReturn
  | ForUpdate policy_document int string
  | ForRemove
  | ForAttachments "string list" "string list"

text \<open>What follows the bump of the version: the error thrown after it, or the invalidation of
  the snapshot and the answer (the set read anew, or nothing).\<close>

datatype after_bump = ThenThrow store_error | ThenInvalidate "string option"

text \<open>The statement a call sends next, with the local variables that are still alive, or its
  end.\<close>

datatype store_call =
    SelectPolicies string get_for
  | SelectBindings string get_for "stored_policy list"
  | CreatePolicy policy_document string
  | UpdatePolicy string policy_document int string policy_set_view
  | DeletePolicy string
  | SelectSubject string string "string list" "string list"
  | AppendName string string "string list" "string list"
  | CreateBinding string string "string list" "string list"
  | RemoveName string string "string list"
  | DropEmpty string string "string list"
  | BumpVersion after_bump
  | Returned "policy_set_view option"
  | Threw store_error
  | Crashed

fun call_ended :: "store_call \<Rightarrow> bool" where
  "call_ended (Returned v) = True"
| "call_ended (Threw e) = True"
| "call_ended Crashed = True"
| "call_ended _ = False"

text \<open>The code before the first statement.\<close>

definition store_create :: "js_lib \<Rightarrow> policy_document \<Rightarrow> string \<Rightarrow> store_call" where
  "store_create js doc updatedBy =
     (if \<not> document_accepted js doc then Threw InvalidDocument else CreatePolicy doc updatedBy)"

definition store_update ::
    "js_lib \<Rightarrow> string \<Rightarrow> policy_document \<Rightarrow> int \<Rightarrow> string \<Rightarrow> store_call" where
  "store_update js name doc expectedVersion updatedBy =
     (if \<not> document_accepted js doc then Threw InvalidDocument
      else if pd_name doc \<noteq> name then Threw (NameImmutable name (pd_name doc))
      else SelectPolicies name (ForUpdate doc expectedVersion updatedBy))"

definition store_remove :: "string \<Rightarrow> store_call" where
  "store_remove name = SelectPolicies name ForRemove"

definition store_updateAttachments :: "string \<Rightarrow> string list \<Rightarrow> string list \<Rightarrow> store_call" where
  "store_updateAttachments name attach detach = SelectPolicies name (ForAttachments attach detach)"

text \<open>The two loops of \<open>updateAttachments\<close>, up to their next statement.\<close>

definition next_detach :: "string \<Rightarrow> string list \<Rightarrow> store_call" where
  "next_detach name detach =
     (case detach of [] \<Rightarrow> BumpVersion (ThenInvalidate (Some name)) | s # ss \<Rightarrow> RemoveName name s ss)"

definition next_attach :: "string \<Rightarrow> string list \<Rightarrow> string list \<Rightarrow> store_call" where
  "next_attach name attach detach =
     (case attach of [] \<Rightarrow> next_detach name detach | s # ss \<Rightarrow> SelectSubject name s ss detach)"

text \<open>The code after the two reads of \<open>get\<close>.\<close>

definition after_get ::
    "string \<Rightarrow> get_for \<Rightarrow> store_error + policy_set_view \<Rightarrow> store_call" where
  "after_get name p r =
     (case r of
        Inl e \<Rightarrow> Threw e
      | Inr current \<Rightarrow>
          (case p of
             ForReturn \<Rightarrow> Returned (Some current)
           | ForUpdate doc expected who \<Rightarrow>
               if sp_version (pv_policy current) \<noteq> expected then Threw (VersionConflict current)
               else UpdatePolicy name doc expected who current
           | ForRemove \<Rightarrow>
               if pv_attached current \<noteq> [] then Threw (PolicyAttached (pv_attached current))
               else DeletePolicy name
           | ForAttachments attach detach \<Rightarrow>
               (case find (\<lambda>s. \<not> SUBJECT_SHAPE s) (attach @ detach) of
                  Some s \<Rightarrow> Threw (InvalidSubject s)
                | None \<Rightarrow> next_attach name attach detach)))"

text \<open>The code after the read of a subject's binding.\<close>

definition after_subject ::
    "string \<Rightarrow> string \<Rightarrow> string list option \<Rightarrow> string list \<Rightarrow> string list \<Rightarrow> store_call" where
  "after_subject name subject row rest detach =
     (let existing = (case row of None \<Rightarrow> [] | Some ns \<Rightarrow> ns)
      in if name \<in> set existing then next_attach name rest detach
         else if MAX_SETS_PER_KEY \<le> length existing
         then Threw (TooManySets subject (length existing))
         else if row \<noteq> None then AppendName name subject rest detach
         else CreateBinding name subject rest detach)"

definition after_bump_code :: "after_bump \<Rightarrow> store_call" where
  "after_bump_code a =
     (case a of
        ThenThrow e \<Rightarrow> Threw e
      | ThenInvalidate None \<Rightarrow> Returned None
      | ThenInvalidate (Some name) \<Rightarrow> SelectPolicies name ForReturn)"

section \<open>The statements\<close>

definition replace_document ::
    "string \<Rightarrow> int \<Rightarrow> policy_document \<Rightarrow> string \<Rightarrow> stored_policy \<Rightarrow> stored_policy" where
  "replace_document name expected doc who p =
     (if sp_name p = name \<and> sp_version p = expected
      then p\<lparr>sp_mode := pd_mode doc, sp_document := doc, sp_version := sp_version p + 1,
             sp_updatedBy := who\<rparr>
      else p)"

definition replace_hits :: "string \<Rightarrow> int \<Rightarrow> policy_db \<Rightarrow> bool" where
  "replace_hits name expected db \<longleftrightarrow>
     (\<exists>p \<in> set (db_policies db). sp_name p = name \<and> sp_version p = expected)"

definition new_policy :: "policy_document \<Rightarrow> string \<Rightarrow> stored_policy" where
  "new_policy doc who = \<lparr>sp_name = pd_name doc, sp_mode = pd_mode doc, sp_document = doc,
     sp_version = 1, sp_updatedBy = who\<rparr>"

definition at_subject ::
    "string \<Rightarrow> (string list \<Rightarrow> string list) \<Rightarrow> (string \<times> string list) list \<Rightarrow> (string \<times> string list) list" where
  "at_subject subject f bs = map (\<lambda>b. if fst b = subject then (fst b, f (snd b)) else b) bs"

fun store_stmt :: "store_call \<Rightarrow> policy_db \<Rightarrow> store_call \<times> policy_db" where
  "store_stmt (SelectPolicies name p) db = (SelectBindings name p (db_policies db), db)"
| "store_stmt (SelectBindings name p rows) db =
     (after_get name p (find_view name rows (db_bindings db)), db)"
| "store_stmt (CreatePolicy doc who) db =
     (if pd_name doc \<in> sp_name ` set (db_policies db)
      then (BumpVersion (ThenThrow (AlreadyExists (pd_name doc))), db)
      else (BumpVersion (ThenInvalidate (Some (pd_name doc))),
            db\<lparr>db_policies := db_policies db @ [new_policy doc who]\<rparr>))"
| "store_stmt (UpdatePolicy name doc expected who current) db =
     (BumpVersion (if replace_hits name expected db then ThenInvalidate (Some name)
                   else ThenThrow (VersionConflict current)),
      db\<lparr>db_policies := map (replace_document name expected doc who) (db_policies db)\<rparr>)"
| "store_stmt (DeletePolicy name) db =
     (BumpVersion (ThenInvalidate None),
      db\<lparr>db_policies := filter (\<lambda>p. sp_name p \<noteq> name) (db_policies db)\<rparr>)"
| "store_stmt (SelectSubject name subject rest detach) db =
     (after_subject name subject (bound_names db subject) rest detach, db)"
| "store_stmt (AppendName name subject rest detach) db =
     (next_attach name rest detach,
      db\<lparr>db_bindings := at_subject subject (\<lambda>ns. ns @ [name]) (db_bindings db)\<rparr>)"
| "store_stmt (CreateBinding name subject rest detach) db =
     (if subject \<in> fst ` set (db_bindings db) then (Crashed, db)
      else (next_attach name rest detach,
            db\<lparr>db_bindings := db_bindings db @ [(subject, [name])]\<rparr>))"
| "store_stmt (RemoveName name subject rest) db =
     (DropEmpty name subject rest,
      db\<lparr>db_bindings := at_subject subject (remove1 name) (db_bindings db)\<rparr>)"
| "store_stmt (DropEmpty name subject rest) db =
     (next_detach name rest,
      db\<lparr>db_bindings := filter (\<lambda>b. \<not> (fst b = subject \<and> snd b = [])) (db_bindings db)\<rparr>)"
| "store_stmt (BumpVersion a) db = (after_bump_code a, bump_version db)"
| "store_stmt (Returned v) db = (Returned v, db)"
| "store_stmt (Threw e) db = (Threw e, db)"
| "store_stmt Crashed db = (Crashed, db)"

text \<open>Whether the statement is followed by \<open>invalidate\<close> on this process.\<close>

definition stmt_invalidates :: "store_call \<Rightarrow> bool" where
  "stmt_invalidates c = (case c of BumpVersion (ThenInvalidate r) \<Rightarrow> True | _ \<Rightarrow> False)"

text \<open>A call that runs alone, for at most \<open>n\<close> statements: the call, the tables, and whether
  the snapshot was invalidated.\<close>

fun run_call :: "nat \<Rightarrow> store_call \<Rightarrow> policy_db \<Rightarrow> bool \<Rightarrow> store_call \<times> policy_db \<times> bool" where
  "run_call 0 c db inval = (c, db, inval)"
| "run_call (Suc n) c db inval =
     (if call_ended c then (c, db, inval)
      else (case store_stmt c db of
              (c', db') \<Rightarrow> run_call n c' db' (inval \<or> stmt_invalidates c)))"

section \<open>Calls interleaved\<close>

text \<open>The tables, the calls under way, and (a ghost) whether every change of the sets and the
  bindings so far was followed by a bump of the version.\<close>

record store_world =
  sw_db :: policy_db
  sw_calls :: "nat \<rightharpoonup> store_call"
  sw_settled :: bool

definition keeps_settled :: "policy_db \<Rightarrow> policy_db \<Rightarrow> bool \<Rightarrow> bool" where
  "keeps_settled db db' settled \<longleftrightarrow>
     db_version db' \<noteq> db_version db \<or>
     settled \<and> db_policies db' = db_policies db \<and> db_bindings db' = db_bindings db"

definition store_starts :: "js_lib \<Rightarrow> store_call \<Rightarrow> bool" where
  "store_starts js c \<longleftrightarrow>
     (\<exists>doc who. c = store_create js doc who) \<or>
     (\<exists>name doc e who. c = store_update js name doc e who) \<or>
     (\<exists>name. c = store_remove name) \<or>
     (\<exists>name ats dets. c = store_updateAttachments name ats dets)"

text \<open>A call starts, sends its next statement, or stops half way (a lost connection, a stopped
  process); \<open>overlap\<close> says whether a call may start while another is under way.\<close>

inductive store_step :: "js_lib \<Rightarrow> bool \<Rightarrow> store_world \<Rightarrow> store_world \<Rightarrow> bool"
  for js overlap where
  step_start: "store_starts js c \<Longrightarrow> sw_calls w i = None \<Longrightarrow> overlap \<or> sw_calls w = Map.empty \<Longrightarrow>
     store_step js overlap w (w\<lparr>sw_calls := (sw_calls w)(i \<mapsto> c)\<rparr>)"
| step_stmt: "sw_calls w i = Some c \<Longrightarrow> store_stmt c (sw_db w) = (c', db') \<Longrightarrow>
     store_step js overlap w
       (w\<lparr>sw_db := db', sw_calls := (sw_calls w)(i \<mapsto> c'),
          sw_settled := keeps_settled (sw_db w) db' (sw_settled w)\<rparr>)"
| step_stop: "store_step js overlap w (w\<lparr>sw_calls := (sw_calls w)(i := None)\<rparr>)"

section \<open>Source-meta backfill\<close>

record source_doc =
  sd_id :: string
  sd_meta :: jval

record doc_fact =
  df_documentId :: string
  df_meta :: "(string \<times> jval) list option"

record backfill_report =
  bf_documentsProcessed :: nat
  bf_factsUpdated :: nat
  bf_remaining :: nat

definition has_meta :: "source_doc \<Rightarrow> bool" where
  "has_meta d = (case sd_meta d of JObj kvs \<Rightarrow> kvs \<noteq> [] | JArr xs \<Rightarrow> xs \<noteq> [] | _ \<Rightarrow> False)"

definition backfill_doc :: "source_doc \<Rightarrow> nat \<times> doc_fact list \<Rightarrow> nat \<times> doc_fact list" where
  "backfill_doc d acc =
     (case (sm_meta (sanitizeSourceMeta (sd_meta d)), acc) of
        (None, acc) \<Rightarrow> acc
      | (Some meta, (n, facts)) \<Rightarrow>
          (n + length (filter (\<lambda>f. df_documentId f = sd_id d \<and> df_meta f = None) facts),
           map (\<lambda>f. if df_documentId f = sd_id d \<and> df_meta f = None then f\<lparr>df_meta := Some meta\<rparr> else f)
             facts))"

text \<open>\<open>docs\<close> in creation order; the query keeps those whose meta is set.\<close>

definition backfillSourceMeta ::
    "nat \<Rightarrow> source_doc list \<Rightarrow> doc_fact list \<Rightarrow> backfill_report \<times> doc_fact list" where
  "backfillSourceMeta maxDocs docsOut facts =
     (let docs = filter has_meta docsOut;
          batch = take maxDocs docs;
          (n, facts') = fold backfill_doc batch (0, facts)
      in (\<lparr>bf_documentsProcessed = length batch, bf_factsUpdated = n,
           bf_remaining = length docs - length batch\<rparr>, facts'))"

section \<open>Facts\<close>

lemma list_views_names: "(\<lambda>v. sp_name (pv_policy v)) ` set (list_views ps bs) = sp_name ` set ps"
  by (auto simp: list_views_def image_iff)

lemma find_view_Inr_iff: "(\<exists>v. find_view name ps bs = Inr v) \<longleftrightarrow> name \<in> sp_name ` set ps"
proof -
  have "(\<exists>v. find_view name ps bs = Inr v) \<longleftrightarrow>
        find (\<lambda>v. sp_name (pv_policy v) = name) (list_views ps bs) \<noteq> None"
    by (auto simp: find_view_def split: option.splits)
  also have "\<dots> \<longleftrightarrow> (\<exists>v \<in> set (list_views ps bs). sp_name (pv_policy v) = name)"
    by (simp add: find_None_iff')
  also have "\<dots> \<longleftrightarrow> name \<in> (\<lambda>v. sp_name (pv_policy v)) ` set (list_views ps bs)"
    by blast
  finally show ?thesis by (simp only: list_views_names)
qed

lemma find_view_Inr:
  "find_view name ps bs = Inr v \<Longrightarrow>
     pv_policy v \<in> set ps \<and> sp_name (pv_policy v) = name \<and> pv_attached v = attached_subjects bs name"
  by (auto simp: find_view_def list_views_def split: option.splits dest!: find_SomeD)

lemma attached_subjects_Nil_iff:
  "attached_subjects bs name = [] \<longleftrightarrow> (\<forall>b \<in> set bs. name \<notin> set (snd b))"
  by (force simp: attached_subjects_def filter_empty_conv split: prod.splits)

text \<open>Referential integrity: every bound name is a stored set; one binding row per subject;
  one policy row per name; a subject carries at most the cap of sets, without repeats.\<close>

definition policy_names :: "policy_db \<Rightarrow> string set" where
  "policy_names db = sp_name ` set (db_policies db)"

definition binding_ok :: "string set \<Rightarrow> string list \<Rightarrow> bool" where
  "binding_ok N ns \<longleftrightarrow> set ns \<subseteq> N \<and> distinct ns \<and> length ns \<le> MAX_SETS_PER_KEY"

definition db_inv :: "policy_db \<Rightarrow> bool" where
  "db_inv db \<longleftrightarrow>
     distinct (map sp_name (db_policies db)) \<and>
     distinct (map fst (db_bindings db)) \<and>
     (\<forall>b \<in> set (db_bindings db). binding_ok (policy_names db) (snd b))"

lemma binding_ok_mono: "binding_ok N ns \<Longrightarrow> N \<subseteq> M \<Longrightarrow> binding_ok M ns"
  by (auto simp: binding_ok_def)

lemma binding_ok_remove1: "binding_ok N ns \<Longrightarrow> binding_ok N (remove1 n ns)"
  by (auto simp: binding_ok_def length_remove1 dest: set_remove1_subset [THEN subsetD])

lemma binding_ok_snoc:
  "binding_ok N ns \<Longrightarrow> n \<in> N \<Longrightarrow> n \<notin> set ns \<Longrightarrow> length ns < MAX_SETS_PER_KEY \<Longrightarrow>
     binding_ok N (ns @ [n])"
  by (simp add: binding_ok_def)

lemma binding_ok_Nil [simp]: "binding_ok N []"
  by (simp add: binding_ok_def)

lemma db_inv_bump [simp]: "db_inv (bump_version db) = db_inv db"
  by (simp add: db_inv_def bump_version_def policy_names_def)

lemma bump_fields [simp]:
  "db_policies (bump_version db) = db_policies db"
  "db_bindings (bump_version db) = db_bindings db"
  "db_version (bump_version db) = db_version db + 1"
  by (simp_all add: bump_version_def)

lemma replace_document_name [simp]: "sp_name (replace_document n e d u p) = sp_name p"
  by (simp add: replace_document_def)

lemma db_inv_append:
  assumes "db_inv db" "sp_name p \<notin> policy_names db"
  shows "db_inv (db\<lparr>db_policies := db_policies db @ [p]\<rparr>)"
proof -
  have "policy_names db \<subseteq> policy_names (db\<lparr>db_policies := db_policies db @ [p]\<rparr>)"
    by (auto simp: policy_names_def)
  with assms show ?thesis
    by (auto simp: db_inv_def policy_names_def intro: binding_ok_mono)
qed

lemma map_sp_name_replace: "map sp_name (map (replace_document n e doc u) ps) = map sp_name ps"
  by simp

lemma db_inv_same_names:
  "db_inv db \<Longrightarrow> map sp_name ps = map sp_name (db_policies db) \<Longrightarrow> db_inv (db\<lparr>db_policies := ps\<rparr>)"
  unfolding db_inv_def policy_names_def by (simp flip: set_map)

lemma db_inv_delete:
  assumes inv: "db_inv db" and none: "attached_subjects (db_bindings db) n = []"
  shows "db_inv (db\<lparr>db_policies := filter (\<lambda>p. sp_name p \<noteq> n) (db_policies db)\<rparr>)" (is "db_inv ?db")
proof -
  have "binding_ok (policy_names ?db) (snd b)" if "b \<in> set (db_bindings db)" for b
    using that inv none
    by (fastforce simp: db_inv_def attached_subjects_Nil_iff binding_ok_def policy_names_def)
  with inv show ?thesis by (auto simp: db_inv_def distinct_map_filter)
qed

lemma at_subject_keys [simp]: "map fst (at_subject s f bs) = map fst bs"
  by (simp add: at_subject_def comp_def if_distrib cong: if_cong)

lemma db_inv_at_subject:
  assumes "db_inv db"
    and "\<And>ns. (s, ns) \<in> set (db_bindings db) \<Longrightarrow> binding_ok (policy_names db) (f ns)"
  shows "db_inv (db\<lparr>db_bindings := at_subject s f (db_bindings db)\<rparr>)"
proof -
  have "binding_ok (policy_names db) (snd b)" if "b \<in> set (at_subject s f (db_bindings db))" for b
    using that assms by (auto simp: at_subject_def db_inv_def)
  with assms(1) show ?thesis by (simp add: db_inv_def policy_names_def)
qed

lemma db_inv_new_binding:
  "db_inv db \<Longrightarrow> n \<in> policy_names db \<Longrightarrow> s \<notin> fst ` set (db_bindings db) \<Longrightarrow>
     db_inv (db\<lparr>db_bindings := db_bindings db @ [(s, [n])]\<rparr>)"
  by (auto simp: db_inv_def policy_names_def binding_ok_def MAX_SETS_PER_KEY_def)

lemma db_inv_filter_bindings:
  "db_inv db \<Longrightarrow> db_inv (db\<lparr>db_bindings := filter P (db_bindings db)\<rparr>)"
  by (auto simp: db_inv_def policy_names_def distinct_map_filter)

section \<open>Statements of one call\<close>

text \<open>What the statement about to run relies on, when nothing else wrote since the reads.\<close>

fun call_fits :: "store_call \<Rightarrow> policy_db \<Rightarrow> bool" where
  "call_fits (SelectBindings name p rows) db \<longleftrightarrow> rows = db_policies db"
| "call_fits (DeletePolicy name) db \<longleftrightarrow> attached_subjects (db_bindings db) name = []"
| "call_fits (SelectSubject name s rest detach) db \<longleftrightarrow> name \<in> policy_names db"
| "call_fits (AppendName name s rest detach) db \<longleftrightarrow> name \<in> policy_names db \<and>
     (\<exists>ns. bound_names db s = Some ns \<and> name \<notin> set ns \<and> length ns < MAX_SETS_PER_KEY)"
| "call_fits (CreateBinding name s rest detach) db \<longleftrightarrow> name \<in> policy_names db"
| "call_fits c db \<longleftrightarrow> True"

lemma next_detach_fits [simp]: "call_fits (next_detach n ds) db"
  by (simp add: next_detach_def split: list.split)

lemma next_attach_fits: "n \<in> policy_names db \<Longrightarrow> call_fits (next_attach n as ds) db"
  by (simp add: next_attach_def split: list.split)

lemma after_bump_fits [simp]: "call_fits (after_bump_code a) db"
  by (simp add: after_bump_code_def split: after_bump.split option.split)

lemma after_get_fits:
  "call_fits (after_get n p (find_view n (db_policies db) (db_bindings db))) db"
proof (cases "find_view n (db_policies db) (db_bindings db)")
  case (Inr v)
  then have "n \<in> policy_names db"
    unfolding policy_names_def using find_view_Inr_iff by blast
  then show ?thesis
    using Inr find_view_Inr [OF Inr]
    by (simp add: after_get_def next_attach_fits split: get_for.split option.split)
qed (simp add: after_get_def)

lemma after_subject_fits:
  "n \<in> policy_names db \<Longrightarrow> call_fits (after_subject n s (bound_names db s) as ds) db"
  by (auto simp: after_subject_def Let_def next_attach_fits split: option.splits)

lemma start_fits: "store_starts js c \<Longrightarrow> call_fits c db"
  by (auto simp: store_starts_def store_create_def store_update_def store_remove_def
      store_updateAttachments_def)

lemma policy_names_bindings [simp]: "policy_names (db\<lparr>db_bindings := bs\<rparr>) = policy_names db"
  by (simp add: policy_names_def)

lemma stmt_alone:
  assumes "db_inv db" "call_fits c db" "store_stmt c db = (c', db')"
  shows "db_inv db' \<and> call_fits c' db'"
proof (cases c)
  case (SelectPolicies n p)
  then show ?thesis using assms by auto
next
  case (SelectBindings n p rows)
  then show ?thesis using assms by (auto simp: after_get_fits)
next
  case (CreatePolicy doc who)
  then show ?thesis
    using assms db_inv_append [OF assms(1), of "new_policy doc who"]
    by (auto simp: new_policy_def policy_names_def split: if_splits)
next
  case (UpdatePolicy n doc e who current)
  then show ?thesis
    using assms by (auto intro!: db_inv_same_names map_sp_name_replace)
next
  case (DeletePolicy n)
  then show ?thesis using assms by (auto intro: db_inv_delete)
next
  case (SelectSubject n s as ds)
  then show ?thesis using assms by (auto simp: after_subject_fits)
next
  case (AppendName n s as ds)
  with assms(2) obtain ns where ns: "bound_names db s = Some ns" "n \<notin> set ns" "length ns < MAX_SETS_PER_KEY"
    and n: "n \<in> policy_names db" by auto
  have "binding_ok (policy_names db) (ks @ [n])" if "(s, ks) \<in> set (db_bindings db)" for ks
  proof -
    have "ks = ns" using that assms(1) ns(1) by (auto simp: db_inv_def bound_names_def)
    moreover have "binding_ok (policy_names db) ks" using that assms(1) by (auto simp: db_inv_def)
    ultimately show ?thesis using ns n by (auto intro: binding_ok_snoc)
  qed
  with AppendName assms n show ?thesis
    by (auto intro!: db_inv_at_subject next_attach_fits)
next
  case (CreateBinding n s as ds)
  then show ?thesis
    using assms by (auto intro!: db_inv_new_binding next_attach_fits split: if_splits)
next
  case (RemoveName n s ds)
  have "db_inv (db\<lparr>db_bindings := at_subject s (remove1 n) (db_bindings db)\<rparr>)"
    by (rule db_inv_at_subject [OF assms(1)])
      (use assms(1) in \<open>force simp: db_inv_def intro: binding_ok_remove1\<close>)
  with RemoveName show ?thesis using assms by auto
next
  case (DropEmpty n s ds)
  then show ?thesis using assms by (auto intro: db_inv_filter_bindings)
next
  case (BumpVersion a)
  then show ?thesis using assms by auto
qed (use assms in auto)

text \<open>What the unique indexes guarantee, whatever runs in between.\<close>

definition rows_unique :: "policy_db \<Rightarrow> bool" where
  "rows_unique db \<longleftrightarrow> distinct (map sp_name (db_policies db)) \<and> distinct (map fst (db_bindings db))"

lemma stmt_unique: "rows_unique db \<Longrightarrow> store_stmt c db = (c', db') \<Longrightarrow> rows_unique db'"
  by (cases c) (auto simp: rows_unique_def new_policy_def bump_version_def distinct_map_filter
      comp_def split: if_splits)

section \<open>Histories of calls\<close>

definition alone_inv :: "store_world \<Rightarrow> bool" where
  "alone_inv w \<longleftrightarrow> db_inv (sw_db w) \<and>
     (\<forall>i c. sw_calls w i = Some c \<longrightarrow> call_fits c (sw_db w)) \<and>
     (\<forall>i j. sw_calls w i \<noteq> None \<longrightarrow> sw_calls w j \<noteq> None \<longrightarrow> i = j)"

lemma alone_step: "store_step js False w w' \<Longrightarrow> alone_inv w \<Longrightarrow> alone_inv w'"
proof (induction rule: store_step.induct)
  case (step_start c w i)
  then show ?case by (auto simp: alone_inv_def start_fits)
next
  case (step_stmt w i c c' db')
  have "call_fits c (sw_db w)" "db_inv (sw_db w)" using step_stmt by (auto simp: alone_inv_def)
  from stmt_alone [OF this(2,1) step_stmt.hyps(2)] have new: "db_inv db'" "call_fits c' db'" by simp_all
  have only: "j = i" if "sw_calls w j \<noteq> None" for j
    using step_stmt that by (auto simp: alone_inv_def)
  have calls: "((sw_calls w)(i \<mapsto> c')) j = (if j = i then Some c' else None)" for j
    using only [of j] by (cases "sw_calls w j") auto
  then have "(sw_calls w)(i \<mapsto> c') = (\<lambda>j. if j = i then Some c' else None)" by blast
  with new show ?case by (auto simp: alone_inv_def split: if_splits)
next
  case (step_stop w i)
  then show ?case by (auto simp: alone_inv_def)
qed

interpretation store_alone: state_machine "store_step js False" alone_inv for js
  by unfold_locales (rule alone_step)

lemma unique_step: "store_step js ov w w' \<Longrightarrow> rows_unique (sw_db w) \<Longrightarrow> rows_unique (sw_db w')"
  by (induction rule: store_step.induct) (auto dest: stmt_unique)

interpretation store_overlapped: state_machine "store_step js ov" "\<lambda>w. rows_unique (sw_db w)" for js ov
  by unfold_locales (rule unique_step)

lemma backfill_doc_keys: "map df_documentId (snd (backfill_doc d acc)) = map df_documentId (snd acc)"
  by (cases acc) (auto simp: backfill_doc_def split: option.splits)

lemma replace_misses:
  "\<not> (\<exists>p \<in> set ps. sp_name p = n \<and> sp_version p = e) \<Longrightarrow> map (replace_document n e doc u) ps = ps"
  by (induction ps) (auto simp: replace_document_def)

lemma replaced_no_longer_expected:
  "\<not> (\<exists>p \<in> set (map (replace_document n e doc u) ps). sp_name p = n \<and> sp_version p = e)"
proof -
  have "sp_version (replace_document n e doc u p) \<noteq> e" if "sp_name (replace_document n e doc u p) = n" for p
    using that by (auto simp: replace_document_def)
  then show ?thesis by auto
qed

section \<open>Backfill\<close>

text \<open>No fact of the document is left without metadata.\<close>

definition doc_done :: "doc_fact list \<Rightarrow> source_doc \<Rightarrow> bool" where
  "doc_done facts d \<longleftrightarrow> sm_meta (sanitizeSourceMeta (sd_meta d)) = None \<or>
     (\<forall>f \<in> set facts. df_documentId f = sd_id d \<longrightarrow> df_meta f \<noteq> None)"

lemma backfill_doc_done: "doc_done (snd (backfill_doc d acc)) d"
  by (cases acc) (auto simp: backfill_doc_def doc_done_def split: option.splits)

lemma backfill_doc_keeps: "doc_done (snd acc) d \<Longrightarrow> doc_done (snd (backfill_doc d' acc)) d"
  by (cases acc) (auto simp: backfill_doc_def doc_done_def split: option.splits)

lemma backfill_keeps: "doc_done (snd acc) d \<Longrightarrow> doc_done (snd (fold backfill_doc ds acc)) d"
  by (induction ds arbitrary: acc) (simp_all add: backfill_doc_keeps)

lemma backfill_all_done: "d \<in> set ds \<Longrightarrow> doc_done (snd (fold backfill_doc ds acc)) d"
proof (induction ds arbitrary: acc)
  case (Cons d' ds)
  show ?case
  proof (cases "d = d'")
    case True
    then show ?thesis by (simp add: backfill_keeps backfill_doc_done)
  next
    case False
    with Cons.prems Cons.IH [of "backfill_doc d' acc"] show ?thesis by simp
  qed
qed simp

lemma backfill_doc_noop: "doc_done facts d \<Longrightarrow> backfill_doc d (n, facts) = (n, facts)"
proof (cases "sm_meta (sanitizeSourceMeta (sd_meta d))")
  case (Some m)
  assume "doc_done facts d"
  with Some have none: "\<not> (df_documentId f = sd_id d \<and> df_meta f = None)" if "f \<in> set facts" for f
    using that by (auto simp: doc_done_def)
  then have "filter (\<lambda>f. df_documentId f = sd_id d \<and> df_meta f = None) facts = []"
    by (auto simp: filter_empty_conv)
  moreover have "map (\<lambda>f. if df_documentId f = sd_id d \<and> df_meta f = None
      then f\<lparr>df_meta := Some m\<rparr> else f) facts = facts"
    using none by (intro map_idI) auto
  ultimately show ?thesis using Some by (simp add: backfill_doc_def)
qed (simp add: backfill_doc_def)

lemma backfill_noop: "(\<forall>d \<in> set ds. doc_done facts d) \<Longrightarrow> fold backfill_doc ds (n, facts) = (n, facts)"
  by (induction ds) (simp_all add: backfill_doc_noop)

section \<open>Sample tables\<close>

definition sample_db :: policy_db where
  "sample_db = \<lparr>db_policies = [\<lparr>sp_name = ''p1'', sp_mode = Enforce,
       sp_document = sample_document ''p1'', sp_version = 1, sp_updatedBy = ''root''\<rparr>],
     db_bindings = [(''key:k1'', [''p1''])], db_version = 1\<rparr>"

lemma sample_db_inv: "db_inv sample_db"
  by (simp add: db_inv_def sample_db_def binding_ok_def policy_names_def MAX_SETS_PER_KEY_def)

definition sample_store :: store_world where
  "sample_store = \<lparr>sw_db = sample_db, sw_calls = Map.empty, sw_settled = True\<rparr>"

lemma run_call_steps:
  "sw_calls w i = Some c \<Longrightarrow> run_call n c (sw_db w) b = (c', db', b') \<Longrightarrow>
     \<exists>k. \<forall>ov. (store_step js ov)\<^sup>*\<^sup>* w (w\<lparr>sw_db := db', sw_calls := (sw_calls w)(i \<mapsto> c'), sw_settled := k\<rparr>)"
proof (induction n arbitrary: w c b)
  case 0
  then have "w\<lparr>sw_db := db', sw_calls := (sw_calls w)(i \<mapsto> c'), sw_settled := sw_settled w\<rparr> = w"
    by (simp add: map_upd_triv)
  then show ?case by (metis rtranclp.rtrancl_refl)
next
  case (Suc n)
  show ?case
  proof (cases "call_ended c")
    case True
    with Suc.prems have "w\<lparr>sw_db := db', sw_calls := (sw_calls w)(i \<mapsto> c'), sw_settled := sw_settled w\<rparr> = w"
      by (simp add: map_upd_triv)
    then show ?thesis by (metis rtranclp.rtrancl_refl)
  next
    case False
    obtain c1 db1 where st: "store_stmt c (sw_db w) = (c1, db1)" by fastforce
    let ?w1 = "w\<lparr>sw_db := db1, sw_calls := (sw_calls w)(i \<mapsto> c1),
      sw_settled := keeps_settled (sw_db w) db1 (sw_settled w)\<rparr>"
    from Suc.IH [of ?w1 c1] Suc.prems(2) False st
    obtain k where k: "\<forall>ov. (store_step js ov)\<^sup>*\<^sup>* ?w1
        (?w1\<lparr>sw_db := db', sw_calls := (sw_calls ?w1)(i \<mapsto> c'), sw_settled := k\<rparr>)"
      by fastforce
    have "store_step js ov w ?w1" for ov using Suc.prems(1) st by (rule step_stmt)
    with k have "\<forall>ov. (store_step js ov)\<^sup>*\<^sup>* w
        (w\<lparr>sw_db := db', sw_calls := (sw_calls w)(i \<mapsto> c'), sw_settled := k\<rparr>)"
      by (auto intro: converse_rtranclp_into_rtranclp)
    then show ?thesis by blast
  qed
qed

lemma start_attachments: "store_starts js (store_updateAttachments n ats dets)"
  unfolding store_starts_def by blast

definition sample_call :: store_call where
  "sample_call = store_updateAttachments ''p1'' [''key:k2''] []"

lemma sample_attach:
  "\<exists>w. (\<forall>ov. (store_step sample_js ov)\<^sup>*\<^sup>* sample_store w) \<and>
     bound_names (sw_db w) ''key:k2'' = Some [''p1''] \<and> db_version (sw_db w) = 2"
proof -
  obtain c' db' b' where run: "run_call 9 sample_call sample_db False = (c', db', b')"
    by (metis prod_cases3)
  have "bound_names (fst (snd (run_call 9 sample_call sample_db False))) ''key:k2'' = Some [''p1'']"
    "db_version (fst (snd (run_call 9 sample_call sample_db False))) = 2"
    by code_simp+
  then have res: "bound_names db' ''key:k2'' = Some [''p1'']" "db_version db' = 2"
    unfolding run by simp_all
  let ?w = "sample_store\<lparr>sw_calls := (sw_calls sample_store)(0 \<mapsto> sample_call)\<rparr>"
  have first: "store_step sample_js ov sample_store ?w" for ov
    by (rule step_start) (simp_all add: sample_store_def start_attachments sample_call_def)
  have "sw_calls ?w 0 = Some sample_call" "run_call 9 sample_call (sw_db ?w) False = (c', db', b')"
    using run by (simp_all add: sample_store_def)
  from run_call_steps [OF this] obtain k where k: "\<forall>ov. (store_step sample_js ov)\<^sup>*\<^sup>* ?w
      (?w\<lparr>sw_db := db', sw_calls := (sw_calls ?w)(0 \<mapsto> c'), sw_settled := k\<rparr>)" ..
  let ?w' = "?w\<lparr>sw_db := db', sw_calls := (sw_calls ?w)(0 \<mapsto> c'), sw_settled := k\<rparr>"
  have "(store_step sample_js ov)\<^sup>*\<^sup>* sample_store ?w'" for ov
    by (rule converse_rtranclp_into_rtranclp [OF first k [rule_format]])
  moreover have "bound_names (sw_db ?w') ''key:k2'' = Some [''p1'']" "db_version (sw_db ?w') = 2"
    using res by simp_all
  ultimately show ?thesis by blast
qed

section \<open>Properties\<close>

text \<open>C32: The store runs its calls statement by statement.  However calls overlap, fail or stop
  half way, set names stay unique and a subject has one binding row.  As long as no call
  starts before the previous one has ended, referential integrity holds after every single
  statement, calls that are refused or stop half way included: every bound name is a stored
  set, and no subject carries a set twice or more sets than the cap.\<close>

theorem store_integrity:
  assumes "db_inv (sw_db w)" "sw_calls w = Map.empty"
    and "(store_step js True)\<^sup>*\<^sup>* w w1" "(store_step js False)\<^sup>*\<^sup>* w w2"
  shows "rows_unique (sw_db w1) \<and> db_inv (sw_db w2)"
proof -
  have "rows_unique (sw_db w)" using assms(1) by (simp add: rows_unique_def db_inv_def)
  moreover have "alone_inv w" using assms by (simp add: alone_inv_def)
  ultimately show ?thesis
    using store_overlapped.inv_steps [OF assms(3)] store_alone.inv_steps [OF assms(4)]
    by (auto simp: alone_inv_def)
qed

theorem store_integrity_witness:
  "\<exists>w. (store_step sample_js False)\<^sup>*\<^sup>* sample_store w \<and> db_inv (sw_db w) \<and>
     bound_names (sw_db w) ''key:k2'' = Some [''p1''] \<and> db_version (sw_db w) = 2"
proof -
  obtain w where w: "\<forall>ov. (store_step sample_js ov)\<^sup>*\<^sup>* sample_store w" "bound_names (sw_db w) ''key:k2'' = Some [''p1'']"
    "db_version (sw_db w) = 2"
    using sample_attach by blast
  have "db_inv (sw_db sample_store)" "sw_calls sample_store = Map.empty"
    by (simp_all add: sample_store_def sample_db_inv)
  from store_integrity [OF this w(1) [rule_format] w(1) [rule_format]] w show ?thesis by blast
qed

text \<open>No lost update.  Once an update against expected version \<open>e\<close> has replaced the document, the
  statement of every other update of that set against the same expected version changes no
  set and ends in the version conflict.\<close>

lemma update_conflict_detected:
  assumes "store_stmt (UpdatePolicy n d1 e w1 c1) db = (BumpVersion (ThenInvalidate r), db')"
  shows "store_stmt (UpdatePolicy n d2 e w2 c2) db' = (BumpVersion (ThenThrow (VersionConflict c2)), db')"
proof -
  from assms have db': "db_policies db' = map (replace_document n e d1 w1) (db_policies db)"
    by (auto split: if_splits)
  have miss: "\<not> (\<exists>p \<in> set (db_policies db'). sp_name p = n \<and> sp_version p = e)"
    unfolding db' by (rule replaced_no_longer_expected)
  then have "\<not> replace_hits n e db'" by (simp add: replace_hits_def)
  then show ?thesis using replace_misses [OF miss] by simp
qed

text \<open>Every call that runs alone ends: each of its statements brings it nearer.\<close>

fun call_measure :: "store_call \<Rightarrow> nat" where
  "call_measure (SelectPolicies n ForReturn) = 2"
| "call_measure (SelectPolicies n (ForAttachments as ds)) = 6 + 2 * length as + 2 * length ds"
| "call_measure (SelectPolicies n p) = 6"
| "call_measure (SelectBindings n ForReturn rows) = 1"
| "call_measure (SelectBindings n (ForAttachments as ds) rows) = 5 + 2 * length as + 2 * length ds"
| "call_measure (SelectBindings n p rows) = 5"
| "call_measure (CreatePolicy doc who) = 4"
| "call_measure (UpdatePolicy n doc e who current) = 4"
| "call_measure (DeletePolicy n) = 4"
| "call_measure (SelectSubject n s as ds) = 5 + 2 * length as + 2 * length ds"
| "call_measure (AppendName n s as ds) = 4 + 2 * length as + 2 * length ds"
| "call_measure (CreateBinding n s as ds) = 4 + 2 * length as + 2 * length ds"
| "call_measure (RemoveName n s ds) = 5 + 2 * length ds"
| "call_measure (DropEmpty n s ds) = 4 + 2 * length ds"
| "call_measure (BumpVersion a) = 3"
| "call_measure c = 0"

lemma next_detach_measure: "call_measure (next_detach n ds) \<le> 3 + 2 * length ds"
  by (cases ds) (simp_all add: next_detach_def)

lemma next_attach_measure: "call_measure (next_attach n as ds) \<le> 3 + 2 * length as + 2 * length ds"
  using next_detach_measure [of n ds] by (cases as) (simp_all add: next_attach_def)

lemma after_get_measure: "call_measure (after_get n p r) < call_measure (SelectBindings n p rows)"
  by (cases p) (auto simp: after_get_def split: sum.split option.split intro: le_less_trans [OF next_attach_measure])

lemma after_bump_measure: "call_measure (after_bump_code a) < 3"
  by (simp add: after_bump_code_def split: after_bump.split option.split)

lemma after_subject_measure:
  "call_measure (after_subject n s row as ds) < 5 + 2 * length as + 2 * length ds"
  using next_attach_measure [of n as ds]
  by (auto simp: after_subject_def Let_def split: option.split)

lemma stmt_measure: "\<not> call_ended c \<Longrightarrow> call_measure (fst (store_stmt c db)) < call_measure c"
proof (cases c)
  case (SelectPolicies n p)
  then show ?thesis by (cases p) simp_all
next
  case (SelectBindings n p rows)
  then show ?thesis using after_get_measure by simp
next
  case (RemoveName n s ds)
  then show ?thesis by simp
next
  case (DropEmpty n s ds)
  then show ?thesis using next_detach_measure [of n ds] by simp
next
  case (AppendName n s as ds)
  then show ?thesis using next_attach_measure [of n as ds] by simp
next
  case (CreateBinding n s as ds)
  then show ?thesis using next_attach_measure [of n as ds] by simp
qed (auto simp: after_subject_measure after_bump_measure)

lemma run_call_ends: "call_measure c \<le> n \<Longrightarrow> call_ended (fst (run_call n c db b))"
proof (induction n arbitrary: c db b)
  case 0
  then have "\<not> \<not> call_ended c" using stmt_measure [of c db] by auto
  then show ?case by simp
next
  case (Suc n)
  then show ?case
    using stmt_measure [of c db] Suc.IH [of "fst (store_stmt c db)"]
    by (auto simp: case_prod_beta)
qed

section \<open>Calls that overlap\<close>

text \<open>Two attachments of one set to one subject that both read the binding before either
  appends carry the set twice, and two of different sets exceed the cap.\<close>

lemma racing_attach_duplicates:
  "let call = store_updateAttachments ''p1'' [''key:k2''] [];
       db0 = sample_db\<lparr>db_bindings := [(''key:k2'', [''p0''])]\<rparr>;
       (a, db1, _) = run_call 3 call db0 False;
       (b, db2, _) = run_call 3 call db1 False;
       (a', db3, _) = run_call 9 a db2 False;
       (b', db4, _) = run_call 9 b db3 False
   in bound_names db4 ''key:k2'' = Some [''p0'', ''p1'', ''p1'']"
  by code_simp

text \<open>A removal that read the bindings before an attachment wrote deletes a set that is attached
  by the time it deletes: the binding dangles.\<close>

lemma racing_remove_dangles:
  "let db0 = sample_db\<lparr>db_bindings := []\<rparr>;
       (r, db1, _) = run_call 2 (store_remove ''p1'') db0 False;
       (a, db2, _) = run_call 9 (store_updateAttachments ''p1'' [''key:k2''] []) db1 False;
       (r', db3, _) = run_call 9 r db2 False
   in bound_names db3 ''key:k2'' = Some [''p1''] \<and> db_policies db3 = []"
  by code_simp

text \<open>The metadata backfill is idempotent: run again over the same documents it updates no
  fact.  It reports the same number of remaining documents as before, since a call always
  takes the oldest documents first.\<close>

theorem backfill_idempotent:
  "(let (rep1, facts1) = backfillSourceMeta n docs facts;
        (rep2, facts2) = backfillSourceMeta n docs facts1
    in facts2 = facts1 \<and> bf_factsUpdated rep2 = 0 \<and> bf_remaining rep2 = bf_remaining rep1)"
proof -
  let ?batch = "take n (filter has_meta docs)"
  let ?facts1 = "snd (fold backfill_doc ?batch (0, facts))"
  have "fold backfill_doc ?batch (0, ?facts1) = (0, ?facts1)"
    by (rule backfill_noop) (simp add: backfill_all_done)
  then show ?thesis by (simp add: backfillSourceMeta_def Let_def case_prod_beta)
qed

text \<open>So with more documents than one call takes, no number of calls brings the remainder to
  zero.\<close>

lemma backfill_never_finishes:
  "n < length (filter has_meta docs) \<Longrightarrow>
     0 < bf_remaining (fst (backfillSourceMeta n docs facts))"
  by (simp add: backfillSourceMeta_def Let_def case_prod_beta)

end
