(* ===== verification/PolicyResolver.thy ===== *)
theory PolicyResolver imports PolicyStore LruCache begin

text \<open>
  From a credential to its policy context (\<open>src/policy/policy-resolver.service.ts\<close>): the
  tenant snapshot a load compiles, the snapshot cache with its time-to-live and the
  version check other replicas rely on, and the resolution of the names a subject
  references.  A call to \<open>snapshot\<close> is one step: what the clock and the database answer
  while it runs is the record \<open>call_world\<close>; requests that join a load already in flight
  get that load's answer and are not told apart.  A load compiles every document at one
  clock reading.
\<close>

record tenant_snapshot =
  sn_sets :: "(string \<times> compiled_policy_set) list"
  sn_known :: "string list"
  sn_bindings :: "(string \<times> string list) list"
  sn_loadedAt :: int
  sn_version :: int
  sn_checkedAt :: int

definition COHERENCE_MS :: int where "COHERENCE_MS = 5000"

section \<open>Loading\<close>

fun load_sets ::
    "js_lib \<Rightarrow> int \<Rightarrow> stored_policy list \<Rightarrow> (string \<times> compiled_policy_set) list \<Rightarrow> string list \<Rightarrow>
     ((string \<times> compiled_policy_set) list \<times> string list) option" where
  "load_sets js now [] sets known = Some (sets, known)"
| "load_sets js now (p # ps) sets known =
     (let known' = List.insert (sp_name p) known
      in case compilePolicySet js now (sp_document p) of
           CompileThrew \<Rightarrow> None
         | CompileNull \<Rightarrow> load_sets js now ps sets known'
         | CompileSet s \<Rightarrow> load_sets js now ps (AList.update (sp_name p) s sets) known')"

text \<open>The version is read first, the tables after it: three reads, of the three states the
  tenant's tables are in at those moments.\<close>

definition loadFresh ::
    "js_lib \<Rightarrow> int \<Rightarrow> policy_db \<Rightarrow> policy_db \<Rightarrow> policy_db \<Rightarrow> tenant_snapshot option" where
  "loadFresh js now dbv dbp dbb =
     (case load_sets js now (db_policies dbp) [] [] of
        None \<Rightarrow> None
      | Some (sets, known) \<Rightarrow>
          Some \<lparr>sn_sets = sets, sn_known = known,
                sn_bindings = fold (\<lambda>b. AList.update (fst b) (snd b)) (db_bindings dbb) [],
                sn_loadedAt = now, sn_version = db_version dbv, sn_checkedAt = now\<rparr>)"

section \<open>The snapshot cache\<close>

record call_world =
  cw_now :: int                      \<comment> \<open>the clock when the call starts\<close>
  cw_checkNow :: int                 \<comment> \<open>the clock when the version check starts\<close>
  cw_version :: "int option"         \<comment> \<open>the version read, None where the read fails\<close>
  cw_checkedNow :: int               \<comment> \<open>the clock when the version read returns\<close>
  cw_load :: "tenant_snapshot option" \<comment> \<open>what a load gives, None where it fails\<close>

type_synonym snapshot_cache = "(string, tenant_snapshot) lru"

definition stillCurrent :: "call_world \<Rightarrow> tenant_snapshot \<Rightarrow> bool \<times> tenant_snapshot" where
  "stillCurrent w cached =
     (if cw_checkNow w - sn_checkedAt cached < COHERENCE_MS then (True, cached)
      else (case cw_version w of
              Some current \<Rightarrow>
                (current = sn_version cached, cached\<lparr>sn_checkedAt := cw_checkedNow w\<rparr>)
            | None \<Rightarrow> (True, cached\<lparr>sn_checkedAt := cw_checkedNow w\<rparr>)))"

text \<open>\<open>checkedAt\<close> is assigned on the object the cache holds.\<close>

definition cache_assign :: "string \<Rightarrow> tenant_snapshot \<Rightarrow> snapshot_cache \<Rightarrow> snapshot_cache" where
  "cache_assign k s c =
     c\<lparr>lru_map := map (\<lambda>e. if fst e = k then (k, s) else e) (lru_map c)\<rparr>"

definition load_or_stale ::
    "string \<Rightarrow> call_world \<Rightarrow> tenant_snapshot option \<Rightarrow> snapshot_cache \<Rightarrow>
     tenant_snapshot option \<times> snapshot_cache" where
  "load_or_stale companyId w cached c =
     (case cw_load w of
        Some s \<Rightarrow> (Some s, lru_set companyId s c)
      | None \<Rightarrow> (cached, c))"

definition resolver_snapshot ::
    "int \<Rightarrow> string \<Rightarrow> call_world \<Rightarrow> snapshot_cache \<Rightarrow> tenant_snapshot option \<times> snapshot_cache" where
  "resolver_snapshot ttlMs companyId w c =
     (let (cached, c1) = lru_get companyId c
      in case cached of
           None \<Rightarrow> load_or_stale companyId w None c1
         | Some s \<Rightarrow>
             if cw_now w - sn_loadedAt s < ttlMs
             then (let (ok, s') = stillCurrent w s; c2 = cache_assign companyId s' c1
                   in if ok then (Some s', c2) else load_or_stale companyId w (Some s') c2)
             else load_or_stale companyId w (Some s) c1)"

definition resolver_invalidate :: "string \<Rightarrow> snapshot_cache \<Rightarrow> snapshot_cache" where
  "resolver_invalidate companyId c = lru_delete companyId c"

section \<open>Resolving a subject\<close>

record policy_subject =
  ps_keyHash :: string
  ps_claimNames :: "string list option"
  ps_actorId :: "string option"

definition bound :: "tenant_snapshot \<Rightarrow> string \<Rightarrow> string list" where
  "bound snap subject =
     (case map_of (sn_bindings snap) subject of None \<Rightarrow> [] | Some ns \<Rightarrow> ns)"

definition subject_names :: "tenant_snapshot \<Rightarrow> policy_subject \<Rightarrow> string list" where
  "subject_names snap sub =
     bound snap (''key:'' @ ps_keyHash sub) @
     (if starts_with ''jwt:'' (ps_keyHash sub) then bound snap (ps_keyHash sub) else []) @
     (case ps_actorId sub of
        Some a \<Rightarrow> if a \<noteq> [] then bound snap (''agent:'' @ a) else []
      | None \<Rightarrow> []) @
     (case ps_claimNames sub of Some ns \<Rightarrow> ns | None \<Rightarrow> [])"

definition push_name :: "string \<Rightarrow> string list \<times> bool \<Rightarrow> string list \<times> bool" where
  "push_name n st =
     (case st of (names, truncated) \<Rightarrow>
        if n \<in> set names then (names, truncated)
        else if MAX_SETS_PER_KEY \<le> length names then (names, True)
        else (names @ [n], truncated))"

text \<open>The sets of the names, and the names that failed closed.\<close>

fun resolve_sets ::
    "tenant_snapshot \<Rightarrow> string list \<Rightarrow> compiled_policy_set list \<times> string list" where
  "resolve_sets snap [] = ([], [])"
| "resolve_sets snap (n # ns) =
     (let (sets, errs) = resolve_sets snap ns
      in case map_of (sn_sets snap) n of
           Some s \<Rightarrow> (s # sets, errs)
         | None \<Rightarrow> if n \<notin> set (sn_known snap) then (denyAllSet n # sets, n # errs)
                   else (sets, errs))"

datatype resolver_event = SetsTruncated | ResolutionError string

definition contextFor ::
    "bool \<Rightarrow> bool \<Rightarrow> string \<Rightarrow> policy_subject \<Rightarrow> tenant_snapshot \<Rightarrow>
     policy_context option \<times> resolver_event list" where
  "contextFor enabled forceReportOnly companyId sub snap =
     (if \<not> enabled then (None, [])
      else
        (let (names, truncated) = fold push_name (subject_names snap sub) ([], False);
             evs = (if truncated then [SetsTruncated] else [])
         in if names = [] then (None, evs)
            else
              (let (sets, errs) = resolve_sets snap names; evs' = evs @ map ResolutionError errs
               in if sets = [] then (None, evs')
                  else (Some \<lparr>cx_companyId = companyId, cx_keyHash = ps_keyHash sub,
                              cx_sets = sets, cx_forceReportOnly = forceReportOnly,
                              cx_resolutionError = (errs \<noteq> [])\<rparr>, evs'))))"

section \<open>Names\<close>

definition resolved_names :: "tenant_snapshot \<Rightarrow> policy_subject \<Rightarrow> string list" where
  "resolved_names snap sub = fst (fold push_name (subject_names snap sub) ([], False))"

definition names_inv :: "string list \<Rightarrow> string list \<times> bool \<Rightarrow> bool" where
  "names_inv seen st \<longleftrightarrow>
     fst st = take MAX_SETS_PER_KEY (dedupe seen) \<and>
     (snd st \<longleftrightarrow> MAX_SETS_PER_KEY < length (dedupe seen))"

lemma push_name_inv: "names_inv seen st \<Longrightarrow> names_inv (seen @ [n]) (push_name n st)"
proof -
  assume inv: "names_inv seen st"
  obtain names tr where st: "st = (names, tr)" by (cases st)
  have names: "names = take MAX_SETS_PER_KEY (dedupe seen)"
    and tr: "tr \<longleftrightarrow> MAX_SETS_PER_KEY < length (dedupe seen)"
    using inv by (simp_all add: names_inv_def st)
  show ?thesis
  proof (cases "length (dedupe seen) < MAX_SETS_PER_KEY")
    case True
    then have "names = dedupe seen" using names by simp
    with True tr show ?thesis
      by (auto simp: names_inv_def st push_name_def dedupe_snoc)
  next
    case False
    then have len: "length names = MAX_SETS_PER_KEY" using names by simp
    have "n \<in> set seen" if "n \<in> set names"
      using that names by (metis in_set_takeD set_dedupe)
    moreover have "length (dedupe seen) > MAX_SETS_PER_KEY" if "n \<in> set seen" "n \<notin> set names"
      using that False names by (metis linorder_neqE_nat nat_le_linear set_dedupe take_all)
    ultimately show ?thesis
      using False len names tr by (auto simp: names_inv_def st push_name_def dedupe_snoc)
  qed
qed

lemma push_names_inv:
  "names_inv seen st \<Longrightarrow> names_inv (seen @ ns) (fold push_name ns st)"
proof (induction ns arbitrary: seen st)
  case (Cons n ns)
  from Cons.IH [OF push_name_inv [OF Cons.prems]] show ?case by simp
qed simp

lemma push_names_init: "names_inv ns (fold push_name ns ([], False))"
  using push_names_inv [of "[]" "([], False)" ns] by (simp add: names_inv_def)

lemma resolved_names_eq:
  "resolved_names snap sub = take MAX_SETS_PER_KEY (dedupe (subject_names snap sub))"
  using push_names_init [of "subject_names snap sub"] by (simp add: names_inv_def resolved_names_def)

lemma truncated_iff:
  "snd (fold push_name (subject_names snap sub) ([], False)) \<longleftrightarrow>
     MAX_SETS_PER_KEY < length (dedupe (subject_names snap sub))"
  using push_names_init [of "subject_names snap sub"] by (simp add: names_inv_def)

section \<open>Sets\<close>

definition set_of_name :: "tenant_snapshot \<Rightarrow> string \<Rightarrow> compiled_policy_set option" where
  "set_of_name snap n =
     (case map_of (sn_sets snap) n of
        Some s \<Rightarrow> Some s
      | None \<Rightarrow> if n \<in> set (sn_known snap) then None else Some (denyAllSet n))"

lemma resolve_sets_eq:
  "resolve_sets snap ns =
     (List.map_filter (set_of_name snap) ns,
      filter (\<lambda>n. map_of (sn_sets snap) n = None \<and> n \<notin> set (sn_known snap)) ns)"
  by (induction ns) (simp_all add: set_of_name_def map_filter_def split: option.splits)

lemma set_map_filter_iff: "s \<in> set (List.map_filter f xs) \<longleftrightarrow> (\<exists>x \<in> set xs. f x = Some s)"
  by (force simp: map_filter_def)

lemma contextFor_Some:
  assumes "contextFor en force company sub snap = (Some ctx, evs)"
  shows "cx_sets ctx = List.map_filter (set_of_name snap) (resolved_names snap sub)"
    "cx_forceReportOnly ctx = force"
  using assms
  by (auto simp: contextFor_def resolve_sets_eq resolved_names_def Let_def case_prod_beta
      split: if_splits)

lemma contextFor_None_iff:
  "fst (contextFor en force company sub snap) = None \<longleftrightarrow>
     \<not> en \<or> (\<forall>n \<in> set (resolved_names snap sub). set_of_name snap n = None)"
proof -
  have "List.map_filter f xs = [] \<longleftrightarrow> (\<forall>x \<in> set xs. f x = None)"
    for f :: "string \<Rightarrow> compiled_policy_set option" and xs
    by (auto simp: map_filter_def filter_empty_conv)
  then show ?thesis
    by (auto simp: contextFor_def resolve_sets_eq resolved_names_def Let_def case_prod_beta)
qed

lemma denyAll_blocks_action: "action_verdict.blocks (denyAllSet n) q"
  by (simp add: action_verdict.blocks_def denyAllSet_def action_allowed_def Let_def)

lemma denyAll_blocks_row: "row_verdict.blocks (denyAllSet n) v"
  by (simp add: row_verdict.blocks_def denyAllSet_def row_allowed_def Let_def)

lemma denyAll_mode: "cs_mode (denyAllSet n) = Enforce"
  by (simp add: denyAllSet_def Let_def)

section \<open>Loads\<close>

lemma load_sets_known:
  "load_sets js now ps sets known = Some (sets', known') \<Longrightarrow>
     set known' = sp_name ` set ps \<union> set known"
  by (induction ps arbitrary: sets known) (auto simp: Let_def split: compile_result.splits)

lemma load_sets_total:
  "(\<forall>p \<in> set ps. document_accepted js (sp_document p)) \<Longrightarrow> \<exists>r. load_sets js now ps sets known = Some r"
proof (induction ps arbitrary: sets known)
  case (Cons p ps)
  then have acc: "document_accepted js (sp_document p)" by simp
  have "compilePolicySet js now (sp_document p) \<noteq> CompileThrew"
    using accepted_document_compiles [OF acc, of RuleSource Deny]
      accepted_document_compiles [OF acc, of RuleSource Allow]
    by (auto simp: compilePolicySet_def)
  with Cons show ?case by (auto simp: Let_def split: compile_result.splits)
qed simp

section \<open>Coherence with the store's writes\<close>

text \<open>Along any history of the store's calls the version never falls; and a history that ends
  settled with the version it began with began settled, with the same tables.\<close>

definition versioned :: "store_world \<Rightarrow> store_world \<Rightarrow> bool" where
  "versioned w w' \<longleftrightarrow>
     db_version (sw_db w) \<le> db_version (sw_db w') \<and>
     (db_version (sw_db w') = db_version (sw_db w) \<longrightarrow> sw_settled w' \<longrightarrow>
        sw_settled w \<and> sw_db w' = sw_db w)"

lemma versioned_trans: "versioned w w' \<Longrightarrow> versioned w' w'' \<Longrightarrow> versioned w w''"
  by (auto simp: versioned_def)

lemma stmt_version:
  "store_stmt c db = (c', db') \<Longrightarrow> db_version db' = db_version db \<or> db_version db' = db_version db + 1"
  by (cases c) (auto split: if_splits)

lemma store_step_versioned: "store_step js ov w w' \<Longrightarrow> versioned w w'"
proof (induction rule: store_step.induct)
  case (step_stmt w i c c' db')
  have "db' = sw_db w" if "db_version db' = db_version (sw_db w)"
      "db_policies db' = db_policies (sw_db w)" "db_bindings db' = db_bindings (sw_db w)"
    using that by (intro policy_db.equality) simp_all
  with stmt_version [OF step_stmt.hyps(2)] show ?case
    by (auto simp: versioned_def keeps_settled_def)
qed (simp_all add: versioned_def)

interpretation store_versions: tracked_machine "store_step js ov" "\<lambda>_. True" versioned for js ov
  by unfold_locales (auto intro: store_step_versioned versioned_trans, simp add: versioned_def)

lemmas steps_versioned = store_versions.rel_steps [OF _ TrueI]

text \<open>Equal versions along a history that ends settled mean equal tables, in between as well.\<close>

lemma same_version_same_tables:
  assumes "versioned w w1" "versioned w1 w2" "versioned w2 w3"
    and "db_version (sw_db w3) = db_version (sw_db w)" "sw_settled w3"
  shows "sw_db w1 = sw_db w \<and> sw_db w2 = sw_db w \<and> sw_db w3 = sw_db w"
  using assms unfolding versioned_def by auto

section \<open>Sample snapshot\<close>

definition sample_snapshot :: tenant_snapshot where
  "sample_snapshot = \<lparr>sn_sets = [], sn_known = [], sn_bindings = [(''key:k1'', [''ghost''])],
     sn_loadedAt = 0, sn_version = 1, sn_checkedAt = 0\<rparr>"

definition sample_subject :: policy_subject where
  "sample_subject = \<lparr>ps_keyHash = ''k1'', ps_claimNames = None, ps_actorId = None\<rparr>"

definition sample_world :: "int option \<Rightarrow> call_world" where
  "sample_world v = \<lparr>cw_now = 6000, cw_checkNow = 6000, cw_version = v, cw_checkedNow = 6001,
     cw_load = Some (sample_snapshot\<lparr>sn_loadedAt := 6002, sn_version := 2\<rparr>)\<rparr>"

definition sample_cache :: snapshot_cache where
  "sample_cache = \<lparr>lru_cap = 4, lru_map = [(''co'', sample_snapshot)]\<rparr>"

section \<open>Properties\<close>

text \<open>C27: A dangling reference fails closed.  With the engine on and not forced to report only, if
  one of the names a subject resolves to (the first eight distinct ones) is not a set of its
  tenant, the subject gets a context, flagged as a resolution error, in which every action and
  every row is denied.\<close>

theorem unknown_set_fails_closed:
  assumes "n \<in> set (resolved_names snap sub)" "n \<notin> set (sn_known snap)"
    and "map_of (sn_sets snap) n = None"
  shows "\<exists>ctx. fst (contextFor True False company sub snap) = Some ctx \<and> cx_resolutionError ctx \<and>
           ev_decision (evaluateAction ctx a k) = DecDeny \<and> ev_decision (evaluateRow ctx v) = DecDeny"
proof -
  have some: "set_of_name snap n = Some (denyAllSet n)" using assms(2,3) by (simp add: set_of_name_def)
  then have "fst (contextFor True False company sub snap) \<noteq> None"
    using assms(1) contextFor_None_iff [of True False company sub snap] by force
  then obtain ctx where ctx: "fst (contextFor True False company sub snap) = Some ctx" by blast
  then have eq: "contextFor True False company sub snap = (Some ctx, snd (contextFor True False company sub snap))"
    by (metis prod.collapse)
  note fields = contextFor_Some [OF eq]
  have mem: "denyAllSet n \<in> set (cx_sets ctx)"
    using some assms(1) by (auto simp: fields set_map_filter_iff)
  have "cx_resolutionError ctx"
    using ctx assms resolve_sets_eq [of snap "resolved_names snap sub"]
    by (auto simp: contextFor_def resolved_names_def Let_def case_prod_beta filter_empty_conv
        split: if_splits)
  moreover have "ev_decision (evaluateAction ctx a k) = DecDeny" "ev_decision (evaluateRow ctx v) = DecDeny"
    unfolding evaluateAction_eq evaluateRow_eq action_verdict.evaluate_deny_iff row_verdict.evaluate_deny_iff
    using mem denyAll_mode denyAll_blocks_action denyAll_blocks_row fields(2) by blast+
  ultimately show ?thesis using ctx by blast
qed

theorem unknown_set_fails_closed_witness:
  "\<exists>ctx. fst (contextFor True False ''co'' sample_subject sample_snapshot) = Some ctx \<and>
     ev_decision (evaluateAction ctx ''synthesize'' (Some KindRead)) = DecDeny"
proof -
  have "''ghost'' \<in> set (resolved_names sample_snapshot sample_subject)" by code_simp
  from unknown_set_fails_closed [OF this, of "''co''" "''synthesize''" "Some KindRead"]
  show ?thesis by (auto simp: sample_snapshot_def)
qed

text \<open>Name resolution is the first eight distinct names in the order key binding, subject
  binding, agent binding, claims, and the truncation event is raised exactly when a distinct
  name was dropped.\<close>

lemma resolution_cap:
  "resolved_names snap sub = take 8 (dedupe (subject_names snap sub)) \<and>
   distinct (resolved_names snap sub) \<and> length (resolved_names snap sub) \<le> 8 \<and>
   (SetsTruncated \<in> set (snd (contextFor True force company sub snap))) =
     (8 < length (dedupe (subject_names snap sub)))"
proof -
  have "SetsTruncated \<in> set (snd (contextFor True force company sub snap)) \<longleftrightarrow>
      snd (fold push_name (subject_names snap sub) ([], False))"
    by (auto simp: contextFor_def Let_def case_prod_beta)
  then show ?thesis
    unfolding resolved_names_eq truncated_iff by (simp add: MAX_SETS_PER_KEY_def)
qed



text \<open>A moved version is noticed.  With a cached snapshot past the coherence interval, a
  version read that answers another number makes the call return the freshly loaded
  snapshot and cache it.\<close>

lemma moved_version_reloads:
  assumes "lru_inv c" "lru_peek c company = Some s"
    and "COHERENCE_MS \<le> cw_checkNow w - sn_checkedAt s"
    and "cw_version w = Some v" "v \<noteq> sn_version s" "cw_load w = Some fresh"
  shows "fst (resolver_snapshot ttl company w c) = Some fresh \<and>
         lru_peek (snd (resolver_snapshot ttl company w c)) company = Some fresh"
proof -
  have inv: "lru_inv (cache_assign company s' (snd (lru_get company c)))" for s'
  proof -
    have "map fst (map (\<lambda>e. if fst e = company then (company, s') else e) xs) = map fst xs"
      for xs :: "(string \<times> tenant_snapshot) list"
      by (induction xs) auto
    then show ?thesis
      using lru_inv_get [OF assms(1), of company]
      by (simp add: lru_inv_def cache_assign_def lru_size_def del: map_map)
  qed
  have "lru_get company c = (Some s, snd (lru_get company c))"
    using lru_get_value [of company c] assms(2) by (metis prod.collapse)
  with assms(2-6) show ?thesis
    using lru_peek_set_same [OF inv] lru_peek_set_same [OF lru_inv_get [OF assms(1)]]
    by (auto simp: resolver_snapshot_def load_or_stale_def stillCurrent_def Let_def case_prod_beta
        split: if_splits)
qed

section \<open>Writes the version misses\<close>

definition full_db :: policy_db where
  "full_db = sample_db\<lparr>db_bindings :=
     [(''key:k2'', map (\<lambda>c. [CHR ''s'', c]) ''abcdefgh'')]\<rparr>"

text \<open>An attachment call that reaches the cap on a later subject has attached the earlier ones,
  without moving the version and without invalidating the snapshot: no cached snapshot
  learns of it before its time-to-live runs out.\<close>

lemma failed_attach_unversioned:
  "let (res, db', inval) = run_call 9 (store_updateAttachments ''p1'' [''key:k1'', ''key:k2''] []) full_db False
   in res = Threw (TooManySets ''key:k2'' 8) \<and> bound_names db' ''key:k1'' = Some [''p1''] \<and>
      bound_names full_db ''key:k1'' = None \<and> db_version db' = db_version full_db \<and> \<not> inval"
  by code_simp

text \<open>A version read that comes between the write and its bump confirms a snapshot the write has
  already made stale, on the replica that wrote too: the two are separate statements.\<close>

lemma confirmed_between_write_and_bump:
  "let (c, db', _) = run_call 1 (store_create js doc who) db False
   in document_accepted js doc \<longrightarrow> pd_name doc \<notin> sp_name ` set (db_policies db) \<longrightarrow>
      \<not> call_ended c \<and> db_version db' = db_version db \<and> db_policies db' = db_policies db @ [new_policy doc who]"
  by (simp add: store_create_def)

end
