(* ===== verification/MetaUnion.thy ===== *)
theory MetaUnion imports PolicyEngine LruCache EnvFlag begin

text \<open>
  Effective metadata over corroborating origins (\<open>src/policy/meta-union.ts\<close>): a row is
  dropped when the metadata of any document that confirmed it trips a deny rule.  The
  process-wide metadata cache is threaded through the calls; a read moves an entry to the
  recent end, as the code's \<open>get\<close> does.  A call sees one clock reading while it collects
  the stale origins (\<open>now\<close>) and one after the lookup (\<open>now'\<close>); no other request runs
  between the two.
\<close>

record meta_entry =
  me_meta :: jval    \<comment> \<open>an object, or null\<close>
  me_at :: int

type_synonym meta_cache = "(string, meta_entry) lru"

definition CACHE_TTL_MS :: int where "CACHE_TTL_MS = 5 * 60 * 1000"

definition cacheKey :: "string \<Rightarrow> string \<Rightarrow> string" where
  "cacheKey companyId originKey = companyId @ CHR 0x00 # originKey"

definition metaUnionEnabled :: "string option \<Rightarrow> bool" where
  "metaUnionEnabled env = envFlagNotDisabled env"

definition contextHasMetaDenyRules :: "policy_context \<Rightarrow> bool" where
  "contextHasMetaDenyRules ctx =
     list_ex (\<lambda>s. list_ex (\<lambda>r. list_ex (\<lambda>c. starts_with ''source.meta.'' (cc_attr c))
       (cr_conditions r)) (cs_sourceDeny s)) (cx_sets ctx)"

definition isFresh :: "int \<Rightarrow> meta_entry option \<Rightarrow> bool" where
  "isFresh now e = (case e of None \<Rightarrow> False | Some e \<Rightarrow> now - me_at e < CACHE_TTL_MS)"

text \<open>A row with the origin keys of its confirmers (empty where the row has none).\<close>

record union_row =
  ur_row :: fact_row
  ur_originKeys :: "string list"

definition doc_key :: "string \<Rightarrow> bool" where
  "doc_key k = starts_with ''doc:'' k"

section \<open>Lookup\<close>

definition want_key ::
    "string \<Rightarrow> int \<Rightarrow> string \<Rightarrow> string list \<times> meta_cache \<Rightarrow> string list \<times> meta_cache" where
  "want_key companyId now key st =
     (case st of (wanted, c) \<Rightarrow>
        if \<not> doc_key key then (wanted, c)
        else
          (let (e, c') = lru_get (cacheKey companyId key) c
           in (if isFresh now e \<or> key \<in> set wanted then wanted else wanted @ [key], c')))"

definition wanted_keys ::
    "string \<Rightarrow> int \<Rightarrow> union_row list \<Rightarrow> meta_cache \<Rightarrow> string list \<times> meta_cache" where
  "wanted_keys companyId now rows c =
     fold (want_key companyId now) (concat (map ur_originKeys rows)) ([], c)"

text \<open>A found document: its content hash and its metadata.\<close>

definition store_doc :: "string \<Rightarrow> int \<Rightarrow> string \<times> jval \<Rightarrow> meta_cache \<Rightarrow> meta_cache" where
  "store_doc companyId stamp doc c =
     lru_set (cacheKey companyId (''doc:'' @ fst doc))
       \<lparr>me_meta = (if is_object (snd doc) then snd doc else JNull), me_at = stamp\<rparr> c"

definition store_miss :: "string \<Rightarrow> int \<Rightarrow> string \<Rightarrow> meta_cache \<Rightarrow> meta_cache" where
  "store_miss companyId stamp key c =
     (if lru_has c (cacheKey companyId key) then c
      else lru_set (cacheKey companyId key) \<lparr>me_meta = JNull, me_at = stamp\<rparr> c)"

text \<open>The rows as they are when the lookup failed, else the cache to filter with.\<close>

definition refresh_meta ::
    "(string list \<Rightarrow> (string \<times> jval) list option) \<Rightarrow> string \<Rightarrow> int \<Rightarrow> string list \<Rightarrow>
     meta_cache \<Rightarrow> meta_cache option" where
  "refresh_meta fetch companyId stamp wanted c =
     (if wanted = [] then Some c
      else case fetch (map (drop 4) wanted) of
        None \<Rightarrow> None
      | Some found \<Rightarrow>
          Some (fold (store_miss companyId stamp) wanted (fold (store_doc companyId stamp) found c)))"

section \<open>Filtering\<close>

definition union_view :: "(string \<Rightarrow> string) \<Rightarrow> fact_row \<Rightarrow> jval \<Rightarrow> row_view" where
  "union_view pii row meta =
     toRowView
       \<lparr>fr_id = JUndef, fr_predicate = fr_predicate row,
        fr_source = jset (nullish_or (fr_source row) (JObj [])) ''meta'' meta,
        fr_trust = fr_trust row, fr_corroboration = fr_corroboration row,
        fr_userId = fr_userId row\<rparr> pii"

fun origins_pass ::
    "string \<Rightarrow> (string \<Rightarrow> string) \<Rightarrow> policy_context \<Rightarrow> fact_row \<Rightarrow> string list \<Rightarrow>
     meta_cache \<Rightarrow> bool \<times> meta_cache" where
  "origins_pass companyId pii ctx row [] c = (True, c)"
| "origins_pass companyId pii ctx row (key # keys) c =
     (let (cached, c') = (if doc_key key then lru_get (cacheKey companyId key) c else (None, c))
      in case cached of
           None \<Rightarrow> origins_pass companyId pii ctx row keys c'
         | Some e \<Rightarrow>
             if me_meta e = JNull then origins_pass companyId pii ctx row keys c'
             else if ev_decision (evaluateRow ctx (union_view pii row (me_meta e))) = DecDeny
             then (False, c')
             else origins_pass companyId pii ctx row keys c')"

fun union_rows ::
    "string \<Rightarrow> (string \<Rightarrow> string) \<Rightarrow> policy_context \<Rightarrow> union_row list \<Rightarrow> meta_cache \<Rightarrow>
     union_row list \<times> meta_cache" where
  "union_rows companyId pii ctx [] c = ([], c)"
| "union_rows companyId pii ctx (r # rs) c =
     (let (keep, c1) = origins_pass companyId pii ctx (ur_row r) (ur_originKeys r) c;
          (out, c2) = union_rows companyId pii ctx rs c1
      in (if keep then r # out else out, c2))"

definition applyMetaUnion ::
    "string option \<Rightarrow> (string \<Rightarrow> string) \<Rightarrow> (string list \<Rightarrow> (string \<times> jval) list option) \<Rightarrow>
     string \<Rightarrow> int \<Rightarrow> int \<Rightarrow> policy_context \<Rightarrow> union_row list \<Rightarrow> meta_cache \<Rightarrow>
     union_row list \<times> meta_cache" where
  "applyMetaUnion env pii fetch companyId now now' ctx rows c =
     (if \<not> metaUnionEnabled env \<or> \<not> contextHasMetaDenyRules ctx then (rows, c)
      else
        (let (wanted, c1) = wanted_keys companyId now rows c
         in case refresh_meta fetch companyId now' wanted c1 of
              None \<Rightarrow> (rows, c1)
            | Some c2 \<Rightarrow> union_rows companyId pii ctx rows c2))"

section \<open>Facts\<close>

text \<open>A tenant id holds no NUL: then a key names its tenant and its origin.\<close>

lemma cacheKey_inj:
  "CHR 0x00 \<notin> set a \<Longrightarrow> CHR 0x00 \<notin> set b \<Longrightarrow>
     cacheKey a k = cacheKey b l \<longleftrightarrow> a = b \<and> k = l"
  unfolding cacheKey_def
proof (induction a arbitrary: b)
  case Nil
  then show ?case by (cases b) auto
next
  case (Cons x a)
  then show ?case by (cases b) auto
qed

text \<open>What one origin says of a row, given what the cache holds.\<close>

definition origin_denies ::
    "(string \<Rightarrow> string) \<Rightarrow> policy_context \<Rightarrow> fact_row \<Rightarrow> jval \<Rightarrow> bool" where
  "origin_denies pii ctx row meta \<longleftrightarrow>
     meta \<noteq> JNull \<and> ev_decision (evaluateRow ctx (union_view pii row meta)) = DecDeny"

definition cached_denies ::
    "string \<Rightarrow> (string \<Rightarrow> string) \<Rightarrow> policy_context \<Rightarrow> meta_cache \<Rightarrow> fact_row \<Rightarrow> string \<Rightarrow> bool" where
  "cached_denies companyId pii ctx c row key \<longleftrightarrow>
     doc_key key \<and> (\<exists>e. lru_peek c (cacheKey companyId key) = Some e \<and>
                          origin_denies pii ctx row (me_meta e))"

lemma lru_get_eq: "lru_get k c = (lru_peek c k, snd (lru_get k c))"
  by (metis lru_get_value prod.collapse)

text \<open>The cache after the read of one origin.\<close>

definition after_get :: "string \<Rightarrow> string \<Rightarrow> meta_cache \<Rightarrow> meta_cache" where
  "after_get companyId key c = (if doc_key key then snd (lru_get (cacheKey companyId key) c) else c)"

lemma after_get_peek [simp]: "lru_peek (after_get companyId key c) = lru_peek c"
  by (rule ext) (simp add: after_get_def lru_peek_get)

lemma cached_denies_cong:
  "lru_peek c' = lru_peek c \<Longrightarrow> cached_denies companyId pii ctx c' = cached_denies companyId pii ctx c"
  by (intro ext) (simp add: cached_denies_def)

lemma origins_pass_Cons:
  "origins_pass companyId pii ctx row (key # keys) c =
     (if cached_denies companyId pii ctx c row key then (False, after_get companyId key c)
      else origins_pass companyId pii ctx row keys (after_get companyId key c))"
  by (subst origins_pass.simps, subst lru_get_eq)
    (auto simp: cached_denies_def origin_denies_def after_get_def split: option.splits)

lemma origins_pass_peek:
  "lru_peek (snd (origins_pass companyId pii ctx row keys c)) = lru_peek c"
  by (induction keys arbitrary: c) (simp_all add: origins_pass_Cons del: origins_pass.simps(2))

lemma origins_pass_iff:
  "fst (origins_pass companyId pii ctx row keys c) \<longleftrightarrow>
     (\<forall>key \<in> set keys. \<not> cached_denies companyId pii ctx c row key)"
  by (induction keys arbitrary: c)
    (simp_all add: origins_pass_Cons cached_denies_cong [OF after_get_peek] del: origins_pass.simps(2))

definition row_clean ::
    "string \<Rightarrow> (string \<Rightarrow> string) \<Rightarrow> policy_context \<Rightarrow> meta_cache \<Rightarrow> union_row \<Rightarrow> bool" where
  "row_clean companyId pii ctx c r \<longleftrightarrow>
     (\<forall>key \<in> set (ur_originKeys r). \<not> cached_denies companyId pii ctx c (ur_row r) key)"

lemma union_rows_eq:
  "fst (union_rows companyId pii ctx rows c) = filter (row_clean companyId pii ctx c) rows"
proof (induction rows arbitrary: c)
  case (Cons r rs)
  let ?c = "snd (origins_pass companyId pii ctx (ur_row r) (ur_originKeys r) c)"
  have "row_clean companyId pii ctx ?c = row_clean companyId pii ctx c"
    by (rule ext) (simp add: row_clean_def cached_denies_cong [OF origins_pass_peek])
  then show ?case
    using Cons.IH [of ?c]
    by (simp add: case_prod_beta Let_def origins_pass_iff row_clean_def)
qed simp

section \<open>What the cache holds after a lookup\<close>

lemma want_key_peek: "lru_peek (snd (want_key companyId now key st)) = lru_peek (snd st)"
  by (rule ext) (cases st, simp add: want_key_def case_prod_beta Let_def lru_peek_get)

lemma want_key_inv: "lru_inv (snd st) \<Longrightarrow> lru_inv (snd (want_key companyId now key st))"
  by (cases st) (simp add: want_key_def case_prod_beta Let_def lru_inv_get)

definition want_inv :: "string \<Rightarrow> int \<Rightarrow> meta_cache \<Rightarrow> string list \<Rightarrow> string list \<times> meta_cache \<Rightarrow> bool" where
  "want_inv companyId now c seen st \<longleftrightarrow>
     lru_inv (snd st) \<and> lru_peek (snd st) = lru_peek c \<and>
     (\<forall>k \<in> set (fst st). doc_key k) \<and>
     (\<forall>k \<in> set seen. doc_key k \<longrightarrow> k \<in> set (fst st) \<or>
        isFresh now (lru_peek c (cacheKey companyId k)))"

lemma want_inv_step:
  assumes "want_inv companyId now c seen st"
  shows "want_inv companyId now c (seen @ [key]) (want_key companyId now key st)"
proof -
  obtain wanted c0 where st: "st = (wanted, c0)" by (cases st)
  have "lru_peek c0 = lru_peek c" using assms by (simp add: want_inv_def st)
  then have fresh: "fst (lru_get (cacheKey companyId key) c0) = lru_peek c (cacheKey companyId key)"
    by simp
  have "lru_peek (snd (want_key companyId now key st)) = lru_peek c"
    using assms by (simp add: want_key_peek want_inv_def)
  moreover have "lru_inv (snd (want_key companyId now key st))"
    using assms by (simp add: want_key_inv want_inv_def)
  ultimately show ?thesis
    using assms fresh unfolding want_inv_def st
    by (auto simp: want_key_def case_prod_beta Let_def)
qed

lemma want_inv_fold:
  "want_inv companyId now c seen st \<Longrightarrow>
     want_inv companyId now c (seen @ keys) (fold (want_key companyId now) keys st)"
proof (induction keys arbitrary: seen st)
  case (Cons key keys)
  from Cons.IH [OF want_inv_step [OF Cons.prems]] show ?case by simp
qed simp

lemma wanted_keys_inv:
  assumes "lru_inv c" "wanted_keys companyId now rows c = (wanted, c1)"
  shows "lru_inv c1" "lru_peek c1 = lru_peek c"
    "r \<in> set rows \<Longrightarrow> key \<in> set (ur_originKeys r) \<Longrightarrow> doc_key key \<Longrightarrow>
       key \<in> set wanted \<or> isFresh now (lru_peek c (cacheKey companyId key))"
    "key \<in> set wanted \<Longrightarrow> doc_key key"
proof -
  have "want_inv companyId now c [] ([], c)" using assms(1) by (simp add: want_inv_def)
  from want_inv_fold [OF this, of "concat (map ur_originKeys rows)"] assms(2)
  have inv: "want_inv companyId now c (concat (map ur_originKeys rows)) (wanted, c1)"
    by (simp add: wanted_keys_def)
  then show "lru_inv c1" "lru_peek c1 = lru_peek c" by (simp_all add: want_inv_def)
  show "key \<in> set wanted \<or> isFresh now (lru_peek c (cacheKey companyId key))"
    if "r \<in> set rows" "key \<in> set (ur_originKeys r)" "doc_key key"
    using inv that by (auto simp: want_inv_def)
  show "doc_key key" if "key \<in> set wanted" using inv that by (auto simp: want_inv_def)
qed

section \<open>Storing without eviction\<close>

text \<open>While the cache has room a store is a plain update.\<close>

lemma lru_set_roomy:
  assumes "lru_inv c" "lru_size c < lru_cap c"
  shows "lru_peek (lru_set k v c) = (lru_peek c)(k \<mapsto> v)" (is ?peek)
    and "lru_inv (lru_set k v c)" and "lru_cap (lru_set k v c) = lru_cap c"
    and "lru_size (lru_set k v c) \<le> lru_size c + 1"
proof -
  show ?peek
  proof (rule ext)
    fix k'
    show "lru_peek (lru_set k v c) k' = ((lru_peek c)(k \<mapsto> v)) k'"
    proof (cases "k' = k")
      case True
      with assms(1) show ?thesis by (simp add: lru_peek_set_same)
    next
      case False
      with assms(2) show ?thesis
        by (auto simp: lru_peek_def lru_set_def Let_def map_of_filter_key map_add_def split: option.splits)
    qed
  qed
  show "lru_inv (lru_set k v c)" using assms(1) by (rule lru_inv_set)
  show "lru_cap (lru_set k v c) = lru_cap c" by (simp add: lru_set_def)
  show "lru_size (lru_set k v c) \<le> lru_size c + 1"
    by (simp add: lru_set_def lru_size_def Let_def)
qed

definition doc_meta :: "jval \<Rightarrow> jval" where
  "doc_meta m = (if is_object m then m else JNull)"

text \<open>The entries of a tenant's documents are current on a set of hashes.\<close>

definition current_on ::
    "string \<Rightarrow> (string \<Rightarrow> jval option) \<Rightarrow> string set \<Rightarrow> meta_cache \<Rightarrow> bool" where
  "current_on companyId docs H c \<longleftrightarrow>
     (\<forall>h \<in> H. \<forall>m. docs h = Some m \<longrightarrow>
        (\<exists>e. lru_peek c (cacheKey companyId (''doc:'' @ h)) = Some e \<and> me_meta e = doc_meta m))"

definition roomy :: "nat \<Rightarrow> meta_cache \<Rightarrow> bool" where
  "roomy n c \<longleftrightarrow> lru_inv c \<and> lru_size c + n \<le> lru_cap c"

lemma cacheKey_eq [simp]: "cacheKey companyId k = cacheKey companyId l \<longleftrightarrow> k = l"
  by (simp add: cacheKey_def)

lemma roomy_set:
  assumes "roomy (Suc n) c"
  shows "roomy n (lru_set k v c)" "lru_peek (lru_set k v c) = (lru_peek c)(k \<mapsto> v)"
proof -
  from assms have inv: "lru_inv c" and room: "lru_size c < lru_cap c"
    and sum: "Suc (lru_size c + n) \<le> lru_cap c"
    by (simp_all add: roomy_def)
  note set = lru_set_roomy [OF inv room, of k v]
  show "lru_peek (lru_set k v c) = (lru_peek c)(k \<mapsto> v)" by (rule set(1))
  from set(2-4) sum show "roomy n (lru_set k v c)" by (simp add: roomy_def)
qed

lemma store_doc_current:
  assumes "roomy (Suc n) c" "current_on companyId docs H c" "docs h = Some m"
  shows "roomy n (store_doc companyId stamp (h, m) c) \<and>
         current_on companyId docs (insert h H) (store_doc companyId stamp (h, m) c)"
  using assms(2,3) roomy_set [OF assms(1)]
  by (auto simp: current_on_def store_doc_def doc_meta_def)

lemma store_docs_current:
  assumes "roomy (length found + n) c" "current_on companyId docs H c"
    "\<forall>(h, m) \<in> set found. docs h = Some m"
  shows "roomy n (fold (store_doc companyId stamp) found c) \<and>
         current_on companyId docs (fst ` set found \<union> H) (fold (store_doc companyId stamp) found c)"
  using assms
proof (induction found arbitrary: c H)
  case (Cons d found)
  obtain h m where d: "d = (h, m)" by (cases d)
  have "roomy (length found + n) (store_doc companyId stamp d c) \<and>
      current_on companyId docs (insert h H) (store_doc companyId stamp d c)"
    unfolding d using Cons.prems d by (intro store_doc_current) auto
  with Cons.prems(3) have "roomy n (fold (store_doc companyId stamp) found (store_doc companyId stamp d c)) \<and>
      current_on companyId docs (fst ` set found \<union> insert h H)
        (fold (store_doc companyId stamp) found (store_doc companyId stamp d c))"
    by (intro Cons.IH) auto
  then show ?case by (simp add: d)
qed simp

lemma store_miss_current:
  assumes "roomy (Suc n) c" "current_on companyId docs H c"
  shows "roomy n (store_miss companyId stamp k c) \<and> current_on companyId docs H (store_miss companyId stamp k c)"
proof (cases "lru_has c (cacheKey companyId k)")
  case True
  with assms show ?thesis by (simp add: store_miss_def roomy_def)
next
  case False
  have "lru_peek c (cacheKey companyId k) = None"
    using False by (auto simp: lru_has_def lru_peek_def map_of_eq_None_iff)
  with False assms(2) roomy_set [OF assms(1), of "cacheKey companyId k"] show ?thesis
    by (auto simp: store_miss_def current_on_def)
qed

lemma store_misses_current:
  "roomy (length ks + n) c \<Longrightarrow> current_on companyId docs H c \<Longrightarrow>
     roomy n (fold (store_miss companyId stamp) ks c) \<and>
     current_on companyId docs H (fold (store_miss companyId stamp) ks c)"
proof (induction ks arbitrary: c)
  case (Cons k ks)
  from store_miss_current [of "length ks + n" c companyId docs H stamp k] Cons
  show ?case by simp
qed simp

section \<open>The union is enforced\<close>

text \<open>What the document query promises: it returns documents of the tenant, every one of the
  asked hashes that exists, and each once.\<close>

definition lookup_of ::
    "(string \<Rightarrow> jval option) \<Rightarrow> (string list \<Rightarrow> (string \<times> jval) list option) \<Rightarrow> bool" where
  "lookup_of docs fetch \<longleftrightarrow>
     (\<forall>hs found. fetch hs = Some found \<longrightarrow>
        (\<forall>(h, m) \<in> set found. docs h = Some m) \<and>
        (\<forall>h \<in> set hs. docs h \<noteq> None \<longrightarrow> h \<in> fst ` set found) \<and>
        length found \<le> length hs)"

definition fresh_entries_current ::
    "string \<Rightarrow> int \<Rightarrow> (string \<Rightarrow> jval option) \<Rightarrow> meta_cache \<Rightarrow> bool" where
  "fresh_entries_current companyId now docs c \<longleftrightarrow>
     (\<forall>h m e. docs h = Some m \<and> lru_peek c (cacheKey companyId (''doc:'' @ h)) = Some e \<and>
        isFresh now (Some e) \<longrightarrow> me_meta e = doc_meta m)"

lemma want_key_cap: "lru_cap (snd (want_key companyId now key st)) = lru_cap (snd st)"
  by (cases st) (simp add: want_key_def case_prod_beta Let_def)

lemma wanted_keys_cap: "lru_cap (snd (wanted_keys companyId now rows c)) = lru_cap c"
proof -
  have "lru_cap (snd (fold (want_key companyId now) keys st)) = lru_cap (snd st)" for keys st
    by (induction keys arbitrary: st) (simp_all add: want_key_cap)
  then show ?thesis by (simp add: wanted_keys_def)
qed

lemma wanted_keys_roomy:
  assumes "roomy n c" shows "roomy n (snd (wanted_keys companyId now rows c))"
proof -
  obtain wanted c1 where w: "wanted_keys companyId now rows c = (wanted, c1)" by fastforce
  from assms have inv: "lru_inv c" by (simp add: roomy_def)
  note keys = wanted_keys_inv [OF inv w]
  have "lru_size c1 = lru_size c"
    using lru_size_card [OF inv] lru_size_card [OF keys(1)] keys(2) by simp
  moreover have "lru_cap c1 = lru_cap c" using wanted_keys_cap [of companyId now rows c] w by simp
  ultimately show ?thesis using assms keys(1) w by (simp add: roomy_def)
qed

lemma refresh_current:
  assumes "lookup_of docs fetch" "refresh_meta fetch companyId stamp wanted c = Some c2"
    "roomy (2 * length wanted) c" "current_on companyId docs H c"
  shows "current_on companyId docs (H \<union> drop 4 ` set wanted) c2"
proof (cases "wanted = []")
  case True
  with assms show ?thesis by (simp add: refresh_meta_def)
next
  case False
  with assms(2) obtain found where fetch: "fetch (map (drop 4) wanted) = Some found"
    and c2: "c2 = fold (store_miss companyId stamp) wanted (fold (store_doc companyId stamp) found c)"
    by (auto simp: refresh_meta_def split: option.splits)
  from assms(1) fetch have sound: "\<forall>(h, m) \<in> set found. docs h = Some m"
    and complete: "\<forall>h \<in> drop 4 ` set wanted. docs h \<noteq> None \<longrightarrow> h \<in> fst ` set found"
    and len: "length found \<le> length wanted"
    by (fastforce simp: lookup_of_def)+
  from assms(3) len have "roomy (length found + length wanted) c" by (simp add: roomy_def)
  from store_docs_current [OF this assms(4) sound]
  have "roomy (length wanted + 0) (fold (store_doc companyId stamp) found c)"
    and cur: "current_on companyId docs (fst ` set found \<union> H) (fold (store_doc companyId stamp) found c)"
    by simp_all
  from store_misses_current [OF this] have "current_on companyId docs (fst ` set found \<union> H) c2"
    by (simp add: c2)
  with complete show ?thesis by (fastforce simp: current_on_def)
qed

lemma applyMetaUnion_filter:
  assumes "metaUnionEnabled env" "contextHasMetaDenyRules ctx"
    "wanted_keys companyId now rows c = (wanted, c1)"
    "refresh_meta fetch companyId now' wanted c1 = Some c2"
  shows "fst (applyMetaUnion env pii fetch companyId now now' ctx rows c) =
           filter (row_clean companyId pii ctx c2) rows"
  using assms by (simp add: applyMetaUnion_def union_rows_eq)


lemma union_rows_peek: "lru_peek (snd (union_rows companyId pii ctx rows c)) = lru_peek c"
  by (induction rows arbitrary: c) (simp_all add: case_prod_beta Let_def origins_pass_peek)

text \<open>The process-wide cache keeps tenants apart.  Whatever a call for one tenant stores,
  an entry another tenant finds afterwards is the entry it would have found before.\<close>

theorem meta_union_tenant_isolation:
  assumes "CHR 0x00 \<notin> set a" "CHR 0x00 \<notin> set b" "a \<noteq> b" "lru_inv c"
    and "lru_peek (snd (applyMetaUnion env pii fetch a now now' ctx rows c)) (cacheKey b k) = Some e"
  shows "lru_peek c (cacheKey b k) = Some e"
proof -
  define P where "P = (\<lambda>K e. \<forall>k. K = cacheKey b k \<longrightarrow> lru_peek c K = Some e)"
  let ?I = "\<lambda>d. lru_inv d \<and> lru.entries_sat P d"
  have other: "P (cacheKey a k') e'" for k' e' using assms(1-3) by (simp add: cacheKey_inj P_def)
  then have step: "?I d \<Longrightarrow> ?I (lru_set (cacheKey a k') e' d)" for k' e' d
    by (simp add: lru_inv_set lru.entries_sat_store)
  have docs: "?I d \<Longrightarrow> ?I (fold (store_doc a now') found d)" for found d
    by (rule fold_invariant [of _ "\<lambda>_. True"]) (simp_all add: store_doc_def step)
  have misses: "?I d \<Longrightarrow> ?I (fold (store_miss a now') ks d)" for ks d
    by (rule fold_invariant [of _ "\<lambda>_. True"]) (simp_all add: store_miss_def step)
  obtain wanted c1 where w: "wanted_keys a now rows c = (wanted, c1)" by fastforce
  note keys = wanted_keys_inv [OF assms(4) w]
  have c1: "?I c1" using keys(1,2) by (auto simp: lru.entries_sat_def P_def)
  have "lru.entries_sat P c2" if "refresh_meta fetch a now' wanted c1 = Some c2" for c2
    using that c1 misses [OF docs [OF c1]]
    by (auto simp: refresh_meta_def split: if_splits option.splits)
  then have "lru_peek (snd (applyMetaUnion env pii fetch a now now' ctx rows c)) (cacheKey b k) = Some e \<Longrightarrow>
      lru_peek c (cacheKey b k) = Some e"
    using c1 w
    by (auto simp: applyMetaUnion_def union_rows_peek lru.entries_sat_def P_def split: if_splits option.splits)
  with assms(5) show ?thesis by simp
qed

section \<open>Witnesses\<close>

definition union_context :: policy_context where
  "union_context = sample_context [\<lparr>cs_name = ''p1'', cs_mode = Enforce,
     cs_posture = \<lparr>po_actions = Allow, po_reads = Allow\<rparr>, cs_actionDeny = [], cs_actionAllow = [],
     cs_sourceDeny = [\<lparr>cr_id = ''r1'', cr_effect = Deny,
       cr_conditions = [the (compileCondition sample_js
         \<lparr>mc_attr = ''source.meta.data_class'', mc_op = OpEq, mc_value = VStr ''hr''\<rparr>)]\<rparr>],
     cs_sourceAllow = [], cs_document = sample_document ''p1''\<rparr>]"

definition union_sample_row :: "string \<Rightarrow> union_row" where
  "union_sample_row h = \<lparr>ur_row = \<lparr>fr_id = JUndef, fr_predicate = ''email'', fr_source = JNull,
     fr_trust = JNull, fr_corroboration = JNull, fr_userId = JNull\<rparr>,
     ur_originKeys = [''doc:'' @ h]\<rparr>"

definition union_docs :: "string \<Rightarrow> jval option" where
  "union_docs = map_of [(''h1'', JObj [(''data_class'', JStr ''hr'')]),
                        (''h2'', JObj [(''data_class'', JStr ''support'')])]"

definition union_fetch :: "string list \<Rightarrow> (string \<times> jval) list option" where
  "union_fetch hs = Some (concat (map (\<lambda>h. case union_docs h of None \<Rightarrow> [] | Some m \<Rightarrow> [(h, m)]) hs))"

definition union_empty :: meta_cache where
  "union_empty = \<lparr>lru_cap = 100, lru_map = []\<rparr>"

lemma union_fetch_ok: "lookup_of union_docs union_fetch"
proof -
  have "length (concat (map (\<lambda>h. case union_docs h of None \<Rightarrow> [] | Some m \<Rightarrow> [(h, m)]) hs)) \<le> length hs" for hs
    by (induction hs) (auto split: option.splits)
  then show ?thesis
    by (force simp: lookup_of_def union_fetch_def image_iff split: option.splits)
qed

lemma union_sample_result:
  "fst (applyMetaUnion None (\<lambda>_. ''none'') union_fetch ''co'' 0 1 union_context
      [union_sample_row ''h1'', union_sample_row ''h2''] union_empty) = [union_sample_row ''h2'']"
  by code_simp


theorem meta_union_tenant_isolation_witness:
  "lru_peek (snd (applyMetaUnion None (\<lambda>_. ''none'') union_fetch ''co'' 0 1 union_context
      [union_sample_row ''h1''] (lru_set (cacheKey ''other'' ''doc:h1'') \<lparr>me_meta = JNull, me_at = 0\<rparr> union_empty)))
     (cacheKey ''other'' ''doc:h1'') = Some \<lparr>me_meta = JNull, me_at = 0\<rparr> \<and>
   lru_peek (lru_set (cacheKey ''other'' ''doc:h1'') \<lparr>me_meta = JNull, me_at = 0\<rparr> union_empty)
     (cacheKey ''other'' ''doc:h1'') = Some \<lparr>me_meta = JNull, me_at = 0\<rparr>"
proof -
  let ?c = "lru_set (cacheKey ''other'' ''doc:h1'') \<lparr>me_meta = JNull, me_at = 0\<rparr> union_empty"
  have found: "lru_peek (snd (applyMetaUnion None (\<lambda>_. ''none'') union_fetch ''co'' 0 1 union_context
      [union_sample_row ''h1''] ?c)) (cacheKey ''other'' ''doc:h1'') = Some \<lparr>me_meta = JNull, me_at = 0\<rparr>"
    by code_simp
  have "lru_inv ?c" by (intro lru_inv_set) (simp add: union_empty_def lru_inv_def lru_size_def)
  with meta_union_tenant_isolation [of "''co''" "''other''" ?c, OF _ _ _ _ found] found
  show ?thesis by simp
qed

end
