(* ===== verification/PolicySimulation.thy ===== *)
theory PolicySimulation imports PolicyStore begin

text \<open>
  The dry run of a subject's policies (\<open>src/policy/policy-simulation.service.ts\<close>): the
  context a subject and an unsaved draft resolve to, the per-row and per-action verdicts
  with their reasons, and the preview of one rule.  The search and the loading of fact
  views are arguments (the hits, the views by fact id, the sampled views).
\<close>

record simulation_subject =
  su_policyNames :: "string list option"
  su_inline :: "policy_document option"
  su_override :: bool    \<comment> \<open>\<open>modeOverride\<close> is \<open>enforce\<close>\<close>

datatype sim_error =
    SimInvalidDocument
  | SimStore store_error
  | SimCompileThrew
  | SimNoSets
  | SimInvalidRule
  | SimNotSourceRule
  | SimRuleDisabled

definition sim_compile :: "js_lib \<Rightarrow> int \<Rightarrow> bool \<Rightarrow> policy_document \<Rightarrow> compile_result" where
  "sim_compile js now override doc =
     compilePolicySet js now
       (if override \<and> pd_mode doc \<noteq> Disabled then doc\<lparr>pd_mode := Enforce\<rparr> else doc)"

fun sim_named_sets ::
    "js_lib \<Rightarrow> int \<Rightarrow> bool \<Rightarrow> policy_db \<Rightarrow> string list \<Rightarrow> sim_error + compiled_policy_set list" where
  "sim_named_sets js now ov db [] = Inr []"
| "sim_named_sets js now ov db (n # ns) =
     (case store_get db n of
        Inl e \<Rightarrow> Inl (SimStore e)
      | Inr stored \<Rightarrow>
          (case sim_compile js now ov (sp_document (pv_policy stored)) of
             CompileThrew \<Rightarrow> Inl SimCompileThrew
           | CompileNull \<Rightarrow> sim_named_sets js now ov db ns
           | CompileSet s \<Rightarrow>
               (case sim_named_sets js now ov db ns of
                  Inl e \<Rightarrow> Inl e | Inr ss \<Rightarrow> Inr (s # ss))))"

definition sim_inline_sets ::
    "js_lib \<Rightarrow> int \<Rightarrow> bool \<Rightarrow> policy_document option \<Rightarrow> sim_error + compiled_policy_set list" where
  "sim_inline_sets js now ov inline =
     (case inline of
        None \<Rightarrow> Inr []
      | Some doc \<Rightarrow>
          if \<not> document_accepted js doc then Inl SimInvalidDocument
          else (case sim_compile js now ov doc of
                  CompileThrew \<Rightarrow> Inl SimCompileThrew
                | CompileNull \<Rightarrow> Inr []
                | CompileSet s \<Rightarrow> Inr [s]))"

definition resolveSubject ::
    "js_lib \<Rightarrow> int \<Rightarrow> string \<Rightarrow> policy_db \<Rightarrow> simulation_subject \<Rightarrow> sim_error + policy_context" where
  "resolveSubject js now companyId db sub =
     (case sim_inline_sets js now (su_override sub) (su_inline sub) of
        Inl e \<Rightarrow> Inl e
      | Inr drafts \<Rightarrow>
          (case sim_named_sets js now (su_override sub) db
                  (case su_policyNames sub of None \<Rightarrow> [] | Some ns \<Rightarrow> ns) of
             Inl e \<Rightarrow> Inl e
           | Inr stored \<Rightarrow>
               if drafts @ stored = [] then Inl SimNoSets
               else Inr \<lparr>cx_companyId = companyId, cx_keyHash = ''simulate'',
                         cx_sets = drafts @ stored, cx_forceReportOnly = False,
                         cx_resolutionError = False\<rparr>))"

section \<open>Reasons\<close>

datatype reason_kind = ReasonAction | ReasonSource | ReasonPosture

record sim_reason =
  sr_set :: string
  sr_rule :: "string option"
  sr_kind :: reason_kind
  sr_detail :: string

definition describe_condition :: "js_lib \<Rightarrow> match_condition \<Rightarrow> string" where
  "describe_condition js c =
     mc_attr c @ '' '' @ op_name (mc_op c) @
     (if mc_value c = VAbsent then []
      else '' '' @ (case json_stringify js (value_jval (mc_value c)) of
                      None \<Rightarrow> ''undefined'' | Some t \<Rightarrow> t))"

definition describeRule :: "js_lib \<Rightarrow> policy_rule \<Rightarrow> string" where
  "describeRule js r =
     (case pr_kind r of
        RuleAction \<Rightarrow> pr_id r @ '': actions ['' @
          join '', '' (case pr_actions r of None \<Rightarrow> [] | Some as \<Rightarrow> as) @ '']''
      | RuleSource \<Rightarrow> pr_id r @ '': '' @
          join '' AND '' (map (describe_condition js)
            (case pr_match r of None \<Rightarrow> [] | Some ms \<Rightarrow> ms)))"

text \<open>\<open>source\<close> tells the domain; a rule is looked up in the first set of that name.\<close>

definition reason_of ::
    "js_lib \<Rightarrow> policy_context \<Rightarrow> bool \<Rightarrow> set_verdict \<Rightarrow> sim_reason" where
  "reason_of js ctx source v =
     (let rule = (case find (\<lambda>s. cs_name s = sv_set v) (cx_sets ctx) of
                    None \<Rightarrow> None
                  | Some s \<Rightarrow> find (\<lambda>r. Some (pr_id r) = sv_rule v) (pd_rules (cs_document s)))
      in \<lparr>sr_set = sv_set v, sr_rule = sv_rule v,
          sr_kind = (if sv_rule v \<noteq> None \<and> sv_rule v \<noteq> Some []
                     then (if source then ReasonSource else ReasonAction) else ReasonPosture),
          sr_detail = (case rule of
              Some r \<Rightarrow> describeRule js r
            | None \<Rightarrow> ''default '' @ (if source then ''reads'' else ''actions'') @
                        '' posture (deny)'')\<rparr>)"

definition reasonsOf ::
    "js_lib \<Rightarrow> policy_context \<Rightarrow> bool \<Rightarrow> set_verdict list \<Rightarrow> sim_reason list" where
  "reasonsOf js ctx source vs =
     map (reason_of js ctx source) (filter (\<lambda>v. sv_verdict v = Deny) vs)"

section \<open>Search simulation\<close>

record sim_hit =
  sh_factId :: string
  sh_predicate :: string
  sh_object :: string

record sim_source =
  ssrc_vertical :: "string option"
  ssrc_recorder :: "string option"
  ssrc_meta :: "jval option"

record sim_row =
  sw_hit :: sim_hit
  sw_source :: sim_source
  sw_decision :: decision
  sw_reasons :: "sim_reason list"

record sim_summary =
  sm_total :: nat
  sm_visible :: nat
  sm_denied :: nat
  sm_wouldDeny :: nat

definition string_field :: "jval \<Rightarrow> string \<Rightarrow> string option" where
  "string_field src k = (case jget src k of JStr s \<Rightarrow> Some s | _ \<Rightarrow> None)"

definition sim_source_of :: "jval \<Rightarrow> sim_source" where
  "sim_source_of src =
     \<lparr>ssrc_vertical = string_field src ''vertical'',
      ssrc_recorder = string_field src ''recorder'',
      ssrc_meta = (if is_object (jget src ''meta'') then Some (jget src ''meta'') else None)\<rparr>"

definition simulate_row ::
    "js_lib \<Rightarrow> (string \<Rightarrow> string) \<Rightarrow> policy_context \<Rightarrow> (string \<rightharpoonup> fact_row) \<Rightarrow> sim_hit \<Rightarrow> sim_row" where
  "simulate_row js pii ctx views hit =
     (let view = views (sh_factId hit);
          ev = (case view of
                  Some v \<Rightarrow> evaluateRow ctx (toRowView v pii)
                | None \<Rightarrow> \<lparr>ev_decision = DecAllow, ev_verdicts = []\<rparr>);
          src = (case view of None \<Rightarrow> JObj [] | Some v \<Rightarrow> nullish_or (fr_source v) (JObj []))
      in \<lparr>sw_hit = hit, sw_source = sim_source_of src, sw_decision = ev_decision ev,
          sw_reasons = reasonsOf js ctx True (ev_verdicts ev)\<rparr>)"

definition simulateSearch ::
    "js_lib \<Rightarrow> (string \<Rightarrow> string) \<Rightarrow> policy_context \<Rightarrow> (string \<rightharpoonup> fact_row) \<Rightarrow> sim_hit list \<Rightarrow>
     sim_summary \<times> sim_row list" where
  "simulateSearch js pii ctx views flat =
     (let rows = map (simulate_row js pii ctx views) flat;
          denied = length (filter (\<lambda>r. sw_decision r = DecDeny) rows);
          wouldDeny = length (filter (\<lambda>r. sw_decision r = DecWouldDeny) rows)
      in (\<lparr>sm_total = length rows, sm_visible = length rows - denied, sm_denied = denied,
           sm_wouldDeny = wouldDeny\<rparr>, rows))"

record sim_action =
  sa_name :: string
  sa_spec :: action_spec
  sa_decision :: decision
  sa_reasons :: "sim_reason list"

definition simulateActions :: "js_lib \<Rightarrow> policy_context \<Rightarrow> sim_action list" where
  "simulateActions js ctx =
     map (\<lambda>(name, spec).
            let ev = evaluateAction ctx name (actionKind name)
            in \<lparr>sa_name = name, sa_spec = spec, sa_decision = ev_decision ev,
                sa_reasons = reasonsOf js ctx False (ev_verdicts ev)\<rparr>)
       ACTIONS"

section \<open>Rule preview\<close>

definition PREVIEW_SAMPLE_LIMIT :: nat where "PREVIEW_SAMPLE_LIMIT = 5000"

definition preview_probe :: "policy_rule \<Rightarrow> policy_document" where
  "preview_probe rule =
     \<lparr>pd_name = ''preview-probe'', pd_description = [],
      pd_posture = \<lparr>po_actions = Allow, po_reads = Allow\<rparr>, pd_mode = Enforce,
      pd_activeFrom = None, pd_activeUntil = None, pd_rules = [rule]\<rparr>"

record preview_result =
  pw_matched :: nat
  pw_sampled :: nat
  pw_sample :: "fact_row list"

fun preview_scan ::
    "(string \<Rightarrow> string) \<Rightarrow> compiled_source_rule \<Rightarrow> fact_row list \<Rightarrow> nat \<times> fact_row list \<Rightarrow>
     nat \<times> fact_row list" where
  "preview_scan pii rule [] st = st"
| "preview_scan pii rule (v # vs) (matched, sample) =
     (if \<not> sourceRuleMatches rule (toRowView v pii) then preview_scan pii rule vs (matched, sample)
      else preview_scan pii rule vs
             (matched + 1, if length sample < 3 then sample @ [v] else sample))"

definition previewRule ::
    "js_lib \<Rightarrow> int \<Rightarrow> (string \<Rightarrow> string) \<Rightarrow> (nat \<Rightarrow> fact_row list) \<Rightarrow> policy_rule \<Rightarrow>
     sim_error + preview_result" where
  "previewRule js now pii sample_views rule =
     (if \<not> document_accepted js (preview_probe rule) then Inl SimInvalidRule
      else if pr_kind rule \<noteq> RuleSource then Inl SimNotSourceRule
      else (case sim_compile js now False (preview_probe rule) of
              CompileThrew \<Rightarrow> Inl SimCompileThrew
            | CompileNull \<Rightarrow> Inl SimRuleDisabled
            | CompileSet s \<Rightarrow>
                (case cs_sourceDeny s @ cs_sourceAllow s of
                   [] \<Rightarrow> Inl SimRuleDisabled
                 | compiled # _ \<Rightarrow>
                     (let views = sample_views PREVIEW_SAMPLE_LIMIT;
                          (matched, sample) = preview_scan pii compiled views (0, [])
                      in Inr \<lparr>pw_matched = matched, pw_sampled = length views,
                              pw_sample = sample\<rparr>))))"

section \<open>Facts\<close>

lemma preview_scan_eq:
  "length s \<le> 3 \<Longrightarrow> preview_scan pii rule vs (m, s) =
     (m + length (filter (\<lambda>v. sourceRuleMatches rule (toRowView v pii)) vs),
      take 3 (s @ filter (\<lambda>v. sourceRuleMatches rule (toRowView v pii)) vs))"
  by (induction vs arbitrary: m s) (auto simp: take_Cons')

lemma filter_partition_length:
  "(\<And>x. x \<in> set xs \<Longrightarrow> P x \<Longrightarrow> \<not> Q x) \<Longrightarrow>
     length (filter P xs) + length (filter Q xs) \<le> length xs"
  by (induction xs) (auto simp: le_SucI)

lemma sim_compile_mode:
  "sim_compile js now True d = CompileSet s \<Longrightarrow> cs_mode s = Enforce"
  by (auto simp: sim_compile_def dest: compiled_fields(2) split: if_splits)
    (auto simp: compilePolicySet_def)

lemma sim_named_enforced:
  "sim_named_sets js now True db ns = Inr ss \<Longrightarrow> s \<in> set ss \<Longrightarrow> cs_mode s = Enforce"
  by (induction ns arbitrary: ss)
    (auto split: sum.splits compile_result.splits dest: sim_compile_mode)

lemma resolved_enforced:
  assumes "resolveSubject js now company db sub = Inr ctx" "su_override sub"
  shows "(\<forall>s \<in> set (cx_sets ctx). cs_mode s = Enforce) \<and> \<not> cx_forceReportOnly ctx"
  using assms
  by (auto simp: resolveSubject_def sim_inline_sets_def
      split: sum.splits option.splits if_splits compile_result.splits
      dest: sim_compile_mode sim_named_enforced)

lemma enforced_no_would_deny:
  assumes "\<forall>s \<in> set (cx_sets ctx). cs_mode s = Enforce" "\<not> cx_forceReportOnly ctx"
  shows "ev_decision (evaluateRow ctx v) \<noteq> DecWouldDeny"
    "ev_decision (evaluateAction ctx a k) \<noteq> DecWouldDeny"
proof -
  have row: "ev_decision (evaluateRow ctx v) = DecAllow \<or> ev_decision (evaluateRow ctx v) = DecDeny"
    unfolding evaluateRow_eq row_verdict.evaluate_allow_iff row_verdict.evaluate_deny_iff
    using assms by blast
  have act: "ev_decision (evaluateAction ctx a k) = DecAllow \<or> ev_decision (evaluateAction ctx a k) = DecDeny"
    unfolding evaluateAction_eq action_verdict.evaluate_allow_iff action_verdict.evaluate_deny_iff
    using assms by blast
  from row show "ev_decision (evaluateRow ctx v) \<noteq> DecWouldDeny" by auto
  from act show "ev_decision (evaluateAction ctx a k) \<noteq> DecWouldDeny" by auto
qed

lemma simulate_row_decision:
  "sw_decision (simulate_row js pii ctx views hit) =
     (case views (sh_factId hit) of None \<Rightarrow> DecAllow
      | Some v \<Rightarrow> ev_decision (evaluateRow ctx (toRowView v pii)))"
  by (simp add: simulate_row_def Let_def split: option.splits)

section \<open>Properties\<close>

text \<open>The simulation shows what enforcement would do.  Row by row its decision is the
  engine's decision on the stored view (allow where the fact has none), and the summary counts add up: visible rows are those not denied.\<close>

theorem simulation_matches_engine:
  "(case simulateSearch js pii ctx views flat of (sm, rows) \<Rightarrow>
      map sw_decision rows = map (\<lambda>h. case views (sh_factId h) of None \<Rightarrow> DecAllow
        | Some v \<Rightarrow> ev_decision (evaluateRow ctx (toRowView v pii))) flat \<and>
      sm_total sm = length flat \<and>
      sm_visible sm = length (filter (\<lambda>r. sw_decision r \<noteq> DecDeny) rows) \<and>
      sm_denied sm + sm_visible sm = sm_total sm \<and> sm_wouldDeny sm \<le> sm_visible sm)"
proof -
  let ?rows = "map (simulate_row js pii ctx views) flat"
  have split: "length (filter (\<lambda>r. sw_decision r = DecDeny) rs) +
      length (filter (\<lambda>r. sw_decision r \<noteq> DecDeny) rs) = length rs" for rs
    using sum_length_filter_compl [of "\<lambda>r. sw_decision r = DecDeny" rs] by simp
  have "length (filter (\<lambda>r. sw_decision r = DecDeny) ?rows) +
      length (filter (\<lambda>r. sw_decision r = DecWouldDeny) ?rows) \<le> length ?rows"
    by (rule filter_partition_length) simp
  with split [of ?rows] show ?thesis
    by (simp add: simulateSearch_def Let_def simulate_row_decision comp_def, linarith)
qed

text \<open>Under the what-if override nothing is merely reported: in a context resolved with the
  override every decision, on any row and any action, is allow or deny.\<close>

theorem override_enforces:
  assumes "resolveSubject js now company db sub = Inr ctx" "su_override sub"
  shows "ev_decision (evaluateRow ctx v) \<noteq> DecWouldDeny \<and>
         ev_decision (evaluateAction ctx a k) \<noteq> DecWouldDeny"
  using resolved_enforced [OF assms] enforced_no_would_deny by blast

theorem override_enforces_witness:
  "\<exists>ctx. resolveSubject sample_js 0 ''co'' sample_db
       \<lparr>su_policyNames = None, su_inline = Some (sample_document ''p1''), su_override = True\<rparr> = Inr ctx \<and>
     ev_decision (evaluateRow ctx sample_view) \<noteq> DecWouldDeny"
proof -
  let ?sub = "\<lparr>su_policyNames = None, su_inline = Some (sample_document ''p1''), su_override = True\<rparr>"
  have "sim_compile sample_js 0 True (sample_document ''p1'') \<noteq> CompileThrew"
    "sim_compile sample_js 0 True (sample_document ''p1'') \<noteq> CompileNull"
    by (simp_all add: sim_compile_def compilePolicySet_def sample_document_def before_window_def
        after_window_def window_bound_def rules_for_def sample_rule_def compileSourceRule_def
        compileCondition_def Let_def)
  then obtain s where "sim_compile sample_js 0 True (sample_document ''p1'') = CompileSet s"
    by (cases "sim_compile sample_js 0 True (sample_document ''p1'')") auto
  then obtain ctx where "resolveSubject sample_js 0 ''co'' sample_db ?sub = Inr ctx"
    by (simp add: resolveSubject_def sim_inline_sets_def sample_accepted)
  with override_enforces [of sample_js 0 "''co''" sample_db ?sub ctx sample_view] show ?thesis by auto
qed

text \<open>The preview of a rule counts exactly the sampled facts the rule matches and shows the
  first three of them.\<close>

lemma preview_counts_matches:
  assumes "previewRule js now pii views rule = Inr res"
  shows "\<exists>compiled. compileSourceRule js rule = Some compiled \<and>
     (let hits = filter (\<lambda>v. sourceRuleMatches compiled (toRowView v pii)) (views PREVIEW_SAMPLE_LIMIT)
      in pw_matched res = length hits \<and> pw_sample res = take 3 hits \<and>
         pw_sampled res = length (views PREVIEW_SAMPLE_LIMIT))"
proof -
  from assms obtain s compiled rest where src: "pr_kind rule = RuleSource"
    and s: "sim_compile js now False (preview_probe rule) = CompileSet s"
    and c: "cs_sourceDeny s @ cs_sourceAllow s = compiled # rest"
    and res: "res = (let views = views PREVIEW_SAMPLE_LIMIT;
                (matched, sample) = preview_scan pii compiled views (0, [])
            in \<lparr>pw_matched = matched, pw_sampled = length views, pw_sample = sample\<rparr>)"
    by (auto simp: previewRule_def Let_def case_prod_beta split: if_splits compile_result.splits list.splits)
  from s have set: "compilePolicySet js now (preview_probe rule) = CompileSet s"
    by (simp add: sim_compile_def)
  have "compileSourceRule js rule = Some compiled"
    using compiled_fields(8,9) [OF set] c src
    by (cases "pr_effect rule"; cases "pr_enabled rule")
      (auto simp: rules_for_def preview_probe_def split: option.splits)
  moreover have "preview_scan pii compiled vs (0, []) =
      (length (filter (\<lambda>v. sourceRuleMatches compiled (toRowView v pii)) vs),
       take 3 (filter (\<lambda>v. sourceRuleMatches compiled (toRowView v pii)) vs))" for vs
    by (simp add: preview_scan_eq)
  ultimately show ?thesis by (auto simp: res Let_def)
qed

end
