(* ===== verification/JobQueue.thy ===== *)
theory JobQueue imports JsValue begin

text \<open>
  The job table of one tenant and its writers: \<open>src/jobs/job-claim.service.ts\<close> (enqueue,
  claim, renew, the terminal writes, release, zombie reaping), the inline runs and the
  cancel request of \<open>src/jobs/job-run.service.ts\<close>, and the stored function
  \<open>fn::reap_zombies\<close> (\<open>src/db/migrations/0058_reap_zombies_lease_guard.surql\<close>).  Every
  single-record \<open>UPDATE ... WHERE\<close> is one atomic step on the table; \<open>now\<close> is the database
  clock at that step.  A Boolean \<open>up\<close> tells whether the database answers: when it does
  not, an operation gives its error result and changes nothing.  Start times are not kept.
\<close>

datatype job_status = Pending | Running | Succeeded | Failed | Cancelled

record job_error =
  je_name :: string
  je_message :: string

record job_row =
  jr_id :: string
  jr_runId :: string
  jr_jobType :: string
  jr_status :: job_status
  jr_dedupKey :: "string option"
  jr_payload :: "jval option"
  jr_traceparent :: "string option"
  jr_visibleAfter :: int
  jr_attempts :: nat
  jr_claimedBy :: "string option"
  jr_claimedAt :: "int option"
  jr_claimEpoch :: "int option"
  jr_leaseUntil :: "int option"
  jr_heartbeatAt :: "int option"
  jr_finishedAt :: "int option"
  jr_cancelRequested :: bool
  jr_result :: "jval option"
  jr_error :: "job_error option"
  jr_progress :: "jval option"

type_synonym job_table = "job_row list"

text \<open>\<open>UPDATE type::record(rid) SET ... WHERE guard RETURN AFTER\<close>: the updated rows and the
  table.\<close>

definition update_record ::
    "string \<Rightarrow> (job_row \<Rightarrow> bool) \<Rightarrow> (job_row \<Rightarrow> job_row) \<Rightarrow> job_table \<Rightarrow> job_row list \<times> job_table" where
  "update_record rid guard f tbl =
     (let hit = (\<lambda>r. jr_id r = rid \<and> guard r)
      in (map f (filter hit tbl), map (\<lambda>r. if hit r then f r else r) tbl))"

section \<open>Enqueue\<close>

record enqueue_input =
  ei_jobType :: string
  ei_dedupKey :: "string option"
  ei_payload :: "jval option"
  ei_visibleAfter :: "int option"
  ei_traceparent :: "string option"

definition new_job :: "int \<Rightarrow> string \<Rightarrow> string \<Rightarrow> enqueue_input \<Rightarrow> job_row" where
  "new_job now rid runId inp =
     \<lparr>jr_id = rid, jr_runId = runId, jr_jobType = ei_jobType inp, jr_status = Pending,
      jr_dedupKey = ei_dedupKey inp, jr_payload = ei_payload inp,
      jr_traceparent = (if ei_traceparent inp = Some [] then None else ei_traceparent inp),
      jr_visibleAfter = (case ei_visibleAfter inp of None \<Rightarrow> now | Some v \<Rightarrow> v), jr_attempts = 0,
      jr_claimedBy = None, jr_claimedAt = None, jr_claimEpoch = None, jr_leaseUntil = None,
      jr_heartbeatAt = None,
      jr_finishedAt = None, jr_cancelRequested = False, jr_result = None, jr_error = None, jr_progress = None\<rparr>"

text \<open>The UNIQUE index on (jobType, dedupKey); rows without a key are exempt.\<close>

definition dedup_hit :: "string \<Rightarrow> string \<Rightarrow> job_row \<Rightarrow> bool" where
  "dedup_hit jobType key r \<longleftrightarrow> jr_jobType r = jobType \<and> jr_dedupKey r = Some key"

definition findByDedup :: "bool \<Rightarrow> string \<Rightarrow> string \<Rightarrow> job_table \<Rightarrow> string option" where
  "findByDedup up jobType key tbl =
     (if \<not> up then None else map_option jr_runId (find (dedup_hit jobType key) tbl))"

datatype enqueue_result = Enqueued string bool | EnqueueThrew

text \<open>\<open>rid\<close> and \<open>runId\<close> are the identifiers drawn for the new row.\<close>

definition enqueue ::
    "bool \<Rightarrow> int \<Rightarrow> string \<Rightarrow> string \<Rightarrow> enqueue_input \<Rightarrow> job_table \<Rightarrow> enqueue_result \<times> job_table" where
  "enqueue up now rid runId inp tbl =
     (if \<not> up then (EnqueueThrew, tbl)
      else case ei_dedupKey inp of
        None \<Rightarrow> (Enqueued runId True, tbl @ [new_job now rid runId inp])
      | Some key \<Rightarrow>
          if \<not> list_ex (dedup_hit (ei_jobType inp) key) tbl
          then (Enqueued runId True, tbl @ [new_job now rid runId inp])
          else if key = [] then (EnqueueThrew, tbl)
          else (case findByDedup up (ei_jobType inp) key tbl of
                  Some existing \<Rightarrow> (Enqueued existing False, tbl)
                | None \<Rightarrow> (EnqueueThrew, tbl)))"

section \<open>Claim\<close>

record job_claim =
  jc_recordId :: string
  jc_runId :: string
  jc_jobType :: string
  jc_attempts :: nat
  jc_payload :: "jval option"
  jc_leaseUntil :: "int option"
  jc_claimEpoch :: "int option"
  jc_traceparent :: "string option"

record claim_input =
  ci_me :: string
  ci_jobType :: string
  ci_until :: int
  ci_epoch :: "int option"

definition claimable :: "int \<Rightarrow> job_row \<Rightarrow> bool" where
  "claimable now r \<longleftrightarrow> jr_status r = Pending \<and> jr_visibleAfter r \<le> now"

definition candidate :: "int \<Rightarrow> string \<Rightarrow> job_table \<Rightarrow> job_row option" where
  "candidate now jobType tbl =
     (case sort_key jr_visibleAfter (filter (\<lambda>r. claimable now r \<and> jr_jobType r = jobType) tbl) of
        [] \<Rightarrow> None | r # _ \<Rightarrow> Some r)"

definition claimed_row :: "claim_input \<Rightarrow> int \<Rightarrow> job_row \<Rightarrow> job_row" where
  "claimed_row inp now r =
     r\<lparr>jr_status := Running, jr_claimedBy := Some (ci_me inp), jr_claimedAt := Some now,
       jr_leaseUntil := Some (ci_until inp), jr_heartbeatAt := Some now, jr_attempts := jr_attempts r + 1, jr_claimEpoch := ci_epoch inp\<rparr>"

definition cas_claim ::
    "claim_input \<Rightarrow> int \<Rightarrow> string \<Rightarrow> job_table \<Rightarrow> job_row list \<times> job_table" where
  "cas_claim inp now rid tbl = update_record rid (claimable now) (claimed_row inp now) tbl"

definition toClaim :: "job_row \<Rightarrow> int option \<Rightarrow> job_claim option" where
  "toClaim row claimEpoch =
     (if jr_id row = [] \<or> jr_runId row = [] then None
      else Some \<lparr>jc_recordId = jr_id row, jc_runId = jr_runId row, jc_jobType = jr_jobType row,
                 jc_attempts = jr_attempts row, jc_payload = jr_payload row,
                 jc_leaseUntil = jr_leaseUntil row, jc_claimEpoch = claimEpoch,
                 jc_traceparent = jr_traceparent row\<rparr>)"

text \<open>Between the read of a candidate and its compare-and-set other clients may write:
  \<open>others k\<close> is what they do to the table in the attempt with \<open>k\<close> further attempts left.\<close>

fun claim_attempts ::
    "nat \<Rightarrow> (nat \<Rightarrow> job_table \<Rightarrow> job_table) \<Rightarrow> claim_input \<Rightarrow> int \<Rightarrow> job_table \<Rightarrow>
     job_claim option \<times> job_table" where
  "claim_attempts 0 others inp now tbl = (None, tbl)"
| "claim_attempts (Suc k) others inp now tbl =
     (case candidate now (ci_jobType inp) tbl of
        None \<Rightarrow> (None, tbl)
      | Some c \<Rightarrow>
          if jr_id c = [] then (None, tbl)
          else case cas_claim inp now (jr_id c) (others k tbl) of
            (row # _, tbl') \<Rightarrow> (toClaim row (ci_epoch inp), tbl')
          | ([], tbl') \<Rightarrow> claim_attempts k others inp now tbl')"

definition claimNext ::
    "bool \<Rightarrow> (nat \<Rightarrow> job_table \<Rightarrow> job_table) \<Rightarrow> claim_input \<Rightarrow> int \<Rightarrow> job_table \<Rightarrow>
     job_claim option \<times> job_table" where
  "claimNext up others inp now tbl =
     (if \<not> up then (None, tbl) else claim_attempts 3 others inp now tbl)"

section \<open>Writes on a claim\<close>

text \<open>A claim is named by its record, the process that holds it and the lease epoch it was taken
  under.\<close>

record claim_ref =
  cl_id :: string
  cl_me :: string
  cl_epoch :: "int option"

definition ownerGuard :: "claim_ref \<Rightarrow> job_row \<Rightarrow> bool" where
  "ownerGuard c r \<longleftrightarrow>
     jr_claimedBy r = Some (cl_me c) \<and> jr_status r = Running \<and> jr_claimEpoch r = cl_epoch c"

definition unclaimed :: "job_row \<Rightarrow> job_row" where
  "unclaimed r = r\<lparr>jr_claimedBy := None, jr_leaseUntil := None, jr_claimEpoch := None\<rparr>"

definition job_renew ::
    "bool \<Rightarrow> claim_ref \<Rightarrow> int \<Rightarrow> int \<Rightarrow> job_table \<Rightarrow> (bool \<times> bool) \<times> job_table" where
  "job_renew up c until now tbl =
     (if \<not> up then ((True, False), tbl)
      else case update_record (cl_id c) (ownerGuard c)
                  (\<lambda>r. r\<lparr>jr_leaseUntil := Some until, jr_heartbeatAt := Some now\<rparr>) tbl of
        ([], tbl') \<Rightarrow> ((False, False), tbl')
      | (r # _, tbl') \<Rightarrow> ((True, jr_cancelRequested r), tbl'))"

definition job_complete ::
    "bool \<Rightarrow> claim_ref \<Rightarrow> jval option \<Rightarrow> int \<Rightarrow> job_table \<Rightarrow> job_table" where
  "job_complete up c res now tbl =
     (if \<not> up then tbl
      else snd (update_record (cl_id c) (ownerGuard c)
        (\<lambda>r. unclaimed (r\<lparr>jr_status := Succeeded, jr_finishedAt := Some now, jr_result := res\<rparr>)) tbl))"

text \<open>Exponential backoff with jitter \<open>u\<close> in the unit interval, capped at an hour.\<close>

definition backoff_ms :: "nat \<Rightarrow> nat \<Rightarrow> rat \<Rightarrow> int" where
  "backoff_ms baseMs attempts u =
     \<lfloor>min (of_nat baseMs * (if attempts = 0 then 1 / 2 else 2 ^ (attempts - 1)) * (1 / 2 + u * (1 / 2)))
          3600000\<rfloor>"

record fail_input =
  fi_attempts :: nat
  fi_error :: job_error
  fi_requeue :: bool
  fi_maxAttempts :: nat
  fi_baseMs :: nat
  fi_result :: "jval option"

definition job_fail ::
    "bool \<Rightarrow> claim_ref \<Rightarrow> fail_input \<Rightarrow> rat \<Rightarrow> int \<Rightarrow> int \<Rightarrow> job_table \<Rightarrow> bool \<times> job_table" where
  "job_fail up c inp u clientNow now tbl =
     (let willRequeue = fi_requeue inp \<and> fi_attempts inp < fi_maxAttempts inp;
          write = (if willRequeue
            then (\<lambda>r. unclaimed (r\<lparr>jr_status := Pending, jr_error := Some (fi_error inp),
                   jr_visibleAfter := clientNow + backoff_ms (fi_baseMs inp) (fi_attempts inp) u\<rparr>))
            else (\<lambda>r. unclaimed (r\<lparr>jr_status := Failed, jr_finishedAt := Some now,
                   jr_error := Some (fi_error inp), jr_result := fi_result inp\<rparr>)))
      in if \<not> up then (False, tbl)
         else case update_record (cl_id c) (ownerGuard c) write tbl of
           ([], tbl') \<Rightarrow> (False, tbl')
         | (_, tbl') \<Rightarrow> (willRequeue, tbl'))"

definition job_cancelled ::
    "bool \<Rightarrow> claim_ref \<Rightarrow> jval option \<Rightarrow> int \<Rightarrow> job_table \<Rightarrow> job_table" where
  "job_cancelled up c res now tbl =
     (if \<not> up then tbl
      else snd (update_record (cl_id c) (ownerGuard c)
        (\<lambda>r. unclaimed (r\<lparr>jr_status := Cancelled, jr_finishedAt := Some now, jr_result := res\<rparr>)) tbl))"

definition job_release ::
    "bool \<Rightarrow> claim_ref \<Rightarrow> string \<Rightarrow> int \<Rightarrow> job_table \<Rightarrow> bool \<times> job_table" where
  "job_release up c reason now tbl =
     (if \<not> up then (False, tbl)
      else case update_record (cl_id c) (ownerGuard c)
                  (\<lambda>r. unclaimed (r\<lparr>jr_status := Pending, jr_visibleAfter := now,
                     jr_error := Some \<lparr>je_name = ''PodShutdown'', je_message = reason\<rparr>\<rparr>)) tbl of
        ([], tbl') \<Rightarrow> (False, tbl')
      | (_, tbl') \<Rightarrow> (True, tbl'))"

section \<open>Zombie reaping\<close>

definition lapsed :: "int \<Rightarrow> job_row \<Rightarrow> bool" where
  "lapsed now r \<longleftrightarrow> jr_status r = Running \<and>
     (case jr_leaseUntil r of None \<Rightarrow> False | Some u \<Rightarrow> u < now)"

definition holder_text :: "job_row \<Rightarrow> string" where
  "holder_text r = ''lease expired while held by '' @
     (case jr_claimedBy r of None \<Rightarrow> ''unknown'' | Some w \<Rightarrow> w)"

definition reap_requeue :: "nat \<Rightarrow> nat \<Rightarrow> (job_row \<Rightarrow> rat) \<Rightarrow> int \<Rightarrow> job_row \<Rightarrow> job_row" where
  "reap_requeue maxAttempts baseMs jitter now r =
     r\<lparr>jr_status := Pending, jr_claimedBy := None, jr_leaseUntil := None,
       jr_visibleAfter := now + backoff_ms baseMs (jr_attempts r) (jitter r),
       jr_error := Some \<lparr>je_name = ''ZombieReclaim'', je_message = holder_text r @
         ''; requeued (attempt '' @ string_of_nat (jr_attempts r) @ ''/'' @
         string_of_nat maxAttempts @ '')''\<rparr>\<rparr>"

definition reap_abandon :: "int \<Rightarrow> job_row \<Rightarrow> job_row" where
  "reap_abandon now r =
     r\<lparr>jr_status := Failed, jr_finishedAt := Some now, jr_claimedBy := None, jr_leaseUntil := None,
       jr_error := Some \<lparr>je_name = ''ZombieAbandoned'', je_message = holder_text r @
         ''; abandoned after '' @ string_of_nat (jr_attempts r) @ '' attempt(s)''\<rparr>\<rparr>"

definition REAP_LIMIT :: nat where "REAP_LIMIT = 200"

text \<open>The stored function: one selection of at most 200 lapsed rows, then the two guarded
  updates.\<close>

definition reap_zombies ::
    "nat \<Rightarrow> nat \<Rightarrow> (job_row \<Rightarrow> rat) \<Rightarrow> int \<Rightarrow> job_table \<Rightarrow> (nat \<times> nat) \<times> job_table" where
  "reap_zombies maxAttempts baseMs jitter now tbl =
     (let ids = map jr_id (take REAP_LIMIT (filter (lapsed now) tbl));
          rq = (\<lambda>r. jr_id r \<in> set ids \<and> lapsed now r \<and> jr_attempts r < maxAttempts);
          tbl1 = map (\<lambda>r. if rq r then reap_requeue maxAttempts baseMs jitter now r else r) tbl;
          fl = (\<lambda>r. jr_id r \<in> set ids \<and> lapsed now r \<and> maxAttempts \<le> jr_attempts r);
          tbl2 = map (\<lambda>r. if fl r then reap_abandon now r else r) tbl1
      in ((length (filter rq tbl), length (filter fl tbl1)), tbl2))"

record reap_result =
  rr_requeued :: nat
  rr_failed :: nat
  rr_errored :: bool

definition reapZombies ::
    "bool \<Rightarrow> nat \<Rightarrow> nat \<Rightarrow> (job_row \<Rightarrow> rat) \<Rightarrow> int \<Rightarrow> job_table \<Rightarrow> reap_result \<times> job_table" where
  "reapZombies up maxAttempts baseMs jitter now tbl =
     (if \<not> up then (\<lparr>rr_requeued = 0, rr_failed = 0, rr_errored = True\<rparr>, tbl)
      else case reap_zombies maxAttempts baseMs jitter now tbl of
        ((rq, fl), tbl') \<Rightarrow> (\<lparr>rr_requeued = rq, rr_failed = fl, rr_errored = False\<rparr>, tbl'))"

record active_claim =
  av_runId :: string
  av_jobType :: string
  av_companyId :: string
  av_claimedBy :: string
  av_claimedAt :: "int option"
  av_leaseUntil :: "int option"
  av_heartbeatAt :: "int option"
  av_attempts :: nat

definition active_claims :: "string \<Rightarrow> job_table \<Rightarrow> active_claim list" where
  "active_claims companyId tbl =
     map (\<lambda>r. \<lparr>av_runId = jr_runId r, av_jobType = jr_jobType r, av_companyId = companyId,
               av_claimedBy = the (jr_claimedBy r), av_claimedAt = jr_claimedAt r,
               av_leaseUntil = jr_leaseUntil r, av_heartbeatAt = jr_heartbeatAt r,
               av_attempts = jr_attempts r\<rparr>)
       (take 50 (sort_key (\<lambda>r. case jr_claimedAt r of None \<Rightarrow> 0 | Some t \<Rightarrow> - t)
         (filter (\<lambda>r. jr_status r = Running \<and> jr_claimedBy r \<noteq> None) tbl)))"

text \<open>A tenant whose query fails contributes nothing.\<close>

definition listActiveClaims :: "(string \<times> job_table option) list \<Rightarrow> active_claim list" where
  "listActiveClaims tenants =
     concat (map (\<lambda>(companyId, t). case t of None \<Rightarrow> [] | Some tbl \<Rightarrow> active_claims companyId tbl) tenants)"

section \<open>Inline runs and cancellation\<close>

text \<open>A run started in place has no claim: it is \<open>Running\<close> without a holder or a lease.\<close>

definition run_start ::
    "bool \<Rightarrow> int \<Rightarrow> string \<Rightarrow> string \<Rightarrow> string \<Rightarrow> jval option \<Rightarrow> job_table \<Rightarrow> job_table" where
  "run_start up now rid runId jobType progress tbl =
     (if \<not> up then tbl
      else tbl @ [(new_job now rid runId \<lparr>ei_jobType = jobType, ei_dedupKey = None,
        ei_payload = None, ei_visibleAfter = None, ei_traceparent = None\<rparr>)
        \<lparr>jr_status := Running, jr_progress := progress\<rparr>])"

text \<open>The progress of a run, merged in the caller's memory, is written whatever the state of the row:
  the calls are not all awaited, and one may reach the table after the run ended.\<close>

definition updateProgress :: "bool \<Rightarrow> string \<Rightarrow> jval \<Rightarrow> job_table \<Rightarrow> job_table" where
  "updateProgress up runId progress tbl =
     (if \<not> up then tbl
      else map (\<lambda>r. if jr_runId r = runId then r\<lparr>jr_progress := Some progress\<rparr> else r) tbl)"

definition run_finish ::
    "bool \<Rightarrow> string \<Rightarrow> job_status \<Rightarrow> jval option \<Rightarrow> job_error option \<Rightarrow> int \<Rightarrow> job_table \<Rightarrow> job_table" where
  "run_finish up runId status res err now tbl =
     (if \<not> up then tbl
      else map (\<lambda>r. if jr_runId r = runId \<and> jr_status r = Running \<and> jr_claimedBy r = None
                   then r\<lparr>jr_status := status, jr_finishedAt := Some now, jr_result := res, jr_error := err\<rparr>
                   else r) tbl)"

text \<open>The conditions in the \<open>SET\<close> list are taken on the row as it was before the update.\<close>

definition cancel_row :: "int \<Rightarrow> job_row \<Rightarrow> job_row" where
  "cancel_row now r =
     (if jr_status r = Pending
      then r\<lparr>jr_cancelRequested := True, jr_status := Cancelled, jr_finishedAt := Some now,
             jr_claimedBy := None, jr_leaseUntil := None\<rparr>
      else r\<lparr>jr_cancelRequested := True\<rparr>)"

definition requestCancel :: "bool \<Rightarrow> string \<Rightarrow> int \<Rightarrow> job_table \<Rightarrow> bool \<times> job_table" where
  "requestCancel up runId now tbl =
     (if \<not> up then (False, tbl)
      else let hit = (\<lambda>r. jr_runId r = runId \<and> (jr_status r = Pending \<or> jr_status r = Running))
           in (list_ex hit tbl, map (\<lambda>r. if hit r then cancel_row now r else r) tbl))"

text \<open>The poll of inline runs.  Besides the in-process hint it asks for a row whose \<open>companyId\<close>
  equals the tenant; the table is schemafull and declares no such field, so no row has one.\<close>

definition stored_companyId :: "job_row \<Rightarrow> string option" where
  "stored_companyId r = None"

definition isCancelRequested :: "bool \<Rightarrow> bool \<Rightarrow> string \<Rightarrow> string \<Rightarrow> job_table \<Rightarrow> bool" where
  "isCancelRequested hint up runId companyId tbl =
     (if hint then True
      else if \<not> up then False
      else (case find (\<lambda>r. jr_runId r = runId \<and> stored_companyId r = Some companyId) tbl of
              None \<Rightarrow> False | Some r \<Rightarrow> jr_cancelRequested r))"

section \<open>Record updates\<close>

lemma update_record_map:
  "snd (update_record rid g f tbl) = map (\<lambda>r. if jr_id r = rid \<and> g r then f r else r) tbl"
  by (simp add: update_record_def Let_def)

lemma update_record_rows:
  "fst (update_record rid g f tbl) = map f (filter (\<lambda>r. jr_id r = rid \<and> g r) tbl)"
  by (simp add: update_record_def Let_def)

lemma update_record_miss:
  "(\<forall>r \<in> set tbl. jr_id r = rid \<longrightarrow> \<not> g r) \<Longrightarrow> update_record rid g f tbl = ([], tbl)"
  by (auto simp: update_record_def Let_def filter_empty_conv intro!: map_idI)

lemma update_record_rows_Nil:
  "fst (update_record rid g f tbl) = [] \<longleftrightarrow> (\<forall>r \<in> set tbl. jr_id r = rid \<longrightarrow> \<not> g r)"
  by (auto simp: update_record_rows filter_empty_conv)

definition owned :: "claim_ref \<Rightarrow> job_table \<Rightarrow> bool" where
  "owned c tbl \<longleftrightarrow> (\<exists>r \<in> set tbl. jr_id r = cl_id c \<and> ownerGuard c r)"

lemma update_owned_Nil: "fst (update_record (cl_id c) (ownerGuard c) f tbl) = [] \<longleftrightarrow> \<not> owned c tbl"
  by (auto simp: update_record_rows_Nil owned_def)

section \<open>The contract of a write on a claim\<close>

text \<open>Such a write touches only the record of its claim, and only while the claim still holds;
  it keeps what identifies the job and how often it was claimed.\<close>

definition same_job :: "job_row \<Rightarrow> job_row \<Rightarrow> bool" where
  "same_job r r' \<longleftrightarrow> jr_id r' = jr_id r \<and> jr_runId r' = jr_runId r \<and> jr_jobType r' = jr_jobType r \<and>
     jr_dedupKey r' = jr_dedupKey r \<and> jr_payload r' = jr_payload r"

lemma same_job_refl [simp]: "same_job r r"
  by (simp add: same_job_def)

locale claim_write =
  fixes put :: "claim_ref \<Rightarrow> job_table \<Rightarrow> job_table"
    and eff :: "job_row \<Rightarrow> job_row"
  assumes put_eq: "put c tbl = map (\<lambda>r. if jr_id r = cl_id c \<and> ownerGuard c r then eff r else r) tbl"
    and eff_job: "same_job r (eff r) \<and> jr_attempts (eff r) = jr_attempts r"
begin

lemma stale_noop: "\<not> owned c tbl \<Longrightarrow> put c tbl = tbl"
  by (auto simp: put_eq owned_def intro!: map_idI)

lemma put_rows: "list_all2 (\<lambda>r r'. r' = r \<or> jr_id r = cl_id c \<and> ownerGuard c r \<and> r' = eff r) tbl (put c tbl)"
  by (simp add: put_eq list.rel_map list.rel_refl)

lemma put_owned: "r \<in> set tbl \<Longrightarrow> jr_id r = cl_id c \<Longrightarrow> ownerGuard c r \<Longrightarrow> eff r \<in> set (put c tbl)"
  by (force simp: put_eq image_iff)

lemma put_keeps_unowned: "r \<in> set tbl \<Longrightarrow> \<not> (jr_id r = cl_id c \<and> ownerGuard c r) \<Longrightarrow> r \<in> set (put c tbl)"
  by (force simp: put_eq image_iff)

end

section \<open>The writes keep the contract\<close>

definition renewed :: "int \<Rightarrow> int \<Rightarrow> job_row \<Rightarrow> job_row" where
  "renewed until now r = r\<lparr>jr_leaseUntil := Some until, jr_heartbeatAt := Some now\<rparr>"

definition ended :: "job_status \<Rightarrow> jval option \<Rightarrow> int \<Rightarrow> job_row \<Rightarrow> job_row" where
  "ended s res now r = unclaimed (r\<lparr>jr_status := s, jr_finishedAt := Some now, jr_result := res\<rparr>)"

definition fail_effect :: "fail_input \<Rightarrow> rat \<Rightarrow> int \<Rightarrow> int \<Rightarrow> job_row \<Rightarrow> job_row" where
  "fail_effect inp u clientNow now =
     (if fi_requeue inp \<and> fi_attempts inp < fi_maxAttempts inp
      then (\<lambda>r. unclaimed (r\<lparr>jr_status := Pending, jr_error := Some (fi_error inp),
              jr_visibleAfter := clientNow + backoff_ms (fi_baseMs inp) (fi_attempts inp) u\<rparr>))
      else (\<lambda>r. unclaimed (r\<lparr>jr_status := Failed, jr_finishedAt := Some now,
              jr_error := Some (fi_error inp), jr_result := fi_result inp\<rparr>)))"

definition release_effect :: "string \<Rightarrow> int \<Rightarrow> job_row \<Rightarrow> job_row" where
  "release_effect reason now r = unclaimed (r\<lparr>jr_status := Pending, jr_visibleAfter := now,
     jr_error := Some \<lparr>je_name = ''PodShutdown'', je_message = reason\<rparr>\<rparr>)"

lemma snd_case_rows: "snd (case p of ([], t) \<Rightarrow> (a, t) | (r # rs, t) \<Rightarrow> (b r, t)) = snd p"
  by (cases p) (auto split: list.splits)

lemma fst_case_rows:
  "fst (case p of ([], t) \<Rightarrow> (a, t) | (r # rs, t) \<Rightarrow> (b r, t)) = (case fst p of [] \<Rightarrow> a | r # rs \<Rightarrow> b r)"
  by (cases p) (auto split: list.splits)

lemma renew_table:
  "snd (job_renew True c until now tbl) =
     snd (update_record (cl_id c) (ownerGuard c) (renewed until now) tbl)"
  by (simp add: job_renew_def snd_case_rows renewed_def [abs_def])

lemma fail_table:
  "snd (job_fail True c inp u cn now tbl) =
     snd (update_record (cl_id c) (ownerGuard c) (fail_effect inp u cn now) tbl)"
  by (simp add: job_fail_def Let_def snd_case_rows fail_effect_def)

lemma release_table:
  "snd (job_release True c reason now tbl) =
     snd (update_record (cl_id c) (ownerGuard c) (release_effect reason now) tbl)"
  by (simp add: job_release_def snd_case_rows release_effect_def [abs_def])

lemma complete_table:
  "job_complete True c res now tbl =
     snd (update_record (cl_id c) (ownerGuard c) (ended Succeeded res now) tbl)"
  by (simp add: job_complete_def ended_def [abs_def])

lemma cancelled_table:
  "job_cancelled True c res now tbl =
     snd (update_record (cl_id c) (ownerGuard c) (ended Cancelled res now) tbl)"
  by (simp add: job_cancelled_def ended_def [abs_def])

interpretation renew: claim_write
  "\<lambda>c tbl. snd (job_renew True c until now tbl)" "renewed until now" for until now
  by unfold_locales (simp_all add: renew_table update_record_map same_job_def renewed_def)

interpretation fail: claim_write
  "\<lambda>c tbl. snd (job_fail True c inp u cn now tbl)" "fail_effect inp u cn now" for inp u cn now
  by unfold_locales (simp_all add: fail_table update_record_map same_job_def fail_effect_def unclaimed_def)

interpretation release: claim_write
  "\<lambda>c tbl. snd (job_release True c reason now tbl)" "release_effect reason now" for reason now
  by unfold_locales
    (simp_all add: release_table update_record_map same_job_def release_effect_def unclaimed_def)

interpretation complete: claim_write
  "\<lambda>c tbl. job_complete True c res now tbl" "ended Succeeded res now" for res now
  by unfold_locales (simp_all add: complete_table update_record_map same_job_def ended_def unclaimed_def)

interpretation cancelled: claim_write
  "\<lambda>c tbl. job_cancelled True c res now tbl" "ended Cancelled res now" for res now
  by unfold_locales (simp_all add: cancelled_table update_record_map same_job_def ended_def unclaimed_def)

section \<open>The life of a job\<close>

text \<open>The states a row moves through, as the operations are meant to move it.\<close>

definition terminal :: "job_row \<Rightarrow> bool" where
  "terminal r \<longleftrightarrow> jr_status r = Succeeded \<or> jr_status r = Failed \<or> jr_status r = Cancelled"

definition free :: "job_row \<Rightarrow> bool" where
  "free r \<longleftrightarrow> jr_claimedBy r = None \<and> jr_leaseUntil r = None"

definition claimed :: "job_row \<Rightarrow> bool" where
  "claimed r \<longleftrightarrow> jr_status r = Running \<and> jr_claimedBy r \<noteq> None \<and> jr_leaseUntil r \<noteq> None"

definition inline_run :: "job_row \<Rightarrow> bool" where
  "inline_run r \<longleftrightarrow> jr_status r = Running \<and> free r"

inductive lifecycle :: "job_row \<Rightarrow> job_row \<Rightarrow> bool" where
  life_claim: "jr_status r = Pending \<Longrightarrow> claimed r' \<Longrightarrow> same_job r r' \<Longrightarrow>
     jr_attempts r' = jr_attempts r + 1 \<Longrightarrow> lifecycle r r'"
| life_renew: "claimed r \<Longrightarrow> claimed r' \<Longrightarrow> same_job r r' \<Longrightarrow> jr_attempts r' = jr_attempts r \<Longrightarrow>
     jr_claimedBy r' = jr_claimedBy r \<Longrightarrow> jr_claimEpoch r' = jr_claimEpoch r \<Longrightarrow> lifecycle r r'"
| life_flag: "jr_status r = Running \<Longrightarrow> r' = r\<lparr>jr_cancelRequested := True\<rparr> \<Longrightarrow> lifecycle r r'"
| life_requeue: "claimed r \<Longrightarrow> jr_status r' = Pending \<Longrightarrow> free r' \<Longrightarrow> same_job r r' \<Longrightarrow>
     jr_attempts r' = jr_attempts r \<Longrightarrow> lifecycle r r'"
| life_end: "claimed r \<or> inline_run r \<or> jr_status r = Pending \<Longrightarrow> terminal r' \<Longrightarrow> free r' \<Longrightarrow>
     same_job r r' \<Longrightarrow> jr_attempts r' = jr_attempts r \<Longrightarrow> jr_finishedAt r' \<noteq> None \<Longrightarrow> lifecycle r r'"

inductive_cases lifecycleE: "lifecycle r r'"

text \<open>A row is as the operations leave it: a claim has a holder and a lease, nothing else has.\<close>

definition row_ok :: "job_row \<Rightarrow> bool" where
  "row_ok r \<longleftrightarrow> claimed r \<or> free r"

lemma row_ok_owned: "row_ok r \<Longrightarrow> ownerGuard c r \<Longrightarrow> claimed r"
  by (auto simp: row_ok_def ownerGuard_def free_def)

lemma row_ok_lapsed: "row_ok r \<Longrightarrow> lapsed now r \<Longrightarrow> claimed r"
  by (auto simp: row_ok_def lapsed_def free_def split: option.splits)

lemma row_ok_running: "row_ok r \<Longrightarrow> jr_status r = Running \<Longrightarrow> jr_claimedBy r = None \<Longrightarrow> inline_run r"
  by (auto simp: row_ok_def claimed_def inline_run_def)

lemma row_ok_pending: "row_ok r \<Longrightarrow> jr_status r \<noteq> Running \<Longrightarrow> free r"
  by (auto simp: row_ok_def claimed_def)

lemma terminal_final: "lifecycle r r' \<Longrightarrow> \<not> terminal r"
  by (erule lifecycleE) (auto simp: terminal_def claimed_def inline_run_def)

lemma lifecycle_same_job: "lifecycle r r' \<Longrightarrow> same_job r r'"
  by (erule lifecycleE) (auto simp: same_job_def)

lemma lifecycle_ok: "lifecycle r r' \<Longrightarrow> row_ok r \<Longrightarrow> row_ok r'"
  by (erule lifecycleE) (auto simp: row_ok_def claimed_def free_def)

lemma lifecycle_attempts: "lifecycle r r' \<Longrightarrow> jr_attempts r \<le> jr_attempts r'"
  by (erule lifecycleE) auto

section \<open>Each operation is a move of the life cycle\<close>

lemma life_claimed_row: "jr_status r = Pending \<Longrightarrow> lifecycle r (claimed_row inp now r)"
  by (rule life_claim) (simp_all add: claimed_def claimed_row_def same_job_def)

lemma life_renewed: "claimed r \<Longrightarrow> lifecycle r (renewed until now r)"
  by (rule life_renew) (simp_all add: claimed_def renewed_def same_job_def)

lemma life_ended: "claimed r \<Longrightarrow> s = Succeeded \<or> s = Cancelled \<Longrightarrow> lifecycle r (ended s res now r)"
  by (rule life_end) (auto simp: terminal_def ended_def unclaimed_def same_job_def free_def)

lemma life_failed: "claimed r \<Longrightarrow> lifecycle r (fail_effect inp u cn now r)"
proof (cases "fi_requeue inp \<and> fi_attempts inp < fi_maxAttempts inp")
  case True
  assume "claimed r"
  with True show ?thesis
    by (intro life_requeue) (simp_all add: fail_effect_def unclaimed_def same_job_def free_def)
next
  case False
  assume "claimed r"
  with False show ?thesis
    by (intro life_end) (auto simp: fail_effect_def unclaimed_def same_job_def free_def terminal_def)
qed

lemma life_released: "claimed r \<Longrightarrow> lifecycle r (release_effect reason now r)"
  by (rule life_requeue) (simp_all add: release_effect_def unclaimed_def same_job_def free_def)

lemma life_reaped: "claimed r \<Longrightarrow> lifecycle r (reap_requeue m b j now r)"
  by (rule life_requeue) (simp_all add: reap_requeue_def same_job_def free_def)

lemma life_abandoned: "claimed r \<Longrightarrow> lifecycle r (reap_abandon now r)"
  by (rule life_end) (simp_all add: reap_abandon_def same_job_def free_def terminal_def)

lemma life_cancel_row: "row_ok r \<Longrightarrow> jr_status r = Pending \<or> jr_status r = Running \<Longrightarrow> lifecycle r (cancel_row now r)"
proof (cases "jr_status r = Pending")
  case True
  assume "row_ok r"
  with True show ?thesis
    by (intro life_end) (auto simp: cancel_row_def same_job_def free_def terminal_def)
next
  case False
  assume "jr_status r = Pending \<or> jr_status r = Running"
  with False show ?thesis by (intro life_flag) (simp_all add: cancel_row_def)
qed

text \<open>A row that is the same but for its progress.\<close>

definition stays :: "job_row \<Rightarrow> job_row \<Rightarrow> bool" where
  "stays r r' \<longleftrightarrow> r' = r\<lparr>jr_progress := jr_progress r'\<rparr>"

lemma stays_refl [simp]: "stays r r"
  by (simp add: stays_def)

lemma staysE:
  assumes "stays r r'"
  obtains p where "r' = r\<lparr>jr_progress := p\<rparr>"
  using assms by (auto simp: stays_def)

lemma stays_trans: "stays a b \<Longrightarrow> stays b c \<Longrightarrow> stays a c"
  by (elim staysE) (simp add: stays_def)

lemma stays_fields: "stays r r' \<Longrightarrow> same_job r r' \<and> jr_attempts r' = jr_attempts r \<and> terminal r' = terminal r \<and> row_ok r' = row_ok r"
  by (elim staysE) (simp add: same_job_def terminal_def row_ok_def claimed_def free_def)

text \<open>A table moves when every row stays or moves.\<close>

definition moves :: "job_table \<Rightarrow> job_table \<Rightarrow> bool" where
  "moves tbl tbl' \<longleftrightarrow> list_all2 (\<lambda>r r'. stays r r' \<or> lifecycle r r') tbl tbl'"

lemma moves_refl [simp]: "moves tbl tbl"
  by (simp add: moves_def list.rel_refl)

lemma moves_map: "(\<And>r. r \<in> set tbl \<Longrightarrow> g r \<noteq> r \<Longrightarrow> lifecycle r (g r)) \<Longrightarrow> moves tbl (map g tbl)"
  unfolding moves_def list.rel_map by (rule list.rel_refl_strong) (metis stays_refl)

lemma moves_ids: "moves tbl tbl' \<Longrightarrow> map jr_id tbl' = map jr_id tbl"
  unfolding moves_def
  by (induction rule: list_all2_induct) (auto dest!: lifecycle_same_job stays_fields simp: same_job_def)

definition rows_ok :: "job_table \<Rightarrow> bool" where
  "rows_ok tbl \<longleftrightarrow> list_all row_ok tbl"

lemma moves_ok: "moves tbl tbl' \<Longrightarrow> rows_ok tbl \<Longrightarrow> rows_ok tbl'"
  unfolding moves_def rows_ok_def
  by (induction rule: list_all2_induct) (auto dest: lifecycle_ok stays_fields)

lemma moves_update:
  assumes "rows_ok tbl" "\<And>r. row_ok r \<Longrightarrow> g r \<Longrightarrow> lifecycle r (f r)"
  shows "moves tbl (snd (update_record rid g f tbl))"
  unfolding update_record_map
  using assms by (intro moves_map) (auto simp: rows_ok_def list_all_iff split: if_splits)

lemma moves_owner:
  assumes "rows_ok tbl" "\<And>r. claimed r \<Longrightarrow> lifecycle r (f r)"
  shows "moves tbl (snd (update_record (cl_id c) (ownerGuard c) f tbl))"
  using assms row_ok_owned by (intro moves_update) blast+

text \<open>The two guarded updates of the reaper act on a row as one.\<close>

definition reap_ids :: "int \<Rightarrow> job_table \<Rightarrow> string set" where
  "reap_ids now tbl = jr_id ` set (take REAP_LIMIT (filter (lapsed now) tbl))"

definition reap_row ::
    "string set \<Rightarrow> nat \<Rightarrow> nat \<Rightarrow> (job_row \<Rightarrow> rat) \<Rightarrow> int \<Rightarrow> job_row \<Rightarrow> job_row" where
  "reap_row ids m b j now r =
     (if jr_id r \<in> ids \<and> lapsed now r
      then if jr_attempts r < m then reap_requeue m b j now r else reap_abandon now r
      else r)"

lemma requeue_not_lapsed: "\<not> lapsed now (reap_requeue m b j now' r)"
  by (simp add: lapsed_def reap_requeue_def)

lemma reap_table:
  "snd (reap_zombies m b j now tbl) = map (reap_row (reap_ids now tbl) m b j now) tbl"
  by (auto simp: reap_zombies_def Let_def reap_row_def reap_ids_def requeue_not_lapsed)

lemma moves_reap: "rows_ok tbl \<Longrightarrow> moves tbl (snd (reap_zombies m b j now tbl))"
  unfolding reap_table
  by (rule moves_map)
    (auto simp: rows_ok_def list_all_iff reap_row_def life_reaped life_abandoned row_ok_lapsed
      split: if_splits)

lemma moves_finish:
  assumes "rows_ok tbl" "s = Succeeded \<or> s = Failed \<or> s = Cancelled"
  shows "moves tbl (run_finish up runId s res err now tbl)"
proof (cases up)
  case True
  have "lifecycle r (r\<lparr>jr_status := s, jr_finishedAt := Some now, jr_result := res, jr_error := err\<rparr>)"
    if "row_ok r" "jr_status r = Running" "jr_claimedBy r = None" for r
    using row_ok_running [OF that] assms(2)
    by (intro life_end) (auto simp: inline_run_def free_def terminal_def same_job_def)
  with True assms(1) show ?thesis
    by (auto simp: run_finish_def rows_ok_def list_all_iff intro!: moves_map split: if_splits)
qed (simp add: run_finish_def)

lemma moves_cancel: "rows_ok tbl \<Longrightarrow> moves tbl (snd (requestCancel up runId now tbl))"
  by (auto simp: requestCancel_def Let_def rows_ok_def list_all_iff
      intro!: moves_map life_cancel_row split: if_splits)

lemma moves_progress: "moves tbl (updateProgress up runId p tbl)"
  by (auto simp: updateProgress_def moves_def list.rel_map stays_def intro!: list.rel_refl_strong)

lemma moves_cas: "moves tbl (snd (cas_claim inp now rid tbl))"
  unfolding cas_claim_def update_record_map
  by (rule moves_map) (auto simp: claimable_def intro: life_claimed_row split: if_splits)

section \<open>Histories\<close>

text \<open>Any client may take any of these steps at any time; a new row gets an unused record id.\<close>

inductive job_step :: "job_table \<Rightarrow> job_table \<Rightarrow> bool" where
  step_enqueue: "rid \<notin> jr_id ` set tbl \<Longrightarrow> job_step tbl (snd (enqueue up now rid runId inp tbl))"
| step_start: "rid \<notin> jr_id ` set tbl \<Longrightarrow> job_step tbl (run_start up now rid runId jobType prog tbl)"
| step_claim: "job_step tbl (snd (cas_claim inp now rid tbl))"
| step_renew: "job_step tbl (snd (job_renew up c until now tbl))"
| step_complete: "job_step tbl (job_complete up c res now tbl)"
| step_fail: "job_step tbl (snd (job_fail up c fi u cn now tbl))"
| step_cancelled: "job_step tbl (job_cancelled up c res now tbl)"
| step_release: "job_step tbl (snd (job_release up c reason now tbl))"
| step_reap: "job_step tbl (snd (reapZombies up m b j now tbl))"
| step_finish: "s = Succeeded \<or> s = Failed \<or> s = Cancelled \<Longrightarrow>
     job_step tbl (run_finish up runId s res err now tbl)"
| step_cancel: "job_step tbl (snd (requestCancel up runId now tbl))"
| step_progress: "job_step tbl (updateProgress up runId p tbl)"

text \<open>A step moves the rows there are and appends at most one new row.\<close>

definition new_row_ok :: "job_table \<Rightarrow> job_row \<Rightarrow> bool" where
  "new_row_ok tbl r \<longleftrightarrow> free r \<and> jr_attempts r = 0 \<and> jr_id r \<notin> jr_id ` set tbl \<and>
     (\<forall>key. jr_dedupKey r = Some key \<longrightarrow> \<not> list_ex (dedup_hit (jr_jobType r) key) tbl)"

definition grows :: "job_table \<Rightarrow> job_table \<Rightarrow> bool" where
  "grows tbl tbl' \<longleftrightarrow> moves tbl tbl' \<or> (\<exists>r. tbl' = tbl @ [r] \<and> new_row_ok tbl r)"

lemma enqueue_grows:
  "rid \<notin> jr_id ` set tbl \<Longrightarrow> grows tbl (snd (enqueue up now rid runId inp tbl))"
  by (auto simp: grows_def enqueue_def new_row_ok_def new_job_def free_def split: option.splits)

lemma start_grows: "rid \<notin> jr_id ` set tbl \<Longrightarrow> grows tbl (run_start up now rid runId jobType prog tbl)"
  by (auto simp: grows_def run_start_def new_row_ok_def new_job_def free_def)

lemma down_noop [simp]:
  "snd (job_renew False c until now tbl) = tbl" "job_complete False c res now tbl = tbl"
  "snd (job_fail False c fi u cn now tbl) = tbl" "job_cancelled False c res now tbl = tbl"
  "snd (job_release False c reason now tbl) = tbl" "snd (reapZombies False m b j now tbl) = tbl"
  by (simp_all add: job_renew_def job_complete_def job_fail_def job_cancelled_def job_release_def
      reapZombies_def Let_def)

lemma step_grows: "job_step tbl tbl' \<Longrightarrow> rows_ok tbl \<Longrightarrow> grows tbl tbl'"
proof (induction rule: job_step.induct)
  case step_enqueue then show ?case by (simp add: enqueue_grows)
next
  case step_start then show ?case by (simp add: start_grows)
next
  case step_claim then show ?case by (simp add: grows_def moves_cas)
next
  case (step_renew tbl up c until now)
  then show ?case by (cases up) (simp_all add: grows_def renew_table moves_owner life_renewed)
next
  case (step_complete tbl up c res now)
  then show ?case by (cases up) (simp_all add: grows_def complete_table moves_owner life_ended)
next
  case (step_fail tbl up c fi u cn now)
  then show ?case by (cases up) (simp_all add: grows_def fail_table moves_owner life_failed)
next
  case (step_cancelled tbl up c res now)
  then show ?case by (cases up) (simp_all add: grows_def cancelled_table moves_owner life_ended)
next
  case (step_release tbl up c reason now)
  then show ?case by (cases up) (simp_all add: grows_def release_table moves_owner life_released)
next
  case (step_reap tbl up m b j now)
  then show ?case
    by (cases up) (simp_all add: grows_def reapZombies_def moves_reap split: prod.splits,
        metis moves_reap snd_conv)
next
  case step_finish then show ?case by (simp add: grows_def moves_finish)
next
  case step_cancel then show ?case by (simp add: grows_def moves_cancel)
next
  case step_progress then show ?case by (simp add: grows_def moves_progress)
qed

definition dedup_key_of :: "job_row \<Rightarrow> (string \<times> string) list" where
  "dedup_key_of r = (case jr_dedupKey r of None \<Rightarrow> [] | Some k \<Rightarrow> [(jr_jobType r, k)])"

definition dedup_keys :: "job_table \<Rightarrow> (string \<times> string) list" where
  "dedup_keys tbl = concat (map dedup_key_of tbl)"

definition table_ok :: "job_table \<Rightarrow> bool" where
  "table_ok tbl \<longleftrightarrow> rows_ok tbl \<and> distinct (map jr_id tbl) \<and> distinct (dedup_keys tbl)"

lemma same_job_dedup: "same_job r r' \<Longrightarrow> dedup_key_of r' = dedup_key_of r"
  by (simp add: same_job_def dedup_key_of_def split: option.split)

lemma moves_dedup: "moves tbl tbl' \<Longrightarrow> dedup_keys tbl' = dedup_keys tbl"
  unfolding moves_def dedup_keys_def
  by (induction rule: list_all2_induct) (auto dest!: same_job_dedup lifecycle_same_job stays_fields)

lemma dedup_keys_snoc: "dedup_keys (tbl @ [r]) = dedup_keys tbl @ dedup_key_of r"
  by (simp add: dedup_keys_def)

lemma dedup_keys_mem: "(t, k) \<in> set (dedup_keys tbl) \<longleftrightarrow> list_ex (dedup_hit t k) tbl"
  by (induction tbl) (auto simp: dedup_keys_def dedup_key_of_def dedup_hit_def split: option.splits)

lemma grows_ok: "grows tbl tbl' \<Longrightarrow> table_ok tbl \<Longrightarrow> table_ok tbl'"
proof -
  assume g: "grows tbl tbl'" and ok: "table_ok tbl"
  show "table_ok tbl'"
  proof (cases "moves tbl tbl'")
    case True
    with ok show ?thesis
      using moves_ok moves_ids moves_dedup by (simp add: table_ok_def)
  next
    case False
    with g obtain r where r: "tbl' = tbl @ [r]" "new_row_ok tbl r" by (auto simp: grows_def)
    have "distinct (dedup_keys (tbl @ [r]))"
      using r(2) ok by (auto simp: table_ok_def dedup_keys_snoc dedup_key_of_def dedup_keys_mem new_row_ok_def
          split: option.splits)
    with r ok show ?thesis
      by (auto simp: table_ok_def rows_ok_def row_ok_def new_row_ok_def)
  qed
qed

lemma step_ok: "job_step tbl tbl' \<Longrightarrow> table_ok tbl \<Longrightarrow> table_ok tbl'"
proof -
  assume step: "job_step tbl tbl'" and ok: "table_ok tbl"
  from ok have "rows_ok tbl" by (simp add: table_ok_def)
  from grows_ok [OF step_grows [OF step this] ok] show ?thesis .
qed

lemma claim_attempts_Suc:
  assumes "candidate now (ci_jobType inp) tbl = Some c" "jr_id c \<noteq> []"
    "cas_claim inp now (jr_id c) (others n tbl) = (rows, tbl')"
  shows "claim_attempts (Suc n) others inp now tbl =
     (case rows of row # _ \<Rightarrow> (toClaim row (ci_epoch inp), tbl')
      | [] \<Rightarrow> claim_attempts n others inp now tbl')"
  using assms by (simp split: list.splits)

lemma claim_attempts_steps:
  assumes "\<And>k t. job_step\<^sup>*\<^sup>* t (others k t)"
  shows "job_step\<^sup>*\<^sup>* tbl (snd (claim_attempts n others inp now tbl))"
proof (induction n arbitrary: tbl)
  case (Suc n)
  show ?case
  proof (cases "\<exists>c. candidate now (ci_jobType inp) tbl = Some c \<and> jr_id c \<noteq> []")
    case True
    then obtain c where c: "candidate now (ci_jobType inp) tbl = Some c" "jr_id c \<noteq> []" by blast
    obtain rows tbl' where cas: "cas_claim inp now (jr_id c) (others n tbl) = (rows, tbl')" by fastforce
    have "job_step (others n tbl) tbl'"
      using step_claim [of "others n tbl" inp now "jr_id c"] unfolding cas by simp
    with assms [of tbl n] have step: "job_step\<^sup>*\<^sup>* tbl tbl'" by (rule rtranclp.rtrancl_into_rtrancl)
    show ?thesis
    proof (cases rows)
      case Nil
      show ?thesis
        unfolding claim_attempts_Suc [where others = others and n = n, OF c cas] Nil list.case
        by (rule rtranclp_trans [OF step Suc.IH])
    next
      case (Cons row rest)
      show ?thesis
        unfolding claim_attempts_Suc [where others = others and n = n, OF c cas] Cons list.case snd_conv by (rule step)
    qed
  next
    case False
    then have "claim_attempts (Suc n) others inp now tbl = (None, tbl)"
      by (auto split: option.splits)
    then show ?thesis by simp
  qed
qed simp

section \<open>Counting what the reaper takes\<close>

lemma filter_image_take:
  assumes "distinct (map f ys)"
  shows "filter (\<lambda>y. f y \<in> f ` set (take n ys)) ys = take n ys"
proof -
  have "f ` set (take n ys) \<inter> f ` set (drop n ys) = {}"
    using assms by (metis append_take_drop_id distinct_append image_set map_append)
  then have "filter (\<lambda>y. f y \<in> f ` set (take n ys)) (drop n ys) = []"
    by (auto simp: filter_empty_conv)
  moreover have "filter (\<lambda>y. f y \<in> f ` set (take n ys)) (take n ys) = take n ys"
    by (simp add: filter_id_conv)
  ultimately show ?thesis
    by (metis append.right_neutral append_take_drop_id filter_append)
qed

lemma filter_reap_ids:
  assumes "distinct (map jr_id tbl)"
  shows "filter (\<lambda>r. jr_id r \<in> reap_ids now tbl \<and> lapsed now r) tbl
           = take REAP_LIMIT (filter (lapsed now) tbl)"
proof -
  have "distinct (map jr_id (filter (lapsed now) tbl))"
    using assms by (rule distinct_map_filter)
  from filter_image_take [OF this, of REAP_LIMIT]
  have "filter (\<lambda>r. jr_id r \<in> reap_ids now tbl) (filter (lapsed now) tbl) = take REAP_LIMIT (filter (lapsed now) tbl)"
    unfolding reap_ids_def .
  then show ?thesis by (simp add: conj_commute)
qed

lemma length_filter_split:
  "length (filter (\<lambda>x. P x \<and> Q x) xs) + length (filter (\<lambda>x. P x \<and> \<not> Q x) xs) = length (filter P xs)"
  by (induction xs) auto

lemma reap_counts:
  "fst (reap_zombies m b j now tbl) =
     (length (filter (\<lambda>r. (jr_id r \<in> reap_ids now tbl \<and> lapsed now r) \<and> jr_attempts r < m) tbl),
      length (filter (\<lambda>r. (jr_id r \<in> reap_ids now tbl \<and> lapsed now r) \<and> \<not> jr_attempts r < m) tbl))"
proof -
  let ?g = "\<lambda>r. if jr_id r \<in> reap_ids now tbl \<and> lapsed now r \<and> jr_attempts r < m
      then reap_requeue m b j now r else r"
  have ids: "set (map jr_id (take REAP_LIMIT (filter (lapsed now) tbl))) = reap_ids now tbl"
    by (simp add: reap_ids_def)
  have eq: "(\<lambda>r. jr_id r \<in> reap_ids now tbl \<and> lapsed now r \<and> m \<le> jr_attempts r) \<circ> ?g =
      (\<lambda>r. (jr_id r \<in> reap_ids now tbl \<and> lapsed now r) \<and> \<not> jr_attempts r < m)"
    by (rule ext) (auto simp: requeue_not_lapsed)
  show ?thesis
    unfolding reap_zombies_def Let_def fst_conv ids filter_map length_map eq by (simp only: conj_assoc)
qed

lemma reap_total:
  assumes "distinct (map jr_id tbl)" "reap_zombies m b j now tbl = ((rq, fl), tbl')"
  shows "rq + fl = min REAP_LIMIT (length (filter (lapsed now) tbl))"
proof -
  have "rq + fl = length (filter (\<lambda>r. jr_id r \<in> reap_ids now tbl \<and> lapsed now r) tbl)"
    using reap_counts [of m b j now tbl] assms(2)
      length_filter_split [of "\<lambda>r. jr_id r \<in> reap_ids now tbl \<and> lapsed now r" "\<lambda>r. jr_attempts r < m" tbl]
    by simp
  then show ?thesis unfolding filter_reap_ids [OF assms(1)] by simp
qed

lemma reap_row_not_lapsed: "jr_id r \<in> ids \<Longrightarrow> \<not> lapsed now (reap_row ids m b j now r)"
  by (auto simp: reap_row_def lapsed_def reap_requeue_def reap_abandon_def)

section \<open>Uniqueness of deduplication keys\<close>

lemma find_dedup:
  "distinct (dedup_keys tbl) \<Longrightarrow> r \<in> set tbl \<Longrightarrow> dedup_hit t k r \<Longrightarrow> find (dedup_hit t k) tbl = Some r"
proof (induction tbl)
  case (Cons x tbl)
  show ?case
  proof (cases "dedup_hit t k x")
    case True
    have "\<not> list_ex (dedup_hit t k) tbl"
      using Cons.prems(1) True
      by (auto simp: dedup_keys_mem [symmetric] dedup_keys_def dedup_key_of_def dedup_hit_def)
    with True Cons.prems show ?thesis by (auto simp: list_ex_iff)
  next
    case False
    with Cons show ?thesis by (auto simp: dedup_keys_def)
  qed
qed simp

lemma moves_keep: "moves tbl tbl' \<Longrightarrow> r \<in> set tbl \<Longrightarrow>
    \<exists>r' \<in> set tbl'. same_job r r' \<and> jr_attempts r \<le> jr_attempts r' \<and> (terminal r \<longrightarrow> stays r r')"
  unfolding moves_def
  by (induction rule: list_all2_induct)
    (auto dest: terminal_final lifecycle_same_job lifecycle_attempts stays_fields)

lemma same_job_trans: "same_job a b \<Longrightarrow> same_job b c \<Longrightarrow> same_job a c"
  by (simp add: same_job_def)

text \<open>Every job is still there, as the same job with no fewer attempts, and once it ended the same but for
  its progress.\<close>

definition keeps_job :: "job_row \<Rightarrow> job_row \<Rightarrow> bool" where
  "keeps_job r r' \<longleftrightarrow> same_job r r' \<and> jr_attempts r \<le> jr_attempts r' \<and> (terminal r \<longrightarrow> stays r r')"

definition keeps_jobs :: "job_table \<Rightarrow> job_table \<Rightarrow> bool" where
  "keeps_jobs tbl tbl' \<longleftrightarrow> (\<forall>r \<in> set tbl. \<exists>r' \<in> set tbl'. keeps_job r r')"

lemma keeps_job_trans: "keeps_job a b \<Longrightarrow> keeps_job b c \<Longrightarrow> keeps_job a c"
  unfolding keeps_job_def using stays_fields same_job_trans stays_trans by (metis order_trans)

lemma keeps_jobs_trans: "keeps_jobs a b \<Longrightarrow> keeps_jobs b c \<Longrightarrow> keeps_jobs a c"
  unfolding keeps_jobs_def using keeps_job_trans by metis

lemma step_keeps_jobs:
  assumes "job_step tbl tbl'" "table_ok tbl"
  shows "keeps_jobs tbl tbl'"
proof -
  from assms(2) have "rows_ok tbl" by (simp add: table_ok_def)
  from step_grows [OF assms(1) this] have "moves tbl tbl' \<or> set tbl \<subseteq> set tbl'" by (auto simp: grows_def)
  then show ?thesis using moves_keep by (force simp: keeps_jobs_def keeps_job_def)
qed

interpretation job_machine: tracked_machine job_step table_ok keeps_jobs
proof unfold_locales
  show "keeps_jobs s s" for s by (force simp: keeps_jobs_def keeps_job_def)
qed (blast intro: step_ok keeps_jobs_trans step_keeps_jobs)+

lemmas steps_ok = job_machine.inv_steps
lemmas steps_keep = job_machine.rel_steps [unfolded keeps_jobs_def keeps_job_def, rule_format]

section \<open>Attempts\<close>

text \<open>Workers and reapers under one attempt limit, no pod shutting down, and each failure
  reported with the attempt count of the claim that is held.\<close>

inductive bounded_step :: "nat \<Rightarrow> job_table \<Rightarrow> job_table \<Rightarrow> bool" for M where
  bounded_enqueue: "rid \<notin> jr_id ` set tbl \<Longrightarrow> bounded_step M tbl (snd (enqueue up now rid runId inp tbl))"
| bounded_start: "rid \<notin> jr_id ` set tbl \<Longrightarrow> bounded_step M tbl (run_start up now rid runId jobType prog tbl)"
| bounded_claim: "bounded_step M tbl (snd (cas_claim inp now rid tbl))"
| bounded_renew: "bounded_step M tbl (snd (job_renew up c until now tbl))"
| bounded_complete: "bounded_step M tbl (job_complete up c res now tbl)"
| bounded_cancelled: "bounded_step M tbl (job_cancelled up c res now tbl)"
| bounded_fail: "fi_maxAttempts fi \<le> M \<Longrightarrow>
     (\<forall>r \<in> set tbl. jr_id r = cl_id c \<and> ownerGuard c r \<longrightarrow> fi_attempts fi = jr_attempts r) \<Longrightarrow>
     bounded_step M tbl (snd (job_fail up c fi u cn now tbl))"
| bounded_reap: "m \<le> M \<Longrightarrow> bounded_step M tbl (snd (reapZombies up m b j now tbl))"
| bounded_finish: "s = Succeeded \<or> s = Failed \<or> s = Cancelled \<Longrightarrow>
     bounded_step M tbl (run_finish up runId s res err now tbl)"
| bounded_cancel: "bounded_step M tbl (snd (requestCancel up runId now tbl))"
| bounded_progress: "bounded_step M tbl (updateProgress up runId p tbl)"

definition attempts_ok :: "nat \<Rightarrow> job_row \<Rightarrow> bool" where
  "attempts_ok M r \<longleftrightarrow> jr_attempts r \<le> M \<and> (jr_status r = Pending \<longrightarrow> jr_attempts r < M)"

lemma list_all_map_cond:
  "list_all P xs \<Longrightarrow> (\<And>x. x \<in> set xs \<Longrightarrow> P x \<Longrightarrow> P (g x)) \<Longrightarrow> list_all P (map g xs)"
  by (auto simp: list_all_iff)

lemma attempts_update:
  "list_all (attempts_ok M) tbl \<Longrightarrow>
     (\<And>r. r \<in> set tbl \<Longrightarrow> attempts_ok M r \<Longrightarrow> jr_id r = rid \<Longrightarrow> g r \<Longrightarrow> attempts_ok M (f r)) \<Longrightarrow>
     list_all (attempts_ok M) (snd (update_record rid g f tbl))"
  unfolding update_record_map by (rule list_all_map_cond) auto

lemma attempts_ok_renewed: "attempts_ok M r \<Longrightarrow> attempts_ok M (renewed until now r)"
  by (simp add: attempts_ok_def renewed_def)

lemma attempts_ok_ended: "attempts_ok M r \<Longrightarrow> s \<noteq> Pending \<Longrightarrow> attempts_ok M (ended s res now r)"
  by (simp add: attempts_ok_def ended_def unclaimed_def)

lemma attempts_ok_reap: "m \<le> M \<Longrightarrow> attempts_ok M r \<Longrightarrow> attempts_ok M (reap_row ids m b j now r)"
  by (simp add: attempts_ok_def reap_row_def reap_requeue_def reap_abandon_def)

lemma reapZombies_table: "snd (reapZombies True m b j now tbl) = snd (reap_zombies m b j now tbl)"
  by (simp add: reapZombies_def case_prod_beta)

lemma bounded_step_attempts:
  assumes "0 < M"
  shows "bounded_step M tbl tbl' \<Longrightarrow> list_all (attempts_ok M) tbl \<Longrightarrow> list_all (attempts_ok M) tbl'"
proof (induction rule: bounded_step.induct)
  case bounded_enqueue
  then show ?case using assms
    by (auto simp: enqueue_def new_job_def attempts_ok_def split: option.splits)
next
  case bounded_start
  then show ?case by (auto simp: run_start_def new_job_def attempts_ok_def)
next
  case bounded_claim
  then show ?case unfolding cas_claim_def
    by (rule attempts_update) (simp add: attempts_ok_def claimed_row_def claimable_def)
next
  case (bounded_renew tbl up c until now)
  then show ?case
    by (cases up) (simp_all add: renew_table attempts_update attempts_ok_renewed)
next
  case (bounded_complete tbl up c res now)
  then show ?case
    by (cases up) (simp_all add: complete_table attempts_update attempts_ok_ended)
next
  case (bounded_cancelled tbl up c res now)
  then show ?case
    by (cases up) (simp_all add: cancelled_table attempts_update attempts_ok_ended)
next
  case (bounded_fail fi tbl c up u cn now)
  have "attempts_ok M (fail_effect fi u cn now r)"
    if "r \<in> set tbl" "attempts_ok M r" "jr_id r = cl_id c" "ownerGuard c r" for r
    using that bounded_fail.hyps by (auto simp: attempts_ok_def fail_effect_def unclaimed_def)
  with bounded_fail.prems show ?case
    by (cases up) (simp_all add: fail_table attempts_update)
next
  case (bounded_reap m tbl up b j now)
  have "list_all (attempts_ok M) (snd (reap_zombies m b j now tbl))"
    unfolding reap_table using bounded_reap by (simp add: list_all_map_cond attempts_ok_reap)
  with bounded_reap show ?case by (cases up) (simp_all add: reapZombies_table)
next
  case bounded_finish
  then show ?case by (auto simp: run_finish_def list_all_iff attempts_ok_def)
next
  case bounded_cancel
  then show ?case
    by (auto simp: requestCancel_def Let_def list_all_iff attempts_ok_def cancel_row_def)
next
  case bounded_progress
  then show ?case by (auto simp: updateProgress_def list_all_iff attempts_ok_def)
qed

interpretation bounded_machine: state_machine "bounded_step M" "\<lambda>tbl. 0 < M \<and> list_all (attempts_ok M) tbl" for M
  by unfold_locales (blast intro: bounded_step_attempts)

section \<open>Claims\<close>

lemma candidate_Some:
  assumes "candidate now t tbl = Some c"
  shows "c \<in> set tbl \<and> claimable now c \<and> jr_jobType c = t"
proof -
  let ?xs = "filter (\<lambda>r. claimable now r \<and> jr_jobType r = t) tbl"
  from assms obtain rest where "sort_key jr_visibleAfter ?xs = c # rest"
    by (auto simp: candidate_def split: list.splits)
  then have "c \<in> set (sort_key jr_visibleAfter ?xs)" by (simp only: list.set_intros)
  then show ?thesis by simp
qed

lemma sort_key_Nil_iff: "sort_key f xs = [] \<longleftrightarrow> xs = []"
  by (simp only: length_0_conv [symmetric] length_sort)

lemma candidate_None:
  "candidate now t tbl = None \<longleftrightarrow> (\<forall>r \<in> set tbl. claimable now r \<longrightarrow> jr_jobType r \<noteq> t)"
proof -
  have "candidate now t tbl = None \<longleftrightarrow>
      sort_key jr_visibleAfter (filter (\<lambda>r. claimable now r \<and> jr_jobType r = t) tbl) = []"
    by (simp add: candidate_def split: list.splits)
  then show ?thesis unfolding sort_key_Nil_iff by (auto simp: filter_empty_conv)
qed

lemma cas_row:
  assumes "cas_claim inp now rid tbl = (row # rest, tbl')"
  obtains r where "r \<in> set tbl" "jr_id r = rid" "claimable now r" "row = claimed_row inp now r"
    "row \<in> set tbl'"
proof -
  let ?hit = "\<lambda>r. jr_id r = rid \<and> claimable now r"
  from assms have rows: "map (claimed_row inp now) (filter ?hit tbl) = row # rest"
    and tbl': "tbl' = map (\<lambda>r. if ?hit r then claimed_row inp now r else r) tbl"
    by (simp_all add: cas_claim_def update_record_def Let_def)
  have "row \<in> set (map (claimed_row inp now) (filter ?hit tbl))" unfolding rows by simp
  then obtain r where r: "r \<in> set tbl" "?hit r" "row = claimed_row inp now r" by auto
  from r have "row \<in> set tbl'" unfolding tbl' by (auto intro!: image_eqI [of _ _ r])
  with r show ?thesis using that by blast
qed

text \<open>What a successful claim leaves in the table.\<close>

lemma claim_attempts_Some:
  assumes "claim_attempts n others inp now tbl = (Some c, tbl')"
  shows "\<exists>r \<in> set tbl'. jr_id r = jc_recordId c \<and> jr_status r = Running \<and>
     jr_claimedBy r = Some (ci_me inp) \<and> jr_claimEpoch r = ci_epoch inp \<and>
     jr_leaseUntil r = Some (ci_until inp) \<and> jr_attempts r = jc_attempts c \<and> 0 < jc_attempts c"
  using assms
proof (induction n arbitrary: tbl)
  case (Suc n)
  from Suc.prems obtain d where d: "candidate now (ci_jobType inp) tbl = Some d" "jr_id d \<noteq> []"
    by (auto split: option.splits if_splits)
  obtain rows t where cas: "cas_claim inp now (jr_id d) (others n tbl) = (rows, t)" by fastforce
  note eq = claim_attempts_Suc [where others = others and n = n, OF d cas]
  show ?case
  proof (cases rows)
    case Nil
    from Suc.prems have "claim_attempts n others inp now t = (Some c, tbl')"
      unfolding eq Nil list.case .
    then show ?thesis by (rule Suc.IH)
  next
    case (Cons row rest)
    from Suc.prems have c: "toClaim row (ci_epoch inp) = Some c" "t = tbl'"
      unfolding eq Cons list.case by simp_all
    obtain r where r: "row = claimed_row inp now r" "row \<in> set t"
      using cas unfolding Cons by (rule cas_row)
    with c show ?thesis
      by (auto simp: toClaim_def claimed_row_def split: if_splits intro!: bexI [of _ row])
  qed
qed simp

lemma claim_finds:
  assumes "\<forall>r \<in> set tbl. jr_id r \<noteq> [] \<and> jr_runId r \<noteq> []"
  shows "(fst (claimNext True (\<lambda>_ t. t) inp now tbl) \<noteq> None) =
     (\<exists>r \<in> set tbl. jr_status r = Pending \<and> jr_visibleAfter r \<le> now \<and> jr_jobType r = ci_jobType inp)"
proof (cases "candidate now (ci_jobType inp) tbl")
  case None
  then show ?thesis
    unfolding candidate_None
    by (subst claimNext_def, subst numeral_3_eq_3)
      (auto simp: claimable_def candidate_None [symmetric] None)
next
  case (Some c)
  from candidate_Some [OF Some] have c: "c \<in> set tbl" "claimable now c" "jr_jobType c = ci_jobType inp"
    by simp_all
  obtain rows t where cas: "cas_claim inp now (jr_id c) tbl = (rows, t)" by fastforce
  then have rows: "rows = map (claimed_row inp now) (filter (\<lambda>r. jr_id r = jr_id c \<and> claimable now r) tbl)"
    using update_record_rows [of "jr_id c" "claimable now" "claimed_row inp now" tbl]
    by (simp add: cas_claim_def)
  with c obtain row rest where row: "rows = row # rest"
    by (cases rows) (auto simp: filter_empty_conv)
  with rows have "row \<in> claimed_row inp now ` set tbl" by (auto simp: map_eq_Cons_conv filter_eq_Cons_iff)
  with assms have "toClaim row (ci_epoch inp) \<noteq> None"
    by (auto simp: toClaim_def claimed_row_def)
  moreover have "jr_id c \<noteq> []" using assms c(1) by blast
  ultimately have "fst (claim_attempts (Suc 2) (\<lambda>_ t. t) inp now tbl) \<noteq> None"
    using claim_attempts_Suc [where others = "\<lambda>_ t. t" and n = 2, OF Some _ cas] row by simp
  then have "fst (claimNext True (\<lambda>_ t. t) inp now tbl) \<noteq> None"
    by (simp add: claimNext_def numeral_3_eq_3 numeral_2_eq_2)
  with c show ?thesis by (auto simp: claimable_def)
qed

lemma distinct_id_eq:
  "distinct (map jr_id tbl) \<Longrightarrow> r \<in> set tbl \<Longrightarrow> s \<in> set tbl \<Longrightarrow> jr_id r = jr_id s \<Longrightarrow> r = s"
  by (auto simp: distinct_map dest: inj_onD)

section \<open>Sample data\<close>

definition sample_enqueue :: enqueue_input where
  "sample_enqueue = \<lparr>ei_jobType = ''dreams'', ei_dedupKey = Some ''d1'', ei_payload = None,
     ei_visibleAfter = None, ei_traceparent = None\<rparr>"

definition sample_claim :: claim_input where
  "sample_claim = \<lparr>ci_me = ''pod-a'', ci_jobType = ''dreams'', ci_until = 300, ci_epoch = Some 7\<rparr>"

definition sample_ref :: claim_ref where
  "sample_ref = \<lparr>cl_id = ''job:1'', cl_me = ''pod-a'', cl_epoch = Some 7\<rparr>"

definition sample_jobs :: job_table where
  "sample_jobs = [new_job 0 ''job:1'' ''run-1'' sample_enqueue]"

definition claimed_jobs :: job_table where
  "claimed_jobs = [claimed_row sample_claim 10 (new_job 0 ''job:1'' ''run-1'' sample_enqueue)]"

lemma sample_jobs_reachable: "job_step [] sample_jobs"
proof -
  have "snd (enqueue True 0 ''job:1'' ''run-1'' sample_enqueue []) = sample_jobs"
    by (simp add: enqueue_def sample_enqueue_def sample_jobs_def)
  then show ?thesis using step_enqueue [of "''job:1''" "[]" True 0 "''run-1''" sample_enqueue] by simp
qed

lemma sample_claim_result:
  "claimNext True (\<lambda>_ t. t) sample_claim 10 sample_jobs =
     (Some \<lparr>jc_recordId = ''job:1'', jc_runId = ''run-1'', jc_jobType = ''dreams'', jc_attempts = 1,
           jc_payload = None, jc_leaseUntil = Some 300, jc_claimEpoch = Some 7, jc_traceparent = None\<rparr>,
      claimed_jobs)"
  by code_simp

section \<open>Properties\<close>

text \<open>C3: Along every history of enqueues, claims, renewals, terminal writes, releases, reaps,
  inline runs, progress reports and cancellations, by any number of processes, a job is never lost
  or changed into another, its attempt count never falls, of a finished job (succeeded, failed or
  cancelled) nothing is written any more but its progress, and the table stays well formed: only
  running jobs are held, a held job has a lease, record ids and deduplication keys are unique.\<close>

theorem job_history_safe:
  assumes "job_step\<^sup>*\<^sup>* [] tbl" "job_step\<^sup>*\<^sup>* tbl tbl'" "r \<in> set tbl"
  shows "table_ok tbl' \<and>
     (\<exists>r' \<in> set tbl'. same_job r r' \<and> jr_attempts r \<le> jr_attempts r' \<and>
        (terminal r \<longrightarrow> r' = r\<lparr>jr_progress := jr_progress r'\<rparr>))"
proof -
  have "table_ok []" by (simp add: table_ok_def rows_ok_def dedup_keys_def)
  then have ok: "table_ok tbl" by (rule steps_ok [OF assms(1)])
  show ?thesis using steps_ok [OF assms(2) ok] steps_keep [OF assms(2) ok assms(3)] unfolding stays_def by blast
qed

theorem job_history_safe_witness:
  "job_step\<^sup>*\<^sup>* [] sample_jobs \<and> table_ok sample_jobs \<and> sample_jobs \<noteq> []"
proof -
  have steps: "job_step\<^sup>*\<^sup>* [] sample_jobs" using sample_jobs_reachable by simp
  from job_history_safe [OF steps rtranclp.rtrancl_refl, of "hd sample_jobs"] steps
  show ?thesis by (simp add: sample_jobs_def)
qed



text \<open>C5: A claim is exclusive.  Whatever other clients write between the candidate read and the
  compare-and-set, a claim that is returned holds its record alone: the row is running for
  that process, under that epoch; no other process or
  epoch passes the owner guard on it and no further compare-and-set takes it.\<close>

theorem claim_is_exclusive:
  assumes "claimNext up others inp now tbl = (Some c, tbl')" "distinct (map jr_id tbl')"
  shows "owned \<lparr>cl_id = jc_recordId c, cl_me = ci_me inp, cl_epoch = ci_epoch inp\<rparr> tbl' \<and>
     (\<forall>c2. owned c2 tbl' \<and> cl_id c2 = jc_recordId c \<longrightarrow>
        cl_me c2 = ci_me inp \<and> cl_epoch c2 = ci_epoch inp) \<and>
     cas_claim inp2 now2 (jc_recordId c) tbl' = ([], tbl')"
proof -
  from assms(1) have "claim_attempts 3 others inp now tbl = (Some c, tbl')"
    by (simp add: claimNext_def split: if_splits)
  from claim_attempts_Some [OF this] obtain r where r: "r \<in> set tbl'" "jr_id r = jc_recordId c"
      "jr_status r = Running" "jr_claimedBy r = Some (ci_me inp)" "jr_claimEpoch r = ci_epoch inp"
    by blast
  have only: "s = r" if "s \<in> set tbl'" "jr_id s = jc_recordId c" for s
    using distinct_id_eq [OF assms(2) that(1) r(1)] that(2) r(2) by simp
  have "owned \<lparr>cl_id = jc_recordId c, cl_me = ci_me inp, cl_epoch = ci_epoch inp\<rparr> tbl'"
    using r by (auto simp: owned_def ownerGuard_def)
  moreover have "cl_me c2 = ci_me inp \<and> cl_epoch c2 = ci_epoch inp"
    if "owned c2 tbl'" "cl_id c2 = jc_recordId c" for c2
  proof -
    from that(1) obtain s where s: "s \<in> set tbl'" "jr_id s = cl_id c2" "ownerGuard c2 s"
      by (auto simp: owned_def)
    with that(2) only have "s = r" by simp
    with s(3) r(4,5) show ?thesis by (simp add: ownerGuard_def)
  qed
  moreover have "cas_claim inp2 now2 (jc_recordId c) tbl' = ([], tbl')"
    unfolding cas_claim_def
  proof (rule update_record_miss, intro ballI impI)
    fix s assume "s \<in> set tbl'" "jr_id s = jc_recordId c"
    then have "s = r" by (rule only)
    with r(3) show "\<not> claimable now2 s" by (simp add: claimable_def)
  qed
  ultimately show ?thesis by blast
qed

theorem claim_is_exclusive_witness:
  "fst (claimNext True (\<lambda>_ t. t) sample_claim 10 sample_jobs) \<noteq> None \<and>
   fst (cas_claim (sample_claim\<lparr>ci_me := ''pod-b''\<rparr>) 11 ''job:1'' claimed_jobs) = []"
proof -
  have "distinct (map jr_id claimed_jobs)" by (simp add: claimed_jobs_def)
  from claim_is_exclusive [OF sample_claim_result this, of "sample_claim\<lparr>ci_me := ''pod-b''\<rparr>" 11,
      THEN conjunct2, THEN conjunct2]
  show ?thesis by (simp add: sample_claim_result)
qed

text \<open>The queue makes progress.  Without interference a claim attempt returns a job of the
  type exactly when a pending one of that type is visible (record and run ids being
  non-empty, as the database and the enqueuer draw them).\<close>

theorem claim_makes_progress:
  assumes "\<forall>r \<in> set tbl. jr_id r \<noteq> [] \<and> jr_runId r \<noteq> []"
  shows "(fst (claimNext True (\<lambda>_ t. t) inp now tbl) \<noteq> None) =
     (\<exists>r \<in> set tbl. jr_status r = Pending \<and> jr_visibleAfter r \<le> now \<and> jr_jobType r = ci_jobType inp)"
  using assms by (rule claim_finds)

theorem claim_makes_progress_witness:
  "fst (claimNext True (\<lambda>_ t. t) sample_claim 10 sample_jobs) \<noteq> None"
proof -
  have "\<forall>r \<in> set sample_jobs. jr_id r \<noteq> [] \<and> jr_runId r \<noteq> []"
    by (simp add: sample_jobs_def new_job_def)
  from claim_makes_progress [OF this, of sample_claim 10] show ?thesis
    by (simp add: sample_jobs_def new_job_def sample_enqueue_def sample_claim_def)
qed

text \<open>Attempts are bounded.  With one attempt limit \<open>M\<close> for workers and reapers, no pod handing
  claims back at shutdown and each failure reported on the claim that is held, no job is ever
  claimed more than \<open>M\<close> times, and a job waiting to be claimed has been claimed fewer.\<close>

theorem attempts_bounded:
  assumes "0 < M" "(bounded_step M)\<^sup>*\<^sup>* [] tbl" "r \<in> set tbl"
  shows "jr_attempts r \<le> M \<and> (jr_status r = Pending \<longrightarrow> jr_attempts r < M)"
proof -
  have "list_all (attempts_ok M) tbl"
    using bounded_machine.inv_steps [OF assms(2)] assms(1) by simp
  with assms(3) show ?thesis by (auto simp: list_all_iff attempts_ok_def)
qed

theorem attempts_bounded_witness:
  "(bounded_step 3)\<^sup>*\<^sup>* [] sample_jobs \<and> jr_attempts (hd sample_jobs) \<le> 3"
proof -
  have "snd (enqueue True 0 ''job:1'' ''run-1'' sample_enqueue []) = sample_jobs"
    by (simp add: enqueue_def sample_enqueue_def sample_jobs_def)
  then have "bounded_step 3 [] sample_jobs"
    using bounded_enqueue [of "''job:1''" "[]" 3 True 0 "''run-1''" sample_enqueue] by simp
  then have steps: "(bounded_step 3)\<^sup>*\<^sup>* [] sample_jobs" by simp
  from attempts_bounded [OF _ this, of "hd sample_jobs"] steps show ?thesis
    by (simp add: sample_jobs_def)
qed

text \<open>The reaper takes lapsed leases only.  One call recycles as many rows as there are
  lapsed ones, at most 200, and reports that number; a row without a lapsed lease (an inline
  run has no lease) is left alone; a reaped row is free, pending again exactly while it has
  attempts left and failed otherwise; and the backlog shrinks by what was taken.\<close>

theorem reaper_correct:
  assumes "distinct (map jr_id tbl)" "reap_zombies m b j now tbl = ((rq, fl), tbl')"
  shows "rq + fl = min 200 (length (filter (lapsed now) tbl)) \<and>
     list_all2 (\<lambda>r r'. r' = r \<or>
        lapsed now r \<and> same_job r r' \<and> free r' \<and> jr_attempts r' = jr_attempts r \<and>
        jr_status r' = (if jr_attempts r < m then Pending else Failed)) tbl tbl' \<and>
     length (filter (lapsed now) tbl') = length (filter (lapsed now) tbl) - (rq + fl)"
proof -
  let ?g = "reap_row (reap_ids now tbl) m b j now"
  have tbl': "tbl' = map ?g tbl" using reap_table [of m b j now tbl] assms(2) by simp
  have total: "rq + fl = min REAP_LIMIT (length (filter (lapsed now) tbl))"
    by (rule reap_total [OF assms])
  have rows: "list_all2 (\<lambda>r r'. r' = r \<or>
        lapsed now r \<and> same_job r r' \<and> free r' \<and> jr_attempts r' = jr_attempts r \<and>
        jr_status r' = (if jr_attempts r < m then Pending else Failed)) tbl tbl'"
    unfolding tbl' list.rel_map
    by (rule list.rel_refl) (simp add: reap_row_def reap_requeue_def reap_abandon_def free_def same_job_def)
  have "lapsed now (?g r) \<longleftrightarrow> lapsed now r \<and> jr_id r \<notin> reap_ids now tbl" for r
    by (cases "jr_id r \<in> reap_ids now tbl") (simp_all add: reap_row_not_lapsed, simp add: reap_row_def)
  then have "length (filter (lapsed now) tbl') =
      length (filter (\<lambda>r. lapsed now r \<and> \<not> jr_id r \<in> reap_ids now tbl) tbl)"
    unfolding tbl' filter_map by (simp add: comp_def)
  moreover have "length (filter (\<lambda>r. lapsed now r \<and> jr_id r \<in> reap_ids now tbl) tbl) = rq + fl"
    using filter_reap_ids [OF assms(1), of now] total by (simp add: conj_commute)
  ultimately have "length (filter (lapsed now) tbl') = length (filter (lapsed now) tbl) - (rq + fl)"
    using length_filter_split [of "lapsed now" "\<lambda>r. jr_id r \<in> reap_ids now tbl" tbl] by simp
  with total rows show ?thesis by (simp add: REAP_LIMIT_def)
qed

theorem reaper_correct_witness:
  "fst (reap_zombies 3 30000 (\<lambda>_. 0) 301 claimed_jobs) = (1, 0)"
proof -
  obtain rq fl tbl' where r: "reap_zombies 3 30000 (\<lambda>_. 0) 301 claimed_jobs = ((rq, fl), tbl')"
    by (metis prod.collapse)
  have "distinct (map jr_id claimed_jobs)" by (simp add: claimed_jobs_def)
  from reaper_correct [OF this r] have "rq + fl = 1"
    by (simp add: claimed_jobs_def claimed_row_def sample_claim_def lapsed_def)
  moreover have "rq = 1"
    using reap_counts [of 3 30000 "\<lambda>_. 0" 301 claimed_jobs] r
    by (simp add: reap_ids_def claimed_jobs_def claimed_row_def sample_claim_def lapsed_def
        new_job_def REAP_LIMIT_def)
  ultimately show ?thesis using r by simp
qed

text \<open>A deduplication key is taken for good.  After an enqueue with a (non-empty) key created
  a job, every later enqueue of that type and key, after any history in between and in
  particular after the job finished, creates nothing and answers with that job.\<close>

theorem enqueue_deduplicates:
  assumes "table_ok tbl" "rid \<notin> jr_id ` set tbl"
    and "enqueue True now rid runId inp tbl = (Enqueued run True, tbl1)"
    and "ei_dedupKey inp = Some key" "key \<noteq> []"
    and "job_step\<^sup>*\<^sup>* tbl1 tbl2"
    and "ei_jobType inp2 = ei_jobType inp" "ei_dedupKey inp2 = Some key"
  shows "enqueue True now2 rid2 runId2 inp2 tbl2 = (Enqueued run False, tbl2)"
proof -
  let ?new = "new_job now rid runId inp"
  have "job_step tbl tbl1" using step_enqueue [OF assms(2), of True now runId inp] assms(3) by simp
  then have ok1: "table_ok tbl1" using step_ok assms(1) by blast
  from assms(3,4,5) have new: "?new \<in> set tbl1" "run = runId"
    by (auto simp: enqueue_def findByDedup_def split: if_splits option.splits)
  have ok2: "distinct (dedup_keys tbl2)" using steps_ok [OF assms(6) ok1] by (simp add: table_ok_def)
  from steps_keep [OF assms(6) ok1 new(1)] obtain r where r: "r \<in> set tbl2" "same_job ?new r" by blast
  then have hit: "dedup_hit (ei_jobType inp) key r" "jr_runId r = run"
    using assms(4) new(2) by (simp_all add: same_job_def new_job_def dedup_hit_def)
  then have "list_ex (dedup_hit (ei_jobType inp) key) tbl2" using r(1) by (auto simp: list_ex_iff)
  then show ?thesis
    using find_dedup [OF ok2 r(1) hit(1)] hit(2) assms(5,7,8) by (simp add: enqueue_def findByDedup_def)
qed

theorem enqueue_deduplicates_witness:
  "fst (enqueue True 5 ''job:2'' ''run-2'' sample_enqueue sample_jobs) = Enqueued ''run-1'' False"
proof -
  have "enqueue True 0 ''job:1'' ''run-1'' sample_enqueue [] = (Enqueued ''run-1'' True, sample_jobs)"
    by (simp add: enqueue_def sample_enqueue_def sample_jobs_def)
  from enqueue_deduplicates [OF _ _ this _ _ rtranclp.rtrancl_refl refl, of "''d1''" 5 "''job:2''" "''run-2''"]
  show ?thesis
    by (simp add: table_ok_def rows_ok_def dedup_keys_def sample_enqueue_def)
qed

section \<open>What the guards do not cover\<close>

text \<open>The fence is the epoch of the lease, not the claim.  When a process loses a job to the
  reaper and claims it again within the same epoch, the handler of the first claim still
  passes the guard and can finish the job under the second one.\<close>

lemma sample_backoff: "backoff_ms 30000 (Suc 0) 0 = 15000"
  by (simp add: backoff_ms_def)

lemma reclaim_same_epoch_not_fenced:
  "let reaped = snd (reap_zombies 3 30000 (\<lambda>_. 0) 301 claimed_jobs);
       again = snd (cas_claim (sample_claim\<lparr>ci_until := 50000\<rparr>) 40000 ''job:1'' reaped)
   in map jr_attempts again = [2] \<and> map jr_status again = [Running] \<and>
      map jr_status (job_complete True sample_ref None 40001 again) = [Succeeded]"
  by (simp add: Let_def claimed_jobs_def new_job_def sample_enqueue_def sample_claim_def
      sample_ref_def claimed_row_def reap_table reap_ids_def reap_row_def reap_requeue_def
      REAP_LIMIT_def lapsed_def sample_backoff cas_claim_def update_record_map claimable_def
      complete_table ended_def unclaimed_def ownerGuard_def)

text \<open>A cancellation requested on another process is never seen by the poll of an inline run.\<close>

lemma cancel_poll_blind: "\<not> isCancelRequested False up runId companyId tbl"
proof -
  have "find (\<lambda>_. False) xs = None" for xs :: job_table by (induction xs) simp_all
  then show ?thesis by (simp add: isCancelRequested_def stored_companyId_def)
qed

end
