(* ===== verification/LeaderLease.thy ===== *)
theory LeaderLease imports Prelude begin

text \<open>
  Named leases (\<open>src/jobs/leader-lease.service.ts\<close>): one row per lease name, taken by a
  transaction, read and deleted by point statements, each one step on the table.  \<open>now\<close> is
  the database clock (the client's clock in \<open>isHeld\<close>), \<open>until\<close> the deadline the client
  computed.  \<open>up\<close> tells whether the database answers.
\<close>

record lease_row =
  ll_leaderId :: string
  ll_leaseUntil :: int
  ll_heartbeatAt :: int
  ll_acquiredAt :: int
  ll_epoch :: int

type_synonym lease_table = "string \<rightharpoonup> lease_row"

definition available :: "string \<Rightarrow> int \<Rightarrow> lease_row option \<Rightarrow> bool" where
  "available me now row =
     (case row of None \<Rightarrow> True | Some r \<Rightarrow> ll_leaseUntil r < now \<or> ll_leaderId r = me)"

definition next_epoch :: "string \<Rightarrow> lease_row option \<Rightarrow> int" where
  "next_epoch me row =
     (case row of None \<Rightarrow> 1 | Some r \<Rightarrow> if ll_leaderId r = me then ll_epoch r else ll_epoch r + 1)"

definition taken_row :: "string \<Rightarrow> int \<Rightarrow> int \<Rightarrow> lease_row option \<Rightarrow> lease_row" where
  "taken_row me until now row =
     \<lparr>ll_leaderId = me, ll_leaseUntil = until, ll_heartbeatAt = now,
      ll_acquiredAt = (case row of None \<Rightarrow> now | Some r \<Rightarrow> ll_acquiredAt r),
      ll_epoch = next_epoch me row\<rparr>"

text \<open>The epoch of the lease taken, or None.\<close>

definition acquire ::
    "bool \<Rightarrow> string \<Rightarrow> string \<Rightarrow> int \<Rightarrow> int \<Rightarrow> lease_table \<Rightarrow> int option \<times> lease_table" where
  "acquire up me name until now tbl =
     (if \<not> up then (None, tbl)
      else if available me now (tbl name)
      then (Some (next_epoch me (tbl name)), tbl(name \<mapsto> taken_row me until now (tbl name)))
      else (None, tbl))"

definition tryAcquire ::
    "bool \<Rightarrow> string \<Rightarrow> string \<Rightarrow> int \<Rightarrow> int \<Rightarrow> lease_table \<Rightarrow> bool \<times> lease_table" where
  "tryAcquire up me name until now tbl =
     (case acquire up me name until now tbl of (e, tbl') \<Rightarrow> (e \<noteq> None, tbl'))"

definition isHeld :: "bool \<Rightarrow> string \<Rightarrow> string \<Rightarrow> int option \<Rightarrow> int \<Rightarrow> lease_table \<Rightarrow> bool" where
  "isHeld up me name epoch now tbl =
     (if \<not> up then False
      else case tbl name of
        None \<Rightarrow> False
      | Some r \<Rightarrow>
          if ll_leaderId r \<noteq> me then False
          else if ll_leaseUntil r \<le> now then False
          else (case epoch of None \<Rightarrow> True | Some e \<Rightarrow> ll_epoch r = e))"

definition lease_release :: "bool \<Rightarrow> string \<Rightarrow> string \<Rightarrow> lease_table \<Rightarrow> lease_table" where
  "lease_release up me name tbl =
     (if \<not> up then tbl
      else case tbl name of
        None \<Rightarrow> tbl
      | Some r \<Rightarrow> if ll_leaderId r = me then tbl(name := None) else tbl)"

definition lease_list :: "bool \<Rightarrow> string list \<Rightarrow> lease_table \<Rightarrow> (string \<times> lease_row) list" where
  "lease_list up names tbl =
     (if \<not> up then [] else List.map_filter (\<lambda>n. map_option (Pair n) (tbl n)) names)"

section \<open>Histories\<close>

text \<open>What the other processes may do while \<open>me\<close> holds a lease, with the database clock as part
  of the state.\<close>

inductive others_step :: "string \<Rightarrow> string \<Rightarrow> int \<times> lease_table \<Rightarrow> int \<times> lease_table \<Rightarrow> bool" for me name where
  others_tick: "t \<le> t' \<Longrightarrow> others_step me name (t, tbl) (t', tbl)"
| others_acquire: "who \<noteq> me \<Longrightarrow> others_step me name (t, tbl) (t, snd (acquire up who name until t tbl))"
| others_release: "who \<noteq> me \<Longrightarrow> others_step me name (t, tbl) (t, lease_release up who name tbl)"

text \<open>What all processes may do to a lease nobody releases.\<close>

inductive hold_step :: "string \<Rightarrow> lease_table \<Rightarrow> lease_table \<Rightarrow> bool" for name where
  hold_acquire: "hold_step name tbl (snd (acquire up who name until now tbl))"

inductive_cases others_stepE: "others_step me name s s'"
inductive_cases hold_stepE: "hold_step name tbl tbl'"

lemma others_clock: "(others_step me name)\<^sup>*\<^sup>* s s' \<Longrightarrow> fst s \<le> fst s'"
  by (induction rule: rtranclp_induct) (auto elim!: others_stepE)

lemma others_keep_row:
  assumes "(others_step me name)\<^sup>*\<^sup>* s s'" "snd s name = Some r" "ll_leaderId r = me"
    "fst s' \<le> ll_leaseUntil r"
  shows "snd s' name = Some r"
  using assms(1,4)
proof (induction rule: rtranclp_induct)
  case base
  show ?case by (rule assms(2))
next
  case (step y z)
  from step.hyps(2) have "fst y \<le> fst z" by (auto elim!: others_stepE)
  with step have "snd y name = Some r" "fst y \<le> ll_leaseUntil r" by simp_all
  with step.hyps(2) assms(3) show ?case
    by (auto elim!: others_stepE simp: acquire_def available_def lease_release_def)
qed

text \<open>The row stays and its epoch does not fall; under another holder it has grown.\<close>

definition epoch_grows :: "string \<Rightarrow> lease_table \<Rightarrow> lease_table \<Rightarrow> bool" where
  "epoch_grows name tbl tbl' \<longleftrightarrow>
     (\<forall>r. tbl name = Some r \<longrightarrow> (\<exists>r'. tbl' name = Some r' \<and> ll_epoch r \<le> ll_epoch r' \<and>
        (ll_leaderId r' \<noteq> ll_leaderId r \<longrightarrow> ll_epoch r < ll_epoch r')))"

interpretation hold_machine: tracked_machine "hold_step name" "\<lambda>_. True" "epoch_grows name" for name
proof unfold_locales
  show "epoch_grows name a b \<Longrightarrow> epoch_grows name b c \<Longrightarrow> epoch_grows name a c" for a b c
    by (force simp: epoch_grows_def)
  show "hold_step name a b \<Longrightarrow> epoch_grows name a b" for a b
    by (auto elim!: hold_stepE simp: epoch_grows_def acquire_def taken_row_def next_epoch_def split: if_splits)
qed (auto simp: epoch_grows_def)

lemmas hold_keeps = hold_machine.rel_steps [OF _ TrueI, unfolded epoch_grows_def, rule_format]

section \<open>Properties\<close>

text \<open>C31: A lease excludes.  After a process acquired a lease, whatever the others try and however
  time passes, up to the deadline the row is still the holder's: another process's acquire
  fails and its check says not held, while the holder's check against the epoch it got
  succeeds before the deadline.\<close>

theorem lease_excludes:
  assumes "acquire True me name until t tbl = (Some e, tbl1)"
    and "(others_step me name)\<^sup>*\<^sup>* (t, tbl1) (t2, tbl2)" "t2 \<le> until" "who \<noteq> me"
  shows "fst (acquire up who name u2 t2 tbl2) = None \<and> \<not> isHeld up who name oe now tbl2 \<and>
         (now < until \<longrightarrow> isHeld True me name (Some e) now tbl2)"
proof -
  from assms(1) obtain r where r: "tbl1 name = Some r" "ll_leaderId r = me" "ll_leaseUntil r = until"
      "ll_epoch r = e"
    by (auto simp: acquire_def taken_row_def split: if_splits)
  have "tbl2 name = Some r"
    using others_keep_row [OF assms(2)] r assms(3) by simp
  with r assms(3,4) show ?thesis
    by (auto simp: acquire_def available_def isHeld_def)
qed

theorem lease_excludes_witness:
  "fst (acquire True ''pod-a'' ''worker_loop'' 90 0 Map.empty) = Some 1 \<and>
   fst (acquire True ''pod-b'' ''worker_loop'' 120 30 (snd (acquire True ''pod-a'' ''worker_loop'' 90 0 Map.empty))) = None"
proof -
  obtain tbl1 where a: "acquire True ''pod-a'' ''worker_loop'' 90 0 Map.empty = (Some 1, tbl1)"
    by (simp add: acquire_def available_def next_epoch_def)
  have "(others_step ''pod-a'' ''worker_loop'')\<^sup>*\<^sup>* (0, tbl1) (30, tbl1)"
    by (rule r_into_rtranclp) (rule others_tick, simp)
  from lease_excludes [OF a this, of "''pod-b''" True 120] a show ?thesis by simp
qed

text \<open>While nobody releases a lease its epoch is a fencing token: along any acquisitions it
  never falls and grows whenever the holder changes, so once another process has held the
  lease the check against the old epoch fails for everybody.\<close>

theorem epoch_fences:
  assumes "(hold_step name)\<^sup>*\<^sup>* tbl tbl1" "(hold_step name)\<^sup>*\<^sup>* tbl1 tbl2"
    and "tbl name = Some r" "tbl1 name = Some r1" "ll_leaderId r1 \<noteq> ll_leaderId r"
  shows "\<not> isHeld up who name (Some (ll_epoch r)) now tbl2"
proof -
  from hold_keeps [OF assms(1,3)] assms(4,5) have "ll_epoch r < ll_epoch r1" by auto
  with hold_keeps [OF assms(2,4)] obtain r2 where "tbl2 name = Some r2" "ll_epoch r < ll_epoch r2"
    by auto
  then show ?thesis by (simp add: isHeld_def)
qed

definition lease_a :: lease_table where
  "lease_a = snd (acquire True ''pod-a'' ''worker_loop'' 90 0 Map.empty)"

definition lease_b :: lease_table where
  "lease_b = snd (acquire True ''pod-b'' ''worker_loop'' 190 100 lease_a)"

theorem epoch_fences_witness:
  "\<not> isHeld True ''pod-a'' ''worker_loop'' (Some 1) 101 lease_b"
proof -
  have ab: "(hold_step ''worker_loop'')\<^sup>*\<^sup>* lease_a lease_b"
    unfolding lease_b_def by (rule r_into_rtranclp) (rule hold_acquire)
  obtain r r1 where "lease_a ''worker_loop'' = Some r" "ll_epoch r = 1" "ll_leaderId r = ''pod-a''"
      "lease_b ''worker_loop'' = Some r1" "ll_leaderId r1 = ''pod-b''"
    by (simp add: lease_a_def lease_b_def acquire_def available_def taken_row_def next_epoch_def)
  with epoch_fences [OF ab rtranclp.rtrancl_refl, of r r1] show ?thesis by simp
qed

section \<open>What a release forgets\<close>

text \<open>A release deletes the row and the count with it: the next acquisition, whoever makes it,
  starts again at epoch 1, so a process can hold the same lease twice under one epoch with
  another holder in between.\<close>

lemma release_resets_epoch:
  assumes "tbl name = Some r" "ll_leaderId r = me"
  shows "fst (acquire True who name until now (lease_release True me name tbl)) = Some 1"
  using assms by (simp add: lease_release_def acquire_def available_def next_epoch_def)

lemma epoch_repeats:
  "let a1 = acquire True ''pod-a'' ''worker_loop'' 90 0 Map.empty;
       b = acquire True ''pod-b'' ''worker_loop'' 100 10 (lease_release True ''pod-a'' ''worker_loop'' (snd a1));
       a2 = acquire True ''pod-a'' ''worker_loop'' 110 20 (lease_release True ''pod-b'' ''worker_loop'' (snd b))
   in (fst a1, fst b, fst a2) = (Some 1, Some 1, Some 1)"
  by (simp add: Let_def acquire_def available_def next_epoch_def lease_release_def taken_row_def)

end
