(* ===== verification/BatchOutcome.thy ===== *)
theory BatchOutcome imports EnvFlag JsValue begin

text \<open>
  Terminal status of a batch (\<open>src/common/batch-outcome.ts\<close>): folding units and nested
  batches into one outcome, its one-line description, the outcome a job result carries, and
  the parsing of a retry selector.
\<close>

datatype batch_status = BComplete | BDegraded | BFailed

record batch_failure =
  bf_key :: string
  bf_error :: string

record batch_outcome =
  bo_status :: batch_status
  bo_total :: nat
  bo_succeeded :: nat
  bo_failed :: "batch_failure list"
  bo_degradedBy :: "batch_failure list"

definition ERROR_MAX :: nat where "ERROR_MAX = 500"

definition errorMessage :: "string \<Rightarrow> string" where
  "errorMessage raw = take ERROR_MAX raw"

definition foldBatchOutcome ::
    "nat \<Rightarrow> nat \<Rightarrow> batch_failure list \<Rightarrow> batch_failure list \<Rightarrow> batch_outcome" where
  "foldBatchOutcome tot succeeded failed degradedBy =
     \<lparr>bo_status =
        (if length failed > 0 \<and> succeeded = 0 then BFailed
         else if length failed > 0 \<or> length degradedBy > 0 then BDegraded
         else BComplete),
      bo_total = tot, bo_succeeded = succeeded, bo_failed = failed, bo_degradedBy = degradedBy\<rparr>"

definition emptyBatchOutcome :: batch_outcome where
  "emptyBatchOutcome = foldBatchOutcome 0 0 [] []"

definition failedBatchOutcome :: "string \<Rightarrow> string \<Rightarrow> batch_outcome" where
  "failedBatchOutcome err key =
     \<lparr>bo_status = BFailed, bo_total = 0, bo_succeeded = 0,
      bo_failed = [\<lparr>bf_key = key, bf_error = err\<rparr>], bo_degradedBy = []\<rparr>"

definition status_text :: "batch_status \<Rightarrow> string" where
  "status_text s = (case s of BComplete \<Rightarrow> ''complete'' | BDegraded \<Rightarrow> ''degraded'' | BFailed \<Rightarrow> ''failed'')"

text \<open>The em dash of the message, as its UTF-8 bytes.\<close>

definition em_dash :: string where
  "em_dash = [CHR 0xE2, CHR 0x80, CHR 0x94]"

definition describeBatchOutcome :: "batch_outcome \<Rightarrow> string" where
  "describeBatchOutcome b =
     (let head = status_text (bo_status b) @ '': '' @ string_of_nat (bo_succeeded b) @ '' of '' @
            string_of_nat (bo_total b) @ '' unit(s) succeeded'';
          first = (case bo_failed b of
              f # _ \<Rightarrow> Some f
            | [] \<Rightarrow> (case bo_degradedBy b of f # _ \<Rightarrow> Some f | [] \<Rightarrow> None))
      in case first of
           None \<Rightarrow> head
         | Some f \<Rightarrow>
             (let counts = string_of_nat (length (bo_failed b)) @ '' failed'' @
                    (if length (bo_degradedBy b) > 0
                     then '', '' @ string_of_nat (length (bo_degradedBy b)) @ '' degrading'' else [])
              in head @ '' ('' @ counts @ ''); first: '' @ bf_key f @ '' '' @ em_dash @ '' '' @ bf_error f))"

text \<open>The loop over nested batches: failed units, degrading parts, and how many succeeded.\<close>

fun fold_parts ::
    "(string \<times> batch_outcome) list \<Rightarrow> batch_failure list \<times> batch_failure list \<times> nat \<Rightarrow>
     batch_failure list \<times> batch_failure list \<times> nat" where
  "fold_parts [] acc = acc"
| "fold_parts ((key, b) # ps) (failed, degradedBy, succeeded) =
     (let entry = \<lparr>bf_key = key, bf_error = describeBatchOutcome b\<rparr>
      in if bo_status b = BFailed then fold_parts ps (failed @ [entry], degradedBy, succeeded)
         else fold_parts ps
           (failed, if bo_status b = BDegraded then degradedBy @ [entry] else degradedBy, succeeded + 1))"

definition foldNestedOutcomes :: "(string \<times> batch_outcome) list \<Rightarrow> batch_outcome" where
  "foldNestedOutcomes parts =
     (case fold_parts parts ([], [], 0) of
        (failed, degradedBy, succeeded) \<Rightarrow> foldBatchOutcome (length parts) succeeded failed degradedBy)"

section \<open>The outcome inside a job result\<close>

text \<open>The fields beside \<open>status\<close> and \<open>failed\<close> are not checked by the code; where they do not have
  their declared type they read here as zero or empty, and the program may print them
  differently or throw when it describes the batch.\<close>

definition read_nat :: "jval \<Rightarrow> nat" where
  "read_nat v = (case v of JNum (JFin q) \<Rightarrow> nat \<lfloor>q\<rfloor> | _ \<Rightarrow> 0)"

definition read_str :: "jval \<Rightarrow> string" where
  "read_str v = (case v of JStr s \<Rightarrow> s | _ \<Rightarrow> [])"

definition read_failures :: "jval \<Rightarrow> batch_failure list" where
  "read_failures v = (case v of
      JArr xs \<Rightarrow> map (\<lambda>x. \<lparr>bf_key = read_str (jget x ''key''), bf_error = read_str (jget x ''error'')\<rparr>) xs
    | _ \<Rightarrow> [])"

definition read_status :: "jval \<Rightarrow> batch_status option" where
  "read_status v =
     (if v = JStr ''complete'' then Some BComplete
      else if v = JStr ''degraded'' then Some BDegraded
      else if v = JStr ''failed'' then Some BFailed
      else None)"

definition is_array :: "jval \<Rightarrow> bool" where
  "is_array v = (case v of JArr _ \<Rightarrow> True | _ \<Rightarrow> False)"

definition batchOutcomeOf :: "jval \<Rightarrow> batch_outcome option" where
  "batchOutcomeOf result =
     (if \<not> is_object result then None
      else let o1 = jget result ''outcome''
           in if \<not> is_object o1 then None
              else case read_status (jget o1 ''status'') of
                None \<Rightarrow> None
              | Some s \<Rightarrow>
                  if is_array (jget o1 ''failed'')
                  then Some \<lparr>bo_status = s, bo_total = read_nat (jget o1 ''total''),
                             bo_succeeded = read_nat (jget o1 ''succeeded''),
                             bo_failed = read_failures (jget o1 ''failed''),
                             bo_degradedBy = read_failures (jget o1 ''degradedBy'')\<rparr>
                  else None)"

section \<open>Retry selectors\<close>

datatype keys_result = KeysAbsent | KeysBad | Keys "string list"

definition parseBatchKeys :: "jval \<Rightarrow> nat \<Rightarrow> nat \<Rightarrow> (string \<Rightarrow> bool) \<Rightarrow> keys_result" where
  "parseBatchKeys raw maxKeys maxLength accept =
     (case raw of
        JUndef \<Rightarrow> KeysAbsent
      | JArr xs \<Rightarrow>
          if xs = [] \<or> maxKeys < length xs then KeysBad
          else (let keys = map (\<lambda>k. case k of JStr s \<Rightarrow> trim s | _ \<Rightarrow> []) xs
                in if list_ex (\<lambda>k. k = [] \<or> maxLength < length k \<or> \<not> accept k) keys then KeysBad
                   else Keys (dedupe keys))
      | _ \<Rightarrow> KeysBad)"

section \<open>Facts\<close>

lemma fold_parts_eq:
  "fold_parts ps (f, d, n) =
     (f @ map (\<lambda>(k, b). \<lparr>bf_key = k, bf_error = describeBatchOutcome b\<rparr>) (filter (\<lambda>p. bo_status (snd p) = BFailed) ps),
      d @ map (\<lambda>(k, b). \<lparr>bf_key = k, bf_error = describeBatchOutcome b\<rparr>) (filter (\<lambda>p. bo_status (snd p) = BDegraded) ps),
      n + length (filter (\<lambda>p. bo_status (snd p) \<noteq> BFailed) ps))"
  by (induction ps arbitrary: f d n) (auto simp: Let_def)

section \<open>Properties\<close>

text \<open>A nested batch reports what its parts report.  It fails exactly when some part failed and
  none succeeded, is complete exactly when every part is, and is degraded otherwise; the parts
  to retry are listed by key, in order, and each part is either a success or a failure.\<close>

theorem nested_outcome:
  "(bo_status (foldNestedOutcomes ps) = BFailed) =
     (ps \<noteq> [] \<and> list_all (\<lambda>p. bo_status (snd p) = BFailed) ps) \<and>
   (bo_status (foldNestedOutcomes ps) = BComplete) = list_all (\<lambda>p. bo_status (snd p) = BComplete) ps \<and>
   map bf_key (bo_failed (foldNestedOutcomes ps)) = map fst (filter (\<lambda>p. bo_status (snd p) = BFailed) ps) \<and>
   bo_succeeded (foldNestedOutcomes ps) + length (bo_failed (foldNestedOutcomes ps)) = length ps"
proof -
  have sum: "length (filter (\<lambda>p. bo_status (snd p) \<noteq> BFailed) ps) +
      length (filter (\<lambda>p. bo_status (snd p) = BFailed) ps) = length ps"
    using sum_length_filter_compl [of "\<lambda>p. bo_status (snd p) = BFailed" ps] by simp
  have all: "list_all (\<lambda>p. bo_status (snd p) = BComplete) ps \<longleftrightarrow>
      filter (\<lambda>p. bo_status (snd p) = BFailed) ps = [] \<and> filter (\<lambda>p. bo_status (snd p) = BDegraded) ps = []"
    by (auto simp: list_all_iff filter_empty_conv intro: batch_status.exhaust)
  have failed: "ps \<noteq> [] \<and> list_all (\<lambda>p. bo_status (snd p) = BFailed) ps \<longleftrightarrow>
      filter (\<lambda>p. bo_status (snd p) = BFailed) ps \<noteq> [] \<and> filter (\<lambda>p. bo_status (snd p) \<noteq> BFailed) ps = []"
    by (cases ps) (auto simp: list_all_iff filter_empty_conv)
  have keys: "map (\<lambda>(k, b). \<lparr>bf_key = k, bf_error = describeBatchOutcome b\<rparr>) xs =
      map (\<lambda>p. \<lparr>bf_key = fst p, bf_error = describeBatchOutcome (snd p)\<rparr>) xs" for xs
    by (simp add: case_prod_beta)
  show ?thesis
    unfolding all failed foldNestedOutcomes_def fold_parts_eq keys
    using sum by (simp add: foldBatchOutcome_def comp_def)
qed

end
