(* ===== verification/JobDispatch.thy ===== *)
theory JobDispatch imports JobQueue LeaderLease BatchOutcome begin

text \<open>
  Running one claimed job (\<open>src/jobs/job-dispatcher.service.ts\<close>) and the leadership of the
  worker loop (\<open>src/jobs/worker-loop.service.ts\<close>).  A dispatch is the sequence of renewal
  results its timer saw before the handler settled, and how the handler settled; tracing,
  metrics and the choice of thread are left out.
\<close>

section \<open>Renewals\<close>

record dispatch_flags =
  df_cancelRequested :: bool
  df_lostClaim :: bool
  df_aborts :: nat   \<comment> \<open>calls of the handler's abort by the renewal timer\<close>

text \<open>One tick: the result of \<open>renew\<close> is (still owned, cancel requested).\<close>

definition renew_tick :: "bool \<times> bool \<Rightarrow> dispatch_flags \<Rightarrow> dispatch_flags" where
  "renew_tick res fl =
     (case res of (stillOwned, cancelRequested) \<Rightarrow>
        if \<not> stillOwned then fl\<lparr>df_lostClaim := True, df_aborts := df_aborts fl + 1\<rparr>
        else if cancelRequested \<and> \<not> df_cancelRequested fl
        then fl\<lparr>df_cancelRequested := True, df_aborts := df_aborts fl + 1\<rparr>
        else fl)"

definition renewIntervalMs :: "nat \<Rightarrow> nat" where
  "renewIntervalMs ttlSeconds = max 1000 ((ttlSeconds * 1000) div 3)"

section \<open>The terminal write\<close>

datatype settled = Returned "jval option" | Threw job_error

datatype terminal_write =
    WriteNothing
  | WriteCancelled "jval option"
  | WriteComplete "jval option"
  | WriteFail job_error "jval option"

datatype job_outcome = OutSucceeded | OutFailed | OutCancelled | OutLostClaim

definition settle :: "jval option \<Rightarrow> terminal_write \<times> job_outcome" where
  "settle result =
     (case batchOutcomeOf (case result of None \<Rightarrow> JUndef | Some v \<Rightarrow> v) of
        Some b \<Rightarrow>
          if bo_status b = BFailed
          then (WriteFail \<lparr>je_name = ''BatchFailed'', je_message = describeBatchOutcome b\<rparr> result, OutFailed)
          else (WriteComplete result, OutSucceeded)
      | None \<Rightarrow> (WriteComplete result, OutSucceeded))"

definition cancel_result :: "job_error \<Rightarrow> jval" where
  "cancel_result e = JObj [(''reason'', JStr ''cancel_requested''), (''message'', JStr (je_message e))]"

definition dispatchBody :: "(bool \<times> bool) list \<Rightarrow> settled \<Rightarrow> terminal_write \<times> job_outcome" where
  "dispatchBody renewals how =
     (let fl = fold renew_tick renewals \<lparr>df_cancelRequested = False, df_lostClaim = False, df_aborts = 0\<rparr>
      in case how of
           Returned result \<Rightarrow>
             if df_cancelRequested fl then (WriteCancelled result, OutCancelled)
             else if df_lostClaim fl then (WriteNothing, OutLostClaim)
             else settle result
         | Threw e \<Rightarrow>
             if df_cancelRequested fl then (WriteCancelled (Some (cancel_result e)), OutCancelled)
             else if df_lostClaim fl then (WriteNothing, OutLostClaim)
             else (WriteFail e None, OutFailed))"

text \<open>The write, on the job table.\<close>

definition apply_write ::
    "claim_ref \<Rightarrow> nat \<Rightarrow> nat \<Rightarrow> rat \<Rightarrow> int \<Rightarrow> int \<Rightarrow> terminal_write \<Rightarrow> job_table \<Rightarrow> job_table" where
  "apply_write c attempts maxAttempts u clientNow now w tbl =
     (case w of
        WriteNothing \<Rightarrow> tbl
      | WriteCancelled res \<Rightarrow> job_cancelled True c res now tbl
      | WriteComplete res \<Rightarrow> job_complete True c res now tbl
      | WriteFail e res \<Rightarrow>
          snd (job_fail True c \<lparr>fi_attempts = attempts, fi_error = e, fi_requeue = True,
                 fi_maxAttempts = maxAttempts, fi_baseMs = 30000, fi_result = res\<rparr> u clientNow now tbl))"

section \<open>Leadership of the worker loop\<close>

record loop_state =
  ls_isLeader :: bool
  ls_epoch :: "int option"
  ls_loopsStarted :: bool

definition WORKER_LOOP :: string where "WORKER_LOOP = ''worker_loop''"

text \<open>The renewal tick: acquire, remember the result, start the loops when leading.  Without a
  lease service (\<open>hasLease\<close> false) the process always leads, under no epoch; after shutdown
  began (\<open>aborted\<close>) the tick does nothing.\<close>

definition tryBecomeLeader ::
    "bool \<Rightarrow> bool \<Rightarrow> bool \<Rightarrow> string \<Rightarrow> int \<Rightarrow> int \<Rightarrow> loop_state \<times> lease_table \<Rightarrow> loop_state \<times> lease_table" where
  "tryBecomeLeader aborted hasLease up me until now s =
     (case s of (st, tbl) \<Rightarrow>
        if aborted then (st, tbl)
        else (let (lead, e, tbl') =
               (if \<not> hasLease then (True, None, tbl)
                else case acquire up me WORKER_LOOP until now tbl of
                  (e, tbl') \<Rightarrow> (e \<noteq> None, e, tbl'))
         in (st\<lparr>ls_isLeader := lead, ls_epoch := e, ls_loopsStarted := ls_loopsStarted st \<or> lead\<rparr>, tbl')))"

definition confirmLeader ::
    "bool \<Rightarrow> bool \<Rightarrow> string \<Rightarrow> int \<Rightarrow> lease_table \<Rightarrow> loop_state \<Rightarrow> bool \<times> loop_state" where
  "confirmLeader hasLease up me clientNow tbl st =
     (if \<not> hasLease then (ls_isLeader st, st)
      else if \<not> ls_isLeader st then (False, st)
      else (let held = isHeld up me WORKER_LOOP (ls_epoch st) clientNow tbl
            in (held, if held then st else st\<lparr>ls_isLeader := False, ls_epoch := None\<rparr>)))"

text \<open>All poll loops have settled.\<close>

definition loops_settled :: "loop_state \<Rightarrow> loop_state" where
  "loops_settled st = st\<lparr>ls_loopsStarted := False\<rparr>"

text \<open>Shutdown gives the lease back when it is ours.\<close>

definition loop_shutdown :: "bool \<Rightarrow> bool \<Rightarrow> string \<Rightarrow> loop_state \<times> lease_table \<Rightarrow> lease_table" where
  "loop_shutdown hasLease up me s =
     (case s of (st, tbl) \<Rightarrow>
        if ls_isLeader st \<and> hasLease then lease_release up me WORKER_LOOP tbl else tbl)"

section \<open>Facts\<close>

lemma flags_fold:
  "df_cancelRequested (fold renew_tick rs fl) = (df_cancelRequested fl \<or> (True, True) \<in> set rs)"
  "df_lostClaim (fold renew_tick rs fl) = (df_lostClaim fl \<or> (\<exists>b. (False, b) \<in> set rs))"
  by (induction rs arbitrary: fl) (auto simp: renew_tick_def split: prod.splits if_splits)

lemma settle_never_nothing: "fst (settle result) \<noteq> WriteNothing"
  by (auto simp: settle_def split: option.splits)

lemma settle_fails_iff:
  "snd (settle result) = OutFailed \<longleftrightarrow>
     (\<exists>b. batchOutcomeOf (case result of None \<Rightarrow> JUndef | Some v \<Rightarrow> v) = Some b \<and> bo_status b = BFailed)"
  by (auto simp: settle_def split: option.splits if_splits)

text \<open>How a dispatch ends is decided by what its renewals saw: an operator's cancel, seen while
  the claim was held, always ends in a cancellation; otherwise a lost claim ends without any
  write; otherwise a throw, or a result that carries a failed batch, ends as a failure and
  any other result as a success.\<close>

lemma dispatch_terminal_write:
  "dispatchBody rs how =
     (if (True, True) \<in> set rs
      then (WriteCancelled (case how of Returned res \<Rightarrow> res | Threw e \<Rightarrow> Some (cancel_result e)), OutCancelled)
      else if (False, False) \<in> set rs \<or> (False, True) \<in> set rs then (WriteNothing, OutLostClaim)
      else case how of
        Threw e \<Rightarrow> (WriteFail e None, OutFailed)
      | Returned res \<Rightarrow>
          (case batchOutcomeOf (case res of None \<Rightarrow> JUndef | Some v \<Rightarrow> v) of
             Some b \<Rightarrow> if bo_status b = BFailed
               then (WriteFail \<lparr>je_name = ''BatchFailed'', je_message = describeBatchOutcome b\<rparr> res, OutFailed)
               else (WriteComplete res, OutSucceeded)
           | None \<Rightarrow> (WriteComplete res, OutSucceeded)))"
proof -
  have "(\<exists>b. (False, b) \<in> set rs) \<longleftrightarrow> (False, False) \<in> set rs \<or> (False, True) \<in> set rs"
    by (metis (full_types))
  then show ?thesis
    by (simp add: dispatchBody_def Let_def flags_fold settle_def split: settled.splits)
qed

text \<open>The state a dispatch leaves its job in, when its claim still holds.\<close>

definition final_status :: "(bool \<times> bool) list \<Rightarrow> settled \<Rightarrow> nat \<Rightarrow> nat \<Rightarrow> job_status" where
  "final_status rs how attempts maxAttempts =
     (if (True, True) \<in> set rs then Cancelled
      else let bad = (case how of Threw _ \<Rightarrow> True
             | Returned res \<Rightarrow> (case batchOutcomeOf (case res of None \<Rightarrow> JUndef | Some v \<Rightarrow> v) of
                 Some b \<Rightarrow> bo_status b = BFailed | None \<Rightarrow> False))
           in if \<not> bad then Succeeded else if attempts < maxAttempts then Pending else Failed)"

lemma written_row:
  assumes "r \<in> set tbl" "jr_id r = cl_id c" "ownerGuard c r" "w \<noteq> WriteNothing"
  shows "\<exists>r' \<in> set (apply_write c attempts maxAttempts u cn now w tbl). same_job r r' \<and> free r' \<and>
     jr_attempts r' = jr_attempts r \<and>
     jr_status r' = (case w of WriteCancelled _ \<Rightarrow> Cancelled | WriteComplete _ \<Rightarrow> Succeeded
       | _ \<Rightarrow> if attempts < maxAttempts then Pending else Failed)"
proof (cases w)
  case (WriteCancelled res)
  show ?thesis
    by (rule bexI [of _ "ended Cancelled res now r"])
      (use WriteCancelled cancelled.put_owned [OF assms(1-3), of res now] in
        \<open>simp_all add: apply_write_def ended_def unclaimed_def same_job_def free_def\<close>)
next
  case (WriteComplete res)
  show ?thesis
    by (rule bexI [of _ "ended Succeeded res now r"])
      (use WriteComplete complete.put_owned [OF assms(1-3), of res now] in
        \<open>simp_all add: apply_write_def ended_def unclaimed_def same_job_def free_def\<close>)
next
  case (WriteFail e res)
  let ?inp = "\<lparr>fi_attempts = attempts, fi_error = e, fi_requeue = True, fi_maxAttempts = maxAttempts,
    fi_baseMs = 30000, fi_result = res\<rparr>"
  show ?thesis
    by (rule bexI [of _ "fail_effect ?inp u cn now r"])
      (use WriteFail fail.put_owned [OF assms(1-3), of ?inp u cn now] in
        \<open>simp_all add: apply_write_def fail_effect_def unclaimed_def same_job_def free_def\<close>)
qed (use assms(4) in simp)

section \<open>Properties\<close>

text \<open>A dispatch ends its job.  When every renewal found the claim held and it is held at the
  end, the terminal write leaves the same job free of the claim: cancelled if an operator
  asked for it during the run, whatever the handler returned or threw; otherwise succeeded
  unless the handler threw or its result carries a failed batch, and then pending again
  while attempts are left and failed at the limit.\<close>

theorem dispatch_ends_job:
  assumes "r \<in> set tbl" "jr_id r = cl_id c" "ownerGuard c r"
    and "(False, False) \<notin> set rs" "(False, True) \<notin> set rs"
  shows "\<exists>r' \<in> set (apply_write c attempts maxAttempts u cn now (fst (dispatchBody rs how)) tbl).
     same_job r r' \<and> free r' \<and> jr_attempts r' = jr_attempts r \<and>
     jr_status r' = final_status rs how attempts maxAttempts"
proof -
  have "fst (dispatchBody rs how) \<noteq> WriteNothing"
    using assms(4,5) unfolding dispatch_terminal_write by (simp split: settled.splits option.splits)
  from written_row [OF assms(1-3) this, of attempts maxAttempts u cn now] assms(4,5) show ?thesis
    unfolding dispatch_terminal_write final_status_def Let_def
    by (simp split: settled.splits option.splits if_splits)
qed

theorem dispatch_ends_job_witness:
  "\<exists>r \<in> set (apply_write sample_ref 1 3 0 0 20
       (fst (dispatchBody [(True, False)] (Threw \<lparr>je_name = ''Error'', je_message = ''boom''\<rparr>))) claimed_jobs).
     jr_status r = Pending"
proof -
  let ?r = "claimed_row sample_claim 10 (new_job 0 ''job:1'' ''run-1'' sample_enqueue)"
  have "?r \<in> set claimed_jobs" "jr_id ?r = cl_id sample_ref" "ownerGuard sample_ref ?r"
    by (simp_all add: claimed_jobs_def claimed_row_def new_job_def sample_ref_def ownerGuard_def sample_claim_def)
  from dispatch_ends_job [OF this, of "[(True, False)]" 1 3 0 0 20 "Threw \<lparr>je_name = ''Error'', je_message = ''boom''\<rparr>"]
  show ?thesis by (auto simp: final_status_def)
qed

text \<open>A worker claims only as the confirmed leader.  When the point read before a claim
  succeeds on a lease-backed worker, the process's row is in the lease table, unexpired and
  at the epoch the worker stamps on its claims; when it fails the worker no longer leads.\<close>

theorem confirmed_leader_holds_lease:
  "case confirmLeader True up me now tbl st of
     (True, st') \<Rightarrow> st' = st \<and> up \<and>
       (case tbl WORKER_LOOP of None \<Rightarrow> False
        | Some r \<Rightarrow> ll_leaderId r = me \<and> now < ll_leaseUntil r \<and>
            (case ls_epoch st of None \<Rightarrow> True | Some e \<Rightarrow> ll_epoch r = e))
   | (False, st') \<Rightarrow> \<not> ls_isLeader st'"
  by (auto simp: confirmLeader_def isHeld_def Let_def split: option.splits if_splits)

end
