(* ===== verification/WorkerPoller.thy ===== *)
theory WorkerPoller imports JobQueue EnvFlag "HOL-Library.Multiset" begin

text \<open>
  The poll loops of one worker process (\<open>src/jobs/worker-poller.service.ts\<close>): the caps read
  from the environment, the fair order of tenants, one claim cycle over them (through
  \<open>claimNext\<close> on each tenant's job table), and the bookkeeping of the bounded loop that runs
  several dispatches at once.  The program's counter keys \<open>jobType::companyId\<close> are pairs here
  (no job type contains a colon).  Waiting and logging are left out; a cycle, the end of a
  cycle and the end of a dispatch are the synchronous blocks between two awaits.
\<close>

section \<open>Caps from the environment\<close>

record conc_limits =
  lm_maxConcurrent :: nat
  lm_tenantMax :: nat
  lm_globalMax :: nat

definition is_digit :: "char \<Rightarrow> bool" where
  "is_digit c \<longleftrightarrow> 48 \<le> (of_char c :: nat) \<and> (of_char c :: nat) \<le> 57"

definition parse_digits :: "string \<Rightarrow> nat" where
  "parse_digits s = foldl (\<lambda>n c. 10 * n + (of_char c - 48)) 0 s"

definition readIntEnv :: "string option \<Rightarrow> nat option" where
  "readIntEnv raw =
     (case raw of
        None \<Rightarrow> None
      | Some s \<Rightarrow> if trim s \<noteq> [] \<and> list_all is_digit (trim s) then Some (parse_digits (trim s)) else None)"

definition upper_char :: "char \<Rightarrow> char" where
  "upper_char c = (if 97 \<le> (of_char c :: nat) \<and> (of_char c :: nat) \<le> 122
     then char_of (of_char c - (32::nat)) else c)"

definition type_suffix :: "string \<Rightarrow> string" where
  "type_suffix jobType = map (\<lambda>c. let u = upper_char c
     in if is_digit u \<or> 65 \<le> (of_char u :: nat) \<and> (of_char u :: nat) \<le> 90 then u else CHR ''_'') jobType"

text \<open>\<open>a ?? b ?? c\<close> on optional numbers.\<close>

definition first_set :: "nat option list \<Rightarrow> nat \<Rightarrow> nat" where
  "first_set xs dflt = (case List.map_filter id xs of [] \<Rightarrow> dflt | n # _ \<Rightarrow> n)"

definition concurrencyLimits :: "(string \<Rightarrow> string option) \<Rightarrow> string \<Rightarrow> conc_limits" where
  "concurrencyLimits env jobType =
     (let perType = readIntEnv (env (''WORKER_LOOP_MAX_CONCURRENT_'' @ type_suffix jobType));
          fallback = readIntEnv (env ''WORKER_LOOP_MAX_CONCURRENT'')
      in \<lparr>lm_maxConcurrent = max 1 (first_set [perType, fallback] 1),
          lm_tenantMax = max 1 (first_set [readIntEnv (env ''WORKER_LOOP_TENANT_MAX_CONCURRENT'')] 1),
          lm_globalMax = first_set [readIntEnv (env ''WORKER_LOOP_GLOBAL_MAX_CONCURRENT'')] 0\<rparr>)"

text \<open>With the defaults the loop takes the serial path.\<close>

definition runs_serial :: "conc_limits \<Rightarrow> bool" where
  "runs_serial limits \<longleftrightarrow> lm_maxConcurrent limits \<le> 1 \<and> lm_globalMax limits = 0"

section \<open>State\<close>

type_synonym dispatched = "string \<times> job_claim"   \<comment> \<open>tenant and claim\<close>

text \<open>The local variables of one job type's loop: the dispatches in flight, the tenants of the
  claim cycle it is waiting for, and the claim of the serial loop.\<close>

record loop_local =
  lo_inFlight :: "dispatched list"
  lo_cycle :: "string list option"
  lo_claimed :: "dispatched option"

record poller =
  po_recentClaims :: "((string \<times> string) \<times> nat) list"
  po_inFlightByTenant :: "string \<times> string \<rightharpoonup> nat"
  po_globalInFlight :: int
  po_active :: "dispatched list"
  po_loop :: "string \<Rightarrow> loop_local"

definition poller_new :: poller where
  "poller_new = \<lparr>po_recentClaims = [], po_inFlightByTenant = Map.empty, po_globalInFlight = 0,
     po_active = [], po_loop = (\<lambda>_. \<lparr>lo_inFlight = [], lo_cycle = None, lo_claimed = None\<rparr>)\<rparr>"

definition recent_of :: "string \<Rightarrow> poller \<Rightarrow> string \<Rightarrow> nat" where
  "recent_of jobType st co =
     (case map_of (po_recentClaims st) (jobType, co) of None \<Rightarrow> 0 | Some n \<Rightarrow> n)"

definition tenant_of :: "string \<Rightarrow> poller \<Rightarrow> string \<Rightarrow> nat" where
  "tenant_of jobType st co =
     (case po_inFlightByTenant st (jobType, co) of None \<Rightarrow> 0 | Some n \<Rightarrow> n)"

section \<open>Fairness\<close>

definition decay :: "poller \<Rightarrow> poller" where
  "decay st = st\<lparr>po_recentClaims :=
     List.map_filter (\<lambda>(key, n). if n div 2 = 0 then None else Some (key, n div 2)) (po_recentClaims st)\<rparr>"

definition recordClaim :: "string \<Rightarrow> string \<Rightarrow> poller \<Rightarrow> poller" where
  "recordClaim jobType companyId st =
     st\<lparr>po_recentClaims :=
       AList.update (jobType, companyId) (min (recent_of jobType st companyId + 1) 64) (po_recentClaims st)\<rparr>"

text \<open>\<open>draw i\<close> is the random number drawn for the i-th tenant; the key \<open>u\<close> to the power of one
  over the weight is \<open>u\<close> to the power of one plus the recent claims.\<close>

definition sampleByFairness :: "string \<Rightarrow> string list \<Rightarrow> (nat \<Rightarrow> rat) \<Rightarrow> poller \<Rightarrow> string list" where
  "sampleByFairness jobType tenants draw st =
     (if length tenants \<le> 1 then tenants
      else map fst (sort_key (\<lambda>p. - snd p)
             (map (\<lambda>(i, co). (co, draw i ^ (1 + recent_of jobType st co))) (enumerate 0 tenants))))"

section \<open>One claim cycle\<close>

text \<open>\<open>cy_stop k\<close>: the process is shutting down or no longer leads when \<open>k\<close> tenants are left to
  try.\<close>

record cycle_env =
  cy_stop :: "nat \<Rightarrow> bool"
  cy_up :: "string \<Rightarrow> bool"
  cy_others :: "string \<Rightarrow> nat \<Rightarrow> job_table \<Rightarrow> job_table"
  cy_input :: "string \<Rightarrow> claim_input"
  cy_now :: "string \<Rightarrow> int"

type_synonym tenant_tables = "string \<Rightarrow> job_table"

fun claim_over ::
    "cycle_env \<Rightarrow> string list \<Rightarrow> tenant_tables \<Rightarrow> dispatched option \<times> tenant_tables" where
  "claim_over e [] tbls = (None, tbls)"
| "claim_over e (co # cs) tbls =
     (if cy_stop e (length cs) then (None, tbls)
      else case claimNext (cy_up e co) (cy_others e co) (cy_input e co) (cy_now e co) (tbls co) of
        (Some c, t) \<Rightarrow> (Some (co, c), tbls(co := t))
      | (None, t) \<Rightarrow> claim_over e cs (tbls(co := t)))"

section \<open>The bounded loop\<close>

definition saturated :: "nat \<Rightarrow> conc_limits \<Rightarrow> poller \<Rightarrow> bool" where
  "saturated inFlightSize limits st \<longleftrightarrow>
     lm_maxConcurrent limits \<le> inFlightSize \<or>
     lm_globalMax limits > 0 \<and> int (lm_globalMax limits) \<le> po_globalInFlight st"

definition with_loop :: "string \<Rightarrow> (loop_local \<Rightarrow> loop_local) \<Rightarrow> poller \<Rightarrow> poller" where
  "with_loop jobType f st = st\<lparr>po_loop := (po_loop st)(jobType := f (po_loop st jobType))\<rparr>"

definition eligible :: "conc_limits \<Rightarrow> string \<Rightarrow> string list \<Rightarrow> poller \<Rightarrow> string list" where
  "eligible limits jobType roster st = filter (\<lambda>co. tenant_of jobType st co < lm_tenantMax limits) roster"

text \<open>The top of the loop: nothing when saturated, else a global slot is reserved and the cycle
  starts over the eligible tenants in fair order.\<close>

definition reserve_slot ::
    "conc_limits \<Rightarrow> string \<Rightarrow> string list \<Rightarrow> (nat \<Rightarrow> rat) \<Rightarrow> poller \<Rightarrow> poller" where
  "reserve_slot limits jobType roster draw st =
     (if saturated (length (lo_inFlight (po_loop st jobType))) limits st then st
      else with_loop jobType
        (\<lambda>lo. lo\<lparr>lo_cycle := Some (sampleByFairness jobType (eligible limits jobType roster st) draw st)\<rparr>)
        (st\<lparr>po_globalInFlight := po_globalInFlight st + 1\<rparr>))"

definition trackDispatch :: "string \<Rightarrow> dispatched \<Rightarrow> poller \<Rightarrow> poller" where
  "trackDispatch jobType d st =
     with_loop jobType (\<lambda>lo. lo\<lparr>lo_inFlight := lo_inFlight lo @ [d]\<rparr>)
       (st\<lparr>po_inFlightByTenant := (po_inFlightByTenant st)((jobType, fst d) \<mapsto> tenant_of jobType st (fst d) + 1),
           po_active := po_active st @ [d]\<rparr>)"

text \<open>The end of the cycle's await.\<close>

definition end_cycle :: "string \<Rightarrow> dispatched option \<Rightarrow> poller \<Rightarrow> poller" where
  "end_cycle jobType res st =
     (let st1 = with_loop jobType (\<lambda>lo. lo\<lparr>lo_cycle := None\<rparr>) st
      in case res of
        None \<Rightarrow> st1\<lparr>po_globalInFlight := po_globalInFlight st1 - 1\<rparr>
      | Some d \<Rightarrow> trackDispatch jobType d (recordClaim jobType (fst d) st1))"

text \<open>The \<open>finally\<close> of a dispatch.\<close>

definition dispatch_settled :: "string \<Rightarrow> dispatched \<Rightarrow> poller \<Rightarrow> poller" where
  "dispatch_settled jobType d st =
     (let key = (jobType, fst d);
          n = (case po_inFlightByTenant st key of None \<Rightarrow> 1 | Some k \<Rightarrow> k) - 1
      in with_loop jobType (\<lambda>lo. lo\<lparr>lo_inFlight := remove1 d (lo_inFlight lo)\<rparr>)
           (st\<lparr>po_active := remove1 d (po_active st),
               po_inFlightByTenant := (po_inFlightByTenant st)(key := if n = 0 then None else Some n),
               po_globalInFlight := max 0 (po_globalInFlight st - 1)\<rparr>))"

section \<open>The serial loop\<close>

definition serial_tenants :: "string \<Rightarrow> string list \<Rightarrow> (nat \<Rightarrow> rat) \<Rightarrow> poller \<Rightarrow> string list" where
  "serial_tenants jobType roster draw st = sampleByFairness jobType roster draw st"

definition serial_claimed :: "string \<Rightarrow> dispatched option \<Rightarrow> poller \<Rightarrow> poller" where
  "serial_claimed jobType res st =
     (case res of
        None \<Rightarrow> st
      | Some d \<Rightarrow> with_loop jobType (\<lambda>lo. lo\<lparr>lo_claimed := Some d\<rparr>)
          ((recordClaim jobType (fst d) st)\<lparr>po_active := po_active st @ [d]\<rparr>))"

definition serial_settled :: "string \<Rightarrow> poller \<Rightarrow> poller" where
  "serial_settled jobType st =
     (case lo_claimed (po_loop st jobType) of
        None \<Rightarrow> st
      | Some d \<Rightarrow> with_loop jobType (\<lambda>lo. lo\<lparr>lo_claimed := None\<rparr>)
          (st\<lparr>po_active := remove1 d (po_active st)\<rparr>))"

section \<open>Shutdown\<close>

text \<open>Hand every running claim back, one statement each, and count the rows that were ours.\<close>

fun releaseActiveClaims ::
    "(string \<Rightarrow> bool) \<Rightarrow> string \<Rightarrow> string \<Rightarrow> int \<Rightarrow> dispatched list \<Rightarrow> tenant_tables \<Rightarrow> nat \<times> tenant_tables" where
  "releaseActiveClaims up me reason now [] tbls = (0, tbls)"
| "releaseActiveClaims up me reason now ((co, c) # cs) tbls =
     (case job_release (up co) \<lparr>cl_id = jc_recordId c, cl_me = me, cl_epoch = jc_claimEpoch c\<rparr>
             reason now (tbls co) of
        (ok, t) \<Rightarrow> (case releaseActiveClaims up me reason now cs (tbls(co := t)) of
          (n, tbls') \<Rightarrow> ((if ok then n + 1 else n), tbls')))"

text \<open>\<open>loops\<close> tells whether any poll loop was started, \<open>drained\<close> whether all of them ended within
  the shutdown budget.\<close>

definition drainDispatches ::
    "bool \<Rightarrow> bool \<Rightarrow> (string \<Rightarrow> bool) \<Rightarrow> string \<Rightarrow> int \<Rightarrow> poller \<Rightarrow> tenant_tables \<Rightarrow> tenant_tables" where
  "drainDispatches loops drained up me now st tbls =
     (if \<not> loops \<or> drained then tbls
      else snd (releaseActiveClaims up me ''pod shutdown: handler did not stop within the drain budget'' now
             (po_active st) tbls))"

section \<open>Runs of the process\<close>

text \<open>Any loop may take its next synchronous block at any time, with any roster, any draws and
  any answers of the queue; the timer may decay the counters.\<close>

inductive poll_step :: "(string \<Rightarrow> string option) \<Rightarrow> string set \<Rightarrow> poller \<Rightarrow> poller \<Rightarrow> bool" for env R where
  poll_reserve: "jt \<in> R \<Longrightarrow> \<not> runs_serial (concurrencyLimits env jt) \<Longrightarrow> lo_cycle (po_loop st jt) = None \<Longrightarrow>
     poll_step env R st (reserve_slot (concurrencyLimits env jt) jt roster draw st)"
| poll_claimed: "jt \<in> R \<Longrightarrow> lo_cycle (po_loop st jt) = Some tenants \<Longrightarrow> claim_over e tenants tbls = (res, tbls') \<Longrightarrow>
     poll_step env R st (end_cycle jt res st)"
| poll_settled: "jt \<in> R \<Longrightarrow> d \<in> set (lo_inFlight (po_loop st jt)) \<Longrightarrow>
     poll_step env R st (dispatch_settled jt d st)"
| poll_serial: "jt \<in> R \<Longrightarrow> lo_claimed (po_loop st jt) = None \<Longrightarrow>
     poll_step env R st (serial_claimed jt res st)"
| poll_serial_settled: "jt \<in> R \<Longrightarrow> poll_step env R st (serial_settled jt st)"
| poll_decay: "poll_step env R st (decay st)"

inductive_cases poll_stepE: "poll_step env R st st'"

text \<open>The slots a loop holds: its dispatches, and the one reserved for its cycle.\<close>

definition slots :: "loop_local \<Rightarrow> nat" where
  "slots lo = length (lo_inFlight lo) + (if lo_cycle lo = None then 0 else 1)"

definition tenant_count :: "dispatched list \<Rightarrow> string \<Rightarrow> nat" where
  "tenant_count ds co = length (filter (\<lambda>d. fst d = co) ds)"

abbreviation running_for :: "loop_local \<Rightarrow> string \<Rightarrow> nat" where
  "running_for lo co \<equiv> tenant_count (lo_inFlight lo) co"

definition loop_ok :: "conc_limits \<Rightarrow> (string \<Rightarrow> nat option) \<Rightarrow> loop_local \<Rightarrow> bool" where
  "loop_ok limits cnt lo \<longleftrightarrow>
     (\<forall>co. cnt co = (if running_for lo co = 0 then None else Some (running_for lo co))) \<and>
     slots lo \<le> lm_maxConcurrent limits \<and>
     (\<forall>co. running_for lo co \<le> lm_tenantMax limits) \<and>
     (\<forall>ts. lo_cycle lo = Some ts \<longrightarrow> (\<forall>co \<in> set ts. running_for lo co < lm_tenantMax limits))"

definition held :: "loop_local \<Rightarrow> dispatched multiset" where
  "held lo = mset (lo_inFlight lo) + (case lo_claimed lo of None \<Rightarrow> {#} | Some d \<Rightarrow> {#d#})"

definition poller_ok :: "(string \<Rightarrow> string option) \<Rightarrow> string set \<Rightarrow> poller \<Rightarrow> bool" where
  "poller_ok env R st \<longleftrightarrow>
     (\<forall>jt \<in> R. loop_ok (concurrencyLimits env jt) (\<lambda>co. po_inFlightByTenant st (jt, co)) (po_loop st jt)) \<and>
     po_globalInFlight st = int (\<Sum>jt\<in>R. slots (po_loop st jt)) \<and>
     (\<forall>jt \<in> R. lm_globalMax (concurrencyLimits env jt) > 0 \<longrightarrow>
        po_globalInFlight st \<le> int (lm_globalMax (concurrencyLimits env jt))) \<and>
     mset (po_active st) = (\<Sum>jt\<in>R. held (po_loop st jt))"

section \<open>The invariant\<close>

lemma tenant_count_simps [simp]:
  "tenant_count [] co = 0"
  "tenant_count (ds @ [d]) co = tenant_count ds co + (if fst d = co then 1 else 0)"
  by (simp_all add: tenant_count_def)

lemma tenant_count_remove:
  "d \<in> set ds \<Longrightarrow> tenant_count (remove1 d ds) co = tenant_count ds co - (if fst d = co then 1 else 0)"
  by (simp add: tenant_count_def filter_remove1 length_remove1)

lemma tenant_count_pos: "d \<in> set ds \<Longrightarrow> 0 < tenant_count ds (fst d)"
  by (auto simp: tenant_count_def filter_empty_conv)

lemma tenant_count_remove_le: "tenant_count (remove1 d ds) co \<le> tenant_count ds co"
  by (induction ds) (auto simp: tenant_count_def)

lemma with_loop_simps [simp]:
  "po_loop (with_loop jt f st) jt' = (if jt' = jt then f (po_loop st jt) else po_loop st jt')"
  "po_recentClaims (with_loop jt f st) = po_recentClaims st"
  "po_inFlightByTenant (with_loop jt f st) = po_inFlightByTenant st"
  "po_globalInFlight (with_loop jt f st) = po_globalInFlight st"
  "po_active (with_loop jt f st) = po_active st"
  by (simp_all add: with_loop_def)

lemma sum_update:
  fixes f :: "'a \<Rightarrow> 'b::comm_monoid_add"
  assumes "finite R" "x \<in> R" "f x = a + c" "g x = b + c" "\<And>y. y \<in> R \<Longrightarrow> y \<noteq> x \<Longrightarrow> g y = f y"
  shows "(\<Sum>y\<in>R. g y) + a = (\<Sum>y\<in>R. f y) + b"
proof -
  have "(\<Sum>y\<in>R. g y) = g x + (\<Sum>y\<in>R - {x}. g y)" using assms(1,2) by (rule sum.remove)
  moreover have "(\<Sum>y\<in>R. f y) = f x + (\<Sum>y\<in>R - {x}. f y)" using assms(1,2) by (rule sum.remove)
  moreover have "(\<Sum>y\<in>R - {x}. g y) = (\<Sum>y\<in>R - {x}. f y)" using assms(5) by (auto intro: sum.cong)
  ultimately show ?thesis using assms(3,4) by (simp add: ac_simps)
qed

lemma mset_sampleByFairness: "mset (sampleByFairness jt tenants draw st) = mset tenants"
proof -
  have "map fst (map (\<lambda>(i, co). (co, draw i ^ (1 + recent_of jt st co))) (enumerate 0 tenants)) = tenants"
    by (simp add: case_prod_beta comp_def)
  then show ?thesis
    unfolding sampleByFairness_def by (auto simp: mset_map simp del: map_map)
      (metis mset_map mset_sort)
qed

lemma set_sampleByFairness: "set (sampleByFairness jt tenants draw st) = set tenants"
  using mset_sampleByFairness [of jt tenants draw st] by (rule mset_eq_setD)

lemma claim_over_tenant: "claim_over e ts tbls = (Some d, tbls') \<Longrightarrow> fst d \<in> set ts"
  by (induction e ts tbls rule: claim_over.induct) (auto split: if_splits prod.splits option.splits)

lemma globalMax_same: "lm_globalMax (concurrencyLimits env jt) = lm_globalMax (concurrencyLimits env jt')"
  by (simp add: concurrencyLimits_def Let_def)

lemma maxConcurrent_pos: "1 \<le> lm_maxConcurrent (concurrencyLimits env jt)"
  by (simp add: concurrencyLimits_def Let_def)

lemma poller_ok_new: "finite R \<Longrightarrow> poller_ok env R poller_new"
  by (simp add: poller_ok_def poller_new_def loop_ok_def slots_def held_def)

text \<open>What a block of one loop must establish for the whole process.\<close>

lemma poller_ok_step:
  assumes ok: "poller_ok env R st" and R: "finite R" "jt \<in> R"
    and "\<And>jt'. jt' \<noteq> jt \<Longrightarrow> po_loop st' jt' = po_loop st jt'"
    and "\<And>jt' co. jt' \<noteq> jt \<Longrightarrow> po_inFlightByTenant st' (jt', co) = po_inFlightByTenant st (jt', co)"
    and loop: "loop_ok (concurrencyLimits env jt) (\<lambda>co. po_inFlightByTenant st' (jt, co)) (po_loop st' jt)"
    and glob: "po_globalInFlight st' + int (slots (po_loop st jt)) =
        po_globalInFlight st + int (slots (po_loop st' jt))"
    and cap: "po_globalInFlight st' \<le> po_globalInFlight st \<or>
        (lm_globalMax (concurrencyLimits env jt) > 0 \<longrightarrow>
           po_globalInFlight st' \<le> int (lm_globalMax (concurrencyLimits env jt)))"
    and act: "mset (po_active st') + held (po_loop st jt) = mset (po_active st) + held (po_loop st' jt)"
  shows "poller_ok env R st'"
proof -
  have other: "po_loop st' y = po_loop st y" if "y \<noteq> jt" for y
    by (rule assms(4)) (rule that)
  have "(\<Sum>y\<in>R. int (slots (po_loop st' y))) + int (slots (po_loop st jt)) =
      (\<Sum>y\<in>R. int (slots (po_loop st y))) + int (slots (po_loop st' jt))"
    by (rule sum_update [OF R, where c = 0]) (simp, simp, metis other)
  moreover have "(\<Sum>y\<in>R. held (po_loop st' y)) + held (po_loop st jt) =
      (\<Sum>y\<in>R. held (po_loop st y)) + held (po_loop st' jt)"
    by (rule sum_update [OF R, where c = "{#}"]) (simp, simp, metis other)
  moreover have "loop_ok (concurrencyLimits env y) (\<lambda>co. po_inFlightByTenant st' (y, co)) (po_loop st' y)"
    if "y \<in> R" for y
    using ok that loop by (cases "y = jt") (simp_all add: poller_ok_def other assms(5))
  moreover have "po_globalInFlight st' \<le> int (lm_globalMax (concurrencyLimits env y))"
    if "y \<in> R" "lm_globalMax (concurrencyLimits env y) > 0" for y
    using ok that cap globalMax_same [of env y jt] by (auto simp: poller_ok_def)
  ultimately show ?thesis
    using ok glob act add_right_imp_eq [of "mset (po_active st')" "held (po_loop st jt)"]
    unfolding poller_ok_def by auto
qed

lemma tenant_of_running:
  "loop_ok l (\<lambda>co. po_inFlightByTenant st (jt, co)) (po_loop st jt) \<Longrightarrow>
     tenant_of jt st co = running_for (po_loop st jt) co"
  by (simp add: loop_ok_def tenant_of_def)

lemma reserve_ok:
  assumes ok: "poller_ok env R st" and R: "finite R" "jt \<in> R" and idle: "lo_cycle (po_loop st jt) = None"
  shows "poller_ok env R (reserve_slot (concurrencyLimits env jt) jt roster draw st)"
proof (cases "saturated (length (lo_inFlight (po_loop st jt))) (concurrencyLimits env jt) st")
  case True
  with ok show ?thesis by (simp add: reserve_slot_def)
next
  case False
  from ok R have lp: "loop_ok (concurrencyLimits env jt) (\<lambda>co. po_inFlightByTenant st (jt, co)) (po_loop st jt)"
    by (simp add: poller_ok_def)
  show ?thesis
    by (rule poller_ok_step [OF ok R]) (use False lp idle in
      \<open>auto simp: reserve_slot_def loop_ok_def slots_def saturated_def held_def set_sampleByFairness
        eligible_def tenant_of_running [OF lp]\<close>)
qed

lemma end_none_ok:
  assumes ok: "poller_ok env R st" and R: "finite R" "jt \<in> R" and busy: "lo_cycle (po_loop st jt) = Some ts"
  shows "poller_ok env R (end_cycle jt None st)"
proof -
  from ok R have lp: "loop_ok (concurrencyLimits env jt) (\<lambda>co. po_inFlightByTenant st (jt, co)) (po_loop st jt)"
    by (simp add: poller_ok_def)
  show ?thesis
    by (rule poller_ok_step [OF ok R]) (use lp busy in
      \<open>auto simp: end_cycle_def Let_def loop_ok_def slots_def held_def\<close>)
qed

lemma end_claim_ok:
  assumes ok: "poller_ok env R st" and R: "finite R" "jt \<in> R" and busy: "lo_cycle (po_loop st jt) = Some ts"
    and d: "fst d \<in> set ts"
  shows "poller_ok env R (end_cycle jt (Some d) st)"
proof -
  from ok R have lp: "loop_ok (concurrencyLimits env jt) (\<lambda>co. po_inFlightByTenant st (jt, co)) (po_loop st jt)"
    by (simp add: poller_ok_def)
  show ?thesis
    by (rule poller_ok_step [OF ok R]) (use lp busy d in
      \<open>auto simp: end_cycle_def Let_def loop_ok_def slots_def held_def trackDispatch_def recordClaim_def
        tenant_of_def Suc_le_eq split: option.splits\<close>)
qed

lemma loop_ok_settled:
  assumes lp: "loop_ok l cnt lo" and d: "d \<in> set (lo_inFlight lo)"
  shows "loop_ok l (cnt(fst d := let n = (case cnt (fst d) of None \<Rightarrow> 1 | Some k \<Rightarrow> k) - 1 in if n = 0 then None else Some n))
     (lo\<lparr>lo_inFlight := remove1 d (lo_inFlight lo)\<rparr>)"
proof -
  have "length (remove1 d (lo_inFlight lo)) \<le> length (lo_inFlight lo)" by (simp add: length_remove1)
  moreover note le = tenant_count_remove_le [of d "lo_inFlight lo"]
  ultimately show ?thesis
    using lp tenant_count_pos [OF d] order_trans [OF le] le_less_trans [OF le]
    by (auto simp: loop_ok_def slots_def tenant_count_remove [OF d] Let_def)
qed

lemma settled_ok:
  assumes ok: "poller_ok env R st" and R: "finite R" "jt \<in> R" and d: "d \<in> set (lo_inFlight (po_loop st jt))"
  shows "poller_ok env R (dispatch_settled jt d st)"
proof -
  from ok R have lp: "loop_ok (concurrencyLimits env jt) (\<lambda>co. po_inFlightByTenant st (jt, co)) (po_loop st jt)"
    by (simp add: poller_ok_def)
  have cnt: "(\<lambda>co. po_inFlightByTenant (dispatch_settled jt d st) (jt, co)) =
      (\<lambda>co. po_inFlightByTenant st (jt, co))(fst d := let n = (case po_inFlightByTenant st (jt, fst d) of None \<Rightarrow> 1 | Some k \<Rightarrow> k) - 1 in if n = 0 then None else Some n)"
    by (auto simp: dispatch_settled_def Let_def)
  have len: "0 < length (lo_inFlight (po_loop st jt))" using d by (cases "lo_inFlight (po_loop st jt)") auto
  have "slots (po_loop st jt) \<le> (\<Sum>y\<in>R. slots (po_loop st y))" using R by (intro member_le_sum) auto
  moreover have "0 < slots (po_loop st jt)" using len by (simp add: slots_def)
  ultimately have g: "1 \<le> po_globalInFlight st" using ok by (simp add: poller_ok_def del: of_nat_sum)
  have "d \<in># (\<Sum>y\<in>R. held (po_loop st y))"
    using R d by (subst sum.remove [OF R]) (simp add: held_def)
  with ok have act: "d \<in> set (po_active st)" by (simp add: poller_ok_def flip: set_mset_mset)
  show ?thesis
  proof (rule poller_ok_step [OF ok R])
    show "loop_ok (concurrencyLimits env jt) (\<lambda>co. po_inFlightByTenant (dispatch_settled jt d st) (jt, co))
        (po_loop (dispatch_settled jt d st) jt)"
      using loop_ok_settled [OF lp d] unfolding cnt by (simp add: dispatch_settled_def Let_def)
  qed (use d g len act in \<open>auto simp: dispatch_settled_def Let_def slots_def held_def length_remove1 of_nat_diff Suc_le_eq\<close>)
qed

lemma serial_claimed_ok:
  assumes ok: "poller_ok env R st" and R: "finite R" "jt \<in> R" and idle: "lo_claimed (po_loop st jt) = None"
  shows "poller_ok env R (serial_claimed jt res st)"
proof (cases res)
  case None
  with ok show ?thesis by (simp add: serial_claimed_def)
next
  case (Some d)
  from ok R have lp: "loop_ok (concurrencyLimits env jt) (\<lambda>co. po_inFlightByTenant st (jt, co)) (po_loop st jt)"
    by (simp add: poller_ok_def)
  show ?thesis
    by (rule poller_ok_step [OF ok R]) (use Some lp idle in
      \<open>auto simp: serial_claimed_def loop_ok_def slots_def held_def recordClaim_def\<close>)
qed

lemma serial_settled_ok:
  assumes ok: "poller_ok env R st" and R: "finite R" "jt \<in> R"
  shows "poller_ok env R (serial_settled jt st)"
proof (cases "lo_claimed (po_loop st jt)")
  case None
  with ok show ?thesis by (simp add: serial_settled_def)
next
  case (Some d)
  from ok R have lp: "loop_ok (concurrencyLimits env jt) (\<lambda>co. po_inFlightByTenant st (jt, co)) (po_loop st jt)"
    by (simp add: poller_ok_def)
  have "d \<in># (\<Sum>y\<in>R. held (po_loop st y))"
    using Some by (subst sum.remove [OF R]) (simp add: held_def)
  with ok have act: "d \<in> set (po_active st)" by (simp add: poller_ok_def flip: set_mset_mset)
  show ?thesis
    by (rule poller_ok_step [OF ok R]) (use Some lp act in
      \<open>auto simp: serial_settled_def loop_ok_def slots_def held_def\<close>)
qed

lemma poll_step_ok:
  assumes "poll_step env R st st'" "finite R" "poller_ok env R st"
  shows "poller_ok env R st'"
  using assms(1)
proof cases
  case (poll_claimed jt tenants e tbls res tbls')
  then show ?thesis
    using assms(2,3) end_none_ok end_claim_ok claim_over_tenant by (cases res) blast+
next
  case poll_decay
  have "poller_ok env R (decay st) = poller_ok env R st" by (simp add: poller_ok_def decay_def)
  with assms(3) poll_decay show ?thesis by simp
qed (use assms(2,3) in \<open>auto intro: reserve_ok settled_ok serial_claimed_ok serial_settled_ok\<close>)

interpretation poll_machine: state_machine "poll_step env R" "\<lambda>st. finite R \<and> poller_ok env R st" for env R
  by unfold_locales (blast intro: poll_step_ok)

lemma poll_steps_ok: "(poll_step env R)\<^sup>*\<^sup>* poller_new st \<Longrightarrow> finite R \<Longrightarrow> poller_ok env R st"
  using poll_machine.inv_steps poller_ok_new by blast

section \<open>A cycle over the tenants\<close>

text \<open>The tenant's queue holds a job the worker could claim now.\<close>

definition has_job :: "cycle_env \<Rightarrow> tenant_tables \<Rightarrow> string \<Rightarrow> bool" where
  "has_job e tbls co \<longleftrightarrow> list_ex (\<lambda>r. claimable (cy_now e co) r \<and> jr_jobType r = ci_jobType (cy_input e co)) (tbls co)"

definition undisturbed :: "cycle_env \<Rightarrow> tenant_tables \<Rightarrow> string list \<Rightarrow> bool" where
  "undisturbed e tbls cs \<longleftrightarrow>
     (\<forall>k < length cs. \<not> cy_stop e k) \<and>
     list_all (\<lambda>co. cy_up e co \<and> cy_others e co = (\<lambda>_ t. t) \<and>
       list_all (\<lambda>r. jr_id r \<noteq> [] \<and> jr_runId r \<noteq> []) (tbls co)) cs"

lemma claimNext_iff_job:
  "cy_up e co \<Longrightarrow> cy_others e co = (\<lambda>_ t. t) \<Longrightarrow>
     list_all (\<lambda>r. jr_id r \<noteq> [] \<and> jr_runId r \<noteq> []) (tbls co) \<Longrightarrow>
     (fst (claimNext (cy_up e co) (cy_others e co) (cy_input e co) (cy_now e co) (tbls co)) \<noteq> None) = has_job e tbls co"
  using claim_finds [of "tbls co" "cy_input e co" "cy_now e co"]
  by (simp add: list_all_iff has_job_def list_ex_iff claimable_def)

lemma claimNext_none_table:
  assumes "\<not> has_job e tbls co"
  shows "claimNext up (\<lambda>_ t. t) (cy_input e co) (cy_now e co) (tbls co) = (None, tbls co)"
proof -
  from assms have "candidate (cy_now e co) (ci_jobType (cy_input e co)) (tbls co) = None"
    by (auto simp: has_job_def list_ex_iff candidate_None)
  then show ?thesis by (simp add: claimNext_def numeral_3_eq_3)
qed

lemma claim_over_finds:
  "undisturbed e tbls cs \<Longrightarrow>
     (fst (claim_over e cs tbls) \<noteq> None) = list_ex (has_job e tbls) cs"
proof (induction cs)
  case (Cons co cs)
  from Cons.prems have go: "\<not> cy_stop e (length cs)" "cy_up e co" "cy_others e co = (\<lambda>_ t. t)"
      "list_all (\<lambda>r. jr_id r \<noteq> [] \<and> jr_runId r \<noteq> []) (tbls co)" "undisturbed e tbls cs"
    by (auto simp: undisturbed_def)
  show ?case
  proof (cases "has_job e tbls co")
    case True
    with go claimNext_iff_job [of e co tbls] show ?thesis by (auto split: prod.splits option.splits)
  next
    case False
    with go Cons.IH claimNext_none_table [OF False] show ?thesis by (simp add: fun_upd_triv)
  qed
qed simp

section \<open>Sample run\<close>

definition sample_env :: "string \<Rightarrow> string option" where
  "sample_env k =
     (if k = ''WORKER_LOOP_MAX_CONCURRENT'' then Some ''2''
      else if k = ''WORKER_LOOP_GLOBAL_MAX_CONCURRENT'' then Some '' 3 '' else None)"

definition sample_cycle :: cycle_env where
  "sample_cycle = \<lparr>cy_stop = (\<lambda>_. False), cy_up = (\<lambda>_. True), cy_others = (\<lambda>_ _ t. t),
     cy_input = (\<lambda>_. sample_claim), cy_now = (\<lambda>_. 10)\<rparr>"

definition sample_tables :: tenant_tables where
  "sample_tables = (\<lambda>_. sample_jobs)"

definition sample_reserved :: poller where
  "sample_reserved = reserve_slot (concurrencyLimits sample_env ''dreams'') ''dreams'' [''acme''] (\<lambda>_. 0) poller_new"

definition sample_dispatched :: dispatched where
  "sample_dispatched = the (fst (claim_over sample_cycle [''acme''] sample_tables))"

definition sample_running :: poller where
  "sample_running = end_cycle ''dreams'' (Some sample_dispatched) sample_reserved"

lemma sample_limits:
  "concurrencyLimits sample_env ''dreams'' = \<lparr>lm_maxConcurrent = 2, lm_tenantMax = 1, lm_globalMax = 3\<rparr>"
proof -
  have "readIntEnv (Some ''2'') = Some 2" "readIntEnv (Some '' 3 '') = Some 3"
    by (simp_all add: readIntEnv_def trim_def is_space_def is_digit_def parse_digits_def)
  then show ?thesis
    by (simp add: concurrencyLimits_def Let_def sample_env_def first_set_def readIntEnv_def [of None]
        List.map_filter_def)
qed

lemma sample_not_saturated: "\<not> saturated (length (lo_inFlight (po_loop poller_new ''dreams'')))
    (concurrencyLimits sample_env ''dreams'') poller_new"
  by (simp add: saturated_def poller_new_def sample_limits)

lemma sample_reserved_cycle: "lo_cycle (po_loop sample_reserved ''dreams'') = Some [''acme'']"
  using sample_not_saturated
  by (simp add: sample_reserved_def reserve_slot_def sampleByFairness_def eligible_def tenant_of_def
      poller_new_def sample_limits)

lemma sample_over:
  "claim_over sample_cycle [''acme''] sample_tables = (Some sample_dispatched, sample_tables(''acme'' := claimed_jobs))"
  using sample_claim_result
  by (simp add: sample_dispatched_def sample_cycle_def sample_tables_def)

lemma sample_run: "(poll_step sample_env {''dreams''})\<^sup>*\<^sup>* poller_new sample_running"
proof -
  have "poll_step sample_env {''dreams''} poller_new sample_reserved"
    unfolding sample_reserved_def
    by (rule poll_reserve) (simp_all add: sample_limits runs_serial_def poller_new_def)
  moreover have "poll_step sample_env {''dreams''} sample_reserved sample_running"
    unfolding sample_running_def
    by (rule poll_claimed [OF _ sample_reserved_cycle sample_over]) simp
  ultimately show ?thesis by (meson rtranclp.rtrancl_into_rtrancl rtranclp.rtrancl_refl)
qed

lemma sample_inflight: "lo_inFlight (po_loop sample_running ''dreams'') = [sample_dispatched]"
  using sample_not_saturated
  by (simp add: sample_running_def end_cycle_def Let_def trackDispatch_def recordClaim_def sample_reserved_def
      reserve_slot_def) (simp add: poller_new_def)

section \<open>Properties\<close>

text \<open>C28: The caps hold.  In every run of a worker process, at every moment, a job type has at
  most its maximum of dispatches in flight, no tenant has more of them than the tenant
  maximum, and with a global maximum set all loops together do not exceed it, claims that
  are still being made included.\<close>

theorem poller_respects_caps:
  assumes "(poll_step env R)\<^sup>*\<^sup>* poller_new st" "finite R" "jt \<in> R"
  shows "length (lo_inFlight (po_loop st jt)) \<le> lm_maxConcurrent (concurrencyLimits env jt) \<and>
     tenant_count (lo_inFlight (po_loop st jt)) co \<le> lm_tenantMax (concurrencyLimits env jt) \<and>
     (lm_globalMax (concurrencyLimits env jt) > 0 \<longrightarrow>
        (\<Sum>t\<in>R. slots (po_loop st t)) \<le> lm_globalMax (concurrencyLimits env jt))"
proof -
  from poll_steps_ok [OF assms(1,2)] have ok: "poller_ok env R st" .
  with assms(3) have "loop_ok (concurrencyLimits env jt) (\<lambda>co. po_inFlightByTenant st (jt, co)) (po_loop st jt)"
    by (simp add: poller_ok_def)
  then have "length (lo_inFlight (po_loop st jt)) \<le> lm_maxConcurrent (concurrencyLimits env jt)"
      "tenant_count (lo_inFlight (po_loop st jt)) co \<le> lm_tenantMax (concurrencyLimits env jt)"
    by (auto simp: loop_ok_def slots_def split: if_splits)
  moreover have "(\<Sum>t\<in>R. slots (po_loop st t)) \<le> lm_globalMax (concurrencyLimits env jt)"
    if "lm_globalMax (concurrencyLimits env jt) > 0"
    using ok assms(3) that unfolding poller_ok_def by (metis of_nat_le_iff)
  ultimately show ?thesis by blast
qed

theorem poller_respects_caps_witness:
  "length (lo_inFlight (po_loop sample_running ''dreams'')) = 1 \<and>
   length (lo_inFlight (po_loop sample_running ''dreams'')) \<le> lm_maxConcurrent (concurrencyLimits sample_env ''dreams'') \<and>
   (\<Sum>t\<in>{''dreams''}. slots (po_loop sample_running t)) \<le> 3"
  using poller_respects_caps [OF sample_run, of "''dreams''"] by (simp add: sample_limits sample_inflight)

text \<open>No slot leaks.  In every run the shared counters are exactly what runs: the global
  counter is the number of dispatches and claim cycles under way, each tenant counter the
  dispatches of that tenant, and the set handed back at shutdown holds the claims in
  flight; when every loop is idle all of it is empty again.\<close>

theorem poller_counters_exact:
  assumes "(poll_step env R)\<^sup>*\<^sup>* poller_new st" "finite R"
  shows "po_globalInFlight st = int (\<Sum>t\<in>R. slots (po_loop st t)) \<and>
     (\<forall>jt \<in> R. tenant_of jt st co = tenant_count (lo_inFlight (po_loop st jt)) co) \<and>
     mset (po_active st) = (\<Sum>t\<in>R. held (po_loop st t)) \<and>
     ((\<forall>t \<in> R. slots (po_loop st t) = 0 \<and> lo_claimed (po_loop st t) = None) \<longrightarrow>
        po_globalInFlight st = 0 \<and> po_active st = [])"
proof -
  from poll_steps_ok [OF assms] have ok: "poller_ok env R st" .
  then have glob: "po_globalInFlight st = int (\<Sum>t\<in>R. slots (po_loop st t))"
    and act: "mset (po_active st) = (\<Sum>t\<in>R. held (po_loop st t))"
    by (simp_all add: poller_ok_def)
  have "tenant_of jt st co = tenant_count (lo_inFlight (po_loop st jt)) co" if "jt \<in> R" for jt
    using ok that tenant_of_running by (auto simp: poller_ok_def)
  moreover have "po_globalInFlight st = 0 \<and> po_active st = []"
    if idle: "\<forall>t \<in> R. slots (po_loop st t) = 0 \<and> lo_claimed (po_loop st t) = None"
  proof -
    from idle have "(\<Sum>t\<in>R. slots (po_loop st t)) = 0" by simp
    moreover from idle have "(\<Sum>t\<in>R. held (po_loop st t)) = {#}"
      by (intro sum.neutral) (auto simp: held_def slots_def)
    ultimately show ?thesis unfolding glob using act by simp
  qed
  ultimately show ?thesis using glob act by blast
qed

theorem poller_counters_exact_witness:
  "po_globalInFlight sample_running = 1 \<and> tenant_of ''dreams'' sample_running (fst sample_dispatched) = 1"
proof -
  have "lo_cycle (po_loop sample_running ''dreams'') = None"
    by (simp add: sample_running_def end_cycle_def Let_def trackDispatch_def recordClaim_def)
  with poller_counters_exact [OF sample_run, of "fst sample_dispatched"] show ?thesis
    by (simp add: sample_inflight slots_def tenant_count_def)
qed

text \<open>Fairness orders the tenants and drops none: with nothing disturbing the cycle, a loop
  that is not saturated claims a job exactly when some tenant of the roster below its cap
  has one to claim, whatever the random draws.\<close>

theorem cycle_serves_any_tenant:
  assumes "\<not> saturated (length (lo_inFlight (po_loop st jt))) limits st"
    and "lo_cycle (po_loop (reserve_slot limits jt roster draw st) jt) = Some ts"
    and "undisturbed e tbls ts"
  shows "(fst (claim_over e ts tbls) \<noteq> None) =
     (\<exists>co \<in> set roster. tenant_of jt st co < lm_tenantMax limits \<and> has_job e tbls co)"
proof -
  from assms(1,2) have "set ts = set (eligible limits jt roster st)"
    by (auto simp: reserve_slot_def set_sampleByFairness)
  then show ?thesis
    unfolding claim_over_finds [OF assms(3)] by (auto simp: list_ex_iff eligible_def)
qed

theorem cycle_serves_any_tenant_witness:
  "fst (claim_over sample_cycle [''acme''] sample_tables) \<noteq> None"
proof -
  have "undisturbed sample_cycle sample_tables [''acme'']"
    by (simp add: undisturbed_def sample_cycle_def sample_tables_def sample_jobs_def new_job_def)
  from cycle_serves_any_tenant [OF sample_not_saturated sample_reserved_cycle [unfolded sample_reserved_def] this]
  have "(fst (claim_over sample_cycle [''acme''] sample_tables) \<noteq> None) = has_job sample_cycle sample_tables ''acme''"
    by (simp add: sample_limits tenant_of_def poller_new_def)
  then show ?thesis
    by (simp add: has_job_def sample_cycle_def sample_tables_def sample_jobs_def new_job_def sample_enqueue_def
        sample_claim_def claimable_def)
qed

end
