(* ===== verification/JobWorkerPool.thy ===== *)
theory JobWorkerPool imports Prelude "HOL-Library.Multiset" begin

text \<open>
  The worker-thread pool of CPU-bound jobs (\<open>src/jobs/job-worker-pool.service.ts\<close>).  Workers
  and calls are named by numbers.  An operation is one event with the continuations it
  settles: a call handed a worker posts its message at once, and a settled call runs its
  \<open>finally\<close> (which releases the worker) at once.  What the worker computes, the message
  format and the spawning of threads are left out; a worker is known to the pool when its
  boot was acknowledged.
\<close>

datatype pool_error =
    PoolDisabled | PoolShuttingDown | PoolAcquireTimeout | PoolCallTimeout | PoolWorkerError
  | PoolWorkerExited | PoolHandlerError | PoolDegraded

datatype call_result = CallOk | CallErr pool_error

record pool =
  pl_size :: nat
  pl_workers :: "nat list"
  pl_idle :: "nat list"
  pl_waiters :: "nat list"               \<comment> \<open>calls parked for a worker\<close>
  pl_inFlight :: "nat \<rightharpoonup> nat"           \<comment> \<open>worker to the call it runs\<close>
  pl_dead :: "nat \<Rightarrow> bool"
  pl_shuttingDown :: bool
  pl_respawnAttempts :: nat
  pl_lastRespawnAt :: int
  pl_respawns :: nat                      \<comment> \<open>respawn timers out\<close>
  pl_results :: "(nat \<times> call_result) list" \<comment> \<open>settled calls\<close>

text \<open>After start-up: the workers that could be spawned.\<close>

definition pool_init :: "nat \<Rightarrow> nat list \<Rightarrow> pool" where
  "pool_init n spawned =
     \<lparr>pl_size = n, pl_workers = spawned, pl_idle = spawned, pl_waiters = [], pl_inFlight = Map.empty,
      pl_dead = (\<lambda>_. False), pl_shuttingDown = False, pl_respawnAttempts = 0, pl_lastRespawnAt = 0,
      pl_respawns = 0, pl_results = []\<rparr>"

definition pool_enabled :: "pool \<Rightarrow> bool" where
  "pool_enabled p \<longleftrightarrow> 0 < pl_size p"

definition settle_calls :: "call_result \<Rightarrow> nat list \<Rightarrow> pool \<Rightarrow> pool" where
  "settle_calls res cs p = p\<lparr>pl_results := pl_results p @ map (\<lambda>c. (c, res)) cs\<rparr>"

definition post_call :: "nat \<Rightarrow> nat \<Rightarrow> pool \<Rightarrow> pool" where
  "post_call c w p = p\<lparr>pl_inFlight := (pl_inFlight p)(w \<mapsto> c)\<rparr>"

definition pool_release :: "nat \<Rightarrow> pool \<Rightarrow> pool" where
  "pool_release w p =
     (if pl_shuttingDown p then p
      else if pl_dead p w \<or> w \<notin> set (pl_workers p) then p
      else case pl_waiters p of
        c # cs \<Rightarrow> post_call c w (p\<lparr>pl_waiters := cs\<rparr>)
      | [] \<Rightarrow> p\<lparr>pl_idle := pl_idle p @ [w]\<rparr>)"

definition pool_acquire :: "nat \<Rightarrow> pool \<Rightarrow> pool" where
  "pool_acquire c p =
     (case pl_idle p of
        w # ws \<Rightarrow> post_call c w (p\<lparr>pl_idle := ws\<rparr>)
      | [] \<Rightarrow> p\<lparr>pl_waiters := pl_waiters p @ [c]\<rparr>)"

definition pool_run :: "nat \<Rightarrow> pool \<Rightarrow> pool" where
  "pool_run c p =
     (if \<not> pool_enabled p then settle_calls (CallErr PoolDisabled) [c] p
      else if pl_shuttingDown p then settle_calls (CallErr PoolShuttingDown) [c] p
      else pool_acquire c p)"

text \<open>The end of a call: its promise settles, then its \<open>finally\<close>.\<close>

definition end_call :: "call_result \<Rightarrow> nat \<Rightarrow> pool \<Rightarrow> pool" where
  "end_call res w p =
     (case pl_inFlight p w of
        None \<Rightarrow> p
      | Some c \<Rightarrow> pool_release w
          ((settle_calls res [c] p)\<lparr>pl_inFlight := (pl_inFlight p)(w := None)\<rparr>))"

text \<open>A reply that belongs to no call is logged and dropped.\<close>

definition worker_message :: "bool \<Rightarrow> nat \<Rightarrow> pool \<Rightarrow> pool" where
  "worker_message ok w p = end_call (if ok then CallOk else CallErr PoolHandlerError) w p"

definition worker_error :: "nat \<Rightarrow> pool \<Rightarrow> pool" where
  "worker_error w p = end_call (CallErr PoolWorkerError) w p"

definition mark_dead :: "nat \<Rightarrow> pool \<Rightarrow> pool" where
  "mark_dead w p = p\<lparr>pl_dead := (pl_dead p)(w := True)\<rparr>"

definition call_timeout :: "nat \<Rightarrow> pool \<Rightarrow> pool" where
  "call_timeout w p =
     (if pl_inFlight p w = None then p else end_call (CallErr PoolCallTimeout) w (mark_dead w p))"

definition acquire_timeout :: "nat \<Rightarrow> pool \<Rightarrow> pool" where
  "acquire_timeout c p =
     (if c \<in> set (pl_waiters p)
      then settle_calls (CallErr PoolAcquireTimeout) [c] (p\<lparr>pl_waiters := remove1 c (pl_waiters p)\<rparr>)
      else p)"

definition rejectAllWaiters :: "pool_error \<Rightarrow> pool \<Rightarrow> pool" where
  "rejectAllWaiters e p = settle_calls (CallErr e) (pl_waiters p) (p\<lparr>pl_waiters := []\<rparr>)"

definition scheduleRespawn :: "int \<Rightarrow> pool \<Rightarrow> pool" where
  "scheduleRespawn now p =
     (if pl_shuttingDown p then p
      else let p1 = (if now - pl_lastRespawnAt p > 60000 then p\<lparr>pl_respawnAttempts := 0\<rparr> else p)
           in if pl_size p1 * 5 \<le> pl_respawnAttempts p1
              then (if pl_workers p1 = [] then rejectAllWaiters PoolDegraded p1 else p1)
              else p1\<lparr>pl_respawnAttempts := pl_respawnAttempts p1 + 1, pl_lastRespawnAt := now,
                      pl_respawns := pl_respawns p1 + 1\<rparr>)"

definition respawn_delay :: "nat \<Rightarrow> nat" where
  "respawn_delay attempts = min (100 * 2 ^ attempts) 5000"

text \<open>The exit of a worker that had booted.\<close>

definition worker_exit :: "int \<Rightarrow> nat \<Rightarrow> pool \<Rightarrow> pool" where
  "worker_exit now w p =
     (let p1 = end_call (CallErr PoolWorkerExited) w (mark_dead w p);
          p2 = p1\<lparr>pl_workers := remove1 w (pl_workers p1), pl_idle := remove1 w (pl_idle p1)\<rparr>
      in scheduleRespawn now p2)"

text \<open>The respawn timer fires and the new worker boots, or does not.\<close>

definition respawn_ready :: "nat \<Rightarrow> pool \<Rightarrow> pool" where
  "respawn_ready w p =
     (let p1 = p\<lparr>pl_respawns := pl_respawns p - 1\<rparr>
      in if pl_shuttingDown p1 then p1
         else pool_release w (p1\<lparr>pl_workers := pl_workers p1 @ [w]\<rparr>))"

definition respawn_failed :: "int \<Rightarrow> pool \<Rightarrow> pool" where
  "respawn_failed now p = scheduleRespawn now (p\<lparr>pl_respawns := pl_respawns p - 1\<rparr>)"

definition pool_shutdown :: "pool \<Rightarrow> pool" where
  "pool_shutdown p =
     (let p1 = rejectAllWaiters PoolShuttingDown (p\<lparr>pl_shuttingDown := True\<rparr>);
          running = List.map_filter (pl_inFlight p1) (pl_workers p1);
          p2 = settle_calls (CallErr PoolShuttingDown) running p1
      in p2\<lparr>pl_inFlight := (\<lambda>w. if w \<in> set (pl_workers p1) then None else pl_inFlight p1 w),
            pl_workers := [], pl_idle := []\<rparr>)"

record pool_stats =
  st_size :: nat
  st_idle :: nat
  st_busy :: nat
  st_waiters :: nat

definition pool_stats_of :: "pool \<Rightarrow> pool_stats" where
  "pool_stats_of p =
     \<lparr>st_size = length (pl_workers p), st_idle = length (pl_idle p),
      st_busy = length (pl_workers p) - length (pl_idle p), st_waiters = length (pl_waiters p)\<rparr>"

section \<open>Histories\<close>

text \<open>Where the calls are: parked, in flight, or settled.\<close>

definition places :: "pool \<Rightarrow> nat multiset" where
  "places p = mset (pl_waiters p) + mset (List.map_filter (pl_inFlight p) (pl_workers p)) +
     mset (map fst (pl_results p))"

text \<open>A call is made once and a respawned worker is new.\<close>

inductive pool_step :: "pool \<Rightarrow> pool \<Rightarrow> bool" where
  pool_call: "c \<notin># places p \<Longrightarrow> pool_step p (pool_run c p)"
| pool_message: "w \<in> set (pl_workers p) \<Longrightarrow> pool_step p (worker_message ok w p)"
| pool_err: "w \<in> set (pl_workers p) \<Longrightarrow> pool_step p (worker_error w p)"
| pool_call_timeout: "pool_step p (call_timeout w p)"
| pool_acquire_timeout: "pool_step p (acquire_timeout c p)"
| pool_exit: "w \<in> set (pl_workers p) \<or> pl_shuttingDown p \<Longrightarrow> pool_step p (worker_exit now w p)"
| pool_ready: "w \<notin> set (pl_workers p) \<Longrightarrow> \<not> pl_dead p w \<Longrightarrow> 0 < pl_respawns p \<Longrightarrow> pool_step p (respawn_ready w p)"
| pool_failed: "0 < pl_respawns p \<Longrightarrow> pool_step p (respawn_failed now p)"
| pool_stop: "pool_step p (pool_shutdown p)"

text \<open>Idle workers are alive and run nothing, a live worker is idle or runs a call, nobody waits
  while a worker is idle.\<close>

definition pool_ok :: "pool \<Rightarrow> bool" where
  "pool_ok p \<longleftrightarrow>
     distinct (pl_workers p) \<and> distinct (pl_idle p) \<and> set (pl_idle p) \<subseteq> set (pl_workers p) \<and>
     (\<forall>w \<in> set (pl_idle p). \<not> pl_dead p w \<and> pl_inFlight p w = None) \<and>
     (\<forall>w. pl_inFlight p w \<noteq> None \<longrightarrow> w \<in> set (pl_workers p) \<and> \<not> pl_dead p w) \<and>
     (\<forall>w \<in> set (pl_workers p). pl_dead p w \<or> w \<in> set (pl_idle p) \<or> pl_inFlight p w \<noteq> None) \<and>
     (pl_idle p = [] \<or> pl_waiters p = []) \<and>
     (pl_shuttingDown p \<longrightarrow> pl_workers p = [] \<and> pl_waiters p = []) \<and>
     pl_respawnAttempts p \<le> pl_size p * 5"

inductive_cases pool_stepE: "pool_step p p'"

section \<open>The invariant\<close>

lemma pool_ok_init: "distinct ws \<Longrightarrow> pool_ok (pool_init n ws)"
  by (simp add: pool_ok_def pool_init_def)

lemma settle_calls_simps [simp]:
  "pl_size (settle_calls r cs p) = pl_size p" "pl_workers (settle_calls r cs p) = pl_workers p"
  "pl_idle (settle_calls r cs p) = pl_idle p" "pl_waiters (settle_calls r cs p) = pl_waiters p"
  "pl_inFlight (settle_calls r cs p) = pl_inFlight p" "pl_dead (settle_calls r cs p) = pl_dead p"
  "pl_shuttingDown (settle_calls r cs p) = pl_shuttingDown p"
  "pl_respawnAttempts (settle_calls r cs p) = pl_respawnAttempts p"
  "pl_results (settle_calls r cs p) = pl_results p @ map (\<lambda>c. (c, r)) cs"
  by (simp_all add: settle_calls_def)

lemma pool_ok_settle [simp]: "pool_ok (settle_calls r cs p) = pool_ok p"
  by (simp add: pool_ok_def)

text \<open>Releasing a worker that is known, runs nothing and is not idle.\<close>

definition pool_ok_but :: "nat \<Rightarrow> pool \<Rightarrow> bool" where
  "pool_ok_but w p \<longleftrightarrow>
     distinct (pl_workers p) \<and> distinct (pl_idle p) \<and> set (pl_idle p) \<subseteq> set (pl_workers p) - {w} \<and>
     (\<forall>v \<in> set (pl_idle p). \<not> pl_dead p v \<and> pl_inFlight p v = None) \<and>
     (\<forall>v. pl_inFlight p v \<noteq> None \<longrightarrow> v \<in> set (pl_workers p) \<and> \<not> pl_dead p v) \<and>
     (\<forall>v \<in> set (pl_workers p). v = w \<or> pl_dead p v \<or> v \<in> set (pl_idle p) \<or> pl_inFlight p v \<noteq> None) \<and>
     pl_inFlight p w = None \<and>
     (pl_idle p = [] \<or> pl_waiters p = []) \<and>
     (pl_shuttingDown p \<longrightarrow> pl_workers p = [] \<and> pl_waiters p = []) \<and>
     pl_respawnAttempts p \<le> pl_size p * 5"

lemma pool_ok_release: "pool_ok_but w p \<Longrightarrow> pool_ok (pool_release w p)"
proof (cases "pl_waiters p")
  case Nil
  assume "pool_ok_but w p"
  with Nil show ?thesis
    by (auto simp: pool_ok_def pool_ok_but_def pool_release_def post_call_def)
next
  case (Cons c cs)
  assume "pool_ok_but w p"
  with Cons show ?thesis
    by (auto simp: pool_ok_def pool_ok_but_def pool_release_def post_call_def)
qed

lemma pool_ok_end:
  assumes "pool_ok p"
  shows "pool_ok (end_call r w p)"
proof (cases "pl_inFlight p w")
  case (Some c)
  with assms have "pool_ok_but w ((settle_calls r [c] p)\<lparr>pl_inFlight := (pl_inFlight p)(w := None)\<rparr>)"
    by (auto simp: pool_ok_def pool_ok_but_def)
  with Some show ?thesis by (simp add: end_call_def pool_ok_release)
qed (use assms in \<open>simp add: end_call_def\<close>)

text \<open>A call on a worker marked dead ends without releasing it.\<close>

lemma end_call_dead:
  "end_call r w (mark_dead w p) =
     (case pl_inFlight p w of None \<Rightarrow> mark_dead w p
      | Some c \<Rightarrow> (settle_calls r [c] (mark_dead w p))\<lparr>pl_inFlight := (pl_inFlight p)(w := None)\<rparr>)"
  by (auto simp: end_call_def mark_dead_def pool_release_def split: option.splits)

lemma pool_ok_timeout: "pool_ok p \<Longrightarrow> pool_ok (call_timeout w p)"
  unfolding call_timeout_def end_call_dead
  by (auto simp: pool_ok_def mark_dead_def split: option.splits)

lemma pool_ok_respawn:
  "pool_ok p \<Longrightarrow> pool_ok (scheduleRespawn now p)"
  by (auto simp: pool_ok_def scheduleRespawn_def rejectAllWaiters_def Let_def)

lemma pool_ok_exit: "pool_ok p \<Longrightarrow> pool_ok (worker_exit now w p)"
  unfolding worker_exit_def Let_def end_call_dead
  by (rule pool_ok_respawn) (auto simp: pool_ok_def mark_dead_def split: option.splits)

lemma pool_ok_shutdown: "pool_ok p \<Longrightarrow> pool_ok (pool_shutdown p)"
  by (auto simp: pool_ok_def pool_shutdown_def rejectAllWaiters_def Let_def)

lemma pool_ok_run: "pool_ok p \<Longrightarrow> pool_ok (pool_run c p)"
  by (cases "pl_idle p") (auto simp: pool_ok_def pool_run_def pool_acquire_def post_call_def)

lemma pool_ok_ready:
  assumes "pool_ok p" "w \<notin> set (pl_workers p)"
  shows "pool_ok (respawn_ready w p)"
proof (cases "pl_shuttingDown p")
  case False
  with assms have "pool_ok_but w (p\<lparr>pl_respawns := pl_respawns p - 1, pl_workers := pl_workers p @ [w]\<rparr>)"
    by (auto simp: pool_ok_def pool_ok_but_def)
  with False show ?thesis by (simp add: respawn_ready_def Let_def pool_ok_release)
qed (use assms in \<open>auto simp: respawn_ready_def pool_ok_def Let_def\<close>)

lemma pool_ok_acquire_timeout: "pool_ok p \<Longrightarrow> pool_ok (acquire_timeout c p)"
  by (auto simp: pool_ok_def acquire_timeout_def)

lemma pool_ok_failed: "pool_ok p \<Longrightarrow> pool_ok (respawn_failed now p)"
  unfolding respawn_failed_def by (rule pool_ok_respawn) (simp add: pool_ok_def)

lemma pool_ok_step: "pool_step p p' \<Longrightarrow> pool_ok p \<Longrightarrow> pool_ok p'"
  by (erule pool_stepE)
    (simp_all add: pool_ok_run pool_ok_end worker_message_def worker_error_def pool_ok_timeout
      pool_ok_acquire_timeout pool_ok_exit pool_ok_ready pool_ok_failed pool_ok_shutdown)

section \<open>Where the calls are\<close>

lemma map_filter_Cons: "List.map_filter f (x # xs) = (case f x of None \<Rightarrow> List.map_filter f xs | Some y \<Rightarrow> y # List.map_filter f xs)"
  by (simp split: option.splits)

lemma running_other: "w \<notin> set ws \<Longrightarrow> List.map_filter (f(w := x)) ws = List.map_filter f ws"
  by (induction ws) (auto split: option.splits)

lemma running_post:
  "distinct ws \<Longrightarrow> w \<in> set ws \<Longrightarrow> f w = None \<Longrightarrow>
     mset (List.map_filter (f(w \<mapsto> c)) ws) = add_mset c (mset (List.map_filter f ws))"
  by (induction ws) (auto simp: running_other split: option.splits)

lemma running_clear:
  "distinct ws \<Longrightarrow> w \<in> set ws \<Longrightarrow> f w = Some c \<Longrightarrow>
     add_mset c (mset (List.map_filter (f(w := None)) ws)) = mset (List.map_filter f ws)"
  by (induction ws) (auto simp: running_other split: option.splits)

lemma running_remove: "f w = None \<Longrightarrow> List.map_filter f (remove1 w ws) = List.map_filter f ws"
  by (induction ws) (auto split: option.splits)

lemma running_append: "f w = None \<Longrightarrow> List.map_filter f (ws @ [w]) = List.map_filter f ws"
  by (induction ws) (auto split: option.splits)

lemma running_none: "List.map_filter (\<lambda>w. if w \<in> set ws then None else f w) ws = []"
  by (simp add: map_filter_def)

lemma settled_mset [simp]: "image_mset fst (image_mset (\<lambda>c. (c, r)) M) = M"
  by (induction M) simp_all

lemma places_release:
  assumes "distinct (pl_workers p)" "pl_inFlight p w = None"
  shows "places (pool_release w p) = places p"
  using assms by (auto simp: places_def pool_release_def post_call_def running_post split: list.splits)

lemma places_end:
  assumes ok: "pool_ok p"
  shows "places (end_call r w p) = places p"
proof (cases "pl_inFlight p w")
  case (Some c)
  from ok Some have w: "distinct (pl_workers p)" "w \<in> set (pl_workers p)" by (auto simp: pool_ok_def)
  have "places (end_call r w p) = places ((settle_calls r [c] p)\<lparr>pl_inFlight := (pl_inFlight p)(w := None)\<rparr>)"
    using Some w(1) by (simp add: end_call_def places_release)
  also have "\<dots> = places p"
    using running_clear [where f = "pl_inFlight p", OF w Some] by (simp add: places_def)
  finally show ?thesis .
qed (simp add: end_call_def)

lemma places_end_dead:
  assumes "pool_ok p"
  shows "places (end_call r w (mark_dead w p)) = places p"
proof (cases "pl_inFlight p w")
  case (Some c)
  from assms Some have w: "distinct (pl_workers p)" "w \<in> set (pl_workers p)" by (auto simp: pool_ok_def)
  show ?thesis
    using running_clear [where f = "pl_inFlight p", OF w Some]
    unfolding end_call_dead by (simp add: Some places_def mark_dead_def settle_calls_def)
next
  case None
  then show ?thesis unfolding end_call_dead by (simp add: places_def mark_dead_def)
qed

lemma places_respawn: "places (scheduleRespawn now p) = places p"
  by (simp add: scheduleRespawn_def Let_def rejectAllWaiters_def places_def)

lemma inFlight_end_dead: "pl_inFlight (end_call r w (mark_dead w p)) w = None"
  unfolding end_call_dead by (auto simp: mark_dead_def split: option.splits)

lemma places_exit: "pool_ok p \<Longrightarrow> places (worker_exit now w p) = places p"
  unfolding worker_exit_def Let_def places_respawn
  by (subst places_end_dead [symmetric, of p "CallErr PoolWorkerExited" w], assumption)
    (simp add: places_def running_remove inFlight_end_dead)

lemma places_shutdown: "places (pool_shutdown p) = places p"
  by (simp add: pool_shutdown_def Let_def rejectAllWaiters_def places_def running_none comp_def)

lemma places_run:
  assumes "pool_ok p"
  shows "places (pool_run c p) = add_mset c (places p)"
proof (cases "pl_idle p")
  case (Cons w ws)
  with assms have "distinct (pl_workers p)" "w \<in> set (pl_workers p)" "pl_inFlight p w = None"
    by (auto simp: pool_ok_def)
  with Cons show ?thesis
    by (simp add: pool_run_def pool_acquire_def post_call_def places_def running_post)
qed (simp add: pool_run_def pool_acquire_def places_def)

lemma places_acquire_timeout: "places (acquire_timeout c p) = places p"
  by (simp add: acquire_timeout_def places_def)

lemma places_ready:
  assumes "pool_ok p" "w \<notin> set (pl_workers p)"
  shows "places (respawn_ready w p) = places p"
proof -
  from assms have "pl_inFlight p w = None" "distinct (pl_workers p)" by (auto simp: pool_ok_def)
  with assms(2) show ?thesis
    by (simp add: respawn_ready_def Let_def places_release) (simp add: places_def running_append)
qed

lemma places_step:
  assumes "pool_step p p'" "pool_ok p"
  shows "places p' = places p \<or> (\<exists>c. c \<notin># places p \<and> places p' = add_mset c (places p))"
  using assms(1)
proof cases
  case (pool_call c)
  with assms(2) show ?thesis using places_run by blast
next
  case (pool_call_timeout w)
  with assms(2) show ?thesis by (simp add: call_timeout_def places_end_dead)
next
  case (pool_failed now)
  then show ?thesis by (simp add: respawn_failed_def places_respawn) (simp add: places_def)
qed (use assms(2) in \<open>simp_all add: places_end places_exit places_ready places_shutdown
    places_acquire_timeout worker_message_def worker_error_def\<close>)

lemma results_end: "\<exists>xs. pl_results (end_call r w p) = pl_results p @ xs"
  by (auto simp: end_call_def pool_release_def post_call_def split: option.splits list.splits)

lemma results_step: "pool_step p p' \<Longrightarrow> \<exists>xs. pl_results p' = pl_results p @ xs"
proof (erule pool_stepE)
  show "p' = worker_exit now w p \<Longrightarrow> \<exists>xs. pl_results p' = pl_results p @ xs" for now w
    using results_end [of "CallErr PoolWorkerExited" w "mark_dead w p"]
    by (auto simp: worker_exit_def Let_def scheduleRespawn_def rejectAllWaiters_def mark_dead_def)
qed (use results_end [of _ _ "mark_dead _ p"] in \<open>auto simp: pool_run_def pool_acquire_def post_call_def worker_message_def
    worker_error_def call_timeout_def acquire_timeout_def respawn_ready_def respawn_failed_def pool_shutdown_def
    scheduleRespawn_def rejectAllWaiters_def Let_def pool_release_def results_end mark_dead_def split: list.splits\<close>)

definition calls_once :: "pool \<Rightarrow> bool" where
  "calls_once p \<longleftrightarrow> pool_ok p \<and> (\<forall>c. count (places p) c \<le> 1)"

lemma calls_once_init: "distinct ws \<Longrightarrow> calls_once (pool_init n ws)"
  by (simp add: calls_once_def pool_ok_init) (simp add: places_def pool_init_def map_filter_def)

lemma calls_once_step:
  assumes "pool_step p p'" "calls_once p"
  shows "calls_once p' \<and> places p \<subseteq># places p'"
proof -
  from assms(2) have ok: "pool_ok p" and once: "\<And>c. count (places p) c \<le> 1" by (simp_all add: calls_once_def)
  from places_step [OF assms(1) ok] show ?thesis
  proof
    assume "places p' = places p"
    with once pool_ok_step [OF assms(1) ok] show ?thesis by (simp add: calls_once_def)
  next
    assume "\<exists>c. c \<notin># places p \<and> places p' = add_mset c (places p)"
    then obtain c where c: "count (places p) c = 0" "places p' = add_mset c (places p)"
      by (auto simp: not_in_iff)
    with once pool_ok_step [OF assms(1) ok] show ?thesis by (auto simp: calls_once_def)
  qed
qed

definition settled_stay :: "pool \<Rightarrow> pool \<Rightarrow> bool" where
  "settled_stay p p' \<longleftrightarrow> places p \<subseteq># places p' \<and> (\<exists>xs. pl_results p' = pl_results p @ xs)"

interpretation pool_machine: tracked_machine pool_step calls_once settled_stay
proof unfold_locales
  show "settled_stay a b \<Longrightarrow> settled_stay b c \<Longrightarrow> settled_stay a c" for a b c
    unfolding settled_stay_def by (auto intro: subset_mset.order_trans)
qed (auto simp: settled_stay_def dest: calls_once_step results_step)

section \<open>Sample history\<close>

definition sample_pool :: pool where
  "sample_pool = pool_run 12 (pool_run 11 (pool_init 1 [7]))"

lemma sample_pool_run: "pool_step\<^sup>*\<^sup>* (pool_init 1 [7]) sample_pool"
proof -
  have "pool_step (pool_init 1 [7]) (pool_run 11 (pool_init 1 [7]))"
    by (rule pool_call) (simp add: places_def pool_init_def map_filter_def)
  moreover have "pool_step (pool_run 11 (pool_init 1 [7])) sample_pool"
    unfolding sample_pool_def
    by (rule pool_call) (simp add: places_def pool_init_def pool_run_def pool_enabled_def pool_acquire_def
        post_call_def map_filter_def)
  ultimately show ?thesis by (meson rtranclp.rtrancl_into_rtrancl rtranclp.rtrancl_refl)
qed

lemmas pool_eval = sample_pool_def pool_run_def pool_enabled_def pool_acquire_def post_call_def pool_init_def
  end_call_def pool_release_def settle_calls_def worker_message_def worker_error_def mark_dead_def
  worker_exit_def scheduleRespawn_def rejectAllWaiters_def Let_def

section \<open>Properties\<close>

text \<open>The pool stays sound through calls, replies, errors, timeouts, exits, respawns and
  shutdown in any order.  An idle worker is known to the pool, alive and runs nothing; a
  live worker is idle or runs a call, so none leaks; a call runs only on a live worker of
  the pool; no call waits while a worker is idle; the respawn budget is never exceeded; and
  after shutdown nothing waits or runs.\<close>

theorem pool_sound:
  assumes "pool_step\<^sup>*\<^sup>* (pool_init n ws) p" "distinct ws"
  shows "list_all (\<lambda>w. w \<in> set (pl_workers p) \<and> \<not> pl_dead p w \<and> pl_inFlight p w = None) (pl_idle p) \<and>
     list_all (\<lambda>w. pl_dead p w \<or> w \<in> set (pl_idle p) \<or> pl_inFlight p w \<noteq> None) (pl_workers p) \<and>
     dom (pl_inFlight p) \<subseteq> {w \<in> set (pl_workers p). \<not> pl_dead p w} \<and>
     (pl_idle p = [] \<or> pl_waiters p = []) \<and> pl_respawnAttempts p \<le> pl_size p * 5 \<and>
     (pl_shuttingDown p \<longrightarrow> pl_waiters p = [] \<and> pl_inFlight p = Map.empty)"
proof -
  from assms have "calls_once p" using pool_machine.inv_steps calls_once_init by blast
  then show ?thesis by (auto simp: calls_once_def pool_ok_def list_all_iff)
qed

theorem pool_sound_witness:
  "pl_waiters sample_pool = [12] \<and> pl_idle sample_pool = [] \<and> pl_inFlight sample_pool 7 = Some 11"
proof -
  have "distinct [7::nat]" by simp
  from pool_sound [OF sample_pool_run this] have "pl_idle sample_pool = [] \<or> pl_waiters sample_pool = []" by blast
  then show ?thesis by (simp add: pool_eval)
qed

text \<open>C29: No call is lost and none settles twice.  A call that was made is at every later moment
  in exactly one place: parked, in flight or settled; what was settled stays settled with
  its result, in order; and a shutdown settles every call there is.\<close>

theorem pool_loses_no_call:
  assumes "pool_step\<^sup>*\<^sup>* (pool_init n ws) p" "distinct ws" "pool_step\<^sup>*\<^sup>* p p'" "c \<in># places p"
  shows "count (places p') c = 1 \<and> take (length (pl_results p)) (pl_results p') = pl_results p \<and>
     c \<in> fst ` set (pl_results (pool_shutdown p'))"
proof -
  from assms(1,2) have "calls_once p" using pool_machine.inv_steps calls_once_init by blast
  with assms(3) have once: "calls_once p'" and sub: "places p \<subseteq># places p'"
    and pre: "\<exists>xs. pl_results p' = pl_results p @ xs"
    using pool_machine.inv_steps pool_machine.rel_steps by (auto simp: settled_stay_def)
  from sub assms(4) have c: "c \<in># places p'" by (rule mset_subset_eqD)
  moreover from once have "count (places p') c \<le> 1" by (simp add: calls_once_def)
  ultimately have "count (places p') c = 1" by (simp add: le_antisym)
  moreover have "c \<in> fst ` set (pl_results (pool_shutdown p'))"
  proof -
    have "places (pool_shutdown p') = mset (map fst (pl_results (pool_shutdown p')))"
      by (simp add: places_def pool_shutdown_def Let_def rejectAllWaiters_def map_filter_def)
    with c places_shutdown [of p'] show ?thesis by (metis in_image_mset mset_map set_mset_mset)
  qed
  ultimately show ?thesis using pre by auto
qed

theorem pool_loses_no_call_witness:
  "count (places (worker_message True 7 sample_pool)) 12 = 1 \<and>
   pl_inFlight (worker_message True 7 sample_pool) 7 = Some 12"
proof -
  have "pool_step sample_pool (worker_message True 7 sample_pool)"
    by (rule pool_message) (simp add: pool_eval)
  then have run: "pool_step\<^sup>*\<^sup>* sample_pool (worker_message True 7 sample_pool)" by (rule r_into_rtranclp)
  have "12 \<in># places sample_pool" by (simp add: places_def pool_eval)
  from pool_loses_no_call [OF sample_pool_run _ run this] show ?thesis by (simp add: pool_eval)
qed

section \<open>A worker between error and exit\<close>

text \<open>An uncaught error settles the call and releases the worker before its exit marks it dead:
  the next parked call is posted to the dying worker and fails with it.\<close>

lemma dying_worker_reused:
  "pl_results (worker_exit 0 7 (worker_error 7 sample_pool)) =
     [(11, CallErr PoolWorkerError), (12, CallErr PoolWorkerExited)]"
  by (simp add: pool_eval)

end
