(* ===== verification/CircuitBreaker.thy ===== *)
theory CircuitBreaker imports Prelude begin

text \<open>
  The circuit breaker of chat calls (\<open>src/ai/circuit-breaker.ts\<close>): its settings, one state
  per (provider, model) route, and the three reports that move it.  A call is a sequence of
  \<open>allow\<close> and, when admitted, one report; calls of one route may overlap.
\<close>

datatype breaker_mode = BrClosed | BrOpen | BrHalfOpen

record breaker_settings =
  bs_failures :: nat
  bs_cooldownMs :: int

text \<open>\<open>parse\<close> is \<open>Number.parseInt\<close> in base ten, None for NaN.\<close>

definition breaker_int :: "(string \<Rightarrow> int option) \<Rightarrow> string option \<Rightarrow> int \<Rightarrow> int" where
  "breaker_int parse raw dflt =
     (case parse (case raw of None \<Rightarrow> [] | Some s \<Rightarrow> s) of
        None \<Rightarrow> dflt
      | Some n \<Rightarrow> if 0 < n then n else dflt)"

definition breakerSettings ::
    "(string \<Rightarrow> int option) \<Rightarrow> (string \<Rightarrow> string option) \<Rightarrow> breaker_settings" where
  "breakerSettings parse read =
     \<lparr>bs_failures = nat (breaker_int parse (read ''LLM_BREAKER_FAILURES'') 5),
      bs_cooldownMs = breaker_int parse (read ''LLM_BREAKER_COOLDOWN_MS'') 30000\<rparr>"

record breaker =
  br_state :: breaker_mode
  br_consecutive :: nat
  br_openedAt :: int
  br_probing :: bool

definition breaker_new :: breaker where
  "breaker_new = \<lparr>br_state = BrClosed, br_consecutive = 0, br_openedAt = 0, br_probing = False\<rparr>"

definition allow :: "breaker_settings \<Rightarrow> int \<Rightarrow> breaker \<Rightarrow> bool \<times> breaker" where
  "allow cfg now b =
     (if br_state b = BrClosed then (True, b)
      else if br_state b = BrOpen \<and> now - br_openedAt b < bs_cooldownMs cfg then (False, b)
      else let b1 = (if br_state b = BrOpen then b\<lparr>br_state := BrHalfOpen, br_probing := False\<rparr> else b)
           in if br_probing b1 then (False, b1) else (True, b1\<lparr>br_probing := True\<rparr>))"

definition onSuccess :: "breaker \<Rightarrow> breaker" where
  "onSuccess b = b\<lparr>br_state := BrClosed, br_consecutive := 0, br_probing := False\<rparr>"

definition onFailure :: "breaker_settings \<Rightarrow> int \<Rightarrow> breaker \<Rightarrow> breaker" where
  "onFailure cfg now b =
     (let b1 = b\<lparr>br_consecutive := br_consecutive b + 1\<rparr>
      in if br_state b1 = BrHalfOpen \<or> bs_failures cfg \<le> br_consecutive b1
         then b1\<lparr>br_state := BrOpen, br_openedAt := now, br_probing := False\<rparr>
         else b1)"

definition onNeutral :: "breaker \<Rightarrow> breaker" where
  "onNeutral b = b\<lparr>br_probing := False\<rparr>"

text \<open>One breaker per route, made on first use.\<close>

definition breakerFor :: "string \<Rightarrow> (string \<rightharpoonup> breaker) \<Rightarrow> breaker \<times> (string \<rightharpoonup> breaker)" where
  "breakerFor route m =
     (case m route of Some b \<Rightarrow> (b, m) | None \<Rightarrow> (breaker_new, m(route \<mapsto> breaker_new)))"

section \<open>Histories of one route\<close>

datatype report = RSuccess | RFailure int | RNeutral

definition apply_report :: "breaker_settings \<Rightarrow> report \<Rightarrow> breaker \<Rightarrow> breaker" where
  "apply_report cfg r b =
     (case r of RSuccess \<Rightarrow> onSuccess b | RFailure now \<Rightarrow> onFailure cfg now b | RNeutral \<Rightarrow> onNeutral b)"

datatype call_event = EAllow int | EReport report

definition apply_event :: "breaker_settings \<Rightarrow> call_event \<Rightarrow> breaker \<Rightarrow> breaker" where
  "apply_event cfg e b = (case e of EAllow now \<Rightarrow> snd (allow cfg now b) | EReport r \<Rightarrow> apply_report cfg r b)"

definition breaker_inv :: "breaker_settings \<Rightarrow> breaker \<Rightarrow> bool" where
  "breaker_inv cfg b \<longleftrightarrow>
     (br_state b = BrClosed \<longrightarrow> \<not> br_probing b \<and> br_consecutive b < bs_failures cfg) \<and>
     (br_state b = BrOpen \<longrightarrow> \<not> br_probing b)"

lemma settings_positive: "0 < bs_failures (breakerSettings parse read) \<and> 0 < bs_cooldownMs (breakerSettings parse read)"
  by (auto simp: breakerSettings_def breaker_int_def split: option.splits)

lemma breaker_inv_new: "0 < bs_failures cfg \<Longrightarrow> breaker_inv cfg breaker_new"
  by (simp add: breaker_inv_def breaker_new_def)

lemma breaker_inv_event: "0 < bs_failures cfg \<Longrightarrow> breaker_inv cfg b \<Longrightarrow> breaker_inv cfg (apply_event cfg e b)"
  by (cases "br_state b")
    (auto simp: breaker_inv_def apply_event_def apply_report_def allow_def onSuccess_def onFailure_def
      onNeutral_def Let_def split: call_event.splits report.splits if_splits)

lemma breaker_inv_events:
  "0 < bs_failures cfg \<Longrightarrow> breaker_inv cfg b \<Longrightarrow> breaker_inv cfg (fold (apply_event cfg) es b)"
  by (induction es arbitrary: b) (simp_all add: breaker_inv_event)

text \<open>Calls admitted in a sequence of attempts with no report between them.\<close>

fun admitted :: "breaker_settings \<Rightarrow> int list \<Rightarrow> breaker \<Rightarrow> int list" where
  "admitted cfg [] b = []"
| "admitted cfg (t # ts) b =
     (case allow cfg t b of (ok, b') \<Rightarrow> if ok then t # admitted cfg ts b' else admitted cfg ts b')"

lemma admitted_closed: "br_state b = BrClosed \<Longrightarrow> admitted cfg ts b = ts"
  by (induction ts) (auto simp: allow_def)

lemma admitted_probing: "br_state b = BrHalfOpen \<Longrightarrow> br_probing b \<Longrightarrow> admitted cfg ts b = []"
  by (induction ts) (auto simp: allow_def Let_def)

lemma admitted_cons:
  "br_state b \<noteq> BrClosed \<Longrightarrow> br_probing b = False \<Longrightarrow>
   admitted cfg (t # ts) b =
     (if br_state b = BrOpen \<and> t - br_openedAt b < bs_cooldownMs cfg then admitted cfg ts b else [t])"
  by (cases "br_state b") (auto simp: allow_def Let_def admitted_probing)

lemma admitted_open:
  "br_state b = BrOpen \<Longrightarrow> br_probing b = False \<Longrightarrow>
   admitted cfg ts b = (case filter (\<lambda>t. bs_cooldownMs cfg \<le> t - br_openedAt b) ts of [] \<Rightarrow> [] | t # _ \<Rightarrow> [t])"
  by (induction ts) (auto simp: admitted_cons simp del: admitted.simps(2))

text \<open>Failures in a row on a closed breaker.\<close>

lemma failures_closed:
  assumes "br_state b = BrClosed" "br_consecutive b + length ts < bs_failures cfg"
  shows "fold (onFailure cfg) ts b = b\<lparr>br_consecutive := br_consecutive b + length ts\<rparr>"
  using assms by (induction ts arbitrary: b) (simp_all add: onFailure_def Let_def)

section \<open>Properties\<close>

definition sample_settings :: breaker_settings where
  "sample_settings = \<lparr>bs_failures = 2, bs_cooldownMs = 100\<rparr>"

text \<open>The breaker opens after exactly the configured number of consecutive failures and then
  sheds load: whatever happened on the route before its last success, fewer failures leave
  it closed, and after the last of them no call is admitted until the cool-down is over,
  when of all the callers one is let through as the probe.\<close>

theorem breaker_opens_and_probes:
  assumes "b0 = onSuccess b" "length ts + 1 = bs_failures cfg"
  shows "br_state (fold (onFailure cfg) ts b0) = BrClosed \<and>
     br_state (onFailure cfg t (fold (onFailure cfg) ts b0)) = BrOpen \<and>
     admitted cfg calls (onFailure cfg t (fold (onFailure cfg) ts b0)) =
       (case filter (\<lambda>u. bs_cooldownMs cfg \<le> u - t) calls of [] \<Rightarrow> [] | u # _ \<Rightarrow> [u])"
proof -
  have closed: "br_state b0 = BrClosed" "br_consecutive b0 = 0" "\<not> br_probing b0"
    using assms(1) by (simp_all add: onSuccess_def)
  have eq: "fold (onFailure cfg) ts b0 = b0\<lparr>br_consecutive := length ts\<rparr>"
    using failures_closed [of b0 ts cfg] closed assms(2) by simp
  have opened: "onFailure cfg t (fold (onFailure cfg) ts b0) =
      b0\<lparr>br_consecutive := bs_failures cfg, br_state := BrOpen, br_openedAt := t, br_probing := False\<rparr>"
    unfolding eq using assms(2) by (simp add: onFailure_def Let_def)
  show ?thesis
    unfolding opened unfolding eq using closed by (simp add: admitted_open)
qed

theorem breaker_opens_and_probes_witness:
  "admitted sample_settings [20, 109, 120, 130] (onFailure sample_settings 10 (onFailure sample_settings 5 (onSuccess breaker_new))) = [120]"
proof -
  have "length [5::int] + 1 = bs_failures sample_settings" by (simp add: sample_settings_def)
  from breaker_opens_and_probes [OF refl this, of breaker_new 10 "[20, 109, 120, 130]"]
  show ?thesis by (simp add: sample_settings_def)
qed

text \<open>In every history of a route, under whatever settings the environment gives (the code
  falls back to positive defaults), a closed breaker has fewer consecutive failures than its
  threshold and admits every call without changing, and no probe is held unless the breaker
  is half-open.\<close>

lemma breaker_consistent:
  assumes "b = fold (apply_event (breakerSettings parse read)) history breaker_new"
  shows "(br_state b = BrClosed \<longrightarrow>
       br_consecutive b < bs_failures (breakerSettings parse read) \<and>
       allow (breakerSettings parse read) now b = (True, b)) \<and>
     (br_probing b \<longrightarrow> br_state b = BrHalfOpen)"
proof -
  have "breaker_inv (breakerSettings parse read) b"
    unfolding assms using settings_positive by (intro breaker_inv_events breaker_inv_new) simp_all
  then show ?thesis
    by (cases "br_state b") (auto simp: breaker_inv_def allow_def)
qed

text \<open>A probe decides.  A breaker that is not closed and admits a call admits no second call while this probe is out; after the probe's success every call is admitted, its failure opens it for a full further cool-down, and a call that ended with
  neither verdict leaves it half-open with the probe free for the next caller.\<close>

theorem probe_decides:
  assumes "br_state b \<noteq> BrClosed" "allow cfg now b = (True, b1)"
  shows "br_state b1 = BrHalfOpen \<and> admitted cfg calls b1 = [] \<and>
     admitted cfg calls (onSuccess b1) = calls \<and>
     admitted cfg calls (onFailure cfg t b1) =
       (case filter (\<lambda>u. bs_cooldownMs cfg \<le> u - t) calls of [] \<Rightarrow> [] | u # _ \<Rightarrow> [u]) \<and>
     admitted cfg calls (onNeutral b1) = take 1 calls"
proof -
  from assms have b1: "br_state b1 = BrHalfOpen" "br_probing b1"
    by (cases "br_state b"; auto simp: allow_def Let_def split: if_splits)+
  have "admitted cfg calls (onNeutral b1) = take 1 calls"
    by (cases calls) (use b1 in \<open>auto simp: onNeutral_def admitted_cons simp del: admitted.simps(2)\<close>)
  moreover have "onFailure cfg t b1 = b1\<lparr>br_consecutive := br_consecutive b1 + 1, br_state := BrOpen,
      br_openedAt := t, br_probing := False\<rparr>"
    using b1 by (simp add: onFailure_def Let_def)
  ultimately show ?thesis
    using b1 by (simp add: admitted_probing admitted_open admitted_closed onSuccess_def)
qed

theorem probe_decides_witness:
  "admitted sample_settings [130] (snd (allow sample_settings 120 (fold (apply_event sample_settings)
     [EReport (RFailure 5), EReport (RFailure 10)] breaker_new))) = []"
proof -
  let ?b = "fold (apply_event sample_settings) [EReport (RFailure 5), EReport (RFailure 10)] breaker_new"
  have b: "?b = \<lparr>br_state = BrOpen, br_consecutive = 2, br_openedAt = 10, br_probing = False\<rparr>"
    by (simp add: apply_event_def apply_report_def onFailure_def breaker_new_def sample_settings_def Let_def)
  then have "br_state ?b \<noteq> BrClosed" by simp
  moreover have "allow sample_settings 120 ?b = (True, snd (allow sample_settings 120 ?b))"
    unfolding b by (simp add: allow_def sample_settings_def Let_def)
  ultimately show ?thesis
    using probe_decides by blast
qed

end
