(* ===== verification/TenantBudget.thy ===== *)
theory TenantBudget imports Prelude begin

text \<open>
  The daily model budget of a tenant (\<open>src/ai/tenant-llm-budget.ts\<close>) and the flush that shares
  it between replicas (\<open>src/ai/tenant-spend-flush.service.ts\<close>).  A replica keeps an
  insertion-ordered map from tenants to the spend of one day; the shared table has a row per
  (tenant, day).  \<open>day\<close> is the UTC day of the call.  The flush is given by its synchronous
  blocks, since charges run between its statements.  The sweep of old rows is left out.
\<close>

record spend =
  sp_day :: string
  sp_shared :: nat
  sp_pending :: nat

record spend_row =
  sr_tenant :: string
  sr_day :: string
  sr_tokens :: nat

type_synonym spend_map = "(string \<times> spend) list"

text \<open>\<open>parse\<close> is \<open>Number.parseInt\<close> in base ten, None for NaN.\<close>

definition tenantDailyTokenBudget :: "(string \<Rightarrow> int option) \<Rightarrow> string option \<Rightarrow> nat" where
  "tenantDailyTokenBudget parse raw =
     (case parse (case raw of None \<Rightarrow> ''0'' | Some s \<Rightarrow> s) of
        None \<Rightarrow> 0
      | Some n \<Rightarrow> if 0 < n then nat n else 0)"

text \<open>The entry of the day, made anew when there is none or it is of another day.\<close>

definition current :: "string \<Rightarrow> string \<Rightarrow> spend_map \<Rightarrow> spend \<times> spend_map" where
  "current tenant day m =
     (let fresh = \<lparr>sp_day = day, sp_shared = 0, sp_pending = 0\<rparr>
      in case map_of m tenant of
           None \<Rightarrow> (fresh, AList.update tenant fresh m)
         | Some s \<Rightarrow> if sp_day s \<noteq> day then (fresh, AList.update tenant fresh m) else (s, m))"

definition with_current :: "string \<Rightarrow> string \<Rightarrow> (spend \<Rightarrow> spend) \<Rightarrow> spend_map \<Rightarrow> spend_map" where
  "with_current tenant day f m =
     (case current tenant day m of (s, m') \<Rightarrow> AList.update tenant (f s) m')"

definition tenantTokensToday :: "string \<Rightarrow> string \<Rightarrow> spend_map \<Rightarrow> nat \<times> spend_map" where
  "tenantTokensToday tenant day m =
     (case current tenant day m of (s, m') \<Rightarrow> (sp_shared s + sp_pending s, m'))"

definition chargeTenant :: "string \<Rightarrow> nat \<Rightarrow> string \<Rightarrow> spend_map \<Rightarrow> spend_map" where
  "chargeTenant tenant tokens day m =
     (if \<not> 0 < tokens then m
      else with_current tenant day (\<lambda>s. s\<lparr>sp_pending := sp_pending s + tokens\<rparr>) m)"

definition tenantOverBudget :: "string \<Rightarrow> nat \<Rightarrow> string \<Rightarrow> spend_map \<Rightarrow> bool \<times> spend_map" where
  "tenantOverBudget tenant budget day m =
     (if \<not> 0 < budget then (False, m)
      else case tenantTokensToday tenant day m of (n, m') \<Rightarrow> (budget \<le> n, m'))"

definition takePendingSpend :: "spend_map \<Rightarrow> spend_row list \<times> spend_map" where
  "takePendingSpend m =
     (List.map_filter (\<lambda>(t, s). if 0 < sp_pending s
         then Some \<lparr>sr_tenant = t, sr_day = sp_day s, sr_tokens = sp_pending s\<rparr> else None) m,
      map (\<lambda>(t, s). (t, s\<lparr>sp_pending := 0\<rparr>)) m)"

text \<open>\<open>current\<close> has just made the entry one of the row's day, so its test always holds.\<close>

definition restorePendingSpend :: "spend_row list \<Rightarrow> spend_map \<Rightarrow> spend_map" where
  "restorePendingSpend rows m =
     fold (\<lambda>r. with_current (sr_tenant r) (sr_day r)
       (\<lambda>s. if sp_day s = sr_day r then s\<lparr>sp_pending := sp_pending s + sr_tokens r\<rparr> else s)) rows m"

definition applySharedSpend :: "string \<Rightarrow> string \<Rightarrow> int \<Rightarrow> spend_map \<Rightarrow> spend_map" where
  "applySharedSpend tenant day tot m =
     with_current tenant day (\<lambda>s. if sp_day s = day then s\<lparr>sp_shared := nat (max 0 tot)\<rparr> else s) m"

definition tenantsSeen :: "string \<Rightarrow> spend_map \<Rightarrow> string list" where
  "tenantsSeen day m = map fst (filter (\<lambda>(t, s). sp_day s = day) m)"

section \<open>The flush\<close>

type_synonym spend_table = "string \<times> string \<Rightarrow> nat"

definition flush_begin :: "string \<Rightarrow> spend_map \<Rightarrow> (spend_row list \<times> string list) \<times> spend_map" where
  "flush_begin day m =
     (case takePendingSpend m of
        (pending, m') \<Rightarrow> ((pending, dedupe (tenantsSeen day m' @ map sr_tenant pending)), m'))"

definition upsert_row :: "spend_row \<Rightarrow> spend_table \<Rightarrow> spend_table" where
  "upsert_row r db = db((sr_tenant r, sr_day r) := db (sr_tenant r, sr_day r) + sr_tokens r)"

definition read_back :: "string \<Rightarrow> string \<Rightarrow> spend_table \<Rightarrow> spend_map \<Rightarrow> spend_map" where
  "read_back tenant day db m = applySharedSpend tenant day (int (db (tenant, day))) m"

text \<open>A whole flush with nothing between its statements.  \<open>fails_at\<close> is how many of its
  statements (one per pending row, then one per tenant) the database answers before one
  fails; without it all succeed.\<close>

definition flush ::
    "nat option \<Rightarrow> string \<Rightarrow> spend_map \<times> spend_table \<Rightarrow> spend_map \<times> spend_table" where
  "flush fails_at day st =
     (case st of (m, db) \<Rightarrow>
        (case flush_begin day m of
           ((pending, tenants), m1) \<Rightarrow>
             if tenants = [] then (m1, db)
             else (case fails_at of
               None \<Rightarrow> (let db1 = fold upsert_row pending db
                        in (fold (\<lambda>t. read_back t day db1) tenants m1, db1))
             | Some k \<Rightarrow> (let db1 = fold upsert_row (take k pending) db;
                             m2 = fold (\<lambda>t. read_back t day db1) (take (k - length pending) tenants) m1
                         in (restorePendingSpend pending m2, db1)))))"

section \<open>Histories of one day\<close>

text \<open>One replica, the shared table, the flushes under way - a timer starts one whether or not the last
  has ended - and what all replicas together have charged to each tenant.  A flush may fail at any
  statement, also one that took effect; it then hands back all its rows, and what of them had been added
  counts as doubled.  The other replicas add rows for the first time or again.\<close>

record flight =
  fl_added :: "spend_row list"
  fl_todo :: "spend_row list"
  fl_reads :: "string list"

record budget_sys =
  sy_mem :: spend_map
  sy_db :: spend_table
  sy_flights :: "flight list"
  sy_charged :: "string \<Rightarrow> nat"
  sy_doubled :: "string \<Rightarrow> nat"

definition rows_for :: "spend_row list \<Rightarrow> string \<Rightarrow> nat" where
  "rows_for rows t = sum_list (map sr_tokens (filter (\<lambda>r. sr_tenant r = t) rows))"

definition travelling :: "flight list \<Rightarrow> string \<Rightarrow> nat" where
  "travelling fs t = sum_list (map (\<lambda>f. rows_for (fl_todo f) t) fs)"

inductive spend_step :: "string \<Rightarrow> budget_sys \<Rightarrow> budget_sys \<Rightarrow> bool" for day where
  spend_charge: "spend_step day s (s\<lparr>sy_mem := chargeTenant t n day (sy_mem s),
     sy_charged := (sy_charged s)(t := sy_charged s t + n)\<rparr>)"
| spend_check: "spend_step day s (s\<lparr>sy_mem := snd (tenantOverBudget t budget day (sy_mem s))\<rparr>)"
| spend_others: "spend_step day s (s\<lparr>sy_db := upsert_row \<lparr>sr_tenant = t, sr_day = day, sr_tokens = n\<rparr> (sy_db s),
     sy_charged := (sy_charged s)(t := sy_charged s t + n)\<rparr>)"
| spend_others_again: "spend_step day s (s\<lparr>sy_db := upsert_row \<lparr>sr_tenant = t, sr_day = day, sr_tokens = n\<rparr> (sy_db s),
     sy_doubled := (sy_doubled s)(t := sy_doubled s t + n)\<rparr>)"
| spend_begin: "flush_begin day (sy_mem s) = ((pending, tenants), m') \<Longrightarrow>
     spend_step day s (s\<lparr>sy_mem := m',
       sy_flights := sy_flights s @ [\<lparr>fl_added = [], fl_todo = pending, fl_reads = tenants\<rparr>]\<rparr>)"
| spend_upsert: "sy_flights s = fs @ f # fs' \<Longrightarrow> fl_todo f = r # rs \<Longrightarrow>
     spend_step day s (s\<lparr>sy_db := upsert_row r (sy_db s),
       sy_flights := fs @ f\<lparr>fl_added := fl_added f @ [r], fl_todo := rs\<rparr> # fs'\<rparr>)"
| spend_read: "sy_flights s = fs @ f # fs' \<Longrightarrow> fl_todo f = [] \<Longrightarrow> fl_reads f = t # ts \<Longrightarrow>
     spend_step day s (s\<lparr>sy_mem := read_back t day (sy_db s) (sy_mem s),
       sy_flights := fs @ f\<lparr>fl_reads := ts\<rparr> # fs'\<rparr>)"
| spend_end: "sy_flights s = fs @ f # fs' \<Longrightarrow> fl_todo f = [] \<Longrightarrow> fl_reads f = [] \<Longrightarrow>
     spend_step day s (s\<lparr>sy_flights := fs @ fs'\<rparr>)"
| spend_fail: "sy_flights s = fs @ f # fs' \<Longrightarrow>
     spend_step day s (s\<lparr>sy_mem := restorePendingSpend (fl_added f @ fl_todo f) (sy_mem s),
       sy_flights := fs @ fs', sy_doubled := (\<lambda>t. sy_doubled s t + rows_for (fl_added f) t)\<rparr>)"

inductive_cases spend_stepE: "spend_step day s s'"

definition spend_start :: "budget_sys" where
  "spend_start = \<lparr>sy_mem = [], sy_db = (\<lambda>_. 0), sy_flights = [], sy_charged = (\<lambda>_. 0), sy_doubled = (\<lambda>_. 0)\<rparr>"

definition pending_of :: "spend_map \<Rightarrow> string \<Rightarrow> nat" where
  "pending_of m t = (case map_of m t of None \<Rightarrow> 0 | Some s \<Rightarrow> sp_pending s)"

definition shared_of :: "spend_map \<Rightarrow> string \<Rightarrow> nat" where
  "shared_of m t = (case map_of m t of None \<Rightarrow> 0 | Some s \<Rightarrow> sp_shared s)"

definition on_day :: "string \<Rightarrow> spend_map \<Rightarrow> bool" where
  "on_day day m \<longleftrightarrow> distinct (map fst m) \<and> list_all (\<lambda>(t, s). sp_day s = day) m"

text \<open>What is added, on its way and pending is what was charged and what was doubled; the total read
  back is not above the shared one.\<close>

definition balanced :: "string \<Rightarrow> budget_sys \<Rightarrow> string \<Rightarrow> bool" where
  "balanced day s t \<longleftrightarrow>
     sy_db s (t, day) + travelling (sy_flights s) t + pending_of (sy_mem s) t = sy_charged s t + sy_doubled s t \<and>
     shared_of (sy_mem s) t \<le> sy_db s (t, day)"

definition flight_ok :: "string \<Rightarrow> flight \<Rightarrow> bool" where
  "flight_ok day f \<longleftrightarrow> list_all (\<lambda>r. sr_day r = day) (fl_added f @ fl_todo f)"

definition spend_ok :: "string \<Rightarrow> budget_sys \<Rightarrow> bool" where
  "spend_ok day s \<longleftrightarrow> on_day day (sy_mem s) \<and> list_all (flight_ok day) (sy_flights s) \<and> (\<forall>t. balanced day s t)"

lemma travelling_simps [simp]:
  "travelling [] t = 0" "travelling (f # fs) t = rows_for (fl_todo f) t + travelling fs t"
  "travelling (fs @ fs') t = travelling fs t + travelling fs' t"
  by (simp_all add: travelling_def)

section \<open>Entries of one day\<close>

lemma on_day_map_of: "on_day day m \<Longrightarrow> map_of m t = Some s \<Longrightarrow> sp_day s = day"
  by (auto simp: on_day_def list_all_iff dest!: map_of_SomeD)

lemma on_day_update: "on_day day m \<Longrightarrow> sp_day s = day \<Longrightarrow> on_day day (AList.update t s m)"
proof -
  assume m: "on_day day m" "sp_day s = day"
  have "set (AList.update t s m) \<subseteq> insert (t, s) (set m)"
    by (induction m) auto
  with m show ?thesis by (auto simp: on_day_def list_all_iff distinct_update)
qed

text \<open>Within a day \<open>with_current\<close> changes one entry.\<close>

lemma with_current_day:
  assumes "on_day day m" "\<And>s. sp_day s = day \<Longrightarrow> sp_day (f s) = day"
  shows "on_day day (with_current t day f m)"
    and "map_of (with_current t day f m) =
      (map_of m)(t \<mapsto> f (case map_of m t of None \<Rightarrow> \<lparr>sp_day = day, sp_shared = 0, sp_pending = 0\<rparr> | Some s \<Rightarrow> s))"
  using assms on_day_map_of [OF assms(1), of t]
  by (auto simp: with_current_def current_def Let_def on_day_update split: option.splits)

lemma pending_with_current:
  assumes "on_day day m" "\<And>s. sp_day s = day \<Longrightarrow> sp_day (f s) = day"
    and "\<And>s. sp_pending (f s) = sp_pending s + n"
  shows "pending_of (with_current t day f m) u = pending_of m u + (if u = t then n else 0)"
  using assms(3) by (simp add: pending_of_def with_current_day [OF assms(1,2)] split: option.splits)

lemma shared_with_current:
  assumes "on_day day m" "\<And>s. sp_day s = day \<Longrightarrow> sp_day (f s) = day"
    and "\<And>s. sp_shared (f s) = sp_shared s"
  shows "shared_of (with_current t day f m) u = shared_of m u"
  using assms(3) by (simp add: shared_of_def with_current_day [OF assms(1,2)] split: option.splits)

lemma current_day:
  assumes "on_day day m"
  shows "on_day day (snd (current t day m))"
    and "pending_of (snd (current t day m)) u = pending_of m u"
    and "shared_of (snd (current t day m)) u = shared_of m u"
    and "sp_shared (fst (current t day m)) + sp_pending (fst (current t day m)) = shared_of m t + pending_of m t"
  using on_day_map_of [OF assms, of t] assms
  by (auto simp: current_def Let_def on_day_update pending_of_def shared_of_def split: option.splits)

lemma charge_day:
  assumes "on_day day m"
  shows "on_day day (chargeTenant t n day m)"
    and "pending_of (chargeTenant t n day m) u = pending_of m u + (if u = t then n else 0)"
    and "shared_of (chargeTenant t n day m) u = shared_of m u"
  using assms
  by (auto simp: chargeTenant_def with_current_day(1) pending_with_current shared_with_current)

lemma check_day:
  assumes "on_day day m"
  shows "on_day day (snd (tenantOverBudget t b day m))"
    and "pending_of (snd (tenantOverBudget t b day m)) u = pending_of m u"
    and "shared_of (snd (tenantOverBudget t b day m)) u = shared_of m u"
    and "fst (tenantOverBudget t b day m) = (0 < b \<and> b \<le> shared_of m t + pending_of m t)"
  using current_day [OF assms, of t] assms
  by (auto simp: tenantOverBudget_def tenantTokensToday_def split: prod.splits)

lemma apply_day:
  assumes "on_day day m"
  shows "on_day day (read_back t day db m)"
    and "pending_of (read_back t day db m) u = pending_of m u"
    and "shared_of (read_back t day db m) u = (if u = t then db (t, day) else shared_of m u)"
  using assms on_day_map_of [OF assms, of t]
  by (auto simp: read_back_def applySharedSpend_def with_current_day pending_of_def shared_of_def
      split: option.splits)

lemma rows_for_Cons [simp]:
  "rows_for [] t = 0"
  "rows_for (r # rs) t = (if sr_tenant r = t then sr_tokens r else 0) + rows_for rs t"
  by (simp_all add: rows_for_def)

lemma rows_for_append [simp]: "rows_for (rs @ rs') t = rows_for rs t + rows_for rs' t"
  by (simp add: rows_for_def)

lemma restore_day:
  assumes "on_day day m" "list_all (\<lambda>r. sr_day r = day) rows"
  shows "on_day day (restorePendingSpend rows m) \<and>
     pending_of (restorePendingSpend rows m) u = pending_of m u + rows_for rows u \<and>
     shared_of (restorePendingSpend rows m) u = shared_of m u"
  using assms
proof (induction rows arbitrary: m)
  case Nil
  then show ?case by (simp add: restorePendingSpend_def)
next
  case (Cons r rows)
  let ?m = "with_current (sr_tenant r) day (\<lambda>s. if sp_day s = day then s\<lparr>sp_pending := sp_pending s + sr_tokens r\<rparr> else s) m"
  have eq: "restorePendingSpend (r # rows) m = restorePendingSpend rows ?m"
    using Cons.prems(2) by (simp add: restorePendingSpend_def)
  have m: "on_day day ?m" using Cons.prems(1) by (intro with_current_day(1)) auto
  have "pending_of ?m u = pending_of m u + (if sr_tenant r = u then sr_tokens r else 0)"
      "shared_of ?m u = shared_of m u"
    using on_day_map_of [OF Cons.prems(1), of u]
    by (auto simp: pending_of_def shared_of_def with_current_day(2) [OF Cons.prems(1)] split: option.splits)
  with Cons.IH [OF m] Cons.prems(2) show ?case unfolding eq by simp
qed

lemma take_day:
  assumes "on_day day m"
  shows "on_day day (snd (takePendingSpend m)) \<and> pending_of (snd (takePendingSpend m)) u = 0 \<and>
     shared_of (snd (takePendingSpend m)) u = shared_of m u \<and>
     list_all (\<lambda>r. sr_day r = day) (fst (takePendingSpend m)) \<and>
     rows_for (fst (takePendingSpend m)) u = pending_of m u"
  using assms
proof (induction m)
  case Nil
  then show ?case by (simp add: takePendingSpend_def on_day_def pending_of_def List.map_filter_def)
next
  case (Cons p m)
  obtain t s where p: "p = (t, s)" by fastforce
  from Cons.prems p have m: "on_day day m" and s: "sp_day s = day" and t: "t \<notin> fst ` set m"
    by (auto simp: on_day_def)
  from t have none: "map_of m t = None" by (simp add: map_of_eq_None_iff)
  have map: "map_of (map (\<lambda>(t, s). (t, s\<lparr>sp_pending := 0\<rparr>)) xs) v =
      map_option (\<lambda>s. s\<lparr>sp_pending := 0\<rparr>) (map_of xs v)" for xs v
    by (induction xs) auto
  have dist: "map (fst \<circ> (\<lambda>(t, s). (t, s\<lparr>sp_pending := 0\<rparr>))) xs = map fst xs" for xs :: "spend_map"
    by (simp add: case_prod_beta comp_def)
  have "map fst (snd (takePendingSpend (p # m))) = map fst (p # m)"
    unfolding takePendingSpend_def snd_conv map_map dist ..
  moreover have "list_all (\<lambda>(t, s). sp_day s = day) (snd (takePendingSpend (p # m)))"
    using Cons.prems by (auto simp: takePendingSpend_def on_day_def list_all_iff)
  ultimately have step: "on_day day (snd (takePendingSpend (p # m)))"
    using Cons.prems unfolding on_day_def by simp
  have rows: "fst (takePendingSpend (p # m)) = (if 0 < sp_pending s
      then [\<lparr>sr_tenant = t, sr_day = day, sr_tokens = sp_pending s\<rparr>] else []) @ fst (takePendingSpend m)"
    by (simp add: takePendingSpend_def p s)
  have absent: "pending_of m t = 0" by (simp add: pending_of_def none)
  show ?case
    using Cons.IH [OF m] step s none
    by (auto simp: rows p takePendingSpend_def map pending_of_def shared_of_def split: option.splits)
qed

lemma spend_ok_start: "spend_ok day spend_start"
  by (simp add: spend_ok_def spend_start_def on_day_def pending_of_def shared_of_def balanced_def)

lemma spend_okI:
  "on_day day (sy_mem s) \<Longrightarrow> list_all (flight_ok day) (sy_flights s) \<Longrightarrow> (\<And>t. balanced day s t) \<Longrightarrow> spend_ok day s"
  by (simp add: spend_ok_def)

lemma spend_ok_step:
  assumes "spend_step day s s'" "spend_ok day s"
  shows "spend_ok day s'"
proof -
  from assms(2) have day: "on_day day (sy_mem s)" and fl: "list_all (flight_ok day) (sy_flights s)"
    and bal: "\<And>t. balanced day s t"
    by (simp_all add: spend_ok_def)
  from assms(1) show ?thesis
  proof cases
    case (spend_begin pending tenants m')
    then have b: "pending = fst (takePendingSpend (sy_mem s))" "m' = snd (takePendingSpend (sy_mem s))"
      by (auto simp: flush_begin_def split: prod.splits)
    show ?thesis
      by (rule spend_okI) (use spend_begin(1) b take_day [OF day] bal fl in
          \<open>simp_all add: balanced_def flight_ok_def add.assoc\<close>)
  next
    case (spend_upsert fs f fs' r rs)
    show ?thesis
    proof (rule spend_okI)
      have r: "sr_day r = day" using spend_upsert fl by (simp add: flight_ok_def)
      show "balanced day s' u" for u using spend_upsert bal [of u] r by (auto simp: balanced_def upsert_row_def)
    qed (use spend_upsert fl day in \<open>simp_all add: flight_ok_def\<close>)
  next
    case (spend_read fs f fs' t ts)
    show ?thesis
      by (rule spend_okI) (use spend_read bal fl in \<open>auto simp: balanced_def flight_ok_def apply_day [OF day]\<close>)
  next
    case (spend_end fs f fs')
    show ?thesis
      by (rule spend_okI) (use spend_end bal fl day in \<open>auto simp: balanced_def flight_ok_def\<close>)
  next
    case (spend_fail fs f fs')
    then have "list_all (\<lambda>r. sr_day r = day) (fl_added f @ fl_todo f)" using fl by (simp add: flight_ok_def)
    note r = restore_day [OF day this]
    show ?thesis
    proof (rule spend_okI)
      show "balanced day s' u" for u using spend_fail bal [of u] r [of u] by (simp add: balanced_def)
    qed (use spend_fail fl r in simp_all)
  next
    case (spend_charge t n)
    show ?thesis
    proof (rule spend_okI)
      show "balanced day s' u" for u using spend_charge bal [of u] by (auto simp: balanced_def charge_day [OF day])
    qed (use spend_charge fl day in \<open>simp_all add: charge_day [OF day]\<close>)
  next
    case (spend_check t budget)
    show ?thesis
    proof (rule spend_okI)
      show "balanced day s' u" for u using spend_check bal [of u] by (auto simp: balanced_def check_day [OF day])
    qed (use spend_check fl day in \<open>simp_all add: check_day [OF day]\<close>)
  next
    case (spend_others t n)
    show ?thesis
    proof (rule spend_okI)
      show "balanced day s' u" for u using spend_others bal [of u] by (auto simp: balanced_def upsert_row_def)
    qed (use spend_others fl day in \<open>simp_all add: upsert_row_def\<close>)
  next
    case (spend_others_again t n)
    show ?thesis
    proof (rule spend_okI)
      show "balanced day s' u" for u using spend_others_again bal [of u] by (auto simp: balanced_def upsert_row_def)
    qed (use spend_others_again fl day in \<open>simp_all add: upsert_row_def\<close>)
  qed
qed

interpretation spend_machine: state_machine "spend_step day" "spend_ok day" for day
  by unfold_locales (rule spend_ok_step)

lemmas spend_ok_steps = spend_machine.inv_steps [OF _ spend_ok_start]

section \<open>A flush\<close>

lemma fold_read_back:
  assumes "on_day day m"
  shows "on_day day (fold (\<lambda>t. read_back t day db) ts m) \<and>
     pending_of (fold (\<lambda>t. read_back t day db) ts m) u = pending_of m u \<and>
     shared_of (fold (\<lambda>t. read_back t day db) ts m) u = (if u \<in> set ts then db (u, day) else shared_of m u)"
  using assms by (induction ts arbitrary: m) (simp_all add: apply_day)

lemma fold_upsert:
  "list_all (\<lambda>r. sr_day r = day) rows \<Longrightarrow> fold upsert_row rows db (u, day) = db (u, day) + rows_for rows u"
  by (induction rows arbitrary: db) (auto simp: upsert_row_def)

lemma rows_for_pos: "0 < rows_for rows u \<Longrightarrow> u \<in> sr_tenant ` set rows"
  by (induction rows) (auto split: if_splits)

section \<open>Properties\<close>

text \<open>C33: No charged token is lost.  Through every history of a day - charges and budget checks on a
  replica, other replicas adding theirs, flushes that overlap and fail at any statement, interleaved with
  all of it - what is stored, on its way and pending adds up to what was charged and, beyond that, to the
  rows a failed flush had already added when it handed them back; a tenant is refused only when this sum
  has reached its budget; without a budget nobody is.\<close>

theorem spend_conserved:
  assumes "(spend_step day)\<^sup>*\<^sup>* spend_start s"
  shows "sy_db s (t, day) + travelling (sy_flights s) t + pending_of (sy_mem s) t = sy_charged s t + sy_doubled s t \<and>
     (fst (tenantOverBudget t budget day (sy_mem s)) \<longrightarrow> 0 < budget \<and> budget \<le> sy_charged s t + sy_doubled s t)"
proof -
  from spend_ok_steps [OF assms] have day: "on_day day (sy_mem s)" and bal: "balanced day s t"
    by (simp_all add: spend_ok_def)
  show ?thesis using bal check_day(4) [OF day, of t budget] by (auto simp: balanced_def)
qed

definition sample_spend :: budget_sys where
  "sample_spend = \<lparr>sy_mem = chargeTenant ''acme'' 70 ''2026-10-28'' [], sy_db = (\<lambda>_. 0), sy_flights = [],
     sy_charged = (\<lambda>_. 0)(''acme'' := 70), sy_doubled = (\<lambda>_. 0)\<rparr>"

theorem spend_conserved_witness:
  "pending_of (sy_mem sample_spend) ''acme'' = 70 \<and>
   fst (tenantOverBudget ''acme'' 50 ''2026-10-28'' (sy_mem sample_spend)) \<and> 50 \<le> sy_charged sample_spend ''acme''"
proof -
  have "spend_step ''2026-10-28'' spend_start sample_spend"
    using spend_charge [of "''2026-10-28''" spend_start "''acme''" 70] by (simp add: spend_start_def sample_spend_def)
  then have run: "(spend_step ''2026-10-28'')\<^sup>*\<^sup>* spend_start sample_spend" by (rule r_into_rtranclp)
  have "fst (tenantOverBudget ''acme'' 50 ''2026-10-28'' (sy_mem sample_spend))"
    by (simp add: sample_spend_def chargeTenant_def with_current_def current_def Let_def tenantOverBudget_def
        tenantTokensToday_def)
  with spend_conserved [OF run, of "''acme''" 50] show ?thesis by (simp add: sample_spend_def)
qed

text \<open>One flush makes a replica agree with the shared table: afterwards each tenant it had an
  entry for has nothing pending, the table has grown by exactly what was pending, and the
  tenant is refused exactly when the stored total has reached the budget.\<close>

theorem flush_shares:
  assumes "on_day day m" "t \<in> fst ` set m" "flush None day (m, db) = (m', db')"
  shows "db' (t, day) = db (t, day) + pending_of m t \<and> pending_of m' t = 0 \<and>
     fst (tenantOverBudget t budget day m') = (0 < budget \<and> budget \<le> db' (t, day))"
proof -
  obtain rows m1 where take: "takePendingSpend m = (rows, m1)" by fastforce
  from take_day [OF assms(1), of t] take have m1: "on_day day m1" "pending_of m1 t = 0"
      "list_all (\<lambda>r. sr_day r = day) rows" "rows_for rows t = pending_of m t" by simp_all
  have "map fst m1 = map fst m" using take by (auto simp: takePendingSpend_def)
  with assms(2) have "t \<in> fst ` set m1" by (metis list.set_map)
  with m1(1) have seen: "t \<in> set (tenantsSeen day m1)"
    by (force simp: tenantsSeen_def on_day_def list_all_iff)
  let ?ts = "dedupe (tenantsSeen day m1 @ map sr_tenant rows)"
  from seen have t: "t \<in> set ?ts" by simp
  then have "?ts \<noteq> []" by (metis empty_iff empty_set)
  with assms(3) take have res: "db' = fold upsert_row rows db"
      "m' = fold (\<lambda>t. read_back t day db') ?ts m1"
    by (auto simp: flush_def flush_begin_def Let_def)
  have "db' (t, day) = db (t, day) + pending_of m t"
    using fold_upsert [OF m1(3)] m1(4) by (simp add: res(1))
  moreover note fold_read_back [OF m1(1), of db' ?ts t, folded res(2)]
  ultimately show ?thesis using t m1(2) check_day(4) [of day m' t budget] by auto
qed

theorem flush_shares_witness:
  "pending_of (fst (flush None ''2026-10-28'' (sy_mem sample_spend, \<lambda>_. 40))) ''acme'' = 0 \<and>
   snd (flush None ''2026-10-28'' (sy_mem sample_spend, \<lambda>_. 40)) (''acme'', ''2026-10-28'') = 110"
proof -
  have m: "sy_mem sample_spend = [(''acme'', \<lparr>sp_day = ''2026-10-28'', sp_shared = 0, sp_pending = 70\<rparr>)]"
    by (simp add: sample_spend_def chargeTenant_def with_current_def current_def Let_def)
  have "on_day ''2026-10-28'' (sy_mem sample_spend)" "''acme'' \<in> fst ` set (sy_mem sample_spend)"
    by (simp_all add: m on_day_def)
  from flush_shares [OF this surjective_pairing, of "\<lambda>_. 40"] show ?thesis by (simp add: m pending_of_def)
qed

section \<open>What a late answer undoes\<close>

text \<open>Restoring or reading back for a day that is over replaces the entry of the new day: what the
  replica has spent since midnight is forgotten, although the test on the day was written to
  leave such an entry alone.\<close>

lemma late_read_forgets_new_day:
  "let m = chargeTenant ''acme'' 70 ''2026-10-29'' [] in
     pending_of m ''acme'' = 70 \<and>
     pending_of (applySharedSpend ''acme'' ''2026-10-28'' 500 m) ''acme'' = 0 \<and>
     tenantTokensToday ''acme'' ''2026-10-29'' (applySharedSpend ''acme'' ''2026-10-28'' 500 m) =
       (0, [(''acme'', \<lparr>sp_day = ''2026-10-29'', sp_shared = 0, sp_pending = 0\<rparr>)])"
  by (simp add: Let_def chargeTenant_def with_current_def current_def applySharedSpend_def pending_of_def
      tenantTokensToday_def)

text \<open>A flush that fails after its rows were added hands all of them back, and the next flush adds
  them again.\<close>

lemma late_failure_counts_twice:
  "let st1 = flush (Some 1) ''2026-10-28'' (sy_mem sample_spend, \<lambda>_. 0);
       st2 = flush None ''2026-10-28'' st1
   in snd st2 (''acme'', ''2026-10-28'') = 140"
  by (simp add: Let_def sample_spend_def chargeTenant_def with_current_def current_def flush_def flush_begin_def
      takePendingSpend_def tenantsSeen_def restorePendingSpend_def upsert_row_def read_back_def
      applySharedSpend_def dedupe_def List.map_filter_def)

end
