(* ===== verification/TextOps.thy ===== *)
theory TextOps imports Prelude begin

text \<open>
  Text operations the identifier grammars share: splitting at the first separator
  (\<open>indexOf\<close> with two \<open>slice\<close>s), the truthiness of an optional string, and appending the
  elements a list does not hold yet.
\<close>

named_theorems scope_simps \<open>facts about scope tags, acting circles and read fences\<close>

fun split_first :: "char \<Rightarrow> string \<Rightarrow> (string \<times> string) option" where
  "split_first c [] = None"
| "split_first c (d # s) =
     (if d = c then Some ([], s) else map_option (apfst ((#) d)) (split_first c s))"

lemma split_first_Some_iff:
  "split_first c s = Some (a, b) \<longleftrightarrow> s = a @ c # b \<and> c \<notin> set a"
proof (induction s arbitrary: a)
  case Nil
  then show ?case by simp
next
  case (Cons d s)
  show ?case
    by (cases a) (auto simp: Cons.IH)
qed

lemma split_first_None_iff: "split_first c s = None \<longleftrightarrow> c \<notin> set s"
  by (induction s) auto

lemma split_first_append [simp]: "c \<notin> set a \<Longrightarrow> split_first c (a @ c # b) = Some (a, b)"
  by (simp add: split_first_Some_iff)

text \<open>An optional string in a condition: absent and empty are both false.\<close>

definition truthy_str :: "string option \<Rightarrow> bool" where
  "truthy_str x \<longleftrightarrow> (case x of None \<Rightarrow> False | Some s \<Rightarrow> s \<noteq> [])"

lemma truthy_str_simps [simp]: "\<not> truthy_str None" "truthy_str (Some s) \<longleftrightarrow> s \<noteq> []"
  by (simp_all add: truthy_str_def)

lemma truthy_strE: "truthy_str x \<Longrightarrow> (\<And>s. x = Some s \<Longrightarrow> s \<noteq> [] \<Longrightarrow> thesis) \<Longrightarrow> thesis"
  by (cases x) auto

text \<open>\<open>if (!out.includes(t)) out.push(t)\<close> for every \<open>t\<close> of a list.\<close>

fun push_new :: "'a list \<Rightarrow> 'a list \<Rightarrow> 'a list" where
  "push_new out [] = out"
| "push_new out (t # ts) = push_new (if t \<in> set out then out else out @ [t]) ts"

lemma set_push_new [simp]: "set (push_new out ts) = set out \<union> set ts"
  by (induction out ts rule: push_new.induct) auto

lemma distinct_push_new: "distinct out \<Longrightarrow> distinct (push_new out ts)"
  by (induction out ts rule: push_new.induct) auto

lemma dedupe_Cons: "dedupe (x # xs) = x # filter (\<lambda>y. y \<noteq> x) (dedupe xs)"
proof (induction xs rule: rev_induct)
  case Nil
  show ?case by (simp add: dedupe_def)
next
  case (snoc y xs)
  have "dedupe (x # xs @ [y]) =
      (if y \<in> set (x # xs) then dedupe (x # xs) else dedupe (x # xs) @ [y])"
    using dedupe_snoc [of "x # xs" y] by simp
  with snoc.IH show ?case by (auto simp: dedupe_snoc)
qed

end
