(* ===== verification/ScopeTags.thy ===== *)
theory ScopeTags imports TextOps EnvFlag JsValue begin

text \<open>
  The scope-tag fences of \<open>src/auth/\<close>: the circle a request or a job acts in
  (\<open>circle-scope.ts\<close>), the ambient write scope (\<open>write-scope.ts\<close>), the tag grammar and the
  scope a write is stamped with (\<open>scope-tags.ts\<close>), the tags a principal holds
  (\<open>scope-principal.ts\<close>), the evaluator and the database clause of the read fence
  (\<open>scope-visibility.ts\<close>).  What the source reads from its async-local stores and from the
  environment at one moment is the record \<open>ambient\<close>; running a function inside a store is
  applying it to the updated record.  Database clauses are values of a datatype with the text
  the source builds and the meaning of that text on a row.
\<close>

record req_ctx =
  ctx_authUserId :: "string option"
  ctx_actingCircle :: "string option"
  ctx_scopeTags :: "(string \<times> string list) list option"  \<comment> \<open>the memo, by user\<close>

record ambient =
  amb_ctx :: "req_ctx option"              \<comment> \<open>the request context, none in the background\<close>
  amb_job :: "string list option"          \<comment> \<open>the circle store of a job\<close>
  amb_write :: "string list option"        \<comment> \<open>the write-scope store\<close>
  amb_env :: "string \<Rightarrow> string option"  \<comment> \<open>the process environment\<close>

definition ctx_field :: "ambient \<Rightarrow> (req_ctx \<Rightarrow> 'a option) \<Rightarrow> 'a option" where
  "ctx_field a f = (case amb_ctx a of None \<Rightarrow> None | Some c \<Rightarrow> f c)"

section \<open>Circles\<close>

definition CIRCLE_NAMESPACE :: string where
  "CIRCLE_NAMESPACE = ''circle''"

definition circleTag :: "string \<Rightarrow> string" where
  "circleTag circleId = CIRCLE_NAMESPACE @ '':'' @ circleId"

definition isCircleTag :: "string \<Rightarrow> bool" where
  "isCircleTag tag = starts_with (CIRCLE_NAMESPACE @ '':'') tag"

definition circleTagsOf :: "string list option \<Rightarrow> string list" where
  "circleTagsOf scope = filter isCircleTag (case scope of None \<Rightarrow> [] | Some s \<Rightarrow> s)"

definition runOutsideCircle :: "(ambient \<Rightarrow> 'a) \<Rightarrow> ambient \<Rightarrow> 'a" where
  "runOutsideCircle f a = f (a\<lparr>amb_job := Some []\<rparr>)"

definition runInCircle :: "string list \<Rightarrow> (ambient \<Rightarrow> 'a) \<Rightarrow> ambient \<Rightarrow> 'a" where
  "runInCircle tags f a =
     (let circles = filter isCircleTag tags
      in if circles = [] then f a else f (a\<lparr>amb_job := Some circles\<rparr>))"

definition actingCircleTags :: "ambient \<Rightarrow> string list" where
  "actingCircleTags a =
     (case amb_job a of
        Some fromJob \<Rightarrow> fromJob
      | None \<Rightarrow> (case ctx_field a ctx_actingCircle of
            Some i \<Rightarrow> if i \<noteq> [] then [circleTag i] else []
          | None \<Rightarrow> []))"

definition withSourceCircles :: "string list \<Rightarrow> string list option list \<Rightarrow> string list" where
  "withSourceCircles scope sources =
     foldl (\<lambda>out source. push_new out (circleTagsOf source)) scope sources"

section \<open>The ambient write scope\<close>

definition runWithWriteScope :: "string list \<Rightarrow> (ambient \<Rightarrow> 'a) \<Rightarrow> ambient \<Rightarrow> 'a" where
  "runWithWriteScope scope f a = (if scope = [] then f a else f (a\<lparr>amb_write := Some scope\<rparr>))"

definition ambientWriteScope :: "ambient \<Rightarrow> string list option" where
  "ambientWriteScope a =
     (case amb_write a of Some (t # ts) \<Rightarrow> Some (t # ts) | _ \<Rightarrow> None)"

section \<open>The tag grammar\<close>

definition USER_NAMESPACE :: string where "USER_NAMESPACE = ''user''"
definition ORG_NAMESPACE :: string where "ORG_NAMESPACE = ''org''"
definition TEAM_NAMESPACE :: string where "TEAM_NAMESPACE = ''team''"

definition KNOWN_NAMESPACES :: "string list" where
  "KNOWN_NAMESPACES = [USER_NAMESPACE, ORG_NAMESPACE, TEAM_NAMESPACE, CIRCLE_NAMESPACE]"

record parsed_tag =
  pt_namespace :: string
  pt_id :: string

definition userTag :: "string \<Rightarrow> string" where
  "userTag userId = USER_NAMESPACE @ '':'' @ userId"

definition parseTag :: "string \<Rightarrow> parsed_tag option" where
  "parseTag tag =
     (case split_first (CHR '':'') tag of
        None \<Rightarrow> None
      | Some (ns, i) \<Rightarrow>
          if ns = [] \<or> i = [] then None
          else if ns \<notin> set KNOWN_NAMESPACES then None
          else Some \<lparr>pt_namespace = ns, pt_id = i\<rparr>)"

definition scopeForUser :: "ambient \<Rightarrow> string option \<Rightarrow> string list" where
  "scopeForUser a userId =
     (let circles = actingCircleTags a
      in if truthy_str userId then userTag (the userId) # circles
         else let amb = (case ambientWriteScope a of None \<Rightarrow> [] | Some s \<Rightarrow> s)
              in amb @ filter (\<lambda>c. c \<notin> set amb) circles)"

definition idTail :: "string \<Rightarrow> string" where
  "idTail i = (case split_first (CHR '':'') i of Some (_, t) \<Rightarrow> t | None \<Rightarrow> i)"

definition teamTag :: "string \<Rightarrow> string \<Rightarrow> string" where
  "teamTag connectionId grp = TEAM_NAMESPACE @ '':'' @ idTail connectionId @ '':'' @ grp"

record parsed_team_tag =
  ptt_connection :: string
  ptt_group :: string

definition parseTeamTag :: "string \<Rightarrow> parsed_team_tag option" where
  "parseTeamTag tag =
     (case parseTag tag of
        None \<Rightarrow> None
      | Some parsed \<Rightarrow>
          if pt_namespace parsed \<noteq> TEAM_NAMESPACE then None
          else (case split_first (CHR '':'') (pt_id parsed) of
                  None \<Rightarrow> None
                | Some (conn, grp) \<Rightarrow>
                    if conn = [] \<or> grp = [] then None
                    else Some \<lparr>ptt_connection = conn, ptt_group = grp\<rparr>))"

definition scopeForSource :: "string option \<Rightarrow> string \<Rightarrow> string list option \<Rightarrow> string list" where
  "scopeForSource userId connectionId groups =
     (if truthy_str userId then [userTag (the userId)]
      else case find (\<lambda>g. g \<noteq> []) (case groups of None \<Rightarrow> [] | Some gs \<Rightarrow> gs) of
             None \<Rightarrow> []
           | Some g \<Rightarrow> [teamTag connectionId g])"

definition teamTagsOf :: "string list option \<Rightarrow> string list" where
  "teamTagsOf scope =
     filter (starts_with (TEAM_NAMESPACE @ '':'')) (case scope of None \<Rightarrow> [] | Some s \<Rightarrow> s)"

definition withSourceScope :: "string list \<Rightarrow> string list option list \<Rightarrow> string list" where
  "withSourceScope scope sources =
     foldl (\<lambda>out source. push_new out (teamTagsOf source))
       (withSourceCircles scope sources) sources"

section \<open>The tags a principal holds\<close>

definition scopeTagMemo :: "ambient \<Rightarrow> (string \<times> string list) list option" where
  "scopeTagMemo a = ctx_field a ctx_scopeTags"

definition rememberScopeTags :: "string \<Rightarrow> string list \<Rightarrow> ambient \<Rightarrow> ambient" where
  "rememberScopeTags userId tags a =
     (case amb_ctx a of
        None \<Rightarrow> a
      | Some c \<Rightarrow>
          let memo = (case ctx_scopeTags c of None \<Rightarrow> [] | Some m \<Rightarrow> m)
          in a\<lparr>amb_ctx := Some (c\<lparr>ctx_scopeTags := Some (AList.update userId tags memo)\<rparr>)\<rparr>)"

definition boundToActingCircle :: "ambient \<Rightarrow> string list \<Rightarrow> string list" where
  "boundToActingCircle a tags =
     (let acting = actingCircleTags a
      in if acting = [] then tags else filter (\<lambda>t. \<not> isCircleTag t) tags @ acting)"

definition heldTagsFor :: "ambient \<Rightarrow> string \<Rightarrow> string list" where
  "heldTagsFor a userId =
     boundToActingCircle a
       (case scopeTagMemo a of
          None \<Rightarrow> [userTag userId]
        | Some memo \<Rightarrow> (case map_of memo userId of
              Some (t # ts) \<Rightarrow> t # ts
            | _ \<Rightarrow> [userTag userId]))"

section \<open>The read fence\<close>

datatype principal_scope = TENANT_WIDE | HeldTags "string list"

definition scopeTagsEnabled :: "ambient \<Rightarrow> bool" where
  "scopeTagsEnabled a = envFlagNotDisabled (amb_env a ''SCOPE_TAGS_ENABLED'')"

definition scopeFenceActive :: "ambient \<Rightarrow> bool" where
  "scopeFenceActive a \<longleftrightarrow> scopeTagsEnabled a \<or> actingCircleTags a \<noteq> []"

fun visibleUnderScope :: "ambient \<Rightarrow> string list \<Rightarrow> principal_scope \<Rightarrow> bool" where
  "visibleUnderScope a recordScope p =
     (if recordScope = [] then True
      else case p of
             TENANT_WIDE \<Rightarrow>
               (let acting = actingCircleTags a
                in acting = [] \<or> (\<forall>t \<in> set (circleTagsOf (Some recordScope)). t \<in> set acting))
           | HeldTags held \<Rightarrow> (\<forall>tag \<in> set recordScope. parseTag tag \<noteq> None \<and> tag \<in> set held))"

declare visibleUnderScope.simps [simp del]

definition principalScopeTags :: "ambient \<Rightarrow> principal_scope" where
  "principalScopeTags a =
     (let authUserId = ctx_field a ctx_authUserId
      in if truthy_str authUserId then HeldTags (heldTagsFor a (the authUserId))
         else TENANT_WIDE)"

text \<open>The three shapes of the appended condition, their text and parameters, and what the
  text means for a row's \<open>scope\<close> column (\<open>ALLINSIDE\<close>: every element of the left array is
  in the right one).\<close>

datatype scope_clause = NoScopeClause | ScopeIsTag string | ScopeAllInside "string list"

definition scope_fence :: "ambient \<Rightarrow> string option \<Rightarrow> scope_clause" where
  "scope_fence a userId =
     (if \<not> scopeFenceActive a then NoScopeClause
      else let scoped = (case userId of Some u \<Rightarrow> Some u | None \<Rightarrow> ctx_field a ctx_authUserId)
           in if \<not> truthy_str scoped \<and> actingCircleTags a \<noteq> []
              then ScopeAllInside (actingCircleTags a)
              else if \<not> truthy_str scoped then NoScopeClause
              else let held = heldTagsFor a (the scoped)
                   in if length held \<le> 1
                      then ScopeIsTag (case held of [] \<Rightarrow> userTag (the scoped) | t # _ \<Rightarrow> t)
                      else ScopeAllInside held)"

fun scope_clause_text :: "string \<Rightarrow> scope_clause \<Rightarrow> string" where
  "scope_clause_text param NoScopeClause = []"
| "scope_clause_text param (ScopeIsTag t) = ''AND (scope = [] OR scope = [$'' @ param @ ''])''"
| "scope_clause_text param (ScopeAllInside ts) =
     ''AND (scope = [] OR scope ALLINSIDE $'' @ param @ '')''"

fun scope_clause_params :: "string \<Rightarrow> scope_clause \<Rightarrow> (string \<times> jval) list" where
  "scope_clause_params param NoScopeClause = []"
| "scope_clause_params param (ScopeIsTag t) = [(param, JStr t)]"
| "scope_clause_params param (ScopeAllInside ts) = [(param, JArr (map JStr ts))]"

definition scopeFenceSql ::
  "ambient \<Rightarrow> string option \<Rightarrow> string \<Rightarrow> string \<times> (string \<times> jval) list" where
  "scopeFenceSql a userId param =
     (let c = scope_fence a userId in (scope_clause_text param c, scope_clause_params param c))"

fun scope_clause_holds :: "scope_clause \<Rightarrow> string list \<Rightarrow> bool" where
  "scope_clause_holds NoScopeClause scope = True"
| "scope_clause_holds (ScopeIsTag t) scope \<longleftrightarrow> scope = [] \<or> scope = [t]"
| "scope_clause_holds (ScopeAllInside ts) scope \<longleftrightarrow> scope = [] \<or> set scope \<subseteq> set ts"

section \<open>Facts about tags\<close>

lemma parseTag_userTag [scope_simps]:
  "u \<noteq> [] \<Longrightarrow> parseTag (userTag u) = Some \<lparr>pt_namespace = USER_NAMESPACE, pt_id = u\<rparr>"
  using split_first_append [of "CHR '':''" USER_NAMESPACE u]
  by (simp add: parseTag_def userTag_def KNOWN_NAMESPACES_def USER_NAMESPACE_def)

lemma parseTag_circleTag [scope_simps]:
  "i \<noteq> [] \<Longrightarrow> parseTag (circleTag i) = Some \<lparr>pt_namespace = CIRCLE_NAMESPACE, pt_id = i\<rparr>"
  using split_first_append [of "CHR '':''" CIRCLE_NAMESPACE i]
  by (simp add: parseTag_def circleTag_def KNOWN_NAMESPACES_def CIRCLE_NAMESPACE_def)

lemma isCircleTag_circleTag [scope_simps]: "isCircleTag (circleTag i)"
  by (simp add: isCircleTag_def circleTag_def CIRCLE_NAMESPACE_def)

lemma not_isCircleTag_userTag [scope_simps]: "\<not> isCircleTag (userTag u)"
  by (simp add: isCircleTag_def userTag_def CIRCLE_NAMESPACE_def USER_NAMESPACE_def)

lemma userTag_inject [scope_simps]: "userTag u = userTag v \<longleftrightarrow> u = v"
  by (simp add: userTag_def)

lemma set_withSourceCircles [scope_simps]:
  "set (withSourceCircles scope sources) = set scope \<union> (\<Union>s \<in> set sources. set (circleTagsOf s))"
  by (induction sources arbitrary: scope) (auto simp: withSourceCircles_def)

lemma set_withSourceScope [scope_simps]:
  "set (withSourceScope scope sources) =
     set scope \<union> (\<Union>s \<in> set sources. set (circleTagsOf s) \<union> set (teamTagsOf s))"
proof -
  have "set (foldl (\<lambda>out s. push_new out (teamTagsOf s)) acc sources) =
      set acc \<union> (\<Union>s \<in> set sources. set (teamTagsOf s))" for acc
    by (induction sources arbitrary: acc) auto
  then show ?thesis
    by (auto simp: withSourceScope_def set_withSourceCircles)
qed

lemma visible_cases:
  "visibleUnderScope a s TENANT_WIDE \<longleftrightarrow>
     (actingCircleTags a = [] \<or> (\<forall>t \<in> set s. isCircleTag t \<longrightarrow> t \<in> set (actingCircleTags a)))"
  "visibleUnderScope a s (HeldTags held) \<longleftrightarrow>
     (\<forall>t \<in> set s. parseTag t \<noteq> None \<and> t \<in> set held)"
  by (auto simp: visibleUnderScope.simps circleTagsOf_def Let_def)

lemma visible_antimono:
  "set s \<subseteq> set s' \<Longrightarrow> visibleUnderScope a s' p \<Longrightarrow> visibleUnderScope a s p"
  by (cases p) (auto simp: visible_cases)

lemma heldTagsFor_not_empty: "heldTagsFor a u \<noteq> []"
  by (auto simp: heldTagsFor_def boundToActingCircle_def Let_def split: option.splits list.splits)

lemma heldTagsFor_circles:
  "actingCircleTags a \<noteq> [] \<Longrightarrow> t \<in> set (heldTagsFor a u) \<Longrightarrow> isCircleTag t \<Longrightarrow>
     t \<in> set (actingCircleTags a)"
  by (auto simp: heldTagsFor_def boundToActingCircle_def Let_def)

text \<open>What the clause keeps for a scoped caller: rows all of whose tags the caller holds.\<close>

lemma scope_fence_scoped:
  assumes "scopeFenceActive a" "u \<noteq> []"
    and "case userId of Some v \<Rightarrow> v = u | None \<Rightarrow> ctx_field a ctx_authUserId = Some u"
  shows "scope_clause_holds (scope_fence a userId) scope \<Longrightarrow> set scope \<subseteq> set (heldTagsFor a u)"
    and "distinct scope \<Longrightarrow> set scope \<subseteq> set (heldTagsFor a u) \<Longrightarrow>
      scope_clause_holds (scope_fence a userId) scope"
proof -
  have fence: "scope_fence a userId =
      (if length (heldTagsFor a u) \<le> 1 then ScopeIsTag (hd (heldTagsFor a u))
       else ScopeAllInside (heldTagsFor a u))"
    using assms heldTagsFor_not_empty [of a u]
    by (cases userId) (auto simp: scope_fence_def Let_def split: list.splits)
  have single: "heldTagsFor a u = [hd (heldTagsFor a u)]" if "length (heldTagsFor a u) \<le> 1"
    using that heldTagsFor_not_empty [of a u] by (cases "heldTagsFor a u") auto
  show "set scope \<subseteq> set (heldTagsFor a u)"
    if "scope_clause_holds (scope_fence a userId) scope"
    using that fence single by (auto split: if_splits)
  show "scope_clause_holds (scope_fence a userId) scope"
    if d: "distinct scope" and sub: "set scope \<subseteq> set (heldTagsFor a u)"
  proof (cases "length (heldTagsFor a u) \<le> 1")
    case True
    then obtain t where t: "heldTagsFor a u = [t]" using single by metis
    with sub have "set scope \<subseteq> {t}" by simp
    then have "scope = [] \<or> scope = [t]"
      using d by (cases scope; cases "tl scope") auto
    with fence True t show ?thesis by simp
  next
    case False
    with fence sub show ?thesis by simp
  qed
qed

text \<open>Two concrete moments: a credential bound to a circle and to no user, and a user's
  request in the same circle.\<close>

definition circle_credential :: ambient where
  "circle_credential =
     \<lparr>amb_ctx = Some \<lparr>ctx_authUserId = None, ctx_actingCircle = Some ''g1'', ctx_scopeTags = None\<rparr>,
      amb_job = None, amb_write = None, amb_env = (\<lambda>_. None)\<rparr>"

definition user_in_circle :: "string \<Rightarrow> ambient" where
  "user_in_circle u =
     \<lparr>amb_ctx = Some \<lparr>ctx_authUserId = Some u, ctx_actingCircle = Some ''g1'', ctx_scopeTags = None\<rparr>,
      amb_job = None, amb_write = None, amb_env = (\<lambda>_. None)\<rparr>"

lemma circle_credential_simps:
  "actingCircleTags circle_credential = [circleTag ''g1'']"
  "ctx_field circle_credential ctx_authUserId = None"
  "actingCircleTags (user_in_circle u) = [circleTag ''g1'']"
  "ctx_field (user_in_circle u) ctx_authUserId = Some u"
  "scopeTagMemo (user_in_circle u) = None"
  "heldTagsFor (user_in_circle u) v = [userTag v, circleTag ''g1'']"
  by (simp_all add: circle_credential_def user_in_circle_def actingCircleTags_def ctx_field_def
      scopeTagMemo_def heldTagsFor_def boundToActingCircle_def not_isCircleTag_userTag)

section \<open>Properties\<close>

text \<open>What a row derived from several others is stamped with only narrows: whoever sees the
  derived row would see a row carrying the derived row's own scope, and, for every source row,
  a row carrying that source's circle and team tags.\<close>

theorem derived_row_no_wider:
  assumes "visibleUnderScope a (withSourceScope scope sources) p"
  shows "visibleUnderScope a scope p \<and>
    (\<forall>s \<in> set sources. visibleUnderScope a (circleTagsOf s @ teamTagsOf s) p)"
  by (auto intro!: visible_antimono [OF _ assms] simp: set_withSourceScope)

theorem derived_row_no_wider_witness:
  "let a = circle_credential; sources = [Some [circleTag ''g1''], None]
   in visibleUnderScope a [] TENANT_WIDE \<and>
     (\<forall>s \<in> set sources. visibleUnderScope a (circleTagsOf s @ teamTagsOf s) TENANT_WIDE)"
  unfolding Let_def
  by (rule derived_row_no_wider)
    (auto simp: visible_cases set_withSourceScope circle_credential_simps circleTagsOf_def
      teamTagsOf_def)

text \<open>C36: While work acts in a circle, a row tagged with a circle it does not act in is hidden:
  the evaluator rejects it for the request's principal, and the database clause drops it,
  whichever user the read is for and whatever the operator flag says.\<close>

theorem acting_circle_isolates:
  assumes "actingCircleTags a \<noteq> []" "t \<in> set scope" "isCircleTag t"
    "t \<notin> set (actingCircleTags a)"
  shows "\<not> visibleUnderScope a scope (principalScopeTags a) \<and>
    \<not> scope_clause_holds (scope_fence a userId) scope"
proof -
  let ?scoped = "case userId of Some u \<Rightarrow> Some u | None \<Rightarrow> ctx_field a ctx_authUserId"
  have active: "scopeFenceActive a"
    using assms(1) by (simp add: scopeFenceActive_def)
  have no_held: "t \<notin> set (heldTagsFor a u)" for u
    using heldTagsFor_circles assms by blast
  have "\<not> visibleUnderScope a scope (principalScopeTags a)"
    using assms no_held by (auto simp: principalScopeTags_def Let_def visible_cases)
  moreover have "\<not> scope_clause_holds (scope_fence a userId) scope"
  proof (cases "truthy_str ?scoped")
    case True
    then obtain u where u: "?scoped = Some u" "u \<noteq> []" by (rule truthy_strE)
    then have "case userId of Some v \<Rightarrow> v = u | None \<Rightarrow> ctx_field a ctx_authUserId = Some u"
      by (auto split: option.splits)
    from scope_fence_scoped(1) [OF active u(2) this, of scope] no_held [of u] assms(2)
    show ?thesis by blast
  next
    case False
    then have "scope_fence a userId = ScopeAllInside (actingCircleTags a)"
      using assms(1) active by (simp add: scope_fence_def Let_def)
    with assms(2,4) show ?thesis by auto
  qed
  ultimately show ?thesis by blast
qed

theorem acting_circle_isolates_witness:
  "\<not> visibleUnderScope (user_in_circle ''ann'') [circleTag ''g2'']
      (principalScopeTags (user_in_circle ''ann'')) \<and>
   \<not> scope_clause_holds (scope_fence (user_in_circle ''ann'') None) [circleTag ''g2'']"
  by (rule acting_circle_isolates [where t = "circleTag ''g2''"])
    (simp_all add: circle_credential_simps isCircleTag_circleTag, simp add: circleTag_def)

text \<open>C37: The database clause and the evaluator keep the same rows for a user-bound request, given
  that the tags the user holds follow the grammar.\<close>

theorem clause_matches_evaluator:
  assumes "scopeFenceActive a"
    and "ctx_field a ctx_authUserId = Some u" "u \<noteq> []"
    and "\<forall>t \<in> set (heldTagsFor a u). parseTag t \<noteq> None"
    and "distinct scope" "userId = None \<or> userId = Some u"
  shows "scope_clause_holds (scope_fence a userId) scope \<longleftrightarrow>
    visibleUnderScope a scope (principalScopeTags a)"
proof -
  have "case userId of Some v \<Rightarrow> v = u | None \<Rightarrow> ctx_field a ctx_authUserId = Some u"
    using assms(2,6) by (auto split: option.splits)
  note fence = scope_fence_scoped [OF assms(1,3) this, of scope]
  have "visibleUnderScope a scope (principalScopeTags a) \<longleftrightarrow>
      (\<forall>t \<in> set scope. parseTag t \<noteq> None \<and> t \<in> set (heldTagsFor a u))"
    using assms(2,3) by (simp add: principalScopeTags_def Let_def visible_cases)
  with fence assms(4,5) show ?thesis by blast
qed

theorem clause_matches_evaluator_witness:
  "scope_clause_holds (scope_fence (user_in_circle ''ann'') None) [circleTag ''g1''] \<longleftrightarrow>
    visibleUnderScope (user_in_circle ''ann'') [circleTag ''g1'']
      (principalScopeTags (user_in_circle ''ann''))"
  by (rule clause_matches_evaluator [where u = "''ann''"])
    (simp_all add: circle_credential_simps scope_simps scopeFenceActive_def)

text \<open>The evaluator is wider than the clause in one situation: a credential bound to a circle
  and to no user.  The clause keeps untagged rows and the circle's own; the evaluator also
  shows a row scoped to a single user.\<close>

lemma circle_credential_evaluator_wider:
  "visibleUnderScope circle_credential [userTag ''bob''] (principalScopeTags circle_credential) \<and>
   \<not> scope_clause_holds (scope_fence circle_credential None) [userTag ''bob'']"
  by (simp add: circle_credential_def principalScopeTags_def ctx_field_def visible_cases
      scope_fence_def scopeFenceActive_def actingCircleTags_def circleTag_def userTag_def
      isCircleTag_def CIRCLE_NAMESPACE_def USER_NAMESPACE_def)

text \<open>A user's own write is read back by the same user in the same circle, and by no other
  user whose tags were not expanded.\<close>

theorem own_write_readable:
  assumes "ctx_field a ctx_authUserId = Some u" "u \<noteq> []" "scopeTagMemo a = None"
    and "\<forall>t \<in> set (actingCircleTags a). parseTag t \<noteq> None"
    and "ctx_field b ctx_authUserId = Some v" "v \<noteq> []" "v \<noteq> u" "scopeTagMemo b = None"
    and "\<forall>t \<in> set (actingCircleTags b). isCircleTag t"
  shows "visibleUnderScope a (scopeForUser a (Some u)) (principalScopeTags a) \<and>
    \<not> visibleUnderScope b (scopeForUser a (Some u)) (principalScopeTags b)"
proof
  show "visibleUnderScope a (scopeForUser a (Some u)) (principalScopeTags a)"
    using assms(1-4)
    by (auto simp: principalScopeTags_def scopeForUser_def visible_cases heldTagsFor_def
        boundToActingCircle_def Let_def scope_simps)
  have "userTag u \<notin> set (heldTagsFor b v)"
    using assms(7-9)
    by (auto simp: heldTagsFor_def boundToActingCircle_def Let_def scope_simps)
  then show "\<not> visibleUnderScope b (scopeForUser a (Some u)) (principalScopeTags b)"
    using assms(2,5,6)
    by (auto simp: principalScopeTags_def scopeForUser_def visible_cases Let_def)
qed

theorem own_write_readable_witness:
  "visibleUnderScope (user_in_circle ''ann'')
      (scopeForUser (user_in_circle ''ann'') (Some ''ann''))
      (principalScopeTags (user_in_circle ''ann'')) \<and>
   \<not> visibleUnderScope (user_in_circle ''bob'')
      (scopeForUser (user_in_circle ''ann'') (Some ''ann''))
      (principalScopeTags (user_in_circle ''bob''))"
  by (rule own_write_readable [where v = "''bob''"])
    (simp_all add: circle_credential_simps scope_simps)

lemma idTail_no_colon: "CHR '':'' \<notin> set c \<Longrightarrow> idTail c = c"
  by (simp add: idTail_def split_first_None_iff [THEN iffD2])

lemma idTail_record_id: "CHR '':'' \<notin> set table \<Longrightarrow> idTail (table @ CHR '':'' # c) = c"
  by (simp add: idTail_def)

lemma parseTag_Some_iff:
  "parseTag t = Some p \<longleftrightarrow> t = pt_namespace p @ CHR '':'' # pt_id p \<and> pt_id p \<noteq> [] \<and>
     pt_namespace p \<in> set KNOWN_NAMESPACES"
proof -
  have known: "ns \<in> set KNOWN_NAMESPACES \<Longrightarrow> ns \<noteq> [] \<and> CHR '':'' \<notin> set ns" for ns
    by (auto simp: KNOWN_NAMESPACES_def USER_NAMESPACE_def ORG_NAMESPACE_def TEAM_NAMESPACE_def
        CIRCLE_NAMESPACE_def)
  show ?thesis
  proof
    assume "parseTag t = Some p"
    then show "t = pt_namespace p @ CHR '':'' # pt_id p \<and> pt_id p \<noteq> [] \<and>
        pt_namespace p \<in> set KNOWN_NAMESPACES"
      by (auto simp: parseTag_def split_first_Some_iff split: option.splits if_splits)
  next
    assume "t = pt_namespace p @ CHR '':'' # pt_id p \<and> pt_id p \<noteq> [] \<and>
        pt_namespace p \<in> set KNOWN_NAMESPACES"
    with known [of "pt_namespace p"] show "parseTag t = Some p"
      by (simp add: parseTag_def)
  qed
qed

text \<open>The group tag of a connection and its parser are inverse: a tag parses to a connection
  tail and a group exactly when it is the tag built from them, the tail is non-empty and has no
  colon, and the group is non-empty.\<close>

theorem team_tag_roundtrip:
  "parseTeamTag t = Some \<lparr>ptt_connection = c, ptt_group = g\<rparr> \<longleftrightarrow>
     t = teamTag c g \<and> CHR '':'' \<notin> set c \<and> c \<noteq> [] \<and> g \<noteq> []"
proof
  assume "parseTeamTag t = Some \<lparr>ptt_connection = c, ptt_group = g\<rparr>"
  then obtain p where p: "parseTag t = Some p" "pt_namespace p = TEAM_NAMESPACE"
    and split: "split_first (CHR '':'') (pt_id p) = Some (c, g)" and ne: "c \<noteq> []" "g \<noteq> []"
    by (auto simp: parseTeamTag_def split: option.splits if_splits)
  from split have "pt_id p = c @ CHR '':'' # g" "CHR '':'' \<notin> set c"
    by (simp_all add: split_first_Some_iff)
  with p ne show "t = teamTag c g \<and> CHR '':'' \<notin> set c \<and> c \<noteq> [] \<and> g \<noteq> []"
    by (simp add: parseTag_Some_iff teamTag_def idTail_no_colon)
next
  assume t: "t = teamTag c g \<and> CHR '':'' \<notin> set c \<and> c \<noteq> [] \<and> g \<noteq> []"
  then have "parseTag t = Some \<lparr>pt_namespace = TEAM_NAMESPACE, pt_id = c @ CHR '':'' # g\<rparr>"
    by (simp add: parseTag_Some_iff teamTag_def idTail_no_colon KNOWN_NAMESPACES_def)
  with t show "parseTeamTag t = Some \<lparr>ptt_connection = c, ptt_group = g\<rparr>"
    by (simp add: parseTeamTag_def)
qed

end
