(* ===== verification/ReadFences.thy ===== *)
theory ReadFences imports ScopeTags begin

text \<open>
  The user, window and tenant fences of \<open>src/auth/\<close>: pinning a caller-asserted user to the
  token's own (\<open>user-scope.ts\<close>), the per-member gate of verbatim windows and its re-check on
  fetched scenes (\<open>segment-scope.ts\<close>), and the confinement of administration to the
  credential's tenant (\<open>tenant-scope.ts\<close>).  Clauses are values with the text the source
  builds and the meaning of that text on a stored row.
\<close>

datatype scope_error = ForbiddenException | BadRequestException

section \<open>User scope\<close>

definition readSurfaceUserScopeEnabled :: "ambient \<Rightarrow> bool" where
  "readSurfaceUserScopeEnabled a = envFlagNotDisabled (amb_env a ''READ_SURFACE_USER_SCOPE'')"

definition pinUserScope :: "ambient \<Rightarrow> string option \<Rightarrow> scope_error + string option" where
  "pinUserScope a requested =
     (let authUserId = ctx_field a ctx_authUserId
      in if \<not> truthy_str authUserId then Inr requested
         else if requested \<noteq> None \<and> requested \<noteq> authUserId then Inl ForbiddenException
         else Inr authUserId)"

text \<open>The fence of a read surface: the user it is for, and the scope clause that rides
  along.\<close>

record read_fence =
  rf_userId :: "string option"
  rf_scope :: scope_clause

definition user_read_fence :: "ambient \<Rightarrow> string option \<Rightarrow> scope_error + read_fence" where
  "user_read_fence a requested =
     (case (if readSurfaceUserScopeEnabled a then pinUserScope a requested else Inr None) of
        Inl e \<Rightarrow> Inl e
      | Inr userId \<Rightarrow> Inr \<lparr>rf_userId = userId, rf_scope = scope_fence a userId\<rparr>)"

definition read_fence_text :: "read_fence \<Rightarrow> string" where
  "read_fence_text f =
     (let tags = scope_clause_text ''readScopeTag'' (rf_scope f)
      in case rf_userId f of
           None \<Rightarrow> trim (''userId IS NONE '' @ tags)
         | Some _ \<Rightarrow> trim (''(userId IS NONE OR userId = $scopeUserId) '' @ tags))"

definition read_fence_params :: "read_fence \<Rightarrow> (string \<times> jval) list" where
  "read_fence_params f =
     (let tags = scope_clause_params ''readScopeTag'' (rf_scope f)
      in case rf_userId f of
           None \<Rightarrow> tags
         | Some u \<Rightarrow> (''scopeUserId'', JStr u) # tags)"

definition userReadFence ::
  "ambient \<Rightarrow> string option \<Rightarrow> scope_error + (string option \<times> string \<times> (string \<times> jval) list)"
where
  "userReadFence a requested =
     (case user_read_fence a requested of
        Inl e \<Rightarrow> Inl e
      | Inr f \<Rightarrow> Inr (rf_userId f, read_fence_text f, read_fence_params f))"

text \<open>A stored row as the fences see it.\<close>

record fenced_row =
  row_userId :: "string option"
  row_userIds :: "string list option"
  row_scope :: "string list"

definition read_fence_holds :: "read_fence \<Rightarrow> fenced_row \<Rightarrow> bool" where
  "read_fence_holds f row \<longleftrightarrow>
     (row_userId row = None \<or> (rf_userId f \<noteq> None \<and> row_userId row = rf_userId f)) \<and>
     scope_clause_holds (rf_scope f) (row_scope row)"

section \<open>Verbatim windows and scenes\<close>

definition privacySegmentUserFenceEnabled :: "ambient \<Rightarrow> bool" where
  "privacySegmentUserFenceEnabled a =
     envFlagNotDisabled (amb_env a ''PRIVACY_SEGMENT_USER_FENCE'')"

datatype user_gate = GateGlobal | GateGlobalOrOwn string | GateMember string

definition segmentUserGate :: "ambient \<Rightarrow> string option \<Rightarrow> user_gate" where
  "segmentUserGate a userId =
     (if \<not> truthy_str userId then GateGlobal
      else if \<not> privacySegmentUserFenceEnabled a then GateGlobalOrOwn (the userId)
      else GateMember (the userId))"

definition sceneUserGate :: "string \<Rightarrow> user_gate" where
  "sceneUserGate userId = GateMember userId"

fun user_gate_text :: "user_gate \<Rightarrow> string" where
  "user_gate_text GateGlobal = ''AND userId IS NONE''"
| "user_gate_text (GateGlobalOrOwn u) = ''AND (userId IS NONE OR userId = $scopeUserId)''"
| "user_gate_text (GateMember u) = ''AND (userId = $scopeUserId OR (userId IS NONE AND userIds IS NOT NONE AND (array::len(userIds) = 0 OR userIds CONTAINS $scopeUserId)))''"

fun user_gate_params :: "user_gate \<Rightarrow> (string \<times> jval) list" where
  "user_gate_params GateGlobal = []"
| "user_gate_params (GateGlobalOrOwn u) = [(''scopeUserId'', JStr u)]"
| "user_gate_params (GateMember u) = [(''scopeUserId'', JStr u)]"

fun user_gate_holds :: "user_gate \<Rightarrow> fenced_row \<Rightarrow> bool" where
  "user_gate_holds GateGlobal row \<longleftrightarrow> row_userId row = None"
| "user_gate_holds (GateGlobalOrOwn u) row \<longleftrightarrow> row_userId row = None \<or> row_userId row = Some u"
| "user_gate_holds (GateMember u) row \<longleftrightarrow>
     row_userId row = Some u \<or>
     (row_userId row = None \<and>
      (case row_userIds row of None \<Rightarrow> False | Some us \<Rightarrow> us = [] \<or> u \<in> set us))"

text \<open>The re-check on a fetched row, whose two stamps are untyped values.\<close>

definition sceneVisibleToUser :: "jval \<Rightarrow> jval \<Rightarrow> string \<Rightarrow> bool" where
  "sceneVisibleToUser owner members userId =
     (case owner of
        JStr (c # s) \<Rightarrow> c # s = userId
      | JUndef \<Rightarrow> (case members of JArr ms \<Rightarrow> ms = [] \<or> JStr userId \<in> set ms | _ \<Rightarrow> False)
      | JNull \<Rightarrow> (case members of JArr ms \<Rightarrow> ms = [] \<or> JStr userId \<in> set ms | _ \<Rightarrow> False)
      | _ \<Rightarrow> False)"

text \<open>How the driver returns the two columns: NONE as undefined.\<close>

definition row_owner_value :: "fenced_row \<Rightarrow> jval" where
  "row_owner_value row = (case row_userId row of None \<Rightarrow> JUndef | Some u \<Rightarrow> JStr u)"

definition row_members_value :: "fenced_row \<Rightarrow> jval" where
  "row_members_value row =
     (case row_userIds row of None \<Rightarrow> JUndef | Some us \<Rightarrow> JArr (map JStr us))"

section \<open>Tenant scope\<close>

definition PLATFORM_TENANT_SCOPE :: string where
  "PLATFORM_TENANT_SCOPE = ''brain:platform_admin''"

definition tenantOverrideEnabled :: "ambient \<Rightarrow> bool" where
  "tenantOverrideEnabled a = envFlagEnabled (amb_env a ''BRAIN_TENANT_OVERRIDE_ENABLED'')"

definition platformTenantCapable :: "ambient \<Rightarrow> string list \<Rightarrow> bool" where
  "platformTenantCapable a scopes \<longleftrightarrow>
     tenantOverrideEnabled a \<and> PLATFORM_TENANT_SCOPE \<in> set scopes"

record brain_auth =
  ba_companyId :: string
  ba_scopes :: "string list"

record tenant_opts =
  knownTenants :: "string list option"
  fanOutTenants :: "string list option"

definition resolvePlatformTenant ::
  "ambient \<Rightarrow> brain_auth \<Rightarrow> string option \<Rightarrow> tenant_opts \<Rightarrow> scope_error + string" where
  "resolvePlatformTenant a auth requested opts =
     (let own = ba_companyId auth; target = map_option trim requested
      in if \<not> truthy_str target \<or> target = Some own then Inr own
         else if \<not> platformTenantCapable a (ba_scopes auth) then Inl ForbiddenException
         else let known = (case knownTenants opts of None \<Rightarrow> [] | Some ts \<Rightarrow> ts)
              in if the target \<notin> set known then Inl BadRequestException
                 else Inr (the target))"

definition resolvePlatformTenantScope ::
  "ambient \<Rightarrow> brain_auth \<Rightarrow> string option \<Rightarrow> tenant_opts \<Rightarrow> scope_error + string list" where
  "resolvePlatformTenantScope a auth requested opts =
     (let target = map_option trim requested
      in if truthy_str target
         then (case resolvePlatformTenant a auth target opts of
                 Inl e \<Rightarrow> Inl e | Inr t \<Rightarrow> Inr [t])
         else if platformTenantCapable a (ba_scopes auth)
         then Inr (case fanOutTenants opts of None \<Rightarrow> [ba_companyId auth] | Some ts \<Rightarrow> ts)
         else Inr [ba_companyId auth])"

section \<open>Properties\<close>

text \<open>A user-bound token never reads another user's rows: whatever user it asks for, the fence
  is refused or keeps only tenant-global rows and the token's own, and every kept row's tags are
  among those the user holds when the scope fence is on.\<close>

theorem user_token_reads_own:
  assumes "ctx_field a ctx_authUserId = Some u" "u \<noteq> []" "scopeFenceActive a"
    and "user_read_fence a requested = Inr f" "read_fence_holds f row"
  shows "row_userId row \<in> {None, Some u} \<and> set (row_scope row) \<subseteq> set (heldTagsFor a u)"
proof -
  have "rf_userId f \<in> {None, Some u}" "rf_scope f = scope_fence a (rf_userId f)"
    using assms(1,2,4)
    by (auto simp: user_read_fence_def pinUserScope_def Let_def
        split: sum.splits if_splits option.splits)
  moreover have "case rf_userId f of Some v \<Rightarrow> v = u | None \<Rightarrow> ctx_field a ctx_authUserId = Some u"
    using calculation(1) assms(1) by auto
  ultimately show ?thesis
    using scope_fence_scoped(1) [OF assms(3,2), of "rf_userId f" "row_scope row"] assms(5)
    by (auto simp: read_fence_holds_def)
qed

theorem user_token_reads_own_witness:
  "let a = \<lparr>amb_ctx = Some \<lparr>ctx_authUserId = Some ''ann'', ctx_actingCircle = None,
              ctx_scopeTags = None\<rparr>,
            amb_job = None, amb_write = None, amb_env = (\<lambda>_. None)\<rparr>;
       row = \<lparr>row_userId = Some ''ann'', row_userIds = None, row_scope = [userTag ''ann'']\<rparr>
   in row_userId row \<in> {None, Some ''ann''} \<and>
      set (row_scope row) \<subseteq> set (heldTagsFor a ''ann'')"
  unfolding Let_def
  by (rule user_token_reads_own [where requested = None and
        f = "\<lparr>rf_userId = Some ''ann'', rf_scope = ScopeIsTag (userTag ''ann'')\<rparr>"])
    (simp_all add: ctx_field_def scopeFenceActive_def scopeTagsEnabled_def envFlagNotDisabled_def
      flag_text_def trim_def user_read_fence_def pinUserScope_def readSurfaceUserScopeEnabled_def
      read_fence_holds_def scope_fence_def heldTagsFor_def boundToActingCircle_def
      actingCircleTags_def scopeTagMemo_def)

text \<open>The re-check of a fetched scene admits exactly the rows the database gate keeps, for a
  stored owner and caller that are not empty; a row without the member stamp is hidden from
  everyone but its owner.\<close>

theorem scene_recheck_matches_gate:
  assumes "row_userId row \<noteq> Some []" "userId \<noteq> []"
  shows "sceneVisibleToUser (row_owner_value row) (row_members_value row) userId \<longleftrightarrow>
    user_gate_holds (sceneUserGate userId) row"
  using assms
  by (auto simp: sceneVisibleToUser_def row_owner_value_def row_members_value_def
      sceneUserGate_def split: option.splits list.splits)

theorem scene_recheck_matches_gate_witness:
  "sceneVisibleToUser JUndef (JArr [JStr ''ann'', JStr ''bob'']) ''cat'' \<longleftrightarrow>
    user_gate_holds (sceneUserGate ''cat'')
      \<lparr>row_userId = None, row_userIds = Some [''ann'', ''bob''], row_scope = []\<rparr>"
  using scene_recheck_matches_gate
    [of "\<lparr>row_userId = None, row_userIds = Some [''ann'', ''bob''], row_scope = []\<rparr>" "''cat''"]
  by (simp add: row_owner_value_def row_members_value_def)

text \<open>The legacy segment gate, in force only when the operator clears the flag, serves a window
  of two users to a third; the member gate does not.\<close>

lemma legacy_segment_gate_leaks:
  "user_gate_holds (GateGlobalOrOwn ''cat'')
      \<lparr>row_userId = None, row_userIds = Some [''ann'', ''bob''], row_scope = []\<rparr> \<and>
   \<not> user_gate_holds (GateMember ''cat'')
      \<lparr>row_userId = None, row_userIds = Some [''ann'', ''bob''], row_scope = []\<rparr>"
  by simp

lemma segment_gate_narrows:
  "user_gate_holds (GateMember u) row \<Longrightarrow> user_gate_holds (GateGlobalOrOwn u) row"
  by auto

text \<open>Administration stays in the credential's tenant: a resolved tenant is the credential's
  own, or the override flag is on, the credential holds the platform scope and the tenant is
  registered; a foreign tenant is refused otherwise.\<close>

theorem resolved_tenant_authorized:
  "case resolvePlatformTenant a auth requested opts of
     Inr t \<Rightarrow> t = ba_companyId auth \<or>
       (tenantOverrideEnabled a \<and> PLATFORM_TENANT_SCOPE \<in> set (ba_scopes auth) \<and>
        (\<exists>known. knownTenants opts = Some known \<and> t \<in> set known))
   | Inl e \<Rightarrow> (\<exists>r. requested = Some r \<and> trim r \<noteq> [] \<and> trim r \<noteq> ba_companyId auth) \<and>
       (e = ForbiddenException \<longleftrightarrow> \<not> platformTenantCapable a (ba_scopes auth))"
  by (cases "knownTenants opts")
    (auto simp: resolvePlatformTenant_def platformTenantCapable_def Let_def truthy_str_def
      split: option.splits if_splits)

lemma tenant_scope_authorized:
  assumes "resolvePlatformTenantScope a auth requested opts = Inr ts" "t \<in> set ts"
  shows "t = ba_companyId auth \<or> platformTenantCapable a (ba_scopes auth)"
  using assms
  by (auto simp: resolvePlatformTenantScope_def resolvePlatformTenant_def Let_def
      split: option.splits if_splits sum.splits)

end
