(* ===== verification/EvidenceRefs.thy ===== *)
theory EvidenceRefs imports JsValue TextOps begin

text \<open>
  Typed pointers into the evidence plane (\<open>src/common/evidence-ref.ts\<close>) and the assembly of
  support-graph edges (\<open>src/common/support-edges.ts\<close>).  \<open>String(v)\<close> of an untyped value is
  the parameter \<open>str\<close>, since it also renders the database driver's record ids.
\<close>

datatype evidence_ref =
    RefEpisode string "(jnum \<times> jnum \<times> string) option"
  | RefFragment string "string option"
  | RefAsset string
  | RefExternal string string "string option"

definition parseRecordRef :: "string \<Rightarrow> evidence_ref option" where
  "parseRecordRef raw =
     (if starts_with ''episode:'' raw then Some (RefEpisode raw None)
      else if starts_with ''evidence_fragment:'' raw then Some (RefFragment raw None)
      else if starts_with ''evidence_asset:'' raw then Some (RefAsset raw)
      else None)"

datatype subject_kind = SubjEvidence | SubjEpisode

fun outcomeSubjectFor :: "evidence_ref \<Rightarrow> (subject_kind \<times> string) option" where
  "outcomeSubjectFor (RefAsset i) = Some (SubjEvidence, i)"
| "outcomeSubjectFor (RefFragment f assetId) =
     (if truthy_str assetId then Some (SubjEvidence, the assetId) else None)"
| "outcomeSubjectFor (RefEpisode i sp) = Some (SubjEpisode, i)"
| "outcomeSubjectFor (RefExternal k r n) = None"

definition as_array :: "jval \<Rightarrow> jval list" where
  "as_array v = (case v of JArr xs \<Rightarrow> xs | _ \<Rightarrow> [])"

definition unionEvidenceRefs :: "(jval \<Rightarrow> string) \<Rightarrow> jval list \<Rightarrow> string list" where
  "unionEvidenceRefs str memberRefLists =
     take 64 (dedupe
       [r \<leftarrow> concat (map (\<lambda>l. map str (as_array l)) memberRefLists). parseRecordRef r \<noteq> None])"

section \<open>Edges\<close>

datatype edge_kind = SupportedBy | ContradictedBy | DerivedFrom | ReconstructedFrom

fun edge_kind_text :: "edge_kind \<Rightarrow> string" where
  "edge_kind_text SupportedBy = ''supported_by''"
| "edge_kind_text ContradictedBy = ''contradicted_by''"
| "edge_kind_text DerivedFrom = ''derived_from''"
| "edge_kind_text ReconstructedFrom = ''reconstructed_from''"

definition EMITTED_EDGE_KINDS :: "string list" where
  "EMITTED_EDGE_KINDS = map edge_kind_text [SupportedBy, ContradictedBy, DerivedFrom]"

definition isEmittedEdgeKind :: "string \<Rightarrow> bool" where
  "isEmittedEdgeKind v \<longleftrightarrow> v \<in> set EMITTED_EDGE_KINDS"

definition SUPPORT_EDGE_CAP :: nat where
  "SUPPORT_EDGE_CAP = 64"

datatype edge_writer =
  SceneBacklink | FactResolver | PromotionRunner | CompactionRunner | Recompose | BeliefPromotion
| SceneEvidenceLinker

datatype target_class = TFact | TBelief | TScene | TEpisode | TFragment | TAsset | TUnknown

definition classifySupportTarget :: "string \<Rightarrow> target_class" where
  "classifySupportTarget raw =
     (case parseRecordRef raw of
        Some (RefEpisode _ _) \<Rightarrow> TEpisode
      | Some (RefFragment _ _) \<Rightarrow> TFragment
      | Some (RefAsset _) \<Rightarrow> TAsset
      | _ \<Rightarrow>
          if starts_with ''knowledge_fact:'' raw then TFact
          else if starts_with ''memory_episode:'' raw then TScene
          else if starts_with ''semantic_belief:'' raw then TBelief
          else TUnknown)"

fun edge_shape :: "edge_kind \<Rightarrow> target_class \<Rightarrow> target_class \<Rightarrow> bool" where
  "edge_shape SupportedBy i out \<longleftrightarrow> (i = TFact \<or> i = TBelief) \<and> out = TScene"
| "edge_shape ContradictedBy i out \<longleftrightarrow> (i = TFact \<or> i = TBelief) \<and> out = i"
| "edge_shape DerivedFrom i out \<longleftrightarrow> (i = TFact \<or> i = TBelief) \<and> out = i"
| "edge_shape ReconstructedFrom i out \<longleftrightarrow> i = TScene \<and> (out = TFragment \<or> out = TAsset)"

definition assertEdgeShape :: "edge_kind \<Rightarrow> string \<Rightarrow> string \<Rightarrow> bool" where
  "assertEdgeShape kind inId outId =
     edge_shape kind (classifySupportTarget inId) (classifySupportTarget outId)"

record support_edge_row =
  se_in :: string
  se_out :: string
  se_kind :: edge_kind
  se_writer :: edge_writer
  se_writerVersion :: "string option"

record edge_spec =
  sp_kind :: edge_kind
  sp_writer :: edge_writer
  sp_writerVersion :: "string option"
  sp_pairs :: "(string \<times> string) list"

definition edge_key :: "edge_kind \<Rightarrow> string \<times> string \<Rightarrow> string" where
  "edge_key kind p = fst p @ CHR 0x00 # snd p @ CHR 0x00 # edge_kind_text kind"

definition edge_row :: "edge_spec \<Rightarrow> string \<times> string \<Rightarrow> support_edge_row" where
  "edge_row spec p =
     \<lparr>se_in = fst p, se_out = snd p, se_kind = sp_kind spec, se_writer = sp_writer spec,
      se_writerVersion = sp_writerVersion spec\<rparr>"

text \<open>The loop over the pairs: keys seen, rows so far, pairs skipped.\<close>

fun edge_loop ::
  "edge_spec \<Rightarrow> (string \<times> string) list \<Rightarrow> string set \<Rightarrow> support_edge_row list \<Rightarrow> nat \<Rightarrow>
   support_edge_row list \<times> nat" where
  "edge_loop spec [] seen rows skipped = (rows, skipped)"
| "edge_loop spec (p # ps) seen rows skipped =
     (if \<not> assertEdgeShape (sp_kind spec) (fst p) (snd p)
      then edge_loop spec ps seen rows (skipped + 1)
      else let key = edge_key (sp_kind spec) p
           in if key \<in> seen then edge_loop spec ps seen rows skipped
              else edge_loop spec ps (insert key seen) (rows @ [edge_row spec p]) skipped)"

text \<open>\<open>for (i = 0; i < rows.length; i += n) batches.push(rows.slice(i, i + n))\<close>.\<close>

function slices :: "nat \<Rightarrow> 'a list \<Rightarrow> 'a list list" where
  "slices n xs = (if xs = [] \<or> n = 0 then [] else take n xs # slices n (drop n xs))"
  by pat_completeness auto
termination
  by (relation "measure (\<lambda>(n, xs). length xs)") auto

declare slices.simps [simp del]

definition buildSupportEdgeBatches :: "edge_spec \<Rightarrow> support_edge_row list list \<times> nat" where
  "buildSupportEdgeBatches spec =
     (let (rows, skipped) = edge_loop spec (sp_pairs spec) {} [] 0
      in (slices SUPPORT_EDGE_CAP rows, skipped))"

definition buildSupportEdgeRows :: "edge_spec \<Rightarrow> support_edge_row list \<times> nat" where
  "buildSupportEdgeRows spec =
     (let (batches, skipped) = buildSupportEdgeBatches spec
      in (case batches of [] \<Rightarrow> [] | b # _ \<Rightarrow> b, skipped))"

record conflict_verdict =
  cv_outcome :: jval
  cv_factId :: jval
  cv_superseded :: jval
  cv_competing :: jval

text \<open>\<open>v ? \<dots> : \<dots>\<close> on an untyped value.\<close>

fun truthy :: "jval \<Rightarrow> bool" where
  "truthy JUndef = False"
| "truthy JNull = False"
| "truthy (JBool b) = b"
| "truthy (JNum n) = (n \<noteq> JNaN \<and> n \<noteq> JFin 0)"
| "truthy (JStr s) = (s \<noteq> [])"
| "truthy (JArr _) = True"
| "truthy (JObj _) = True"
| "truthy JOther = True"

definition conflict_pairs :: "(jval \<Rightarrow> string) \<Rightarrow> conflict_verdict \<Rightarrow> string \<Rightarrow> (string \<times> string) list"
where
  "conflict_pairs str result newFactId =
     (let outcome = (if nullish (cv_outcome result) then [] else str (cv_outcome result))
      in if outcome = ''SUPERSEDED''
         then map (\<lambda>raw. (str raw, newFactId)) (as_array (cv_superseded result))
         else if outcome = ''COMPETING''
         then concat (map (\<lambda>raw. let competitor = str raw
                 in if competitor = newFactId then []
                    else [(competitor, newFactId), (newFactId, competitor)])
               (as_array (cv_competing result)))
         else [])"

definition buildConflictEdgeRows ::
  "(jval \<Rightarrow> string) \<Rightarrow> conflict_verdict \<Rightarrow> nat \<Rightarrow> support_edge_row list" where
  "buildConflictEdgeRows str result cap =
     (let newFactId = (if truthy (cv_factId result) then Some (str (cv_factId result)) else None)
      in case newFactId of
           None \<Rightarrow> []
         | Some i \<Rightarrow>
             if i = [] then []
             else take cap (fst (buildSupportEdgeRows
               \<lparr>sp_kind = ContradictedBy, sp_writer = FactResolver, sp_writerVersion = None,
                sp_pairs = conflict_pairs str result i\<rparr>)))"

section \<open>Facts about the assembled rows\<close>

lemma concat_slices: "n > 0 \<Longrightarrow> concat (slices n xs) = xs"
  by (induction n xs rule: slices.induct) (auto simp: slices.simps)

lemma slices_bounds: "b \<in> set (slices n xs) \<Longrightarrow> b \<noteq> [] \<and> length b \<le> n"
proof (induction n xs rule: slices.induct)
  case (1 n xs)
  show ?case
  proof (cases "xs = [] \<or> n = 0")
    case True
    with "1.prems" show ?thesis by (simp add: slices.simps [of n xs])
  next
    case False
    with "1.prems" have "b = take n xs \<or> b \<in> set (slices n (drop n xs))"
      by (simp add: slices.simps [of n xs])
    with "1.IH" [OF False] False show ?thesis by auto
  qed
qed

lemma edge_key_inject:
  assumes "CHR 0x00 \<notin> set (fst p)" "CHR 0x00 \<notin> set (fst q)"
    "CHR 0x00 \<notin> set (snd p)" "CHR 0x00 \<notin> set (snd q)" "edge_key k p = edge_key k q"
  shows "p = q"
proof -
  have "split_first (CHR 0x00) (edge_key k p) = split_first (CHR 0x00) (edge_key k q)"
    using assms(5) by simp
  then have "fst p = fst q" "snd p @ CHR 0x00 # edge_kind_text k = snd q @ CHR 0x00 # edge_kind_text k"
    using assms(1-4) by (simp_all add: edge_key_def)
  then show ?thesis by (simp add: prod_eq_iff)
qed

text \<open>The row list of the loop, without its accumulators: the shape-valid pairs, first
  occurrence of each key.\<close>

lemma edge_loop_spec:
  assumes "\<And>p. p \<in> set ps \<union> Q \<Longrightarrow> CHR 0x00 \<notin> set (fst p) \<and> CHR 0x00 \<notin> set (snd p)"
    and "finite Q" "seen = edge_key (sp_kind spec) ` Q"
  shows "edge_loop spec ps seen rows skipped =
     (rows @ map (edge_row spec)
        (filter (\<lambda>p. p \<notin> Q) (dedupe (filter (\<lambda>p. assertEdgeShape (sp_kind spec) (fst p) (snd p)) ps))),
      skipped + length (filter (\<lambda>p. \<not> assertEdgeShape (sp_kind spec) (fst p) (snd p)) ps))"
  using assms
proof (induction ps arbitrary: Q seen rows skipped)
  case Nil
  then show ?case by simp
next
  case (Cons p ps)
  let ?ok = "\<lambda>p. assertEdgeShape (sp_kind spec) (fst p) (snd p)"
  have nul: "\<And>q. q \<in> set ps \<union> insert p Q \<Longrightarrow> CHR 0x00 \<notin> set (fst q) \<and> CHR 0x00 \<notin> set (snd q)"
    using Cons.prems(1) by auto
  have mem: "edge_key (sp_kind spec) p \<in> seen \<longleftrightarrow> p \<in> Q"
  proof
    assume "edge_key (sp_kind spec) p \<in> seen"
    then obtain q where "q \<in> Q" "edge_key (sp_kind spec) p = edge_key (sp_kind spec) q"
      using Cons.prems(3) by auto
    with nul edge_key_inject [of p q] show "p \<in> Q" by auto
  qed (simp add: Cons.prems(3))
  consider "\<not> ?ok p" | "?ok p" "p \<in> Q" | "?ok p" "p \<notin> Q" by blast
  then show ?case
  proof cases
    case 1
    then show ?thesis
      using Cons.IH [of Q seen rows "skipped + 1"] Cons.prems by simp
  next
    case 2
    have "filter (\<lambda>q. q \<notin> Q) (p # filter (\<lambda>y. y \<noteq> p) xs) = filter (\<lambda>q. q \<notin> Q) xs" for xs
      using 2(2) by (auto intro: filter_cong)
    with 2 mem show ?thesis
      using Cons.IH [of Q seen rows skipped] Cons.prems by (simp add: dedupe_Cons)
  next
    case 3
    have "filter (\<lambda>q. q \<notin> Q) (p # filter (\<lambda>y. y \<noteq> p) xs) = p # filter (\<lambda>q. q \<notin> insert p Q) xs"
      for xs using 3(2) by (auto intro: filter_cong)
    with 3 mem nul show ?thesis
      using Cons.IH [of "insert p Q" "insert (edge_key (sp_kind spec) p) seen"
          "rows @ [edge_row spec p]" skipped] Cons.prems
      by (simp add: dedupe_Cons Let_def)
  qed
qed

text \<open>The batches of a writer hold, in emission order and once each, exactly the pairs whose
  endpoints fit the kind; no batch is empty or above the cap; the others are counted.\<close>

theorem support_edges_assembled:
  assumes "\<forall>p \<in> set (sp_pairs spec). CHR 0x00 \<notin> set (fst p) \<and> CHR 0x00 \<notin> set (snd p)"
    and "buildSupportEdgeBatches spec = (batches, skipped)"
  shows "concat batches = map (edge_row spec) (dedupe
      (filter (\<lambda>p. assertEdgeShape (sp_kind spec) (fst p) (snd p)) (sp_pairs spec))) \<and>
    (\<forall>b \<in> set batches. b \<noteq> [] \<and> length b \<le> SUPPORT_EDGE_CAP) \<and>
    skipped = length (filter (\<lambda>p. \<not> assertEdgeShape (sp_kind spec) (fst p) (snd p)) (sp_pairs spec))"
proof -
  have "edge_loop spec (sp_pairs spec) {} [] 0 =
     (map (edge_row spec) (dedupe
        (filter (\<lambda>p. assertEdgeShape (sp_kind spec) (fst p) (snd p)) (sp_pairs spec))),
      length (filter (\<lambda>p. \<not> assertEdgeShape (sp_kind spec) (fst p) (snd p)) (sp_pairs spec)))"
    using edge_loop_spec [of "sp_pairs spec" "{}" "{}" spec "[]" 0] assms(1) by auto
  with assms(2) show ?thesis
    using slices_bounds by (auto simp: buildSupportEdgeBatches_def concat_slices SUPPORT_EDGE_CAP_def)
qed

theorem support_edges_assembled_witness:
  "let spec = \<lparr>sp_kind = DerivedFrom, sp_writer = PromotionRunner, sp_writerVersion = None,
        sp_pairs = [(''knowledge_fact:s'', ''knowledge_fact:m''), (''knowledge_fact:s'', ''episode:e'')]\<rparr>
   in concat [[edge_row spec (''knowledge_fact:s'', ''knowledge_fact:m'')]] =
        map (edge_row spec) (dedupe
          (filter (\<lambda>p. assertEdgeShape (sp_kind spec) (fst p) (snd p)) (sp_pairs spec))) \<and>
      (\<forall>b \<in> set [[edge_row spec (''knowledge_fact:s'', ''knowledge_fact:m'')]].
         b \<noteq> [] \<and> length b \<le> SUPPORT_EDGE_CAP) \<and>
      1 = length (filter (\<lambda>p. \<not> assertEdgeShape (sp_kind spec) (fst p) (snd p)) (sp_pairs spec))"
  unfolding Let_def
  by (rule support_edges_assembled)
    (simp_all add: buildSupportEdgeBatches_def assertEdgeShape_def classifySupportTarget_def
      parseRecordRef_def SUPPORT_EDGE_CAP_def slices.simps Let_def)

lemma unionEvidenceRefs_bounds:
  "length (unionEvidenceRefs str ls) \<le> 64 \<and> distinct (unionEvidenceRefs str ls) \<and>
   (\<forall>r \<in> set (unionEvidenceRefs str ls). parseRecordRef r \<noteq> None)"
  by (auto simp: unionEvidenceRefs_def dest!: in_set_takeD)

text \<open>A fragment's outcome is attributed to its asset or to nothing, never to the fragment.\<close>

lemma parsed_fragment_has_no_subject:
  "parseRecordRef raw = Some (RefFragment f a) \<Longrightarrow> outcomeSubjectFor (RefFragment f a) = None"
  by (auto simp: parseRecordRef_def split: if_splits)

lemma superseded_edges_point_at_winner:
  assumes "r \<in> set (buildConflictEdgeRows str v cap)" "cv_outcome v = JStr ''SUPERSEDED''"
    "\<And>s. str (JStr s) = s"
  shows "se_out r = str (cv_factId v)"
proof -
  have rows: "set (fst (edge_loop spec ps seen rows n)) \<subseteq> set rows \<union> edge_row spec ` set ps"
    for spec ps seen rows n
    by (induction spec ps seen rows n rule: edge_loop.induct) (auto simp: Let_def)
  have batches: "set (fst (buildSupportEdgeRows spec)) \<subseteq> edge_row spec ` set (sp_pairs spec)" for spec
  proof -
    obtain rws n where e: "edge_loop spec (sp_pairs spec) {} [] 0 = (rws, n)" by force
    have "set rws \<subseteq> edge_row spec ` set (sp_pairs spec)"
      using rows [of spec "sp_pairs spec" "{}" "[]" 0] e by simp
    then show ?thesis
      by (auto simp: buildSupportEdgeRows_def buildSupportEdgeBatches_def e slices.simps
          SUPPORT_EDGE_CAP_def dest: in_set_takeD)
  qed
  from assms show ?thesis
    by (auto simp: buildConflictEdgeRows_def conflict_pairs_def nullish_def present_def Let_def
        edge_row_def split: if_splits dest!: in_set_takeD subsetD [OF batches])
qed

end
