(* ===== verification/ProvenanceClosure.thy ===== *)
theory ProvenanceClosure imports EvidenceRefs begin

text \<open>
  The bounded walk over \<open>derivedFrom\<close> that collects what grounds a fact
  (\<open>src/facts/provenance-closure.ts\<close>): breadth first from a root the caller may already see,
  one batched read per depth, every row fenced by the caller's verdict.  The reads are
  parameters that take the round they are made in, so that two rounds may see different
  databases; \<open>None\<close> is a read that fails, which fails the walk.
\<close>

record prov_span =
  span_start :: jnum
  span_end :: jnum
  span_exact :: string

record closure_edge_row =
  ce_in :: jval
  ce_out :: jval
  ce_kind :: jval

record closure_edge =
  pe_kind :: string
  pe_from :: string
  pe_to :: string

record closure_row =
  cr_id :: jval
  cr_userId :: jval
  cr_source :: jval
  cr_derivedFrom :: jval

record closure_caps =
  maxDepth :: nat
  maxFacts :: nat
  maxEpisodes :: nat

definition collectSceneTargets :: "closure_edge list \<Rightarrow> string list" where
  "collectSceneTargets edges =
     dedupe [pe_to e. e \<leftarrow> edges,
       pe_kind e = ''supported_by'' \<and> classifySupportTarget (pe_to e) = TScene]"

text \<open>The loop of \<open>normalizeReconstructedEdges\<close>; \<open>break\<close> at the cap.\<close>

fun reconstructed_loop ::
  "(jval \<Rightarrow> string) \<Rightarrow> nat \<Rightarrow> closure_edge_row list \<Rightarrow> string set \<Rightarrow> closure_edge list \<Rightarrow>
   closure_edge list" where
  "reconstructed_loop str cap [] seen out = out"
| "reconstructed_loop str cap (row # rows) seen out =
     (let from = str (ce_in row); to = str (ce_out row); target = classifySupportTarget to;
          key = from @ '' '' @ to
      in if str (ce_kind row) \<noteq> ''reconstructed_from'' then reconstructed_loop str cap rows seen out
         else if classifySupportTarget from \<noteq> TScene then reconstructed_loop str cap rows seen out
         else if target \<noteq> TFragment \<and> target \<noteq> TAsset then reconstructed_loop str cap rows seen out
         else if key \<in> seen then reconstructed_loop str cap rows seen out
         else if length out \<ge> cap then out
         else reconstructed_loop str cap rows (insert key seen)
                (out @ [\<lparr>pe_kind = ''reconstructed_from'', pe_from = from, pe_to = to\<rparr>]))"

definition normalizeReconstructedEdges ::
  "(jval \<Rightarrow> string) \<Rightarrow> closure_edge_row list \<Rightarrow> nat \<Rightarrow> closure_edge list" where
  "normalizeReconstructedEdges str rows cap = reconstructed_loop str cap rows {} []"

text \<open>A well-formed span entry, with the episode it belongs to.\<close>

definition span_entry :: "jval \<Rightarrow> (string \<times> prov_span) option" where
  "span_entry raw =
     (case (jget raw ''episodeId'', jget raw ''start'', jget raw ''end'', jget raw ''exact'') of
        (JStr ep, JNum st, JNum en, JStr ex) \<Rightarrow>
          Some (ep, \<lparr>span_start = st, span_end = en, span_exact = ex\<rparr>)
      | _ \<Rightarrow> None)"

text \<open>\<open>if (!m.has(k)) m.set(k, v)\<close>.\<close>

definition put_first :: "'k \<times> 'v \<Rightarrow> ('k \<times> 'v) list \<Rightarrow> ('k \<times> 'v) list" where
  "put_first kv m = (if map_of m (fst kv) = None then m @ [kv] else m)"

definition indexCharSpans :: "jval \<Rightarrow> (string \<times> prov_span) list" where
  "indexCharSpans charSpans =
     fold (\<lambda>raw m. case span_entry raw of None \<Rightarrow> m | Some e \<Rightarrow> put_first e m)
       (as_array charSpans) []"

record walk_state =
  ws_visited :: "string set"
  ws_episodes :: "(string \<times> string) list"
  ws_spans :: "(string \<times> prov_span) list"
  ws_truncDepth :: bool
  ws_truncFanout :: bool
  ws_truncEpisodes :: bool
  ws_admitted :: nat
  ws_edges :: "closure_edge list"
  ws_edgeKeys :: "string set"

definition harvest_episode :: "closure_caps \<Rightarrow> string \<Rightarrow> string \<Rightarrow> walk_state \<Rightarrow> walk_state" where
  "harvest_episode caps owner i s =
     (if \<not> starts_with ''episode:'' i \<or> map_of (ws_episodes s) i \<noteq> None then s
      else if length (ws_episodes s) \<ge> maxEpisodes caps then s\<lparr>ws_truncEpisodes := True\<rparr>
      else s\<lparr>ws_episodes := ws_episodes s @ [(i, owner)]\<rparr>)"

definition fact_owner :: "closure_row \<Rightarrow> string" where
  "fact_owner row = (case cr_userId row of JStr u \<Rightarrow> u | _ \<Rightarrow> [])"

definition harvestGrounding ::
  "(jval \<Rightarrow> string) \<Rightarrow> closure_caps \<Rightarrow> closure_row \<Rightarrow> walk_state \<Rightarrow> walk_state" where
  "harvestGrounding str caps row s =
     (let source = nullish_or (cr_source row) (JObj []);
          s1 = fold (\<lambda>raw. harvest_episode caps (fact_owner row) (str raw))
                 (as_array (jget source ''episodeIds'')) s
      in s1\<lparr>ws_spans := fold put_first (indexCharSpans (jget source ''charSpans'')) (ws_spans s1)\<rparr>)"

text \<open>One candidate of the next generation: admitted unless already visited or past the fact
  budget; the children so far are the first component.\<close>

definition admit ::
  "closure_caps \<Rightarrow> string \<Rightarrow> string list \<times> walk_state \<Rightarrow> string list \<times> walk_state" where
  "admit caps i cs =
     (let (children, s) = cs
      in if i \<in> ws_visited s then cs
         else if ws_admitted s \<ge> maxFacts caps then (children, s\<lparr>ws_truncFanout := True\<rparr>)
         else (children @ [i],
               s\<lparr>ws_visited := insert i (ws_visited s), ws_admitted := ws_admitted s + 1\<rparr>))"

definition derived_ids :: "(jval \<Rightarrow> string) \<Rightarrow> closure_row \<Rightarrow> string list" where
  "derived_ids str row = map str (as_array (cr_derivedFrom row))"

definition collectChildren ::
  "(jval \<Rightarrow> string) \<Rightarrow> closure_row list \<Rightarrow> closure_caps \<Rightarrow> walk_state \<Rightarrow>
   string list \<times> walk_state" where
  "collectChildren str frontier caps s =
     fold (\<lambda>row. fold (admit caps) (derived_ids str row)) frontier ([], s)"

text \<open>One crossed edge; the fact targets so far are the first component.\<close>

definition collect_edge ::
  "(jval \<Rightarrow> string) \<Rightarrow> closure_caps \<Rightarrow> closure_edge_row \<Rightarrow> string list \<times> walk_state \<Rightarrow>
   string list \<times> walk_state" where
  "collect_edge str caps row ts =
     (let (factTargets, s) = ts; kind = str (ce_kind row); from = str (ce_in row);
          to = str (ce_out row); key = kind @ '' '' @ from @ '' '' @ to
      in if \<not> isEmittedEdgeKind kind then ts
         else if key \<in> ws_edgeKeys s then ts
         else if length (ws_edges s) \<ge> maxFacts caps
         then (factTargets, s\<lparr>ws_truncFanout := True\<rparr>)
         else (if kind = ''derived_from'' \<and> classifySupportTarget to = TFact
               then factTargets @ [to] else factTargets,
               s\<lparr>ws_edgeKeys := insert key (ws_edgeKeys s),
                 ws_edges := ws_edges s @ [\<lparr>pe_kind = kind, pe_from = from, pe_to = to\<rparr>]\<rparr>))"

definition collectEdges ::
  "(jval \<Rightarrow> string) \<Rightarrow> closure_edge_row list \<Rightarrow> closure_caps \<Rightarrow> walk_state \<Rightarrow>
   string list \<times> walk_state" where
  "collectEdges str edgeRows caps s = fold (collect_edge str caps) edgeRows ([], s)"

definition admitEdgeChildren ::
  "string list \<Rightarrow> closure_caps \<Rightarrow> walk_state \<Rightarrow> string list \<times> walk_state" where
  "admitEdgeChildren targets caps s = fold (admit caps) targets ([], s)"

text \<open>What the caller supplies.\<close>

record walk_opts =
  wo_str :: "jval \<Rightarrow> string"
  wo_root :: closure_row
  wo_caps :: closure_caps
  wo_visible :: "closure_row \<Rightarrow> bool"
  wo_fetchByIds :: "nat \<Rightarrow> string list \<Rightarrow> closure_row list option"
  wo_fetchEdges :: "(nat \<Rightarrow> string list \<Rightarrow> closure_edge_row list option) option"

text \<open>The crossed support edges of a frontier, read only when the caller supplied the read.\<close>

definition cross_edges ::
  "walk_opts \<Rightarrow> nat \<Rightarrow> closure_row list \<Rightarrow> walk_state \<Rightarrow> (string list \<times> walk_state) option" where
  "cross_edges wo depth frontier s =
     (case wo_fetchEdges wo of
        None \<Rightarrow> Some ([], s)
      | Some fetch \<Rightarrow> (case fetch depth (map (\<lambda>f. wo_str wo (cr_id f)) frontier) of
            None \<Rightarrow> None
          | Some edgeRows \<Rightarrow> Some (collectEdges (wo_str wo) edgeRows (wo_caps wo) s)))"

text \<open>The generation after a frontier: harvest, crossed edges, then the admitted children.\<close>

definition next_generation ::
  "walk_opts \<Rightarrow> nat \<Rightarrow> closure_row list \<Rightarrow> walk_state \<Rightarrow> (string list \<times> walk_state) option" where
  "next_generation wo depth frontier s =
     (case cross_edges wo depth frontier
             (fold (harvestGrounding (wo_str wo) (wo_caps wo)) frontier s) of
        None \<Rightarrow> None
      | Some (edgeTargets, s2) \<Rightarrow>
          let (c1, s3) = collectChildren (wo_str wo) frontier (wo_caps wo) s2;
              (c2, s4) = admitEdgeChildren edgeTargets (wo_caps wo) s3
          in Some (c1 @ c2, s4))"

record walk_result =
  wr_closureFacts :: "(closure_row \<times> nat) list"
  wr_state :: walk_state
  wr_filtered :: bool

function walk_loop ::
  "walk_opts \<Rightarrow> closure_row list \<Rightarrow> nat \<Rightarrow> walk_state \<Rightarrow> (closure_row \<times> nat) list \<Rightarrow> bool \<Rightarrow>
   walk_result option" where
  "walk_loop wo frontier depth s facts filtered =
     (if frontier = [] then Some \<lparr>wr_closureFacts = facts, wr_state = s, wr_filtered = filtered\<rparr>
      else case next_generation wo depth frontier s of
             None \<Rightarrow> None
           | Some (children, s') \<Rightarrow>
               if children = []
               then Some \<lparr>wr_closureFacts = facts, wr_state = s', wr_filtered = filtered\<rparr>
               else if depth \<ge> maxDepth (wo_caps wo)
               then Some \<lparr>wr_closureFacts = facts, wr_state = s'\<lparr>ws_truncDepth := True\<rparr>,
                          wr_filtered = filtered\<rparr>
               else (case wo_fetchByIds wo depth children of
                       None \<Rightarrow> None
                     | Some rows \<Rightarrow>
                         let visibleRows = filter (wo_visible wo) rows
                         in walk_loop wo visibleRows (depth + 1) s'
                              (facts @ map (\<lambda>row. (row, depth + 1)) visibleRows)
                              (filtered \<or> length visibleRows < length rows)))"
  by pat_completeness auto
termination
  by (relation "measure (\<lambda>(wo, frontier, depth, s, facts, filtered). maxDepth (wo_caps wo) - depth)")
    auto

declare walk_loop.simps [simp del]

definition init_walk :: "walk_opts \<Rightarrow> walk_state" where
  "init_walk wo =
     \<lparr>ws_visited = {wo_str wo (cr_id (wo_root wo))}, ws_episodes = [], ws_spans = [],
      ws_truncDepth = False, ws_truncFanout = False, ws_truncEpisodes = False,
      ws_admitted = 0, ws_edges = [], ws_edgeKeys = {}\<rparr>"

definition walkProvenanceClosure :: "walk_opts \<Rightarrow> walk_result option" where
  "walkProvenanceClosure wo = walk_loop wo [wo_root wo] 0 (init_walk wo) [] False"

section \<open>The walk's bookkeeping\<close>

definition walk_ok :: "closure_caps \<Rightarrow> walk_state \<Rightarrow> bool" where
  "walk_ok caps s \<longleftrightarrow>
     finite (ws_visited s) \<and> ws_admitted s \<le> maxFacts caps \<and>
     length (ws_edges s) \<le> maxFacts caps \<and> length (ws_episodes s) \<le> maxEpisodes caps \<and>
     distinct (map fst (ws_episodes s)) \<and>
     (\<forall>i \<in> fst ` set (ws_episodes s). starts_with ''episode:'' i)"

text \<open>What admitting children has done to a state: fresh, distinct, counted ids.\<close>

definition admitted_from ::
  "closure_caps \<Rightarrow> walk_state \<Rightarrow> string set \<Rightarrow> string list \<times> walk_state \<Rightarrow> bool" where
  "admitted_from caps s0 cands cs \<longleftrightarrow>
     walk_ok caps (snd cs) \<and> distinct (fst cs) \<and> set (fst cs) \<inter> ws_visited s0 = {} \<and>
     ws_visited (snd cs) = ws_visited s0 \<union> set (fst cs) \<and>
     ws_admitted (snd cs) = ws_admitted s0 + length (fst cs) \<and> set (fst cs) \<subseteq> cands"

lemma walk_ok_init: "walk_ok (wo_caps wo) (init_walk wo)"
  by (simp add: walk_ok_def init_walk_def)

lemma walk_ok_spans [simp]: "walk_ok caps (s\<lparr>ws_spans := m\<rparr>) = walk_ok caps s"
  "walk_ok caps (s\<lparr>ws_truncDepth := b\<rparr>) = walk_ok caps s"
  by (simp_all add: walk_ok_def)

lemma harvest_episode_ok:
  "walk_ok caps s \<Longrightarrow> walk_ok caps (harvest_episode caps u i s) \<and>
     ws_visited (harvest_episode caps u i s) = ws_visited s \<and>
     ws_admitted (harvest_episode caps u i s) = ws_admitted s"
  by (auto simp: harvest_episode_def walk_ok_def map_of_eq_None_iff)

lemma harvestGrounding_ok:
  assumes "walk_ok caps s"
  shows "walk_ok caps (harvestGrounding str caps row s) \<and>
     ws_visited (harvestGrounding str caps row s) = ws_visited s \<and>
     ws_admitted (harvestGrounding str caps row s) = ws_admitted s"
proof -
  have "walk_ok caps (fold (\<lambda>raw. harvest_episode caps u (str raw)) xs s) \<and>
      ws_visited (fold (\<lambda>raw. harvest_episode caps u (str raw)) xs s) = ws_visited s \<and>
      ws_admitted (fold (\<lambda>raw. harvest_episode caps u (str raw)) xs s) = ws_admitted s" for u xs
    by (rule fold_invariant [where Q = "\<lambda>_. True"]) (use assms harvest_episode_ok in auto)
  then show ?thesis
    by (simp add: harvestGrounding_def walk_ok_spans Let_def)
qed

lemma harvest_all_ok:
  assumes "walk_ok caps s"
  shows "walk_ok caps (fold (harvestGrounding str caps) rows s) \<and>
     ws_visited (fold (harvestGrounding str caps) rows s) = ws_visited s \<and>
     ws_admitted (fold (harvestGrounding str caps) rows s) = ws_admitted s"
  by (rule fold_invariant [where Q = "\<lambda>_. True"]) (use assms harvestGrounding_ok in auto)

lemma admit_ok:
  "admitted_from caps s0 cands cs \<Longrightarrow> i \<in> cands \<Longrightarrow> admitted_from caps s0 cands (admit caps i cs)"
  by (auto simp: admitted_from_def admit_def walk_ok_def split: prod.splits)

lemma admit_all_ok:
  "admitted_from caps s0 cands cs \<Longrightarrow> set xs \<subseteq> cands \<Longrightarrow>
     admitted_from caps s0 cands (fold (admit caps) xs cs)"
  by (rule fold_invariant [where Q = "\<lambda>i. i \<in> cands"]) (auto intro: admit_ok)

lemma admitted_from_start: "walk_ok caps s \<Longrightarrow> admitted_from caps s cands ([], s)"
  by (simp add: admitted_from_def)

lemma collectChildren_ok:
  assumes "walk_ok caps s"
  shows "admitted_from caps s (\<Union>row \<in> set frontier. set (derived_ids str row))
    (collectChildren str frontier caps s)"
  unfolding collectChildren_def
  by (rule fold_invariant [where Q = "\<lambda>row. row \<in> set frontier"])
    (use assms in \<open>auto intro!: admit_all_ok admitted_from_start\<close>)

text \<open>The edge targets a round hands to admission.\<close>

definition edge_targets :: "(jval \<Rightarrow> string) \<Rightarrow> closure_edge_row list \<Rightarrow> string set" where
  "edge_targets str rows =
     {str (ce_out e) | e. e \<in> set rows \<and> str (ce_kind e) = ''derived_from''}"

lemma collectEdges_ok:
  assumes "walk_ok caps s" "collectEdges str rows caps s = (targets, s')"
  shows "walk_ok caps s' \<and> ws_visited s' = ws_visited s \<and> ws_admitted s' = ws_admitted s \<and>
    set targets \<subseteq> edge_targets str rows"
proof -
  let ?P = "\<lambda>ts. walk_ok caps (snd ts) \<and> ws_visited (snd ts) = ws_visited s \<and>
    ws_admitted (snd ts) = ws_admitted s \<and> set (fst ts) \<subseteq> edge_targets str rows"
  have "?P (fold (collect_edge str caps) rows ([], s))"
  proof (rule fold_invariant [where Q = "\<lambda>row. row \<in> set rows"])
    show "?P (collect_edge str caps row ts)" if "row \<in> set rows" "?P ts" for row ts
      using that by (auto simp: collect_edge_def walk_ok_def edge_targets_def Let_def
          split: prod.splits)
  qed (use assms(1) in auto)
  with assms(2) show ?thesis by (simp add: collectEdges_def)
qed

lemma admitted_from_trans:
  assumes "admitted_from caps s A (c1, s1)" "admitted_from caps s1 B (c2, s2)"
  shows "admitted_from caps s (A \<union> B) (c1 @ c2, s2)"
  using assms by (auto simp: admitted_from_def)

definition generation_edges :: "walk_opts \<Rightarrow> nat \<Rightarrow> closure_row list \<Rightarrow> closure_edge_row list" where
  "generation_edges wo depth frontier =
     (case wo_fetchEdges wo of
        None \<Rightarrow> []
      | Some fetch \<Rightarrow> (case fetch depth (map (\<lambda>f. wo_str wo (cr_id f)) frontier) of
            None \<Rightarrow> [] | Some rows \<Rightarrow> rows))"

lemma cross_edges_ok:
  assumes "walk_ok (wo_caps wo) s" "cross_edges wo depth frontier s = Some (targets, s')"
  shows "walk_ok (wo_caps wo) s' \<and> ws_visited s' = ws_visited s \<and> ws_admitted s' = ws_admitted s \<and>
    set targets \<subseteq> edge_targets (wo_str wo) (generation_edges wo depth frontier)"
proof (cases "wo_fetchEdges wo")
  case None
  with assms show ?thesis by (auto simp: cross_edges_def)
next
  case (Some fetch)
  with assms(2) obtain rows
    where "fetch depth (map (\<lambda>f. wo_str wo (cr_id f)) frontier) = Some rows"
      and "collectEdges (wo_str wo) rows (wo_caps wo) s = (targets, s')"
    by (auto simp: cross_edges_def split: option.splits)
  with collectEdges_ok [OF assms(1)] Some show ?thesis
    by (simp add: generation_edges_def)
qed

lemma next_generation_ok:
  assumes "walk_ok (wo_caps wo) s" "next_generation wo depth frontier s = Some (children, s')"
  shows "admitted_from (wo_caps wo) s
     ((\<Union>row \<in> set frontier. set (derived_ids (wo_str wo) row)) \<union>
      edge_targets (wo_str wo) (generation_edges wo depth frontier)) (children, s')"
proof -
  let ?caps = "wo_caps wo" and ?str = "wo_str wo"
  let ?s1 = "fold (harvestGrounding ?str ?caps) frontier s"
  have h: "walk_ok ?caps ?s1" "ws_visited ?s1 = ws_visited s" "ws_admitted ?s1 = ws_admitted s"
    using harvest_all_ok [OF assms(1)] by auto
  obtain targets s2 c1 s3 c2
    where cross: "cross_edges wo depth frontier ?s1 = Some (targets, s2)"
      and c1: "collectChildren ?str frontier ?caps s2 = (c1, s3)"
      and c2: "admitEdgeChildren targets ?caps s3 = (c2, s')"
      and children: "children = c1 @ c2"
    using assms(2) by (auto simp: next_generation_def split: option.splits prod.splits)
  have s2: "walk_ok ?caps s2" "ws_visited s2 = ws_visited s" "ws_admitted s2 = ws_admitted s"
      "set targets \<subseteq> edge_targets ?str (generation_edges wo depth frontier)"
    using cross_edges_ok [OF h(1) cross] h by simp_all
  have a1: "admitted_from ?caps s2 (\<Union>row \<in> set frontier. set (derived_ids ?str row)) (c1, s3)"
    using collectChildren_ok [OF s2(1), where frontier = frontier and str = ?str] c1 by simp
  then have "walk_ok ?caps s3" by (simp add: admitted_from_def)
  from admit_all_ok [OF admitted_from_start [OF this] s2(4)] c2
  have "admitted_from ?caps s3 (edge_targets ?str (generation_edges wo depth frontier)) (c2, s')"
    by (simp add: admitEdgeChildren_def)
  from admitted_from_trans [OF a1 this] children s2(2,3) show ?thesis
    by (simp add: admitted_from_def)
qed

section \<open>What the walk returns\<close>

text \<open>A row reached from the root through visible rows only: each one is named by the
  \<open>derivedFrom\<close> list of the previous, or by a \<open>derived_from\<close> edge leaving it.\<close>

inductive grounded :: "walk_opts \<Rightarrow> closure_row \<Rightarrow> bool" for wo where
  root: "grounded wo (wo_root wo)"
| derived: "grounded wo f \<Longrightarrow> wo_visible wo g \<Longrightarrow>
    wo_str wo (cr_id g) \<in> set (derived_ids (wo_str wo) f) \<Longrightarrow> grounded wo g"
| edge: "grounded wo f \<Longrightarrow> wo_visible wo g \<Longrightarrow> wo_fetchEdges wo = Some fetch \<Longrightarrow>
    fetch d ids = Some rows \<Longrightarrow> e \<in> set rows \<Longrightarrow> wo_str wo (ce_kind e) = ''derived_from'' \<Longrightarrow>
    wo_str wo (ce_in e) = wo_str wo (cr_id f) \<Longrightarrow> wo_str wo (ce_out e) = wo_str wo (cr_id g) \<Longrightarrow>
    grounded wo g"

text \<open>What the two reads promise: \<open>WHERE id INSIDE $ids\<close> returns rows of the table once each,
  with ids among the asked ones, and the edge read returns edges leaving the asked ids.\<close>

definition reads_ok :: "walk_opts \<Rightarrow> bool" where
  "reads_ok wo \<longleftrightarrow>
     (\<forall>d ids rows. wo_fetchByIds wo d ids = Some rows \<longrightarrow>
        distinct (map (\<lambda>r. wo_str wo (cr_id r)) rows) \<and>
        (\<lambda>r. wo_str wo (cr_id r)) ` set rows \<subseteq> set ids) \<and>
     (\<forall>fetch d ids rows. wo_fetchEdges wo = Some fetch \<longrightarrow> fetch d ids = Some rows \<longrightarrow>
        (\<forall>e \<in> set rows. wo_str wo (ce_in e) \<in> set ids))"

abbreviation row_ids :: "walk_opts \<Rightarrow> (closure_row \<times> nat) list \<Rightarrow> string list" where
  "row_ids wo facts \<equiv> map (\<lambda>fd. wo_str wo (cr_id (fst fd))) facts"

definition loop_inv ::
  "walk_opts \<Rightarrow> closure_row list \<Rightarrow> nat \<Rightarrow> walk_state \<Rightarrow> (closure_row \<times> nat) list \<Rightarrow> bool" where
  "loop_inv wo frontier depth s facts \<longleftrightarrow>
     walk_ok (wo_caps wo) s \<and> depth \<le> maxDepth (wo_caps wo) \<and>
     (\<forall>f \<in> set frontier. grounded wo f) \<and>
     (\<forall>(f, d) \<in> set facts. grounded wo f \<and> wo_visible wo f \<and> 1 \<le> d \<and> d \<le> maxDepth (wo_caps wo)) \<and>
     distinct (wo_str wo (cr_id (wo_root wo)) # row_ids wo facts) \<and>
     set (wo_str wo (cr_id (wo_root wo)) # row_ids wo facts) \<subseteq> ws_visited s \<and>
     length facts \<le> ws_admitted s"

lemma children_grounded:
  assumes "reads_ok wo" "\<forall>f \<in> set frontier. grounded wo f" "wo_visible wo g"
    and "wo_str wo (cr_id g) \<in> (\<Union>row \<in> set frontier. set (derived_ids (wo_str wo) row)) \<union>
      edge_targets (wo_str wo) (generation_edges wo depth frontier)"
  shows "grounded wo g"
  using assms(4)
proof
  assume "wo_str wo (cr_id g) \<in> (\<Union>row \<in> set frontier. set (derived_ids (wo_str wo) row))"
  with assms(2,3) show ?thesis by (auto intro: grounded.derived)
next
  assume "wo_str wo (cr_id g) \<in> edge_targets (wo_str wo) (generation_edges wo depth frontier)"
  then obtain e where e: "e \<in> set (generation_edges wo depth frontier)"
      "wo_str wo (ce_kind e) = ''derived_from''" "wo_str wo (ce_out e) = wo_str wo (cr_id g)"
    by (auto simp: edge_targets_def)
  let ?ids = "map (\<lambda>f. wo_str wo (cr_id f)) frontier"
  from e(1) obtain fetch rows where fetch: "wo_fetchEdges wo = Some fetch"
      "fetch depth ?ids = Some rows" "e \<in> set rows"
    by (simp add: generation_edges_def split: option.splits) metis
  with assms(1) have "wo_str wo (ce_in e) \<in> set ?ids"
    unfolding reads_ok_def by blast
  with assms(2) obtain f where "grounded wo f" "wo_str wo (ce_in e) = wo_str wo (cr_id f)"
    by auto
  with grounded.edge [OF _ assms(3) fetch e(2)] e(3) show ?thesis by blast
qed

lemma loop_inv_step:
  assumes ok: "reads_ok wo" and inv: "loop_inv wo frontier depth s facts"
    and gen: "next_generation wo depth frontier s = Some (children, s')"
    and fetch: "wo_fetchByIds wo depth children = Some rows"
    and depth: "depth < maxDepth (wo_caps wo)"
  defines "new \<equiv> filter (wo_visible wo) rows"
  shows "loop_inv wo new (depth + 1) s' (facts @ map (\<lambda>row. (row, depth + 1)) new)"
proof -
  let ?id = "\<lambda>r. wo_str wo (cr_id r)"
  have "walk_ok (wo_caps wo) s" using inv by (simp add: loop_inv_def)
  note g = next_generation_ok [OF this gen]
  have rows: "distinct (map ?id rows)" "?id ` set rows \<subseteq> set children"
    using ok fetch unfolding reads_ok_def by blast+
  then have new: "distinct (map ?id new)" "?id ` set new \<subseteq> set children"
    by (auto simp: new_def distinct_map_filter)
  then have "length new \<le> length children"
    using card_mono [of "set children" "?id ` set new"] g
    by (metis admitted_from_def List.finite_set distinct_card fst_conv length_map list.set_map)
  moreover have "\<forall>f \<in> set new. grounded wo f"
    using inv g new(2) by (auto simp: loop_inv_def new_def admitted_from_def
        intro!: children_grounded [OF ok, of frontier _ depth])
  moreover have "?id ` set new \<inter> ws_visited s = {}"
    using g new(2) by (auto simp: admitted_from_def)
  then have "?id ` set new \<inter> set (?id (wo_root wo) # row_ids wo facts) = {}"
    using inv unfolding loop_inv_def by blast
  moreover have "\<forall>f \<in> set new. wo_visible wo f" by (simp add: new_def)
  ultimately show ?thesis
    using inv g new depth
    unfolding loop_inv_def admitted_from_def
    by (auto simp: comp_def)
qed

lemma walk_loop_ok:
  assumes "reads_ok wo" "loop_inv wo frontier depth s facts"
    "walk_loop wo frontier depth s facts fl = Some r"
  shows "\<exists>depth'. loop_inv wo [] depth' (wr_state r) (wr_closureFacts r)"
  using assms
proof (induction wo frontier depth s facts fl rule: walk_loop.induct)
  case (1 wo frontier depth s facts fl)
  have base: "loop_inv wo [] depth s' facts"
    if "next_generation wo depth frontier s = Some (children, s')" for children s'
    using next_generation_ok [OF _ that] "1.prems"(2) by (auto simp: loop_inv_def admitted_from_def)
  have trunc: "loop_inv wo [] depth (s'\<lparr>ws_truncDepth := True\<rparr>) facts = loop_inv wo [] depth s' facts"
    for s' by (simp add: loop_inv_def)
  show ?case
  proof (cases "frontier = []")
    case True
    with "1.prems" show ?thesis
      by (auto simp: walk_loop.simps [of wo "[]"])
  next
    case False
    then obtain children s' where gen: "next_generation wo depth frontier s = Some (children, s')"
      using "1.prems"(3) by (auto simp: walk_loop.simps [of wo frontier] split: option.splits)
    show ?thesis
    proof (cases "children = [] \<or> depth \<ge> maxDepth (wo_caps wo)")
      case True
      with False gen base [OF gen] trunc "1.prems"(3) show ?thesis
        by (auto simp: walk_loop.simps [of wo frontier] split: if_splits intro!: exI [of _ depth])
    next
      case more: False
      then obtain rows where rows: "wo_fetchByIds wo depth children = Some rows"
        using False gen "1.prems"(3)
        by (auto simp: walk_loop.simps [of wo frontier] split: option.splits if_splits)
      have "loop_inv wo (filter (wo_visible wo) rows) (depth + 1) s'
          (facts @ map (\<lambda>row. (row, depth + 1)) (filter (wo_visible wo) rows))"
        using loop_inv_step [OF "1.prems"(1,2) gen rows] more by simp
      moreover have "walk_loop wo (filter (wo_visible wo) rows) (depth + 1) s'
          (facts @ map (\<lambda>row. (row, depth + 1)) (filter (wo_visible wo) rows))
          (fl \<or> length (filter (wo_visible wo) rows) < length rows) = Some r"
        using False gen more rows "1.prems"(3) by (simp add: walk_loop.simps [of wo frontier] Let_def)
      ultimately show ?thesis
        using "1.IH" [OF False gen refl _ _ rows refl] more "1.prems"(1) by simp
    qed
  qed
qed

text \<open>C35: The walk's result stays within its budgets and behind the caller's fence: at most
  \<open>maxFacts\<close> facts, each once and never the root, at most \<open>maxFacts\<close> edges and \<open>maxEpisodes\<close>
  episodes, no fact deeper than \<open>maxDepth\<close>; and every fact is visible and reached from the
  root through visible facts alone, so nothing behind a fenced row is served.\<close>

theorem closure_bounded_and_fenced:
  assumes "reads_ok wo" "walkProvenanceClosure wo = Some r"
  shows "length (wr_closureFacts r) \<le> maxFacts (wo_caps wo) \<and>
    length (ws_edges (wr_state r)) \<le> maxFacts (wo_caps wo) \<and>
    length (ws_episodes (wr_state r)) \<le> maxEpisodes (wo_caps wo) \<and>
    distinct (wo_str wo (cr_id (wo_root wo)) # row_ids wo (wr_closureFacts r)) \<and>
    (\<forall>(f, d) \<in> set (wr_closureFacts r).
       grounded wo f \<and> wo_visible wo f \<and> 1 \<le> d \<and> d \<le> maxDepth (wo_caps wo))"
proof -
  have "loop_inv wo [wo_root wo] 0 (init_walk wo) []"
    using walk_ok_init [of wo] by (simp add: loop_inv_def grounded.root init_walk_def)
  from walk_loop_ok [OF assms(1) this] assms(2) obtain depth'
    where "loop_inv wo [] depth' (wr_state r) (wr_closureFacts r)"
    by (auto simp: walkProvenanceClosure_def)
  then show ?thesis by (auto simp: loop_inv_def walk_ok_def)
qed

section \<open>Termination\<close>

text \<open>The reads the walk may need: batches of at most \<open>maxFacts\<close> ids in rounds below
  \<open>maxDepth\<close>, and edges up to round \<open>maxDepth\<close>.\<close>

definition reads_answer :: "walk_opts \<Rightarrow> bool" where
  "reads_answer wo \<longleftrightarrow>
     (\<forall>d ids. d < maxDepth (wo_caps wo) \<and> length ids \<le> maxFacts (wo_caps wo) \<longrightarrow>
        wo_fetchByIds wo d ids \<noteq> None) \<and>
     (\<forall>fetch d ids. wo_fetchEdges wo = Some fetch \<longrightarrow> d \<le> maxDepth (wo_caps wo) \<longrightarrow>
        fetch d ids \<noteq> None)"

lemma next_generation_answers:
  "reads_answer wo \<Longrightarrow> depth \<le> maxDepth (wo_caps wo) \<Longrightarrow>
     \<exists>children s'. next_generation wo depth frontier s = Some (children, s')"
  unfolding reads_answer_def
  by (cases "wo_fetchEdges wo")
    (auto simp: next_generation_def cross_edges_def split: option.splits prod.splits)

lemma walk_loop_returns:
  assumes "reads_answer wo" "walk_ok (wo_caps wo) s" "depth \<le> maxDepth (wo_caps wo)"
  shows "\<exists>r. walk_loop wo frontier depth s facts fl = Some r"
  using assms
proof (induction wo frontier depth s facts fl rule: walk_loop.induct)
  case (1 wo frontier depth s facts fl)
  obtain children s' where gen: "next_generation wo depth frontier s = Some (children, s')"
    using next_generation_answers [OF "1.prems"(1,3)] by blast
  then have adm: "admitted_from (wo_caps wo) s
      ((\<Union>row \<in> set frontier. set (derived_ids (wo_str wo) row)) \<union>
       edge_targets (wo_str wo) (generation_edges wo depth frontier)) (children, s')"
    by (rule next_generation_ok [OF "1.prems"(2)])
  show ?case
  proof (cases "frontier = [] \<or> children = [] \<or> depth \<ge> maxDepth (wo_caps wo)")
    case True
    with gen show ?thesis by (auto simp: walk_loop.simps [of wo frontier])
  next
    case False
    with adm have "depth < maxDepth (wo_caps wo) \<and> length children \<le> maxFacts (wo_caps wo)"
      by (auto simp: admitted_from_def walk_ok_def)
    with "1.prems"(1) obtain rows where rows: "wo_fetchByIds wo depth children = Some rows"
      unfolding reads_answer_def by blast
    have "walk_ok (wo_caps wo) s'" using adm by (simp add: admitted_from_def)
    with "1.IH" [OF _ gen refl _ _ rows refl] False "1.prems"(1)
    show ?thesis
      using gen rows by (simp add: walk_loop.simps [of wo frontier] Let_def)
  qed
qed

text \<open>The walk returns, whatever cycles the stored rows contain, after at most \<open>maxDepth\<close> row
  reads of at most \<open>maxFacts\<close> ids each: it suffices that these reads answer.\<close>

theorem closure_walk_returns:
  assumes "reads_answer wo"
  shows "\<exists>r. walkProvenanceClosure wo = Some r"
  using walk_loop_returns [OF assms walk_ok_init] by (simp add: walkProvenanceClosure_def)

section \<open>A cyclic example\<close>

text \<open>Three facts: the root derived from \<open>a\<close> and \<open>b\<close>, \<open>a\<close> from the root and from \<open>c\<close>, and
  \<open>b\<close> hidden from the caller, so that \<open>c\<close> is found through \<open>a\<close>.\<close>

definition js_text :: "jval \<Rightarrow> string" where
  "js_text v = (case v of JStr s \<Rightarrow> s | _ \<Rightarrow> [])"

definition ex_row :: "string \<Rightarrow> string list \<Rightarrow> closure_row" where
  "ex_row i from = \<lparr>cr_id = JStr i, cr_userId = JUndef,
     cr_source = JObj [(''episodeIds'', JArr [JStr (''episode:'' @ i)])],
     cr_derivedFrom = JArr (map JStr from)\<rparr>"

definition ex_table :: "closure_row list" where
  "ex_table = [ex_row ''r'' [''a'', ''b''], ex_row ''a'' [''r'', ''c''], ex_row ''b'' [],
     ex_row ''c'' []]"

definition ex_walk :: walk_opts where
  "ex_walk =
     \<lparr>wo_str = js_text, wo_root = ex_row ''r'' [''a'', ''b''],
      wo_caps = \<lparr>maxDepth = 3, maxFacts = 5, maxEpisodes = 2\<rparr>,
      wo_visible = (\<lambda>row. js_text (cr_id row) \<noteq> ''b''),
      wo_fetchByIds = (\<lambda>d ids. Some (filter (\<lambda>row. js_text (cr_id row) \<in> set ids) ex_table)),
      wo_fetchEdges = None\<rparr>"

lemma ex_walk_reads: "reads_ok ex_walk" "reads_answer ex_walk"
  by (auto simp: reads_ok_def reads_answer_def ex_walk_def ex_table_def ex_row_def js_text_def)

lemma ex_walk_facts:
  "map_option (\<lambda>r. (row_ids ex_walk (wr_closureFacts r), map snd (wr_closureFacts r),
      map fst (ws_episodes (wr_state r)), wr_filtered r)) (walkProvenanceClosure ex_walk) =
   Some ([''a'', ''c''], [1, 2], [''episode:r'', ''episode:a''], True)"
  by (simp add: walkProvenanceClosure_def walk_loop.simps next_generation_def cross_edges_def
      ex_walk_def ex_table_def ex_row_def js_text_def init_walk_def harvestGrounding_def
      harvest_episode_def collectChildren_def admitEdgeChildren_def admit_def derived_ids_def
      as_array_def nullish_or_def nullish_def present_def indexCharSpans_def
      object_prototype_names_def fact_owner_def Let_def)

theorem closure_walk_returns_witness: "\<exists>r. walkProvenanceClosure ex_walk = Some r"
  by (rule closure_walk_returns) (rule ex_walk_reads)

theorem closure_bounded_and_fenced_witness:
  "\<exists>r. walkProvenanceClosure ex_walk = Some r \<and> length (wr_closureFacts r) = 2 \<and>
     (\<forall>(f, d) \<in> set (wr_closureFacts r). grounded ex_walk f \<and> d \<le> 3)"
proof -
  obtain r where r: "walkProvenanceClosure ex_walk = Some r"
    using walk_loop_returns [OF ex_walk_reads(2) walk_ok_init, of 0] unfolding walkProvenanceClosure_def
    by blast
  have "row_ids ex_walk (wr_closureFacts r) = [''a'', ''c'']"
    using ex_walk_facts unfolding r option.map option.inject prod.inject by blast
  then have "length (wr_closureFacts r) = length [''a'', ''c'']"
    by (metis length_map)
  with r closure_bounded_and_fenced [OF ex_walk_reads(1) r] show ?thesis
    by (auto simp: ex_walk_def)
qed

end
