(* ===== verification/Isotonic.thy ===== *)
theory Isotonic imports JsValue "HOL-Library.Multiset" begin

text \<open>
  Confidence calibration by pooling adjacent violators (\<open>src/ai/calibration/isotonic.ts\<close>).
  Numbers are exact rationals; every arithmetic operation whose exact result a double may not
  hold is passed through \<open>rnd\<close>, the rounding of the arithmetic, so that the statements about
  order hold for any rounding and those about the range say what they need of it.  The source
  sorts the pairs before it counts them into bins; counting does not depend on the order
  (\<open>bin_pairs_perm\<close>), and the sort is left out.
\<close>

record calibration_pair =
  rawConfidence :: jnum
  correctness :: nat   \<comment> \<open>0 or 1\<close>

record calibration_map =
  cm_thresholds :: "rat list"
  cm_values :: "rat list"
  cm_sampleCount :: nat

definition clamp_rat :: "rat \<Rightarrow> rat" where
  "clamp_rat x = (if x < 0 then 0 else if x > 1 then 1 else x)"

definition clamp01 :: "jnum \<Rightarrow> rat" where
  "clamp01 x = (case x of JFin q \<Rightarrow> clamp_rat q | _ \<Rightarrow> 0)"

section \<open>Binning\<close>

definition bin_index :: "(rat \<Rightarrow> rat) \<Rightarrow> nat \<Rightarrow> jnum \<Rightarrow> nat" where
  "bin_index rnd binCount raw =
     (let idx = nat \<lfloor>rnd (clamp01 raw * of_nat binCount)\<rfloor>
      in if idx \<ge> binCount then binCount - 1 else idx)"

text \<open>The parallel arrays \<open>binSums\<close> and \<open>binCounts\<close>, counted up one pair at a time.\<close>

definition bin_pair ::
  "(rat \<Rightarrow> rat) \<Rightarrow> nat \<Rightarrow> calibration_pair \<Rightarrow> (nat \<times> nat) list \<Rightarrow> (nat \<times> nat) list" where
  "bin_pair rnd binCount p bins =
     (let idx = bin_index rnd binCount (rawConfidence p)
      in if idx < length bins
         then bins[idx := (fst (bins ! idx) + correctness p, snd (bins ! idx) + 1)] else bins)"

definition bin_pairs :: "(rat \<Rightarrow> rat) \<Rightarrow> nat \<Rightarrow> calibration_pair list \<Rightarrow> (nat \<times> nat) list" where
  "bin_pairs rnd binCount pairs = fold (bin_pair rnd binCount) pairs (replicate binCount (0, 0))"

record pooled =
  upper :: rat
  pmean :: rat
  weight :: nat

definition populated_bins :: "(rat \<Rightarrow> rat) \<Rightarrow> nat \<Rightarrow> (nat \<times> nat) list \<Rightarrow> pooled list" where
  "populated_bins rnd binCount bins =
     [\<lparr>upper = rnd (of_nat (i + 1) / of_nat binCount),
       pmean = rnd (of_nat (fst (bins ! i)) / of_nat (snd (bins ! i))),
       weight = snd (bins ! i)\<rparr>. i \<leftarrow> [0..<binCount], snd (bins ! i) \<noteq> 0]"

section \<open>Pooling\<close>

definition merge_pools :: "(rat \<Rightarrow> rat) \<Rightarrow> pooled \<Rightarrow> pooled \<Rightarrow> pooled" where
  "merge_pools rnd a b =
     \<lparr>upper = upper b,
      pmean = rnd (rnd (rnd (pmean a * of_nat (weight a)) + rnd (pmean b * of_nat (weight b))) /
        of_nat (weight a + weight b)),
      weight = weight a + weight b\<rparr>"

text \<open>The loop over the index \<open>i\<close>: step on while the means are in order, otherwise merge
  the two neighbours and step back.\<close>

function pav :: "(rat \<Rightarrow> rat) \<Rightarrow> nat \<Rightarrow> pooled list \<Rightarrow> pooled list" where
  "pav rnd i ps =
     (if Suc i < length ps
      then let a = ps ! i; b = ps ! Suc i
           in if pmean a \<le> pmean b then pav rnd (Suc i) ps
              else pav rnd (i - 1) (take i ps @ merge_pools rnd a b # drop (Suc (Suc i)) ps)
      else ps)"
  by pat_completeness auto
termination
  by (relation "measure (\<lambda>(rnd, i, ps). 2 * length ps - i)") auto

declare pav.simps [simp del]

text \<open>The rightmost threshold is forced to 1.\<close>

definition force_last :: "pooled list \<Rightarrow> pooled list" where
  "force_last ps = ps[length ps - 1 := (last ps)\<lparr>upper := 1\<rparr>]"

definition fitIsotonic ::
  "(rat \<Rightarrow> rat) \<Rightarrow> calibration_pair list \<Rightarrow> nat \<Rightarrow> calibration_map" where
  "fitIsotonic rnd pairs binCount =
     (if pairs = [] then \<lparr>cm_thresholds = [1], cm_values = [1], cm_sampleCount = 0\<rparr>
      else let populated = pav rnd 0 (populated_bins rnd binCount (bin_pairs rnd binCount pairs))
           in if populated = [] then \<lparr>cm_thresholds = [1], cm_values = [1], cm_sampleCount = length pairs\<rparr>
              else let forced = force_last populated
                   in \<lparr>cm_thresholds = map upper forced, cm_values = map pmean forced,
                       cm_sampleCount = length pairs\<rparr>)"

text \<open>The scan over the thresholds; a value missing from the parallel array counts as 1.\<close>

fun apply_scan :: "rat \<Rightarrow> rat list \<Rightarrow> rat list \<Rightarrow> rat option" where
  "apply_scan c [] vs = None"
| "apply_scan c (t # ts) vs =
     (if c \<le> t then Some (clamp_rat (case vs of [] \<Rightarrow> 1 | v # _ \<Rightarrow> v))
      else apply_scan c ts (case vs of [] \<Rightarrow> [] | _ # vs' \<Rightarrow> vs'))"

definition applyMap :: "calibration_map \<Rightarrow> jnum \<Rightarrow> rat" where
  "applyMap m raw =
     (case apply_scan (clamp01 raw) (cm_thresholds m) (cm_values m) of
        Some v \<Rightarrow> v
      | None \<Rightarrow> clamp_rat (if cm_values m = [] then 1 else last (cm_values m)))"

section \<open>Counting does not depend on the order\<close>

lemma length_bin_pairs: "length (bin_pairs rnd n ps) = n"
proof -
  have "length (fold (bin_pair rnd n) ps bins) = length bins" for bins
    by (induction ps arbitrary: bins) (auto simp: bin_pair_def Let_def)
  then show ?thesis by (simp add: bin_pairs_def)
qed

lemma bin_pair_commute:
  "bin_pair rnd n p (bin_pair rnd n q bins) = bin_pair rnd n q (bin_pair rnd n p bins)"
  by (cases "bin_index rnd n (rawConfidence p) = bin_index rnd n (rawConfidence q)")
    (auto simp: bin_pair_def Let_def list_update_swap ac_simps)

lemma bin_pairs_perm:
  assumes "mset ps = mset qs"
  shows "bin_pairs rnd n ps = bin_pairs rnd n qs"
proof -
  have "fold (bin_pair rnd n) ps = fold (bin_pair rnd n) qs"
    by (rule fold_multiset_equiv) (use assms bin_pair_commute in \<open>auto simp: comp_def\<close>)
  then show ?thesis by (simp add: bin_pairs_def)
qed

section \<open>Order\<close>

lemma pav_ordered:
  assumes "sorted (map pmean (take (Suc i) ps))"
  shows "sorted (map pmean (pav rnd i ps))"
  using assms
proof (induction rnd i ps rule: pav.induct)
  case (1 rnd i ps)
  show ?case
  proof (cases "Suc i < length ps")
    case False
    with "1.prems" show ?thesis by (simp add: pav.simps [of rnd i ps])
  next
    case True
    let ?merged = "take i ps @ merge_pools rnd (ps ! i) (ps ! Suc i) # drop (Suc (Suc i)) ps"
    have i: "take (Suc i) ps = take i ps @ [ps ! i]"
      using True by (simp add: take_Suc_conv_app_nth)
    show ?thesis
    proof (cases "pmean (ps ! i) \<le> pmean (ps ! Suc i)")
      case le: True
      have "take (Suc (Suc i)) ps = take (Suc i) ps @ [ps ! Suc i]"
        using True by (simp add: take_Suc_conv_app_nth)
      with "1.prems" le i have "sorted (map pmean (take (Suc (Suc i)) ps))"
        by (auto simp: sorted_append)
      with "1.IH"(1) [OF True refl refl le] True le show ?thesis
        by (simp add: pav.simps [of rnd i ps] Let_def)
    next
      case gt: False
      have "take (Suc (i - 1)) ?merged = take i ps \<or> i = 0"
        using True by (cases i) auto
      with "1.prems" i have "sorted (map pmean (take (Suc (i - 1)) ?merged))"
        by (auto simp: sorted_append)
      with "1.IH"(2) [OF True refl refl gt] True gt show ?thesis
        by (simp add: pav.simps [of rnd i ps] Let_def)
    qed
  qed
qed

lemma force_last_simps [simp]:
  "map pmean (force_last ps) = map pmean ps"
  "map weight (force_last ps) = map weight ps"
  "length (force_last ps) = length ps"
  "ps \<noteq> [] \<Longrightarrow> last (map upper (force_last ps)) = 1"
proof -
  show "map pmean (force_last ps) = map pmean ps" "map weight (force_last ps) = map weight ps"
    by (cases "ps = []"; auto simp: force_last_def nth_list_update last_conv_nth
        intro!: nth_equalityI)+
  show "ps \<noteq> [] \<Longrightarrow> last (map upper (force_last ps)) = 1"
    by (simp add: force_last_def last_map last_list_update)
qed (simp add: force_last_def)

lemma fit_values_sorted: "sorted (cm_values (fitIsotonic rnd pairs n))"
proof -
  have "sorted (map pmean (pav rnd 0 ps))" for ps
    by (rule pav_ordered) (cases ps; simp)
  then show ?thesis by (simp add: fitIsotonic_def Let_def)
qed

lemma clamp_rat_bounds: "0 \<le> clamp_rat x" "clamp_rat x \<le> 1"
  by (simp_all add: clamp_rat_def)

lemma clamp_rat_mono: "x \<le> y \<Longrightarrow> clamp_rat x \<le> clamp_rat y"
  by (simp add: clamp_rat_def)

text \<open>Where two scans stop: the larger input at the same place or further right.\<close>

lemma apply_scan_mono:
  assumes "c \<le> d" "sorted vs" "length vs = length ts" "ts \<noteq> []"
  defines "out e \<equiv> (case apply_scan e ts vs of Some v \<Rightarrow> v | None \<Rightarrow> clamp_rat (last vs))"
  shows "clamp_rat (hd vs) \<le> out c \<and> out c \<le> out d"
  using assms(2-4) unfolding out_def
proof (induction ts arbitrary: vs)
  case Nil
  then show ?case by simp
next
  case (Cons t ts)
  then obtain v vs' where vs: "vs = v # vs'" by (cases vs) auto
  have sv: "sorted vs'" "length vs' = length ts" using Cons.prems vs by auto
  have hd_le: "vs' \<noteq> [] \<Longrightarrow> clamp_rat v \<le> clamp_rat (hd vs')"
    using Cons.prems(1) vs by (cases vs') (auto intro: clamp_rat_mono)
  show ?case
  proof (cases "ts = []")
    case True
    with sv vs show ?thesis by auto
  next
    case False
    with sv have ne: "vs' \<noteq> []" by auto
    have IH: "clamp_rat (hd vs') \<le> (case apply_scan c ts vs' of None \<Rightarrow> clamp_rat (last vs') | Some v \<Rightarrow> v)"
      "(case apply_scan c ts vs' of None \<Rightarrow> clamp_rat (last vs') | Some v \<Rightarrow> v) \<le>
       (case apply_scan d ts vs' of None \<Rightarrow> clamp_rat (last vs') | Some v \<Rightarrow> v)"
      using Cons.IH [OF sv False] by auto
    show ?thesis
      using IH hd_le [OF ne] assms(1) vs ne by (auto split: option.splits)
  qed
qed

section \<open>What pooling keeps\<close>

lemma pav_invariant:
  assumes "P ps"
    and step: "\<And>xs a b ys. P (xs @ a # b # ys) \<Longrightarrow> pmean b < pmean a \<Longrightarrow>
      P (xs @ merge_pools rnd a b # ys)"
  shows "P (pav rnd i ps)"
  using assms
proof (induction rnd i ps rule: pav.induct)
  case (1 rnd i ps)
  show ?case
  proof (cases "Suc i < length ps")
    case False
    with "1.prems"(1) show ?thesis by (simp add: pav.simps [of rnd i ps])
  next
    case True
    then have split: "ps = take i ps @ ps ! i # ps ! Suc i # drop (Suc (Suc i)) ps"
      by (simp add: Cons_nth_drop_Suc id_take_nth_drop)
    show ?thesis
    proof (cases "pmean (ps ! i) \<le> pmean (ps ! Suc i)")
      case le: True
      with "1.IH"(1) [OF True refl refl le] "1.prems" True show ?thesis
        by (simp add: pav.simps [of rnd i ps] Let_def)
    next
      case gt: False
      then have "P (take i ps @ merge_pools rnd (ps ! i) (ps ! Suc i) # drop (Suc (Suc i)) ps)"
        using "1.prems"(1) split by (intro "1.prems"(2)) auto
      with "1.IH"(2) [OF True refl refl gt] "1.prems"(2) True gt show ?thesis
        by (simp add: pav.simps [of rnd i ps] Let_def)
    qed
  qed
qed

lemma pav_weight: "sum_list (map weight (pav rnd i ps)) = sum_list (map weight ps)"
  by (rule pav_invariant) (auto simp: merge_pools_def)

lemma pav_length: "length (pav rnd i ps) \<le> length ps"
  by (rule pav_invariant [where P = "\<lambda>qs. length qs \<le> length ps"]) auto

lemma pav_not_empty: "ps \<noteq> [] \<Longrightarrow> pav rnd i ps \<noteq> []"
  by (rule pav_invariant [where P = "\<lambda>qs. qs \<noteq> []"]) auto

lemma pav_uppers:
  assumes "sorted (map upper ps)"
  shows "sorted (map upper (pav rnd i ps))"
  by (rule pav_invariant [where P = "\<lambda>qs. sorted (map upper qs)"])
    (use assms in \<open>auto simp: sorted_append merge_pools_def\<close>)

text \<open>What the arithmetic must do for the results to stay in the unit interval: rounding is
  monotone and exact on the counts that occur, as doubles are up to \<open>2^53\<close>.\<close>

definition rounding_ok :: "nat \<Rightarrow> (rat \<Rightarrow> rat) \<Rightarrow> bool" where
  "rounding_ok N rnd \<longleftrightarrow> mono rnd \<and> (\<forall>n \<le> N. rnd (of_nat n) = of_nat n)"

lemma rounding_between:
  assumes "rounding_ok N rnd" "0 \<le> x" "x \<le> of_nat n" "n \<le> N"
  shows "0 \<le> rnd x \<and> rnd x \<le> of_nat n"
proof -
  have "rnd 0 = 0" "rnd (of_nat n) = of_nat n"
    using assms(1,4) unfolding rounding_ok_def by (metis le0 of_nat_0, blast)
  with assms show ?thesis
    unfolding rounding_ok_def by (metis monoD)
qed

lemma merge_in_unit:
  assumes "rounding_ok N rnd" "0 < weight a" "weight a + weight b \<le> N"
    "0 \<le> pmean a" "pmean a \<le> 1" "0 \<le> pmean b" "pmean b \<le> 1"
  shows "0 \<le> pmean (merge_pools rnd a b) \<and> pmean (merge_pools rnd a b) \<le> 1"
proof -
  let ?x = "rnd (pmean a * of_nat (weight a))" and ?y = "rnd (pmean b * of_nat (weight b))"
  have "0 \<le> ?x \<and> ?x \<le> of_nat (weight a)" "0 \<le> ?y \<and> ?y \<le> of_nat (weight b)"
    by (rule rounding_between [OF assms(1)];
        use assms in \<open>simp add: mult_left_le_one_le\<close>)+
  then have "0 \<le> rnd (?x + ?y) \<and> rnd (?x + ?y) \<le> of_nat (weight a + weight b)"
    using assms(3) by (intro rounding_between [OF assms(1)]) auto
  then have "0 \<le> rnd (?x + ?y) / of_nat (weight a + weight b) \<and>
      rnd (?x + ?y) / of_nat (weight a + weight b) \<le> of_nat 1"
    using assms(2) by (simp add: divide_le_eq)
  then have "0 \<le> rnd (rnd (?x + ?y) / of_nat (weight a + weight b)) \<and>
      rnd (rnd (?x + ?y) / of_nat (weight a + weight b)) \<le> of_nat 1"
    using assms(2,3) by (intro rounding_between [OF assms(1)]) auto
  then show ?thesis by (simp add: merge_pools_def)
qed

lemma pav_in_unit:
  assumes "rounding_ok N rnd" "sum_list (map weight ps) \<le> N"
    and "\<forall>p \<in> set ps. 0 < weight p \<and> 0 \<le> pmean p \<and> pmean p \<le> 1"
  shows "\<forall>p \<in> set (pav rnd i ps). 0 < weight p \<and> 0 \<le> pmean p \<and> pmean p \<le> 1"
proof -
  let ?P = "\<lambda>qs. sum_list (map weight qs) \<le> N \<and>
    (\<forall>p \<in> set qs. 0 < weight p \<and> 0 \<le> pmean p \<and> pmean p \<le> 1)"
  have "?P (pav rnd i ps)"
  proof (rule pav_invariant)
    fix xs ys and a b :: pooled
    assume P: "?P (xs @ a # b # ys)"
    then have "0 \<le> pmean (merge_pools rnd a b) \<and> pmean (merge_pools rnd a b) \<le> 1"
      by (intro merge_in_unit [OF assms(1)]) auto
    with P show "?P (xs @ merge_pools rnd a b # ys)"
      by (auto simp: merge_pools_def)
  qed (use assms in auto)
  then show ?thesis by blast
qed

section \<open>What binning counts\<close>

lemma bin_index_less: "n > 0 \<Longrightarrow> bin_index rnd n raw < n"
  by (auto simp: bin_index_def Let_def)

lemma bin_fold_sums:
  assumes "n > 0" "length bins = n"
  shows "sum_list (map fst (fold (bin_pair rnd n) ps bins)) =
      sum_list (map fst bins) + sum_list (map correctness ps) \<and>
    sum_list (map snd (fold (bin_pair rnd n) ps bins)) = sum_list (map snd bins) + length ps"
  using assms(2)
proof (induction ps arbitrary: bins)
  case Nil
  then show ?case by simp
next
  case (Cons p ps)
  let ?i = "bin_index rnd n (rawConfidence p)"
  have i: "?i < length bins" using bin_index_less assms(1) Cons.prems by simp
  have "sum_list (map fst (bin_pair rnd n p bins)) = sum_list (map fst bins) + correctness p \<and>
      sum_list (map snd (bin_pair rnd n p bins)) = sum_list (map snd bins) + 1"
    using i elem_le_sum_list [of ?i "map fst bins"] elem_le_sum_list [of ?i "map snd bins"]
    by (simp add: bin_pair_def Let_def map_update sum_list_update)
  moreover have "length (bin_pair rnd n p bins) = n"
    using Cons.prems by (simp add: bin_pair_def Let_def)
  ultimately show ?case
    using Cons.IH [of "bin_pair rnd n p bins"] by simp
qed

lemma bin_pairs_sums:
  assumes "n > 0"
  shows "sum_list (map fst (bin_pairs rnd n ps)) = sum_list (map correctness ps)"
    and "sum_list (map snd (bin_pairs rnd n ps)) = length ps"
  using bin_fold_sums [OF assms, of "replicate n (0, 0)"]
  by (simp_all add: bin_pairs_def map_replicate_const sum_list_replicate)

lemma bin_pairs_fst_le:
  assumes "\<forall>p \<in> set ps. correctness p \<le> 1" "b \<in> set (bin_pairs rnd n ps)"
  shows "fst b \<le> snd b"
proof -
  have "\<forall>b \<in> set (fold (bin_pair rnd n) ps (replicate n (0, 0))). fst b \<le> snd b"
  proof (rule fold_invariant [where Q = "\<lambda>p. correctness p \<le> 1"])
    show "\<forall>b \<in> set (bin_pair rnd n p bins). fst b \<le> snd b"
      if "correctness p \<le> 1" "\<forall>b \<in> set bins. fst b \<le> snd b" for p bins
    proof -
      have "i < length bins \<Longrightarrow> fst (bins ! i) + correctness p \<le> Suc (snd (bins ! i))" for i
        using that nth_mem [of i bins] by fastforce
      with that(2) show ?thesis
        by (auto simp: bin_pair_def Let_def dest!: subsetD [OF set_update_subset_insert])
    qed
  qed (use assms(1) in auto)
  with assms(2) show ?thesis by (simp add: bin_pairs_def)
qed

lemma sum_list_of_nat:
  "sum_list (map (\<lambda>x. of_nat (f x)) xs) = (of_nat (sum_list (map f xs)) :: rat)"
  by (induction xs) auto

lemma comprehension_filter:
  "concat (map (\<lambda>i. if P i then [h i] else []) is) = map h (filter P is)"
  by (induction "is") auto

lemma sum_list_comprehension:
  "sum_list (map f (concat (map (\<lambda>i. if P i then [h i] else []) is))) =
     sum_list (map (\<lambda>i. if P i then f (h i) else (0::'a::monoid_add)) is)"
  by (induction "is") auto

text \<open>Sums over the populated bins are sums over all of them, an empty bin having nothing.\<close>

lemma sum_populated:
  assumes "length bins = n" "\<And>i. i < n \<Longrightarrow> snd (bins ! i) = 0 \<Longrightarrow> g (bins ! i) = (0::'a::comm_monoid_add)"
    and "\<And>u i. i < n \<Longrightarrow> snd (bins ! i) \<noteq> 0 \<Longrightarrow>
      f \<lparr>upper = u, pmean = rnd (of_nat (fst (bins ! i)) / of_nat (snd (bins ! i))),
         weight = snd (bins ! i)\<rparr> = g (bins ! i)"
  shows "sum_list (map f (populated_bins rnd n bins)) = sum_list (map g bins)"
proof -
  have "sum_list (map f (populated_bins rnd n bins)) =
      sum_list (map (\<lambda>i. if snd (bins ! i) \<noteq> 0 then g (bins ! i) else 0) [0..<n])"
    unfolding populated_bins_def sum_list_comprehension
    using assms(3) by (intro arg_cong [where f = sum_list] map_cong) auto
  also have "\<dots> = sum_list (map (\<lambda>i. g (bins ! i)) [0..<n])"
    using assms(2) by (intro arg_cong [where f = sum_list] map_cong) auto
  also have "map (\<lambda>i. g (bins ! i)) [0..<n] = map g bins"
    using assms(1) by (auto intro!: nth_equalityI)
  finally show ?thesis .
qed

lemma populated_weight:
  "n > 0 \<Longrightarrow> sum_list (map weight (populated_bins rnd n (bin_pairs rnd n ps))) = length ps"
  by (subst sum_populated [where g = snd]) (auto simp: length_bin_pairs bin_pairs_sums)

lemma populated_in_unit:
  assumes "rounding_ok N rnd" "1 \<le> N" "\<forall>p \<in> set ps. correctness p \<le> 1"
    and "q \<in> set (populated_bins rnd n (bin_pairs rnd n ps))"
  shows "0 < weight q \<and> 0 \<le> pmean q \<and> pmean q \<le> 1"
proof -
  let ?bins = "bin_pairs rnd n ps"
  obtain i where i: "i < n" "snd (?bins ! i) \<noteq> 0"
    and q: "q = \<lparr>upper = rnd (of_nat (i + 1) / of_nat n),
      pmean = rnd (of_nat (fst (?bins ! i)) / of_nat (snd (?bins ! i))),
      weight = snd (?bins ! i)\<rparr>"
    using assms(4) by (auto simp: populated_bins_def split: if_splits)
  have "fst (?bins ! i) \<le> snd (?bins ! i)"
    using bin_pairs_fst_le [OF assms(3)] i(1) by (metis length_bin_pairs nth_mem)
  then have "0 \<le> rnd (of_nat (fst (?bins ! i)) / of_nat (snd (?bins ! i))) \<and>
      rnd (of_nat (fst (?bins ! i)) / of_nat (snd (?bins ! i))) \<le> of_nat 1"
    using i(2) assms(2) by (intro rounding_between [OF assms(1)]) (auto simp: divide_le_eq)
  with i q show ?thesis by simp
qed

lemma populated_uppers:
  assumes "rounding_ok N rnd" "1 \<le> N"
  shows "sorted (map upper (populated_bins rnd n bins)) \<and>
    (\<forall>q \<in> set (populated_bins rnd n bins). upper q \<le> 1)"
proof -
  let ?f = "\<lambda>i. \<lparr>upper = rnd (of_nat (i + 1) / of_nat n),
       pmean = rnd (of_nat (fst (bins ! i)) / of_nat (snd (bins ! i))),
       weight = snd (bins ! i)\<rparr>"
  have eq: "populated_bins rnd n bins = map ?f (filter (\<lambda>i. snd (bins ! i) \<noteq> 0) [0..<n])"
    unfolding populated_bins_def by (rule comprehension_filter)
  have mono: "rnd (of_nat (i + 1) / of_nat n) \<le> rnd (of_nat (j + 1) / of_nat n)" if "i \<le> j" for i j
    using assms(1) that unfolding rounding_ok_def
    by (auto intro!: monoD [of rnd] divide_right_mono)
  have "sorted (filter (\<lambda>i. snd (bins ! i) \<noteq> 0) [0..<n])"
    by (rule sorted_wrt_filter) simp
  then have "sorted (map (upper \<circ> ?f) (filter (\<lambda>i. snd (bins ! i) \<noteq> 0) [0..<n]))"
    unfolding sorted_map by (rule sorted_wrt_mono_rel [rotated]) (use mono in simp)
  moreover have "upper (?f i) \<le> 1" if "i < n" for i
  proof -
    have "rnd (of_nat (i + 1) / of_nat n) \<le> of_nat 1"
      using that assms(2) rounding_between [OF assms(1), of "of_nat (i + 1) / of_nat n" 1]
      by (simp add: divide_le_eq)
    then show ?thesis by simp
  qed
  ultimately show ?thesis unfolding eq by auto
qed

section \<open>Properties\<close>

text \<open>A fitted map is a calibration map: as many values as thresholds, at least one and at most
  one per bin, thresholds in order with the last one 1, values in order and in the unit
  interval.\<close>

theorem fitted_map_wellformed:
  assumes "rounding_ok (max 1 (length pairs)) rnd" "n > 0" "\<forall>p \<in> set pairs. correctness p \<le> 1"
  defines "m \<equiv> fitIsotonic rnd pairs n"
  shows "length (cm_thresholds m) = length (cm_values m) \<and>
    1 \<le> length (cm_values m) \<and> length (cm_values m) \<le> n \<and>
    sorted (cm_thresholds m) \<and> last (cm_thresholds m) = 1 \<and>
    sorted (cm_values m) \<and> (\<forall>v \<in> set (cm_values m). 0 \<le> v \<and> v \<le> 1)"
proof (cases "pairs = []")
  case True
  with assms(2) show ?thesis by (simp add: m_def fitIsotonic_def)
next
  case False
  let ?b = "populated_bins rnd n (bin_pairs rnd n pairs)"
  let ?p = "pav rnd 0 ?b"
  note rnd = assms(1)
  have weight: "sum_list (map weight ?b) = length pairs" by (rule populated_weight [OF assms(2)])
  have "?b \<noteq> []" using weight False by auto
  then have ne: "?p \<noteq> []" by (rule pav_not_empty)
  have m: "cm_thresholds m = map upper (force_last ?p)" "cm_values m = map pmean ?p"
    using False ne by (simp_all add: m_def fitIsotonic_def Let_def)
  have "length ?b \<le> n"
    using length_filter_le [of _ "[0..<n]"] by (simp add: populated_bins_def comprehension_filter)
  then have "length ?p \<le> n" using pav_length [of rnd 0 ?b] by linarith
  moreover have "\<forall>q \<in> set ?p. 0 \<le> pmean q \<and> pmean q \<le> 1"
    using pav_in_unit [OF rnd, of ?b 0] weight populated_in_unit [OF rnd _ assms(3)] by auto
  moreover have "sorted (map upper (force_last ?p))"
  proof -
    have up: "sorted (map upper ?p)"
      using populated_uppers [OF rnd] by (auto intro!: pav_uppers)
    have "\<forall>q \<in> set ?p. upper q \<le> 1"
      by (rule pav_invariant [where P = "\<lambda>qs. \<forall>q \<in> set qs. upper q \<le> 1"])
        (use populated_uppers [OF rnd] in \<open>auto simp: merge_pools_def\<close>)
    with up ne show ?thesis
      by (auto simp: force_last_def sorted_wrt_iff_nth_less map_update nth_list_update
          sorted_iff_nth_mono_less)
  qed
  moreover have "1 \<le> length ?p" using ne by (simp add: Suc_le_eq)
  ultimately show ?thesis
    using m ne fit_values_sorted [of rnd pairs n] by (auto simp: m_def)
qed

theorem fitted_map_wellformed_witness:
  "let m = fitIsotonic id [\<lparr>rawConfidence = JFin (1/2), correctness = 1\<rparr>] 2
   in length (cm_thresholds m) = length (cm_values m) \<and>
    1 \<le> length (cm_values m) \<and> length (cm_values m) \<le> 2 \<and>
    sorted (cm_thresholds m) \<and> last (cm_thresholds m) = 1 \<and>
    sorted (cm_values m) \<and> (\<forall>v \<in> set (cm_values m). 0 \<le> v \<and> v \<le> 1)"
  unfolding Let_def
  by (rule fitted_map_wellformed) (simp_all add: rounding_ok_def mono_def)

text \<open>A calibrated confidence never decreases when the raw confidence grows, for every rounding
  of the arithmetic, any training pairs and any grid.\<close>

theorem calibration_monotone:
  assumes "clamp01 raw \<le> clamp01 raw'"
  shows "applyMap (fitIsotonic rnd pairs n) raw \<le> applyMap (fitIsotonic rnd pairs n) raw'"
proof -
  let ?m = "fitIsotonic rnd pairs n"
  have "length (cm_values ?m) = length (cm_thresholds ?m)" "cm_thresholds ?m \<noteq> []"
    by (auto simp: fitIsotonic_def Let_def force_last_def)
  then show ?thesis
    using apply_scan_mono [OF assms fit_values_sorted [of rnd pairs n], of "cm_thresholds ?m"]
    by (auto simp: applyMap_def split: option.splits)
qed

theorem calibration_monotone_witness:
  "applyMap (fitIsotonic id [\<lparr>rawConfidence = JFin (9/10), correctness = 0\<rparr>] 10) (JFin (1/5)) \<le>
   applyMap (fitIsotonic id [\<lparr>rawConfidence = JFin (9/10), correctness = 0\<rparr>] 10) (JFin (4/5))"
  by (rule calibration_monotone) (simp add: clamp01_def clamp_rat_def)

text \<open>Pooling loses no observation: with exact arithmetic the pools weigh as many pairs as were
  given, and their weighted means sum to the number of correct ones.\<close>

theorem pooling_conserves:
  fixes pairs :: "calibration_pair list"
  assumes "n > 0" "\<forall>p \<in> set pairs. correctness p \<le> 1"
  defines "ps \<equiv> pav id 0 (populated_bins id n (bin_pairs id n pairs))"
  shows "sum_list (map weight ps) = length pairs \<and>
    sum_list (map (\<lambda>p. pmean p * of_nat (weight p)) ps) = of_nat (sum_list (map correctness pairs))"
proof -
  let ?bins = "bin_pairs id n pairs"
  let ?b = "populated_bins id n ?bins" and ?mass = "\<lambda>p. pmean p * of_nat (weight p)"
  have "sum_list (map ?mass ps) = sum_list (map ?mass ?b) \<and> (\<forall>p \<in> set ps. 0 < weight p)"
    unfolding ps_def
  proof (rule pav_invariant)
    show "sum_list (map ?mass ?b) = sum_list (map ?mass ?b) \<and> (\<forall>p \<in> set ?b. 0 < weight p)"
      by (simp add: populated_bins_def comprehension_filter)
  qed (auto simp: merge_pools_def)
  moreover have "sum_list (map ?mass ?b) = sum_list (map (\<lambda>b. of_nat (fst b)) ?bins)"
  proof (rule sum_populated [OF length_bin_pairs])
    show "of_nat (fst (?bins ! i)) = (0 :: rat)" if "i < n" "snd (?bins ! i) = 0" for i
      using that bin_pairs_fst_le [OF assms(2), of "?bins ! i" id n] by (simp add: length_bin_pairs)
  qed auto
  moreover have "sum_list (map (\<lambda>b. of_nat (fst b)) ?bins) = (of_nat (sum_list (map correctness pairs)) :: rat)"
    by (simp add: sum_list_of_nat bin_pairs_sums(1) [OF assms(1)])
  ultimately show ?thesis
    using populated_weight [OF assms(1), of id pairs] by (simp add: ps_def pav_weight)
qed

theorem pooling_conserves_witness:
  "let pairs = [\<lparr>rawConfidence = JFin (1/4), correctness = 1\<rparr>,
                \<lparr>rawConfidence = JFin (3/4), correctness = 0\<rparr>];
       ps = pav id 0 (populated_bins id 2 (bin_pairs id 2 pairs))
   in sum_list (map weight ps) = length pairs \<and>
      sum_list (map (\<lambda>p. pmean p * of_nat (weight p)) ps) = of_nat (sum_list (map correctness pairs))"
  unfolding Let_def by (rule pooling_conserves) simp_all

text \<open>A confidence on the border of two bins trains the upper bin and is answered from the
  lower one.\<close>

lemma border_pair_misread:
  "let m = fitIsotonic id [\<lparr>rawConfidence = JFin (1/4), correctness = 0\<rparr>,
                           \<lparr>rawConfidence = JFin (1/2), correctness = 1\<rparr>] 2
   in cm_thresholds m = [1/2, 1] \<and> cm_values m = [0, 1] \<and> applyMap m (JFin (1/2)) = 0"
  by (simp add: fitIsotonic_def bin_pairs_def bin_pair_def bin_index_def clamp01_def clamp_rat_def
      populated_bins_def pav.simps force_last_def applyMap_def numeral_2_eq_2 upt_rec Let_def)

text \<open>The map of an empty training set is constant, not the identity.\<close>

lemma empty_map_constant: "applyMap (fitIsotonic rnd [] n) raw = 1"
  by (simp add: fitIsotonic_def applyMap_def clamp01_def clamp_rat_def split: jnum.splits)

end
