(* ===== verification/EvidenceLocator.thy ===== *)
theory EvidenceLocator imports JsValue begin

text \<open>
  Where in an asset a fragment lies (\<open>src/evidence/locator.ts\<close>): the validator that is the
  schema of a free-form column, run on untyped values, and the key fragments are deduplicated
  by.  An object's entries are in the order the runtime enumerates them; \<open>rnd\<close> is the rounding
  of the two sums the source computes.
\<close>

datatype locator_error =
    NotAnObject
  | UnknownKind
  | UnknownField string
  | WrongModality
  | BadShape string
  | ImagePage

definition KIND_MODALITIES :: "(string \<times> string list) list" where
  "KIND_MODALITIES =
     [(''charRange'', [''document'']),
      (''pageRegion'', [''document'', ''image'']),
      (''timeRange'', [''audio'', ''video'', ''sensor'']),
      (''frameRange'', [''video'']),
      (''track'', [''audio'', ''video'', ''sensor''])]"

definition LOCATOR_FIELDS :: "(string \<times> string list) list" where
  "LOCATOR_FIELDS =
     [(''charRange'', [''kind'', ''start'', ''end'']),
      (''pageRegion'', [''kind'', ''page'', ''x'', ''y'', ''w'', ''h'']),
      (''timeRange'', [''kind'', ''startMs'', ''endMs'']),
      (''frameRange'', [''kind'', ''startFrame'', ''endFrame'']),
      (''track'', [''kind'', ''trackId'', ''startMs'', ''endMs''])]"

fun isInt :: "jval \<Rightarrow> bool" where
  "isInt (JNum (JFin q)) = (q = of_int \<lfloor>q\<rfloor>)"
| "isInt _ = False"

fun isNum :: "jval \<Rightarrow> bool" where
  "isNum (JNum (JFin q)) = True"
| "isNum _ = False"

fun num_of :: "jval \<Rightarrow> rat" where
  "num_of (JNum (JFin q)) = q"
| "num_of _ = 0"

definition rangeError :: "jval \<Rightarrow> jval \<Rightarrow> string \<Rightarrow> locator_error option" where
  "rangeError lo hi msg =
     (if \<not> isInt lo \<or> \<not> isInt hi \<or> num_of lo < 0 \<or> num_of hi \<le> num_of lo
      then Some (BadShape msg) else None)"

definition unit_field :: "jval \<Rightarrow> string \<Rightarrow> bool" where
  "unit_field loc k = (let v = jget loc k in isNum v \<and> \<not> num_of v < 0 \<and> \<not> num_of v > 1)"

definition page_region_error :: "(rat \<Rightarrow> rat) \<Rightarrow> jval \<Rightarrow> locator_error option" where
  "page_region_error rnd loc =
     (if \<not> isInt (jget loc ''page'') \<or> num_of (jget loc ''page'') < 0
      then Some (BadShape ''pageRegion needs int page >= 0'')
      else case find (\<lambda>k. \<not> unit_field loc k) [''x'', ''y'', ''w'', ''h''] of
             Some k \<Rightarrow> Some (BadShape (''pageRegion needs '' @ k @ '' in [0,1]''))
           | None \<Rightarrow>
               let x = num_of (jget loc ''x''); y = num_of (jget loc ''y'');
                   w = num_of (jget loc ''w''); h = num_of (jget loc ''h'')
               in if w = 0 \<or> h = 0 then Some (BadShape ''pageRegion needs positive w and h'')
                  else if rnd (x + w) > 1 then Some (BadShape ''pageRegion x + w must be <= 1'')
                  else if rnd (y + h) > 1 then Some (BadShape ''pageRegion y + h must be <= 1'')
                  else None)"

definition bad_track_time :: "jval \<Rightarrow> string \<Rightarrow> bool" where
  "bad_track_time loc k =
     (let v = jget loc k in v \<noteq> JUndef \<and> (\<not> isInt v \<or> num_of v < 0))"

definition track_error :: "jval \<Rightarrow> locator_error option" where
  "track_error loc =
     (case jget loc ''trackId'' of
        JStr t \<Rightarrow>
          if t = [] \<or> length t > 256
          then Some (BadShape ''track needs a non-empty trackId (<=256 chars)'')
          else (case find (bad_track_time loc) [''startMs'', ''endMs''] of
                  Some k \<Rightarrow> Some (BadShape (''track '' @ k @ '' must be a non-negative int''))
                | None \<Rightarrow>
                    if isInt (jget loc ''startMs'') \<and> isInt (jget loc ''endMs'') \<and>
                       num_of (jget loc ''endMs'') \<le> num_of (jget loc ''startMs'')
                    then Some (BadShape ''track endMs must be greater than startMs'') else None)
      | _ \<Rightarrow> Some (BadShape ''track needs a non-empty trackId (<=256 chars)''))"

definition SHAPE_VALIDATORS ::
  "(rat \<Rightarrow> rat) \<Rightarrow> (string \<times> (jval \<Rightarrow> locator_error option)) list" where
  "SHAPE_VALIDATORS rnd =
     [(''charRange'', \<lambda>loc. rangeError (jget loc ''start'') (jget loc ''end'')
         ''charRange needs int start >= 0 and end > start''),
      (''pageRegion'', page_region_error rnd),
      (''timeRange'', \<lambda>loc. rangeError (jget loc ''startMs'') (jget loc ''endMs'')
         ''timeRange needs int startMs >= 0 and endMs > startMs''),
      (''frameRange'', \<lambda>loc. rangeError (jget loc ''startFrame'') (jget loc ''endFrame'')
         ''frameRange needs int startFrame >= 0 and endFrame > startFrame''),
      (''track'', track_error)]"

text \<open>\<open>None\<close> is acceptance.  The unknown field found is tested for truthiness, so one with the
  empty name ends the search without an error.\<close>

definition validate_object ::
  "(rat \<Rightarrow> rat) \<Rightarrow> string \<Rightarrow> (string \<times> jval) list \<Rightarrow> locator_error option" where
  "validate_object rnd modality kvs =
     (let loc = JObj kvs; kind = (case jget loc ''kind'' of JStr k \<Rightarrow> k | _ \<Rightarrow> [])
      in case (map_of KIND_MODALITIES kind, map_of (SHAPE_VALIDATORS rnd) kind,
               map_of LOCATOR_FIELDS kind) of
           (Some allowed, Some validate, Some known) \<Rightarrow>
             (case find (\<lambda>f. f \<notin> set known) (map fst kvs) of
                Some (c # f) \<Rightarrow> Some (UnknownField (c # f))
              | _ \<Rightarrow>
                  if modality \<notin> set allowed then Some WrongModality
                  else (case validate loc of
                          Some e \<Rightarrow> Some e
                        | None \<Rightarrow>
                            if kind = ''pageRegion'' \<and> modality = ''image'' \<and>
                               jget loc ''page'' \<noteq> JNum (JFin 0)
                            then Some ImagePage else None))
         | _ \<Rightarrow> Some UnknownKind)"

definition validateLocator ::
  "(rat \<Rightarrow> rat) \<Rightarrow> string \<Rightarrow> jval \<Rightarrow> locator_error option" where
  "validateLocator rnd modality locator =
     (case locator of JObj kvs \<Rightarrow> validate_object rnd modality kvs | _ \<Rightarrow> Some NotAnObject)"

text \<open>The key: \<open>str\<close> is \<open>String(v)\<close>, and the names are sorted by their character codes.\<close>

fun string_le :: "string \<Rightarrow> string \<Rightarrow> bool" where
  "string_le [] s = True"
| "string_le (c # r) [] = False"
| "string_le (c # r) (d # s) =
     ((of_char c :: nat) < of_char d \<or> (c = d \<and> string_le r s))"

fun sorted_insert :: "string \<Rightarrow> string list \<Rightarrow> string list" where
  "sorted_insert x [] = [x]"
| "sorted_insert x (y # ys) = (if string_le x y then x # y # ys else y # sorted_insert x ys)"

definition sorted_keys :: "(string \<times> jval) list \<Rightarrow> string list" where
  "sorted_keys kvs = foldr sorted_insert (map fst kvs) []"

definition locatorDedupKey :: "(jval \<Rightarrow> string) \<Rightarrow> (string \<times> jval) list \<Rightarrow> string" where
  "locatorDedupKey str kvs =
     join ''|'' (map (\<lambda>k. k @ ''='' @ str (jget (JObj kvs) k)) (sorted_keys kvs))"

section \<open>The locators the validator stands for\<close>

datatype fragment_locator =
    CharRange nat nat
  | PageRegion nat rat rat rat rat
  | TimeRange nat nat
  | FrameRange nat nat
  | Track string "nat option" "nat option"

definition jnat :: "nat \<Rightarrow> jval" where
  "jnat n = JNum (JFin (of_nat n))"

definition opt_entry :: "string \<Rightarrow> nat option \<Rightarrow> (string \<times> jval) list" where
  "opt_entry k x = (case x of None \<Rightarrow> [] | Some n \<Rightarrow> [(k, jnat n)])"

fun locator_entries :: "fragment_locator \<Rightarrow> (string \<times> jval) list" where
  "locator_entries (CharRange a b) =
     [(''kind'', JStr ''charRange''), (''start'', jnat a), (''end'', jnat b)]"
| "locator_entries (PageRegion p x y w h) =
     [(''kind'', JStr ''pageRegion''), (''page'', jnat p), (''x'', JNum (JFin x)),
      (''y'', JNum (JFin y)), (''w'', JNum (JFin w)), (''h'', JNum (JFin h))]"
| "locator_entries (TimeRange a b) =
     [(''kind'', JStr ''timeRange''), (''startMs'', jnat a), (''endMs'', jnat b)]"
| "locator_entries (FrameRange a b) =
     [(''kind'', JStr ''frameRange''), (''startFrame'', jnat a), (''endFrame'', jnat b)]"
| "locator_entries (Track t a b) =
     [(''kind'', JStr ''track''), (''trackId'', JStr t)] @ opt_entry ''startMs'' a @ opt_entry ''endMs'' b"

text \<open>The ranges the types do not express, with the modality of the asset.\<close>

fun locator_ok :: "(rat \<Rightarrow> rat) \<Rightarrow> string \<Rightarrow> fragment_locator \<Rightarrow> bool" where
  "locator_ok rnd m (CharRange a b) \<longleftrightarrow> m = ''document'' \<and> a < b"
| "locator_ok rnd m (PageRegion p x y w h) \<longleftrightarrow>
     (m = ''document'' \<or> m = ''image'' \<and> p = 0) \<and>
     0 \<le> x \<and> x \<le> 1 \<and> 0 \<le> y \<and> y \<le> 1 \<and> 0 < w \<and> w \<le> 1 \<and> 0 < h \<and> h \<le> 1 \<and>
     rnd (x + w) \<le> 1 \<and> rnd (y + h) \<le> 1"
| "locator_ok rnd m (TimeRange a b) \<longleftrightarrow> m \<in> {''audio'', ''video'', ''sensor''} \<and> a < b"
| "locator_ok rnd m (FrameRange a b) \<longleftrightarrow> m = ''video'' \<and> a < b"
| "locator_ok rnd m (Track t a b) \<longleftrightarrow>
     m \<in> {''audio'', ''video'', ''sensor''} \<and> t \<noteq> [] \<and> length t \<le> 256 \<and>
     (case (a, b) of (Some i, Some j) \<Rightarrow> i < j | _ \<Rightarrow> True)"

lemma isInt_iff: "isInt v \<and> \<not> num_of v < 0 \<longleftrightarrow> (\<exists>n. v = jnat n)"
proof
  assume v: "isInt v \<and> \<not> num_of v < 0"
  then obtain q where q: "v = JNum (JFin q)" "q = of_int \<lfloor>q\<rfloor>" "0 \<le> q"
    by (cases v rule: isInt.cases) auto
  then have "q = of_nat (nat \<lfloor>q\<rfloor>)" by (simp add: of_nat_nat)
  with q(1) show "\<exists>n. v = jnat n" by (metis jnat_def)
next
  assume "\<exists>n. v = jnat n"
  then show "isInt v \<and> \<not> num_of v < 0" by (auto simp: jnat_def)
qed

lemma isInt_jnat [simp]: "isInt (jnat n)" "num_of (jnat n) = of_nat n" "jnat n \<noteq> JUndef"
  "jnat n = jnat m \<longleftrightarrow> n = m"
  by (simp_all add: jnat_def)

lemma isNum_iff: "isNum v \<longleftrightarrow> (\<exists>q. v = JNum (JFin q))"
  by (cases v rule: isNum.cases) auto

lemma rangeError_None_iff:
  "rangeError lo hi msg = None \<longleftrightarrow> (\<exists>a b. lo = jnat a \<and> hi = jnat b \<and> a < b)"
proof
  assume ok: "rangeError lo hi msg = None"
  then have lo: "isInt lo \<and> \<not> num_of lo < 0" and hi: "isInt hi \<and> \<not> num_of hi < 0"
    by (auto simp: rangeError_def split: if_splits)
  from lo hi obtain a b where "lo = jnat a" "hi = jnat b" unfolding isInt_iff by blast
  with ok show "\<exists>a b. lo = jnat a \<and> hi = jnat b \<and> a < b"
    by (auto simp: rangeError_def split: if_splits)
qed (auto simp: rangeError_def)

lemma unit_field_iff: "unit_field loc k \<longleftrightarrow> (\<exists>q. jget loc k = JNum (JFin q) \<and> 0 \<le> q \<and> q \<le> 1)"
  by (auto simp: unit_field_def Let_def isNum_iff)

lemma page_region_None_iff:
  "page_region_error rnd loc = None \<longleftrightarrow>
     (\<exists>p x y w h. jget loc ''page'' = jnat p \<and> jget loc ''x'' = JNum (JFin x) \<and>
        jget loc ''y'' = JNum (JFin y) \<and> jget loc ''w'' = JNum (JFin w) \<and>
        jget loc ''h'' = JNum (JFin h) \<and> 0 \<le> x \<and> x \<le> 1 \<and> 0 \<le> y \<and> y \<le> 1 \<and>
        0 < w \<and> w \<le> 1 \<and> 0 < h \<and> h \<le> 1 \<and> rnd (x + w) \<le> 1 \<and> rnd (y + h) \<le> 1)"
  (is "?l = ?r")
proof
  assume l: ?l
  then have "isInt (jget loc ''page'') \<and> \<not> num_of (jget loc ''page'') < 0"
    by (auto simp: page_region_error_def split: if_splits)
  then obtain p where p: "jget loc ''page'' = jnat p" unfolding isInt_iff by blast
  with l have "find (\<lambda>k. \<not> unit_field loc k) [''x'', ''y'', ''w'', ''h''] = None"
    by (simp add: page_region_error_def del: find.simps split: option.splits)
  then have "unit_field loc ''x''" "unit_field loc ''y''" "unit_field loc ''w''" "unit_field loc ''h''"
    by (simp_all split: if_splits)
  with l p show ?r
    by (auto simp: page_region_error_def unit_field_iff Let_def split: if_splits)
next
  assume ?r
  then obtain p x y w h where r: "jget loc ''page'' = jnat p" "jget loc ''x'' = JNum (JFin x)"
      "jget loc ''y'' = JNum (JFin y)" "jget loc ''w'' = JNum (JFin w)"
      "jget loc ''h'' = JNum (JFin h)" "0 \<le> x" "x \<le> 1" "0 \<le> y" "y \<le> 1"
      "0 < w" "w \<le> 1" "0 < h" "h \<le> 1" "rnd (x + w) \<le> 1" "rnd (y + h) \<le> 1"
    by blast
  then have "unit_field loc ''x''" "unit_field loc ''y''" "unit_field loc ''w''" "unit_field loc ''h''"
    by (simp_all add: unit_field_iff)
  with r show ?l by (simp add: page_region_error_def Let_def)
qed

definition opt_value :: "nat option \<Rightarrow> jval" where
  "opt_value x = (case x of None \<Rightarrow> JUndef | Some n \<Rightarrow> jnat n)"

lemma track_time_ok: "\<not> bad_track_time loc k \<longleftrightarrow> (\<exists>x. jget loc k = opt_value x)"
proof -
  have "jget loc k = JUndef \<or> (\<exists>n. jget loc k = jnat n) \<longleftrightarrow> (\<exists>x. jget loc k = opt_value x)"
    unfolding opt_value_def by (metis (no_types, lifting) not_Some_eq option.case)
  then show ?thesis
    unfolding bad_track_time_def Let_def using isInt_iff [of "jget loc k"] by blast
qed

lemma isInt_opt_value [simp]: "isInt (opt_value x) \<longleftrightarrow> x \<noteq> None"
  by (auto simp: opt_value_def split: option.splits)

lemma track_None_iff:
  "track_error loc = None \<longleftrightarrow>
     (\<exists>t a b. jget loc ''trackId'' = JStr t \<and> t \<noteq> [] \<and> length t \<le> 256 \<and>
        jget loc ''startMs'' = opt_value a \<and> jget loc ''endMs'' = opt_value b \<and>
        (case (a, b) of (Some i, Some j) \<Rightarrow> i < j | _ \<Rightarrow> True))"
  (is "?l = ?r")
proof
  assume l: ?l
  then obtain t where t: "jget loc ''trackId'' = JStr t" "t \<noteq> []" "length t \<le> 256"
    by (auto simp: track_error_def split: jval.splits if_splits)
  with l have "\<not> bad_track_time loc ''startMs''" "\<not> bad_track_time loc ''endMs''"
    by (auto simp: track_error_def split: option.splits if_splits)
  then obtain a b where ab: "jget loc ''startMs'' = opt_value a" "jget loc ''endMs'' = opt_value b"
    unfolding track_time_ok by blast
  have "case (a, b) of (Some i, Some j) \<Rightarrow> i < j | _ \<Rightarrow> True"
    using l t ab by (cases a; cases b) (auto simp: track_error_def opt_value_def split: if_splits)
  with t ab show ?r by blast
next
  assume ?r
  then obtain t a b where r: "jget loc ''trackId'' = JStr t" "t \<noteq> []" "length t \<le> 256"
      "jget loc ''startMs'' = opt_value a" "jget loc ''endMs'' = opt_value b"
      "case (a, b) of (Some i, Some j) \<Rightarrow> i < j | _ \<Rightarrow> True"
    by blast
  then have "\<not> bad_track_time loc ''startMs''" "\<not> bad_track_time loc ''endMs''"
    unfolding track_time_ok by blast+
  with r show ?l
    by (cases a; cases b; simp add: track_error_def opt_value_def)
qed

text \<open>Reading an object entry by entry.\<close>

lemma jget_entries:
  "jget (JObj ((k, v) # kvs)) k' = (if k = k' then v else jget (JObj kvs) k')"
  "jget (JObj []) k' = (if k' \<in> set object_prototype_names then JOther else JUndef)"
  by auto

declare jget.simps(1) [simp del]

fun locator_kind :: "fragment_locator \<Rightarrow> string" where
  "locator_kind (CharRange _ _) = ''charRange''"
| "locator_kind (PageRegion _ _ _ _ _) = ''pageRegion''"
| "locator_kind (TimeRange _ _) = ''timeRange''"
| "locator_kind (FrameRange _ _) = ''frameRange''"
| "locator_kind (Track _ _ _) = ''track''"

text \<open>The object describes the locator: it has the fields of the locator's kind only, and reads
  like the locator's own object.\<close>

definition describes :: "(string \<times> jval) list \<Rightarrow> fragment_locator \<Rightarrow> bool" where
  "describes kvs l \<longleftrightarrow>
     fst ` set kvs \<subseteq> set (the (map_of LOCATOR_FIELDS (locator_kind l))) \<and>
     (\<forall>k. jget (JObj kvs) k = jget (JObj (locator_entries l)) k)"

lemma track_reads:
  "jget (JObj (locator_entries (Track t a b))) ''kind'' = JStr ''track''"
  "jget (JObj (locator_entries (Track t a b))) ''trackId'' = JStr t"
  "jget (JObj (locator_entries (Track t a b))) ''startMs'' = opt_value a"
  "jget (JObj (locator_entries (Track t a b))) ''endMs'' = opt_value b"
  by (cases a; cases b; simp add: jget_entries opt_entry_def opt_value_def
      object_prototype_names_def)+

lemma track_keys:
  "fst ` set (locator_entries (Track t a b)) \<subseteq> {''kind'', ''trackId'', ''startMs'', ''endMs''}"
  by (auto simp: opt_entry_def split: option.splits)

lemma describes_intro:
  assumes "fst ` set kvs \<subseteq> set fs" "map_of LOCATOR_FIELDS (locator_kind l) = Some fs"
    "fst ` set (locator_entries l) \<subseteq> set fs"
    "\<forall>k \<in> set fs. jget (JObj kvs) k = jget (JObj (locator_entries l)) k"
  shows "describes kvs l"
proof -
  have "jget (JObj kvs) k = jget (JObj (locator_entries l)) k" for k
  proof (cases "k \<in> set fs")
    case False
    then have "map_of kvs k = None" "map_of (locator_entries l) k = None"
      using assms(1,3) by (auto simp: map_of_eq_None_iff)
    then show ?thesis by (simp add: jget.simps(1))
  qed (use assms(4) in blast)
  with assms(1,2) show ?thesis by (simp add: describes_def)
qed

lemma accepted_object:
  assumes "validate_object rnd m kvs = None" "[] \<notin> fst ` set kvs"
  shows "\<exists>kind allowed validate fs. jget (JObj kvs) ''kind'' = JStr kind \<and>
    map_of KIND_MODALITIES kind = Some allowed \<and> map_of (SHAPE_VALIDATORS rnd) kind = Some validate \<and>
    map_of LOCATOR_FIELDS kind = Some fs \<and> fst ` set kvs \<subseteq> set fs \<and> m \<in> set allowed \<and>
    validate (JObj kvs) = None \<and>
    \<not> (kind = ''pageRegion'' \<and> m = ''image'' \<and> jget (JObj kvs) ''page'' \<noteq> JNum (JFin 0))"
proof -
  have "map_of KIND_MODALITIES [] = None" by (simp add: KIND_MODALITIES_def)
  with assms(1) obtain kind allowed validate fs
    where k: "jget (JObj kvs) ''kind'' = JStr kind" "map_of KIND_MODALITIES kind = Some allowed"
      "map_of (SHAPE_VALIDATORS rnd) kind = Some validate" "map_of LOCATOR_FIELDS kind = Some fs"
    by (auto simp: validate_object_def Let_def simp del: jget.simps split: option.splits jval.splits)
  have "find (\<lambda>f. f \<notin> set fs) (map fst kvs) \<noteq> Some []"
    using assms(2) by (auto simp: find_Some_iff)
  with assms(1) k have "find (\<lambda>f. f \<notin> set fs) (map fst kvs) = None"
    by (auto simp: validate_object_def Let_def simp del: jget.simps
        split: option.splits list.splits)
  moreover from this have "fst ` set kvs \<subseteq> set fs"
    by (auto simp: find_None_iff)
  ultimately show ?thesis
    using assms(1) k
    by (auto simp: validate_object_def Let_def simp del: jget.simps split: option.splits if_splits)
qed

lemmas locator_tables = KIND_MODALITIES_def LOCATOR_FIELDS_def SHAPE_VALIDATORS_def

lemma accepted_is_locator:
  assumes "validate_object rnd m kvs = None" "[] \<notin> fst ` set kvs"
  shows "\<exists>l. locator_ok rnd m l \<and> describes kvs l"
proof -
  let ?loc = "JObj kvs"
  obtain kind allowed validate fs where k: "jget ?loc ''kind'' = JStr kind"
      "map_of KIND_MODALITIES kind = Some allowed" "map_of (SHAPE_VALIDATORS rnd) kind = Some validate"
      "map_of LOCATOR_FIELDS kind = Some fs" "fst ` set kvs \<subseteq> set fs" "m \<in> set allowed"
      "validate ?loc = None"
      "\<not> (kind = ''pageRegion'' \<and> m = ''image'' \<and> jget ?loc ''page'' \<noteq> JNum (JFin 0))"
    using accepted_object [OF assms] by blast
  consider "kind = ''charRange''" | "kind = ''pageRegion''" | "kind = ''timeRange''"
    | "kind = ''frameRange''" | "kind = ''track''"
    using k(2) by (auto simp: KIND_MODALITIES_def split: if_splits)
  then show ?thesis
  proof cases
    case 1
    with k(3,7) obtain a b where ab: "jget ?loc ''start'' = jnat a" "jget ?loc ''end'' = jnat b" "a < b"
      by (auto simp: SHAPE_VALIDATORS_def rangeError_None_iff)
    have "describes kvs (CharRange a b)"
      using k 1 ab by (intro describes_intro [OF k(5)]) (auto simp: LOCATOR_FIELDS_def jget_entries)
    with k(2,6) 1 ab show ?thesis
      by (intro exI [of _ "CharRange a b"]) (auto simp: KIND_MODALITIES_def)
  next
    case 2
    with k(3,7) obtain p x y w h where r: "jget ?loc ''page'' = jnat p" "jget ?loc ''x'' = JNum (JFin x)"
        "jget ?loc ''y'' = JNum (JFin y)" "jget ?loc ''w'' = JNum (JFin w)"
        "jget ?loc ''h'' = JNum (JFin h)" "0 \<le> x" "x \<le> 1" "0 \<le> y" "y \<le> 1"
        "0 < w" "w \<le> 1" "0 < h" "h \<le> 1" "rnd (x + w) \<le> 1" "rnd (y + h) \<le> 1"
      by (auto simp: SHAPE_VALIDATORS_def page_region_None_iff)
    have "describes kvs (PageRegion p x y w h)"
      using k 2 r by (intro describes_intro [OF k(5)]) (auto simp: LOCATOR_FIELDS_def jget_entries)
    moreover have "m = ''image'' \<Longrightarrow> p = 0"
      using k(8) 2 r(1) by (simp add: jnat_def)
    ultimately show ?thesis
      using k(2,6) 2 r by (intro exI [of _ "PageRegion p x y w h"]) (auto simp: KIND_MODALITIES_def)
  next
    case 3
    with k(3,7) obtain a b where ab: "jget ?loc ''startMs'' = jnat a" "jget ?loc ''endMs'' = jnat b" "a < b"
      by (auto simp: SHAPE_VALIDATORS_def rangeError_None_iff)
    have "describes kvs (TimeRange a b)"
      using k 3 ab by (intro describes_intro [OF k(5)]) (auto simp: LOCATOR_FIELDS_def jget_entries)
    with k(2,6) 3 ab show ?thesis
      by (intro exI [of _ "TimeRange a b"]) (auto simp: KIND_MODALITIES_def)
  next
    case 4
    with k(3,7) obtain a b where ab: "jget ?loc ''startFrame'' = jnat a" "jget ?loc ''endFrame'' = jnat b" "a < b"
      by (auto simp: SHAPE_VALIDATORS_def rangeError_None_iff)
    have "describes kvs (FrameRange a b)"
      using k 4 ab by (intro describes_intro [OF k(5)]) (auto simp: LOCATOR_FIELDS_def jget_entries)
    with k(2,6) 4 ab show ?thesis
      by (intro exI [of _ "FrameRange a b"]) (auto simp: KIND_MODALITIES_def)
  next
    case 5
    with k(3,7) obtain t a b where r: "jget ?loc ''trackId'' = JStr t" "t \<noteq> []" "length t \<le> 256"
        "jget ?loc ''startMs'' = opt_value a" "jget ?loc ''endMs'' = opt_value b"
        "case (a, b) of (Some i, Some j) \<Rightarrow> i < j | _ \<Rightarrow> True"
      by (auto simp: SHAPE_VALIDATORS_def track_None_iff)
    have "describes kvs (Track t a b)"
      using k 5 r track_keys [of t a b]
      by (intro describes_intro [OF k(5)])
        (auto simp: LOCATOR_FIELDS_def track_reads simp del: locator_entries.simps)
    with k(2,6) 5 r show ?thesis
      by (intro exI [of _ "Track t a b"]) (auto simp: KIND_MODALITIES_def)
  qed
qed

lemma locator_is_accepted:
  assumes "locator_ok rnd m l" "describes kvs l"
  shows "validate_object rnd m kvs = None"
proof -
  have reads: "jget (JObj kvs) k = jget (JObj (locator_entries l)) k" for k
    using assms(2) by (simp add: describes_def)
  have kind: "jget (JObj kvs) ''kind'' = JStr (locator_kind l)"
    unfolding reads by (cases l) (simp_all add: jget_entries)
  have "find (\<lambda>f. f \<notin> set (the (map_of LOCATOR_FIELDS (locator_kind l)))) (map fst kvs) = None"
    using assms(2) by (auto simp: describes_def find_None_iff)
  moreover have "\<exists>allowed. map_of KIND_MODALITIES (locator_kind l) = Some allowed \<and> m \<in> set allowed"
    using assms(1) by (cases l) (auto simp: KIND_MODALITIES_def)
  moreover have "\<exists>validate. map_of (SHAPE_VALIDATORS rnd) (locator_kind l) = Some validate \<and>
      validate (JObj kvs) = None"
  proof (cases l)
    case (PageRegion p x y w h)
    with assms(1) have "page_region_error rnd (JObj kvs) = None"
      unfolding page_region_None_iff reads by (simp add: jget_entries)
    with PageRegion show ?thesis by (simp add: SHAPE_VALIDATORS_def)
  next
    case (Track t a b)
    with assms(1) have "track_error (JObj kvs) = None"
      unfolding track_None_iff reads Track track_reads by auto
    with Track show ?thesis by (simp add: SHAPE_VALIDATORS_def)
  qed (use assms(1) in \<open>simp_all add: SHAPE_VALIDATORS_def rangeError_None_iff reads jget_entries\<close>)
  moreover have "map_of LOCATOR_FIELDS (locator_kind l) \<noteq> None"
    by (cases l) (simp_all add: LOCATOR_FIELDS_def)
  moreover have "locator_kind l = ''pageRegion'' \<Longrightarrow> m = ''image'' \<Longrightarrow>
      jget (JObj kvs) ''page'' = JNum (JFin 0)"
    using assms(1) by (cases l) (simp_all add: reads jget_entries jnat_def)
  ultimately show ?thesis
    using kind by (auto simp: validate_object_def Let_def)
qed

declare jget.simps(1) [simp]

section \<open>Properties\<close>

text \<open>C39: The validator is the schema of the column: an object whose fields have names is accepted
  exactly when it describes a locator of one of the five kinds, with that kind's fields only,
  its ranges respected and the asset's modality among the kind's.\<close>

theorem locator_schema:
  assumes "[] \<notin> fst ` set kvs"
  shows "validateLocator rnd m (JObj kvs) = None \<longleftrightarrow>
    (\<exists>l. locator_ok rnd m l \<and> describes kvs l)"
  using accepted_is_locator [OF _ assms] locator_is_accepted
  by (auto simp: validateLocator_def)

theorem locator_schema_witness:
  "validateLocator id ''image'' (JObj (locator_entries (PageRegion 0 0 0 1 (1/2)))) = None \<longleftrightarrow>
    (\<exists>l. locator_ok id ''image'' l \<and> describes (locator_entries (PageRegion 0 0 0 1 (1/2))) l)"
  by (rule locator_schema) simp

text \<open>A field with the empty name hides every unknown field listed after it: the object below
  is accepted and stored with a field no kind declares.\<close>

lemma empty_field_name_bypass:
  "validateLocator rnd ''document'' (JObj [(''kind'', JStr ''charRange''), ([], JNull),
     (''evil'', JStr ''x''), (''start'', jnat 0), (''end'', jnat 5)]) = None"
  by (simp add: validateLocator_def validate_object_def locator_tables rangeError_def)

end
