(* ===== verification/Codec.thy ===== *)
theory Codec imports JsValue TextOps begin

text \<open>
  The byte codecs of the runtime the signed tokens and the stored credentials use: base64url
  without padding, and hexadecimal.  A string is the list of the bytes of its UTF-8 text.
  Decoding ignores characters outside the alphabet, and accepts both alphabets, as the
  runtime's does.
\<close>

definition b64_alphabet :: string where
  "b64_alphabet = ''ABCDEFGHIJKLMNOPQRSTUVWXYZabcdefghijklmnopqrstuvwxyz0123456789-_''"

definition b64_char :: "nat \<Rightarrow> char" where
  "b64_char i = b64_alphabet ! i"

definition b64_val :: "char \<Rightarrow> nat option" where
  "b64_val c = (if c = CHR ''+'' then Some 62 else if c = CHR ''/'' then Some 63
     else map_of (zip b64_alphabet [0..<64]) c)"

abbreviation byte :: "char \<Rightarrow> nat" where
  "byte c \<equiv> of_char c"

fun b64url :: "string \<Rightarrow> string" where
  "b64url [] = []"
| "b64url [a] = [b64_char (byte a div 4), b64_char (byte a mod 4 * 16)]"
| "b64url [a, b] =
     [b64_char (byte a div 4), b64_char (byte a mod 4 * 16 + byte b div 16),
      b64_char (byte b mod 16 * 4)]"
| "b64url (a # b # c # r) =
     [b64_char (byte a div 4), b64_char (byte a mod 4 * 16 + byte b div 16),
      b64_char (byte b mod 16 * 4 + byte c div 64), b64_char (byte c mod 64)] @ b64url r"

fun b64_groups :: "nat list \<Rightarrow> string" where
  "b64_groups [] = []"
| "b64_groups [x] = []"
| "b64_groups [x, y] = [char_of (x * 4 + y div 16)]"
| "b64_groups [x, y, z] = [char_of (x * 4 + y div 16), char_of (y mod 16 * 16 + z div 4)]"
| "b64_groups (x # y # z # w # r) =
     [char_of (x * 4 + y div 16), char_of (y mod 16 * 16 + z div 4),
      char_of (z mod 4 * 64 + w)] @ b64_groups r"

definition unb64 :: "string \<Rightarrow> string" where
  "unb64 s = b64_groups (List.map_filter b64_val s)"

lemma length_b64_alphabet: "length b64_alphabet = 64"
  by (simp add: b64_alphabet_def)

lemma distinct_b64_alphabet: "distinct b64_alphabet"
  by (simp add: b64_alphabet_def)

lemma b64_val_char: "i < 64 \<Longrightarrow> b64_val (b64_char i) = Some i"
proof -
  assume i: "i < 64"
  have "map_of (zip b64_alphabet [0..<64]) (b64_alphabet ! i) = Some ([0..<64] ! i)"
    using i by (intro map_of_zip_nth) (simp_all add: length_b64_alphabet distinct_b64_alphabet)
  moreover have "b64_alphabet ! i \<in> set b64_alphabet"
    using i by (simp add: length_b64_alphabet)
  moreover have "CHR ''+'' \<notin> set b64_alphabet" "CHR ''/'' \<notin> set b64_alphabet"
    by (simp_all add: b64_alphabet_def)
  ultimately show ?thesis using i by (auto simp: b64_val_def b64_char_def)
qed

lemma byte_less: "byte c < 256"
  by (rule nat_of_char_less_256)

lemma b64_parts:
  "byte a div 4 < 64" "byte a mod 4 * 16 < 64" "byte a mod 4 * 16 + byte b div 16 < 64"
  "byte b mod 16 * 4 < 64" "byte b mod 16 * 4 + byte c div 64 < 64" "byte c mod 64 < 64"
proof -
  have "x div 4 < 64" "x mod 4 * 16 + y div 16 < 64" "x mod 16 * 4 + y div 64 < 64"
    if "x < 256" "y < 256" for x y :: nat
    using that by auto
  with byte_less show "byte a div 4 < 64" "byte a mod 4 * 16 + byte b div 16 < 64"
    "byte b mod 16 * 4 + byte c div 64 < 64" by blast+
qed auto

lemma unb64_b64url [simp]: "unb64 (b64url s) = s"
proof -
  have d: "x div 16 < 16" "x div 64 < 4" if "x < 256" for x :: nat using that by auto
  have small: "byte b div 16 div 16 = 0" "byte b div 16 mod 16 = byte b div 16"
    "byte b div 64 div 4 = 0" "byte b div 64 mod 4 = byte b div 64" for b
    using d [OF byte_less [of b]] by simp_all
  show ?thesis
    by (induction s rule: b64url.induct)
      (simp_all add: unb64_def List.map_filter_simps b64_val_char b64_parts small)
qed

lemma b64url_alphabet: "set (b64url s) \<subseteq> set b64_alphabet"
  by (induction s rule: b64url.induct)
    (simp_all add: b64_char_def length_b64_alphabet b64_parts)

lemma b64url_no_separator: "CHR ''.'' \<notin> set (b64url s)" "CHR '':'' \<notin> set (b64url s)"
proof -
  have "CHR ''.'' \<notin> set b64_alphabet" "CHR '':'' \<notin> set b64_alphabet"
    by (simp_all add: b64_alphabet_def)
  then show "CHR ''.'' \<notin> set (b64url s)" "CHR '':'' \<notin> set (b64url s)"
    using b64url_alphabet [of s] by auto
qed

lemma b64url_eq_Nil_iff [simp]: "b64url s = [] \<longleftrightarrow> s = []"
  by (cases s rule: b64url.cases) auto

lemma length_b64url_le: "length (b64url s) \<le> 2 * length s"
  by (induction s rule: b64url.induct) auto

lemma b64url_inject: "b64url s = b64url t \<longleftrightarrow> s = t"
  by (metis unb64_b64url)

section \<open>Hexadecimal\<close>

definition hex :: "string \<Rightarrow> string" where
  "hex s = concat (map (\<lambda>c. [hex_digit (byte c div 16), hex_digit (byte c mod 16)]) s)"

definition hex_val :: "char \<Rightarrow> nat option" where
  "hex_val c =
     (if 48 \<le> byte c \<and> byte c \<le> 57 then Some (byte c - 48)
      else if 97 \<le> byte c \<and> byte c \<le> 102 then Some (byte c - 87)
      else if 65 \<le> byte c \<and> byte c \<le> 70 then Some (byte c - 55)
      else None)"

text \<open>\<open>Buffer.from(s, 'hex')\<close>: decoding stops at the first pair that is not hexadecimal.\<close>

fun unhex :: "string \<Rightarrow> string" where
  "unhex (a # b # r) =
     (case (hex_val a, hex_val b) of
        (Some i, Some j) \<Rightarrow> char_of (16 * i + j) # unhex r
      | _ \<Rightarrow> [])"
| "unhex _ = []"

lemma byte_div_16: "byte c div 16 < 16"
proof -
  have "x div 16 < 16" if "x < 256" for x :: nat using that by auto
  with byte_less show ?thesis by blast
qed

lemma hex_digit_byte: "d < 16 \<Longrightarrow> byte (hex_digit d) = (if d < 10 then 48 + d else 87 + d)"
  by (simp add: hex_digit_def)

lemma hex_val_digit: "d < 16 \<Longrightarrow> hex_val (hex_digit d) = Some d"
  by (simp add: hex_val_def hex_digit_byte)

lemma unhex_hex: "unhex (hex s) = s"
proof (induction s)
  case Nil
  then show ?case by (simp add: hex_def)
next
  case (Cons c s)
  have "hex_val (hex_digit (byte c div 16)) = Some (byte c div 16)"
    "hex_val (hex_digit (byte c mod 16)) = Some (byte c mod 16)"
    by (simp_all add: hex_val_digit byte_div_16)
  with Cons.IH show ?case by (simp add: hex_def)
qed

lemma hex_no_separator: "CHR ''.'' \<notin> set (hex s)" "CHR '':'' \<notin> set (hex s)"
proof -
  have digit: "x \<in> set (hex s) \<Longrightarrow> hex_val x \<noteq> None" for x
    by (auto simp: hex_def hex_val_digit byte_div_16)
  have "hex_val (CHR ''.'') = None" "hex_val (CHR '':'') = None"
    by (simp_all add: hex_val_def)
  with digit show "CHR ''.'' \<notin> set (hex s)" "CHR '':'' \<notin> set (hex s)" by metis+
qed

lemma hex_inject: "hex s = hex t \<longleftrightarrow> s = t"
  by (metis unhex_hex)

lemma hex_eq_Nil_iff [simp]: "hex s = [] \<longleftrightarrow> s = []"
  by (cases s) (simp_all add: hex_def)

lemma length_hex: "length (hex s) = 2 * length s"
  by (induction s) (auto simp: hex_def)

end
