(* ===== verification/SignedTokens.thy ===== *)
theory SignedTokens imports Codec EnvFlag begin

text \<open>
  Credentials at rest (\<open>src/common/secret-cipher.ts\<close>), the signed address of a raw evidence
  asset (\<open>src/evidence/raw-url-token.ts\<close>) and the token of work handed to an agent
  (\<open>src/common/harness-work-token.ts\<close>).  Hashing, authenticated encryption and the parsing
  of JSON belong to the runtime and are the fields of \<open>crypto\<close>; a key or digest is the list
  of its bytes.
\<close>

record crypto =
  sha256 :: "string \<Rightarrow> string"
  hmac_sha256 :: "string \<Rightarrow> string \<Rightarrow> string"
  gcm_seal :: "string \<Rightarrow> string \<Rightarrow> string \<Rightarrow> string \<times> string"  \<comment> \<open>key, iv, plaintext: ciphertext and tag\<close>
  gcm_open :: "string \<Rightarrow> string \<Rightarrow> string \<Rightarrow> string \<Rightarrow> string option"  \<comment> \<open>key, iv, tag, ciphertext\<close>
  json_parse :: "string \<Rightarrow> jval option"  \<comment> \<open>None: a SyntaxError\<close>
  js_lib_of :: js_lib

type_synonym env = "string \<Rightarrow> string option"

section \<open>Credentials at rest\<close>

definition SECRET_PREFIX :: string where
  "SECRET_PREFIX = ''enc:v1:''"

definition KEY_BYTES :: nat where
  "KEY_BYTES = 32"

datatype cipher_error = BadKeyLength string | MalformedSecret | NoMatchingKey string | AuthenticationFailed

definition is_hex_key :: "string \<Rightarrow> bool" where
  "is_hex_key raw \<longleftrightarrow> length raw = 64 \<and> list_all (\<lambda>c. hex_val c \<noteq> None) raw"

definition decodeKey :: "string \<Rightarrow> string \<Rightarrow> cipher_error + string" where
  "decodeKey raw name =
     (let buf = (if is_hex_key raw then unhex raw else unb64 raw)
      in if length buf \<noteq> KEY_BYTES then Inl (BadKeyLength name) else Inr buf)"

fun credential_keys_loop :: "env \<Rightarrow> string list \<Rightarrow> cipher_error + string list" where
  "credential_keys_loop env [] = Inr []"
| "credential_keys_loop env (name # names) =
     (let raw = map_option trim (env name)
      in if \<not> truthy_str raw then credential_keys_loop env names
         else (case decodeKey (the raw) name of
                 Inl e \<Rightarrow> Inl e
               | Inr key \<Rightarrow> map_sum id ((#) key) (credential_keys_loop env names)))"

definition credentialKeys :: "env \<Rightarrow> cipher_error + string list" where
  "credentialKeys env = credential_keys_loop env
     [''SOURCE_CREDENTIAL_ENCRYPTION_KEY'', ''SOURCE_CREDENTIAL_ENCRYPTION_KEY_PREVIOUS'']"

definition credentialCipherReady :: "env \<Rightarrow> bool" where
  "credentialCipherReady env =
     truthy_str (map_option trim (env ''SOURCE_CREDENTIAL_ENCRYPTION_KEY''))"

definition kidOf :: "crypto \<Rightarrow> string \<Rightarrow> string" where
  "kidOf cr key = take 8 (hex (sha256 cr key))"

text \<open>\<open>iv\<close> is the fresh random vector.\<close>

definition encryptSecret :: "crypto \<Rightarrow> string \<Rightarrow> env \<Rightarrow> string \<Rightarrow> cipher_error + string" where
  "encryptSecret cr iv env plain =
     (case credentialKeys env of
        Inl e \<Rightarrow> Inl e
      | Inr [] \<Rightarrow> Inr plain
      | Inr (key # _) \<Rightarrow>
          let (ct, tag) = gcm_seal cr key iv plain
          in Inr (SECRET_PREFIX @ join '':'' [kidOf cr key, b64url iv, b64url tag, b64url ct]))"

fun split_all :: "char \<Rightarrow> string \<Rightarrow> string list" where
  "split_all c [] = [[]]"
| "split_all c (d # s) =
     (if d = c then [] # split_all c s
      else (case split_all c s of [] \<Rightarrow> [[d]] | p # ps \<Rightarrow> (d # p) # ps))"

definition decryptSecret :: "crypto \<Rightarrow> env \<Rightarrow> string \<Rightarrow> cipher_error + string" where
  "decryptSecret cr env stored =
     (if \<not> starts_with SECRET_PREFIX stored then Inr stored
      else case split_all (CHR '':'') (drop (length SECRET_PREFIX) stored) of
             [kid, ivB, tagB, ctB] \<Rightarrow>
               (case credentialKeys env of
                  Inl e \<Rightarrow> Inl e
                | Inr keys \<Rightarrow>
                    (case find (\<lambda>k. kidOf cr k = kid) keys of
                       None \<Rightarrow> Inl (NoMatchingKey kid)
                     | Some key \<Rightarrow>
                         (case gcm_open cr key (unb64 ivB) (unb64 tagB) (unb64 ctB) of
                            None \<Rightarrow> Inl AuthenticationFailed
                          | Some plain \<Rightarrow> Inr plain)))
           | _ \<Rightarrow> Inl MalformedSecret)"

definition isEncrypted :: "string \<Rightarrow> bool" where
  "isEncrypted stored = starts_with SECRET_PREFIX stored"

section \<open>The raw evidence address\<close>

datatype token_verdict = TokInvalid | TokExpired jval | TokValid jval

definition mintEvidenceToken :: "crypto \<Rightarrow> jval \<Rightarrow> string \<Rightarrow> string" where
  "mintEvidenceToken cr payload secret =
     (let body = b64url (case json_stringify (js_lib_of cr) payload of Some t \<Rightarrow> t | None \<Rightarrow> [])
      in body @ ''.'' @ hex (hmac_sha256 cr secret body))"

definition is_str :: "jval \<Rightarrow> bool" where
  "is_str v \<longleftrightarrow> (case v of JStr _ \<Rightarrow> True | _ \<Rightarrow> False)"

definition evidence_payload_ok :: "jval \<Rightarrow> bool" where
  "evidence_payload_ok p \<longleftrightarrow>
     is_object p \<and> jget p ''v'' = JNum (JFin 1) \<and> is_str (jget p ''t'') \<and> is_str (jget p ''a'') \<and>
     is_str (jget p ''k'') \<and> (jget p ''f'' = JUndef \<or> is_str (jget p ''f'')) \<and>
     (case jget p ''exp'' of JNum (JFin _) \<Rightarrow> True | _ \<Rightarrow> False)"

definition exp_of :: "jval \<Rightarrow> rat" where
  "exp_of p = (case jget p ''exp'' of JNum (JFin q) \<Rightarrow> q | _ \<Rightarrow> 0)"

definition verifyEvidenceToken :: "crypto \<Rightarrow> string \<Rightarrow> string \<Rightarrow> rat \<Rightarrow> token_verdict" where
  "verifyEvidenceToken cr token secret nowMs =
     (case split_first (CHR ''.'') token of
        None \<Rightarrow> TokInvalid
      | Some (body, sig) \<Rightarrow>
          if body = [] \<or> sig = [] \<or> CHR ''.'' \<in> set sig then TokInvalid
          else if sig \<noteq> hex (hmac_sha256 cr secret body) then TokInvalid
          else (case json_parse cr (unb64 body) of
                  None \<Rightarrow> TokInvalid
                | Some p \<Rightarrow>
                    if \<not> evidence_payload_ok p then TokInvalid
                    else if exp_of p * 1000 \<le> nowMs then TokExpired p
                    else TokValid p))"

section \<open>Work tokens\<close>

definition HARNESS_WORK_KINDS :: "string list" where
  "HARNESS_WORK_KINDS =
     [''predicate_semantics'', ''extraction'', ''fact_resolution'', ''entity_match'',
      ''fact_conflict'', ''fact_corroboration'', ''scene_summary'', ''safety_reading'',
      ''affect_reading'', ''belief_statement'']"

definition WORK_TOKEN_MAX_CHARS :: nat where
  "WORK_TOKEN_MAX_CHARS = 32768"

text \<open>The signing key, and the process key after the call: one is generated from \<open>fresh\<close> the
  first time no other key is configured.\<close>

definition tokenKey :: "crypto \<Rightarrow> env \<Rightarrow> string \<Rightarrow> string option \<Rightarrow> string \<times> string option" where
  "tokenKey cr env fresh pk =
     (let base0 = (case credentialKeys env of Inr (k # _) \<Rightarrow> Some k | _ \<Rightarrow> None);
          forget = map_option trim (env ''FORGET_HMAC_KEY'');
          base1 = (if base0 = None \<and> truthy_str forget then forget else base0);
          pk' = (if base1 = None \<and> pk = None then Some fresh else pk);
          base = (case base1 of Some b \<Rightarrow> b | None \<Rightarrow> the pk')
      in (sha256 cr (''harness-extraction-work'' @ base), pk'))"

definition sign :: "crypto \<Rightarrow> string \<Rightarrow> string \<Rightarrow> string" where
  "sign cr key body = b64url (hmac_sha256 cr key body)"

definition mintWorkToken ::
  "crypto \<Rightarrow> env \<Rightarrow> string \<Rightarrow> string option \<Rightarrow> jval \<Rightarrow> string \<times> string option" where
  "mintWorkToken cr env fresh pk payload =
     (let body = b64url (case json_stringify (js_lib_of cr) payload of Some t \<Rightarrow> t | None \<Rightarrow> []);
          (key, pk') = tokenKey cr env fresh pk
      in (body @ ''.'' @ sign cr key body, pk'))"

fun arr_of :: "jval \<Rightarrow> jval list option" where
  "arr_of (JArr xs) = Some xs"
| "arr_of _ = None"

definition tuples :: "jval \<Rightarrow> nat \<Rightarrow> bool" where
  "tuples xs n \<longleftrightarrow>
     (case arr_of xs of
        None \<Rightarrow> False
      | Some ys \<Rightarrow> ys \<noteq> [] \<and>
          list_all (\<lambda>y. case arr_of y of None \<Rightarrow> False | Some zs \<Rightarrow> length zs = n) ys)"

definition wellFormed :: "jval \<Rightarrow> bool" where
  "wellFormed p =
     (case jget p ''t'' of
        JStr t \<Rightarrow>
          if t = ''affect_reading'' \<or> t = ''safety_reading'' then
            tuples (jget p ''e'') 3 \<and>
            list_all (\<lambda>x. is_str (jget x ''0'') \<and> is_str (jget x ''1'')) (the (arr_of (jget p ''e'')))
          else if t = ''extraction'' then
            (case (arr_of (jget p ''d''), arr_of (jget p ''r'')) of
               (Some d, Some r) \<Rightarrow> d \<noteq> [] \<and> length d = length r \<and>
                 arr_of (jget (jget p ''x'') ''e'') \<noteq> None \<and> arr_of (jget (jget p ''x'') ''m'') \<noteq> None
             | _ \<Rightarrow> False)
          else if t = ''entity_match'' \<or> t = ''fact_conflict'' \<or> t = ''fact_corroboration'' then
            tuples (jget p ''p'') 3
          else if t = ''fact_resolution'' then
            tuples (jget p ''f'') 3 \<and>
            list_all (\<lambda>x. arr_of (jget x ''1'') \<noteq> None) (the (arr_of (jget p ''f'')))
          else if t = ''scene_summary'' then
            (case arr_of (jget p ''s'') of Some s \<Rightarrow> s \<noteq> [] \<and> is_str (jget p ''ev'') | None \<Rightarrow> False)
          else if t = ''predicate_semantics'' then
            (case arr_of (jget p ''q'') of Some q \<Rightarrow> q \<noteq> [] \<and> list_all is_str q | None \<Rightarrow> False)
          else if t = ''belief_statement'' then tuples (jget p ''b'') 2
          else False
      | _ \<Rightarrow> False)"

definition work_payload_ok :: "jval \<Rightarrow> bool" where
  "work_payload_ok p \<longleftrightarrow>
     jget p ''v'' = JNum (JFin 2) \<and>
     (case jget p ''t'' of JStr t \<Rightarrow> t \<in> set HARNESS_WORK_KINDS | _ \<Rightarrow> False) \<and>
     is_str (jget p ''c'') \<and> is_str (jget p ''n'') \<and>
     (case jget p ''exp'' of JNum _ \<Rightarrow> True | _ \<Rightarrow> False) \<and> wellFormed p"

text \<open>\<open>now > exp\<close> on a number that a JSON text may make infinite.\<close>

fun exp_passed :: "rat \<Rightarrow> jval \<Rightarrow> bool" where
  "exp_passed t (JNum (JFin q)) \<longleftrightarrow> t > q"
| "exp_passed t (JNum JNegInf) \<longleftrightarrow> True"
| "exp_passed t _ \<longleftrightarrow> False"

definition verifyWorkToken ::
  "crypto \<Rightarrow> env \<Rightarrow> string \<Rightarrow> string option \<Rightarrow> jval \<Rightarrow> rat \<Rightarrow> token_verdict \<times> string option" where
  "verifyWorkToken cr env fresh pk token now =
     (case token of
        JStr tok \<Rightarrow>
          if tok = [] \<or> length tok > WORK_TOKEN_MAX_CHARS then (TokInvalid, pk)
          else (case split_first (CHR ''.'') tok of
                  None \<Rightarrow> (TokInvalid, pk)
                | Some (body, given) \<Rightarrow>
                    if body = [] \<or> CHR ''.'' \<in> set given then (TokInvalid, pk)
                    else let (key, pk') = tokenKey cr env fresh pk
                         in (if unb64 given \<noteq> unb64 (sign cr key body) then TokInvalid
                             else case json_parse cr (unb64 body) of
                                    None \<Rightarrow> TokInvalid
                                  | Some p \<Rightarrow>
                                      if \<not> work_payload_ok p then TokInvalid
                                      else if exp_passed (now / 1000) (jget p ''exp'') then TokExpired p
                                      else TokValid p, pk'))
      | _ \<Rightarrow> (TokInvalid, pk))"

section \<open>A concrete instance\<close>

text \<open>A stand-in for the runtime, for the examples: the tag of a sealed text is its key, and the
  parser knows one payload.\<close>

definition ex_js :: js_lib where
  "ex_js = \<lparr>num_str = (\<lambda>q. if q = 1 then ''1'' else if q = 2 then ''2'' else ''9''),
     str_num = (\<lambda>_. JNaN), date_ms = (\<lambda>_. None)\<rparr>"

definition ex_crypto :: "jval \<Rightarrow> crypto" where
  "ex_crypto p = \<lparr>sha256 = take 4, hmac_sha256 = (\<lambda>k b. ''m'' @ k),
     gcm_seal = (\<lambda>k iv pt. (pt, k)), gcm_open = (\<lambda>k iv tag ct. if tag = k then Some ct else None),
     json_parse = (\<lambda>_. Some p), js_lib_of = ex_js\<rparr>"

definition ex_evidence :: jval where
  "ex_evidence = JObj [(''v'', JNum (JFin 1)), (''t'', JStr ''co''), (''a'', JStr ''evidence_asset:1''),
     (''k'', JStr ''h''), (''exp'', JNum (JFin 9))]"

definition ex_work :: jval where
  "ex_work = JObj [(''v'', JNum (JFin 2)), (''t'', JStr ''predicate_semantics''), (''c'', JStr ''co''),
     (''n'', JStr ''x''), (''exp'', JNum (JFin 9)), (''q'', JArr [JStr ''p1''])]"

lemma ex_payloads_ok: "evidence_payload_ok ex_evidence" "work_payload_ok ex_work"
  by (simp_all add: evidence_payload_ok_def work_payload_ok_def wellFormed_def ex_evidence_def
      ex_work_def is_str_def object_prototype_names_def HARNESS_WORK_KINDS_def)

definition ex_env :: "char \<Rightarrow> char option \<Rightarrow> env" where
  "ex_env cur prev = (\<lambda>n. if n = ''SOURCE_CREDENTIAL_ENCRYPTION_KEY'' then Some (replicate 64 cur)
     else if n = ''SOURCE_CREDENTIAL_ENCRYPTION_KEY_PREVIOUS'' then map_option (replicate 64) prev
     else None)"

lemma decode_repeated_digit:
  assumes "hex_val c = Some i" "\<not> is_space c"
  shows "decodeKey (trim (replicate 64 c)) name = Inr (replicate 32 (char_of (16 * i + i)))"
    "trim (replicate 64 c) \<noteq> []"
proof -
  have unhex: "unhex (replicate (2 * n) c) = replicate n (char_of (16 * i + i))" for n
    using assms(1) by (induction n) auto
  have "dropWhile is_space (replicate n c) = replicate n c" for n
    using assms(2) by (cases n) simp_all
  then have trim: "trim (replicate n c) = replicate n c" for n
    by (simp add: trim_def)
  show "decodeKey (trim (replicate 64 c)) name = Inr (replicate 32 (char_of (16 * i + i)))"
    "trim (replicate 64 c) \<noteq> []"
    using unhex [of 32] assms(1)
    by (simp_all add: decodeKey_def is_hex_key_def trim KEY_BYTES_def list_all_iff)
qed

lemma ex_keys:
  "credentialKeys (ex_env (CHR ''a'') None) = Inr [replicate 32 (char_of (170 :: nat))]"
  "credentialKeys (ex_env (CHR ''b'') (Some (CHR ''a''))) =
     Inr [replicate 32 (char_of (187 :: nat)), replicate 32 (char_of (170 :: nat))]"
proof -
  have "hex_val (CHR ''a'') = Some 10" "hex_val (CHR ''b'') = Some 11"
    "\<not> is_space (CHR ''a'')" "\<not> is_space (CHR ''b'')"
    by (simp_all add: hex_val_def is_space_def)
  from decode_repeated_digit [OF this(1,3)] decode_repeated_digit [OF this(2,4)]
  show "credentialKeys (ex_env (CHR ''a'') None) = Inr [replicate 32 (char_of (170 :: nat))]"
    "credentialKeys (ex_env (CHR ''b'') (Some (CHR ''a''))) =
       Inr [replicate 32 (char_of (187 :: nat)), replicate 32 (char_of (170 :: nat))]"
    by (simp_all add: credentialKeys_def ex_env_def Let_def)
qed

section \<open>Properties of stored credentials\<close>

lemma split_all_no_sep: "c \<notin> set a \<Longrightarrow> split_all c a = [a]"
  by (induction a) auto

lemma split_all_append: "c \<notin> set a \<Longrightarrow> split_all c (a @ c # s) = a # split_all c s"
  by (induction a) auto

lemma encrypted_parts:
  "split_all (CHR '':'') (join '':'' [kidOf cr key, b64url iv, b64url tag, b64url ct]) =
     [kidOf cr key, b64url iv, b64url tag, b64url ct]"
proof -
  have "CHR '':'' \<notin> set (kidOf cr key)"
    using hex_no_separator(2) by (auto simp: kidOf_def dest: in_set_takeD)
  then show ?thesis
    by (simp add: split_all_append split_all_no_sep b64url_no_separator)
qed

text \<open>A credential written under one key is read back after the key was rotated: decryption
  under any key set that still holds the writing key, with no earlier key of the same
  identifier, returns the plaintext.\<close>

theorem secret_survives_rotation:
  assumes "encryptSecret cr iv env plain = Inr stored" "credentialKeys env = Inr (key # old)"
    and "gcm_open cr key iv (snd (gcm_seal cr key iv plain)) (fst (gcm_seal cr key iv plain)) = Some plain"
    and "credentialKeys env' = Inr keys'" "find (\<lambda>k. kidOf cr k = kidOf cr key) keys' = Some key"
  shows "decryptSecret cr env' stored = Inr plain \<and> isEncrypted stored"
proof -
  have "stored = SECRET_PREFIX @ join '':'' [kidOf cr key, b64url iv,
      b64url (snd (gcm_seal cr key iv plain)), b64url (fst (gcm_seal cr key iv plain))]"
    using assms(1,2) by (simp add: encryptSecret_def split: prod.splits)
  then show ?thesis
    using assms(3-5) by (simp add: decryptSecret_def isEncrypted_def encrypted_parts del: join.simps)
qed

theorem secret_survives_rotation_witness:
  "\<exists>stored. encryptSecret (ex_crypto JNull) ''iv'' (ex_env (CHR ''a'') None) ''token'' = Inr stored \<and>
     decryptSecret (ex_crypto JNull) (ex_env (CHR ''b'') (Some (CHR ''a''))) stored = Inr ''token''"
proof -
  let ?k = "replicate 32 (char_of (170 :: nat))" and ?cr = "ex_crypto JNull"
  have kid: "kidOf ?cr (replicate 32 (char_of (187 :: nat))) \<noteq> kidOf ?cr ?k"
  proof -
    have "kidOf ?cr k = hex (take 4 k)" for k
      by (simp add: kidOf_def ex_crypto_def length_hex)
    then show ?thesis by (simp add: hex_inject)
  qed
  obtain stored where st: "encryptSecret ?cr ''iv'' (ex_env (CHR ''a'') None) ''token'' = Inr stored"
    by (cases "encryptSecret ?cr ''iv'' (ex_env (CHR ''a'') None) ''token''")
      (simp_all add: encryptSecret_def ex_keys split: prod.splits)
  have "decryptSecret ?cr (ex_env (CHR ''b'') (Some (CHR ''a''))) stored = Inr ''token'' \<and> isEncrypted stored"
    by (rule secret_survives_rotation [OF st ex_keys(1) _ ex_keys(2)])
      (use kid in \<open>simp_all add: ex_crypto_def\<close>)
  with st show ?thesis by blast
qed

text \<open>A value written before a key existed is returned as it is, whatever keys are set.\<close>

lemma legacy_secret_clear: "\<not> isEncrypted stored \<Longrightarrow> decryptSecret cr env stored = Inr stored"
  by (simp add: decryptSecret_def isEncrypted_def)

lemma credential_keys_length:
  assumes "credentialKeys env = Inr keys" "k \<in> set keys"
  shows "length k = 32"
proof -
  have "\<forall>k \<in> set keys. length k = KEY_BYTES" if "credential_keys_loop env names = Inr keys" for names keys
    using that
  proof (induction names arbitrary: keys)
    case (Cons name names)
    then show ?case
      by (cases "credential_keys_loop env names")
        (auto simp: decodeKey_def Let_def split: if_splits)
  qed simp
  with assms show ?thesis unfolding credentialKeys_def KEY_BYTES_def by blast
qed

section \<open>Properties of tokens\<close>

lemma stringify_object_not_empty: "is_object p \<Longrightarrow> json_stringify js p = Some t \<Longrightarrow> t \<noteq> []"
  by (cases p) (auto simp: json_wrap_def)

text \<open>A minted evidence address verifies to the payload it was minted for, as valid before its
  expiry and as expired from then on.\<close>

theorem evidence_token_roundtrip:
  assumes "evidence_payload_ok p" "json_stringify (js_lib_of cr) p = Some t"
    "json_parse cr t = Some p" "hmac_sha256 cr secret (b64url t) \<noteq> []"
  shows "verifyEvidenceToken cr (mintEvidenceToken cr p secret) secret now =
    (if exp_of p * 1000 \<le> now then TokExpired p else TokValid p)"
proof -
  have "is_object p" using assms(1) by (simp add: evidence_payload_ok_def)
  then have "t \<noteq> []" using assms(2) by (rule stringify_object_not_empty)
  moreover have "hex (hmac_sha256 cr secret (b64url t)) \<noteq> []"
    using assms(4) by simp
  ultimately show ?thesis
    using assms
    by (simp add: verifyEvidenceToken_def mintEvidenceToken_def b64url_no_separator
        hex_no_separator Let_def)
qed

theorem evidence_token_roundtrip_witness:
  "verifyEvidenceToken (ex_crypto ex_evidence) (mintEvidenceToken (ex_crypto ex_evidence) ex_evidence ''s'')
     ''s'' 8000 = TokValid ex_evidence"
  using evidence_token_roundtrip [OF ex_payloads_ok(1), of "ex_crypto ex_evidence" _ "''s''" 8000]
  by (simp add: ex_crypto_def exp_of_def ex_evidence_def)

text \<open>No field of an unsigned payload is acted on: a token that is not refused ends in the
  keyed digest of exactly the text before its only dot, that text parses to the reported payload
  with every field of its declared type, and a valid verdict means the expiry is ahead.\<close>

theorem evidence_token_authentic:
  assumes "verifyEvidenceToken cr token secret now = v" "v \<noteq> TokInvalid"
  shows "\<exists>body p. token = body @ ''.'' @ hex (hmac_sha256 cr secret body) \<and>
    CHR ''.'' \<notin> set body \<and> json_parse cr (unb64 body) = Some p \<and> evidence_payload_ok p \<and>
    (v = TokExpired p \<and> exp_of p * 1000 \<le> now \<or> v = TokValid p \<and> now < exp_of p * 1000)"
proof -
  obtain body sig where split: "split_first (CHR ''.'') token = Some (body, sig)"
    using assms by (auto simp: verifyEvidenceToken_def split: option.splits)
  then have tok: "token = body @ CHR ''.'' # sig" "CHR ''.'' \<notin> set body"
    by (simp_all add: split_first_Some_iff)
  have sig: "sig = hex (hmac_sha256 cr secret body)"
    using assms split by (auto simp: verifyEvidenceToken_def split: if_splits)
  obtain p where "json_parse cr (unb64 body) = Some p"
    using assms split by (auto simp: verifyEvidenceToken_def split: if_splits option.splits)
  with assms split tok sig show ?thesis
    by (auto simp: verifyEvidenceToken_def intro!: exI [of _ body] split: if_splits)
qed

theorem evidence_token_authentic_witness:
  "\<exists>body p. mintEvidenceToken (ex_crypto ex_evidence) ex_evidence ''s'' =
      body @ ''.'' @ hex (hmac_sha256 (ex_crypto ex_evidence) ''s'' body) \<and>
    CHR ''.'' \<notin> set body \<and> json_parse (ex_crypto ex_evidence) (unb64 body) = Some p \<and>
    evidence_payload_ok p \<and>
    (TokValid ex_evidence = TokExpired p \<and> exp_of p * 1000 \<le> 8000 \<or>
     TokValid ex_evidence = TokValid p \<and> 8000 < exp_of p * 1000)"
  by (rule evidence_token_authentic [where v = "TokValid ex_evidence"])
    (simp_all add: verifyEvidenceToken_def mintEvidenceToken_def b64url_no_separator
      hex_no_separator ex_crypto_def ex_payloads_ok exp_of_def,
     simp_all add: ex_evidence_def json_wrap_def)

lemma mintWorkToken_eq:
  assumes "json_stringify (js_lib_of cr) p = Some t" "mintWorkToken cr env fresh pk p = (tok, pk')"
  shows "tok = b64url t @ CHR ''.'' # sign cr (fst (tokenKey cr env fresh pk)) (b64url t)"
    "pk' = snd (tokenKey cr env fresh pk)"
  using assms by (auto simp: mintWorkToken_def Let_def split: prod.splits)

lemma verify_minted:
  assumes "work_payload_ok p" "json_stringify (js_lib_of cr) p = Some t" "json_parse cr t = Some p"
    and "fst (tokenKey cr env' fresh' pk') = key"
    and "tok = b64url t @ CHR ''.'' # sign cr key (b64url t)" "length tok \<le> WORK_TOKEN_MAX_CHARS"
  shows "fst (verifyWorkToken cr env' fresh' pk' (JStr tok) now) =
    (if exp_passed (now / 1000) (jget p ''exp'') then TokExpired p else TokValid p)"
proof -
  have "is_object p"
    using assms(1) by (cases p) (auto simp: work_payload_ok_def is_str_def)
  then have "t \<noteq> []" using assms(2) by (rule stringify_object_not_empty)
  with assms show ?thesis
    by (auto simp: verifyWorkToken_def b64url_no_separator sign_def Let_def split: prod.splits)
qed

text \<open>A work token verifies wherever the same key is in force: in the process that minted it,
  and, when a credential key or the forgetting key is configured, in any other process with the
  same environment.\<close>

theorem work_token_roundtrip:
  assumes "work_payload_ok p" "json_stringify (js_lib_of cr) p = Some t" "json_parse cr t = Some p"
    and "mintWorkToken cr env fresh pk p = (tok, pk1)" "length tok \<le> WORK_TOKEN_MAX_CHARS"
    and "pk2 = pk1 \<or> (\<exists>k ks. credentialKeys env = Inr (k # ks)) \<or>
      truthy_str (map_option trim (env ''FORGET_HMAC_KEY''))"
  shows "fst (verifyWorkToken cr env fresh2 pk2 (JStr tok) now) =
    (if exp_passed (now / 1000) (jget p ''exp'') then TokExpired p else TokValid p)"
proof -
  have "fst (tokenKey cr env fresh2 pk2) = fst (tokenKey cr env fresh pk)"
    using assms(6) mintWorkToken_eq(2) [OF assms(2,4)]
    by (auto simp: tokenKey_def Let_def split: sum.splits list.splits option.splits)
  from verify_minted [OF assms(1-3) this mintWorkToken_eq(1) [OF assms(2,4)] assms(5)]
  show ?thesis .
qed

lemma ex_work_minted:
  obtains t tok pk1 where "json_stringify ex_js ex_work = Some t"
    "mintWorkToken (ex_crypto ex_work) (\<lambda>_. None) ''r'' None ex_work = (tok, pk1)"
    "length tok \<le> WORK_TOKEN_MAX_CHARS"
proof -
  have "\<exists>t. json_stringify ex_js ex_work = Some t \<and> length t \<le> 200"
    by (simp add: ex_work_def ex_js_def json_wrap_def json_string_def json_char_def)
  then obtain t where t: "json_stringify ex_js ex_work = Some t" "length t \<le> 200" by blast
  obtain tok pk1 where tok: "mintWorkToken (ex_crypto ex_work) (\<lambda>_. None) ''r'' None ex_work = (tok, pk1)"
    by force
  have js: "json_stringify (js_lib_of (ex_crypto ex_work)) ex_work = Some t"
    using t by (simp add: ex_crypto_def)
  let ?key = "fst (tokenKey (ex_crypto ex_work) (\<lambda>_. None) ''r'' None)"
  have "length ?key \<le> 4"
    by (simp add: tokenKey_def ex_crypto_def Let_def)
  then have "length (sign (ex_crypto ex_work) ?key (b64url t)) \<le> 10"
    using length_b64url_le [of "''m'' @ ?key"] unfolding sign_def ex_crypto_def by simp
  then have "length tok \<le> WORK_TOKEN_MAX_CHARS"
    using mintWorkToken_eq(1) [OF js tok] length_b64url_le [of t] t(2)
    by (simp add: WORK_TOKEN_MAX_CHARS_def)
  with that t(1) tok show thesis by blast
qed

theorem work_token_roundtrip_witness:
  "\<exists>tok pk1. mintWorkToken (ex_crypto ex_work) (\<lambda>_. None) ''r'' None ex_work = (tok, pk1) \<and>
     fst (verifyWorkToken (ex_crypto ex_work) (\<lambda>_. None) ''q'' pk1 (JStr tok) 5000) = TokValid ex_work"
proof -
  obtain t tok pk1 where m: "json_stringify ex_js ex_work = Some t"
    "mintWorkToken (ex_crypto ex_work) (\<lambda>_. None) ''r'' None ex_work = (tok, pk1)"
    "length tok \<le> WORK_TOKEN_MAX_CHARS"
    by (rule ex_work_minted)
  have "fst (verifyWorkToken (ex_crypto ex_work) (\<lambda>_. None) ''q'' pk1 (JStr tok) 5000) =
      (if exp_passed (5000 / 1000) (jget ex_work ''exp'') then TokExpired ex_work else TokValid ex_work)"
    by (rule work_token_roundtrip [OF ex_payloads_ok(2) _ _ m(2,3)])
      (use m(1) in \<open>simp_all add: ex_crypto_def\<close>)
  with m(2) show ?thesis by (simp add: ex_work_def)
qed

text \<open>A submission lands only on what the server issued: an accepted work token carries the
  keyed digest of its body, and the body is a well-formed payload of a known kind.\<close>

theorem work_token_authentic:
  assumes "fst (verifyWorkToken cr env fresh pk token now) = v" "v \<noteq> TokInvalid"
  shows "\<exists>body given p. token = JStr (body @ CHR ''.'' # given) \<and>
    unb64 given = hmac_sha256 cr (fst (tokenKey cr env fresh pk)) body \<and>
    json_parse cr (unb64 body) = Some p \<and> work_payload_ok p \<and>
    (v = TokExpired p \<or> v = TokValid p \<and> \<not> exp_passed (now / 1000) (jget p ''exp''))"
proof -
  obtain tok body given where split: "token = JStr tok" "split_first (CHR ''.'') tok = Some (body, given)"
    using assms by (auto simp: verifyWorkToken_def split: jval.splits option.splits if_splits)
  then have tok: "tok = body @ CHR ''.'' # given" by (simp add: split_first_Some_iff)
  obtain key pk' where key: "tokenKey cr env fresh pk = (key, pk')" by force
  have sig: "unb64 given = hmac_sha256 cr key body"
    using assms split key by (auto simp: verifyWorkToken_def sign_def split: if_splits)
  obtain p where "json_parse cr (unb64 body) = Some p"
    using assms split key by (auto simp: verifyWorkToken_def split: if_splits option.splits)
  with assms split tok sig key show ?thesis
    by (auto simp: verifyWorkToken_def sign_def split: if_splits)
qed

theorem work_token_authentic_witness:
  "\<exists>tok. (\<exists>body given p. JStr tok = JStr (body @ CHR ''.'' # given) \<and>
    unb64 given = hmac_sha256 (ex_crypto ex_work)
      (fst (tokenKey (ex_crypto ex_work) (\<lambda>_. None) ''r'' None)) body \<and>
    json_parse (ex_crypto ex_work) (unb64 body) = Some p \<and> work_payload_ok p \<and>
    (TokValid ex_work = TokExpired p \<or> TokValid ex_work = TokValid p \<and>
       \<not> exp_passed (5000 / 1000) (jget p ''exp'')))"
proof -
  obtain t tok pk1 where m: "json_stringify ex_js ex_work = Some t"
    "mintWorkToken (ex_crypto ex_work) (\<lambda>_. None) ''r'' None ex_work = (tok, pk1)"
    "length tok \<le> WORK_TOKEN_MAX_CHARS"
    by (rule ex_work_minted)
  have js: "json_stringify (js_lib_of (ex_crypto ex_work)) ex_work = Some t"
    using m(1) by (simp add: ex_crypto_def)
  have "fst (verifyWorkToken (ex_crypto ex_work) (\<lambda>_. None) ''r'' None (JStr tok) 5000) = TokValid ex_work"
    using verify_minted [OF ex_payloads_ok(2) js _ refl mintWorkToken_eq(1) [OF js m(2)] m(3)]
    by (simp add: ex_crypto_def ex_work_def)
  from work_token_authentic [OF this] show ?thesis by blast
qed

end
