(* ===== verification/RevocationCache.thy ===== *)
theory RevocationCache imports Prelude begin

text \<open>
  The deny-list of revoked subjects (\<open>src/auth/revocation-cache.service.ts\<close>): a bounded local
  map read through from a shared table at most once per coherence interval.  A replica's state
  is \<open>rev_state\<close>; the shared table is the list of its rows, keyed by subject.  Times are
  milliseconds and every operation takes the clock.  A pull is two steps, the one that marks it
  started and issues the read, and the one in which the rows arrive, so that other calls may
  run in between.  \<open>fleet_step\<close> lets all replicas, the reads under way and the sweeps
  interleave over the table.
\<close>

definition REVOCATION_COHERENCE_MS :: int where "REVOCATION_COHERENCE_MS = 5000"
definition GC_INTERVAL_MS :: int where "GC_INTERVAL_MS = 600000"
definition DEFAULT_TTL_MS :: int where "DEFAULT_TTL_MS = 900000"
definition MAX_ENTRIES :: nat where "MAX_ENTRIES = 10000"

record rev_state =
  rv_denied :: "(string \<times> int) list"
  rv_lastPullAt :: int
  rv_lastGcAt :: int
  rv_pulling :: bool

definition rev_init :: rev_state where
  "rev_init = \<lparr>rv_denied = [], rv_lastPullAt = 0, rv_lastGcAt = 0, rv_pulling = False\<rparr>"

type_synonym rev_table = "(string \<times> int) list"

section \<open>The local map\<close>

definition prune :: "int \<Rightarrow> (string \<times> int) list \<Rightarrow> (string \<times> int) list" where
  "prune now d = (if length d < MAX_ENTRIES then d else filter (\<lambda>su. \<not> snd su \<le> now) d)"

definition deny_map :: "int \<Rightarrow> string \<Rightarrow> int \<Rightarrow> (string \<times> int) list \<Rightarrow> (string \<times> int) list" where
  "deny_map now subject until d =
     (if (case map_of d subject of Some e \<Rightarrow> e \<ge> until | None \<Rightarrow> False) then d
      else let d1 = prune now d;
               d2 = (if length d1 \<ge> MAX_ENTRIES then tl d1 else d1)
           in AList.update subject until d2)"

definition denyLocal :: "int \<Rightarrow> string \<Rightarrow> int \<Rightarrow> rev_state \<Rightarrow> rev_state" where
  "denyLocal now subject until s = s\<lparr>rv_denied := deny_map now subject until (rv_denied s)\<rparr>"

definition isDeniedLocally :: "int \<Rightarrow> string \<Rightarrow> rev_state \<Rightarrow> bool \<times> rev_state" where
  "isDeniedLocally now subject s =
     (case map_of (rv_denied s) subject of
        None \<Rightarrow> (False, s)
      | Some until \<Rightarrow>
          if until \<le> now then (False, s\<lparr>rv_denied := AList.delete subject (rv_denied s)\<rparr>)
          else (True, s))"

section \<open>Denying\<close>

datatype deny_outcome = DenySkipped | DenyLocalOnly | DenyShared | DenyRejected

text \<open>\<open>shared\<close>: a database is attached; \<open>ok\<close>: the shared write succeeds.\<close>

definition deny ::
  "bool \<Rightarrow> bool \<Rightarrow> int \<Rightarrow> string \<Rightarrow> int \<Rightarrow> rev_state \<Rightarrow> rev_table \<Rightarrow>
   deny_outcome \<times> rev_state \<times> rev_table" where
  "deny shared ok now subject ttlMs s table =
     (if subject = [] then (DenySkipped, s, table)
      else let until = now + ttlMs; s1 = denyLocal now subject until s
           in if \<not> shared \<or> ttlMs \<le> 0 then (DenyLocalOnly, s1, table)
              else if ok then (DenyShared, s1, AList.update subject until table)
              else (DenyRejected, s1, table))"

section \<open>Pulling\<close>

definition live_rows :: "int \<Rightarrow> rev_table \<Rightarrow> rev_table" where
  "live_rows now table = filter (\<lambda>r. snd r > now) table"

definition merge_rows :: "int \<Rightarrow> rev_table \<Rightarrow> (string \<times> int) list \<Rightarrow> (string \<times> int) list" where
  "merge_rows now rows d = fold (\<lambda>r d. if fst r = [] then d else deny_map now (fst r) (snd r) d) rows d"

text \<open>The sweep: a read of the expired rows, and their deletion, two statements.\<close>

definition sweep_ids :: "int \<Rightarrow> rev_table \<Rightarrow> string list" where
  "sweep_ids now table = take 5000 (map fst (filter (\<lambda>r. snd r \<le> now) table))"

definition sweep_delete :: "string list \<Rightarrow> rev_table \<Rightarrow> rev_table" where
  "sweep_delete ids table = filter (\<lambda>r. fst r \<notin> set ids) table"

definition sweepExpired :: "int \<Rightarrow> rev_table \<Rightarrow> rev_table" where
  "sweepExpired now table = sweep_delete (sweep_ids now table) table"

text \<open>The synchronous half of \<open>refresh\<close>, and its completion with the rows read: the rows are
  merged one by one and the sweep is launched when it is due.\<close>

definition refresh_start :: "int \<Rightarrow> rev_state \<Rightarrow> rev_state" where
  "refresh_start now s = s\<lparr>rv_lastPullAt := now\<rparr>"

definition sweepIfDue :: "int \<Rightarrow> rev_state \<Rightarrow> rev_table \<Rightarrow> rev_state \<times> rev_table" where
  "sweepIfDue now s table =
     (if now - rv_lastGcAt s < GC_INTERVAL_MS then (s, table)
      else (s\<lparr>rv_lastGcAt := now\<rparr>, sweepExpired now table))"

definition refresh_finish ::
  "int \<Rightarrow> rev_table \<Rightarrow> rev_state \<Rightarrow> rev_table \<Rightarrow> rev_state \<times> rev_table" where
  "refresh_finish now rows s table =
     sweepIfDue now (s\<lparr>rv_denied := merge_rows now rows (rv_denied s)\<rparr>) table"

text \<open>\<open>pullIfStale\<close>: whether the caller waits for a pull, and the state after the call's
  synchronous part.\<close>

definition pullIfStale :: "bool \<Rightarrow> int \<Rightarrow> rev_state \<Rightarrow> bool \<times> rev_state" where
  "pullIfStale shared now s =
     (if \<not> shared \<or> now - rv_lastPullAt s < REVOCATION_COHERENCE_MS then (False, s)
      else if rv_pulling s then (True, s)
      else (True, (refresh_start now s)\<lparr>rv_pulling := True\<rparr>))"

text \<open>\<open>isDenied\<close> when its pull, if it waits for one, completes at \<open>now'\<close> with \<open>rows\<close> (None: the
  read failed, and the local map is served).\<close>

definition isDenied ::
  "bool \<Rightarrow> int \<Rightarrow> int \<Rightarrow> rev_table option \<Rightarrow> string \<Rightarrow> rev_state \<Rightarrow> rev_table \<Rightarrow>
   bool \<times> rev_state \<times> rev_table" where
  "isDenied shared now now' rows subject s table =
     (let (waits, s1) = pullIfStale shared now s;
          (s2, table') =
            (if \<not> waits then (s1, table)
             else case rows of
                    None \<Rightarrow> (s1\<lparr>rv_pulling := False\<rparr>, table)
                  | Some rs \<Rightarrow> (let (s', t') = refresh_finish now' rs s1 table
                               in (s'\<lparr>rv_pulling := False\<rparr>, t')));
          (res, s3) = isDeniedLocally (if waits then now' else now) subject s2
      in (res, s3, table'))"

section \<open>The map stays bounded and keyed\<close>

definition map_ok :: "(string \<times> int) list \<Rightarrow> bool" where
  "map_ok d \<longleftrightarrow> distinct (map fst d) \<and> length d \<le> MAX_ENTRIES"

lemma length_update_le: "length (AList.update k v d) \<le> Suc (length d)"
  by (induction d) auto

lemma deny_map_ok:
  assumes "map_ok d"
  shows "map_ok (deny_map now subject until d)"
proof -
  let ?d1 = "prune now d"
  let ?d2 = "if length ?d1 \<ge> MAX_ENTRIES then tl ?d1 else ?d1"
  have "distinct (map fst ?d1)" "length ?d1 \<le> MAX_ENTRIES"
    using assms by (auto simp: map_ok_def prune_def distinct_map_fst_filter
        intro: le_trans [OF length_filter_le])
  then have "distinct (map fst ?d2)" "length ?d2 < MAX_ENTRIES"
    by (auto simp: map_tl distinct_tl MAX_ENTRIES_def)
  then have "map_ok (AList.update subject until ?d2)"
    using length_update_le [of subject until ?d2] by (auto simp: map_ok_def)
  with assms show ?thesis by (simp add: deny_map_def Let_def)
qed

lemma merge_rows_ok: "map_ok d \<Longrightarrow> map_ok (merge_rows now rows d)"
  unfolding merge_rows_def
  by (rule fold_invariant [where Q = "\<lambda>_. True"]) (auto intro: deny_map_ok)

text \<open>A denial is in force for a subject until a time.\<close>

definition denied_until :: "(string \<times> int) list \<Rightarrow> string \<Rightarrow> int \<Rightarrow> bool" where
  "denied_until d subject t \<longleftrightarrow> (\<exists>e. map_of d subject = Some e \<and> t \<le> e)"

lemma deny_map_roomy:
  assumes "length d < MAX_ENTRIES"
  shows "denied_until (deny_map now subject until d) subject until"
    and "denied_until d s t \<Longrightarrow> denied_until (deny_map now subject until d) s t"
  using assms by (auto simp: deny_map_def prune_def denied_until_def split: option.splits)

lemma set_tl_subset: "set (tl xs) \<subseteq> set xs"
  by (cases xs) auto

lemma deny_map_keys: "fst ` set (deny_map now subject until d) \<subseteq> insert subject (fst ` set d)"
proof -
  let ?d2 = "if length (prune now d) \<ge> MAX_ENTRIES then tl (prune now d) else prune now d"
  have "set ?d2 \<subseteq> set d"
    using set_tl_subset [of "prune now d"] by (auto simp: prune_def split: if_splits)
  then have "insert subject (fst ` set ?d2) \<subseteq> insert subject (fst ` set d)" by blast
  then show ?thesis
    using dom_update [of subject until ?d2] by (auto simp: deny_map_def Let_def split: if_splits)
qed

lemma length_map_ok: "distinct (map fst d) \<Longrightarrow> length d = card (fst ` set d)"
  by (metis distinct_card length_map list.set_map)

lemma merge_rows_denies:
  assumes "map_ok d" "card (fst ` set d \<union> fst ` set rows) < MAX_ENTRIES"
  shows "(\<forall>(s, u) \<in> set rows. s \<noteq> [] \<longrightarrow> denied_until (merge_rows now rows d) s u) \<and>
    (\<forall>s t. denied_until d s t \<longrightarrow> denied_until (merge_rows now rows d) s t)"
  using assms
proof (induction rows arbitrary: d)
  case Nil
  then show ?case by (simp add: merge_rows_def)
next
  case (Cons r rows)
  let ?d = "if fst r = [] then d else deny_map now (fst r) (snd r) d"
  have step: "merge_rows now (r # rows) d = merge_rows now rows ?d"
    by (simp add: merge_rows_def)
  have "card (fst ` set d) \<le> card (fst ` set d \<union> fst ` set (r # rows))"
    by (rule card_mono) auto
  then have room: "length d < MAX_ENTRIES"
    using Cons.prems by (simp add: map_ok_def length_map_ok)
  have "card (fst ` set ?d \<union> fst ` set rows) \<le> card (fst ` set d \<union> fst ` set (r # rows))"
    using deny_map_keys [of now "fst r" "snd r" d] by (intro card_mono) auto
  then have IH: "(\<forall>(s, u) \<in> set rows. s \<noteq> [] \<longrightarrow> denied_until (merge_rows now rows ?d) s u) \<and>
    (\<forall>s t. denied_until ?d s t \<longrightarrow> denied_until (merge_rows now rows ?d) s t)"
    using Cons.prems by (intro Cons.IH) (auto intro: deny_map_ok)
  moreover have "fst r \<noteq> [] \<Longrightarrow> denied_until ?d (fst r) (snd r)"
    using deny_map_roomy(1) [OF room] by simp
  moreover have "denied_until d s t \<Longrightarrow> denied_until ?d s t" for s t
    using deny_map_roomy(2) [OF room] by simp
  ultimately show ?case unfolding step by (auto split: prod.splits)
qed

section \<open>Histories of one replica\<close>

text \<open>Clock readings, denials, checks that answer at once, and the two halves of a pull.\<close>

inductive rev_step :: "rev_state \<times> rev_table \<Rightarrow> rev_state \<times> rev_table \<Rightarrow> bool" where
  deny_step: "deny shared ok now subject ttl s table = (out, s', table') \<Longrightarrow>
    rev_step (s, table) (s', table')"
| check_step: "pullIfStale shared now s = (False, s) \<Longrightarrow> isDeniedLocally now subject s = (b, s') \<Longrightarrow>
    rev_step (s, table) (s', table)"
| pull_step: "pullIfStale shared now s = (True, s') \<Longrightarrow> rev_step (s, table) (s', table)"
| pulled_step: "refresh_finish now rows s table = (s', table') \<Longrightarrow>
    rev_step (s, table) (s'\<lparr>rv_pulling := False\<rparr>, table')"
| failed_step: "rev_step (s, table) (s\<lparr>rv_pulling := False\<rparr>, table)"

lemma rev_step_ok: "rev_step st st' \<Longrightarrow> map_ok (rv_denied (fst st)) \<Longrightarrow> map_ok (rv_denied (fst st'))"
proof (induction rule: rev_step.induct)
  case (check_step shared now s subject b s' table)
  then show ?case
    by (auto simp: isDeniedLocally_def map_ok_def distinct_delete
        intro: le_trans [OF length_delete_le] split: option.splits if_splits)
qed (auto simp: deny_def denyLocal_def Let_def deny_map_ok pullIfStale_def refresh_start_def
    refresh_finish_def sweepIfDue_def merge_rows_ok split: if_splits)

interpretation rev: state_machine rev_step "\<lambda>st. map_ok (rv_denied (fst st))"
  by unfold_locales (rule rev_step_ok)

section \<open>Histories of the fleet\<close>

text \<open>The replicas, the shared table, the rows read that have not arrived yet and the sweeps that have
  selected and not deleted yet.  \<open>K\<close> is the set of subjects ever denied, \<open>ok\<close> says which ends the
  shared write of a denial may have; it lands any time after the local half of its call.  The replicas and the database share one clock.\<close>

record fleet =
  fl_clock :: int
  fl_table :: rev_table
  fl_replica :: "nat \<Rightarrow> rev_state"
  fl_reads :: "(nat \<times> rev_table) list"
  fl_sweeps :: "string list list"

definition fleet_init :: fleet where
  "fleet_init = \<lparr>fl_clock = 0, fl_table = [], fl_replica = (\<lambda>_. rev_init), fl_reads = [], fl_sweeps = []\<rparr>"

inductive fleet_step :: "string set \<Rightarrow> (string \<Rightarrow> int \<Rightarrow> bool) \<Rightarrow> fleet \<Rightarrow> fleet \<Rightarrow> bool" for K ok where
  fleet_deny: "fl_clock w \<le> now \<Longrightarrow> subject \<in> K \<Longrightarrow> subject \<noteq> [] \<Longrightarrow>
    fleet_step K ok w (w\<lparr>fl_clock := now, fl_replica := (fl_replica w)(i := denyLocal now subject until (fl_replica w i))\<rparr>)"
| fleet_share: "fl_clock w \<le> now \<Longrightarrow> subject \<in> K \<Longrightarrow> ok subject until \<Longrightarrow>
    fleet_step K ok w (w\<lparr>fl_clock := now, fl_table := AList.update subject until (fl_table w)\<rparr>)"
| fleet_check: "fl_clock w \<le> now \<Longrightarrow> isDeniedLocally now subject (fl_replica w i) = (b, s') \<Longrightarrow>
    fleet_step K ok w (w\<lparr>fl_clock := now, fl_replica := (fl_replica w)(i := s')\<rparr>)"
| fleet_pull: "fl_clock w \<le> now \<Longrightarrow> pullIfStale shared now (fl_replica w i) = (b, s') \<Longrightarrow>
    fleet_step K ok w (w\<lparr>fl_clock := now, fl_replica := (fl_replica w)(i := s')\<rparr>)"
| fleet_read: "fl_clock w \<le> now \<Longrightarrow>
    fleet_step K ok w (w\<lparr>fl_clock := now, fl_reads := (i, live_rows now (fl_table w)) # fl_reads w\<rparr>)"
| fleet_arrive: "fl_clock w \<le> now \<Longrightarrow> (i, rows) \<in> set (fl_reads w) \<Longrightarrow>
    refresh_finish now rows (fl_replica w i) table = (s', swept) \<Longrightarrow>
    fleet_step K ok w (w\<lparr>fl_clock := now, fl_replica := (fl_replica w)(i := s'\<lparr>rv_pulling := False\<rparr>),
      fl_reads := remove1 (i, rows) (fl_reads w)\<rparr>)"
| fleet_failed: "fl_clock w \<le> now \<Longrightarrow>
    fleet_step K ok w (w\<lparr>fl_clock := now, fl_replica := (fl_replica w)(i := (fl_replica w i)\<lparr>rv_pulling := False\<rparr>)\<rparr>)"
| fleet_select: "fl_clock w \<le> now \<Longrightarrow>
    fleet_step K ok w (w\<lparr>fl_clock := now, fl_sweeps := sweep_ids now (fl_table w) # fl_sweeps w\<rparr>)"
| fleet_delete: "fl_clock w \<le> now \<Longrightarrow> ids \<in> set (fl_sweeps w) \<Longrightarrow>
    fleet_step K ok w (w\<lparr>fl_clock := now, fl_table := sweep_delete ids (fl_table w), fl_sweeps := remove1 ids (fl_sweeps w)\<rparr>)"

text \<open>Every list is keyed, and all keys are subjects that were denied.\<close>

definition fleet_ok :: "string set \<Rightarrow> fleet \<Rightarrow> bool" where
  "fleet_ok K w \<longleftrightarrow>
     distinct (map fst (fl_table w)) \<and> fst ` set (fl_table w) \<subseteq> K \<and>
     (\<forall>i. map_ok (rv_denied (fl_replica w i)) \<and> fst ` set (rv_denied (fl_replica w i)) \<subseteq> K) \<and>
     (\<forall>i rows. (i, rows) \<in> set (fl_reads w) \<longrightarrow> fst ` set rows \<subseteq> K)"

lemma merge_rows_keys: "fst ` set (merge_rows now rows d) \<subseteq> fst ` set rows \<union> fst ` set d"
proof (induction rows arbitrary: d)
  case (Cons r rows)
  let ?d = "if fst r = [] then d else deny_map now (fst r) (snd r) d"
  have "fst ` set ?d \<subseteq> insert (fst r) (fst ` set d)" using deny_map_keys [of now "fst r" "snd r" d] by (simp split: if_splits) blast
  then have "fst ` set (merge_rows now rows ?d) \<subseteq> fst ` set rows \<union> insert (fst r) (fst ` set d)"
    using Cons.IH [of ?d] by (meson Un_mono order_refl order_trans)
  moreover have "merge_rows now (r # rows) d = merge_rows now rows ?d" by (simp add: merge_rows_def)
  ultimately show ?case by simp
qed (simp add: merge_rows_def)

text \<open>The local map of a replica after a step: unchanged, one denial more, one row merged, or one
  expired denial dropped.\<close>

lemma finish_denied: "refresh_finish now rows s table = (s', t') \<Longrightarrow> rv_denied s' = merge_rows now rows (rv_denied s)"
  by (auto simp: refresh_finish_def sweepIfDue_def split: if_splits)

lemma pull_denied: "pullIfStale shared now s = (b, s') \<Longrightarrow> rv_denied s' = rv_denied s"
  by (auto simp: pullIfStale_def refresh_start_def split: if_splits)

text \<open>A shared denial is its two halves one after the other.\<close>

lemma deny_halves:
  "deny True True now subject ttl s table = (DenyShared, s', table') \<Longrightarrow>
     subject \<noteq> [] \<and> s' = denyLocal now subject (now + ttl) s \<and> table' = AList.update subject (now + ttl) table"
  by (auto simp: deny_def Let_def split: if_splits)

lemma check_denied:
  "isDeniedLocally now subject s = (b, s') \<Longrightarrow>
     rv_denied s' = rv_denied s \<or>
     (\<exists>e. map_of (rv_denied s) subject = Some e \<and> e \<le> now \<and> rv_denied s' = AList.delete subject (rv_denied s))"
  by (auto simp: isDeniedLocally_def split: option.splits if_splits)

lemma check_ok:
  assumes "isDeniedLocally now subject s = (b, s')" "map_ok (rv_denied s)"
  shows "map_ok (rv_denied s') \<and> fst ` set (rv_denied s') \<subseteq> fst ` set (rv_denied s)"
proof -
  have "map_ok (AList.delete subject d) \<and> fst ` set (AList.delete subject d) \<subseteq> fst ` set d" if "map_ok d" for d :: "(string \<times> int) list"
    using that distinct_delete [of d subject]
    by (auto simp: map_ok_def AList.delete_eq intro: le_trans [OF length_filter_le])
  then show ?thesis using check_denied [OF assms(1)] assms(2) by (metis order_refl)
qed

lemma update_ok:
  "distinct (map fst t) \<Longrightarrow> fst ` set t \<subseteq> K \<Longrightarrow> k \<in> K \<Longrightarrow>
     distinct (map fst (AList.update k v t)) \<and> fst ` set (AList.update k v t) \<subseteq> K"
  using dom_update [of k v t] by (auto simp: distinct_update)

lemma fleet_step_ok: "fleet_step K ok w w' \<Longrightarrow> fleet_ok K w \<Longrightarrow> fleet_ok K w'"
proof (induction rule: fleet_step.induct)
  case (fleet_deny w now subject i until)
  then have "map_ok (rv_denied (fl_replica w i))" "fst ` set (rv_denied (fl_replica w i)) \<subseteq> K"
    by (simp_all add: fleet_ok_def)
  then have "map_ok (deny_map now subject until (rv_denied (fl_replica w i)))"
    and "fst ` set (deny_map now subject until (rv_denied (fl_replica w i))) \<subseteq> K"
    using deny_map_keys [of now subject until "rv_denied (fl_replica w i)"] fleet_deny.hyps(2)
    by (simp_all add: deny_map_ok) (meson insert_subset order_trans)
  with fleet_deny.prems show ?case by (simp add: fleet_ok_def denyLocal_def)
next
  case (fleet_share w now subject until)
  then show ?case using update_ok [of "fl_table w" K subject until] by (simp add: fleet_ok_def)
next
  case (fleet_check w now subject i b s')
  have "map_ok (rv_denied (fl_replica w i))" "fst ` set (rv_denied (fl_replica w i)) \<subseteq> K"
    using fleet_check.prems by (simp_all add: fleet_ok_def)
  with check_ok [OF fleet_check.hyps(2)] have "map_ok (rv_denied s') \<and> fst ` set (rv_denied s') \<subseteq> K" by blast
  with fleet_check.prems show ?case by (simp add: fleet_ok_def)
next
  case (fleet_pull w now shared i b s')
  then show ?case by (simp add: fleet_ok_def pull_denied)
next
  case (fleet_read w now i)
  then show ?case by (auto simp: fleet_ok_def live_rows_def)
next
  case (fleet_arrive w now i rows table s' swept)
  have d: "map_ok (rv_denied (fl_replica w i))" "fst ` set (rv_denied (fl_replica w i)) \<subseteq> K" "fst ` set rows \<subseteq> K"
    using fleet_arrive.prems fleet_arrive.hyps(2) by (auto simp: fleet_ok_def)
  have "fst ` set (merge_rows now rows (rv_denied (fl_replica w i))) \<subseteq> K"
    by (rule order_trans [OF merge_rows_keys Un_least [OF d(3,2)]])
  then have "map_ok (rv_denied s') \<and> fst ` set (rv_denied s') \<subseteq> K"
    unfolding finish_denied [OF fleet_arrive.hyps(3)] using merge_rows_ok [OF d(1)] by (rule conjI [rotated])
  moreover have "fst ` set rs \<subseteq> K" if "(j, rs) \<in> set (remove1 (i, rows) (fl_reads w))" for j rs
  proof -
    have "(j, rs) \<in> set (fl_reads w)" using that set_remove1_subset [of "(i, rows)" "fl_reads w"] by (rule rev_subsetD)
    then show ?thesis using fleet_arrive.prems unfolding fleet_ok_def by (elim conjE allE impE)
  qed
  ultimately show ?case using fleet_arrive.prems by (simp add: fleet_ok_def)
next
  case (fleet_failed w now i)
  then show ?case by (simp add: fleet_ok_def)
next
  case (fleet_select w now)
  then show ?case by (simp add: fleet_ok_def)
next
  case (fleet_delete w now ids)
  then show ?case by (auto simp: fleet_ok_def sweep_delete_def distinct_map_fst_filter)
qed

interpretation fleet: state_machine "fleet_step K ok" "fleet_ok K" for K ok
  by unfold_locales (rule fleet_step_ok)

text \<open>The shared denial of a subject up to \<open>U\<close>: its row, which no sweep under way will delete.\<close>

definition shared_denial :: "string \<Rightarrow> int \<Rightarrow> fleet \<Rightarrow> bool" where
  "shared_denial S U w \<longleftrightarrow> denied_until (fl_table w) S U \<and> (\<forall>ids \<in> set (fl_sweeps w). S \<notin> set ids)"

text \<open>Until \<open>U\<close>, with every end of a denial of \<open>S\<close> no earlier, the row stays; what is read from it or held
  by a replica stays too.\<close>

definition no_shorter :: "string \<Rightarrow> int \<Rightarrow> string \<Rightarrow> int \<Rightarrow> bool" where
  "no_shorter S U s until \<longleftrightarrow> (s = S \<longrightarrow> U \<le> until)"

definition fleet_inv :: "string set \<Rightarrow> string \<Rightarrow> int \<Rightarrow> fleet \<Rightarrow> bool" where
  "fleet_inv K S U w \<longleftrightarrow> fleet_ok K w \<and> (fl_clock w < U \<longrightarrow> shared_denial S U w)"

lemma step_clock: "fleet_step K ok w w' \<Longrightarrow> fl_clock w \<le> fl_clock w'"
  by (induction rule: fleet_step.induct) simp_all

lemma denied_until_update: "denied_until t S U \<Longrightarrow> (s = S \<Longrightarrow> U \<le> u) \<Longrightarrow> denied_until (AList.update s u t) S U"
  by (auto simp: denied_until_def update_conv')

lemma denied_until_delete: "denied_until (filter (\<lambda>r. fst r \<notin> set ids) t) S U \<longleftrightarrow> denied_until t S U" if "S \<notin> set ids"
proof -
  have "map_of (filter (\<lambda>r. fst r \<notin> set ids) t) S = map_of t S"
    using that by (induction t) auto
  then show ?thesis by (simp add: denied_until_def)
qed

lemma sweep_spares: "distinct (map fst t) \<Longrightarrow> denied_until t S U \<Longrightarrow> now < U \<Longrightarrow> S \<notin> set (sweep_ids now t)"
  by (auto simp: sweep_ids_def denied_until_def dest!: in_set_takeD) (metis eq_key_imp_eq_value leD order_trans)

lemma fleet_inv_step:
  assumes "fleet_step K (no_shorter S U) w w'" "fleet_inv K S U w"
  shows "fleet_inv K S U w'"
proof -
  have ok: "fleet_ok K w'" using fleet_step_ok [OF assms(1)] assms(2) by (simp add: fleet_inv_def)
  have "shared_denial S U w'" if before: "fl_clock w' < U"
  proof -
    have sh: "shared_denial S U w" and d: "distinct (map fst (fl_table w))"
      using assms(2) step_clock [OF assms(1)] before by (auto simp: fleet_inv_def fleet_ok_def)
    from assms(1) show ?thesis
    proof cases
      case (fleet_share now subject until)
      with sh denied_until_update [of "fl_table w" S U subject until] show ?thesis
        by (auto simp: shared_denial_def no_shorter_def)
    next
      case (fleet_select now)
      with sh sweep_spares [OF d] before show ?thesis by (auto simp: shared_denial_def)
    next
      case (fleet_delete now ids)
      with sh show ?thesis
        by (auto simp: shared_denial_def sweep_delete_def denied_until_delete dest: set_remove1_subset [THEN subsetD])
    qed (use sh in \<open>simp_all add: shared_denial_def\<close>)
  qed
  with ok show ?thesis by (simp add: fleet_inv_def)
qed

lemma local_denial_kept:
  assumes "finite K" "card K < MAX_ENTRIES" "fleet_step K ok w w'" "fleet_ok K w" "fl_clock w' < U"
    and den: "denied_until (rv_denied (fl_replica w b)) S U"
  shows "denied_until (rv_denied (fl_replica w' b)) S U"
proof -
  have small: "length d < MAX_ENTRIES" if "map_ok d" "fst ` set d \<subseteq> K" for d :: "(string \<times> int) list"
    using card_mono [OF assms(1) that(2)] assms(2) that(1) by (simp add: map_ok_def length_map_ok)
  have rep: "map_ok (rv_denied (fl_replica w i))" "fst ` set (rv_denied (fl_replica w i)) \<subseteq> K" for i
    using assms(4) by (simp_all add: fleet_ok_def)
  from assms(3) show ?thesis
  proof cases
    case (fleet_deny now subject i until)
    have "denied_until (deny_map now subject until (rv_denied (fl_replica w b))) S U"
      by (rule deny_map_roomy(2) [OF small [OF rep] den])
    with den show ?thesis by (auto simp: fleet_deny(1) denyLocal_def)
  next
    case (fleet_check now subject i b' s')
    have "denied_until (rv_denied s') S U" if ib: "i = b"
      using check_denied [OF fleet_check(3)]
    proof
      assume "\<exists>e. map_of (rv_denied (fl_replica w i)) subject = Some e \<and> e \<le> now \<and>
        rv_denied s' = AList.delete subject (rv_denied (fl_replica w i))"
      then obtain e where e: "map_of (rv_denied (fl_replica w b)) subject = Some e" "e \<le> now"
        "rv_denied s' = AList.delete subject (rv_denied (fl_replica w b))" unfolding ib by blast
      then have "subject \<noteq> S" using den assms(5) fleet_check(1) by (auto simp: denied_until_def)
      with e den show ?thesis by (simp add: denied_until_def delete_conv')
    qed (use den ib in simp)
    with den show ?thesis by (auto simp: fleet_check(1))
  next
    case (fleet_arrive now i rows table s' swept)
    have "card (fst ` set (rv_denied (fl_replica w i)) \<union> fst ` set rows) \<le> card K"
      using assms(1,4) fleet_arrive(3) rep(2) by (intro card_mono) (auto simp: fleet_ok_def)
    then have "denied_until (rv_denied s') S U" if "i = b"
      using merge_rows_denies [OF rep(1), of i rows now] assms(2) finish_denied [OF fleet_arrive(4)] den that by simp
    with den show ?thesis by (auto simp: fleet_arrive(1))
  qed (use den in \<open>auto simp: pull_denied\<close>)
qed

lemma fleet_inv_steps:
  "(fleet_step K (no_shorter S U))\<^sup>*\<^sup>* w w' \<Longrightarrow> fleet_inv K S U w \<Longrightarrow> fleet_inv K S U w' \<and> fl_clock w \<le> fl_clock w'"
  by (induction rule: rtranclp_induct) (auto dest: fleet_inv_step step_clock)

lemma local_denial_steps:
  assumes "finite K" "card K < MAX_ENTRIES" "(fleet_step K (no_shorter S U))\<^sup>*\<^sup>* w w'" "fleet_inv K S U w"
    and "denied_until (rv_denied (fl_replica w b)) S U" "fl_clock w' < U"
  shows "denied_until (rv_denied (fl_replica w' b)) S U"
  using assms(3,4,5,6)
proof (induction rule: rtranclp_induct)
  case (step x y)
  have "fl_clock x < U" using step_clock [OF step.hyps(2)] step.prems by simp
  with step have "denied_until (rv_denied (fl_replica x b)) S U" by blast
  moreover have "fleet_ok K x" using fleet_inv_steps [OF step.hyps(1) assms(4)] by (simp add: fleet_inv_def)
  ultimately show ?case using local_denial_kept [OF assms(1,2) step.hyps(2)] step.prems by blast
qed simp

section \<open>Properties\<close>

text \<open>The local deny-list never outgrows its cap and never lists a subject twice, whatever a
  replica goes through.\<close>

theorem deny_list_bounded:
  assumes "rev_step\<^sup>*\<^sup>* (rev_init, table) (s, table')"
  shows "length (rv_denied s) \<le> 10000 \<and> distinct (map fst (rv_denied s))"
  using rev.inv_steps [OF assms]
  by (simp add: map_ok_def rev_init_def MAX_ENTRIES_def)

theorem deny_list_bounded_witness:
  "length (rv_denied (denyLocal 0 ''u'' 5 rev_init)) \<le> 10000 \<and>
   distinct (map fst (rv_denied (denyLocal 0 ''u'' 5 rev_init)))"
proof -
  have "rev_step (rev_init, []) (denyLocal 0 ''u'' 5 rev_init, [])"
    by (rule deny_step [of False True 0 "''u''" 5 _ _ DenyLocalOnly]) (simp add: deny_def)
  then show ?thesis by (rule deny_list_bounded [OF r_into_rtranclp])
qed

text \<open>C40: A denial that was shared, with an end at \<open>U\<close>, reaches every replica that reads the table
  afterwards: once rows read after it have arrived at a replica, that replica denies the subject until
  \<open>U\<close>, whatever the fleet does before, between and after.  The fleet denies fewer subjects than a list
  holds, no sweep has already selected an older row of the subject, and no shared denial of the subject
  with an earlier end follows.\<close>

theorem revocation_reaches_replicas:
  assumes "(fleet_step K (\<lambda>_ _. True))\<^sup>*\<^sup>* fleet_init w" "finite K" "card K < MAX_ENTRIES"
    and "S \<in> K" "S \<noteq> []" "fl_clock w \<le> now"
    and "\<And>ids. ids \<in> set (fl_sweeps w) \<Longrightarrow> S \<notin> set ids"
    and "(fleet_step K (no_shorter S U))\<^sup>*\<^sup>*
           (w\<lparr>fl_clock := now, fl_table := AList.update S U (fl_table w)\<rparr>) w1"
    and "fl_clock w1 \<le> readAt" "rows = live_rows readAt (fl_table w1)"
    and "(fleet_step K (no_shorter S U))\<^sup>*\<^sup>* (w1\<lparr>fl_clock := readAt, fl_reads := (b, rows) # fl_reads w1\<rparr>) w2"
    and "(b, rows) \<in> set (fl_reads w2)" "fl_clock w2 \<le> arrival"
      "refresh_finish arrival rows (fl_replica w2 b) table2 = (s2, swept)"
    and "(fleet_step K (no_shorter S U))\<^sup>*\<^sup>*
           (w2\<lparr>fl_clock := arrival, fl_replica := (fl_replica w2)(b := s2\<lparr>rv_pulling := False\<rparr>),
              fl_reads := remove1 (b, rows) (fl_reads w2)\<rparr>) w3"
    and "fl_clock w3 \<le> later" "later < U"
  shows "fst (isDeniedLocally later S (fl_replica w3 b))"
proof -
  let ?w0 = "w\<lparr>fl_clock := now, fl_table := AList.update S U (fl_table w)\<rparr>"
  let ?w1 = "w1\<lparr>fl_clock := readAt, fl_reads := (b, rows) # fl_reads w1\<rparr>"
  let ?w2 = "w2\<lparr>fl_clock := arrival, fl_replica := (fl_replica w2)(b := s2\<lparr>rv_pulling := False\<rparr>),
    fl_reads := remove1 (b, rows) (fl_reads w2)\<rparr>"
  have "fleet_ok K fleet_init" by (simp add: fleet_ok_def fleet_init_def rev_init_def map_ok_def)
  then have "fleet_ok K w" using fleet.inv_steps [OF assms(1)] by simp
  moreover have "fleet_step K (\<lambda>_ _. True) w ?w0" by (rule fleet_share [OF assms(6,4)]) simp
  ultimately have "fleet_ok K ?w0" using fleet_step_ok by blast
  then have "fleet_inv K S U ?w0"
    using assms(7) by (simp add: fleet_inv_def shared_denial_def denied_until_def update_conv')
  from fleet_inv_steps [OF assms(8) this] have inv1: "fleet_inv K S U w1" by simp
  have "fleet_step K (no_shorter S U) w1 ?w1" unfolding assms(10) by (rule fleet_read [OF assms(9)])
  from fleet_inv_step [OF this inv1] have inv1': "fleet_inv K S U ?w1" .
  from fleet_inv_steps [OF assms(11) this] have inv2: "fleet_inv K S U w2" and c2: "readAt \<le> fl_clock w2" by simp_all
  have "fleet_step K (no_shorter S U) w2 ?w2" by (rule fleet_arrive [OF assms(13,12,14)])
  from fleet_inv_step [OF this inv2] have inv2': "fleet_inv K S U ?w2" .
  from fleet_inv_steps [OF assms(15) this] have c3: "arrival \<le> fl_clock w3" by simp
  have early: "readAt < U" "fl_clock w1 < U" using c2 c3 assms(9,13,16,17) by simp_all
  then have "denied_until (fl_table w1) S U" using inv1 by (simp add: fleet_inv_def shared_denial_def)
  then obtain e where e: "(S, e) \<in> set rows" "U \<le> e"
    using early(1) assms(10) by (auto simp: denied_until_def live_rows_def dest!: map_of_SomeD)
  have ok2: "map_ok (rv_denied (fl_replica w2 b))" "fst ` set (rv_denied (fl_replica w2 b)) \<subseteq> K" "fst ` set rows \<subseteq> K"
    using inv2 assms(12) by (auto simp: fleet_inv_def fleet_ok_def)
  have "card (fst ` set (rv_denied (fl_replica w2 b)) \<union> fst ` set rows) \<le> card K"
    using ok2 by (intro card_mono assms(2)) auto
  then have "denied_until (rv_denied s2) S e"
    using merge_rows_denies [OF ok2(1), of rows arrival] assms(3,5) e(1) finish_denied [OF assms(14)] by fastforce
  then have "denied_until (rv_denied (fl_replica ?w2 b)) S U" using e(2) by (auto simp: denied_until_def)
  from local_denial_steps [OF assms(2,3,15) inv2' this] assms(16,17)
  have "denied_until (rv_denied (fl_replica w3 b)) S U" by simp
  then show ?thesis using assms(17) by (auto simp: isDeniedLocally_def denied_until_def)
qed

theorem revocation_reaches_replicas_witness:
  "fst (isDeniedLocally 7 ''u'' (fst (refresh_finish 3 [(''u'', 10)] rev_init [])\<lparr>rv_pulling := False\<rparr>))"
proof -
  let ?w1 = "fleet_init\<lparr>fl_clock := 0, fl_table := AList.update ''u'' 10 (fl_table fleet_init)\<rparr>"
  let ?w2 = "?w1\<lparr>fl_clock := 2, fl_reads := (1, [(''u'', 10)]) # fl_reads ?w1\<rparr>"
  obtain s2 swept where fin: "refresh_finish 3 [(''u'', 10)] (fl_replica ?w2 1) [] = (s2, swept)" by fastforce
  have small: "finite {''u''}" "card {''u''} < MAX_ENTRIES" by (simp_all add: MAX_ENTRIES_def)
  have "fst (isDeniedLocally 7 ''u'' (fl_replica (?w2\<lparr>fl_clock := 3, fl_replica := (fl_replica ?w2)(1 := s2\<lparr>rv_pulling := False\<rparr>),
      fl_reads := remove1 (1, [(''u'', 10)]) (fl_reads ?w2)\<rparr>) 1))"
    by (rule revocation_reaches_replicas [OF rtranclp.rtrancl_refl small _ _ _ _ rtranclp.rtrancl_refl _ _
          rtranclp.rtrancl_refl _ _ fin rtranclp.rtrancl_refl])
      (simp_all add: fleet_init_def live_rows_def)
  then show ?thesis using fin by (simp add: fleet_init_def)
qed

text \<open>A denial between the two statements of a sweep is lost to the fleet: the sweep selected the
  subject's expired row, the denial writes it anew, and the deletion takes it.\<close>

lemma sweep_deletes_new_denial:
  assumes "subject \<noteq> []" "old \<le> now" "0 < ttl"
  shows "(let ids = sweep_ids now [(subject, old)];
              (_, _, table) = deny True True now subject ttl s [(subject, old)]
          in sweep_delete ids table) = []"
  using assms by (simp add: sweep_ids_def deny_def sweep_delete_def Let_def)

text \<open>The coherence interval is not a bound on staleness: a check made while a pull is in flight
  does not wait for it and answers from the old map, however long the read takes within the
  interval; the pull's start counts as its completion.\<close>

lemma check_during_pull_is_stale:
  assumes "pullIfStale True now s = (True, s')" "\<not> rv_pulling s"
    and "now \<le> later" "later < now + REVOCATION_COHERENCE_MS" "map_of (rv_denied s) subject = None"
  shows "isDenied True later later' rows subject s' table = (False, s', table)"
  using assms
  by (auto simp: isDenied_def pullIfStale_def refresh_start_def isDeniedLocally_def
      split: if_splits)

text \<open>The shared row takes the expiry written last, so a later denial with a shorter time to
  live shortens what other replicas enforce.\<close>

lemma shorter_denial_shrinks_shared_row:
  assumes "subject \<noteq> []" "0 < ttl" "ttl < ttl'"
  shows "map_of (snd (snd (deny True True now subject ttl s
      (snd (snd (deny True True now subject ttl' s table)))))) subject = Some (now + ttl)"
  using assms by (simp add: deny_def Let_def)

end
