(* ===== verification/TokenClaims.thy ===== *)
theory TokenClaims imports JsValue TextOps EnvFlag begin

text \<open>
  What brain reads from a verified token: the claim parsers of \<open>src/auth/claim-parsers.ts\<close> and
  the issuer and audience rules of \<open>src/auth/token-audience.ts\<close>.  Claims are untyped values;
  the regular expressions are tests on ASCII characters.
\<close>

section \<open>Charsets\<close>

definition in_range :: "char \<Rightarrow> char \<Rightarrow> char \<Rightarrow> bool" where
  "in_range lo hi c \<longleftrightarrow> (of_char lo :: nat) \<le> of_char c \<and> (of_char c :: nat) \<le> of_char hi"

definition lower :: "char \<Rightarrow> bool" where "lower = in_range (CHR ''a'') (CHR ''z'')"
definition upper_case :: "char \<Rightarrow> bool" where "upper_case = in_range (CHR ''A'') (CHR ''Z'')"
definition digit :: "char \<Rightarrow> bool" where "digit = in_range (CHR ''0'') (CHR ''9'')"

definition VALID_COMPANY_ID :: "string \<Rightarrow> bool" where
  "VALID_COMPANY_ID s \<longleftrightarrow> 1 \<le> length s \<and> length s \<le> 64 \<and>
     list_all (\<lambda>c. upper_case c \<or> lower c \<or> digit c \<or> c \<in> set ''_-'') s"

definition CIRCLE_ID_RE :: "string \<Rightarrow> bool" where
  "CIRCLE_ID_RE s \<longleftrightarrow> 1 \<le> length s \<and> length s \<le> 120 \<and>
     list_all (\<lambda>c. upper_case c \<or> lower c \<or> digit c \<or> c \<in> set ''._-'') s"

definition slug :: "string \<Rightarrow> nat \<Rightarrow> nat \<Rightarrow> string \<Rightarrow> bool" where
  "slug extra lo hi s \<longleftrightarrow>
     (case s of [] \<Rightarrow> False
      | c # r \<Rightarrow> lower c \<and> lo \<le> length r \<and> length r \<le> hi \<and>
          list_all (\<lambda>d. lower d \<or> digit d \<or> d \<in> set extra) r)"

definition VALID_POLICY_NAME :: "string \<Rightarrow> bool" where "VALID_POLICY_NAME = slug ''_-'' 1 63"
definition VALID_PACK_ID :: "string \<Rightarrow> bool" where "VALID_PACK_ID = slug ''_'' 1 63"
definition VALID_ENTITLEMENT :: "string \<Rightarrow> bool" where "VALID_ENTITLEMENT = slug ''_:-'' 1 63"
definition VALID_MCP_ACTION :: "string \<Rightarrow> bool" where "VALID_MCP_ACTION = slug ''_:.-'' 0 63"

definition VALID_ACTOR_ID :: "string \<Rightarrow> bool" where
  "VALID_ACTOR_ID s \<longleftrightarrow> 1 \<le> length s \<and> length s \<le> 200 \<and>
     list_all (\<lambda>c. upper_case c \<or> lower c \<or> digit c \<or> c \<in> set '':._-'') s"

definition MAX_USER_ID_LENGTH :: nat where "MAX_USER_ID_LENGTH = 200"
definition MAX_SCOPES :: nat where "MAX_SCOPES = 64"
definition MAX_POLICY_NAMES :: nat where "MAX_POLICY_NAMES = 8"
definition MAX_PACK_IDS :: nat where "MAX_PACK_IDS = 16"
definition MAX_ENTITLEMENTS :: nat where "MAX_ENTITLEMENTS = 16"
definition MAX_MCP_ACTIONS :: nat where "MAX_MCP_ACTIONS = 64"

section \<open>Claims\<close>

text \<open>\<open>s.split(/\s+/).filter(Boolean)\<close>.\<close>

fun ws_words_acc :: "string \<Rightarrow> string \<Rightarrow> string list" where
  "ws_words_acc cur [] = (if cur = [] then [] else [cur])"
| "ws_words_acc cur (c # s) =
     (if is_space c then (if cur = [] then [] else [cur]) @ ws_words_acc [] s
      else ws_words_acc (cur @ [c]) s)"

definition ws_words :: "string \<Rightarrow> string list" where
  "ws_words s = ws_words_acc [] s"

definition strings_of :: "jval list \<Rightarrow> string list" where
  "strings_of vs = List.map_filter (\<lambda>v. case v of JStr s \<Rightarrow> Some s | _ \<Rightarrow> None) vs"

record token_identity =
  ti_companyId :: string
  ti_userId :: "string option"

definition resolveTokenIdentity :: "jval \<Rightarrow> token_identity option" where
  "resolveTokenIdentity payload =
     (let sub = (case jget payload ''sub'' of JStr s \<Rightarrow> Some s | _ \<Rightarrow> None)
      in case jget payload ''org'' of
           JStr (c # org) \<Rightarrow>
             if \<not> VALID_COMPANY_ID (c # org) then None
             else if \<not> truthy_str sub \<or> length (the sub) > MAX_USER_ID_LENGTH then None
             else Some \<lparr>ti_companyId = c # org, ti_userId = sub\<rparr>
         | _ \<Rightarrow>
             if \<not> truthy_str sub \<or> \<not> VALID_COMPANY_ID (the sub) then None
             else Some \<lparr>ti_companyId = the sub, ti_userId = None\<rparr>)"

definition extractScopes :: "jval \<Rightarrow> string list" where
  "extractScopes payload =
     (case jget payload ''scopes'' of
        JArr xs \<Rightarrow> take MAX_SCOPES (strings_of xs)
      | _ \<Rightarrow> (case jget payload ''scope'' of
            JStr s \<Rightarrow> take MAX_SCOPES (ws_words s) | _ \<Rightarrow> []))"

definition stringList :: "jval \<Rightarrow> string list" where
  "stringList raw =
     (case raw of JArr xs \<Rightarrow> strings_of xs | JStr s \<Rightarrow> ws_words s | _ \<Rightarrow> [])"

definition extractPolicyNames :: "jval \<Rightarrow> string list" where
  "extractPolicyNames payload =
     take MAX_POLICY_NAMES (filter VALID_POLICY_NAME (stringList (jget payload ''policy'')))"

definition extractPackIds :: "jval \<Rightarrow> string list" where
  "extractPackIds payload =
     take MAX_PACK_IDS (filter VALID_PACK_ID (stringList (jget payload ''packs'')))"

definition extractEntitlements :: "jval \<Rightarrow> string list" where
  "extractEntitlements payload =
     (case jget payload ''entitlements'' of
        JArr xs \<Rightarrow> take MAX_ENTITLEMENTS (filter VALID_ENTITLEMENT (strings_of xs))
      | _ \<Rightarrow> [])"

definition nonempty_str :: "jval \<Rightarrow> string option" where
  "nonempty_str v = (case v of JStr (c # s) \<Rightarrow> Some (c # s) | _ \<Rightarrow> None)"

definition extractActorId :: "jval \<Rightarrow> string option" where
  "extractActorId payload =
     (let act = jget payload ''act'';
          fromAct = (if is_object act
                     then (case nonempty_str (jget act ''client_id'') of
                             Some c \<Rightarrow> Some c | None \<Rightarrow> nonempty_str (jget act ''sub''))
                     else None);
          top = (case jget payload ''client_id'' of
                   JStr c \<Rightarrow> if VALID_ACTOR_ID c then Some c else None | _ \<Rightarrow> None)
      in case fromAct of
           Some a \<Rightarrow> if VALID_ACTOR_ID a then Some a else top
         | None \<Rightarrow> top)"

definition MCP_DETAIL_TYPE :: string where
  "MCP_DETAIL_TYPE = ''inite_mcp_resource''"

text \<open>One trailing slash is removed.\<close>

definition normalizeUrl :: "string \<Rightarrow> string" where
  "normalizeUrl v = (if v \<noteq> [] \<and> last v = CHR ''/'' then butlast v else v)"

definition entry_locations :: "jval \<Rightarrow> string list" where
  "entry_locations entry =
     (case jget entry ''locations'' of JArr xs \<Rightarrow> strings_of xs | _ \<Rightarrow> [])"

definition entry_applies :: "string option \<Rightarrow> jval \<Rightarrow> bool" where
  "entry_applies here entry \<longleftrightarrow>
     entry_locations entry = [] \<or>
     (case here of None \<Rightarrow> False | Some h \<Rightarrow> h \<in> set (map normalizeUrl (entry_locations entry)))"

definition grant_action :: "string \<Rightarrow> string list \<Rightarrow> string list" where
  "grant_action action granted =
     (if VALID_MCP_ACTION action \<and> length granted < MAX_MCP_ACTIONS
      then (if action \<in> set granted then granted else granted @ [action]) else granted)"

definition grant_entry :: "string option \<Rightarrow> jval \<Rightarrow> string list \<Rightarrow> string list" where
  "grant_entry here entry granted =
     (if entry_applies here entry then fold grant_action (stringList (jget entry ''actions'')) granted
      else granted)"

definition mcp_entry :: "jval \<Rightarrow> bool" where
  "mcp_entry d \<longleftrightarrow> is_object d \<and> jget d ''type'' = JStr MCP_DETAIL_TYPE"

definition extractMcpGrantedActions :: "jval \<Rightarrow> string option \<Rightarrow> string list option" where
  "extractMcpGrantedActions payload deploymentUrl =
     (case jget payload ''authorization_details'' of
        JArr raw \<Rightarrow>
          let entries = filter mcp_entry raw;
              here = (if truthy_str deploymentUrl then map_option normalizeUrl deploymentUrl else None)
          in if entries = [] then None else Some (fold (grant_entry here) entries [])
      | _ \<Rightarrow> None)"

section \<open>Issuer and audience\<close>

fun comma_parts :: "string \<Rightarrow> string \<Rightarrow> string list" where
  "comma_parts cur [] = [cur]"
| "comma_parts cur (c # s) =
     (if c = CHR '','' then cur # comma_parts [] s else comma_parts (cur @ [c]) s)"

definition comma_list :: "string option \<Rightarrow> string list" where
  "comma_list raw =
     filter (\<lambda>v. v \<noteq> []) (map trim (comma_parts [] (case raw of None \<Rightarrow> [] | Some s \<Rightarrow> s)))"

definition withoutTrailingSlash :: "string \<Rightarrow> string" where
  "withoutTrailingSlash v = rev (dropWhile (\<lambda>c. c = CHR ''/'') (rev v))"

definition acceptedIssuers :: "string option \<Rightarrow> string list" where
  "acceptedIssuers raw =
     dedupe (concat (map (\<lambda>entry. let bare = withoutTrailingSlash entry
        in if bare = [] then [] else [bare, bare @ ''/'']) (comma_list raw)))"

definition acceptedAudiences :: "(string \<Rightarrow> string option) \<Rightarrow> string list" where
  "acceptedAudiences get =
     (let explicit = comma_list (get ''AUTH_SERVICE_AUDIENCES'')
      in if explicit \<noteq> [] then explicit
         else let vertical = (case get ''AUTH_SERVICE_AUDIENCE'' of Some v \<Rightarrow> v | None \<Rightarrow> ''brain'');
                  raw = get ''BRAIN_PUBLIC_URL'';
                  base = (if truthy_str raw then withoutTrailingSlash (the raw) else [])
              in filter (\<lambda>v. v \<noteq> [])
                   (dedupe (vertical # (if base \<noteq> [] then [base, base @ ''/mcp''] else []))))"

definition tenant_resource :: "string option \<Rightarrow> string \<Rightarrow> string option" where
  "tenant_resource publicUrl companyId =
     (if truthy_str publicUrl then Some (withoutTrailingSlash (the publicUrl) @ ''/mcp/'' @ companyId)
      else None)"

definition audienceAccepted ::
  "jval \<Rightarrow> string list \<Rightarrow> string option \<Rightarrow> string \<Rightarrow> bool" where
  "audienceAccepted aud accepted publicUrl companyId \<longleftrightarrow>
     (let vals = filter (\<lambda>a. a \<noteq> []) (strings_of (case aud of JArr xs \<Rightarrow> xs | v \<Rightarrow> [v]))
      in list_ex (\<lambda>a. a \<in> set accepted \<or> Some a = tenant_resource publicUrl companyId) vals)"

section \<open>Properties\<close>

lemma set_strings_of: "s \<in> set (strings_of vs) \<longleftrightarrow> JStr s \<in> set vs"
  by (induction vs) (auto simp: strings_of_def List.map_filter_simps split: jval.splits)

lemma grant_entry_inv:
  assumes "length g \<le> MAX_MCP_ACTIONS" "distinct g"
  shows "length (grant_entry here e g) \<le> MAX_MCP_ACTIONS \<and> distinct (grant_entry here e g) \<and>
    set (grant_entry here e g) \<subseteq> set g \<union>
      {a. entry_applies here e \<and> a \<in> set (stringList (jget e ''actions'')) \<and> VALID_MCP_ACTION a}"
proof -
  let ?as = "stringList (jget e ''actions'')"
  have "length (fold grant_action ?as g) \<le> MAX_MCP_ACTIONS \<and> distinct (fold grant_action ?as g) \<and>
      set (fold grant_action ?as g) \<subseteq> set g \<union> {a. a \<in> set ?as \<and> VALID_MCP_ACTION a}"
    by (rule fold_invariant [where Q = "\<lambda>a. a \<in> set ?as"])
      (use assms in \<open>auto simp: grant_action_def\<close>)
  with assms show ?thesis by (auto simp: grant_entry_def)
qed

text \<open>A token granted for another deployment yields nothing here: as soon as the claim carries a
  tool grant the gate is active, and every granted action is a well-formed name listed by an
  entry without locations or one whose locations name this deployment; at most 64, each
  once.\<close>

theorem mcp_grant_fail_closed:
  assumes "jget payload ''authorization_details'' = JArr raw" "\<exists>d \<in> set raw. mcp_entry d"
  shows "\<exists>granted. extractMcpGrantedActions payload url = Some granted \<and>
    length granted \<le> 64 \<and> distinct granted \<and>
    (\<forall>a \<in> set granted. VALID_MCP_ACTION a \<and> (\<exists>e \<in> set raw. mcp_entry e \<and>
       a \<in> set (stringList (jget e ''actions'')) \<and>
       (entry_locations e = [] \<or> (\<exists>u. url = Some u \<and> u \<noteq> [] \<and>
          normalizeUrl u \<in> normalizeUrl ` set (entry_locations e)))))"
proof -
  let ?entries = "filter mcp_entry raw"
  let ?here = "if truthy_str url then map_option normalizeUrl url else None"
  let ?ok = "\<lambda>a. VALID_MCP_ACTION a \<and> (\<exists>e \<in> set ?entries. entry_applies ?here e \<and>
      a \<in> set (stringList (jget e ''actions'')))"
  have "length (fold (grant_entry ?here) ?entries []) \<le> MAX_MCP_ACTIONS \<and>
      distinct (fold (grant_entry ?here) ?entries []) \<and>
      (\<forall>a \<in> set (fold (grant_entry ?here) ?entries []). ?ok a)"
  proof (rule fold_invariant [where Q = "\<lambda>e. e \<in> set ?entries"])
    fix e g
    assume e: "e \<in> set ?entries"
      and g: "length g \<le> MAX_MCP_ACTIONS \<and> distinct g \<and> (\<forall>a \<in> set g. ?ok a)"
    show "length (grant_entry ?here e g) \<le> MAX_MCP_ACTIONS \<and> distinct (grant_entry ?here e g) \<and>
        (\<forall>a \<in> set (grant_entry ?here e g). ?ok a)"
      using grant_entry_inv [of g ?here e] g e by blast
  qed auto
  moreover have "extractMcpGrantedActions payload url = Some (fold (grant_entry ?here) ?entries [])"
    using assms by (auto simp: extractMcpGrantedActions_def Let_def filter_empty_conv)
  moreover have "entry_locations e = [] \<or> (\<exists>u. url = Some u \<and> u \<noteq> [] \<and>
      normalizeUrl u \<in> normalizeUrl ` set (entry_locations e))" if "entry_applies ?here e" for e
    using that by (auto simp: entry_applies_def split: if_splits option.splits elim: truthy_strE)
  ultimately show ?thesis by (fastforce simp: MAX_MCP_ACTIONS_def)
qed

theorem mcp_grant_fail_closed_witness:
  "\<exists>granted. extractMcpGrantedActions
      (JObj [(''authorization_details'', JArr [JObj [(''type'', JStr ''inite_mcp_resource''),
         (''locations'', JArr [JStr ''https://other/'']), (''actions'', JStr ''search recall'')]])])
      (Some ''https://here'') = Some granted \<and> granted = []"
proof -
  let ?d = "JObj [(''type'', JStr ''inite_mcp_resource''),
         (''locations'', JArr [JStr ''https://other/'']), (''actions'', JStr ''search recall'')]"
  let ?p = "JObj [(''authorization_details'', JArr [?d])]"
  have "entry_locations ?d = [''https://other/'']"
    by (simp add: entry_locations_def strings_of_def List.map_filter_simps)
  moreover obtain g where "extractMcpGrantedActions ?p (Some ''https://here'') = Some g"
      "\<forall>a \<in> set g. VALID_MCP_ACTION a \<and> (\<exists>e \<in> set [?d]. mcp_entry e \<and>
         a \<in> set (stringList (jget e ''actions'')) \<and>
         (entry_locations e = [] \<or> (\<exists>u. Some ''https://here'' = Some u \<and> u \<noteq> [] \<and>
            normalizeUrl u \<in> normalizeUrl ` set (entry_locations e))))"
    using mcp_grant_fail_closed [of ?p "[?d]" "Some ''https://here''"]
    by (fastforce simp: mcp_entry_def MCP_DETAIL_TYPE_def)
  ultimately show ?thesis by (auto simp: normalizeUrl_def)
qed

text \<open>A token bound to one tenant's resource is accepted for that tenant only, unless the
  operator listed the resource itself.\<close>

theorem tenant_audience_bound:
  assumes "tenant \<noteq> companyId" "withoutTrailingSlash url @ ''/mcp/'' @ tenant \<notin> set accepted"
  shows "\<not> audienceAccepted (JStr (withoutTrailingSlash url @ ''/mcp/'' @ tenant)) accepted
    (Some url) companyId"
  using assms
  by (auto simp: audienceAccepted_def tenant_resource_def strings_of_def List.map_filter_simps)

theorem tenant_audience_bound_witness:
  "\<not> audienceAccepted (JStr (withoutTrailingSlash ''https://brain/'' @ ''/mcp/'' @ ''co_a''))
     [''brain'', ''https://brain''] (Some ''https://brain/'') ''co_b''"
  by (rule tenant_audience_bound) (simp_all add: withoutTrailingSlash_def)

text \<open>An identity always names a tenant in the identifier charset; it carries a user exactly
  when the token names the tenant as its organisation, and then the user is the token's subject
  within its length bound.\<close>

theorem token_identity_valid:
  assumes "resolveTokenIdentity payload = Some i"
  shows "VALID_COMPANY_ID (ti_companyId i) \<and>
    (case ti_userId i of
       Some u \<Rightarrow> jget payload ''org'' = JStr (ti_companyId i) \<and> jget payload ''sub'' = JStr u \<and>
         u \<noteq> [] \<and> length u \<le> 200
     | None \<Rightarrow> jget payload ''sub'' = JStr (ti_companyId i))"
  using assms
  by (auto simp: resolveTokenIdentity_def Let_def truthy_str_def MAX_USER_ID_LENGTH_def
      split: jval.splits list.splits if_splits option.splits)

theorem token_identity_valid_witness:
  "VALID_COMPANY_ID ''acme'' \<and>
    (case Some ''did:key:z6'' of
       Some u \<Rightarrow> jget (JObj [(''org'', JStr ''acme''), (''sub'', JStr ''did:key:z6'')]) ''org'' = JStr ''acme'' \<and>
         jget (JObj [(''org'', JStr ''acme''), (''sub'', JStr ''did:key:z6'')]) ''sub'' = JStr u \<and>
         u \<noteq> [] \<and> length u \<le> 200
     | None \<Rightarrow> jget (JObj [(''org'', JStr ''acme''), (''sub'', JStr ''did:key:z6'')]) ''sub'' = JStr ''acme'')"
  using token_identity_valid [of "JObj [(''org'', JStr ''acme''), (''sub'', JStr ''did:key:z6'')]"
      "\<lparr>ti_companyId = ''acme'', ti_userId = Some ''did:key:z6''\<rparr>"]
  by (simp add: resolveTokenIdentity_def VALID_COMPANY_ID_def lower_def in_range_def
      MAX_USER_ID_LENGTH_def)

end
