(* ===== verification/ParallelMap.thy ===== *)
theory ParallelMap imports Prelude begin

text \<open>
  The bounded parallel map every fan-out uses (\<open>src/common/parallel.ts\<close>).  A state holds the
  shared cursor, where each worker stands and the output array; the steps are the two points
  at which a worker runs between its awaits: taking the next index, and storing what the call
  for its index settled to.  \<open>res i\<close> is what the call for item \<open>i\<close> settles to, None when it
  throws.  Any interleaving of the workers is a history.
\<close>

datatype worker = WReady | WCalling nat | WReturned

record 'r limit_pool =
  pm_cursor :: nat
  pm_workers :: "worker list"
  pm_out :: "'r option list"
  pm_calls :: "nat list"   \<comment> \<open>the indices called, in order\<close>

text \<open>\<open>Math.max(1, Math.min(concurrency, items.length || 1))\<close>.\<close>

definition limit_cap :: "nat \<Rightarrow> nat \<Rightarrow> nat" where
  "limit_cap concurrency n = max 1 (min concurrency (if n = 0 then 1 else n))"

definition limit_init :: "nat \<Rightarrow> nat \<Rightarrow> 'r limit_pool" where
  "limit_init concurrency n =
     \<lparr>pm_cursor = 0, pm_workers = replicate (limit_cap concurrency n) WReady,
      pm_out = replicate n None, pm_calls = []\<rparr>"

definition worker_take :: "nat \<Rightarrow> nat \<Rightarrow> 'r limit_pool \<Rightarrow> 'r limit_pool" where
  "worker_take n w s =
     (let i = pm_cursor s; s1 = s\<lparr>pm_cursor := i + 1\<rparr>
      in if i \<ge> n then s1\<lparr>pm_workers := (pm_workers s)[w := WReturned]\<rparr>
         else s1\<lparr>pm_workers := (pm_workers s)[w := WCalling i], pm_calls := pm_calls s @ [i]\<rparr>)"

definition worker_settle :: "(nat \<Rightarrow> 'r option) \<Rightarrow> nat \<Rightarrow> nat \<Rightarrow> 'r limit_pool \<Rightarrow> 'r limit_pool" where
  "worker_settle res w i s =
     s\<lparr>pm_workers := (pm_workers s)[w := WReady], pm_out := (pm_out s)[i := res i]\<rparr>"

inductive limit_step :: "nat \<Rightarrow> (nat \<Rightarrow> 'r option) \<Rightarrow> 'r limit_pool \<Rightarrow> 'r limit_pool \<Rightarrow> bool" for n res where
  take: "w < length (pm_workers s) \<Longrightarrow> pm_workers s ! w = WReady \<Longrightarrow>
    limit_step n res s (worker_take n w s)"
| settle: "w < length (pm_workers s) \<Longrightarrow> pm_workers s ! w = WCalling i \<Longrightarrow>
    limit_step n res s (worker_settle res w i s)"

text \<open>\<open>Promise.all(workers)\<close> has resolved.\<close>

definition limit_done :: "'r limit_pool \<Rightarrow> bool" where
  "limit_done s \<longleftrightarrow> list_all (\<lambda>w. w = WReturned) (pm_workers s)"

fun flight :: "worker list \<Rightarrow> nat list" where
  "flight [] = []"
| "flight (WCalling i # ws) = i # flight ws"
| "flight (_ # ws) = flight ws"

abbreviation in_flight :: "'r limit_pool \<Rightarrow> nat list" where
  "in_flight s \<equiv> flight (pm_workers s)"

section \<open>The invariant\<close>

text \<open>The indices called are those below the cursor; each is in flight at one worker or stored.\<close>

definition limit_inv :: "nat \<Rightarrow> nat \<Rightarrow> (nat \<Rightarrow> 'r option) \<Rightarrow> 'r limit_pool \<Rightarrow> bool" where
  "limit_inv n cap res s \<longleftrightarrow>
     length (pm_workers s) = cap \<and> length (pm_out s) = n \<and>
     pm_calls s = [0..<min (pm_cursor s) n] \<and> distinct (in_flight s) \<and>
     set (in_flight s) \<subseteq> {0..<min (pm_cursor s) n} \<and>
     (\<forall>i < n. pm_out s ! i = (if i < pm_cursor s \<and> i \<notin> set (in_flight s) then res i else None)) \<and>
     (WReturned \<in> set (pm_workers s) \<longrightarrow> n \<le> pm_cursor s)"

lemma flight_append [simp]: "flight (xs @ ys) = flight xs @ flight ys"
  by (induction xs rule: flight.induct) auto

lemma flight_replicate [simp]: "flight (replicate k WReady) = []"
  by (induction k) auto

lemma length_flight_le: "length (flight ws) \<le> length ws"
  by (induction ws rule: flight.induct) auto

lemma flight_returned: "\<forall>w \<in> set ws. w = WReturned \<Longrightarrow> flight ws = []"
  by (induction ws rule: flight.induct) auto

lemma worker_split:
  assumes "w < length ws"
  obtains xs ys where "ws = xs @ ws ! w # ys" "w = length xs"
  using assms that [of "take w ws" "drop (Suc w) ws"] by (simp add: id_take_nth_drop [symmetric])

lemma limit_inv_init: "limit_inv n (limit_cap c n) res (limit_init c n)"
  by (auto simp: limit_inv_def limit_init_def)

lemma limit_inv_step:
  assumes "limit_step n res s s'" "limit_inv n cap res s"
  shows "limit_inv n cap res s'"
  using assms
proof (induction rule: limit_step.induct)
  case (take w s)
  obtain xs ys where ws: "pm_workers s = xs @ WReady # ys" "w = length xs"
    using worker_split [OF take.hyps(1)] take.hyps(2) by metis
  show ?case
  proof (cases "pm_cursor s < n")
    case True
    with take.prems have "pm_calls s @ [pm_cursor s] = [0..<min (Suc (pm_cursor s)) n]"
      by (simp add: limit_inv_def)
    with True take.prems show ?thesis
      by (auto simp: limit_inv_def worker_take_def ws Let_def less_Suc_eq)
  next
    case False
    with take.prems show ?thesis
      by (auto simp: limit_inv_def worker_take_def ws Let_def)
  qed
next
  case (settle w s i)
  obtain xs ys where ws: "pm_workers s = xs @ WCalling i # ys" "w = length xs"
    using worker_split [OF settle.hyps(1)] settle.hyps(2) by metis
  have "i < n" "i < pm_cursor s" "i \<notin> set (flight xs)" "i \<notin> set (flight ys)"
    using settle.prems by (auto simp: limit_inv_def ws)
  with settle.prems show ?case
    by (auto simp: limit_inv_def worker_settle_def ws nth_list_update)
qed

section \<open>Every history ends\<close>

fun worker_work :: "worker \<Rightarrow> nat" where
  "worker_work WReady = 1"
| "worker_work (WCalling _) = 2"
| "worker_work WReturned = 0"

definition limit_work :: "nat \<Rightarrow> 'r limit_pool \<Rightarrow> nat" where
  "limit_work n s = 3 * (n - pm_cursor s) + sum_list (map worker_work (pm_workers s))"

lemma limit_step_work: "limit_step n res s s' \<Longrightarrow> limit_work n s' < limit_work n s"
proof (induction rule: limit_step.induct)
  case (take w s)
  obtain xs ys where ws: "pm_workers s = xs @ WReady # ys" "w = length xs"
    using worker_split [OF take.hyps(1)] take.hyps(2) by metis
  then show ?case by (auto simp: limit_work_def worker_take_def Let_def)
next
  case (settle w s i)
  obtain xs ys where ws: "pm_workers s = xs @ WCalling i # ys" "w = length xs"
    using worker_split [OF settle.hyps(1)] settle.hyps(2) by metis
  then show ?case by (simp add: limit_work_def worker_settle_def)
qed

lemma limit_progress: "\<not> limit_done s \<Longrightarrow> \<exists>s'. limit_step n res s s'"
proof -
  assume "\<not> limit_done s"
  then obtain w where w: "w < length (pm_workers s)" "pm_workers s ! w \<noteq> WReturned"
    by (auto simp: limit_done_def list_all_length)
  then show ?thesis
    by (cases "pm_workers s ! w") (auto intro: limit_step.intros)
qed

interpretation limited: state_machine "limit_step n res" "limit_inv n cap res"
  by unfold_locales (rule limit_inv_step)

section \<open>Properties\<close>

text \<open>At any moment at most the cap's number of calls is in flight, for different items, and
  no item has been called twice.\<close>

theorem parallel_map_bounded:
  assumes "(limit_step n res)\<^sup>*\<^sup>* (limit_init c n) s"
  shows "length (in_flight s) \<le> max 1 c \<and> distinct (in_flight s) \<and> distinct (pm_calls s) \<and>
    set (pm_calls s) \<subseteq> {0..<n}"
proof -
  have inv: "limit_inv n (limit_cap c n) res s"
    by (rule limited.inv_steps [OF assms limit_inv_init])
  then have "length (in_flight s) \<le> limit_cap c n"
    using length_flight_le [of "pm_workers s"] by (simp add: limit_inv_def)
  also have "\<dots> \<le> max 1 c" by (auto simp: limit_cap_def)
  finally show ?thesis using inv by (auto simp: limit_inv_def)
qed

text \<open>Every history ends, and when it cannot go on all workers have returned and the output is
  the plain map of the calls over the items in input order, with null where a call threw; no
  history is longer than three steps an item and one a worker.\<close>

theorem parallel_map_is_map:
  assumes "(limit_step n res ^^ k) (limit_init c n) s"
  shows "k \<le> 3 * n + limit_cap c n \<and>
    (\<not> (\<exists>s'. limit_step n res s s') \<longleftrightarrow> limit_done s) \<and>
    (limit_done s \<longrightarrow> pm_out s = map res [0..<n] \<and> pm_calls s = [0..<n])"
proof -
  have "limit_work n s + k \<le> limit_work n (limit_init c n :: 'a limit_pool)"
    using assms
  proof (induction k arbitrary: s)
    case (Suc k)
    then obtain t where "(limit_step n res ^^ k) (limit_init c n) t" "limit_step n res t s"
      by (auto elim: relpowp_Suc_E)
    with Suc.IH limit_step_work [of n res t s] show ?case by fastforce
  qed simp
  moreover have "limit_work n (limit_init c n :: 'a limit_pool) = 3 * n + limit_cap c n"
    by (simp add: limit_work_def limit_init_def sum_list_replicate)
  ultimately have bound: "k \<le> 3 * n + limit_cap c n" by simp
  have inv: "limit_inv n (limit_cap c n) res s"
    by (rule limited.inv_steps [OF relpowp_imp_rtranclp [OF assms] limit_inv_init])
  have stuck: "\<not> limit_step n res s s'" if "limit_done s" for s'
    using that by (auto simp: limit_done_def list_all_length elim!: limit_step.cases)
  have final: "pm_out s = map res [0..<n] \<and> pm_calls s = [0..<n]" if "limit_done s"
  proof -
    have all: "\<forall>w \<in> set (pm_workers s). w = WReturned"
      using that by (simp add: limit_done_def list_all_iff)
    then have "in_flight s = []" by (rule flight_returned)
    moreover have "pm_workers s \<noteq> []"
      using inv by (auto simp: limit_inv_def limit_cap_def)
    then have "WReturned \<in> set (pm_workers s)"
      using all by (metis list.set_sel(1))
    then have "n \<le> pm_cursor s" using inv by (simp add: limit_inv_def)
    ultimately show ?thesis
      using inv by (auto simp: limit_inv_def intro!: nth_equalityI)
  qed
  show ?thesis using bound stuck final limit_progress [of s n res] by blast
qed

text \<open>One worker, one item whose call throws.\<close>

definition ex_final :: "nat limit_pool" where
  "ex_final = \<lparr>pm_cursor = 2, pm_workers = [WReturned], pm_out = [None], pm_calls = [0]\<rparr>"

lemma ex_limit_history: "(limit_step 1 (\<lambda>_. None) ^^ 3) (limit_init 4 1) ex_final"
proof -
  let ?step = "limit_step 1 (\<lambda>_. None :: nat option)"
  let ?s1 = "\<lparr>pm_cursor = 1, pm_workers = [WCalling 0], pm_out = [None], pm_calls = [0]\<rparr> :: nat limit_pool"
  let ?s2 = "\<lparr>pm_cursor = 1, pm_workers = [WReady], pm_out = [None], pm_calls = [0]\<rparr> :: nat limit_pool"
  have "?step (limit_init 4 1) (worker_take 1 0 (limit_init 4 1))"
    by (rule limit_step.take) (simp_all add: limit_init_def limit_cap_def)
  then have 1: "?step (limit_init 4 1) ?s1"
    by (simp add: worker_take_def limit_init_def limit_cap_def)
  have "?step ?s1 (worker_settle (\<lambda>_. None) 0 0 ?s1)"
    by (rule limit_step.settle) simp_all
  then have 2: "?step ?s1 ?s2" by (simp add: worker_settle_def)
  have "?step ?s2 (worker_take 1 0 ?s2)"
    by (rule limit_step.take) simp_all
  then have 3: "?step ?s2 ex_final" by (simp add: worker_take_def ex_final_def numeral_2_eq_2)
  show ?thesis
    using 1 2 3 by (auto simp: numeral_3_eq_3 intro!: relcomppI)
qed

theorem parallel_map_is_map_witness:
  "limit_done ex_final \<and> pm_out ex_final = map (\<lambda>_. None) [0..<1] \<and> pm_calls ex_final = [0..<1]"
proof -
  have "limit_done ex_final" by (simp add: limit_done_def ex_final_def)
  then show ?thesis using parallel_map_is_map [OF ex_limit_history] by blast
qed

theorem parallel_map_bounded_witness:
  "length (in_flight ex_final) \<le> max 1 4 \<and> distinct (in_flight ex_final) \<and>
    distinct (pm_calls ex_final) \<and> set (pm_calls ex_final) \<subseteq> {0..<1}"
  by (rule parallel_map_bounded [OF relpowp_imp_rtranclp [OF ex_limit_history]])

end
