(* ===== verification/ReapSweep.thy ===== *)
theory ReapSweep imports JobQueue LeaderLease begin

text \<open>
  The timer-driven housekeeping of the queue: the sweep over every tenant
  (\<open>src/jobs/job-reaper.service.ts\<close>) and the tick that decides whether this process runs it
  (\<open>src/jobs/lease-manager.service.ts\<close>).  The sweep reaps tenants in parallel, each on its own
  table; counting is the same in any order.  A tick is three steps, split at its two awaits:
  the checks before the lease is asked for, the lease's answer, and the end of the sweep.
\<close>

section \<open>The sweep\<close>

record sweep_result =
  sr_requeued :: nat
  sr_failed :: nat
  sr_tenants :: nat
  sr_errored :: nat

text \<open>\<open>up c\<close>: tenant \<open>c\<close>'s database answers.\<close>

definition reap ::
    "(string \<Rightarrow> bool) \<Rightarrow> nat \<Rightarrow> nat \<Rightarrow> (job_row \<Rightarrow> rat) \<Rightarrow> int \<Rightarrow> string list \<Rightarrow>
     (string \<Rightarrow> job_table) \<Rightarrow> sweep_result \<times> (string \<Rightarrow> job_table)" where
  "reap up maxAttempts baseMs jitter now roster tables =
     (let run = (\<lambda>c. reapZombies (up c) maxAttempts baseMs jitter now (tables c))
      in (\<lparr>sr_requeued = sum_list (map (\<lambda>c. rr_requeued (fst (run c))) roster),
           sr_failed = sum_list (map (\<lambda>c. rr_failed (fst (run c))) roster),
           sr_tenants = length roster,
           sr_errored = length (filter (\<lambda>c. rr_errored (fst (run c))) roster)\<rparr>,
          \<lambda>c. if c \<in> set roster then snd (run c) else tables c))"

section \<open>The tick\<close>

text \<open>The process: whether the timer is enabled, the flag against overlapping sweeps, the ticks
  waiting for the lease's answer and the sweeps running.\<close>

record ticker =
  tk_enabled :: bool
  tk_reapInFlight :: bool
  tk_waiting :: nat
  tk_sweeping :: nat

definition LEASE_MANAGER_TTL_MS :: int where
  "LEASE_MANAGER_TTL_MS = 60000"

text \<open>\<open>acquireLease\<close>: without a lease service the process is its own leader; a failing service
  makes it a follower.\<close>

definition acquireLease ::
    "bool \<Rightarrow> bool \<Rightarrow> string \<Rightarrow> int \<Rightarrow> lease_table \<Rightarrow> bool \<times> lease_table" where
  "acquireLease wired up me now leases =
     (if \<not> wired then (True, leases)
      else tryAcquire up me ''lease_manager_cron'' (now + LEASE_MANAGER_TTL_MS) now leases)"

definition tick_begins :: "ticker \<Rightarrow> ticker option" where
  "tick_begins t =
     (if \<not> tk_enabled t then None
      else if tk_reapInFlight t then None
      else Some (t\<lparr>tk_waiting := tk_waiting t + 1\<rparr>))"

definition tick_answered :: "bool \<Rightarrow> ticker \<Rightarrow> ticker" where
  "tick_answered isLeader t =
     (let t1 = t\<lparr>tk_waiting := tk_waiting t - 1\<rparr>
      in if \<not> isLeader then t1
         else t1\<lparr>tk_reapInFlight := True, tk_sweeping := tk_sweeping t + 1\<rparr>)"

definition tick_ends :: "ticker \<Rightarrow> ticker" where
  "tick_ends t = t\<lparr>tk_reapInFlight := False, tk_sweeping := tk_sweeping t - 1\<rparr>"

inductive tick_step :: "ticker \<Rightarrow> ticker \<Rightarrow> bool" where
  begins: "tick_begins t = Some t' \<Longrightarrow> tick_step t t'"
| answered: "tk_waiting t > 0 \<Longrightarrow> tick_step t (tick_answered isLeader t)"
| ends: "tk_sweeping t > 0 \<Longrightarrow> tick_step t (tick_ends t)"

text \<open>The same ticks when the timer fires only after the previous tick's lease was answered.\<close>

inductive paced_step :: "ticker \<Rightarrow> ticker \<Rightarrow> bool" where
  begins: "tk_waiting t = 0 \<Longrightarrow> tick_begins t = Some t' \<Longrightarrow> paced_step t t'"
| answered: "tk_waiting t > 0 \<Longrightarrow> paced_step t (tick_answered isLeader t)"
| ends: "tk_sweeping t > 0 \<Longrightarrow> paced_step t (tick_ends t)"

definition idle_ticker :: ticker where
  "idle_ticker = \<lparr>tk_enabled = True, tk_reapInFlight = False, tk_waiting = 0, tk_sweeping = 0\<rparr>"

definition one_sweep :: "ticker \<Rightarrow> bool" where
  "one_sweep t \<longleftrightarrow> tk_sweeping t + tk_waiting t \<le> 1 \<and> (tk_reapInFlight t \<longleftrightarrow> tk_sweeping t = 1)"

interpretation paced: state_machine paced_step one_sweep
  by unfold_locales
    (auto simp: one_sweep_def tick_begins_def tick_answered_def tick_ends_def Let_def
      elim!: paced_step.cases split: if_splits)

section \<open>Properties\<close>

lemma reaped_row_not_lapsed:
  assumes "jr_id r \<in> ids"
  shows "\<not> lapsed now (reap_row ids m b j now r)"
  using assms by (auto simp: reap_row_def reap_requeue_def reap_abandon_def lapsed_def)

lemma reap_one_clears:
  assumes "length (filter (lapsed now) tbl) \<le> REAP_LIMIT" "r \<in> set (snd (reapZombies True m b j now tbl))"
  shows "\<not> lapsed now r"
proof -
  have "snd (reapZombies True m b j now tbl) = map (reap_row (reap_ids now tbl) m b j now) tbl"
    using reap_table [of m b j now tbl] by (auto simp: reapZombies_def split: prod.splits)
  with assms(2) obtain q where q: "q \<in> set tbl" "r = reap_row (reap_ids now tbl) m b j now q"
    by auto
  show ?thesis
  proof (cases "lapsed now q")
    case True
    with q(1) assms(1) have "jr_id q \<in> reap_ids now tbl" by (simp add: reap_ids_def)
    with q(2) show ?thesis by (simp add: reaped_row_not_lapsed)
  next
    case False
    with q(2) show ?thesis by (simp add: reap_row_def)
  qed
qed

text \<open>A sweep leaves no abandoned claim behind: every tenant on the roster whose database
  answers and whose backlog fits one batch has no lapsed row afterwards, tenants off the roster
  are untouched, and the sweep reports exactly the tenants it could not act on, whose tables it
  left as they were.\<close>

theorem sweep_clears_zombies:
  assumes "reap up m b j now roster tables = (res, tables')" "distinct roster"
    and "\<forall>c \<in> set roster. length (filter (lapsed now) (tables c)) \<le> REAP_LIMIT"
  shows "(\<forall>c \<in> set roster. up c \<longrightarrow> list_all (\<lambda>r. \<not> lapsed now r) (tables' c)) \<and>
    (\<forall>c. c \<notin> set roster \<or> \<not> up c \<longrightarrow> tables' c = tables c) \<and>
    sr_errored res = card {c \<in> set roster. \<not> up c}"
proof -
  have t: "tables' = (\<lambda>c. if c \<in> set roster then snd (reapZombies (up c) m b j now (tables c)) else tables c)"
    "sr_errored res = length (filter (\<lambda>c. rr_errored (fst (reapZombies (up c) m b j now (tables c)))) roster)"
    using assms(1) by (auto simp: reap_def Let_def)
  have err: "rr_errored (fst (reapZombies (up c) m b j now (tables c))) \<longleftrightarrow> \<not> up c" for c
    by (auto simp: reapZombies_def split: prod.splits)
  have down: "snd (reapZombies False m b j now tbl) = tbl" for tbl
    by (simp add: reapZombies_def)
  have "length (filter (\<lambda>c. \<not> up c) roster) = card {c \<in> set roster. \<not> up c}"
    using distinct_card [OF distinct_filter [OF assms(2)], of "\<lambda>c. \<not> up c"] by simp
  then have "sr_errored res = card {c \<in> set roster. \<not> up c}"
    unfolding t(2) err .
  moreover have "list_all (\<lambda>r. \<not> lapsed now r) (tables' c)" if "c \<in> set roster" "up c" for c
    using reap_one_clears [of now "tables c" _ m b j] assms(3) that t(1) by (simp add: list_all_iff)
  moreover have "tables' c = tables c" if "c \<notin> set roster \<or> \<not> up c" for c
    using that t(1) down by auto
  ultimately show ?thesis by blast
qed

theorem sweep_clears_zombies_witness:
  "\<exists>res tables'. reap (\<lambda>c. c = ''a'') 3 1000 (\<lambda>_. 0) 100 [''a'', ''b''] (\<lambda>_. []) = (res, tables') \<and>
    sr_errored res = 1"
proof -
  obtain res tables' where r: "reap (\<lambda>c. c = ''a'') 3 1000 (\<lambda>_. 0) 100 [''a'', ''b''] (\<lambda>_. []) = (res, tables')"
    by force
  have "sr_errored res = card {c \<in> set [''a'', ''b'']. \<not> c = ''a''}"
    using sweep_clears_zombies [OF r] by simp
  also have "{c \<in> set [''a'', ''b'']. \<not> c = ''a''} = {''b''}" by auto
  finally show ?thesis using r by auto
qed

text \<open>When the lease answers before the next timer fires, at most one sweep runs at a time.\<close>

lemma paced_ticks_never_overlap:
  "paced_step\<^sup>*\<^sup>* idle_ticker t \<Longrightarrow> tk_sweeping t \<le> 1"
  using paced.inv_steps [of idle_ticker t] by (simp add: one_sweep_def idle_ticker_def)

text \<open>The flag is tested before the lease is asked for and set after it answered, so two ticks
  that wait for a slow lease both go on to sweep.\<close>

lemma slow_lease_overlaps_sweeps:
  "\<exists>t. tick_step\<^sup>*\<^sup>* idle_ticker t \<and> tk_sweeping t = 2"
proof -
  let ?t = "\<lambda>f w s. \<lparr>tk_enabled = True, tk_reapInFlight = f, tk_waiting = w, tk_sweeping = s\<rparr>"
  have 1: "tick_step (?t False w 0) (?t False (Suc w) 0)" for w
    by (rule tick_step.begins) (simp add: tick_begins_def)
  have 2: "tick_step (?t f (Suc w) s) (?t True w (Suc s))" for f w s
    using tick_step.answered [of "?t f (Suc w) s" True] by (simp add: tick_answered_def)
  have "tick_step\<^sup>*\<^sup>* (?t False 0 0) (?t True 0 2)"
    using 1 [of 0] 1 [of 1] 2 [of False 1 0] 2 [of True 0 1]
    by (simp add: numeral_2_eq_2)
  then show ?thesis by (intro exI [of _ "?t True 0 2"]) (simp add: idle_ticker_def)
qed

end
