(* ===== verification/SourceVersion.thy ===== *)
theory SourceVersion imports JsValue EnvFlag TextOps begin

text \<open>
  The stamp that ties a claim to a revision of an external system of record
  (\<open>src/common/source-version.ts\<close>), and the whitespace folding of the ingest modules.  The
  reading of a date and its ISO form are one argument \<open>toISO\<close>: \<open>new Date(s).toISOString()\<close>, None
  where \<open>Date.parse(s)\<close> is not finite.
\<close>

section \<open>Whitespace\<close>

text \<open>\<open>s.replace(/\s+/g, ' ')\<close>.\<close>

fun collapse_from :: "bool \<Rightarrow> string \<Rightarrow> string" where
  "collapse_from inside [] = []"
| "collapse_from inside (c # s) =
     (if is_space c then (if inside then collapse_from True s else CHR 0x20 # collapse_from True s)
      else c # collapse_from False s)"

definition collapse_ws :: "string \<Rightarrow> string" where
  "collapse_ws s = collapse_from False s"

section \<open>The stamp\<close>

record source_stamp =
  sv_system :: string
  sv_ref :: string
  sv_version :: string
  sv_readAt :: string

definition SOURCE_VERSION_MAX_REF :: nat where "SOURCE_VERSION_MAX_REF = 200"
definition SOURCE_VERSION_MAX_VERSION :: nat where "SOURCE_VERSION_MAX_VERSION = 200"

definition low_letter :: "char \<Rightarrow> bool" where
  "low_letter c \<longleftrightarrow> 97 \<le> (of_char c :: nat) \<and> (of_char c :: nat) \<le> 122"

definition low_token_char :: "char \<Rightarrow> bool" where
  "low_token_char c \<longleftrightarrow> low_letter c \<or> (48 \<le> (of_char c :: nat) \<and> (of_char c :: nat) \<le> 57) \<or> c = CHR ''_''"

definition SYSTEM_TOKEN :: "string \<Rightarrow> bool" where
  "SYSTEM_TOKEN s \<longleftrightarrow>
     (case s of [] \<Rightarrow> False
      | c # cs \<Rightarrow> low_letter c \<and> 1 \<le> length cs \<and> length cs \<le> 31 \<and> list_all low_token_char cs)"

datatype stamp_error = NotAnObject | BadSystem | BadRef | BadVersion | BadReadAt

definition text_opt :: "jval \<Rightarrow> string option" where
  "text_opt v = (case v of JStr s \<Rightarrow> Some s | _ \<Rightarrow> None)"

definition is_record :: "jval \<Rightarrow> bool" where
  "is_record v \<longleftrightarrow> (case v of JObj _ \<Rightarrow> True | _ \<Rightarrow> False)"

lemma text_opt_simps [simp]:
  "text_opt (JStr s) = Some s" "text_opt JUndef = None" "text_opt JNull = None" "text_opt JOther = None"
  "text_opt (JObj kvs) = None" "text_opt (JArr xs) = None" "text_opt (JNum n) = None"
  "text_opt (JBool b) = None"
  by (simp_all add: text_opt_def)

lemma is_record_JObj [simp]: "is_record (JObj kvs)"
  by (simp add: is_record_def)

definition boundedText :: "jval \<Rightarrow> nat \<Rightarrow> string option" where
  "boundedText v n =
     (case text_opt v of
        None \<Rightarrow> None
      | Some s \<Rightarrow> (let t = trim s in if t = [] \<or> n < length t then None else Some t))"

definition parseSourceVersionStamp ::
  "(string \<Rightarrow> string option) \<Rightarrow> jval \<Rightarrow> stamp_error + source_stamp" where
  "parseSourceVersionStamp toISO raw =
     (if \<not> is_record raw then Inl NotAnObject
      else case text_opt (jget raw ''system'') of
        None \<Rightarrow> Inl BadSystem
      | Some system \<Rightarrow>
          if \<not> SYSTEM_TOKEN system then Inl BadSystem
          else (case boundedText (jget raw ''ref'') SOURCE_VERSION_MAX_REF of
             None \<Rightarrow> Inl BadRef
           | Some ref \<Rightarrow>
               (case boundedText (jget raw ''version'') SOURCE_VERSION_MAX_VERSION of
                  None \<Rightarrow> Inl BadVersion
                | Some version \<Rightarrow>
                    (case Option.bind (text_opt (jget raw ''readAt'')) toISO of
                       None \<Rightarrow> Inl BadReadAt
                     | Some readAt \<Rightarrow>
                         Inr \<lparr>sv_system = system, sv_ref = ref, sv_version = version,
                              sv_readAt = readAt\<rparr>))))"

definition readSourceVersionStamp :: "(string \<Rightarrow> string option) \<Rightarrow> jval \<Rightarrow> source_stamp option" where
  "readSourceVersionStamp toISO raw =
     (case parseSourceVersionStamp toISO raw of Inl _ \<Rightarrow> None | Inr stamp \<Rightarrow> Some stamp)"

definition sameSourceLine :: "source_stamp \<Rightarrow> source_stamp \<Rightarrow> bool" where
  "sameSourceLine a b \<longleftrightarrow> sv_system a = sv_system b \<and> sv_ref a = sv_ref b"

text \<open>A stamp as it is stored.\<close>

definition stamp_value :: "source_stamp \<Rightarrow> jval" where
  "stamp_value s = JObj [(''system'', JStr (sv_system s)), (''ref'', JStr (sv_ref s)),
     (''version'', JStr (sv_version s)), (''readAt'', JStr (sv_readAt s))]"

lemma dropWhile_rev_trim: "dropWhile P xs = xs \<Longrightarrow> dropWhile P (rev (dropWhile P (rev xs))) = rev (dropWhile P (rev xs))"
proof -
  assume a: "dropWhile P xs = xs"
  show ?thesis
  proof (cases xs)
    case (Cons x ys)
    with a have "\<not> P x" by (metis dropWhile_eq_Cons_conv)
    then have "rev (dropWhile P (rev xs)) = x # rev (dropWhile P (rev ys))"
      using Cons by (simp add: dropWhile_append)
    with \<open>\<not> P x\<close> show ?thesis by simp
  qed simp
qed

lemma trim_trim [simp]: "trim (trim s) = trim s"
proof -
  have "dropWhile is_space (trim s) = trim s"
    unfolding trim_def by (rule dropWhile_rev_trim) simp
  then show ?thesis by (simp add: trim_def)
qed

lemma boundedText_again: "boundedText v n = Some t \<Longrightarrow> boundedText (JStr t) n = Some t"
  by (auto simp: boundedText_def Let_def split: option.splits if_splits)

text \<open>A stamp read once is read back unchanged from where it was stored, so re-checking it on the
  way out of storage loses nothing.\<close>

lemma stamp_survives_storage:
  assumes "\<And>s t. toISO s = Some t \<Longrightarrow> toISO t = Some t" "readSourceVersionStamp toISO raw = Some stamp"
  shows "readSourceVersionStamp toISO (stamp_value stamp) = Some stamp"
proof -
  from assms(2) have "parseSourceVersionStamp toISO raw = Inr stamp"
    by (auto simp: readSourceVersionStamp_def split: sum.splits)
  then obtain t where "SYSTEM_TOKEN (sv_system stamp)"
    "boundedText (jget raw ''ref'') SOURCE_VERSION_MAX_REF = Some (sv_ref stamp)"
    "boundedText (jget raw ''version'') SOURCE_VERSION_MAX_VERSION = Some (sv_version stamp)"
    "toISO t = Some (sv_readAt stamp)"
    unfolding parseSourceVersionStamp_def
    by (auto split: if_splits option.splits simp: bind_eq_Some_conv)
  with assms(1) show ?thesis
    by (simp add: readSourceVersionStamp_def parseSourceVersionStamp_def stamp_value_def boundedText_again)
qed

end
