(* ===== verification/AliasUnion.thy ===== *)
theory AliasUnion imports Prelude begin

text \<open>
  The union-find over aliases of \<open>src/documents/candidate-merge.ts\<close> (\<open>AliasUnionFind\<close>): a map
  from an alias to its parent, roots found by following parents with path compression, and the
  smaller root kept at a union.  The two loops of \<open>find\<close> are partial functions, with the value
  None for a run that does not return; \<open>uf_ok\<close> is the shape in which they always return.

  The contract \<open>alias_classes\<close> is what the merge of candidates relies on: after any sequence of
  declarations \<open>find\<close> answers with the smallest alias connected to its argument.
\<close>

section \<open>The class\<close>

definition uf_add :: "'a \<Rightarrow> ('a \<times> 'a) list \<Rightarrow> ('a \<times> 'a) list" where
  "uf_add x p = (if map_of p x = None then AList.update x x p else p)"

partial_function (option) uf_root :: "('a \<times> 'a) list \<Rightarrow> 'a \<Rightarrow> 'a option" where
  [code]: "uf_root p x =
     (case map_of p x of None \<Rightarrow> None | Some y \<Rightarrow> if y = x then Some x else uf_root p y)"

partial_function (option) uf_compress ::
  "('a \<times> 'a) list \<Rightarrow> 'a \<Rightarrow> 'a \<Rightarrow> ('a \<times> 'a) list option" where
  [code]: "uf_compress p r cur =
     (case map_of p cur of None \<Rightarrow> None
      | Some next \<Rightarrow> if next = r then Some p else uf_compress (AList.update cur r p) r next)"

definition uf_find :: "'a \<Rightarrow> ('a \<times> 'a) list \<Rightarrow> ('a \<times> ('a \<times> 'a) list) option" where
  "uf_find x p =
     (let p1 = uf_add x p
      in case uf_root p1 x of None \<Rightarrow> None
         | Some r \<Rightarrow> map_option (Pair r) (uf_compress p1 r x))"

definition uf_union :: "'a::linorder \<Rightarrow> 'a \<Rightarrow> ('a \<times> 'a) list \<Rightarrow> ('a \<times> 'a) list option" where
  "uf_union a b p =
     (case uf_find a (uf_add b (uf_add a p)) of None \<Rightarrow> None
      | Some (ra, p1) \<Rightarrow>
          (case uf_find b p1 of None \<Rightarrow> None
           | Some (rb, p2) \<Rightarrow>
               Some (if ra = rb then p2
                     else if ra < rb then AList.update rb ra p2 else AList.update ra rb p2)))"

text \<open>An alias united with each of several others, in order.\<close>

fun link_all :: "('a \<Rightarrow> 'a \<Rightarrow> 's \<Rightarrow> 's option) \<Rightarrow> 'a \<Rightarrow> 'a list \<Rightarrow> 's \<Rightarrow> 's option" where
  "link_all unite x [] p = Some p"
| "link_all unite x (y # ys) p =
     (case unite x y p of None \<Rightarrow> None | Some p' \<Rightarrow> link_all unite x ys p')"

section \<open>The contract\<close>

definition linked :: "('a \<times> 'a) set \<Rightarrow> 'a \<Rightarrow> 'a \<Rightarrow> bool" where
  "linked links x y \<longleftrightarrow> (x, y) \<in> (links \<union> links\<inverse>)\<^sup>*"

lemma linked_refl [simp]: "linked links x x"
  by (simp add: linked_def)

lemma linked_sym: "linked links x y \<Longrightarrow> linked links y x"
proof -
  assume "linked links x y"
  then have "(y, x) \<in> ((links \<union> links\<inverse>)\<^sup>*)\<inverse>" by (simp add: linked_def)
  then show ?thesis by (simp add: linked_def rtrancl_converse [symmetric] converse_Un Un_commute)
qed

lemma linked_trans: "linked links x y \<Longrightarrow> linked links y z \<Longrightarrow> linked links x z"
  unfolding linked_def by (rule rtrancl_trans)

lemma linked_mono: "linked links x y \<Longrightarrow> links \<subseteq> links' \<Longrightarrow> linked links' x y"
  unfolding linked_def by (erule rtrancl_mono [THEN subsetD, rotated]) auto

lemma linked_insert:
  "linked (insert (a, b) links) x y \<longleftrightarrow>
     linked links x y \<or> linked links x a \<and> linked links b y \<or>
     linked links x b \<and> linked links a y" (is "?l \<longleftrightarrow> ?r")
proof
  have step: "linked (insert (a, b) links) a b"
    by (auto simp: linked_def)
  assume ?r
  with step linked_sym [OF step] show ?l
    by (meson linked_mono linked_trans subset_insertI)
next
  let ?s = "links \<union> links\<inverse>"
  have flip: "insert (a, b) links \<union> (insert (a, b) links)\<inverse> = insert (a, b) (insert (b, a) ?s)"
    by auto
  assume ?l
  then have "(x, y) \<in> (insert (a, b) (insert (b, a) ?s))\<^sup>*"
    unfolding linked_def flip .
  then show ?r
    unfolding linked_def rtrancl_insert
    by (auto intro: rtrancl_trans)
qed

definition alias_class :: "'a set \<Rightarrow> ('a \<times> 'a) set \<Rightarrow> 'a \<Rightarrow> 'a set" where
  "alias_class known links x = {y \<in> known. linked links x y}"

locale alias_classes =
  fixes repr :: "'a::linorder set \<Rightarrow> ('a \<times> 'a) set \<Rightarrow> 's \<Rightarrow> bool"
    and add :: "'a \<Rightarrow> 's \<Rightarrow> 's"
    and unite :: "'a \<Rightarrow> 'a \<Rightarrow> 's \<Rightarrow> 's option"
    and find :: "'a \<Rightarrow> 's \<Rightarrow> ('a \<times> 's) option"
  assumes repr_finite: "repr known links p \<Longrightarrow> finite known"
    and repr_add: "repr known links p \<Longrightarrow> repr (insert x known) links (add x p)"
    and repr_union: "repr known links p \<Longrightarrow>
      \<exists>p'. unite x y p = Some p' \<and> repr (known \<union> {x, y}) (insert (x, y) links) p'"
    and repr_find: "repr known links p \<Longrightarrow>
      \<exists>p'. find x p = Some (Min (alias_class (insert x known) links x), p') \<and>
        repr (insert x known) links p'"
begin

text \<open>A declaration of an alias with its synonyms always succeeds and connects them.\<close>

lemma repr_link_all:
  assumes "repr known links p" "x \<in> known"
  shows "\<exists>p'. link_all unite x ys p = Some p' \<and>
    repr (known \<union> set ys) (links \<union> {x} \<times> set ys) p'"
  using assms
proof (induction ys arbitrary: known links p)
  case Nil
  then show ?case by simp
next
  case (Cons y ys)
  from repr_union [OF Cons.prems(1), of x y] obtain p1
    where p1: "unite x y p = Some p1" "repr (known \<union> {x, y}) (insert (x, y) links) p1" by blast
  have "known \<union> {x, y} \<union> set ys = known \<union> set (y # ys)"
    "insert (x, y) links \<union> {x} \<times> set ys = links \<union> {x} \<times> set (y # ys)"
    using Cons.prems(2) by auto
  with Cons.IH [OF p1(2)] p1(1) show ?case by auto
qed

text \<open>Aliases of one class share their key, which is one of them; others do not.\<close>

lemma min_class_eq_iff:
  assumes "finite known" "x \<in> known" "y \<in> known"
  shows "Min (alias_class known links x) = Min (alias_class known links y) \<longleftrightarrow> linked links x y"
proof
  have mem: "Min (alias_class known links z) \<in> alias_class known links z" if "z \<in> known" for z
    using assms(1) that by (intro Min_in) (auto simp: alias_class_def)
  assume "Min (alias_class known links x) = Min (alias_class known links y)"
  with mem [OF assms(2)] mem [OF assms(3)] show "linked links x y"
    by (auto simp: alias_class_def intro: linked_trans linked_sym)
next
  assume "linked links x y"
  then have "alias_class known links x = alias_class known links y"
    by (auto simp: alias_class_def intro: linked_trans linked_sym)
  then show "Min (alias_class known links x) = Min (alias_class known links y)" by simp
qed

end

section \<open>The class keeps its contract\<close>

definition uf_ok :: "('a::linorder \<times> 'a) list \<Rightarrow> bool" where
  "uf_ok p \<longleftrightarrow> (\<forall>x y. map_of p x = Some y \<longrightarrow> y \<le> x \<and> y \<in> dom (map_of p))"

lemma uf_okD: "uf_ok p \<Longrightarrow> map_of p x = Some y \<Longrightarrow> y \<le> x \<and> y \<in> dom (map_of p)"
  by (simp add: uf_ok_def)

lemma uf_induct [consumes 2, case_names root step]:
  assumes "uf_ok p" "x \<in> dom (map_of p)"
    and root: "\<And>x. map_of p x = Some x \<Longrightarrow> P x"
    and step: "\<And>x y. map_of p x = Some y \<Longrightarrow> y < x \<Longrightarrow> P y \<Longrightarrow> P x"
  shows "P x"
  using assms(2)
proof (induction "card {z \<in> dom (map_of p). z < x}" arbitrary: x rule: less_induct)
  case less
  then obtain y where y: "map_of p x = Some y" by blast
  from uf_okD [OF assms(1) y] consider "y = x" | "y < x" "y \<in> dom (map_of p)" by force
  then show ?case
  proof cases
    case 1
    with y root show ?thesis by simp
  next
    case 2
    have "{z \<in> dom (map_of p). z < y} \<subset> {z \<in> dom (map_of p). z < x}"
      using 2 by auto
    then have "card {z \<in> dom (map_of p). z < y} < card {z \<in> dom (map_of p). z < x}"
      by (rule psubset_card_mono [rotated]) (simp add: finite_dom_map_of)
    with less.hyps 2(2) have "P y" by blast
    with y 2 step show ?thesis by blast
  qed
qed

lemma uf_root_self: "map_of p x = Some x \<Longrightarrow> uf_root p x = Some x"
  by (subst uf_root.simps) simp

lemma uf_root_step: "map_of p x = Some y \<Longrightarrow> y \<noteq> x \<Longrightarrow> uf_root p x = uf_root p y"
  by (subst uf_root.simps) simp

lemma uf_root_parent: "map_of p x = Some y \<Longrightarrow> uf_root p x = uf_root p y"
  by (cases "y = x") (auto simp: uf_root_step)

lemma uf_root_None: "map_of p x = None \<Longrightarrow> uf_root p x = None"
  by (subst uf_root.simps) simp

lemma uf_root_total:
  assumes "uf_ok p" "x \<in> dom (map_of p)"
  shows "\<exists>r. uf_root p x = Some r \<and> map_of p r = Some r \<and> r \<le> x"
  using assms
proof (induction rule: uf_induct)
  case (root x)
  then show ?case by (simp add: uf_root_self)
next
  case (step x y)
  then obtain r where "uf_root p y = Some r" "map_of p r = Some r" "r \<le> y" by blast
  with step show ?case
    using uf_root_parent [OF step(1)] by (auto intro: less_imp_le order_trans)
qed

lemma uf_rootD: "uf_ok p \<Longrightarrow> uf_root p x = Some r \<Longrightarrow> map_of p r = Some r \<and> r \<le> x \<and> x \<in> dom (map_of p)"
  using uf_root_total [of p x] uf_root_None [of p x] by (cases "map_of p x") auto

text \<open>Pointing an alias at its root changes no root; pointing one root at a smaller one moves
  exactly its class.\<close>

lemma uf_redirect:
  assumes ok: "uf_ok p" and r: "uf_root p x = Some r"
  shows "uf_ok (AList.update x r p)" "uf_root (AList.update x r p) z = uf_root p z"
    "dom (map_of (AList.update x r p)) = dom (map_of p)"
proof -
  note x = uf_rootD [OF ok r]
  let ?p = "AList.update x r p"
  show dom: "dom (map_of ?p) = dom (map_of p)" using x by auto
  show okp: "uf_ok ?p" using ok x by (auto simp: uf_ok_def)
  show "uf_root ?p z = uf_root p z"
  proof (cases "z \<in> dom (map_of p)")
    case False
    then have "z \<noteq> x" using x by auto
    with False show ?thesis by (auto simp: uf_root_None domIff)
  next
    case True
    with ok show ?thesis
    proof (induction rule: uf_induct)
      case (root z)
      then show ?case
        using r by (cases "z = x") (auto simp: uf_root_self)
    next
      case (step z y)
      show ?case
      proof (cases "z = x")
        case True
        have "map_of ?p x = Some r" by simp
        moreover have "map_of ?p r = Some r" using x by simp
        ultimately have "uf_root ?p x = Some r"
          using uf_root_parent [of ?p x r] uf_root_self [of ?p r] by argo
        with True r show ?thesis by simp
      next
        case False
        with step uf_root_parent [of p z y] uf_root_parent [of ?p z y] show ?thesis by simp
      qed
    qed
  qed
qed

lemma uf_hang:
  assumes ok: "uf_ok p" and ra: "map_of p a = Some a" and rb: "map_of p b = Some b" and ab: "a < b"
  shows "uf_ok (AList.update b a p)"
    "uf_root (AList.update b a p) z = (if uf_root p z = Some b then Some a else uf_root p z)"
    "dom (map_of (AList.update b a p)) = dom (map_of p)"
proof -
  let ?p = "AList.update b a p"
  show dom: "dom (map_of ?p) = dom (map_of p)" using rb by auto
  show okp: "uf_ok ?p" using ok ra rb ab by (auto simp: uf_ok_def)
  have roots: "uf_root ?p a = Some a"
    using ra ab by (intro uf_root_self) simp
  then have rootb: "uf_root ?p b = Some a"
    using uf_root_parent [of ?p b a] by simp
  show "uf_root ?p z = (if uf_root p z = Some b then Some a else uf_root p z)"
  proof (cases "z \<in> dom (map_of p)")
    case False
    then have "z \<noteq> b" using rb by auto
    with False show ?thesis by (auto simp: uf_root_None domIff)
  next
    case True
    with ok show ?thesis
    proof (induction rule: uf_induct)
      case (root z)
      then show ?case
        using roots rootb by (cases "z = b") (auto simp: uf_root_self)
    next
      case (step z y)
      then have "z \<noteq> b" using rb by auto
      with step uf_root_parent [of p z y] uf_root_parent [of ?p z y] show ?case by simp
    qed
  qed
qed

lemma uf_compress_total:
  assumes "uf_ok p" "uf_root p x = Some r"
  shows "\<exists>p'. uf_compress p r x = Some p' \<and> uf_ok p' \<and> (\<forall>z. uf_root p' z = uf_root p z) \<and>
    dom (map_of p') = dom (map_of p)"
proof -
  have "x \<in> dom (map_of p)" using uf_rootD [OF assms] by simp
  then show ?thesis using assms
  proof (induction "card {z \<in> dom (map_of p). z < x}" arbitrary: x p rule: less_induct)
    case less
    then obtain y where y: "map_of p x = Some y" by blast
    show ?case
    proof (cases "y = r")
      case True
      with y less.prems show ?thesis by (subst uf_compress.simps) simp
    next
      case False
      let ?p = "AList.update x r p"
      have "y \<noteq> x"
        using y False less.prems(3) by (auto simp: uf_root_self)
      with uf_okD [OF less.prems(2) y] have lt: "y < x" and dom: "y \<in> dom (map_of p)" by auto
      note redirect = uf_redirect [OF less.prems(2,3)]
      have root: "uf_root p y = Some r"
        using less.prems(3) uf_root_parent [OF y] by simp
      have "{z \<in> dom (map_of ?p). z < y} \<subset> {z \<in> dom (map_of p). z < x}"
        unfolding redirect(3) using lt dom by auto
      then have "card {z \<in> dom (map_of ?p). z < y} < card {z \<in> dom (map_of p). z < x}"
        by (rule psubset_card_mono [rotated]) (simp add: finite_dom_map_of)
      from less.hyps [OF this] dom root redirect
      have "\<exists>p'. uf_compress ?p r y = Some p' \<and> uf_ok p' \<and> (\<forall>z. uf_root p' z = uf_root p z) \<and>
        dom (map_of p') = dom (map_of p)" by simp
      moreover have "uf_compress p r x = uf_compress ?p r y"
        using y False by (subst uf_compress.simps) simp
      ultimately show ?thesis by simp
    qed
  qed
qed

definition uf_repr :: "'a::linorder set \<Rightarrow> ('a \<times> 'a) set \<Rightarrow> ('a \<times> 'a) list \<Rightarrow> bool" where
  "uf_repr known links p \<longleftrightarrow> uf_ok p \<and> dom (map_of p) = known \<and> links \<subseteq> known \<times> known \<and>
     (\<forall>x \<in> known. \<forall>y \<in> known. uf_root p x = uf_root p y \<longleftrightarrow> linked links x y)"

lemma uf_repr_empty: "uf_repr {} {} []"
  by (simp add: uf_repr_def uf_ok_def)

lemma uf_reprD:
  assumes "uf_repr known links p"
  shows "uf_ok p" "dom (map_of p) = known" "links \<subseteq> known \<times> known" "finite known"
    "x \<in> known \<Longrightarrow> y \<in> known \<Longrightarrow> uf_root p x = uf_root p y \<longleftrightarrow> linked links x y"
proof -
  show "uf_ok p" "dom (map_of p) = known" "links \<subseteq> known \<times> known"
    "x \<in> known \<Longrightarrow> y \<in> known \<Longrightarrow> uf_root p x = uf_root p y \<longleftrightarrow> linked links x y"
    using assms by (auto simp: uf_repr_def)
  then show "finite known" by (metis finite_dom_map_of)
qed

lemma linked_outside: "linked links x y \<Longrightarrow> links \<subseteq> A \<times> A \<Longrightarrow> x \<notin> A \<Longrightarrow> y = x"
  unfolding linked_def by (induction rule: rtrancl_induct) auto

lemma uf_root_fresh:
  assumes ok: "uf_ok p" and fresh: "map_of p x = None"
  shows "uf_root (AList.update x x p) z = (if z = x then Some x else uf_root p z)"
proof (cases "z \<in> dom (map_of p)")
  case True
  with ok show ?thesis
  proof (induction rule: uf_induct)
    case (root z)
    then show ?case by (simp add: uf_root_self)
  next
    case (step z y)
    then have "z \<noteq> x" "y \<noteq> x"
      using fresh uf_okD [OF ok step(1)] by auto
    with step uf_root_parent [of p z y] uf_root_parent [of "AList.update x x p" z y]
    show ?case by simp
  qed
next
  case False
  then show ?thesis by (cases "z = x") (auto simp: uf_root_self uf_root_None domIff)
qed

lemma uf_repr_add:
  assumes "uf_repr known links p"
  shows "uf_repr (insert x known) links (uf_add x p)"
proof (cases "map_of p x")
  case (Some y)
  then have "x \<in> known" using uf_reprD(2) [OF assms] by auto
  with Some assms show ?thesis by (simp add: uf_add_def insert_absorb)
next
  case None
  note p = uf_reprD [OF assms]
  let ?p = "AList.update x x p"
  have fresh: "x \<notin> known" using None p(2) by auto
  have "uf_root ?p y = uf_root ?p z \<longleftrightarrow> linked links y z"
    if "y \<in> insert x known" "z \<in> insert x known" for y z
  proof -
    have out: "linked links x w \<longleftrightarrow> w = x" "linked links w x \<longleftrightarrow> w = x" for w
      using linked_outside [OF _ p(3) fresh] linked_sym linked_refl by metis+
    have "uf_root p w \<noteq> Some x" "Some x \<noteq> uf_root p w" for w
      using uf_rootD [OF p(1), of w x] None by auto
    with that out p(5) [of y z] show ?thesis
      by (auto simp: uf_root_fresh [OF p(1) None])
  qed
  moreover have "uf_ok ?p" using p(1) by (auto simp: uf_ok_def)
  moreover have "dom (map_of ?p) = insert x known" using p(2) by auto
  ultimately show ?thesis
    using None p(3) by (auto simp: uf_add_def uf_repr_def)
qed

lemma uf_repr_same_roots:
  assumes "uf_repr known links p" "uf_ok p'" "\<forall>z. uf_root p' z = uf_root p z"
    "dom (map_of p') = dom (map_of p)"
  shows "uf_repr known links p'"
  using assms by (auto simp: uf_repr_def)

lemma uf_repr_root:
  assumes "uf_repr known links p" "x \<in> known"
  shows "uf_root p x = Some (Min (alias_class known links x))"
proof -
  note p = uf_reprD [OF assms(1)]
  obtain r where r: "uf_root p x = Some r" "map_of p r = Some r"
    using uf_root_total [OF p(1), of x] p(2) assms(2) by auto
  then have "r \<in> known" "uf_root p r = Some r"
    using p(2) by (auto simp: uf_root_self)
  moreover have "r \<le> y" if "y \<in> alias_class known links x" for y
    using that r(1) p(5) [OF assms(2), of y] uf_rootD [OF p(1), of y r]
    by (auto simp: alias_class_def)
  ultimately have "Min (alias_class known links x) = r"
    using p(4) p(5) [OF assms(2), of r] r(1) by (intro Min_eqI) (auto simp: alias_class_def)
  with r show ?thesis by simp
qed

lemma uf_repr_find:
  assumes "uf_repr known links p"
  shows "\<exists>p'. uf_find x p = Some (Min (alias_class (insert x known) links x), p') \<and>
    uf_repr (insert x known) links p'"
proof -
  let ?p = "uf_add x p" and ?r = "Min (alias_class (insert x known) links x)"
  note add = uf_repr_add [OF assms, of x]
  have root: "uf_root ?p x = Some ?r" by (rule uf_repr_root [OF add]) simp
  from uf_compress_total [OF uf_reprD(1) [OF add] root] obtain p'
    where p': "uf_compress ?p ?r x = Some p'" "uf_ok p'" "\<forall>z. uf_root p' z = uf_root ?p z"
      "dom (map_of p') = dom (map_of ?p)" by blast
  with uf_repr_same_roots [OF add p'(2-4)] root show ?thesis
    by (simp add: uf_find_def)
qed

lemma uf_repr_hang:
  assumes repr: "uf_repr known links p" and mem: "x \<in> known" "y \<in> known"
    and roots: "uf_root p x = Some a" "uf_root p y = Some b" "a < b"
  shows "uf_repr known (insert (x, y) links) (AList.update b a p)"
proof -
  note p = uf_reprD [OF repr]
  have self: "map_of p a = Some a" "map_of p b = Some b"
    using uf_rootD [OF p(1)] roots by blast+
  note hang = uf_hang [OF p(1) self roots(3)]
  have "uf_root (AList.update b a p) u = uf_root (AList.update b a p) v \<longleftrightarrow>
      linked (insert (x, y) links) u v" if "u \<in> known" "v \<in> known" for u v
  proof -
    have "linked links u v \<longleftrightarrow> uf_root p u = uf_root p v"
      "linked links u x \<longleftrightarrow> uf_root p u = Some a" "linked links y v \<longleftrightarrow> uf_root p v = Some b"
      "linked links u y \<longleftrightarrow> uf_root p u = Some b" "linked links x v \<longleftrightarrow> uf_root p v = Some a"
      using p(5) that mem roots by metis+
    then show ?thesis unfolding hang(2) linked_insert
      by (cases "uf_root p u = Some b"; cases "uf_root p v = Some b") auto
  qed
  with hang(1,3) p(2,3) mem show ?thesis by (auto simp: uf_repr_def)
qed

lemma uf_repr_known_link:
  assumes "uf_repr known links p" "x \<in> known" "y \<in> known" "linked links x y"
  shows "uf_repr known (insert (x, y) links) p"
proof -
  have "linked (insert (x, y) links) u v \<longleftrightarrow> linked links u v" for u v
    unfolding linked_insert by (metis assms(4) linked_sym linked_trans)
  with assms show ?thesis by (auto simp: uf_repr_def)
qed

lemma linked_insert_swap: "linked (insert (x, y) links) = linked (insert (y, x) links)"
  by (auto simp: fun_eq_iff linked_insert)

lemma uf_repr_swap: "uf_repr known (insert (x, y) links) p \<Longrightarrow> uf_repr known (insert (y, x) links) p"
  by (auto simp: uf_repr_def linked_insert_swap [of x y])

lemma uf_repr_union:
  assumes "uf_repr known links p"
  shows "\<exists>p'. uf_union x y p = Some p' \<and> uf_repr (known \<union> {x, y}) (insert (x, y) links) p'"
proof -
  let ?k = "known \<union> {x, y}"
  have both: "uf_repr ?k links (uf_add y (uf_add x p))"
    using uf_repr_add [OF uf_repr_add [OF assms, of x], of y] by (simp add: insert_commute)
  from uf_repr_find [OF both, of x] obtain ra p1
    where p1: "uf_find x (uf_add y (uf_add x p)) = Some (ra, p1)" "uf_repr ?k links p1"
    by (auto simp: insert_absorb)
  from uf_repr_find [OF p1(2), of y] obtain rb p2
    where p2: "uf_find y p1 = Some (rb, p2)" "uf_repr ?k links p2"
    by (auto simp: insert_absorb)
  have ra: "uf_root p2 x = Some ra" and rb: "uf_root p2 y = Some rb"
    using uf_repr_find [OF both, of x] uf_repr_find [OF p1(2), of y] p1 p2
      uf_repr_root [OF p2(2), of x] uf_repr_root [OF p2(2), of y]
    by (auto simp: insert_absorb)
  consider "ra = rb" | "ra < rb" | "rb < ra" by force
  then show ?thesis
  proof cases
    case 1
    then have "linked links x y"
      using ra rb uf_reprD(5) [OF p2(2), of x y] by simp
    then have "uf_repr ?k (insert (x, y) links) p2"
      by (intro uf_repr_known_link [OF p2(2)]) auto
    with 1 p1 p2 show ?thesis by (simp add: uf_union_def)
  next
    case 2
    have "uf_repr ?k (insert (x, y) links) (AList.update rb ra p2)"
      by (rule uf_repr_hang [OF p2(2) _ _ ra rb 2]) auto
    with 2 p1 p2 show ?thesis by (simp add: uf_union_def less_imp_neq)
  next
    case 3
    have "uf_repr ?k (insert (x, y) links) (AList.update ra rb p2)"
      by (rule uf_repr_swap, rule uf_repr_hang [OF p2(2) _ _ rb ra 3]) auto
    with 3 p1 p2 show ?thesis by (auto simp: uf_union_def)
  qed
qed

interpretation aliases: alias_classes uf_repr uf_add uf_union uf_find
  by unfold_locales (rule uf_reprD(4) uf_repr_add uf_repr_union uf_repr_find; assumption)+

end
