(* ===== verification/CandidateMerge.thy ===== *)
theory CandidateMerge imports SourceVersion AliasUnion "HOL-Library.Multiset" "HOL-Library.Char_ord" "HOL-Library.List_Lexorder" begin

text \<open>
  The merge of the candidates several indexers and chunks extracted from one document
  (\<open>src/documents/candidate-merge.ts\<close>): entities are folded by shared aliases (\<open>AliasUnion\<close>),
  facts by entity, predicate and normalised object, relations by their endpoints and kind.
  \<open>String(v)\<close> of a value that is not a string is the argument \<open>str\<close>, the ISO form of a date is
  \<open>toISO\<close>.  Confidences are exact.  A run of the union-find that does not return is the value
  None.
\<close>

section \<open>Rows and results\<close>

datatype candidate_kind = CEntity | CFact | CRelation

record candidate_row =
  ca_id :: string
  ca_runId :: string
  ca_chunkSeq :: int
  ca_kind :: candidate_kind
  ca_confidence :: rat
  ca_payload :: jval

record merged_entity =
  me_key :: string
  me_name :: string
  me_type :: string
  me_canonical :: "string option"
  me_externalId :: "string option"
  me_known :: "string option"
  me_candidateIds :: "string list"

record fact_contributor =
  fc_candidateId :: string
  fc_indexerId :: string
  fc_packVersion :: string
  fc_model :: "string option"
  fc_confidence :: rat
  fc_chunkSeq :: int
  fc_sourceVersion :: "source_stamp option"

text \<open>The three optional days a group carries; a relation has no expected end of its own, but the
  shared folding fills one when a payload states it.\<close>

record stated_days =
  sd_eventTime :: "string option"
  sd_endTime :: "string option"
  sd_expectedEnd :: "string option"

record merged_fact =
  mf_entityKey :: string
  mf_predicate :: string
  mf_object :: string
  mf_confidence :: rat
  mf_entropy :: "rat option"
  mf_clause :: "string option"
  mf_days :: stated_days
  mf_supersedes :: "string list option"
  mf_recorder :: string
  mf_leaderId :: string
  mf_leaderChunkSeq :: int
  mf_mergedIds :: "string list"
  mf_contributors :: "fact_contributor list"

record merged_relation =
  mr_fromKey :: string
  mr_toKey :: string
  mr_kind :: string
  mr_confidence :: rat
  mr_days :: stated_days
  mr_leaderId :: string
  mr_mergedIds :: "string list"

datatype reject_reason = MalformedEntity | OrphanEntity | MalformedFact | OrphanRelation

record rejected_candidate =
  rj_candidateId :: string
  rj_kind :: candidate_kind
  rj_reason :: reject_reason

record merge_result =
  rs_entities :: "merged_entity list"
  rs_facts :: "merged_fact list"
  rs_relations :: "merged_relation list"
  rs_rejected :: "rejected_candidate list"

section \<open>Reading payloads\<close>

definition js_string :: "(jval \<Rightarrow> string) \<Rightarrow> jval \<Rightarrow> string" where
  "js_string str v = (case text_opt v of Some s \<Rightarrow> s | None \<Rightarrow> str v)"

definition joinKey :: "string list \<Rightarrow> string" where
  "joinKey parts = join [CHR 0x00] parts"

definition scopeRef :: "(jval \<Rightarrow> string) \<Rightarrow> candidate_row \<Rightarrow> jval \<Rightarrow> string" where
  "scopeRef str row entityIndex =
     joinKey [ca_runId row, str (JNum (JFin (of_int (ca_chunkSeq row)))), js_string str entityIndex]"

definition nonblank :: "jval \<Rightarrow> string option" where
  "nonblank v = (case text_opt v of None \<Rightarrow> None | Some s \<Rightarrow> if trim s = [] then None else Some s)"

definition normalizeType :: "jval \<Rightarrow> string" where
  "normalizeType v = (case nonblank v of None \<Rightarrow> ''other'' | Some s \<Rightarrow> trim s)"

definition foldName :: "string \<Rightarrow> string" where
  "foldName name = collapse_ws (map lower_char (trim name))"

definition normalizeObject :: "string \<Rightarrow> string" where
  "normalizeObject obj = collapse_ws (trim obj)"

definition strOrUndefined :: "jval \<Rightarrow> string option" where
  "strOrUndefined v = (case text_opt v of None \<Rightarrow> None | Some s \<Rightarrow> if s = [] then None else Some s)"

definition idList :: "jval \<Rightarrow> string list option" where
  "idList v =
     (case v of
        JArr xs \<Rightarrow> (let ids = List.map_filter strOrUndefined xs in if ids = [] then None else Some ids)
      | _ \<Rightarrow> None)"

definition numOrUndefined :: "jval \<Rightarrow> rat option" where
  "numOrUndefined v = (case v of JNum (JFin q) \<Rightarrow> Some q | _ \<Rightarrow> None)"

definition or_else :: "'a option \<Rightarrow> 'a option \<Rightarrow> 'a option" where
  "or_else a b = (case a of None \<Rightarrow> b | Some x \<Rightarrow> Some x)"

section \<open>Entities\<close>

record entity_item =
  ei_row :: candidate_row
  ei_name :: string
  ei_canonical :: "string option"
  ei_externalId :: "string option"
  ei_nameKey :: string

definition entity_item_of :: "candidate_row \<Rightarrow> entity_item option" where
  "entity_item_of row =
     (let p = ca_payload row
      in case nonblank (jget p ''name'') of
           None \<Rightarrow> None
         | Some name \<Rightarrow>
             Some \<lparr>ei_row = row, ei_name = name, ei_canonical = nonblank (jget p ''canonical''),
                   ei_externalId = map_option trim (nonblank (jget p ''externalId'')),
                   ei_nameKey = joinKey [normalizeType (jget p ''type''), foldName name]\<rparr>)"

text \<open>The aliases a candidate declares beside its name, in the order of the calls.\<close>

definition item_aliases :: "entity_item \<Rightarrow> string list" where
  "item_aliases it =
     (let type = normalizeType (jget (ca_payload (ei_row it)) ''type'')
      in (case ei_canonical it of None \<Rightarrow> [] | Some c \<Rightarrow> [joinKey [type, foldName c]]) @
         (case ei_externalId it of None \<Rightarrow> [] | Some x \<Rightarrow> [joinKey [type, CHR ''#'' # x]]))"

fun collectEntityItems ::
  "candidate_row list \<Rightarrow> (string \<times> string) list \<Rightarrow>
     (entity_item list \<times> rejected_candidate list \<times> (string \<times> string) list) option" where
  "collectEntityItems [] dsu = Some ([], [], dsu)"
| "collectEntityItems (row # rows) dsu =
     (if ca_kind row \<noteq> CEntity then collectEntityItems rows dsu
      else case entity_item_of row of
        None \<Rightarrow>
          (case collectEntityItems rows dsu of
             None \<Rightarrow> None
           | Some (items, rejected, dsu') \<Rightarrow>
               Some (items, \<lparr>rj_candidateId = ca_id row, rj_kind = CEntity,
                             rj_reason = MalformedEntity\<rparr> # rejected, dsu'))
      | Some it \<Rightarrow>
          (case link_all uf_union (ei_nameKey it) (item_aliases it) (uf_add (ei_nameKey it) dsu) of
             None \<Rightarrow> None
           | Some dsu1 \<Rightarrow>
               (case collectEntityItems rows dsu1 of
                  None \<Rightarrow> None
                | Some (items, rejected, dsu') \<Rightarrow> Some (it # items, rejected, dsu'))))"

definition item_known :: "entity_item \<Rightarrow> string option" where
  "item_known it = strOrUndefined (jget (ca_payload (ei_row it)) ''known'')"

definition fold_entity :: "string \<Rightarrow> entity_item \<Rightarrow> merged_entity option \<Rightarrow> merged_entity" where
  "fold_entity key it existing =
     (case existing of
        Some e \<Rightarrow>
          e\<lparr>me_candidateIds := me_candidateIds e @ [ca_id (ei_row it)],
            me_canonical := or_else (me_canonical e) (ei_canonical it),
            me_externalId := or_else (me_externalId e) (ei_externalId it),
            me_known := or_else (me_known e) (item_known it)\<rparr>
      | None \<Rightarrow>
          \<lparr>me_key = key, me_name = ei_name it,
           me_type = normalizeType (jget (ca_payload (ei_row it)) ''type''),
           me_canonical = ei_canonical it, me_externalId = ei_externalId it,
           me_known = item_known it, me_candidateIds = [ca_id (ei_row it)]\<rparr>)"

definition group_put :: "('g option \<Rightarrow> 'g) \<Rightarrow> 'k \<Rightarrow> ('k \<times> 'g) list \<Rightarrow> ('k \<times> 'g) list" where
  "group_put f key groups = AList.update key (f (map_of groups key)) groups"

fun group_items ::
  "(jval \<Rightarrow> string) \<Rightarrow> entity_item list \<Rightarrow> (string \<times> string) list \<Rightarrow> (string \<times> string) list \<Rightarrow>
     (string \<times> merged_entity) list \<Rightarrow>
     ((string \<times> string) list \<times> (string \<times> merged_entity) list) option" where
  "group_items str [] dsu scopes ents = Some (scopes, ents)"
| "group_items str (it # items) dsu scopes ents =
     (case uf_find (ei_nameKey it) dsu of
        None \<Rightarrow> None
      | Some (key, dsu') \<Rightarrow>
          group_items str items dsu'
            (AList.update (scopeRef str (ei_row it) (jget (ca_payload (ei_row it)) ''entityIndex'')) key scopes)
            (group_put (fold_entity key it) key ents))"

definition mergeEntities ::
  "(jval \<Rightarrow> string) \<Rightarrow> candidate_row list \<Rightarrow>
     (merged_entity list \<times> (string \<times> string) list \<times> rejected_candidate list) option" where
  "mergeEntities str rows =
     (case collectEntityItems rows [] of
        None \<Rightarrow> None
      | Some (items, rejected, dsu) \<Rightarrow>
          (case group_items str items dsu [] [] of
             None \<Rightarrow> None
           | Some (scopes, ents) \<Rightarrow> Some (map snd ents, scopes, rejected)))"

section \<open>Facts\<close>

definition foldDays :: "stated_days \<Rightarrow> jval \<Rightarrow> bool \<Rightarrow> stated_days" where
  "foldDays g payload leads =
     (let eventTime = strOrUndefined (jget payload ''eventTime'');
          endTime = strOrUndefined (jget payload ''endTime'');
          expectedEnd = strOrUndefined (jget payload ''expectedEnd'')
      in if leads
         then \<lparr>sd_eventTime = or_else eventTime (sd_eventTime g),
               sd_endTime = or_else endTime (sd_endTime g),
               sd_expectedEnd = or_else expectedEnd (sd_expectedEnd g)\<rparr>
         else \<lparr>sd_eventTime = or_else (sd_eventTime g) eventTime,
               sd_endTime = or_else (sd_endTime g) endTime,
               sd_expectedEnd = or_else (sd_expectedEnd g) expectedEnd\<rparr>)"

definition contributor_of ::
  "(jval \<Rightarrow> string) \<Rightarrow> (string \<Rightarrow> string option) \<Rightarrow> candidate_row \<Rightarrow> fact_contributor" where
  "contributor_of str toISO row =
     (let p = ca_payload row
      in \<lparr>fc_candidateId = ca_id row,
          fc_indexerId = js_string str (nullish_or (jget p ''indexerId'') (JStr ''core'')),
          fc_packVersion = js_string str (nullish_or (jget p ''packVersion'') (JStr ''0'')),
          fc_model = text_opt (jget p ''model''),
          fc_confidence = ca_confidence row,
          fc_chunkSeq = ca_chunkSeq row,
          fc_sourceVersion = readSourceVersionStamp toISO (jget p ''sourceVersion'')\<rparr>)"

definition new_fact_group ::
  "(jval \<Rightarrow> string) \<Rightarrow> string \<Rightarrow> fact_contributor \<Rightarrow> candidate_row \<Rightarrow> merged_fact" where
  "new_fact_group str entityKey contributor row =
     (let p = ca_payload row
      in \<lparr>mf_entityKey = entityKey,
          mf_predicate = js_string str (jget p ''predicate''),
          mf_object = js_string str (jget p ''object''),
          mf_confidence = ca_confidence row,
          mf_entropy = numOrUndefined (jget p ''extractionEntropy''),
          mf_clause = text_opt (jget p ''clause''),
          mf_days = \<lparr>sd_eventTime = strOrUndefined (jget p ''eventTime''),
                     sd_endTime = strOrUndefined (jget p ''endTime''),
                     sd_expectedEnd = strOrUndefined (jget p ''expectedEnd'')\<rparr>,
          mf_supersedes = idList (jget p ''supersedes''),
          mf_recorder = fc_indexerId contributor,
          mf_leaderId = ca_id row,
          mf_leaderChunkSeq = ca_chunkSeq row,
          mf_mergedIds = [],
          mf_contributors = [contributor]\<rparr>)"

definition union_ids :: "string list option \<Rightarrow> string list option \<Rightarrow> string list option" where
  "union_ids held new =
     (case new of None \<Rightarrow> held
      | Some ids \<Rightarrow> Some (push_new (case held of None \<Rightarrow> [] | Some hs \<Rightarrow> hs) ids))"

definition foldFactIntoGroup ::
  "(jval \<Rightarrow> string) \<Rightarrow> (string \<Rightarrow> string option) \<Rightarrow> string \<Rightarrow> candidate_row \<Rightarrow> merged_fact option \<Rightarrow> merged_fact"
where
  "foldFactIntoGroup str toISO entityKey row found =
     (let p = ca_payload row; contributor = contributor_of str toISO row
      in case found of
           None \<Rightarrow> new_fact_group str entityKey contributor row
         | Some g \<Rightarrow>
             (let leads = mf_confidence g < ca_confidence row;
                  g1 = g\<lparr>mf_contributors := mf_contributors g @ [contributor],
                         mf_supersedes := union_ids (mf_supersedes g) (idList (jget p ''supersedes'')),
                         mf_days := foldDays (mf_days g) p leads\<rparr>
              in if leads
                 then g1\<lparr>mf_mergedIds := mf_mergedIds g @ [mf_leaderId g],
                         mf_leaderId := ca_id row,
                         mf_leaderChunkSeq := ca_chunkSeq row,
                         mf_confidence := ca_confidence row,
                         mf_recorder := fc_indexerId contributor,
                         mf_entropy := numOrUndefined (jget p ''extractionEntropy''),
                         mf_clause := or_else (text_opt (jget p ''clause'')) (mf_clause g)\<rparr>
                 else g1\<lparr>mf_mergedIds := mf_mergedIds g @ [ca_id row]\<rparr>))"

definition fact_step ::
  "(jval \<Rightarrow> string) \<Rightarrow> (string \<Rightarrow> string option) \<Rightarrow> (string \<times> string) list \<Rightarrow> candidate_row \<Rightarrow>
     (string \<times> merged_fact) list \<times> rejected_candidate list \<Rightarrow>
     (string \<times> merged_fact) list \<times> rejected_candidate list" where
  "fact_step str toISO scopes row st =
     (case st of (groups, rejected) \<Rightarrow>
        (if ca_kind row \<noteq> CFact then st
         else let p = ca_payload row;
                  entityKey = map_of scopes (scopeRef str row (jget p ''entityIndex''));
                  reject = (\<lambda>reason. (groups, rejected @ [\<lparr>rj_candidateId = ca_id row, rj_kind = CFact,
                                                     rj_reason = reason\<rparr>]))
              in if \<not> truthy_str entityKey then reject OrphanEntity
                 else case (text_opt (jget p ''predicate''), text_opt (jget p ''object'')) of
                   (Some predicate, Some obj) \<Rightarrow>
                     (group_put (foldFactIntoGroup str toISO (the entityKey) row)
                        (joinKey [the entityKey, predicate, normalizeObject obj]) groups, rejected)
                 | _ \<Rightarrow> reject MalformedFact))"

definition mergeFacts ::
  "(jval \<Rightarrow> string) \<Rightarrow> (string \<Rightarrow> string option) \<Rightarrow> (string \<times> string) list \<Rightarrow> candidate_row list \<Rightarrow>
     merged_fact list \<times> rejected_candidate list" where
  "mergeFacts str toISO scopes rows =
     (case fold (fact_step str toISO scopes) rows ([], []) of
        (groups, rejected) \<Rightarrow> (map snd groups, rejected))"

section \<open>Relations\<close>

definition fold_relation ::
  "string \<Rightarrow> string \<Rightarrow> string \<Rightarrow> candidate_row \<Rightarrow> merged_relation option \<Rightarrow> merged_relation" where
  "fold_relation fromKey toKey kind row found =
     (let p = ca_payload row
      in case found of
           None \<Rightarrow>
             \<lparr>mr_fromKey = fromKey, mr_toKey = toKey, mr_kind = kind, mr_confidence = ca_confidence row,
              mr_days = \<lparr>sd_eventTime = strOrUndefined (jget p ''eventTime''),
                         sd_endTime = strOrUndefined (jget p ''endTime''), sd_expectedEnd = None\<rparr>,
              mr_leaderId = ca_id row, mr_mergedIds = []\<rparr>
         | Some g \<Rightarrow>
             g\<lparr>mr_days := foldDays (mr_days g) p (mr_confidence g < ca_confidence row),
               mr_confidence := max (mr_confidence g) (ca_confidence row),
               mr_mergedIds := mr_mergedIds g @ [ca_id row]\<rparr>)"

definition relation_step ::
  "(jval \<Rightarrow> string) \<Rightarrow> (string \<times> string) list \<Rightarrow> candidate_row \<Rightarrow>
     (string \<times> merged_relation) list \<times> rejected_candidate list \<Rightarrow>
     (string \<times> merged_relation) list \<times> rejected_candidate list" where
  "relation_step str scopes row st =
     (case st of (groups, rejected) \<Rightarrow>
        (if ca_kind row \<noteq> CRelation then st
         else let p = ca_payload row;
                  fromKey = map_of scopes (scopeRef str row (jget p ''fromEntityIndex''));
                  toKey = map_of scopes (scopeRef str row (jget p ''toEntityIndex''));
                  kind = js_string str (jget p ''kind'')
              in if \<not> truthy_str fromKey \<or> \<not> truthy_str toKey \<or> fromKey = toKey
                 then (groups, rejected @ [\<lparr>rj_candidateId = ca_id row, rj_kind = CRelation,
                                             rj_reason = OrphanRelation\<rparr>])
                 else (group_put (fold_relation (the fromKey) (the toKey) kind row)
                         (joinKey [the fromKey, the toKey, kind]) groups, rejected)))"

definition mergeRelations ::
  "(jval \<Rightarrow> string) \<Rightarrow> (string \<times> string) list \<Rightarrow> candidate_row list \<Rightarrow>
     merged_relation list \<times> rejected_candidate list" where
  "mergeRelations str scopes rows =
     (case fold (relation_step str scopes) rows ([], []) of
        (groups, rejected) \<Rightarrow> (map snd groups, rejected))"

section \<open>The merge\<close>

definition mergeCandidates ::
  "(jval \<Rightarrow> string) \<Rightarrow> (string \<Rightarrow> string option) \<Rightarrow> candidate_row list \<Rightarrow> merge_result option" where
  "mergeCandidates str toISO rows =
     (case mergeEntities str rows of
        None \<Rightarrow> None
      | Some (entities, scopes, rejected1) \<Rightarrow>
          (case mergeFacts str toISO scopes rows of
             (facts, rejected2) \<Rightarrow>
               (case mergeRelations str scopes rows of
                  (relations, rejected3) \<Rightarrow>
                    Some \<lparr>rs_entities = entities, rs_facts = facts, rs_relations = relations,
                          rs_rejected = rejected1 @ rejected2 @ rejected3\<rparr>)))"

definition incomingFactsFor :: "merge_result \<Rightarrow> string \<Rightarrow> string list" where
  "incomingFactsFor m entityKey =
     (let nameOf = map_of (rev (map (\<lambda>e. (me_key e, me_name e)) (rs_entities m)))
      in map (\<lambda>f. mf_predicate f @ '': '' @ mf_object f)
           (filter (\<lambda>f. mf_entityKey f = entityKey) (rs_facts m)) @
         concat (map (\<lambda>r.
           let other = (if mr_fromKey r = entityKey then nameOf (mr_toKey r)
                        else if mr_toKey r = entityKey then nameOf (mr_fromKey r) else None)
           in if truthy_str other then [mr_kind r @ '': '' @ the other] else []) (rs_relations m)))"

section \<open>Groups\<close>

lemma group_put_keys: "distinct (map fst gs) \<Longrightarrow> distinct (map fst (group_put f k gs))"
  by (simp add: group_put_def)

lemma map_of_group_put [simp]:
  "map_of (group_put f k gs) k' = (if k' = k then Some (f (map_of gs k)) else map_of gs k')"
  by (simp add: group_put_def)

definition group_ids :: "('g \<Rightarrow> 'i multiset) \<Rightarrow> ('k \<times> 'g) list \<Rightarrow> 'i multiset" where
  "group_ids ids gs = sum_list (map (\<lambda>e. ids (snd e)) gs)"

lemma group_ids_update:
  "distinct (map fst gs) \<Longrightarrow>
     group_ids ids (AList.update k g gs) + (case map_of gs k of None \<Rightarrow> {#} | Some h \<Rightarrow> ids h) =
     group_ids ids gs + ids g"
proof (induction gs)
  case Nil
  then show ?case by (simp add: group_ids_def)
next
  case (Cons e gs)
  show ?case
  proof (cases "fst e = k")
    case True
    then show ?thesis by (cases e) (simp add: group_ids_def)
  next
    case False
    with Cons show ?thesis
      by (cases e) (auto simp: group_ids_def add.assoc add.left_commute split: option.splits)
  qed
qed

text \<open>Folding one more member into its group adds exactly that member.\<close>

lemma group_ids_put:
  assumes "distinct (map fst gs)" "ids (f None) = {#i#}"
    and "\<And>g. map_of gs k = Some g \<Longrightarrow> ids (f (Some g)) = add_mset i (ids g)"
  shows "group_ids ids (group_put f k gs) = add_mset i (group_ids ids gs)"
proof (cases "map_of gs k")
  case None
  with group_ids_update [OF assms(1), of ids k "f None"] assms(2) show ?thesis
    by (simp add: group_put_def)
next
  case (Some g)
  with group_ids_update [OF assms(1), of ids k "f (Some g)"] assms(3) [OF Some] show ?thesis
    by (simp add: group_put_def)
qed

section \<open>Entities are alias classes\<close>

text \<open>What the rows alone say: the well-formed entity candidates, the aliases they declare, and
  the key of a class, which is its smallest alias.\<close>

definition entity_items :: "candidate_row list \<Rightarrow> entity_item list" where
  "entity_items rows = List.map_filter entity_item_of (filter (\<lambda>r. ca_kind r = CEntity) rows)"

definition alias_links :: "entity_item set \<Rightarrow> (string \<times> string) set" where
  "alias_links items = (\<Union>it \<in> items. {ei_nameKey it} \<times> set (item_aliases it))"

definition declared_aliases :: "entity_item set \<Rightarrow> string set" where
  "declared_aliases items = (\<Union>it \<in> items. insert (ei_nameKey it) (set (item_aliases it)))"

definition class_key :: "entity_item set \<Rightarrow> entity_item \<Rightarrow> string" where
  "class_key items it = Min (alias_class (declared_aliases items) (alias_links items) (ei_nameKey it))"

definition malformed_ids :: "candidate_row list \<Rightarrow> string list" where
  "malformed_ids rows = map ca_id (filter (\<lambda>r. ca_kind r = CEntity \<and> entity_item_of r = None) rows)"

lemma entity_item_of_row: "entity_item_of r = Some it \<Longrightarrow> ei_row it = r"
  by (auto simp: entity_item_of_def Let_def split: option.splits)

lemma entity_items_simps:
  "entity_items [] = []"
  "entity_items (r # rows) =
     (if ca_kind r = CEntity then (case entity_item_of r of None \<Rightarrow> entity_items rows
        | Some it \<Rightarrow> it # entity_items rows) else entity_items rows)"
  by (auto simp: entity_items_def map_filter_simps split: option.splits)

lemma entity_items_iff:
  "it \<in> set (entity_items rows) \<longleftrightarrow>
     (\<exists>r \<in> set rows. ca_kind r = CEntity \<and> entity_item_of r = Some it)"
  by (induction rows) (auto simp: entity_items_simps split: option.splits)

lemma mset_entity_ids:
  "mset (map ca_id (filter (\<lambda>r. ca_kind r = CEntity) rows)) =
     mset (map (\<lambda>it. ca_id (ei_row it)) (entity_items rows)) + mset (malformed_ids rows)"
  by (induction rows)
    (auto simp: entity_items_simps malformed_ids_def entity_item_of_row split: option.splits)

lemma collectEntityItems_ok:
  assumes "uf_repr known links dsu"
  shows "\<exists>rejected dsu'. collectEntityItems rows dsu = Some (entity_items rows, rejected, dsu') \<and>
    uf_repr (known \<union> declared_aliases (set (entity_items rows)))
      (links \<union> alias_links (set (entity_items rows))) dsu' \<and>
    map rj_candidateId rejected = malformed_ids rows"
  using assms
proof (induction rows arbitrary: known links dsu)
  case Nil
  then show ?case
    by (simp add: entity_items_simps declared_aliases_def alias_links_def malformed_ids_def)
next
  case (Cons r rows)
  consider "ca_kind r \<noteq> CEntity" | "ca_kind r = CEntity" "entity_item_of r = None"
    | it where "ca_kind r = CEntity" "entity_item_of r = Some it"
    by (cases "entity_item_of r") auto
  then show ?case
  proof cases
    case 1
    with Cons.IH [OF Cons.prems] show ?thesis by (simp add: entity_items_simps malformed_ids_def)
  next
    case 2
    with Cons.IH [OF Cons.prems] show ?thesis
      by (fastforce simp: entity_items_simps malformed_ids_def)
  next
    case 3
    let ?k = "ei_nameKey it" and ?as = "item_aliases it"
    have "uf_repr (insert ?k known) links (uf_add ?k dsu)"
      by (rule aliases.repr_add [OF Cons.prems])
    from aliases.repr_link_all [OF this, of ?k ?as] obtain dsu1
      where dsu1: "link_all uf_union ?k ?as (uf_add ?k dsu) = Some dsu1"
        "uf_repr (insert ?k known \<union> set ?as) (links \<union> {?k} \<times> set ?as) dsu1" by auto
    have "insert ?k known \<union> set ?as \<union> declared_aliases (set (entity_items rows)) =
        known \<union> declared_aliases (set (entity_items (r # rows)))"
      "links \<union> {?k} \<times> set ?as \<union> alias_links (set (entity_items rows)) =
        links \<union> alias_links (set (entity_items (r # rows)))"
      using 3 by (auto simp: entity_items_simps declared_aliases_def alias_links_def)
    with Cons.IH [OF dsu1(2)] dsu1(1) 3 show ?thesis
      by (auto simp: entity_items_simps malformed_ids_def)
  qed
qed

definition scope_of :: "(jval \<Rightarrow> string) \<Rightarrow> entity_item \<Rightarrow> string" where
  "scope_of str it = scopeRef str (ei_row it) (jget (ca_payload (ei_row it)) ''entityIndex'')"

lemma group_items_ok:
  assumes "uf_repr known links dsu" "\<forall>it \<in> set items. ei_nameKey it \<in> known"
    and key: "\<And>it. key it = Min (alias_class known links (ei_nameKey it))"
  shows "group_items str items dsu scopes ents =
    Some (fold (\<lambda>it. AList.update (scope_of str it) (key it)) items scopes,
          fold (\<lambda>it. group_put (fold_entity (key it) it) (key it)) items ents)"
  using assms(1,2)
proof (induction items arbitrary: dsu scopes ents)
  case Nil
  then show ?case by simp
next
  case (Cons it items)
  then have "insert (ei_nameKey it) known = known" by auto
  with aliases.repr_find [OF Cons.prems(1), of "ei_nameKey it"] obtain dsu'
    where "uf_find (ei_nameKey it) dsu = Some (key it, dsu')" "uf_repr known links dsu'"
    by (auto simp: key)
  with Cons.IH Cons.prems(2) show ?case by (simp add: scope_of_def)
qed

definition candidates_at :: "(string \<times> merged_entity) list \<Rightarrow> string \<Rightarrow> string list" where
  "candidates_at ents k = (case map_of ents k of None \<Rightarrow> [] | Some e \<Rightarrow> me_candidateIds e)"

lemma candidates_at_Nil [simp]: "candidates_at [] k = []"
  by (simp add: candidates_at_def)

lemma candidates_at_put:
  "candidates_at (group_put (fold_entity k it) k ents) k' =
     candidates_at ents k' @ (if k' = k then [ca_id (ei_row it)] else [])"
  by (auto simp: candidates_at_def fold_entity_def split: option.splits)

definition ents_ok :: "(string \<times> merged_entity) list \<Rightarrow> bool" where
  "ents_ok ents \<longleftrightarrow> distinct (map fst ents) \<and> (\<forall>(k, e) \<in> set ents. me_key e = k \<and> me_candidateIds e \<noteq> [])"

lemma ents_ok_put:
  assumes "ents_ok ents"
  shows "ents_ok (group_put (fold_entity k it) k ents)"
proof -
  have ok: "me_key e = k' \<and> me_candidateIds e \<noteq> []" if "map_of ents k' = Some e" for k' e
    using assms map_of_SomeD [OF that] by (auto simp: ents_ok_def)
  have d: "distinct (map fst (group_put (fold_entity k it) k ents))"
    using assms by (simp add: ents_ok_def group_put_keys)
  have "me_key e = k' \<and> me_candidateIds e \<noteq> []"
    if "(k', e) \<in> set (group_put (fold_entity k it) k ents)" for k' e
    using map_of_is_SomeI [OF d that] ok
    by (cases "map_of ents k") (auto simp: fold_entity_def split: if_splits)
  with d show ?thesis by (auto simp: ents_ok_def)
qed

abbreviation put_entities :: "(entity_item \<Rightarrow> string) \<Rightarrow> entity_item list \<Rightarrow> (string \<times> merged_entity) list \<Rightarrow> (string \<times> merged_entity) list" where
  "put_entities key \<equiv> fold (\<lambda>it. group_put (fold_entity (key it) it) (key it))"

lemma put_entities_ok: "ents_ok ents \<Longrightarrow> ents_ok (put_entities key items ents)"
  by (induction items arbitrary: ents) (auto intro: ents_ok_put)

lemma candidates_at_fold:
  "candidates_at (put_entities key items ents) k =
     candidates_at ents k @ map (\<lambda>it. ca_id (ei_row it)) (filter (\<lambda>it. key it = k) items)"
  by (induction items arbitrary: ents) (auto simp: candidates_at_put)

lemma put_entities_members:
  "\<exists>e \<in> set (map snd (put_entities key items [])). me_key e = k \<and> i \<in> set (me_candidateIds e)"
  if "it \<in> set items" "key it = k" "ca_id (ei_row it) = i"
proof -
  let ?ents = "put_entities key items []"
  have "i \<in> set (candidates_at ?ents k)"
    using that by (auto simp: candidates_at_fold)
  then obtain e where "map_of ?ents k = Some e" "i \<in> set (me_candidateIds e)"
    by (cases "map_of ?ents k") (auto simp: candidates_at_def)
  moreover have "ents_ok ?ents" by (rule put_entities_ok) (simp add: ents_ok_def)
  ultimately show ?thesis
    by (auto simp: ents_ok_def dest!: map_of_SomeD intro!: bexI [of _ "(k, e)"])
qed

lemma put_entities_only:
  assumes "e \<in> set (map snd (put_entities key items []))"
  shows "me_candidateIds e = map (\<lambda>it. ca_id (ei_row it)) (filter (\<lambda>it. key it = me_key e) items)"
proof -
  let ?ents = "put_entities key items []"
  have ok: "ents_ok ?ents" by (rule put_entities_ok) (simp add: ents_ok_def)
  from assms obtain k where ke: "(k, e) \<in> set ?ents" by auto
  with ok have "map_of ?ents k = Some e" "me_key e = k"
    by (auto simp: ents_ok_def)
  then have "me_candidateIds e = candidates_at ?ents (me_key e)" by (simp add: candidates_at_def)
  then show ?thesis by (simp add: candidates_at_fold)
qed

lemma mergeEntities_ok:
  assumes "items = entity_items rows" "key = class_key (set items)"
  shows "\<exists>rejected. mergeEntities str rows =
    Some (map snd (put_entities key items []),
          fold (\<lambda>it. AList.update (scope_of str it) (key it)) items [], rejected) \<and>
    map rj_candidateId rejected = malformed_ids rows"
proof -
  from collectEntityItems_ok [OF uf_repr_empty, of rows] assms(1) obtain rejected dsu
    where c: "collectEntityItems rows [] = Some (items, rejected, dsu)"
      "uf_repr (declared_aliases (set items)) (alias_links (set items)) dsu"
      "map rj_candidateId rejected = malformed_ids rows" by auto
  have "group_items str items dsu [] [] =
    Some (fold (\<lambda>it. AList.update (scope_of str it) (key it)) items [], put_entities key items [])"
    by (rule group_items_ok [OF c(2)]) (auto simp: assms(2) class_key_def declared_aliases_def)
  with c show ?thesis by (simp add: mergeEntities_def)
qed

section \<open>Facts and relations\<close>

definition fact_key :: "merged_fact \<Rightarrow> string" where
  "fact_key f = joinKey [mf_entityKey f, mf_predicate f, normalizeObject (mf_object f)]"

definition fact_ids :: "merged_fact \<Rightarrow> string list" where
  "fact_ids f = mf_leaderId f # mf_mergedIds f"

text \<open>The leader is the first contributor with the highest confidence.\<close>

definition fact_led :: "merged_fact \<Rightarrow> bool" where
  "fact_led f \<longleftrightarrow>
     (\<exists>c. find (\<lambda>c. fc_confidence c = mf_confidence f) (mf_contributors f) = Some c \<and>
        mf_leaderId f = fc_candidateId c \<and> mf_recorder f = fc_indexerId c \<and>
        mf_leaderChunkSeq f = fc_chunkSeq c) \<and>
     (\<forall>c \<in> set (mf_contributors f). fc_confidence c \<le> mf_confidence f) \<and>
     mset (map fc_candidateId (mf_contributors f)) = mset (fact_ids f)"

lemma contributor_of_simps [simp]:
  "fc_candidateId (contributor_of str toISO row) = ca_id row"
  "fc_confidence (contributor_of str toISO row) = ca_confidence row"
  "fc_chunkSeq (contributor_of str toISO row) = ca_chunkSeq row"
  by (simp_all add: contributor_of_def Let_def)

lemma new_fact_led: "fact_led (foldFactIntoGroup str toISO key row None)"
  by (simp add: foldFactIntoGroup_def new_fact_group_def fact_led_def fact_ids_def Let_def)

lemma find_append_Some: "find P xs = Some x \<Longrightarrow> find P (xs @ ys) = Some x"
  by (induction xs) auto

lemma find_append_None: "(\<forall>x \<in> set xs. \<not> P x) \<Longrightarrow> find P (xs @ ys) = find P ys"
  by (induction xs) auto

lemma folded_fact_led:
  assumes "fact_led g"
  shows "fact_led (foldFactIntoGroup str toISO key row (Some g))"
proof (cases "mf_confidence g < ca_confidence row")
  case True
  have "\<forall>c \<in> set (mf_contributors g). \<not> fc_confidence c = ca_confidence row"
    using assms True by (fastforce simp: fact_led_def)
  then have "find (\<lambda>c. fc_confidence c = ca_confidence row)
      (mf_contributors g @ [contributor_of str toISO row]) = Some (contributor_of str toISO row)"
    by (simp add: find_append_None)
  with assms True show ?thesis
    by (auto simp: foldFactIntoGroup_def fact_led_def fact_ids_def Let_def)
next
  case False
  with assms show ?thesis
    by (auto simp: foldFactIntoGroup_def fact_led_def fact_ids_def Let_def find_append_Some)
qed

lemma foldFactIntoGroup_ids:
  "fact_ids (foldFactIntoGroup str toISO key row None) = [ca_id row]"
  "mset (fact_ids (foldFactIntoGroup str toISO key row (Some g))) = add_mset (ca_id row) (mset (fact_ids g))"
  by (simp_all add: foldFactIntoGroup_def new_fact_group_def fact_ids_def Let_def)

lemma foldFactIntoGroup_fields:
  "mf_entityKey (foldFactIntoGroup str toISO key row (Some g)) = mf_entityKey g"
  "fact_key (foldFactIntoGroup str toISO key row (Some g)) = fact_key g"
  "mf_entityKey (foldFactIntoGroup str toISO key row None) = key"
  by (simp_all add: foldFactIntoGroup_def new_fact_group_def fact_key_def Let_def)

lemma new_fact_key:
  assumes "text_opt (jget (ca_payload row) ''predicate'') = Some p"
    "text_opt (jget (ca_payload row) ''object'') = Some obj"
  shows "fact_key (foldFactIntoGroup str toISO key row None) = joinKey [key, p, normalizeObject obj]"
  using assms by (simp add: foldFactIntoGroup_def new_fact_group_def fact_key_def Let_def js_string_def)

definition facts_ok :: "string set \<Rightarrow> (string \<times> merged_fact) list \<Rightarrow> bool" where
  "facts_ok keys groups \<longleftrightarrow> distinct (map fst groups) \<and>
     (\<forall>(k, f) \<in> set groups. k = fact_key f \<and> fact_led f \<and> mf_entityKey f \<in> keys)"

lemma facts_ok_put:
  assumes ok: "facts_ok keys groups" and key: "entityKey \<in> keys"
    and new: "fact_key (foldFactIntoGroup str toISO entityKey row None) = k"
  shows "facts_ok keys (group_put (foldFactIntoGroup str toISO entityKey row) k groups)"
proof -
  have old: "k' = fact_key f \<and> fact_led f \<and> mf_entityKey f \<in> keys" if "map_of groups k' = Some f" for k' f
    using ok map_of_SomeD [OF that] by (auto simp: facts_ok_def)
  have d: "distinct (map fst (group_put (foldFactIntoGroup str toISO entityKey row) k groups))"
    using ok by (simp add: facts_ok_def group_put_keys)
  have "k' = fact_key f \<and> fact_led f \<and> mf_entityKey f \<in> keys"
    if "(k', f) \<in> set (group_put (foldFactIntoGroup str toISO entityKey row) k groups)" for k' f
    using map_of_is_SomeI [OF d that] old key new
    by (cases "map_of groups k")
      (auto simp: new_fact_led folded_fact_led foldFactIntoGroup_fields split: if_splits)
  with d show ?thesis by (auto simp: facts_ok_def)
qed

definition concat_ids :: "('g \<Rightarrow> string list) \<Rightarrow> (string \<times> 'g) list \<Rightarrow> string multiset" where
  "concat_ids ids groups = mset (concat (map (\<lambda>e. ids (snd e)) groups))"

lemma concat_ids_group_ids: "concat_ids ids gs = group_ids (\<lambda>g. mset (ids g)) gs"
  by (induction gs) (auto simp: concat_ids_def group_ids_def)

lemma fact_step_ok:
  assumes "facts_ok keys groups" "\<forall>k \<in> ran (map_of scopes). k \<in> keys"
    and "fact_step str toISO scopes row (groups, rejected) = (groups', rejected')"
  shows "facts_ok keys groups' \<and>
    concat_ids fact_ids groups' + mset (map rj_candidateId rejected') =
      concat_ids fact_ids groups + mset (map rj_candidateId rejected) +
      (if ca_kind row = CFact then {#ca_id row#} else {#})"
proof -
  let ?p = "ca_payload row"
  let ?key = "map_of scopes (scopeRef str row (jget ?p ''entityIndex''))"
  show ?thesis
  proof (cases "ca_kind row = CFact \<and> truthy_str ?key \<and>
      text_opt (jget ?p ''predicate'') \<noteq> None \<and> text_opt (jget ?p ''object'') \<noteq> None")
    case False
    with assms show ?thesis
      by (auto simp: fact_step_def Let_def split: if_splits option.splits)
  next
    case True
    then obtain key p obj where k: "?key = Some key" "key \<noteq> []"
      "text_opt (jget ?p ''predicate'') = Some p" "text_opt (jget ?p ''object'') = Some obj"
      by (auto simp: truthy_str_def split: option.splits)
    let ?f = "foldFactIntoGroup str toISO key row" and ?k = "joinKey [key, p, normalizeObject obj]"
    have res: "groups' = group_put ?f ?k groups" "rejected' = rejected"
      using assms(3) True k by (simp_all add: fact_step_def Let_def)
    have "key \<in> keys" using assms(2) k(1) by (auto simp: ran_def)
    then have "facts_ok keys groups'"
      unfolding res by (rule facts_ok_put [OF assms(1) _ new_fact_key [OF k(3,4)]])
    moreover have "concat_ids fact_ids groups' = add_mset (ca_id row) (concat_ids fact_ids groups)"
      unfolding res concat_ids_group_ids using assms(1)
      by (intro group_ids_put) (auto simp: facts_ok_def foldFactIntoGroup_ids)
    ultimately show ?thesis using True res by simp
  qed
qed

lemma mergeFacts_ok:
  assumes "\<forall>k \<in> ran (map_of scopes). k \<in> keys" "mergeFacts str toISO scopes rows = (facts, rejected)"
  shows "(\<forall>f \<in> set facts. fact_led f \<and> mf_entityKey f \<in> keys) \<and> distinct (map fact_key facts) \<and>
    mset (concat (map fact_ids facts)) + mset (map rj_candidateId rejected) =
      mset (map ca_id (filter (\<lambda>r. ca_kind r = CFact) rows))"
proof -
  have fold: "facts_ok keys g \<Longrightarrow> fold (fact_step str toISO scopes) rs (g, rj) = (g', rj') \<Longrightarrow>
    facts_ok keys g' \<and> concat_ids fact_ids g' + mset (map rj_candidateId rj') =
      concat_ids fact_ids g + mset (map rj_candidateId rj) +
      mset (map ca_id (filter (\<lambda>r. ca_kind r = CFact) rs))" for rs g rj g' rj'
  proof (induction rs arbitrary: g rj)
    case (Cons r rs)
    obtain g1 rj1 where step: "fact_step str toISO scopes r (g, rj) = (g1, rj1)"
      by (cases "fact_step str toISO scopes r (g, rj)")
    with fact_step_ok [OF Cons.prems(1) assms(1) step] Cons.IH [of g1 rj1] Cons.prems(2)
    show ?case by (auto split: if_splits)
  qed simp
  from assms(2) obtain groups where g: "fold (fact_step str toISO scopes) rows ([], []) = (groups, rejected)"
    "facts = map snd groups"
    by (auto simp: mergeFacts_def split: prod.splits)
  note ok = fold [OF _ g(1)]
  have groups: "facts_ok keys groups" using ok by (simp add: facts_ok_def)
  then have "map fact_key facts = map fst groups"
    by (auto simp: facts_ok_def g(2))
  with groups have "distinct (map fact_key facts)" by (simp add: facts_ok_def)
  moreover have "\<forall>f \<in> set facts. fact_led f \<and> mf_entityKey f \<in> keys"
    using groups by (auto simp: facts_ok_def g(2))
  ultimately show ?thesis
    using ok by (simp add: facts_ok_def concat_ids_def g(2) comp_def)
qed

definition relation_ids :: "merged_relation \<Rightarrow> string list" where
  "relation_ids r = mr_leaderId r # mr_mergedIds r"

lemma fold_relation_simps:
  "relation_ids (fold_relation a b kind row None) = [ca_id row]"
  "mset (relation_ids (fold_relation a b kind row (Some g))) = add_mset (ca_id row) (mset (relation_ids g))"
  "mr_fromKey (fold_relation a b kind row (Some g)) = mr_fromKey g"
  "mr_toKey (fold_relation a b kind row (Some g)) = mr_toKey g"
  "mr_fromKey (fold_relation a b kind row None) = a" "mr_toKey (fold_relation a b kind row None) = b"
  by (simp_all add: fold_relation_def relation_ids_def Let_def)

definition relation_ok :: "string set \<Rightarrow> merged_relation \<Rightarrow> bool" where
  "relation_ok keys r \<longleftrightarrow> mr_fromKey r \<in> keys \<and> mr_toKey r \<in> keys \<and> mr_fromKey r \<noteq> mr_toKey r"

definition relations_ok :: "string set \<Rightarrow> (string \<times> merged_relation) list \<Rightarrow> bool" where
  "relations_ok keys groups \<longleftrightarrow> distinct (map fst groups) \<and> (\<forall>(k, r) \<in> set groups. relation_ok keys r)"

lemma relations_ok_put:
  assumes ok: "relations_ok keys groups" and "a \<in> keys" "b \<in> keys" "a \<noteq> b"
  shows "relations_ok keys (group_put (fold_relation a b kind row) k groups)"
proof -
  have old: "relation_ok keys r" if "map_of groups k' = Some r" for k' r
    using ok map_of_SomeD [OF that] by (auto simp: relations_ok_def)
  have d: "distinct (map fst (group_put (fold_relation a b kind row) k groups))"
    using ok by (simp add: relations_ok_def group_put_keys)
  have "relation_ok keys r"
    if "(k', r) \<in> set (group_put (fold_relation a b kind row) k groups)" for k' r
    using map_of_is_SomeI [OF d that] old assms(2-4)
    by (cases "map_of groups k") (auto simp: relation_ok_def fold_relation_simps split: if_splits)
  with d show ?thesis by (auto simp: relations_ok_def)
qed

lemma relation_step_ok:
  assumes "relations_ok keys groups" "\<forall>k \<in> ran (map_of scopes). k \<in> keys"
    and "relation_step str scopes row (groups, rejected) = (groups', rejected')"
  shows "relations_ok keys groups' \<and>
    concat_ids relation_ids groups' + mset (map rj_candidateId rejected') =
      concat_ids relation_ids groups + mset (map rj_candidateId rejected) +
      (if ca_kind row = CRelation then {#ca_id row#} else {#})"
proof -
  let ?p = "ca_payload row"
  let ?a = "map_of scopes (scopeRef str row (jget ?p ''fromEntityIndex''))"
  let ?b = "map_of scopes (scopeRef str row (jget ?p ''toEntityIndex''))"
  show ?thesis
  proof (cases "ca_kind row = CRelation \<and> truthy_str ?a \<and> truthy_str ?b \<and> ?a \<noteq> ?b")
    case False
    with assms show ?thesis
      by (auto simp: relation_step_def Let_def split: if_splits)
  next
    case True
    then obtain a b where k: "?a = Some a" "?b = Some b" "a \<noteq> b" "a \<noteq> []" "b \<noteq> []"
      by (auto simp: truthy_str_def split: option.splits)
    let ?kind = "js_string str (jget ?p ''kind'')"
    let ?f = "fold_relation a b ?kind row" and ?k = "joinKey [a, b, ?kind]"
    have res: "groups' = group_put ?f ?k groups" "rejected' = rejected"
      using assms(3) True k by (simp_all add: relation_step_def Let_def)
    have "a \<in> keys" "b \<in> keys" using assms(2) k(1,2) by (auto simp: ran_def)
    then have "relations_ok keys groups'"
      unfolding res by (rule relations_ok_put [OF assms(1) _ _ k(3)])
    moreover have "concat_ids relation_ids groups' = add_mset (ca_id row) (concat_ids relation_ids groups)"
      unfolding res concat_ids_group_ids using assms(1)
      by (intro group_ids_put) (auto simp: relations_ok_def fold_relation_simps)
    ultimately show ?thesis using True res by simp
  qed
qed

lemma mergeRelations_ok:
  assumes "\<forall>k \<in> ran (map_of scopes). k \<in> keys" "mergeRelations str scopes rows = (relations, rejected)"
  shows "(\<forall>r \<in> set relations. relation_ok keys r) \<and>
    mset (concat (map relation_ids relations)) + mset (map rj_candidateId rejected) =
      mset (map ca_id (filter (\<lambda>r. ca_kind r = CRelation) rows))"
proof -
  have fold: "relations_ok keys g \<Longrightarrow> fold (relation_step str scopes) rs (g, rj) = (g', rj') \<Longrightarrow>
    relations_ok keys g' \<and> concat_ids relation_ids g' + mset (map rj_candidateId rj') =
      concat_ids relation_ids g + mset (map rj_candidateId rj) +
      mset (map ca_id (filter (\<lambda>r. ca_kind r = CRelation) rs))" for rs g rj g' rj'
  proof (induction rs arbitrary: g rj)
    case (Cons r rs)
    obtain g1 rj1 where step: "relation_step str scopes r (g, rj) = (g1, rj1)"
      by (cases "relation_step str scopes r (g, rj)")
    with relation_step_ok [OF Cons.prems(1) assms(1) step] Cons.IH [of g1 rj1] Cons.prems(2)
    show ?case by (auto split: if_splits)
  qed simp
  from assms(2) obtain groups where g: "fold (relation_step str scopes) rows ([], []) = (groups, rejected)"
    "relations = map snd groups"
    by (auto simp: mergeRelations_def split: prod.splits)
  show ?thesis
    using fold [OF _ g(1)] by (auto simp: relations_ok_def concat_ids_def g(2) comp_def)
qed

section \<open>Properties\<close>

lemma ran_scopes:
  "k \<in> ran (map_of (fold (\<lambda>it. AList.update (scope_of str it) (key it)) items scopes)) \<Longrightarrow>
     k \<in> ran (map_of scopes) \<or> (\<exists>it \<in> set items. k = key it)"
proof (induction items arbitrary: scopes)
  case (Cons it items)
  then show ?case by (fastforce simp: ran_def split: if_splits)
qed simp

lemma entity_keys:
  assumes "k = key it" "it \<in> set items"
  shows "k \<in> me_key ` set (map snd (put_entities key items []))"
proof -
  obtain e where "e \<in> set (map snd (put_entities key items []))" "me_key e = k"
    using put_entities_members [OF assms(2), of key k] assms(1) by blast
  then show ?thesis by blast
qed

lemma put_entities_ids:
  "mset (concat (map me_candidateIds (map snd (put_entities key items [])))) =
     mset (map (\<lambda>it. ca_id (ei_row it)) items)"
proof -
  have "ents_ok ents \<Longrightarrow> concat_ids me_candidateIds (put_entities key items ents) =
      concat_ids me_candidateIds ents + mset (map (\<lambda>it. ca_id (ei_row it)) items)" for ents
  proof (induction items arbitrary: ents)
    case (Cons it items)
    have "concat_ids me_candidateIds (group_put (fold_entity (key it) it) (key it) ents) =
        add_mset (ca_id (ei_row it)) (concat_ids me_candidateIds ents)"
      unfolding concat_ids_group_ids using Cons.prems
      by (intro group_ids_put) (auto simp: ents_ok_def fold_entity_def)
    with Cons show ?case by (simp add: ents_ok_put)
  qed simp
  from this [of "[]"] show ?thesis
    by (simp add: ents_ok_def concat_ids_def comp_def)
qed

text \<open>The merge always returns; what it returns, part by part.\<close>

lemma mergeCandidates_parts:
  obtains res key where "mergeCandidates str toISO rows = Some res"
    "key = class_key (set (entity_items rows))"
    "rs_entities res = map snd (put_entities key (entity_items rows) [])"
    "\<forall>f \<in> set (rs_facts res). fact_led f \<and> mf_entityKey f \<in> me_key ` set (rs_entities res)"
    "distinct (map fact_key (rs_facts res))"
    "\<forall>r \<in> set (rs_relations res). relation_ok (me_key ` set (rs_entities res)) r"
    "mset (map ca_id rows) =
       mset (concat (map me_candidateIds (rs_entities res))) +
       mset (concat (map fact_ids (rs_facts res))) +
       mset (concat (map relation_ids (rs_relations res))) +
       mset (map rj_candidateId (rs_rejected res))"
proof -
  let ?items = "entity_items rows"
  let ?key = "class_key (set ?items)"
  let ?ents = "map snd (put_entities ?key ?items [])"
  let ?scopes = "fold (\<lambda>it. AList.update (scope_of str it) (?key it)) ?items []"
  obtain rj1 where e: "mergeEntities str rows = Some (?ents, ?scopes, rj1)"
    "map rj_candidateId rj1 = malformed_ids rows"
    using mergeEntities_ok by blast
  have keys: "\<forall>k \<in> ran (map_of ?scopes). k \<in> me_key ` set ?ents"
    using ran_scopes [of _ str ?key ?items "[]"] entity_keys by fastforce
  obtain facts rj2 where f: "mergeFacts str toISO ?scopes rows = (facts, rj2)" by fastforce
  obtain rels rj3 where r: "mergeRelations str ?scopes rows = (rels, rj3)" by fastforce
  note facts = mergeFacts_ok [OF keys f] and rels = mergeRelations_ok [OF keys r]
  have ids: "mset (map ca_id rows) = mset (map ca_id (filter (\<lambda>r. ca_kind r = CEntity) rows)) +
      mset (map ca_id (filter (\<lambda>r. ca_kind r = CFact) rows)) +
      mset (map ca_id (filter (\<lambda>r. ca_kind r = CRelation) rows))"
  proof (induction rows)
    case (Cons r rows)
    then show ?case by (cases "ca_kind r") auto
  qed simp
  have ents: "mset (map ca_id (filter (\<lambda>r. ca_kind r = CEntity) rows)) =
      mset (concat (map me_candidateIds ?ents)) + mset (map rj_candidateId rj1)"
    unfolding mset_entity_ids put_entities_ids e(2) ..
  let ?res = "\<lparr>rs_entities = ?ents, rs_facts = facts, rs_relations = rels, rs_rejected = rj1 @ rj2 @ rj3\<rparr>"
  have "mergeCandidates str toISO rows = Some ?res"
    by (simp add: mergeCandidates_def e(1) f r)
  moreover have "mset (map ca_id rows) = mset (concat (map me_candidateIds ?ents)) +
      mset (concat (map fact_ids facts)) + mset (concat (map relation_ids rels)) +
      mset (map rj_candidateId (rj1 @ rj2 @ rj3))"
  proof -
    have "mset (map ca_id (filter (\<lambda>r. ca_kind r = CFact) rows)) =
        mset (concat (map fact_ids facts)) + mset (map rj_candidateId rj2)"
      "mset (map ca_id (filter (\<lambda>r. ca_kind r = CRelation) rows)) =
        mset (concat (map relation_ids rels)) + mset (map rj_candidateId rj3)"
      using facts rels by simp_all
    then show ?thesis unfolding ids ents map_append mset_append by (simp only: ac_simps)
  qed
  ultimately show thesis
    using facts rels by (intro that [of ?res ?key]) simp_all
qed

text \<open>The merge returns on every list of candidates and accounts for each of them once: as a
  member of an entity, as the leader or a merged member of a fact or a relation, or as
  rejected.\<close>

theorem candidates_accounted:
  "\<exists>res. mergeCandidates str toISO rows = Some res \<and>
     mset (map ca_id rows) =
       mset (concat (map me_candidateIds (rs_entities res))) +
       mset (concat (map (\<lambda>f. mf_leaderId f # mf_mergedIds f) (rs_facts res))) +
       mset (concat (map (\<lambda>r. mr_leaderId r # mr_mergedIds r) (rs_relations res))) +
       mset (map rj_candidateId (rs_rejected res))"
proof -
  obtain res where "mergeCandidates str toISO rows = Some res"
    "mset (map ca_id rows) =
       mset (concat (map me_candidateIds (rs_entities res))) +
       mset (concat (map fact_ids (rs_facts res))) +
       mset (concat (map relation_ids (rs_relations res))) +
       mset (map rj_candidateId (rs_rejected res))"
    by (rule mergeCandidates_parts)
  then show ?thesis unfolding fact_ids_def relation_ids_def by blast
qed

text \<open>Two runs name one person differently, one giving the other's name as canonical, and state
  one fact with different confidence.\<close>

definition ex_rows :: "candidate_row list" where
  "ex_rows =
     [\<lparr>ca_id = ''e1'', ca_runId = ''a'', ca_chunkSeq = 0, ca_kind = CEntity, ca_confidence = 1,
       ca_payload = JObj [(''name'', JStr ''Ann''), (''entityIndex'', JStr ''0'')]\<rparr>,
      \<lparr>ca_id = ''e2'', ca_runId = ''b'', ca_chunkSeq = 0, ca_kind = CEntity, ca_confidence = 1,
       ca_payload = JObj [(''name'', JStr ''A. Lee''), (''canonical'', JStr '' ann ''), (''entityIndex'', JStr ''0'')]\<rparr>,
      \<lparr>ca_id = ''f1'', ca_runId = ''a'', ca_chunkSeq = 0, ca_kind = CFact, ca_confidence = 1 / 2,
       ca_payload = JObj [(''predicate'', JStr ''city''), (''object'', JStr ''Rome''), (''entityIndex'', JStr ''0'')]\<rparr>,
      \<lparr>ca_id = ''f2'', ca_runId = ''b'', ca_chunkSeq = 0, ca_kind = CFact, ca_confidence = 1,
       ca_payload = JObj [(''predicate'', JStr ''city''), (''object'', JStr '' Rome''), (''entityIndex'', JStr ''0'')]\<rparr>]"

text \<open>C12: Two well-formed entity candidates with different ids become one entity exactly when a chain
  of shared aliases links their names; the key of the entity is the smallest alias of the chain,
  whatever the order of the candidates.\<close>

theorem entities_are_alias_classes:
  assumes ids: "distinct (map ca_id rows)"
    and r: "r \<in> set rows" "ca_kind r = CEntity" "entity_item_of r = Some it"
    and r': "r' \<in> set rows" "ca_kind r' = CEntity" "entity_item_of r' = Some it'"
  shows "\<exists>res. mergeCandidates str toISO rows = Some res \<and>
    (\<exists>e \<in> set (rs_entities res). ca_id r \<in> set (me_candidateIds e) \<and>
       me_key e = class_key (set (entity_items rows)) it) \<and>
    ((\<exists>e \<in> set (rs_entities res). ca_id r \<in> set (me_candidateIds e) \<and> ca_id r' \<in> set (me_candidateIds e)) \<longleftrightarrow>
       linked (alias_links (set (entity_items rows))) (ei_nameKey it) (ei_nameKey it'))"
proof -
  let ?items = "entity_items rows"
  obtain res key where m: "mergeCandidates str toISO rows = Some res" "key = class_key (set ?items)"
    "rs_entities res = map snd (put_entities key ?items [])"
    by (rule mergeCandidates_parts)
  have items: "it \<in> set ?items" "it' \<in> set ?items"
    using r r' by (auto simp: entity_items_iff)
  note rows = entity_item_of_row [OF r(3)] entity_item_of_row [OF r'(3)]
  have same: "it1 = it2" if "it1 \<in> set ?items" "it2 \<in> set ?items" "ca_id (ei_row it1) = ca_id (ei_row it2)"
    for it1 it2
    using that ids entity_item_of_row
    by (auto simp: entity_items_iff distinct_map dest!: inj_onD)
  have member: "ca_id (ei_row i) \<in> set (me_candidateIds e) \<longleftrightarrow> me_key e = key i"
    if "i \<in> set ?items" "e \<in> set (rs_entities res)" for i e
  proof -
    have "me_candidateIds e = map (\<lambda>it. ca_id (ei_row it)) (filter (\<lambda>it. key it = me_key e) ?items)"
      using put_entities_only that(2) unfolding m(3) by blast
    then have "ca_id (ei_row i) \<in> set (me_candidateIds e) \<longleftrightarrow>
        (\<exists>x \<in> set ?items. key x = me_key e \<and> ca_id (ei_row x) = ca_id (ei_row i))"
      by (simp add: image_iff) metis
    with that(1) same show ?thesis by metis
  qed
  have here: "\<exists>e \<in> set (rs_entities res). ca_id r \<in> set (me_candidateIds e) \<and> me_key e = key it"
    using put_entities_members [OF items(1), of key "key it" "ca_id r"] rows by (auto simp: m(3))
  have fin: "finite (declared_aliases (set ?items))" by (auto simp: declared_aliases_def)
  have "key it = key it' \<longleftrightarrow> linked (alias_links (set ?items)) (ei_nameKey it) (ei_nameKey it')"
    unfolding m(2) class_key_def using items
    by (intro aliases.min_class_eq_iff fin) (auto simp: declared_aliases_def)
  moreover have "(\<exists>e \<in> set (rs_entities res). ca_id r \<in> set (me_candidateIds e) \<and>
      ca_id r' \<in> set (me_candidateIds e)) \<longleftrightarrow> key it = key it'"
    using here member [OF items(1)] member [OF items(2)] rows by fastforce
  ultimately show ?thesis using m here by blast
qed

theorem entities_are_alias_classes_witness:
  "\<exists>res. mergeCandidates (\<lambda>_. ''0'') (\<lambda>_. None) ex_rows = Some res \<and>
     (\<exists>e \<in> set (rs_entities res). ''e1'' \<in> set (me_candidateIds e) \<and> ''e2'' \<in> set (me_candidateIds e))"
proof -
  let ?r = "ex_rows ! 0" and ?r' = "ex_rows ! 1"
  have rows: "distinct (map ca_id ex_rows)" "?r \<in> set ex_rows" "?r' \<in> set ex_rows"
    "ca_kind ?r = CEntity" "ca_kind ?r' = CEntity" "ca_id ?r = ''e1''" "ca_id ?r' = ''e2''"
    by (simp_all add: ex_rows_def)
  have "entity_item_of ?r \<noteq> None \<and> entity_item_of ?r' \<noteq> None \<and>
    (case (entity_item_of ?r, entity_item_of ?r') of
       (Some it, Some it') \<Rightarrow> item_aliases it' = [ei_nameKey it] | _ \<Rightarrow> False)"
    by code_simp
  then obtain it it' where it: "entity_item_of ?r = Some it" "entity_item_of ?r' = Some it'"
    "item_aliases it' = [ei_nameKey it]" by auto
  have "it' \<in> set (entity_items ex_rows)" using rows it by (auto simp: entity_items_iff)
  then have "(ei_nameKey it', ei_nameKey it) \<in> alias_links (set (entity_items ex_rows))"
    using it(3) by (auto simp: alias_links_def)
  then have "linked (alias_links (set (entity_items ex_rows))) (ei_nameKey it) (ei_nameKey it')"
    by (auto simp: linked_def)
  then show ?thesis
    using entities_are_alias_classes [OF rows(1,2,4) it(1) rows(3,5) it(2), of "\<lambda>_. ''0''" "\<lambda>_. None"]
      rows(6,7) by auto
qed

text \<open>A merged fact is led by its first most confident contributor and carries that confidence;
  no two merged facts share entity, predicate and normalised object; and every fact and both
  ends of every relation point at a merged entity.\<close>

theorem merged_facts_sound:
  assumes "mergeCandidates str toISO rows = Some res"
  shows "(\<forall>f \<in> set (rs_facts res).
      mf_confidence f = Max (fc_confidence ` set (mf_contributors f)) \<and>
      map_option fc_candidateId (find (\<lambda>c. fc_confidence c = mf_confidence f) (mf_contributors f)) =
        Some (mf_leaderId f) \<and>
      mf_entityKey f \<in> me_key ` set (rs_entities res)) \<and>
    distinct (map (\<lambda>f. joinKey [mf_entityKey f, mf_predicate f, normalizeObject (mf_object f)]) (rs_facts res)) \<and>
    (\<forall>r \<in> set (rs_relations res). mr_fromKey r \<in> me_key ` set (rs_entities res) \<and>
      mr_toKey r \<in> me_key ` set (rs_entities res) \<and> mr_fromKey r \<noteq> mr_toKey r)"
proof -
  have led: "\<forall>f \<in> set (rs_facts res). fact_led f \<and> mf_entityKey f \<in> me_key ` set (rs_entities res)"
    "distinct (map fact_key (rs_facts res))"
    "\<forall>r \<in> set (rs_relations res). relation_ok (me_key ` set (rs_entities res)) r"
    by (rule mergeCandidates_parts [of str toISO rows], use assms in simp)+
  have "Max (fc_confidence ` set (mf_contributors f)) = mf_confidence f \<and>
      map_option fc_candidateId (find (\<lambda>c. fc_confidence c = mf_confidence f) (mf_contributors f)) =
        Some (mf_leaderId f)" if "fact_led f" for f
  proof -
    from that obtain c where c: "find (\<lambda>c. fc_confidence c = mf_confidence f) (mf_contributors f) = Some c"
      "mf_leaderId f = fc_candidateId c" "\<forall>c \<in> set (mf_contributors f). fc_confidence c \<le> mf_confidence f"
      by (auto simp: fact_led_def)
    then have "c \<in> set (mf_contributors f)" "fc_confidence c = mf_confidence f"
      by (auto simp: find_Some_iff)
    then have "mf_confidence f \<in> fc_confidence ` set (mf_contributors f)" by (metis imageI)
    then have "Max (fc_confidence ` set (mf_contributors f)) = mf_confidence f"
      using c(3) by (intro Max_eqI) auto
    with c show ?thesis by simp
  qed
  with led show ?thesis
    by (simp add: relation_ok_def fact_key_def [abs_def])
qed

theorem merged_facts_sound_witness:
  "\<exists>res f. mergeCandidates (\<lambda>_. ''0'') (\<lambda>_. None) ex_rows = Some res \<and> rs_facts res = [f] \<and>
     mf_leaderId f = ''f2'' \<and> mf_entityKey f \<in> me_key ` set (rs_entities res) \<and>
     mf_confidence f = Max (fc_confidence ` set (mf_contributors f))"
proof -
  have "map_option (\<lambda>r. map mf_leaderId (rs_facts r)) (mergeCandidates (\<lambda>_. ''0'') (\<lambda>_. None) ex_rows) =
      Some [''f2'']" by code_simp
  then obtain res f where "mergeCandidates (\<lambda>_. ''0'') (\<lambda>_. None) ex_rows = Some res"
    "rs_facts res = [f]" "mf_leaderId f = ''f2''" by auto
  with merged_facts_sound [of "\<lambda>_. ''0''" "\<lambda>_. None" ex_rows res] show ?thesis by simp
qed

end
