(* ===== verification/BeliefFold.thy ===== *)
theory BeliefFold imports SourceVersion "HOL-Library.Multiset" "HOL-Library.Char_ord" "HOL-Library.List_Lexorder" begin

text \<open>
  From enriched scenes to belief verdicts: which scenes feed the belief plane
  (\<open>src/admin/belief-scene-selection.ts\<close>, \<open>belief-value-gate.ts\<close>), and the fold of their state
  changes into one verdict per user, subject and slot (the pure half of
  \<open>src/admin/belief-promotion.service.ts\<close>).

  A scene's end is an instant in milliseconds, None where it cannot be read.  The collation of
  the runtime (\<open>localeCompare\<close>) is the argument \<open>cmp\<close>; nothing below depends on what it
  answers.  Arithmetic on explicitness is exact.
\<close>

section \<open>Scene heads\<close>

record scene_head =
  sh_id :: string
  sh_userId :: jval
  sh_userIds :: jval
  sh_conversationIds :: jval
  sh_occurredTo :: "int option"
  sh_stateDeltas :: jval
  sh_explicitness :: jval
  sh_novelty :: jval
  sh_contradiction :: jval
  sh_stateChange :: jval
  sh_segmenterVersion :: jval

definition sceneSingleUser :: "scene_head \<Rightarrow> string option" where
  "sceneSingleUser scene =
     (case sh_userIds scene of
        JArr [JStr only] \<Rightarrow>
          if only = [] \<or> \<not> strict_eq (sh_userId scene) (JStr only) then None else Some only
      | _ \<Rightarrow> None)"

definition BELIEF_PROMOTER_VERSION :: string where
  "BELIEF_PROMOTER_VERSION = ''belief-promotion-v1''"

definition beliefPromoterVersion :: "string \<Rightarrow> string" where
  "beliefPromoterVersion sceneVersion = BELIEF_PROMOTER_VERSION @ ''|'' @ sceneVersion"

definition PACK_SCENE_WORLD_PREFIX :: string where
  "PACK_SCENE_WORLD_PREFIX = ''pack:''"

definition isPackSceneWorld :: "string \<Rightarrow> bool" where
  "isPackSceneWorld world = starts_with PACK_SCENE_WORLD_PREFIX world"

definition promoterVersionFor :: "string list \<Rightarrow> string \<Rightarrow> string" where
  "promoterVersionFor worlds runPromoterVersion =
     (case worlds of
        [only] \<Rightarrow> if isPackSceneWorld only then beliefPromoterVersion only else runPromoterVersion
      | _ \<Rightarrow> runPromoterVersion)"

section \<open>The value gate\<close>

datatype gate_reason = Undetermined | AboveFloor | BelowFloor

definition dimension :: "jval \<Rightarrow> rat option" where
  "dimension raw = (case raw of JNum (JFin q) \<Rightarrow> Some q | _ \<Rightarrow> None)"

definition readSceneValueVector :: "scene_head \<Rightarrow> rat option list" where
  "readSceneValueVector scene =
     map dimension [sh_novelty scene, sh_contradiction scene, sh_stateChange scene]"

definition sceneValueVerdict :: "scene_head \<Rightarrow> rat \<Rightarrow> bool \<times> gate_reason" where
  "sceneValueVerdict scene least =
     (case map_opt (\<lambda>x. x) (readSceneValueVector scene) of
        None \<Rightarrow> (True, Undetermined)
      | Some values \<Rightarrow> if list_ex (\<lambda>v. least \<le> v) values then (True, AboveFloor) else (False, BelowFloor))"

record admit_counts =
  ac_scenes :: nat
  ac_eligible :: nat
  ac_mixedUser :: nat
  ac_lowValue :: nat

text \<open>The gate is None when the flag is off, else its floor.\<close>

fun admitScenes ::
  "scene_head list \<Rightarrow> rat option \<Rightarrow> admit_counts \<Rightarrow> (scene_head \<times> string) list \<times> admit_counts" where
  "admitScenes [] gate n = ([], n)"
| "admitScenes (scene # scenes) gate n =
     (let n1 = n\<lparr>ac_scenes := Suc (ac_scenes n)\<rparr>
      in case sceneSingleUser scene of
           None \<Rightarrow> admitScenes scenes gate (n1\<lparr>ac_mixedUser := Suc (ac_mixedUser n1)\<rparr>)
         | Some userId \<Rightarrow>
             (if (case gate of None \<Rightarrow> False | Some least \<Rightarrow> \<not> fst (sceneValueVerdict scene least))
              then admitScenes scenes gate (n1\<lparr>ac_lowValue := Suc (ac_lowValue n1)\<rparr>)
              else (case admitScenes scenes gate (n1\<lparr>ac_eligible := Suc (ac_eligible n1)\<rparr>) of
                      (eligible, n2) \<Rightarrow> ((scene, userId) # eligible, n2))))"

section \<open>Contributions\<close>

record contribution =
  bc_sceneId :: string
  bc_conversationId :: string
  bc_occurredAt :: int
  bc_value :: string
  bc_priorValue :: string
  bc_explicitness :: rat
  bc_world :: string

record belief_group =
  bg_userId :: string
  bg_subject :: string
  bg_field :: string
  bg_predicateId :: string
  bg_contributions :: "contribution list"

definition str_of :: "jval \<Rightarrow> string" where
  "str_of v = (case text_opt v of None \<Rightarrow> [] | Some s \<Rightarrow> trim s)"

definition BELIEF_NEGATION_VALUE :: string where
  "BELIEF_NEGATION_VALUE = ''none''"

definition admitDeltaValue :: "jval \<Rightarrow> bool \<Rightarrow> (string \<times> string) option" where
  "admitDeltaValue d negationDeltas =
     (let priorValue = str_of (jget d ''from''); value = str_of (jget d ''to'')
      in if value \<noteq> [] then Some (value, priorValue)
         else if negationDeltas \<and> priorValue \<noteq> [] then Some (BELIEF_NEGATION_VALUE, priorValue)
         else None)"

record fold_opts =
  fo_negationDeltas :: bool
  fo_fieldSlots :: "(string \<times> string) list option"

text \<open>The slot of a written field name, and whether the resolution renamed it.\<close>

definition slotForField :: "string \<Rightarrow> (string \<times> string) list \<Rightarrow> string" where
  "slotForField field fieldSlots =
     (case map_of fieldSlots field of
        None \<Rightarrow> field
      | Some slot \<Rightarrow> if slot = [] then field else slot)"

record fold_context =
  fx_sceneId :: string
  fx_conversationId :: string
  fx_occurredAt :: int
  fx_explicitness :: rat
  fx_world :: string

definition sceneFoldContext :: "scene_head \<Rightarrow> fold_context option" where
  "sceneFoldContext scene =
     (case sh_occurredTo scene of
        None \<Rightarrow> None
      | Some occurredAt \<Rightarrow>
          Some \<lparr>fx_sceneId = sh_id scene,
                fx_conversationId =
                  (case sh_conversationIds scene of JArr (c # _) \<Rightarrow> str_of c | _ \<Rightarrow> []),
                fx_occurredAt = occurredAt,
                fx_explicitness =
                  (case sh_explicitness scene of JNum (JFin q) \<Rightarrow> min 1 (max 0 q) | _ \<Rightarrow> 1 / 2),
                fx_world = str_of (sh_segmenterVersion scene)\<rparr>)"

type_synonym field_fold = "string \<times> string \<times> string \<times> string"

record fold_state =
  fs_groups :: "((string \<times> string \<times> string) \<times> belief_group) list"
  fs_fieldFolds :: "((string \<times> string \<times> string) \<times> field_fold) list"

definition collect_delta ::
  "string \<Rightarrow> fold_context \<Rightarrow> fold_opts \<Rightarrow> jval \<Rightarrow> fold_state \<Rightarrow> fold_state" where
  "collect_delta userId head opts d st =
     (let subject = str_of (jget d ''subject''); rawField = str_of (jget d ''field'')
      in if \<not> is_object d \<or> subject = [] \<or> rawField = [] then st
         else case admitDeltaValue d (fo_negationDeltas opts) of
           None \<Rightarrow> st
         | Some (value, priorValue) \<Rightarrow>
             (let slot = (case fo_fieldSlots opts of None \<Rightarrow> rawField | Some slots \<Rightarrow> slotForField rawField slots);
                  key = (userId, subject, slot);
                  grp = (case map_of (fs_groups st) key of
                             Some g \<Rightarrow> g
                           | None \<Rightarrow> \<lparr>bg_userId = userId, bg_subject = subject, bg_field = rawField,
                                      bg_predicateId = slot, bg_contributions = []\<rparr>);
                  c = \<lparr>bc_sceneId = fx_sceneId head, bc_conversationId = fx_conversationId head,
                       bc_occurredAt = fx_occurredAt head, bc_value = value, bc_priorValue = priorValue,
                       bc_explicitness = fx_explicitness head, bc_world = fx_world head\<rparr>
              in st\<lparr>fs_groups := AList.update key
                       (grp\<lparr>bg_contributions := bg_contributions grp @ [c]\<rparr>) (fs_groups st),
                    fs_fieldFolds :=
                      (if slot = rawField then fs_fieldFolds st
                       else AList.update (userId, subject, rawField) (userId, subject, rawField, slot)
                              (fs_fieldFolds st))\<rparr>))"

definition collectSceneDeltas :: "fold_opts \<Rightarrow> scene_head \<times> string \<Rightarrow> fold_state \<Rightarrow> fold_state" where
  "collectSceneDeltas opts entry st =
     (case entry of (scene, userId) \<Rightarrow>
        (case sceneFoldContext scene of
           None \<Rightarrow> st
         | Some head \<Rightarrow>
             (case sh_stateDeltas scene of
                JArr deltas \<Rightarrow> fold (collect_delta userId head opts) deltas st
              | _ \<Rightarrow> st)))"

section \<open>The verdict of a group\<close>

fun insert_by :: "('a \<Rightarrow> 'a \<Rightarrow> bool) \<Rightarrow> 'a \<Rightarrow> 'a list \<Rightarrow> 'a list" where
  "insert_by le x [] = [x]"
| "insert_by le x (y # ys) = (if le x y then x # y # ys else y # insert_by le x ys)"

text \<open>\<open>sort\<close> with a comparison function: stable.\<close>

definition sort_by :: "('a \<Rightarrow> 'a \<Rightarrow> bool) \<Rightarrow> 'a list \<Rightarrow> 'a list" where
  "sort_by le xs = foldr (insert_by le) xs []"

definition contribution_le :: "(string \<Rightarrow> string \<Rightarrow> int) \<Rightarrow> contribution \<Rightarrow> contribution \<Rightarrow> bool" where
  "contribution_le cmp a b \<longleftrightarrow>
     (let d = bc_occurredAt a - bc_occurredAt b
      in (if d \<noteq> 0 then d else cmp (bc_sceneId a) (bc_sceneId b)) \<le> 0)"

fun run_start :: "contribution list \<Rightarrow> string \<Rightarrow> nat \<Rightarrow> nat" where
  "run_start ordered v 0 = 0"
| "run_start ordered v (Suc i) = (if bc_value (ordered ! i) = v then run_start ordered v i else Suc i)"

record folded_belief =
  fb_userId :: string
  fb_subject :: string
  fb_field :: string
  fb_predicateId :: string
  fb_value :: string
  fb_priorValue :: string
  fb_displacedValue :: string
  fb_displacedAt :: "int option"
  fb_validFrom :: int
  fb_evidenceAt :: int
  fb_runEvidenceAt :: "int list"
  fb_sceneIds :: "string list"
  fb_allSceneIds :: "string list"
  fb_conversationIds :: "string list"
  fb_confidence :: rat
  fb_worlds :: "string list"

record belief_conflict =
  bx_userId :: string
  bx_subject :: string
  bx_field :: string
  bx_values :: "string list"
  bx_allSceneIds :: "string list"

datatype group_verdict = VConflict belief_conflict | VFolded folded_belief

definition CORROBORATION_BONUS :: rat where "CORROBORATION_BONUS = 5 / 100"
definition CONFIDENCE_CAP :: rat where "CONFIDENCE_CAP = 95 / 100"
definition CONFIDENCE_FLOOR :: rat where "CONFIDENCE_FLOOR = 5 / 100"

text \<open>\<open>Math.round(x * 10000) / 10000\<close>.\<close>

definition round4 :: "rat \<Rightarrow> rat" where
  "round4 x = of_int \<lfloor>x * 10000 + 1 / 2\<rfloor> / 10000"

definition fold_confidence :: "contribution list \<Rightarrow> string list \<Rightarrow> rat" where
  "fold_confidence corroborating conversationIds =
     (let mean = sum_list (map bc_explicitness corroborating) / of_nat (length corroborating)
      in min CONFIDENCE_CAP (max CONFIDENCE_FLOOR
           (mean + CORROBORATION_BONUS * of_nat (length conversationIds - 1))))"

definition foldGroupVerdict :: "(string \<Rightarrow> string \<Rightarrow> int) \<Rightarrow> belief_group \<Rightarrow> group_verdict" where
  "foldGroupVerdict cmp grp =
     (let ordered = sort_by (contribution_le cmp) (bg_contributions grp);
          winner = last ordered;
          ambiguous = list_ex (\<lambda>c. bc_occurredAt c = bc_occurredAt winner \<and> bc_value c \<noteq> bc_value winner) ordered;
          allSceneIds = dedupe (map bc_sceneId ordered)
      in if ambiguous
         then VConflict \<lparr>bx_userId = bg_userId grp, bx_subject = bg_subject grp, bx_field = bg_field grp,
                bx_values = sort (dedupe (map bc_value ordered)), bx_allSceneIds = allSceneIds\<rparr>
         else
           let corroborating = filter (\<lambda>c. bc_value c = bc_value winner) ordered;
               runStart = run_start ordered (bc_value winner) (length ordered - 1);
               opener = ordered ! runStart;
               displaced = (if 0 < runStart then bc_value (ordered ! (runStart - 1)) else []);
               conversationIds = dedupe (filter (\<lambda>c. c \<noteq> []) (map bc_conversationId corroborating))
           in VFolded \<lparr>fb_userId = bg_userId grp, fb_subject = bg_subject grp, fb_field = bg_field grp,
                fb_predicateId = bg_predicateId grp, fb_value = bc_value winner,
                fb_priorValue = (if displaced \<noteq> [] then displaced else bc_priorValue opener),
                fb_displacedValue = displaced,
                fb_displacedAt = (if 0 < runStart then Some (bc_occurredAt (ordered ! (runStart - 1))) else None),
                fb_validFrom = bc_occurredAt opener, fb_evidenceAt = bc_occurredAt winner,
                fb_runEvidenceAt = map bc_occurredAt (drop runStart ordered),
                fb_sceneIds = dedupe (map bc_sceneId corroborating), fb_allSceneIds = allSceneIds,
                fb_conversationIds = conversationIds,
                fb_confidence = round4 (fold_confidence corroborating conversationIds),
                fb_worlds = sort (dedupe (filter (\<lambda>w. w \<noteq> []) (map bc_world corroborating)))\<rparr>)"

record belief_fold =
  bf_folded :: "folded_belief list"
  bf_conflicts :: "belief_conflict list"
  bf_fieldFolds :: "field_fold list"

definition folded_le :: "(string \<Rightarrow> string \<Rightarrow> int) \<Rightarrow> folded_belief \<Rightarrow> folded_belief \<Rightarrow> bool" where
  "folded_le cmp a b \<longleftrightarrow>
     (let u = cmp (fb_userId a) (fb_userId b); s = cmp (fb_subject a) (fb_subject b)
      in (if u \<noteq> 0 then u else if s \<noteq> 0 then s else cmp (fb_field a) (fb_field b)) \<le> 0)"

definition foldBeliefGroups ::
  "(string \<Rightarrow> string \<Rightarrow> int) \<Rightarrow> (scene_head \<times> string) list \<Rightarrow> fold_opts \<Rightarrow> belief_fold" where
  "foldBeliefGroups cmp scenes opts =
     (let st = fold (collectSceneDeltas opts) scenes \<lparr>fs_groups = [], fs_fieldFolds = []\<rparr>;
          verdicts = map (foldGroupVerdict cmp) (map snd (fs_groups st))
      in \<lparr>bf_folded = sort_by (folded_le cmp)
            (List.map_filter (\<lambda>v. case v of VFolded b \<Rightarrow> Some b | VConflict _ \<Rightarrow> None) verdicts),
          bf_conflicts = List.map_filter (\<lambda>v. case v of VConflict x \<Rightarrow> Some x | VFolded _ \<Rightarrow> None) verdicts,
          bf_fieldFolds = map snd (fs_fieldFolds st)\<rparr>)"

definition STATEMENT_MAX_CHARS :: nat where "STATEMENT_MAX_CHARS = 500"

text \<open>The dash of the template is not an ASCII character; it is the argument \<open>dash\<close>.\<close>

definition renderBeliefStatement :: "string \<Rightarrow> folded_belief \<Rightarrow> string" where
  "renderBeliefStatement dash f =
     (let base = fb_subject f @ '' '' @ dash @ '' '' @ fb_field f @ '': '' @ fb_value f;
          withPrior = (if fb_priorValue f \<noteq> [] \<and> fb_priorValue f \<noteq> fb_value f
            then base @ '' (was: '' @ fb_priorValue f @ '')'' else base)
      in take STATEMENT_MAX_CHARS withPrior)"

section \<open>Sorting\<close>

lemma set_insert_by [simp]: "set (insert_by le x ys) = insert x (set ys)"
  by (induction ys) auto

lemma mset_insert_by [simp]: "mset (insert_by le x ys) = add_mset x (mset ys)"
  by (induction ys) auto

lemma mset_sort_by [simp]: "mset (sort_by le xs) = mset xs"
  by (induction xs) (auto simp: sort_by_def)

lemma set_sort_by [simp]: "set (sort_by le xs) = set xs"
  by (metis mset_eq_setD mset_sort_by)

lemma sort_by_Nil_iff [simp]: "sort_by le xs = [] \<longleftrightarrow> xs = []"
  by (metis mset_sort_by mset_zero_iff)

lemma sorted_insert_by:
  assumes "\<And>a b. le a b \<Longrightarrow> key a \<le> key b" "\<And>a b. \<not> le a b \<Longrightarrow> key b \<le> (key a :: 'k::linorder)"
  shows "sorted (map key ys) \<Longrightarrow> sorted (map key (insert_by le x ys))"
proof (induction ys)
  case (Cons y ys)
  then show ?case using assms(1) [of x y] assms(2) [of x y] by (auto intro: order_trans)
qed simp

text \<open>The contributions come out in the order of time, whatever the collation answers.\<close>

lemma sorted_contributions: "sorted (map bc_occurredAt (sort_by (contribution_le cmp) cs))"
  unfolding sort_by_def
proof (induction cs)
  case (Cons c cs)
  have "contribution_le cmp a b \<Longrightarrow> bc_occurredAt a \<le> bc_occurredAt b"
    "\<not> contribution_le cmp a b \<Longrightarrow> bc_occurredAt b \<le> bc_occurredAt a" for a b
    by (auto simp: contribution_le_def Let_def split: if_splits)
  with Cons show ?case by (auto intro: sorted_insert_by)
qed simp

lemma last_is_latest:
  assumes "cs \<noteq> []"
  shows "last (sort_by (contribution_le cmp) cs) \<in> set cs"
    "bc_occurredAt (last (sort_by (contribution_le cmp) cs)) = Max (bc_occurredAt ` set cs)"
proof -
  let ?o = "sort_by (contribution_le cmp) cs"
  have ne: "?o \<noteq> []" using assms by simp
  then show mem: "last ?o \<in> set cs" by (metis last_in_set set_sort_by)
  have "bc_occurredAt c \<le> bc_occurredAt (last ?o)" if "c \<in> set cs" for c
  proof -
    obtain i where "i < length ?o" "?o ! i = c" using \<open>c \<in> set cs\<close> by (metis in_set_conv_nth set_sort_by)
    with sorted_nth_mono [OF sorted_contributions [of cmp cs], of i "length ?o - 1"] ne
    show ?thesis by (simp add: last_conv_nth)
  qed
  with mem show "bc_occurredAt (last ?o) = Max (bc_occurredAt ` set cs)"
    by (intro Max_eqI [symmetric]) auto
qed

section \<open>The trailing run\<close>

lemma run_start_le: "run_start xs v i \<le> i"
  by (induction i) (auto simp: le_SucI)

lemma run_start_run: "run_start xs v i \<le> j \<Longrightarrow> j < i \<Longrightarrow> bc_value (xs ! j) = v"
proof (induction i)
  case (Suc i)
  then show ?case by (cases "j = i") (auto split: if_splits)
qed simp

lemma run_start_stops: "0 < run_start xs v i \<Longrightarrow> bc_value (xs ! (run_start xs v i - 1)) \<noteq> v"
  by (induction i) auto

text \<open>The parts of a verdict that is not a conflict.\<close>

lemma foldGroupVerdict_folded:
  assumes "foldGroupVerdict cmp g = VFolded b" "bg_contributions g \<noteq> []"
  defines "o1 \<equiv> sort_by (contribution_le cmp) (bg_contributions g)"
  obtains s where "s < length o1" "\<forall>j. s \<le> j \<and> j < length o1 \<longrightarrow> bc_value (o1 ! j) = fb_value b"
    "0 < s \<longrightarrow> bc_value (o1 ! (s - 1)) \<noteq> fb_value b \<and> fb_displacedValue b = bc_value (o1 ! (s - 1)) \<and>
       fb_displacedAt b = Some (bc_occurredAt (o1 ! (s - 1)))"
    "s = 0 \<longrightarrow> fb_displacedValue b = [] \<and> fb_displacedAt b = None"
    "fb_validFrom b = bc_occurredAt (o1 ! s)" "fb_evidenceAt b = bc_occurredAt (last o1)"
    "fb_value b = bc_value (last o1)" "fb_runEvidenceAt b = map bc_occurredAt (drop s o1)"
    "\<forall>c \<in> set o1. bc_occurredAt c = bc_occurredAt (last o1) \<longrightarrow> bc_value c = bc_value (last o1)"
proof -
  have ne: "o1 \<noteq> []" using assms(2) by (simp add: o1_def)
  let ?v = "bc_value (last o1)"
  let ?s = "run_start o1 ?v (length o1 - 1)"
  have unamb: "\<not> list_ex (\<lambda>c. bc_occurredAt c = bc_occurredAt (last o1) \<and> bc_value c \<noteq> ?v) o1"
    using assms(1) by (auto simp: foldGroupVerdict_def Let_def o1_def split: if_splits)
  then have b: "fb_value b = ?v" "fb_validFrom b = bc_occurredAt (o1 ! ?s)"
    "fb_evidenceAt b = bc_occurredAt (last o1)" "fb_runEvidenceAt b = map bc_occurredAt (drop ?s o1)"
    "fb_displacedValue b = (if 0 < ?s then bc_value (o1 ! (?s - 1)) else [])"
    "fb_displacedAt b = (if 0 < ?s then Some (bc_occurredAt (o1 ! (?s - 1))) else None)"
    using assms(1) by (auto simp: foldGroupVerdict_def Let_def o1_def)
  have "bc_value (o1 ! j) = ?v" if "?s \<le> j" "j < length o1" for j
    using that run_start_run [of o1 ?v "length o1 - 1" j] ne
    by (cases "j = length o1 - 1") (auto simp: last_conv_nth)
  moreover have "?s < length o1"
    using run_start_le [of o1 ?v "length o1 - 1"] ne by (cases o1) auto
  ultimately show thesis
    using that [of ?s] b unamb run_start_stops [of o1 ?v "length o1 - 1"]
    by (auto simp: list_ex_iff)
qed

lemma round4_bounds:
  assumes "of_int m / 10000 \<le> x" "x \<le> of_int n / 10000"
  shows "of_int m / 10000 \<le> round4 x" "round4 x \<le> of_int n / 10000"
proof -
  have "m \<le> \<lfloor>x * 10000 + 1 / 2\<rfloor>" "\<lfloor>x * 10000 + 1 / 2\<rfloor> \<le> n"
    using assms by (simp_all add: le_floor_iff floor_le_iff)
  then show "of_int m / 10000 \<le> round4 x" "round4 x \<le> of_int n / 10000"
    by (simp_all add: round4_def)
qed

lemma fold_confidence_bounds: "5 / 100 \<le> round4 (fold_confidence cs convs)" "round4 (fold_confidence cs convs) \<le> 95 / 100"
  using round4_bounds [of 500 "fold_confidence cs convs" 9500]
  by (simp_all add: fold_confidence_def Let_def CONFIDENCE_CAP_def CONFIDENCE_FLOOR_def min_def max_def)

section \<open>Whose scenes a belief rests on\<close>

lemma alist_update_subset: "e \<in> set (AList.update k v al) \<Longrightarrow> e = (k, v) \<or> e \<in> set al"
  by (induction al) (auto split: if_splits)

definition group_from :: "(scene_head \<times> string) set \<Rightarrow> belief_group \<Rightarrow> bool" where
  "group_from scenes g \<longleftrightarrow> bg_contributions g \<noteq> [] \<and>
     (\<forall>c \<in> set (bg_contributions g). \<exists>scene. (scene, bg_userId g) \<in> scenes \<and> sh_id scene = bc_sceneId c)"

definition groups_from :: "(scene_head \<times> string) set \<Rightarrow> fold_state \<Rightarrow> bool" where
  "groups_from scenes st \<longleftrightarrow>
     (\<forall>(k, g) \<in> set (fs_groups st). fst k = bg_userId g \<and> group_from scenes g)"

lemma collect_delta_from:
  assumes st: "groups_from scenes st" and mem: "(scene, userId) \<in> scenes"
    and head: "sceneFoldContext scene = Some head"
  shows "groups_from scenes (collect_delta userId head opts d st)"
proof (cases "fs_groups (collect_delta userId head opts d st) = fs_groups st")
  case True
  with st show ?thesis by (simp add: groups_from_def)
next
  case False
  have id: "fx_sceneId head = sh_id scene"
    using head by (auto simp: sceneFoldContext_def split: option.splits)
  obtain key g c where upd: "fs_groups (collect_delta userId head opts d st) =
      AList.update key (g\<lparr>bg_contributions := bg_contributions g @ [c]\<rparr>) (fs_groups st)"
    "fst key = userId" "bc_sceneId c = sh_id scene" "bg_userId g = userId"
    "group_from scenes g \<or> bg_contributions g = []"
  proof -
    let ?subject = "str_of (jget d ''subject'')" and ?raw = "str_of (jget d ''field'')"
    let ?slot = "case fo_fieldSlots opts of None \<Rightarrow> ?raw | Some slots \<Rightarrow> slotForField ?raw slots"
    let ?key = "(userId, ?subject, ?slot)"
    let ?g = "case map_of (fs_groups st) ?key of Some g \<Rightarrow> g
      | None \<Rightarrow> \<lparr>bg_userId = userId, bg_subject = ?subject, bg_field = ?raw,
                 bg_predicateId = ?slot, bg_contributions = []\<rparr>"
    from False obtain v prior where "admitDeltaValue d (fo_negationDeltas opts) = Some (v, prior)"
      "is_object d" "?subject \<noteq> []" "?raw \<noteq> []"
      by (auto simp: collect_delta_def Let_def split: if_splits option.splits)
    then have "fs_groups (collect_delta userId head opts d st) =
        AList.update ?key (?g\<lparr>bg_contributions := bg_contributions ?g @
          [\<lparr>bc_sceneId = fx_sceneId head, bc_conversationId = fx_conversationId head,
            bc_occurredAt = fx_occurredAt head, bc_value = v, bc_priorValue = prior,
            bc_explicitness = fx_explicitness head, bc_world = fx_world head\<rparr>]\<rparr>) (fs_groups st)"
      by (simp add: collect_delta_def Let_def)
    moreover have "bg_userId ?g = userId \<and> (group_from scenes ?g \<or> bg_contributions ?g = [])"
      using st by (auto simp: groups_from_def split: option.splits dest!: map_of_SomeD)
    ultimately show thesis using id by (intro that) auto
  qed
  have "group_from scenes (g\<lparr>bg_contributions := bg_contributions g @ [c]\<rparr>)"
    using upd(3-5) mem by (auto simp: group_from_def)
  with st upd(1,2,4) show ?thesis
    by (auto simp: groups_from_def dest!: alist_update_subset)
qed

lemma collectSceneDeltas_from:
  assumes "groups_from scenes st" "entry \<in> scenes"
  shows "groups_from scenes (collectSceneDeltas opts entry st)"
proof (cases entry)
  case (Pair scene userId)
  have "groups_from scenes (fold (collect_delta userId head opts) ds st)"
    if "sceneFoldContext scene = Some head" for head ds
    using assms(1)
  proof (induction ds arbitrary: st)
    case (Cons d ds)
    with collect_delta_from [OF Cons.prems, of scene userId head opts d] that assms(2) Pair
    show ?case by simp
  qed simp
  with assms(1) Pair show ?thesis
    by (auto simp: collectSceneDeltas_def split: option.splits jval.splits)
qed

lemma folded_from:
  assumes "b \<in> set (bf_folded (foldBeliefGroups cmp scenes opts))"
  obtains g where "group_from (set scenes) g" "foldGroupVerdict cmp g = VFolded b"
proof -
  let ?st = "fold (collectSceneDeltas opts) scenes \<lparr>fs_groups = [], fs_fieldFolds = []\<rparr>"
  have "set es \<subseteq> set scenes \<Longrightarrow> groups_from (set scenes) st \<Longrightarrow>
      groups_from (set scenes) (fold (collectSceneDeltas opts) es st)" for es st
    by (induction es arbitrary: st) (auto intro: collectSceneDeltas_from)
  from this [of scenes "\<lparr>fs_groups = [], fs_fieldFolds = []\<rparr>"]
  have st: "groups_from (set scenes) ?st" by (simp add: groups_from_def)
  from assms obtain k g where "(k, g) \<in> set (fs_groups ?st)" "foldGroupVerdict cmp g = VFolded b"
    by (auto simp: foldBeliefGroups_def Let_def map_filter_def split: group_verdict.splits)
  with st that show thesis by (auto simp: groups_from_def)
qed

lemma admitScenes_single:
  "(scene, u) \<in> set (fst (admitScenes scenes gate n)) \<Longrightarrow> scene \<in> set scenes \<and> sceneSingleUser scene = Some u"
proof (induction scenes gate n rule: admitScenes.induct)
  case (2 scene' scenes gate n)
  then show ?case by (auto simp: Let_def split: option.splits if_splits prod.splits)
qed simp

section \<open>Properties\<close>

text \<open>A verdict is a function of the evidence: a group is a conflict exactly when two values share
  its latest instant; otherwise the value at that instant wins, the state began with the run of
  that value which ends there, what it displaced is the last other value before, and the
  confidence stays within its bounds.\<close>

theorem verdict_is_latest:
  assumes "bg_contributions g \<noteq> []"
  shows "case foldGroupVerdict cmp g of
      VConflict x \<Rightarrow> (\<exists>c \<in> set (bg_contributions g). \<exists>d \<in> set (bg_contributions g). bc_value c \<noteq> bc_value d \<and>
        bc_occurredAt c = Max (bc_occurredAt ` set (bg_contributions g)) \<and>
        bc_occurredAt d = Max (bc_occurredAt ` set (bg_contributions g)))
    | VFolded b \<Rightarrow>
        fb_evidenceAt b = Max (bc_occurredAt ` set (bg_contributions g)) \<and>
        (\<forall>c \<in> set (bg_contributions g). bc_occurredAt c = fb_evidenceAt b \<or> fb_validFrom b < bc_occurredAt c \<longrightarrow>
           bc_value c = fb_value b) \<and>
        fb_validFrom b \<le> fb_evidenceAt b \<and>
        (\<exists>c \<in> set (bg_contributions g). bc_occurredAt c = fb_validFrom b \<and> bc_value c = fb_value b) \<and>
        (case fb_displacedAt b of
           None \<Rightarrow> (\<forall>c \<in> set (bg_contributions g). bc_value c = fb_value b)
         | Some t \<Rightarrow> t \<le> fb_validFrom b \<and> fb_displacedValue b \<noteq> fb_value b \<and>
             (\<exists>c \<in> set (bg_contributions g). bc_occurredAt c = t \<and> bc_value c = fb_displacedValue b)) \<and>
        5 / 100 \<le> fb_confidence b \<and> fb_confidence b \<le> 95 / 100"
proof (cases "foldGroupVerdict cmp g")
  case (VConflict x)
  let ?o = "sort_by (contribution_le cmp) (bg_contributions g)"
  from VConflict obtain c where "c \<in> set (bg_contributions g)" "bc_occurredAt c = bc_occurredAt (last ?o)"
    "bc_value c \<noteq> bc_value (last ?o)"
    by (auto simp: foldGroupVerdict_def Let_def list_ex_iff split: if_splits)
  with last_is_latest [OF assms, of cmp] VConflict show ?thesis by auto
next
  case (VFolded b)
  let ?cs = "bg_contributions g"
  let ?o = "sort_by (contribution_le cmp) ?cs"
  obtain s where s: "s < length ?o" "\<forall>j. s \<le> j \<and> j < length ?o \<longrightarrow> bc_value (?o ! j) = fb_value b"
    "0 < s \<longrightarrow> bc_value (?o ! (s - 1)) \<noteq> fb_value b \<and> fb_displacedValue b = bc_value (?o ! (s - 1)) \<and>
       fb_displacedAt b = Some (bc_occurredAt (?o ! (s - 1)))"
    "s = 0 \<longrightarrow> fb_displacedValue b = [] \<and> fb_displacedAt b = None"
    "fb_validFrom b = bc_occurredAt (?o ! s)" "fb_evidenceAt b = bc_occurredAt (last ?o)"
    "fb_value b = bc_value (last ?o)" "fb_runEvidenceAt b = map bc_occurredAt (drop s ?o)"
    "\<forall>c \<in> set ?o. bc_occurredAt c = bc_occurredAt (last ?o) \<longrightarrow> bc_value c = bc_value (last ?o)"
    by (rule foldGroupVerdict_folded [OF VFolded assms])
  have mono: "bc_occurredAt (?o ! i) \<le> bc_occurredAt (?o ! j)" if "i \<le> j" "j < length ?o" for i j
    using sorted_nth_mono [OF sorted_contributions [of cmp ?cs], of i j] that by simp
  have idx: "\<exists>j < length ?o. ?o ! j = c" if "c \<in> set ?cs" for c
    using that by (metis in_set_conv_nth set_sort_by)
  have run: "bc_value c = fb_value b" if "c \<in> set ?cs" "fb_validFrom b < bc_occurredAt c" for c
  proof -
    obtain j where j: "j < length ?o" "?o ! j = c" using idx \<open>c \<in> set ?cs\<close> by blast
    with that(2) mono [of j s] s(1,5) have "s \<le> j" by (metis linorder_not_le nat_le_linear)
    with j s(2) show ?thesis by blast
  qed
  have at: "?o ! s \<in> set ?cs" using s(1) by (metis nth_mem set_sort_by)
  have len: "fb_validFrom b \<le> fb_evidenceAt b"
    using mono [of s "length ?o - 1"] s(1,5,6) assms by (simp add: last_conv_nth)
  have displaced: "case fb_displacedAt b of None \<Rightarrow> (\<forall>c \<in> set ?cs. bc_value c = fb_value b)
      | Some t \<Rightarrow> t \<le> fb_validFrom b \<and> fb_displacedValue b \<noteq> fb_value b \<and>
          (\<exists>c \<in> set ?cs. bc_occurredAt c = t \<and> bc_value c = fb_displacedValue b)"
  proof (cases "s = 0")
    case True
    then have "\<forall>c \<in> set ?cs. bc_value c = fb_value b" using s(2) idx by (metis le0)
    with True s(4) show ?thesis by simp
  next
    case False
    then have "?o ! (s - 1) \<in> set ?cs" using s(1) by (metis less_imp_diff_less nth_mem set_sort_by)
    with False s(3,5) mono [of "s - 1" s] s(1) show ?thesis by auto
  qed
  have conf: "5 / 100 \<le> fb_confidence b \<and> fb_confidence b \<le> 95 / 100"
    using VFolded fold_confidence_bounds
    by (auto simp: foldGroupVerdict_def Let_def split: if_splits)
  have "fb_evidenceAt b = Max (bc_occurredAt ` set ?cs)"
    using s(6) last_is_latest(2) [OF assms] by simp
  moreover have "\<forall>c \<in> set ?cs. bc_occurredAt c = fb_evidenceAt b \<or> fb_validFrom b < bc_occurredAt c \<longrightarrow>
      bc_value c = fb_value b"
    using run s(6,7,9) by auto
  moreover have "\<exists>c \<in> set ?cs. bc_occurredAt c = fb_validFrom b \<and> bc_value c = fb_value b"
    using at s(1,2,5) by (intro bexI [of _ "?o ! s"]) auto
  ultimately show ?thesis using VFolded len displaced conf by simp
qed

text \<open>A value, another one, and the first again, told out of order.\<close>

definition ex_contribution :: "string \<Rightarrow> int \<Rightarrow> string \<Rightarrow> contribution" where
  "ex_contribution scene t v =
     \<lparr>bc_sceneId = scene, bc_conversationId = ''c'', bc_occurredAt = t, bc_value = v,
      bc_priorValue = [], bc_explicitness = 1, bc_world = []\<rparr>"

definition ex_group :: belief_group where
  "ex_group = \<lparr>bg_userId = ''u'', bg_subject = ''Ann'', bg_field = ''city'', bg_predicateId = ''city'',
     bg_contributions = [ex_contribution ''s3'' 30 ''Rome'', ex_contribution ''s1'' 10 ''Rome'',
       ex_contribution ''s2'' 20 ''Oslo'']\<rparr>"

theorem verdict_is_latest_witness:
  "\<exists>b. foldGroupVerdict (\<lambda>_ _. 0) ex_group = VFolded b \<and> fb_value b = ''Rome'' \<and> fb_evidenceAt b = 30 \<and>
     fb_validFrom b = 30 \<and> fb_displacedValue b = ''Oslo'' \<and> fb_validFrom b \<le> fb_evidenceAt b \<and>
     fb_confidence b \<le> 95 / 100"
proof -
  have "case foldGroupVerdict (\<lambda>_ _. 0) ex_group of VConflict _ \<Rightarrow> False
    | VFolded b \<Rightarrow> fb_value b = ''Rome'' \<and> fb_evidenceAt b = 30 \<and> fb_validFrom b = 30 \<and>
        fb_displacedValue b = ''Oslo''"
    by code_simp
  then obtain b where b: "foldGroupVerdict (\<lambda>_ _. 0) ex_group = VFolded b" "fb_value b = ''Rome''"
    "fb_evidenceAt b = 30" "fb_validFrom b = 30" "fb_displacedValue b = ''Oslo''"
    by (auto split: group_verdict.splits)
  have "bg_contributions ex_group \<noteq> []" by (simp add: ex_group_def)
  from verdict_is_latest [OF this, of "\<lambda>_ _. 0"] b show ?thesis by auto
qed

text \<open>A belief of a user rests on scenes of that user alone: every scene behind a folded belief is
  one of the selected scenes, and its only member is the user of the belief.\<close>

theorem belief_rests_on_own_scenes:
  assumes "b \<in> set (bf_folded (foldBeliefGroups cmp (fst (admitScenes scenes gate n)) opts))"
    and "i \<in> set (fb_allSceneIds b)"
  shows "\<exists>scene \<in> set scenes. sh_id scene = i \<and> sceneSingleUser scene = Some (fb_userId b)"
proof -
  obtain g where g: "group_from (set (fst (admitScenes scenes gate n))) g" "foldGroupVerdict cmp g = VFolded b"
    by (rule folded_from [OF assms(1)])
  from g(2) have "fb_userId b = bg_userId g"
    "set (fb_allSceneIds b) = bc_sceneId ` set (bg_contributions g)"
    by (auto simp: foldGroupVerdict_def Let_def split: if_splits)
  with g(1) assms(2) obtain scene where "(scene, fb_userId b) \<in> set (fst (admitScenes scenes gate n))"
    "sh_id scene = i"
    by (auto simp: group_from_def)
  with admitScenes_single show ?thesis by blast
qed

definition ex_scene :: "string \<Rightarrow> string list \<Rightarrow> scene_head" where
  "ex_scene i users =
     \<lparr>sh_id = i, sh_userId = (case users of [u] \<Rightarrow> JStr u | _ \<Rightarrow> JUndef), sh_userIds = JArr (map JStr users),
      sh_conversationIds = JArr [JStr ''c''], sh_occurredTo = Some 10,
      sh_stateDeltas = JArr [JObj [(''subject'', JStr ''Ann''), (''field'', JStr ''city''), (''to'', JStr ''Rome'')]],
      sh_explicitness = JUndef, sh_novelty = JUndef, sh_contradiction = JUndef, sh_stateChange = JUndef,
      sh_segmenterVersion = JUndef\<rparr>"

theorem belief_rests_on_own_scenes_witness:
  "\<exists>scene \<in> set [ex_scene ''s1'' [''u''], ex_scene ''s2'' [''u'', ''v'']].
     sh_id scene = ''s1'' \<and> sceneSingleUser scene = Some ''u''"
proof -
  let ?n = "\<lparr>ac_scenes = 0, ac_eligible = 0, ac_mixedUser = 0, ac_lowValue = 0\<rparr>"
  let ?fold = "foldBeliefGroups (\<lambda>_ _. 0)
    (fst (admitScenes [ex_scene ''s1'' [''u''], ex_scene ''s2'' [''u'', ''v'']] None ?n))
    \<lparr>fo_negationDeltas = False, fo_fieldSlots = None\<rparr>"
  have "map (\<lambda>b. (fb_userId b, fb_allSceneIds b)) (bf_folded ?fold) = [(''u'', [''s1''])]"
    by code_simp
  then obtain b where "b \<in> set (bf_folded ?fold)" "fb_userId b = ''u''" "fb_allSceneIds b = [''s1'']"
    by auto
  with belief_rests_on_own_scenes [of b "\<lambda>_ _. 0" "[ex_scene ''s1'' [''u''], ex_scene ''s2'' [''u'', ''v'']]"
      None ?n "\<lparr>fo_negationDeltas = False, fo_fieldSlots = None\<rparr>" "''s1''"]
  show ?thesis by simp
qed

end
