(* ===== verification/BeliefRevision.thy ===== *)
theory BeliefRevision imports BeliefFold EvidenceRefs begin

text \<open>
  The write path of beliefs: \<open>src/admin/belief-revision.ts\<close> and \<open>upsertBelief\<close> of
  \<open>src/admin/belief-promotion.service.ts\<close> over the table \<open>semantic_belief\<close>.

  A record id is a digest of user, subject, slot and revision; it is modelled as these four
  themselves, so two ids are equal only if they were built from the same text.  All rows carry
  their slot (they were written after migration 0147 and no consolidation has renamed it).  An
  attempt reads the active rows, may wait for a phrasing of the statement, and then writes: the
  table it read and the table it writes to are two arguments, with anything other processes did
  between.  The transaction of a revision is one step; \<open>conflict\<close> says that the datastore
  refused it.  Writes to the scenes and to the support edges are returned as a list of effects.
\<close>

section \<open>Rows\<close>

type_synonym belief_key = "string \<times> string \<times> string"
type_synonym belief_id = "belief_key \<times> nat"

record belief_row =
  br_key :: belief_key
  br_revision :: nat
  br_field :: string
  br_value :: string
  br_priorValue :: "string option"
  br_statement :: string
  br_confidence :: rat
  br_promoterVersion :: string
  br_active :: bool
  br_supersededBy :: "belief_id option"
  br_validFrom :: int
  br_validUntil :: "int option"
  br_latestEvidenceAt :: "int option"
  br_sourceSceneIds :: "string list"
  br_conversationIds :: "string list"
  br_corroborationCount :: nat
  br_conversationCount :: nat

type_synonym belief_table = "belief_row list"

definition brow_id :: "belief_row \<Rightarrow> belief_id" where
  "brow_id r = (br_key r, br_revision r)"

definition belief_key_of :: "folded_belief \<Rightarrow> belief_key" where
  "belief_key_of b = (fb_userId b, fb_subject b, fb_predicateId b)"

definition beliefRecord :: "folded_belief \<Rightarrow> nat \<Rightarrow> belief_id" where
  "beliefRecord b revision = (belief_key_of b, revision)"

definition watermark_of :: "belief_row \<Rightarrow> int" where
  "watermark_of r = (case br_latestEvidenceAt r of Some w \<Rightarrow> w | None \<Rightarrow> br_validFrom r)"

definition update_row :: "belief_id \<Rightarrow> (belief_row \<Rightarrow> belief_row) \<Rightarrow> belief_table \<Rightarrow> belief_table" where
  "update_row i f tb = map (\<lambda>r. if brow_id r = i then f r else r) tb"

record promotion_counts =
  pc_created :: nat
  pc_corroborated :: nat
  pc_revised :: nat
  pc_realigned :: nat
  pc_stale :: nat
  pc_contended :: nat
  pc_duplicatesRetired :: nat

datatype belief_node = NBelief belief_id | NScene string

datatype belief_effect =
    StampScenes "string list" belief_id
  | StampSupersededFrom "string list" belief_id nat string
  | WriteEdges "(edge_kind \<times> (belief_node \<times> belief_node) list) list"

section \<open>Corroboration\<close>

definition prior_text :: "belief_row \<Rightarrow> string" where
  "prior_text r = (case br_priorValue r of None \<Rightarrow> [] | Some s \<Rightarrow> trim s)"

definition realigned_start :: "belief_row \<Rightarrow> folded_belief \<Rightarrow> int option" where
  "realigned_start head b =
     (let interludeAfterHead = (case fb_displacedAt b of None \<Rightarrow> False | Some t \<Rightarrow> br_validFrom head < t);
          earlierAndUnbounded = (fb_validFrom b < br_validFrom head \<and> br_revision head = 1)
      in if fb_validFrom b \<noteq> br_validFrom head \<and>
            ((br_validFrom head < fb_validFrom b \<and> interludeAfterHead) \<or> earlierAndUnbounded)
         then Some (fb_validFrom b) else None)"

definition backfilled_prior :: "belief_row \<Rightarrow> folded_belief \<Rightarrow> string option" where
  "backfilled_prior head b =
     (if fb_displacedValue b \<noteq> [] \<and> fb_displacedValue b \<noteq> fb_value b \<and> prior_text head = []
      then Some (fb_displacedValue b) else None)"

definition advanced_watermark :: "belief_row \<Rightarrow> folded_belief \<Rightarrow> int option" where
  "advanced_watermark head b =
     (let next = max (watermark_of head) (fb_evidenceAt b)
      in if br_latestEvidenceAt head = None \<or> watermark_of head < next then Some next else None)"

definition new_scenes :: "belief_row \<Rightarrow> folded_belief \<Rightarrow> string list" where
  "new_scenes head b = filter (\<lambda>s. s \<notin> set (br_sourceSceneIds head)) (fb_sceneIds b)"

definition corroborated_row :: "belief_row \<Rightarrow> folded_belief \<Rightarrow> belief_row \<Rightarrow> belief_row" where
  "corroborated_row head b r =
     (let scenes = dedupe (br_sourceSceneIds head @ fb_sceneIds b);
          convs = dedupe (br_conversationIds head @ fb_conversationIds b);
          r1 = (if new_scenes head b = [] then r
                else r\<lparr>br_sourceSceneIds := scenes, br_conversationIds := convs,
                       br_corroborationCount := length scenes, br_conversationCount := length convs\<rparr>);
          r2 = (case advanced_watermark head b of None \<Rightarrow> r1 | Some w \<Rightarrow> r1\<lparr>br_latestEvidenceAt := Some w\<rparr>);
          r3 = (case realigned_start head b of None \<Rightarrow> r2 | Some t \<Rightarrow> r2\<lparr>br_validFrom := t\<rparr>)
      in case backfilled_prior head b of None \<Rightarrow> r3 | Some p \<Rightarrow> r3\<lparr>br_priorValue := Some p\<rparr>)"

definition corroborateBelief ::
  "belief_row \<Rightarrow> folded_belief \<Rightarrow> belief_table \<times> promotion_counts \<Rightarrow> belief_table \<times> promotion_counts" where
  "corroborateBelief head b st =
     (case st of (tb, n) \<Rightarrow>
        (update_row (brow_id head) (corroborated_row head b) tb,
         n\<lparr>pc_corroborated := pc_corroborated n + (if new_scenes head b = [] then 0 else 1),
           pc_realigned := pc_realigned n +
             (if realigned_start head b = None \<and> backfilled_prior head b = None then 0 else 1)\<rparr>))"

section \<open>The revision transaction\<close>

record displaced_head =
  dh_id :: belief_id
  dh_revision :: nat
  dh_until :: int
  dh_watermark :: "int option"

definition revision_row ::
  "folded_belief \<Rightarrow> nat \<Rightarrow> string \<Rightarrow> string \<Rightarrow> belief_row" where
  "revision_row b revision promoterVersion statement =
     \<lparr>br_key = belief_key_of b, br_revision = revision, br_field = fb_field b, br_value = fb_value b,
      br_priorValue = (if fb_priorValue b = [] then None else Some (fb_priorValue b)),
      br_statement = statement, br_confidence = fb_confidence b, br_promoterVersion = promoterVersion,
      br_active = True, br_supersededBy = None, br_validFrom = fb_validFrom b, br_validUntil = None,
      br_latestEvidenceAt = Some (fb_evidenceAt b), br_sourceSceneIds = fb_sceneIds b,
      br_conversationIds = fb_conversationIds b, br_corroborationCount = length (fb_sceneIds b),
      br_conversationCount = length (fb_conversationIds b)\<rparr>"

definition insert_ignore :: "belief_row \<Rightarrow> belief_table \<Rightarrow> belief_table" where
  "insert_ignore row tb = (if brow_id row \<in> set (map brow_id tb) then tb else tb @ [row])"

definition head_holds :: "displaced_head \<Rightarrow> belief_row \<Rightarrow> bool" where
  "head_holds d r \<longleftrightarrow> brow_id r = dh_id d \<and> br_active r \<and> br_revision r = dh_revision d \<and>
     (br_latestEvidenceAt r = None \<or> br_latestEvidenceAt r = dh_watermark d)"

definition supersede :: "belief_id \<Rightarrow> int \<Rightarrow> belief_row \<Rightarrow> belief_row" where
  "supersede newId until r = r\<lparr>br_active := False, br_supersededBy := Some newId, br_validUntil := Some until\<rparr>"

definition commitRevision ::
  "bool \<Rightarrow> folded_belief \<Rightarrow> nat \<Rightarrow> string \<Rightarrow> string \<Rightarrow> displaced_head option \<Rightarrow> belief_table \<Rightarrow> bool \<times> belief_table"
where
  "commitRevision conflict b revision promoterVersion statement displaced tb =
     (let newId = beliefRecord b revision;
          row = revision_row b revision promoterVersion statement
      in if conflict \<or> list_ex (\<lambda>r. brow_id r = newId \<and> br_value r \<noteq> fb_value b) tb then (False, tb)
         else let tb1 = insert_ignore row tb
              in case displaced of
                   None \<Rightarrow> (True, tb1)
                 | Some d \<Rightarrow>
                     if list_ex (head_holds d) tb1
                     then (True, map (\<lambda>r. if head_holds d r then supersede newId (dh_until d) r else r) tb1)
                     else (False, tb))"

section \<open>One attempt\<close>

definition active_rows :: "folded_belief \<Rightarrow> belief_table \<Rightarrow> belief_row list" where
  "active_rows b tb =
     sort_by (\<lambda>r r'. br_revision r' \<le> br_revision r)
       (filter (\<lambda>r. br_active r \<and> br_key r = belief_key_of b) tb)"

fun retire_duplicates ::
  "belief_row \<Rightarrow> belief_row list \<Rightarrow> belief_table \<times> promotion_counts \<Rightarrow>
     belief_row \<times> belief_table \<times> promotion_counts" where
  "retire_duplicates head [] (tb, n) = (head, tb, n)"
| "retire_duplicates head (d # ds) (tb, n) =
     (let tb1 = update_row (brow_id d) (supersede (brow_id head) (br_validFrom head)) tb;
          n1 = n\<lparr>pc_duplicatesRetired := Suc (pc_duplicatesRetired n)\<rparr>;
          donor = trim (br_value d)
      in if prior_text head = [] \<and> donor \<noteq> [] \<and> donor \<noteq> trim (br_value head)
         then retire_duplicates (head\<lparr>br_priorValue := Some donor\<rparr>) ds
                (update_row (brow_id head) (\<lambda>r. r\<lparr>br_priorValue := Some donor\<rparr>) tb1, n1)
         else retire_duplicates head ds (tb1, n1))"

datatype attempt = Done | Contended

record attempt_result =
  ar_outcome :: attempt
  ar_table :: belief_table
  ar_counts :: promotion_counts
  ar_effects :: "belief_effect list"

definition edge_effects :: "bool \<Rightarrow> (edge_kind \<times> (belief_node \<times> belief_node) list) list \<Rightarrow> belief_effect list" where
  "edge_effects edgesOn specs = (if edgesOn then [WriteEdges specs] else [])"

definition supported_by :: "belief_id \<Rightarrow> folded_belief \<Rightarrow> edge_kind \<times> (belief_node \<times> belief_node) list" where
  "supported_by i b = (SupportedBy, map (\<lambda>s. (NBelief i, NScene s)) (fb_sceneIds b))"

definition revision_start :: "belief_row \<Rightarrow> folded_belief \<Rightarrow> int" where
  "revision_start head b =
     (case find (\<lambda>t. watermark_of head < t) (fb_runEvidenceAt b) of Some t \<Rightarrow> t | None \<Rightarrow> fb_evidenceAt b)"

record attempt_opts =
  ao_runPromoterVersion :: string
  ao_edgesOn :: bool
  ao_statement :: "folded_belief \<Rightarrow> string"
  ao_conflict :: bool

definition upsertBeliefOnce ::
  "attempt_opts \<Rightarrow> folded_belief \<Rightarrow> belief_table \<Rightarrow> belief_table \<Rightarrow> promotion_counts \<Rightarrow> attempt_result" where
  "upsertBeliefOnce opts b seen now n =
     (let pv = promoterVersionFor (fb_worlds b) (ao_runPromoterVersion opts);
          done = (\<lambda>tb n es. \<lparr>ar_outcome = Done, ar_table = tb, ar_counts = n, ar_effects = es\<rparr>);
          contended = (\<lambda>tb n. \<lparr>ar_outcome = Contended, ar_table = tb, ar_counts = n, ar_effects = []\<rparr>)
      in case active_rows b seen of
           [] \<Rightarrow>
             (case commitRevision (ao_conflict opts) b 1 pv (ao_statement opts b) None now of
                (committed, tb) \<Rightarrow>
                  if \<not> committed then contended tb n
                  else done tb (n\<lparr>pc_created := Suc (pc_created n)\<rparr>)
                    (StampScenes (fb_sceneIds b) (beliefRecord b 1) #
                     edge_effects (ao_edgesOn opts) [supported_by (beliefRecord b 1) b]))
         | read_head # rest \<Rightarrow>
             (case retire_duplicates read_head rest (now, n) of
                (head, tb, n1) \<Rightarrow>
                  if br_value head = fb_value b
                  then (case corroborateBelief head b (tb, n1) of
                          (tb1, n2) \<Rightarrow>
                            done tb1 n2 (StampScenes (fb_sceneIds b) (brow_id head) #
                              edge_effects (ao_edgesOn opts) [supported_by (brow_id head) b]))
                  else if fb_evidenceAt b \<le> watermark_of head \<or> revision_start head b \<le> br_validFrom head
                  then done tb (n1\<lparr>pc_stale := Suc (pc_stale n1)\<rparr>) []
                  else
                    let revision = Suc (br_revision head);
                        newId = beliefRecord b revision;
                        revised = b\<lparr>fb_priorValue := br_value head, fb_validFrom := revision_start head b\<rparr>;
                        d = \<lparr>dh_id = brow_id head, dh_revision = br_revision head,
                             dh_until = revision_start head b, dh_watermark = br_latestEvidenceAt head\<rparr>
                    in case commitRevision (ao_conflict opts) revised revision pv
                              (ao_statement opts revised) (Some d) tb of
                         (committed, tb1) \<Rightarrow>
                           if \<not> committed then contended tb1 n1
                           else done tb1 (n1\<lparr>pc_revised := Suc (pc_revised n1)\<rparr>)
                             (StampScenes (fb_sceneIds b) newId #
                              StampSupersededFrom (fb_sceneIds b) (brow_id head) (br_revision head) (br_value head) #
                              edge_effects (ao_edgesOn opts)
                                [(ContradictedBy, [(NBelief (brow_id head), NBelief newId)]),
                                 (DerivedFrom, [(NBelief newId, NBelief (brow_id head))]),
                                 supported_by newId b])))"

text \<open>A lost attempt is decided once more against a fresh read; \<open>others\<close> is what other processes
  do before the write of the first attempt, between the two, and before the second write.\<close>

definition upsertBelief ::
  "attempt_opts \<Rightarrow> attempt_opts \<Rightarrow> (belief_table \<Rightarrow> belief_table) \<times> (belief_table \<Rightarrow> belief_table) \<times> (belief_table \<Rightarrow> belief_table) \<Rightarrow>
     folded_belief \<Rightarrow> belief_table \<Rightarrow> promotion_counts \<Rightarrow> attempt_result" where
  "upsertBelief opts1 opts2 others b tb n =
     (case others of (o1, o2, o3) \<Rightarrow>
        (let r1 = upsertBeliefOnce opts1 b tb (o1 tb) n
         in case ar_outcome r1 of
              Done \<Rightarrow> r1
            | Contended \<Rightarrow>
                (let seen = o2 (ar_table r1);
                     r2 = upsertBeliefOnce opts2 b seen (o3 seen) (ar_counts r1)
                 in case ar_outcome r2 of
                      Done \<Rightarrow> r2
                    | Contended \<Rightarrow> r2\<lparr>ar_counts := (ar_counts r2)\<lparr>pc_contended := Suc (pc_contended (ar_counts r2))\<rparr>\<rparr>)))"

section \<open>Histories\<close>

text \<open>A history lists the states of the table, the newest first.  A step is the write of an
  attempt that read any state of it.\<close>

inductive belief_step :: "belief_table list \<Rightarrow> belief_table list \<Rightarrow> bool" where
  attempt: "seen \<in> set (tb # past) \<Longrightarrow>
    belief_step (tb # past) (ar_table (upsertBeliefOnce opts b seen tb n) # tb # past)"

section \<open>The chain of revisions\<close>

text \<open>The part of a row that places it in its chain.  The chain of a key is intact when its
  revisions are numbered from one without gaps, the last one alone is active and every other one
  points at its successor.\<close>

definition link_of :: "belief_row \<Rightarrow> belief_key \<times> nat \<times> bool \<times> belief_id option" where
  "link_of r = (br_key r, br_revision r, br_active r, br_supersededBy r)"

definition chain_at :: "(belief_key \<times> nat \<times> bool \<times> belief_id option) set \<Rightarrow> belief_key \<Rightarrow> nat \<Rightarrow> bool" where
  "chain_at links k m \<longleftrightarrow>
     (\<forall>j. (\<exists>a s. (k, j, a, s) \<in> links) \<longleftrightarrow> 1 \<le> j \<and> j \<le> m) \<and>
     (\<forall>j a s. (k, j, a, s) \<in> links \<longrightarrow> (a \<longleftrightarrow> j = m) \<and> (\<not> a \<longrightarrow> s = Some (k, Suc j)))"

definition chain_ok :: "belief_table \<Rightarrow> bool" where
  "chain_ok tb \<longleftrightarrow> distinct (map brow_id tb) \<and> (\<forall>k. \<exists>m. chain_at (link_of ` set tb) k m)"

lemma chain_ok_links:
  assumes "map link_of tb = map link_of tb'"
  shows "chain_ok tb = chain_ok tb'"
proof -
  have "map brow_id t = map (\<lambda>(k, j, a, s). (k, j)) (map link_of t)" for t
    by (simp add: brow_id_def link_of_def)
  then have "map brow_id tb = map brow_id tb'" by (metis assms)
  moreover have "link_of ` set tb = link_of ` set tb'" using assms by (metis list.set_map)
  ultimately show ?thesis by (simp add: chain_ok_def)
qed

lemma chain_ok_update:
  assumes "\<And>r. link_of (f r) = link_of r"
  shows "chain_ok (update_row i f tb) = chain_ok tb"
  by (rule chain_ok_links) (simp add: update_row_def assms)

lemma chain_ok_Nil: "chain_ok []"
proof -
  have "chain_at {} k 0" for k by (simp add: chain_at_def)
  then show ?thesis by (auto simp: chain_ok_def)
qed

lemma chain_ok_at: "chain_ok tb \<Longrightarrow> \<exists>m. chain_at (link_of ` set tb) k m"
  unfolding chain_ok_def by blast

lemma chain_rows:
  assumes "chain_ok tb" "r \<in> set tb" "r' \<in> set tb" "brow_id r = brow_id r'"
  shows "r = r'"
  using assms by (auto simp: chain_ok_def distinct_map dest: inj_onD)

lemma chain_atD:
  assumes "chain_at (link_of ` set tb) k m" "r \<in> set tb" "br_key r = k"
  shows "1 \<le> br_revision r" "br_revision r \<le> m" "br_active r \<longleftrightarrow> br_revision r = m"
    "\<not> br_active r \<Longrightarrow> br_supersededBy r = Some (k, Suc (br_revision r))"
proof -
  have "(k, br_revision r, br_active r, br_supersededBy r) \<in> link_of ` set tb"
    using assms(2,3) by (auto simp: link_of_def intro!: image_eqI [of _ _ r])
  then show "1 \<le> br_revision r" "br_revision r \<le> m" "br_active r \<longleftrightarrow> br_revision r = m"
    "\<not> br_active r \<Longrightarrow> br_supersededBy r = Some (k, Suc (br_revision r))"
    using assms(1) unfolding chain_at_def by blast+
qed

lemma chain_at_row:
  assumes "chain_at (link_of ` set tb) k m" "1 \<le> j" "j \<le> m"
  obtains r where "r \<in> set tb" "br_key r = k" "br_revision r = j"
proof -
  from assms obtain a s where "(k, j, a, s) \<in> link_of ` set tb" unfolding chain_at_def by blast
  with that show thesis by (auto simp: link_of_def)
qed

lemma one_active:
  assumes "chain_ok tb" "r \<in> set tb" "r' \<in> set tb" "br_active r" "br_active r'" "br_key r = br_key r'"
  shows "r = r'"
proof -
  obtain m where "chain_at (link_of ` set tb) (br_key r) m" using chain_ok_at [OF assms(1)] by blast
  with assms have "br_revision r = m" "br_revision r' = m" using chain_atD(3) by auto
  then show ?thesis using assms by (intro chain_rows [OF assms(1-3)]) (simp add: brow_id_def)
qed

lemma distinct_all_same: "distinct xs \<Longrightarrow> \<forall>x \<in> set xs. \<forall>y \<in> set xs. x = y \<Longrightarrow> xs = [] \<or> (\<exists>x. xs = [x])"
  by (metis distinct_length_2_or_more list.exhaust list.set_intros)

lemma active_rows_chain:
  assumes "chain_ok tb"
  shows "active_rows b tb = [] \<or> (\<exists>r. active_rows b tb = [r] \<and> r \<in> set tb \<and> br_active r \<and> br_key r = belief_key_of b)"
proof -
  let ?rs = "filter (\<lambda>r. br_active r \<and> br_key r = belief_key_of b) tb"
  have d: "distinct ?rs" using assms by (auto simp: chain_ok_def distinct_map)
  have "\<forall>r \<in> set ?rs. \<forall>r' \<in> set ?rs. r = r'"
    using one_active [OF assms] by auto
  with d have "?rs = [] \<or> (\<exists>r. ?rs = [r])" by (rule distinct_all_same)
  then show ?thesis
  proof
    assume "\<exists>r. ?rs = [r]"
    then obtain r where r: "?rs = [r]" by blast
    have "r \<in> set ?rs" unfolding r by simp
    then have "r \<in> set tb \<and> br_active r \<and> br_key r = belief_key_of b" by simp
    with r show ?thesis by (simp add: active_rows_def sort_by_def)
  qed (simp add: active_rows_def sort_by_def)
qed

lemma active_rows_None:
  "active_rows b tb = [] \<longleftrightarrow> (\<forall>r \<in> set tb. br_active r \<longrightarrow> br_key r \<noteq> belief_key_of b)"
  by (auto simp: active_rows_def filter_empty_conv)

subsection \<open>A revision extends the chain\<close>

lemma link_of_revision_row [simp]:
  "link_of (revision_row b n pv st) = (belief_key_of b, n, True, None)"
  "brow_id (revision_row b n pv st) = (belief_key_of b, n)"
  "br_key (revision_row b n pv st) = belief_key_of b" "br_revision (revision_row b n pv st) = n"
  by (simp_all add: link_of_def brow_id_def revision_row_def)

lemma chain_at_other:
  assumes "chain_at (link_of ` set tb) k m" "\<forall>e. fst e = k \<longrightarrow> (e \<in> links \<longleftrightarrow> e \<in> link_of ` set tb)"
  shows "chain_at links k m"
  using assms unfolding chain_at_def by simp

lemma chain_at_none: "chain_at links k 0 \<Longrightarrow> (k, j, a, s) \<notin> links"
  unfolding chain_at_def by (metis le_zero_eq not_one_le_zero)

lemma chain_at_extend:
  assumes m: "chain_at links k m" "1 \<le> m"
    and new: "\<And>j a s. (k, j, a, s) \<in> links' \<longleftrightarrow> (j, a, s) = (Suc m, True, None) \<or>
      (j, a, s) = (m, False, Some (k, Suc m)) \<or> (k, j, a, s) \<in> links \<and> j \<noteq> m"
  shows "chain_at links' k (Suc m)"
proof -
  have old: "1 \<le> j \<and> j < m \<and> \<not> a \<and> s = Some (k, Suc j)" if "(k, j, a, s) \<in> links" "j \<noteq> m" for j a s
    using that m(1) unfolding chain_at_def by (metis le_neq_implies_less)
  have below: "\<exists>a s. (k, j, a, s) \<in> links" if "1 \<le> j" "j \<le> m" for j
    using that m(1) unfolding chain_at_def by blast
  have "(\<exists>a s. (k, j, a, s) \<in> links') \<longleftrightarrow> 1 \<le> j \<and> j \<le> Suc m" for j
  proof (cases "j = Suc m \<or> j = m")
    case True
    with m(2) show ?thesis unfolding new by auto
  next
    case False
    then have "(\<exists>a s. (k, j, a, s) \<in> links') \<longleftrightarrow> (\<exists>a s. (k, j, a, s) \<in> links)" unfolding new by auto
    with False old below show ?thesis by (metis le_SucE le_SucI less_imp_le)
  qed
  moreover have "(a \<longleftrightarrow> j = Suc m) \<and> (\<not> a \<longrightarrow> s = Some (k, Suc j))" if "(k, j, a, s) \<in> links'" for j a s
    using that old unfolding new by (metis (no_types, lifting) Pair_inject less_SucI n_not_Suc_n order_less_irrefl)
  ultimately show ?thesis unfolding chain_at_def by blast
qed

lemma commit_first:
  assumes ok: "chain_ok tb" and c: "commitRevision conflict b 1 pv st None tb = (done, tb')"
  shows "chain_ok tb'"
proof (cases "brow_id (revision_row b 1 pv st) \<in> set (map brow_id tb) \<or> tb' = tb")
  case True
  with c ok show ?thesis
    by (auto simp: commitRevision_def Let_def insert_ignore_def split: if_splits)
next
  case False
  let ?k = "belief_key_of b"
  from False c have tb': "tb' = tb @ [revision_row b 1 pv st]"
    by (auto simp: commitRevision_def Let_def insert_ignore_def split: if_splits)
  have fresh: "(?k, 1) \<notin> brow_id ` set tb" using False by auto
  have "\<exists>m. chain_at (link_of ` set tb') k m" for k
  proof (cases "k = ?k")
    case True
    obtain m where m: "chain_at (link_of ` set tb) k m" using chain_ok_at [OF ok] by blast
    have "m = 0"
    proof (rule ccontr)
      assume "m \<noteq> 0"
      then obtain r where "r \<in> set tb" "br_key r = k" "br_revision r = 1"
        using chain_at_row [OF m, of 1] by auto
      with fresh True show False by (metis brow_id_def image_eqI)
    qed
    then have none: "(k, j, a, s) \<notin> link_of ` set tb" for j a s using chain_at_none m by blast
    have "link_of ` set tb' = insert (k, 1, True, None) (link_of ` set tb)" using True by (simp add: tb')
    with none have "chain_at (link_of ` set tb') k 1" by (auto simp: chain_at_def)
    then show ?thesis ..
  next
    case False
    obtain m where "chain_at (link_of ` set tb) k m" using chain_ok_at [OF ok] by blast
    then have "chain_at (link_of ` set tb') k m"
      by (rule chain_at_other) (use False in \<open>auto simp: tb'\<close>)
    then show ?thesis ..
  qed
  moreover have "distinct (map brow_id tb')" using ok fresh by (auto simp: tb' chain_ok_def)
  ultimately show ?thesis by (simp add: chain_ok_def)
qed

text \<open>A committed revision: the head it displaced, and the new table.\<close>

lemma commit_next_parts:
  assumes ok: "chain_ok tb" and d: "dh_id d = (belief_key_of b, j)" "dh_revision d = j"
    and c: "commitRevision conflict b (Suc j) pv st (Some d) tb = (True, tb')"
  obtains h where "h \<in> set tb" "brow_id h = (belief_key_of b, j)" "br_active h"
    "br_latestEvidenceAt h = None \<or> br_latestEvidenceAt h = dh_watermark d"
    "(belief_key_of b, Suc j) \<notin> brow_id ` set tb"
    "tb' = map (\<lambda>r. if r = h then supersede (belief_key_of b, Suc j) (dh_until d) r else r) tb @
       [revision_row b (Suc j) pv st]"
proof -
  let ?k = "belief_key_of b" and ?row = "revision_row b (Suc j) pv st"
  let ?tb1 = "insert_ignore ?row tb"
  from c have ex: "list_ex (head_holds d) ?tb1"
    and tb': "tb' = map (\<lambda>r. if head_holds d r then supersede (?k, Suc j) (dh_until d) r else r) ?tb1"
    by (auto simp: commitRevision_def Let_def beliefRecord_def split: if_splits)
  have new: "\<not> head_holds d ?row" using d by (simp add: head_holds_def)
  from ex new obtain h where h: "h \<in> set tb" "head_holds d h"
    by (auto simp: list_ex_iff insert_ignore_def split: if_splits)
  then have hid: "brow_id h = (?k, j)" "br_active h" "br_key h = ?k" "br_revision h = j"
    using d by (auto simp: head_holds_def brow_id_def)
  obtain m where m: "chain_at (link_of ` set tb) ?k m" using chain_ok_at [OF ok] by blast
  have "j = m" using chain_atD(3) [OF m h(1) hid(3)] hid by simp
  then have fresh: "(?k, Suc j) \<notin> brow_id ` set tb"
    using chain_atD(2) [OF m] by (fastforce simp: brow_id_def)
  have only: "head_holds d r \<longleftrightarrow> r = h" if "r \<in> set tb" for r
  proof
    assume "head_holds d r"
    then have "brow_id r = brow_id h" using d hid by (simp add: head_holds_def)
    then show "r = h" by (rule chain_rows [OF ok that h(1)])
  qed (use h in simp)
  have "tb' = map (\<lambda>r. if r = h then supersede (?k, Suc j) (dh_until d) r else r) tb @ [?row]"
    using fresh new only by (auto simp: tb' insert_ignore_def)
  with that [of h] h hid fresh show thesis by (auto simp: head_holds_def)
qed

lemma commit_next:
  assumes ok: "chain_ok tb" and d: "dh_id d = (belief_key_of b, j)" "dh_revision d = j"
    and c: "commitRevision conflict b (Suc j) pv st (Some d) tb = (done, tb')"
  shows "chain_ok tb'"
proof (cases "done")
  case False
  with c ok show ?thesis by (auto simp: commitRevision_def Let_def split: if_splits)
next
  case True
  let ?k = "belief_key_of b" and ?row = "revision_row b (Suc j) pv st"
  let ?new = "supersede (?k, Suc j) (dh_until d)"
  obtain h where h: "h \<in> set tb" "brow_id h = (?k, j)" "br_active h"
    "br_latestEvidenceAt h = None \<or> br_latestEvidenceAt h = dh_watermark d"
    "(?k, Suc j) \<notin> brow_id ` set tb"
    "tb' = map (\<lambda>r. if r = h then ?new r else r) tb @ [?row]"
    using c True by (auto elim!: commit_next_parts [OF ok d])
  have hk: "br_key h = ?k" "br_revision h = j" using h(2) by (auto simp: brow_id_def)
  have ids: "map brow_id tb' = map brow_id tb @ [(?k, Suc j)]"
    by (auto simp: h(6) supersede_def brow_id_def)
  have links: "link_of ` set tb' =
      insert (?k, Suc j, True, None) (insert (?k, j, False, Some (?k, Suc j))
        (link_of ` (set tb - {h})))"
  proof -
    have "set tb' = insert ?row (insert (?new h) (set tb - {h}))" using h(1) by (auto simp: h(6))
    moreover have "link_of (?new h) = (?k, j, False, Some (?k, Suc j))"
      using hk by (simp add: supersede_def link_of_def)
    ultimately show ?thesis by simp
  qed
  obtain m where m: "chain_at (link_of ` set tb) ?k m" using chain_ok_at [OF ok] by blast
  have jm: "j = m" using chain_atD(3) [OF m h(1) hk(1)] hk h(3) by simp
  have rest: "e \<in> link_of ` (set tb - {h}) \<longleftrightarrow> e \<in> link_of ` set tb \<and> (fst e, fst (snd e)) \<noteq> (?k, j)" for e
    using chain_rows [OF ok _ h(1)] hk by (auto simp: image_iff link_of_def brow_id_def)
  have "\<exists>m. chain_at (link_of ` set tb') k m" for k
  proof (cases "k = ?k")
    case True
    have "1 \<le> m" using chain_atD(1,2) [OF m h(1) hk(1)] by simp
    with m have "chain_at (link_of ` set tb') ?k (Suc m)"
      by (rule chain_at_extend) (auto simp: links rest jm)
    with True show ?thesis by blast
  next
    case False
    obtain m' where "chain_at (link_of ` set tb) k m'" using chain_ok_at [OF ok] by blast
    then have "chain_at (link_of ` set tb') k m'"
      by (rule chain_at_other) (use False in \<open>auto simp: links rest\<close>)
    then show ?thesis ..
  qed
  moreover have "distinct (map brow_id tb')" using ok h(5) by (auto simp: ids chain_ok_def)
  ultimately show ?thesis by (simp add: chain_ok_def)
qed

section \<open>What an attempt does\<close>

definition displaced_by :: "belief_row \<Rightarrow> folded_belief \<Rightarrow> displaced_head" where
  "displaced_by head b = \<lparr>dh_id = brow_id head, dh_revision = br_revision head,
     dh_until = revision_start head b, dh_watermark = br_latestEvidenceAt head\<rparr>"

definition revised_belief :: "belief_row \<Rightarrow> folded_belief \<Rightarrow> folded_belief" where
  "revised_belief head b = b\<lparr>fb_priorValue := br_value head, fb_validFrom := revision_start head b\<rparr>"

lemma revised_belief_simps [simp]:
  "belief_key_of (revised_belief head b) = belief_key_of b" "fb_value (revised_belief head b) = fb_value b"
  "fb_validFrom (revised_belief head b) = revision_start head b"
  "fb_evidenceAt (revised_belief head b) = fb_evidenceAt b"
  by (simp_all add: revised_belief_def belief_key_of_def)

lemma attempt_cases [consumes 1, case_names create corroborate stale revise]:
  assumes ok: "chain_ok seen"
    and create: "\<And>pv st. active_rows b seen = [] \<Longrightarrow>
      ar_table (upsertBeliefOnce opts b seen tb n) = snd (commitRevision (ao_conflict opts) b 1 pv st None tb) \<Longrightarrow> P"
    and corroborate: "\<And>head. head \<in> set seen \<Longrightarrow> br_active head \<Longrightarrow> br_key head = belief_key_of b \<Longrightarrow>
      br_value head = fb_value b \<Longrightarrow>
      ar_table (upsertBeliefOnce opts b seen tb n) = update_row (brow_id head) (corroborated_row head b) tb \<Longrightarrow> P"
    and stale: "ar_table (upsertBeliefOnce opts b seen tb n) = tb \<Longrightarrow> P"
    and revise: "\<And>head pv st. head \<in> set seen \<Longrightarrow> br_active head \<Longrightarrow> br_key head = belief_key_of b \<Longrightarrow>
      br_value head \<noteq> fb_value b \<Longrightarrow> watermark_of head < fb_evidenceAt b \<Longrightarrow>
      br_validFrom head < revision_start head b \<Longrightarrow>
      ar_table (upsertBeliefOnce opts b seen tb n) =
        snd (commitRevision (ao_conflict opts) (revised_belief head b) (Suc (br_revision head)) pv st
          (Some (displaced_by head b)) tb) \<Longrightarrow> P"
  shows P
proof -
  consider "active_rows b seen = []"
    | head where "active_rows b seen = [head]" "head \<in> set seen" "br_active head" "br_key head = belief_key_of b"
    using active_rows_chain [OF ok] by blast
  then show P
  proof cases
    case 1
    show P
      by (rule create [OF 1, of "promoterVersionFor (fb_worlds b) (ao_runPromoterVersion opts)" "ao_statement opts b"])
        (simp add: upsertBeliefOnce_def Let_def 1 split: prod.splits)
  next
    case 2
    consider "br_value head = fb_value b"
      | "br_value head \<noteq> fb_value b" "fb_evidenceAt b \<le> watermark_of head \<or> revision_start head b \<le> br_validFrom head"
      | "br_value head \<noteq> fb_value b" "watermark_of head < fb_evidenceAt b" "br_validFrom head < revision_start head b"
      by force
    then show P
    proof cases
      case 1
      then show P
        by (rule corroborate [OF 2(2-4)])
          (simp add: upsertBeliefOnce_def Let_def 2(1) 1 corroborateBelief_def)
    next
      case c: 2
      then show P by (intro stale) (auto simp: upsertBeliefOnce_def Let_def 2(1))
    next
      case 3
      show P
        by (rule revise [OF 2(2-4) 3, of "promoterVersionFor (fb_worlds b) (ao_runPromoterVersion opts)"
              "ao_statement opts (revised_belief head b)"])
          (use 3 in \<open>simp add: upsertBeliefOnce_def Let_def 2(1) displaced_by_def revised_belief_def
            split: prod.splits\<close>)
    qed
  qed
qed

lemma link_of_corroborated [simp]: "link_of (corroborated_row head b r) = link_of r"
  by (simp add: corroborated_row_def link_of_def Let_def split: option.splits)

lemma attempt_chain:
  assumes "chain_ok seen" "chain_ok tb"
  shows "chain_ok (ar_table (upsertBeliefOnce opts b seen tb n))"
  using assms(1)
proof (cases rule: attempt_cases [where b = b and opts = opts and tb = tb and n = n])
  case (create pv st)
  then show ?thesis using commit_first [OF assms(2)] by (metis prod.collapse)
next
  case (corroborate head)
  then show ?thesis using assms(2) by (simp add: chain_ok_update)
next
  case stale
  then show ?thesis using assms(2) by simp
next
  case (revise head pv st)
  let ?c = "commitRevision (ao_conflict opts) (revised_belief head b) (Suc (br_revision head)) pv st
      (Some (displaced_by head b)) tb"
  have "dh_id (displaced_by head b) = (belief_key_of (revised_belief head b), br_revision head)"
    "dh_revision (displaced_by head b) = br_revision head"
    using revise(3) by (simp_all add: displaced_by_def brow_id_def)
  from commit_next [OF assms(2) this, of "ao_conflict opts" pv st "fst ?c" "snd ?c"]
  have "chain_ok (snd ?c)" by simp
  with revise(7) show ?thesis by simp
qed

section \<open>Nothing said is unsaid\<close>

definition frozen :: "belief_row \<Rightarrow> belief_row \<Rightarrow> bool" where
  "frozen r r' \<longleftrightarrow> brow_id r' = brow_id r \<and> br_field r' = br_field r \<and> br_value r' = br_value r \<and>
     br_statement r' = br_statement r \<and> br_confidence r' = br_confidence r \<and>
     (\<not> br_active r \<longrightarrow> \<not> br_active r' \<and> br_supersededBy r' = br_supersededBy r \<and> br_validUntil r' = br_validUntil r)"

definition keeps :: "belief_table \<Rightarrow> belief_table \<Rightarrow> bool" where
  "keeps tb tb' \<longleftrightarrow> (\<forall>r \<in> set tb. \<exists>r' \<in> set tb'. frozen r r')"

lemma frozen_refl [simp]: "frozen r r"
  by (simp add: frozen_def)

lemma frozen_trans: "frozen r r' \<Longrightarrow> frozen r' r'' \<Longrightarrow> frozen r r''"
  by (simp add: frozen_def)

lemma keeps_refl [simp]: "keeps tb tb"
  unfolding keeps_def by (blast intro: frozen_refl)

lemma keeps_trans: "keeps tb tb' \<Longrightarrow> keeps tb' tb'' \<Longrightarrow> keeps tb tb''"
  unfolding keeps_def by (meson frozen_trans)

lemma keeps_map: "(\<And>r. r \<in> set tb \<Longrightarrow> frozen r (f r)) \<Longrightarrow> keeps tb (map f tb @ extra)"
  by (auto simp: keeps_def)

lemma frozen_corroborated: "frozen r (corroborated_row head b r)"
  by (simp add: corroborated_row_def frozen_def brow_id_def Let_def split: option.splits)

lemma commit_keeps: "keeps tb (snd (commitRevision conflict b revision pv st displaced tb))"
proof -
  let ?tb1 = "insert_ignore (revision_row b revision pv st) tb"
  have one: "keeps tb ?tb1"
    using keeps_map [of tb "\<lambda>r. r" "[revision_row b revision pv st]"] by (simp add: insert_ignore_def)
  have "keeps ?tb1 (map (\<lambda>r. if head_holds d r then supersede (beliefRecord b revision) (dh_until d) r else r) ?tb1)"
    (is "keeps _ (map ?f _)") for d
    using keeps_map [of ?tb1 ?f "[]"] by (simp add: frozen_def supersede_def head_holds_def brow_id_def)
  with one keeps_trans [OF one] show ?thesis
    by (cases displaced) (auto simp: commitRevision_def Let_def)
qed

lemma attempt_keeps:
  assumes "chain_ok seen"
  shows "keeps tb (ar_table (upsertBeliefOnce opts b seen tb n))"
  using assms
proof (cases rule: attempt_cases [where b = b and opts = opts and tb = tb and n = n])
  case (corroborate head)
  then show ?thesis
    using keeps_map [of tb "\<lambda>r. if brow_id r = brow_id head then corroborated_row head b r else r" "[]"]
    by (simp add: update_row_def frozen_corroborated)
qed (simp_all add: commit_keeps)

definition history_ok :: "belief_table list \<Rightarrow> bool" where
  "history_ok h \<longleftrightarrow> h \<noteq> [] \<and> (\<forall>tb \<in> set h. chain_ok tb)"

interpretation belief: tracked_machine belief_step history_ok "\<lambda>h h'. keeps (hd h) (hd h')"
proof
  fix h h' :: "belief_table list"
  assume "belief_step h h'" "history_ok h"
  then show "history_ok h'"
    by (induction rule: belief_step.induct) (auto simp: history_ok_def intro: attempt_chain)
next
  fix h h' :: "belief_table list"
  assume "belief_step h h'" "history_ok h"
  then show "keeps (hd h) (hd h')"
    by (induction rule: belief_step.induct) (auto simp: history_ok_def intro: attempt_keeps)
qed (auto intro: keeps_trans)

section \<open>Periods\<close>

text \<open>One process promoting alone: it writes to the table it read.\<close>

definition promote :: "attempt_opts \<Rightarrow> folded_belief \<Rightarrow> belief_table \<Rightarrow> belief_table" where
  "promote opts b tb = ar_table (upsertBeliefOnce opts b tb tb
     \<lparr>pc_created = 0, pc_corroborated = 0, pc_revised = 0, pc_realigned = 0, pc_stale = 0,
      pc_contended = 0, pc_duplicatesRetired = 0\<rparr>)"

definition row_period :: "belief_table \<Rightarrow> belief_row \<Rightarrow> bool" where
  "row_period tb r \<longleftrightarrow>
     (case br_validUntil r of
       None \<Rightarrow> br_active r
     | Some u \<Rightarrow> \<not> br_active r \<and> br_validFrom r < u \<and>
         (\<forall>r' \<in> set tb. br_key r' = br_key r \<and> br_revision r' = Suc (br_revision r) \<longrightarrow> u \<le> br_validFrom r'))"

definition periods_ok :: "belief_table \<Rightarrow> bool" where
  "periods_ok tb \<longleftrightarrow> (\<forall>r \<in> set tb. row_period tb r)"

lemma corroborated_simps [simp]:
  "br_key (corroborated_row head b r) = br_key r" "br_revision (corroborated_row head b r) = br_revision r"
  "br_active (corroborated_row head b r) = br_active r" "br_validUntil (corroborated_row head b r) = br_validUntil r"
  "br_value (corroborated_row head b r) = br_value r"
  "br_validFrom (corroborated_row head b r) =
     (case realigned_start head b of None \<Rightarrow> br_validFrom r | Some t \<Rightarrow> t)"
  "br_latestEvidenceAt (corroborated_row head b r) =
     (case advanced_watermark head b of None \<Rightarrow> br_latestEvidenceAt r | Some w \<Rightarrow> Some w)"
  by (simp_all add: corroborated_row_def Let_def split: option.splits)

lemma revision_positive: "chain_ok tb \<Longrightarrow> r \<in> set tb \<Longrightarrow> 1 \<le> br_revision r"
  using chain_ok_at [of tb "br_key r"] chain_atD(1) by blast

lemma period_open: "periods_ok tb \<Longrightarrow> r \<in> set tb \<Longrightarrow> br_active r \<longleftrightarrow> br_validUntil r = None"
  by (auto simp: periods_ok_def row_period_def split: option.splits dest!: bspec)

lemma revision_row_simps [simp]:
  "br_validUntil (revision_row b n pv st) = None" "br_active (revision_row b n pv st)"
  "br_validFrom (revision_row b n pv st) = fb_validFrom b" "br_value (revision_row b n pv st) = fb_value b"
  "watermark_of (revision_row b n pv st) = fb_evidenceAt b"
  by (simp_all add: revision_row_def watermark_of_def)

text \<open>Moving the beginning of an active row is harmless when it moves forward, or when the row is the
  first of its chain.\<close>

lemma periods_corroborated:
  assumes ok: "chain_ok tb" "periods_ok tb" and head: "head \<in> set tb" "br_active head"
  shows "periods_ok (update_row (brow_id head) (corroborated_row head b) tb)"
  unfolding periods_ok_def
proof
  let ?f = "\<lambda>r. if brow_id r = brow_id head then corroborated_row head b r else r"
  fix x
  assume "x \<in> set (update_row (brow_id head) (corroborated_row head b) tb)"
  then obtain r where r: "r \<in> set tb" "x = ?f r" by (auto simp: update_row_def)
  show "row_period (update_row (brow_id head) (corroborated_row head b) tb) x"
  proof (cases "br_validUntil r")
    case None
    then show ?thesis using r period_open [OF ok(2) r(1)] by (auto simp: row_period_def)
  next
    case (Some u)
    have "brow_id r \<noteq> brow_id head"
      using chain_rows [OF ok(1) r(1) head(1)] period_open [OF ok(2)] head r(1) Some by auto
    then have x: "x = r" using r by simp
    have old: "\<not> br_active r" "br_validFrom r < u"
      "\<forall>r' \<in> set tb. br_key r' = br_key r \<and> br_revision r' = Suc (br_revision r) \<longrightarrow> u \<le> br_validFrom r'"
      using ok(2) r(1) Some by (auto simp: periods_ok_def row_period_def dest!: bspec)
    have later: "u \<le> br_validFrom (?f r')"
      if r': "r' \<in> set tb" "br_key (?f r') = br_key r" "br_revision (?f r') = Suc (br_revision r)" for r'
    proof -
      have le: "u \<le> br_validFrom r'" using old(3) r' by (auto split: if_splits)
      show ?thesis
      proof (cases "brow_id r' = brow_id head")
        case True
        then have "r' = head" using chain_rows [OF ok(1) r'(1) head(1)] by simp
        moreover have "br_revision r' \<noteq> 1"
          using r'(3) revision_positive [OF ok(1) r(1)] by (auto split: if_splits)
        ultimately show ?thesis
          using le True by (auto simp: realigned_start_def Let_def split: option.splits if_splits)
      qed (use le in simp)
    qed
    have "u \<le> br_validFrom x'"
      if x': "x' \<in> ?f ` set tb" "br_key x' = br_key r" "br_revision x' = Suc (br_revision r)" for x'
      using x'(1) by (rule imageE) (use later x' in blast)
    then show ?thesis unfolding x row_period_def Some using old(1,2) by (simp add: update_row_def)
  qed
qed

lemma periods_created:
  assumes "chain_ok tb" "periods_ok tb"
  shows "periods_ok (insert_ignore (revision_row b 1 pv st) tb)"
  using assms revision_positive [OF assms(1)]
  by (fastforce simp: periods_ok_def row_period_def insert_ignore_def split: option.splits dest!: bspec)

lemma periods_revised:
  assumes ok: "chain_ok tb" "periods_ok tb" and h: "h \<in> set tb" "brow_id h = (belief_key_of b, j)" "br_active h"
    and new: "br_validFrom h < u" "fb_validFrom b = u"
  shows "periods_ok (map (\<lambda>r. if r = h then supersede i u r else r) tb @ [revision_row b (Suc j) pv st])"
    (is "periods_ok ?tb")
proof -
  have hk: "br_key h = belief_key_of b" "br_revision h = j" using h(2) by (auto simp: brow_id_def)
  obtain m where m: "chain_at (link_of ` set tb) (belief_key_of b) m" using chain_ok_at [OF ok(1)] by blast
  have top: "br_revision r \<le> j" if "r \<in> set tb" "br_key r = belief_key_of b" for r
    using chain_atD(2,3) [OF m that] chain_atD(3) [OF m h(1) hk(1)] h(3) hk by simp
  have "row_period ?tb (supersede i u h)"
    using new hk top by (fastforce simp: row_period_def supersede_def)
  moreover have "row_period ?tb (revision_row b (Suc j) pv st)" by (simp add: row_period_def)
  moreover have "row_period ?tb r" if r: "r \<in> set tb" "r \<noteq> h" for r
  proof (cases "br_validUntil r")
    case None
    then show ?thesis using r period_open [OF ok(2)] by (simp add: row_period_def)
  next
    case (Some v)
    have old: "\<not> br_active r" "br_validFrom r < v"
      "\<forall>r' \<in> set tb. br_key r' = br_key r \<and> br_revision r' = Suc (br_revision r) \<longrightarrow> v \<le> br_validFrom r'"
      using ok(2) r(1) Some by (auto simp: periods_ok_def row_period_def dest!: bspec)
    have "\<not> (br_key r = belief_key_of b \<and> br_revision r = j)"
      using chain_rows [OF ok(1) r(1) h(1)] r(2) hk by (auto simp: brow_id_def)
    with old Some show ?thesis by (auto simp: row_period_def supersede_def split: if_splits)
  qed
  ultimately show ?thesis by (auto simp: periods_ok_def)
qed

lemma revised_commit:
  assumes ok: "chain_ok tb" and head: "head \<in> set tb" "br_active head" "br_key head = belief_key_of b"
  obtains "snd (commitRevision conflict (revised_belief head b) (Suc (br_revision head)) pv st
      (Some (displaced_by head b)) tb) = tb"
  | "snd (commitRevision conflict (revised_belief head b) (Suc (br_revision head)) pv st
        (Some (displaced_by head b)) tb) =
      map (\<lambda>r. if r = head then supersede (belief_key_of b, Suc (br_revision head)) (revision_start head b) r else r) tb @
        [revision_row (revised_belief head b) (Suc (br_revision head)) pv st]"
proof -
  let ?c = "commitRevision conflict (revised_belief head b) (Suc (br_revision head)) pv st
      (Some (displaced_by head b)) tb"
  have id: "dh_id (displaced_by head b) = (belief_key_of (revised_belief head b), br_revision head)"
    "dh_revision (displaced_by head b) = br_revision head" "dh_until (displaced_by head b) = revision_start head b"
    using head(3) by (simp_all add: displaced_by_def brow_id_def)
  show thesis
  proof (cases "fst ?c")
    case False
    then have "snd ?c = tb" by (auto simp: commitRevision_def Let_def split: if_splits)
    then show thesis by (rule that(1))
  next
    case True
    then have "?c = (True, snd ?c)" by (metis prod.collapse)
    then obtain h where h: "h \<in> set tb" "brow_id h = (belief_key_of b, br_revision head)"
      "snd ?c = map (\<lambda>r. if r = h then supersede (belief_key_of b, Suc (br_revision head)) (revision_start head b) r else r) tb @
        [revision_row (revised_belief head b) (Suc (br_revision head)) pv st]"
      by (rule commit_next_parts [OF ok id(1,2)]) (simp add: id(3))
    have "h = head" using h(2) head(3) by (intro chain_rows [OF ok h(1) head(1)]) (simp add: brow_id_def)
    with h(3) show thesis by (intro that(2)) simp
  qed
qed

lemma first_commit:
  "snd (commitRevision conflict b 1 pv st None tb) \<in> {tb, insert_ignore (revision_row b 1 pv st) tb}"
  by (simp add: commitRevision_def Let_def)

lemma promote_chain: "chain_ok tb \<Longrightarrow> chain_ok (promote opts b tb)"
  by (simp add: promote_def attempt_chain)

lemma promote_periods:
  assumes ok: "chain_ok tb" "periods_ok tb"
  shows "periods_ok (promote opts b tb)"
  using ok(1)
proof (cases rule: attempt_cases [where b = b and opts = opts and tb = tb and
    n = "\<lparr>pc_created = 0, pc_corroborated = 0, pc_revised = 0, pc_realigned = 0, pc_stale = 0,
      pc_contended = 0, pc_duplicatesRetired = 0\<rparr>"])
  case (create pv st)
  show ?thesis unfolding promote_def create(2)
    using first_commit [of "ao_conflict opts" b pv st tb] ok(2) periods_created [OF ok] by auto
next
  case (corroborate head)
  then show ?thesis using periods_corroborated [OF ok] by (simp add: promote_def)
next
  case stale
  with ok(2) show ?thesis by (simp add: promote_def)
next
  case (revise head pv st)
  show ?thesis
  proof (rule revised_commit [OF ok(1) revise(1-3), of "ao_conflict opts" pv st], goal_cases)
    case 1
    with ok(2) show ?case unfolding promote_def revise(7) by simp
  next
    case 2
    have "brow_id head = (belief_key_of (revised_belief head b), br_revision head)"
      using revise(3) by (simp add: brow_id_def)
    from periods_revised [OF ok revise(1) this revise(2) revise(6)]
    show ?case unfolding promote_def revise(7) 2 by simp
  qed
qed

lemma ends_before_later:
  assumes ok: "chain_ok tb" "periods_ok tb" and r: "r \<in> set tb"
    and r': "r' \<in> set tb" "br_key r' = br_key r" "br_revision r' = br_revision r + Suc d"
  shows "\<exists>u. br_validUntil r = Some u \<and> u \<le> br_validFrom r'"
  using r r'
proof (induction d arbitrary: r)
  case 0
  obtain m where m: "chain_at (link_of ` set tb) (br_key r) m" using chain_ok_at [OF ok(1)] by blast
  have "\<not> br_active r" using chain_atD(3) [OF m 0(1)] chain_atD(2) [OF m 0(2,3)] 0(4) by simp
  then obtain u where "br_validUntil r = Some u" using period_open [OF ok(2) 0(1)] by auto
  then show ?case using ok(2) 0 by (fastforce simp: periods_ok_def row_period_def dest!: bspec)
next
  case (Suc d)
  obtain m where m: "chain_at (link_of ` set tb) (br_key r) m" using chain_ok_at [OF ok(1)] by blast
  have top: "br_revision r' \<le> m" using chain_atD(2) [OF m Suc.prems(2,3)] .
  with Suc.prems(4) obtain q where q: "q \<in> set tb" "br_key q = br_key r" "br_revision q = Suc (br_revision r)"
    using chain_at_row [OF m, of "Suc (br_revision r)"] by auto
  have "\<not> br_active r" using chain_atD(3) [OF m Suc.prems(1)] top Suc.prems(4) by simp
  then obtain u where u: "br_validUntil r = Some u" using period_open [OF ok(2) Suc.prems(1)] by auto
  then have "u \<le> br_validFrom q" using ok(2) Suc.prems(1) q by (fastforce simp: periods_ok_def row_period_def dest!: bspec)
  moreover obtain v where v: "br_validUntil q = Some v" "v \<le> br_validFrom r'"
    using Suc.IH [OF q(1) Suc.prems(2)] q Suc.prems(3,4) by auto
  moreover have "br_validFrom q < v"
    using ok(2) q(1) v(1) by (fastforce simp: periods_ok_def row_period_def dest!: bspec)
  ultimately show ?case using u by auto
qed

definition holds_at :: "belief_row \<Rightarrow> int \<Rightarrow> bool" where
  "holds_at r t \<longleftrightarrow> br_validFrom r \<le> t \<and> (case br_validUntil r of None \<Rightarrow> True | Some u \<Rightarrow> t < u)"

lemma periods_disjoint:
  assumes ok: "chain_ok tb" "periods_ok tb" and r: "r \<in> set tb" "r' \<in> set tb" "br_key r = br_key r'"
    "holds_at r t" "holds_at r' t"
  shows "r = r'"
proof -
  have no: "\<not> br_revision x < br_revision y"
    if xy: "x \<in> set tb" "y \<in> set tb" "br_key y = br_key x" "holds_at x t" "holds_at y t" for x y
  proof
    assume "br_revision x < br_revision y"
    then obtain d where "br_revision y = br_revision x + Suc d" using less_iff_Suc_add by auto
    from ends_before_later [OF ok xy(1-3) this] xy(4,5) show False by (auto simp: holds_at_def)
  qed
  have "br_revision r = br_revision r'" using no [OF r(1,2)] no [OF r(2,1)] r(3-5) by auto
  then show ?thesis by (intro chain_rows [OF ok(1) r(1,2)]) (simp add: brow_id_def r(3))
qed

section \<open>Properties\<close>

text \<open>C11: Whatever attempts interleave, on whatever reads they rest, at most one row of a key is active,
  every other row names its successor, which is in the table, and no row that was ever written
  loses its value, its statement, its field or its end.\<close>

theorem belief_histories_safe:
  assumes "belief_step\<^sup>*\<^sup>* [tb0] (tb # past)" "chain_ok tb0"
  shows "(\<forall>r r'. r \<in> set tb \<longrightarrow> r' \<in> set tb \<longrightarrow> br_active r \<longrightarrow> br_active r' \<longrightarrow> br_key r = br_key r' \<longrightarrow> r = r') \<and>
    (\<forall>r. r \<in> set tb \<longrightarrow> \<not> br_active r \<longrightarrow>
       (\<exists>r'. r' \<in> set tb \<and> br_supersededBy r = Some (brow_id r') \<and>
          br_key r' = br_key r \<and> br_revision r' = Suc (br_revision r))) \<and>
    keeps tb0 tb"
proof -
  have start: "history_ok [tb0]" using assms(2) by (simp add: history_ok_def)
  have ok: "chain_ok tb" using belief.inv_steps [OF assms(1) start] by (simp add: history_ok_def)
  have "\<exists>r'. r' \<in> set tb \<and> br_supersededBy r = Some (brow_id r') \<and>
      br_key r' = br_key r \<and> br_revision r' = Suc (br_revision r)"
    if r: "r \<in> set tb" "\<not> br_active r" for r
  proof -
    obtain m where m: "chain_at (link_of ` set tb) (br_key r) m" using chain_ok_at [OF ok] by blast
    note at = chain_atD [OF m r(1) refl]
    from at r(2) have "br_revision r \<noteq> m" by simp
    with at obtain r' where "r' \<in> set tb" "br_key r' = br_key r" "br_revision r' = Suc (br_revision r)"
      using chain_at_row [OF m, of "Suc (br_revision r)"] by auto
    with at(4) [OF r(2)] show ?thesis by (auto simp: brow_id_def)
  qed
  moreover have "keeps tb0 tb" using belief.rel_steps [OF assms(1) start] by simp
  ultimately show ?thesis using one_active [OF ok] by blast
qed

text \<open>One process at a time.  An attempt never lowers the watermark of a key, and replaces its value
  only on evidence newer than the watermark: by the value of the fold, in the next revision, which
  remembers the value it replaced.\<close>

theorem upsert_respects_evidence:
  assumes "chain_ok tb" "r \<in> set tb" "br_active r"
    "r' \<in> set (promote opts b tb)" "br_active r'" "br_key r' = br_key r"
  shows "watermark_of r \<le> watermark_of r' \<and>
    (br_value r' = br_value r \<and> br_revision r' = br_revision r \<or>
     br_key r = belief_key_of b \<and> watermark_of r < fb_evidenceAt b \<and> watermark_of r' = fb_evidenceAt b \<and>
     br_value r' = fb_value b \<and> br_value r' \<noteq> br_value r \<and> br_revision r' = Suc (br_revision r) \<and>
     (br_value r = [] \<or> br_priorValue r' = Some (br_value r)))"
  using assms(1)
proof (cases rule: attempt_cases [where b = b and opts = opts and tb = tb and
    n = "\<lparr>pc_created = 0, pc_corroborated = 0, pc_revised = 0, pc_realigned = 0, pc_stale = 0,
      pc_contended = 0, pc_duplicatesRetired = 0\<rparr>"])
  case (create pv st)
  have "br_key r \<noteq> belief_key_of b" using create(1) assms(2,3) by (auto simp: active_rows_None)
  then have "r' \<in> set tb"
    using assms(4,6) first_commit [of "ao_conflict opts" b pv st tb]
    unfolding promote_def create(2) by (auto simp: insert_ignore_def split: if_splits)
  with one_active [OF assms(1) this assms(2,5,3,6)] show ?thesis by simp
next
  case (corroborate head)
  from assms(4) obtain x where x: "x \<in> set tb"
    "r' = (if brow_id x = brow_id head then corroborated_row head b x else x)"
    unfolding promote_def corroborate(5) by (auto simp: update_row_def)
  have "x = r" using x(2) assms(5,6) by (intro one_active [OF assms(1) x(1) assms(2)]) (auto simp: assms(3) split: if_splits)
  moreover have "x = head" if "brow_id x = brow_id head" using chain_rows [OF assms(1) x(1) corroborate(1) that] .
  ultimately show ?thesis using x(2)
    by (auto simp: watermark_of_def advanced_watermark_def Let_def realigned_start_def split: option.splits)
next
  case stale
  with assms(4) have "r' \<in> set tb" by (simp add: promote_def)
  with one_active [OF assms(1) this assms(2,5,3,6)] show ?thesis by simp
next
  case (revise head pv st)
  show ?thesis
  proof (rule revised_commit [OF assms(1) revise(1-3), of "ao_conflict opts" pv st], goal_cases)
    case 1
    with assms(4) have "r' \<in> set tb" unfolding promote_def revise(7) by simp
    with one_active [OF assms(1) this assms(2,5,3,6)] show ?case by simp
  next
    case 2
    let ?new = "revision_row (revised_belief head b) (Suc (br_revision head)) pv st"
    from assms(4) consider "r' = ?new" | "r' \<in> set tb" "r' \<noteq> head"
      using assms(5) unfolding promote_def revise(7) 2 by (auto simp: supersede_def split: if_splits)
    then show ?case
    proof cases
      case 1
      then have "r = head"
        using assms(3,6) revise(1-3) by (intro one_active [OF assms(1,2)]) auto
      moreover have "br_priorValue r' = (if br_value head = [] then None else Some (br_value head))"
        unfolding 1 by (simp add: revision_row_def revised_belief_def)
      ultimately show ?thesis using 1 revise(3-5) by auto
    next
      case 2
      with one_active [OF assms(1) 2(1) assms(2,5,3,6)] show ?thesis by simp
    qed
  qed
qed

definition promote_all :: "(attempt_opts \<times> folded_belief) list \<Rightarrow> belief_table" where
  "promote_all bs = fold (\<lambda>(opts, b). promote opts b) bs []"

text \<open>Promoted one after the other from an empty table, two revisions of a belief never hold at the
  same moment.\<close>

theorem revisions_never_overlap:
  assumes "r \<in> set (promote_all bs)" "r' \<in> set (promote_all bs)" "br_key r = br_key r'"
    "holds_at r t" "holds_at r' t"
  shows "r = r'"
proof -
  have "chain_ok (fold (\<lambda>(opts, b). promote opts b) bs tb) \<and> periods_ok (fold (\<lambda>(opts, b). promote opts b) bs tb)"
    if "chain_ok tb" "periods_ok tb" for tb
    using that by (induction bs arbitrary: tb) (auto intro: promote_chain promote_periods)
  from this [OF chain_ok_Nil] have "chain_ok (promote_all bs)" "periods_ok (promote_all bs)"
    by (simp_all add: promote_all_def periods_ok_def)
  from periods_disjoint [OF this assms] show ?thesis .
qed

section \<open>Instances\<close>

definition sample_opts :: attempt_opts where
  "sample_opts = \<lparr>ao_runPromoterVersion = ''v1'', ao_edgesOn = True, ao_statement = renderBeliefStatement ''-'',
     ao_conflict = False\<rparr>"

definition sample_belief :: "string \<Rightarrow> int \<Rightarrow> string \<Rightarrow> folded_belief" where
  "sample_belief v day scene = \<lparr>fb_userId = ''u'', fb_subject = ''user'', fb_field = ''city'', fb_predicateId = ''p'',
     fb_value = v, fb_priorValue = [], fb_displacedValue = [], fb_displacedAt = None, fb_validFrom = day,
     fb_evidenceAt = day, fb_runEvidenceAt = [day], fb_sceneIds = [scene], fb_allSceneIds = [scene],
     fb_conversationIds = [''c''], fb_confidence = 3/4, fb_worlds = []\<rparr>"

definition no_counts :: promotion_counts where
  "no_counts = \<lparr>pc_created = 0, pc_corroborated = 0, pc_revised = 0, pc_realigned = 0, pc_stale = 0,
     pc_contended = 0, pc_duplicatesRetired = 0\<rparr>"

lemma promote_alt: "promote opts b tb = ar_table (upsertBeliefOnce opts b tb tb no_counts)"
  by (simp add: promote_def no_counts_def)

definition table_one :: belief_table where
  "table_one = promote sample_opts (sample_belief ''Bonn'' 10 ''s1'') []"

definition table_two :: belief_table where
  "table_two = promote sample_opts (sample_belief ''Kiel'' 20 ''s2'') table_one"

lemmas sample_defs = sample_opts_def sample_belief_def no_counts_def promote_alt table_one_def table_two_def

text \<open>What the tables hold, row by row.\<close>

definition brief :: "belief_row \<Rightarrow> nat \<times> string \<times> bool \<times> int \<times> int option \<times> int option" where
  "brief r = (br_revision r, br_value r, br_active r, br_validFrom r, br_validUntil r, br_latestEvidenceAt r)"

lemma table_two_rows:
  "map brief table_two = [(1, ''Bonn'', False, 10, Some 20, Some 10), (2, ''Kiel'', True, 20, None, Some 20)]"
  by code_simp

lemma table_chains: "chain_ok table_one" "chain_ok table_two"
  by (simp_all add: table_one_def table_two_def promote_chain chain_ok_Nil)

text \<open>Two attempts read the same head.  The one with the older evidence writes last and sets the
  watermark back; the comment of \<open>corroborateBelief\<close> says it is never rewound.\<close>

definition rewinding :: "belief_table list" where
  "rewinding =
     (let late = ar_table (upsertBeliefOnce sample_opts (sample_belief ''Bonn'' 30 ''s3'') table_one table_one no_counts);
          early = ar_table (upsertBeliefOnce sample_opts (sample_belief ''Bonn'' 20 ''s2'') table_one late no_counts)
      in [early, late, table_one])"

lemma watermark_rewound:
  "belief_step\<^sup>*\<^sup>* [table_one] rewinding"
  "map (map brief) rewinding =
     [[(1, ''Bonn'', True, 10, None, Some 20)], [(1, ''Bonn'', True, 10, None, Some 30)],
      [(1, ''Bonn'', True, 10, None, Some 10)]]"
proof -
  let ?late = "ar_table (upsertBeliefOnce sample_opts (sample_belief ''Bonn'' 30 ''s3'') table_one table_one no_counts)"
  have "belief_step [table_one] [?late, table_one]" by (rule belief_step.attempt) simp
  moreover have "belief_step [?late, table_one] rewinding"
    unfolding rewinding_def Let_def by (rule belief_step.attempt) simp
  ultimately show "belief_step\<^sup>*\<^sup>* [table_one] rewinding" by (rule rtranclp.rtrancl_into_rtrancl [OF r_into_rtranclp])
  show "map (map brief) rewinding =
     [[(1, ''Bonn'', True, 10, None, Some 20)], [(1, ''Bonn'', True, 10, None, Some 30)],
      [(1, ''Bonn'', True, 10, None, Some 10)]]"
    by code_simp
qed

text \<open>A corroboration that read a head before it was superseded moves the beginning of the row past
  the end it was given meanwhile.\<close>

definition late_realignment :: belief_table where
  "late_realignment = ar_table (upsertBeliefOnce sample_opts
     ((sample_belief ''Bonn'' 25 ''s4'')\<lparr>fb_displacedAt := Some 15, fb_displacedValue := ''Ulm''\<rparr>)
     table_one table_two no_counts)"

lemma superseded_period_inverted:
  "belief_step\<^sup>*\<^sup>* [table_one] [late_realignment, table_two, table_one]"
  "map brief late_realignment =
     [(1, ''Bonn'', False, 25, Some 20, Some 25), (2, ''Kiel'', True, 20, None, Some 20)]"
proof -
  have "belief_step [table_one] [table_two, table_one]"
    unfolding table_two_def promote_alt by (rule belief_step.attempt) simp
  moreover have "belief_step [table_two, table_one] [late_realignment, table_two, table_one]"
    unfolding late_realignment_def by (rule belief_step.attempt) simp
  ultimately show "belief_step\<^sup>*\<^sup>* [table_one] [late_realignment, table_two, table_one]"
    by (rule rtranclp.rtrancl_into_rtrancl [OF r_into_rtranclp])
  show "map brief late_realignment =
     [(1, ''Bonn'', False, 25, Some 20, Some 25), (2, ''Kiel'', True, 20, None, Some 20)]"
    by code_simp
qed

subsection \<open>The properties on the instances\<close>

theorem belief_histories_safe_witness:
  "map (map brief) [late_realignment, table_two, table_one] =
     [[(1, ''Bonn'', False, 25, Some 20, Some 25), (2, ''Kiel'', True, 20, None, Some 20)],
      [(1, ''Bonn'', False, 10, Some 20, Some 10), (2, ''Kiel'', True, 20, None, Some 20)],
      [(1, ''Bonn'', True, 10, None, Some 10)]] \<and>
   keeps table_one late_realignment"
proof
  show "keeps table_one late_realignment"
    using belief_histories_safe [OF superseded_period_inverted(1) table_chains(1)] by blast
qed code_simp

theorem upsert_respects_evidence_witness:
  "promote sample_opts (sample_belief ''Kiel'' 20 ''s2'') table_one = table_two \<and>
   watermark_of (hd table_one) \<le> watermark_of (table_two ! 1)"
proof
  show "promote sample_opts (sample_belief ''Kiel'' 20 ''s2'') table_one = table_two"
    by (simp only: table_two_def)
  have rows: "hd table_one \<in> set table_one" "br_active (hd table_one)"
    "table_two ! 1 \<in> set (promote sample_opts (sample_belief ''Kiel'' 20 ''s2'') table_one)"
    "br_active (table_two ! 1)" "br_key (table_two ! 1) = br_key (hd table_one)"
    by code_simp+
  from upsert_respects_evidence [OF table_chains(1) rows]
  show "watermark_of (hd table_one) \<le> watermark_of (table_two ! 1)" by (rule conjunct1)
qed

theorem revisions_never_overlap_witness:
  "(let bs = [(sample_opts, sample_belief ''Bonn'' 10 ''s1''), (sample_opts, sample_belief ''Kiel'' 20 ''s2'')];
        r = promote_all bs ! 1
    in length (promote_all bs) = 2 \<and> holds_at r 25 \<and> \<not> holds_at (hd (promote_all bs)) 25)"
proof -
  define bs where "bs = [(sample_opts, sample_belief ''Bonn'' 10 ''s1''), (sample_opts, sample_belief ''Kiel'' 20 ''s2'')]"
  have facts: "length (promote_all bs) = 2" "promote_all bs ! 1 \<in> set (promote_all bs)"
    "hd (promote_all bs) \<in> set (promote_all bs)" "br_key (promote_all bs ! 1) = br_key (hd (promote_all bs))"
    "holds_at (promote_all bs ! 1) 25" "br_revision (promote_all bs ! 1) \<noteq> br_revision (hd (promote_all bs))"
    unfolding bs_def by code_simp+
  from revisions_never_overlap [OF facts(2-5)] facts(6) have "\<not> holds_at (hd (promote_all bs)) 25" by auto
  with facts show ?thesis unfolding bs_def [symmetric] by simp
qed

end
