(* ===== verification/FactTable.thy ===== *)
theory FactTable imports ScopeTags TokenClaims
  "HOL-Library.Multiset" "HOL-Library.Char_ord" "HOL-Library.List_Lexorder" begin

text \<open>
  The fact table and the stored functions that write it: rivals and the event
  \<open>competing_needs_a_rival\<close> (\<open>db/migrations/0175\<close>), the words and intervals of values
  (\<open>0165\<close>, \<open>0009\<close>), and \<open>fn::settle_fact\<close> (\<open>0177\<close>), the resolution of a new fact against its slot.

  The table is the list of its rows in the order a selection without \<open>ORDER BY\<close> returns them; a
  new row comes last.  A statement is one step, with the event it fires.  The cosine of the
  datastore, the trust tables behind \<open>source_trust_scoped\<close> and \<open>source_authority_of\<close>, the new
  identifier, the clock and whether the \<open>CREATE\<close> returned a row are the arguments of
  \<open>settle_env\<close>.  Of a source only the fields resolution reads are kept.  The event \<open>fact_staleness\<close>
  writes columns that nothing here reads and is left out.  Times are milliseconds.
\<close>

section \<open>Rows\<close>

datatype fact_status = Active | Competing | Superseded | Corroborating | Retracted | Compacted

record fact_source =
  fs_vertical :: "string option"
  fs_recorder :: "string option"
  fs_originKey :: "string option"
  fs_kind :: "string option"

record corroboration_acc =
  cr_count :: nat
  cr_sourceKeys :: "string list"
  cr_originKeys :: "string list"
  cr_lastAt :: int

record conflict_trace =
  ct_decidedBy :: "string option"
  ct_superseded :: "string list"
  ct_competing :: "string list"
  ct_bestOpponent :: "string option"
  ct_decidedAt :: "int option"

record trust_snapshot =
  ts_sourceKey :: string
  ts_originKey :: string
  ts_domain :: string
  ts_declaredTrust :: rat
  ts_learnedTrust :: rat
  ts_authority :: "rat option"
  ts_calculatedAt :: int

record knowledge_fact =
  kf_id :: string
  kf_entity :: string
  kf_predicate :: string
  kf_alias :: "string option"
  kf_object :: string
  kf_objectMeta :: "jval option"
  kf_confidence :: rat
  kf_source :: fact_source
  kf_embedding :: "rat list option"
  kf_validFrom :: int
  kf_validUntil :: "int option"
  kf_recordedAt :: int
  kf_status :: fact_status
  kf_retractedAt :: "int option"
  kf_retractedBy :: "string option"
  kf_retractionReason :: "string option"
  kf_supersededBy :: "string option"
  kf_priorValidUntil :: "int option"
  kf_corroborates :: "string option"
  kf_corroboration :: "corroboration_acc option"
  kf_userId :: "string option"
  kf_scope :: "string list"
  kf_derivedVersion :: "string option"
  kf_derivedFrom :: "string list"
  kf_trust :: "trust_snapshot option"
  kf_trace :: conflict_trace
  kf_lang :: "string option"
  kf_script :: "string option"
  kf_entropy :: "rat option"
  kf_checkedAt :: "int option"

type_synonym fact_table = "knowledge_fact list"

definition no_trace :: conflict_trace where
  "no_trace = \<lparr>ct_decidedBy = None, ct_superseded = [], ct_competing = [], ct_bestOpponent = None,
     ct_decidedAt = None\<rparr>"

definition fact_open :: "knowledge_fact \<Rightarrow> bool" where
  "fact_open r \<longleftrightarrow> kf_status r \<in> {Active, Competing} \<and> kf_retractedAt r = None"

definition standing_rival :: "knowledge_fact \<Rightarrow> bool" where
  "standing_rival r \<longleftrightarrow> kf_status r = Competing \<and> kf_retractedAt r = None"

definition canonical_predicate :: "knowledge_fact \<Rightarrow> string" where
  "canonical_predicate r = (case kf_alias r of Some a \<Rightarrow> a | None \<Rightarrow> kf_predicate r)"

section \<open>Sources\<close>

definition source_key_of :: "fact_source \<Rightarrow> string" where
  "source_key_of s =
     (case fs_vertical s of None \<Rightarrow> ''system_seed''
      | Some v \<Rightarrow> v @ '':'' @ (case fs_recorder s of None \<Rightarrow> ''_'' | Some r \<Rightarrow> r))"

definition origin_key_of :: "fact_source \<Rightarrow> string" where
  "origin_key_of s = (case fs_originKey s of None \<Rightarrow> source_key_of s | Some k \<Rightarrow> k)"

section \<open>Slots\<close>

definition is_group_tag :: "string \<Rightarrow> bool" where
  "is_group_tag t \<longleftrightarrow> starts_with ''circle:'' t \<or> starts_with ''team:'' t"

type_synonym fact_slot = "string \<times> string \<times> string option \<times> string list \<times> string option"

definition slot_of :: "knowledge_fact \<Rightarrow> fact_slot" where
  "slot_of r = (kf_entity r, canonical_predicate r, kf_userId r, sort (filter is_group_tag (kf_scope r)),
     kf_derivedVersion r)"

section \<open>Rivals\<close>

definition same_dispute :: "knowledge_fact \<Rightarrow> knowledge_fact \<Rightarrow> bool" where
  "same_dispute f x \<longleftrightarrow>
     (canonical_predicate x = canonical_predicate f \<and> kf_userId x = kf_userId f \<and>
      sort (filter isCircleTag (kf_scope x)) = sort (filter isCircleTag (kf_scope f)) \<and>
      kf_derivedVersion x = kf_derivedVersion f) \<or>
     ct_bestOpponent (kf_trace x) = Some (kf_id f) \<or>
     kf_id f \<in> set (ct_competing (kf_trace x)) \<or>
     ct_bestOpponent (kf_trace f) = Some (kf_id x) \<or>
     kf_id x \<in> set (ct_competing (kf_trace f))"

definition rivals :: "knowledge_fact \<Rightarrow> knowledge_fact \<Rightarrow> bool" where
  "rivals f x \<longleftrightarrow> kf_entity x = kf_entity f \<and> standing_rival x \<and> kf_id x \<noteq> kf_id f \<and> same_dispute f x"

definition fact_has_rival :: "fact_table \<Rightarrow> knowledge_fact \<Rightarrow> bool" where
  "fact_has_rival tb f \<longleftrightarrow> list_ex (rivals f) tb"

text \<open>The event's \<open>UPDATE\<close> visits the rows one by one and checks each against the table as it stands.\<close>

definition release_row :: "knowledge_fact \<Rightarrow> string \<Rightarrow> fact_table \<Rightarrow> fact_table" where
  "release_row before i tb =
     map (\<lambda>r. if kf_id r = i \<and> kf_entity r = kf_entity before \<and> standing_rival r \<and>
                 kf_id r \<noteq> kf_id before \<and> \<not> fact_has_rival tb r
              then r\<lparr>kf_status := Active\<rparr> else r) tb"

definition competing_needs_a_rival :: "knowledge_fact \<Rightarrow> fact_table \<Rightarrow> fact_table" where
  "competing_needs_a_rival before tb = fold (release_row before) (map kf_id tb) tb"

text \<open>\<open>UPDATE <id> SET \<dots>\<close> with the event.\<close>

definition fact_set :: "string \<Rightarrow> (knowledge_fact \<Rightarrow> knowledge_fact) \<Rightarrow> fact_table \<Rightarrow> fact_table" where
  "fact_set i f tb = map (\<lambda>r. if kf_id r = i then f r else r) tb"

definition fact_update :: "string \<Rightarrow> (knowledge_fact \<Rightarrow> knowledge_fact) \<Rightarrow> fact_table \<Rightarrow> fact_table" where
  "fact_update i f tb =
     (case find (\<lambda>r. kf_id r = i) tb of
        None \<Rightarrow> tb
      | Some before \<Rightarrow>
          if kf_status before = Competing \<and> kf_status (f before) \<notin> {Competing, Active}
          then competing_needs_a_rival before (fact_set i f tb)
          else fact_set i f tb)"

section \<open>Values\<close>

definition intervals_overlap :: "int \<Rightarrow> int option \<Rightarrow> int \<Rightarrow> int option \<Rightarrow> bool" where
  "intervals_overlap a_from a_until b_from b_until \<longleftrightarrow>
     (case b_until of None \<Rightarrow> True | Some u \<Rightarrow> a_from < u) \<and>
     (case a_until of None \<Rightarrow> True | Some u \<Rightarrow> b_from < u)"

definition word_char :: "char \<Rightarrow> bool" where
  "word_char c \<longleftrightarrow> lower c \<or> upper_case c \<or> digit c \<or> c = CHR ''_''"

definition value_words :: "string \<Rightarrow> string list" where
  "value_words v =
     filter (\<lambda>w. w \<noteq> [])
       (map (\<lambda>w. rev (dropWhile (\<lambda>c. \<not> word_char c) (rev (dropWhile (\<lambda>c. \<not> word_char c) w))))
         (ws_words (map lower_char v)))"

definition same_value :: "string \<Rightarrow> string \<Rightarrow> bool" where
  "same_value a b =
     (let x = value_words a; y = value_words b
      in if x = [] \<or> y = [] then False
         else if length x \<le> length y then list_all (\<lambda>t. t \<in> set y) x
         else list_all (\<lambda>t. t \<in> set x) y)"

definition DAY :: int where "DAY = 86400000"

definition day_floor :: "int \<Rightarrow> int" where
  "day_floor t = t - t mod DAY"

section \<open>Settling a fact\<close>

datatype semantics = append_only | single_active | bitemporal | bitemporal_event

record fact_write =
  fw_entity :: string
  fw_predicate :: string
  fw_object :: string
  fw_objectMeta :: "jval option"
  fw_embedding :: "rat list"
  fw_confidence :: rat
  fw_validFrom :: int
  fw_validUntil :: "int option"
  fw_source :: fact_source
  fw_sourceTrust :: rat
  fw_semantics :: semantics
  fw_similarity :: rat
  fw_slotSimilarity :: "rat option"
  fw_lang :: "string option"
  fw_script :: "string option"
  fw_entropy :: "rat option"
  fw_userId :: "string option"
  fw_derivedVersion :: "string option"
  fw_alias :: "string option"
  fw_circles :: "string list"

record settle_env =
  se_newId :: string
  se_now :: int
  se_cosine :: "rat list \<Rightarrow> rat list \<Rightarrow> rat"
  se_learned :: "string \<Rightarrow> string \<Rightarrow> rat"
  se_authority :: "string \<Rightarrow> rat option"
  se_created :: bool

datatype settle_outcome =
    INSERTED | INSERTED_HISTORICAL | SUPERSEDED | COMPETING | CORROBORATED | REJECTED | SKIPPED

record settle_result =
  sr_outcome :: settle_outcome
  sr_factId :: "string option"
  sr_corroboratedFactId :: "string option"
  sr_supersededByFactId :: "string option"
  sr_supersededFactIds :: "string list"
  sr_competingFactIds :: "string list"
  sr_peerFactIds :: "string list"
  sr_bestOpponentId :: "string option"
  sr_reason :: "string option"

definition settle_out :: "settle_outcome \<Rightarrow> string option \<Rightarrow> string option \<Rightarrow> settle_result" where
  "settle_out out i reason = \<lparr>sr_outcome = out, sr_factId = i, sr_corroboratedFactId = None,
     sr_supersededByFactId = None, sr_supersededFactIds = [], sr_competingFactIds = [], sr_peerFactIds = [],
     sr_bestOpponentId = None, sr_reason = reason\<rparr>"

definition write_slot :: "fact_write \<Rightarrow> fact_slot" where
  "write_slot w = (fw_entity w, case fw_alias w of Some a \<Rightarrow> a | None \<Rightarrow> fw_predicate w, fw_userId w,
     sort (filter is_group_tag (fw_circles w)), fw_derivedVersion w)"

definition fact_candidates :: "fact_write \<Rightarrow> fact_table \<Rightarrow> fact_table" where
  "fact_candidates w tb = filter (\<lambda>r. slot_of r = write_slot w \<and> fact_open r) tb"

definition eff_similarity :: "fact_write \<Rightarrow> rat" where
  "eff_similarity w =
     (if fw_semantics w = bitemporal_event
      then case fw_slotSimilarity w of Some s \<Rightarrow> s | None \<Rightarrow> fw_similarity w
      else fw_similarity w)"

definition overlaps_write :: "fact_write \<Rightarrow> knowledge_fact \<Rightarrow> bool" where
  "overlaps_write w r \<longleftrightarrow> intervals_overlap (kf_validFrom r) (kf_validUntil r) (fw_validFrom w) (fw_validUntil w)"

definition similar_to_write :: "settle_env \<Rightarrow> fact_write \<Rightarrow> knowledge_fact \<Rightarrow> bool" where
  "similar_to_write env w r \<longleftrightarrow>
     (case kf_embedding r of None \<Rightarrow> False
      | Some e \<Rightarrow> length e = length (fw_embedding w) \<and> eff_similarity w \<le> se_cosine env e (fw_embedding w))"

definition slot_pool :: "settle_env \<Rightarrow> fact_write \<Rightarrow> fact_table \<Rightarrow> fact_table" where
  "slot_pool env w candidates =
     (case fw_semantics w of
        append_only \<Rightarrow> []
      | single_active \<Rightarrow> filter (overlaps_write w) candidates
      | _ \<Rightarrow> filter (\<lambda>r. similar_to_write env w r \<and> overlaps_write w r) candidates)"

definition created_fact :: "settle_env \<Rightarrow> fact_write \<Rightarrow> knowledge_fact" where
  "created_fact env w =
     (let src_key = source_key_of (fw_source w)
      in \<lparr>kf_id = se_newId env, kf_entity = fw_entity w, kf_predicate = fw_predicate w, kf_alias = fw_alias w,
          kf_object = fw_object w, kf_objectMeta = fw_objectMeta w, kf_confidence = fw_confidence w,
          kf_source = fw_source w, kf_embedding = Some (fw_embedding w), kf_validFrom = fw_validFrom w,
          kf_validUntil = fw_validUntil w, kf_recordedAt = se_now env, kf_status = Active,
          kf_retractedAt = None, kf_retractedBy = None, kf_retractionReason = None, kf_supersededBy = None,
          kf_priorValidUntil = None, kf_corroborates = None, kf_corroboration = None,
          kf_userId = fw_userId w, kf_scope = [], kf_derivedVersion = fw_derivedVersion w, kf_derivedFrom = [],
          kf_trust = Some \<lparr>ts_sourceKey = src_key, ts_originKey = origin_key_of (fw_source w),
            ts_domain = fw_predicate w, ts_declaredTrust = fw_sourceTrust w,
            ts_learnedTrust = se_learned env src_key (fw_predicate w), ts_authority = se_authority env src_key,
            ts_calculatedAt = se_now env\<rparr>,
          kf_trace = no_trace, kf_lang = None, kf_script = None, kf_entropy = None, kf_checkedAt = None\<rparr>)"

text \<open>\<open>ORDER BY \<dots> LIMIT 1\<close>: the first row no other row comes before.\<close>

definition order_first :: "('a \<Rightarrow> 'a \<Rightarrow> bool) \<Rightarrow> 'a list \<Rightarrow> 'a option" where
  "order_first before xs = find (\<lambda>x. \<not> list_ex (\<lambda>y. before y x) xs) xs"

definition later_recorded :: "knowledge_fact \<Rightarrow> knowledge_fact \<Rightarrow> bool" where
  "later_recorded r r' \<longleftrightarrow> kf_recordedAt r' < kf_recordedAt r"

definition ended_value :: "fact_write \<Rightarrow> fact_table \<Rightarrow> knowledge_fact option" where
  "ended_value w candidates =
     (case fw_validUntil w of None \<Rightarrow> None
      | Some u \<Rightarrow>
          order_first (\<lambda>r r'. kf_validFrom r' < kf_validFrom r)
            (filter (\<lambda>r. kf_validUntil r = None \<and> kf_validFrom r < u \<and> same_value (kf_object r) (fw_object w))
              candidates))"

definition mark_corroborating :: "string \<Rightarrow> knowledge_fact \<Rightarrow> knowledge_fact" where
  "mark_corroborating i r = r\<lparr>kf_status := Corroborating, kf_corroborates := Some i\<rparr>"

definition array_union :: "'a list \<Rightarrow> 'a list \<Rightarrow> 'a list" where
  "array_union xs ys = dedupe (xs @ ys)"

definition add_corroboration :: "string \<Rightarrow> string \<Rightarrow> int \<Rightarrow> knowledge_fact \<Rightarrow> knowledge_fact" where
  "add_corroboration src_key origin_key now r =
     (let origins = array_union (case kf_corroboration r of None \<Rightarrow> [] | Some c \<Rightarrow> cr_originKeys c) [origin_key]
      in r\<lparr>kf_corroboration := Some \<lparr>cr_count = length origins,
             cr_sourceKeys = array_union (case kf_corroboration r of None \<Rightarrow> [] | Some c \<Rightarrow> cr_sourceKeys c) [src_key],
             cr_originKeys = origins, cr_lastAt = now\<rparr>\<rparr>)"

definition stamp_language :: "fact_write \<Rightarrow> knowledge_fact \<Rightarrow> knowledge_fact" where
  "stamp_language w r =
     (let r1 = (case fw_lang w of None \<Rightarrow> r | Some l \<Rightarrow> r\<lparr>kf_lang := Some l, kf_script := fw_script w\<rparr>)
      in case fw_entropy w of None \<Rightarrow> r1 | Some e \<Rightarrow> r1\<lparr>kf_entropy := Some e\<rparr>)"

definition close_superseded :: "string \<Rightarrow> string \<Rightarrow> int option \<Rightarrow> int \<Rightarrow> knowledge_fact \<Rightarrow> knowledge_fact" where
  "close_superseded actor winner prior until r =
     r\<lparr>kf_status := Superseded, kf_retractionReason := Some ''superseded'', kf_retractedBy := Some actor,
       kf_supersededBy := Some winner, kf_priorValidUntil := prior, kf_validUntil := Some until\<rparr>"

definition next_after :: "fact_write \<Rightarrow> fact_table \<Rightarrow> knowledge_fact option" where
  "next_after w slot =
     order_first (\<lambda>r r'. kf_validFrom r < kf_validFrom r')
       (filter (\<lambda>r. if fw_semantics w = bitemporal_event
          then day_floor (fw_validFrom w) < day_floor (kf_validFrom r)
          else fw_validFrom w < kf_validFrom r) slot)"

definition closed_values :: "fact_write \<Rightarrow> fact_table \<Rightarrow> fact_table" where
  "closed_values w slot =
     (case fw_semantics w of
        single_active \<Rightarrow> slot
      | bitemporal_event \<Rightarrow> filter (\<lambda>r. day_floor (kf_validFrom r) < day_floor (fw_validFrom w)) slot
      | _ \<Rightarrow> filter (\<lambda>r. kf_validFrom r < fw_validFrom w) slot)"

definition day_peers :: "fact_write \<Rightarrow> fact_table \<Rightarrow> fact_table" where
  "day_peers w slot =
     (if fw_semantics w = bitemporal_event
      then filter (\<lambda>r. day_floor (fw_validFrom w) \<le> day_floor (kf_validFrom r)) slot else [])"

definition set_status :: "fact_status \<Rightarrow> string list \<Rightarrow> fact_table \<Rightarrow> fact_table" where
  "set_status s ids = fold (\<lambda>i. fact_update i (\<lambda>r. r\<lparr>kf_status := s\<rparr>)) ids"

definition close_losers :: "fact_write \<Rightarrow> string \<Rightarrow> fact_table \<Rightarrow> fact_table \<Rightarrow> fact_table" where
  "close_losers w i losers =
     fold (\<lambda>loser. fact_update (kf_id loser)
       (close_superseded ''system'' i (kf_validUntil loser) (fw_validFrom w))) losers"

text \<open>From the restatements on, with the row created.\<close>

definition settle_succession ::
  "settle_env \<Rightarrow> fact_write \<Rightarrow> fact_table \<Rightarrow> fact_table \<Rightarrow> settle_result \<times> fact_table" where
  "settle_succession env w slot tb =
     (let i = se_newId env; closed = closed_values w slot; peers = day_peers w slot in
      case next_after w slot of
        Some n \<Rightarrow>
          ((settle_out INSERTED_HISTORICAL (Some i) (Some ''backdated''))\<lparr>sr_supersededByFactId := Some (kf_id n)\<rparr>,
           fact_update i (close_superseded ''system'' (kf_id n) (fw_validUntil w) (kf_validFrom n)) tb)
      | None \<Rightarrow>
          if closed \<noteq> [] then
            (let tb1 = close_losers w i closed tb;
                 tb2 = (if peers \<noteq> [] then set_status Competing (map kf_id peers) tb1 else tb1);
                 trace = \<lparr>ct_decidedBy = Some ''valid_time'', ct_superseded = map kf_id closed, ct_competing = [],
                   ct_bestOpponent = Some (kf_id (hd closed)), ct_decidedAt = Some (se_now env)\<rparr>
             in ((settle_out SUPERSEDED (Some i) (Some ''valid_time''))
                   \<lparr>sr_supersededFactIds := map kf_id closed, sr_competingFactIds := map kf_id peers,
                    sr_bestOpponentId := Some (kf_id (hd closed))\<rparr>,
                 fact_update i (\<lambda>r. r\<lparr>kf_trace := trace\<rparr>) tb2))
          else if peers \<noteq> [] then
            (let tb1 = set_status Competing (map kf_id peers @ [i]) tb;
                 trace = \<lparr>ct_decidedBy = Some ''event_day'', ct_superseded = [], ct_competing = map kf_id peers,
                   ct_bestOpponent = Some (kf_id (hd peers)), ct_decidedAt = Some (se_now env)\<rparr>
             in ((settle_out COMPETING (Some i) (Some ''event_day''))
                   \<lparr>sr_competingFactIds := map kf_id peers, sr_bestOpponentId := Some (kf_id (hd peers))\<rparr>,
                 fact_update i (\<lambda>r. r\<lparr>kf_trace := trace\<rparr>) tb1))
          else
            ((settle_out INSERTED (Some i) (Some ''for_resolution''))\<lparr>sr_peerFactIds := map kf_id slot\<rparr>,
             fact_update i (stamp_language w) tb))"

definition settle_fact :: "settle_env \<Rightarrow> fact_write \<Rightarrow> fact_table \<Rightarrow> settle_result \<times> fact_table" where
  "settle_fact env w tb =
     (let i = se_newId env;
          origin = origin_key_of (fw_source w);
          candidates = fact_candidates w tb;
          slot = slot_pool env w candidates;
          tb1 = tb @ [created_fact env w];
          corroborated = (\<lambda>c reason. (settle_out CORROBORATED (Some i) reason)\<lparr>sr_corroboratedFactId := Some (kf_id c)\<rparr>)
      in if \<not> se_created env then (settle_out REJECTED None (Some ''create_returned_none''), tb)
         else case ended_value w candidates of
           Some e \<Rightarrow>
             (corroborated e (Some ''ended''),
              fact_update i (mark_corroborating (kf_id e))
                (fact_update (kf_id e) (\<lambda>r. r\<lparr>kf_validUntil := fw_validUntil w\<rparr>) tb1))
         | None \<Rightarrow>
           (case order_first later_recorded
                   (filter (\<lambda>r. kf_object r = fw_object w \<and> origin_key_of (kf_source r) \<noteq> origin)
                     (if fw_semantics w = append_only then candidates else slot)) of
              Some c \<Rightarrow>
                (corroborated c None,
                 fact_update (kf_id c) (add_corroboration (source_key_of (fw_source w)) origin (se_now env))
                   (fact_update i (mark_corroborating (kf_id c)) tb1))
            | None \<Rightarrow>
              (case order_first later_recorded
                      (filter (\<lambda>r. kf_object r = fw_object w \<and> origin_key_of (kf_source r) = origin) slot) of
                 Some c \<Rightarrow>
                   (corroborated c (Some ''restated''), fact_update i (mark_corroborating (kf_id c)) tb1)
               | None \<Rightarrow>
                   if slot = [] then (settle_out INSERTED (Some i) None, fact_update i (stamp_language w) tb1)
                   else settle_succession env w slot tb1)))"

text \<open>The scope is mirrored on the row a settling returned, by a statement of its own.\<close>

definition stamp_scope :: "string list \<Rightarrow> settle_result \<times> fact_table \<Rightarrow> settle_result \<times> fact_table" where
  "stamp_scope scope st =
     (case st of (res, tb) \<Rightarrow>
        (res, case sr_factId res of
                Some i \<Rightarrow> if scope = [] then tb else fact_set i (\<lambda>r. r\<lparr>kf_scope := scope\<rparr>) tb
              | None \<Rightarrow> tb))"

end
