(* ===== verification/FactTimeline.thy ===== *)
theory FactTimeline imports FactTable begin

text \<open>
  What \<open>fn::settle_fact\<close> and the event beside it keep of the table: disputes have two sides, a
  single-valued slot holds one value at a time, and a write stays in its slot.
\<close>

section \<open>Updates row by row\<close>

lemma list_all2_right: "list_all2 R xs ys \<Longrightarrow> y \<in> set ys \<Longrightarrow> \<exists>x \<in> set xs. R x y"
  by (induction rule: list_all2_induct) auto

lemma same_dispute_sym: "same_dispute f x \<longleftrightarrow> same_dispute x f"
  by (auto simp: same_dispute_def)

lemma rivals_sym: "rivals f x \<Longrightarrow> standing_rival f \<Longrightarrow> rivals x f"
  using same_dispute_sym [of f x] by (auto simp: rivals_def)

lemma fact_has_rival_iff: "fact_has_rival tb f \<longleftrightarrow> (\<exists>x \<in> set tb. rivals f x)"
  by (simp add: fact_has_rival_def list_ex_iff)

lemma slot_fields_update [simp]:
  "canonical_predicate (r\<lparr>kf_status := st\<rparr>) = canonical_predicate r"
  "canonical_predicate (r\<lparr>kf_validUntil := u\<rparr>) = canonical_predicate r"
  "canonical_predicate (r\<lparr>kf_trace := tr\<rparr>) = canonical_predicate r"
  "canonical_predicate (r\<lparr>kf_corroborates := co\<rparr>) = canonical_predicate r"
  "canonical_predicate (r\<lparr>kf_corroboration := acc\<rparr>) = canonical_predicate r"
  "canonical_predicate (r\<lparr>kf_retractionReason := rr\<rparr>) = canonical_predicate r"
  "canonical_predicate (r\<lparr>kf_retractedBy := rb\<rparr>) = canonical_predicate r"
  "canonical_predicate (r\<lparr>kf_retractedAt := ra\<rparr>) = canonical_predicate r"
  "canonical_predicate (r\<lparr>kf_supersededBy := sb\<rparr>) = canonical_predicate r"
  "canonical_predicate (r\<lparr>kf_priorValidUntil := u\<rparr>) = canonical_predicate r"
  "canonical_predicate (r\<lparr>kf_lang := l\<rparr>) = canonical_predicate r"
  "canonical_predicate (r\<lparr>kf_script := l\<rparr>) = canonical_predicate r"
  "canonical_predicate (r\<lparr>kf_entropy := e\<rparr>) = canonical_predicate r"
  "canonical_predicate (r\<lparr>kf_checkedAt := c\<rparr>) = canonical_predicate r"
  "canonical_predicate (r\<lparr>kf_scope := sc\<rparr>) = canonical_predicate r"
  by (simp_all add: canonical_predicate_def cong: option.case_cong)

lemma activated_simps [simp]:
  "standing_rival (r\<lparr>kf_status := Active\<rparr>) = False"
  "rivals (r\<lparr>kf_status := s\<rparr>) x = rivals r x"
  "rivals f (r\<lparr>kf_status := Active\<rparr>) = False"
  by (simp_all add: standing_rival_def rivals_def same_dispute_def)

text \<open>The rows the event releases: checked one by one they are those that are alone in the table as
  the event found it.\<close>

definition lone :: "fact_table \<Rightarrow> knowledge_fact \<Rightarrow> knowledge_fact \<Rightarrow> bool" where
  "lone tb before r \<longleftrightarrow> kf_entity r = kf_entity before \<and> standing_rival r \<and> kf_id r \<noteq> kf_id before \<and>
     \<not> fact_has_rival tb r"

lemma partial_release:
  assumes r: "r \<in> set tb" "standing_rival r" and g: "\<And>x. g x = x \<or> lone tb b x \<and> g x = x\<lparr>kf_status := Active\<rparr>"
  shows "fact_has_rival (map g tb) r \<longleftrightarrow> fact_has_rival tb r"
proof
  assume "fact_has_rival (map g tb) r"
  then obtain x where "x \<in> set tb" "rivals r (g x)" by (auto simp: fact_has_rival_iff)
  with g [of x] show "fact_has_rival tb r" by (auto simp: fact_has_rival_iff)
next
  assume "fact_has_rival tb r"
  then obtain x where x: "x \<in> set tb" "rivals r x" by (auto simp: fact_has_rival_iff)
  have "rivals x r" using x(2) r(2) by (rule rivals_sym)
  with r(1) have "\<not> lone tb b x" by (auto simp: lone_def fact_has_rival_iff)
  with g [of x] have "g x = x" by auto
  with x(1) have "x \<in> set (map g tb)" by (metis image_eqI list.set_map)
  with x(2) show "fact_has_rival (map g tb) r" unfolding fact_has_rival_iff by blast
qed

lemma event_simultaneous:
  "competing_needs_a_rival b tb = map (\<lambda>r. if lone tb b r then r\<lparr>kf_status := Active\<rparr> else r) tb"
proof -
  have "fold (release_row b) is tb = map (\<lambda>r. if kf_id r \<in> set is \<and> lone tb b r then r\<lparr>kf_status := Active\<rparr> else r) tb"
    for "is"
  proof (induction "is" rule: rev_induct)
    case Nil
    show ?case by simp
  next
    case (snoc i js)
    define g where "g = (\<lambda>r. if kf_id r \<in> set js \<and> lone tb b r then r\<lparr>kf_status := Active\<rparr> else r)"
    have "fold (release_row b) (js @ [i]) tb = release_row b i (map g tb)" by (simp add: snoc g_def)
    also have "\<dots> = map (\<lambda>r. if kf_id r \<in> set (js @ [i]) \<and> lone tb b r then r\<lparr>kf_status := Active\<rparr> else r) tb"
    proof -
      have rival: "fact_has_rival (map g tb) r \<longleftrightarrow> fact_has_rival tb r" if "r \<in> set tb" "standing_rival r" for r
        using that by (rule partial_release) (auto simp: g_def)
      define h where "h = (\<lambda>r. if kf_id r = i \<and> kf_entity r = kf_entity b \<and> standing_rival r \<and> kf_id r \<noteq> kf_id b \<and>
          \<not> fact_has_rival (map g tb) r then r\<lparr>kf_status := Active\<rparr> else r)"
      have "h (g r) = (if kf_id r \<in> set (js @ [i]) \<and> lone tb b r then r\<lparr>kf_status := Active\<rparr> else r)"
        if r: "r \<in> set tb" for r
      proof (cases "kf_id r \<in> set js \<and> lone tb b r")
        case True
        then show ?thesis by (simp add: g_def h_def)
      next
        case False
        then have "g r = r" by (auto simp: g_def)
        moreover have "h r = (if kf_id r = i \<and> lone tb b r then r\<lparr>kf_status := Active\<rparr> else r)"
        proof (cases "standing_rival r")
          case True
          show ?thesis unfolding h_def lone_def rival [OF r True] by simp
        qed (simp add: h_def lone_def)
        ultimately show ?thesis using False by auto
      qed
      moreover have "release_row b i (map g tb) = map (\<lambda>r. h (g r)) tb"
        by (simp add: release_row_def h_def comp_def)
      ultimately show ?thesis by simp
    qed
    finally show ?case .
  qed
  then show ?thesis by (simp add: competing_needs_a_rival_def)
qed

text \<open>An update rewrites one row; beside it, standing disputes may end.\<close>

definition eased :: "knowledge_fact \<Rightarrow> knowledge_fact \<Rightarrow> bool" where
  "eased r r' \<longleftrightarrow> r' = r \<or> standing_rival r \<and> r' = r\<lparr>kf_status := Active\<rparr>"

lemma eased_refl [simp]: "eased r r" by (simp add: eased_def)

lemma eased_trans: "eased r r' \<Longrightarrow> eased r' r'' \<Longrightarrow> eased r r''"
  by (auto simp: eased_def)

lemma eased_fields:
  assumes "eased r r'"
  shows "kf_id r' = kf_id r" "kf_entity r' = kf_entity r" "kf_predicate r' = kf_predicate r" "kf_alias r' = kf_alias r"
    "kf_object r' = kf_object r" "kf_validFrom r' = kf_validFrom r" "kf_validUntil r' = kf_validUntil r"
    "kf_retractedAt r' = kf_retractedAt r" "kf_supersededBy r' = kf_supersededBy r"
    "kf_priorValidUntil r' = kf_priorValidUntil r" "kf_userId r' = kf_userId r" "kf_scope r' = kf_scope r"
    "slot_of r' = slot_of r" "fact_open r' = fact_open r" "kf_trace r' = kf_trace r"
    "kf_source r' = kf_source r" "kf_embedding r' = kf_embedding r" "kf_recordedAt r' = kf_recordedAt r"
  using assms
  by (auto simp: eased_def slot_of_def fact_open_def standing_rival_def)

definition keeps_id :: "(knowledge_fact \<Rightarrow> knowledge_fact) \<Rightarrow> bool" where
  "keeps_id f \<longleftrightarrow> (\<forall>r. kf_id (f r) = kf_id r)"

definition row_step :: "string \<Rightarrow> (knowledge_fact \<Rightarrow> knowledge_fact) \<Rightarrow> knowledge_fact \<Rightarrow> knowledge_fact \<Rightarrow> bool" where
  "row_step i f r r' \<longleftrightarrow> (if kf_id r = i then r' = f r else eased r r')"

lemma find_id: "distinct (map kf_id tb) \<Longrightarrow> r \<in> set tb \<Longrightarrow> find (\<lambda>x. kf_id x = kf_id r) tb = Some r"
  by (induction tb) (auto simp: image_iff)

lemma row_by_id: "distinct (map kf_id tb) \<Longrightarrow> x \<in> set tb \<Longrightarrow> y \<in> set tb \<Longrightarrow> kf_id x = kf_id y \<Longrightarrow> x = y"
  by (auto simp: distinct_map dest: inj_onD)

lemma fact_update_steps:
  assumes f: "keeps_id f"
  shows "list_all2 (row_step i f) tb (fact_update i f tb)"
proof (cases "find (\<lambda>r. kf_id r = i) tb")
  case None
  then have "\<forall>r \<in> set tb. kf_id r \<noteq> i" by (auto simp: find_None_iff)
  then show ?thesis using None
    by (auto simp: fact_update_def row_step_def list_all2_same)
next
  case (Some b)
  then have b: "b \<in> set tb" "kf_id b = i" by (auto simp: find_Some_iff)
  have id: "kf_id (f r) = kf_id r" for r using f by (simp add: keeps_id_def)
  have set: "list_all2 (row_step i f) tb (fact_set i f tb)"
    by (auto simp: fact_set_def list_all2_map2 row_step_def intro: list_all2_refl)
  show ?thesis
  proof (cases "kf_status b = Competing \<and> kf_status (f b) \<notin> {Competing, Active}")
    case True
    have "row_step i f r (if lone (fact_set i f tb) b (if kf_id r = i then f r else r)
        then (if kf_id r = i then f r else r)\<lparr>kf_status := Active\<rparr> else (if kf_id r = i then f r else r))" for r
      using b(2) id by (auto simp: row_step_def lone_def eased_def)
    then show ?thesis using True Some
      by (simp add: fact_update_def event_simultaneous fact_set_def list_all2_map2 list_all2_same)
  next
    case False
    with Some set show ?thesis by (auto simp: fact_update_def)
  qed
qed

lemma fact_update_rows:
  assumes "distinct (map kf_id tb)" "keeps_id f"
  shows "list_all2 (row_step i f) tb (fact_update i f tb)"
  using assms(2) by (rule fact_update_steps)

lemma fact_update_ids:
  assumes "distinct (map kf_id tb)" "keeps_id f"
  shows "map kf_id (fact_update i f tb) = map kf_id tb"
proof -
  have "kf_id r' = kf_id r" if "row_step i f r r'" for r r'
    using that assms(2) by (auto simp: row_step_def keeps_id_def eased_fields(1) split: if_splits)
  then show ?thesis
    using fact_update_rows [OF assms, of i] by (auto simp: list_all2_conv_all_nth intro!: nth_equalityI)
qed

section \<open>Disputes have two sides\<close>

definition disputes_ok :: "fact_table \<Rightarrow> bool" where
  "disputes_ok tb \<longleftrightarrow> (\<forall>r \<in> set tb. standing_rival r \<longrightarrow> fact_has_rival tb r)"

definition same_place :: "knowledge_fact \<Rightarrow> knowledge_fact \<Rightarrow> bool" where
  "same_place r r' \<longleftrightarrow> kf_id r' = kf_id r \<and> kf_entity r' = kf_entity r \<and>
     canonical_predicate r' = canonical_predicate r \<and> kf_userId r' = kf_userId r \<and> kf_scope r' = kf_scope r \<and>
     kf_derivedVersion r' = kf_derivedVersion r \<and> kf_trace r' = kf_trace r"

lemma same_place_rivals:
  assumes "same_place r r'"
  shows "rivals r' x = rivals r x" "standing_rival r' = standing_rival r \<Longrightarrow> rivals x r' = rivals x r"
  using assms by (auto simp: same_place_def rivals_def same_dispute_def)

lemma same_place_slot: "same_place r r' \<Longrightarrow> slot_of r' = slot_of r"
  by (simp add: same_place_def slot_of_def)

text \<open>A change of one row that leaves no dispute behind: the row is in none before and after, or stays
  where and what it was, or leaves the dispute without being called the value.\<close>

definition settles :: "knowledge_fact \<Rightarrow> knowledge_fact \<Rightarrow> bool" where
  "settles r r' \<longleftrightarrow> kf_id r' = kf_id r \<and>
     (kf_status r \<noteq> Competing \<and> kf_status r' \<noteq> Competing \<or>
      same_place r r' \<and> kf_status r' = kf_status r \<and> kf_retractedAt r' = kf_retractedAt r \<or>
      same_place r r' \<and> kf_status r' \<notin> {Competing, Active})"

lemma rival_kept:
  assumes "r \<in> set tb" "standing_rival r" "fact_has_rival tb r"
    and keep: "\<And>x. x \<in> set tb \<Longrightarrow> standing_rival x \<Longrightarrow> kf_entity x = kf_entity r \<Longrightarrow> fact_has_rival tb x \<Longrightarrow> x \<in> set tb'"
  shows "fact_has_rival tb' r"
proof -
  obtain x where x: "x \<in> set tb" "rivals r x" using assms(3) by (auto simp: fact_has_rival_iff)
  then have "standing_rival x" "kf_entity x = kf_entity r" by (auto simp: rivals_def)
  moreover have "fact_has_rival tb x" using rivals_sym [OF x(2) assms(2)] assms(1) by (auto simp: fact_has_rival_iff)
  ultimately show ?thesis using keep x by (auto simp: fact_has_rival_iff)
qed

lemma disputes_event:
  assumes b: "\<And>r. r \<in> set tb \<Longrightarrow> kf_id r = kf_id b \<Longrightarrow> \<not> standing_rival r"
    and others: "\<And>r. r \<in> set tb \<Longrightarrow> standing_rival r \<Longrightarrow> kf_entity r \<noteq> kf_entity b \<Longrightarrow> fact_has_rival tb r"
  shows "disputes_ok (competing_needs_a_rival b tb)"
  unfolding disputes_ok_def
proof (intro ballI impI)
  fix r assume r: "r \<in> set (competing_needs_a_rival b tb)" "standing_rival r"
  then have r': "r \<in> set tb" "\<not> lone tb b r" by (auto simp: event_simultaneous)
  have "fact_has_rival tb r"
    using r' r(2) others b by (cases "kf_entity r = kf_entity b") (auto simp: lone_def)
  with r'(1) r(2) show "fact_has_rival (competing_needs_a_rival b tb) r"
    by (rule rival_kept) (auto simp: event_simultaneous lone_def)
qed

lemma disputes_update:
  assumes d: "distinct (map kf_id tb)" and ok: "disputes_ok tb"
    and f: "\<And>r. r \<in> set tb \<Longrightarrow> kf_id r = i \<Longrightarrow> settles r (f r)"
  shows "disputes_ok (fact_update i f tb)"
proof (cases "find (\<lambda>r. kf_id r = i) tb")
  case None
  then show ?thesis using ok by (simp add: fact_update_def)
next
  case (Some b)
  then have b: "b \<in> set tb" "kf_id b = i" by (auto simp: find_Some_iff)
  have only: "r = b" if "r \<in> set tb" "kf_id r = i" for r
    using find_id [OF d that(1)] that(2) Some by simp
  have fb: "settles b (f b)" using f b by blast
  have "fact_set i f tb = map (\<lambda>r. if r = b then f b else r) tb"
    unfolding fact_set_def
  proof (rule map_cong [OF refl])
    fix r assume "r \<in> set tb"
    then show "(if kf_id r = i then f r else r) = (if r = b then f b else r)"
      using only [of r] b(2) by (cases "kf_id r = i") auto
  qed
  then have rows: "set (fact_set i f tb) = insert (f b) (set tb - {b})" using b(1) by auto
  show ?thesis
  proof (cases "kf_status b = Competing \<and> kf_status (f b) \<notin> {Competing, Active}")
    case True
    have "disputes_ok (competing_needs_a_rival b (fact_set i f tb))"
    proof (rule disputes_event)
      fix r assume r: "r \<in> set (fact_set i f tb)" "kf_id r = kf_id b"
      moreover have "r \<noteq> b \<Longrightarrow> r \<in> set tb \<Longrightarrow> kf_id r \<noteq> i" using only [of r] by blast
      ultimately have "r = f b" using b(2) by (auto simp: rows)
      with True show "\<not> standing_rival r" by (auto simp: standing_rival_def)
    next
      fix r assume r: "r \<in> set (fact_set i f tb)" "standing_rival r" "kf_entity r \<noteq> kf_entity b"
      then have "r \<in> set tb" using fb True by (auto simp: rows same_place_def settles_def)
      then have "fact_has_rival tb r" using ok r(2) by (simp add: disputes_ok_def)
      with \<open>r \<in> set tb\<close> r(2) show "fact_has_rival (fact_set i f tb) r"
        by (rule rival_kept) (use r(3) in \<open>auto simp: rows\<close>)
    qed
    with True Some show ?thesis by (simp add: fact_update_def)
  next
    case False
    from fb False consider "\<not> standing_rival b" "\<not> standing_rival (f b)"
      | "same_place b (f b)" "standing_rival (f b) = standing_rival b"
      by (auto simp: settles_def standing_rival_def)
    then have "disputes_ok (fact_set i f tb)"
    proof cases
      case 1
      have "fact_has_rival (fact_set i f tb) r = fact_has_rival tb r" for r
        using 1 b(1) by (auto simp: fact_has_rival_iff rows rivals_def)
      with ok 1 b(1) show ?thesis by (auto simp: disputes_ok_def rows)
    next
      case 2
      have "fact_has_rival (fact_set i f tb) r = fact_has_rival tb r" for r
        using same_place_rivals(2) [OF 2] b(1) by (auto simp: fact_has_rival_iff rows)
      moreover have "fact_has_rival tb (f b) = fact_has_rival tb b"
        by (simp add: fact_has_rival_iff same_place_rivals(1) [OF 2(1)])
      ultimately show ?thesis using ok 2(2) b(1) by (auto simp: disputes_ok_def rows)
    qed
    with False Some show ?thesis by (auto simp: fact_update_def)
  qed
qed

lemma disputes_append: "disputes_ok tb \<Longrightarrow> kf_status n \<noteq> Competing \<Longrightarrow> disputes_ok (tb @ [n])"
  by (auto simp: disputes_ok_def fact_has_rival_iff standing_rival_def)

section \<open>One value at a time\<close>

definition rows_overlap :: "knowledge_fact \<Rightarrow> knowledge_fact \<Rightarrow> bool" where
  "rows_overlap r r' \<longleftrightarrow> intervals_overlap (kf_validFrom r) (kf_validUntil r) (kf_validFrom r') (kf_validUntil r')"

definition timeline_ok :: "fact_slot \<Rightarrow> fact_table \<Rightarrow> bool" where
  "timeline_ok k tb \<longleftrightarrow>
     (\<forall>r \<in> set tb. \<forall>r' \<in> set tb. fact_open r \<longrightarrow> fact_open r' \<longrightarrow> slot_of r = k \<longrightarrow> slot_of r' = k \<longrightarrow>
        kf_id r \<noteq> kf_id r' \<longrightarrow> \<not> rows_overlap r r')"

text \<open>A row that is open after was open before, in the same slot, from the same moment, and not longer.\<close>

definition narrows :: "knowledge_fact \<Rightarrow> knowledge_fact \<Rightarrow> bool" where
  "narrows r r' \<longleftrightarrow> kf_id r' = kf_id r \<and>
     (fact_open r' \<longrightarrow> fact_open r \<and> slot_of r' = slot_of r \<and> kf_validFrom r' = kf_validFrom r \<and>
        (kf_validUntil r' = kf_validUntil r \<or> kf_validUntil r = None))"

lemma narrows_refl [simp]: "narrows r r" by (simp add: narrows_def)

lemma narrows_trans: "narrows r r' \<Longrightarrow> narrows r' r'' \<Longrightarrow> narrows r r''"
  by (auto simp: narrows_def)

lemma narrows_eased: "eased r r' \<Longrightarrow> narrows r r'"
  using eased_fields [of r r'] by (auto simp: narrows_def)

lemma narrows_overlap:
  assumes "narrows r r'" "fact_open r'" "intervals_overlap (kf_validFrom r') (kf_validUntil r') a u"
  shows "intervals_overlap (kf_validFrom r) (kf_validUntil r) a u"
  using assms by (auto simp: narrows_def intervals_overlap_def split: option.splits)

lemma intervals_overlap_sym: "intervals_overlap a u b v \<longleftrightarrow> intervals_overlap b v a u"
  by (auto simp: intervals_overlap_def)

lemma narrows_rows_overlap:
  "narrows r r' \<Longrightarrow> narrows x x' \<Longrightarrow> fact_open r' \<Longrightarrow> fact_open x' \<Longrightarrow> rows_overlap r' x' \<Longrightarrow> rows_overlap r x"
  unfolding rows_overlap_def using narrows_overlap intervals_overlap_sym by blast

lemma narrowed_rows:
  assumes "list_all2 narrows tb tb'" "r' \<in> set tb'"
  obtains r where "r \<in> set tb" "narrows r r'"
  using list_all2_right [OF assms] by blast

lemma timeline_narrows:
  assumes "list_all2 narrows tb tb'" "timeline_ok k tb"
  shows "timeline_ok k tb'"
  unfolding timeline_ok_def
proof (intro ballI impI)
  fix x y assume xy: "x \<in> set tb'" "y \<in> set tb'" "fact_open x" "fact_open y" "slot_of x = k" "slot_of y = k" "kf_id x \<noteq> kf_id y"
  obtain r where r: "r \<in> set tb" "narrows r x" using narrowed_rows [OF assms(1) xy(1)] .
  obtain s where s: "s \<in> set tb" "narrows s y" using narrowed_rows [OF assms(1) xy(2)] .
  have "fact_open r" "slot_of r = k" "kf_id r = kf_id x" "fact_open s" "slot_of s = k" "kf_id s = kf_id y"
    using r(2) s(2) xy(3-6) by (simp_all add: narrows_def)
  then have "\<not> rows_overlap r s"
    using assms(2) [unfolded timeline_ok_def, rule_format, OF r(1) s(1)] xy(7) by simp
  then show "\<not> rows_overlap x y" using narrows_rows_overlap [OF r(2) s(2) xy(3,4)] by blast
qed

lemma fact_update_narrows:
  assumes d: "distinct (map kf_id tb)" and id: "keeps_id f"
    and f: "\<And>r. r \<in> set tb \<Longrightarrow> kf_id r = i \<Longrightarrow> narrows r (f r)"
  shows "list_all2 narrows tb (fact_update i f tb)"
  using fact_update_rows [OF d id, of i]
  by (rule list.rel_mono_strong) (auto simp: row_step_def intro: f narrows_eased split: if_splits)

lemma list_all2_narrows_trans: "list_all2 narrows a b \<Longrightarrow> list_all2 narrows b c \<Longrightarrow> list_all2 narrows a c"
  by (rule list_all2_trans [OF narrows_trans])

lemma narrows_ids: "list_all2 narrows tb tb' \<Longrightarrow> map kf_id tb' = map kf_id tb"
  by (induction rule: list_all2_induct) (auto simp: narrows_def)

lemma keeps_id_simps [simp]:
  "keeps_id (mark_corroborating j)" "keeps_id (add_corroboration a b c)" "keeps_id (\<lambda>r. r\<lparr>kf_validUntil := u\<rparr>)"
  "keeps_id (close_superseded x j p u')" "keeps_id (stamp_language w)" "keeps_id (\<lambda>r. r\<lparr>kf_trace := tr\<rparr>)"
  "keeps_id (\<lambda>r. r\<lparr>kf_status := st\<rparr>)" "keeps_id (\<lambda>r. r\<lparr>kf_scope := sc\<rparr>)"
  by (simp_all add: keeps_id_def mark_corroborating_def add_corroboration_def close_superseded_def
      stamp_language_def Let_def split: option.splits)

lemma narrows_simps [simp]:
  "narrows r (mark_corroborating j r)" "narrows r (add_corroboration a b c r)"
  "narrows r (close_superseded x j p u' r)" "narrows r (stamp_language w r)" "narrows r (r\<lparr>kf_trace := tr\<rparr>)"
  "kf_validUntil r = None \<Longrightarrow> narrows r (r\<lparr>kf_validUntil := u\<rparr>)"
  "fact_open r \<Longrightarrow> narrows r (r\<lparr>kf_status := st\<rparr>)"
  by (auto simp: narrows_def mark_corroborating_def add_corroboration_def close_superseded_def
      stamp_language_def fact_open_def slot_of_def Let_def split: option.splits)

lemma closed_not_open [simp]: "\<not> fact_open (close_superseded x j p u r)" "\<not> fact_open (mark_corroborating j r)"
  by (simp_all add: fact_open_def close_superseded_def mark_corroborating_def)

lemma fact_updateD:
  assumes d: "distinct (map kf_id tb)" and id: "keeps_id f" and r: "r' \<in> set (fact_update i f tb)"
  obtains r where "r \<in> set tb" "row_step i f r r'"
  using list_all2_right [OF fact_update_rows [OF d id] r] by blast

lemma fact_update_row:
  "distinct (map kf_id tb) \<Longrightarrow> keeps_id f \<Longrightarrow> r' \<in> set (fact_update i f tb) \<Longrightarrow> \<exists>r \<in> set tb. row_step i f r r'"
  using list_all2_right [OF fact_update_rows] by blast

definition closing :: "string set \<Rightarrow> knowledge_fact \<Rightarrow> knowledge_fact \<Rightarrow> bool" where
  "closing ids r r' \<longleftrightarrow> narrows r r' \<and> (kf_id r \<in> ids \<longrightarrow> \<not> fact_open r')"

lemma closing_trans: "closing ids r r' \<Longrightarrow> closing ids' r' r'' \<Longrightarrow> closing (ids \<union> ids') r r''"
  by (auto simp: closing_def narrows_def)

lemma closing_narrows: "list_all2 (closing ids) tb tb' \<Longrightarrow> list_all2 narrows tb tb'"
  by (erule list.rel_mono_strong) (simp add: closing_def)

lemma closing_steps:
  "list_all2 (closing a) x y \<Longrightarrow> list_all2 (closing b) y z \<Longrightarrow> list_all2 (closing (a \<union> b)) x z"
  using list_all2_trans [of "closing a" "closing b" "closing (a \<union> b)"] closing_trans by metis

lemma fact_update_closing:
  assumes d: "distinct (map kf_id tb)" and id: "keeps_id f" and f: "\<And>r. narrows r (f r) \<and> \<not> fact_open (f r)"
  shows "list_all2 (closing {i}) tb (fact_update i f tb)"
  using fact_update_rows [OF d id, of i]
  by (rule list.rel_mono_strong) (auto simp: row_step_def closing_def f intro: narrows_eased split: if_splits)

lemma close_losers_closing:
  assumes "distinct (map kf_id tb)"
  shows "list_all2 (closing (kf_id ` set losers)) tb (close_losers w i losers tb)"
  using assms
proof (induction losers arbitrary: tb)
  case Nil
  show ?case by (simp add: close_losers_def closing_def list_all2_same)
next
  case (Cons l ls)
  let ?tb1 = "fact_update (kf_id l) (close_superseded ''system'' i (kf_validUntil l) (fw_validFrom w)) tb"
  have one: "list_all2 (closing {kf_id l}) tb ?tb1" using Cons.prems by (intro fact_update_closing) simp_all
  have "distinct (map kf_id ?tb1)" using narrows_ids [OF closing_narrows [OF one]] Cons.prems by simp
  then have "list_all2 (closing (kf_id ` set ls)) ?tb1 (close_losers w i ls ?tb1)" by (rule Cons.IH)
  with one have "list_all2 (closing ({kf_id l} \<union> kf_id ` set ls)) tb (close_losers w i ls ?tb1)"
    by (rule closing_steps)
  then show ?case by (simp add: close_losers_def)
qed

lemma set_status_narrows:
  assumes "distinct (map kf_id tb)" "\<And>r. r \<in> set tb \<Longrightarrow> kf_id r \<in> set ids \<Longrightarrow> fact_open r" "st \<in> {Active, Competing}"
  shows "list_all2 narrows tb (set_status st ids tb)"
  using assms(1,2)
proof (induction ids arbitrary: tb)
  case Nil
  show ?case by (simp add: set_status_def list_all2_same)
next
  case (Cons j js)
  let ?f = "\<lambda>r. r\<lparr>kf_status := st\<rparr>" and ?tb1 = "fact_update j (\<lambda>r. r\<lparr>kf_status := st\<rparr>) tb"
  have one: "list_all2 narrows tb ?tb1"
    using Cons.prems by (intro fact_update_narrows) simp_all
  have "list_all2 narrows ?tb1 (set_status st js ?tb1)"
  proof (rule Cons.IH)
    show "distinct (map kf_id ?tb1)" using narrows_ids [OF one] Cons.prems(1) by simp
  next
    fix r' assume "r' \<in> set ?tb1" "kf_id r' \<in> set js"
    then obtain r where r: "r \<in> set tb" "row_step j ?f r r'" using fact_updateD [OF Cons.prems(1), of ?f] by auto
    then have "fact_open r" using \<open>kf_id r' \<in> set js\<close> Cons.prems(2) [OF r(1)]
      by (auto simp: row_step_def eased_fields(1) split: if_splits)
    show "fact_open r'"
    proof (cases "kf_id r = j")
      case True
      with r(2) \<open>fact_open r\<close> assms(3) show ?thesis by (auto simp: row_step_def fact_open_def)
    next
      case False
      with r(2) have "eased r r'" by (simp add: row_step_def)
      with \<open>fact_open r\<close> show ?thesis by (simp add: eased_fields(14))
    qed
  qed
  with one show ?case unfolding set_status_def by (auto intro: list_all2_narrows_trans)
qed

section \<open>What settling does\<close>

lemma order_first_mem: "order_first lt xs = Some x \<Longrightarrow> x \<in> set xs"
  by (auto simp: order_first_def find_Some_iff)

lemma ended_value_mem:
  "ended_value w cs = Some e \<Longrightarrow> e \<in> set cs \<and> kf_validUntil e = None"
  by (auto simp: ended_value_def split: option.splits dest!: order_first_mem)

lemma created_simps [simp]:
  "kf_id (created_fact env w) = se_newId env" "kf_status (created_fact env w) = Active"
  "kf_validFrom (created_fact env w) = fw_validFrom w" "kf_validUntil (created_fact env w) = fw_validUntil w"
  "fact_open (created_fact env w)" "kf_entity (created_fact env w) = fw_entity w"
  by (simp_all add: created_fact_def Let_def fact_open_def)

lemma slot_pool_mem: "r \<in> set (slot_pool env w cs) \<Longrightarrow> r \<in> set cs \<and> overlaps_write w r"
  by (auto simp: slot_pool_def split: semantics.splits)

lemma candidate_mem: "r \<in> set (fact_candidates w tb) \<longleftrightarrow> r \<in> set tb \<and> slot_of r = write_slot w \<and> fact_open r"
  by (auto simp: fact_candidates_def)

lemma single_active_pool:
  "fw_semantics w = single_active \<Longrightarrow> slot_pool env w cs = filter (overlaps_write w) cs"
  "fw_semantics w = single_active \<Longrightarrow> closed_values w slot = slot"
  "fw_semantics w \<noteq> bitemporal_event \<Longrightarrow> day_peers w slot = []"
  by (simp_all add: slot_pool_def closed_values_def day_peers_def)


abbreviation pool_of :: "settle_env \<Rightarrow> fact_write \<Rightarrow> fact_table \<Rightarrow> fact_table" where
  "pool_of env w tb \<equiv> slot_pool env w (fact_candidates w tb)"

abbreviation with_new :: "settle_env \<Rightarrow> fact_write \<Rightarrow> fact_table \<Rightarrow> fact_table" where
  "with_new env w tb \<equiv> tb @ [created_fact env w]"

lemma settle_cases [consumes 1, case_names rejected ended corroborated restated inserted historical superseded competing undecided]:
  assumes "settle_fact env w tb = (res, tb')"
  obtains
    "\<not> se_created env" "res = settle_out REJECTED None (Some ''create_returned_none'')" "tb' = tb"
  | e where "se_created env" "e \<in> set (fact_candidates w tb)" "kf_validUntil e = None"
      "sr_outcome res = CORROBORATED" "sr_factId res = Some (se_newId env)"
      "tb' = fact_update (se_newId env) (mark_corroborating (kf_id e))
        (fact_update (kf_id e) (\<lambda>r. r\<lparr>kf_validUntil := fw_validUntil w\<rparr>) (with_new env w tb))"
  | c where "se_created env" "c \<in> set (fact_candidates w tb)" "kf_object c = fw_object w"
      "origin_key_of (kf_source c) \<noteq> origin_key_of (fw_source w)"
      "sr_outcome res = CORROBORATED" "sr_factId res = Some (se_newId env)"
      "tb' = fact_update (kf_id c)
        (add_corroboration (source_key_of (fw_source w)) (origin_key_of (fw_source w)) (se_now env))
        (fact_update (se_newId env) (mark_corroborating (kf_id c)) (with_new env w tb))"
  | c where "se_created env" "c \<in> set (pool_of env w tb)" "kf_object c = fw_object w"
      "origin_key_of (kf_source c) = origin_key_of (fw_source w)"
      "sr_outcome res = CORROBORATED" "sr_factId res = Some (se_newId env)"
      "tb' = fact_update (se_newId env) (mark_corroborating (kf_id c)) (with_new env w tb)"
  | "se_created env" "pool_of env w tb = []" "sr_outcome res = INSERTED" "sr_factId res = Some (se_newId env)"
      "tb' = fact_update (se_newId env) (stamp_language w) (with_new env w tb)"
  | n where "se_created env" "next_after w (pool_of env w tb) = Some n"
      "sr_outcome res = INSERTED_HISTORICAL" "sr_factId res = Some (se_newId env)"
      "tb' = fact_update (se_newId env) (close_superseded ''system'' (kf_id n) (fw_validUntil w) (kf_validFrom n))
        (with_new env w tb)"
  | tr where "se_created env" "next_after w (pool_of env w tb) = None" "closed_values w (pool_of env w tb) \<noteq> []"
      "sr_outcome res = SUPERSEDED" "sr_factId res = Some (se_newId env)"
      "sr_supersededFactIds res = map kf_id (closed_values w (pool_of env w tb))"
      "tb' = fact_update (se_newId env) (\<lambda>r. r\<lparr>kf_trace := tr\<rparr>)
        (set_status Competing (map kf_id (day_peers w (pool_of env w tb)))
          (close_losers w (se_newId env) (closed_values w (pool_of env w tb)) (with_new env w tb)))"
  | tr where "se_created env" "day_peers w (pool_of env w tb) \<noteq> []" "closed_values w (pool_of env w tb) = []"
      "sr_outcome res = COMPETING" "sr_factId res = Some (se_newId env)"
      "tb' = fact_update (se_newId env) (\<lambda>r. r\<lparr>kf_trace := tr\<rparr>)
        (set_status Competing (map kf_id (day_peers w (pool_of env w tb)) @ [se_newId env]) (with_new env w tb))"
  | "se_created env" "pool_of env w tb \<noteq> []" "closed_values w (pool_of env w tb) = []"
      "sr_outcome res = INSERTED" "sr_factId res = Some (se_newId env)"
      "tb' = fact_update (se_newId env) (stamp_language w) (with_new env w tb)"
proof (cases "se_created env")
  case False
  then show thesis using assms that(1) by (simp add: settle_fact_def Let_def)
next
  case created: True
  note st = assms [unfolded settle_fact_def Let_def, simplified created not_True_eq_False if_False]
  show thesis
  proof (cases "ended_value w (fact_candidates w tb)")
    case (Some e)
    with st ended_value_mem [OF Some] show thesis by (intro that(2) [OF created]) (auto simp: settle_out_def)
  next
    case ended: None
    note st1 = st [simplified ended option.case]
    let ?corr = "order_first later_recorded (filter (\<lambda>r. kf_object r = fw_object w \<and>
      origin_key_of (kf_source r) \<noteq> origin_key_of (fw_source w))
      (if fw_semantics w = append_only then fact_candidates w tb else pool_of env w tb))"
    show thesis
    proof (cases ?corr)
      case (Some c)
      have c: "c \<in> set (fact_candidates w tb)" "kf_object c = fw_object w"
        "origin_key_of (kf_source c) \<noteq> origin_key_of (fw_source w)"
        using order_first_mem [OF Some] slot_pool_mem [of c env w "fact_candidates w tb"]
        by (cases "fw_semantics w = append_only"; simp)+
      show thesis using st1 [simplified Some option.case] c
        by (intro that(3) [OF created]) (auto simp: settle_out_def)
    next
      case corr: None
      note st2 = st1 [simplified corr option.case]
      let ?rest = "order_first later_recorded (filter (\<lambda>r. kf_object r = fw_object w \<and>
        origin_key_of (kf_source r) = origin_key_of (fw_source w)) (pool_of env w tb))"
      show thesis
      proof (cases ?rest)
        case (Some c)
        show thesis using st2 [simplified Some option.case] order_first_mem [OF Some]
          by (intro that(4) [OF created]) (auto simp: settle_out_def)
      next
        case rest: None
        note st3 = st2 [simplified rest option.case]
        show thesis
        proof (cases "pool_of env w tb = []")
          case True
          with st3 show thesis by (intro that(5) [OF created]) (auto simp: settle_out_def)
        next
          case slot: False
          with st3 have st4: "settle_succession env w (pool_of env w tb) (with_new env w tb) = (res, tb')" by simp
          consider n where "next_after w (pool_of env w tb) = Some n"
            | "next_after w (pool_of env w tb) = None" "closed_values w (pool_of env w tb) \<noteq> []"
            | "next_after w (pool_of env w tb) = None" "closed_values w (pool_of env w tb) = []"
                "day_peers w (pool_of env w tb) \<noteq> []"
            | "next_after w (pool_of env w tb) = None" "closed_values w (pool_of env w tb) = []"
                "day_peers w (pool_of env w tb) = []"
            by (cases "next_after w (pool_of env w tb)") auto
          then show thesis
          proof cases
            case 1
            with st4 show thesis
              by (intro that(6) [OF created 1]) (auto simp: settle_succession_def Let_def settle_out_def)
          next
            case 2
            have "set_status Competing [] t = t" for t by (simp add: set_status_def)
            with st4 2 show thesis
              by (intro that(7) [OF created 2]) (auto simp: settle_succession_def Let_def settle_out_def)
          next
            case 3
            with st4 show thesis
              by (intro that(8) [OF created]) (auto simp: settle_succession_def Let_def settle_out_def)
          next
            case 4
            with st4 slot show thesis
              by (intro that(9) [OF created]) (auto simp: settle_succession_def Let_def settle_out_def)
          qed
        qed
      qed
    qed
  qed
qed

lemma candidate_closed_values:
  "r \<in> set (closed_values w (pool_of env w tb)) \<Longrightarrow> r \<in> set (pool_of env w tb)"
  by (auto simp: closed_values_def split: semantics.splits)

lemma pool_row: "r \<in> set (pool_of env w tb) \<Longrightarrow> r \<in> set tb \<and> fact_open r \<and> slot_of r = write_slot w \<and> overlaps_write w r"
  using slot_pool_mem [of r env w "fact_candidates w tb"] by (auto simp: candidate_mem)

lemma day_peer_row: "r \<in> set (day_peers w (pool_of env w tb)) \<Longrightarrow> r \<in> set tb \<and> fact_open r"
  by (auto simp: day_peers_def dest: pool_row split: if_splits)

lemma with_new_distinct:
  "distinct (map kf_id tb) \<Longrightarrow> se_newId env \<notin> set (map kf_id tb) \<Longrightarrow> distinct (map kf_id (with_new env w tb))"
  by simp

lemma fact_update_narrows':
  assumes "list_all2 narrows tb tb'" "distinct (map kf_id tb)" "keeps_id f"
    and "\<And>r. r \<in> set tb' \<Longrightarrow> kf_id r = i \<Longrightarrow> narrows r (f r)"
  shows "list_all2 narrows tb (fact_update i f tb')"
proof -
  have "distinct (map kf_id tb')" using narrows_ids [OF assms(1)] assms(2) by simp
  from fact_update_narrows [OF this assms(3,4)] assms(1) show ?thesis by (auto intro: list_all2_narrows_trans)
qed

lemma narrows_all_refl: "list_all2 narrows tb tb"
  by (simp add: list_all2_same)

lemma set_status_peers_narrows:
  assumes d: "distinct (map kf_id tb)" and n: "list_all2 narrows tb tb'"
    and keep: "\<And>r'. r' \<in> set tb' \<Longrightarrow> kf_id r' \<in> set ids \<Longrightarrow> fact_open r'"
  shows "list_all2 narrows tb (set_status Competing ids tb')"
proof -
  have "distinct (map kf_id tb')" using narrows_ids [OF n] d by simp
  then have "list_all2 narrows tb' (set_status Competing ids tb')" using keep by (rule set_status_narrows) auto
  with n show ?thesis by (rule list_all2_narrows_trans)
qed

text \<open>Closing the losers does not touch rows that are not among them, beyond releasing disputes.\<close>

lemma close_losers_open:
  assumes "distinct (map kf_id tb)" "r' \<in> set (close_losers w i losers tb)" "kf_id r' \<notin> kf_id ` set losers"
  obtains r where "r \<in> set tb" "eased r r'"
proof -
  have "list_all2 (\<lambda>r r'. kf_id r' = kf_id r \<and> (kf_id r \<notin> kf_id ` set losers \<longrightarrow> eased r r')) tb (close_losers w i losers tb)"
    using assms(1)
  proof (induction losers arbitrary: tb)
    case Nil
    show ?case by (simp add: close_losers_def list_all2_same)
  next
    case (Cons l ls)
    let ?f = "close_superseded ''system'' i (kf_validUntil l) (fw_validFrom w)"
    let ?R = "\<lambda>ls r r'. kf_id r' = kf_id r \<and> (kf_id r \<notin> kf_id ` set ls \<longrightarrow> eased r r')"
    have one: "list_all2 (row_step (kf_id l) ?f) tb (fact_update (kf_id l) ?f tb)"
      using Cons.prems by (rule fact_update_rows) simp
    have "distinct (map kf_id (fact_update (kf_id l) ?f tb))"
      using fact_update_ids [OF Cons.prems, of ?f] Cons.prems by simp
    from Cons.IH [OF this] have two: "list_all2 (?R ls) (fact_update (kf_id l) ?f tb) (close_losers w i (l # ls) tb)"
      by (simp add: close_losers_def)
    have "?R (l # ls) a c" if "row_step (kf_id l) ?f a b" "?R ls b c" for a b c
      using that by (auto simp: row_step_def close_superseded_def eased_fields(1) intro: eased_trans split: if_splits)
    from list_all2_trans [of "row_step (kf_id l) ?f" "?R ls" "?R (l # ls)", OF this one two] show ?case .
  qed
  from list_all2_right [OF this assms(2)] that assms(3) show thesis by auto
qed

lemma competing_narrows:
  assumes "distinct (map kf_id tb)" "se_newId env \<notin> set (map kf_id tb)"
  shows "list_all2 narrows (with_new env w tb)
      (set_status Competing (map kf_id (day_peers w (pool_of env w tb)) @ [se_newId env]) (with_new env w tb))"
proof (rule set_status_peers_narrows [OF with_new_distinct [OF assms] narrows_all_refl])
  fix r assume r: "r \<in> set (with_new env w tb)"
    "kf_id r \<in> set (map kf_id (day_peers w (pool_of env w tb)) @ [se_newId env])"
  show "fact_open r"
  proof (cases "kf_id r = se_newId env")
    case True
    then have "r \<notin> set tb" using assms(2) by (metis image_eqI list.set_map)
    with r(1) show ?thesis by auto
  next
    case False
    with r obtain p where p: "p \<in> set (day_peers w (pool_of env w tb))" "kf_id p = kf_id r" by auto
    from False r(1) have "r \<in> set tb" by auto
    then have "p = r" using row_by_id [OF assms(1)] day_peer_row [OF p(1)] p(2) by blast
    with day_peer_row [OF p(1)] show ?thesis by simp
  qed
qed

lemma superseding_narrows:
  fixes tb env w
  defines "slot \<equiv> pool_of env w tb"
  assumes "distinct (map kf_id tb)" "se_newId env \<notin> set (map kf_id tb)"
  shows "list_all2 narrows (with_new env w tb)
      (set_status Competing (map kf_id (day_peers w slot))
        (close_losers w (se_newId env) (closed_values w slot) (with_new env w tb)))"
proof (rule set_status_peers_narrows [OF with_new_distinct [OF assms(2,3)]])
  show "list_all2 narrows (with_new env w tb) (close_losers w (se_newId env) (closed_values w slot) (with_new env w tb))"
    by (rule closing_narrows [OF close_losers_closing [OF with_new_distinct [OF assms(2,3)]]])
next
  fix r' assume r': "r' \<in> set (close_losers w (se_newId env) (closed_values w slot) (with_new env w tb))"
    "kf_id r' \<in> set (map kf_id (day_peers w slot))"
  then obtain p where p: "p \<in> set (day_peers w slot)" "kf_id p = kf_id r'" by auto
  have p': "p \<in> set tb" "fact_open p" using day_peer_row p(1) by (auto simp: slot_def)
  have "kf_id r' \<notin> kf_id ` set (closed_values w slot)"
  proof
    assume "kf_id r' \<in> kf_id ` set (closed_values w slot)"
    then obtain c where c: "c \<in> set (closed_values w slot)" "kf_id c = kf_id p" using p by auto
    then have "c \<in> set tb" using pool_row [OF candidate_closed_values [of c w env tb]] unfolding slot_def by blast
    then have "c = p" using row_by_id [OF assms(2)] c(2) p'(1) by blast
    with c(1) p(1) show False
      by (cases "fw_semantics w = bitemporal_event") (auto simp: closed_values_def day_peers_def)
  qed
  then obtain r where r: "r \<in> set (with_new env w tb)" "eased r r'"
    by (rule close_losers_open [OF with_new_distinct [OF assms(2,3)] r'(1)])
  have "kf_id r = kf_id p" using eased_fields(1) [OF r(2)] p(2) by simp
  then have "r = p" using row_by_id [OF with_new_distinct [OF assms(2,3)] r(1)] p'(1) by simp
  with p'(2) r(2) show "fact_open r'" by (simp add: eased_fields(14))
qed

lemma settle_narrows:
  assumes d: "distinct (map kf_id tb)" "se_newId env \<notin> set (map kf_id tb)" and s: "settle_fact env w tb = (res, tb')"
    and "se_created env"
  shows "list_all2 narrows (with_new env w tb) tb'"
  using s
proof (cases rule: settle_cases)
  case rejected
  with assms(4) show ?thesis by simp
next
  case (ended e)
  have "narrows r (r\<lparr>kf_validUntil := fw_validUntil w\<rparr>)"
    if r: "r \<in> set (with_new env w tb)" "kf_id r = kf_id e" for r
  proof -
    have "r = e" using row_by_id [OF with_new_distinct [OF d] r(1) _ r(2)] ended(2) by (simp add: candidate_mem)
    with ended(3) show ?thesis by simp
  qed
  then have "list_all2 narrows (with_new env w tb)
      (fact_update (kf_id e) (\<lambda>r. r\<lparr>kf_validUntil := fw_validUntil w\<rparr>) (with_new env w tb))"
    by (intro fact_update_narrows' [OF narrows_all_refl with_new_distinct [OF d]]) simp_all
  from fact_update_narrows' [OF this with_new_distinct [OF d], of "mark_corroborating (kf_id e)" "se_newId env"]
  show ?thesis by (simp add: ended(6))
next
  case (corroborated c)
  show ?thesis unfolding corroborated(7)
    by (intro fact_update_narrows' [OF _ with_new_distinct [OF d]] fact_update_narrows' [OF narrows_all_refl with_new_distinct [OF d]])
      auto
next
  case (restated c)
  show ?thesis unfolding restated(7) by (intro fact_update_narrows' [OF narrows_all_refl with_new_distinct [OF d]]) auto
next
  case inserted
  show ?thesis unfolding inserted(5) by (intro fact_update_narrows' [OF narrows_all_refl with_new_distinct [OF d]]) auto
next
  case (historical n)
  show ?thesis unfolding historical(5) by (intro fact_update_narrows' [OF narrows_all_refl with_new_distinct [OF d]]) auto
next
  case (superseded tr)
  show ?thesis unfolding superseded(7)
    by (intro fact_update_narrows' [OF superseding_narrows [OF d] with_new_distinct [OF d]]) auto
next
  case (competing tr)
  show ?thesis unfolding competing(6)
    by (intro fact_update_narrows' [OF competing_narrows [OF d] with_new_distinct [OF d]]) auto
next
  case undecided
  show ?thesis unfolding undecided(6) by (intro fact_update_narrows' [OF narrows_all_refl with_new_distinct [OF d]]) auto
qed

text \<open>When the value of a single-valued slot is open after its write, what it overlapped is closed.\<close>

lemma settle_clears:
  assumes d: "distinct (map kf_id tb)" "se_newId env \<notin> set (map kf_id tb)" and s: "settle_fact env w tb = (res, tb')"
    and "se_created env" and single: "fw_semantics w = single_active"
    and n: "n \<in> set tb'" "kf_id n = se_newId env" "fact_open n"
    and r: "r \<in> set tb" "fact_open r" "slot_of r = write_slot w" "overlaps_write w r"
    and r': "r' \<in> set tb'" "kf_id r' = kf_id r"
  shows "\<not> fact_open r'"
proof -
  have cand: "r \<in> set (pool_of env w tb)" using r single by (auto simp: single_active_pool candidate_mem)
  have not_new: "\<not> (\<exists>f t. tb' = fact_update (se_newId env) f t \<and> distinct (map kf_id t) \<and> keeps_id f \<and> (\<forall>x. \<not> fact_open (f x)))"
  proof
    assume "\<exists>f t. tb' = fact_update (se_newId env) f t \<and> distinct (map kf_id t) \<and> keeps_id f \<and> (\<forall>x. \<not> fact_open (f x))"
    then obtain f t where f: "tb' = fact_update (se_newId env) f t" "distinct (map kf_id t)" "keeps_id f" "\<forall>x. \<not> fact_open (f x)"
      by blast
    from n(1) f(1) obtain x where "x \<in> set t" "row_step (se_newId env) f x n" using fact_update_row [OF f(2,3)] by blast
    with n(2,3) f(3,4) show False by (auto simp: row_step_def keeps_id_def eased_fields(1) split: if_splits)
  qed
  from s show ?thesis
  proof (cases rule: settle_cases)
    case rejected
    with assms(4) show ?thesis by simp
  next
    case (ended e)
    have "keeps_id (\<lambda>r. r\<lparr>kf_validUntil := fw_validUntil w\<rparr>)" by simp
    with fact_update_ids [OF with_new_distinct [OF d] this] ended(6) not_new with_new_distinct [OF d] show ?thesis
      by (metis closed_not_open(2) keeps_id_simps(1))
  next
    case (corroborated c)
    let ?t = "fact_update (se_newId env) (mark_corroborating (kf_id c)) (with_new env w tb)"
    have "distinct (map kf_id ?t)" using fact_update_ids [OF with_new_distinct [OF d]] with_new_distinct [OF d] by simp
    from n(1) [unfolded corroborated(7)] obtain x where x: "x \<in> set ?t"
      "row_step (kf_id c) (add_corroboration (source_key_of (fw_source w)) (origin_key_of (fw_source w)) (se_now env)) x n"
      using fact_update_row [OF \<open>distinct (map kf_id ?t)\<close> keeps_id_simps(2)] by blast
    have "kf_id c \<noteq> se_newId env" using corroborated(2) d(2) by (metis candidate_mem image_eqI list.set_map)
    moreover have "kf_id x = kf_id n" using x(2) by (auto simp: row_step_def add_corroboration_def Let_def eased_fields(1) split: if_splits)
    ultimately have "eased x n" "kf_id x = se_newId env" using x(2) n(2) by (auto simp: row_step_def)
    moreover have "\<not> fact_open x"
      using fact_update_row [OF with_new_distinct [OF d] keeps_id_simps(1) x(1)] \<open>kf_id x = se_newId env\<close>
      by (auto simp: row_step_def eased_fields(1) split: if_splits)
    ultimately show ?thesis using n(3) by (simp add: eased_fields(14))
  next
    case (restated c)
    with not_new with_new_distinct [OF d] show ?thesis by (metis closed_not_open(2) keeps_id_simps(1))
  next
    case inserted
    with cand show ?thesis by simp
  next
    case (historical m)
    with not_new with_new_distinct [OF d] show ?thesis by (metis closed_not_open(1) keeps_id_simps(4))
  next
    case (superseded tr)
    let ?closed = "close_losers w (se_newId env) (closed_values w (pool_of env w tb)) (with_new env w tb)"
    have tb': "tb' = fact_update (se_newId env) (\<lambda>r. r\<lparr>kf_trace := tr\<rparr>) ?closed"
      using superseded(7) single by (simp add: single_active_pool set_status_def)
    have cl: "list_all2 (closing (kf_id ` set (pool_of env w tb))) (with_new env w tb) ?closed"
      using close_losers_closing [OF with_new_distinct [OF d, of w], of "pool_of env w tb" w "se_newId env"]
      by (simp only: single_active_pool(2) [OF single])
    have dc: "distinct (map kf_id ?closed)" using narrows_ids [OF closing_narrows [OF cl]] with_new_distinct [OF d] by simp
    from r'(1) tb' obtain x where x: "x \<in> set ?closed" "row_step (se_newId env) (\<lambda>r. r\<lparr>kf_trace := tr\<rparr>) x r'"
      using fact_update_row [OF dc keeps_id_simps(6)] by blast
    have "kf_id r' \<noteq> se_newId env" using r'(2) r(1) d(2) by (metis image_eqI list.set_map)
    with x(2) have "eased x r'" by (auto simp: row_step_def split: if_splits)
    moreover obtain y where "y \<in> set (with_new env w tb)" "closing (kf_id ` set (pool_of env w tb)) y x"
      using list_all2_right [OF cl x(1)] by blast
    ultimately show ?thesis using r'(2) cand
      by (auto simp: closing_def narrows_def eased_fields(1,14))
  next
    case (competing tr)
    with single show ?thesis by (simp add: single_active_pool)
  next
    case undecided
    with single show ?thesis by (simp add: single_active_pool)
  qed
qed

lemma settle_created: "se_created env \<Longrightarrow> settle_fact env w tb = (res, tb') \<Longrightarrow> sr_factId res = Some (se_newId env)"
  by (erule settle_cases) auto

lemma settle_not_created: "\<not> se_created env \<Longrightarrow> settle_fact env w tb = (settle_out REJECTED None (Some ''create_returned_none''), tb)"
  by (simp add: settle_fact_def Let_def)

lemma slot_of_created:
  "slot_of ((created_fact env w)\<lparr>kf_scope := sc\<rparr>) =
     (fw_entity w, case fw_alias w of Some a \<Rightarrow> a | None \<Rightarrow> fw_predicate w, fw_userId w,
      sort (filter is_group_tag sc), fw_derivedVersion w)"
  by (simp add: slot_of_def created_fact_def Let_def canonical_predicate_def cong: option.case_cong)

lemma slot_of_scope: "slot_of r = slot_of r' \<Longrightarrow> slot_of (r\<lparr>kf_scope := sc\<rparr>) = slot_of (r'\<lparr>kf_scope := sc\<rparr>)"
  by (simp add: slot_of_def)

definition tags_match :: "string list \<Rightarrow> fact_write \<Rightarrow> bool" where
  "tags_match scope w \<longleftrightarrow> sort (filter is_group_tag scope) = sort (filter is_group_tag (fw_circles w))"

text \<open>The rows of the table after a settling and its stamp.\<close>

lemma settled_rows:
  assumes d: "distinct (map kf_id tb)" "se_newId env \<notin> set (map kf_id tb)"
    and s: "settle_fact env w tb = (res, tb')" and c: "se_created env"
    and x: "x \<in> set (snd (stamp_scope scope (res, tb')))"
  obtains (old) r where "x \<in> set tb'" "r \<in> set tb" "narrows r x" "kf_id x \<noteq> se_newId env"
  | (new) n where "n \<in> set tb'" "kf_id n = se_newId env" "kf_id x = se_newId env" "narrows (created_fact env w) n"
      "x = (if scope = [] then n else n\<lparr>kf_scope := scope\<rparr>)"
proof -
  note n = settle_narrows [OF d s c]
  have set': "x \<in> (\<lambda>r. if kf_id r = se_newId env \<and> scope \<noteq> [] then r\<lparr>kf_scope := scope\<rparr> else r) ` set tb'"
    using x settle_created [OF c s] by (cases "scope = []") (auto simp: stamp_scope_def fact_set_def)
  then obtain y where y: "y \<in> set tb'" "x = (if kf_id y = se_newId env \<and> scope \<noteq> [] then y\<lparr>kf_scope := scope\<rparr> else y)"
    by blast
  obtain r where r: "r \<in> set (with_new env w tb)" "narrows r y" using narrowed_rows [OF n y(1)] .
  have id: "kf_id y = kf_id r" using r(2) by (simp add: narrows_def)
  show thesis
  proof (cases "kf_id y = se_newId env")
    case True
    then have "r \<notin> set tb" using id d(2) by (metis image_eqI list.set_map)
    with r(1) have "r = created_fact env w" by simp
    with r(2) True y show thesis by (intro new [of y]) auto
  next
    case False
    then have "r \<in> set tb" using r(1) id by auto
    with r(2) False y show thesis by (intro old) auto
  qed
qed

lemma stamped_ids: "map kf_id (snd (stamp_scope scope (res, tb))) = map kf_id tb"
  by (auto simp: stamp_scope_def fact_set_def split: option.splits)

lemma settle_ids:
  assumes d: "distinct (map kf_id tb)" "se_newId env \<notin> set (map kf_id tb)"
  shows "distinct (map kf_id (snd (stamp_scope scope (settle_fact env w tb))))"
proof (cases "se_created env")
  case True
  obtain res tb' where s: "settle_fact env w tb = (res, tb')" by fastforce
  show ?thesis using narrows_ids [OF settle_narrows [OF d s True]] with_new_distinct [OF d] by (simp add: s stamped_ids)
next
  case False
  with d show ?thesis by (simp add: settle_not_created stamped_ids)
qed

lemma new_row_free:
  assumes d: "distinct (map kf_id tb)" "se_newId env \<notin> set (map kf_id tb)"
    and s: "settle_fact env w tb = (res, tb')" and c: "se_created env"
    and single: "write_slot w = k \<Longrightarrow> fw_semantics w = single_active" and tags: "slot_of ((created_fact env w)\<lparr>kf_scope := scope\<rparr>) = k \<Longrightarrow> write_slot w = k"
    and n: "n \<in> set tb'" "kf_id n = se_newId env" "narrows (created_fact env w) n"
      "x = (if scope = [] then n else n\<lparr>kf_scope := scope\<rparr>)" "fact_open x" "slot_of x = k"
    and y: "y \<in> set tb'" "r \<in> set tb" "narrows r y" "fact_open y" "slot_of y = k"
  shows "\<not> rows_overlap x y"
proof
  assume overlap: "rows_overlap x y"
  have same: "kf_validFrom x = kf_validFrom n" "kf_validUntil x = kf_validUntil n" "fact_open n"
    using n(4,5) by (auto simp: fact_open_def split: if_splits)
  have "slot_of x = slot_of ((created_fact env w)\<lparr>kf_scope := scope\<rparr>)"
  proof (cases "scope = []")
    case True
    then have "slot_of x = slot_of (created_fact env w)" using n(3,4) same(3) by (simp add: narrows_def)
    moreover have "(created_fact env w)\<lparr>kf_scope := []\<rparr> = created_fact env w" by (simp add: created_fact_def Let_def)
    ultimately show ?thesis using True by simp
  next
    case False
    then show ?thesis using n(3,4) same(3) by (auto simp: narrows_def intro: slot_of_scope)
  qed
  then have k: "write_slot w = k" using tags n(6) by simp
  have r: "fact_open r" "slot_of r = write_slot w" "kf_id y = kf_id r"
    using y(3-5) k by (auto simp: narrows_def)
  have "rows_overlap n y" using overlap same by (simp add: rows_overlap_def)
  then have "rows_overlap (created_fact env w) r" by (rule narrows_rows_overlap [OF n(3) y(3) same(3) y(4)])
  then have "overlaps_write w r" by (simp add: rows_overlap_def overlaps_write_def intervals_overlap_sym)
  with settle_clears [OF d s c single [OF k] n(1,2) same(3) y(2) r(1,2) _ y(1) r(3)] y(4) show False by simp
qed

lemma settle_timeline:
  assumes d: "distinct (map kf_id tb)" "se_newId env \<notin> set (map kf_id tb)"
    and single: "write_slot w = k \<Longrightarrow> fw_semantics w = single_active" and tags: "slot_of ((created_fact env w)\<lparr>kf_scope := scope\<rparr>) = k \<Longrightarrow> write_slot w = k"
    and ok: "timeline_ok k tb"
  shows "timeline_ok k (snd (stamp_scope scope (settle_fact env w tb)))"
proof (cases "se_created env")
  case False
  then show ?thesis using ok by (simp add: settle_not_created stamp_scope_def settle_out_def)
next
  case c: True
  obtain res tb' where s: "settle_fact env w tb = (res, tb')" by fastforce
  show ?thesis unfolding timeline_ok_def s
  proof (intro ballI impI)
    fix x y assume xy: "x \<in> set (snd (stamp_scope scope (res, tb')))" "y \<in> set (snd (stamp_scope scope (res, tb')))"
      "fact_open x" "fact_open y" "slot_of x = k" "slot_of y = k" "kf_id x \<noteq> kf_id y"
    note free = new_row_free [where scope = scope, OF d s c single tags]
    from d s c xy(1) show "\<not> rows_overlap x y"
    proof (cases rule: settled_rows)
      case x: (old r)
      from d s c xy(2) show ?thesis
      proof (cases rule: settled_rows)
        case y: (old q)
        have "fact_open r" "slot_of r = k" "kf_id r = kf_id x" "fact_open q" "slot_of q = k" "kf_id q = kf_id y"
          using x(3) y(3) xy(3-6) by (simp_all add: narrows_def)
        then have "\<not> rows_overlap r q"
          using ok [unfolded timeline_ok_def, rule_format, OF x(2) y(2)] xy(7) by simp
        then show ?thesis using narrows_rows_overlap [OF x(3) y(3) xy(3,4)] by blast
      next
        case y: (new n)
        have "\<not> rows_overlap y x" by (rule free [OF _ _ y(1,2,4,5) xy(4,6) x(1-3) xy(3,5)])
        then show ?thesis by (simp add: rows_overlap_def intervals_overlap_sym)
      qed
    next
      case x: (new n)
      from d s c xy(2) show ?thesis
      proof (cases rule: settled_rows)
        case y: (old q)
        show ?thesis by (rule free [OF _ _ x(1,2,4,5) xy(3,5) y(1-3) xy(4,6)])
      next
        case (new m)
        with x(3) xy(7) show ?thesis by simp
      qed
    qed
  qed
qed

section \<open>Settling keeps disputes two-sided\<close>

lemma same_place_simps [simp]:
  "same_place r r" "same_place r (mark_corroborating j r)" "same_place r (add_corroboration a b c r)"
  "same_place r (close_superseded x j p u' r)" "same_place r (stamp_language w r)"
  "same_place r (r\<lparr>kf_validUntil := u\<rparr>)" "same_place r (r\<lparr>kf_status := st\<rparr>)"
  by (simp_all add: same_place_def mark_corroborating_def add_corroboration_def close_superseded_def
      stamp_language_def Let_def split: option.splits)

lemma settles_simps [simp]:
  "settles r (mark_corroborating j r)" "settles r (close_superseded x j p u' r)"
  "settles r (add_corroboration a b c r)" "settles r (stamp_language w r)" "settles r (r\<lparr>kf_validUntil := u\<rparr>)"
proof -
  show "settles r (mark_corroborating j r)" "settles r (close_superseded x j p u' r)"
    using same_place_simps(2) [of r j] same_place_simps(4) [of r x j p u']
    by (simp_all add: settles_def same_place_def mark_corroborating_def close_superseded_def)
  show "settles r (add_corroboration a b c r)" "settles r (stamp_language w r)" "settles r (r\<lparr>kf_validUntil := u\<rparr>)"
    using same_place_simps(3) [of r a b c] same_place_simps(5) [of r w] same_place_simps(6) [of r u]
    by (simp_all add: settles_def same_place_def add_corroboration_def stamp_language_def Let_def split: option.splits)
qed

lemma disputes_close_losers:
  assumes "distinct (map kf_id tb)" "disputes_ok tb"
  shows "disputes_ok (close_losers w i losers tb) \<and> distinct (map kf_id (close_losers w i losers tb))"
  using assms
proof (induction losers arbitrary: tb)
  case Nil
  then show ?case by (simp add: close_losers_def)
next
  case (Cons l ls)
  let ?f = "close_superseded ''system'' i (kf_validUntil l) (fw_validFrom w)"
  have "disputes_ok (fact_update (kf_id l) ?f tb)" using Cons.prems by (rule disputes_update) simp
  moreover have "distinct (map kf_id (fact_update (kf_id l) ?f tb))"
    using fact_update_ids [OF Cons.prems(1), of ?f] Cons.prems(1) by simp
  ultimately show ?case using Cons.IH by (simp add: close_losers_def)
qed

lemma settle_disputes:
  assumes d: "distinct (map kf_id tb)" "se_newId env \<notin> set (map kf_id tb)" and ok: "disputes_ok tb"
    and event: "fw_semantics w \<noteq> bitemporal_event" and s: "settle_fact env w tb = (res, tb')"
  shows "disputes_ok tb'"
proof -
  note dn = with_new_distinct [OF d, of w]
  have ok1: "disputes_ok (with_new env w tb)" using ok by (rule disputes_append) simp
  have step: "disputes_ok (fact_update i f (with_new env w tb))" if "\<And>r. settles r (f r)" for i f
    using dn ok1 by (rule disputes_update) (rule that)
  have two: "disputes_ok (fact_update j g (fact_update i f (with_new env w tb)))"
    if "\<And>r. settles r (f r)" "\<And>r. settles r (g r)" "keeps_id f" for i j f g
    by (rule disputes_update [OF _ step [OF that(1), of i] that(2)]) (use fact_update_ids [OF dn that(3), of i] dn in simp)
  from s show ?thesis
  proof (cases rule: settle_cases)
    case rejected
    with ok show ?thesis by simp
  next
    case (ended e)
    show ?thesis unfolding ended(6) by (rule two) simp_all
  next
    case (corroborated c)
    show ?thesis unfolding corroborated(7) by (rule two) simp_all
  next
    case (restated c)
    show ?thesis unfolding restated(7) by (rule step) simp
  next
    case inserted
    show ?thesis unfolding inserted(5) by (rule step) simp
  next
    case (historical n)
    show ?thesis unfolding historical(5) by (rule step) simp
  next
    case (superseded tr)
    let ?t = "close_losers w (se_newId env) (closed_values w (pool_of env w tb)) (with_new env w tb)"
    have tb': "tb' = fact_update (se_newId env) (\<lambda>r. r\<lparr>kf_trace := tr\<rparr>) ?t"
      using superseded(7) event by (simp add: single_active_pool set_status_def)
    have t: "disputes_ok ?t" "distinct (map kf_id ?t)"
      using disputes_close_losers [OF dn ok1, of w "se_newId env" "closed_values w (pool_of env w tb)"] by blast+
    have "settles n (n\<lparr>kf_trace := tr\<rparr>)" if n: "n \<in> set ?t" "kf_id n = se_newId env" for n
    proof -
      have "set (closed_values w (pool_of env w tb)) \<subseteq> set tb"
      proof
        fix c assume "c \<in> set (closed_values w (pool_of env w tb))"
        then show "c \<in> set tb" using pool_row [OF candidate_closed_values [of c]] by simp
      qed
      then have "kf_id ` set (closed_values w (pool_of env w tb)) \<subseteq> set (map kf_id tb)"
        unfolding set_map by (rule image_mono)
      then have "kf_id n \<notin> kf_id ` set (closed_values w (pool_of env w tb))"
        unfolding n(2) using d(2) by (rule contra_subsetD)
      then obtain r where r: "r \<in> set (with_new env w tb)" "eased r n" by (rule close_losers_open [OF dn n(1)])
      have "kf_id r = se_newId env" using n(2) eased_fields(1) [OF r(2)] by simp
      then have "r = created_fact env w" using row_by_id [OF dn r(1), of "created_fact env w"] by simp
      with r(2) show ?thesis by (auto simp: settles_def eased_def standing_rival_def)
    qed
    then show ?thesis unfolding tb' by (intro disputes_update t) simp_all
  next
    case (competing tr)
    with event show ?thesis by (simp add: single_active_pool)
  next
    case undecided
    show ?thesis unfolding undecided(6) by (rule step) simp
  qed
qed

lemma stamp_disputes:
  assumes d: "distinct (map kf_id tb)" and ok: "disputes_ok tb"
    and n: "\<And>i n. sr_factId res = Some i \<Longrightarrow> n \<in> set tb \<Longrightarrow> kf_id n = i \<Longrightarrow> kf_status n \<noteq> Competing"
  shows "disputes_ok (snd (stamp_scope scope (res, tb)))"
proof (cases "sr_factId res = None \<or> scope = []")
  case True
  with ok show ?thesis by (auto simp: stamp_scope_def split: option.splits)
next
  case False
  then obtain i where i: "sr_factId res = Some i" by auto
  let ?f = "\<lambda>r. r\<lparr>kf_scope := scope\<rparr>"
  have same: "fact_set i ?f tb = fact_update i ?f tb"
  proof (cases "find (\<lambda>r. kf_id r = i) tb")
    case None
    then have "fact_set i ?f tb = tb" by (auto simp: fact_set_def find_None_iff intro: map_idI)
    with None show ?thesis by (simp add: fact_update_def)
  next
    case (Some b)
    then show ?thesis by (auto simp: fact_update_def)
  qed
  have "disputes_ok (fact_update i ?f tb)"
    using d ok by (rule disputes_update) (simp add: settles_def n [OF i])
  with i False same show ?thesis by (simp add: stamp_scope_def)
qed

end
