(* ===== verification/FactResolution.thy ===== *)
theory FactResolution imports FactTimeline begin

text \<open>
  Fact resolution (\<open>src/dreams/fact-resolution.ts\<close>, \<open>fact-resolution.service.ts\<close>,
  \<open>edge-resolution.ts\<close>): the reply of a judge is parsed, turned into actions, kept off the rows a
  system of record wrote, and written with the resolver's own statements
  (\<open>resolver.service.ts\<close> \<open>markSuperseded\<close>, \<open>corroborate.service.ts\<close> \<open>applyCorroboration\<close>).

  The judge itself, the digest of a signature, the ISO form of an instant, the cosine and the kind of
  a document are arguments.  What only the judge's prompt shows (the turn a fact was read from, the
  name of an item's entity) is left out.
\<close>

section \<open>The reply\<close>

datatype verdict = Same | Replaces | Contradicts | Unrelated

definition RESOLUTION_CANDIDATES :: nat where "RESOLUTION_CANDIDATES = 10"
definition RESOLUTION_FACTS_PER_BATCH :: int where "RESOLUTION_FACTS_PER_BATCH = 8"

text \<open>\<open>String(v)\<close>; None where it throws, which a JSON object does that has a \<open>toString\<close> of its own.\<close>

fun js_text :: "js_lib \<Rightarrow> jval \<Rightarrow> string option" where
  "js_text js JUndef = Some ''undefined''"
| "js_text js JNull = Some ''null''"
| "js_text js (JBool b) = Some (if b then ''true'' else ''false'')"
| "js_text js (JNum (JFin q)) = Some (num_str js q)"
| "js_text js (JNum JNaN) = Some ''NaN''"
| "js_text js (JNum JPosInf) = Some ''Infinity''"
| "js_text js (JNum JNegInf) = Some ''-Infinity''"
| "js_text js (JStr s) = Some s"
| "js_text js (JArr xs) = map_option (join '','') (map_opt (\<lambda>x. if nullish x then Some [] else js_text js x) xs)"
| "js_text js (JObj kvs) = (if map_of kvs ''toString'' = None then Some ''[object Object]'' else None)"
| "js_text js JOther = None"

definition digits_nat :: "string \<Rightarrow> nat" where
  "digits_nat ds = foldl (\<lambda>n d. 10 * n + (of_char d - 48)) 0 ds"

text \<open>The number after the letter, \<open>/^r(\d+)$/\<close>, from 0.\<close>

definition handle_index :: "char \<Rightarrow> string \<Rightarrow> int option" where
  "handle_index c s =
     (case s of d # ds \<Rightarrow> if d = c \<and> ds \<noteq> [] \<and> list_all digit ds then Some (int (digits_nat ds) - 1) else None
      | [] \<Rightarrow> None)"

definition verdict_of :: "jval \<Rightarrow> verdict option" where
  "verdict_of v =
     (if v = JStr ''same'' then Some Same else if v = JStr ''replaces'' then Some Replaces
      else if v = JStr ''contradicts'' then Some Contradicts else if v = JStr ''unrelated'' then Some Unrelated
      else None)"

type_synonym verdicts = "(int \<times> verdict) list"

fun parse_verdicts :: "js_lib \<Rightarrow> jval list \<Rightarrow> verdicts \<Rightarrow> verdicts option" where
  "parse_verdicts js [] m = Some m"
| "parse_verdicts js (v # vs) m =
     (case js_text js (nullish_or (jget v ''candidate'') (JStr [])) of
        None \<Rightarrow> None
      | Some t \<Rightarrow>
          (case (handle_index (CHR ''c'') t, verdict_of (jget v ''verdict'')) of
             (Some i, Some d) \<Rightarrow> parse_verdicts js vs (AList.update i d m)
           | _ \<Rightarrow> parse_verdicts js vs m))"

fun parse_items :: "js_lib \<Rightarrow> jval list \<Rightarrow> (int \<times> verdicts) list \<Rightarrow> (int \<times> verdicts) list option" where
  "parse_items js [] m = Some m"
| "parse_items js (it # its) m =
     (case js_text js (nullish_or (jget it ''item'') (JStr [])) of
        None \<Rightarrow> None
      | Some t \<Rightarrow>
          (case (handle_index (CHR ''r'') t, jget it ''verdicts'') of
             (Some i, JArr vs) \<Rightarrow>
               (case parse_verdicts js vs [] of
                  None \<Rightarrow> None
                | Some byCandidate \<Rightarrow> parse_items js its (AList.update i byCandidate m))
           | _ \<Rightarrow> parse_items js its m))"

definition parseResolution :: "js_lib \<Rightarrow> jval \<Rightarrow> (int \<times> verdicts) list option" where
  "parseResolution js result =
     (case jget result ''items'' of JArr items \<Rightarrow> parse_items js items [] | _ \<Rightarrow> Some [])"

section \<open>The actions\<close>

record resolvable =
  jf_id :: string
  jf_predicate :: string
  jf_object :: string
  jf_validFrom :: int
  jf_validUntil :: "int option"
  jf_recordedAt :: int
  jf_ofRecord :: bool

datatype action =
    Supersede string string     \<comment> \<open>loser, winner\<close>
  | Corroborate string string   \<comment> \<open>incumbent, younger\<close>
  | Compete string string
  | Dispute string string       \<comment> \<open>claim, record\<close>

definition earlier_valid :: "resolvable \<Rightarrow> resolvable \<Rightarrow> bool" where
  "earlier_valid a b \<longleftrightarrow>
     (if jf_validFrom a \<noteq> jf_validFrom b then jf_validFrom a < jf_validFrom b
      else jf_recordedAt a \<le> jf_recordedAt b)"

definition earlier_recorded :: "resolvable \<Rightarrow> resolvable \<Rightarrow> bool" where
  "earlier_recorded a b \<longleftrightarrow>
     (if jf_recordedAt a \<noteq> jf_recordedAt b then jf_recordedAt a < jf_recordedAt b
      else jf_recordedAt a \<le> jf_recordedAt b)"

definition candidate_action :: "resolvable \<Rightarrow> resolvable \<Rightarrow> verdict option \<Rightarrow> action list" where
  "candidate_action new c v =
     (case v of
        Some Replaces \<Rightarrow>
          [if earlier_valid c new then Supersede (jf_id c) (jf_id new) else Supersede (jf_id new) (jf_id c)]
      | Some Same \<Rightarrow>
          [if earlier_recorded c new then Corroborate (jf_id c) (jf_id new) else Corroborate (jf_id new) (jf_id c)]
      | Some Contradicts \<Rightarrow> [Compete (jf_id c) (jf_id new)]
      | _ \<Rightarrow> [])"

definition resolutionActions :: "resolvable \<Rightarrow> resolvable list \<Rightarrow> verdicts \<Rightarrow> action list" where
  "resolutionActions new candidates vs =
     concat (map (\<lambda>(i, c). candidate_action new c (map_of vs (int i))) (enumerate 0 candidates))"

text \<open>A system of record decides its own slot.\<close>

fun keep_record_slot :: "(string \<Rightarrow> bool) \<Rightarrow> action \<Rightarrow> action list" where
  "keep_record_slot ofRecord (Supersede loser winner) =
     (if \<not> ofRecord loser then [Supersede loser winner]
      else if ofRecord winner then [] else [Dispute winner loser])"
| "keep_record_slot ofRecord (Corroborate incumbent younger) =
     (if \<not> ofRecord younger then [Corroborate incumbent younger]
      else if ofRecord incumbent then [] else [Corroborate younger incumbent])"
| "keep_record_slot ofRecord (Compete a b) =
     (if ofRecord a \<and> ofRecord b then []
      else if ofRecord a then [Dispute b a]
      else if ofRecord b then [Dispute a b]
      else [Compete a b])"
| "keep_record_slot ofRecord (Dispute claim rcd) = [Dispute claim rcd]"

definition keepRecordSlots :: "action list \<Rightarrow> (string \<Rightarrow> bool) \<Rightarrow> action list" where
  "keepRecordSlots actions ofRecord = concat (map (keep_record_slot ofRecord) actions)"

section \<open>The writes\<close>

text \<open>\<open>markSuperseded\<close>: two reads, the close and the activation of a competing winner.\<close>

definition row_of :: "string \<Rightarrow> fact_table \<Rightarrow> knowledge_fact option" where
  "row_of i tb = find (\<lambda>r. kf_id r = i) tb"

definition close_by_dreams :: "string \<Rightarrow> int option \<Rightarrow> int \<Rightarrow> knowledge_fact \<Rightarrow> knowledge_fact" where
  "close_by_dreams winner prior closeAt r =
     r\<lparr>kf_status := Superseded, kf_retractionReason := Some ''superseded'', kf_retractedBy := Some ''dreams'',
       kf_supersededBy := Some winner,
       kf_priorValidUntil := (case prior of None \<Rightarrow> kf_priorValidUntil r | Some u \<Rightarrow> Some u),
       kf_validUntil := Some closeAt\<rparr>"

definition activate_competing :: "string \<Rightarrow> fact_table \<Rightarrow> fact_table" where
  "activate_competing i = fact_set i (\<lambda>r. if kf_status r = Competing then r\<lparr>kf_status := Active\<rparr> else r)"

definition markSuperseded :: "string \<Rightarrow> string \<Rightarrow> fact_table \<Rightarrow> fact_table" where
  "markSuperseded loser winner tb =
     (case (row_of winner tb, row_of loser tb) of
        (Some w, Some l) \<Rightarrow>
          (let closeAt = (if kf_validFrom l < kf_validFrom w then kf_validFrom w else kf_validFrom l)
           in activate_competing winner
                (fact_update loser (close_by_dreams winner (kf_validUntil l) closeAt) tb))
      | _ \<Rightarrow> tb)"

definition no_source :: fact_source where
  "no_source = \<lparr>fs_vertical = None, fs_recorder = None, fs_originKey = None, fs_kind = None\<rparr>"

definition applyCorroboration :: "string \<Rightarrow> string \<Rightarrow> int \<Rightarrow> fact_table \<Rightarrow> fact_table" where
  "applyCorroboration incumbent younger now tb =
     (let src = (case row_of younger tb of None \<Rightarrow> no_source | Some y \<Rightarrow> kf_source y)
      in fact_update incumbent (add_corroboration (source_key_of src) (origin_key_of src) now)
           (fact_update younger (mark_corroborating incumbent) tb))"

definition link_dispute :: "string \<Rightarrow> knowledge_fact \<Rightarrow> knowledge_fact" where
  "link_dispute other r =
     r\<lparr>kf_status := Competing,
       kf_trace := (kf_trace r)\<lparr>ct_competing := array_union (ct_competing (kf_trace r)) [other]\<rparr>\<rparr>"

text \<open>\<open>IF array::len(SELECT VALUE id FROM [a, b] WHERE open) = 2\<close>: a row named twice is selected twice.\<close>

definition open_row :: "string \<Rightarrow> fact_table \<Rightarrow> bool" where
  "open_row i tb = (case row_of i tb of None \<Rightarrow> False | Some r \<Rightarrow> fact_open r)"

fun write_action :: "int \<Rightarrow> action \<Rightarrow> fact_table \<Rightarrow> fact_table" where
  "write_action now (Supersede loser winner) tb = markSuperseded loser winner tb"
| "write_action now (Corroborate incumbent younger) tb = applyCorroboration incumbent younger now tb"
| "write_action now (Dispute claim rcd) tb =
     (if open_row claim tb \<and> open_row rcd tb then fact_update claim (link_dispute rcd) tb else tb)"
| "write_action now (Compete a b) tb =
     (if open_row a tb \<and> open_row b tb
      then fact_update b (link_dispute a) (fact_update a (link_dispute b) tb) else tb)"

definition markChecked :: "int \<Rightarrow> string \<Rightarrow> fact_table \<Rightarrow> fact_table" where
  "markChecked now i = fact_update i (\<lambda>r. r\<lparr>kf_checkedAt := Some now\<rparr>)"

section \<open>Edges\<close>

record knowledge_edge =
  ke_id :: string
  ke_in :: string
  ke_out :: string
  ke_kind :: string
  ke_fromName :: "string option"
  ke_toName :: "string option"
  ke_validFrom :: "int option"
  ke_validUntil :: "int option"
  ke_createdAt :: int
  ke_invalidatedAt :: "int option"
  ke_scopeKey :: string
  ke_sourceKind :: "string option"
  ke_documentId :: "string option"
  ke_checkedAt :: "int option"

type_synonym edge_table = "knowledge_edge list"

definition edge_open :: "knowledge_edge \<Rightarrow> bool" where
  "edge_open e \<longleftrightarrow> ke_validUntil e = None \<and> ke_invalidatedAt e = None"

definition isEdgeId :: "string \<Rightarrow> bool" where
  "isEdgeId i = starts_with ''knowledge_edge:'' i"

definition name_or :: "string option \<Rightarrow> string" where
  "name_or n = (case n of None \<Rightarrow> ''?'' | Some s \<Rightarrow> s)"

text \<open>The arrow between the names is its UTF-8 bytes.\<close>

definition edgeResolvable :: "bool \<Rightarrow> knowledge_edge \<Rightarrow> resolvable" where
  "edgeResolvable ofRecord e =
     \<lparr>jf_id = ke_id e, jf_predicate = ke_kind e,
      jf_object = name_or (ke_fromName e) @ [CHR '' '', CHR 0xE2, CHR 0x86, CHR 0x92, CHR '' ''] @ name_or (ke_toName e),
      jf_validFrom = (case ke_validFrom e of None \<Rightarrow> ke_createdAt e | Some t \<Rightarrow> t), jf_validUntil = None,
      jf_recordedAt = ke_createdAt e, jf_ofRecord = ofRecord\<rparr>"

definition edgeCandidates :: "knowledge_edge \<Rightarrow> edge_table \<Rightarrow> edge_table" where
  "edgeCandidates e es =
     take RESOLUTION_CANDIDATES (sort_key (\<lambda>x. - ke_createdAt x)
       (filter (\<lambda>x. ke_id x \<noteq> ke_id e \<and> edge_open x \<and> ke_scopeKey x = ke_scopeKey e \<and>
                    (ke_in x = ke_in e \<or> ke_out x = ke_out e)) es))"

definition reloadEdges :: "string list \<Rightarrow> edge_table \<Rightarrow> edge_table" where
  "reloadEdges ids es = concat (map (\<lambda>i. filter (\<lambda>e. ke_id e = i \<and> edge_open e) es) ids)"

definition recordEdgeIds :: "(string \<Rightarrow> string option) \<Rightarrow> edge_table \<Rightarrow> string list" where
  "recordEdgeIds docKind rows =
     map ke_id (filter (\<lambda>e. ke_sourceKind e = Some ''source_record'') rows) @
     map ke_id (filter (\<lambda>e. truthy_str (ke_documentId e) \<and> docKind (the (ke_documentId e)) = Some ''source_record'') rows)"

definition closeEdge :: "int \<Rightarrow> string \<Rightarrow> int \<Rightarrow> edge_table \<Rightarrow> edge_table" where
  "closeEdge now loser until es =
     map (\<lambda>e. if ke_id e = loser \<and> edge_open e
       then e\<lparr>ke_validUntil := Some until,
              ke_invalidatedAt := (if until \<le> now
                then (case ke_invalidatedAt e of None \<Rightarrow> Some now | Some t \<Rightarrow> Some t) else ke_invalidatedAt e)\<rparr>
       else e) es"

definition markEdgeChecked :: "int \<Rightarrow> string \<Rightarrow> edge_table \<Rightarrow> edge_table" where
  "markEdgeChecked now i = map (\<lambda>e. if ke_id e = i then e\<lparr>ke_checkedAt := Some now\<rparr> else e)"

section \<open>Items\<close>

record memory =
  mem_facts :: fact_table
  mem_edges :: edge_table

record resolution_env =
  re_js :: js_lib
  re_digest :: "string \<Rightarrow> string"             \<comment> \<open>the hex SHA-256 of a text, cut\<close>
  re_iso :: "int \<Rightarrow> string"                  \<comment> \<open>the ISO form of an instant\<close>
  re_cosine :: "rat list \<Rightarrow> rat list \<Rightarrow> rat"
  re_docKind :: "string \<Rightarrow> string option"    \<comment> \<open>the kind of a stored document\<close>
  re_now :: int

record resolution_item =
  it_fact :: resolvable
  it_candidates :: "resolvable list"

definition resolvable_of :: "knowledge_fact \<Rightarrow> resolvable" where
  "resolvable_of r =
     \<lparr>jf_id = kf_id r, jf_predicate = kf_predicate r, jf_object = kf_object r, jf_validFrom = kf_validFrom r,
      jf_validUntil = kf_validUntil r, jf_recordedAt = kf_recordedAt r,
      jf_ofRecord = (fs_kind (kf_source r) = Some ''source_record'')\<rparr>"

definition edgeItem :: "resolution_env \<Rightarrow> knowledge_edge \<Rightarrow> edge_table \<Rightarrow> resolution_item" where
  "edgeItem env e candidates =
     (let records = recordEdgeIds (re_docKind env) (e # candidates);
          of_row = (\<lambda>x. edgeResolvable (ke_id x \<in> set records) x)
      in \<lparr>it_fact = of_row e, it_candidates = map of_row candidates\<rparr>)"

definition signature_part :: "resolution_env \<Rightarrow> resolvable \<Rightarrow> jval" where
  "signature_part env f =
     JArr [JStr (jf_id f), JStr (jf_object f), JStr (re_iso env (jf_validFrom f)),
       JStr (case jf_validUntil f of None \<Rightarrow> [] | Some u \<Rightarrow> re_iso env u)]"

definition pairSignature :: "resolution_env \<Rightarrow> jval list \<Rightarrow> string" where
  "pairSignature env parts =
     take 32 (re_digest env (case json_stringify (re_js env) (JArr parts) of None \<Rightarrow> [] | Some t \<Rightarrow> t))"

definition signatureOf :: "resolution_env \<Rightarrow> resolution_item \<Rightarrow> string" where
  "signatureOf env item =
     pairSignature env [signature_part env (it_fact item), JArr (map (signature_part env) (it_candidates item))]"

text \<open>\<open>SELECT \<dots> FROM $ids WHERE open\<close>, keyed by the row's id.\<close>

definition open_fact :: "string \<Rightarrow> memory \<Rightarrow> knowledge_fact option" where
  "open_fact i m =
     (case row_of i (mem_facts m) of None \<Rightarrow> None | Some r \<Rightarrow> if fact_open r then Some r else None)"

definition pick_rows :: "(string \<Rightarrow> 'a option) \<Rightarrow> string list \<Rightarrow> 'a list" where
  "pick_rows look ids = concat (map (\<lambda>i. case look i of None \<Rightarrow> [] | Some x \<Rightarrow> [x]) ids)"

definition reload :: "resolution_env \<Rightarrow> memory \<Rightarrow> string \<Rightarrow> string list \<Rightarrow> resolution_item option" where
  "reload env m factId candidateIds =
     (if isEdgeId factId then
        (let byId = map_of (rev (map (\<lambda>e. (ke_id e, e)) (reloadEdges (factId # candidateIds) (mem_edges m))))
         in case byId factId of None \<Rightarrow> None
            | Some e \<Rightarrow> Some (edgeItem env e (pick_rows byId candidateIds)))
      else
        (case open_fact factId m of None \<Rightarrow> None
         | Some r \<Rightarrow> Some \<lparr>it_fact = resolvable_of r,
             it_candidates = map resolvable_of (pick_rows (\<lambda>i. open_fact i m) candidateIds)\<rparr>))"

section \<open>Applying verdicts\<close>

record resolution_outcome =
  ro_facts :: nat
  ro_judged :: nat
  ro_superseded :: nat
  ro_corroborated :: nat
  ro_competing :: nat
  ro_stale :: nat

definition emptyOutcome :: resolution_outcome where
  "emptyOutcome = \<lparr>ro_facts = 0, ro_judged = 0, ro_superseded = 0, ro_corroborated = 0, ro_competing = 0, ro_stale = 0\<rparr>"

definition add_outcome :: "resolution_outcome \<Rightarrow> resolution_outcome \<Rightarrow> resolution_outcome" where
  "add_outcome a b =
     \<lparr>ro_facts = ro_facts a + ro_facts b, ro_judged = ro_judged a + ro_judged b,
      ro_superseded = ro_superseded a + ro_superseded b, ro_corroborated = ro_corroborated a + ro_corroborated b,
      ro_competing = ro_competing a + ro_competing b, ro_stale = ro_stale a + ro_stale b\<rparr>"

definition count_action :: "action \<Rightarrow> resolution_outcome \<Rightarrow> resolution_outcome" where
  "count_action a out =
     (case a of Supersede _ _ \<Rightarrow> out\<lparr>ro_superseded := ro_superseded out + 1\<rparr>
      | Corroborate _ _ \<Rightarrow> out\<lparr>ro_corroborated := ro_corroborated out + 1\<rparr>
      | _ \<Rightarrow> out\<lparr>ro_competing := ro_competing out + 1\<rparr>)"

definition item_actions :: "resolution_item \<Rightarrow> verdicts \<Rightarrow> action list" where
  "item_actions item vs =
     (let records = map jf_id (filter jf_ofRecord (it_fact item # it_candidates item))
      in keepRecordSlots (resolutionActions (it_fact item) (it_candidates item) vs) (\<lambda>i. i \<in> set records))"

text \<open>\<open>validFrom.get(id)\<close>: the last item of that id.\<close>

definition item_start :: "resolution_item \<Rightarrow> string \<Rightarrow> int" where
  "item_start item i =
     (case find (\<lambda>f. jf_id f = i) (rev (it_fact item # it_candidates item)) of None \<Rightarrow> 0 | Some f \<Rightarrow> jf_validFrom f)"

fun close_edges :: "int \<Rightarrow> resolution_item \<Rightarrow> action list \<Rightarrow> edge_table \<times> resolution_outcome \<Rightarrow> edge_table \<times> resolution_outcome" where
  "close_edges now item [] st = st"
| "close_edges now item (Supersede loser winner # as) (es, out) =
     close_edges now item as (closeEdge now loser (item_start item winner) es, count_action (Supersede loser winner) out)"
| "close_edges now item (_ # as) st = close_edges now item as st"

definition apply_item :: "resolution_env \<Rightarrow> resolution_item \<Rightarrow> verdicts \<Rightarrow> memory \<Rightarrow> resolution_outcome \<times> memory" where
  "apply_item env item vs m =
     (let out = emptyOutcome\<lparr>ro_facts := 1, ro_judged := (if vs \<noteq> [] then 1 else 0)\<rparr>;
          actions = item_actions item vs; i = jf_id (it_fact item)
      in if isEdgeId i then
           (case close_edges (re_now env) item actions (mem_edges m, out) of
              (es, out') \<Rightarrow> (out', m\<lparr>mem_edges := markEdgeChecked (re_now env) i es\<rparr>))
         else
           (fold count_action actions out,
            m\<lparr>mem_facts := markChecked (re_now env) i (fold (write_action (re_now env)) actions (mem_facts m))\<rparr>))"

text \<open>\<open>submit\<close>: the items of a verified token, each reloaded; \<open>f\<close> holds the fact's id, the
  candidates' ids and the signature of what was shown.\<close>

type_synonym token_item = "string \<times> string list \<times> string"

fun submit_items ::
  "resolution_env \<Rightarrow> (int \<times> verdicts) list \<Rightarrow> nat \<Rightarrow> token_item list \<Rightarrow> resolution_outcome \<times> memory \<Rightarrow> resolution_outcome \<times> memory"
where
  "submit_items env vs i [] st = st"
| "submit_items env vs i ((factId, candidateIds, signature) # its) (out, m) =
     (case reload env m factId candidateIds of
        Some item \<Rightarrow>
          if signatureOf env item = signature
          then (let (part, m') = apply_item env item (case map_of vs (int i) of None \<Rightarrow> [] | Some v \<Rightarrow> v) m
                in submit_items env vs (i + 1) its (add_outcome out part, m'))
          else submit_items env vs (i + 1) its (out\<lparr>ro_stale := ro_stale out + 1\<rparr>, m)
      | None \<Rightarrow> submit_items env vs (i + 1) its (out\<lparr>ro_stale := ro_stale out + 1\<rparr>, m))"

text \<open>None: a reply \<open>parseResolution\<close> throws on.\<close>

definition submit :: "resolution_env \<Rightarrow> token_item list \<Rightarrow> jval \<Rightarrow> memory \<Rightarrow> (resolution_outcome \<times> memory) option" where
  "submit env f result m =
     (case parseResolution (re_js env) result of None \<Rightarrow> None
      | Some vs \<Rightarrow> Some (submit_items env vs 0 f (emptyOutcome, m)))"

section \<open>Pending items\<close>

definition same_user :: "string option \<Rightarrow> string option \<Rightarrow> bool" where
  "same_user u x \<longleftrightarrow> (if truthy_str u then x = u else x = None)"

definition group_tags :: "knowledge_fact \<Rightarrow> string list" where
  "group_tags r = sort (filter is_group_tag (kf_scope r))"

definition judged_against :: "resolution_env \<Rightarrow> knowledge_fact \<Rightarrow> fact_table \<Rightarrow> knowledge_fact list" where
  "judged_against env row tb =
     (case kf_embedding row of
        None \<Rightarrow> []
      | Some [] \<Rightarrow> []
      | Some v \<Rightarrow>
          take RESOLUTION_CANDIDATES (sort_key (\<lambda>x. - re_cosine env (the (kf_embedding x)) v)
            (filter (\<lambda>x. kf_entity x = kf_entity row \<and> kf_id x \<noteq> kf_id row \<and> fact_open x \<and>
                 same_user (kf_userId row) (kf_userId x) \<and> kf_derivedVersion x = None \<and>
                 group_tags x = group_tags row \<and>
                 (case kf_embedding x of None \<Rightarrow> False | Some e \<Rightarrow> length e = length v)) tb)))"

record take_opts =
  to_userId :: "string option"
  to_anyScope :: bool
  to_max :: "int option"

definition batch_want :: "take_opts \<Rightarrow> nat" where
  "batch_want opts =
     nat (max 1 (min (case to_max opts of None \<Rightarrow> RESOLUTION_FACTS_PER_BATCH | Some n \<Rightarrow> n) 64))"

definition pendingFacts :: "take_opts \<Rightarrow> nat \<Rightarrow> nat \<Rightarrow> fact_table \<Rightarrow> fact_table" where
  "pendingFacts opts k off tb =
     take k (drop off (sort_key kf_recordedAt
       (filter (\<lambda>r. kf_checkedAt r = None \<and> fact_open r \<and> kf_derivedVersion r = None \<and>
                    (to_anyScope opts \<or> same_user (to_userId opts) (kf_userId r))) tb)))"

definition pendingEdges :: "take_opts \<Rightarrow> nat \<Rightarrow> nat \<Rightarrow> edge_table \<Rightarrow> edge_table" where
  "pendingEdges opts k off es =
     take k (drop off (sort_key ke_createdAt
       (filter (\<lambda>e. ke_checkedAt e = None \<and> edge_open e \<and>
                    (to_anyScope opts \<or> ke_scopeKey e = (case to_userId opts of None \<Rightarrow> [] | Some u \<Rightarrow> u))) es)))"

record batch_state =
  ba_items :: "resolution_item list"
  ba_taken :: "string list"
  ba_offset :: nat
  ba_memory :: memory

definition take_item :: "string \<Rightarrow> resolution_item \<Rightarrow> batch_state \<Rightarrow> batch_state" where
  "take_item i item st =
     st\<lparr>ba_offset := ba_offset st + 1, ba_taken := ba_taken st @ i # map jf_id (it_candidates item),
        ba_items := ba_items st @ [item]\<rparr>"

fun fact_page :: "resolution_env \<Rightarrow> nat \<Rightarrow> fact_table \<Rightarrow> batch_state \<Rightarrow> batch_state" where
  "fact_page env want [] st = st"
| "fact_page env want (row # rows) st =
     (if want \<le> length (ba_items st) then st
      else if kf_id row \<in> set (ba_taken st) then fact_page env want rows (st\<lparr>ba_offset := ba_offset st + 1\<rparr>)
      else
        (let candidates = judged_against env row (mem_facts (ba_memory st))
         in fact_page env want rows
              (if candidates = []
               then st\<lparr>ba_memory := (ba_memory st)\<lparr>mem_facts := markChecked (re_now env) (kf_id row) (mem_facts (ba_memory st))\<rparr>\<rparr>
               else take_item (kf_id row) \<lparr>it_fact = resolvable_of row, it_candidates = map resolvable_of candidates\<rparr> st)))"

fun edge_page :: "resolution_env \<Rightarrow> nat \<Rightarrow> edge_table \<Rightarrow> batch_state \<Rightarrow> batch_state" where
  "edge_page env want [] st = st"
| "edge_page env want (e # rows) st =
     (if want \<le> length (ba_items st) then st
      else if ke_id e \<in> set (ba_taken st) then edge_page env want rows (st\<lparr>ba_offset := ba_offset st + 1\<rparr>)
      else
        (let candidates = edgeCandidates e (mem_edges (ba_memory st))
         in edge_page env want rows
              (if candidates = []
               then st\<lparr>ba_memory := (ba_memory st)\<lparr>mem_edges := markEdgeChecked (re_now env) (ke_id e) (mem_edges (ba_memory st))\<rparr>\<rparr>
               else take_item (ke_id e) (edgeItem env e candidates) st)))"

text \<open>At most four pages of each.\<close>

fun fact_pages :: "nat \<Rightarrow> resolution_env \<Rightarrow> take_opts \<Rightarrow> nat \<Rightarrow> batch_state \<Rightarrow> batch_state" where
  "fact_pages 0 env opts want st = st"
| "fact_pages (Suc page) env opts want st =
     (if want \<le> length (ba_items st) then st
      else (let rows = pendingFacts opts (want * 2) (ba_offset st) (mem_facts (ba_memory st))
            in if rows = [] then st else fact_pages page env opts want (fact_page env want rows st)))"

fun edge_pages :: "nat \<Rightarrow> resolution_env \<Rightarrow> take_opts \<Rightarrow> nat \<Rightarrow> batch_state \<Rightarrow> batch_state" where
  "edge_pages 0 env opts want st = st"
| "edge_pages (Suc page) env opts want st =
     (if want \<le> length (ba_items st) then st
      else (let rows = pendingEdges opts (want * 2) (ba_offset st) (mem_edges (ba_memory st))
            in if rows = [] then st else edge_pages page env opts want (edge_page env want rows st)))"

definition nextItems :: "resolution_env \<Rightarrow> take_opts \<Rightarrow> memory \<Rightarrow> resolution_item list \<times> memory" where
  "nextItems env opts m =
     (let want = batch_want opts;
          st = fact_pages 4 env opts want \<lparr>ba_items = [], ba_taken = [], ba_offset = 0, ba_memory = m\<rparr>;
          st' = (if length (ba_items st) < want then edge_pages 4 env opts want (st\<lparr>ba_offset := 0\<rparr>) else st)
      in (ba_items st', ba_memory st'))"

text \<open>The server's own pass: \<open>judge\<close> answers a batch, with no verdicts when the call fails.\<close>

fun apply_items ::
  "resolution_env \<Rightarrow> (int \<times> verdicts) list \<Rightarrow> nat \<Rightarrow> resolution_item list \<Rightarrow> resolution_outcome \<times> memory \<Rightarrow> resolution_outcome \<times> memory"
where
  "apply_items env vs i [] st = st"
| "apply_items env vs i (item # its) (out, m) =
     (let (part, m') = apply_item env item (case map_of vs (int i) of None \<Rightarrow> [] | Some v \<Rightarrow> v) m
      in apply_items env vs (i + 1) its (add_outcome out part, m'))"

fun run_batches ::
  "resolution_env \<Rightarrow> (resolution_item list \<Rightarrow> (int \<times> verdicts) list) \<Rightarrow> nat \<Rightarrow> resolution_outcome \<times> memory \<Rightarrow> resolution_outcome \<times> memory"
where
  "run_batches env judge 0 st = st"
| "run_batches env judge (Suc n) (out, m) =
     (case nextItems env \<lparr>to_userId = None, to_anyScope = True, to_max = None\<rparr> m of
        ([], m') \<Rightarrow> (out, m')
      | (items, m') \<Rightarrow> run_batches env judge n (apply_items env (judge items) 0 items (out, m')))"

definition runPending ::
  "resolution_env \<Rightarrow> bool \<Rightarrow> (resolution_item list \<Rightarrow> (int \<times> verdicts) list) \<Rightarrow> nat \<Rightarrow> memory \<Rightarrow> resolution_outcome \<times> memory" where
  "runPending env enabled judge maxBatches m =
     (if enabled then run_batches env judge maxBatches (emptyOutcome, m) else (emptyOutcome, m))"

text \<open>Harness mode: the items of a token, with the signature of what was shown.\<close>

definition take_work :: "resolution_env \<Rightarrow> string option \<Rightarrow> int option \<Rightarrow> memory \<Rightarrow> token_item list option \<times> memory" where
  "take_work env userId mx m =
     (case nextItems env \<lparr>to_userId = userId, to_anyScope = False, to_max = mx\<rparr> m of
        ([], m') \<Rightarrow> (None, m')
      | (items, m') \<Rightarrow>
          (Some (map (\<lambda>it. (jf_id (it_fact it), map jf_id (it_candidates it), signatureOf env it)) items), m'))"

end
