(* ===== verification/FactJudged.thy ===== *)
theory FactJudged imports FactResolution begin

text \<open>
  What a judgement keeps: rows a system of record wrote stay as they are, no interval is inverted,
  a slot gains no value, and a batch judges no fact twice nor across circles.
\<close>

section \<open>Writers that only narrow\<close>

locale narrowing_write =
  fixes upd :: "fact_table \<Rightarrow> fact_table"
  assumes narrow: "distinct (map kf_id tb) \<Longrightarrow> list_all2 narrows tb (upd tb)"
begin

lemma ids: "distinct (map kf_id tb) \<Longrightarrow> map kf_id (upd tb) = map kf_id tb"
  using narrow by (rule narrows_ids)

lemma timeline: "distinct (map kf_id tb) \<Longrightarrow> timeline_ok k tb \<Longrightarrow> timeline_ok k (upd tb)"
  using narrow by (rule timeline_narrows)

lemma fresh: "distinct (map kf_id tb) \<Longrightarrow> i \<notin> set (map kf_id tb) \<Longrightarrow> i \<notin> set (map kf_id (upd tb))"
  by (metis ids)

end

lemma list_all2_left: "list_all2 R xs ys \<Longrightarrow> x \<in> set xs \<Longrightarrow> \<exists>y \<in> set ys. R x y"
  by (induction rule: list_all2_induct) auto

lemma fact_set_narrows:
  assumes "\<And>r. r \<in> set tb \<Longrightarrow> narrows r (f r)"
  shows "list_all2 narrows tb (fact_set i f tb)"
  using assms by (auto simp: fact_set_def list_all2_map2 list_all2_same)

lemma keeps_id_judged [simp]:
  "keeps_id (close_by_dreams winner p t)" "keeps_id (link_dispute j)" "keeps_id (\<lambda>r. r\<lparr>kf_checkedAt := c\<rparr>)"
  by (simp_all add: keeps_id_def close_by_dreams_def link_dispute_def)

lemma narrows_judged [simp]:
  "narrows r (close_by_dreams winner p t r)" "fact_open r \<Longrightarrow> narrows r (link_dispute j r)"
  "narrows r (r\<lparr>kf_checkedAt := c\<rparr>)"
  "kf_status r = Competing \<Longrightarrow> narrows r (r\<lparr>kf_status := Active\<rparr>)"
  by (auto simp: narrows_def close_by_dreams_def link_dispute_def fact_open_def slot_of_def)

lemma row_of_iff:
  assumes "distinct (map kf_id tb)"
  shows "row_of i tb = Some r \<longleftrightarrow> r \<in> set tb \<and> kf_id r = i"
proof
  assume "row_of i tb = Some r"
  then show "r \<in> set tb \<and> kf_id r = i" by (auto simp: row_of_def find_Some_iff)
next
  assume "r \<in> set tb \<and> kf_id r = i"
  then show "row_of i tb = Some r" using find_id [OF assms, of r] by (auto simp: row_of_def)
qed

lemma activate_narrows: "list_all2 narrows tb (activate_competing i tb)"
  unfolding activate_competing_def by (rule fact_set_narrows) simp

lemma markSuperseded_narrows:
  assumes d: "distinct (map kf_id tb)"
  shows "list_all2 narrows tb (markSuperseded loser winner tb)"
proof (cases "row_of winner tb = None \<or> row_of loser tb = None")
  case True
  then show ?thesis by (auto simp: markSuperseded_def list_all2_same split: option.splits)
next
  case False
  then obtain w l where wl: "row_of winner tb = Some w" "row_of loser tb = Some l" by auto
  let ?at = "if kf_validFrom l < kf_validFrom w then kf_validFrom w else kf_validFrom l"
  have "list_all2 narrows tb (fact_update loser (close_by_dreams winner (kf_validUntil l) ?at) tb)"
    by (rule fact_update_narrows [OF d]) simp_all
  then show ?thesis
    using list_all2_narrows_trans [OF _ activate_narrows [where i = winner]] by (simp add: markSuperseded_def wl)
qed

lemma applyCorroboration_narrows:
  assumes d: "distinct (map kf_id tb)"
  shows "list_all2 narrows tb (applyCorroboration incumbent younger now tb)"
proof -
  let ?t = "fact_update younger (mark_corroborating incumbent) tb"
  have one: "list_all2 narrows tb ?t" by (rule fact_update_narrows [OF d]) simp_all
  have "distinct (map kf_id ?t)" using narrows_ids [OF one] d by simp
  then have "list_all2 narrows ?t (fact_update incumbent (add_corroboration a b now) ?t)" for a b
    by (rule fact_update_narrows) simp_all
  from list_all2_narrows_trans [OF one this] show ?thesis by (simp add: applyCorroboration_def Let_def)
qed

lemma open_rowD: "open_row i tb \<Longrightarrow> distinct (map kf_id tb) \<Longrightarrow> r \<in> set tb \<Longrightarrow> kf_id r = i \<Longrightarrow> fact_open r"
  by (auto simp: open_row_def row_of_iff split: option.splits dest: row_by_id)

lemma open_row_found: "open_row i tb \<Longrightarrow> \<exists>r \<in> set tb. kf_id r = i"
  by (auto simp: open_row_def row_of_def find_Some_iff split: option.splits)

text \<open>Linking a dispute leaves every open row open.\<close>

lemma link_rows:
  assumes d: "distinct (map kf_id tb)" and o: "open_row i tb"
  shows "list_all2 (\<lambda>r r'. narrows r r' \<and> (fact_open r \<longrightarrow> fact_open r')) tb (fact_update i (link_dispute j) tb)"
  using fact_update_rows [OF d, of "link_dispute j" i]
proof (rule list.rel_mono_strong)
  show "keeps_id (link_dispute j)" by simp
next
  fix r r' assume r: "r \<in> set tb" "row_step i (link_dispute j) r r'"
  show "narrows r r' \<and> (fact_open r \<longrightarrow> fact_open r')"
  proof (cases "kf_id r = i")
    case True
    then have "fact_open r" using open_rowD [OF o d r(1)] by simp
    with True r(2) show ?thesis by (auto simp: row_step_def) (simp add: link_dispute_def fact_open_def)
  next
    case False
    with r(2) show ?thesis using narrows_eased eased_fields(14) by (auto simp: row_step_def)
  qed
qed

lemma write_action_narrows:
  assumes d: "distinct (map kf_id tb)"
  shows "list_all2 narrows tb (write_action now a tb)"
proof (cases a)
  case (Supersede l w)
  then show ?thesis by (simp add: markSuperseded_narrows [OF d])
next
  case (Corroborate i y)
  then show ?thesis by (simp add: applyCorroboration_narrows [OF d])
next
  case (Dispute c r)
  have "list_all2 narrows tb (fact_update c (link_dispute r) tb)" if "open_row c tb"
    using link_rows [OF d that, of r] by (rule list.rel_mono_strong) simp
  with Dispute show ?thesis by (simp add: list_all2_same)
next
  case (Compete x y)
  show ?thesis
  proof (cases "open_row x tb \<and> open_row y tb")
    case True
    let ?t = "fact_update x (link_dispute y) tb"
    have rows: "list_all2 (\<lambda>r r'. narrows r r' \<and> (fact_open r \<longrightarrow> fact_open r')) tb ?t"
      using True by (intro link_rows [OF d]) simp
    then have one: "list_all2 narrows tb ?t" by (rule list.rel_mono_strong) simp
    have dt: "distinct (map kf_id ?t)" using narrows_ids [OF one] d by simp
    have "open_row y ?t"
    proof -
      obtain r where r: "r \<in> set tb" "kf_id r = y" using open_row_found True by blast
      then have "fact_open r" using open_rowD True d by blast
      obtain r' where r': "r' \<in> set ?t" "narrows r r'" "fact_open r'"
        using list_all2_left [OF rows r(1)] \<open>fact_open r\<close> by blast
      then have "row_of y ?t = Some r'" using row_of_iff [OF dt] r(2) by (simp add: narrows_def)
      with r'(3) show ?thesis by (simp add: open_row_def)
    qed
    from link_rows [OF dt this, of x] have "list_all2 narrows ?t (fact_update y (link_dispute x) ?t)"
      by (rule list.rel_mono_strong) simp
    from list_all2_narrows_trans [OF one this] True Compete show ?thesis by simp
  qed (use Compete in \<open>auto simp: list_all2_same\<close>)
qed

interpretation judged: narrowing_write "write_action now a" for now a
  by unfold_locales (rule write_action_narrows)

interpretation checked: narrowing_write "markChecked now i" for now i
proof unfold_locales
  fix tb :: fact_table assume d: "distinct (map kf_id tb)"
  show "list_all2 narrows tb (markChecked now i tb)"
    unfolding markChecked_def by (rule fact_update_narrows [OF d]) simp_all
qed

lemma write_actions_narrow:
  "distinct (map kf_id tb) \<Longrightarrow> list_all2 narrows tb (fold (write_action now) as tb)"
proof (induction as arbitrary: tb)
  case Nil
  show ?case by (simp add: list_all2_same)
next
  case (Cons a as)
  then have "list_all2 narrows (write_action now a tb) (fold (write_action now) as (write_action now a tb))"
    by (simp add: judged.ids)
  from list_all2_narrows_trans [OF judged.narrow [OF Cons.prems] this] show ?case by simp
qed

interpretation judgement: narrowing_write "\<lambda>tb. markChecked now i (fold (write_action now) as tb)" for now i as
proof unfold_locales
  fix tb :: fact_table assume d: "distinct (map kf_id tb)"
  note all = write_actions_narrow [OF d, of now as]
  have "distinct (map kf_id (fold (write_action now) as tb))" using narrows_ids [OF all] d by simp
  then show "list_all2 narrows tb (markChecked now i (fold (write_action now) as tb))"
    using all checked.narrow list_all2_narrows_trans by blast
qed

section \<open>A system of record decides its own rows\<close>

text \<open>What may change of a row that is not the losing side of an action: its accumulated
  corroboration, its mark, and a dispute it stood in.\<close>

definition attended :: "knowledge_fact \<Rightarrow> knowledge_fact \<Rightarrow> knowledge_fact" where
  "attended r r' =
     r\<lparr>kf_corroboration := kf_corroboration r', kf_checkedAt := kf_checkedAt r', kf_status := kf_status r'\<rparr>"

definition record_kept :: "knowledge_fact \<Rightarrow> knowledge_fact \<Rightarrow> bool" where
  "record_kept r r' \<longleftrightarrow> r' = attended r r' \<and>
     (kf_status r' = kf_status r \<or> kf_status r = Competing \<and> kf_status r' = Active)"

lemma record_kept_refl [simp]: "record_kept r r" by (simp add: record_kept_def attended_def)

lemma attended_trans: "attended (attended r r') r'' = attended r r''"
  by (simp add: attended_def)

lemma record_kept_trans:
  assumes "record_kept r r'" "record_kept r' r''"
  shows "record_kept r r''"
proof -
  have "r' = attended r r'" "r'' = attended r' r''" using assms unfolding record_kept_def by blast+
  then have "r'' = attended r r''" using attended_trans by metis
  then show ?thesis using assms by (auto simp: record_kept_def)
qed

lemma record_kept_simps [simp]:
  "record_kept r (add_corroboration a b c r)" "record_kept r (r\<lparr>kf_checkedAt := t\<rparr>)"
  "kf_status r = Competing \<Longrightarrow> record_kept r (r\<lparr>kf_status := Active\<rparr>)" "eased r r' \<Longrightarrow> record_kept r r'"
  by (auto simp: record_kept_def attended_def add_corroboration_def eased_def standing_rival_def Let_def)

lemma attended_fields: "kf_source (attended r r') = kf_source r" "kf_id (attended r r') = kf_id r"
  by (simp_all add: attended_def)

lemma record_kept_source:
  assumes "record_kept r r'"
  shows "kf_source r' = kf_source r" "kf_id r' = kf_id r"
  using assms attended_fields [of r r'] by (metis record_kept_def)+

definition kept :: "string \<Rightarrow> knowledge_fact \<Rightarrow> knowledge_fact \<Rightarrow> bool" where
  "kept i r r' \<longleftrightarrow> kf_id r' = kf_id r \<and> (kf_id r = i \<longrightarrow> record_kept r r')"

lemma kept_trans: "list_all2 (kept i) a b \<Longrightarrow> list_all2 (kept i) b c \<Longrightarrow> list_all2 (kept i) a c"
  by (erule list_all2_trans [rotated], assumption) (auto simp: kept_def intro: record_kept_trans)

lemma kept_refl: "list_all2 (kept i) tb tb"
  by (simp add: list_all2_same kept_def)

lemma kept_ids: "list_all2 (kept i) tb tb' \<Longrightarrow> map kf_id tb' = map kf_id tb"
  by (induction rule: list_all2_induct) (auto simp: kept_def)

lemma kept_update:
  assumes d: "distinct (map kf_id tb)" and id: "keeps_id f" and f: "j \<noteq> i \<or> (\<forall>r. record_kept r (f r))"
  shows "list_all2 (kept i) tb (fact_update j f tb)"
  using fact_update_rows [OF d id, of j]
  by (rule list.rel_mono_strong)
    (use f id in \<open>auto simp: row_step_def kept_def keeps_id_def eased_fields(1) split: if_splits\<close>)

fun spares :: "string \<Rightarrow> action \<Rightarrow> bool" where
  "spares i (Supersede loser winner) \<longleftrightarrow> loser \<noteq> i"
| "spares i (Corroborate incumbent younger) \<longleftrightarrow> younger \<noteq> i"
| "spares i (Compete a b) \<longleftrightarrow> a \<noteq> i \<and> b \<noteq> i"
| "spares i (Dispute claim rcd) \<longleftrightarrow> claim \<noteq> i"

lemma activate_kept: "list_all2 (kept i) tb (activate_competing j tb)"
  by (auto simp: activate_competing_def fact_set_def list_all2_map2 list_all2_same kept_def)

lemma write_spares:
  assumes d: "distinct (map kf_id tb)" and a: "spares i a"
  shows "list_all2 (kept i) tb (write_action now a tb)"
proof -
  note up = kept_update [OF d]
  have two: "list_all2 (kept i) tb (fact_update j g (fact_update k f tb))"
    if "list_all2 (kept i) tb (fact_update k f tb)" "keeps_id g" "j \<noteq> i \<or> (\<forall>r. record_kept r (g r))" for j g k f
    by (rule kept_trans [OF that(1) kept_update]) (use kept_ids [OF that(1)] d that(2,3) in simp_all)
  show ?thesis
  proof (cases a)
    case (Supersede l w)
    then have l: "list_all2 (kept i) tb (fact_update l (close_by_dreams w p t) tb)" for p t
      using a by (intro up) simp_all
    show ?thesis unfolding Supersede
      by (auto simp: markSuperseded_def Let_def kept_refl intro: kept_trans [OF l activate_kept] split: option.splits)
  next
    case (Corroborate c y)
    then have "list_all2 (kept i) tb (fact_update y (mark_corroborating c) tb)" using a by (intro up) simp_all
    then show ?thesis unfolding Corroborate by (simp add: applyCorroboration_def Let_def two)
  next
    case (Compete x y)
    then have "list_all2 (kept i) tb (fact_update x (link_dispute y) tb)" using a by (intro up) simp_all
    then show ?thesis using a unfolding Compete by (simp add: kept_refl two)
  next
    case (Dispute c r)
    then show ?thesis using a up by (simp add: kept_refl)
  qed
qed

lemma writes_spare:
  "distinct (map kf_id tb) \<Longrightarrow> list_all (spares i) as \<Longrightarrow> list_all2 (kept i) tb (fold (write_action now) as tb)"
proof (induction as arbitrary: tb)
  case Nil
  show ?case by (simp add: kept_refl)
next
  case (Cons a as)
  then have one: "list_all2 (kept i) tb (write_action now a tb)" by (intro write_spares) simp_all
  have "distinct (map kf_id (write_action now a tb))" using kept_ids [OF one] Cons.prems(1) by simp
  then have "list_all2 (kept i) (write_action now a tb) (fold (write_action now) as (write_action now a tb))"
    using Cons by simp
  from kept_trans [OF one this] show ?case by simp
qed

definition of_record :: "knowledge_fact \<Rightarrow> bool" where
  "of_record r \<longleftrightarrow> fs_kind (kf_source r) = Some ''source_record''"

fun action_ids :: "action \<Rightarrow> string set" where
  "action_ids (Supersede l w) = {l, w}"
| "action_ids (Corroborate c y) = {c, y}"
| "action_ids (Compete a b) = {a, b}"
| "action_ids (Dispute c r) = {c, r}"

definition item_ids :: "resolution_item \<Rightarrow> string set" where
  "item_ids item = jf_id ` set (it_fact item # it_candidates item)"

lemma candidate_action_cases:
  assumes "a \<in> set (candidate_action new c v)"
  obtains "v = Some Replaces" "a = (if earlier_valid c new then Supersede (jf_id c) (jf_id new) else Supersede (jf_id new) (jf_id c))"
  | "v = Some Same" "a = (if earlier_recorded c new then Corroborate (jf_id c) (jf_id new) else Corroborate (jf_id new) (jf_id c))"
  | "v = Some Contradicts" "a = Compete (jf_id c) (jf_id new)"
proof (cases v)
  case None
  with assms show ?thesis by (simp add: candidate_action_def)
next
  case (Some d)
  with assms that show ?thesis by (cases d) (auto simp: candidate_action_def)
qed

lemma candidate_action_ids:
  assumes "a \<in> set (candidate_action new c v)"
  shows "action_ids a = {jf_id c, jf_id new} \<and> (\<forall>x y. a \<noteq> Dispute x y)"
  using assms by (cases rule: candidate_action_cases) auto

lemma resolution_action:
  assumes "a \<in> set (resolutionActions new cs vs)"
  obtains c i where "c \<in> set cs" "i < length cs" "cs ! i = c" "a \<in> set (candidate_action new c (map_of vs (int i)))"
proof -
  obtain i where "i < length cs" "a \<in> set (candidate_action new (cs ! i) (map_of vs (int i)))"
    using assms by (auto simp: resolutionActions_def in_set_enumerate_eq)
  then show thesis using that [OF nth_mem] by blast
qed

lemma keep_record_ids: "a' \<in> set (keep_record_slot p a) \<Longrightarrow> action_ids a' = action_ids a"
  by (cases a) (auto split: if_splits)

lemma keep_record_spares: "p i \<Longrightarrow> a' \<in> set (keep_record_slot p a) \<Longrightarrow> (\<And>x y. a \<noteq> Dispute x y) \<Longrightarrow> spares i a'"
  by (cases a) (auto split: if_splits)

lemma spares_other: "i \<notin> action_ids a \<Longrightarrow> spares i a"
  by (cases a) auto

lemma item_actions_spare:
  assumes "i \<in> item_ids item \<Longrightarrow> i \<in> set (map jf_id (filter jf_ofRecord (it_fact item # it_candidates item)))"
  shows "list_all (spares i) (item_actions item vs)"
  unfolding list_all_iff
proof
  fix a' assume "a' \<in> set (item_actions item vs)"
  then obtain a where a: "a \<in> set (resolutionActions (it_fact item) (it_candidates item) vs)"
    "a' \<in> set (keep_record_slot (\<lambda>i. i \<in> set (map jf_id (filter jf_ofRecord (it_fact item # it_candidates item)))) a)"
    unfolding item_actions_def keepRecordSlots_def Let_def by auto
  obtain c j where c: "c \<in> set (it_candidates item)"
    "a \<in> set (candidate_action (it_fact item) c (map_of vs (int j)))"
    by (rule resolution_action [OF a(1)])
  note ids = candidate_action_ids [OF c(2)]
  show "spares i a'"
  proof (cases "i \<in> item_ids item")
    case True
    from keep_record_spares [OF assms [OF True] a(2)] ids show ?thesis by blast
  next
    case False
    then have "i \<notin> action_ids a'" using ids c(1) keep_record_ids [OF a(2)] by (auto simp: item_ids_def)
    then show ?thesis by (rule spares_other)
  qed
qed

lemma pick_rows_mem: "x \<in> set (pick_rows look ids) \<longleftrightarrow> (\<exists>i \<in> set ids. look i = Some x)"
  by (auto simp: pick_rows_def split: option.splits intro: sym)

lemma open_factD:
  "distinct (map kf_id (mem_facts m)) \<Longrightarrow> open_fact i m = Some r \<Longrightarrow> r \<in> set (mem_facts m) \<and> kf_id r = i \<and> fact_open r"
  by (auto simp: open_fact_def row_of_iff split: option.splits if_splits)

lemma reload_rows:
  assumes "distinct (map kf_id (mem_facts m))" "reload env m factId cids = Some item" "\<not> isEdgeId factId"
  shows "jf_id (it_fact item) = factId"
    and "\<And>f. f \<in> set (it_fact item # it_candidates item) \<Longrightarrow> \<exists>r \<in> set (mem_facts m). f = resolvable_of r \<and> fact_open r"
proof -
  obtain r where r: "open_fact factId m = Some r" "it_fact item = resolvable_of r"
    "it_candidates item = map resolvable_of (pick_rows (\<lambda>i. open_fact i m) cids)"
    using assms(2,3) by (auto simp: reload_def split: option.splits)
  note o = open_factD [OF assms(1)]
  show "jf_id (it_fact item) = factId" using o [OF r(1)] r(2) by (simp add: resolvable_of_def)
  show "\<exists>r \<in> set (mem_facts m). f = resolvable_of r \<and> fact_open r" if "f \<in> set (it_fact item # it_candidates item)" for f
  proof -
    from that consider "f = resolvable_of r" | x i where "f = resolvable_of x" "open_fact i m = Some x"
      using r(2,3) by (auto simp: pick_rows_mem)
    then show ?thesis using o r(1) by cases blast+
  qed
qed

lemma reload_edge: "reload env m factId cids = Some item \<Longrightarrow> isEdgeId factId \<Longrightarrow> isEdgeId (jf_id (it_fact item))"
  by (auto simp: reload_def edgeItem_def edgeResolvable_def reloadEdges_def Let_def split: option.splits
      dest!: map_of_SomeD)

lemma apply_keeps_records:
  assumes d: "distinct (map kf_id (mem_facts m))" and r: "r \<in> set (mem_facts m)" "of_record r"
    and item: "reload env m factId cids = Some item"
  shows "list_all2 (kept (kf_id r)) (mem_facts m) (mem_facts (snd (apply_item env item vs m)))"
proof (cases "isEdgeId factId")
  case True
  then have "isEdgeId (jf_id (it_fact item))" using reload_edge [OF item] by simp
  then show ?thesis by (simp add: apply_item_def Let_def kept_refl split: prod.splits)
next
  case False
  note rows = reload_rows [OF d item False]
  have "list_all (spares (kf_id r)) (item_actions item vs)"
  proof (rule item_actions_spare)
    assume "kf_id r \<in> item_ids item"
    then obtain f where f: "f \<in> set (it_fact item # it_candidates item)" "jf_id f = kf_id r"
      unfolding item_ids_def by (metis imageE)
    from rows(2) [OF f(1)] obtain x where x: "x \<in> set (mem_facts m)" "f = resolvable_of x" by (elim bexE conjE)
    then have "x = r" using row_by_id [OF d x(1) r(1)] f(2) by (simp add: resolvable_of_def)
    then have "jf_ofRecord f" using r(2) x(2) by (simp add: resolvable_of_def of_record_def)
    then have "f \<in> set (filter jf_ofRecord (it_fact item # it_candidates item))" using f(1) by auto
    then have "jf_id f \<in> jf_id ` set (filter jf_ofRecord (it_fact item # it_candidates item))" by (rule imageI)
    then show "kf_id r \<in> set (map jf_id (filter jf_ofRecord (it_fact item # it_candidates item)))"
      unfolding set_map f(2) .
  qed
  then have one: "list_all2 (kept (kf_id r)) (mem_facts m) (fold (write_action (re_now env)) (item_actions item vs) (mem_facts m))"
    by (rule writes_spare [OF d])
  have "distinct (map kf_id (fold (write_action (re_now env)) (item_actions item vs) (mem_facts m)))"
    using kept_ids [OF one] d by simp
  then have "list_all2 (kept (kf_id r)) (fold (write_action (re_now env)) (item_actions item vs) (mem_facts m))
      (markChecked (re_now env) factId (fold (write_action (re_now env)) (item_actions item vs) (mem_facts m)))"
    unfolding markChecked_def by (rule kept_update) simp_all
  from kept_trans [OF one this] False rows(1) show ?thesis by (simp add: apply_item_def Let_def)
qed

lemma submit_keeps_records:
  assumes "distinct (map kf_id (mem_facts m))" "r \<in> set (mem_facts m)" "of_record r"
  shows "\<exists>r' \<in> set (mem_facts (snd (submit_items env vs i f (out, m)))). record_kept r r'"
  using assms
proof (induction f arbitrary: i out m r)
  case Nil
  then show ?case by (auto intro: bexI [of _ r])
next
  case (Cons t ts)
  obtain factId cids sg where t: "t = (factId, cids, sg)" by (cases t) auto
  show ?case
  proof (cases "\<exists>item. reload env m factId cids = Some item \<and> signatureOf env item = sg")
    case False
    then show ?thesis using Cons.IH [OF Cons.prems] by (auto simp: t split: option.splits)
  next
    case True
    then obtain item where item: "reload env m factId cids = Some item" "signatureOf env item = sg" by blast
    obtain part m' where a: "apply_item env item (case map_of vs (int i) of None \<Rightarrow> [] | Some v \<Rightarrow> v) m = (part, m')"
      by fastforce
    have rows: "list_all2 (kept (kf_id r)) (mem_facts m) (mem_facts m')"
      using apply_keeps_records [OF Cons.prems item(1), of "case map_of vs (int i) of None \<Rightarrow> [] | Some v \<Rightarrow> v"]
      by (simp add: a)
    obtain r' where r': "r' \<in> set (mem_facts m')" "record_kept r r'"
      using list_all2_left [OF rows Cons.prems(2)] by (auto simp: kept_def)
    have "distinct (map kf_id (mem_facts m'))" using kept_ids [OF rows] Cons.prems(1) by simp
    moreover have "of_record r'" using Cons.prems(3) record_kept_source [OF r'(2)] by (simp add: of_record_def)
    ultimately obtain r'' where "r'' \<in> set (mem_facts (snd (submit_items env vs (i + 1) ts (add_outcome out part, m'))))" "record_kept r' r''"
      using Cons.IH r'(1) by blast
    then show ?thesis using item a record_kept_trans [OF r'(2)] by (auto simp: t)
  qed
qed

section \<open>A batch\<close>

text \<open>Marking a row judged changes nothing else, so what a batch reads is what the table held.\<close>

definition only_marked :: "knowledge_fact \<Rightarrow> knowledge_fact \<Rightarrow> bool" where
  "only_marked r r' \<longleftrightarrow> (\<exists>t. r' = r\<lparr>kf_checkedAt := t\<rparr>)"

lemma only_marked_fields:
  assumes "only_marked r r'"
  shows "resolvable_of r' = resolvable_of r" "kf_id r' = kf_id r" "kf_entity r' = kf_entity r" "fact_open r' = fact_open r"
    "kf_userId r' = kf_userId r" "kf_derivedVersion r' = kf_derivedVersion r" "group_tags r' = group_tags r"
proof -
  obtain t where "r' = r\<lparr>kf_checkedAt := t\<rparr>" using assms unfolding only_marked_def by blast
  then show "resolvable_of r' = resolvable_of r" "kf_id r' = kf_id r" "kf_entity r' = kf_entity r" "fact_open r' = fact_open r"
    "kf_userId r' = kf_userId r" "kf_derivedVersion r' = kf_derivedVersion r" "group_tags r' = group_tags r"
    by (simp_all add: resolvable_of_def fact_open_def group_tags_def)
qed

lemma markChecked_set: "markChecked now i tb = fact_set i (\<lambda>r. r\<lparr>kf_checkedAt := Some now\<rparr>) tb"
proof (cases "find (\<lambda>r. kf_id r = i) tb")
  case None
  then have "fact_set i (\<lambda>r. r\<lparr>kf_checkedAt := Some now\<rparr>) tb = tb" by (auto simp: fact_set_def find_None_iff intro: map_idI)
  with None show ?thesis by (simp add: markChecked_def fact_update_def)
next
  case (Some b)
  then show ?thesis by (auto simp: markChecked_def fact_update_def)
qed

lemma only_marked_simps [simp]: "only_marked r r" "only_marked r (r\<lparr>kf_checkedAt := t\<rparr>)"
  unfolding only_marked_def by (metis knowledge_fact.surjective knowledge_fact.update_convs(30)) blast

lemma markChecked_marks: "list_all2 only_marked tb (markChecked now i tb)"
  by (simp add: markChecked_set fact_set_def list_all2_map2 list_all2_same)

lemma only_marked_trans: "only_marked r r' \<Longrightarrow> only_marked r' r'' \<Longrightarrow> only_marked r r''"
  unfolding only_marked_def by fastforce

text \<open>A fact and what it is judged against.\<close>

definition same_pool :: "knowledge_fact \<Rightarrow> knowledge_fact \<Rightarrow> bool" where
  "same_pool row x \<longleftrightarrow> kf_id x \<noteq> kf_id row \<and> kf_entity x = kf_entity row \<and> fact_open x \<and>
     same_user (kf_userId row) (kf_userId x) \<and> kf_derivedVersion x = None \<and> group_tags x = group_tags row"

definition fact_item :: "fact_table \<Rightarrow> resolution_item \<Rightarrow> bool" where
  "fact_item tb item \<longleftrightarrow>
     (\<exists>row \<in> set tb. it_fact item = resolvable_of row \<and> fact_open row \<and> kf_derivedVersion row = None \<and>
        (\<forall>c \<in> set (it_candidates item). \<exists>x \<in> set tb. c = resolvable_of x \<and> same_pool row x))"

definition edge_item :: "edge_table \<Rightarrow> resolution_item \<Rightarrow> bool" where
  "edge_item es item \<longleftrightarrow>
     (\<exists>e \<in> set es. jf_id (it_fact item) = ke_id e \<and> edge_open e \<and>
        (\<forall>c \<in> set (it_candidates item). \<exists>x \<in> set es. jf_id c = ke_id x \<and> ke_id x \<noteq> ke_id e \<and> edge_open x \<and>
           ke_scopeKey x = ke_scopeKey e \<and> (ke_in x = ke_in e \<or> ke_out x = ke_out e)))"

definition item_bounds :: "resolution_item \<Rightarrow> bool" where
  "item_bounds item \<longleftrightarrow> it_candidates item \<noteq> [] \<and> length (it_candidates item) \<le> RESOLUTION_CANDIDATES"

definition judged_once :: "resolution_item list \<Rightarrow> bool" where
  "judged_once items \<longleftrightarrow> sorted_wrt (\<lambda>a b. jf_id (it_fact b) \<notin> item_ids a) items"

definition same_edge :: "knowledge_edge \<Rightarrow> knowledge_edge \<Rightarrow> bool" where
  "same_edge e e' \<longleftrightarrow> (\<exists>t. e' = e\<lparr>ke_checkedAt := t\<rparr>)"

definition batch_inv :: "nat \<Rightarrow> memory \<Rightarrow> batch_state \<Rightarrow> bool" where
  "batch_inv want m st \<longleftrightarrow>
     list_all2 only_marked (mem_facts m) (mem_facts (ba_memory st)) \<and>
     list_all2 same_edge (mem_edges m) (mem_edges (ba_memory st)) \<and>
     length (ba_items st) \<le> want \<and> judged_once (ba_items st) \<and>
     (\<forall>item \<in> set (ba_items st). item_ids item \<subseteq> set (ba_taken st) \<and> item_bounds item \<and>
        (fact_item (mem_facts m) item \<or> edge_item (mem_edges m) item))"

lemma take_item_inv:
  assumes inv: "batch_inv want m st" and new: "jf_id (it_fact item) \<notin> set (ba_taken st)" "length (ba_items st) < want"
    and item: "item_bounds item" "fact_item (mem_facts m) item \<or> edge_item (mem_edges m) item"
  shows "batch_inv want m (take_item (jf_id (it_fact item)) item st)"
proof -
  have "judged_once (ba_items st @ [item])"
    using inv new(1) by (auto simp: judged_once_def sorted_wrt_append batch_inv_def)
  then show ?thesis
    using inv new(2) item by (auto simp: batch_inv_def take_item_def item_ids_def)
qed

lemma judged_against_mem:
  assumes "x \<in> set (judged_against env row tb)"
  shows "x \<in> set tb \<and> same_pool row x"
  using assms by (auto simp: judged_against_def same_pool_def split: option.splits list.splits dest!: in_set_takeD)

lemma judged_against_length: "length (judged_against env row tb) \<le> RESOLUTION_CANDIDATES"
  by (auto simp: judged_against_def split: option.splits list.splits)

lemma marked_pool:
  assumes "only_marked x x'" "only_marked r r'" "same_pool r' x'"
  shows "same_pool r x"
  using assms(3) only_marked_fields [OF assms(1)] only_marked_fields [OF assms(2)] by (simp add: same_pool_def)

lemma fact_page_inv:
  assumes "batch_inv want m st"
    and "\<And>row. row \<in> set rows \<Longrightarrow> \<exists>r \<in> set (mem_facts m). only_marked r row \<and> fact_open r \<and> kf_derivedVersion r = None"
  shows "batch_inv want m (fact_page env want rows st)"
  using assms
proof (induction env want rows st rule: fact_page.induct)
  case (1 env want st)
  then show ?case by simp
next
  case (2 env want row rows st)
  let ?cs = "judged_against env row (mem_facts (ba_memory st))"
  let ?item = "\<lparr>it_fact = resolvable_of row, it_candidates = map resolvable_of ?cs\<rparr>"
  note IH = 2(1) and IH' = 2(2) and inv = 2(3) and rows = 2(4)
  have rest: "\<And>x. x \<in> set rows \<Longrightarrow> \<exists>r \<in> set (mem_facts m). only_marked r x \<and> fact_open r \<and> kf_derivedVersion r = None"
    using rows by simp
  show ?case
  proof (cases "want \<le> length (ba_items st)")
    case True
    with inv show ?thesis by simp
  next
    case room: False
    show ?thesis
    proof (cases "kf_id row \<in> set (ba_taken st)")
      case True
      have "batch_inv want m (st\<lparr>ba_offset := ba_offset st + 1\<rparr>)" using inv by (simp add: batch_inv_def)
      from IH [OF room True this rest] True room show ?thesis by simp
    next
      case new: False
      show ?thesis
      proof (cases "?cs = []")
        case True
        let ?st = "st\<lparr>ba_memory := (ba_memory st)\<lparr>mem_facts := markChecked (re_now env) (kf_id row) (mem_facts (ba_memory st))\<rparr>\<rparr>"
        have "list_all2 only_marked (mem_facts m) (markChecked (re_now env) (kf_id row) (mem_facts (ba_memory st)))"
          using inv markChecked_marks unfolding batch_inv_def by (blast intro: list_all2_trans only_marked_trans)
        then have "batch_inv want m ?st" using inv by (simp add: batch_inv_def)
        with IH' [OF room new refl, simplified True] rest room new True show ?thesis by simp
      next
        case some: False
        obtain r where r: "r \<in> set (mem_facts m)" "only_marked r row" "fact_open r" "kf_derivedVersion r = None"
          using rows by force
        have "\<exists>x \<in> set (mem_facts m). c = resolvable_of x \<and> same_pool r x" if c: "c \<in> resolvable_of ` set ?cs" for c
        proof -
          obtain x' where x': "x' \<in> set ?cs" "c = resolvable_of x'" using c by (rule imageE) simp
          note pool = judged_against_mem [OF x'(1)]
          have "list_all2 only_marked (mem_facts m) (mem_facts (ba_memory st))" using inv by (simp add: batch_inv_def)
          from list_all2_right [OF this conjunct1 [OF pool]]
          obtain x where x: "x \<in> set (mem_facts m)" "only_marked x x'" by (elim bexE)
          from marked_pool [OF x(2) r(2) conjunct2 [OF pool]] x x'(2) show ?thesis
            using only_marked_fields(1) [OF x(2)] by auto
        qed
        then have "fact_item (mem_facts m) ?item"
          unfolding fact_item_def using r only_marked_fields(1) [OF r(2)] by (intro bexI [of _ r]) auto
        moreover have "item_bounds ?item"
          using some judged_against_length [of env row "mem_facts (ba_memory st)"] by (simp add: item_bounds_def)
        moreover have "jf_id (it_fact ?item) = kf_id row" by (simp add: resolvable_of_def)
        ultimately have "batch_inv want m (take_item (kf_id row) ?item st)"
          using take_item_inv [OF inv, of ?item] new room by simp
        with IH' [OF room new refl] rest room new some show ?thesis by simp
      qed
    qed
  qed
qed

lemma same_edge_fields:
  assumes "same_edge e e'"
  shows "ke_id e' = ke_id e" "edge_open e' = edge_open e" "ke_scopeKey e' = ke_scopeKey e" "ke_in e' = ke_in e" "ke_out e' = ke_out e"
  using assms by (auto simp: same_edge_def edge_open_def)

lemma same_edge_simps [simp]: "same_edge e e" "same_edge e (e\<lparr>ke_checkedAt := t\<rparr>)"
  unfolding same_edge_def by (metis knowledge_edge.surjective knowledge_edge.update_convs(14)) blast

lemma same_edge_trans: "same_edge e e' \<Longrightarrow> same_edge e' e'' \<Longrightarrow> same_edge e e''"
  unfolding same_edge_def by fastforce

lemma markEdgeChecked_marks: "list_all2 same_edge es (markEdgeChecked now i es)"
  by (simp add: markEdgeChecked_def list_all2_map2 list_all2_same)

lemma edge_candidate_mem:
  assumes "x \<in> set (edgeCandidates e es)"
  shows "x \<in> set es \<and> ke_id x \<noteq> ke_id e \<and> edge_open x \<and> ke_scopeKey x = ke_scopeKey e \<and> (ke_in x = ke_in e \<or> ke_out x = ke_out e)"
  using in_set_takeD [OF assms [unfolded edgeCandidates_def]] by auto

lemma edge_page_inv:
  assumes "batch_inv want m st"
    and "\<And>e. e \<in> set rows \<Longrightarrow> \<exists>r \<in> set (mem_edges m). same_edge r e \<and> edge_open r"
  shows "batch_inv want m (edge_page env want rows st)"
  using assms
proof (induction env want rows st rule: edge_page.induct)
  case (1 env want st)
  then show ?case by simp
next
  case (2 env want e rows st)
  let ?cs = "edgeCandidates e (mem_edges (ba_memory st))" and ?es = "mem_edges (ba_memory st)"
  note IH = 2(1) and IH' = 2(2) and inv = 2(3) and rows = 2(4)
  have rest: "\<And>x. x \<in> set rows \<Longrightarrow> \<exists>r \<in> set (mem_edges m). same_edge r x \<and> edge_open r"
    using rows by simp
  have es: "list_all2 same_edge (mem_edges m) ?es" using inv by (simp add: batch_inv_def)
  show ?case
  proof (cases "want \<le> length (ba_items st)")
    case True
    with inv show ?thesis by simp
  next
    case room: False
    show ?thesis
    proof (cases "ke_id e \<in> set (ba_taken st)")
      case True
      have "batch_inv want m (st\<lparr>ba_offset := ba_offset st + 1\<rparr>)" using inv by (simp add: batch_inv_def)
      from IH [OF room True this rest] True room show ?thesis by simp
    next
      case new: False
      show ?thesis
      proof (cases "?cs = []")
        case True
        have "list_all2 same_edge (mem_edges m) (markEdgeChecked (re_now env) (ke_id e) ?es)"
          using es markEdgeChecked_marks by (blast intro: list_all2_trans same_edge_trans)
        then have "batch_inv want m (st\<lparr>ba_memory := (ba_memory st)\<lparr>mem_edges := markEdgeChecked (re_now env) (ke_id e) ?es\<rparr>\<rparr>)"
          using inv by (simp add: batch_inv_def)
        with IH' [OF room new refl, simplified True] rest room new True show ?thesis by simp
      next
        case some: False
        obtain r where r: "r \<in> set (mem_edges m)" "same_edge r e" "edge_open r" using rows by force
        have "\<exists>x \<in> set (mem_edges m). jf_id c = ke_id x \<and> ke_id x \<noteq> ke_id r \<and> edge_open x \<and>
            ke_scopeKey x = ke_scopeKey r \<and> (ke_in x = ke_in r \<or> ke_out x = ke_out r)"
          if c: "c \<in> set (it_candidates (edgeItem env e ?cs))" for c
        proof -
          obtain x' where x': "x' \<in> set ?cs" "jf_id c = ke_id x'"
            using c by (auto simp: edgeItem_def edgeResolvable_def Let_def)
          note pool = edge_candidate_mem [OF x'(1)]
          from list_all2_right [OF es conjunct1 [OF pool]]
          obtain x where x: "x \<in> set (mem_edges m)" "same_edge x x'" by (elim bexE)
          show ?thesis using x(1) x'(2) pool same_edge_fields [OF x(2)] same_edge_fields [OF r(2)] by (intro bexI [of _ x]) auto
        qed
        moreover have id: "jf_id (it_fact (edgeItem env e ?cs)) = ke_id e"
          by (simp add: edgeItem_def edgeResolvable_def Let_def)
        ultimately have "edge_item (mem_edges m) (edgeItem env e ?cs)"
          unfolding edge_item_def using r same_edge_fields(1) [OF r(2)] by (intro bexI [of _ r]) simp_all
        moreover have "item_bounds (edgeItem env e ?cs)"
          using some by (simp add: item_bounds_def edgeItem_def Let_def) (simp add: edgeCandidates_def)
        ultimately have "batch_inv want m (take_item (ke_id e) (edgeItem env e ?cs) st)"
          using take_item_inv [OF inv, of "edgeItem env e ?cs"] new room id by simp
        with IH' [OF room new refl] rest room new some show ?thesis by simp
      qed
    qed
  qed
qed

lemma pending_row:
  assumes inv: "batch_inv want m st" and x: "x \<in> set (pendingFacts opts k off (mem_facts (ba_memory st)))"
  shows "\<exists>r \<in> set (mem_facts m). only_marked r x \<and> fact_open r \<and> kf_derivedVersion r = None"
proof -
  have mem: "x \<in> set (mem_facts (ba_memory st))" "fact_open x" "kf_derivedVersion x = None"
    using x by (auto simp: pendingFacts_def dest!: in_set_takeD in_set_dropD)
  have "list_all2 only_marked (mem_facts m) (mem_facts (ba_memory st))" using inv by (simp add: batch_inv_def)
  from list_all2_right [OF this mem(1)] obtain r where r: "r \<in> set (mem_facts m)" "only_marked r x" by (elim bexE)
  with mem(2,3) show ?thesis using only_marked_fields [OF r(2)] by auto
qed

lemma pending_edge:
  assumes inv: "batch_inv want m st" and x: "x \<in> set (pendingEdges opts k off (mem_edges (ba_memory st)))"
  shows "\<exists>r \<in> set (mem_edges m). same_edge r x \<and> edge_open r"
proof -
  have mem: "x \<in> set (mem_edges (ba_memory st))" "edge_open x"
    using x by (auto simp: pendingEdges_def dest!: in_set_takeD in_set_dropD)
  have "list_all2 same_edge (mem_edges m) (mem_edges (ba_memory st))" using inv by (simp add: batch_inv_def)
  from list_all2_right [OF this mem(1)] obtain r where r: "r \<in> set (mem_edges m)" "same_edge r x" by (elim bexE)
  with mem(2) show ?thesis using same_edge_fields [OF r(2)] by auto
qed

lemma fact_pages_inv: "batch_inv want m st \<Longrightarrow> batch_inv want m (fact_pages n env opts want st)"
proof (induction n arbitrary: st)
  case 0
  then show ?case by simp
next
  case (Suc n)
  have "batch_inv want m (fact_page env want (pendingFacts opts (want * 2) (ba_offset st) (mem_facts (ba_memory st))) st)"
    using Suc.prems by (rule fact_page_inv) (rule pending_row [OF Suc.prems])
  from Suc.IH [OF this] Suc.prems show ?case by (simp add: Let_def)
qed

lemma edge_pages_inv: "batch_inv want m st \<Longrightarrow> batch_inv want m (edge_pages n env opts want st)"
proof (induction n arbitrary: st)
  case 0
  then show ?case by simp
next
  case (Suc n)
  have "batch_inv want m (edge_page env want (pendingEdges opts (want * 2) (ba_offset st) (mem_edges (ba_memory st))) st)"
    using Suc.prems by (rule edge_page_inv) (rule pending_edge [OF Suc.prems])
  from Suc.IH [OF this] Suc.prems show ?case by (simp add: Let_def)
qed

lemma nextItems_inv:
  assumes "nextItems env opts m = (items, m')"
  shows "\<exists>st. batch_inv (batch_want opts) m st \<and> ba_items st = items \<and> ba_memory st = m'"
proof -
  let ?st0 = "\<lparr>ba_items = [], ba_taken = [], ba_offset = 0, ba_memory = m\<rparr>"
  let ?st1 = "fact_pages 4 env opts (batch_want opts) ?st0"
  have "batch_inv (batch_want opts) m ?st0" by (simp add: batch_inv_def judged_once_def list_all2_same)
  then have one: "batch_inv (batch_want opts) m ?st1" by (rule fact_pages_inv)
  then have "batch_inv (batch_want opts) m (?st1\<lparr>ba_offset := 0\<rparr>)" by (simp add: batch_inv_def)
  then have "batch_inv (batch_want opts) m (edge_pages 4 env opts (batch_want opts) (?st1\<lparr>ba_offset := 0\<rparr>))"
    by (rule edge_pages_inv)
  with one assms show ?thesis
    by (cases "length (ba_items ?st1) < batch_want opts") (auto simp: nextItems_def Let_def simp del: fact_pages.simps edge_pages.simps)
qed

section \<open>Samples\<close>

definition plain_fact :: "string \<Rightarrow> string \<Rightarrow> int \<Rightarrow> knowledge_fact" where
  "plain_fact i obj from =
     \<lparr>kf_id = i, kf_entity = ''e'', kf_predicate = ''plan'', kf_alias = None, kf_object = obj, kf_objectMeta = None,
      kf_confidence = 1, kf_source = no_source, kf_embedding = Some [1], kf_validFrom = from, kf_validUntil = None,
      kf_recordedAt = from, kf_status = Active, kf_retractedAt = None, kf_retractedBy = None,
      kf_retractionReason = None, kf_supersededBy = None, kf_priorValidUntil = None, kf_corroborates = None,
      kf_corroboration = None, kf_userId = None, kf_scope = [], kf_derivedVersion = None, kf_derivedFrom = [],
      kf_trust = None, kf_trace = no_trace, kf_lang = None, kf_script = None, kf_entropy = None, kf_checkedAt = None\<rparr>"

definition record_fact :: "string \<Rightarrow> string \<Rightarrow> int \<Rightarrow> knowledge_fact" where
  "record_fact i obj from = (plain_fact i obj from)\<lparr>kf_source := no_source\<lparr>fs_kind := Some ''source_record''\<rparr>\<rparr>"

definition judge_env :: resolution_env where
  "judge_env = \<lparr>re_js = \<lparr>num_str = \<lambda>_. [], str_num = \<lambda>_. JNaN, date_ms = \<lambda>_. None\<rparr>, re_digest = (\<lambda>s. s),
     re_iso = (\<lambda>t. string_of_nat (nat t)), re_cosine = (\<lambda>_ _. 1), re_docKind = (\<lambda>_. None), re_now = 100\<rparr>"

definition sample_memory :: memory where
  "sample_memory = \<lparr>mem_facts = [record_fact ''crm'' ''gold'' 10, plain_fact ''said'' ''silver'' 20], mem_edges = []\<rparr>"

text \<open>The reply that the new fact replaces the record's value.\<close>

definition sample_reply :: jval where
  "sample_reply = JObj [(''items'', JArr [JObj [(''item'', JStr ''r1''),
     (''verdicts'', JArr [JObj [(''candidate'', JStr ''c1''), (''verdict'', JStr ''replaces'')]])]])]"

definition sample_token :: "token_item list" where
  "sample_token = [(''said'', [''crm''], signatureOf judge_env
     \<lparr>it_fact = resolvable_of (plain_fact ''said'' ''silver'' 20), it_candidates = [resolvable_of (record_fact ''crm'' ''gold'' 10)]\<rparr>)]"

lemmas sample_defs = plain_fact_def record_fact_def judge_env_def sample_memory_def sample_reply_def sample_token_def
  no_source_def no_trace_def

lemma sample_parse: "parseResolution (re_js judge_env) sample_reply = Some [(0, [(0, Replaces)])]"
  by (simp add: parseResolution_def sample_reply_def judge_env_def handle_index_def verdict_of_def digits_nat_def
      nullish_or_def nullish_def present_def digit_def in_range_def)

lemma sample_reload:
  "reload judge_env sample_memory ''said'' [''crm''] = Some
     \<lparr>it_fact = resolvable_of (plain_fact ''said'' ''silver'' 20), it_candidates = [resolvable_of (record_fact ''crm'' ''gold'' 10)]\<rparr>"
  by (simp add: reload_def isEdgeId_def open_fact_def row_of_def pick_rows_def sample_memory_def record_fact_def
      plain_fact_def fact_open_def)

lemma sample_actions:
  "item_actions \<lparr>it_fact = resolvable_of (plain_fact ''said'' ''silver'' 20), it_candidates = [resolvable_of (record_fact ''crm'' ''gold'' 10)]\<rparr>
     [(0, Replaces)] = [Dispute ''said'' ''crm'']"
  by (simp add: item_actions_def resolutionActions_def candidate_action_def earlier_valid_def resolvable_of_def
      keepRecordSlots_def sample_defs)

lemma sample_submit:
  "submit judge_env sample_token sample_reply sample_memory = Some
     (emptyOutcome\<lparr>ro_facts := 1, ro_judged := 1, ro_competing := 1\<rparr>,
      sample_memory\<lparr>mem_facts := [record_fact ''crm'' ''gold'' 10, (plain_fact ''said'' ''silver'' 20)
         \<lparr>kf_status := Competing, kf_checkedAt := Some 100, kf_trace := no_trace\<lparr>ct_competing := [''crm'']\<rparr>\<rparr>]\<rparr>)"
proof -
  let ?c = "(plain_fact ''said'' ''silver'' 20)\<lparr>kf_status := Competing, kf_trace := no_trace\<lparr>ct_competing := [''crm'']\<rparr>\<rparr>"
  have wr: "write_action 100 (Dispute ''said'' ''crm'') (mem_facts sample_memory) = [record_fact ''crm'' ''gold'' 10, ?c]"
    by (simp add: open_row_def row_of_def fact_update_def fact_set_def link_dispute_def array_union_def fact_open_def
        sample_defs dedupe_def)
  have "markChecked 100 ''said'' [record_fact ''crm'' ''gold'' 10, ?c] = [record_fact ''crm'' ''gold'' 10, ?c\<lparr>kf_checkedAt := Some 100\<rparr>]"
    by (simp add: markChecked_set fact_set_def sample_defs)
  with wr sample_actions have "apply_item judge_env \<lparr>it_fact = resolvable_of (plain_fact ''said'' ''silver'' 20),
        it_candidates = [resolvable_of (record_fact ''crm'' ''gold'' 10)]\<rparr> [(0, Replaces)] sample_memory =
      (emptyOutcome\<lparr>ro_facts := 1, ro_judged := 1, ro_competing := 1\<rparr>,
       sample_memory\<lparr>mem_facts := [record_fact ''crm'' ''gold'' 10, ?c\<lparr>kf_checkedAt := Some 100\<rparr>]\<rparr>)"
    by (simp add: apply_item_def isEdgeId_def resolvable_of_def plain_fact_def count_action_def judge_env_def emptyOutcome_def)
  then show ?thesis
    by (simp add: submit_def sample_parse sample_token_def sample_reload add_outcome_def emptyOutcome_def plain_fact_def)
qed

section \<open>Valid time decides which value is the later one\<close>

lemma row_of_update_self:
  assumes "distinct (map kf_id tb)" "keeps_id f" "r \<in> set tb"
  shows "row_of (kf_id r) (fact_update (kf_id r) f tb) = Some (f r)"
proof -
  from list_all2_left [OF fact_update_rows [OF assms(1,2)] assms(3), of "kf_id r"]
  obtain r' where r': "r' \<in> set (fact_update (kf_id r) f tb)" "r' = f r" by (auto simp: row_step_def)
  have "distinct (map kf_id (fact_update (kf_id r) f tb))" using fact_update_ids [OF assms(1,2)] assms(1) by simp
  with r' assms(2) show ?thesis by (simp add: row_of_iff keeps_id_def)
qed

lemma row_of_activate: "i \<noteq> j \<Longrightarrow> row_of i (activate_competing j tb) = row_of i tb"
  unfolding row_of_def activate_competing_def fact_set_def
  by (induction tb) (auto simp: if_distrib)

lemma markSuperseded_loser:
  assumes d: "distinct (map kf_id tb)" and l: "l \<in> set tb" and w: "w \<in> set tb" and n: "kf_id l \<noteq> kf_id w"
  shows "row_of (kf_id l) (markSuperseded (kf_id l) (kf_id w) tb) =
    Some (close_by_dreams (kf_id w) (kf_validUntil l) (max (kf_validFrom l) (kf_validFrom w)) l)"
proof -
  have "row_of (kf_id l) tb = Some l" "row_of (kf_id w) tb = Some w" using l w by (simp_all add: row_of_iff [OF d])
  then show ?thesis
    using row_of_update_self [OF d keeps_id_judged(1) l] n
    by (simp add: markSuperseded_def row_of_activate max_def)
qed

lemma supersede_action:
  assumes "Supersede l w \<in> set (resolutionActions new cs vs)"
  obtains x y where "x \<in> set (new # cs)" "y \<in> set (new # cs)" "jf_id x = l" "jf_id y = w" "earlier_valid x y \<or> \<not> earlier_valid y x"
proof -
  obtain c i where c: "c \<in> set cs" "Supersede l w \<in> set (candidate_action new c (map_of vs (int i)))"
    by (rule resolution_action [OF assms])
  from c(2) show thesis
    by (cases rule: candidate_action_cases) (use that [of c new] that [of new c] c(1) in \<open>auto split: if_splits\<close>)
qed

lemma earlier_valid_le: "earlier_valid x y \<or> \<not> earlier_valid y x \<Longrightarrow> jf_validFrom x \<le> jf_validFrom y"
  by (auto simp: earlier_valid_def split: if_splits)

lemma supersede_kept:
  assumes "Supersede loser winner \<in> set (item_actions item vs)"
  shows "Supersede loser winner \<in> set (resolutionActions (it_fact item) (it_candidates item) vs)"
    "loser \<notin> jf_id ` {f \<in> set (it_fact item # it_candidates item). jf_ofRecord f}"
proof -
  let ?p = "\<lambda>i. i \<in> set (map jf_id (filter jf_ofRecord (it_fact item # it_candidates item)))"
  obtain a where a: "a \<in> set (resolutionActions (it_fact item) (it_candidates item) vs)"
    "Supersede loser winner \<in> set (keep_record_slot ?p a)"
    using assms unfolding item_actions_def keepRecordSlots_def Let_def set_concat set_map by blast
  have "a = Supersede loser winner \<and> \<not> ?p loser"
    using a(2) by (cases a) (simp_all split: if_splits)
  moreover have eq: "set (map jf_id (filter jf_ofRecord fs)) = jf_id ` {f \<in> set fs. jf_ofRecord f}" for fs by simp
  ultimately show "Supersede loser winner \<in> set (resolutionActions (it_fact item) (it_candidates item) vs)"
    "loser \<notin> jf_id ` {f \<in> set (it_fact item # it_candidates item). jf_ofRecord f}"
    using a(1) unfolding eq by blast+
qed

text \<open>C15: A judged succession.  When a closing of one value by another is among the actions of a judged
  item, after the slots of systems of record were kept, and the rows are as the judge saw them, the loser
  is not of a system of record and holds from the earlier valid time, whichever arrived first; its row
  becomes superseded by the winner's and ends exactly where the winner's begins, even where it had ended
  before (\<open>judged_close_stretches\<close>), so that it does not overlap it.\<close>

theorem valid_time_decides:
  assumes "distinct (map kf_id tb)"
    and "\<forall>f \<in> set (it_fact item # it_candidates item). \<exists>r \<in> set tb. f = resolvable_of r"
    and "Supersede loser winner \<in> set (item_actions item vs)" "loser \<noteq> winner"
  shows "\<exists>l \<in> set tb. \<exists>w \<in> set tb. \<exists>l'. kf_id l = loser \<and> kf_id w = winner \<and> kf_validFrom l \<le> kf_validFrom w \<and>
    \<not> jf_ofRecord (resolvable_of l) \<and>
    row_of loser (write_action now (Supersede loser winner) tb) = Some l' \<and> kf_status l' = Superseded \<and>
    kf_supersededBy l' = Some winner \<and> kf_validFrom l' = kf_validFrom l \<and>
    kf_validUntil l' = Some (kf_validFrom w) \<and> \<not> rows_overlap l' w"
proof -
  note kept = supersede_kept [OF assms(3)]
  obtain x y where xy: "x \<in> set (it_fact item # it_candidates item)" "y \<in> set (it_fact item # it_candidates item)"
      "jf_id x = loser" "jf_id y = winner" "earlier_valid x y \<or> \<not> earlier_valid y x"
    by (rule supersede_action [OF kept(1)])
  obtain l where l: "l \<in> set tb" "x = resolvable_of l" using assms(2) xy(1) by blast
  obtain w where w: "w \<in> set tb" "y = resolvable_of w" using assms(2) xy(2) by blast
  have mine: "\<not> jf_ofRecord (resolvable_of l)" using kept(2) xy(1,3) l(2) by blast
  have ids: "kf_id l = loser" "kf_id w = winner" using l(2) w(2) xy(3,4) by (simp_all add: resolvable_of_def)
  have le: "kf_validFrom l \<le> kf_validFrom w"
    using earlier_valid_le [OF xy(5)] l(2) w(2) by (simp add: resolvable_of_def)
  have "row_of loser (markSuperseded loser winner tb) = Some (close_by_dreams winner (kf_validUntil l) (kf_validFrom w) l)"
    using markSuperseded_loser [OF assms(1) l(1) w(1)] assms(4) ids le by (simp add: max_def)
  with l(1) w(1) ids le mine show ?thesis
    by (intro bexI [of _ l] bexI [of _ w] exI [of _ "close_by_dreams winner (kf_validUntil l) (kf_validFrom w) l"])
      (simp_all add: close_by_dreams_def rows_overlap_def intervals_overlap_def)
qed

theorem valid_time_decides_witness:
  "\<exists>l'. row_of ''old'' (write_action 100 (Supersede ''old'' ''new'') [plain_fact ''new'' ''B'' 20, plain_fact ''old'' ''A'' 10]) = Some l' \<and>
     kf_status l' = Superseded \<and> kf_validUntil l' = Some 20"
proof -
  let ?tb = "[plain_fact ''new'' ''B'' 20, plain_fact ''old'' ''A'' 10]"
  let ?item = "\<lparr>it_fact = resolvable_of (plain_fact ''old'' ''A'' 10), it_candidates = [resolvable_of (plain_fact ''new'' ''B'' 20)]\<rparr>"
  have "distinct (map kf_id ?tb)" "\<forall>f \<in> set (it_fact ?item # it_candidates ?item). \<exists>r \<in> set ?tb. f = resolvable_of r"
    "Supersede ''old'' ''new'' \<in> set (item_actions ?item [(0, Replaces)])" "''old'' \<noteq> ''new''"
    by (simp_all add: plain_fact_def resolutionActions_def candidate_action_def earlier_valid_def resolvable_of_def
        item_actions_def keepRecordSlots_def no_source_def)
  from valid_time_decides [OF this, of 100] show ?thesis by (auto simp: plain_fact_def)
qed


section \<open>What the agent may change\<close>

text \<open>C9: A system of record decides its own rows.  Whatever reply is submitted for a token, a row read
  from a system of record keeps its value, its period, its source and every other field but its
  accumulated corroboration and its judged mark; its status changes at most from competing to active.\<close>

theorem record_rows_decide:
  assumes "distinct (map kf_id (mem_facts m))"
    and "submit env f result m = Some (out, m')"
    and "r \<in> set (mem_facts m)" "of_record r"
  shows "\<exists>r' \<in> set (mem_facts m'). record_kept r r'"
proof -
  obtain vs where "submit_items env vs 0 f (emptyOutcome, m) = (out, m')"
    using assms(2) by (auto simp: submit_def split: option.splits)
  with submit_keeps_records [OF assms(1,3,4), of env vs 0 f emptyOutcome] show ?thesis by simp
qed

theorem record_rows_decide_witness:
  "submit judge_env sample_token sample_reply sample_memory = Some
     (emptyOutcome\<lparr>ro_facts := 1, ro_judged := 1, ro_competing := 1\<rparr>,
      sample_memory\<lparr>mem_facts := [record_fact ''crm'' ''gold'' 10, (plain_fact ''said'' ''silver'' 20)
         \<lparr>kf_status := Competing, kf_checkedAt := Some 100, kf_trace := no_trace\<lparr>ct_competing := [''crm'']\<rparr>\<rparr>]\<rparr>) \<and>
   (\<exists>r' \<in> {record_fact ''crm'' ''gold'' 10, (plain_fact ''said'' ''silver'' 20)
         \<lparr>kf_status := Competing, kf_checkedAt := Some 100, kf_trace := no_trace\<lparr>ct_competing := [''crm'']\<rparr>\<rparr>}.
      record_kept (record_fact ''crm'' ''gold'' 10) r')"
proof -
  have "distinct (map kf_id (mem_facts sample_memory))" "record_fact ''crm'' ''gold'' 10 \<in> set (mem_facts sample_memory)"
    "of_record (record_fact ''crm'' ''gold'' 10)"
    by (simp_all add: sample_defs of_record_def)
  from record_rows_decide [OF this(1) sample_submit this(2,3)] sample_submit show ?thesis by simp
qed

lemma submit_stale:
  assumes "\<And>t. t \<in> set f \<Longrightarrow> (case t of (i, cids, sg) \<Rightarrow> (case reload env m i cids of None \<Rightarrow> True | Some item \<Rightarrow> signatureOf env item \<noteq> sg))"
  shows "submit_items env vs k f (out, m) = (out\<lparr>ro_stale := ro_stale out + length f\<rparr>, m)"
  using assms
proof (induction f arbitrary: k out)
  case Nil
  then show ?case by simp
next
  case (Cons t ts)
  obtain i cids sg where t: "t = (i, cids, sg)" by (cases t) auto
  have "submit_items env vs k (t # ts) (out, m) = submit_items env vs (k + 1) ts (out\<lparr>ro_stale := ro_stale out + 1\<rparr>, m)"
    using Cons.prems [of t] by (auto simp: t split: option.splits)
  then show ?case using Cons.IH [of "k + 1" "out\<lparr>ro_stale := ro_stale out + 1\<rparr>"] Cons.prems by simp
qed

text \<open>A stale reply.  When every item of a token has changed since it was handed out (its fact is
  closed, or what the judge was shown has another signature), a reply that parses writes nothing and is
  counted stale item by item.\<close>

theorem stale_reply_changes_nothing:
  assumes "\<forall>t \<in> set f. case t of (i, cids, sg) \<Rightarrow> (case reload env m i cids of None \<Rightarrow> True | Some item \<Rightarrow> signatureOf env item \<noteq> sg)"
    and "parseResolution (re_js env) result \<noteq> None"
  shows "submit env f result m = Some (emptyOutcome\<lparr>ro_stale := length f\<rparr>, m)"
  using assms submit_stale [of f env m _ 0 emptyOutcome]
  by (auto simp: submit_def emptyOutcome_def)

theorem stale_reply_changes_nothing_witness:
  "submit judge_env [(''said'', [''crm''], ''old'')] sample_reply sample_memory =
     Some (emptyOutcome\<lparr>ro_stale := 1\<rparr>, sample_memory)"
proof -
  have "signatureOf judge_env \<lparr>it_fact = resolvable_of (plain_fact ''said'' ''silver'' 20),
      it_candidates = [resolvable_of (record_fact ''crm'' ''gold'' 10)]\<rparr> \<noteq> ''old''"
    by (simp add: signatureOf_def pairSignature_def judge_env_def signature_part_def json_wrap_def)
  then have "\<forall>t \<in> set [(''said'', [''crm''], ''old'')]. case t of (i, cids, sg) \<Rightarrow>
      (case reload judge_env sample_memory i cids of None \<Rightarrow> True | Some item \<Rightarrow> signatureOf judge_env item \<noteq> sg)"
    by (simp add: sample_reload)
  from stale_reply_changes_nothing [OF this, of sample_reply] sample_parse show ?thesis by simp
qed

text \<open>A batch handed to the judge.  It holds at most 64 items; no fact is judged twice in it, nor a
  fact that an earlier item's verdict may change; every item has between one and ten candidates; and a
  fact's candidates are other open facts of the live world about the same entity, of the same user and
  the same circle and team tags (an edge's candidates are other open edges of its scope that share an
  endpoint).\<close>

theorem batch_judged_apart:
  "length (fst (nextItems env opts m)) \<le> 64 \<and> judged_once (fst (nextItems env opts m)) \<and>
   (\<forall>item \<in> set (fst (nextItems env opts m)).
      item_bounds item \<and> (fact_item (mem_facts m) item \<or> edge_item (mem_edges m) item))"
proof -
  obtain items m' where n: "nextItems env opts m = (items, m')" by fastforce
  obtain st where "batch_inv (batch_want opts) m st" "ba_items st = items" using nextItems_inv [OF n] by blast
  moreover have "batch_want opts \<le> 64" by (simp add: batch_want_def)
  ultimately show ?thesis using n by (auto simp: batch_inv_def)
qed

theorem batch_judged_apart_witness:
  "length (fst (nextItems judge_env \<lparr>to_userId = None, to_anyScope = True, to_max = None\<rparr> sample_memory)) \<le> 64 \<and>
   judged_once (fst (nextItems judge_env \<lparr>to_userId = None, to_anyScope = True, to_max = None\<rparr> sample_memory))"
  using batch_judged_apart [of judge_env "\<lparr>to_userId = None, to_anyScope = True, to_max = None\<rparr>" sample_memory]
  by simp

end
