(* ===== verification/FactRetract.thy ===== *)
theory FactRetract imports FactJudged ReadFences RowFilter begin

text \<open>
  Retraction (\<open>retract\<close> of \<open>src/facts/facts.service.ts\<close>): the ownership fence, the row policy, the
  predicates only an administrator may retract, the cascade over \<open>derivedFrom\<close>
  (\<open>fn::cascade_retract\<close>, \<open>db/migrations/0069\<close>) and the revival of what the retracted fact had
  superseded.  The statements run one after the other on one connection.  How the driver returns a
  row's identifier and source to the row policy is an argument.
\<close>

section \<open>Who may retract\<close>

definition RETRACT_ADMIN_PREDICATES :: "string list" where
  "RETRACT_ADMIN_PREDICATES = [''billing_event'', ''human_declared'']"

text \<open>The row as \<open>retract\<close> selects it: \<open>validUntil\<close> is a field of its type and not among the columns.\<close>

record existing_row =
  ex_id :: string
  ex_status :: fact_status
  ex_retractedAt :: "int option"
  ex_validFrom :: int
  ex_validUntil :: "int option"
  ex_predicate :: string
  ex_source :: fact_source
  ex_userId :: "string option"

definition select_existing :: "knowledge_fact \<Rightarrow> existing_row" where
  "select_existing r =
     \<lparr>ex_id = kf_id r, ex_status = kf_status r, ex_retractedAt = kf_retractedAt r, ex_validFrom = kf_validFrom r,
      ex_validUntil = None, ex_predicate = kf_predicate r, ex_source = kf_source r, ex_userId = kf_userId r\<rparr>"

definition retractRequiresAdmin :: "existing_row \<Rightarrow> bool" where
  "retractRequiresAdmin e \<longleftrightarrow>
     ex_predicate e \<in> set RETRACT_ADMIN_PREDICATES \<or> fs_kind (ex_source e) = Some ''legal''"

datatype retract_error = FactNotFound | RetractForbidden

record retract_caller =
  rtc_ambient :: ambient
  rtc_scopes :: "string list option"
  rtc_lookup :: "string \<Rightarrow> predicate_policy"
  rtc_policy :: "policy_context option"
  rtc_idText :: "jval \<Rightarrow> string"
  rtc_sourceValue :: "fact_source \<Rightarrow> jval"

text \<open>What the row policy sees of the selected columns: neither trust nor corroboration.\<close>

definition existing_view :: "retract_caller \<Rightarrow> existing_row \<Rightarrow> fact_row" where
  "existing_view c e =
     \<lparr>fr_id = JStr (ex_id e), fr_predicate = ex_predicate e, fr_source = rtc_sourceValue c (ex_source e),
      fr_trust = JUndef, fr_corroboration = JUndef,
      fr_userId = (case ex_userId e of None \<Rightarrow> JUndef | Some u \<Rightarrow> JStr u)\<rparr>"

definition retract_visible :: "retract_caller \<Rightarrow> string list \<Rightarrow> existing_row \<Rightarrow> bool" where
  "retract_visible c scopes e =
     fst (filter_row (rtc_idText c) (rtc_lookup c) scopes (rtc_policy c) (existing_view c e) filter_init)"

definition normalizeFactId :: "string \<Rightarrow> string" where
  "normalizeFactId raw = (if starts_with ''knowledge_fact:'' raw then raw else ''knowledge_fact:'' @ raw)"

definition is_admin :: "retract_caller \<Rightarrow> bool" where
  "is_admin c \<longleftrightarrow> (case rtc_scopes c of None \<Rightarrow> False | Some ss \<Rightarrow> ''brain:admin'' \<in> set ss)"

text \<open>The checks before anything is written, in the order of the source.\<close>

definition retract_refusal :: "retract_caller \<Rightarrow> existing_row \<Rightarrow> retract_error option" where
  "retract_refusal c e =
     (let owner = (if truthy_str (ex_userId e) then ex_userId e else None);
          fence = (case pinUserScope (rtc_ambient c) None of
              Inl _ \<Rightarrow> Some RetractForbidden
            | Inr None \<Rightarrow> None
            | Inr (Some u) \<Rightarrow>
                if owner \<noteq> None \<and> owner \<noteq> Some u then Some FactNotFound
                else if owner = None \<and> \<not> is_admin c then Some RetractForbidden else None)
      in case fence of
           Some err \<Rightarrow> Some err
         | None \<Rightarrow>
             (case rtc_scopes c of
                None \<Rightarrow> None
              | Some scopes \<Rightarrow>
                  if \<not> retract_visible c scopes e then Some FactNotFound
                  else if retractRequiresAdmin e \<and> \<not> is_admin c then Some RetractForbidden
                  else None))"

section \<open>The cascade\<close>

definition derived_children :: "string list \<Rightarrow> fact_table \<Rightarrow> string list" where
  "derived_children parents tb =
     dedupe (map kf_id (filter (\<lambda>r. (\<exists>p \<in> set parents. p \<in> set (kf_derivedFrom r)) \<and> kf_retractedAt r = None) tb))"

definition retracted_row :: "string \<Rightarrow> string \<Rightarrow> int \<Rightarrow> int \<Rightarrow> knowledge_fact \<Rightarrow> knowledge_fact" where
  "retracted_row actor reason now until r =
     r\<lparr>kf_status := Retracted, kf_retractedAt := Some now, kf_retractedBy := Some actor,
       kf_retractionReason := Some reason, kf_validUntil := Some until\<rparr>"

definition retract_children :: "string list \<Rightarrow> string \<Rightarrow> int \<Rightarrow> fact_table \<Rightarrow> fact_table" where
  "retract_children children reason now =
     fold (\<lambda>i. fact_update i (retracted_row ''cascade'' (''parent retracted: '' @ reason) now now)) children"

definition unretracted :: "fact_table \<Rightarrow> nat" where
  "unretracted tb = length (filter (\<lambda>r. kf_retractedAt r = None) tb)"

lemma keeps_id_retracted [simp]: "keeps_id (retracted_row a b c d)"
  by (simp add: keeps_id_def retracted_row_def)

lemma unretracted_rows:
  assumes "list_all2 (\<lambda>r r'. kf_retractedAt r' = None \<longrightarrow> kf_retractedAt r = None) tb tb'"
  shows "unretracted tb' \<le> unretracted tb"
  using assms by (induction rule: list_all2_induct) (auto simp: unretracted_def)

lemma unretracted_less:
  assumes "list_all2 (\<lambda>r r'. kf_retractedAt r' = None \<longrightarrow> kf_retractedAt r = None) tb tb'"
    "\<exists>i < length tb. kf_retractedAt (tb ! i) = None \<and> kf_retractedAt (tb' ! i) \<noteq> None"
  shows "unretracted tb' < unretracted tb"
  using assms
proof (induction rule: list_all2_induct)
  case Nil
  then show ?case by simp
next
  case (Cons x xs y ys)
  show ?case
  proof (cases "kf_retractedAt x = None \<and> kf_retractedAt y \<noteq> None")
    case True
    with unretracted_rows [OF Cons.hyps(2)] show ?thesis by (auto simp: unretracted_def)
  next
    case False
    obtain i where i: "i < length (x # xs)" "kf_retractedAt ((x # xs) ! i) = None" "kf_retractedAt ((y # ys) ! i) \<noteq> None"
      using Cons.prems by blast
    with False obtain j where "i = Suc j" by (cases i) auto
    with i have "\<exists>j < length xs. kf_retractedAt (xs ! j) = None \<and> kf_retractedAt (ys ! j) \<noteq> None" by auto
    then have "unretracted ys < unretracted xs" by (rule Cons.IH)
    with Cons.hyps(1) show ?thesis by (auto simp: unretracted_def)
  qed
qed

text \<open>What retracting a level does to a row.\<close>

definition cascaded :: "string set \<Rightarrow> knowledge_fact \<Rightarrow> knowledge_fact \<Rightarrow> bool" where
  "cascaded ids r r' \<longleftrightarrow> kf_id r' = kf_id r \<and> kf_derivedFrom r' = kf_derivedFrom r \<and>
     (kf_id r \<in> ids \<longrightarrow> kf_retractedAt r' \<noteq> None \<and> kf_status r' = Retracted) \<and> (kf_id r \<notin> ids \<longrightarrow> eased r r')"

lemma eased_derived: "eased r r' \<Longrightarrow> kf_derivedFrom r' = kf_derivedFrom r"
  by (auto simp: eased_def)

lemma retract_children_rows: "list_all2 (cascaded (set children)) tb (retract_children children reason now tb)"
proof (induction children arbitrary: tb)
  case Nil
  show ?case by (simp add: retract_children_def cascaded_def list_all2_same)
next
  case (Cons i ids)
  let ?f = "retracted_row ''cascade'' (''parent retracted: '' @ reason) now now"
  have one: "list_all2 (row_step i ?f) tb (fact_update i ?f tb)" by (rule fact_update_steps) simp
  have "cascaded (set (i # ids)) r r''" if "row_step i ?f r r'" "cascaded (set ids) r' r''" for r r' r''
  proof (cases "kf_id r = i")
    case True
    then have r': "r' = ?f r" using that(1) by (simp add: row_step_def)
    then have "kf_retractedAt r' = Some now" "kf_status r' = Retracted" "kf_id r' = i" "kf_derivedFrom r' = kf_derivedFrom r" "\<not> standing_rival r'"
      using True by (simp_all add: retracted_row_def standing_rival_def)
    with that(2) True show ?thesis by (auto simp: cascaded_def eased_def)
  next
    case False
    then have "eased r r'" using that(1) by (simp add: row_step_def)
    with that(2) False show ?thesis
      using eased_fields(1) [of r r'] eased_derived [of r r'] eased_trans [of r r' r''] by (auto simp: cascaded_def)
  qed
  from list_all2_trans [OF this one Cons.IH [of "fact_update i ?f tb"]] show ?case
    by (simp add: retract_children_def)
qed

lemma eased_retracted: "eased r r' \<Longrightarrow> kf_retractedAt r' = kf_retractedAt r"
  by (rule eased_fields(8))

lemma retract_children_fewer:
  assumes "derived_children parents tb \<noteq> []"
  shows "unretracted (retract_children (derived_children parents tb) reason now tb) < unretracted tb"
proof -
  let ?ids = "derived_children parents tb"
  note rows = retract_children_rows [of ?ids tb reason now]
  have "list_all2 (\<lambda>r r'. kf_retractedAt r' = None \<longrightarrow> kf_retractedAt r = None) tb (retract_children ?ids reason now tb)"
    using rows by (rule list.rel_mono_strong) (auto simp: cascaded_def dest: eased_retracted)
  moreover obtain i where "i \<in> set ?ids" using assms by (cases ?ids) auto
  then obtain r where r: "r \<in> set tb" "kf_id r = i" "kf_retractedAt r = None" by (auto simp: derived_children_def)
  then obtain n where n: "n < length tb" "tb ! n = r" by (auto simp: in_set_conv_nth)
  have "cascaded (set ?ids) r (retract_children ?ids reason now tb ! n)"
    using rows n by (auto simp: list_all2_conv_all_nth)
  then have "kf_retractedAt (retract_children ?ids reason now tb ! n) \<noteq> None"
    using r(2) \<open>i \<in> set ?ids\<close> by (simp add: cascaded_def)
  ultimately show ?thesis using n r(3) by (intro unretracted_less) auto
qed

function cascade_retract :: "string list \<Rightarrow> string \<Rightarrow> int \<Rightarrow> fact_table \<Rightarrow> string list \<times> fact_table" where
  "cascade_retract parents reason now tb =
     (let children = derived_children parents tb; tb1 = retract_children children reason now tb
      in if children = [] then ([], tb1)
         else (case cascade_retract children reason now tb1 of (ids, tb2) \<Rightarrow> (children @ ids, tb2)))"
  by pat_completeness auto
termination
  by (relation "measure (\<lambda>(_, _, _, tb). unretracted tb)") (auto intro: retract_children_fewer)

declare cascade_retract.simps [simp del]

section \<open>Retracting a fact\<close>

definition revived_row :: "knowledge_fact \<Rightarrow> knowledge_fact" where
  "revived_row r =
     r\<lparr>kf_status := Active, kf_retractedAt := None, kf_retractedBy := None, kf_retractionReason := None,
       kf_supersededBy := None, kf_validUntil := kf_priorValidUntil r, kf_priorValidUntil := None\<rparr>"

definition revivable :: "string \<Rightarrow> knowledge_fact \<Rightarrow> bool" where
  "revivable i r \<longleftrightarrow> kf_supersededBy r = Some i \<and> kf_status r = Superseded \<and> kf_retractionReason r = Some ''superseded''"

definition reviveSupersededBy :: "string \<Rightarrow> fact_table \<Rightarrow> string list \<times> fact_table" where
  "reviveSupersededBy i tb =
     (map kf_id (filter (revivable i) tb), map (\<lambda>r. if revivable i r then revived_row r else r) tb)"

record retract_result =
  rr_factId :: string
  rr_retractedAt :: int
  rr_cascaded :: "string list"
  rr_revived :: "string list"

definition retract ::
  "retract_caller \<Rightarrow> string \<Rightarrow> string \<Rightarrow> string \<Rightarrow> int \<Rightarrow> fact_table \<Rightarrow> retract_error + retract_result \<times> fact_table"
where
  "retract c factId reason actor now tb =
     (let full = normalizeFactId factId in
      case row_of full tb of
        None \<Rightarrow> Inl FactNotFound
      | Some r \<Rightarrow>
          (let existing = select_existing r in
           case retract_refusal c existing of
             Some err \<Rightarrow> Inl err
           | None \<Rightarrow>
               (case ex_retractedAt existing of
                  Some t \<Rightarrow> Inr (\<lparr>rr_factId = ex_id existing, rr_retractedAt = t, rr_cascaded = [], rr_revived = []\<rparr>, tb)
                | None \<Rightarrow>
                    (let (children, tb1) = cascade_retract [ex_id existing] reason now tb;
                         until = (case ex_validUntil existing of None \<Rightarrow> now | Some u \<Rightarrow> u);
                         tb2 = fact_update full (retracted_row actor reason now until) tb1;
                         (revived, tb3) = reviveSupersededBy (ex_id existing) tb2
                     in Inr (\<lparr>rr_factId = ex_id existing, rr_retractedAt = now, rr_cascaded = children, rr_revived = revived\<rparr>, tb3)))))"

section \<open>What a retraction does\<close>

text \<open>The cascade retracts rows or leaves them, beyond ending disputes.\<close>

definition retracts :: "knowledge_fact \<Rightarrow> knowledge_fact \<Rightarrow> bool" where
  "retracts r r' \<longleftrightarrow> kf_id r' = kf_id r \<and> kf_derivedFrom r' = kf_derivedFrom r \<and>
     (eased r r' \<or> kf_retractedAt r' \<noteq> None \<and> kf_status r' = Retracted)"

lemma retracts_refl [simp]: "retracts r r" by (simp add: retracts_def)

lemma retracts_trans: "retracts r r' \<Longrightarrow> retracts r' r'' \<Longrightarrow> retracts r r''"
  using eased_trans [of r r' r''] by (auto simp: retracts_def eased_def [of r' r''] standing_rival_def)

lemma list_all2_retracts_trans: "list_all2 retracts a b \<Longrightarrow> list_all2 retracts b c \<Longrightarrow> list_all2 retracts a c"
  by (rule list_all2_trans [OF retracts_trans])

lemma cascaded_retracts: "cascaded ids r r' \<Longrightarrow> retracts r r'"
  by (auto simp: cascaded_def retracts_def)

lemma retracts_stays: "retracts r r' \<Longrightarrow> kf_retractedAt r \<noteq> None \<Longrightarrow> kf_retractedAt r' \<noteq> None"
  by (auto simp: retracts_def eased_fields(8))

lemma cascade_rows: "list_all2 retracts tb (snd (cascade_retract parents reason now tb))"
proof (induction parents reason now tb rule: cascade_retract.induct)
  case (1 parents reason now tb)
  let ?children = "derived_children parents tb"
  let ?tb1 = "retract_children ?children reason now tb"
  have one: "list_all2 retracts tb ?tb1"
    using retract_children_rows by (rule list.rel_mono_strong) (rule cascaded_retracts)
  show ?case
  proof (cases "?children = []")
    case True
    with one show ?thesis by (subst cascade_retract.simps) simp
  next
    case False
    from 1 [OF refl refl False] have "list_all2 retracts ?tb1 (snd (cascade_retract ?children reason now ?tb1))" .
    with one have "list_all2 retracts tb (snd (cascade_retract ?children reason now ?tb1))"
      by (rule list_all2_retracts_trans)
    with False show ?thesis by (subst cascade_retract.simps) (simp add: Let_def split_beta)
  qed
qed

definition derives_from :: "string set \<Rightarrow> knowledge_fact \<Rightarrow> bool" where
  "derives_from ids r \<longleftrightarrow> set (kf_derivedFrom r) \<inter> ids \<noteq> {}"

text \<open>Nothing that derives from a cascaded row is left standing.\<close>

lemma cascade_complete:
  "\<forall>r \<in> set (snd (cascade_retract parents reason now tb)).
     derives_from (set parents \<union> set (fst (cascade_retract parents reason now tb))) r \<longrightarrow> kf_retractedAt r \<noteq> None"
proof (induction parents reason now tb rule: cascade_retract.induct)
  case (1 parents reason now tb)
  let ?children = "derived_children parents tb"
  let ?tb1 = "retract_children ?children reason now tb"
  have level: "kf_retractedAt r' \<noteq> None" if r': "r' \<in> set ?tb1" "derives_from (set parents) r'" for r'
  proof -
    obtain r where r: "r \<in> set tb" "cascaded (set ?children) r r'"
      using list_all2_right [OF retract_children_rows r'(1)] by blast
    show ?thesis
    proof (cases "kf_retractedAt r = None")
      case True
      then have "kf_id r \<in> set ?children"
        using r r'(2) by (auto simp: derived_children_def derives_from_def cascaded_def)
      with r(2) show ?thesis by (simp add: cascaded_def)
    next
      case False
      with retracts_stays [OF cascaded_retracts [OF r(2)]] show ?thesis by simp
    qed
  qed
  show ?case
  proof (cases "?children = []")
    case True
    then have eq: "cascade_retract parents reason now tb = ([], ?tb1)" by (subst cascade_retract.simps) simp
    show ?thesis using level by (simp add: eq)
  next
    case False
    obtain ids tb2 where rec: "cascade_retract ?children reason now ?tb1 = (ids, tb2)" by fastforce
    have eq: "cascade_retract parents reason now tb = (?children @ ids, tb2)"
      using False rec by (subst cascade_retract.simps) (simp add: Let_def)
    have below: "\<forall>r \<in> set tb2. derives_from (set ?children \<union> set ids) r \<longrightarrow> kf_retractedAt r \<noteq> None"
      using 1 [OF refl refl False] by (simp add: rec)
    have "kf_retractedAt r \<noteq> None" if r: "r \<in> set tb2" "derives_from (set parents) r" for r
    proof -
      have "list_all2 retracts ?tb1 tb2" using cascade_rows [of ?tb1 ?children reason now] by (simp add: rec)
      from list_all2_right [OF this r(1)] obtain r1 where r1: "r1 \<in> set ?tb1" "retracts r1 r" by (elim bexE)
      then have "derives_from (set parents) r1" using r(2) by (simp add: derives_from_def retracts_def)
      from retracts_stays [OF r1(2) level [OF r1(1) this]] show ?thesis .
    qed
    then show ?thesis using below unfolding eq fst_conv snd_conv set_append derives_from_def Int_Un_distrib
      by blast
  qed
qed

lemma row_ofD: "row_of i tb = Some r \<Longrightarrow> kf_id r = i \<and> r \<in> set tb"
  by (auto simp: row_of_def find_Some_iff)

lemma retract_cases [consumes 1, case_names already fresh]:
  assumes "retract c factId reason actor now tb = Inr (res, tb')"
  obtains r t where "row_of (normalizeFactId factId) tb = Some r" "retract_refusal c (select_existing r) = None"
      "kf_retractedAt r = Some t" "tb' = tb"
  | r children tb1 where "row_of (normalizeFactId factId) tb = Some r" "retract_refusal c (select_existing r) = None"
      "kf_retractedAt r = None" "cascade_retract [kf_id r] reason now tb = (children, tb1)"
      "tb' = snd (reviveSupersededBy (kf_id r) (fact_update (kf_id r) (retracted_row actor reason now now) tb1))"
      "rr_cascaded res = children" "rr_factId res = kf_id r"
      "rr_revived res = fst (reviveSupersededBy (kf_id r) (fact_update (kf_id r) (retracted_row actor reason now now) tb1))"
proof -
  obtain r where r: "row_of (normalizeFactId factId) tb = Some r" "retract_refusal c (select_existing r) = None"
    using assms by (auto simp: retract_def Let_def split: option.splits)
  then have id: "normalizeFactId factId = kf_id r" using row_ofD by metis
  show thesis
  proof (cases "kf_retractedAt r")
    case (Some t)
    with assms r show thesis by (intro that(1) [of r t]) (auto simp: retract_def Let_def select_existing_def)
  next
    case None
    obtain children tb1 where c: "cascade_retract [kf_id r] reason now tb = (children, tb1)" by fastforce
    have ex: "ex_validUntil (select_existing r) = None" "ex_id (select_existing r) = kf_id r" "ex_retractedAt (select_existing r) = None"
      using None by (simp_all add: select_existing_def)
    from assms r None c id ex show thesis
      by (intro that(2) [of r children tb1]) (auto simp: retract_def Let_def split: prod.splits)
  qed
qed

lemma refusal_fence:
  assumes "retract_refusal c e = None" "ctx_field (rtc_ambient c) ctx_authUserId = Some u" "u \<noteq> []" "\<not> is_admin c"
  shows "ex_userId e = Some u"
proof -
  have "pinUserScope (rtc_ambient c) None = Inr (Some u)" using assms(2,3) by (simp add: pinUserScope_def)
  with assms(1,4) show ?thesis by (cases "truthy_str (ex_userId e)") (auto simp: retract_refusal_def Let_def split: if_splits)
qed

lemma refusal_admin:
  assumes "retract_refusal c e = None" "rtc_scopes c = Some ss" "\<not> is_admin c"
  shows "\<not> retractRequiresAdmin e"
  using assms by (auto simp: retract_refusal_def Let_def split: option.splits if_splits)

lemma refusal_visible: "retract_refusal c e = None \<Longrightarrow> rtc_scopes c = Some ss \<Longrightarrow> retract_visible c ss e"
  by (auto simp: retract_refusal_def Let_def split: sum.splits option.splits if_splits)

text \<open>C14: Who may retract.  The row a call of a caller with scopes and without \<open>brain:admin\<close> names and
  retracts is one the scope fence and the row policy let that caller see, is of the caller's own user
  where the caller is bound to one, and is no billing event, no human's declaration and not of a legal
  source.  The rows that derive from it go with it unchecked.\<close>

theorem retract_needs_authority:
  assumes "retract c factId reason actor now tb = Inr (res, tb')" "\<not> is_admin c" "rtc_scopes c = Some ss"
  shows "\<exists>r \<in> set tb. kf_id r = normalizeFactId factId \<and> retract_visible c ss (select_existing r) \<and>
    (\<forall>u. ctx_field (rtc_ambient c) ctx_authUserId = Some u \<longrightarrow> u \<noteq> [] \<longrightarrow> kf_userId r = Some u) \<and>
    kf_predicate r \<notin> set RETRACT_ADMIN_PREDICATES \<and> fs_kind (kf_source r) \<noteq> Some ''legal''"
proof -
  obtain r where r: "row_of (normalizeFactId factId) tb = Some r" "retract_refusal c (select_existing r) = None"
    using assms(1) by (cases rule: retract_cases) blast+
  have "\<not> retractRequiresAdmin (select_existing r)" by (rule refusal_admin [OF r(2) assms(3,2)])
  moreover have "kf_userId r = Some u" if "ctx_field (rtc_ambient c) ctx_authUserId = Some u" "u \<noteq> []" for u
    using refusal_fence [OF r(2) that assms(2)] by (simp add: select_existing_def)
  ultimately show ?thesis
    using row_ofD [OF r(1)] refusal_visible [OF r(2) assms(3)]
    by (intro bexI [of _ r]) (auto simp: retractRequiresAdmin_def select_existing_def)
qed

text \<open>The rows after a retraction that was carried out.\<close>

lemma retracted_table:
  assumes "r' \<in> set (snd (reviveSupersededBy i (fact_update i (retracted_row actor reason now now) tb)))"
  obtains r where "r \<in> set tb" "kf_id r \<noteq> i" "eased r r' \<and> \<not> revivable i r'"
  | r where "r \<in> set tb" "kf_id r = i" "kf_retractedAt r' \<noteq> None"
  | r where "r \<in> set tb" "revivable i r" "r' = revived_row r"
proof -
  let ?f = "retracted_row actor reason now now"
  obtain x where x: "x \<in> set (fact_update i ?f tb)" "r' = (if revivable i x then revived_row x else x)"
    using assms by (auto simp: reviveSupersededBy_def)
  have "list_all2 (row_step i ?f) tb (fact_update i ?f tb)" by (rule fact_update_steps) simp
  from list_all2_right [OF this x(1)] obtain r where r: "r \<in> set tb" "row_step i ?f r x" by (elim bexE)
  show thesis
  proof (cases "kf_id r = i")
    case True
    then have "x = ?f r" using r(2) by (simp add: row_step_def)
    then have "\<not> revivable i x" "kf_retractedAt x \<noteq> None" by (simp_all add: revivable_def retracted_row_def)
    with x(2) r(1) True show thesis by (intro that(2)) auto
  next
    case False
    then have e: "eased r x" using r(2) by (simp add: row_step_def)
    show thesis
    proof (cases "revivable i x")
      case True
      then have "kf_status x = Superseded" by (simp add: revivable_def)
      with e have "x = r" by (auto simp: eased_def)
      with True x(2) r(1) show thesis by (intro that(3)) auto
    next
      case no: False
      with x(2) e r(1) False show thesis by (intro that(1)) auto
    qed
  qed
qed

lemma retracts_revivable:
  assumes "retracts x0 x" "revivable i x"
  shows "x0 = x"
proof -
  have st: "kf_status x = Superseded" using assms(2) by (simp add: revivable_def)
  then have "eased x0 x" using assms(1) by (simp add: retracts_def)
  then show ?thesis using st by (auto simp: eased_def)
qed

text \<open>C16: The cascade is complete.  After a fact that still stood is retracted, every row that derives from
  it, or from any row the cascade retracted, is retracted too; the one exception is a row the fact itself
  had superseded and that already bore a retraction mark: the cascade passes it by and the revival clears
  its mark (\<open>revived_descendant\<close>).  The walk ends on every table, cyclic derivations included.\<close>

theorem retract_reaches_descendants:
  assumes "retract c factId reason actor now tb = Inr (res, tb')"
    and "\<And>r. r \<in> set tb \<Longrightarrow> kf_id r = normalizeFactId factId \<Longrightarrow> kf_retractedAt r = None"
    and "r' \<in> set tb'" "derives_from ({normalizeFactId factId} \<union> set (rr_cascaded res)) r'"
  shows "kf_retractedAt r' \<noteq> None \<or>
    (\<exists>r \<in> set tb. revivable (normalizeFactId factId) r \<and> kf_retractedAt r \<noteq> None \<and> r' = revived_row r)"
  using assms(1)
proof (cases rule: retract_cases)
  case (already r t)
  then show ?thesis using assms(2) row_ofD by fastforce
next
  case (fresh r children tb1)
  have id: "normalizeFactId factId = kf_id r" using row_ofD [OF fresh(1)] by simp
  have rows: "list_all2 retracts tb tb1" using cascade_rows [of tb "[kf_id r]" reason now] by (simp add: fresh(4))
  have gone: "kf_retractedAt x \<noteq> None" if "x \<in> set tb1" "derives_from ({kf_id r} \<union> set children) x" for x
    using cascade_complete [of "[kf_id r]" reason now tb] that by (auto simp: fresh(4))
  from assms(3) have "r' \<in> set (snd (reviveSupersededBy (kf_id r) (fact_update (kf_id r) (retracted_row actor reason now now) tb1)))"
    using fresh(5) by simp
  then show ?thesis
  proof (cases rule: retracted_table)
    case (1 x)
    then have "derives_from ({kf_id r} \<union> set children) x" "kf_retractedAt r' = kf_retractedAt x"
      using assms(4) fresh(6) id eased_derived [of x r'] eased_fields(8) [of x r'] by (auto simp: derives_from_def)
    with gone [OF 1(1)] show ?thesis by simp
  next
    case (2 x)
    then show ?thesis by simp
  next
    case (3 x)
    then have "derives_from ({kf_id r} \<union> set children) x"
      using assms(4) fresh(6) id by (simp add: derives_from_def revived_row_def)
    then have marked: "kf_retractedAt x \<noteq> None" by (rule gone [OF 3(1)])
    obtain x0 where x0: "x0 \<in> set tb" "retracts x0 x" using list_all2_right [OF rows 3(1)] by (elim bexE)
    have "x0 = x" by (rule retracts_revivable [OF x0(2) 3(2)])
    with x0(1) have "x \<in> set tb" by simp
    then show ?thesis by (intro disjI2 bexI [of _ x]) (simp_all add: id 3(2,3) marked)
  qed
qed

section \<open>Retracting undoes a supersession\<close>

definition never_closed :: "knowledge_fact \<Rightarrow> bool" where
  "never_closed r \<longleftrightarrow> kf_status r = Active \<and> kf_retractedAt r = None \<and> kf_retractedBy r = None \<and>
     kf_retractionReason r = None \<and> kf_supersededBy r = None \<and> kf_priorValidUntil r = None"

lemma revive_closed:
  "never_closed r \<Longrightarrow> revived_row (close_superseded actor i (kf_validUntil r) t r) = r"
  by (cases r) (simp add: never_closed_def revived_row_def close_superseded_def)

lemma revivable_closed: "revivable i (close_superseded actor i u t r)"
  by (simp add: revivable_def close_superseded_def)

definition closed_by :: "fact_write \<Rightarrow> string \<Rightarrow> string set \<Rightarrow> knowledge_fact \<Rightarrow> knowledge_fact \<Rightarrow> bool" where
  "closed_by w i ids r r' \<longleftrightarrow> (\<not> standing_rival r \<longrightarrow> r' =
     (if kf_id r \<in> ids then close_superseded ''system'' i (kf_validUntil r) (fw_validFrom w) r else r))"

lemma close_losers_rows:
  assumes "distinct (map kf_id losers)"
    and "\<And>l r. l \<in> set losers \<Longrightarrow> r \<in> set tb \<Longrightarrow> kf_id l = kf_id r \<Longrightarrow> kf_validUntil l = kf_validUntil r"
  shows "list_all2 (closed_by w i (kf_id ` set losers)) tb (close_losers w i losers tb)"
  using assms
proof (induction losers arbitrary: tb)
  case Nil
  show ?case by (simp add: close_losers_def closed_by_def list_all2_same)
next
  case (Cons l ls)
  let ?f = "close_superseded ''system'' i (kf_validUntil l) (fw_validFrom w)"
  let ?tb1 = "fact_update (kf_id l) ?f tb"
  have one: "list_all2 (row_step (kf_id l) ?f) tb ?tb1" by (rule fact_update_steps) simp
  have "kf_validUntil x = kf_validUntil r'" if x: "x \<in> set ls" "r' \<in> set ?tb1" "kf_id x = kf_id r'" for x r'
  proof -
    from list_all2_right [OF one x(2)] obtain r where r: "r \<in> set tb" "row_step (kf_id l) ?f r r'" by (elim bexE)
    have "kf_id r = kf_id r'" using r(2) by (auto simp: row_step_def close_superseded_def eased_fields(1) split: if_splits)
    moreover have "kf_id x \<noteq> kf_id l"
    proof
      assume "kf_id x = kf_id l"
      then have "kf_id l \<in> kf_id ` set ls" using imageI [OF x(1), of kf_id] by simp
      then show False using Cons.prems(1) by simp
    qed
    ultimately have "eased r r'" using r(2) x(3) by (simp add: row_step_def)
    with Cons.prems(2) [of x r] x r(1) \<open>kf_id r = kf_id r'\<close> show ?thesis by (simp add: eased_fields(7))
  qed
  then have rest: "list_all2 (closed_by w i (kf_id ` set ls)) ?tb1 (close_losers w i ls ?tb1)"
    using Cons.prems(1) by (intro Cons.IH) auto
  have step: "closed_by w i (kf_id ` set (l # ls)) r r''"
    if st: "row_step (kf_id l) ?f r r' \<and> r \<in> set tb" "closed_by w i (kf_id ` set ls) r' r''" for r r' r''
  proof (cases "kf_id r = kf_id l")
    case True
    then have "r' = ?f r" "kf_validUntil l = kf_validUntil r" using st(1) Cons.prems(2) [of l r] by (simp_all add: row_step_def)
    moreover have "kf_id l \<notin> kf_id ` set ls" using Cons.prems(1) by simp
    ultimately show ?thesis using st(2) True by (auto simp: closed_by_def close_superseded_def standing_rival_def)
  next
    case False
    then have "eased r r'" using st(1) by (simp add: row_step_def)
    then have "\<not> standing_rival r \<longrightarrow> r' = r" by (auto simp: eased_def)
    with st(2) False show ?thesis by (auto simp: closed_by_def)
  qed
  have "list_all2 (\<lambda>r r'. row_step (kf_id l) ?f r r' \<and> r \<in> set tb) tb ?tb1"
    using one by (rule list.rel_mono_strong) simp
  from list_all2_trans [OF step this rest]
  have "list_all2 (closed_by w i (kf_id ` set (l # ls))) tb (close_losers w i ls ?tb1)" .
  then show ?case by (simp add: close_losers_def)
qed

text \<open>The rows after a supersession: the clean ones are unchanged, or closed at the winner's start.\<close>

lemma settle_closes:
  assumes d: "distinct (map kf_id tb)" "se_newId env \<notin> set (map kf_id tb)" and s: "settle_fact env w tb = (res, tb')"
    and o: "sr_outcome res = SUPERSEDED" and sem: "fw_semantics w \<noteq> bitemporal_event"
    and r: "r \<in> set tb" "never_closed r"
  obtains r' where "r' \<in> set tb'"
    "r' = r \<or> r' = close_superseded ''system'' (se_newId env) (kf_validUntil r) (fw_validFrom w) r"
  using s
proof (cases rule: settle_cases)
  case (superseded tr)
  let ?losers = "closed_values w (pool_of env w tb)" and ?n = "se_newId env"
  let ?t = "close_losers w ?n ?losers (with_new env w tb)"
  have tb': "tb' = fact_update ?n (\<lambda>r. r\<lparr>kf_trace := tr\<rparr>) ?t"
    using superseded(7) sem by (simp add: set_status_def day_peers_def)
  have losers: "l \<in> set tb" if "l \<in> set ?losers" for l
    using pool_row [OF candidate_closed_values [OF that]] by simp
  have "distinct (map kf_id (pool_of env w tb))"
    using d(1) by (auto simp: slot_pool_def fact_candidates_def distinct_map_filter split: semantics.splits)
  then have dl: "distinct (map kf_id ?losers)"
    by (auto simp: closed_values_def distinct_map_filter split: semantics.splits)
  have "kf_validUntil l = kf_validUntil x" if "l \<in> set ?losers" "x \<in> set (with_new env w tb)" "kf_id l = kf_id x" for l x
    using row_by_id [OF with_new_distinct [OF d, of w], of l x] losers [OF that(1)] that(2,3) by simp
  then have rows: "list_all2 (closed_by w ?n (kf_id ` set ?losers)) (with_new env w tb) ?t"
    by (rule close_losers_rows [OF dl])
  have "\<not> standing_rival r" using r(2) by (simp add: never_closed_def standing_rival_def)
  moreover have "r \<in> set (with_new env w tb)" using r(1) by simp
  ultimately obtain x where x: "x \<in> set ?t"
      "x = (if kf_id r \<in> kf_id ` set ?losers then close_superseded ''system'' ?n (kf_validUntil r) (fw_validFrom w) r else r)"
    using list_all2_left [OF rows] unfolding closed_by_def by blast
  then have x': "\<not> standing_rival x" "kf_id x = kf_id r"
    using \<open>\<not> standing_rival r\<close> by (auto simp: close_superseded_def standing_rival_def)
  have ne: "kf_id r \<noteq> ?n" using imageI [OF r(1), of kf_id] d(2) by auto
  have "list_all2 (row_step ?n (\<lambda>r. r\<lparr>kf_trace := tr\<rparr>)) ?t tb'" unfolding tb' by (rule fact_update_steps) simp
  from list_all2_left [OF this x(1)] obtain y where "y \<in> set tb'" "row_step ?n (\<lambda>r. r\<lparr>kf_trace := tr\<rparr>) x y" by (elim bexE)
  then have "y \<in> set tb'" "y = x" using x' ne by (auto simp: row_step_def eased_def)
  then show thesis using x(2) by (intro that [of y]) (auto split: if_splits)
qed (use o in \<open>simp_all add: settle_out_def\<close>)

text \<open>C13: Round trip.  When settling a new fact (of any semantics but the event-dated one of derived
  worlds) has superseded other values and nothing derives from it, retracting it right away puts every row
  of the table that was active and had never been closed back exactly as it was, its own end included.\<close>

theorem retract_undoes_supersession:
  assumes d: "distinct (map kf_id tb)" "se_newId env \<notin> set (map kf_id tb)"
    and s: "settle_fact env w tb = (res, tb')" "sr_outcome res = SUPERSEDED" "fw_semantics w \<noteq> bitemporal_event"
    and e: "\<forall>r \<in> set tb'. se_newId env \<notin> set (kf_derivedFrom r)"
    and t: "retract c (se_newId env) reason actor now tb' = Inr (res', tb'')"
    and i: "normalizeFactId (se_newId env) = se_newId env" "\<forall>r \<in> set tb'. kf_id r = se_newId env \<longrightarrow> kf_retractedAt r = None"
    and r: "r \<in> set tb" "never_closed r"
  shows "r \<in> set tb''"
proof -
  let ?n = "se_newId env"
  obtain r' where r': "r' \<in> set tb'" "r' = r \<or> r' = close_superseded ''system'' ?n (kf_validUntil r) (fw_validFrom w) r"
    by (rule settle_closes [OF d s r])
  from t show ?thesis
  proof (cases rule: retract_cases)
    case (already x u)
    with i row_ofD show ?thesis by fastforce
  next
    case (fresh x children tb1)
    have x: "kf_id x = ?n" using row_ofD [OF fresh(1)] i(1) by simp
    have "derived_children [?n] tb' = []" using e by (auto simp: derived_children_def filter_empty_conv)
    then have "cascade_retract [?n] reason now tb' = ([], tb')"
      by (subst cascade_retract.simps) (simp add: retract_children_def)
    then have tb1: "tb1 = tb'" using fresh(4) x by simp
    have "kf_id r \<in> set (map kf_id tb)" using r(1) by simp
    then have "kf_id r \<noteq> ?n" using d(2) by metis
    then have ne: "kf_id r' \<noteq> ?n" using r'(2) by (auto simp: close_superseded_def)
    have "\<not> standing_rival r'" using r'(2) r(2) by (auto simp: never_closed_def standing_rival_def close_superseded_def)
    have "list_all2 (row_step ?n (retracted_row actor reason now now)) tb' (fact_update ?n (retracted_row actor reason now now) tb')"
      by (rule fact_update_steps) simp
    from list_all2_left [OF this r'(1)] obtain y where y: "y \<in> set (fact_update ?n (retracted_row actor reason now now) tb')"
      "row_step ?n (retracted_row actor reason now now) r' y" by (elim bexE)
    then have "y = r'" using ne \<open>\<not> standing_rival r'\<close> by (auto simp: row_step_def eased_def)
    then have "(if revivable ?n r' then revived_row r' else r') \<in> set tb''"
      using y(1) fresh(5) x tb1 by (auto simp: reviveSupersededBy_def)
    moreover have "(if revivable ?n r' then revived_row r' else r') = r"
      using r'(2)
    proof
      assume "r' = r"
      with r(2) show ?thesis by (simp add: revivable_def never_closed_def)
    next
      assume "r' = close_superseded ''system'' ?n (kf_validUntil r) (fw_validFrom w) r"
      with r(2) show ?thesis by (simp add: revivable_closed revive_closed)
    qed
    ultimately show ?thesis by simp
  qed
qed

section \<open>Samples\<close>

definition sample_write :: fact_write where
  "sample_write =
     \<lparr>fw_entity = ''e'', fw_predicate = ''plan'', fw_object = ''B'', fw_objectMeta = None, fw_embedding = [1],
      fw_confidence = 1, fw_validFrom = 20, fw_validUntil = None, fw_source = no_source, fw_sourceTrust = 1,
      fw_semantics = single_active, fw_similarity = 1, fw_slotSimilarity = None, fw_lang = None, fw_script = None,
      fw_entropy = None, fw_userId = None, fw_derivedVersion = None, fw_alias = None, fw_circles = []\<rparr>"

definition sample_settle :: settle_env where
  "sample_settle = \<lparr>se_newId = ''knowledge_fact:new'', se_now = 20, se_cosine = (\<lambda>_ _. 1), se_learned = (\<lambda>_ _. 0),
     se_authority = (\<lambda>_. None), se_created = True\<rparr>"

definition old_row :: knowledge_fact where
  "old_row = plain_fact ''knowledge_fact:old'' ''A'' 10"

definition open_caller :: retract_caller where
  "open_caller = \<lparr>rtc_ambient = \<lparr>amb_ctx = None, amb_job = None, amb_write = None, amb_env = (\<lambda>_. None)\<rparr>,
     rtc_scopes = None, rtc_lookup = (\<lambda>_. \<lparr>pp_requiresScope = None, pp_piiClass = ''none''\<rparr>), rtc_policy = None,
     rtc_idText = (\<lambda>_. []), rtc_sourceValue = (\<lambda>_. JNull)\<rparr>"

definition closed_row :: knowledge_fact where
  "closed_row = close_superseded ''system'' ''knowledge_fact:new'' None 20 old_row"

definition new_row :: knowledge_fact where
  "new_row = (created_fact sample_settle sample_write)\<lparr>kf_trace := \<lparr>ct_decidedBy = Some ''valid_time'',
     ct_superseded = [''knowledge_fact:old''], ct_competing = [], ct_bestOpponent = Some ''knowledge_fact:old'',
     ct_decidedAt = Some 20\<rparr>\<rparr>"

lemmas retract_samples = sample_write_def sample_settle_def old_row_def plain_fact_def no_source_def no_trace_def

lemma settle_on_one:
  assumes slot: "slot_of r = write_slot w" and r: "kf_status r = Active" "kf_retractedAt r = None" "kf_object r \<noteq> fw_object w"
      "kf_validFrom r < fw_validFrom w" "kf_validUntil r = None" "kf_id r \<noteq> se_newId env"
    and w: "fw_validUntil w = None" "fw_semantics w = single_active" "se_created env"
  shows "settle_fact env w [r] =
     ((settle_out SUPERSEDED (Some (se_newId env)) (Some ''valid_time''))
        \<lparr>sr_supersededFactIds := [kf_id r], sr_bestOpponentId := Some (kf_id r)\<rparr>,
      [close_superseded ''system'' (se_newId env) None (fw_validFrom w) r,
       (created_fact env w)\<lparr>kf_trace := \<lparr>ct_decidedBy = Some ''valid_time'', ct_superseded = [kf_id r], ct_competing = [],
          ct_bestOpponent = Some (kf_id r), ct_decidedAt = Some (se_now env)\<rparr>\<rparr>])"
proof -
  let ?n = "created_fact env w" and ?i = "se_newId env" and ?c = "close_superseded ''system'' (se_newId env) None (fw_validFrom w) r"
  have cands: "fact_candidates w [r] = [r]" using slot r(1,2) by (simp add: fact_candidates_def fact_open_def)
  have pool: "slot_pool env w [r] = [r]"
    using r(5) w(1,2) by (simp add: slot_pool_def overlaps_write_def intervals_overlap_def)
  have parts: "closed_values w [r] = [r]" "day_peers w [r] = []" "next_after w [r] = None" "ended_value w [r] = None"
    using r(4) w by (simp_all add: closed_values_def day_peers_def next_after_def order_first_def ended_value_def)
  have ids: "kf_id ?n = ?i" "kf_status ?n = Active" "kf_id ?c = kf_id r" "kf_status ?c = Superseded"
    by (simp_all add: created_fact_def Let_def close_superseded_def)
  have lose: "close_losers w ?i [r] [r, ?n] = [?c, ?n]"
    using r(1,5,6) ids by (simp add: close_losers_def fact_update_def fact_set_def)
  have trace: "fact_update ?i (\<lambda>r. r\<lparr>kf_trace := tr\<rparr>) [?c, ?n] = [?c, ?n\<lparr>kf_trace := tr\<rparr>]" for tr
    using r(6) ids by (simp add: fact_update_def fact_set_def)
  show ?thesis using r(3) w(2,3)
    by (simp add: settle_fact_def Let_def cands pool parts order_first_def settle_succession_def lose trace settle_out_def)
qed

lemma sample_settled:
  "settle_fact sample_settle sample_write [old_row] =
     ((settle_out SUPERSEDED (Some ''knowledge_fact:new'') (Some ''valid_time''))
        \<lparr>sr_supersededFactIds := [''knowledge_fact:old''], sr_bestOpponentId := Some ''knowledge_fact:old''\<rparr>,
      [closed_row, new_row])"
proof -
  have "slot_of old_row = write_slot sample_write"
    by (simp add: slot_of_def write_slot_def canonical_predicate_def retract_samples)
  from settle_on_one [OF this, of sample_settle] show ?thesis
    by (simp add: closed_row_def new_row_def retract_samples)
qed

lemma sample_cascade: "cascade_retract [''knowledge_fact:new''] ''wrong'' 50 [closed_row, new_row] = ([], [closed_row, new_row])"
  by (subst cascade_retract.simps)
    (simp add: derived_children_def retract_children_def closed_row_def close_superseded_def new_row_def created_fact_def
      Let_def retract_samples)

lemma sample_retracted:
  "retract open_caller ''knowledge_fact:new'' ''wrong'' ''op'' 50 [closed_row, new_row] =
     Inr (\<lparr>rr_factId = ''knowledge_fact:new'', rr_retractedAt = 50, rr_cascaded = [], rr_revived = [''knowledge_fact:old'']\<rparr>,
       [old_row, retracted_row ''op'' ''wrong'' 50 50 new_row])"
proof -
  have ids: "kf_id closed_row = ''knowledge_fact:old''" "kf_id new_row = ''knowledge_fact:new''" "kf_retractedAt new_row = None"
    "kf_status new_row = Active"
    by (simp_all add: closed_row_def close_superseded_def new_row_def created_fact_def Let_def retract_samples)
  have "retract_refusal open_caller (select_existing new_row) = None"
    by (simp add: retract_refusal_def pinUserScope_def open_caller_def ctx_field_def Let_def)
  moreover have "fact_update ''knowledge_fact:new'' (retracted_row ''op'' ''wrong'' 50 50) [closed_row, new_row] =
      [closed_row, retracted_row ''op'' ''wrong'' 50 50 new_row]"
    by (simp add: fact_update_def fact_set_def ids)
  moreover have "reviveSupersededBy ''knowledge_fact:new'' [closed_row, retracted_row ''op'' ''wrong'' 50 50 new_row] =
      ([''knowledge_fact:old''], [old_row, retracted_row ''op'' ''wrong'' 50 50 new_row])"
    by (simp add: reviveSupersededBy_def revivable_def ids closed_row_def close_superseded_def retracted_row_def revived_row_def
        retract_samples)
  ultimately show ?thesis
    by (simp add: retract_def normalizeFactId_def row_of_def select_existing_def ids sample_cascade)
qed

theorem retract_undoes_supersession_witness:
  "retract open_caller ''knowledge_fact:new'' ''wrong'' ''op'' 50 (snd (settle_fact sample_settle sample_write [old_row])) =
     Inr (\<lparr>rr_factId = ''knowledge_fact:new'', rr_retractedAt = 50, rr_cascaded = [], rr_revived = [''knowledge_fact:old'']\<rparr>,
       [old_row, retracted_row ''op'' ''wrong'' 50 50 new_row]) \<and>
   old_row \<in> {old_row, retracted_row ''op'' ''wrong'' 50 50 new_row}"
proof -
  let ?res = "(settle_out SUPERSEDED (Some ''knowledge_fact:new'') (Some ''valid_time''))
      \<lparr>sr_supersededFactIds := [''knowledge_fact:old''], sr_bestOpponentId := Some ''knowledge_fact:old''\<rparr>"
  have env: "se_newId sample_settle = ''knowledge_fact:new''" by (simp add: sample_settle_def)
  have "distinct (map kf_id [old_row])" "se_newId sample_settle \<notin> set (map kf_id [old_row])"
    by (simp_all add: retract_samples)
  moreover have "sr_outcome ?res = SUPERSEDED" by (simp add: settle_out_def)
  moreover have "fw_semantics sample_write \<noteq> bitemporal_event" by (simp add: sample_write_def)
  moreover have "\<forall>r \<in> set [closed_row, new_row]. se_newId sample_settle \<notin> set (kf_derivedFrom r)"
    by (simp add: closed_row_def close_superseded_def new_row_def created_fact_def Let_def retract_samples)
  moreover have "normalizeFactId (se_newId sample_settle) = se_newId sample_settle" by (simp add: env normalizeFactId_def)
  moreover have "\<forall>r \<in> set [closed_row, new_row]. kf_id r = se_newId sample_settle \<longrightarrow> kf_retractedAt r = None"
    by (simp add: closed_row_def close_superseded_def new_row_def created_fact_def Let_def retract_samples)
  moreover have "old_row \<in> set [old_row]" "never_closed old_row" by (simp_all add: never_closed_def retract_samples)
  ultimately have "old_row \<in> set [old_row, retracted_row ''op'' ''wrong'' 50 50 new_row]"
    using retract_undoes_supersession [OF _ _ sample_settled _ _ _ sample_retracted [folded env]] by blast
  then show ?thesis by (simp add: sample_settled sample_retracted)
qed

text \<open>A user's own row, retracted by the user's token.\<close>

definition own_row :: knowledge_fact where
  "own_row = old_row\<lparr>kf_userId := Some ''u''\<rparr>"

definition bound_caller :: retract_caller where
  "bound_caller = open_caller\<lparr>rtc_scopes := Some [''brain:write''],
     rtc_ambient := \<lparr>amb_ctx = Some \<lparr>ctx_authUserId = Some ''u'', ctx_actingCircle = None, ctx_scopeTags = None\<rparr>,
       amb_job = None, amb_write = None, amb_env = (\<lambda>_. None)\<rparr>\<rparr>"

lemma bound_retracted:
  "retract bound_caller ''old'' ''wrong'' ''op'' 50 [own_row] =
     Inr (\<lparr>rr_factId = ''knowledge_fact:old'', rr_retractedAt = 50, rr_cascaded = [], rr_revived = []\<rparr>,
       [retracted_row ''op'' ''wrong'' 50 50 own_row])"
proof -
  have ids: "kf_id own_row = ''knowledge_fact:old''" "kf_retractedAt own_row = None" "kf_status own_row = Active"
    by (simp_all add: own_row_def retract_samples)
  have cascade: "cascade_retract [''knowledge_fact:old''] ''wrong'' 50 [own_row] = ([], [own_row])"
    by (subst cascade_retract.simps) (simp add: derived_children_def retract_children_def own_row_def retract_samples)
  have "retract_refusal bound_caller (select_existing own_row) = None"
    by (simp add: retract_refusal_def pinUserScope_def bound_caller_def open_caller_def ctx_field_def Let_def
        retract_visible_def filter_row_def scope_blocked_def existing_view_def select_existing_def own_row_def
        retractRequiresAdmin_def RETRACT_ADMIN_PREDICATES_def retract_samples)
  moreover have "fact_update ''knowledge_fact:old'' (retracted_row ''op'' ''wrong'' 50 50) [own_row] =
      [retracted_row ''op'' ''wrong'' 50 50 own_row]"
    by (simp add: fact_update_def fact_set_def ids)
  moreover have "reviveSupersededBy ''knowledge_fact:old'' [retracted_row ''op'' ''wrong'' 50 50 own_row] =
      ([], [retracted_row ''op'' ''wrong'' 50 50 own_row])"
    by (simp add: reviveSupersededBy_def revivable_def retracted_row_def)
  ultimately show ?thesis
    by (simp add: retract_def normalizeFactId_def row_of_def select_existing_def ids cascade)
qed

theorem retract_needs_authority_witness:
  "\<exists>r \<in> {own_row}. kf_id r = ''knowledge_fact:old'' \<and> kf_userId r = Some ''u''"
proof -
  have "\<not> is_admin bound_caller" "rtc_scopes bound_caller = Some [''brain:write'']"
    "ctx_field (rtc_ambient bound_caller) ctx_authUserId = Some ''u''"
    by (simp_all add: is_admin_def bound_caller_def ctx_field_def)
  from retract_needs_authority [OF bound_retracted this(1,2)] this(3) show ?thesis
    by (auto simp: normalizeFactId_def)
qed

text \<open>A row derived from a retracted one.\<close>

definition child_row :: knowledge_fact where
  "child_row = (plain_fact ''knowledge_fact:child'' ''C'' 15)\<lparr>kf_derivedFrom := [''knowledge_fact:old'']\<rparr>"

lemma sample_descent:
  "retract open_caller ''knowledge_fact:old'' ''wrong'' ''op'' 50 [old_row, child_row] =
     Inr (\<lparr>rr_factId = ''knowledge_fact:old'', rr_retractedAt = 50, rr_cascaded = [''knowledge_fact:child''], rr_revived = []\<rparr>,
       [retracted_row ''op'' ''wrong'' 50 50 old_row,
        retracted_row ''cascade'' ''parent retracted: wrong'' 50 50 child_row])"
proof -
  let ?c = "retracted_row ''cascade'' ''parent retracted: wrong'' 50 50 child_row"
  have ids: "kf_id old_row = ''knowledge_fact:old''" "kf_retractedAt old_row = None" "kf_status old_row = Active"
    "kf_id child_row = ''knowledge_fact:child''" "kf_status child_row = Active" "kf_id ?c = ''knowledge_fact:child''"
    by (simp_all add: child_row_def retracted_row_def retract_samples)
  have level: "derived_children [''knowledge_fact:old''] [old_row, child_row] = [''knowledge_fact:child'']"
    "derived_children [''knowledge_fact:child''] [old_row, ?c] = []"
    by (simp_all add: derived_children_def child_row_def retracted_row_def retract_samples dedupe_def)
  have child: "retract_children [''knowledge_fact:child''] ''wrong'' 50 [old_row, child_row] = [old_row, ?c]"
    by (simp add: retract_children_def fact_update_def fact_set_def ids)
  have "cascade_retract [''knowledge_fact:child''] ''wrong'' 50 [old_row, ?c] = ([], [old_row, ?c])"
    by (subst cascade_retract.simps) (simp add: level retract_children_def)
  then have cascade: "cascade_retract [''knowledge_fact:old''] ''wrong'' 50 [old_row, child_row] = ([''knowledge_fact:child''], [old_row, ?c])"
    by (subst cascade_retract.simps) (simp add: level child)
  have "retract_refusal open_caller (select_existing old_row) = None"
    by (simp add: retract_refusal_def pinUserScope_def open_caller_def ctx_field_def Let_def)
  moreover have "fact_update ''knowledge_fact:old'' (retracted_row ''op'' ''wrong'' 50 50) [old_row, ?c] =
      [retracted_row ''op'' ''wrong'' 50 50 old_row, ?c]"
    by (simp add: fact_update_def fact_set_def ids)
  moreover have "reviveSupersededBy ''knowledge_fact:old'' [retracted_row ''op'' ''wrong'' 50 50 old_row, ?c] =
      ([], [retracted_row ''op'' ''wrong'' 50 50 old_row, ?c])"
    by (simp add: reviveSupersededBy_def revivable_def retracted_row_def)
  ultimately show ?thesis
    by (simp add: retract_def normalizeFactId_def row_of_def select_existing_def ids cascade)
qed

theorem retract_reaches_descendants_witness:
  "\<not> (\<exists>r \<in> {old_row, child_row}. revivable (normalizeFactId ''knowledge_fact:old'') r) \<and>
   kf_retractedAt (retracted_row ''cascade'' ''parent retracted: wrong'' 50 50 child_row) \<noteq> None"
proof -
  let ?c = "retracted_row ''cascade'' ''parent retracted: wrong'' 50 50 child_row"
  have none: "\<not> (\<exists>r \<in> {old_row, child_row}. revivable (normalizeFactId ''knowledge_fact:old'') r)"
    by (simp add: revivable_def child_row_def retract_samples)
  have "kf_retractedAt ?c \<noteq> None \<or> (\<exists>r \<in> set [old_row, child_row]. revivable (normalizeFactId ''knowledge_fact:old'') r \<and>
      kf_retractedAt r \<noteq> None \<and> ?c = revived_row r)"
  proof (rule retract_reaches_descendants [OF sample_descent])
    show "kf_retractedAt r = None" if "r \<in> set [old_row, child_row]" for r
      using that by (auto simp: child_row_def retract_samples)
  qed (simp_all add: derives_from_def normalizeFactId_def retracted_row_def child_row_def)
  with none show ?thesis by auto
qed

section \<open>What retraction does not do\<close>

text \<open>A consolidation supersedes rows with a retraction mark.  Such a row, when it also derives from the
  fact that superseded it, is passed by when that fact is retracted, and the revival makes it active.\<close>

definition consolidated_child :: knowledge_fact where
  "consolidated_child = (plain_fact ''knowledge_fact:child'' ''C'' 10)\<lparr>kf_derivedFrom := [''knowledge_fact:old''],
     kf_status := Superseded, kf_retractedAt := Some 5, kf_retractionReason := Some ''superseded'',
     kf_supersededBy := Some ''knowledge_fact:old''\<rparr>"

lemma revived_descendant:
  "map (\<lambda>r. (kf_id r, kf_status r, kf_retractedAt r))
     (snd (reviveSupersededBy ''knowledge_fact:old''
        (fact_update ''knowledge_fact:old'' (retracted_row ''op'' ''wrong'' 50 50)
           (snd (cascade_retract [''knowledge_fact:old''] ''wrong'' 50 [old_row, consolidated_child])))))
   = [(''knowledge_fact:old'', Retracted, Some 50), (''knowledge_fact:child'', Active, None)]"
proof -
  have "cascade_retract [''knowledge_fact:old''] ''wrong'' 50 [old_row, consolidated_child] = ([], [old_row, consolidated_child])"
    by (subst cascade_retract.simps)
      (simp add: derived_children_def retract_children_def consolidated_child_def retract_samples)
  then show ?thesis
    by (simp add: reviveSupersededBy_def revivable_def revived_row_def retracted_row_def fact_update_def fact_set_def
        consolidated_child_def retract_samples)
qed

text \<open>The earlier end of a value is lost: \<open>existing.validUntil ?? now\<close> reads a column that was not
  selected, so a value that ended at 30 is said to have held until it was retracted at 50.\<close>

definition brief_row :: knowledge_fact where
  "brief_row = old_row\<lparr>kf_validUntil := Some 30\<rparr>"

lemma retract_forgets_the_end:
  "\<exists>res. retract open_caller ''old'' ''wrong'' ''op'' 50 [brief_row] =
     Inr (res, [retracted_row ''op'' ''wrong'' 50 50 brief_row])"
proof -
  have ids: "kf_id brief_row = ''knowledge_fact:old''" "kf_retractedAt brief_row = None" "kf_status brief_row = Active" "kf_derivedFrom brief_row = []"
    by (simp_all add: brief_row_def retract_samples)
  have "cascade_retract [''knowledge_fact:old''] ''wrong'' 50 [brief_row] = ([], [brief_row])"
    by (subst cascade_retract.simps) (simp add: derived_children_def retract_children_def ids)
  moreover have "retract_refusal open_caller (select_existing brief_row) = None"
    by (simp add: retract_refusal_def pinUserScope_def open_caller_def ctx_field_def Let_def)
  moreover have "fact_update ''knowledge_fact:old'' (retracted_row ''op'' ''wrong'' 50 50) [brief_row] = [retracted_row ''op'' ''wrong'' 50 50 brief_row]"
    by (simp add: fact_update_def fact_set_def ids)
  moreover have "reviveSupersededBy ''knowledge_fact:old'' [retracted_row ''op'' ''wrong'' 50 50 brief_row] =
      ([], [retracted_row ''op'' ''wrong'' 50 50 brief_row])"
    by (simp add: reviveSupersededBy_def revivable_def retracted_row_def)
  ultimately show ?thesis
    by (simp add: retract_def normalizeFactId_def row_of_def select_existing_def ids Let_def)
qed

text \<open>Reviving what a retracted value had superseded does not ask whether the slot has a value by now:
  with a later value standing, two active values of one slot overlap.\<close>

definition later_row :: knowledge_fact where "later_row = plain_fact ''knowledge_fact:later'' ''C'' 30"

lemma revived_beside_the_later_value:
  defines "tb \<equiv> [old_row\<lparr>kf_status := Superseded, kf_retractionReason := Some ''superseded'',
      kf_supersededBy := Some ''knowledge_fact:middle'', kf_validUntil := Some 20\<rparr>, later_row]"
  shows "snd (reviveSupersededBy ''knowledge_fact:middle'' tb) = [old_row, later_row] \<and>
    fact_open old_row \<and> fact_open later_row \<and> slot_of old_row = slot_of later_row \<and> rows_overlap old_row later_row"
  by (simp add: tb_def reviveSupersededBy_def revivable_def revived_row_def later_row_def fact_open_def slot_of_def
      canonical_predicate_def rows_overlap_def intervals_overlap_def retract_samples)

text \<open>No scope tag is asked: a tenant-wide caller acting in one circle retracts another circle's row,
  which the read fence hides from it.\<close>

definition circle_caller :: retract_caller where
  "circle_caller = open_caller\<lparr>rtc_scopes := Some [''brain:write''],
     rtc_ambient := \<lparr>amb_ctx = None, amb_job = Some [''circle:b''], amb_write = None, amb_env = (\<lambda>_. None)\<rparr>\<rparr>"

lemma retract_crosses_circles:
  "retract_refusal circle_caller (select_existing (old_row\<lparr>kf_scope := [''circle:a'']\<rparr>)) = None \<and>
   \<not> visibleUnderScope (rtc_ambient circle_caller) [''circle:a''] (principalScopeTags (rtc_ambient circle_caller))"
  by (simp add: retract_refusal_def pinUserScope_def circle_caller_def open_caller_def ctx_field_def Let_def
      retract_visible_def filter_row_def scope_blocked_def existing_view_def select_existing_def
      retractRequiresAdmin_def RETRACT_ADMIN_PREDICATES_def retract_samples visibleUnderScope.simps
      principalScopeTags_def actingCircleTags_def circleTagsOf_def isCircleTag_def CIRCLE_NAMESPACE_def)

end
