(* ===== verification/FactResolver.thy ===== *)
theory FactResolver imports FactRetract begin

text \<open>
  The write primitive of facts (\<open>src/ingest/fact-resolver.service.ts\<close>): which semantics a write
  resolves under, the slot it is rerouted to, the group tags it resolves among, the arguments of the
  stored function, the scope stamp, the supersession an extractor names, and the derived-world and
  batched entries.  The predicate registry, the detector of languages and the embedder are arguments.

  Not modelled of the tail after a write: metrics and traces, the follow-up statements on columns nothing
  here reads (language attribution, grounding, expectations, names of entities), the retries on
  conflicting transactions.
\<close>

section \<open>Semantics\<close>

definition VALUE_BEARING_ASPECTS :: "string list" where
  "VALUE_BEARING_ASPECTS =
     [''identity'', ''residence'', ''work'', ''education'', ''health'', ''possessions'', ''preferences'']"

definition derivedSemanticsFor :: "string \<Rightarrow> bool \<Rightarrow> semantics" where
  "derivedSemanticsFor aspect slotSemantics =
     (if slotSemantics \<and> aspect \<in> set VALUE_BEARING_ASPECTS then bitemporal_event else append_only)"

definition SLOT_EXACT_SIMILARITY_FLOOR :: rat where
  "SLOT_EXACT_SIMILARITY_FLOOR = - 1"

type_synonym environment = "string \<Rightarrow> string option"

definition conflictDirectFactSlotEnabled :: "environment \<Rightarrow> bool" where
  "conflictDirectFactSlotEnabled env = envFlagNotDisabled (env ''CONFLICT_DIRECT_FACT_SLOT'')"

definition conflictMentionFactSlotEnabled :: "environment \<Rightarrow> bool" where
  "conflictMentionFactSlotEnabled env = envFlagNotDisabled (env ''CONFLICT_MENTION_FACT_SLOT'')"

definition conflictSlotCanonicalizationEnabled :: "environment \<Rightarrow> bool" where
  "conflictSlotCanonicalizationEnabled env = envFlagNotDisabled (env ''CONFLICT_SLOT_CANONICALIZATION'')"

datatype write_path = Direct | Mention

record predicate_def =
  pd_predicateId :: string
  pd_semantics :: semantics
  pd_status :: "string option"

definition DEFAULT_FALLBACK :: predicate_def where
  "DEFAULT_FALLBACK = \<lparr>pd_predicateId = ''__default__'', pd_semantics = append_only, pd_status = Some ''active''\<rparr>"

definition conflictSlotResolution :: "environment \<Rightarrow> predicate_def \<Rightarrow> write_path \<Rightarrow> semantics \<times> rat option" where
  "conflictSlotResolution env policy path =
     (case path of
        Direct \<Rightarrow>
          (let proposedGuess = (pd_semantics policy = single_active \<and> pd_status policy = Some ''proposed'')
           in if \<not> conflictDirectFactSlotEnabled env then (pd_semantics policy, None)
              else if proposedGuess then (bitemporal, Some SLOT_EXACT_SIMILARITY_FLOOR)
              else if pd_predicateId policy = pd_predicateId DEFAULT_FALLBACK then (bitemporal, None)
              else (pd_semantics policy, None))
      | Mention \<Rightarrow>
          if conflictMentionFactSlotEnabled env \<and> pd_semantics policy = single_active
          then (bitemporal, Some SLOT_EXACT_SIMILARITY_FLOOR) else (pd_semantics policy, None))"

definition conflictSlotSemantics :: "environment \<Rightarrow> predicate_def \<Rightarrow> write_path \<Rightarrow> semantics" where
  "conflictSlotSemantics env policy path = fst (conflictSlotResolution env policy path)"

section \<open>Slot canonicalization\<close>

definition SLOT_CANONICAL_ALIASES :: "(string \<times> string) list" where
  "SLOT_CANONICAL_ALIASES = [(''duration_limit'', ''status''), (''state_change'', ''status'')]"

definition PERSON_ENTITY_TYPES :: "string list" where
  "PERSON_ENTITY_TYPES = [''customer'', ''staff'']"

definition NON_PERSON_GUARDED_ALIASES :: "string list" where
  "NON_PERSON_GUARDED_ALIASES = [''state_change'']"

text \<open>The calendar anchor on ASCII text, a regular expression read as the list of the states a match may be in: the
  character before and what is left.\<close>

type_synonym rx_state = "char option \<times> string"
type_synonym rx = "rx_state \<Rightarrow> rx_state list"

definition rx_char :: "(char \<Rightarrow> bool) \<Rightarrow> rx" where
  "rx_char p st = (case snd st of c # s \<Rightarrow> if p c then [(Some c, s)] else [] | [] \<Rightarrow> [])"

fun rx_seq :: "rx list \<Rightarrow> rx" where
  "rx_seq [] st = [st]"
| "rx_seq (r # rs) st = concat (map (rx_seq rs) (r st))"

definition rx_alt :: "rx list \<Rightarrow> rx" where
  "rx_alt rs st = concat (map (\<lambda>r. r st) rs)"

definition rx_opt :: "rx \<Rightarrow> rx" where
  "rx_opt r st = r st @ [st]"

text \<open>\<open>\s+\<close>: every non-empty run of blanks.\<close>

fun rx_spaces :: "nat \<Rightarrow> rx" where
  "rx_spaces 0 st = []"
| "rx_spaces (Suc n) st = concat (map (\<lambda>st'. st' # rx_spaces n st') (rx_char is_space st))"

definition rx_blank :: rx where
  "rx_blank st = rx_spaces (length (snd st)) st"

definition rx_word :: "string \<Rightarrow> rx" where
  "rx_word w = rx_seq (map (\<lambda>c. rx_char (\<lambda>d. lower_char d = c)) w)"

definition rx_digits :: "nat \<Rightarrow> rx" where
  "rx_digits n = rx_seq (replicate n (rx_char digit))"

definition rx_boundary :: rx where
  "rx_boundary st =
     (if (case fst st of None \<Rightarrow> False | Some c \<Rightarrow> word_char c) \<noteq>
         (case snd st of [] \<Rightarrow> False | c # _ \<Rightarrow> word_char c) then [st] else [])"

definition MONTHS :: "string list" where
  "MONTHS = [''january'', ''february'', ''march'', ''april'', ''may'', ''june'', ''july'', ''august'',
     ''september'', ''october'', ''november'', ''december'']"

definition month_year_rx :: rx where
  "month_year_rx = rx_seq
     [rx_boundary, rx_alt (map rx_word MONTHS), rx_boundary,
      rx_opt (rx_seq [rx_blank, rx_alt [rx_digits 2, rx_digits 1],
        rx_opt (rx_alt (map rx_word [''st'', ''nd'', ''rd'', ''th''])), rx_opt (rx_char (\<lambda>c. c = CHR '',''))]),
      rx_blank, rx_digits 4, rx_boundary]"

definition iso_date_rx :: rx where
  "iso_date_rx = rx_seq
     [rx_boundary, rx_digits 4, rx_char (\<lambda>c. c = CHR ''-''), rx_digits 2, rx_char (\<lambda>c. c = CHR ''-''), rx_digits 2, rx_boundary]"

fun rx_search :: "rx \<Rightarrow> char option \<Rightarrow> string \<Rightarrow> bool" where
  "rx_search r before [] = (r (before, []) \<noteq> [])"
| "rx_search r before (c # s) = (r (before, c # s) \<noteq> [] \<or> rx_search r (Some c) s)"

definition calendar_anchor :: "string \<Rightarrow> bool" where
  "calendar_anchor s = rx_search (rx_alt [month_year_rx, iso_date_rx]) None s"

definition canonicalSlotFor ::
  "environment \<Rightarrow> string \<Rightarrow> string option \<Rightarrow> string \<Rightarrow> string option \<Rightarrow> write_path \<Rightarrow> string option" where
  "canonicalSlotFor env predicate predicateAlias obj entityType path =
     (if path \<noteq> Mention \<or> \<not> conflictSlotCanonicalizationEnabled env then None
      else if predicateAlias \<noteq> None then None
      else case map_of SLOT_CANONICAL_ALIASES predicate of
             None \<Rightarrow> None
           | Some canonical \<Rightarrow>
               if predicate \<in> set NON_PERSON_GUARDED_ALIASES \<and>
                  (case entityType of None \<Rightarrow> True | Some t \<Rightarrow> t \<in> set PERSON_ENTITY_TYPES) then None
               else if calendar_anchor obj then Some canonical else None)"

section \<open>The group tags of a write\<close>

definition writeGroupTags :: "ambient \<Rightarrow> string list" where
  "writeGroupTags a =
     (let teams = filter (starts_with ''team:'') (case ambientWriteScope a of None \<Rightarrow> [] | Some ts \<Rightarrow> ts)
      in dedupe (actingCircleTags a @ teams))"

definition UNKNOWN_START :: int where "UNKNOWN_START = 0"

section \<open>The call\<close>

definition LANG_HIGH_CONFIDENCE :: rat where "LANG_HIGH_CONFIDENCE = 1 / 2"

definition langStampConfidenceGateEnabled :: "environment \<Rightarrow> bool" where
  "langStampConfidenceGateEnabled env = envFlagNotDisabled (env ''MULTILINGUAL_LANG_STAMP_CONFIDENCE_GATE'')"

record lang_detection =
  ld_language :: string
  ld_confidence :: rat
  ld_script :: "string option"
  ld_detectorVersion :: string

datatype lang_source = LangDetected | LangInherited

record lang_meta =
  lm_langConfidence :: rat
  lm_langSource :: lang_source
  lm_detectorVersion :: string
  lm_sourceLang :: "string option"
  lm_detectedLang :: "string option"

text \<open>The language, the script and the attribution of a new fact.\<close>

definition attribute_language ::
  "environment \<Rightarrow> lang_detection \<Rightarrow> string option \<Rightarrow> string option \<times> string option \<times> lang_meta option" where
  "attribute_language env det sourceLang =
     (let attribution = envFlagEnabled (env ''MULTILINGUAL_LANG_ATTRIBUTION'');
          detectedLang = (if ld_language det \<noteq> ''und'' then Some (ld_language det) else None);
          stampGated = (detectedLang \<noteq> None \<and> ld_confidence det < LANG_HIGH_CONFIDENCE \<and> langStampConfidenceGateEnabled env);
          lang = (if stampGated then None else detectedLang);
          script = (if detectedLang \<noteq> None then ld_script det else None);
          meta = (\<lambda>src sl dl. \<lparr>lm_langConfidence = ld_confidence det, lm_langSource = src,
            lm_detectorVersion = ld_detectorVersion det, lm_sourceLang = sl, lm_detectedLang = dl\<rparr>)
      in if \<not> (attribution \<or> stampGated) then (lang, script, None)
         else if lang \<noteq> None \<or> stampGated
         then (lang, script, Some (meta LangDetected sourceLang (if stampGated then detectedLang else None)))
         else if truthy_str sourceLang then (sourceLang, script, Some (meta LangInherited sourceLang None))
         else (lang, script, Some (meta LangDetected None None)))"

record resolve_input =
  ri_companyId :: string
  ri_entityId :: string
  ri_predicate :: string
  ri_predicateAlias :: "string option"
  ri_object :: string
  ri_sourceLang :: "string option"
  ri_entityType :: "string option"
  ri_objectMeta :: "jval option"
  ri_embeddingText :: "string option"
  ri_precomputedEmbedding :: "rat list option"
  ri_confidence :: rat
  ri_validFrom :: int
  ri_validUntil :: "int option"
  ri_source :: fact_source
  ri_eventId :: "string option"     \<comment> \<open>\<open>source.eventId\<close>\<close>
  ri_messageId :: "string option"   \<comment> \<open>\<open>source.messageId\<close>\<close>
  ri_entropy :: "rat option"
  ri_userId :: "string option"
  ri_derivedVersion :: "string option"
  ri_recordOutcomeMetric :: bool
  ri_supersedes :: "string list"

record resolver_lib =
  rl_env :: environment
  rl_ambient :: ambient
  rl_detect :: "string \<Rightarrow> bool \<Rightarrow> lang_detection"
  rl_policyFor :: "string \<Rightarrow> predicate_def"       \<comment> \<open>the registry's snapshot\<close>
  rl_canonicalize :: "string \<Rightarrow> string \<Rightarrow> string option"  \<comment> \<open>None: registration failed\<close>
  rl_policyAfter :: "string \<Rightarrow> predicate_def"     \<comment> \<open>the snapshot after a registration\<close>
  rl_embed :: "string \<Rightarrow> rat list"
  rl_number :: "string \<Rightarrow> jnum"                   \<comment> \<open>\<open>Number(s)\<close>\<close>

definition sourceTrustFor :: "string option \<Rightarrow> string option \<Rightarrow> rat" where
  "sourceTrustFor eventId messageId =
     (let begins = (\<lambda>pre. case eventId of None \<Rightarrow> False | Some e \<Rightarrow> starts_with pre e)
      in if begins ''billing.'' then 95 / 100
         else if begins ''incidents.'' then 9 / 10
         else if begins ''auth.'' then 9 / 10
         else if truthy_str messageId then 1 / 2 else 1 / 2)"

definition cfgNum :: "resolver_lib \<Rightarrow> string \<Rightarrow> rat \<Rightarrow> rat" where
  "cfgNum lib key fallback =
     (case rl_env lib key of None \<Rightarrow> fallback
      | Some v \<Rightarrow> if trim v = [] then fallback else (case rl_number lib v of JFin q \<Rightarrow> q | _ \<Rightarrow> fallback))"

definition policyForPredicate :: "resolver_lib \<Rightarrow> resolve_input \<Rightarrow> string \<Rightarrow> predicate_def" where
  "policyForPredicate lib p predicate =
     (let keyed = (case ri_predicateAlias p of None \<Rightarrow> predicate | Some a \<Rightarrow> a);
          first = rl_policyFor lib keyed
      in if pd_predicateId first \<noteq> pd_predicateId DEFAULT_FALLBACK then first
         else case rl_canonicalize lib keyed (keyed @ '': '' @ ri_object p) of
                None \<Rightarrow> first
              | Some canonicalId \<Rightarrow> rl_policyAfter lib canonicalId)"

definition factIndexText :: "string \<Rightarrow> string \<Rightarrow> string" where
  "factIndexText predicate obj = predicate @ '': '' @ obj"

definition input_path :: "resolve_input \<Rightarrow> write_path" where
  "input_path p = (if ri_recordOutcomeMetric p then Direct else Mention)"

definition buildResolveCall :: "resolver_lib \<Rightarrow> resolve_input \<Rightarrow> fact_write \<times> lang_meta option" where
  "buildResolveCall lib p =
     (let env = rl_env lib; path = input_path p;
          canonicalSlot = canonicalSlotFor env (ri_predicate p) (ri_predicateAlias p) (ri_object p) (ri_entityType p) path;
          predicate = (case canonicalSlot of None \<Rightarrow> ri_predicate p | Some c \<Rightarrow> c);
          policy = policyForPredicate lib p predicate;
          (semantics, similarityFloor) = conflictSlotResolution env policy path;
          det = rl_detect lib (ri_object p) (envFlagEnabled (env ''MULTILINGUAL_LANG_ATTRIBUTION''));
          (lang, script, langMeta) = attribute_language env det (ri_sourceLang p);
          embedding = (if canonicalSlot \<noteq> None then rl_embed lib (factIndexText predicate (ri_object p))
            else case ri_precomputedEmbedding p of Some e \<Rightarrow> e
                 | None \<Rightarrow> rl_embed lib (case ri_embeddingText p of Some t \<Rightarrow> t
                             | None \<Rightarrow> factIndexText (ri_predicate p) (ri_object p)))
      in (\<lparr>fw_entity = ''knowledge_entity:'' @ idTail (ri_entityId p), fw_predicate = predicate, fw_object = ri_object p,
           fw_objectMeta = ri_objectMeta p, fw_embedding = embedding, fw_confidence = ri_confidence p,
           fw_validFrom = ri_validFrom p, fw_validUntil = ri_validUntil p, fw_source = ri_source p,
           fw_sourceTrust = sourceTrustFor (ri_eventId p) (ri_messageId p), fw_semantics = semantics,
           fw_similarity = (case similarityFloor of Some f \<Rightarrow> f
             | None \<Rightarrow> cfgNum lib ''CONFLICT_SIMILARITY_THRESHOLD'' (85 / 100)),
           fw_slotSimilarity = Some (cfgNum lib ''DERIVER_SLOT_SIMILARITY'' (9 / 10)),
           fw_lang = lang, fw_script = script, fw_entropy = ri_entropy p, fw_userId = ri_userId p,
           fw_derivedVersion = ri_derivedVersion p, fw_alias = ri_predicateAlias p,
           fw_circles = writeGroupTags (rl_ambient lib)\<rparr>, langMeta))"

text \<open>The key the write holds while it resolves.\<close>

definition lockKey :: "string \<Rightarrow> string \<Rightarrow> fact_write \<Rightarrow> string" where
  "lockKey companyId entityId w =
     companyId @ [CHR 0x00] @ entityId @ [CHR 0x00] @ (case fw_alias w of None \<Rightarrow> fw_predicate w | Some a \<Rightarrow> a)"

definition resolveFactCall :: "ambient \<Rightarrow> settle_env \<Rightarrow> fact_write \<Rightarrow> fact_table \<Rightarrow> settle_result \<times> fact_table" where
  "resolveFactCall a env w tb = stamp_scope (scopeForUser a (fw_userId w)) (settle_fact env w tb)"

section \<open>The supersession an extractor names\<close>

definition explicit_until :: "int \<Rightarrow> knowledge_fact \<Rightarrow> int" where
  "explicit_until valid_from loser =
     (case kf_validUntil loser of
        Some u \<Rightarrow> if u < valid_from then u
                  else if kf_validFrom loser < valid_from then valid_from else kf_validFrom loser
      | None \<Rightarrow> if kf_validFrom loser < valid_from then valid_from else kf_validFrom loser)"

definition explicit_losers :: "string \<Rightarrow> string list \<Rightarrow> fact_table \<Rightarrow> fact_table" where
  "explicit_losers winner ids tb = filter (\<lambda>r. kf_id r \<in> set ids \<and> kf_id r \<noteq> winner \<and> fact_open r) tb"

definition close_named :: "string \<Rightarrow> int \<Rightarrow> fact_table \<Rightarrow> fact_table \<Rightarrow> fact_table" where
  "close_named winner valid_from losers =
     fold (\<lambda>l. fact_update (kf_id l) (close_superseded ''system'' winner (kf_validUntil l) (explicit_until valid_from l))) losers"

definition close_named_edges :: "string list \<Rightarrow> int \<Rightarrow> int \<Rightarrow> edge_table \<Rightarrow> string list \<times> edge_table" where
  "close_named_edges ids valid_from now es =
     (let hit = (\<lambda>e. ke_id e \<in> set ids \<and> ke_invalidatedAt e = None)
      in (map ke_id (filter hit es),
          map (\<lambda>e. if hit e
            then e\<lparr>ke_validUntil := Some valid_from,
                   ke_validFrom := (case ke_validFrom e of Some f \<Rightarrow> if f < valid_from then Some f else None | None \<Rightarrow> None),
                   ke_invalidatedAt := Some now\<rparr>
            else e) es))"

definition fold_closed :: "string list \<Rightarrow> settle_result \<Rightarrow> settle_result" where
  "fold_closed ids result =
     (if ids = [] then result
      else (let prior = sr_supersededFactIds result in
        result\<lparr>sr_supersededFactIds := prior @ filter (\<lambda>i. i \<notin> set prior) ids,
               sr_outcome := (if sr_outcome result \<in> {INSERTED, COMPETING} then SUPERSEDED else sr_outcome result)\<rparr>))"

definition applyExplicitSupersession ::
  "int \<Rightarrow> string list \<Rightarrow> int \<Rightarrow> int option \<Rightarrow> settle_result \<times> memory \<Rightarrow> settle_result \<times> memory" where
  "applyExplicitSupersession now supersedes validFrom validUntil st =
     (case st of (result, m) \<Rightarrow>
        (case sr_factId result of
           None \<Rightarrow> (result, m)
         | Some winner \<Rightarrow>
             (let ids = filter (\<lambda>i. i \<noteq> [] \<and> i \<noteq> winner) supersedes;
                  edgeIds = filter (starts_with ''knowledge_edge:'') ids;
                  factIds = filter (\<lambda>i. i \<notin> set edgeIds) ids;
                  valid_from = (case validUntil of Some u \<Rightarrow> if validFrom = UNKNOWN_START then u else validFrom | None \<Rightarrow> validFrom);
                  losers = explicit_losers winner factIds (mem_facts m);
                  tb1 = close_named winner valid_from losers (mem_facts m);
                  tb2 = (if losers \<noteq> [] then activate_competing winner tb1 else tb1);
                  (closedEdges, es) = close_named_edges edgeIds valid_from now (mem_edges m)
              in if winner = [] \<or> ids = [] then (result, m)
                 else (fold_closed (map kf_id losers) result, m\<lparr>mem_facts := tb2, mem_edges := es\<rparr>))))"

section \<open>Resolving\<close>

definition resolve :: "resolver_lib \<Rightarrow> settle_env \<Rightarrow> resolve_input \<Rightarrow> memory \<Rightarrow> (settle_result \<times> semantics) \<times> memory" where
  "resolve lib env p m =
     (let w = fst (buildResolveCall lib p);
          (result, tb) = resolveFactCall (rl_ambient lib) env w (mem_facts m);
          (result', m') = applyExplicitSupersession (se_now env) (ri_supersedes p) (ri_validFrom p) (ri_validUntil p)
            (result, m\<lparr>mem_facts := tb\<rparr>)
      in ((result', fw_semantics w), m'))"

text \<open>\<open>fn::settle_facts\<close> over a batch, in order; then one scope stamp for every row it returned.\<close>

fun settle_facts :: "(settle_env \<times> fact_write) list \<Rightarrow> fact_table \<Rightarrow> settle_result list \<times> fact_table" where
  "settle_facts [] tb = ([], tb)"
| "settle_facts ((env, w) # ws) tb =
     (let (r, tb1) = settle_fact env w tb; (rs, tb2) = settle_facts ws tb1 in (r # rs, tb2))"

definition stamp_scopes :: "ambient \<Rightarrow> (fact_write \<times> settle_result) list \<Rightarrow> fact_table \<Rightarrow> fact_table" where
  "stamp_scopes a items = fold (\<lambda>(w, r) tb. snd (stamp_scope (scopeForUser a (fw_userId w)) (r, tb))) items"

definition resolveAppendOnlyBatch ::
  "ambient \<Rightarrow> (settle_env \<times> fact_write) list \<Rightarrow> fact_table \<Rightarrow> settle_result list \<times> fact_table" where
  "resolveAppendOnlyBatch a ws tb =
     (let (rs, tb1) = settle_facts ws tb in (rs, stamp_scopes a (zip (map snd ws) rs) tb1))"

fun resolve_each :: "ambient \<Rightarrow> (settle_env \<times> fact_write) list \<Rightarrow> fact_table \<Rightarrow> settle_result list \<times> fact_table" where
  "resolve_each a [] tb = ([], tb)"
| "resolve_each a ((env, w) # ws) tb =
     (let (r, tb1) = resolveFactCall a env w tb; (rs, tb2) = resolve_each a ws tb1 in (r # rs, tb2))"

text \<open>The results in the order of the inputs.\<close>

fun place :: "('a \<Rightarrow> bool) \<Rightarrow> 'a list \<Rightarrow> 'b list \<Rightarrow> 'b list \<Rightarrow> 'b list" where
  "place p [] as bs = []"
| "place p (x # xs) as bs =
     (if p x then (case as of a # as' \<Rightarrow> a # place p xs as' bs | [] \<Rightarrow> [])
      else (case bs of b # bs' \<Rightarrow> b # place p xs as bs' | [] \<Rightarrow> []))"

text \<open>\<open>batch_fails\<close>: whether the one statement of the batch is aborted, with nothing written.\<close>

definition resolveMany ::
  "resolver_lib \<Rightarrow> (fact_write list \<Rightarrow> bool) \<Rightarrow> (settle_env \<times> resolve_input) list \<Rightarrow> memory \<Rightarrow> (settle_result \<times> semantics) list \<times> memory"
where
  "resolveMany lib batch_fails inputs m =
     (let a = rl_ambient lib;
          prepared = map (\<lambda>(env, p). (env, fst (buildResolveCall lib p))) inputs;
          is_append = (\<lambda>(env, w). fw_semantics w = append_only);
          appends = filter is_append prepared; rest = filter (\<lambda>c. \<not> is_append c) prepared;
          (rs1, tb1) = (if appends = [] then ([], mem_facts m)
            else if batch_fails (map snd appends) then resolve_each a appends (mem_facts m)
            else resolveAppendOnlyBatch a appends (mem_facts m));
          (rs2, tb2) = resolve_each a rest tb1;
          results = place is_append prepared rs1 rs2;
          (out, m') = fold (\<lambda>((env, p), (w, r)) (out, m).
              let (r', m') = applyExplicitSupersession (se_now env) (ri_supersedes p) (ri_validFrom p) (ri_validUntil p) (r, m)
              in (out @ [(r', fw_semantics w)], m'))
            (zip inputs (zip (map snd prepared) results)) ([], m\<lparr>mem_facts := tb2\<rparr>)
      in (out, m'))"

end
