(* ===== verification/FactHistory.thy ===== *)
theory FactHistory imports FactResolver begin

text \<open>
  Histories of the fact table.  The statements of the writers of the other theories are steps of one
  machine; along every history a single-valued slot outside circles and groups holds one open value at a
  time, and a resolution keeps disputes two-sided.  The supersession an extractor names never stretches a value.
\<close>

section \<open>Named supersessions\<close>

lemma close_named_narrows:
  "distinct (map kf_id tb) \<Longrightarrow> list_all2 narrows tb (close_named winner t losers tb)"
proof (induction losers arbitrary: tb)
  case Nil
  show ?case by (simp add: close_named_def list_all2_same)
next
  case (Cons l ls)
  let ?tb1 = "fact_update (kf_id l) (close_superseded ''system'' winner (kf_validUntil l) (explicit_until t l)) tb"
  have one: "list_all2 narrows tb ?tb1" by (rule fact_update_narrows [OF Cons.prems]) simp_all
  have "distinct (map kf_id ?tb1)" using narrows_ids [OF one] Cons.prems by simp
  from list_all2_narrows_trans [OF one Cons.IH [OF this]] show ?case by (simp add: close_named_def)
qed

definition named_supersession :: "string \<Rightarrow> string list \<Rightarrow> int \<Rightarrow> fact_table \<Rightarrow> fact_table" where
  "named_supersession winner ids t tb =
     (let losers = explicit_losers winner ids tb; tb1 = close_named winner t losers tb
      in if losers \<noteq> [] then activate_competing winner tb1 else tb1)"

lemma named_supersession_narrows:
  assumes "distinct (map kf_id tb)"
  shows "list_all2 narrows tb (named_supersession winner ids t tb)"
  using close_named_narrows [OF assms, of winner t] list_all2_narrows_trans [OF _ activate_narrows]
  by (simp add: named_supersession_def Let_def)

interpretation named: narrowing_write "named_supersession winner ids t" for winner ids t
  by unfold_locales (rule named_supersession_narrows)

text \<open>The supersession of a write is that of some rows, or nothing.\<close>

lemma applyExplicit_facts:
  "\<exists>winner ids t. mem_facts (snd (applyExplicitSupersession now ss vf vu (res, m))) = mem_facts m \<or>
     mem_facts (snd (applyExplicitSupersession now ss vf vu (res, m))) = named_supersession winner ids t (mem_facts m)"
proof (cases "sr_factId res")
  case None
  then show ?thesis by (simp add: applyExplicitSupersession_def)
next
  case (Some winner)
  let ?ids = "filter (\<lambda>i. i \<noteq> [] \<and> i \<noteq> winner) ss"
  let ?facts = "filter (\<lambda>i. i \<notin> set (filter (starts_with ''knowledge_edge:'') ?ids)) ?ids"
  let ?t = "case vu of Some u \<Rightarrow> if vf = UNKNOWN_START then u else vf | None \<Rightarrow> vf"
  have "mem_facts (snd (applyExplicitSupersession now ss vf vu (res, m))) =
      (if winner = [] \<or> ?ids = [] then mem_facts m else named_supersession winner ?facts ?t (mem_facts m))"
    using Some by (simp add: applyExplicitSupersession_def named_supersession_def Let_def split: prod.splits)
  then show ?thesis by (intro exI [of _ winner] exI [of _ ?facts] exI [of _ ?t]) simp
qed

section \<open>The steps\<close>

text \<open>Every step is one statement, with whatever its call read earlier as arguments: the stored function
  that settles a fact, the stamp of the scope that follows it outside the lock, the closing of one value
  (by an extractor's supersession or by the judged pass), the end of a dispute, the writes of a judgement,
  the mark, the cascade of a retraction and the retraction of a row.  The bringing back of superseded
  values is not among them: it can put a second value beside a later one (\<open>revived_beside_the_later_value\<close>).
  The slot's owner (entity, predicate, user, world) is written as single-valued and outside circles and
  groups: a row of a circle is settled before it bears the circle's tag (\<open>circle_race_forks\<close>).\<close>

fun slot_owner :: "fact_slot \<Rightarrow> string \<times> string \<times> string option \<times> string option" where
  "slot_owner (e, p, u, g, v) = (e, p, u, v)"

fun slot_groups :: "fact_slot \<Rightarrow> string list" where
  "slot_groups (e, p, u, g, v) = g"

inductive fact_step :: "fact_slot \<Rightarrow> fact_table \<Rightarrow> fact_table \<Rightarrow> bool" for k where
  settled: "se_newId env \<notin> set (map kf_id tb) \<Longrightarrow>
    (slot_owner (write_slot w) = slot_owner k \<Longrightarrow> fw_semantics w = single_active \<and> slot_groups (write_slot w) = []) \<Longrightarrow>
    fact_step k tb (snd (settle_fact env w tb))"
| stamped: "(\<And>r. r \<in> set tb \<Longrightarrow> kf_id r = i \<Longrightarrow> fact_open r \<Longrightarrow> slot_owner (slot_of r) = slot_owner k \<Longrightarrow> filter is_group_tag scope = []) \<Longrightarrow>
    fact_step k tb (fact_set i (\<lambda>r. r\<lparr>kf_scope := scope\<rparr>) tb)"
| closed: "fact_step k tb (fact_update i (close_superseded actor winner prior closeAt) tb)"
| dream_closed: "fact_step k tb (fact_update i (close_by_dreams winner prior closeAt) tb)"
| released: "fact_step k tb (activate_competing winner tb)"
| judged: "fact_step k tb (write_action now a tb)"
| checked: "fact_step k tb (markChecked now i tb)"
| cascaded: "fact_step k tb (snd (cascade_retract parents reason now tb))"
| retracted: "fact_step k tb (fact_update i (retracted_row actor reason now until) tb)"

lemma retracts_narrows: "retracts r r' \<Longrightarrow> narrows r r'"
  using narrows_eased [of r r'] by (auto simp: retracts_def narrows_def fact_open_def)

lemma cascade_narrows: "list_all2 narrows tb (snd (cascade_retract parents reason now tb))"
  using cascade_rows by (rule list.rel_mono_strong) (rule retracts_narrows)

lemma end_of_row_narrows:
  assumes "distinct (map kf_id tb)" "keeps_id f" "\<And>r. \<not> fact_open (f r)"
  shows "list_all2 narrows tb (fact_update i f tb)"
  by (rule fact_update_narrows [OF assms(1,2)]) (use assms(2,3) in \<open>auto simp: narrows_def keeps_id_def\<close>)

text \<open>Open rows of the owner are in the slot; the slot's rows do not overlap.\<close>

definition table_inv :: "fact_slot \<Rightarrow> fact_table \<Rightarrow> bool" where
  "table_inv k tb \<longleftrightarrow> distinct (map kf_id tb) \<and> timeline_ok k tb \<and>
     (\<forall>r \<in> set tb. fact_open r \<longrightarrow> slot_owner (slot_of r) = slot_owner k \<longrightarrow> slot_of r = k)"

lemma slot_of_owner:
  "slot_owner (slot_of (r\<lparr>kf_scope := sc\<rparr>)) = slot_owner (slot_of r)"
  "slot_groups (slot_of (r\<lparr>kf_scope := sc\<rparr>)) = sort (filter is_group_tag sc)"
  by (simp_all add: slot_of_def canonical_predicate_def cong: option.case_cong)

lemma slot_eqI: "slot_owner s = slot_owner k \<Longrightarrow> slot_groups s = slot_groups k \<Longrightarrow> s = k"
  by (cases s; cases k) simp

lemma narrows_table_inv: "list_all2 narrows tb tb' \<Longrightarrow> table_inv k tb \<Longrightarrow> table_inv k tb'"
proof -
  assume n: "list_all2 narrows tb tb'" and inv: "table_inv k tb"
  have "slot_of r' = k" if "r' \<in> set tb'" "fact_open r'" "slot_owner (slot_of r') = slot_owner k" for r'
  proof -
    from n that(1) obtain r where "r \<in> set tb" "narrows r r'" by (rule narrowed_rows)
    then show ?thesis using inv that(2,3) by (auto simp: table_inv_def narrows_def)
  qed
  then show ?thesis using inv n narrows_ids [of tb tb'] timeline_narrows [of tb tb' k] by (auto simp: table_inv_def)
qed

lemma created_owner: "slot_owner (slot_of (created_fact env w)) = slot_owner (write_slot w)"
  using slot_of_created [where sc = "[]" and env = env and w = w]
  by (simp add: created_fact_def Let_def write_slot_def)

lemma settle_table_inv:
  assumes k: "slot_groups k = []" and new: "se_newId env \<notin> set (map kf_id tb)"
    and w: "slot_owner (write_slot w) = slot_owner k \<Longrightarrow> fw_semantics w = single_active \<and> slot_groups (write_slot w) = []"
    and inv: "table_inv k tb"
  shows "table_inv k (snd (settle_fact env w tb))"
proof -
  have d: "distinct (map kf_id tb)" and ok: "timeline_ok k tb" using inv by (simp_all add: table_inv_def)
  have no_stamp: "snd (stamp_scope [] (settle_fact env w tb)) = snd (settle_fact env w tb)"
    by (auto simp: stamp_scope_def split: prod.splits option.splits)
  have created: "slot_of (created_fact env w) = k" "write_slot w = k"
    if "slot_owner (slot_of (created_fact env w)) = slot_owner k"
  proof -
    have c: "slot_of (created_fact env w) = (fw_entity w, case fw_alias w of Some a \<Rightarrow> a | None \<Rightarrow> fw_predicate w, fw_userId w, [], fw_derivedVersion w)"
      using slot_of_created [where sc = "[]" and env = env and w = w] by (simp add: created_fact_def Let_def)
    then have "slot_owner (write_slot w) = slot_owner k" using that by (simp add: write_slot_def)
    with w k show "write_slot w = k" by (intro slot_eqI) simp_all
    show "slot_of (created_fact env w) = k" using that k by (intro slot_eqI) (simp_all add: c)
  qed
  have tags: "slot_of ((created_fact env w)\<lparr>kf_scope := []\<rparr>) = k \<Longrightarrow> write_slot w = k"
    by (rule created(2)) (metis slot_of_owner(1))
  have single: "write_slot w = k \<Longrightarrow> fw_semantics w = single_active" using w by simp
  have ids: "distinct (map kf_id (snd (settle_fact env w tb)))" using settle_ids [OF d new, where scope = "[]" and w = w] by (simp add: no_stamp)
  have time: "timeline_ok k (snd (settle_fact env w tb))"
    using settle_timeline [where scope = "[]", OF d new single _ ok] tags no_stamp by simp
  have "slot_of x = k" if x: "x \<in> set (snd (settle_fact env w tb))" "fact_open x" "slot_owner (slot_of x) = slot_owner k" for x
  proof (cases "se_created env")
    case False
    then show ?thesis using x inv by (simp add: settle_not_created table_inv_def)
  next
    case c: True
    obtain res tb' where s: "settle_fact env w tb = (res, tb')" by fastforce
    have "x \<in> set (snd (stamp_scope [] (res, tb')))" using x(1) no_stamp by (simp add: s)
    from d new s c this show ?thesis
    proof (cases rule: settled_rows)
      case (old r)
      then show ?thesis using x inv by (auto simp: narrows_def table_inv_def)
    next
      case (new n)
      then have "slot_of x = slot_of (created_fact env w)" using x(2) by (simp add: narrows_def)
      with x(3) created(1) show ?thesis by simp
    qed
  qed
  with ids time show ?thesis by (simp add: table_inv_def)
qed

lemma stamp_table_inv:
  assumes k: "slot_groups k = []" and inv: "table_inv k tb"
    and sc: "\<And>r. r \<in> set tb \<Longrightarrow> kf_id r = i \<Longrightarrow> fact_open r \<Longrightarrow> slot_owner (slot_of r) = slot_owner k \<Longrightarrow> filter is_group_tag scope = []"
  shows "table_inv k (fact_set i (\<lambda>r. r\<lparr>kf_scope := scope\<rparr>) tb)" (is "table_inv k (fact_set i ?f tb)")
proof -
  let ?g = "\<lambda>r. if kf_id r = i then ?f r else r"
  have same: "kf_id (?g r) = kf_id r" "fact_open (?g r) = fact_open r" "kf_validFrom (?g r) = kf_validFrom r"
    "kf_validUntil (?g r) = kf_validUntil r" "slot_owner (slot_of (?g r)) = slot_owner (slot_of r)" for r
    by (simp_all add: fact_open_def slot_of_owner)
  have own: "slot_of r = k \<and> slot_of (?g r) = k" if "r \<in> set tb" "fact_open r" "slot_owner (slot_of r) = slot_owner k" for r
  proof -
    have r: "slot_of r = k" using that inv by (simp add: table_inv_def)
    have "slot_groups (slot_of (?g r)) = []"
      using r k sc [OF that(1) _ that(2,3)] by (simp add: slot_of_owner)
    with k same(5) [of r] that(3) have "slot_of (?g r) = k" by (intro slot_eqI) simp_all
    with r show ?thesis by simp
  qed
  have "map kf_id (fact_set i ?f tb) = map kf_id tb" by (simp add: fact_set_def)
  moreover have "timeline_ok k (map ?g tb)"
    unfolding timeline_ok_def
  proof (intro ballI impI)
    fix x y assume xy: "x \<in> set (map ?g tb)" "y \<in> set (map ?g tb)" "fact_open x" "fact_open y" "slot_of x = k" "slot_of y = k" "kf_id x \<noteq> kf_id y"
    from xy(1,2) obtain r q where rq: "r \<in> set tb" "q \<in> set tb" and x: "x = ?g r" and y: "y = ?g q" by auto
    have "fact_open r" "fact_open q" "kf_id r \<noteq> kf_id q" using xy(3,4,7) unfolding x y same by simp_all
    moreover have "slot_of r = k" "slot_of q = k"
      using own [OF rq(1)] own [OF rq(2)] xy(3-6) same unfolding x y by metis+
    ultimately have "\<not> rows_overlap r q" using inv rq by (simp add: table_inv_def timeline_ok_def)
    then show "\<not> rows_overlap x y" unfolding rows_overlap_def x y same .
  qed
  moreover have "\<forall>x \<in> set (map ?g tb). fact_open x \<longrightarrow> slot_owner (slot_of x) = slot_owner k \<longrightarrow> slot_of x = k"
    using own same by (metis (no_types, lifting) imageE set_map)
  ultimately show ?thesis using inv unfolding table_inv_def by (simp only: fact_set_def)
qed

lemma fact_step_inv: "fact_step k tb tb' \<Longrightarrow> slot_groups k = [] \<Longrightarrow> table_inv k tb \<Longrightarrow> table_inv k tb'"
proof (induction rule: fact_step.induct)
  case (settled env tb w)
  then show ?case by (intro settle_table_inv)
next
  case (stamped tb i scope)
  then show ?case by (intro stamp_table_inv)
next
  case (closed i actor winner prior closeAt tb)
  then show ?case by (intro narrows_table_inv [OF end_of_row_narrows]) (simp_all add: table_inv_def close_superseded_def fact_open_def)
next
  case (dream_closed i winner prior closeAt tb)
  then show ?case by (intro narrows_table_inv [OF end_of_row_narrows]) (simp_all add: table_inv_def close_by_dreams_def fact_open_def)
next
  case (released winner tb)
  then show ?case by (intro narrows_table_inv [OF activate_narrows])
next
  case (judged now a tb)
  then show ?case by (intro narrows_table_inv [OF FactJudged.judged.narrow]) (simp_all add: table_inv_def)
next
  case (checked now i tb)
  then show ?case by (intro narrows_table_inv [OF FactJudged.checked.narrow]) (simp_all add: table_inv_def)
next
  case (cascaded parents reason now tb)
  then show ?case by (intro narrows_table_inv [OF cascade_narrows])
next
  case (retracted i actor reason now until tb)
  then show ?case by (intro narrows_table_inv [OF end_of_row_narrows]) (simp_all add: table_inv_def retracted_row_def fact_open_def)
qed

section \<open>The calls as runs of steps\<close>

lemma named_supersession_runs: "(fact_step k)\<^sup>*\<^sup>* tb (named_supersession winner ids t tb)"
proof -
  have "(fact_step k)\<^sup>*\<^sup>* tb (close_named winner t ls tb)" for ls
  proof (induction ls rule: rev_induct)
    case Nil
    show ?case by (simp add: close_named_def)
  next
    case (snoc l ls)
    let ?tb = "close_named winner t ls tb"
    have "fact_step k ?tb (fact_update (kf_id l) (close_superseded ''system'' winner (kf_validUntil l) (explicit_until t l)) ?tb)"
      by (rule fact_step.closed)
    with snoc show ?case by (simp add: close_named_def)
  qed
  then have run: "(fact_step k)\<^sup>*\<^sup>* tb (close_named winner t (explicit_losers winner ids tb) tb)" .
  have "named_supersession winner ids t tb \<in> {close_named winner t (explicit_losers winner ids tb) tb,
      activate_competing winner (close_named winner t (explicit_losers winner ids tb) tb)}"
    by (simp add: named_supersession_def Let_def)
  with run rtranclp.rtrancl_into_rtrancl [OF run fact_step.released] show ?thesis by auto
qed

lemma retract_runs:
  assumes t: "retract c factId reason actor now tb = Inr (res, tb')" "rr_revived res = []"
  shows "(fact_step k)\<^sup>*\<^sup>* tb tb'"
  using t(1)
proof (cases rule: retract_cases)
  case (already r u)
  then show ?thesis by simp
next
  case (fresh r children tb1)
  let ?t = "fact_update (kf_id r) (retracted_row actor reason now now) tb1"
  have "fact_step k tb (snd (cascade_retract [kf_id r] reason now tb))" by (rule fact_step.cascaded)
  then have one: "fact_step k tb tb1" using fresh(4) by simp
  have two: "fact_step k tb1 ?t" by (rule fact_step.retracted)
  have "filter (revivable (kf_id r)) ?t = []" using fresh(8) t(2) by (simp add: reviveSupersededBy_def)
  then have "tb' = ?t" using fresh(5) by (auto simp: reviveSupersededBy_def filter_empty_conv intro: map_idI)
  with one two show ?thesis by (meson rtranclp.rtrancl_refl rtranclp.rtrancl_into_rtrancl)
qed

text \<open>A resolved fact: the settling, the stamp, and the supersession its extractor named.\<close>

lemma call_runs:
  assumes new: "se_newId env \<notin> set (map kf_id tb)" and d: "distinct (map kf_id tb)"
    and w: "slot_owner (write_slot w) = slot_owner k \<Longrightarrow> fw_semantics w = single_active \<and> slot_groups (write_slot w) = [] \<and>
      filter is_group_tag (scopeForUser a (fw_userId w)) = []"
  shows "(fact_step k)\<^sup>*\<^sup>* tb (snd (resolveFactCall a env w tb))"
proof -
  obtain res tb1 where s: "settle_fact env w tb = (res, tb1)" by fastforce
  let ?sc = "scopeForUser a (fw_userId w)"
  have "fact_step k tb (snd (settle_fact env w tb))" by (rule fact_step.settled) (use new w in auto)
  then have one: "fact_step k tb tb1" by (simp add: s)
  have out: "snd (resolveFactCall a env w tb) = snd (stamp_scope ?sc (res, tb1))" by (simp add: resolveFactCall_def s)
  show ?thesis
  proof (cases "sr_factId res = None \<or> ?sc = []")
    case True
    then have "snd (stamp_scope ?sc (res, tb1)) = tb1" by (auto simp: stamp_scope_def split: option.splits)
    with one out show ?thesis by simp
  next
    case False
    then obtain i where i: "sr_factId res = Some i" by auto
    have "se_created env"
    proof (rule ccontr)
      assume "\<not> se_created env"
      with i s show False by (auto simp: settle_not_created settle_out_def)
    qed
    then have id: "i = se_newId env" using settle_created [OF _ s] i by simp
    have "filter is_group_tag ?sc = []"
      if r: "r \<in> set tb1" "kf_id r = i" "fact_open r" "slot_owner (slot_of r) = slot_owner k" for r
    proof -
      from r(1) have "r \<in> set (snd (stamp_scope [] (res, tb1)))" by (simp add: stamp_scope_def i)
      from d new s \<open>se_created env\<close> this show ?thesis
      proof (cases rule: settled_rows)
        case (old q)
        with r(2) id show ?thesis by simp
      next
        case (new n)
        then have "slot_of r = slot_of (created_fact env w)" using r(3) by (simp add: narrows_def)
        then have "slot_owner (slot_of r) = slot_owner (write_slot w)" by (simp add: created_owner)
        with r(4) w show ?thesis by simp
      qed
    qed
    then have "fact_step k tb1 (fact_set i (\<lambda>r. r\<lparr>kf_scope := ?sc\<rparr>) tb1)" by (rule fact_step.stamped)
    moreover have "snd (stamp_scope ?sc (res, tb1)) = fact_set i (\<lambda>r. r\<lparr>kf_scope := ?sc\<rparr>) tb1"
      using False i by (simp add: stamp_scope_def)
    ultimately show ?thesis using one out by (metis rtranclp.rtrancl_refl rtranclp.rtrancl_into_rtrancl)
  qed
qed

section \<open>One value at an instant\<close>

definition holds_at :: "int \<Rightarrow> knowledge_fact \<Rightarrow> bool" where
  "holds_at t r \<longleftrightarrow> kf_validFrom r \<le> t \<and> (case kf_validUntil r of None \<Rightarrow> True | Some u \<Rightarrow> t < u)"

lemma holds_overlap: "holds_at t r \<Longrightarrow> holds_at t r' \<Longrightarrow> rows_overlap r r'"
  by (auto simp: holds_at_def rows_overlap_def intervals_overlap_def split: option.splits)

section \<open>Disputes stay two-sided\<close>

definition joins_no_dispute :: "knowledge_fact \<Rightarrow> knowledge_fact \<Rightarrow> bool" where
  "joins_no_dispute r r' \<longleftrightarrow> kf_id r' = kf_id r \<and> (kf_status r \<noteq> Competing \<longrightarrow> kf_status r' \<noteq> Competing)"

lemma joins_trans: "list_all2 joins_no_dispute a b \<Longrightarrow> list_all2 joins_no_dispute b c \<Longrightarrow> list_all2 joins_no_dispute a c"
  by (rule list_all2_trans [of joins_no_dispute joins_no_dispute joins_no_dispute]) (auto simp: joins_no_dispute_def)

lemma joins_update:
  assumes "\<And>r. joins_no_dispute r (f r)" "keeps_id f"
  shows "list_all2 joins_no_dispute tb (fact_update i f tb)"
  using fact_update_steps [OF assms(2), of i tb]
proof (rule list.rel_mono_strong)
  fix r r' assume "row_step i f r r'"
  then show "joins_no_dispute r r'"
    using assms(1) [of r] by (cases "kf_id r = i") (auto simp: row_step_def joins_no_dispute_def eased_def)
qed

lemma joins_simps [simp]:
  "joins_no_dispute r (mark_corroborating j r)" "joins_no_dispute r (close_superseded x j p u' r)"
  "joins_no_dispute r (add_corroboration a b c r)" "joins_no_dispute r (stamp_language w r)"
  "joins_no_dispute r (r\<lparr>kf_validUntil := u\<rparr>)" "joins_no_dispute r (r\<lparr>kf_trace := tr\<rparr>)"
  by (simp_all add: joins_no_dispute_def mark_corroborating_def close_superseded_def add_corroboration_def
      stamp_language_def Let_def split: option.splits)

lemma joins_close_losers: "list_all2 joins_no_dispute tb (close_losers w i losers tb)"
proof (induction losers arbitrary: tb)
  case Nil
  show ?case by (simp add: close_losers_def list_all2_same joins_no_dispute_def)
next
  case (Cons l ls)
  let ?tb1 = "fact_update (kf_id l) (close_superseded ''system'' i (kf_validUntil l) (fw_validFrom w)) tb"
  have "list_all2 joins_no_dispute tb ?tb1" by (rule joins_update) simp_all
  from joins_trans [OF this Cons.IH] show ?case by (simp add: close_losers_def)
qed

lemma settle_joins:
  assumes s: "settle_fact env w tb = (res, tb')" "se_created env" and sem: "fw_semantics w \<noteq> bitemporal_event"
  shows "list_all2 joins_no_dispute (with_new env w tb) tb'"
  using s(1)
proof (cases rule: settle_cases)
  case rejected
  with s(2) show ?thesis by simp
next
  case (ended e)
  show ?thesis unfolding ended(6) by (rule joins_trans [OF joins_update joins_update]) simp_all
next
  case (corroborated c)
  show ?thesis unfolding corroborated(7) by (rule joins_trans [OF joins_update joins_update]) simp_all
next
  case (restated c)
  show ?thesis unfolding restated(7) by (rule joins_update) simp_all
next
  case inserted
  show ?thesis unfolding inserted(5) by (rule joins_update) simp_all
next
  case (historical n)
  show ?thesis unfolding historical(5) by (rule joins_update) simp_all
next
  case (superseded tr)
  have "day_peers w (pool_of env w tb) = []" using sem by (simp add: day_peers_def)
  then show ?thesis unfolding superseded(7) set_status_def
    by (simp add: joins_trans [OF joins_close_losers joins_update])
next
  case (competing tr)
  with sem show ?thesis by (simp add: day_peers_def)
next
  case undecided
  show ?thesis unfolding undecided(6) by (rule joins_update) simp_all
qed

text \<open>C10: Resolution keeps disputes two-sided.  When every competing row of the table has an open rival,
  then so does every competing row after one fact was settled, and again after its scope was stamped,
  whichever branch the settling took and whoever left a dispute by it.  It is a statement of this write
  alone: the event-dated semantics of derived worlds and the writes of the judged pass are not covered
  (\<open>event_day_leaves_one_alone\<close>, \<open>third_rival_left_alone\<close>).\<close>

theorem resolution_keeps_disputes_two_sided:
  assumes d: "distinct (map kf_id tb)" "se_newId env \<notin> set (map kf_id tb)" and ok: "disputes_ok tb"
    and sem: "fw_semantics w \<noteq> bitemporal_event"
  shows "disputes_ok (snd (settle_fact env w tb)) \<and> disputes_ok (snd (stamp_scope scope (settle_fact env w tb)))"
proof (cases "se_created env")
  case False
  then show ?thesis using ok by (simp add: settle_not_created stamp_scope_def settle_out_def)
next
  case c: True
  obtain res tb' where s: "settle_fact env w tb = (res, tb')" by fastforce
  have ids: "distinct (map kf_id tb')" using narrows_ids [OF settle_narrows [OF d s c]] with_new_distinct [OF d] by simp
  have "kf_status n \<noteq> Competing" if i: "sr_factId res = Some i" and n: "n \<in> set tb'" "kf_id n = i" for i n
  proof -
    have "i = se_newId env" using settle_created [OF c s] i by simp
    from list_all2_right [OF settle_joins [OF s c sem] n(1)]
    obtain r where r: "r \<in> set (with_new env w tb)" "joins_no_dispute r n" by (elim bexE)
    have "kf_id r = kf_id (created_fact env w)" using r(2) n(2) \<open>i = se_newId env\<close> by (simp add: joins_no_dispute_def)
    then have "r = created_fact env w" using row_by_id [OF with_new_distinct [OF d] r(1)] by simp
    with r(2) show ?thesis by (simp add: joins_no_dispute_def)
  qed
  from stamp_disputes [OF ids settle_disputes [OF d ok sem s] this] settle_disputes [OF d ok sem s] show ?thesis by (simp add: s)
qed

section \<open>Named supersessions never stretch a value\<close>

definition upright :: "knowledge_fact \<Rightarrow> bool" where
  "upright r \<longleftrightarrow> (case kf_validUntil r of None \<Rightarrow> True | Some u \<Rightarrow> kf_validFrom r \<le> u)"

definition named_close :: "string \<Rightarrow> int \<Rightarrow> knowledge_fact \<Rightarrow> knowledge_fact" where
  "named_close winner t r = close_superseded ''system'' winner (kf_validUntil r) (explicit_until t r) r"

lemma named_close_eased: "eased r m \<Longrightarrow> close_superseded a winner p u m = close_superseded a winner p u r"
  by (auto simp: eased_def close_superseded_def)

lemma close_named_rows:
  assumes d: "distinct (map kf_id tb)" and l: "set losers \<subseteq> set tb" "distinct (map kf_id losers)"
  shows "list_all2 (\<lambda>r r'. if kf_id r \<in> kf_id ` set losers then r' = named_close winner t r else eased r r')
    tb (close_named winner t losers tb)"
  using l
proof (induction losers rule: rev_induct)
  case Nil
  show ?case by (simp add: close_named_def list_all2_same)
next
  case (snoc l ls)
  let ?mid = "close_named winner t ls tb" and ?f = "close_superseded ''system'' winner (kf_validUntil l) (explicit_until t l)"
  let ?R = "\<lambda>ls r r'. if kf_id r \<in> kf_id ` set ls then r' = named_close winner t r else eased r r'"
  have mid: "list_all2 (?R ls) tb ?mid" using snoc by (intro snoc.IH) auto
  have last: "list_all2 (row_step (kf_id l) ?f) ?mid (fact_update (kf_id l) ?f ?mid)" by (rule fact_update_steps) simp
  have l_mem: "l \<in> set tb" "kf_id l \<notin> kf_id ` set ls" using snoc.prems by auto
  have step: "?R (ls @ [l]) r r''" if "?R ls r m \<and> r \<in> set tb" "row_step (kf_id l) ?f m r''" for r m r''
  proof (cases "kf_id r = kf_id l")
    case True
    then have "r = l" using row_by_id [OF d _ l_mem(1), of r] that(1) by simp
    moreover have "eased r m" using that(1) True l_mem(2) by simp
    ultimately show ?thesis using that(2) eased_fields(1) [of r m]
      by (simp add: row_step_def named_close_def named_close_eased)
  next
    case False
    have "kf_id m = kf_id r" using that(1) eased_fields(1) [of r m]
      by (auto simp: named_close_def close_superseded_def split: if_splits)
    then have e: "eased m r''" using that(2) False by (simp add: row_step_def)
    show ?thesis
    proof (cases "kf_id r \<in> kf_id ` set ls")
      case True
      then have "m = named_close winner t r" using that(1) by simp
      with e have "r'' = m" by (auto simp: eased_def named_close_def close_superseded_def standing_rival_def)
      with True \<open>m = named_close winner t r\<close> show ?thesis by simp
    next
      case no: False
      with that(1) e False eased_trans [of r m r''] show ?thesis by simp
    qed
  qed
  have mid': "list_all2 (\<lambda>r m. ?R ls r m \<and> r \<in> set tb) tb ?mid"
    using mid by (rule list.rel_mono_strong) simp
  have "list_all2 (?R (ls @ [l])) tb (fact_update (kf_id l) ?f ?mid)"
    by (rule list_all2_trans [OF _ mid' last]) (rule step)
  then show ?case by (simp add: close_named_def)
qed

lemma row_kept: "kf_id r \<noteq> i \<Longrightarrow> r \<in> set tb \<Longrightarrow> r \<in> set (activate_competing i tb)"
  by (force simp: activate_competing_def fact_set_def)

text \<open>A named supersession.  The rows an extractor named as replaced, and only the open ones among
  them, are closed by the new fact and keep their former end for a later revival; no period is inverted
  by it, and none is stretched: a row that had an end ends no later than before.\<close>

theorem named_values_keep_their_period:
  assumes "distinct (map kf_id tb)" "r \<in> set tb" "kf_id r \<noteq> winner" "upright r"
  shows "\<exists>r' \<in> set (named_supersession winner ids t tb).
    (if kf_id r \<in> set ids \<and> fact_open r
     then r' = named_close winner t r \<and> kf_status r' = Superseded \<and> kf_priorValidUntil r' = kf_validUntil r
     else eased r r') \<and>
    kf_validFrom r' = kf_validFrom r \<and> upright r' \<and>
    (case kf_validUntil r of None \<Rightarrow> True
     | Some u \<Rightarrow> (case kf_validUntil r' of None \<Rightarrow> False | Some u' \<Rightarrow> u' \<le> u))"
proof -
  let ?losers = "explicit_losers winner ids tb"
  have "set ?losers \<subseteq> set tb" "distinct (map kf_id ?losers)"
    using assms(1) by (auto simp: explicit_losers_def distinct_map_filter)
  from close_named_rows [OF assms(1) this, of winner t]
  have rows: "list_all2 (\<lambda>r r'. if kf_id r \<in> kf_id ` set ?losers then r' = named_close winner t r else eased r r')
    tb (close_named winner t ?losers tb)" .
  from list_all2_left [OF rows assms(2)]
  obtain r' where r': "r' \<in> set (close_named winner t ?losers tb)"
    "if kf_id r \<in> kf_id ` set ?losers then r' = named_close winner t r else eased r r'" by (elim bexE)
  have "kf_id r \<in> kf_id ` set ?losers \<longleftrightarrow> kf_id r \<in> set ids \<and> fact_open r"
  proof
    assume "kf_id r \<in> kf_id ` set ?losers"
    then obtain l where l: "l \<in> set tb" "kf_id r = kf_id l" "kf_id l \<in> set ids" "fact_open l"
      by (auto simp: explicit_losers_def)
    then have "r = l" using row_by_id [OF assms(1,2) l(1)] by simp
    with l show "kf_id r \<in> set ids \<and> fact_open r" by simp
  next
    assume "kf_id r \<in> set ids \<and> fact_open r"
    then have "r \<in> set ?losers" using assms(2,3) by (simp add: explicit_losers_def)
    then show "kf_id r \<in> kf_id ` set ?losers" by (rule imageI)
  qed
  with r'(2) have shape: "if kf_id r \<in> set ids \<and> fact_open r then r' = named_close winner t r else eased r r'" by simp
  have "kf_id r' = kf_id r" using shape eased_fields(1) [of r r']
    by (auto simp: named_close_def close_superseded_def split: if_splits)
  then have "r' \<in> set (named_supersession winner ids t tb)"
    using r'(1) row_kept [of r' winner] assms(3) by (cases "?losers = []") (simp_all add: named_supersession_def Let_def)
  moreover have "kf_validFrom r' = kf_validFrom r \<and> upright r' \<and>
    (case kf_validUntil r of None \<Rightarrow> True
     | Some u \<Rightarrow> (case kf_validUntil r' of None \<Rightarrow> False | Some u' \<Rightarrow> u' \<le> u))"
  proof (cases "kf_id r \<in> set ids \<and> fact_open r")
    case True
    with shape assms(4) show ?thesis
      by (auto simp: named_close_def close_superseded_def explicit_until_def upright_def split: option.splits)
  next
    case False
    with shape have "eased r r'" by simp
    with assms(4) show ?thesis by (simp add: eased_fields(6,7) upright_def split: option.splits)
  qed
  ultimately show ?thesis using shape
    by (intro bexI [of _ r']) (auto simp: named_close_def close_superseded_def split: if_splits)
qed

section \<open>The writes of the service are steps\<close>

definition groups_ok :: "ambient \<Rightarrow> string option \<Rightarrow> bool" where
  "groups_ok a userId \<longleftrightarrow>
     (let amb = (case ambientWriteScope a of None \<Rightarrow> [] | Some ts \<Rightarrow> ts)
      in distinct (actingCircleTags a) \<and> list_all isCircleTag (actingCircleTags a) \<and>
         distinct (filter (starts_with ''team:'') amb) \<and> \<not> list_ex isCircleTag amb \<and>
         (truthy_str userId \<longrightarrow> filter (starts_with ''team:'') amb = []))"

lemma sort_same_set: "distinct xs \<Longrightarrow> distinct ys \<Longrightarrow> set xs = set ys \<Longrightarrow> sort xs = sort (ys :: string list)"
  by (metis properties_for_sort set_eq_iff_mset_eq_distinct mset_sort sorted_sort)

lemma group_tag_iff: "is_group_tag t \<longleftrightarrow> isCircleTag t \<or> starts_with ''team:'' t"
  by (auto simp: is_group_tag_def isCircleTag_def CIRCLE_NAMESPACE_def)

lemma user_tag_no_group: "\<not> is_group_tag (userTag u)"
  by (simp add: is_group_tag_def userTag_def USER_NAMESPACE_def)

lemma distinct_filter_id: "list_all P xs \<Longrightarrow> filter P xs = xs"
  by (induction xs) auto

lemma scope_is_the_slot:
  assumes "groups_ok a (fw_userId w)" "fw_circles w = writeGroupTags a"
  shows "tags_match (scopeForUser a (fw_userId w)) w"
proof -
  let ?amb = "case ambientWriteScope a of None \<Rightarrow> [] | Some ts \<Rightarrow> ts" and ?circles = "actingCircleTags a"
  let ?teams = "filter (starts_with ''team:'') ?amb"
  have ok: "distinct ?circles" "\<forall>t \<in> set ?circles. isCircleTag t" "distinct ?teams" "\<forall>t \<in> set ?amb. \<not> isCircleTag t"
    "truthy_str (fw_userId w) \<Longrightarrow> ?teams = []"
    using assms(1) by (auto simp: groups_ok_def list_all_iff list_ex_iff Let_def)
  have gc: "filter is_group_tag ?circles = ?circles" using ok(2) by (auto simp: group_tag_iff filter_id_conv)
  have ga: "filter is_group_tag ?amb = ?teams" using ok(4) by (auto simp: group_tag_iff intro: filter_cong)
  have all: "\<forall>t \<in> set (fw_circles w). is_group_tag t"
    using ok(2) by (auto simp: assms(2) writeGroupTags_def Let_def group_tag_iff)
  have w: "filter is_group_tag (fw_circles w) = fw_circles w" "distinct (fw_circles w)"
    "set (fw_circles w) = set ?circles \<union> set ?teams"
    using all by (simp_all add: filter_id_conv assms(2) writeGroupTags_def Let_def)
  have "distinct (filter is_group_tag (scopeForUser a (fw_userId w))) \<and>
    set (filter is_group_tag (scopeForUser a (fw_userId w))) = set ?circles \<union> set ?teams"
  proof (cases "truthy_str (fw_userId w)")
    case True
    then have "filter is_group_tag (scopeForUser a (fw_userId w)) = ?circles"
      by (simp add: scopeForUser_def Let_def user_tag_no_group gc)
    then show ?thesis using ok(1) ok(5) [OF True] by simp
  next
    case False
    have new: "filter (\<lambda>c. c \<notin> set ?amb) ?circles = ?circles" using ok(2,4) by (auto simp: filter_id_conv)
    have apart: "set ?teams \<inter> set ?circles = {}" using ok(2,4) by auto
    have "scopeForUser a (fw_userId w) = ?amb @ ?circles"
      using False by (simp only: scopeForUser_def Let_def if_False new)
    then have eq: "filter is_group_tag (scopeForUser a (fw_userId w)) = ?teams @ ?circles"
      by (simp only: filter_append ga gc)
    have "distinct (?teams @ ?circles)" unfolding distinct_append by (intro conjI ok(1,3) apart)
    moreover have "set (?teams @ ?circles) = set ?circles \<union> set ?teams" unfolding set_append by (rule Un_commute)
    ultimately show ?thesis unfolding eq by (rule conjI)
  qed
  then have "sort (filter is_group_tag (scopeForUser a (fw_userId w))) = sort (fw_circles w)"
    using w(2,3) by (intro sort_same_set) (elim conjE, simp only:)+
  then show ?thesis unfolding tags_match_def w(1) .
qed

text \<open>The histories of the whole memory.  A single statement of any call is a step, at any moment and
  with arguments as stale as they may be, so calls interleave in every way; beside them stand whole
  calls: resolving a fact, submitting an agent's judgement, the server's own pass, a retraction.\<close>

inductive service_step :: "fact_slot \<Rightarrow> memory \<Rightarrow> memory \<Rightarrow> bool" for k where
  resolved: "se_newId env \<notin> set (map kf_id (mem_facts m)) \<Longrightarrow>
    (slot_owner (write_slot (fst (buildResolveCall lib p))) = slot_owner k \<Longrightarrow>
       fw_semantics (fst (buildResolveCall lib p)) = single_active \<and>
       slot_groups (write_slot (fst (buildResolveCall lib p))) = [] \<and>
       filter is_group_tag (scopeForUser (rl_ambient lib) (ri_userId p)) = []) \<Longrightarrow>
    service_step k m (snd (resolve lib env p m))"
| submitted: "submit renv f reply m = Some (out, m') \<Longrightarrow> service_step k m m'"
| ran: "service_step k m (snd (runPending renv enabled judge n m))"
| took: "service_step k m (snd (take_work renv userId mx m))"
| withdrawn: "retract c factId reason actor now (mem_facts m) = Inr (res, tb') \<Longrightarrow> rr_revived res = [] \<Longrightarrow>
    service_step k m (m\<lparr>mem_facts := tb'\<rparr>)"
| statement: "fact_step k (mem_facts m) tb' \<Longrightarrow> service_step k m (m\<lparr>mem_facts := tb'\<rparr>)"

lemma call_fields:
  "fw_userId (fst (buildResolveCall lib p)) = ri_userId p"
  "fw_circles (fst (buildResolveCall lib p)) = writeGroupTags (rl_ambient lib)"
  by (simp_all add: buildResolveCall_def Let_def split: prod.splits)

interpretation facts: state_machine "fact_step k" "\<lambda>tb. slot_groups k = [] \<longrightarrow> table_inv k tb" for k
  by unfold_locales (auto intro: fact_step_inv)

lemma fact_steps_inv: "(fact_step k)\<^sup>*\<^sup>* tb tb' \<Longrightarrow> slot_groups k = [] \<Longrightarrow> table_inv k tb \<Longrightarrow> table_inv k tb'"
  using facts.inv_steps by blast

lemma resolve_runs:
  assumes d: "distinct (map kf_id (mem_facts m))" and new: "se_newId env \<notin> set (map kf_id (mem_facts m))"
    and w: "slot_owner (write_slot (fst (buildResolveCall lib p))) = slot_owner k \<Longrightarrow>
       fw_semantics (fst (buildResolveCall lib p)) = single_active \<and>
       slot_groups (write_slot (fst (buildResolveCall lib p))) = [] \<and>
       filter is_group_tag (scopeForUser (rl_ambient lib) (ri_userId p)) = []"
  shows "(fact_step k)\<^sup>*\<^sup>* (mem_facts m) (mem_facts (snd (resolve lib env p m)))"
proof -
  let ?w = "fst (buildResolveCall lib p)"
  obtain result tb where r: "resolveFactCall (rl_ambient lib) env ?w (mem_facts m) = (result, tb)" by fastforce
  have one: "(fact_step k)\<^sup>*\<^sup>* (mem_facts m) tb"
    using call_runs [OF new d, of ?w k "rl_ambient lib"] w by (simp add: call_fields r)
  obtain ids winner t where "mem_facts (snd (applyExplicitSupersession (se_now env) (ri_supersedes p) (ri_validFrom p)
      (ri_validUntil p) (result, m\<lparr>mem_facts := tb\<rparr>))) \<in> {tb, named_supersession winner ids t tb}"
    using applyExplicit_facts [of "se_now env" "ri_supersedes p" "ri_validFrom p" "ri_validUntil p" result "m\<lparr>mem_facts := tb\<rparr>"]
    by auto
  moreover have "mem_facts (snd (resolve lib env p m)) = mem_facts (snd (applyExplicitSupersession (se_now env)
      (ri_supersedes p) (ri_validFrom p) (ri_validUntil p) (result, m\<lparr>mem_facts := tb\<rparr>)))"
    by (simp add: resolve_def Let_def r split: prod.splits)
  ultimately show ?thesis using one rtranclp_trans [OF one named_supersession_runs] by auto
qed

lemma apply_item_inv: "table_inv k (mem_facts m) \<Longrightarrow> table_inv k (mem_facts (snd (apply_item renv item vs m)))"
proof (cases "isEdgeId (jf_id (it_fact item))")
  case True
  assume "table_inv k (mem_facts m)"
  with True show ?thesis by (simp add: apply_item_def Let_def split: prod.splits)
next
  case False
  assume inv: "table_inv k (mem_facts m)"
  then have d: "distinct (map kf_id (mem_facts m))" by (simp add: table_inv_def)
  from narrows_table_inv [OF judgement.narrow [OF d] inv] False show ?thesis
    by (simp add: apply_item_def Let_def)
qed

lemma submit_items_inv: "table_inv k (mem_facts m) \<Longrightarrow> table_inv k (mem_facts (snd (submit_items renv vs i f (out, m))))"
proof (induction f arbitrary: i out m)
  case Nil
  then show ?case by simp
next
  case (Cons t ts)
  obtain factId cids sg where t: "t = (factId, cids, sg)" by (cases t) auto
  show ?case
  proof (cases "\<exists>item. reload renv m factId cids = Some item \<and> signatureOf renv item = sg")
    case False
    then show ?thesis using Cons.IH [OF Cons.prems] by (auto simp: t split: option.splits)
  next
    case True
    then obtain item where item: "reload renv m factId cids = Some item" "signatureOf renv item = sg" by blast
    let ?a = "apply_item renv item (case map_of vs (int i) of None \<Rightarrow> [] | Some v \<Rightarrow> v) m"
    have "table_inv k (mem_facts (snd ?a))" using Cons.prems by (rule apply_item_inv)
    from Cons.IH [OF this] show ?thesis using item by (simp add: t split_beta)
  qed
qed

lemma apply_items_inv: "table_inv k (mem_facts m) \<Longrightarrow> table_inv k (mem_facts (snd (apply_items renv vs i items (out, m))))"
proof (induction items arbitrary: i out m)
  case Nil
  then show ?case by simp
next
  case (Cons it its)
  let ?a = "apply_item renv it (case map_of vs (int i) of None \<Rightarrow> [] | Some v \<Rightarrow> v) m"
  have "table_inv k (mem_facts (snd ?a))" using Cons.prems by (rule apply_item_inv)
  from Cons.IH [OF this] show ?case by (simp add: split_beta)
qed

lemma only_marked_narrows: "only_marked r r' \<Longrightarrow> narrows r r'"
  by (auto simp: only_marked_def)

lemma next_items_inv_facts:
  assumes "table_inv k (mem_facts m)"
  shows "table_inv k (mem_facts (snd (nextItems renv opts m)))"
proof -
  obtain items m' where n: "nextItems renv opts m = (items, m')" by fastforce
  obtain st where st: "batch_inv (batch_want opts) m st" "ba_memory st = m'" using nextItems_inv [OF n] by blast
  then have "list_all2 only_marked (mem_facts m) (mem_facts m')" by (simp add: batch_inv_def)
  then have "list_all2 narrows (mem_facts m) (mem_facts m')" by (rule list.rel_mono_strong) (rule only_marked_narrows)
  from narrows_table_inv [OF this assms] show ?thesis by (simp add: n)
qed

lemma run_batches_inv: "table_inv k (mem_facts m) \<Longrightarrow> table_inv k (mem_facts (snd (run_batches renv judge n (out, m))))"
proof (induction n arbitrary: out m)
  case 0
  then show ?case by simp
next
  case (Suc n)
  obtain items m' where ni: "nextItems renv \<lparr>to_userId = None, to_anyScope = True, to_max = None\<rparr> m = (items, m')" by fastforce
  have m': "table_inv k (mem_facts m')" using next_items_inv_facts [OF Suc.prems] by (metis ni snd_conv)
  obtain st where st: "apply_items renv (judge items) 0 items (out, m') = st" by blast
  have inv: "table_inv k (mem_facts (snd st))" using apply_items_inv [OF m'] unfolding st [symmetric] .
  show ?case
  proof (cases "items = []")
    case True
    with m' show ?thesis by (simp add: ni)
  next
    case False
    then obtain it its where cons: "items = it # its" by (cases items) simp
    have "run_batches renv judge (Suc n) (out, m) = run_batches renv judge n st"
      using st unfolding cons by (simp only: run_batches.simps ni cons prod.case list.case)
    with Suc.IH [OF inv, of "fst st"] show ?thesis by simp
  qed
qed

lemma service_step_inv:
  "service_step k m m' \<Longrightarrow> slot_groups k = [] \<Longrightarrow> table_inv k (mem_facts m) \<Longrightarrow> table_inv k (mem_facts m')"
proof (induction rule: service_step.induct)
  case (resolved env m lib p)
  then have "(fact_step k)\<^sup>*\<^sup>* (mem_facts m) (mem_facts (snd (resolve lib env p m)))"
    by (intro resolve_runs) (simp_all add: table_inv_def)
  from fact_steps_inv [OF this resolved(3,4)] show ?case .
next
  case (submitted renv f reply m out m')
  then obtain vs where "submit_items renv vs 0 f (emptyOutcome, m) = (out, m')" by (auto simp: submit_def split: option.splits)
  with submit_items_inv [OF submitted(3)] show ?case by (metis snd_conv)
next
  case (ran m renv enabled judge n)
  then show ?case using run_batches_inv by (simp add: runPending_def)
next
  case (took m renv userId mx)
  then show ?case
    using next_items_inv_facts [OF took(2), of renv "\<lparr>to_userId = userId, to_anyScope = False, to_max = mx\<rparr>"]
    by (auto simp: take_work_def split: prod.splits list.splits)
next
  case (withdrawn c factId reason actor now m res tb')
  from fact_steps_inv [OF retract_runs [OF withdrawn(1,2)] withdrawn(3,4)] show ?case by simp
next
  case (statement m tb')
  from fact_step_inv [OF statement] show ?case by simp
qed

interpretation service: state_machine "service_step k" "\<lambda>m. slot_groups k = [] \<longrightarrow> table_inv k (mem_facts m)" for k
  by unfold_locales (auto intro: service_step_inv)

text \<open>C8: One value at a time.  Take a slot (entity, canonical predicate, user, world) outside circles and
  groups, every write of whose owner resolves as single-valued and outside circles and groups, and any
  history of statements and calls: facts settled under any clock, order of arrival and valid times (late
  and back-dated ones included), their scope stamps any time later, what an extractor named as replaced,
  judgements submitted or run in any order, retractions that bring nothing back.  At no instant do two
  different open rows of the slot both hold.\<close>

theorem one_value_at_a_time:
  assumes "(service_step k)\<^sup>*\<^sup>* \<lparr>mem_facts = [], mem_edges = []\<rparr> m" "slot_groups k = []"
    "r \<in> set (mem_facts m)" "r' \<in> set (mem_facts m)"
    "fact_open r" "fact_open r'" "slot_of r = k" "slot_of r' = k" "holds_at t r" "holds_at t r'"
  shows "r = r'"
proof -
  have "table_inv k (mem_facts \<lparr>mem_facts = [], mem_edges = []\<rparr>)" by (simp add: table_inv_def timeline_ok_def)
  then have inv: "table_inv k (mem_facts m)" using service.inv_steps [OF assms(1)] assms(2) by simp
  then have "kf_id r = kf_id r'"
    using assms holds_overlap [OF assms(9,10)] by (auto simp: table_inv_def timeline_ok_def)
  then show ?thesis using row_by_id [OF _ assms(3,4)] inv by (simp add: table_inv_def)
qed

text \<open>Two writes of a slot: after the second the first no longer holds.\<close>

definition first_write :: fact_write where
  "first_write = sample_write\<lparr>fw_object := ''A'', fw_validFrom := 10\<rparr>"

definition first_settle :: settle_env where
  "first_settle = sample_settle\<lparr>se_newId := ''knowledge_fact:old'', se_now := 10\<rparr>"

definition first_row :: knowledge_fact where "first_row = created_fact first_settle first_write"

definition ended_row :: knowledge_fact where
  "ended_row = close_superseded ''system'' ''knowledge_fact:new'' None 20 first_row"

lemmas history_samples = first_write_def first_settle_def sample_write_def sample_settle_def

lemma first_row_fields:
  "kf_id first_row = ''knowledge_fact:old''" "kf_status first_row = Active" "kf_retractedAt first_row = None"
  "kf_object first_row = ''A''" "kf_validFrom first_row = 10" "kf_validUntil first_row = None"
  "slot_of first_row = write_slot sample_write"
  by (simp_all add: first_row_def created_fact_def Let_def slot_of_def write_slot_def canonical_predicate_def history_samples)

lemma settle_on_empty:
  assumes "se_created env"
  shows "settle_fact env w [] = (settle_out INSERTED (Some (se_newId env)) None, [stamp_language w (created_fact env w)])"
proof -
  have none: "fact_candidates w [] = []" "slot_pool env w [] = []" "ended_value w [] = None"
    by (simp_all add: fact_candidates_def slot_pool_def ended_value_def order_first_def split: semantics.splits option.splits)
  have "fact_update (se_newId env) (stamp_language w) [created_fact env w] = [stamp_language w (created_fact env w)]"
    by (simp add: fact_update_def fact_set_def)
  then show ?thesis using assms by (simp add: settle_fact_def none order_first_def)
qed

lemma first_settled: "settle_fact first_settle first_write [] = (settle_out INSERTED (Some ''knowledge_fact:old'') None, [first_row])"
proof -
  have "stamp_language first_write first_row = first_row" by (simp add: stamp_language_def history_samples)
  with settle_on_empty [of first_settle first_write] show ?thesis
    by (simp add: first_row_def [symmetric]) (simp add: history_samples)
qed

lemma two_writes:
  "(service_step (write_slot sample_write))\<^sup>*\<^sup>* \<lparr>mem_facts = [], mem_edges = []\<rparr>
     \<lparr>mem_facts = snd (settle_fact sample_settle sample_write [first_row]), mem_edges = []\<rparr>"
proof -
  let ?k = "write_slot sample_write"
  have "fact_step ?k [] (snd (settle_fact first_settle first_write []))"
    by (rule fact_step.settled) (simp_all add: history_samples write_slot_def)
  then have one: "fact_step ?k [] [first_row]" by (simp add: first_settled)
  have two: "fact_step ?k [first_row] (snd (settle_fact sample_settle sample_write [first_row]))"
    by (rule fact_step.settled) (simp_all add: first_row_fields, simp_all add: history_samples write_slot_def)
  have s1: "service_step ?k \<lparr>mem_facts = [], mem_edges = []\<rparr> \<lparr>mem_facts = [first_row], mem_edges = []\<rparr>"
    using service_step.statement [of ?k "\<lparr>mem_facts = [], mem_edges = []\<rparr>" "[first_row]"] one by simp
  have s2: "service_step ?k \<lparr>mem_facts = [first_row], mem_edges = []\<rparr>
      \<lparr>mem_facts = snd (settle_fact sample_settle sample_write [first_row]), mem_edges = []\<rparr>"
    using service_step.statement [of ?k "\<lparr>mem_facts = [first_row], mem_edges = []\<rparr>"] two by simp
  from s1 s2 show ?thesis by (meson rtranclp.rtrancl_refl rtranclp.rtrancl_into_rtrancl)
qed

lemma second_settled:
  "\<exists>n. snd (settle_fact sample_settle sample_write [first_row]) = [ended_row, n] \<and> kf_id n = ''knowledge_fact:new'' \<and>
     fact_open n \<and> slot_of n = write_slot sample_write \<and> holds_at 25 n"
proof -
  have "settle_fact sample_settle sample_write [first_row] =
     ((settle_out SUPERSEDED (Some (se_newId sample_settle)) (Some ''valid_time''))
        \<lparr>sr_supersededFactIds := [kf_id first_row], sr_bestOpponentId := Some (kf_id first_row)\<rparr>,
      [close_superseded ''system'' (se_newId sample_settle) None (fw_validFrom sample_write) first_row,
       (created_fact sample_settle sample_write)\<lparr>kf_trace := \<lparr>ct_decidedBy = Some ''valid_time'',
          ct_superseded = [kf_id first_row], ct_competing = [],
          ct_bestOpponent = Some (kf_id first_row), ct_decidedAt = Some (se_now sample_settle)\<rparr>\<rparr>])"
    by (rule settle_on_one) (simp_all add: first_row_fields, simp_all add: history_samples)
  then show ?thesis
    by (simp add: ended_row_def fact_open_def slot_of_def write_slot_def canonical_predicate_def holds_at_def
        created_fact_def Let_def history_samples)
qed

theorem one_value_at_a_time_witness:
  "\<not> (fact_open ended_row \<and> slot_of ended_row = write_slot sample_write \<and> holds_at 25 ended_row)"
proof
  assume e: "fact_open ended_row \<and> slot_of ended_row = write_slot sample_write \<and> holds_at 25 ended_row"
  obtain n where n: "snd (settle_fact sample_settle sample_write [first_row]) = [ended_row, n]" "kf_id n = ''knowledge_fact:new''"
    "fact_open n" "slot_of n = write_slot sample_write" "holds_at 25 n" using second_settled by blast
  have "ended_row = n"
    by (rule one_value_at_a_time [OF two_writes]) (use e n in \<open>simp_all, simp_all add: write_slot_def history_samples\<close>)
  then have "kf_id ended_row = ''knowledge_fact:new''" using n(2) by simp
  then show False by (simp add: ended_row_def close_superseded_def first_row_fields)
qed

definition disputed :: "string \<Rightarrow> string \<Rightarrow> int \<Rightarrow> knowledge_fact" where
  "disputed i obj from = (plain_fact i obj from)\<lparr>kf_status := Competing\<rparr>"

theorem resolution_keeps_disputes_two_sided_witness:
  "disputes_ok (snd (stamp_scope [''circle:a''] (settle_fact sample_settle sample_write
     [disputed ''a'' ''A'' 10, disputed ''b'' ''C'' 10])))"
proof (rule resolution_keeps_disputes_two_sided [THEN conjunct2])
  show "disputes_ok [disputed ''a'' ''A'' 10, disputed ''b'' ''C'' 10]"
    by (simp add: disputes_ok_def fact_has_rival_def rivals_def same_dispute_def standing_rival_def canonical_predicate_def
        disputed_def plain_fact_def)
qed (simp_all add: history_samples disputed_def plain_fact_def)

theorem named_values_keep_their_period_witness:
  "\<exists>r' \<in> set (named_supersession ''new'' [''knowledge_fact:old''] 20 [first_row\<lparr>kf_validUntil := Some 15\<rparr>]).
     kf_status r' = Superseded \<and> kf_validUntil r' = Some 15"
proof -
  let ?r = "first_row\<lparr>kf_validUntil := Some 15\<rparr>"
  have "distinct (map kf_id [?r])" "?r \<in> set [?r]" "kf_id ?r \<noteq> ''new''" "upright ?r"
    by (simp_all add: first_row_fields upright_def)
  from named_values_keep_their_period [OF this, where ids = "[''knowledge_fact:old'']" and t = 20]
  show ?thesis by (force simp: first_row_fields fact_open_def named_close_def close_superseded_def explicit_until_def)
qed

section \<open>What the writers do not do\<close>

text \<open>\<open>markSuperseded\<close> moves the end of a value that had already ended up to its successor's start, which
  the extractor's own supersession does not.\<close>

lemma judged_close_stretches:
  "map kf_validUntil (markSuperseded ''old'' ''new'' [(plain_fact ''old'' ''A'' 10)\<lparr>kf_validUntil := Some 15\<rparr>, plain_fact ''new'' ''B'' 20]) = [Some 20, None]"
  by (simp add: markSuperseded_def row_of_def fact_update_def fact_set_def close_by_dreams_def activate_competing_def plain_fact_def)

text \<open>It also makes a competing winner active without a look at its other rivals: with three values in
  dispute the one that is not part of the pair is left competing with nobody.\<close>

lemma third_rival_left_alone:
  "disputes_ok [disputed ''a'' ''A'' 10, disputed ''b'' ''B'' 20, disputed ''c'' ''C'' 20] \<and>
   \<not> disputes_ok (markSuperseded ''a'' ''b'' [disputed ''a'' ''A'' 10, disputed ''b'' ''B'' 20, disputed ''c'' ''C'' 20])"
  by (simp add: disputes_ok_def fact_has_rival_def rivals_def same_dispute_def standing_rival_def canonical_predicate_def
      disputed_def plain_fact_def markSuperseded_def row_of_def fact_update_def fact_set_def close_by_dreams_def
      activate_competing_def competing_needs_a_rival_def release_row_def no_trace_def)

text \<open>A claim that disputes an active record has no rival in the sense of \<open>fn::fact_has_rival\<close>, which asks
  for a competing row, so the next dispute of the entity to end makes it active.\<close>

lemma dispute_has_no_rival:
  "write_action 100 (Dispute ''said'' ''crm'') [record_fact ''crm'' ''gold'' 10, plain_fact ''said'' ''silver'' 20] =
     [record_fact ''crm'' ''gold'' 10, link_dispute ''crm'' (plain_fact ''said'' ''silver'' 20)] \<and>
   \<not> disputes_ok [record_fact ''crm'' ''gold'' 10, link_dispute ''crm'' (plain_fact ''said'' ''silver'' 20)]"
  by (simp add: disputes_ok_def fact_has_rival_def rivals_def standing_rival_def link_dispute_def open_row_def row_of_def
      fact_open_def fact_update_def fact_set_def record_fact_def plain_fact_def)

text \<open>Rivals are looked for by circle tags alone: rows of two team groups, which resolution never
  compares, count as each other's rivals.\<close>

lemma teams_rival:
  "slot_of ((disputed ''a'' ''A'' 10)\<lparr>kf_scope := [''team:x:g'']\<rparr>) \<noteq> slot_of ((disputed ''b'' ''B'' 20)\<lparr>kf_scope := [''team:y:g'']\<rparr>) \<and>
   rivals ((disputed ''a'' ''A'' 10)\<lparr>kf_scope := [''team:x:g'']\<rparr>) ((disputed ''b'' ''B'' 20)\<lparr>kf_scope := [''team:y:g'']\<rparr>)"
  by (simp add: slot_of_def rivals_def same_dispute_def standing_rival_def canonical_predicate_def disputed_def plain_fact_def
      is_group_tag_def isCircleTag_def CIRCLE_NAMESPACE_def)

text \<open>A personal write under an org connection resolves among the connection's group and is stamped with
  the user alone: the row is not in the slot it was resolved in.\<close>

definition team_ambient :: ambient where
  "team_ambient = \<lparr>amb_ctx = None, amb_job = None, amb_write = Some [''team:c:g''], amb_env = (\<lambda>_. None)\<rparr>"

lemma personal_write_leaves_its_slot:
  "writeGroupTags team_ambient = [''team:c:g''] \<and> filter is_group_tag (scopeForUser team_ambient (Some ''u'')) = []"
  by (simp add: team_ambient_def writeGroupTags_def scopeForUser_def actingCircleTags_def ambientWriteScope_def
      ctx_field_def Let_def userTag_def USER_NAMESPACE_def is_group_tag_def dedupe_def)

text \<open>With the flags unset a value a conversation states for a single-valued slot resolves as bitemporal,
  and two values of equal start are then both active in that slot.\<close>

definition promoted_write :: fact_write where
  "promoted_write = sample_write\<lparr>fw_semantics := bitemporal, fw_similarity := SLOT_EXACT_SIMILARITY_FLOOR, fw_validFrom := 10\<rparr>"

lemma promoted_slot_forks:
  "conflictSlotResolution (\<lambda>_. None) \<lparr>pd_predicateId = ''status'', pd_semantics = single_active, pd_status = Some ''active''\<rparr> Mention =
     (bitemporal, Some SLOT_EXACT_SIMILARITY_FLOOR) \<and>
   map kf_status (snd (settle_fact sample_settle promoted_write [first_row])) = [Active, Active]"
proof
  have cands: "fact_candidates promoted_write [first_row] = [first_row]"
  proof -
    have "write_slot promoted_write = write_slot sample_write"
      by (simp add: write_slot_def promoted_write_def cong: option.case_cong)
    then show ?thesis by (simp add: fact_candidates_def fact_open_def first_row_fields)
  qed
  have emb: "kf_embedding first_row = Some [1]" by (simp add: first_row_def created_fact_def Let_def history_samples)
  have pool: "slot_pool sample_settle promoted_write [first_row] = [first_row]"
    by (simp add: slot_pool_def similar_to_write_def overlaps_write_def intervals_overlap_def emb first_row_fields
        eff_similarity_def promoted_write_def history_samples SLOT_EXACT_SIMILARITY_FLOOR_def)
  have parts: "closed_values promoted_write [first_row] = []" "day_peers promoted_write [first_row] = []"
    "next_after promoted_write [first_row] = None" "ended_value promoted_write [first_row] = None"
    by (simp_all add: closed_values_def day_peers_def next_after_def order_first_def ended_value_def promoted_write_def
        first_row_fields history_samples)
  have "map kf_status (fact_update ''knowledge_fact:new'' (stamp_language promoted_write) [first_row, created_fact sample_settle promoted_write]) =
      [Active, Active]"
    by (simp add: fact_update_def fact_set_def first_row_fields created_fact_def Let_def stamp_language_def promoted_write_def history_samples)
  moreover have "fw_object promoted_write \<noteq> ''A''" "se_created sample_settle" "fw_semantics promoted_write = bitemporal"
    "se_newId sample_settle = ''knowledge_fact:new''"
    by (simp_all add: promoted_write_def history_samples)
  ultimately show "map kf_status (snd (settle_fact sample_settle promoted_write [first_row])) = [Active, Active]"
    by (simp add: settle_fact_def Let_def cands pool parts order_first_def first_row_fields(4) settle_succession_def)
qed (simp add: conflictSlotResolution_def conflictMentionFactSlotEnabled_def envFlagNotDisabled_def flag_text_def trim_def)

text \<open>Unset, slot canonicalization is on.\<close>

lemma canonicalization_is_on:
  "canonicalSlotFor (\<lambda>_. None) ''state_change'' None ''closed in March 2026'' (Some ''project'') Mention = Some ''status''"
  by code_simp

text \<open>A batch stamps its scopes after every fact of it was settled: inside a circle the second of two equal
  statements does not find the first, which one at a time it corroborates.\<close>

definition circle_ambient :: ambient where
  "circle_ambient = \<lparr>amb_ctx = None, amb_job = Some [''circle:a''], amb_write = None, amb_env = (\<lambda>_. None)\<rparr>"

definition circle_write :: "string \<Rightarrow> fact_write" where
  "circle_write origin = sample_write\<lparr>fw_semantics := append_only, fw_circles := [''circle:a''],
     fw_source := no_source\<lparr>fs_originKey := Some origin\<rparr>\<rparr>"

lemma circle_scope: "scopeForUser circle_ambient (fw_userId (circle_write x)) = [''circle:a'']"
  by (simp add: scopeForUser_def circle_ambient_def circle_write_def history_samples actingCircleTags_def ambientWriteScope_def)

lemma batch_is_not_one_by_one:
  defines "ws \<equiv> [(first_settle, circle_write ''x''), (sample_settle, circle_write ''y'')]"
  shows "map sr_outcome (fst (resolveAppendOnlyBatch circle_ambient ws [])) = [INSERTED, INSERTED] \<and>
    map sr_outcome (fst (resolve_each circle_ambient ws [])) = [INSERTED, CORROBORATED]"
proof -
  let ?r = "created_fact first_settle (circle_write ''x'')"
  have sem: "fw_semantics (circle_write z) = append_only" "fw_validUntil (circle_write z) = None" "fw_object (circle_write z) = ''B''"
    "origin_key_of (fw_source (circle_write z)) = z" for z
    by (simp_all add: circle_write_def origin_key_of_def history_samples)
  have env: "se_created first_settle" "se_newId first_settle = ''knowledge_fact:old''" "se_created sample_settle"
    by (simp_all add: history_samples)
  have lang: "stamp_language (circle_write ''x'') ?r = ?r" by (simp add: stamp_language_def circle_write_def history_samples)
  have first: "settle_fact first_settle (circle_write ''x'') [] = (settle_out INSERTED (Some ''knowledge_fact:old'') None, [?r])"
    using settle_on_empty [OF env(1), of "circle_write ''x''"] by (simp add: lang env)
  have r: "kf_id ?r = ''knowledge_fact:old''" "kf_status ?r = Active" "kf_retractedAt ?r = None" "kf_object ?r = ''B''"
    "origin_key_of (kf_source ?r) = ''x''"
    by (simp_all add: created_fact_def Let_def sem env)
  have tags: "slot_of ?r \<noteq> write_slot (circle_write ''y'')" "slot_of (?r\<lparr>kf_scope := [''circle:a'']\<rparr>) = write_slot (circle_write ''y'')"
    by (simp_all add: slot_of_def write_slot_def canonical_predicate_def created_fact_def Let_def is_group_tag_def
        circle_write_def history_samples)
  have apart: "fact_candidates (circle_write ''y'') [?r] = []" using tags(1) by (simp add: fact_candidates_def)
  have together: "fact_candidates (circle_write ''y'') [?r\<lparr>kf_scope := [''circle:a'']\<rparr>] = [?r\<lparr>kf_scope := [''circle:a'']\<rparr>]"
    using tags(2) r by (simp add: fact_candidates_def fact_open_def)
  have ended: "ended_value (circle_write ''y'') tb = None" for tb by (simp add: ended_value_def sem)
  have pool: "slot_pool sample_settle (circle_write ''y'') tb = []" for tb by (simp add: slot_pool_def sem)
  have two: "sr_outcome (fst (settle_fact sample_settle (circle_write ''y'') [?r])) = INSERTED"
    by (simp add: settle_fact_def Let_def apart ended pool env order_first_def sem settle_out_def)
  have two': "sr_outcome (fst (settle_fact sample_settle (circle_write ''y'') [?r\<lparr>kf_scope := [''circle:a'']\<rparr>])) = CORROBORATED"
    by (simp add: settle_fact_def Let_def together ended env order_first_def sem settle_out_def r later_recorded_def)
  have "snd (stamp_scope [''circle:a''] (settle_out INSERTED (Some ''knowledge_fact:old'') None, [?r])) = [?r\<lparr>kf_scope := [''circle:a'']\<rparr>]"
    by (simp add: stamp_scope_def settle_out_def fact_set_def r(1) env(2))
  then have call: "resolveFactCall circle_ambient first_settle (circle_write ''x'') [] =
      (settle_out INSERTED (Some ''knowledge_fact:old'') None, [?r\<lparr>kf_scope := [''circle:a'']\<rparr>])"
    unfolding resolveFactCall_def circle_scope first by (simp add: stamp_scope_def)
  have "fst (resolveFactCall circle_ambient sample_settle (circle_write ''y'') tb) = fst (settle_fact sample_settle (circle_write ''y'') tb)" for tb
    by (simp add: resolveFactCall_def stamp_scope_def split: prod.splits)
  with two two' show ?thesis
    by (simp add: ws_def resolveAppendOnlyBatch_def first call split_beta settle_out_def)
qed

text \<open>The lock on the slot ends with the settling, before the scope is stamped: of two values written to a
  single-valued slot of a circle at once, the second is settled against a table whose first row does not
  bear the circle's tag yet, and both end up active, over each other.\<close>

definition race_write :: "string \<Rightarrow> int \<Rightarrow> fact_write" where
  "race_write obj from = sample_write\<lparr>fw_object := obj, fw_validFrom := from, fw_circles := [''circle:a'']\<rparr>"

lemma fact_update_idle: "(\<And>r. f r = r) \<Longrightarrow> fact_update i f tb = tb"
  by (auto simp: fact_update_def fact_set_def intro!: map_idI split: option.split)

lemma circle_race_forks:
  "\<exists>r1 r2. snd (settle_fact sample_settle (race_write ''B'' 20) (snd (settle_fact first_settle (race_write ''A'' 10) []))) = [r1, r2] \<and>
     fw_semantics (race_write x t) = single_active \<and> fact_open r1 \<and> fact_open r2 \<and> rows_overlap r1 r2 \<and> kf_object r1 \<noteq> kf_object r2 \<and>
     slot_of (r1\<lparr>kf_scope := [''circle:a'']\<rparr>) = write_slot (race_write x t) \<and> slot_of (r2\<lparr>kf_scope := [''circle:a'']\<rparr>) = write_slot (race_write x t)"
proof -
  let ?a = "race_write ''A'' 10" and ?b = "race_write ''B'' 20"
  let ?r1 = "created_fact first_settle ?a" and ?r2 = "created_fact sample_settle ?b"
  have lang: "stamp_language (race_write y z) r = r" for y z r by (simp add: stamp_language_def race_write_def history_samples)
  have env: "se_created first_settle" "se_created sample_settle" "se_newId sample_settle \<noteq> kf_id ?r1"
    by (simp_all add: history_samples created_fact_def Let_def)
  have first: "snd (settle_fact first_settle ?a []) = [?r1]" using settle_on_empty [OF env(1), of ?a] by (simp add: lang)
  have apart: "slot_of ?r1 \<noteq> write_slot ?b"
    by (simp add: slot_of_def write_slot_def created_fact_def Let_def race_write_def history_samples is_group_tag_def)
  have none: "fact_candidates ?b [?r1] = []" "slot_pool sample_settle ?b [] = []" "ended_value ?b [] = None"
    using apart by (simp_all add: fact_candidates_def slot_pool_def ended_value_def order_first_def split: semantics.splits option.splits)
  have second: "snd (settle_fact sample_settle ?b [?r1]) = [?r1, ?r2]"
    using fact_update_idle [OF lang] by (simp add: settle_fact_def Let_def none env order_first_def)
  have "fact_open ?r1" "fact_open ?r2" "rows_overlap ?r1 ?r2" "kf_object ?r1 \<noteq> kf_object ?r2" "fw_semantics (race_write x t) = single_active"
    by (simp_all add: fact_open_def rows_overlap_def intervals_overlap_def created_fact_def Let_def race_write_def history_samples)
  moreover have "slot_of (?r1\<lparr>kf_scope := [''circle:a'']\<rparr>) = write_slot (race_write x t)" "slot_of (?r2\<lparr>kf_scope := [''circle:a'']\<rparr>) = write_slot (race_write x t)"
    by (simp_all add: slot_of_def write_slot_def canonical_predicate_def created_fact_def Let_def race_write_def history_samples is_group_tag_def)
  ultimately show ?thesis using first second by simp
qed

text \<open>An event-dated value that closes an earlier day and meets one value of its own day leaves that
  value competing with nobody: the winner stays active.\<close>

definition event_write :: fact_write where
  "event_write = sample_write\<lparr>fw_semantics := bitemporal_event, fw_validFrom := 2 * DAY\<rparr>"

lemma event_day_leaves_one_alone:
  "map kf_status (close_losers event_write ''n'' (closed_values event_write [plain_fact ''a'' ''A'' 0, plain_fact ''b'' ''C'' (2 * DAY)])
     [plain_fact ''a'' ''A'' 0, plain_fact ''b'' ''C'' (2 * DAY), plain_fact ''n'' ''B'' (2 * DAY)]) = [Superseded, Active, Active] \<and>
   map kf_id (day_peers event_write [plain_fact ''a'' ''A'' 0, plain_fact ''b'' ''C'' (2 * DAY)]) = [''b''] \<and>
   next_after event_write [plain_fact ''a'' ''A'' 0, plain_fact ''b'' ''C'' (2 * DAY)] = None"
  by (simp add: event_write_def closed_values_def day_peers_def next_after_def order_first_def day_floor_def DAY_def
      close_losers_def fact_update_def fact_set_def close_superseded_def plain_fact_def history_samples)

end
