(* ===== verification/KeyedMutex.thy ===== *)
theory KeyedMutex imports Prelude "HOL-Library.Multiset" begin

text \<open>
  The in-process mutex keyed by a string (\<open>src/common/keyed-mutex.ts\<close>) that serializes the fact
  resolutions of one slot and the commits of one candidate.  A call runs without interruption up to
  its first \<open>await\<close>: it finds the key held and waits for the holder's promise, or takes the key.  A
  waiter resumes once the promise it awaits is resolved and tests the key again.  The calls interleave
  freely, so the order in which the runtime wakes them is left open.
\<close>

text \<open>The map \<open>locks\<close> from keys to promises, the promises resolved so far and the next fresh one.\<close>

record keyed_mutex =
  km_locks :: "(string \<times> nat) list"
  km_resolved :: "nat list"
  km_fresh :: nat

text \<open>Where a call of \<open>run\<close> stands: it awaits the promise it found under the key, it runs its section
  and holds the key with a promise of its own, or it has returned or thrown.\<close>

datatype section_call = Awaiting string nat | Running string nat | Returned

definition new_mutex :: keyed_mutex where
  "new_mutex = \<lparr>km_locks = [], km_resolved = [], km_fresh = 0\<rparr>"

text \<open>One pass of the loop: \<open>locks.has\<close> and, when the key is free, the new promise and \<open>locks.set\<close>.\<close>

definition take_key :: "string \<Rightarrow> keyed_mutex \<Rightarrow> section_call \<times> keyed_mutex" where
  "take_key key mx = (case map_of (km_locks mx) key of
     Some p \<Rightarrow> (Awaiting key p, mx)
   | None \<Rightarrow> (Running key (km_fresh mx),
       mx\<lparr>km_locks := km_locks mx @ [(key, km_fresh mx)], km_fresh := Suc (km_fresh mx)\<rparr>))"

text \<open>The \<open>finally\<close>: \<open>locks.delete\<close>, then the promise is resolved.\<close>

definition release_key :: "string \<Rightarrow> nat \<Rightarrow> keyed_mutex \<Rightarrow> keyed_mutex" where
  "release_key key p mx = mx\<lparr>km_locks := filter (\<lambda>l. fst l \<noteq> key) (km_locks mx), km_resolved := p # km_resolved mx\<rparr>"

type_synonym mutex_state = "keyed_mutex \<times> section_call list"

definition run_called :: "string \<Rightarrow> mutex_state \<Rightarrow> mutex_state" where
  "run_called key s = (let (c, mx) = take_key key (fst s) in (mx, snd s @ [c]))"

definition run_woken :: "nat \<Rightarrow> mutex_state \<Rightarrow> mutex_state" where
  "run_woken i s = (case snd s ! i of
     Awaiting key p \<Rightarrow> (let (c, mx) = take_key key (fst s) in (mx, (snd s)[i := c]))
   | _ \<Rightarrow> s)"

definition run_ended :: "nat \<Rightarrow> mutex_state \<Rightarrow> mutex_state" where
  "run_ended i s = (case snd s ! i of
     Running key p \<Rightarrow> (release_key key p (fst s), (snd s)[i := Returned])
   | _ \<Rightarrow> s)"

definition can_wake :: "nat \<Rightarrow> mutex_state \<Rightarrow> bool" where
  "can_wake i s \<longleftrightarrow> i < length (snd s) \<and> (case snd s ! i of Awaiting key p \<Rightarrow> p \<in> set (km_resolved (fst s)) | _ \<Rightarrow> False)"

definition can_end :: "nat \<Rightarrow> mutex_state \<Rightarrow> bool" where
  "can_end i s \<longleftrightarrow> i < length (snd s) \<and> (case snd s ! i of Running key p \<Rightarrow> True | _ \<Rightarrow> False)"

text \<open>The steps that serve calls already made, and all steps.\<close>

inductive serve_step :: "mutex_state \<Rightarrow> mutex_state \<Rightarrow> bool" where
  woken: "can_wake i s \<Longrightarrow> serve_step s (run_woken i s)"
| ended: "can_end i s \<Longrightarrow> serve_step s (run_ended i s)"

inductive mutex_step :: "mutex_state \<Rightarrow> mutex_state \<Rightarrow> bool" where
  called: "mutex_step s (run_called key s)"
| served: "serve_step s s' \<Longrightarrow> mutex_step s s'"

section \<open>The invariant\<close>

fun held_by :: "section_call \<Rightarrow> (string \<times> nat) multiset" where
  "held_by (Running key p) = {#(key, p)#}"
| "held_by _ = {#}"

definition held_keys :: "section_call list \<Rightarrow> (string \<times> nat) multiset" where
  "held_keys cs = sum_list (map held_by cs)"

fun wait_ok :: "keyed_mutex \<Rightarrow> section_call \<Rightarrow> bool" where
  "wait_ok mx (Awaiting key p) \<longleftrightarrow> p \<in> set (km_resolved mx) \<or> (key, p) \<in> set (km_locks mx)"
| "wait_ok mx _ \<longleftrightarrow> True"

definition locks_ok :: "keyed_mutex \<Rightarrow> bool" where
  "locks_ok mx \<longleftrightarrow> distinct (map fst (km_locks mx)) \<and> distinct (map snd (km_locks mx)) \<and>
    (\<forall>l\<in>set (km_locks mx). snd l < km_fresh mx \<and> snd l \<notin> set (km_resolved mx)) \<and>
    (\<forall>p\<in>set (km_resolved mx). p < km_fresh mx)"

definition mutex_ok :: "mutex_state \<Rightarrow> bool" where
  "mutex_ok s \<longleftrightarrow> locks_ok (fst s) \<and> held_keys (snd s) = mset (km_locks (fst s)) \<and> list_all (wait_ok (fst s)) (snd s)"

lemma held_keys_simps [simp]:
  "held_keys [] = {#}" "held_keys (cs @ [c]) = held_keys cs + held_by c"
  by (simp_all add: held_keys_def)

lemma held_none: "(\<forall>c\<in>set cs. held_by c = {#}) \<Longrightarrow> held_keys cs = {#}"
  by (induction cs) (simp_all add: held_keys_def)

lemma held_keys_update:
  "i < length cs \<Longrightarrow> held_keys (cs[i := c]) + held_by (cs ! i) = held_keys cs + held_by c"
proof (induction cs arbitrary: i)
  case (Cons x xs)
  then show ?case by (cases i) (simp_all add: held_keys_def ac_simps)
qed simp

lemma take_key_cases:
  assumes "take_key key mx = (c, mx')"
  obtains (busy) p where "map_of (km_locks mx) key = Some p" "c = Awaiting key p" "mx' = mx"
  | (free) "key \<notin> fst ` set (km_locks mx)" "c = Running key (km_fresh mx)"
      "mx' = mx\<lparr>km_locks := km_locks mx @ [(key, km_fresh mx)], km_fresh := Suc (km_fresh mx)\<rparr>"
proof (cases "map_of (km_locks mx) key")
  case None
  with assms show thesis by (intro free) (simp_all add: take_key_def map_of_eq_None_iff)
next
  case (Some p)
  with assms show thesis by (intro busy [of p]) (simp_all add: take_key_def)
qed

text \<open>Taking a key preserves the lock table, adds what the call now holds, and loses no waiter.\<close>

lemma take_key_ok:
  assumes t: "take_key key mx = (c, mx')" and ok: "locks_ok mx"
  shows "locks_ok mx' \<and> mset (km_locks mx') = mset (km_locks mx) + held_by c \<and> wait_ok mx' c \<and>
    (\<forall>d. wait_ok mx d \<longrightarrow> wait_ok mx' d)"
  using t
proof (cases rule: take_key_cases)
  case (busy p)
  with ok show ?thesis by (simp add: map_of_SomeD)
next
  case free
  have old: "wait_ok mx' d" if "wait_ok mx d" for d using that free by (cases d) auto
  have "km_fresh mx \<notin> snd ` set (km_locks mx)" "km_fresh mx \<notin> set (km_resolved mx)"
    using ok by (auto simp: locks_ok_def)
  moreover have "\<forall>l\<in>set (km_locks mx). snd l < Suc (km_fresh mx)" "\<forall>p\<in>set (km_resolved mx). p < Suc (km_fresh mx)"
    using ok by (auto simp: locks_ok_def less_Suc_eq)
  ultimately have "locks_ok mx'" using ok free(1) unfolding free(3) locks_ok_def by simp
  with old show ?thesis by (auto simp: free)
qed

lemma release_locks_ok:
  assumes "locks_ok mx" "(key, p) \<in> set (km_locks mx)"
  shows "locks_ok (release_key key p mx)"
proof -
  have "snd l \<noteq> p" if "l \<in> set (km_locks mx)" "fst l \<noteq> key" for l
  proof
    assume "snd l = p"
    with assms that have "l = (key, p)" unfolding locks_ok_def
      by (metis distinct_map inj_onD snd_conv)
    with that show False by simp
  qed
  with assms show ?thesis unfolding locks_ok_def release_key_def
    by (auto simp: distinct_map inj_on_def)
qed

lemma filter_other_keys:
  "distinct (map fst xs) \<Longrightarrow> (key, p) \<in> set xs \<Longrightarrow> mset (filter (\<lambda>l. fst l \<noteq> key) xs) + {#(key, p)#} = mset xs"
proof (induction xs)
  case (Cons x xs)
  show ?case
  proof (cases "x = (key, p)")
    case True
    with Cons.prems have "filter (\<lambda>l. fst l \<noteq> key) xs = xs" by (auto simp: filter_id_conv image_iff)
    with True show ?thesis by simp
  next
    case False
    with Cons.prems have "(key, p) \<in> set xs" "fst x \<noteq> key" by (auto simp: image_iff)
    with Cons show ?thesis by simp
  qed
qed simp

lemma release_wait_ok: "wait_ok mx c \<Longrightarrow> locks_ok mx \<Longrightarrow> (key, p) \<in> set (km_locks mx) \<Longrightarrow> wait_ok (release_key key p mx) c"
proof (cases c)
  case (Awaiting k q)
  assume w: "wait_ok mx c" "locks_ok mx" "(key, p) \<in> set (km_locks mx)"
  have "q = p" if "(key, q) \<in> set (km_locks mx)"
    using w(2,3) that by (auto simp: locks_ok_def dest: eq_key_imp_eq_value)
  with w(1) Awaiting show ?thesis by (auto simp: release_key_def)
qed simp_all

lemma called_ok: "mutex_ok s \<Longrightarrow> mutex_ok (run_called key s)"
proof -
  assume ok: "mutex_ok s"
  obtain c mx where t: "take_key key (fst s) = (c, mx)" by fastforce
  from ok take_key_ok [OF t] show ?thesis
    by (auto simp: mutex_ok_def run_called_def t list_all_iff)
qed

lemma woken_ok:
  assumes ok: "mutex_ok s" and w: "can_wake i s"
  shows "mutex_ok (run_woken i s)"
proof -
  from w obtain key p where i: "i < length (snd s)" "snd s ! i = Awaiting key p"
    by (auto simp: can_wake_def split: section_call.splits)
  obtain c mx where t: "take_key key (fst s) = (c, mx)" by fastforce
  have "held_keys ((snd s)[i := c]) = held_keys (snd s) + held_by c"
    using held_keys_update [OF i(1), of c] i(2) by simp
  moreover have "list_all (wait_ok mx) ((snd s)[i := c])"
    using ok take_key_ok [OF t] by (auto simp: mutex_ok_def list_all_iff dest!: set_update_subset_insert [THEN subsetD])
  ultimately show ?thesis using ok take_key_ok [OF t] by (simp add: mutex_ok_def run_woken_def i t)
qed

lemma running_locked:
  assumes "mutex_ok s" "i < length (snd s)" "snd s ! i = Running key p"
  shows "(key, p) \<in> set (km_locks (fst s))"
proof -
  have "held_keys (snd s) = held_keys ((snd s)[i := Returned]) + {#(key, p)#}"
    using held_keys_update [OF assms(2), of Returned] assms(3) by simp
  then have "(key, p) \<in># held_keys (snd s)" by simp
  with assms(1) show ?thesis by (simp add: mutex_ok_def)
qed

lemma ended_ok:
  assumes ok: "mutex_ok s" and e: "can_end i s"
  shows "mutex_ok (run_ended i s)"
proof -
  from e obtain key p where i: "i < length (snd s)" "snd s ! i = Running key p"
    by (auto simp: can_end_def split: section_call.splits)
  note l = running_locked [OF ok i]
  from ok have lk: "locks_ok (fst s)" by (simp add: mutex_ok_def)
  have "held_keys ((snd s)[i := Returned]) + {#(key, p)#} = mset (km_locks (fst s))"
    using held_keys_update [OF i(1), of Returned] i(2) ok by (simp add: mutex_ok_def)
  also have "\<dots> = mset (filter (\<lambda>l. fst l \<noteq> key) (km_locks (fst s))) + {#(key, p)#}"
    using filter_other_keys [OF _ l] lk by (simp add: locks_ok_def)
  finally have "held_keys ((snd s)[i := Returned]) = mset (km_locks (release_key key p (fst s)))"
    by (simp add: release_key_def)
  moreover have "list_all (wait_ok (release_key key p (fst s))) ((snd s)[i := Returned])"
    using ok release_wait_ok [OF _ lk l]
    by (auto simp: mutex_ok_def list_all_iff dest!: set_update_subset_insert [THEN subsetD])
  ultimately show ?thesis using release_locks_ok [OF lk l] by (simp add: mutex_ok_def run_ended_def i)
qed

lemma serve_step_ok: "serve_step s s' \<Longrightarrow> mutex_ok s \<Longrightarrow> mutex_ok s'"
  by (induction rule: serve_step.induct) (auto intro: woken_ok ended_ok)

lemma mutex_step_ok: "mutex_step s s' \<Longrightarrow> mutex_ok s \<Longrightarrow> mutex_ok s'"
  by (induction rule: mutex_step.induct) (auto intro: called_ok serve_step_ok)

interpretation mutex: state_machine mutex_step mutex_ok
  by unfold_locales (rule mutex_step_ok)

interpretation serving: state_machine serve_step mutex_ok
  by unfold_locales (rule serve_step_ok)

lemma new_mutex_ok: "mutex_ok (new_mutex, [])"
  by (simp add: mutex_ok_def locks_ok_def new_mutex_def)

section \<open>Every call is served\<close>

definition unfinished :: "section_call list \<Rightarrow> nat" where
  "unfinished cs = length (filter (\<lambda>c. c \<noteq> Returned) cs)"

fun ready :: "nat list \<Rightarrow> section_call \<Rightarrow> bool" where
  "ready ps (Awaiting key p) \<longleftrightarrow> p \<in> set ps"
| "ready ps _ \<longleftrightarrow> False"

text \<open>The steps left: each section that still has to end can wake every call once more.\<close>

definition steps_left :: "mutex_state \<Rightarrow> nat" where
  "steps_left s = unfinished (snd s) * Suc (length (snd s)) + length (filter (ready (km_resolved (fst s))) (snd s))"

lemma length_filter_update:
  "i < length xs \<Longrightarrow> length (filter Q (xs[i := x])) + of_bool (Q (xs ! i)) = length (filter Q xs) + of_bool (Q x)"
proof (induction xs arbitrary: i)
  case (Cons y ys)
  then show ?case by (cases i) auto
qed simp

lemma woken_less:
  assumes ok: "mutex_ok s" and w: "can_wake i s"
  shows "steps_left (run_woken i s) < steps_left s \<and> length (snd (run_woken i s)) = length (snd s)"
proof -
  from w obtain key p where i: "i < length (snd s)" "snd s ! i = Awaiting key p" "p \<in> set (km_resolved (fst s))"
    by (auto simp: can_wake_def split: section_call.splits)
  obtain c mx where t: "take_key key (fst s) = (c, mx)" by fastforce
  from ok have lk: "locks_ok (fst s)" by (simp add: mutex_ok_def)
  have res: "km_resolved mx = km_resolved (fst s)" "\<not> ready (km_resolved (fst s)) c" "c \<noteq> Returned"
    using t lk by (cases rule: take_key_cases; auto simp: locks_ok_def dest!: map_of_SomeD)+
  have u: "unfinished ((snd s)[i := c]) = unfinished (snd s)"
    using length_filter_update [OF i(1), of "\<lambda>c. c \<noteq> Returned" c] i(2) res(3) by (simp add: unfinished_def)
  have "Suc (length (filter (ready (km_resolved (fst s))) ((snd s)[i := c]))) = length (filter (ready (km_resolved (fst s))) (snd s))"
    using length_filter_update [OF i(1), of "ready (km_resolved (fst s))" c] i(2,3) res(2) by simp
  then show ?thesis by (simp add: run_woken_def i t steps_left_def res u)
qed

lemma ended_less:
  assumes "can_end i s"
  shows "steps_left (run_ended i s) < steps_left s \<and> length (snd (run_ended i s)) = length (snd s)"
proof -
  from assms obtain key p where i: "i < length (snd s)" "snd s ! i = Running key p"
    by (auto simp: can_end_def split: section_call.splits)
  let ?n = "length (snd s)"
  have u: "Suc (unfinished ((snd s)[i := Returned])) = unfinished (snd s)"
    using length_filter_update [OF i(1), of "\<lambda>c. c \<noteq> Returned" Returned] i(2) by (simp add: unfinished_def)
  have "length (filter (ready (p # km_resolved (fst s))) ((snd s)[i := Returned])) \<le> ?n"
    using length_filter_le [of _ "(snd s)[i := Returned]"] by simp
  then show ?thesis unfolding steps_left_def run_ended_def u [symmetric]
    by (simp add: i release_key_def)
qed

lemma serve_less: "serve_step s s' \<Longrightarrow> mutex_ok s \<Longrightarrow> steps_left s' < steps_left s"
  by (induction rule: serve_step.induct) (auto dest: woken_less ended_less)

lemma serve_bounded: "(serve_step ^^ n) s s' \<Longrightarrow> mutex_ok s \<Longrightarrow> n + steps_left s' \<le> steps_left s \<and> mutex_ok s'"
proof (induction n arbitrary: s')
  case (Suc n)
  then obtain t where "(serve_step ^^ n) s t" "serve_step t s'" by auto
  with Suc.IH [of t] Suc.prems(2) serve_less [of t s'] serve_step_ok [of t s'] show ?case by auto
qed simp

text \<open>A call that has not returned can move: a waiter's promise is resolved, or its holder is running.\<close>

lemma stuck_all_returned:
  assumes ok: "mutex_ok s" and stuck: "\<And>s'. \<not> serve_step s s'"
  shows "set (snd s) \<subseteq> {Returned}"
proof
  fix c assume c: "c \<in> set (snd s)"
  then obtain i where i: "i < length (snd s)" "snd s ! i = c" by (auto simp: in_set_conv_nth)
  have no_run: "\<not> can_end j s" "\<not> can_wake j s" for j using stuck serve_step.intros by blast+
  have none: "held_by d = {#}" if "d \<in> set (snd s)" for d
  proof -
    from that obtain j where "j < length (snd s)" "snd s ! j = d" by (auto simp: in_set_conv_nth)
    with no_run(1) [of j] show ?thesis by (cases d) (auto simp: can_end_def)
  qed
  then have "held_keys (snd s) = {#}" by (simp add: held_none)
  with ok have "km_locks (fst s) = []" by (simp add: mutex_ok_def)
  with ok c have "p \<in> set (km_resolved (fst s))" if "c = Awaiting key p" for key p
    using that by (auto simp: mutex_ok_def list_all_iff)
  with no_run [of i] i show "c \<in> {Returned}" by (cases c) (auto simp: can_end_def can_wake_def)
qed

section \<open>The properties\<close>

text \<open>C25: In every interleaving of calls, wake-ups and ends, the running sections hold pairwise different
  keys, the lock map has exactly one entry per running section (so it is empty when nothing runs), and
  every waiting call awaits a promise that is already resolved or that a running section of the same
  key will resolve: no wake-up is lost.\<close>

theorem sections_exclude_each_other:
  assumes "mutex_step\<^sup>*\<^sup>* (new_mutex, []) s"
  shows "distinct (map fst (km_locks (fst s))) \<and> held_keys (snd s) = mset (km_locks (fst s)) \<and> list_all (wait_ok (fst s)) (snd s)"
  using mutex.inv_steps [OF assms new_mutex_ok] by (simp add: mutex_ok_def locks_ok_def)

text \<open>C24: Whatever calls have been made, serving them ends: no schedule of wake-ups and ends takes more
  than \<open>steps_left\<close> steps, and where no step is left every call has returned.  So a waiting call
  always gets the key, once the sections before it end.\<close>

theorem every_call_is_served:
  assumes "mutex_step\<^sup>*\<^sup>* (new_mutex, []) s"
  shows "((serve_step ^^ n) s s' \<longrightarrow> n \<le> steps_left s) \<and>
    (serve_step\<^sup>*\<^sup>* s s' \<longrightarrow> (\<forall>s''. \<not> serve_step s' s'') \<longrightarrow> set (snd s') \<subseteq> {Returned})"
proof -
  from mutex.inv_steps [OF assms new_mutex_ok] have ok: "mutex_ok s" .
  show ?thesis
    using serve_bounded [OF _ ok, of n s'] stuck_all_returned [of s'] serving.inv_steps [of s s'] ok by auto
qed

section \<open>Samples\<close>

text \<open>Two calls for one key, the second waiting for the first.\<close>

definition two_calls :: mutex_state where
  "two_calls = run_called ''k'' (run_called ''k'' (new_mutex, []))"

lemma two_calls_value:
  "two_calls = (\<lparr>km_locks = [(''k'', 0)], km_resolved = [], km_fresh = 1\<rparr>, [Running ''k'' 0, Awaiting ''k'' 0])"
  by (simp add: two_calls_def run_called_def take_key_def new_mutex_def)

lemma two_calls_reached: "mutex_step\<^sup>*\<^sup>* (new_mutex, []) two_calls"
  unfolding two_calls_def by (meson mutex_step.called rtranclp.rtrancl_into_rtrancl rtranclp.rtrancl_refl)

theorem sections_exclude_each_other_witness:
  "distinct (map fst (km_locks (fst two_calls))) \<and> held_keys (snd two_calls) = {#(''k'', 0)#} \<and> list_all (wait_ok (fst two_calls)) (snd two_calls)"
  using sections_exclude_each_other [OF two_calls_reached] by (simp add: two_calls_value)

text \<open>The waiter is served after the first section ends: four steps, within the bound of six.\<close>

definition both_served :: mutex_state where
  "both_served = run_ended 1 (run_woken 1 (run_ended 0 two_calls))"

lemma both_served_value: "both_served = (\<lparr>km_locks = [], km_resolved = [1, 0], km_fresh = 2\<rparr>, [Returned, Returned])"
  by (simp add: both_served_def two_calls_value run_ended_def run_woken_def release_key_def take_key_def)

lemma both_served_steps: "(serve_step ^^ 3) two_calls both_served"
proof -
  have a: "serve_step two_calls (run_ended 0 two_calls)"
    by (rule ended) (simp add: can_end_def two_calls_value)
  have b: "serve_step (run_ended 0 two_calls) (run_woken 1 (run_ended 0 two_calls))"
    by (rule woken) (simp add: can_wake_def two_calls_value run_ended_def release_key_def)
  have c: "serve_step (run_woken 1 (run_ended 0 two_calls)) both_served"
    unfolding both_served_def
    by (rule ended) (simp add: can_end_def two_calls_value run_ended_def run_woken_def release_key_def take_key_def)
  from a b c show ?thesis by (auto simp: numeral_3_eq_3)
qed

theorem every_call_is_served_witness: "3 \<le> steps_left two_calls \<and> set (snd both_served) \<subseteq> {Returned}"
proof -
  have stuck: "\<not> serve_step both_served t" for t
    by (auto simp: both_served_value can_wake_def can_end_def less_Suc_eq elim!: serve_step.cases)
  have "serve_step\<^sup>*\<^sup>* two_calls both_served" by (rule relpowp_imp_rtranclp [OF both_served_steps])
  with every_call_is_served [OF two_calls_reached, of 3 both_served] both_served_steps stuck show ?thesis by blast
qed

text \<open>The wake-up is not a hand-over: a call made after the holder left and before the waiter resumes
  takes the key first, and the waiter waits again, now for that call's promise.\<close>

lemma latecomer_overtakes:
  "snd (run_woken 1 (run_called ''k'' (run_ended 0 two_calls))) = [Returned, Awaiting ''k'' 1, Running ''k'' 1]"
  by (simp add: two_calls_value run_called_def run_woken_def run_ended_def release_key_def take_key_def)

end
