(* ===== verification/Idempotency.thy ===== *)
theory Idempotency imports JsValue TextOps "HOL-Library.Multiset" "HOL-Library.Char_ord" "HOL-Library.List_Lexorder" begin

text \<open>
  Writes retried under an \<open>Idempotency-Key\<close> (\<open>src/idempotency/idempotency.interceptor.ts\<close>,
  \<open>src/idempotency/idempotency-store.service.ts\<close>, migration 0179).  The first request under a
  credential and a key claims a row, its answer completes the row, a server error frees it; a retry
  gets the stored answer.  Forgetting a user erases the rows of the requests made for the user
  (\<open>src/entities/user-forget.service.ts\<close>).  A statement that fails has not taken effect.  Every statement on the table is one step, and the requests of all processes
  interleave; they read one clock.  The digest of the fingerprint is an argument.  A body stands as its
  JSON text, None for undefined and null, which are stored and sent alike.
\<close>

section \<open>The fingerprint\<close>

text \<open>JSON with the keys sorted; None where \<open>JSON.stringify\<close> gives undefined.  A template writes that as
  text, \<open>join\<close> as nothing.\<close>

fun canonical :: "js_lib \<Rightarrow> jval \<Rightarrow> string option" where
  "canonical js (JArr xs) =
     Some (json_wrap (CHR ''['') (map (\<lambda>x. case canonical js x of None \<Rightarrow> [] | Some t \<Rightarrow> t) xs) (CHR '']''))"
| "canonical js (JObj kvs) =
     Some (json_wrap (CHR ''{'')
       (map (\<lambda>(k, t). json_string k @ '':'' @ (case t of None \<Rightarrow> ''undefined'' | Some s \<Rightarrow> s))
         (sort_key fst (map (\<lambda>kv. (fst kv, canonical js (snd kv))) (filter (\<lambda>kv. snd kv \<noteq> JUndef) kvs))))
       (CHR ''}''))"
| "canonical js v = json_stringify js (nullish_or v JNull)"

definition fingerprintOf :: "js_lib \<Rightarrow> (string \<Rightarrow> string) \<Rightarrow> string \<Rightarrow> string \<Rightarrow> jval \<Rightarrow> jval \<Rightarrow> jval \<Rightarrow> string" where
  "fingerprintOf js sha route meth params query body =
     sha (case canonical js (JObj [(''method'', JStr meth), (''route'', JStr route),
         (''params'', nullish_or params (JObj [])), (''query'', nullish_or query (JObj [])),
         (''body'', nullish_or body JNull)]) of None \<Rightarrow> [] | Some t \<Rightarrow> t)"

section \<open>The gate\<close>

definition UNSAFE :: "string list" where
  "UNSAFE = [''POST'', ''PUT'', ''PATCH'', ''DELETE'']"

definition key_char :: "char \<Rightarrow> bool" where
  "key_char c \<longleftrightarrow> 0x21 \<le> (of_char c :: nat) \<and> (of_char c :: nat) \<le> 0x7E"

definition valid_key :: "string \<Rightarrow> bool" where
  "valid_key k \<longleftrightarrow> k \<noteq> [] \<and> length k \<le> 255 \<and> list_all key_char k"

datatype gate = PassThrough | BadKey | Keyed string

text \<open>The header's values (None: no header), the method, whether the caller is authenticated and whether
  the route writes its own response.\<close>

definition intercept :: "string list option \<Rightarrow> string \<Rightarrow> bool \<Rightarrow> bool \<Rightarrow> gate" where
  "intercept header meth authenticated ownResponse =
     (case header of
        None \<Rightarrow> PassThrough
      | Some hs \<Rightarrow>
          if meth \<notin> set UNSAFE \<or> \<not> authenticated \<or> ownResponse then PassThrough
          else (case hs of k # _ \<Rightarrow> if valid_key k then Keyed k else BadKey | [] \<Rightarrow> BadKey))"

definition successStatus :: "int option \<Rightarrow> string \<Rightarrow> int" where
  "successStatus httpCode meth = (case httpCode of Some c \<Rightarrow> c | None \<Rightarrow> if meth = ''POST'' then 201 else 200)"

section \<open>The store\<close>

definition IDEMPOTENCY_TTL_MS :: int where
  "IDEMPOTENCY_TTL_MS = 24 * 60 * 60 * 1000"

record idem_request =
  iq_scopeKey :: string
  iq_key :: string
  iq_method :: string
  iq_route :: string
  iq_fingerprint :: string
  iq_userId :: "string option"

datatype key_state = KeyPending | KeyDone

record key_row =
  ik_id :: nat
  ik_scopeKey :: string
  ik_key :: string
  ik_method :: string
  ik_route :: string
  ik_fingerprint :: string
  ik_state :: key_state
  ik_status :: "int option"
  ik_body :: "string option"
  ik_userId :: "string option"
  ik_expiresAt :: int

type_synonym key_table = "key_row list"

definition row_key :: "key_row \<Rightarrow> string \<times> string" where
  "row_key r = (ik_scopeKey r, ik_key r)"

definition request_key :: "idem_request \<Rightarrow> string \<times> string" where
  "request_key q = (iq_scopeKey q, iq_key q)"

datatype decision = Proceed nat | Replay int "string option" | InFlight | Mismatch

definition decide_row :: "key_row \<Rightarrow> string \<Rightarrow> decision" where
  "decide_row row fingerprint =
     (if ik_fingerprint row \<noteq> fingerprint then Mismatch
      else if ik_state row = KeyPending then InFlight
      else Replay (case ik_status row of None \<Rightarrow> 200 | Some s \<Rightarrow> s) (ik_body row))"

definition find_key :: "idem_request \<Rightarrow> key_table \<Rightarrow> key_row option" where
  "find_key q tb = find (\<lambda>r. row_key r = request_key q) tb"

definition delete_key :: "nat \<Rightarrow> key_table \<Rightarrow> key_table" where
  "delete_key i tb = filter (\<lambda>r. ik_id r \<noteq> i) tb"

definition pending_row :: "idem_request \<Rightarrow> nat \<Rightarrow> int \<Rightarrow> key_row" where
  "pending_row q i now =
     \<lparr>ik_id = i, ik_scopeKey = iq_scopeKey q, ik_key = iq_key q, ik_method = iq_method q, ik_route = iq_route q,
      ik_fingerprint = iq_fingerprint q, ik_state = KeyPending, ik_status = None, ik_body = None,
      ik_userId = (if truthy_str (iq_userId q) then iq_userId q else None), ik_expiresAt = now + IDEMPOTENCY_TTL_MS\<rparr>"

text \<open>None: the unique index refuses the row.\<close>

definition create_key :: "idem_request \<Rightarrow> nat \<Rightarrow> int \<Rightarrow> key_table \<Rightarrow> key_table option" where
  "create_key q i now tb =
     (if list_ex (\<lambda>r. row_key r = request_key q) tb then None else Some (tb @ [pending_row q i now]))"

definition complete_key :: "nat \<Rightarrow> int \<Rightarrow> string option \<Rightarrow> key_table \<Rightarrow> key_table" where
  "complete_key i status body tb =
     map (\<lambda>r. if ik_id r = i then r\<lparr>ik_state := KeyDone, ik_status := Some status, ik_body := body\<rparr> else r) tb"

text \<open>The sweep of one tenant, a thousand rows at a time.\<close>

definition expired_ids :: "int \<Rightarrow> key_table \<Rightarrow> nat list" where
  "expired_ids now tb = take 1000 (map ik_id (filter (\<lambda>r. ik_expiresAt r < now) tb))"

lemma expired_ids_in: "set (expired_ids now tb) \<subseteq> ik_id ` {r \<in> set tb. ik_expiresAt r < now}"
  by (auto simp: expired_ids_def dest: in_set_takeD)

lemma sweep_keys_smaller:
  assumes "expired_ids now tb \<noteq> []"
  shows "length (filter (\<lambda>r. ik_id r \<notin> set (expired_ids now tb)) tb) < length tb"
proof -
  obtain i where "i \<in> set (expired_ids now tb)" using assms by (cases "expired_ids now tb") auto
  moreover from this expired_ids_in obtain r where "r \<in> set tb" "ik_id r = i" by blast
  ultimately show ?thesis by (intro length_filter_less) auto
qed

function sweep_keys :: "int \<Rightarrow> nat \<Rightarrow> key_table \<Rightarrow> nat \<times> key_table" where
  "sweep_keys now n tb =
     (let ids = expired_ids now tb
      in if ids = [] then (n, tb) else sweep_keys now (n + length ids) (filter (\<lambda>r. ik_id r \<notin> set ids) tb))"
  by pat_completeness auto

termination
  by (relation "measure (\<lambda>(_, _, tb). length tb)") (auto simp: sweep_keys_smaller)

declare sweep_keys.simps [simp del]

section \<open>A request, statement by statement\<close>

text \<open>Where a keyed request stands: in \<open>begin\<close>, in the handler, at the statement that stores the answer
  (\<open>True\<close>: of a thrown client error) or frees the key, or answered.\<close>

datatype idem_phase =
    Selecting nat
  | Deleting nat nat
  | Creating nat
  | Handling nat
  | Storing nat int "string option" bool
  | Freeing nat
  | Answered nat int "string option"
  | Replayed int "string option"
  | AnsweredConflict
  | AnsweredMismatch
  | Failed

definition begin_select :: "idem_request \<Rightarrow> nat \<Rightarrow> int \<Rightarrow> key_table \<Rightarrow> idem_phase" where
  "begin_select q attempt now tb =
     (case find_key q tb of
        None \<Rightarrow> Creating attempt
      | Some row \<Rightarrow>
          if now < ik_expiresAt row
          then (case decide_row row (iq_fingerprint q) of
                  Mismatch \<Rightarrow> AnsweredMismatch | InFlight \<Rightarrow> AnsweredConflict | Replay s b \<Rightarrow> Replayed s b
                | Proceed i \<Rightarrow> Handling i)
          else Deleting attempt (ik_id row))"

definition begin_create :: "idem_request \<Rightarrow> nat \<Rightarrow> nat \<Rightarrow> int \<Rightarrow> key_table \<Rightarrow> idem_phase \<times> key_table" where
  "begin_create q attempt i now tb =
     (case create_key q i now tb of
        Some tb' \<Rightarrow> (Handling i, tb')
      | None \<Rightarrow> (if attempt = 0 then Selecting 1 else AnsweredConflict, tb))"

text \<open>How the handler ends: with a body, with an \<open>HttpException\<close> of a status below 500, or otherwise.\<close>

datatype handler_end = Returns "string option" | ClientError int "string option" | ServerError

definition handled :: "nat \<Rightarrow> int \<Rightarrow> handler_end \<Rightarrow> idem_phase" where
  "handled i success e =
     (case e of Returns b \<Rightarrow> Storing i success b False
      | ClientError s b \<Rightarrow> Storing i s b True
      | ServerError \<Rightarrow> Freeing i)"

text \<open>A failing \<open>complete\<close> of a returned body is caught like a server error; one in the catch block is thrown.\<close>

definition store_failed :: "nat \<Rightarrow> bool \<Rightarrow> idem_phase" where
  "store_failed i thrown = (if thrown then Failed else Freeing i)"

record idem_run =
  ir_id :: nat
  ir_request :: idem_request
  ir_at :: int
  ir_freed :: bool   \<comment> \<open>its row was released, or erased with the rows of its user\<close>

record idem_state =
  is_table :: key_table
  is_now :: int
  is_next :: nat
  is_calls :: "(idem_request \<times> idem_phase) list"
  is_runs :: "idem_run list"   \<comment> \<open>the runs of handlers begun so far\<close>

definition no_requests :: idem_state where
  "no_requests = \<lparr>is_table = [], is_now = 0, is_next = 0, is_calls = [], is_runs = []\<rparr>"

definition set_phase :: "nat \<Rightarrow> idem_phase \<Rightarrow> idem_state \<Rightarrow> idem_state" where
  "set_phase n ph s = s\<lparr>is_calls := (is_calls s)[n := (fst (is_calls s ! n), ph)]\<rparr>"

definition at_phase :: "nat \<Rightarrow> idem_phase \<Rightarrow> idem_state \<Rightarrow> bool" where
  "at_phase n ph s \<longleftrightarrow> n < length (is_calls s) \<and> snd (is_calls s ! n) = ph"

definition request_of :: "nat \<Rightarrow> idem_state \<Rightarrow> idem_request" where
  "request_of n s = fst (is_calls s ! n)"

definition mark_freed :: "nat \<Rightarrow> idem_run \<Rightarrow> idem_run" where
  "mark_freed i u = (if ir_id u = i then u\<lparr>ir_freed := True\<rparr> else u)"

definition create_step :: "nat \<Rightarrow> nat \<Rightarrow> idem_state \<Rightarrow> idem_state" where
  "create_step n attempt s =
     (let q = request_of n s; (ph, tb) = begin_create q attempt (is_next s) (is_now s) (is_table s);
          s1 = set_phase n ph (s\<lparr>is_table := tb\<rparr>)
      in if ph = Handling (is_next s)
         then s1\<lparr>is_next := Suc (is_next s),
                 is_runs := is_runs s @ [\<lparr>ir_id = is_next s, ir_request = q, ir_at = is_now s, ir_freed = False\<rparr>]\<rparr>
         else s1)"

definition free_step :: "nat \<Rightarrow> nat \<Rightarrow> idem_state \<Rightarrow> idem_state" where
  "free_step n i s =
     set_phase n Failed (s\<lparr>is_table := delete_key i (is_table s),
       is_runs := map (mark_freed i) (is_runs s)\<rparr>)"

text \<open>The rows of a user, by their identifiers.\<close>

definition erase_key :: "nat \<Rightarrow> idem_state \<Rightarrow> idem_state" where
  "erase_key i s = s\<lparr>is_table := delete_key i (is_table s), is_runs := map (mark_freed i) (is_runs s)\<rparr>"

definition keys_of_user :: "string \<Rightarrow> key_table \<Rightarrow> nat set" where
  "keys_of_user u tb = ik_id ` {r \<in> set tb. ik_userId r = Some u}"

inductive idem_step :: "idem_state \<Rightarrow> idem_state \<Rightarrow> bool" where
  arrives: "idem_step s (s\<lparr>is_calls := is_calls s @ [(q, Selecting 0)]\<rparr>)"
| selects: "at_phase n (Selecting a) s \<Longrightarrow>
    idem_step s (set_phase n (begin_select (request_of n s) a (is_now s) (is_table s)) s)"
| deletes: "at_phase n (Deleting a i) s \<Longrightarrow>
    idem_step s (set_phase n (Creating a) (s\<lparr>is_table := delete_key i (is_table s)\<rparr>))"
| creates: "at_phase n (Creating a) s \<Longrightarrow> idem_step s (create_step n a s)"
| runs: "at_phase n (Handling i) s \<Longrightarrow> idem_step s (set_phase n (handled i success e) s)"
| stores: "at_phase n (Storing i st b thrown) s \<Longrightarrow>
    idem_step s (set_phase n (Answered i st b) (s\<lparr>is_table := complete_key i st b (is_table s)\<rparr>))"
| store_fails: "at_phase n (Storing i st b thrown) s \<Longrightarrow> idem_step s (set_phase n (store_failed i thrown) s)"
| frees: "at_phase n (Freeing i) s \<Longrightarrow> idem_step s (free_step n i s)"
| fails: "at_phase n ph s \<Longrightarrow> ph \<in> {Selecting a, Deleting a i, Creating a, Handling i, Storing i st b thrown, Freeing i} \<Longrightarrow>
    idem_step s (set_phase n Failed s)"
| waits: "is_now s \<le> t \<Longrightarrow> idem_step s (s\<lparr>is_now := t\<rparr>)"
| sweeps: "idem_step s (s\<lparr>is_table := snd (sweep_keys (is_now s) 0 (is_table s))\<rparr>)"
| forgets: "set ids \<subseteq> keys_of_user u (is_table s) \<Longrightarrow> idem_step s (fold erase_key ids s)"


section \<open>The invariant\<close>

fun owns :: "idem_phase \<Rightarrow> nat option" where
  "owns (Handling i) = Some i"
| "owns (Storing i _ _ _) = Some i"
| "owns (Freeing i) = Some i"
| "owns (Answered i _ _) = Some i"
| "owns _ = None"

definition answered :: "idem_state \<Rightarrow> idem_request \<Rightarrow> nat \<Rightarrow> int \<Rightarrow> string option \<Rightarrow> bool" where
  "answered s q i st b \<longleftrightarrow> (q, Answered i st b) \<in> set (is_calls s)"

definition same_request :: "idem_request \<Rightarrow> idem_request \<Rightarrow> bool" where
  "same_request q q' \<longleftrightarrow> request_key q = request_key q' \<and> iq_fingerprint q = iq_fingerprint q'"

definition owner_ok :: "idem_state \<Rightarrow> idem_request \<Rightarrow> idem_phase \<Rightarrow> bool" where
  "owner_ok s q ph \<longleftrightarrow> (\<forall>i. owns ph = Some i \<longrightarrow> (\<exists>u\<in>set (is_runs s). ir_id u = i \<and> ir_request u = q))"

fun phase_ok :: "idem_state \<Rightarrow> idem_request \<Rightarrow> idem_phase \<Rightarrow> bool" where
  "phase_ok s q (Deleting a i) \<longleftrightarrow> i < is_next s \<and> (\<forall>r\<in>set (is_table s). ik_id r = i \<longrightarrow> ik_expiresAt r \<le> is_now s)"
| "phase_ok s q (Replayed st b) \<longleftrightarrow> (\<exists>q' i. answered s q' i st b \<and> same_request q' q)"
| "phase_ok s q ph \<longleftrightarrow> owner_ok s q ph"

definition calls_ok :: "idem_state \<Rightarrow> bool" where
  "calls_ok s \<longleftrightarrow> (\<forall>(q, ph)\<in>set (is_calls s). phase_ok s q ph)"

definition rows_ok :: "idem_state \<Rightarrow> bool" where
  "rows_ok s \<longleftrightarrow> distinct (map row_key (is_table s)) \<and>
     (\<forall>r\<in>set (is_table s). \<exists>u\<in>set (is_runs s). ir_id u = ik_id r \<and> row_key r = request_key (ir_request u) \<and>
        ik_fingerprint r = iq_fingerprint (ir_request u) \<and> ik_expiresAt r = ir_at u + IDEMPOTENCY_TTL_MS) \<and>
     (\<forall>r\<in>set (is_table s). ik_state r = KeyDone \<longrightarrow>
        (\<exists>q st. answered s q (ik_id r) st (ik_body r) \<and> ik_status r = Some st))"

definition held_run :: "idem_state \<Rightarrow> idem_run \<Rightarrow> bool" where
  "held_run s u \<longleftrightarrow> \<not> ir_freed u \<and> is_now s < ir_at u + IDEMPOTENCY_TTL_MS"

definition runs_apart :: "idem_run list \<Rightarrow> bool" where
  "runs_apart us \<longleftrightarrow> (\<forall>u\<in>set us. \<forall>v\<in>set us. ir_id u < ir_id v \<longrightarrow>
     request_key (ir_request u) = request_key (ir_request v) \<longrightarrow>
     ir_freed u \<or> ir_at u + IDEMPOTENCY_TTL_MS \<le> ir_at v)"

definition runs_ok :: "idem_state \<Rightarrow> bool" where
  "runs_ok s \<longleftrightarrow> distinct (map ir_id (is_runs s)) \<and> (\<forall>u\<in>set (is_runs s). ir_id u < is_next s) \<and>
     (\<forall>u\<in>set (is_runs s). held_run s u \<longrightarrow>
        (\<exists>r\<in>set (is_table s). ik_id r = ir_id u \<and> row_key r = request_key (ir_request u))) \<and>
     runs_apart (is_runs s)"

definition idem_ok :: "idem_state \<Rightarrow> bool" where
  "idem_ok s \<longleftrightarrow> calls_ok s \<and> rows_ok s \<and> runs_ok s"

lemma no_requests_ok: "idem_ok no_requests"
  by (simp add: idem_ok_def calls_ok_def rows_ok_def runs_ok_def runs_apart_def no_requests_def)

text \<open>What every step keeps: time and identifiers only grow, no known row gets another end, runs keep their
  request, and an answer once given stays given.\<close>

definition grows :: "idem_state \<Rightarrow> idem_state \<Rightarrow> bool" where
  "grows s s' \<longleftrightarrow> is_now s \<le> is_now s' \<and> is_next s \<le> is_next s' \<and>
     (\<forall>r'\<in>set (is_table s'). ik_id r' < is_next s \<longrightarrow>
        (\<exists>r\<in>set (is_table s). ik_id r = ik_id r' \<and> ik_expiresAt r = ik_expiresAt r')) \<and>
     (\<forall>u\<in>set (is_runs s). \<exists>u'\<in>set (is_runs s'). ir_id u' = ir_id u \<and> ir_request u' = ir_request u) \<and>
     (\<forall>q i st b. answered s q i st b \<longrightarrow> answered s' q i st b)"

lemma owner_ok_grows: "owner_ok s q ph \<Longrightarrow> grows s s' \<Longrightarrow> owner_ok s' q ph"
  by (fastforce simp: owner_ok_def grows_def)

lemma phase_ok_grows: "phase_ok s q ph \<Longrightarrow> grows s s' \<Longrightarrow> phase_ok s' q ph"
proof (cases ph)
  case (Deleting a i)
  assume p: "phase_ok s q ph" and g: "grows s s'"
  have "ik_expiresAt r \<le> is_now s'" if r: "r \<in> set (is_table s')" "ik_id r = i" for r
  proof -
    from p Deleting r(2) have "ik_id r < is_next s" by simp
    with g r obtain r0 where "r0 \<in> set (is_table s)" "ik_id r0 = i" "ik_expiresAt r0 = ik_expiresAt r"
      unfolding grows_def by metis
    from this(1,2) p Deleting have "ik_expiresAt r0 \<le> is_now s" by simp
    with \<open>ik_expiresAt r0 = ik_expiresAt r\<close> g show ?thesis by (simp add: grows_def)
  qed
  moreover have "i < is_next s'" using p g Deleting by (simp add: grows_def)
  ultimately show ?thesis using Deleting by simp
next
  case (Replayed st b)
  assume p: "phase_ok s q ph" and g: "grows s s'"
  from p Replayed obtain q' i where "answered s q' i st b" "same_request q' q" by auto
  with g have "answered s' q' i st b" unfolding grows_def by blast
  with \<open>same_request q' q\<close> Replayed show ?thesis by auto
qed (auto dest: owner_ok_grows)

lemma calls_ok_grows:
  assumes "calls_ok s" "grows s s'"
    and "\<And>q ph. (q, ph) \<in> set (is_calls s') \<Longrightarrow> (q, ph) \<in> set (is_calls s) \<or> phase_ok s' q ph"
  shows "calls_ok s'"
proof -
  have "phase_ok s' q ph" if "(q, ph) \<in> set (is_calls s')" for q ph
    using assms(1) assms(3) [OF that] phase_ok_grows [OF _ assms(2)] unfolding calls_ok_def by blast
  then show ?thesis by (auto simp: calls_ok_def)
qed

definition final_phase :: "idem_phase \<Rightarrow> bool" where
  "final_phase ph \<longleftrightarrow> (\<exists>i st b. ph = Answered i st b)"

lemma set_phase_simps [simp]:
  "is_table (set_phase n ph s) = is_table s" "is_now (set_phase n ph s) = is_now s"
  "is_next (set_phase n ph s) = is_next s" "is_runs (set_phase n ph s) = is_runs s"
  "is_calls (set_phase n ph s) = (is_calls s)[n := (fst (is_calls s ! n), ph)]"
  by (simp_all add: set_phase_def)

lemma set_phase_calls:
  "(q, ph') \<in> set ((is_calls s)[n := (fst (is_calls s ! n), ph)]) \<Longrightarrow>
   (q, ph') \<in> set (is_calls s) \<or> q = request_of n s \<and> ph' = ph"
  using set_update_subset_insert [of "is_calls s" n "(fst (is_calls s ! n), ph)"] by (auto simp: request_of_def)

lemma answered_kept:
  assumes "at_phase n ph s" "\<not> final_phase ph" "answered s q i st b"
    "is_calls s' = (is_calls s)[n := c]"
  shows "answered s' q i st b"
proof -
  from assms(3) obtain m where m: "m < length (is_calls s)" "is_calls s ! m = (q, Answered i st b)"
    by (auto simp: answered_def in_set_conv_nth)
  with assms(1,2) have "m \<noteq> n" by (auto simp: at_phase_def final_phase_def)
  with m assms(4) show ?thesis by (auto simp: answered_def in_set_conv_nth intro!: exI [of _ m])
qed

lemma at_phase_ok: "idem_ok s \<Longrightarrow> at_phase n ph s \<Longrightarrow> phase_ok s (request_of n s) ph"
  unfolding idem_ok_def calls_ok_def at_phase_def request_of_def
  by (metis (no_types, lifting) case_prodD nth_mem prod.collapse)

text \<open>A step that only moves one request, to a phase that is in order.\<close>

lemma phase_step_ok:
  assumes ok: "idem_ok s" and n: "at_phase n ph s" "\<not> final_phase ph"
    and new: "phase_ok s (request_of n s) ph'"
  shows "idem_ok (set_phase n ph' s)"
proof -
  let ?s = "set_phase n ph' s"
  have ans: "answered s q i st b \<Longrightarrow> answered ?s q i st b" for q i st b
    using answered_kept [OF n _ set_phase_simps(5)] by blast
  have g: "grows s ?s" using ans by (auto simp: grows_def)
  have "calls_ok ?s"
    using ok new phase_ok_grows [OF _ g]
    by (intro calls_ok_grows [OF _ g]) (auto simp: idem_ok_def dest: set_phase_calls)
  moreover have "rows_ok ?s" using ok ans unfolding idem_ok_def rows_ok_def by (simp, blast)
  moreover have "runs_ok ?s" using ok by (simp add: idem_ok_def runs_ok_def held_run_def)
  ultimately show ?thesis by (simp add: idem_ok_def)
qed


lemma row_run:
  assumes "idem_ok s" "r \<in> set (is_table s)"
  obtains u where "u \<in> set (is_runs s)" "ir_id u = ik_id r" "row_key r = request_key (ir_request u)"
    "ik_fingerprint r = iq_fingerprint (ir_request u)" "ik_expiresAt r = ir_at u + IDEMPOTENCY_TTL_MS"
  using assms unfolding idem_ok_def rows_ok_def by blast

lemma run_unique: "idem_ok s \<Longrightarrow> u \<in> set (is_runs s) \<Longrightarrow> v \<in> set (is_runs s) \<Longrightarrow> ir_id u = ir_id v \<Longrightarrow> u = v"
  by (auto simp: idem_ok_def runs_ok_def distinct_map inj_on_def)

lemma same_end:
  assumes "idem_ok s" "r \<in> set (is_table s)" "r' \<in> set (is_table s)" "ik_id r = ik_id r'"
  shows "ik_expiresAt r = ik_expiresAt r'"
  by (rule row_run [OF assms(1,2)], rule row_run [OF assms(1,3)]) (use run_unique [OF assms(1)] assms(4) in metis)

lemma row_fresh: "idem_ok s \<Longrightarrow> r \<in> set (is_table s) \<Longrightarrow> ik_id r < is_next s"
  by (rule row_run) (auto simp: idem_ok_def runs_ok_def)

text \<open>Dropping rows that have ended.\<close>

lemma drop_rows_ok:
  assumes ok: "idem_ok s" and P: "\<And>r. r \<in> set (is_table s) \<Longrightarrow> \<not> P r \<Longrightarrow> ik_expiresAt r \<le> is_now s"
  shows "idem_ok (s\<lparr>is_table := filter P (is_table s)\<rparr>)"
proof -
  let ?s = "s\<lparr>is_table := filter P (is_table s)\<rparr>"
  have g: "grows s ?s" by (auto simp: grows_def answered_def)
  have "calls_ok ?s" using ok by (intro calls_ok_grows [OF _ g]) (auto simp: idem_ok_def)
  moreover have "rows_ok ?s" using ok by (auto simp: idem_ok_def rows_ok_def answered_def distinct_map_filter)
  moreover have "\<exists>r\<in>set (filter P (is_table s)). ik_id r = ir_id u \<and> row_key r = request_key (ir_request u)"
    if u: "u \<in> set (is_runs s)" "held_run s u" for u
  proof -
    from ok u obtain r where r: "r \<in> set (is_table s)" "ik_id r = ir_id u" "row_key r = request_key (ir_request u)"
      unfolding idem_ok_def runs_ok_def by blast
    from row_run [OF ok r(1)] obtain v where "v \<in> set (is_runs s)" "ir_id v = ik_id r"
      "ik_expiresAt r = ir_at v + IDEMPOTENCY_TTL_MS" by metis
    moreover from this(1,2) r(2) have "v = u" using run_unique [OF ok u(1), of v] by simp
    ultimately have "\<not> ik_expiresAt r \<le> is_now s" using u(2) by (simp add: held_run_def)
    with P [OF r(1)] r show ?thesis by auto
  qed
  then have "runs_ok ?s" using ok by (simp add: idem_ok_def runs_ok_def held_run_def)
  ultimately show ?thesis by (simp add: idem_ok_def)
qed

lemma sweep_keys_table:
  "snd (sweep_keys now n tb) = filter (\<lambda>r. ik_id r \<notin> ik_id ` {r \<in> set tb. ik_expiresAt r < now}) tb"
proof (induction now n tb rule: sweep_keys.induct)
  case (1 now n tb)
  let ?ids = "expired_ids now tb" and ?all = "\<lambda>tb. ik_id ` {r \<in> set tb. ik_expiresAt r < now}"
  let ?tb = "filter (\<lambda>r. ik_id r \<notin> set ?ids) tb"
  show ?case
  proof (cases "?ids = []")
    case True
    then have none: "\<forall>r\<in>set tb. \<not> ik_expiresAt r < now" by (auto simp: expired_ids_def filter_empty_conv)
    then have "?all tb = {}" by auto
    then have "filter (\<lambda>r. ik_id r \<notin> ?all tb) tb = tb" by (simp only:) simp
    with True show ?thesis by (subst sweep_keys.simps) simp
  next
    case False
    have "?all tb = set ?ids \<union> ?all ?tb" using expired_ids_in [of now tb] by auto
    then have "filter (\<lambda>r. ik_id r \<notin> ?all ?tb) ?tb = filter (\<lambda>r. ik_id r \<notin> ?all tb) tb"
      unfolding filter_filter by (intro filter_cong) auto
    with 1 [OF refl False] False show ?thesis by (subst sweep_keys.simps) (simp add: Let_def)
  qed
qed

lemma sweep_ok:
  assumes ok: "idem_ok s"
  shows "idem_ok (s\<lparr>is_table := snd (sweep_keys (is_now s) 0 (is_table s))\<rparr>)"
  unfolding sweep_keys_table
proof (rule drop_rows_ok [OF ok])
  fix r assume r: "r \<in> set (is_table s)"
    "\<not> ik_id r \<notin> ik_id ` {r \<in> set (is_table s). ik_expiresAt r < is_now s}"
  then obtain r' where "r' \<in> set (is_table s)" "ik_id r = ik_id r'" "ik_expiresAt r' < is_now s" by auto
  with same_end [OF ok r(1)] show "ik_expiresAt r \<le> is_now s" by fastforce
qed

lemma set_phase_table: "set_phase n ph (s\<lparr>is_table := tb\<rparr>) = (set_phase n ph s)\<lparr>is_table := tb\<rparr>"
  by (simp add: set_phase_def)

lemma at_phase_table [simp]: "at_phase n ph (s\<lparr>is_table := tb\<rparr>) = at_phase n ph s"
  "request_of n (s\<lparr>is_table := tb\<rparr>) = request_of n s"
  by (simp_all add: at_phase_def request_of_def)

lemma delete_ok:
  assumes ok: "idem_ok s" and n: "at_phase n (Deleting a i) s"
  shows "idem_ok (set_phase n (Creating a) (s\<lparr>is_table := delete_key i (is_table s)\<rparr>))"
proof -
  let ?s = "s\<lparr>is_table := delete_key i (is_table s)\<rparr>"
  have "idem_ok ?s" unfolding delete_key_def
    by (rule drop_rows_ok [OF ok]) (use at_phase_ok [OF ok n] in auto)
  then show ?thesis by (rule phase_step_ok [of _ _ "Deleting a i"]) (use n in \<open>simp_all add: final_phase_def owner_ok_def\<close>)
qed

lemma select_ok:
  assumes ok: "idem_ok s" and n: "at_phase n (Selecting a) s"
  shows "idem_ok (set_phase n (begin_select (request_of n s) a (is_now s) (is_table s)) s)"
proof (rule phase_step_ok [OF ok n])
  let ?q = "request_of n s"
  show "phase_ok s ?q (begin_select ?q a (is_now s) (is_table s))"
  proof (cases "find_key ?q (is_table s)")
    case None
    then show ?thesis by (simp add: begin_select_def owner_ok_def)
  next
    case (Some r)
    then have r: "r \<in> set (is_table s)" "row_key r = request_key ?q" by (auto simp: find_key_def find_Some_iff)
    show ?thesis
    proof (cases "is_now s < ik_expiresAt r")
      case False
      with Some row_fresh [OF ok r(1)] same_end [OF ok _ r(1)] show ?thesis by (auto simp: begin_select_def)
    next
      case True
      show ?thesis
      proof (cases "ik_fingerprint r = iq_fingerprint ?q \<and> ik_state r = KeyDone")
        case kept: True
        from ok r(1) kept obtain q' st where q': "answered s q' (ik_id r) st (ik_body r)" "ik_status r = Some st"
          unfolding idem_ok_def rows_ok_def by blast
        from ok q'(1) have "owner_ok s q' (Answered (ik_id r) st (ik_body r))"
          by (auto simp: idem_ok_def calls_ok_def answered_def)
        then obtain u where u: "u \<in> set (is_runs s)" "ir_id u = ik_id r" "ir_request u = q'" by (auto simp: owner_ok_def)
        from row_run [OF ok r(1)] run_unique [OF ok u(1)] u(2,3)
        have "row_key r = request_key q' \<and> ik_fingerprint r = iq_fingerprint q'" by metis
        with r(2) kept have "same_request q' ?q" by (simp add: same_request_def)
        with Some True kept q' show ?thesis by (auto simp: begin_select_def decide_row_def)
      next
        case False
        with Some True show ?thesis
          by (cases "ik_state r") (auto simp: begin_select_def decide_row_def owner_ok_def)
      qed
    qed
  qed
qed (simp add: final_phase_def)

lemma complete_ok:
  assumes ok: "idem_ok s" and a: "answered s q i st b"
  shows "idem_ok (s\<lparr>is_table := complete_key i st b (is_table s)\<rparr>)"
proof -
  let ?s = "s\<lparr>is_table := complete_key i st b (is_table s)\<rparr>"
  have key: "map row_key (complete_key i st b tb) = map row_key tb" for tb
    by (simp add: complete_key_def row_key_def)
  have mem: "\<exists>r0\<in>set tb. ik_id r = ik_id r0 \<and> row_key r = row_key r0 \<and> ik_fingerprint r = ik_fingerprint r0 \<and>
      ik_expiresAt r = ik_expiresAt r0 \<and> (r = r0 \<or> ik_id r = i \<and> ik_status r = Some st \<and> ik_body r = b)"
    if "r \<in> set (complete_key i st b tb)" for r tb
    using that by (auto simp: complete_key_def row_key_def split: if_splits)
  have old: "\<exists>r\<in>set (complete_key i st b tb). ik_id r = ik_id r0 \<and> row_key r = row_key r0" if "r0 \<in> set tb" for r0 tb
    unfolding complete_key_def set_map by (rule bexI [OF _ imageI [OF that]]) (simp add: row_key_def)
  have g: "grows s ?s" using mem by (fastforce simp: grows_def answered_def)
  have "calls_ok ?s" using ok by (intro calls_ok_grows [OF _ g]) (auto simp: idem_ok_def)
  moreover have "rows_ok ?s" unfolding rows_ok_def
  proof (intro conjI ballI impI)
    show "distinct (map row_key (is_table ?s))" using ok key by (simp add: idem_ok_def rows_ok_def)
  next
    fix r assume "r \<in> set (is_table ?s)"
    with mem [of r "is_table s"] ok show "\<exists>u\<in>set (is_runs ?s). ir_id u = ik_id r \<and> row_key r = request_key (ir_request u) \<and>
        ik_fingerprint r = iq_fingerprint (ir_request u) \<and> ik_expiresAt r = ir_at u + IDEMPOTENCY_TTL_MS"
      unfolding idem_ok_def rows_ok_def by simp metis
  next
    fix r assume "r \<in> set (is_table ?s)" "ik_state r = KeyDone"
    with mem [of r "is_table s"] ok a show "\<exists>q st. answered ?s q (ik_id r) st (ik_body r) \<and> ik_status r = Some st"
      unfolding idem_ok_def rows_ok_def answered_def by simp metis
  qed
  moreover have "runs_ok ?s"
    using ok old [of _ "is_table s"] unfolding idem_ok_def runs_ok_def held_run_def by simp metis
  ultimately show ?thesis by (simp add: idem_ok_def)
qed


lemma mark_freed_simps [simp]:
  "ir_id (mark_freed i u) = ir_id u" "ir_request (mark_freed i u) = ir_request u" "ir_at (mark_freed i u) = ir_at u"
  "ir_freed (mark_freed i u) \<longleftrightarrow> ir_freed u \<or> ir_id u = i"
  by (simp_all add: mark_freed_def)

lemma store_ok:
  assumes ok: "idem_ok s" and n: "at_phase n (Storing i st b thrown) s"
  shows "idem_ok (set_phase n (Answered i st b) (s\<lparr>is_table := complete_key i st b (is_table s)\<rparr>))"
proof -
  let ?s = "set_phase n (Answered i st b) s"
  from at_phase_ok [OF ok n] have "phase_ok s (request_of n s) (Answered i st b)" by (simp add: owner_ok_def)
  then have "idem_ok ?s" by (rule phase_step_ok [OF ok n, rotated]) (simp add: final_phase_def)
  moreover have "answered ?s (request_of n s) i st b"
    using n by (auto simp: answered_def request_of_def at_phase_def in_set_conv_nth intro!: exI [of _ n])
  ultimately have "idem_ok (?s\<lparr>is_table := complete_key i st b (is_table ?s)\<rparr>)" by (rule complete_ok)
  then show ?thesis by (simp add: set_phase_table)
qed

lemma erase_ok:
  assumes ok: "idem_ok s"
  shows "idem_ok (erase_key i s)"
proof -
  let ?s = "s\<lparr>is_table := delete_key i (is_table s), is_runs := map (mark_freed i) (is_runs s)\<rparr>"
  have g: "grows s ?s" by (auto simp: grows_def answered_def delete_key_def)
  have "calls_ok ?s" using ok by (intro calls_ok_grows [OF _ g]) (auto simp: idem_ok_def)
  moreover have "rows_ok ?s"
    using ok unfolding idem_ok_def rows_ok_def answered_def delete_key_def
    by (simp add: distinct_map_filter)
  moreover have "runs_ok ?s" unfolding runs_ok_def
  proof (intro conjI ballI impI)
    show "distinct (map ir_id (is_runs ?s))" using ok by (simp add: idem_ok_def runs_ok_def o_def)
  next
    fix u assume "u \<in> set (is_runs ?s)"
    then show "ir_id u < is_next ?s" using ok by (auto simp: idem_ok_def runs_ok_def)
  next
    fix u assume u: "u \<in> set (is_runs ?s)" "held_run ?s u"
    then obtain v where v: "v \<in> set (is_runs s)" "u = mark_freed i v" by auto
    with u(2) have "held_run s v" "ir_id v \<noteq> i" by (auto simp: held_run_def)
    with ok v(1) obtain r where "r \<in> set (is_table s)" "ik_id r = ir_id v" "row_key r = request_key (ir_request v)"
      unfolding idem_ok_def runs_ok_def by blast
    with v(2) \<open>ir_id v \<noteq> i\<close> show "\<exists>r\<in>set (is_table ?s). ik_id r = ir_id u \<and> row_key r = request_key (ir_request u)"
      by (auto simp: delete_key_def)
  next
    show "runs_apart (is_runs ?s)"
      using ok unfolding idem_ok_def runs_ok_def runs_apart_def by simp blast
  qed
  ultimately show ?thesis by (simp add: idem_ok_def erase_key_def)
qed

lemma forget_ok: "idem_ok s \<Longrightarrow> idem_ok (fold erase_key ids s)"
  by (induction ids arbitrary: s) (simp_all add: erase_ok)

lemma free_ok:
  assumes ok: "idem_ok s" and n: "at_phase n (Freeing i) s"
  shows "idem_ok (free_step n i s)"
proof -
  have "at_phase n (Freeing i) (erase_key i s)" using n by (simp add: at_phase_def erase_key_def)
  then have "idem_ok (set_phase n Failed (erase_key i s))"
    by (intro phase_step_ok [of _ n "Freeing i"]) (simp_all add: erase_ok [OF ok] final_phase_def owner_ok_def)
  then show ?thesis by (simp add: free_step_def erase_key_def)
qed

text \<open>The unique index: a row is created only where no run of its key still holds it.\<close>

lemma create_ok:
  assumes ok: "idem_ok s" and n: "at_phase n (Creating a) s"
  shows "idem_ok (create_step n a s)"
proof (cases "create_key (request_of n s) (is_next s) (is_now s) (is_table s)")
  case None
  have "idem_ok (set_phase n ph s)" if "ph \<in> {Selecting 1, AnsweredConflict}" for ph
    by (rule phase_step_ok [OF ok n]) (use that in \<open>auto simp: final_phase_def owner_ok_def\<close>)
  moreover have "s\<lparr>is_table := is_table s\<rparr> = s" by simp
  ultimately show ?thesis using None by (auto simp: create_step_def begin_create_def Let_def)
next
  case (Some tb)
  let ?q = "request_of n s" and ?i = "is_next s"
  let ?u = "\<lparr>ir_id = ?i, ir_request = ?q, ir_at = is_now s, ir_freed = False\<rparr>"
  let ?s = "create_step n a s"
  from Some have tb: "tb = is_table s @ [pending_row ?q ?i (is_now s)]" "\<forall>r\<in>set (is_table s). row_key r \<noteq> request_key ?q"
    by (auto simp: create_key_def list_ex_iff split: if_splits)
  have s: "is_table ?s = tb" "is_now ?s = is_now s" "is_next ?s = Suc ?i" "is_runs ?s = is_runs s @ [?u]"
    "is_calls ?s = (is_calls s)[n := (fst (is_calls s ! n), Handling ?i)]"
    using Some by (simp_all add: create_step_def begin_create_def Let_def set_phase_def)
  have p: "ik_id (pending_row ?q ?i t) = ?i" "row_key (pending_row ?q ?i t) = request_key ?q"
    "ik_fingerprint (pending_row ?q ?i t) = iq_fingerprint ?q" "ik_state (pending_row ?q ?i t) = KeyPending"
    "ik_expiresAt (pending_row ?q ?i t) = t + IDEMPOTENCY_TTL_MS" for t
    by (simp_all add: pending_row_def row_key_def request_key_def)
  have ans: "answered s q i st b \<Longrightarrow> answered ?s q i st b" for q i st b
    using answered_kept [OF n _ _ s(5)] by (simp add: final_phase_def)
  have g: "grows s ?s" using ans by (auto simp: grows_def s tb(1) p)
  have "owner_ok ?s ?q (Handling ?i)" by (simp add: owner_ok_def s)
  then have "calls_ok ?s" using ok
    by (intro calls_ok_grows [OF _ g]) (auto simp: idem_ok_def s(5) dest: set_phase_calls)
  moreover have "rows_ok ?s" unfolding rows_ok_def
  proof (intro conjI ballI impI)
    show "distinct (map row_key (is_table ?s))"
      using ok tb(2) by (auto simp: idem_ok_def rows_ok_def s(1) tb(1) p)
  next
    fix r assume r: "r \<in> set (is_table ?s)"
    show "\<exists>u\<in>set (is_runs ?s). ir_id u = ik_id r \<and> row_key r = request_key (ir_request u) \<and>
        ik_fingerprint r = iq_fingerprint (ir_request u) \<and> ik_expiresAt r = ir_at u + IDEMPOTENCY_TTL_MS"
    proof (cases "r \<in> set (is_table s)")
      case True
      from row_run [OF ok True] show ?thesis by (auto simp: s(4))
    next
      case False
      with r have "r = pending_row ?q ?i (is_now s)" by (simp add: s(1) tb(1))
      then show ?thesis by (simp add: s(4) p)
    qed
  next
    fix r assume r: "r \<in> set (is_table ?s)" "ik_state r = KeyDone"
    then have "r \<in> set (is_table s)" by (auto simp: s(1) tb(1) p)
    with r(2) ok ans show "\<exists>q st. answered ?s q (ik_id r) st (ik_body r) \<and> ik_status r = Some st"
      unfolding idem_ok_def rows_ok_def by blast
  qed
  moreover have "runs_ok ?s" unfolding runs_ok_def
  proof (intro conjI ballI impI)
    show "distinct (map ir_id (is_runs ?s))" using ok by (auto simp: idem_ok_def runs_ok_def s(4))
  next
    fix u assume "u \<in> set (is_runs ?s)"
    then show "ir_id u < is_next ?s" using ok by (auto simp: idem_ok_def runs_ok_def s less_Suc_eq)
  next
    fix u assume u: "u \<in> set (is_runs ?s)" "held_run ?s u"
    show "\<exists>r\<in>set (is_table ?s). ik_id r = ir_id u \<and> row_key r = request_key (ir_request u)"
    proof (cases "u \<in> set (is_runs s)")
      case True
      with u(2) have "held_run s u" by (simp add: held_run_def s(2))
      with True ok show ?thesis unfolding idem_ok_def runs_ok_def s(1) tb(1) by auto
    next
      case False
      with u(1) have "u = ?u" by (simp add: s(4))
      then show ?thesis by (simp add: s(1) tb(1) p)
    qed
  next
    have free: "ir_freed u \<or> ir_at u + IDEMPOTENCY_TTL_MS \<le> is_now s"
      if u: "u \<in> set (is_runs s)" "request_key (ir_request u) = request_key ?q" for u
    proof (rule ccontr)
      assume "\<not> ?thesis"
      then have "held_run s u" by (simp add: held_run_def)
      with ok u(1) obtain r where "r \<in> set (is_table s)" "row_key r = request_key (ir_request u)"
        unfolding idem_ok_def runs_ok_def by blast
      with tb(2) u(2) show False by simp
    qed
    have less: "ir_id u < ?i" if "u \<in> set (is_runs s)" for u using ok that by (simp add: idem_ok_def runs_ok_def)
    show "runs_apart (is_runs ?s)"
      using ok free less unfolding idem_ok_def runs_ok_def runs_apart_def s(4) by fastforce
  qed
  ultimately show ?thesis by (simp add: idem_ok_def)
qed

lemma wait_ok:
  assumes ok: "idem_ok s" and t: "is_now s \<le> t"
  shows "idem_ok (s\<lparr>is_now := t\<rparr>)"
proof -
  let ?s = "s\<lparr>is_now := t\<rparr>"
  have g: "grows s ?s" using t by (auto simp: grows_def answered_def)
  have "calls_ok ?s" using ok by (intro calls_ok_grows [OF _ g]) (auto simp: idem_ok_def)
  with ok t show ?thesis by (auto simp: idem_ok_def rows_ok_def runs_ok_def held_run_def answered_def)
qed

lemma arrive_ok: "idem_ok s \<Longrightarrow> idem_ok (s\<lparr>is_calls := is_calls s @ [(q, Selecting 0)]\<rparr>)"
proof -
  assume ok: "idem_ok s"
  let ?s = "s\<lparr>is_calls := is_calls s @ [(q, Selecting 0)]\<rparr>"
  have g: "grows s ?s" by (auto simp: grows_def answered_def)
  have "calls_ok ?s" using ok by (intro calls_ok_grows [OF _ g]) (auto simp: idem_ok_def owner_ok_def)
  with ok show ?thesis by (fastforce simp: idem_ok_def rows_ok_def runs_ok_def held_run_def answered_def)
qed

lemma idem_step_ok: "idem_step s s' \<Longrightarrow> idem_ok s \<Longrightarrow> idem_ok s'"
proof (induction rule: idem_step.induct)
  case (runs n i s success e)
  then have "phase_ok s (request_of n s) (handled i success e)"
    using at_phase_ok [OF runs(2,1)] by (auto simp: handled_def owner_ok_def split: handler_end.splits)
  then show ?case by (rule phase_step_ok [OF runs(2,1), rotated]) (simp add: final_phase_def)
next
  case (store_fails n i st b thrown s)
  then have "phase_ok s (request_of n s) (store_failed i thrown)"
    using at_phase_ok [OF store_fails(2,1)] by (auto simp: store_failed_def owner_ok_def)
  then show ?case by (rule phase_step_ok [OF store_fails(2,1), rotated]) (simp add: final_phase_def)
next
  case (fails n ph s a i st b thrown)
  then show ?case by (intro phase_step_ok [of s n ph]) (auto simp: final_phase_def owner_ok_def)
qed (auto intro: arrive_ok select_ok delete_ok create_ok store_ok free_ok wait_ok sweep_ok forget_ok)

interpretation idem: state_machine idem_step idem_ok
  by unfold_locales (rule idem_step_ok)


section \<open>Schedules\<close>

text \<open>A schedule names the steps of a history; it is applied step by step.\<close>

datatype idem_event =
    Arrive idem_request
  | Select nat
  | Delete nat
  | Create nat
  | Handle nat int handler_end
  | Store nat
  | StoreFail nat
  | Free nat
  | Wait nat

fun idem_apply :: "idem_event \<Rightarrow> idem_state \<Rightarrow> idem_state option" where
  "idem_apply (Arrive q) s = Some (s\<lparr>is_calls := is_calls s @ [(q, Selecting 0)]\<rparr>)"
| "idem_apply (Wait d) s = Some (s\<lparr>is_now := is_now s + int d\<rparr>)"
| "idem_apply (Select n) s =
     (if n < length (is_calls s) then (case snd (is_calls s ! n) of
        Selecting a \<Rightarrow> Some (set_phase n (begin_select (request_of n s) a (is_now s) (is_table s)) s) | _ \<Rightarrow> None) else None)"
| "idem_apply (Delete n) s =
     (if n < length (is_calls s) then (case snd (is_calls s ! n) of
        Deleting a i \<Rightarrow> Some (set_phase n (Creating a) (s\<lparr>is_table := delete_key i (is_table s)\<rparr>)) | _ \<Rightarrow> None) else None)"
| "idem_apply (Create n) s =
     (if n < length (is_calls s) then (case snd (is_calls s ! n) of Creating a \<Rightarrow> Some (create_step n a s) | _ \<Rightarrow> None) else None)"
| "idem_apply (Handle n success e) s =
     (if n < length (is_calls s) then (case snd (is_calls s ! n) of
        Handling i \<Rightarrow> Some (set_phase n (handled i success e) s) | _ \<Rightarrow> None) else None)"
| "idem_apply (Store n) s =
     (if n < length (is_calls s) then (case snd (is_calls s ! n) of
        Storing i st b thrown \<Rightarrow> Some (set_phase n (Answered i st b) (s\<lparr>is_table := complete_key i st b (is_table s)\<rparr>))
      | _ \<Rightarrow> None) else None)"
| "idem_apply (StoreFail n) s =
     (if n < length (is_calls s) then (case snd (is_calls s ! n) of
        Storing i st b thrown \<Rightarrow> Some (set_phase n (store_failed i thrown) s) | _ \<Rightarrow> None) else None)"
| "idem_apply (Free n) s =
     (if n < length (is_calls s) then (case snd (is_calls s ! n) of Freeing i \<Rightarrow> Some (free_step n i s) | _ \<Rightarrow> None) else None)"

lemma idem_apply_step: "idem_apply e s = Some s' \<Longrightarrow> idem_step s s'"
  by (cases e) (auto simp: at_phase_def intro: idem_step.intros split: if_splits idem_phase.splits)

fun idem_run_all :: "idem_event list \<Rightarrow> idem_state \<Rightarrow> idem_state option" where
  "idem_run_all [] s = Some s"
| "idem_run_all (e # es) s = (case idem_apply e s of None \<Rightarrow> None | Some s' \<Rightarrow> idem_run_all es s')"

lemma idem_run_all_steps: "idem_run_all es s = Some s' \<Longrightarrow> idem_step\<^sup>*\<^sup>* s s'"
  by (induction es s rule: idem_run_all.induct)
    (auto split: option.splits intro: converse_rtranclp_into_rtranclp idem_apply_step)

section \<open>Properties\<close>

text \<open>C17: Two requests under one credential and key run their handlers at least a day apart, unless the row
  of the earlier one was deleted in between: freed on a server error or because the answer could not be
  stored, or erased when its user was forgotten.\<close>

theorem one_run_per_key:
  assumes "idem_step\<^sup>*\<^sup>* no_requests s" "u \<in> set (is_runs s)" "v \<in> set (is_runs s)" "ir_id u < ir_id v"
    "request_key (ir_request u) = request_key (ir_request v)"
  shows "ir_freed u \<or> ir_at u + IDEMPOTENCY_TTL_MS \<le> ir_at v"
  using idem.inv_steps [OF assms(1) no_requests_ok] assms(2-5) unfolding idem_ok_def runs_ok_def runs_apart_def by blast

text \<open>C18: A replayed answer is the answer a handler gave to a request of the same credential, key and
  fingerprint, with the same status and body.\<close>

theorem replay_is_first_answer:
  assumes "idem_step\<^sup>*\<^sup>* no_requests s" "(q, Replayed st b) \<in> set (is_calls s)"
  shows "\<exists>q' i. (q', Answered i st b) \<in> set (is_calls s) \<and> same_request q' q"
proof -
  from idem.inv_steps [OF assms(1) no_requests_ok] have "phase_ok s q (Replayed st b)"
    using assms(2) by (auto simp: idem_ok_def calls_ok_def)
  then show ?thesis by (auto simp: answered_def)
qed

text \<open>The order of the keys of a request's objects does not matter.\<close>

lemma canonical_key_order:
  assumes "mset kvs = mset kvs'" "distinct (map fst kvs)"
  shows "canonical js (JObj kvs) = canonical js (JObj kvs')"
proof -
  let ?f = "\<lambda>kvs. map (\<lambda>kv. (fst kv, canonical js (snd kv))) (filter (\<lambda>kv. snd kv \<noteq> JUndef) kvs)"
  have m: "mset (?f kvs) = mset (sort_key fst (?f kvs'))" using assms(1) by (simp only: mset_sort mset_map mset_filter)
  have "map fst (?f kvs) = map fst (filter (\<lambda>kv. snd kv \<noteq> JUndef) kvs)" by (simp add: o_def)
  then have "distinct (map fst (?f kvs))" using distinct_map_filter [OF assms(2)] by (simp only:)
  then have "inj_on fst (set (?f kvs))" by (simp only: distinct_map)
  from sort_key_inj_key_eq [OF m this sorted_sort_key] show ?thesis by (simp only: canonical.simps)
qed

section \<open>Samples\<close>

definition sample_write_request :: idem_request where
  "sample_write_request = \<lparr>iq_scopeKey = ''c'', iq_key = ''k'', iq_method = ''POST'', iq_route = ''/v1/facts'',
     iq_fingerprint = ''f'', iq_userId = None\<rparr>"

definition begin_and_run :: "nat \<Rightarrow> idem_event list" where
  "begin_and_run n = [Arrive sample_write_request, Select n, Create n, Handle n 201 (Returns (Some ''1''))]"

definition retried_after_failure :: "idem_event list" where
  "retried_after_failure = begin_and_run 0 @ [StoreFail 0, Free 0] @ begin_and_run 1"

definition retried_after_answer :: "idem_event list" where
  "retried_after_answer = begin_and_run 0 @ [Store 0, Arrive sample_write_request, Select 1]"

text \<open>When the answer of a handler that returned cannot be stored, the key is freed like after a server
  error, and the retry runs the write a second time, at the same moment.\<close>

lemma unstored_answer_runs_twice:
  "\<exists>s. idem_run_all retried_after_failure no_requests = Some s \<and>
     map (\<lambda>u. (ir_id u, ir_at u, ir_freed u)) (is_runs s) = [(0, 0, True), (1, 0, False)] \<and>
     map snd (is_calls s) = [Failed, Storing 1 201 (Some ''1'') False]"
proof -
  have "(case idem_run_all retried_after_failure no_requests of None \<Rightarrow> False
    | Some s \<Rightarrow> map (\<lambda>u. (ir_id u, ir_at u, ir_freed u)) (is_runs s) = [(0, 0, True), (1, 0, False)] \<and>
        map snd (is_calls s) = [Failed, Storing 1 201 (Some ''1'') False])" by code_simp
  then show ?thesis by (auto split: option.splits)
qed

theorem one_run_per_key_witness:
  "\<exists>s u v. idem_run_all retried_after_failure no_requests = Some s \<and> is_runs s = [u, v] \<and> ir_id u < ir_id v \<and>
     (ir_freed u \<or> ir_at u + IDEMPOTENCY_TTL_MS \<le> ir_at v)"
proof -
  have "(case idem_run_all retried_after_failure no_requests of None \<Rightarrow> False
    | Some s \<Rightarrow> (case is_runs s of [u, v] \<Rightarrow> ir_id u = 0 \<and> ir_id v = 1 \<and>
        request_key (ir_request u) = request_key (ir_request v) | _ \<Rightarrow> False))" by code_simp
  then obtain s u v where s: "idem_run_all retried_after_failure no_requests = Some s" "is_runs s = [u, v]"
    "ir_id u = 0" "ir_id v = 1" "request_key (ir_request u) = request_key (ir_request v)"
    by (auto split: option.splits list.splits)
  then have "u \<in> set (is_runs s)" "v \<in> set (is_runs s)" "ir_id u < ir_id v" by auto
  from one_run_per_key [OF idem_run_all_steps [OF s(1)] this s(5)] s(1,2) this(3) show ?thesis by blast
qed

theorem replay_is_first_answer_witness:
  "\<exists>s q' i. idem_run_all retried_after_answer no_requests = Some s \<and>
     (q', Answered i 201 (Some ''1'')) \<in> set (is_calls s) \<and> same_request q' sample_write_request"
proof -
  have "(case idem_run_all retried_after_answer no_requests of None \<Rightarrow> False
    | Some s \<Rightarrow> (sample_write_request, Replayed 201 (Some ''1'')) \<in> set (is_calls s))" by code_simp
  then obtain s where s: "idem_run_all retried_after_answer no_requests = Some s"
    "(sample_write_request, Replayed 201 (Some ''1'')) \<in> set (is_calls s)" by (auto split: option.splits)
  from replay_is_first_answer [OF idem_run_all_steps [OF s(1)] s(2)] s(1) show ?thesis by blast
qed

end
