(* ===== verification/ApiKeys.thy ===== *)
theory ApiKeys imports TextOps "HOL-Library.Multiset" begin

text \<open>
  The keys brain issues itself: the store with its cache on every replica
  (\<open>src/auth/api-key-store.service.ts\<close>, migrations 0144 and 0171), the rules of issuing and
  revoking (\<open>src/keys/keys.service.ts\<close>, \<open>issuable-scopes.ts\<close>) and the record a credential
  resolves to (\<open>src/auth/api-key.types.ts\<close>).  The digest, the random part of a key and the
  identifier of its row are arguments.  Lookups and revocations of all replicas interleave
  statement by statement; the replicas and the database read one clock, in milliseconds.
\<close>

section \<open>Records\<close>

record api_key_record =
  ak_keyHash :: string
  ak_companyId :: string
  ak_scopes :: "string list"
  ak_userId :: "string option"
  ak_entitlements :: "string list option"
  ak_actorId :: "string option"
  ak_mcpGrantedActions :: "string list option"
  ak_name :: "string option"
  ak_policyNames :: "string list option"
  ak_packIds :: "string list option"
  ak_circle :: "string option"

record api_key_row =
  kr_id :: string
  kr_companyId :: string
  kr_keyHash :: string
  kr_name :: string
  kr_prefix :: string
  kr_scopes :: "string list"
  kr_policyNames :: "string list option"
  kr_userId :: "string option"
  kr_circle :: "string option"
  kr_createdBy :: "string option"
  kr_createdAt :: int
  kr_expiresAt :: "int option"
  kr_revokedAt :: "int option"
  kr_lastUsedAt :: "int option"

type_synonym api_key_table = "api_key_row list"

record issue_key_input =
  ii_companyId :: string
  ii_name :: string
  ii_scopes :: "string list"
  ii_userId :: "string option"
  ii_circle :: "string option"
  ii_policyNames :: "string list option"
  ii_expiresAt :: "int option"
  ii_createdBy :: "string option"

record key_summary =
  sm_id :: string
  sm_name :: string
  sm_prefix :: string
  sm_scopes :: "string list"
  sm_userId :: "string option"
  sm_circle :: "string option"
  sm_createdAt :: int
  sm_createdBy :: "string option"
  sm_expiresAt :: "int option"
  sm_revokedAt :: "int option"
  sm_lastUsedAt :: "int option"

definition KEY_PREFIX :: string where "KEY_PREFIX = ''brain_''"
definition DISPLAY_PREFIX_LEN :: nat where "DISPLAY_PREFIX_LEN = length KEY_PREFIX + 6"
definition CACHE_TTL_MS :: int where "CACHE_TTL_MS = 30000"
definition USED_STAMP_THROTTLE_MS :: int where "USED_STAMP_THROTTLE_MS = 5 * 60000"
definition MAX_ACTIVE_KEYS_PER_TENANT :: nat where "MAX_ACTIVE_KEYS_PER_TENANT = 25"

section \<open>The store\<close>

definition api_key_hash :: "(string \<Rightarrow> string) \<Rightarrow> string \<Rightarrow> string" where
  "api_key_hash sha plaintext = ''sha256:'' @ sha plaintext"

definition looksLikeStoredKey :: "string \<Rightarrow> bool" where
  "looksLikeStoredKey token = starts_with KEY_PREFIX token"

text \<open>An absent or empty optional text is left out of a record.\<close>

definition unless_empty :: "string option \<Rightarrow> string option" where
  "unless_empty x = (if truthy_str x then x else None)"

definition record_of :: "api_key_row \<Rightarrow> api_key_record" where
  "record_of row =
     \<lparr>ak_keyHash = kr_keyHash row, ak_companyId = kr_companyId row, ak_scopes = kr_scopes row,
      ak_userId = unless_empty (kr_userId row), ak_entitlements = None, ak_actorId = None,
      ak_mcpGrantedActions = None, ak_name = unless_empty (Some (kr_name row)),
      ak_policyNames = (case kr_policyNames row of Some (n # ns) \<Rightarrow> Some (n # ns) | _ \<Rightarrow> None),
      ak_packIds = None, ak_circle = unless_empty (kr_circle row)\<rparr>"

definition toRecord :: "int \<Rightarrow> api_key_row \<Rightarrow> api_key_record option" where
  "toRecord now row =
     (if kr_keyHash row = [] \<or> kr_companyId row = [] then None
      else if kr_revokedAt row \<noteq> None then None
      else if (case kr_expiresAt row of None \<Rightarrow> False | Some e \<Rightarrow> e \<le> now) then None
      else Some (record_of row))"

definition toSummary :: "api_key_row \<Rightarrow> key_summary" where
  "toSummary row =
     \<lparr>sm_id = kr_id row, sm_name = kr_name row, sm_prefix = kr_prefix row, sm_scopes = kr_scopes row,
      sm_userId = kr_userId row, sm_circle = unless_empty (kr_circle row), sm_createdAt = kr_createdAt row,
      sm_createdBy = kr_createdBy row, sm_expiresAt = kr_expiresAt row, sm_revokedAt = kr_revokedAt row,
      sm_lastUsedAt = kr_lastUsedAt row\<rparr>"

text \<open>None: the row exists, or its hash does.\<close>

definition create_api_key :: "api_key_row \<Rightarrow> api_key_table \<Rightarrow> api_key_table option" where
  "create_api_key row tb =
     (if list_ex (\<lambda>r. kr_id r = kr_id row \<or> kr_keyHash r = kr_keyHash row) tb then None else Some (tb @ [row]))"

definition issued_row :: "(string \<Rightarrow> string) \<Rightarrow> string \<Rightarrow> string \<Rightarrow> int \<Rightarrow> issue_key_input \<Rightarrow> api_key_row" where
  "issued_row sha key uid now input =
     \<lparr>kr_id = uid, kr_companyId = ii_companyId input, kr_keyHash = api_key_hash sha key, kr_name = ii_name input,
      kr_prefix = take DISPLAY_PREFIX_LEN key, kr_scopes = ii_scopes input, kr_policyNames = ii_policyNames input,
      kr_userId = ii_userId input, kr_circle = ii_circle input, kr_createdBy = ii_createdBy input,
      kr_createdAt = now, kr_expiresAt = ii_expiresAt input, kr_revokedAt = None, kr_lastUsedAt = None\<rparr>"

text \<open>The plaintext, its summary and the table; None where the statement is refused.\<close>

definition store_issue ::
    "(string \<Rightarrow> string) \<Rightarrow> string \<Rightarrow> string \<Rightarrow> int \<Rightarrow> issue_key_input \<Rightarrow> api_key_table \<Rightarrow>
     ((string \<times> key_summary) \<times> api_key_table) option" where
  "store_issue sha hex uid now input tb =
     (let key = KEY_PREFIX @ hex; row = issued_row sha key uid now input
      in case create_api_key row tb of None \<Rightarrow> None | Some tb' \<Rightarrow> Some ((key, toSummary row), tb'))"

definition store_list :: "string \<Rightarrow> api_key_table \<Rightarrow> key_summary list" where
  "store_list companyId tb =
     map toSummary (rev (sort_key kr_createdAt (filter (\<lambda>r. kr_companyId r = companyId) tb)))"

definition active_summary :: "int \<Rightarrow> key_summary \<Rightarrow> bool" where
  "active_summary now k \<longleftrightarrow>
     sm_revokedAt k = None \<and> (case sm_expiresAt k of None \<Rightarrow> True | Some e \<Rightarrow> now < e)"

definition activeCount :: "string \<Rightarrow> int \<Rightarrow> api_key_table \<Rightarrow> nat" where
  "activeCount companyId now tb = length (filter (active_summary now) (store_list companyId tb))"

definition find_api_key :: "string \<Rightarrow> api_key_table \<Rightarrow> api_key_row option" where
  "find_api_key h tb = find (\<lambda>r. kr_keyHash r = h) tb"

text \<open>The first statement of a revocation: the row, when it may be revoked by the tenant.\<close>

definition revocable :: "string \<Rightarrow> string \<Rightarrow> api_key_table \<Rightarrow> api_key_row option" where
  "revocable companyId uid tb =
     (case find (\<lambda>r. kr_id r = uid) tb of
        None \<Rightarrow> None
      | Some r \<Rightarrow> if kr_companyId r \<noteq> companyId \<or> kr_revokedAt r \<noteq> None then None else Some r)"

definition mark_revoked :: "string \<Rightarrow> int \<Rightarrow> api_key_table \<Rightarrow> api_key_table" where
  "mark_revoked uid now tb = map (\<lambda>r. if kr_id r = uid then r\<lparr>kr_revokedAt := Some now\<rparr> else r) tb"

definition stamp_used :: "string \<Rightarrow> int \<Rightarrow> api_key_table \<Rightarrow> api_key_table" where
  "stamp_used h now tb = map (\<lambda>r. if kr_keyHash r = h then r\<lparr>kr_lastUsedAt := Some now\<rparr> else r) tb"

text \<open>A revocation whose statements run one after the other.\<close>

definition store_revoke :: "string \<Rightarrow> string \<Rightarrow> int \<Rightarrow> api_key_table \<Rightarrow> bool \<times> api_key_table" where
  "store_revoke companyId uid now tb =
     (case revocable companyId uid tb of
        None \<Rightarrow> (False, tb)
      | Some r \<Rightarrow> (kr_keyHash r \<noteq> [], mark_revoked uid now tb))"

section \<open>A replica's cache\<close>

record key_pod =
  kp_cache :: "(string \<times> (api_key_record option \<times> int)) list"
  kp_stamped :: "(string \<times> int) list"

definition fresh_pod :: key_pod where
  "fresh_pod = \<lparr>kp_cache = [], kp_stamped = []\<rparr>"

text \<open>Whether a write is launched, and the throttle's state.\<close>

definition stampUsed :: "int \<Rightarrow> string \<Rightarrow> key_pod \<Rightarrow> bool \<times> key_pod" where
  "stampUsed now h pod =
     (let last = (case map_of (kp_stamped pod) h of None \<Rightarrow> 0 | Some t \<Rightarrow> t)
      in if now - last < USED_STAMP_THROTTLE_MS then (False, pod)
         else (True, pod\<lparr>kp_stamped := AList.update h now (kp_stamped pod)\<rparr>))"

text \<open>\<open>resolve\<close> up to its read (None: it must read), and from the row read on.\<close>

definition lookup_start :: "int \<Rightarrow> string \<Rightarrow> key_pod \<Rightarrow> api_key_record option option \<times> key_pod" where
  "lookup_start now h pod =
     (case map_of (kp_cache pod) h of
        None \<Rightarrow> (None, pod)
      | Some (cached, until) \<Rightarrow>
          if now < until
          then (Some cached, if cached \<noteq> None then snd (stampUsed now h pod) else pod)
          else (None, pod))"

definition lookup_finish ::
    "int \<Rightarrow> int \<Rightarrow> string \<Rightarrow> api_key_row option \<Rightarrow> key_pod \<Rightarrow> api_key_record option \<times> key_pod" where
  "lookup_finish start now h row pod =
     (let rec = (case row of None \<Rightarrow> None | Some r \<Rightarrow> toRecord now r);
          pod1 = pod\<lparr>kp_cache := AList.update h (rec, start + CACHE_TTL_MS) (kp_cache pod)\<rparr>
      in (rec, if rec \<noteq> None then snd (stampUsed now h pod1) else pod1))"

definition drop_cached :: "string \<Rightarrow> key_pod \<Rightarrow> key_pod" where
  "drop_cached h pod = pod\<lparr>kp_cache := AList.delete h (kp_cache pod)\<rparr>"

section \<open>Issuing and revoking\<close>

definition ISSUABLE_SCOPES :: "string list" where
  "ISSUABLE_SCOPES = [''brain:read'', ''brain:write'', ''brain:admin'', ''brain:read_pii'']"

definition issuableFor :: "string list \<Rightarrow> string list" where
  "issuableFor callerScopes = filter (\<lambda>s. s \<in> set callerScopes) ISSUABLE_SCOPES"

record issue_request =
  rq_name :: string
  rq_scopes :: "string list"
  rq_expiresInDays :: "int option"
  rq_userId :: "string option"
  rq_circle :: "string option"

datatype keys_error = KeysForbidden | KeysBadRequest | KeysUnavailable | KeysStoreRefused

definition isTenantOperator :: "api_key_record \<Rightarrow> bool" where
  "isTenantOperator auth \<longleftrightarrow> ''brain:admin'' \<in> set (ak_scopes auth) \<or> ak_userId auth = None"

definition visibleTo :: "api_key_record \<Rightarrow> key_summary \<Rightarrow> bool" where
  "visibleTo auth k \<longleftrightarrow> isTenantOperator auth \<or> (sm_userId k \<noteq> None \<and> sm_userId k = ak_userId auth)"

definition resolveUserBinding :: "api_key_record \<Rightarrow> string option \<Rightarrow> keys_error + string option" where
  "resolveUserBinding auth requested =
     (case ak_userId auth of
        None \<Rightarrow> Inr requested
      | Some u \<Rightarrow>
          if requested \<noteq> None \<and> requested \<noteq> Some u \<and> \<not> isTenantOperator auth then Inl KeysForbidden
          else Inr (case requested of None \<Rightarrow> Some u | Some r \<Rightarrow> Some r))"

definition bound_circle :: "api_key_record \<Rightarrow> string option \<Rightarrow> keys_error + string option" where
  "bound_circle auth requested =
     (if ak_circle auth \<noteq> None \<and> requested \<noteq> None \<and> requested \<noteq> ak_circle auth then Inl KeysBadRequest
      else Inr (case requested of Some c \<Rightarrow> Some c | None \<Rightarrow> ak_circle auth))"

definition granted_scopes :: "api_key_record \<Rightarrow> issue_request \<Rightarrow> string list" where
  "granted_scopes auth rq = filter (\<lambda>s. s \<in> set (issuableFor (ak_scopes auth))) (rq_scopes rq)"

definition created_by :: "api_key_record \<Rightarrow> string option" where
  "created_by auth =
     (case ak_userId auth of Some u \<Rightarrow> Some u
      | None \<Rightarrow> (case ak_actorId auth of Some a \<Rightarrow> Some a | None \<Rightarrow> ak_name auth))"

definition issue_input :: "api_key_record \<Rightarrow> issue_request \<Rightarrow> int \<Rightarrow> keys_error + issue_key_input" where
  "issue_input auth rq now =
     (case resolveUserBinding auth (rq_userId rq) of
        Inl e \<Rightarrow> Inl e
      | Inr userId \<Rightarrow> (case bound_circle auth (rq_circle rq) of
            Inl e \<Rightarrow> Inl e
          | Inr circle \<Rightarrow>
              Inr \<lparr>ii_companyId = ak_companyId auth, ii_name = rq_name rq, ii_scopes = granted_scopes auth rq,
                   ii_userId = userId, ii_circle = circle, ii_policyNames = None,
                   ii_expiresAt = map_option (\<lambda>d. now + d * 86400000) (rq_expiresInDays rq),
                   ii_createdBy = created_by auth\<rparr>))"

text \<open>The checks before the row is created, on the keys the count reads.\<close>

definition issue_checked :: "bool \<Rightarrow> int \<Rightarrow> api_key_record \<Rightarrow> issue_request \<Rightarrow> api_key_table \<Rightarrow> keys_error + issue_key_input" where
  "issue_checked enabled now auth rq tb =
     (if \<not> enabled then Inl KeysUnavailable
      else if granted_scopes auth rq = [] then Inl KeysForbidden
      else if MAX_ACTIVE_KEYS_PER_TENANT \<le> activeCount (ak_companyId auth) now tb then Inl KeysBadRequest
      else issue_input auth rq now)"

definition keys_issue ::
    "(string \<Rightarrow> string) \<Rightarrow> bool \<Rightarrow> string \<Rightarrow> string \<Rightarrow> int \<Rightarrow> api_key_record \<Rightarrow> issue_request \<Rightarrow> api_key_table \<Rightarrow>
     keys_error + ((string \<times> key_summary) \<times> api_key_table)" where
  "keys_issue sha enabled hex uid now auth rq tb =
     (case issue_checked enabled now auth rq tb of
        Inl e \<Rightarrow> Inl e
      | Inr input \<Rightarrow> (case store_issue sha hex uid now input tb of
            None \<Rightarrow> Inl KeysStoreRefused | Some r \<Rightarrow> Inr r))"

definition keys_list :: "api_key_record \<Rightarrow> api_key_table \<Rightarrow> key_summary list" where
  "keys_list auth tb = filter (visibleTo auth) (store_list (ak_companyId auth) tb)"

definition keys_revoke :: "bool \<Rightarrow> api_key_record \<Rightarrow> string \<Rightarrow> int \<Rightarrow> api_key_table \<Rightarrow> keys_error + (bool \<times> api_key_table)" where
  "keys_revoke enabled auth uid now tb =
     (if \<not> enabled then Inl KeysUnavailable
      else if \<not> isTenantOperator auth \<and> \<not> list_ex (\<lambda>k. sm_id k = uid) (keys_list auth tb) then Inr (False, tb)
      else Inr (store_revoke (ak_companyId auth) uid now tb))"

section \<open>Lookups and revocations of all replicas\<close>

text \<open>A lookup waits for its row, holds the row it read, or has answered; a revocation has read the row it
  may revoke, has written, or has dropped its replica's entry.\<close>

datatype lookup_phase = LkReading | LkGot "api_key_row option" | LkAnswered "api_key_record option"

record key_lookup =
  lk_pod :: nat
  lk_hash :: string
  lk_start :: int
  lk_phase :: lookup_phase

datatype revoke_phase = RvWriting | RvDropping | RvEnded

record key_revocation =
  rv_pod :: nat
  rv_row :: api_key_row
  rv_phase :: revoke_phase

record key_world =
  kw_table :: api_key_table
  kw_now :: int
  kw_pods :: "nat \<Rightarrow> key_pod"
  kw_lookups :: "key_lookup list"
  kw_revokes :: "key_revocation list"
  kw_log :: "(string \<times> int) list"   \<comment> \<open>the revocations written so far: hash and moment\<close>

definition no_keys :: key_world where
  "no_keys = \<lparr>kw_table = [], kw_now = 0, kw_pods = (\<lambda>_. fresh_pod), kw_lookups = [], kw_revokes = [], kw_log = []\<rparr>"

definition on_pod :: "nat \<Rightarrow> key_pod \<Rightarrow> key_world \<Rightarrow> key_world" where
  "on_pod p pod w = w\<lparr>kw_pods := (kw_pods w)(p := pod)\<rparr>"

definition ask_key :: "nat \<Rightarrow> string \<Rightarrow> key_world \<Rightarrow> key_world" where
  "ask_key p h w =
     (let (hit, pod) = lookup_start (kw_now w) h (kw_pods w p)
      in (on_pod p pod w)\<lparr>kw_lookups := kw_lookups w @
           [\<lparr>lk_pod = p, lk_hash = h, lk_start = kw_now w,
             lk_phase = (case hit of None \<Rightarrow> LkReading | Some r \<Rightarrow> LkAnswered r)\<rparr>]\<rparr>)"

definition set_lookup :: "nat \<Rightarrow> lookup_phase \<Rightarrow> key_world \<Rightarrow> key_world" where
  "set_lookup n ph w = w\<lparr>kw_lookups := (kw_lookups w)[n := (kw_lookups w ! n)\<lparr>lk_phase := ph\<rparr>]\<rparr>"

definition read_key :: "nat \<Rightarrow> key_world \<Rightarrow> key_world" where
  "read_key n w = set_lookup n (LkGot (find_api_key (lk_hash (kw_lookups w ! n)) (kw_table w))) w"

definition answer_key :: "nat \<Rightarrow> api_key_row option \<Rightarrow> key_world \<Rightarrow> key_world" where
  "answer_key n row w =
     (let l = kw_lookups w ! n;
          (rec, pod) = lookup_finish (lk_start l) (kw_now w) (lk_hash l) row (kw_pods w (lk_pod l))
      in set_lookup n (LkAnswered rec) (on_pod (lk_pod l) pod w))"

definition set_revoke :: "nat \<Rightarrow> revoke_phase \<Rightarrow> key_world \<Rightarrow> key_world" where
  "set_revoke n ph w = w\<lparr>kw_revokes := (kw_revokes w)[n := (kw_revokes w ! n)\<lparr>rv_phase := ph\<rparr>]\<rparr>"

definition write_revoke :: "nat \<Rightarrow> key_world \<Rightarrow> key_world" where
  "write_revoke n w =
     (let r = rv_row (kw_revokes w ! n)
      in set_revoke n RvDropping
           (w\<lparr>kw_table := mark_revoked (kr_id r) (kw_now w) (kw_table w),
              kw_log := kw_log w @ [(kr_keyHash r, kw_now w)]\<rparr>))"

definition drop_revoked :: "nat \<Rightarrow> key_world \<Rightarrow> key_world" where
  "drop_revoked n w =
     (let v = kw_revokes w ! n
      in set_revoke n RvEnded (on_pod (rv_pod v) (drop_cached (kr_keyHash (rv_row v)) (kw_pods w (rv_pod v))) w))"

inductive key_step :: "(string \<Rightarrow> string) \<Rightarrow> key_world \<Rightarrow> key_world \<Rightarrow> bool" for sha where
  issues: "store_issue sha hex uid (kw_now w) input (kw_table w) = Some (issued, tb) \<Longrightarrow>
    key_step sha w (w\<lparr>kw_table := tb\<rparr>)"
| asks: "looksLikeStoredKey token \<Longrightarrow> key_step sha w (ask_key p (api_key_hash sha token) w)"
| reads: "n < length (kw_lookups w) \<Longrightarrow> lk_phase (kw_lookups w ! n) = LkReading \<Longrightarrow> key_step sha w (read_key n w)"
| read_fails: "n < length (kw_lookups w) \<Longrightarrow> lk_phase (kw_lookups w ! n) = LkReading \<Longrightarrow>
    key_step sha w (set_lookup n (LkAnswered None) w)"
| answers: "n < length (kw_lookups w) \<Longrightarrow> lk_phase (kw_lookups w ! n) = LkGot row \<Longrightarrow> key_step sha w (answer_key n row w)"
| revoke_reads: "revocable companyId uid (kw_table w) = Some r \<Longrightarrow>
    key_step sha w (w\<lparr>kw_revokes := kw_revokes w @ [\<lparr>rv_pod = p, rv_row = r, rv_phase = RvWriting\<rparr>]\<rparr>)"
| revoke_writes: "n < length (kw_revokes w) \<Longrightarrow> rv_phase (kw_revokes w ! n) = RvWriting \<Longrightarrow> key_step sha w (write_revoke n w)"
| revoke_drops: "n < length (kw_revokes w) \<Longrightarrow> rv_phase (kw_revokes w ! n) = RvDropping \<Longrightarrow> key_step sha w (drop_revoked n w)"
| stamps: "key_step sha w (w\<lparr>kw_table := stamp_used h (kw_now w) (kw_table w)\<rparr>)"
| restarts: "key_step sha w (on_pod p fresh_pod w)"
| passes: "kw_now w \<le> t \<Longrightarrow> key_step sha w (w\<lparr>kw_now := t\<rparr>)"

section \<open>The invariant\<close>

text \<open>What a row keeps for ever.\<close>

definition key_fixed :: "api_key_row \<Rightarrow> api_key_row" where
  "key_fixed r = r\<lparr>kr_revokedAt := None, kr_lastUsedAt := None\<rparr>"

lemma key_fixed_fields:
  assumes "key_fixed r = key_fixed r'"
  shows "kr_id r = kr_id r'" "kr_keyHash r = kr_keyHash r'" "kr_expiresAt r = kr_expiresAt r'" "record_of r = record_of r'"
  using assms by (cases r; cases r'; simp add: key_fixed_def record_of_def)+

text \<open>A record stands from a moment on when it is its row's, no revocation of the key is older than the
  moment, and the row expires after it.\<close>

definition stands :: "key_world \<Rightarrow> string \<Rightarrow> api_key_record \<Rightarrow> int \<Rightarrow> bool" where
  "stands w h rec m \<longleftrightarrow> m \<le> kw_now w \<and>
     (\<exists>r\<in>set (kw_table w). kr_keyHash r = h \<and> rec = record_of r \<and> (\<forall>e. kr_expiresAt r = Some e \<longrightarrow> m < e)) \<and>
     (\<forall>t. (h, t) \<in> set (kw_log w) \<longrightarrow> m \<le> t)"

definition table_ok :: "key_world \<Rightarrow> bool" where
  "table_ok w \<longleftrightarrow> distinct (map kr_id (kw_table w)) \<and> distinct (map kr_keyHash (kw_table w)) \<and>
     (\<forall>(h, t)\<in>set (kw_log w). \<exists>r\<in>set (kw_table w). kr_keyHash r = h \<and> kr_revokedAt r \<noteq> None)"

definition pod_ok :: "key_world \<Rightarrow> key_pod \<Rightarrow> bool" where
  "pod_ok w pod \<longleftrightarrow>
     (\<forall>h rec until. map_of (kp_cache pod) h = Some (Some rec, until) \<longrightarrow> stands w h rec (until - CACHE_TTL_MS))"

definition got_ok :: "key_world \<Rightarrow> string \<Rightarrow> int \<Rightarrow> api_key_row \<Rightarrow> bool" where
  "got_ok w h m r \<longleftrightarrow> kr_keyHash r = h \<and> (\<exists>r'\<in>set (kw_table w). key_fixed r' = key_fixed r) \<and>
     (kr_revokedAt r = None \<longrightarrow> (\<forall>t. (h, t) \<in> set (kw_log w) \<longrightarrow> m \<le> t))"

definition lookup_ok :: "key_world \<Rightarrow> key_lookup \<Rightarrow> bool" where
  "lookup_ok w l \<longleftrightarrow> lk_start l \<le> kw_now w \<and>
     (case lk_phase l of
        LkGot (Some r) \<Rightarrow> got_ok w (lk_hash l) (lk_start l) r
      | LkAnswered (Some rec) \<Rightarrow> stands w (lk_hash l) rec (lk_start l - CACHE_TTL_MS + 1)
      | _ \<Rightarrow> True)"

definition revoke_ok :: "key_world \<Rightarrow> key_revocation \<Rightarrow> bool" where
  "revoke_ok w v \<longleftrightarrow> (\<exists>r\<in>set (kw_table w). key_fixed r = key_fixed (rv_row v))"

definition keys_ok :: "key_world \<Rightarrow> bool" where
  "keys_ok w \<longleftrightarrow> table_ok w \<and> (\<forall>p. pod_ok w (kw_pods w p)) \<and> (\<forall>l\<in>set (kw_lookups w). lookup_ok w l) \<and>
     (\<forall>v\<in>set (kw_revokes w). revoke_ok w v)"

text \<open>What every step keeps.\<close>

definition ages :: "key_world \<Rightarrow> key_world \<Rightarrow> bool" where
  "ages w w' \<longleftrightarrow> kw_now w \<le> kw_now w' \<and>
     (\<forall>r\<in>set (kw_table w). \<exists>r'\<in>set (kw_table w'). key_fixed r' = key_fixed r) \<and>
     (\<forall>h t. (h, t) \<in> set (kw_log w') \<longrightarrow> (h, t) \<in> set (kw_log w) \<or> kw_now w \<le> t)"

lemma ages_rows: "ages w w' \<Longrightarrow> r \<in> set (kw_table w) \<Longrightarrow> \<exists>r'\<in>set (kw_table w'). key_fixed r' = key_fixed r"
  by (simp add: ages_def)

lemma ages_log: "ages w w' \<Longrightarrow> m \<le> kw_now w \<Longrightarrow> (\<forall>t. (h, t) \<in> set (kw_log w) \<longrightarrow> m \<le> t) \<Longrightarrow>
    (h, t) \<in> set (kw_log w') \<Longrightarrow> m \<le> t"
  unfolding ages_def by (meson order_trans)

lemma stands_ages:
  assumes "stands w h rec m" "ages w w'"
  shows "stands w' h rec m"
proof -
  from assms(1) obtain r where r: "r \<in> set (kw_table w)" "kr_keyHash r = h" "rec = record_of r"
    "\<forall>e. kr_expiresAt r = Some e \<longrightarrow> m < e" and m: "m \<le> kw_now w"
    and lg: "\<forall>t. (h, t) \<in> set (kw_log w) \<longrightarrow> m \<le> t" by (auto simp: stands_def)
  from ages_rows [OF assms(2) r(1)] obtain r' where r': "r' \<in> set (kw_table w')" "key_fixed r' = key_fixed r" by blast
  have "kr_keyHash r' = h \<and> rec = record_of r' \<and> (\<forall>e. kr_expiresAt r' = Some e \<longrightarrow> m < e)"
    using key_fixed_fields [OF r'(2)] r by simp
  moreover have "m \<le> kw_now w'" using m assms(2) by (simp add: ages_def)
  moreover have "\<forall>t. (h, t) \<in> set (kw_log w') \<longrightarrow> m \<le> t" using ages_log [OF assms(2) m lg] by blast
  ultimately show ?thesis using r'(1) by (auto simp: stands_def)
qed

lemma stands_earlier: "stands w h rec m \<Longrightarrow> m' \<le> m \<Longrightarrow> stands w h rec m'"
  by (fastforce simp: stands_def)

lemma pod_ok_ages: "pod_ok w pod \<Longrightarrow> ages w w' \<Longrightarrow> pod_ok w' pod"
  unfolding pod_ok_def by (blast intro: stands_ages)

lemma revoke_ok_ages: "revoke_ok w v \<Longrightarrow> ages w w' \<Longrightarrow> revoke_ok w' v"
  unfolding revoke_ok_def by (metis ages_rows)

lemma got_ok_ages: "got_ok w h m r \<Longrightarrow> m \<le> kw_now w \<Longrightarrow> ages w w' \<Longrightarrow> got_ok w' h m r"
  unfolding got_ok_def by (metis ages_rows ages_log)

lemma lookup_ok_ages:
  assumes "lookup_ok w l" "ages w w'"
  shows "lookup_ok w' l"
proof -
  have "lk_start l \<le> kw_now w'" using assms by (simp add: lookup_ok_def ages_def)
  with assms got_ok_ages stands_ages show ?thesis
    by (auto simp: lookup_ok_def split: lookup_phase.splits option.splits)
qed

text \<open>A step is in order when its table is and the parts it adds are.\<close>

lemma keys_ok_step:
  assumes ok: "keys_ok w" and "ages w w'" "table_ok w'"
    and pods: "\<And>p. kw_pods w' p = kw_pods w p \<or> pod_ok w' (kw_pods w' p)"
    and looks: "\<And>l. l \<in> set (kw_lookups w') \<Longrightarrow> l \<in> set (kw_lookups w) \<or> lookup_ok w' l"
    and revs: "\<And>v. v \<in> set (kw_revokes w') \<Longrightarrow> v \<in> set (kw_revokes w) \<or> revoke_ok w' v"
  shows "keys_ok w'"
proof -
  have "pod_ok w' (kw_pods w' p)" for p
    using pods [of p] ok assms(2) unfolding keys_ok_def by (metis pod_ok_ages)
  moreover have "lookup_ok w' l" if "l \<in> set (kw_lookups w')" for l
    using looks [OF that] ok assms(2) by (auto simp: keys_ok_def intro: lookup_ok_ages)
  moreover have "revoke_ok w' v" if "v \<in> set (kw_revokes w')" for v
    using revs [OF that] ok assms(2) by (auto simp: keys_ok_def intro: revoke_ok_ages)
  ultimately show ?thesis using assms(3) by (simp add: keys_ok_def)
qed

section \<open>Every step keeps it\<close>

lemma set_lookup_simps [simp]:
  "kw_table (set_lookup n ph w) = kw_table w" "kw_now (set_lookup n ph w) = kw_now w"
  "kw_pods (set_lookup n ph w) = kw_pods w" "kw_revokes (set_lookup n ph w) = kw_revokes w"
  "kw_log (set_lookup n ph w) = kw_log w"
  by (simp_all add: set_lookup_def)

lemma set_revoke_simps [simp]:
  "kw_table (set_revoke n ph w) = kw_table w" "kw_now (set_revoke n ph w) = kw_now w"
  "kw_pods (set_revoke n ph w) = kw_pods w" "kw_lookups (set_revoke n ph w) = kw_lookups w"
  "kw_log (set_revoke n ph w) = kw_log w"
  by (simp_all add: set_revoke_def)

lemma on_pod_simps [simp]:
  "kw_table (on_pod p pod w) = kw_table w" "kw_now (on_pod p pod w) = kw_now w"
  "kw_pods (on_pod p pod w) = (kw_pods w)(p := pod)" "kw_lookups (on_pod p pod w) = kw_lookups w"
  "kw_revokes (on_pod p pod w) = kw_revokes w" "kw_log (on_pod p pod w) = kw_log w"
  by (simp_all add: on_pod_def)

lemma set_lookup_mem:
  "l \<in> set (kw_lookups (set_lookup n ph w)) \<Longrightarrow> l \<in> set (kw_lookups w) \<or> l = (kw_lookups w ! n)\<lparr>lk_phase := ph\<rparr>"
  by (auto simp: set_lookup_def dest!: subsetD [OF set_update_subset_insert])

lemma set_revoke_mem:
  "v \<in> set (kw_revokes (set_revoke n ph w)) \<Longrightarrow> v \<in> set (kw_revokes w) \<or> v = (kw_revokes w ! n)\<lparr>rv_phase := ph\<rparr>"
  by (auto simp: set_revoke_def dest!: subsetD [OF set_update_subset_insert])

lemma ages_same: "kw_table w' = kw_table w \<Longrightarrow> kw_log w' = kw_log w \<Longrightarrow> kw_now w \<le> kw_now w' \<Longrightarrow> ages w w'"
  by (auto simp: ages_def)

lemma table_ok_same: "table_ok w \<Longrightarrow> kw_table w' = kw_table w \<Longrightarrow> kw_log w' = kw_log w \<Longrightarrow> table_ok w'"
  by (simp add: table_ok_def)

text \<open>The fields the invariant of a part reads.\<close>

lemma stands_cong: "kw_table w' = kw_table w \<Longrightarrow> kw_log w' = kw_log w \<Longrightarrow> kw_now w' = kw_now w \<Longrightarrow>
    stands w' h rec m = stands w h rec m"
  by (simp add: stands_def)

lemma pod_ok_cong: "kw_table w' = kw_table w \<Longrightarrow> kw_log w' = kw_log w \<Longrightarrow> kw_now w' = kw_now w \<Longrightarrow>
    pod_ok w' pod = pod_ok w pod"
  by (simp add: pod_ok_def stands_def)

lemma keys_ok_parts:
  "keys_ok w \<Longrightarrow> table_ok w" "keys_ok w \<Longrightarrow> pod_ok w (kw_pods w p)"
  "keys_ok w \<Longrightarrow> l \<in> set (kw_lookups w) \<Longrightarrow> lookup_ok w l" "keys_ok w \<Longrightarrow> v \<in> set (kw_revokes w) \<Longrightarrow> revoke_ok w v"
  by (simp_all add: keys_ok_def)

lemma stampUsed_cache [simp]: "kp_cache (snd (stampUsed now h pod)) = kp_cache pod"
  by (simp add: stampUsed_def Let_def)

lemma fresh_pod_ok: "pod_ok w fresh_pod"
  by (simp add: pod_ok_def fresh_pod_def)

lemma drop_pod_ok: "pod_ok w pod \<Longrightarrow> pod_ok w (drop_cached h pod)"
  by (auto simp: pod_ok_def drop_cached_def delete_conv' split: if_splits)

lemma pod_cache_ok: "pod_ok w pod \<Longrightarrow> kp_cache pod' = kp_cache pod \<Longrightarrow> pod_ok w pod'"
  by (simp add: pod_ok_def)

lemma lookup_start_cases:
  obtains "lookup_start now h pod = (None, pod)"
  | rec until pod' where "lookup_start now h pod = (Some rec, pod')" "kp_cache pod' = kp_cache pod"
      "map_of (kp_cache pod) h = Some (rec, until)" "now < until"
proof (cases "map_of (kp_cache pod) h")
  case None
  then show ?thesis by (intro that(1)) (simp add: lookup_start_def)
next
  case (Some c)
  show ?thesis
  proof (cases "now < snd c")
    case False
    with Some show ?thesis by (intro that(1)) (cases c; simp add: lookup_start_def)
  next
    case True
    with Some show ?thesis by (intro that(2) [of "fst c" "if fst c \<noteq> None then snd (stampUsed now h pod) else pod" "snd c"])
        (auto simp: lookup_start_def case_prod_beta)
  qed
qed

lemma ask_world:
  assumes "keys_ok w" "w' = (on_pod p pod w)\<lparr>kw_lookups := kw_lookups w @ [l]\<rparr>" "pod_ok w pod" "lookup_ok w l"
  shows "keys_ok w'"
proof -
  have same: "kw_table w' = kw_table w" "kw_log w' = kw_log w" "kw_now w' = kw_now w" using assms(2) by simp_all
  have "pod_ok w' pod" "lookup_ok w' l" using assms(3,4) same by (simp_all add: pod_ok_ages lookup_ok_ages ages_same)
  then show ?thesis using assms(2) table_ok_same [OF keys_ok_parts(1) [OF assms(1)] same(1,2)] same
    by (intro keys_ok_step [OF assms(1) ages_same]) auto
qed

lemma ask_ok:
  assumes "keys_ok w"
  shows "keys_ok (ask_key p h w)"
proof (rule lookup_start_cases [of "kw_now w" h "kw_pods w p"])
  assume st: "lookup_start (kw_now w) h (kw_pods w p) = (None, kw_pods w p)"
  show ?thesis
    by (rule ask_world [OF assms, where p = p and pod = "kw_pods w p" and
        l = "\<lparr>lk_pod = p, lk_hash = h, lk_start = kw_now w, lk_phase = LkReading\<rparr>"])
      (simp_all add: ask_key_def st keys_ok_parts(2) [OF assms] lookup_ok_def)
next
  fix rec until pod'
  assume st: "lookup_start (kw_now w) h (kw_pods w p) = (Some rec, pod')" "kp_cache pod' = kp_cache (kw_pods w p)"
    "map_of (kp_cache (kw_pods w p)) h = Some (rec, until)" "kw_now w < until"
  have "stands w h r (kw_now w - CACHE_TTL_MS + 1)" if "rec = Some r" for r
    using keys_ok_parts(2) [OF assms, of p] st(3,4) that
    by (auto simp: pod_ok_def intro: stands_earlier [of _ _ _ "until - CACHE_TTL_MS"])
  then have "lookup_ok w \<lparr>lk_pod = p, lk_hash = h, lk_start = kw_now w, lk_phase = LkAnswered rec\<rparr>"
    by (simp add: lookup_ok_def split: option.splits)
  moreover have "pod_ok w pod'" using keys_ok_parts(2) [OF assms] st(2) by (rule pod_cache_ok)
  ultimately show ?thesis
    by (intro ask_world [OF assms]) (simp_all add: ask_key_def st(1))
qed

lemma row_of_hash:
  assumes "find_api_key h tb = Some r"
  shows "r \<in> set tb" "kr_keyHash r = h"
  using assms by (auto simp: find_api_key_def find_Some_iff)

lemma hash_unique: "table_ok w \<Longrightarrow> r \<in> set (kw_table w) \<Longrightarrow> r' \<in> set (kw_table w) \<Longrightarrow> kr_keyHash r = kr_keyHash r' \<Longrightarrow> r = r'"
  by (auto simp: table_ok_def distinct_map dest: inj_onD)

lemma read_ok:
  assumes ok: "keys_ok w" and n: "n < length (kw_lookups w)"
  shows "keys_ok (read_key n w)"
proof -
  let ?l = "kw_lookups w ! n"
  have start: "lk_start ?l \<le> kw_now w" using keys_ok_parts(3) [OF ok nth_mem [OF n]] by (simp add: lookup_ok_def)
  have "got_ok w (lk_hash ?l) (lk_start ?l) r" if r: "find_api_key (lk_hash ?l) (kw_table w) = Some r" for r
  proof -
    have "(lk_hash ?l, t) \<notin> set (kw_log w)" if "kr_revokedAt r = None" for t
      using keys_ok_parts(1) [OF ok] hash_unique [OF keys_ok_parts(1) [OF ok] row_of_hash(1) [OF r]] row_of_hash(2) [OF r] that
      by (fastforce simp: table_ok_def)
    with row_of_hash [OF r] show ?thesis by (auto simp: got_ok_def)
  qed
  then have "lookup_ok w (?l\<lparr>lk_phase := LkGot (find_api_key (lk_hash ?l) (kw_table w))\<rparr>)"
    using start by (auto simp: lookup_ok_def split: option.splits)
  then have "lookup_ok (read_key n w) (?l\<lparr>lk_phase := LkGot (find_api_key (lk_hash ?l) (kw_table w))\<rparr>)"
    by (rule lookup_ok_ages) (simp add: read_key_def ages_same)
  then show ?thesis using keys_ok_parts(1) [OF ok]
    by (intro keys_ok_step [OF ok]) (auto simp: read_key_def ages_same elim: table_ok_same dest!: set_lookup_mem)
qed

lemma lookup_answered:
  "lookup_ok w (l\<lparr>lk_phase := LkAnswered res\<rparr>) \<longleftrightarrow> lk_start l \<le> kw_now w \<and>
     (\<forall>rec. res = Some rec \<longrightarrow> stands w (lk_hash l) rec (lk_start l - CACHE_TTL_MS + 1))"
  by (cases res) (simp_all add: lookup_ok_def)

lemma lookup_started: "lookup_ok w l \<Longrightarrow> lk_start l \<le> kw_now w"
  by (simp add: lookup_ok_def)

text \<open>A lookup that moves on, with its replica.\<close>

lemma lookup_world:
  assumes "keys_ok w" "w' = set_lookup n ph (on_pod p pod w)" "pod_ok w pod" "lookup_ok w ((kw_lookups w ! n)\<lparr>lk_phase := ph\<rparr>)"
  shows "keys_ok w'"
proof -
  have same: "kw_table w' = kw_table w" "kw_log w' = kw_log w" "kw_now w' = kw_now w" using assms(2) by simp_all
  have "pod_ok w' pod" "lookup_ok w' ((kw_lookups w ! n)\<lparr>lk_phase := ph\<rparr>)"
    using assms(3,4) same by (simp_all add: pod_ok_ages lookup_ok_ages ages_same)
  then show ?thesis using assms(2) table_ok_same [OF keys_ok_parts(1) [OF assms(1)] same(1,2)] same
    by (intro keys_ok_step [OF assms(1) ages_same]) (auto dest!: set_lookup_mem)
qed

lemma on_pod_same [simp]: "on_pod p (kw_pods w p) w = w"
  by (simp add: on_pod_def)

lemma read_fails_ok:
  assumes "keys_ok w" "n < length (kw_lookups w)"
  shows "keys_ok (set_lookup n (LkAnswered None) w)"
  using lookup_started [OF keys_ok_parts(3) [OF assms(1) nth_mem [OF assms(2)]]]
  by (intro lookup_world [OF assms(1), where p = 0 and pod = "kw_pods w 0" and n = n and ph = "LkAnswered None"])
    (simp_all add: keys_ok_parts(2) [OF assms(1)] lookup_answered)

lemma got_stands:
  assumes got: "got_ok w h m r" and m: "m \<le> kw_now w" and rec: "toRecord (kw_now w) r = Some rec"
  shows "stands w h rec m"
proof -
  from got obtain r' where r': "r' \<in> set (kw_table w)" "key_fixed r' = key_fixed r" by (auto simp: got_ok_def)
  from rec have "rec = record_of r" "kr_revokedAt r = None" "\<forall>e. kr_expiresAt r = Some e \<longrightarrow> kw_now w < e"
    by (auto simp: toRecord_def split: if_splits option.splits)
  then have "kr_keyHash r' = h \<and> rec = record_of r' \<and> (\<forall>e. kr_expiresAt r' = Some e \<longrightarrow> m < e)"
    using got m key_fixed_fields [OF r'(2)] by (auto simp: got_ok_def)
  with r'(1) got m \<open>kr_revokedAt r = None\<close> show ?thesis unfolding stands_def got_ok_def by blast
qed

lemma answer_ok:
  assumes ok: "keys_ok w" and n: "n < length (kw_lookups w)" and ph: "lk_phase (kw_lookups w ! n) = LkGot row"
  shows "keys_ok (answer_key n row w)"
proof -
  let ?l = "kw_lookups w ! n"
  let ?rec = "case row of None \<Rightarrow> None | Some r \<Rightarrow> toRecord (kw_now w) r"
  have l: "lookup_ok w ?l" by (rule keys_ok_parts(3) [OF ok nth_mem [OF n]])
  then have start: "lk_start ?l \<le> kw_now w" by (simp add: lookup_ok_def)
  have st: "stands w (lk_hash ?l) rec (lk_start ?l)" if "?rec = Some rec" for rec
    using l ph that got_stands [OF _ start] by (auto simp: lookup_ok_def split: option.splits)
  obtain pod where fin: "lookup_finish (lk_start ?l) (kw_now w) (lk_hash ?l) row (kw_pods w (lk_pod ?l)) = (?rec, pod)"
    "kp_cache pod = AList.update (lk_hash ?l) (?rec, lk_start ?l + CACHE_TTL_MS) (kp_cache (kw_pods w (lk_pod ?l)))"
    by (simp add: lookup_finish_def Let_def)
  have "pod_ok w pod" using fin(2) st keys_ok_parts(2) [OF ok] by (auto simp: pod_ok_def split: if_splits)
  moreover have "lookup_ok w (?l\<lparr>lk_phase := LkAnswered ?rec\<rparr>)"
    using start st by (auto simp: lookup_answered CACHE_TTL_MS_def intro: stands_earlier)
  ultimately show ?thesis by (intro lookup_world [OF ok]) (simp_all add: answer_key_def fin(1))
qed

text \<open>Statements that change rows in their changing fields only.\<close>

lemma mark_fixed:
  assumes "\<And>r. r \<in> set tb \<Longrightarrow> key_fixed (f r) = key_fixed r"
  shows "map kr_id (map f tb) = map kr_id tb" "map kr_keyHash (map f tb) = map kr_keyHash tb"
  using key_fixed_fields [OF assms] by (auto simp: o_def)

lemma ages_map:
  assumes "\<And>r. r \<in> set (kw_table w) \<Longrightarrow> key_fixed (f r) = key_fixed r" "kw_table w' = map f (kw_table w)" "kw_now w' = kw_now w"
    "\<And>h t. (h, t) \<in> set (kw_log w') \<Longrightarrow> (h, t) \<in> set (kw_log w) \<or> kw_now w \<le> t"
  shows "ages w w'"
  using assms by (auto simp: ages_def)

lemma table_ok_map:
  assumes "table_ok w" "\<And>r. r \<in> set (kw_table w) \<Longrightarrow> key_fixed (f r) = key_fixed r" "kw_table w' = map f (kw_table w)"
    "\<And>r. r \<in> set (kw_table w) \<Longrightarrow> kr_revokedAt r \<noteq> None \<Longrightarrow> kr_revokedAt (f r) \<noteq> None"
    "\<And>h t. (h, t) \<in> set (kw_log w') \<Longrightarrow> (h, t) \<in> set (kw_log w) \<or>
       (\<exists>r\<in>set (kw_table w'). kr_keyHash r = h \<and> kr_revokedAt r \<noteq> None)"
  shows "table_ok w'"
proof -
  have "\<exists>r\<in>set (kw_table w'). kr_keyHash r = h \<and> kr_revokedAt r \<noteq> None" if "(h, t) \<in> set (kw_log w)" for h t
  proof -
    from that assms(1) obtain r where r: "r \<in> set (kw_table w)" "kr_keyHash r = h" "kr_revokedAt r \<noteq> None"
      by (fastforce simp: table_ok_def)
    with assms(3) assms(4) [OF r(1,3)] key_fixed_fields(2) [OF assms(2) [OF r(1)]] show ?thesis by auto
  qed
  with assms(1,3,5) mark_fixed [OF assms(2)] show ?thesis unfolding table_ok_def by (fastforce simp del: map_map)
qed

lemma stamp_ok:
  assumes "keys_ok w"
  shows "keys_ok (w\<lparr>kw_table := stamp_used h now (kw_table w)\<rparr>)"
proof -
  let ?f = "\<lambda>r. if kr_keyHash r = h then r\<lparr>kr_lastUsedAt := Some now\<rparr> else r"
  have fixed: "key_fixed (?f r) = key_fixed r" for r by (simp add: key_fixed_def)
  have "table_ok (w\<lparr>kw_table := map ?f (kw_table w)\<rparr>)"
    by (rule table_ok_map [where f = ?f, OF keys_ok_parts(1) [OF assms]]) (simp_all add: fixed)
  then show ?thesis unfolding stamp_used_def
    by (intro keys_ok_step [OF assms]) (auto intro!: ages_map [where f = ?f, OF fixed])
qed

lemma revocable_row: "revocable companyId uid tb = Some r \<Longrightarrow> r \<in> set tb \<and> kr_id r = uid \<and> kr_companyId r = companyId"
  by (auto simp: revocable_def find_Some_iff split: option.splits if_splits)

lemma revoke_reads_ok:
  assumes "keys_ok w" "revocable companyId uid (kw_table w) = Some r"
  shows "keys_ok (w\<lparr>kw_revokes := kw_revokes w @ [\<lparr>rv_pod = p, rv_row = r, rv_phase = RvWriting\<rparr>]\<rparr>)"
  using revocable_row [OF assms(2)] table_ok_same [OF keys_ok_parts(1) [OF assms(1)]]
  by (intro keys_ok_step [OF assms(1)]) (auto simp: ages_same revoke_ok_def)

lemma revoke_writes_ok:
  assumes ok: "keys_ok w" and n: "n < length (kw_revokes w)"
  shows "keys_ok (write_revoke n w)"
proof -
  let ?v = "kw_revokes w ! n"
  let ?f = "\<lambda>r. if kr_id r = kr_id (rv_row ?v) then r\<lparr>kr_revokedAt := Some (kw_now w)\<rparr> else r"
  have fixed: "key_fixed (?f r) = key_fixed r" for r by (simp add: key_fixed_def)
  have v: "revoke_ok w ?v" by (rule keys_ok_parts(4) [OF ok nth_mem [OF n]])
  have tab: "kw_table (write_revoke n w) = map ?f (kw_table w)"
    and lg: "set (kw_log (write_revoke n w)) = insert (kr_keyHash (rv_row ?v), kw_now w) (set (kw_log w))"
    by (simp_all add: write_revoke_def Let_def mark_revoked_def)
  from v obtain r where "r \<in> set (kw_table w)" "key_fixed r = key_fixed (rv_row ?v)" by (auto simp: revoke_ok_def)
  with key_fixed_fields [OF this(2)]
  have "?f r \<in> ?f ` set (kw_table w)" "kr_keyHash (?f r) = kr_keyHash (rv_row ?v)" "kr_revokedAt (?f r) \<noteq> None" by simp_all
  with tab have marked: "\<exists>r\<in>set (kw_table (write_revoke n w)). kr_keyHash r = kr_keyHash (rv_row ?v) \<and> kr_revokedAt r \<noteq> None"
    by (simp only: set_map) blast
  have ag: "ages w (write_revoke n w)"
    by (rule ages_map [where f = ?f, OF fixed tab]) (auto simp: lg write_revoke_def Let_def)
  have "revoke_ok (write_revoke n w) (?v\<lparr>rv_phase := RvDropping\<rparr>)"
    using revoke_ok_ages [OF v ag] by (simp add: revoke_ok_def)
  moreover have "table_ok (write_revoke n w)"
    by (rule table_ok_map [where f = ?f, OF keys_ok_parts(1) [OF ok] fixed tab]) (use marked in \<open>auto simp: lg\<close>)
  ultimately show ?thesis
    by (intro keys_ok_step [OF ok ag]) (auto simp: write_revoke_def Let_def dest!: set_revoke_mem)
qed

lemma revoke_drops_ok:
  assumes ok: "keys_ok w" and n: "n < length (kw_revokes w)"
  shows "keys_ok (drop_revoked n w)"
proof -
  let ?v = "kw_revokes w ! n"
  have ag: "ages w (drop_revoked n w)" by (rule ages_same) (simp_all add: drop_revoked_def Let_def)
  have "revoke_ok (drop_revoked n w) (?v\<lparr>rv_phase := RvEnded\<rparr>)"
    using revoke_ok_ages [OF keys_ok_parts(4) [OF ok nth_mem [OF n]] ag] by (simp add: revoke_ok_def)
  moreover have "pod_ok (drop_revoked n w) (drop_cached (kr_keyHash (rv_row ?v)) (kw_pods w (rv_pod ?v)))"
    by (rule pod_ok_ages [OF drop_pod_ok [OF keys_ok_parts(2) [OF ok]] ag])
  moreover have "table_ok (drop_revoked n w)"
    by (rule table_ok_same [OF keys_ok_parts(1) [OF ok]]) (simp_all add: drop_revoked_def Let_def)
  ultimately show ?thesis
    by (intro keys_ok_step [OF ok ag]) (auto simp: drop_revoked_def Let_def dest!: set_revoke_mem)
qed

lemma issue_ok:
  assumes ok: "keys_ok w" and "create_api_key row (kw_table w) = Some tb"
  shows "keys_ok (w\<lparr>kw_table := tb\<rparr>)"
proof -
  have tb: "tb = kw_table w @ [row]" "\<forall>r\<in>set (kw_table w). kr_id r \<noteq> kr_id row \<and> kr_keyHash r \<noteq> kr_keyHash row"
    using assms(2) by (auto simp: create_api_key_def list_ex_iff split: if_splits)
  have "table_ok (w\<lparr>kw_table := tb\<rparr>)" using keys_ok_parts(1) [OF ok] tb by (fastforce simp: table_ok_def)
  then show ?thesis using tb(1) by (intro keys_ok_step [OF ok]) (auto simp: ages_def)
qed

lemma restart_ok:
  assumes "keys_ok w"
  shows "keys_ok (on_pod p fresh_pod w)"
  using table_ok_same [OF keys_ok_parts(1) [OF assms]]
  by (intro keys_ok_step [OF assms]) (auto simp: ages_same fresh_pod_ok)

lemma pass_ok:
  assumes "keys_ok w" "kw_now w \<le> t"
  shows "keys_ok (w\<lparr>kw_now := t\<rparr>)"
  using table_ok_same [OF keys_ok_parts(1) [OF assms(1)]] assms(2)
  by (intro keys_ok_step [OF assms(1)]) (auto simp: ages_same)

lemma key_step_ok: "key_step sha w w' \<Longrightarrow> keys_ok w \<Longrightarrow> keys_ok w'"
proof (induction rule: key_step.induct)
  case (issues hex uid w input issued tb)
  then show ?case by (auto simp: store_issue_def Let_def split: option.splits intro: issue_ok)
qed (simp_all add: ask_ok read_ok read_fails_ok answer_ok revoke_reads_ok revoke_writes_ok revoke_drops_ok stamp_ok
    restart_ok pass_ok)

interpretation keys: state_machine "key_step sha" keys_ok for sha
  by unfold_locales (rule key_step_ok)

lemma no_keys_ok: "keys_ok no_keys"
  by (simp add: keys_ok_def no_keys_def table_ok_def fresh_pod_ok)

section \<open>Schedules\<close>

datatype key_event =
    Issue string string issue_key_input
  | Ask nat string
  | Read nat
  | Answer nat
  | RevokeRead nat string string
  | RevokeWrite nat
  | RevokeDrop nat
  | Pass nat

fun key_apply :: "(string \<Rightarrow> string) \<Rightarrow> key_event \<Rightarrow> key_world \<Rightarrow> key_world option" where
  "key_apply sha (Issue hex uid input) w =
     (case store_issue sha hex uid (kw_now w) input (kw_table w) of
        None \<Rightarrow> None | Some (issued, tb) \<Rightarrow> Some (w\<lparr>kw_table := tb\<rparr>))"
| "key_apply sha (Ask p token) w =
     (if looksLikeStoredKey token then Some (ask_key p (api_key_hash sha token) w) else None)"
| "key_apply sha (Read n) w =
     (if n < length (kw_lookups w) then (case lk_phase (kw_lookups w ! n) of
        LkReading \<Rightarrow> Some (read_key n w) | _ \<Rightarrow> None) else None)"
| "key_apply sha (Answer n) w =
     (if n < length (kw_lookups w) then (case lk_phase (kw_lookups w ! n) of
        LkGot row \<Rightarrow> Some (answer_key n row w) | _ \<Rightarrow> None) else None)"
| "key_apply sha (RevokeRead p companyId uid) w =
     (case revocable companyId uid (kw_table w) of
        None \<Rightarrow> None
      | Some r \<Rightarrow> Some (w\<lparr>kw_revokes := kw_revokes w @ [\<lparr>rv_pod = p, rv_row = r, rv_phase = RvWriting\<rparr>]\<rparr>))"
| "key_apply sha (RevokeWrite n) w =
     (if n < length (kw_revokes w) \<and> rv_phase (kw_revokes w ! n) = RvWriting then Some (write_revoke n w) else None)"
| "key_apply sha (RevokeDrop n) w =
     (if n < length (kw_revokes w) \<and> rv_phase (kw_revokes w ! n) = RvDropping then Some (drop_revoked n w) else None)"
| "key_apply sha (Pass d) w = Some (w\<lparr>kw_now := kw_now w + int d\<rparr>)"

lemma key_apply_step: "key_apply sha e w = Some w' \<Longrightarrow> key_step sha w w'"
  by (cases e) (auto intro: key_step.intros split: if_splits option.splits prod.splits lookup_phase.splits)

fun key_run :: "(string \<Rightarrow> string) \<Rightarrow> key_event list \<Rightarrow> key_world \<Rightarrow> key_world option" where
  "key_run sha [] w = Some w"
| "key_run sha (e # es) w = (case key_apply sha e w of None \<Rightarrow> None | Some w' \<Rightarrow> key_run sha es w')"

lemma key_run_steps: "key_run sha es w = Some w' \<Longrightarrow> (key_step sha)\<^sup>*\<^sup>* w w'"
  by (induction sha es w rule: key_run.induct)
    (auto split: option.splits intro: converse_rtranclp_into_rtranclp key_apply_step)

section \<open>Issued and revoked keys\<close>

lemma issuable_iff: "s \<in> set (issuableFor scopes) \<longleftrightarrow> s \<in> set ISSUABLE_SCOPES \<and> s \<in> set scopes"
  by (auto simp: issuableFor_def)

lemma length_filter_sort: "length (filter P (rev (sort_key k xs))) = length (filter P xs)"
proof -
  have "size (mset (filter P (rev (sort_key k xs)))) = size (mset (filter P xs))"
    by (simp only: mset_filter mset_rev mset_sort)
  then show ?thesis by (simp only: size_mset)
qed

lemma activeCount_rows:
  "activeCount companyId now tb = length (filter (\<lambda>r. kr_companyId r = companyId \<and> active_summary now (toSummary r)) tb)"
  by (simp add: activeCount_def store_list_def filter_map o_def length_filter_sort)

lemma keys_issued:
  assumes "keys_issue sha enabled hex uid now auth rq tb = Inr ((key, sm), tb')"
  obtains input where "issue_checked enabled now auth rq tb = Inr input" "issue_input auth rq now = Inr input"
    "key = KEY_PREFIX @ hex" "tb' = tb @ [issued_row sha key uid now input]"
    "\<forall>r\<in>set tb. kr_id r \<noteq> uid \<and> kr_keyHash r \<noteq> api_key_hash sha key"
  using assms
  by (fastforce simp: keys_issue_def store_issue_def create_api_key_def issued_row_def Let_def list_ex_iff issue_checked_def
      split: sum.splits option.splits if_splits)

lemma issued_found:
  assumes "keys_issue sha enabled hex uid now auth rq tb = Inr ((key, sm), tb')"
    "find_api_key (api_key_hash sha key) tb' = Some r"
  shows "\<exists>input. issue_input auth rq now = Inr input \<and> r = issued_row sha key uid now input"
proof (rule keys_issued [OF assms(1)])
  fix input
  assume inp: "issue_input auth rq now = Inr input" "tb' = tb @ [issued_row sha key uid now input]"
    "\<forall>r\<in>set tb. kr_id r \<noteq> uid \<and> kr_keyHash r \<noteq> api_key_hash sha key"
  from row_of_hash [OF assms(2)] inp(2,3) have "r = issued_row sha key uid now input" by auto
  with inp(1) show ?thesis by blast
qed

text \<open>A credential mints a key, and the key resolves to a record.\<close>

inductive mints :: "(string \<Rightarrow> string) \<Rightarrow> api_key_record \<Rightarrow> api_key_record \<Rightarrow> bool" for sha where
  "keys_issue sha enabled hex uid now auth rq tb = Inr ((key, sm), tb') \<Longrightarrow>
     find_api_key (api_key_hash sha key) tb' = Some r \<Longrightarrow> toRecord t r = Some rec \<Longrightarrow> mints sha auth rec"

lemma issue_input_fields:
  assumes "issue_input auth rq now = Inr input"
  shows "ii_companyId input = ak_companyId auth" "ii_scopes input = granted_scopes auth rq" "ii_policyNames input = None"
    "resolveUserBinding auth (rq_userId rq) = Inr (ii_userId input)" "bound_circle auth (rq_circle rq) = Inr (ii_circle input)"
  using assms by (auto simp: issue_input_def split: sum.splits)

text \<open>What a key keeps of the credential that minted it.\<close>

definition no_wider :: "api_key_record \<Rightarrow> api_key_record \<Rightarrow> bool" where
  "no_wider auth rec \<longleftrightarrow> ak_companyId rec = ak_companyId auth \<and> set (ak_scopes rec) \<subseteq> set (ak_scopes auth) \<and>
     (truthy_str (ak_circle auth) \<longrightarrow> ak_circle rec = ak_circle auth) \<and>
     (truthy_str (ak_userId auth) \<and> ''brain:admin'' \<notin> set (ak_scopes auth) \<longrightarrow> ak_userId rec = ak_userId auth)"

lemma no_wider_refl: "no_wider a a"
  by (simp add: no_wider_def)

lemma no_wider_trans:
  assumes "no_wider a b" "no_wider b c"
  shows "no_wider a c"
proof -
  have "''brain:admin'' \<notin> set (ak_scopes b)" if "''brain:admin'' \<notin> set (ak_scopes a)"
    using assms(1) that by (auto simp: no_wider_def)
  with assms show ?thesis by (simp add: no_wider_def subset_trans [of "set (ak_scopes c)" "set (ak_scopes b)"])
qed

lemma bound_circle_keeps: "bound_circle auth rq = Inr c \<Longrightarrow> truthy_str (ak_circle auth) \<Longrightarrow> c = ak_circle auth"
  by (auto simp: bound_circle_def elim!: truthy_strE split: if_splits option.splits)

lemma user_binding_keeps:
  "resolveUserBinding auth rq = Inr u \<Longrightarrow> truthy_str (ak_userId auth) \<Longrightarrow> ''brain:admin'' \<notin> set (ak_scopes auth) \<Longrightarrow>
     u = ak_userId auth"
  by (auto simp: resolveUserBinding_def isTenantOperator_def elim!: truthy_strE split: if_splits option.splits)

lemma mints_record:
  assumes "mints sha auth rec"
  obtains rq now input sha' key uid where "issue_input auth rq now = Inr input" "rec = record_of (issued_row sha' key uid now input)"
  using assms
proof cases
  case (1 enabled hex uid now rq tb key sm tb' r t)
  from issued_found [OF 1(1,2)] obtain input where "issue_input auth rq now = Inr input" "r = issued_row sha key uid now input" by blast
  with 1(3) that show ?thesis by (auto simp: toRecord_def split: if_splits)
qed

lemma mints_no_wider: "mints sha auth rec \<Longrightarrow> no_wider auth rec"
proof (erule mints_record)
  fix rq now input sha' key uid
  assume inp: "issue_input auth rq now = Inr input" and rec: "rec = record_of (issued_row sha' key uid now input)"
  note f = issue_input_fields [OF inp]
  from bound_circle_keeps [OF f(5)] user_binding_keeps [OF f(4)] f(1,2) show "no_wider auth rec"
    by (auto simp: rec no_wider_def record_of_def issued_row_def unless_empty_def granted_scopes_def issuable_iff)
qed

section \<open>Properties\<close>

text \<open>C20: On every replica, a key that is answered with a record was asked for less than thirty seconds after
  any revocation of it and less than thirty seconds after its expiry, and the record is its row's.\<close>

theorem revoked_key_dies:
  assumes "(key_step sha)\<^sup>*\<^sup>* no_keys w" "l \<in> set (kw_lookups w)" "lk_phase l = LkAnswered (Some rec)"
  shows "\<exists>r\<in>set (kw_table w). kr_keyHash r = lk_hash l \<and> rec = record_of r \<and>
    (\<forall>t. (lk_hash l, t) \<in> set (kw_log w) \<longrightarrow> lk_start l < t + 30000) \<and>
    (\<forall>e. kr_expiresAt r = Some e \<longrightarrow> lk_start l < e + 30000)"
proof -
  from keys.inv_steps [OF assms(1) no_keys_ok] assms(2) have "lookup_ok w l" by (rule keys_ok_parts(3))
  with assms(3) have "stands w (lk_hash l) rec (lk_start l - 29999)" by (simp add: lookup_ok_def CACHE_TTL_MS_def)
  then show ?thesis by (fastforce simp: stands_def)
qed

text \<open>C19: Through any chain of keys that mint keys, every key acts in the tenant of the first credential, with
  scopes it held, in the circle it was bound to, and for its user unless it was an administrator.\<close>

theorem minted_keys_no_wider:
  assumes "(mints sha)\<^sup>*\<^sup>* auth rec"
  shows "ak_companyId rec = ak_companyId auth \<and> set (ak_scopes rec) \<subseteq> set (ak_scopes auth) \<and>
    (truthy_str (ak_circle auth) \<longrightarrow> ak_circle rec = ak_circle auth) \<and>
    (truthy_str (ak_userId auth) \<and> ''brain:admin'' \<notin> set (ak_scopes auth) \<longrightarrow> ak_userId rec = ak_userId auth)"
proof -
  from assms have "no_wider auth rec"
    by (induction rule: rtranclp_induct) (blast intro: no_wider_refl no_wider_trans mints_no_wider)+
  then show ?thesis by (simp add: no_wider_def)
qed

text \<open>A revocation changes at most the one row of that identifier, which belongs to the caller's tenant
  and, unless the caller operates the tenant, to the caller's user.\<close>

theorem revocation_stays_in_reach:
  assumes "keys_revoke enabled auth uid now tb = Inr (res, tb')" "distinct (map kr_id tb)" "r \<in> set tb" "r \<notin> set tb'"
  shows "kr_id r = uid \<and> kr_companyId r = ak_companyId auth \<and> (isTenantOperator auth \<or> kr_userId r = ak_userId auth)"
proof -
  from assms(1,3,4) obtain r0 where r0: "revocable (ak_companyId auth) uid tb = Some r0" and tb': "tb' = mark_revoked uid now tb"
    and vis: "isTenantOperator auth \<or> (\<exists>k\<in>set (keys_list auth tb). sm_id k = uid)"
    by (auto simp: keys_revoke_def store_revoke_def list_ex_iff split: if_splits option.splits)
  from assms(3,4) tb' have "kr_id r = uid" by (force simp: mark_revoked_def)
  moreover from this assms(2,3) have same: "r' = r" if "r' \<in> set tb" "kr_id r' = uid" for r'
    using that by (auto simp: distinct_map dest: inj_onD)
  moreover from revocable_row [OF r0] same have "kr_companyId r = ak_companyId auth" by blast
  moreover have "kr_userId r = ak_userId auth" if "\<not> isTenantOperator auth"
    using vis that same by (auto simp: keys_list_def store_list_def visibleTo_def toSummary_def)
  ultimately show ?thesis by blast
qed

text \<open>A tenant holds at most twenty-five active keys after one more was issued.\<close>

lemma issue_keeps_cap:
  assumes "keys_issue sha enabled hex uid now auth rq tb = Inr ((key, sm), tb')"
  shows "activeCount (ak_companyId auth) now tb' \<le> MAX_ACTIVE_KEYS_PER_TENANT"
proof (rule keys_issued [OF assms])
  fix input
  assume "issue_checked enabled now auth rq tb = Inr input" "tb' = tb @ [issued_row sha key uid now input]"
  then show ?thesis by (auto simp: issue_checked_def activeCount_rows split: if_splits)
qed

section \<open>Samples\<close>

definition sample_minter :: api_key_record where
  "sample_minter = \<lparr>ak_keyHash = ''jwt:1'', ak_companyId = ''t'', ak_scopes = [''brain:read'', ''brain:write''],
     ak_userId = Some ''u'', ak_entitlements = None, ak_actorId = Some ''agent'', ak_mcpGrantedActions = Some [''recall''],
     ak_name = None, ak_policyNames = Some [''hide_pii''], ak_packIds = None, ak_circle = Some ''c''\<rparr>"

definition sample_issue :: issue_request where
  "sample_issue = \<lparr>rq_name = ''ci'', rq_scopes = [''brain:read'', ''brain:admin''], rq_expiresInDays = None,
     rq_userId = None, rq_circle = None\<rparr>"

definition sample_issue_input :: "int option \<Rightarrow> issue_key_input" where
  "sample_issue_input expires = \<lparr>ii_companyId = ''t'', ii_name = ''ci'', ii_scopes = [''brain:read''], ii_userId = Some ''u'',
     ii_circle = Some ''c'', ii_policyNames = None, ii_expiresAt = expires, ii_createdBy = Some ''u''\<rparr>"

definition sample_key_row :: "int option \<Rightarrow> api_key_row" where
  "sample_key_row expires = issued_row id ''brain_ab'' ''k1'' 0 (sample_issue_input expires)"

definition plain_sha :: "string \<Rightarrow> string" where "plain_sha s = s"

definition cached_on :: "nat \<Rightarrow> int option \<Rightarrow> key_event list" where
  "cached_on p expires = [Issue ''ab'' ''k1'' (sample_issue_input expires), Ask p ''brain_ab'', Read 0, Answer 0]"

definition answers_of :: "key_world option \<Rightarrow> (int \<times> lookup_phase) list" where
  "answers_of w = (case w of None \<Rightarrow> [] | Some w \<Rightarrow> map (\<lambda>l. (lk_start l, lk_phase l)) (kw_lookups w))"

definition sample_key_record :: api_key_record where
  "sample_key_record = \<lparr>ak_keyHash = ''sha256:brain_ab'', ak_companyId = ''t'', ak_scopes = [''brain:read''], ak_userId = Some ''u'',
     ak_entitlements = None, ak_actorId = None, ak_mcpGrantedActions = None, ak_name = Some ''ci'', ak_policyNames = None,
     ak_packIds = None, ak_circle = Some ''c''\<rparr>"

text \<open>Another replica still serves the revoked key from its cache.\<close>

definition revoked_elsewhere :: "key_event list" where
  "revoked_elsewhere = cached_on 1 None @ [RevokeRead 0 ''t'' ''k1'', RevokeWrite 0, RevokeDrop 0, Pass 29999, Ask 1 ''brain_ab'']"

text \<open>The replica that revokes drops its entry, but a lookup of its own that read the row before puts the record
  back, and the key is served there as long as elsewhere.\<close>

lemma revoking_replica_recaches:
  "answers_of (key_run plain_sha [Issue ''ab'' ''k1'' (sample_issue_input None), Ask 0 ''brain_ab'', Read 0,
       RevokeRead 0 ''t'' ''k1'', RevokeWrite 0, RevokeDrop 0, Answer 0, Pass 20000, Ask 0 ''brain_ab''] no_keys) =
     [(0, LkAnswered (Some sample_key_record)), (20000, LkAnswered (Some sample_key_record))]"
  by code_simp

text \<open>A cached record outlives the key's expiry.\<close>

lemma expired_key_served:
  "answers_of (key_run plain_sha (cached_on 0 (Some 5) @ [Pass 20000, Ask 0 ''brain_ab'']) no_keys) =
     [(0, LkAnswered (Some sample_key_record)), (20000, LkAnswered (Some sample_key_record))]"
  by code_simp

text \<open>A minted key carries none of its minter's policy sets, tool grants or client: what restricts the minter by
  them does not restrict the key.\<close>

lemma minted_key_sheds_policies:
  "mints sha auth rec \<Longrightarrow> ak_policyNames rec = None \<and> ak_mcpGrantedActions rec = None \<and> ak_actorId rec = None"
  by (erule mints_record) (auto dest: issue_input_fields(3) simp: record_of_def issued_row_def)

text \<open>Two calls that count before either creates exceed the cap.\<close>

definition full_but_one :: api_key_table where
  "full_but_one = map (\<lambda>n. (sample_key_row None)\<lparr>kr_id := replicate n (CHR ''x''), kr_keyHash := replicate n (CHR ''x'')\<rparr>) [0..<24]"

lemma racing_issues_exceed_cap:
  "(case (issue_checked True 0 sample_minter sample_issue full_but_one, issue_checked True 0 sample_minter sample_issue full_but_one) of
      (Inr i1, Inr i2) \<Rightarrow>
        (case store_issue plain_sha ''01'' ''k1'' 0 i1 full_but_one of
           Some (_, tb) \<Rightarrow> (case store_issue plain_sha ''02'' ''k2'' 0 i2 tb of
               Some (_, tb2) \<Rightarrow> activeCount ''t'' 0 tb2 = 26 | None \<Rightarrow> False)
         | None \<Rightarrow> False)
    | _ \<Rightarrow> False)"
  by code_simp

section \<open>Witnesses\<close>

theorem revoked_key_dies_witness:
  "\<exists>w l. key_run plain_sha revoked_elsewhere no_keys = Some w \<and> l \<in> set (kw_lookups w) \<and> lk_start l = 29999 \<and>
     kw_log w = [(lk_hash l, 0)] \<and> lk_start l < 0 + 30000"
proof -
  have "(case key_run plain_sha revoked_elsewhere no_keys of None \<Rightarrow> False
    | Some w \<Rightarrow> kw_lookups w \<noteq> [] \<and> length (kw_lookups w) = 2 \<and> lk_start (kw_lookups w ! 1) = 29999 \<and>
        lk_phase (kw_lookups w ! 1) = LkAnswered (Some sample_key_record) \<and> kw_log w = [(lk_hash (kw_lookups w ! 1), 0)])" by code_simp
  then obtain w where w: "key_run plain_sha revoked_elsewhere no_keys = Some w" "length (kw_lookups w) = 2"
    "lk_start (kw_lookups w ! 1) = 29999" "lk_phase (kw_lookups w ! 1) = LkAnswered (Some sample_key_record)"
    "kw_log w = [(lk_hash (kw_lookups w ! 1), 0)]" by (auto split: option.splits)
  then have l: "kw_lookups w ! 1 \<in> set (kw_lookups w)" by simp
  from revoked_key_dies [OF key_run_steps [OF w(1)] l w(4)] w(5) have "lk_start (kw_lookups w ! 1) < 0 + 30000" by auto
  with w l show ?thesis by blast
qed

lemma sample_mints: "mints plain_sha sample_minter sample_key_record"
proof -
  have "(case keys_issue plain_sha True ''ab'' ''k1'' 0 sample_minter sample_issue [] of Inl e \<Rightarrow> False
    | Inr ((key, sm), tb) \<Rightarrow> (case find_api_key (api_key_hash plain_sha key) tb of None \<Rightarrow> False
        | Some r \<Rightarrow> toRecord 7 r = Some sample_key_record))" by code_simp
  then show ?thesis by (auto split: sum.splits option.splits intro: mints.intros)
qed

theorem minted_keys_no_wider_witness:
  "(mints plain_sha)\<^sup>*\<^sup>* sample_minter sample_key_record \<and> ak_circle sample_key_record = Some ''c'' \<and>
     ak_userId sample_key_record = Some ''u'' \<and> set (ak_scopes sample_key_record) \<subseteq> {''brain:read'', ''brain:write''}"
  using minted_keys_no_wider [of plain_sha sample_minter sample_key_record] sample_mints
  by (auto simp: sample_minter_def)

definition user_of_another_key :: api_key_record where
  "user_of_another_key = sample_minter\<lparr>ak_userId := Some ''v''\<rparr>"

theorem revocation_stays_in_reach_witness:
  "keys_revoke True user_of_another_key ''k1'' 5 [sample_key_row None] = Inr (False, [sample_key_row None]) \<and>
     (\<exists>tb'. keys_revoke True sample_minter ''k1'' 5 [sample_key_row None] = Inr (True, tb') \<and> sample_key_row None \<notin> set tb' \<and>
        kr_companyId (sample_key_row None) = ''t'')"
proof -
  have r: "keys_revoke True sample_minter ''k1'' 5 [sample_key_row None] =
      Inr (True, [(sample_key_row None)\<lparr>kr_revokedAt := Some 5\<rparr>])" by code_simp
  have n: "sample_key_row None \<notin> set [(sample_key_row None)\<lparr>kr_revokedAt := Some 5\<rparr>]"
    by (simp add: sample_key_row_def issued_row_def)
  have "keys_revoke True user_of_another_key ''k1'' 5 [sample_key_row None] = Inr (False, [sample_key_row None])" by code_simp
  with r n revocation_stays_in_reach [OF r _ _ n] show ?thesis by (auto simp: sample_minter_def)
qed

end
