(* ===== verification/Credentials.thy ===== *)
theory Credentials imports ApiKeys TokenClaims ReadFences PolicyResolver RowFilter SourceVersion begin

text \<open>
  From a bearer token to an authenticated request: the signed tokens of the identity service
  (\<open>src/auth/jwks.service.ts\<close>), its opaque keys (\<open>introspection.client.ts\<close>), the static keys of the
  environment (\<open>api-key.service.ts\<close>), the order in which they are asked
  (\<open>credential-resolver.service.ts\<close>) and the guard (\<open>api-key.guard.ts\<close>).  The verification of a
  signature, the answer of the introspection endpoint, the digest and the text of a value that is
  not a string are arguments.  The configuration is a function from names to optional texts.
\<close>

definition nonempty_list :: "'a list \<Rightarrow> 'a list option" where
  "nonempty_list xs = (if xs = [] then None else Some xs)"

section \<open>Signed tokens\<close>

definition VALID_SCOPES :: "string list" where
  "VALID_SCOPES = [''brain:read'', ''brain:write'', ''brain:admin'', ''brain:read_pii'']"

record jwks_config =
  jc_issuers :: "string list"
  jc_audiences :: "string list"
  jc_algorithms :: "string list"
  jc_publicUrl :: "string option"

datatype boot_error = IssuerRequired | KeyFieldsMissing | KeyHashMalformed | CircleMalformed | PackIdsMalformed

text \<open>None: no verifier is configured.\<close>

definition jwks_boot :: "(string \<Rightarrow> string option) \<Rightarrow> boot_error + jwks_config option" where
  "jwks_boot get =
     (if \<not> truthy_str (get ''AUTH_SERVICE_JWKS_URL'') then Inr None
      else let cfg = \<lparr>jc_issuers = acceptedIssuers (get ''AUTH_SERVICE_ISSUER''), jc_audiences = acceptedAudiences get,
                      jc_algorithms = comma_list (case get ''AUTH_SERVICE_JWT_ALGS'' of None \<Rightarrow> Some ''RS256'' | a \<Rightarrow> a),
                      jc_publicUrl = get ''BRAIN_PUBLIC_URL''\<rparr>
           in if get ''NODE_ENV'' = Some ''production'' \<and> jc_issuers cfg = [] then Inl IssuerRequired else Inr (Some cfg))"

definition jwt_record :: "(jval \<Rightarrow> string) \<Rightarrow> jwks_config \<Rightarrow> jval \<Rightarrow> api_key_record option" where
  "jwt_record str cfg payload =
     (case resolveTokenIdentity payload of
        None \<Rightarrow> None
      | Some identity \<Rightarrow>
          if jc_audiences cfg \<noteq> [] \<and>
             \<not> audienceAccepted (jget payload ''aud'') (jc_audiences cfg) (jc_publicUrl cfg) (ti_companyId identity) then None
          else let scopes = filter (\<lambda>s. s \<in> set VALID_SCOPES) (extractScopes payload);
                   subject = nullish_or (jget payload ''jti'') (jget payload ''sub'')
               in if scopes = [] then None
                  else Some \<lparr>ak_keyHash = ''jwt:'' @ (case text_opt subject of Some s \<Rightarrow> s | None \<Rightarrow> str subject),
                             ak_companyId = ti_companyId identity, ak_scopes = scopes,
                             ak_userId = unless_empty (ti_userId identity),
                             ak_entitlements = nonempty_list (extractEntitlements payload),
                             ak_actorId = unless_empty (extractActorId payload),
                             ak_mcpGrantedActions = extractMcpGrantedActions payload (jc_publicUrl cfg),
                             ak_name = None, ak_policyNames = nonempty_list (extractPolicyNames payload),
                             ak_packIds = nonempty_list (extractPackIds payload), ak_circle = None\<rparr>)"

text \<open>\<open>jwtVerify\<close> of the library, with the accepted issuers and algorithms; None where it throws.\<close>

type_synonym jwt_verify = "string list \<Rightarrow> string list \<Rightarrow> string \<Rightarrow> jval option"

definition jwks_verify :: "(jval \<Rightarrow> string) \<Rightarrow> jwt_verify \<Rightarrow> jwks_config option \<Rightarrow> string \<Rightarrow> api_key_record option" where
  "jwks_verify str jwtVerify jwks token =
     (case jwks of
        None \<Rightarrow> None
      | Some cfg \<Rightarrow> (case jwtVerify (jc_issuers cfg) (jc_algorithms cfg) token of
            None \<Rightarrow> None | Some payload \<Rightarrow> jwt_record str cfg payload))"

section \<open>Opaque keys\<close>

definition INTROSPECTED_SCOPES :: "string list" where
  "INTROSPECTED_SCOPES = [''brain:read'', ''brain:write'', ''brain:admin'', ''brain:read_pii'',
     ''registry:publish'', ''registry:curate'', ''indexer:write'']"

definition POSITIVE_TTL_MS :: int where "POSITIVE_TTL_MS = 60000"
definition NEGATIVE_TTL_MS :: int where "NEGATIVE_TTL_MS = 15000"
definition MAX_CACHE_ENTRIES :: nat where "MAX_CACHE_ENTRIES = 1000"

record introspection_config =
  in_url :: string
  in_clientId :: string
  in_clientSecret :: string
  in_audience :: "string list"

definition introspection_url :: "(string \<Rightarrow> string option) \<Rightarrow> string option" where
  "introspection_url get =
     (case get ''AUTH_SERVICE_INTROSPECTION_URL'' of
        Some u \<Rightarrow> Some u
      | None \<Rightarrow> (case unless_empty (get ''AUTH_SERVICE_URL'') of
            None \<Rightarrow> None | Some base \<Rightarrow> Some (normalizeUrl base @ ''/v1/oauth/introspect'')))"

definition introspection_from_config :: "(string \<Rightarrow> string option) \<Rightarrow> introspection_config option" where
  "introspection_from_config get =
     (case (unless_empty (introspection_url get), unless_empty (get ''AUTH_SERVICE_INTROSPECTION_CLIENT_ID''),
            unless_empty (get ''AUTH_SERVICE_INTROSPECTION_CLIENT_SECRET'')) of
        (Some url, Some clientId, Some clientSecret) \<Rightarrow>
          Some \<lparr>in_url = url, in_clientId = clientId, in_clientSecret = clientSecret, in_audience = acceptedAudiences get\<rparr>
      | _ \<Rightarrow> None)"

definition mapIntrospectionRecord :: "jval \<Rightarrow> string \<Rightarrow> string list \<Rightarrow> api_key_record option" where
  "mapIntrospectionRecord payload tokenHash accepted =
     (let auds = strings_of (case jget payload ''aud'' of JArr xs \<Rightarrow> xs | v \<Rightarrow> [v]);
          sub = text_opt (jget payload ''sub'');
          companyId = (case text_opt (jget payload ''org'') of Some x \<Rightarrow> Some x | None \<Rightarrow> sub);
          words = (case text_opt (jget payload ''scope'') of None \<Rightarrow> [] | Some s \<Rightarrow> ws_words s);
          scopes = filter (\<lambda>s. s \<in> set INTROSPECTED_SCOPES) (take MAX_SCOPES words)
      in if jget payload ''active'' \<noteq> JBool True then None
         else if \<not> list_ex (\<lambda>a. a \<in> set accepted) auds then None
         else (case companyId of
                 None \<Rightarrow> None
               | Some c \<Rightarrow>
                   if \<not> VALID_COMPANY_ID c \<or> scopes = [] then None
                   else Some \<lparr>ak_keyHash = ''introspect:'' @ tokenHash, ak_companyId = c, ak_scopes = scopes,
                              ak_userId = (if truthy_str sub \<and> sub \<noteq> Some c then sub else None),
                              ak_entitlements = None, ak_actorId = None, ak_mcpGrantedActions = None, ak_name = None,
                              ak_policyNames = nonempty_list (extractPolicyNames payload), ak_packIds = None,
                              ak_circle = None\<rparr>))"

record intro_entry =
  ie_expiresAt :: int
  ie_record :: "api_key_record option"

type_synonym intro_cache = "(string \<times> intro_entry) list"

definition remember :: "int \<Rightarrow> string \<Rightarrow> api_key_record option \<Rightarrow> intro_cache \<Rightarrow> intro_cache" where
  "remember now h rec cache =
     (let kept = (if MAX_CACHE_ENTRIES \<le> length cache then tl cache else cache)
      in AList.update h \<lparr>ie_expiresAt = now + (if rec \<noteq> None then POSITIVE_TTL_MS else NEGATIVE_TTL_MS), ie_record = rec\<rparr> kept)"

text \<open>\<open>resolve\<close> that starts at \<open>now\<close>; a request to the endpoint ends at \<open>later\<close> with \<open>answer\<close> (None: it
  failed or was not ok).\<close>

definition introspection_resolve ::
    "(string \<Rightarrow> string) \<Rightarrow> introspection_config \<Rightarrow> int \<Rightarrow> int \<Rightarrow> jval option \<Rightarrow> string \<Rightarrow> intro_cache \<Rightarrow>
     api_key_record option \<times> intro_cache" where
  "introspection_resolve sha cfg now later answer token cache =
     (let h = sha token;
          rec = (case answer of None \<Rightarrow> None | Some payload \<Rightarrow> mapIntrospectionRecord payload h (in_audience cfg))
      in case map_of cache h of
           Some e \<Rightarrow> if now < ie_expiresAt e then (ie_record e, cache) else (rec, remember later h rec cache)
         | None \<Rightarrow> (rec, remember later h rec cache))"

section \<open>Static keys\<close>

text \<open>An entry of \<open>BRAIN_API_KEYS\<close>, with the legacy field \<open>policies\<close>; the texts and lists of an entry have
  their declared types.\<close>

record static_entry = api_key_record +
  se_policies :: "string list option"

definition hex_lower :: "char \<Rightarrow> bool" where
  "hex_lower c \<longleftrightarrow> digit c \<or> in_range (CHR ''a'') (CHR ''f'') c"

definition valid_key_hash :: "string \<Rightarrow> bool" where
  "valid_key_hash h \<longleftrightarrow> starts_with ''sha256:'' h \<and> length (drop 7 h) = 64 \<and> list_all hex_lower (drop 7 h)"

definition static_record :: "static_entry \<Rightarrow> api_key_record" where
  "static_record k = (api_key_record.truncate k)\<lparr>ak_policyNames :=
     (case se_policies k of Some ns \<Rightarrow> Some ns | None \<Rightarrow> ak_policyNames k)\<rparr>"

definition static_entry_error :: "static_entry \<Rightarrow> boot_error option" where
  "static_entry_error k =
     (if ak_keyHash k = [] \<or> ak_companyId k = [] then Some KeyFieldsMissing
      else if \<not> valid_key_hash (map lower_char (ak_keyHash k)) then Some KeyHashMalformed
      else if (case ak_circle k of None \<Rightarrow> False | Some c \<Rightarrow> \<not> CIRCLE_ID_RE c) then Some CircleMalformed
      else if (case ak_packIds k of None \<Rightarrow> False | Some ps \<Rightarrow> ps = [] \<or> [] \<in> set ps) then Some PackIdsMalformed
      else None)"

type_synonym static_keys = "(string \<times> api_key_record) list"

fun load_static_keys :: "static_keys \<Rightarrow> static_entry list \<Rightarrow> boot_error + static_keys" where
  "load_static_keys byHash [] = Inr byHash"
| "load_static_keys byHash (k # ks) =
     (case static_entry_error k of
        Some e \<Rightarrow> Inl e
      | None \<Rightarrow> load_static_keys (AList.update (map lower_char (ak_keyHash k)) (static_record k) byHash) ks)"

definition static_resolve :: "(string \<Rightarrow> string) \<Rightarrow> static_keys \<Rightarrow> string \<Rightarrow> api_key_record option" where
  "static_resolve sha byHash plaintext = map_of byHash (map lower_char (api_key_hash sha plaintext))"

definition listForCompany :: "static_keys \<Rightarrow> string \<Rightarrow> api_key_record list" where
  "listForCompany byHash companyId = filter (\<lambda>r. ak_companyId r = companyId) (map snd byHash)"

section \<open>The resolver\<close>

fun parts_at :: "char \<Rightarrow> string \<Rightarrow> string \<Rightarrow> string list" where
  "parts_at d cur [] = [cur]"
| "parts_at d cur (c # s) = (if c = d then cur # parts_at d [] s else parts_at d (cur @ [c]) s)"

definition JWT_SHAPE :: "string \<Rightarrow> bool" where
  "JWT_SHAPE token \<longleftrightarrow>
     (let ps = parts_at (CHR ''.'') [] token
      in length ps = 3 \<and> list_all (\<lambda>p. p \<noteq> [] \<and> list_all (\<lambda>c. upper_case c \<or> lower c \<or> digit c \<or> c \<in> set ''_-'') p) ps)"

definition OPAQUE_KEY_PREFIX :: string where "OPAQUE_KEY_PREFIX = ''ik_''"

record resolver_config =
  rc_jwks :: "jwks_config option"
  rc_introspection :: "introspection_config option"
  rc_production :: bool

definition resolver_boot :: "(string \<Rightarrow> string option) \<Rightarrow> boot_error + resolver_config" where
  "resolver_boot get =
     (case jwks_boot get of
        Inl e \<Rightarrow> Inl e
      | Inr jwks \<Rightarrow> Inr \<lparr>rc_jwks = jwks, rc_introspection = introspection_from_config get,
                        rc_production = (get ''NODE_ENV'' = Some ''production'')\<rparr>)"

definition staticAllowed :: "resolver_config \<Rightarrow> bool" where
  "staticAllowed cfg \<longleftrightarrow> \<not> (rc_production cfg \<and> (rc_jwks cfg \<noteq> None \<or> rc_introspection cfg \<noteq> None))"

text \<open>What the four sources answer, and whether a subject is on the deny-list.\<close>

record credential_sources =
  cs_jwt :: "string \<Rightarrow> api_key_record option"
  cs_introspected :: "string \<Rightarrow> api_key_record option"
  cs_stored :: "string \<Rightarrow> api_key_record option"
  cs_static :: "string \<Rightarrow> api_key_record option"
  cs_denied :: "string \<Rightarrow> bool"

definition or_else :: "'a option \<Rightarrow> 'a option \<Rightarrow> 'a option" where
  "or_else x y = (case x of None \<Rightarrow> y | Some v \<Rightarrow> Some v)"

definition first_source :: "resolver_config \<Rightarrow> credential_sources \<Rightarrow> string \<Rightarrow> api_key_record option" where
  "first_source cfg src token =
     or_else (if rc_jwks cfg \<noteq> None \<and> JWT_SHAPE token then cs_jwt src token else None)
       (or_else (if rc_introspection cfg \<noteq> None \<and> starts_with OPAQUE_KEY_PREFIX token then cs_introspected src token else None)
         (or_else (cs_stored src token) (if staticAllowed cfg then cs_static src token else None)))"

definition subject_of :: "api_key_record \<Rightarrow> string" where
  "subject_of rec = (case ak_userId rec of Some u \<Rightarrow> u | None \<Rightarrow> ak_companyId rec)"

text \<open>The record, and the tenant the registry is told of.\<close>

definition resolveUncached :: "resolver_config \<Rightarrow> credential_sources \<Rightarrow> string \<Rightarrow> api_key_record option \<times> string option" where
  "resolveUncached cfg src token =
     (case first_source cfg src token of
        None \<Rightarrow> (None, None)
      | Some rec \<Rightarrow> if cs_denied src (subject_of rec) then (None, None) else (Some rec, Some (ak_companyId rec)))"

text \<open>One resolution per request: the memo holds the token and its record.\<close>

definition resolve_memo ::
    "(string \<Rightarrow> api_key_record option) \<Rightarrow> string \<Rightarrow> (string \<times> api_key_record option) option \<Rightarrow>
     api_key_record option \<times> (string \<times> api_key_record option) option" where
  "resolve_memo uncached token memo =
     (case memo of
        Some (t, rec) \<Rightarrow> if t = token then (rec, memo) else (uncached token, Some (token, uncached token))
      | None \<Rightarrow> (uncached token, Some (token, uncached token)))"

section \<open>The guard\<close>

record request_auth = brain_auth +
  ra_keyHash :: string
  ra_userId :: "string option"
  ra_actorId :: "string option"
  ra_mcpGrantedActions :: "string list option"
  ra_packIds :: "string list option"
  ra_circle :: "string option"
  ra_policy :: "policy_context option"

definition bearer_token :: "string option \<Rightarrow> string option" where
  "bearer_token header =
     (case header of
        None \<Rightarrow> None
      | Some h \<Rightarrow> if h = [] \<or> \<not> starts_with ''bearer '' (map lower_char h) then None else Some (trim (drop 7 h)))"

definition override_tenant :: "string \<Rightarrow> bool" where
  "override_tenant t \<longleftrightarrow> 2 \<le> length t \<and> length t \<le> 64 \<and> list_all (\<lambda>c. lower c \<or> digit c \<or> c \<in> set ''_-'') t"

definition resolveTenantOverride :: "ambient \<Rightarrow> api_key_record \<Rightarrow> string option \<Rightarrow> string" where
  "resolveTenantOverride a rec header =
     (if \<not> tenantOverrideEnabled a then ak_companyId rec
      else let requested = trim (case header of None \<Rightarrow> [] | Some h \<Rightarrow> h)
           in if requested \<noteq> [] \<and> requested \<noteq> ak_companyId rec \<and> PLATFORM_TENANT_SCOPE \<in> set (ak_scopes rec) \<and>
                 override_tenant requested
              then requested else ak_companyId rec)"

definition missing_scope :: "string list \<Rightarrow> api_key_record \<Rightarrow> string option" where
  "missing_scope required rec = find (\<lambda>s. s \<notin> set (ak_scopes rec)) required"

text \<open>The tenant's snapshot and the two switches of the policies.\<close>

record policy_setting =
  pg_enabled :: bool
  pg_reportOnly :: bool
  pg_snapshot :: tenant_snapshot
  pg_sampled :: bool

definition policy_subject_of :: "api_key_record \<Rightarrow> policy_subject" where
  "policy_subject_of rec = \<lparr>ps_keyHash = ak_keyHash rec, ps_claimNames = ak_policyNames rec, ps_actorId = ak_actorId rec\<rparr>"

definition policy_context_of :: "policy_setting \<Rightarrow> api_key_record \<Rightarrow> policy_context option" where
  "policy_context_of pg rec =
     fst (contextFor (pg_enabled pg) (pg_reportOnly pg) (ak_companyId rec) (policy_subject_of rec) (pg_snapshot pg))"

definition stampIdentity :: "api_key_record \<Rightarrow> ambient \<Rightarrow> ambient" where
  "stampIdentity rec a =
     (case amb_ctx a of
        None \<Rightarrow> a
      | Some c \<Rightarrow>
          a\<lparr>amb_ctx := Some (c\<lparr>ctx_authUserId := (if truthy_str (ak_userId rec) then ak_userId rec else ctx_authUserId c),
                              ctx_actingCircle := (if truthy_str (ak_circle rec) then ak_circle rec else ctx_actingCircle c)\<rparr>)\<rparr>)"

text \<open>The tags of the user in the tenant; None where the membership lookup fails.\<close>

definition warmScopeTags :: "(string \<Rightarrow> string \<Rightarrow> string list option) \<Rightarrow> string \<Rightarrow> string option \<Rightarrow> ambient \<Rightarrow> ambient" where
  "warmScopeTags tagsFor companyId userId a =
     (case unless_empty userId of
        None \<Rightarrow> a
      | Some u \<Rightarrow>
          if \<not> scopeTagsEnabled a then a
          else (case tagsFor companyId u of None \<Rightarrow> a | Some tags \<Rightarrow> rememberScopeTags u tags a))"

definition auth_of :: "string \<Rightarrow> api_key_record \<Rightarrow> policy_context option \<Rightarrow> request_auth" where
  "auth_of companyId rec policy =
     \<lparr>ba_companyId = companyId, ba_scopes = ak_scopes rec, ra_keyHash = ak_keyHash rec,
      ra_userId = unless_empty (ak_userId rec), ra_actorId = unless_empty (ak_actorId rec),
      ra_mcpGrantedActions = ak_mcpGrantedActions rec, ra_packIds = ak_packIds rec,
      ra_circle = unless_empty (ak_circle rec), ra_policy = policy\<rparr>"

datatype guard_result =
    Unauthorized
  | ScopeRequired string
  | PolicyRefused forbidden
  | Admitted request_auth ambient

definition canActivate ::
    "(string \<Rightarrow> api_key_record option) \<Rightarrow> policy_setting \<Rightarrow> (string \<Rightarrow> string \<Rightarrow> string list option) \<Rightarrow>
     string list \<Rightarrow> string \<Rightarrow> string option \<Rightarrow> string option \<Rightarrow> ambient \<Rightarrow> guard_result" where
  "canActivate resolve pg tagsFor required action authorization tenantHeader a =
     (case bearer_token authorization of
        None \<Rightarrow> Unauthorized
      | Some token \<Rightarrow> (case resolve token of
            None \<Rightarrow> Unauthorized
          | Some rec \<Rightarrow> (case missing_scope required rec of
                Some s \<Rightarrow> ScopeRequired s
              | None \<Rightarrow> (case snd (gate (pg_sampled pg) (policy_context_of pg rec) action) of
                    Inl e \<Rightarrow> PolicyRefused e
                  | Inr policy \<Rightarrow>
                      let companyId = resolveTenantOverride a rec tenantHeader
                      in Admitted (auth_of companyId rec policy)
                           (warmScopeTags tagsFor companyId (ak_userId rec) (stampIdentity rec a))))))"

section \<open>A deployment\<close>

record deployment =
  dp_config :: resolver_config
  dp_jwtVerify :: jwt_verify
  dp_endpoint :: "string \<Rightarrow> jval option"   \<comment> \<open>the introspection endpoint\<close>
  dp_table :: api_key_table
  dp_static :: static_keys
  dp_denied :: "string \<Rightarrow> bool"

definition deployed_sources :: "(jval \<Rightarrow> string) \<Rightarrow> (string \<Rightarrow> string) \<Rightarrow> int \<Rightarrow> deployment \<Rightarrow> credential_sources" where
  "deployed_sources str sha now dp =
     \<lparr>cs_jwt = jwks_verify str (dp_jwtVerify dp) (rc_jwks (dp_config dp)),
      cs_introspected = (\<lambda>token. case rc_introspection (dp_config dp) of None \<Rightarrow> None
        | Some cfg \<Rightarrow> fst (introspection_resolve sha cfg now now (dp_endpoint dp token) token [])),
      cs_stored = (\<lambda>token. if \<not> looksLikeStoredKey token then None
        else (case find_api_key (api_key_hash sha token) (dp_table dp) of None \<Rightarrow> None | Some r \<Rightarrow> toRecord now r)),
      cs_static = static_resolve sha (dp_static dp), cs_denied = dp_denied dp\<rparr>"

definition deployed_resolve :: "(jval \<Rightarrow> string) \<Rightarrow> (string \<Rightarrow> string) \<Rightarrow> int \<Rightarrow> deployment \<Rightarrow> string \<Rightarrow> api_key_record option" where
  "deployed_resolve str sha now dp token = fst (resolveUncached (dp_config dp) (deployed_sources str sha now dp) token)"

text \<open>What changes the table of stored keys.\<close>

inductive key_table_step :: "(string \<Rightarrow> string) \<Rightarrow> api_key_table \<Rightarrow> api_key_table \<Rightarrow> bool" for sha where
  "keys_issue sha enabled hex uid now auth rq tb = Inr (issued, tb') \<Longrightarrow> key_table_step sha tb tb'"
| "keys_revoke enabled auth uid now tb = Inr (res, tb') \<Longrightarrow> key_table_step sha tb tb'"
| "key_table_step sha tb (stamp_used h now tb)"

definition rows_issuable :: "api_key_table \<Rightarrow> bool" where
  "rows_issuable tb \<longleftrightarrow> (\<forall>r\<in>set tb. set (kr_scopes r) \<subseteq> set ISSUABLE_SCOPES)"

lemma rows_issuable_simps:
  "rows_issuable (mark_revoked uid now tb) = rows_issuable tb" "rows_issuable (stamp_used h now tb) = rows_issuable tb"
  by (simp_all only: rows_issuable_def mark_revoked_def stamp_used_def set_map ball_simps) (auto split: if_splits)

lemma key_table_step_issuable:
  assumes "key_table_step sha tb tb'" "rows_issuable tb"
  shows "rows_issuable tb'"
  using assms
proof cases
  case (1 enabled hex uid now auth rq issued)
  obtain key sm where "issued = (key, sm)" by fastforce
  with 1 obtain input where "issue_input auth rq now = Inr input" "tb' = tb @ [issued_row sha key uid now input]"
    by (blast elim: keys_issued)
  with issue_input_fields(2) [OF this(1)] assms(2) show ?thesis
    by (auto simp: rows_issuable_def issued_row_def granted_scopes_def issuable_iff)
next
  case 2
  with assms(2) show ?thesis
    by (auto simp: keys_revoke_def store_revoke_def rows_issuable_simps split: if_splits option.splits)
next
  case 3
  with assms(2) show ?thesis by (simp add: rows_issuable_simps)
qed

interpretation issued_keys: state_machine "key_table_step sha" rows_issuable for sha
  by unfold_locales (rule key_table_step_issuable)

section \<open>Where scopes come from\<close>

lemma platform_scope_names: "PLATFORM_TENANT_SCOPE \<notin> set VALID_SCOPES" "PLATFORM_TENANT_SCOPE \<notin> set INTROSPECTED_SCOPES"
  "PLATFORM_TENANT_SCOPE \<notin> set ISSUABLE_SCOPES"
  by (simp_all add: PLATFORM_TENANT_SCOPE_def VALID_SCOPES_def INTROSPECTED_SCOPES_def ISSUABLE_SCOPES_def)

lemma jwt_scopes: "jwks_verify str jv jwks token = Some rec \<Longrightarrow> set (ak_scopes rec) \<subseteq> set VALID_SCOPES"
  by (auto simp: jwks_verify_def jwt_record_def Let_def split: option.splits if_splits)

lemma introspected_scopes: "mapIntrospectionRecord payload h aud = Some rec \<Longrightarrow> set (ak_scopes rec) \<subseteq> set INTROSPECTED_SCOPES"
  by (auto simp: mapIntrospectionRecord_def Let_def split: option.splits if_splits)

lemma stored_scopes: "rows_issuable tb \<Longrightarrow> find_api_key h tb = Some r \<Longrightarrow> toRecord now r = Some rec \<Longrightarrow>
    set (ak_scopes rec) \<subseteq> set ISSUABLE_SCOPES"
  using row_of_hash(1) by (fastforce simp: rows_issuable_def toRecord_def record_of_def split: if_splits)

lemma or_else_cases: "or_else x y = Some v \<Longrightarrow> x = Some v \<or> y = Some v"
  by (auto simp: or_else_def split: option.splits)

lemma first_source_cases:
  assumes "first_source cfg src token = Some rec"
  shows "cs_jwt src token = Some rec \<or> cs_introspected src token = Some rec \<or> cs_stored src token = Some rec \<or>
    (staticAllowed cfg \<and> cs_static src token = Some rec)"
  using assms unfolding first_source_def by (auto dest!: or_else_cases split: if_splits)

lemma resolve_first: "fst (resolveUncached cfg src token) = Some rec \<Longrightarrow> first_source cfg src token = Some rec"
  by (auto simp: resolveUncached_def split: option.splits if_splits)

lemma platform_record_is_static:
  assumes "deployed_resolve str sha now dp token = Some rec" "rows_issuable (dp_table dp)" "PLATFORM_TENANT_SCOPE \<in> set (ak_scopes rec)"
  shows "staticAllowed (dp_config dp) \<and> static_resolve sha (dp_static dp) token = Some rec"
proof -
  let ?src = "deployed_sources str sha now dp"
  from assms(1) have f: "first_source (dp_config dp) ?src token = Some rec"
    unfolding deployed_resolve_def by (rule resolve_first)
  have "cs_jwt ?src token \<noteq> Some rec"
    using jwt_scopes platform_scope_names(1) assms(3) by (fastforce simp: deployed_sources_def)
  moreover have "cs_introspected ?src token \<noteq> Some rec"
    using introspected_scopes platform_scope_names(2) assms(3)
    by (fastforce simp: deployed_sources_def introspection_resolve_def Let_def split: option.splits)
  moreover have "cs_stored ?src token \<noteq> Some rec"
  proof
    assume "cs_stored ?src token = Some rec"
    then obtain r where "find_api_key (api_key_hash sha token) (dp_table dp) = Some r" "toRecord now r = Some rec"
      by (auto simp: deployed_sources_def split: option.splits if_splits)
    from stored_scopes [OF assms(2) this] platform_scope_names(3) assms(3) show False by blast
  qed
  ultimately show ?thesis using first_source_cases [OF f] by (simp add: deployed_sources_def)
qed

section \<open>The guard's decisions\<close>

lemma missing_scope_None: "missing_scope required rec = None \<longleftrightarrow> set required \<subseteq> set (ak_scopes rec)"
  by (auto simp: missing_scope_def find_None_iff)

lemma gate_passes:
  "snd (gate sampled octx action) = Inr policy \<longleftrightarrow> policy = octx \<and>
     (\<forall>ctx. octx = Some ctx \<longrightarrow> action = POLICY_ACTION_EXEMPT \<or> ev_decision (evaluateAction ctx action (actionKind action)) \<noteq> DecDeny)"
  by (auto simp: gate_def gate_enforceAction_def gate_enforce_def Let_def split: option.splits)

lemma admitted_cases:
  assumes "canActivate resolve pg tagsFor required action authorization tenantHeader a = Admitted auth a'"
  obtains token rec where "bearer_token authorization = Some token" "resolve token = Some rec"
    "set required \<subseteq> set (ak_scopes rec)" "snd (gate (pg_sampled pg) (policy_context_of pg rec) action) = Inr (policy_context_of pg rec)"
    "auth = auth_of (resolveTenantOverride a rec tenantHeader) rec (policy_context_of pg rec)"
    "a' = warmScopeTags tagsFor (resolveTenantOverride a rec tenantHeader) (ak_userId rec) (stampIdentity rec a)"
  using assms
  by (auto simp: canActivate_def missing_scope_None Let_def split: option.splits sum.splits dest: gate_passes [THEN iffD1])

lemma override_cases:
  "resolveTenantOverride a rec header = ak_companyId rec \<or>
     (tenantOverrideEnabled a \<and> PLATFORM_TENANT_SCOPE \<in> set (ak_scopes rec) \<and> override_tenant (resolveTenantOverride a rec header))"
  by (simp add: resolveTenantOverride_def Let_def)

lemma warm_ctx:
  "ctx_field (warmScopeTags tagsFor t u a) ctx_authUserId = ctx_field a ctx_authUserId"
  "ctx_field (warmScopeTags tagsFor t u a) ctx_actingCircle = ctx_field a ctx_actingCircle"
  "amb_job (warmScopeTags tagsFor t u a) = amb_job a"
  by (auto simp: warmScopeTags_def rememberScopeTags_def ctx_field_def Let_def split: option.splits)

lemma stamp_ctx:
  assumes "amb_ctx a = Some c"
  shows "truthy_str (ak_userId rec) \<Longrightarrow> ctx_field (stampIdentity rec a) ctx_authUserId = ak_userId rec"
    "truthy_str (ak_circle rec) \<Longrightarrow> ctx_field (stampIdentity rec a) ctx_actingCircle = ak_circle rec"
    "amb_job (stampIdentity rec a) = amb_job a"
  using assms by (simp_all add: stampIdentity_def ctx_field_def)

section \<open>Properties\<close>

text \<open>C21: A request is admitted exactly when its bearer token resolves, the record holds every required scope,
  and no enforced policy of the record denies the action, unless it is the exempt one; it then carries the
  record's identity and policy.\<close>

theorem guard_admits_iff:
  "(\<exists>a'. canActivate resolve pg tagsFor required action authorization tenantHeader a = Admitted auth a') \<longleftrightarrow>
     (\<exists>token rec. bearer_token authorization = Some token \<and> resolve token = Some rec \<and> set required \<subseteq> set (ak_scopes rec) \<and>
        (\<nexists>ctx. policy_context_of pg rec = Some ctx \<and> action \<noteq> POLICY_ACTION_EXEMPT \<and>
           ev_decision (evaluateAction ctx action (actionKind action)) = DecDeny) \<and>
        auth = auth_of (resolveTenantOverride a rec tenantHeader) rec (policy_context_of pg rec))"
  (is "?l \<longleftrightarrow> ?r")
proof
  assume ?l
  then obtain a' where "canActivate resolve pg tagsFor required action authorization tenantHeader a = Admitted auth a'" ..
  then show ?r
  proof (rule admitted_cases)
    fix token rec
    assume "bearer_token authorization = Some token" "resolve token = Some rec" "set required \<subseteq> set (ak_scopes rec)"
      "snd (gate (pg_sampled pg) (policy_context_of pg rec) action) = Inr (policy_context_of pg rec)"
      "auth = auth_of (resolveTenantOverride a rec tenantHeader) rec (policy_context_of pg rec)"
    then show ?r by (cases "policy_context_of pg rec") (auto simp: gate_passes)
  qed
next
  assume ?r
  then obtain token rec where r: "bearer_token authorization = Some token" "resolve token = Some rec" "missing_scope required rec = None"
    "snd (gate (pg_sampled pg) (policy_context_of pg rec) action) = Inr (policy_context_of pg rec)"
    "auth = auth_of (resolveTenantOverride a rec tenantHeader) rec (policy_context_of pg rec)"
    by (auto simp: missing_scope_None gate_passes split: option.splits)
  then show ?l by (simp add: canActivate_def Let_def)
qed

text \<open>C22: With keys issued by the service only, an admitted request acts in its record's own tenant, unless the
  override is on, static keys are allowed, and the token is a static key that holds the platform scope.\<close>

theorem tenant_crossing_needs_static_key:
  assumes "(key_table_step sha)\<^sup>*\<^sup>* [] (dp_table dp)"
    "canActivate (deployed_resolve str sha now dp) pg tagsFor required action authorization tenantHeader a = Admitted auth a'"
  shows "\<exists>token rec. bearer_token authorization = Some token \<and> deployed_resolve str sha now dp token = Some rec \<and>
    (ba_companyId auth = ak_companyId rec \<or>
     tenantOverrideEnabled a \<and> staticAllowed (dp_config dp) \<and> static_resolve sha (dp_static dp) token = Some rec \<and>
     PLATFORM_TENANT_SCOPE \<in> set (ak_scopes rec))"
proof (rule admitted_cases [OF assms(2)])
  fix token rec
  assume t: "bearer_token authorization = Some token" "deployed_resolve str sha now dp token = Some rec"
    "auth = auth_of (resolveTenantOverride a rec tenantHeader) rec (policy_context_of pg rec)"
  have "rows_issuable (dp_table dp)" using issued_keys.inv_steps [OF assms(1)] by (simp add: rows_issuable_def)
  with platform_record_is_static [OF t(2)] override_cases [of a rec tenantHeader] t show ?thesis by (auto simp: auth_of_def)
qed

text \<open>An admitted request of a user-bound record is pinned to that user, and one of a circle-bound record
  acts in that circle, whatever the request asks for.\<close>

theorem admitted_request_confined:
  assumes "canActivate resolve pg tagsFor required action authorization tenantHeader a = Admitted auth a'" "amb_ctx a = Some c"
  shows "(truthy_str (ra_userId auth) \<longrightarrow>
      pinUserScope a' requested = (if requested \<noteq> None \<and> requested \<noteq> ra_userId auth then Inl ForbiddenException else Inr (ra_userId auth))) \<and>
    (\<forall>i. ra_circle auth = Some i \<and> amb_job a = None \<longrightarrow> actingCircleTags a' = [circleTag i])"
proof (rule admitted_cases [OF assms(1)])
  fix token rec
  assume t: "auth = auth_of (resolveTenantOverride a rec tenantHeader) rec (policy_context_of pg rec)"
    "a' = warmScopeTags tagsFor (resolveTenantOverride a rec tenantHeader) (ak_userId rec) (stampIdentity rec a)"
  have "ctx_field a' ctx_authUserId = ak_userId rec \<and> ra_userId auth = ak_userId rec" if "truthy_str (ra_userId auth)"
    using that stamp_ctx(1) [OF assms(2)] by (auto simp: t auth_of_def unless_empty_def warm_ctx split: if_splits)
  moreover have "ctx_field a' ctx_actingCircle = Some i \<and> i \<noteq> []" if "ra_circle auth = Some i" for i
    using that stamp_ctx(2) [OF assms(2)] by (auto simp: t auth_of_def unless_empty_def warm_ctx split: if_splits)
  moreover have "amb_job a' = amb_job a" by (simp add: t warm_ctx stamp_ctx [OF assms(2)])
  ultimately show ?thesis by (auto simp: pinUserScope_def actingCircleTags_def Let_def)
qed

section \<open>The sources\<close>

text \<open>Calls of the introspection client one after the other; its cache never holds more than a thousand answers,
  and none that is good for more than a minute, or a quarter of one when the key was refused.\<close>

inductive introspection_step :: "(string \<Rightarrow> string) \<Rightarrow> introspection_config \<Rightarrow> int \<times> intro_cache \<Rightarrow> int \<times> intro_cache \<Rightarrow> bool" for sha cfg where
  "now \<le> later \<Longrightarrow> introspection_step sha cfg (now, c) (later, snd (introspection_resolve sha cfg now later answer token c))"
| "now \<le> later \<Longrightarrow> introspection_step sha cfg (now, c) (later, c)"

definition entry_ok :: "int \<Rightarrow> intro_entry \<Rightarrow> bool" where
  "entry_ok now e \<longleftrightarrow> ie_expiresAt e \<le> now + (if ie_record e \<noteq> None then POSITIVE_TTL_MS else NEGATIVE_TTL_MS)"

fun intro_ok :: "int \<times> intro_cache \<Rightarrow> bool" where
  "intro_ok (now, c) \<longleftrightarrow> length c \<le> MAX_CACHE_ENTRIES \<and> (\<forall>(h, e)\<in>set c. entry_ok now e)"

lemma cache_update_length: "length (AList.update k v c) \<le> Suc (length c)"
  by (induction c) auto

lemma set_update_le: "set (AList.update k v c) \<subseteq> insert (k, v) (set c)"
  by (induction c) auto

lemma intro_ok_later: "intro_ok (now, c) \<Longrightarrow> now \<le> later \<Longrightarrow> intro_ok (later, c)"
  by (fastforce simp: entry_ok_def)

lemma remember_ok:
  assumes "intro_ok (now, c)"
  shows "intro_ok (now, remember now h rec c)"
proof -
  let ?kept = "if MAX_CACHE_ENTRIES \<le> length c then tl c else c"
  let ?e = "\<lparr>ie_expiresAt = now + (if rec \<noteq> None then POSITIVE_TTL_MS else NEGATIVE_TTL_MS), ie_record = rec\<rparr>"
  have "set ?kept \<subseteq> set c" by (cases c) auto
  then have "set (remember now h rec c) \<subseteq> insert (h, ?e) (set c)"
    using set_update_le [of h ?e ?kept] by (auto simp: remember_def Let_def)
  moreover have "length ?kept < MAX_CACHE_ENTRIES" using assms by (auto simp: MAX_CACHE_ENTRIES_def)
  then have "length (remember now h rec c) \<le> MAX_CACHE_ENTRIES"
    using cache_update_length [of h ?e ?kept] by (simp add: remember_def Let_def)
  moreover have "entry_ok now ?e" by (simp add: entry_ok_def)
  ultimately show ?thesis using assms by auto
qed

lemma introspection_step_ok: "introspection_step sha cfg s s' \<Longrightarrow> intro_ok s \<Longrightarrow> intro_ok s'"
proof (induction rule: introspection_step.induct)
  case (1 now later c answer token)
  then have "intro_ok (later, c)" by (blast intro: intro_ok_later)
  then show ?case unfolding introspection_resolve_def Let_def
    by (auto simp del: intro_ok.simps intro: remember_ok split: option.splits)
qed (rule intro_ok_later)

interpretation introspection: state_machine "introspection_step sha cfg" intro_ok for sha cfg
  by unfold_locales (rule introspection_step_ok)

lemma introspection_cache_bounded:
  assumes "(introspection_step sha cfg)\<^sup>*\<^sup>* (0, []) (now, c)" "map_of c h = Some e"
  shows "length c \<le> 1000 \<and> ie_expiresAt e \<le> now + (if ie_record e \<noteq> None then 60000 else 15000)"
  using introspection.inv_steps [OF assms(1)] map_of_SomeD [OF assms(2)]
  by (fastforce simp: entry_ok_def MAX_CACHE_ENTRIES_def POSITIVE_TTL_MS_def NEGATIVE_TTL_MS_def)

text \<open>Whatever source answers, a deny-listed subject is refused.\<close>

lemma denied_subject_refused:
  "first_source cfg src token = Some rec \<Longrightarrow> cs_denied src (subject_of rec) \<Longrightarrow> resolveUncached cfg src token = (None, None)"
  by (simp add: resolveUncached_def)

text \<open>A production deployment with a remote verifier ignores its static keys, and so never crosses tenants.\<close>

lemma production_never_crosses:
  assumes "(key_table_step sha)\<^sup>*\<^sup>* [] (dp_table dp)" "\<not> staticAllowed (dp_config dp)"
    "deployed_resolve str sha now dp token = Some rec"
  shows "resolveTenantOverride a rec header = ak_companyId rec"
proof -
  have "rows_issuable (dp_table dp)" using issued_keys.inv_steps [OF assms(1)] by (simp add: rows_issuable_def)
  from platform_record_is_static [OF assms(3) this] assms(2) override_cases [of a rec header] show ?thesis by blast
qed

text \<open>A static key is found under its hash in lower case, and every loaded record passed the checks.\<close>

lemma loaded_keys_checked:
  "load_static_keys byHash ks = Inr out \<Longrightarrow> map_of out h = Some r \<Longrightarrow>
     map_of byHash h = Some r \<or> (\<exists>k\<in>set ks. static_entry_error k = None \<and> r = static_record k \<and> h = map lower_char (ak_keyHash k))"
  by (induction byHash ks rule: load_static_keys.induct) (fastforce split: option.splits if_splits)+

section \<open>Where the code departs\<close>

text \<open>A minted key has no policy context before somebody binds a set to its own hash: the sets its minter carries
  by claim, by client or by binding deny it nothing.\<close>

lemma minted_key_ungated:
  assumes "mints sha auth rec" "map_of (sn_bindings (pg_snapshot pg)) (''key:'' @ ak_keyHash rec) = None"
  shows "policy_context_of pg rec = None"
proof -
  obtain rq now input sha' key uid where "rec = record_of (issued_row sha' key uid now input)" using assms(1) by (rule mints_record)
  then have "ak_keyHash rec = ''sha256:'' @ sha' key" by (simp add: record_of_def issued_row_def api_key_hash_def)
  with assms minted_key_sheds_policies [OF assms(1)]
  have "subject_names (pg_snapshot pg) (policy_subject_of rec) = []"
    by (simp add: subject_names_def policy_subject_of_def bound_def)
  then show ?thesis by (simp add: policy_context_of_def contextFor_def)
qed

text \<open>A platform key that names a tenant with an upper-case letter acts in its own, without an error.\<close>

definition override_on :: ambient where
  "override_on = \<lparr>amb_ctx = Some \<lparr>ctx_authUserId = None, ctx_actingCircle = None, ctx_scopeTags = None\<rparr>, amb_job = None,
     amb_write = None, amb_env = (\<lambda>n. if n = ''BRAIN_TENANT_OVERRIDE_ENABLED'' then Some ''1'' else None)\<rparr>"

definition platform_key :: api_key_record where
  "platform_key = \<lparr>ak_keyHash = ''sha256:k'', ak_companyId = ''ops'', ak_scopes = [PLATFORM_TENANT_SCOPE], ak_userId = None,
     ak_entitlements = None, ak_actorId = None, ak_mcpGrantedActions = None, ak_name = None, ak_policyNames = None,
     ak_packIds = None, ak_circle = None\<rparr>"

lemma override_ignores_upper_case:
  "VALID_COMPANY_ID ''Acme'' \<and> resolveTenantOverride override_on platform_key (Some ''Acme'') = ''ops'' \<and>
     resolveTenantOverride override_on platform_key (Some ''acme'') = ''acme''"
  by code_simp

section \<open>Witnesses\<close>

definition no_policies :: policy_setting where
  "no_policies = \<lparr>pg_enabled = False, pg_reportOnly = False, pg_snapshot = \<lparr>sn_sets = [], sn_known = [], sn_bindings = [],
     sn_loadedAt = 0, sn_version = 0, sn_checkedAt = 0\<rparr>, pg_sampled = False\<rparr>"

definition static_deployment :: deployment where
  "static_deployment = \<lparr>dp_config = \<lparr>rc_jwks = None, rc_introspection = None, rc_production = True\<rparr>, dp_jwtVerify = (\<lambda>_ _ _. None),
     dp_endpoint = (\<lambda>_. None), dp_table = [], dp_static = [(''sha256:k'', platform_key)], dp_denied = (\<lambda>_. False)\<rparr>"

definition admits :: "(string \<Rightarrow> api_key_record option) \<Rightarrow> string option \<Rightarrow> string option \<Rightarrow> guard_result" where
  "admits resolve authorization tenantHeader =
     canActivate resolve no_policies (\<lambda>_ _. None) [] POLICY_ACTION_EXEMPT authorization tenantHeader override_on"

theorem tenant_crossing_needs_static_key_witness:
  "\<exists>auth a'. admits (deployed_resolve (\<lambda>_. []) plain_sha 0 static_deployment) (Some ''Bearer k'') (Some ''acme'') = Admitted auth a' \<and>
     ba_companyId auth = ''acme'' \<and> staticAllowed (dp_config static_deployment) \<and> tenantOverrideEnabled override_on"
proof -
  have "(case admits (deployed_resolve (\<lambda>_. []) plain_sha 0 static_deployment) (Some ''Bearer k'') (Some ''acme'') of
      Admitted auth a' \<Rightarrow> ba_companyId auth = ''acme'' | _ \<Rightarrow> False)" by code_simp
  then obtain auth a' where adm: "admits (deployed_resolve (\<lambda>_. []) plain_sha 0 static_deployment) (Some ''Bearer k'') (Some ''acme'') =
      Admitted auth a'" "ba_companyId auth = ''acme''" by (auto split: guard_result.splits)
  have "(key_table_step plain_sha)\<^sup>*\<^sup>* [] (dp_table static_deployment)" by (simp add: static_deployment_def)
  from tenant_crossing_needs_static_key [OF this adm(1) [unfolded admits_def]]
  obtain token rec where r: "deployed_resolve (\<lambda>_. []) plain_sha 0 static_deployment token = Some rec"
    "bearer_token (Some ''Bearer k'') = Some token"
    "ba_companyId auth = ak_companyId rec \<or> tenantOverrideEnabled override_on \<and> staticAllowed (dp_config static_deployment)" by blast
  have "bearer_token (Some ''Bearer k'') = Some ''k''" by code_simp
  with r(2) have "token = ''k''" by simp
  moreover have "deployed_resolve (\<lambda>_. []) plain_sha 0 static_deployment ''k'' = Some platform_key" by code_simp
  ultimately have "ak_companyId rec = ''ops''" using r(1) by (auto simp: platform_key_def)
  with r(3) adm show ?thesis by auto
qed

theorem admitted_request_confined_witness:
  "\<exists>auth a'. admits (\<lambda>_. Some sample_key_record) (Some ''Bearer x'') None = Admitted auth a' \<and>
     pinUserScope a' (Some ''v'') = Inl ForbiddenException \<and> pinUserScope a' None = Inr (Some ''u'') \<and>
     actingCircleTags a' = [circleTag ''c'']"
proof -
  have "(case admits (\<lambda>_. Some sample_key_record) (Some ''Bearer x'') None of
      Admitted auth a' \<Rightarrow> ra_userId auth = Some ''u'' \<and> ra_circle auth = Some ''c'' | _ \<Rightarrow> False)" by code_simp
  then obtain auth a' where adm: "admits (\<lambda>_. Some sample_key_record) (Some ''Bearer x'') None = Admitted auth a'"
    "ra_userId auth = Some ''u''" "ra_circle auth = Some ''c''" by (auto split: guard_result.splits)
  have ctx: "amb_ctx override_on = Some \<lparr>ctx_authUserId = None, ctx_actingCircle = None, ctx_scopeTags = None\<rparr>"
    by (simp add: override_on_def)
  note c = admitted_request_confined [OF adm(1) [unfolded admits_def] ctx]
  from c [of "Some ''v''"] c [of None] adm show ?thesis by (auto simp: override_on_def)
qed

end
