(* ===== verification/TenantRoster.thy ===== *)
theory TenantRoster imports ApiKeys TokenClaims "HOL-Library.Char_ord" "HOL-Library.List_Lexorder" begin

text \<open>
  The tenants background work visits: the registry table and a replica's cache of it
  (\<open>src/auth/tenant-registry.service.ts\<close>, migration 0104) and the rosters read from the cache and
  the static keys (\<open>src/auth/api-key.service.ts\<close>).  A replica is the record \<open>roster_pod\<close>; its maps are
  association lists.  What the database answers to a replica is arbitrary in the step relation, so
  other replicas write as they like; the statements themselves are functions on the table.
\<close>

section \<open>The registry table\<close>

datatype tenant_status = TenantActive | TenantSuspended | TenantProvisioning

fun status_text :: "tenant_status \<Rightarrow> string" where
  "status_text TenantActive = ''active''"
| "status_text TenantSuspended = ''suspended''"
| "status_text TenantProvisioning = ''provisioning''"

record registry_row =
  rg_companyId :: string
  rg_status :: string
  rg_schemaVersion :: "string option"
  rg_lastSeen :: "int option"
  rg_embeddingSpace :: "string option"
  rg_indexState :: "string option"
  rg_indexDetail :: "string option"
  rg_indexStateAt :: "int option"
  rg_displayName :: "string option"
  rg_updatedAt :: int

type_synonym registry = "registry_row list"

definition COMPANY_ID :: "string \<Rightarrow> bool" where
  "COMPANY_ID s \<longleftrightarrow> s \<noteq> [] \<and> list_all (\<lambda>c. lower c \<or> upper_case c \<or> digit c \<or> c \<in> set ''_-'') s"

text \<open>\<open>UPSERT type::record('tenant_registry', companyId) SET ...\<close>: the row of the tenant, or one with the
  field defaults, is changed.\<close>

definition default_row :: "string \<Rightarrow> int \<Rightarrow> registry_row" where
  "default_row c now = \<lparr>rg_companyId = c, rg_status = ''active'', rg_schemaVersion = None, rg_lastSeen = None,
     rg_embeddingSpace = None, rg_indexState = None, rg_indexDetail = None, rg_indexStateAt = None,
     rg_displayName = None, rg_updatedAt = now\<rparr>"

definition upsert :: "string \<Rightarrow> int \<Rightarrow> (registry_row \<Rightarrow> registry_row) \<Rightarrow> registry \<Rightarrow> registry" where
  "upsert c now f tb =
     (if list_ex (\<lambda>r. rg_companyId r = c) tb then map (\<lambda>r. if rg_companyId r = c then f r else r) tb
      else tb @ [f (default_row c now)])"

definition row_status :: "string \<Rightarrow> registry \<Rightarrow> string option" where
  "row_status c tb = map_option rg_status (find (\<lambda>r. rg_companyId r = c) tb)"

record registry_meta =
  mt_status :: "tenant_status option"
  mt_schemaVersion :: "string option"
  mt_embeddingSpace :: "string option"
  mt_indexState :: "string option"

definition set_if :: "'a option \<Rightarrow> 'a option \<Rightarrow> 'a option" where
  "set_if new old = (case new of None \<Rightarrow> old | Some v \<Rightarrow> Some v)"

definition meta_status :: "registry_meta \<Rightarrow> tenant_status" where
  "meta_status meta = (case mt_status meta of None \<Rightarrow> TenantActive | Some s \<Rightarrow> s)"

definition register_row :: "string \<Rightarrow> registry_meta \<Rightarrow> int \<Rightarrow> registry \<Rightarrow> registry" where
  "register_row c meta now tb =
     upsert c now (\<lambda>r. r\<lparr>rg_status := status_text (meta_status meta), rg_lastSeen := Some now, rg_updatedAt := now,
        rg_schemaVersion := set_if (mt_schemaVersion meta) (rg_schemaVersion r),
        rg_embeddingSpace := set_if (mt_embeddingSpace meta) (rg_embeddingSpace r),
        rg_indexState := set_if (mt_indexState meta) (rg_indexState r)\<rparr>) tb"

definition touch_row :: "string \<Rightarrow> int \<Rightarrow> registry \<Rightarrow> registry" where
  "touch_row c now tb = upsert c now (\<lambda>r. r\<lparr>rg_lastSeen := Some now, rg_updatedAt := now\<rparr>) tb"

datatype roster_error = InvalidCompanyId | InvalidDisplayName

definition setDisplayName :: "string \<Rightarrow> string \<Rightarrow> int \<Rightarrow> registry \<Rightarrow> roster_error + registry" where
  "setDisplayName c name now tb =
     (if \<not> COMPANY_ID c then Inl InvalidCompanyId
      else if trim name = [] \<or> 80 < length (trim name) then Inl InvalidDisplayName
      else Inr (upsert c now (\<lambda>r. r\<lparr>rg_displayName := Some (trim name), rg_updatedAt := now\<rparr>) tb))"

definition displayName :: "string \<Rightarrow> registry \<Rightarrow> string option" where
  "displayName c tb =
     (if \<not> COMPANY_ID c then None
      else case find (\<lambda>r. rg_companyId r = c) tb of None \<Rightarrow> None | Some r \<Rightarrow> unless_empty (rg_displayName r))"

record tenant_index_state =
  ix_state :: string
  ix_detail :: "string option"
  ix_embeddingSpace :: "string option"

definition recordIndexState :: "string \<Rightarrow> tenant_index_state \<Rightarrow> int \<Rightarrow> registry \<Rightarrow> registry" where
  "recordIndexState c observed now tb =
     (if \<not> COMPANY_ID c then tb
      else upsert c now (\<lambda>r. r\<lparr>rg_indexState := Some (ix_state observed),
             rg_indexDetail := set_if (ix_detail observed) (rg_indexDetail r),
             rg_embeddingSpace := set_if (ix_embeddingSpace observed) (rg_embeddingSpace r),
             rg_indexStateAt := Some now, rg_updatedAt := now\<rparr>) tb)"

record index_state_row = tenant_index_state +
  xr_companyId :: string
  xr_status :: string
  xr_observedAt :: "int option"

definition listIndexState :: "registry \<Rightarrow> index_state_row list" where
  "listIndexState tb =
     map (\<lambda>r. \<lparr>ix_state = (case rg_indexState r of None \<Rightarrow> ''unknown'' | Some s \<Rightarrow> s), ix_detail = rg_indexDetail r,
              ix_embeddingSpace = rg_embeddingSpace r, xr_companyId = rg_companyId r, xr_status = rg_status r,
              xr_observedAt = rg_indexStateAt r\<rparr>)
       (filter (\<lambda>r. rg_companyId r \<noteq> []) (sort_key rg_companyId tb))"

text \<open>Every row with its status, once per tenant; rows without a tenant are skipped.\<close>

definition readRoster :: "registry \<Rightarrow> (string \<times> string) list" where
  "readRoster tb =
     fold (\<lambda>r m. if rg_companyId r = [] then m else AList.update (rg_companyId r) (rg_status r) m) tb []"

definition readActive :: "registry \<Rightarrow> string list" where
  "readActive tb = map fst (filter (\<lambda>r. snd r = ''active'') (readRoster tb))"

section \<open>A replica\<close>

record roster_pod =
  tp_active :: "string list"
  tp_known :: "(string \<times> tenant_status) list"
  tp_writes :: nat
  tp_writtenAt :: "(string \<times> nat) list"
  tp_lastWriteAt :: "(string \<times> int) list"

definition new_pod :: roster_pod where
  "new_pod = \<lparr>tp_active = [], tp_known = [], tp_writes = 0, tp_writtenAt = [], tp_lastWriteAt = []\<rparr>"

definition TOUCH_THROTTLE_MS :: int where "TOUCH_THROTTLE_MS = 5 * 60000"

definition set_add :: "string \<Rightarrow> string list \<Rightarrow> string list" where
  "set_add c xs = (if c \<in> set xs then xs else xs @ [c])"

definition known_status :: "string \<Rightarrow> tenant_status" where
  "known_status status =
     (if status = ''active'' then TenantActive else if status = ''provisioning'' then TenantProvisioning else TenantSuspended)"

definition noteStatus :: "string \<Rightarrow> string \<Rightarrow> roster_pod \<Rightarrow> roster_pod" where
  "noteStatus c status pod =
     (let known = known_status status
      in pod\<lparr>tp_known := AList.update c known (tp_known pod),
             tp_writtenAt := AList.update c (Suc (tp_writes pod)) (tp_writtenAt pod),
             tp_writes := Suc (tp_writes pod),
             tp_active := (if known = TenantActive then set_add c (tp_active pod) else removeAll c (tp_active pod))\<rparr>)"

definition statusOf :: "roster_pod \<Rightarrow> string \<Rightarrow> tenant_status option" where
  "statusOf pod c = map_of (tp_known pod) c"

text \<open>The synchronous half of \<open>register\<close>, and what its write leaves.\<close>

definition register_start :: "string \<Rightarrow> registry_meta \<Rightarrow> roster_pod \<Rightarrow> roster_error + roster_pod" where
  "register_start c meta pod =
     (if \<not> COMPANY_ID c then Inl InvalidCompanyId else Inr (noteStatus c (status_text (meta_status meta)) pod))"

definition register_written :: "string \<Rightarrow> int \<Rightarrow> roster_pod \<Rightarrow> roster_pod" where
  "register_written c now pod = pod\<lparr>tp_lastWriteAt := AList.update c now (tp_lastWriteAt pod)\<rparr>"

text \<open>The synchronous half of \<open>touch\<close> with a database (\<open>True\<close>: the write is launched) or without one, and the
  echo of the write.\<close>

definition touch_start :: "bool \<Rightarrow> int \<Rightarrow> string \<Rightarrow> roster_pod \<Rightarrow> bool \<times> roster_pod" where
  "touch_start surreal now c pod =
     (if \<not> COMPANY_ID c then (False, pod)
      else if \<not> surreal then (False, if statusOf pod c = None then noteStatus c ''active'' pod else pod)
      else let pod1 = (if statusOf pod c = Some TenantActive then pod\<lparr>tp_active := set_add c (tp_active pod)\<rparr> else pod)
           in case map_of (tp_lastWriteAt pod1) c of
                Some t \<Rightarrow> if now - t < TOUCH_THROTTLE_MS then (False, pod1)
                             else (True, pod1\<lparr>tp_lastWriteAt := AList.update c now (tp_lastWriteAt pod1)\<rparr>)
              | None \<Rightarrow> (True, pod1\<lparr>tp_lastWriteAt := AList.update c now (tp_lastWriteAt pod1)\<rparr>))"

definition touch_echo :: "string \<Rightarrow> string option \<Rightarrow> roster_pod \<Rightarrow> roster_pod" where
  "touch_echo c status pod = (case status of None \<Rightarrow> pod | Some s \<Rightarrow> noteStatus c s pod)"

text \<open>\<open>refresh\<close> once its read has returned; \<open>readAt\<close> is the counter before the read.\<close>

definition written_since :: "nat \<Rightarrow> roster_pod \<Rightarrow> (string \<times> tenant_status) list" where
  "written_since readAt pod =
     filter (\<lambda>(c, _). readAt < (case map_of (tp_writtenAt pod) c of None \<Rightarrow> 0 | Some n \<Rightarrow> n)) (tp_known pod)"

definition refresh_end :: "nat \<Rightarrow> (string \<times> string) list \<Rightarrow> roster_pod \<Rightarrow> roster_pod" where
  "refresh_end readAt roster pod =
     (let concurrent = written_since readAt pod;
          cleared = pod\<lparr>tp_active := [], tp_known := [], tp_writtenAt := []\<rparr>;
          fresh = filter (\<lambda>row. fst row \<notin> fst ` set concurrent) roster
      in fold (\<lambda>(c, s). noteStatus c (status_text s)) concurrent (fold (\<lambda>(c, s). noteStatus c s) fresh cleared))"

section \<open>The rosters\<close>

definition staticCompanyIds :: "string list \<Rightarrow> roster_pod \<Rightarrow> string list" where
  "staticCompanyIds statics pod =
     filter (\<lambda>c. statusOf pod c = None \<or> statusOf pod c = Some TenantActive) (dedupe statics)"

definition knownCompanyIds :: "string list \<Rightarrow> roster_pod \<Rightarrow> string list" where
  "knownCompanyIds statics pod =
     (if tp_active pod = [] then staticCompanyIds statics pod else dedupe (staticCompanyIds statics pod @ tp_active pod))"

definition fanOutRoster :: "string list \<Rightarrow> roster_pod \<Rightarrow> string list" where
  "fanOutRoster statics pod =
     sort (dedupe (if tp_active pod \<noteq> [] then tp_active pod else staticCompanyIds statics pod))"

definition hostTenant :: "string list \<Rightarrow> roster_pod \<Rightarrow> string option" where
  "hostTenant statics pod = (case fanOutRoster statics pod of [] \<Rightarrow> None | c # _ \<Rightarrow> Some c)"

section \<open>Histories of a replica\<close>

text \<open>A replica with its refreshes in flight.\<close>

record roster_state =
  rs_pod :: roster_pod
  rs_reading :: "nat list"

inductive roster_step :: "roster_state \<Rightarrow> roster_state \<Rightarrow> bool" where
  registers: "register_start c meta (rs_pod s) = Inr pod \<Longrightarrow> roster_step s (s\<lparr>rs_pod := pod\<rparr>)"
| registered: "roster_step s (s\<lparr>rs_pod := register_written c now (rs_pod s)\<rparr>)"
| touches: "roster_step s (s\<lparr>rs_pod := snd (touch_start surreal now c (rs_pod s))\<rparr>)"
| echoes: "roster_step s (s\<lparr>rs_pod := touch_echo c status (rs_pod s)\<rparr>)"
| refreshes: "roster_step s (s\<lparr>rs_reading := rs_reading s @ [tp_writes (rs_pod s)]\<rparr>)"
| read: "n < length (rs_reading s) \<Longrightarrow>
    roster_step s (s\<lparr>rs_pod := refresh_end (rs_reading s ! n) roster (rs_pod s)\<rparr>)"

definition pod_sound :: "roster_pod \<Rightarrow> bool" where
  "pod_sound pod \<longleftrightarrow> distinct (tp_active pod) \<and> distinct (map fst (tp_known pod)) \<and>
     set (tp_active pod) = {c. map_of (tp_known pod) c = Some TenantActive} \<and>
     (\<forall>c n. map_of (tp_writtenAt pod) c = Some n \<longrightarrow> n \<le> tp_writes pod)"

lemma new_pod_sound: "pod_sound new_pod"
  by (simp add: pod_sound_def new_pod_def)

lemma note_sound: "pod_sound pod \<Longrightarrow> pod_sound (noteStatus c status pod)"
  by (auto simp: pod_sound_def noteStatus_def set_add_def Let_def distinct_removeAll le_SucI split: if_splits)

lemma notes_sound: "pod_sound pod \<Longrightarrow> pod_sound (fold (\<lambda>(c, s). noteStatus c (f s)) ns pod)"
  by (induction ns arbitrary: pod) (auto simp: note_sound)

lemma refresh_sound: "pod_sound (refresh_end readAt roster pod)"
proof -
  have "pod_sound (pod\<lparr>tp_active := [], tp_known := [], tp_writtenAt := []\<rparr>)" by (simp add: pod_sound_def)
  from notes_sound [OF notes_sound [where f = id, OF this]] show ?thesis
    by (simp add: refresh_end_def Let_def)
qed

lemma written_sound: "pod_sound pod \<Longrightarrow> pod_sound (register_written c now pod)"
  by (simp add: pod_sound_def register_written_def)

lemma active_already: "pod_sound pod \<Longrightarrow> statusOf pod c = Some TenantActive \<Longrightarrow> set_add c (tp_active pod) = tp_active pod"
  by (auto simp: pod_sound_def statusOf_def set_add_def)

lemma touch_start_cases:
  assumes "pod_sound pod"
  shows "snd (touch_start surreal now c pod) \<in> {pod, noteStatus c ''active'' pod, register_written c now pod}"
proof -
  have "(if statusOf pod c = Some TenantActive then pod\<lparr>tp_active := set_add c (tp_active pod)\<rparr> else pod) = pod"
    using active_already [OF assms] by simp
  then show ?thesis by (simp add: touch_start_def register_written_def split: option.splits)
qed

lemma touch_sound: "pod_sound pod \<Longrightarrow> pod_sound (snd (touch_start surreal now c pod))"
  using touch_start_cases [of pod surreal now c] note_sound written_sound by fastforce

lemma roster_step_sound: "roster_step s s' \<Longrightarrow> pod_sound (rs_pod s) \<Longrightarrow> pod_sound (rs_pod s')"
  by (induction rule: roster_step.induct)
    (auto simp: register_start_def touch_echo_def note_sound touch_sound refresh_sound written_sound split: if_splits option.splits)

interpretation roster: state_machine roster_step "\<lambda>s. pod_sound (rs_pod s)"
  by unfold_locales (rule roster_step_sound)

definition replica_start :: roster_state where
  "replica_start = \<lparr>rs_pod = new_pod, rs_reading = []\<rparr>"

lemma replica_sound: "roster_step\<^sup>*\<^sup>* replica_start s \<Longrightarrow> pod_sound (rs_pod s)"
  using roster.inv_steps [of replica_start s] by (simp add: replica_start_def new_pod_sound)

section \<open>What notes and refreshes leave\<close>

lemma known_status_text [simp]: "known_status (status_text s) = s"
  by (cases s) (simp_all add: known_status_def)

lemma noteStatus_fields:
  "tp_known (noteStatus c s pod) = AList.update c (known_status s) (tp_known pod)"
  "tp_writtenAt (noteStatus c s pod) = AList.update c (Suc (tp_writes pod)) (tp_writtenAt pod)"
  "tp_writes (noteStatus c s pod) = Suc (tp_writes pod)"
  by (simp_all add: noteStatus_def Let_def)

lemma notes_known:
  "map_of (tp_known (fold (\<lambda>(c, s). noteStatus c (f s)) ns pod)) c =
     (case map_of (rev ns) c of None \<Rightarrow> map_of (tp_known pod) c | Some s \<Rightarrow> Some (known_status (f s)))"
  by (induction ns rule: rev_induct) (auto simp: noteStatus_def Let_def split: option.splits)

lemma notes_count: "tp_writes (fold (\<lambda>(c, s). noteStatus c (f s)) ns pod) = tp_writes pod + length ns"
  by (induction ns rule: rev_induct) (auto simp: noteStatus_fields)

lemma notes_written:
  "case map_of (rev ns) c of
     None \<Rightarrow> map_of (tp_writtenAt (fold (\<lambda>(c, s). noteStatus c (f s)) ns pod)) c = map_of (tp_writtenAt pod) c
   | Some s \<Rightarrow> (\<exists>n. map_of (tp_writtenAt (fold (\<lambda>(c, s). noteStatus c (f s)) ns pod)) c = Some n \<and> tp_writes pod < n)"
  by (induction ns rule: rev_induct) (auto simp: noteStatus_fields notes_count split: option.splits)

lemma written_since_notes:
  assumes "pod_sound pod"
  shows "written_since (tp_writes pod) (fold (\<lambda>(c, s). noteStatus c s) ns pod) =
    filter (\<lambda>(c, _). map_of (rev ns) c \<noteq> None) (tp_known (fold (\<lambda>(c, s). noteStatus c s) ns pod))"
proof -
  have "(tp_writes pod < (case map_of (tp_writtenAt (fold (\<lambda>(c, s). noteStatus c s) ns pod)) c of None \<Rightarrow> 0 | Some n \<Rightarrow> n)) =
      (map_of (rev ns) c \<noteq> None)" for c
    using notes_written [where f = id, of ns pod c] assms by (fastforce simp: pod_sound_def split: option.splits)
  then show ?thesis by (simp add: written_since_def)
qed

lemma map_of_filter_keys: "map_of (filter (\<lambda>(k, _). P k) xs) k = (if P k then map_of xs k else None)"
  by (induction xs) auto

lemma map_of_rev_filter: "map_of (rev (filter (\<lambda>(k, _). P k) xs)) k = (if P k then map_of (rev xs) k else None)"
  by (simp add: rev_filter map_of_filter_keys)

lemma map_of_rev_distinct: "distinct (map fst xs) \<Longrightarrow> map_of (rev xs) = map_of xs"
  by (rule map_of_inject_set [THEN iffD2]) (simp_all flip: rev_map)

lemma refresh_known:
  assumes "pod_sound pod"
  shows "statusOf (refresh_end readAt roster pod) c =
    (case map_of (written_since readAt pod) c of Some s \<Rightarrow> Some s | None \<Rightarrow> map_option known_status (map_of (rev roster) c))"
proof -
  let ?con = "written_since readAt pod"
  have "distinct (map fst ?con)"
    using assms distinct_map_fst_filter by (fastforce simp: pod_sound_def written_since_def)
  then have con: "map_of (rev ?con) = map_of ?con" by (rule map_of_rev_distinct)
  have "filter (\<lambda>row. fst row \<notin> fst ` set ?con) roster = filter (\<lambda>(k, _). k \<notin> fst ` set ?con) roster"
    by (simp add: case_prod_unfold)
  then show ?thesis
    using notes_known [where f = id] map_of_eq_None_iff [of ?con c]
    by (auto simp: statusOf_def refresh_end_def Let_def notes_known con map_of_rev_filter split: option.splits)
qed

section \<open>Properties\<close>

text \<open>C23: At every moment of a replica, background work visits exactly the tenants it knows to be active, in
  order, or, knowing none, the static tenants of unknown status; an operator may target both.\<close>

theorem roster_membership:
  assumes "roster_step\<^sup>*\<^sup>* replica_start s"
  shows "fanOutRoster statics (rs_pod s) = sorted_list_of_set
      (if \<exists>c. statusOf (rs_pod s) c = Some TenantActive then {c. statusOf (rs_pod s) c = Some TenantActive}
       else {c \<in> set statics. statusOf (rs_pod s) c = None}) \<and>
    set (knownCompanyIds statics (rs_pod s)) =
      {c. statusOf (rs_pod s) c = Some TenantActive} \<union> {c \<in> set statics. statusOf (rs_pod s) c = None}"
proof -
  let ?pod = "rs_pod s"
  have act: "set (tp_active ?pod) = {c. statusOf ?pod c = Some TenantActive}"
    using replica_sound [OF assms] by (simp add: pod_sound_def statusOf_def)
  have st: "set (staticCompanyIds statics ?pod) = {c \<in> set statics. statusOf ?pod c = None \<or> statusOf ?pod c = Some TenantActive}"
    by (auto simp: staticCompanyIds_def)
  have "fanOutRoster statics ?pod = sorted_list_of_set (set (if tp_active ?pod \<noteq> [] then tp_active ?pod else staticCompanyIds statics ?pod))"
    by (simp add: fanOutRoster_def sorted_list_of_set_sort_remdups [symmetric] flip: sorted_list_of_set_sort_remdups)
      (metis distinct_dedupe distinct_sort set_dedupe set_sort sorted_list_of_set.idem_if_sorted_distinct sorted_sort)
  moreover have "tp_active ?pod = [] \<longleftrightarrow> \<not> (\<exists>c. statusOf ?pod c = Some TenantActive)" using act by (metis (mono_tags) empty_Collect_eq set_empty)
  ultimately show ?thesis using act st by (auto simp: knownCompanyIds_def intro!: arg_cong [where f = sorted_list_of_set])
qed

text \<open>A refresh whose read returns leaves each tenant the status noted last on this replica since the refresh
  began, and every other tenant that of its row, or none where it has no row.\<close>

theorem refresh_keeps_later_notes:
  assumes "pod_sound pod"
  shows "statusOf (refresh_end (tp_writes pod) roster (fold (\<lambda>(c, s). noteStatus c s) noted pod)) c =
    (case map_of (rev noted) c of
       Some s \<Rightarrow> Some (known_status s)
     | None \<Rightarrow> map_option known_status (map_of (rev roster) c))"
  using refresh_known [OF notes_sound [where f = id and ns = noted, OF assms], where readAt = "tp_writes pod" and roster = roster and c = c]
    notes_known [where f = id, of noted pod c]
  by (simp add: written_since_notes [OF assms] map_of_filter_keys split: option.splits)

text \<open>Only a registration changes the status of a tenant that has a row.\<close>

lemma upsert_status:
  assumes "row_status d tb = Some st" "\<And>r. rg_status (f r) = rg_status r" "\<And>r. rg_companyId (f r) = rg_companyId r"
  shows "row_status d (upsert c now f tb) = Some st"
proof -
  have "row_status d (map (\<lambda>r. if rg_companyId r = c then f r else r) tb) = Some st"
    using assms by (induction tb) (auto simp: row_status_def split: if_splits)
  moreover have "row_status d (tb @ [x]) = Some st" for x
    using assms(1) by (induction tb) (auto simp: row_status_def split: if_splits)
  ultimately show ?thesis by (simp add: upsert_def)
qed

lemma status_changes_by_registration_only:
  assumes "row_status d tb = Some st"
  shows "row_status d (touch_row c now tb) = Some st" "row_status d (recordIndexState c observed now tb) = Some st"
    "setDisplayName c name now tb = Inr tb' \<Longrightarrow> row_status d tb' = Some st"
  using assms by (auto simp: touch_row_def recordIndexState_def setDisplayName_def upsert_status split: if_splits)

section \<open>Where the code departs\<close>

definition suspend :: registry_meta where
  "suspend = \<lparr>mt_status = Some TenantSuspended, mt_schemaVersion = None, mt_embeddingSpace = None, mt_indexState = None\<rparr>"

definition active_table :: registry where
  "active_table = [default_row ''t'' 0]"

definition suspended_pod :: "roster_pod \<Rightarrow> roster_pod" where
  "suspended_pod pod = (case register_start ''t'' suspend pod of Inl e \<Rightarrow> pod | Inr p \<Rightarrow> p)"

text \<open>The echo of a touch whose write came before a suspension arrives after it and lifts it on this replica.\<close>

lemma late_echo_lifts_suspension:
  "let (launched, pod) = touch_start True 5 ''t'' new_pod; echo = row_status ''t'' (touch_row ''t'' 5 active_table);
       db = register_row ''t'' suspend 6 (touch_row ''t'' 5 active_table); pod = register_written ''t'' 6 (suspended_pod pod);
       later = touch_echo ''t'' echo pod
   in launched \<and> fanOutRoster [] pod = [] \<and> row_status ''t'' db = Some ''suspended'' \<and> fanOutRoster [] later = [''t'']"
  by code_simp

text \<open>\<open>register\<close> notes the status before it writes the row: a refresh that begins in between reads the old row and
  takes it for newer than the note.\<close>

lemma refresh_before_the_write_lifts_suspension:
  "let pod = suspended_pod new_pod; readAt = tp_writes pod; roster = readRoster active_table;
       db = register_row ''t'' suspend 6 active_table; later = refresh_end readAt roster (register_written ''t'' 6 pod)
   in row_status ''t'' db = Some ''suspended'' \<and> fanOutRoster [] later = [''t'']"
  by code_simp

text \<open>Of two refreshes in flight the one that ends first wins, although it read the older rows.\<close>

lemma older_refresh_wins:
  "let readAt = tp_writes new_pod; old = readRoster active_table; db = register_row ''t'' suspend 6 active_table;
       new = readRoster db; later = refresh_end readAt new (refresh_end readAt old new_pod)
   in new = [(''t'', ''suspended'')] \<and> fanOutRoster [] later = [''t'']"
  by code_simp

section \<open>Witnesses\<close>

definition one_suspended :: roster_state where
  "one_suspended = replica_start\<lparr>rs_pod := suspended_pod new_pod\<rparr>"

theorem roster_membership_witness:
  "fanOutRoster [''t'', ''u''] (rs_pod one_suspended) = [''u''] \<and> set (knownCompanyIds [''t'', ''u''] (rs_pod one_suspended)) = {''u''}"
proof -
  have "register_start ''t'' suspend (rs_pod replica_start) = Inr (suspended_pod new_pod)" by code_simp
  from roster_step.registers [OF this] have "roster_step\<^sup>*\<^sup>* replica_start one_suspended"
    by (simp add: one_suspended_def r_into_rtranclp)
  note m = roster_membership [OF this, of "[''t'', ''u'']"]
  have "statusOf (rs_pod one_suspended) c = (if c = ''t'' then Some TenantSuspended else None)" for c
    by (simp add: one_suspended_def suspended_pod_def register_start_def suspend_def meta_status_def COMPANY_ID_def
        noteStatus_def new_pod_def statusOf_def lower_def in_range_def known_status_def)
  then have "{c. statusOf (rs_pod one_suspended) c = Some TenantActive} = {}"
    "{c \<in> set [''t'', ''u'']. statusOf (rs_pod one_suspended) c = None} = {''u''}" by (auto split: if_splits)
  with m show ?thesis by (simp only: empty_Collect_eq [symmetric] Un_empty_left) (simp add: set_eq_iff)
qed

theorem refresh_keeps_later_notes_witness:
  "statusOf (refresh_end 0 [(''t'', ''active''), (''u'', ''active'')] (noteStatus ''t'' ''suspended'' new_pod)) ''t'' = Some TenantSuspended \<and>
   statusOf (refresh_end 0 [(''t'', ''active''), (''u'', ''active'')] (noteStatus ''t'' ''suspended'' new_pod)) ''u'' = Some TenantActive"
  using refresh_keeps_later_notes [OF new_pod_sound, of "[(''t'', ''active''), (''u'', ''active'')]" "[(''t'', ''suspended'')]" "''t''"]
    refresh_keeps_later_notes [OF new_pod_sound, of "[(''t'', ''active''), (''u'', ''active'')]" "[(''t'', ''suspended'')]" "''u''"]
  by (simp add: new_pod_def known_status_def)

end
