(* ===== verification/Membership.thy ===== *)
theory Membership imports ScopeTags TokenClaims "HOL-Library.Char_ord" "HOL-Library.List_Lexorder" begin

text \<open>
  Who a user is in the connected systems (\<open>src/auth/membership.service.ts\<close>, migration 0169) and the walk
  that mirrors a source's groups (\<open>src/source-plane/source-principals.service.ts\<close>): the tuples of one
  tenant, its identities, the bounded expansion of a user's tags, and the cache of expansions keyed by
  the tenant's epoch.  A sequence of statements that may throw is a pair of whether it ran to its end and
  the state it left.  Times are milliseconds.  The unique indexes of the migration keep one row per tuple and per
  account, and a query for one row without an order takes the first of the table.
\<close>

section \<open>Tuples\<close>

record member_tuple =
  mb_subject :: string
  mb_object :: string
  mb_connectionId :: string
  mb_source :: string
  mb_recordedAt :: int
  mb_revokedAt :: "int option"

definition accountSubject :: "string \<Rightarrow> string \<Rightarrow> string" where
  "accountSubject connectionId externalId = teamTag connectionId (''account/'' @ externalId)"

definition own_tuple :: "string \<Rightarrow> string \<Rightarrow> member_tuple \<Rightarrow> bool" where
  "own_tuple conn subject r \<longleftrightarrow> mb_connectionId r = conn \<and> mb_subject r = subject"

definition live :: "member_tuple \<Rightarrow> bool" where
  "live r \<longleftrightarrow> mb_revokedAt r = None"

text \<open>A row of the subject: revived when it is wanted, revoked when it is not.\<close>

definition settle_tuple :: "string \<Rightarrow> string \<Rightarrow> string list \<Rightarrow> int \<Rightarrow> member_tuple \<Rightarrow> member_tuple" where
  "settle_tuple conn subject groups now r =
     (if \<not> own_tuple conn subject r then r
      else if mb_object r \<in> set groups
      then (if live r then r else r\<lparr>mb_revokedAt := None, mb_recordedAt := now\<rparr>)
      else (if live r then r\<lparr>mb_revokedAt := Some now\<rparr> else r))"

text \<open>The unique index is on subject and object; a refused row ends the calls.\<close>

fun create_tuples :: "string \<Rightarrow> string \<Rightarrow> string \<Rightarrow> int \<Rightarrow> string list \<Rightarrow> member_tuple list \<Rightarrow> bool \<times> member_tuple list" where
  "create_tuples conn subject source now [] tb = (True, tb)"
| "create_tuples conn subject source now (g # gs) tb =
     (if list_ex (\<lambda>r. mb_subject r = subject \<and> mb_object r = g) tb then (False, tb)
      else create_tuples conn subject source now gs
        (tb @ [\<lparr>mb_subject = subject, mb_object = g, mb_connectionId = conn, mb_source = source,
               mb_recordedAt = now, mb_revokedAt = None\<rparr>]))"

definition missing_groups :: "string \<Rightarrow> string \<Rightarrow> string list \<Rightarrow> member_tuple list \<Rightarrow> string list" where
  "missing_groups conn subject groups tb =
     filter (\<lambda>g. g \<notin> mb_object ` set (filter (own_tuple conn subject) tb)) (dedupe groups)"

text \<open>Whether anything changed (None: it threw), and the table.\<close>

definition setMemberships ::
    "string \<Rightarrow> string \<Rightarrow> string list \<Rightarrow> string \<Rightarrow> int \<Rightarrow> member_tuple list \<Rightarrow> bool option \<times> member_tuple list" where
  "setMemberships conn subject groups source now tb =
     (let missing = missing_groups conn subject groups tb;
          flips = list_ex (\<lambda>r. own_tuple conn subject r \<and> (mb_object r \<in> set groups) \<noteq> live r) tb;
          (ok, tb') = create_tuples conn subject source now missing (map (settle_tuple conn subject groups now) tb)
      in (if ok then Some (flips \<or> missing \<noteq> []) else None, tb'))"

definition live_groups :: "string \<Rightarrow> string \<Rightarrow> member_tuple list \<Rightarrow> string set" where
  "live_groups conn subject tb = mb_object ` set (filter (\<lambda>r. own_tuple conn subject r \<and> live r) tb)"

section \<open>Expansion\<close>

definition MAX_DEPTH :: nat where "MAX_DEPTH = 8"
definition MAX_TAGS :: nat where "MAX_TAGS = 512"

definition group_tag_ok :: "string \<Rightarrow> bool" where
  "group_tag_ok tag \<longleftrightarrow> (isCircleTag tag \<and> CIRCLE_ID_RE (drop 7 tag)) \<or> parseTeamTag tag \<noteq> None"

definition groups_of :: "member_tuple list \<Rightarrow> string list \<Rightarrow> string list" where
  "groups_of tb subjects = map mb_object (filter (\<lambda>r. mb_subject r \<in> set subjects \<and> live r) tb)"

text \<open>One level: the tags held, those new to the next level, and whether the cap was hit.\<close>

fun scan_level :: "string list \<Rightarrow> string list \<Rightarrow> string list \<Rightarrow> bool \<times> string list \<times> string list" where
  "scan_level held next [] = (False, held, next)"
| "scan_level held next (g # gs) =
     (if \<not> group_tag_ok g \<or> g \<in> set held then scan_level held next gs
      else if MAX_TAGS \<le> length held then (True, held, next)
      else scan_level (held @ [g]) (next @ [g]) gs)"

text \<open>\<open>reads d\<close> is the table when the level at depth \<open>d\<close> is read.\<close>

fun expand_from :: "(nat \<Rightarrow> member_tuple list) \<Rightarrow> nat \<Rightarrow> nat \<Rightarrow> string list \<Rightarrow> string list \<Rightarrow> string list" where
  "expand_from reads 0 depth held frontier = held"
| "expand_from reads (Suc left) depth held frontier =
     (if frontier = [] then held
      else (case scan_level held [] (groups_of (reads depth) frontier) of
              (True, held', _) \<Rightarrow> held'
            | (False, held', next) \<Rightarrow> expand_from reads left (Suc depth) held' next))"

definition expand :: "(nat \<Rightarrow> member_tuple list) \<Rightarrow> string \<Rightarrow> string list" where
  "expand reads userId = expand_from reads MAX_DEPTH 0 [userTag userId] [userTag userId]"

section \<open>Identities\<close>

record identity_row =
  ei_connectionId :: string
  ei_externalId :: string
  ei_handle :: "string option"
  ei_displayName :: "string option"
  ei_email :: "string option"
  ei_userId :: "string option"
  ei_linkedBy :: "string option"

record seen_identity =
  si_externalId :: string
  si_handle :: "string option"
  si_displayName :: "string option"
  si_email :: "string option"

record member_db =
  md_tuples :: "member_tuple list"
  md_identities :: "identity_row list"
  md_epoch :: nat

definition of_pair :: "string \<Rightarrow> string \<Rightarrow> identity_row \<Rightarrow> bool" where
  "of_pair conn externalId r \<longleftrightarrow> ei_connectionId r = conn \<and> ei_externalId r = externalId"

definition identities :: "string \<Rightarrow> identity_row list \<Rightarrow> identity_row list" where
  "identities conn tb = take 1000 (sort_key ei_externalId (filter (\<lambda>r. ei_connectionId r = conn) tb))"

definition set_known :: "'a option \<Rightarrow> 'a option \<Rightarrow> 'a option" where
  "set_known new old = (case new of None \<Rightarrow> old | Some v \<Rightarrow> Some v)"

definition seen_email :: "seen_identity \<Rightarrow> string option" where
  "seen_email s = map_option (\<lambda>e. map lower_char (trim e)) (si_email s)"

definition record_seen :: "string \<Rightarrow> seen_identity \<Rightarrow> identity_row list \<Rightarrow> identity_row list" where
  "record_seen conn s tb =
     (if list_ex (of_pair conn (si_externalId s)) tb
      then map (\<lambda>r. if of_pair conn (si_externalId s) r
             then r\<lparr>ei_handle := set_known (si_handle s) (ei_handle r),
                    ei_displayName := set_known (si_displayName s) (ei_displayName r),
                    ei_email := set_known (seen_email s) (ei_email r)\<rparr> else r) tb
      else tb @ [\<lparr>ei_connectionId = conn, ei_externalId = si_externalId s, ei_handle = si_handle s,
                 ei_displayName = si_displayName s, ei_email = seen_email s, ei_userId = None, ei_linkedBy = None\<rparr>])"

definition subjectOf :: "string \<Rightarrow> string \<Rightarrow> member_db \<Rightarrow> string option" where
  "subjectOf conn externalId db =
     (case find (\<lambda>r. ei_externalId r = externalId) (identities conn (md_identities db)) of
        None \<Rightarrow> None | Some r \<Rightarrow> ei_userId r)"

definition groupsOfIdentity :: "string \<Rightarrow> string \<Rightarrow> member_db \<Rightarrow> string list" where
  "groupsOfIdentity conn externalId db =
     map mb_object (filter (\<lambda>r. own_tuple conn (accountSubject conn externalId) r \<and> live r) (md_tuples db))"

definition member_bump :: "member_db \<Rightarrow> member_db" where
  "member_bump db = db\<lparr>md_epoch := Suc (md_epoch db)\<rparr>"

text \<open>A call of \<open>setMemberships\<close> inside a longer one.\<close>

definition assign :: "string \<Rightarrow> string \<Rightarrow> int \<Rightarrow> string \<times> string list \<Rightarrow> bool \<times> bool \<times> member_db \<Rightarrow> bool \<times> bool \<times> member_db" where
  "assign conn source now a st =
     (let (ok, changed, db) = st
      in if \<not> ok then st
         else (case setMemberships conn (fst a) (snd a) source now (md_tuples db) of
                 (None, tb) \<Rightarrow> (False, changed, db\<lparr>md_tuples := tb\<rparr>)
               | (Some c, tb) \<Rightarrow> (True, changed \<or> c, db\<lparr>md_tuples := tb\<rparr>)))"

definition link_row :: "string \<Rightarrow> string \<Rightarrow> string option \<Rightarrow> string \<Rightarrow> identity_row \<Rightarrow> identity_row" where
  "link_row conn externalId userId linkedBy r =
     (if \<not> of_pair conn externalId r then r
      else if truthy_str userId then r\<lparr>ei_userId := userId, ei_linkedBy := Some linkedBy\<rparr>
      else r\<lparr>ei_userId := None, ei_linkedBy := None\<rparr>)"

definition link :: "string \<Rightarrow> string \<Rightarrow> string option \<Rightarrow> string \<Rightarrow> int \<Rightarrow> member_db \<Rightarrow> bool \<times> member_db" where
  "link conn externalId userId linkedBy now db =
     (let before = subjectOf conn externalId db
      in if \<not> list_ex (of_pair conn externalId) (md_identities db) then (False, db)
         else let db1 = db\<lparr>md_identities := map (link_row conn externalId userId linkedBy) (md_identities db)\<rparr>;
                  groups = groupsOfIdentity conn externalId db1;
                  plan = (if truthy_str before \<and> before \<noteq> userId then [(userTag (the before), [])] else []) @
                         (if truthy_str userId then [(userTag (the userId), groups)] else []);
                  (ok, _, db2) = fold (assign conn ''operator'' now) plan (True, False, db1)
              in (ok, if ok then member_bump db2 else db2))"

definition linkByEmail :: "string \<Rightarrow> string \<Rightarrow> string \<Rightarrow> int \<Rightarrow> member_db \<Rightarrow> bool \<times> member_db" where
  "linkByEmail conn externalId email now db =
     (case find (\<lambda>r. ei_email r = Some email \<and> ei_userId r \<noteq> None) (md_identities db) of
        None \<Rightarrow> (True, db)
      | Some r \<Rightarrow> if truthy_str (ei_userId r) then link conn externalId (ei_userId r) ''email'' now db else (True, db))"

definition see_identity :: "string \<Rightarrow> int \<Rightarrow> seen_identity \<Rightarrow> bool \<times> member_db \<Rightarrow> bool \<times> member_db" where
  "see_identity conn now s st =
     (if \<not> fst st then st
      else let db = (snd st)\<lparr>md_identities := record_seen conn s (md_identities (snd st))\<rparr>
           in if truthy_str (seen_email s) then linkByEmail conn (si_externalId s) (the (seen_email s)) now db
              else (True, db))"

definition seeIdentities :: "string \<Rightarrow> int \<Rightarrow> seen_identity list \<Rightarrow> member_db \<Rightarrow> bool \<times> member_db" where
  "seeIdentities conn now seen db = fold (see_identity conn now) seen (True, db)"

text \<open>A circle's member; the pairs known to exist are remembered per replica.\<close>

definition joinCircle ::
    "string \<Rightarrow> string \<Rightarrow> int \<Rightarrow> (string \<times> string) list \<Rightarrow> member_db \<Rightarrow> (string \<times> string) list \<times> member_db" where
  "joinCircle userId circle now joined db =
     (let subject = userTag userId
      in if (subject, circle) \<in> set joined then (joined, db)
         else if list_ex (\<lambda>r. mb_subject r = subject \<and> mb_object r = circle) (md_tuples db)
         then ((subject, circle) # joined, db)
         else ((subject, circle) # joined,
               member_bump (db\<lparr>md_tuples := md_tuples db @ [\<lparr>mb_subject = subject, mb_object = circle,
                 mb_connectionId = ''brain'', mb_source = ''brain'', mb_recordedAt = now, mb_revokedAt = None\<rparr>]\<rparr>)))"

section \<open>The walk over a source's principals\<close>

datatype principal_delta = GroupSeen string | MemberSeen string seen_identity

record collected =
  co_groups :: "string list"
  co_accounts :: "(string \<times> seen_identity) list"
  co_byAccount :: "(string \<times> string list) list"

definition MAX_GROUPS :: nat where "MAX_GROUPS = 500"
definition MAX_ACCOUNTS :: nat where "MAX_ACCOUNTS = 20000"

definition add_new :: "'a \<Rightarrow> 'a list \<Rightarrow> 'a list" where
  "add_new x xs = (if x \<in> set xs then xs else xs @ [x])"

fun collect :: "string \<Rightarrow> principal_delta \<Rightarrow> collected \<Rightarrow> collected" where
  "collect conn (GroupSeen g) c = c\<lparr>co_groups := add_new (teamTag conn g) (co_groups c)\<rparr>"
| "collect conn (MemberSeen g s) c =
     (let tag = teamTag conn g; tags = (case map_of (co_byAccount c) (si_externalId s) of None \<Rightarrow> [] | Some ts \<Rightarrow> ts)
      in \<lparr>co_groups = add_new tag (co_groups c),
          co_accounts = AList.update (si_externalId s) s (co_accounts c),
          co_byAccount = AList.update (si_externalId s) (add_new tag tags) (co_byAccount c)\<rparr>)"

text \<open>None: the source reports more than is mirrored.\<close>

fun collect_all :: "string \<Rightarrow> principal_delta list \<Rightarrow> collected \<Rightarrow> collected option" where
  "collect_all conn [] c = Some c"
| "collect_all conn (d # ds) c =
     (let c' = collect conn d c
      in if MAX_GROUPS < length (co_groups c') \<or> MAX_ACCOUNTS < length (co_accounts c') then None
         else collect_all conn ds c')"

text \<open>What the two loops assign, in order: the accounts the source reports, with their linked users, and
  then the identities it does not.\<close>

definition linked_user :: "identity_row list \<Rightarrow> string \<Rightarrow> string option" where
  "linked_user ids externalId =
     map_of (rev (map (\<lambda>i. (ei_externalId i, the (ei_userId i))) (filter (\<lambda>i. truthy_str (ei_userId i)) ids))) externalId"

definition walk_plan :: "string \<Rightarrow> (string \<times> string list) list \<Rightarrow> identity_row list \<Rightarrow> (string \<times> string list) list" where
  "walk_plan conn byAccount ids =
     concat (map (\<lambda>(e, tags). (accountSubject conn e, tags) #
         (case linked_user ids e of None \<Rightarrow> [] | Some u \<Rightarrow> [(userTag u, tags)])) byAccount) @
     concat (map (\<lambda>i. (accountSubject conn (ei_externalId i), []) #
         (if truthy_str (ei_userId i) then [(userTag (the (ei_userId i)), [])] else []))
       (filter (\<lambda>i. ei_externalId i \<notin> fst ` set byAccount) ids))"

record principals_summary =
  pr_groups :: nat
  pr_accounts :: nat
  pr_linked :: nat
  pr_changed :: bool
  pr_epoch :: nat

definition principals_sync :: "string \<Rightarrow> principal_delta list \<Rightarrow> int \<Rightarrow> member_db \<Rightarrow> principals_summary option \<times> member_db" where
  "principals_sync conn deltas now db =
     (case collect_all conn deltas \<lparr>co_groups = [], co_accounts = [], co_byAccount = []\<rparr> of
        None \<Rightarrow> (None, db)
      | Some c \<Rightarrow>
          (case seeIdentities conn now (map snd (co_accounts c)) db of
             (False, db1) \<Rightarrow> (None, db1)
           | (True, db1) \<Rightarrow>
               let ids = identities conn (md_identities db1);
                   (ok, changed, db2) = fold (assign conn ''connector'' now) (walk_plan conn (co_byAccount c) ids) (True, False, db1);
                   db3 = (if changed then member_bump db2 else db2)
               in if \<not> ok then (None, db2)
                  else (Some \<lparr>pr_groups = length (co_groups c), pr_accounts = length (co_accounts c),
                              pr_linked = card (ei_externalId ` set (filter (\<lambda>i. truthy_str (ei_userId i)) ids)),
                              pr_changed = changed, pr_epoch = md_epoch db3\<rparr>, db3)))"

section \<open>What the writes do\<close>

lemma own_settle [simp]: "own_tuple c s (settle_tuple conn subject groups now r) = own_tuple c s r"
  by (simp add: settle_tuple_def own_tuple_def)

lemma settle_other [simp]: "\<not> own_tuple conn subject r \<Longrightarrow> settle_tuple conn subject groups now r = r"
  by (simp add: settle_tuple_def)

lemma settle_object [simp]: "mb_object (settle_tuple conn subject groups now r) = mb_object r"
  by (simp add: settle_tuple_def)

lemma settle_live: "own_tuple conn subject r \<Longrightarrow> live (settle_tuple conn subject groups now r) \<longleftrightarrow> mb_object r \<in> set groups"
  by (simp add: settle_tuple_def live_def)

lemma create_tuples_ok:
  "create_tuples conn subject source now gs tb = (True, tb') \<Longrightarrow>
     tb' = tb @ map (\<lambda>g. \<lparr>mb_subject = subject, mb_object = g, mb_connectionId = conn, mb_source = source,
       mb_recordedAt = now, mb_revokedAt = None\<rparr>) gs"
proof (induction gs arbitrary: tb)
  case (Cons g gs)
  then have "create_tuples conn subject source now gs (tb @ [\<lparr>mb_subject = subject, mb_object = g, mb_connectionId = conn,
      mb_source = source, mb_recordedAt = now, mb_revokedAt = None\<rparr>]) = (True, tb')"
    by (simp split: if_splits)
  from Cons.IH [OF this] show ?case by simp
qed simp

lemma live_groups_append [simp]: "live_groups conn s (tb @ tb') = live_groups conn s tb \<union> live_groups conn s tb'"
  by (auto simp: live_groups_def)

lemma live_groups_new:
  "live_groups c s (map (\<lambda>g. \<lparr>mb_subject = subject, mb_object = g, mb_connectionId = conn, mb_source = source,
       mb_recordedAt = now, mb_revokedAt = None\<rparr>) gs) = (if c = conn \<and> s = subject then set gs else {})"
  by (induction gs) (auto simp: live_groups_def own_tuple_def live_def filter_empty_conv image_image)

lemma live_groups_settled:
  "live_groups conn subject (map (settle_tuple conn subject groups now) tb) =
     set groups \<inter> mb_object ` set (filter (own_tuple conn subject) tb)"
proof (induction tb)
  case (Cons r tb)
  then show ?case by (cases "own_tuple conn subject r") (auto simp: live_groups_def settle_live)
qed (simp add: live_groups_def)

lemma own_other: "(c, s) \<noteq> (conn, subject) \<Longrightarrow> own_tuple c s r \<Longrightarrow> \<not> own_tuple conn subject r"
  by (auto simp: own_tuple_def)

lemma live_groups_other:
  assumes "(c, s) \<noteq> (conn, subject)"
  shows "live_groups c s (map (settle_tuple conn subject groups now) tb) = live_groups c s tb"
proof -
  have "filter (\<lambda>r. own_tuple c s r \<and> live r) (map (settle_tuple conn subject groups now) tb) = filter (\<lambda>r. own_tuple c s r \<and> live r) tb"
    by (induction tb) (auto dest: own_other [OF assms])
  then show ?thesis by (simp add: live_groups_def)
qed

lemma setMemberships_exact:
  assumes "setMemberships conn subject groups source now tb = (Some changed, tb')"
  shows "live_groups conn subject tb' = set groups" "(c, s) \<noteq> (conn, subject) \<Longrightarrow> live_groups c s tb' = live_groups c s tb"
proof -
  have tb': "tb' = map (settle_tuple conn subject groups now) tb @ map (\<lambda>g. \<lparr>mb_subject = subject, mb_object = g,
      mb_connectionId = conn, mb_source = source, mb_recordedAt = now, mb_revokedAt = None\<rparr>) (missing_groups conn subject groups tb)"
    using assms by (auto simp: setMemberships_def Let_def split: prod.splits if_splits dest: create_tuples_ok)
  show "live_groups conn subject tb' = set groups"
    by (auto simp: tb' live_groups_settled live_groups_new missing_groups_def)
  show "live_groups c s tb' = live_groups c s tb" if "(c, s) \<noteq> (conn, subject)"
    using that by (auto simp: tb' live_groups_other live_groups_new)
qed

lemma setMemberships_idle:
  assumes "setMemberships conn subject groups source now tb = (Some False, tb')"
  shows "tb' = tb"
proof -
  have "settle_tuple conn subject groups now r = r" if "r \<in> set tb" for r
    using assms that unfolding setMemberships_def Let_def settle_tuple_def list_ex_iff by (auto split: prod.splits if_splits)
  then have "map (settle_tuple conn subject groups now) tb = tb" by (simp add: map_idI)
  moreover have "missing_groups conn subject groups tb = []"
    using assms by (auto simp: setMemberships_def Let_def split: prod.splits if_splits)
  ultimately show ?thesis using assms by (simp add: setMemberships_def Let_def split: if_splits)
qed

lemma assign_step:
  "assign conn source now (subject, groups) (True, ch, db) =
     (case setMemberships conn subject groups source now (md_tuples db) of
        (None, tb) \<Rightarrow> (False, ch, db\<lparr>md_tuples := tb\<rparr>)
      | (Some c, tb) \<Rightarrow> (True, ch \<or> c, db\<lparr>md_tuples := tb\<rparr>))"
  by (simp add: assign_def)

lemma assign_stops: "fold (assign conn source now) plan (False, ch, db) = (False, ch, db)"
  by (induction plan) (simp_all add: assign_def)

text \<open>What a completed plan leaves: a subject whose entries agree has their groups, any other has what it had.\<close>

lemma plan_result:
  assumes "fold (assign conn source now) plan (True, ch, db) = (True, ch', db')"
  shows "md_identities db' = md_identities db \<and> md_epoch db' = md_epoch db \<and> (\<not> ch' \<longrightarrow> md_tuples db' = md_tuples db \<and> \<not> ch) \<and>
    (\<forall>s gs. (s, gs) \<in> set plan \<longrightarrow> (\<forall>gs'. (s, gs') \<in> set plan \<longrightarrow> set gs' = set gs) \<longrightarrow> live_groups conn s (md_tuples db') = set gs) \<and>
    (\<forall>c s. (c = conn \<longrightarrow> s \<notin> fst ` set plan) \<longrightarrow> live_groups c s (md_tuples db') = live_groups c s (md_tuples db))"
  using assms
proof (induction plan arbitrary: ch db)
  case (Cons a plan)
  obtain s1 g1 where a: "a = (s1, g1)" by fastforce
  obtain r tb where m: "setMemberships conn s1 g1 source now (md_tuples db) = (r, tb)" by fastforce
  from Cons.prems(1) obtain c1 where r: "r = Some c1"
    by (cases r) (simp_all add: a m assign_step assign_stops)
  with Cons.prems(1) have rest: "fold (assign conn source now) plan (True, ch \<or> c1, db\<lparr>md_tuples := tb\<rparr>) = (True, ch', db')"
    by (simp add: a m assign_step)
  note m = m [unfolded r] and i = Cons.IH [OF rest]
  have frame: "md_identities db' = md_identities db \<and> md_epoch db' = md_epoch db \<and> (\<not> ch' \<longrightarrow> md_tuples db' = md_tuples db \<and> \<not> ch)"
  proof -
    have "md_identities db' = md_identities (db\<lparr>md_tuples := tb\<rparr>) \<and> md_epoch db' = md_epoch (db\<lparr>md_tuples := tb\<rparr>) \<and>
        (\<not> ch' \<longrightarrow> md_tuples db' = md_tuples (db\<lparr>md_tuples := tb\<rparr>) \<and> \<not> (ch \<or> c1))"
      using i by (elim conjE) (intro conjI)
    then have "md_identities db' = md_identities db \<and> md_epoch db' = md_epoch db \<and> (\<not> ch' \<longrightarrow> md_tuples db' = tb \<and> \<not> (ch \<or> c1))"
      by simp
    moreover have "tb = md_tuples db" if "\<not> c1" using setMemberships_idle m that by simp
    ultimately show ?thesis by auto
  qed
  have other: "live_groups c s (md_tuples db') = live_groups c s tb" if "c = conn \<longrightarrow> s \<notin> fst ` set plan" for c s
    using i [THEN conjunct2, THEN conjunct2, THEN conjunct2, THEN conjunct2, THEN spec, THEN spec, THEN mp, OF that]
    by simp
  note rest_mine = i [THEN conjunct2, THEN conjunct2, THEN conjunct2, THEN conjunct1, THEN spec, THEN spec, THEN mp, THEN mp]
  have mine: "live_groups conn s (md_tuples db') = set gs"
    if "(s, gs) \<in> set (a # plan)" "\<forall>gs'. (s, gs') \<in> set (a # plan) \<longrightarrow> set gs' = set gs" for s gs
  proof (cases "s \<in> fst ` set plan")
    case True
    then obtain g2 where g2: "(s, g2) \<in> set plan" by force
    with that(2) have "set g2 = set gs" by simp
    with rest_mine [OF g2] that(2) show ?thesis by simp
  next
    case False
    with that(1) have "s = s1" "gs = g1" by (force simp: a)+
    with False show ?thesis using other setMemberships_exact(1) [OF m] by simp
  qed
  have "live_groups c s (md_tuples db') = live_groups c s (md_tuples db)" if "c = conn \<longrightarrow> s \<notin> fst ` set (a # plan)" for c s
    using that other [of c s] setMemberships_exact(2) [OF m, of c s] by (auto simp: a)
  with frame mine show ?case by blast
qed simp

lemma plan_frame:
  assumes "fold (assign conn source now) plan (True, ch, db) = (True, ch', db')"
  shows "md_identities db' = md_identities db" "md_epoch db' = md_epoch db" "\<not> ch' \<Longrightarrow> md_tuples db' = md_tuples db"
  using plan_result [OF assms] by blast+

lemma plan_mine:
  assumes "fold (assign conn source now) plan (True, ch, db) = (True, ch', db')" "(s, gs) \<in> set plan"
    "\<And>gs'. (s, gs') \<in> set plan \<Longrightarrow> set gs' = set gs"
  shows "live_groups conn s (md_tuples db') = set gs"
  using plan_result [OF assms(1)] assms(2,3) by blast

lemma plan_other:
  assumes "fold (assign conn source now) plan (True, ch, db) = (True, ch', db')" "c = conn \<Longrightarrow> s \<notin> fst ` set plan"
  shows "live_groups c s (md_tuples db') = live_groups c s (md_tuples db)"
  using plan_result [OF assms(1)] assms(2) by blast

section \<open>What an expansion holds\<close>

definition member_edge :: "member_tuple list \<Rightarrow> string \<Rightarrow> string \<Rightarrow> bool" where
  "member_edge tb a b \<longleftrightarrow> group_tag_ok b \<and> (\<exists>r\<in>set tb. mb_subject r = a \<and> mb_object r = b \<and> live r)"

fun ball :: "member_tuple list \<Rightarrow> string \<Rightarrow> nat \<Rightarrow> string set" where
  "ball tb s 0 = {s}"
| "ball tb s (Suc n) = ball tb s n \<union> {b. \<exists>a\<in>ball tb s n. member_edge tb a b}"

lemma ex_le_Suc_shift: "(\<exists>k\<le>n. P k) \<or> (\<exists>k\<le>n. P (Suc k)) \<longleftrightarrow> (\<exists>k\<le>Suc n. P k)"
proof
  assume "(\<exists>k\<le>n. P k) \<or> (\<exists>k\<le>n. P (Suc k))"
  then show "\<exists>k\<le>Suc n. P k" using le_SucI Suc_le_mono by blast
next
  assume "\<exists>k\<le>Suc n. P k"
  then obtain k where "k \<le> Suc n" "P k" by blast
  then show "(\<exists>k\<le>n. P k) \<or> (\<exists>k\<le>n. P (Suc k))" by (cases k) auto
qed

lemma ball_relpow: "t \<in> ball tb s n \<longleftrightarrow> (\<exists>k\<le>n. (member_edge tb ^^ k) s t)"
proof (induction n arbitrary: t)
  case (Suc n)
  have step: "(\<exists>a. a \<in> ball tb s n \<and> member_edge tb a t) \<longleftrightarrow> (\<exists>k\<le>n. (member_edge tb ^^ Suc k) s t)"
    unfolding Suc relpowp.simps(2) relcompp_apply by blast
  have "t \<in> ball tb s (Suc n) \<longleftrightarrow> t \<in> ball tb s n \<or> (\<exists>a. a \<in> ball tb s n \<and> member_edge tb a t)" by auto
  then have "t \<in> ball tb s (Suc n) \<longleftrightarrow> (\<exists>k\<le>n. (member_edge tb ^^ k) s t) \<or> (\<exists>k\<le>n. (member_edge tb ^^ Suc k) s t)"
    unfolding step by (simp only: Suc)
  also have "\<dots> \<longleftrightarrow> (\<exists>k\<le>Suc n. (member_edge tb ^^ k) s t)"
    by (rule ex_le_Suc_shift)
  finally show ?case .
qed auto

lemma scan_level_complete:
  "scan_level held next gs = (False, held', next') \<Longrightarrow>
     set held' = set held \<union> {g \<in> set gs. group_tag_ok g} \<and>
     set next' = set next \<union> ({g \<in> set gs. group_tag_ok g} - set held)"
proof (induction held "next" gs rule: scan_level.induct)
  case (2 held "next" g gs)
  show ?case
  proof (cases "\<not> group_tag_ok g \<or> g \<in> set held")
    case True
    with 2 show ?thesis by auto
  next
    case False
    with 2 have "scan_level (held @ [g]) (next @ [g]) gs = (False, held', next')" by (simp split: if_splits)
    with False 2 have "set held' = set (held @ [g]) \<union> {g \<in> set gs. group_tag_ok g}"
      "set next' = set (next @ [g]) \<union> ({g \<in> set gs. group_tag_ok g} - set (held @ [g]))" by (auto split: if_splits)
    with False show ?thesis by auto
  qed
qed simp

lemma scan_level_bounded:
  "scan_level held next gs = (capped, held', next') \<Longrightarrow> distinct held \<Longrightarrow> length held \<le> MAX_TAGS \<Longrightarrow>
     distinct held' \<and> length held' \<le> MAX_TAGS \<and> (capped \<longrightarrow> MAX_TAGS \<le> length held')"
  by (induction held "next" gs rule: scan_level.induct) (simp_all split: if_splits)

lemma scan_level_capped: "scan_level held next gs = (True, held', next') \<Longrightarrow> MAX_TAGS \<le> length held'"
  by (induction held "next" gs rule: scan_level.induct) (simp_all split: if_splits)

lemma groups_of_edges: "{g \<in> set (groups_of tb F). group_tag_ok g} = {b. \<exists>a\<in>set F. member_edge tb a b}"
  by (auto simp: groups_of_def member_edge_def)

lemma expand_from_bounded:
  "distinct held \<Longrightarrow> length held \<le> MAX_TAGS \<Longrightarrow>
     distinct (expand_from reads left d held frontier) \<and> length (expand_from reads left d held frontier) \<le> MAX_TAGS"
proof (induction left arbitrary: d held frontier)
  case (Suc left)
  obtain capped held' next' where sc: "scan_level held [] (groups_of (reads d) frontier) = (capped, held', next')" by (metis prod_cases3)
  from scan_level_bounded [OF sc] Suc show ?case by (simp add: sc split: bool.split)
qed simp

lemma expand_from_ball:
  assumes "set held = ball tb s n" "\<And>a b. a \<in> set held \<Longrightarrow> a \<notin> set frontier \<Longrightarrow> member_edge tb a b \<Longrightarrow> b \<in> set held"
    "set frontier \<subseteq> set held" "length (expand_from (\<lambda>_. tb) left d held frontier) < MAX_TAGS"
  shows "set (expand_from (\<lambda>_. tb) left d held frontier) = ball tb s (n + left)"
  using assms
proof (induction left arbitrary: n d held frontier)
  case (Suc left)
  show ?case
  proof (cases "frontier = []")
    case True
    have "ball tb s (n + k) = ball tb s n" for k
      using Suc.prems(1,2) True by (induction k) auto
    with True Suc.prems(1) show ?thesis by (metis expand_from.simps(2))
  next
    case False
    obtain capped held' next' where sc: "scan_level held [] (groups_of tb frontier) = (capped, held', next')" by (metis prod_cases3)
    have nc: "\<not> capped" using Suc.prems(4) False scan_level_capped sc by (cases capped) fastforce+
    with sc have "scan_level held [] (groups_of tb frontier) = (False, held', next')" by simp
    note r = scan_level_complete [OF this, unfolded groups_of_edges]
    have held': "set held' = ball tb s (Suc n)"
      using r Suc.prems(1-3) by simp (blast intro: Suc.prems(2))
    have next': "set next' = set held' - set held" using r by auto
    have "set (expand_from (\<lambda>_. tb) left (Suc d) held' next') = ball tb s (Suc n + left)"
    proof (rule Suc.IH [OF held'])
      fix a b assume "a \<in> set held'" "a \<notin> set next'" "member_edge tb a b"
      then show "b \<in> set held'" using next' Suc.prems(1) held' by auto
    qed (use Suc.prems(4) False nc next' in \<open>auto simp: sc\<close>)
    then show ?thesis using False nc by (simp add: sc)
  qed
qed simp

lemma user_tag_held: "expand_from reads left d held frontier = ts \<Longrightarrow> set held \<subseteq> set ts"
proof (induction left arbitrary: d held frontier)
  case (Suc left)
  have grow: "set held \<subseteq> set held'" if "scan_level held next gs = (c, held', next')" for held "next" gs c held' next'
    using that by (induction held "next" gs rule: scan_level.induct) (auto split: if_splits)
  obtain capped held' next' where sc: "scan_level held [] (groups_of (reads d) frontier) = (capped, held', next')" by (metis prod_cases3)
  have "frontier \<noteq> [] \<Longrightarrow> \<not> capped \<Longrightarrow> set held' \<subseteq> set ts"
    using Suc.IH [of "Suc d" held' next'] Suc.prems by (simp add: sc)
  with Suc.prems grow [OF sc] show ?case by (auto simp: sc split: if_splits bool.splits)
qed simp

lemma expand_bounded: "distinct (expand reads userId) \<and> length (expand reads userId) \<le> 512"
  using expand_from_bounded [of "[userTag userId]" reads MAX_DEPTH 0] by (simp add: expand_def MAX_TAGS_def)

lemma expand_closure:
  assumes "length (expand (\<lambda>_. tb) userId) < 512"
  shows "set (expand (\<lambda>_. tb) userId) = {t. \<exists>n\<le>8. (member_edge tb ^^ n) (userTag userId) t}"
proof -
  have "set (expand (\<lambda>_. tb) userId) = ball tb (userTag userId) (0 + MAX_DEPTH)"
    unfolding expand_def by (rule expand_from_ball) (use assms in \<open>simp_all add: expand_def MAX_TAGS_def\<close>)
  then show ?thesis unfolding set_eq_iff mem_Collect_eq ball_relpow MAX_DEPTH_def add_0 .
qed

section \<open>What a walk leaves\<close>

text \<open>The groups a walk reports for an account.\<close>

definition reported :: "string \<Rightarrow> principal_delta list \<Rightarrow> string \<Rightarrow> string set" where
  "reported conn deltas e = {teamTag conn g |g. \<exists>s. MemberSeen g s \<in> set deltas \<and> si_externalId s = e}"

definition tags_of :: "collected \<Rightarrow> string \<Rightarrow> string set" where
  "tags_of c e = (case map_of (co_byAccount c) e of None \<Rightarrow> {} | Some ts \<Rightarrow> set ts)"

lemma set_add_new [simp]: "set (add_new x xs) = insert x (set xs)"
  by (auto simp: add_new_def)

lemma collect_all_fold: "collect_all conn ds c = Some c' \<Longrightarrow> c' = fold (collect conn) ds c"
  by (induction ds arbitrary: c) (auto simp: Let_def split: if_splits)

lemma reported_Cons:
  "reported conn (GroupSeen g # ds) e = reported conn ds e"
  "reported conn (MemberSeen g s # ds) e = (if si_externalId s = e then {teamTag conn g} else {}) \<union> reported conn ds e"
  by (auto simp: reported_def)

lemma collect_step:
  "tags_of (collect conn d c) e = tags_of c e \<union> reported conn [d] e"
  "distinct (map fst (co_byAccount c)) \<Longrightarrow> distinct (map fst (co_byAccount (collect conn d c)))"
proof -
  show "tags_of (collect conn d c) e = tags_of c e \<union> reported conn [d] e"
    by (cases d) (auto simp: tags_of_def Let_def update_conv reported_Cons reported_def split: option.splits)
  show "distinct (map fst (co_byAccount c)) \<Longrightarrow> distinct (map fst (co_byAccount (collect conn d c)))"
    by (cases d) (simp_all add: Let_def distinct_update)
qed

lemma collect_fold_tags: "tags_of (fold (collect conn) ds c) e = tags_of c e \<union> reported conn ds e"
proof (induction ds arbitrary: c)
  case (Cons d ds)
  have "reported conn (d # ds) e = reported conn [d] e \<union> reported conn ds e" by (auto simp: reported_def)
  with Cons show ?case by (simp add: collect_step(1) Un_assoc)
qed (simp add: reported_def)

lemma collect_fold_distinct:
  "distinct (map fst (co_byAccount c)) \<Longrightarrow> distinct (map fst (co_byAccount (fold (collect conn) ds c)))"
  by (induction ds arbitrary: c) (simp_all add: collect_step(2))

lemma linked_user_Some: "linked_user ids e = Some u \<Longrightarrow> \<exists>j\<in>set ids. ei_externalId j = e \<and> ei_userId j = Some u"
  by (auto simp: linked_user_def dest!: map_of_SomeD elim!: truthy_strE) (metis option.sel)

lemma linked_user_of:
  assumes "i \<in> set ids" "ei_userId i = Some u" "u \<noteq> []" "distinct (map ei_externalId ids)"
  shows "linked_user ids (ei_externalId i) = Some u"
proof -
  let ?l = "map (\<lambda>i. (ei_externalId i, the (ei_userId i))) (filter (\<lambda>i. truthy_str (ei_userId i)) ids)"
  have "map fst ?l = map ei_externalId (filter (\<lambda>i. truthy_str (ei_userId i)) ids)" by simp
  then have "distinct (map fst (rev ?l))"
    using assms(4) by (simp only: rev_map [symmetric] distinct_rev) (simp add: distinct_map_filter)
  moreover have "(ei_externalId i, u) \<in> set (rev ?l)" using assms(1-3) by force
  ultimately show ?thesis unfolding linked_user_def by (rule map_of_is_SomeI)
qed

lemma subjects_apart [simp]: "accountSubject c e \<noteq> userTag u" "userTag u \<noteq> accountSubject c e"
  "accountSubject c e = accountSubject c e' \<longleftrightarrow> e = e'"
  by (auto simp: accountSubject_def teamTag_def userTag_def TEAM_NAMESPACE_def USER_NAMESPACE_def)

lemma walk_plan_entry:
  "(s, gs) \<in> set (walk_plan conn byAccount ids) \<longleftrightarrow>
     (\<exists>e. (e, gs) \<in> set byAccount \<and> (s = accountSubject conn e \<or> (\<exists>u. linked_user ids e = Some u \<and> s = userTag u))) \<or>
     (gs = [] \<and> (\<exists>i\<in>set ids. ei_externalId i \<notin> fst ` set byAccount \<and>
        (s = accountSubject conn (ei_externalId i) \<or> truthy_str (ei_userId i) \<and> s = userTag (the (ei_userId i)))))"
proof -
  have first: "(s, gs) \<in> set (concat (map (\<lambda>(e, tags). (accountSubject conn e, tags) #
         (case linked_user ids e of None \<Rightarrow> [] | Some u \<Rightarrow> [(userTag u, tags)])) byAccount)) \<longleftrightarrow>
      (\<exists>e. (e, gs) \<in> set byAccount \<and> (s = accountSubject conn e \<or> (\<exists>u. linked_user ids e = Some u \<and> s = userTag u)))"
  proof -
    define f where "f = (\<lambda>(e, tags). (accountSubject conn e, tags) #
         (case linked_user ids e of None \<Rightarrow> [] | Some u \<Rightarrow> [(userTag u, tags)]) :: (string \<times> string list) list)"
    have "(s, gs) \<in> set (f x) \<longleftrightarrow> (\<exists>e. x = (e, gs) \<and> (s = accountSubject conn e \<or> (\<exists>u. linked_user ids e = Some u \<and> s = userTag u)))" for x
      by (cases x; cases "linked_user ids (fst x)") (auto simp: f_def)
    then show ?thesis unfolding f_def [symmetric] by auto
  qed
  have second: "(s, gs) \<in> set (concat (map (\<lambda>i. (accountSubject conn (ei_externalId i), []) #
         (if truthy_str (ei_userId i) then [(userTag (the (ei_userId i)), [])] else [])) xs)) \<longleftrightarrow>
      gs = [] \<and> (\<exists>i\<in>set xs. s = accountSubject conn (ei_externalId i) \<or> truthy_str (ei_userId i) \<and> s = userTag (the (ei_userId i)))" for xs
    by (induction xs) auto
  show ?thesis unfolding walk_plan_def set_append Un_iff first second by auto
qed

lemma tags_of_entry:
  assumes "distinct (map fst (co_byAccount c))"
  shows "(e, gs) \<in> set (co_byAccount c) \<Longrightarrow> set gs = tags_of c e" "e \<notin> fst ` set (co_byAccount c) \<Longrightarrow> tags_of c e = {}"
proof -
  show "(e, gs) \<in> set (co_byAccount c) \<Longrightarrow> set gs = tags_of c e"
    using map_of_is_SomeI [OF assms] by (auto simp: tags_of_def split: option.splits)
  show "e \<notin> fst ` set (co_byAccount c) \<Longrightarrow> tags_of c e = {}"
    by (simp add: tags_of_def map_of_eq_None_iff [symmetric])
qed

text \<open>Every entry for a user or an account of one identity carries what was reported of it.\<close>

lemma walk_plan_agrees:
  assumes "distinct (map fst (co_byAccount c))" "\<And>j. j \<in> set ids \<Longrightarrow> ei_userId j = Some u \<Longrightarrow> ei_externalId j = e"
    "(s, gs) \<in> set (walk_plan conn (co_byAccount c) ids)" "s = userTag u \<or> s = accountSubject conn e"
  shows "set gs = tags_of c e"
proof -
  note t = tags_of_entry [OF assms(1)]
  from assms(3) show ?thesis unfolding walk_plan_entry
  proof (elim disjE exE conjE bexE)
    fix e' assume h: "(e', gs) \<in> set (co_byAccount c)" "s = accountSubject conn e'"
    with assms(4) t(1) show ?thesis by auto
  next
    fix e' v assume h: "(e', gs) \<in> set (co_byAccount c)" "linked_user ids e' = Some v" "s = userTag v"
    with assms(4) have "v = u" by (auto simp: userTag_inject)
    with linked_user_Some [OF h(2)] assms(2) have "e' = e" by auto
    with h(1) t(1) show ?thesis by simp
  next
    fix i assume h: "gs = []" "i \<in> set ids" "ei_externalId i \<notin> fst ` set (co_byAccount c)" "s = accountSubject conn (ei_externalId i)"
    with assms(4) have "ei_externalId i = e" by auto
    with h t(2) show ?thesis by simp
  next
    fix i assume h: "gs = []" "i \<in> set ids" "ei_externalId i \<notin> fst ` set (co_byAccount c)" "truthy_str (ei_userId i)" "s = userTag (the (ei_userId i))"
    with assms(4) have "ei_userId i = Some u" by (auto simp: userTag_inject elim!: truthy_strE)
    with h assms(2) t(2) show ?thesis by simp
  qed
qed

lemma walk_plan_covers:
  assumes "i \<in> set ids" "ei_userId i = Some u" "u \<noteq> []" "distinct (map ei_externalId ids)" "s = userTag u \<or> s = accountSubject conn (ei_externalId i)"
  shows "\<exists>gs. (s, gs) \<in> set (walk_plan conn byAccount ids)"
proof (cases "ei_externalId i \<in> fst ` set byAccount")
  case True
  then obtain gs where "(ei_externalId i, gs) \<in> set byAccount" by force
  with linked_user_of [OF assms(1-4)] assms(5) show ?thesis unfolding walk_plan_entry by blast
next
  case False
  then have "(s, []) \<in> set (walk_plan conn byAccount ids)" unfolding walk_plan_entry using assms by force
  then show ?thesis by blast
qed

section \<open>Which writes move the epoch\<close>

text \<open>What an operation of one connection keeps: the tuples of the others, and the epoch unless the tuples moved.\<close>

definition steps_to :: "string \<Rightarrow> member_db \<Rightarrow> member_db \<Rightarrow> bool" where
  "steps_to conn db db' \<longleftrightarrow> md_epoch db \<le> md_epoch db' \<and> (md_tuples db' \<noteq> md_tuples db \<longrightarrow> md_epoch db < md_epoch db') \<and>
     (\<forall>c s. c \<noteq> conn \<longrightarrow> live_groups c s (md_tuples db') = live_groups c s (md_tuples db))"

lemma steps_to_refl: "md_tuples db' = md_tuples db \<Longrightarrow> md_epoch db' = md_epoch db \<Longrightarrow> steps_to conn db db'"
  by (simp add: steps_to_def)

lemma steps_to_trans: "steps_to conn a b \<Longrightarrow> steps_to conn b c \<Longrightarrow> steps_to conn a c"
  unfolding steps_to_def by (metis dual_order.trans le_less_trans less_le_trans)

lemma plan_bumped:
  assumes "fold (assign conn source now) plan (True, ch, db) = (True, ch', db')"
  shows "steps_to conn db (member_bump db')" "\<not> ch' \<Longrightarrow> steps_to conn db db'"
  using plan_frame [OF assms] plan_other [OF assms] by (simp_all add: steps_to_def member_bump_def)

lemma link_steps: "link conn e userId by now db = (True, db') \<Longrightarrow> steps_to conn db db'"
proof -
  assume l: "link conn e userId by now db = (True, db')"
  define db1 where "db1 = db\<lparr>md_identities := map (link_row conn e userId by) (md_identities db)\<rparr>"
  define plan where "plan = (if truthy_str (subjectOf conn e db) \<and> subjectOf conn e db \<noteq> userId then [(userTag (the (subjectOf conn e db)), [])] else []) @
    (if truthy_str userId then [(userTag (the userId), groupsOfIdentity conn e db1)] else [])"
  obtain ok ch db2 where f: "fold (assign conn ''operator'' now) plan (True, False, db1) = (ok, ch, db2)" by (metis prod_cases3)
  from l have "ok" "db' = member_bump db2"
    unfolding link_def Let_def db1_def [symmetric] plan_def [symmetric] f by (auto split: if_splits)
  with plan_bumped(1) [OF f [unfolded eqTrueI [OF \<open>ok\<close>]]] have "steps_to conn db1 db'" by simp
  moreover have "steps_to conn db db1" by (simp add: db1_def steps_to_refl)
  ultimately show ?thesis by (metis steps_to_trans)
qed

lemma see_identity_steps: "see_identity conn now x (True, db) = (True, db') \<Longrightarrow> steps_to conn db db'"
proof -
  assume s: "see_identity conn now x (True, db) = (True, db')"
  define db1 where "db1 = db\<lparr>md_identities := record_seen conn x (md_identities db)\<rparr>"
  have "steps_to conn db db1" by (simp add: db1_def steps_to_refl)
  moreover have "steps_to conn db1 db'"
    using s by (auto simp: see_identity_def linkByEmail_def db1_def [symmetric] split: if_splits option.splits
        intro: steps_to_refl link_steps)
  ultimately show ?thesis by (rule steps_to_trans)
qed

lemma seeIdentities_steps: "seeIdentities conn now seen db = (True, db') \<Longrightarrow> steps_to conn db db'"
proof (unfold seeIdentities_def, induction seen arbitrary: db)
  case (Cons x seen)
  obtain ok db1 where x: "see_identity conn now x (True, db) = (ok, db1)" by fastforce
  have "fold (see_identity conn now) seen (False, db1) = (False, db1)" by (induction seen) (simp_all add: see_identity_def)
  with Cons x show ?case by (cases ok) (auto intro: steps_to_trans see_identity_steps)
qed (simp add: steps_to_refl)

text \<open>A completed walk, in its parts.\<close>

lemma principals_sync_parts:
  assumes "principals_sync conn deltas now db = (Some summary, db')"
  obtains c db1 ch db2 where
    "distinct (map fst (co_byAccount c))" "tags_of c = reported conn deltas"
    "seeIdentities conn now (map snd (co_accounts c)) db = (True, db1)"
    "fold (assign conn ''connector'' now) (walk_plan conn (co_byAccount c) (identities conn (md_identities db1))) (True, False, db1) = (True, ch, db2)"
    "db' = (if ch then member_bump db2 else db2)" "pr_changed summary = ch" "pr_epoch summary = md_epoch db'"
proof -
  let ?c0 = "\<lparr>co_groups = [], co_accounts = [], co_byAccount = []\<rparr>"
  obtain c where c: "collect_all conn deltas ?c0 = Some c"
    using assms by (auto simp: principals_sync_def split: option.splits)
  obtain b db1 where see: "seeIdentities conn now (map snd (co_accounts c)) db = (b, db1)" by fastforce
  obtain ok ch db2 where f: "fold (assign conn ''connector'' now) (walk_plan conn (co_byAccount c) (identities conn (md_identities db1))) (True, False, db1) = (ok, ch, db2)"
    by (metis prod_cases3)
  have b: b using assms by (cases b) (simp_all add: principals_sync_def c see)
  have ok: ok using assms b by (cases ok) (simp_all add: principals_sync_def c see f Let_def)
  have last: "db' = (if ch then member_bump db2 else db2)" "pr_changed summary = ch" "pr_epoch summary = md_epoch db'"
    using assms b ok by (auto simp: principals_sync_def c see f Let_def)
  have cf: "c = fold (collect conn) deltas ?c0" by (rule collect_all_fold [OF c])
  show thesis
  proof (rule that [OF _ _ see [unfolded eqTrueI [OF b]] f [unfolded eqTrueI [OF ok]] last])
    show "distinct (map fst (co_byAccount c))" unfolding cf by (rule collect_fold_distinct) simp
    show "tags_of c = reported conn deltas" unfolding cf fun_eq_iff collect_fold_tags by (simp add: tags_of_def)
  qed
qed

lemma member_bump_simps [simp]: "md_tuples (member_bump db) = md_tuples db" "md_identities (member_bump db) = md_identities db"
  by (simp_all add: member_bump_def)

lemma walk_moves_epoch:
  assumes "principals_sync conn deltas now db = (Some summary, db')"
  shows "md_epoch db \<le> md_epoch db' \<and> (md_tuples db' \<noteq> md_tuples db \<longrightarrow> md_epoch db < md_epoch db') \<and>
    (\<forall>c s. c \<noteq> conn \<longrightarrow> live_groups c s (md_tuples db') = live_groups c s (md_tuples db))"
proof -
  obtain c db1 ch db2 where p: "distinct (map fst (co_byAccount c))" "tags_of c = reported conn deltas"
      "seeIdentities conn now (map snd (co_accounts c)) db = (True, db1)"
      "fold (assign conn ''connector'' now) (walk_plan conn (co_byAccount c) (identities conn (md_identities db1))) (True, False, db1) = (True, ch, db2)"
      "db' = (if ch then member_bump db2 else db2)" "pr_changed summary = ch" "pr_epoch summary = md_epoch db'"
    using assms(1) by (rule principals_sync_parts)
  have "steps_to conn db1 db'" using plan_bumped [OF p(4)] p(5) by simp
  with seeIdentities_steps [OF p(3)] have "steps_to conn db db'" by (rule steps_to_trans)
  then show ?thesis unfolding steps_to_def .
qed

section \<open>Concrete walks\<close>

definition plain_seen :: "string \<Rightarrow> string option \<Rightarrow> seen_identity" where
  "plain_seen e email = \<lparr>si_externalId = e, si_handle = None, si_displayName = None, si_email = email\<rparr>"

definition ident :: "string \<Rightarrow> string \<Rightarrow> string option \<Rightarrow> string option \<Rightarrow> string option \<Rightarrow> identity_row" where
  "ident conn e email userId by = \<lparr>ei_connectionId = conn, ei_externalId = e, ei_handle = None, ei_displayName = None,
     ei_email = email, ei_userId = userId, ei_linkedBy = by\<rparr>"

definition tuple_of :: "string \<Rightarrow> string \<Rightarrow> string \<Rightarrow> string \<Rightarrow> int \<Rightarrow> int option \<Rightarrow> member_tuple" where
  "tuple_of conn source subject tag since gone = \<lparr>mb_subject = subject, mb_object = tag, mb_connectionId = conn,
     mb_source = source, mb_recordedAt = since, mb_revokedAt = gone\<rparr>"

lemmas walk_eval = principals_sync_def collect_all.simps collect.simps add_new_def MAX_GROUPS_def MAX_ACCOUNTS_def
  seeIdentities_def see_identity_def linkByEmail_def link_def record_seen_def of_pair_def identities_def

text \<open>The user \<open>u\<close> is linked to two accounts of one connection: the second one's groups replace the first's.\<close>

definition two_accounts :: member_db where
  "two_accounts = \<lparr>md_tuples = [], md_identities = [ident ''c'' ''1'' None (Some ''u'') (Some ''operator''),
     ident ''c'' ''2'' None (Some ''u'') (Some ''operator'')], md_epoch = 0\<rparr>"

lemma second_account_replaces_first:
  "live_groups ''c'' (userTag ''u'') (md_tuples (snd (principals_sync ''c''
      [MemberSeen ''dev'' (plain_seen ''1'' None), MemberSeen ''ops'' (plain_seen ''2'' None)] 5 two_accounts))) =
    {teamTag ''c'' ''ops''}"
  by code_simp

text \<open>An operator unlinks the account; the next walk links it again by its address.\<close>

definition same_address :: member_db where
  "same_address = \<lparr>md_tuples = [], md_identities = [ident ''a'' ''1'' (Some ''m@x'') (Some ''u'') (Some ''operator''),
     ident ''c'' ''2'' (Some ''m@x'') (Some ''u'') (Some ''email'')], md_epoch = 3\<rparr>"

lemma unlink_undone_by_walk:
  "subjectOf ''c'' ''2'' (snd (link ''c'' ''2'' None ''operator'' 4 same_address)) = None"
  "subjectOf ''c'' ''2'' (snd (principals_sync ''c'' [MemberSeen ''dev'' (plain_seen ''2'' (Some ''m@x''))] 5
      (snd (link ''c'' ''2'' None ''operator'' 4 same_address)))) = Some ''u''"
  by code_simp+

text \<open>A walk refused midway has changed tuples and not moved the epoch: the unique index on subject and
  object has no connection in it, and the tail of a connection's id names the tag.\<close>

definition shared_tail :: member_db where
  "shared_tail = \<lparr>md_tuples = [tuple_of ''y:c'' ''connector'' (teamTag ''c'' ''account/2'') (teamTag ''c'' ''ops'') 1 None,
       tuple_of ''x:c'' ''connector'' (teamTag ''c'' ''account/1'') (teamTag ''c'' ''dev'') 1 None],
     md_identities = [ident ''x:c'' ''1'' None None None], md_epoch = 3\<rparr>"

lemma refused_walk_keeps_epoch:
  "fst (principals_sync ''x:c'' [MemberSeen ''ops'' (plain_seen ''1'' None), MemberSeen ''ops'' (plain_seen ''2'' None)] 5 shared_tail) = None"
  "live_groups ''x:c'' (teamTag ''c'' ''account/1'') (md_tuples (snd (principals_sync ''x:c''
      [MemberSeen ''ops'' (plain_seen ''1'' None), MemberSeen ''ops'' (plain_seen ''2'' None)] 5 shared_tail))) = {teamTag ''c'' ''ops''}"
  "md_epoch (snd (principals_sync ''x:c'' [MemberSeen ''ops'' (plain_seen ''1'' None), MemberSeen ''ops'' (plain_seen ''2'' None)] 5 shared_tail)) = 3"
  by code_simp+

text \<open>A person whose circle membership was revoked does not get it back by joining again.\<close>

lemma rejoin_keeps_revoked:
  "live_groups ''brain'' (userTag ''u'') (md_tuples (snd (joinCircle ''u'' ''circle:k'' 9 []
      \<lparr>md_tuples = [tuple_of ''brain'' ''brain'' (userTag ''u'') ''circle:k'' 1 (Some 5)], md_identities = [], md_epoch = 3\<rparr>))) = {}"
  by code_simp

text \<open>An account beyond the first thousand of its connection: unlinking it takes nothing from its user.\<close>

lemma unlink_beyond_limit:
  assumes "link conn e None by now db = (True, db')" "e \<notin> ei_externalId ` set (identities conn (md_identities db))"
  shows "md_tuples db' = md_tuples db"
proof -
  have "subjectOf conn e db = None"
    using assms(2) by (auto simp: subjectOf_def find_Some_iff split: option.split)
  with assms(1) show ?thesis by (auto simp: link_def Let_def split: if_splits)
qed

section \<open>The mirror\<close>

text \<open>C38: After a walk that ran to its end, a user who among the identities of the connection that the
  engine lists (at most a thousand) is linked to just one account is a live member of exactly the groups the source reported for the account, of none when it
  reported none; so is the account itself.\<close>

theorem walk_mirrors_source:
  assumes "principals_sync conn deltas now db = (Some summary, db')"
    "distinct (map ei_externalId (identities conn (md_identities db')))"
    "i \<in> set (identities conn (md_identities db'))" "ei_userId i = Some u" "u \<noteq> []"
    "\<And>j. j \<in> set (identities conn (md_identities db')) \<Longrightarrow> ei_userId j = Some u \<Longrightarrow> ei_externalId j = ei_externalId i"
  shows "live_groups conn (userTag u) (md_tuples db') = reported conn deltas (ei_externalId i) \<and>
    live_groups conn (accountSubject conn (ei_externalId i)) (md_tuples db') = reported conn deltas (ei_externalId i)"
proof -
  obtain c db1 ch db2 where p: "distinct (map fst (co_byAccount c))" "tags_of c = reported conn deltas"
      "seeIdentities conn now (map snd (co_accounts c)) db = (True, db1)"
      "fold (assign conn ''connector'' now) (walk_plan conn (co_byAccount c) (identities conn (md_identities db1))) (True, False, db1) = (True, ch, db2)"
      "db' = (if ch then member_bump db2 else db2)" "pr_changed summary = ch" "pr_epoch summary = md_epoch db'"
    using assms(1) by (rule principals_sync_parts)
  have same: "md_identities db' = md_identities db1" "md_tuples db' = md_tuples db2" using plan_frame(1) [OF p(4)] p(5) by simp_all
  have "live_groups conn s (md_tuples db2) = reported conn deltas (ei_externalId i)"
    if s: "s = userTag u \<or> s = accountSubject conn (ei_externalId i)" for s
  proof -
    obtain gs where gs: "(s, gs) \<in> set (walk_plan conn (co_byAccount c) (identities conn (md_identities db1)))"
      using walk_plan_covers assms(2-5) s unfolding same by blast
    have agree: "set gs' = reported conn deltas (ei_externalId i)"
      if "(s, gs') \<in> set (walk_plan conn (co_byAccount c) (identities conn (md_identities db1)))" for gs'
      using walk_plan_agrees [OF p(1) assms(6) [unfolded same] that s] p(2) by simp
    show ?thesis using plan_mine [OF p(4) gs] agree gs by simp
  qed
  then show ?thesis unfolding same by blast
qed

definition walk_demo :: member_db where
  "walk_demo = \<lparr>md_tuples = [tuple_of ''c'' ''connector'' (userTag ''u'') (teamTag ''c'' ''old'') 1 None,
       tuple_of ''c'' ''connector'' (userTag ''v'') (teamTag ''c'' ''ops'') 1 None],
     md_identities = [ident ''c'' ''1'' None (Some ''u'') (Some ''operator''), ident ''c'' ''2'' None (Some ''v'') (Some ''operator'')],
     md_epoch = 3\<rparr>"

definition walk_demo_run :: "principals_summary option \<times> member_db" where
  "walk_demo_run = principals_sync ''c'' [MemberSeen ''dev'' (plain_seen ''1'' None), GroupSeen ''ops''] 5 walk_demo"

theorem walk_mirrors_source_witness:
  "live_groups ''c'' (userTag ''u'') (md_tuples (snd walk_demo_run)) = reported ''c'' [MemberSeen ''dev'' (plain_seen ''1'' None), GroupSeen ''ops''] ''1'' \<and>
   live_groups ''c'' (userTag ''v'') (md_tuples (snd walk_demo_run)) = reported ''c'' [MemberSeen ''dev'' (plain_seen ''1'' None), GroupSeen ''ops''] ''2''"
proof -
  let ?D = "[MemberSeen ''dev'' (plain_seen ''1'' None), GroupSeen ''ops'']"
  let ?ids = "identities ''c'' (md_identities (snd walk_demo_run))"
  have ids: "?ids = [ident ''c'' ''1'' None (Some ''u'') (Some ''operator''), ident ''c'' ''2'' None (Some ''v'') (Some ''operator'')]" by code_simp
  have "fst walk_demo_run \<noteq> None" by code_simp
  then have run: "principals_sync ''c'' ?D 5 walk_demo = (Some (the (fst walk_demo_run)), snd walk_demo_run)"
    by (simp add: walk_demo_run_def [symmetric] prod_eq_iff)
  have ext: "distinct (map ei_externalId ?ids)" by (simp add: ids ident_def)
  have u: "ident ''c'' ''1'' None (Some ''u'') (Some ''operator'') \<in> set ?ids" "ident ''c'' ''2'' None (Some ''v'') (Some ''operator'') \<in> set ?ids"
    by (simp_all add: ids)
  have one: "j \<in> set ?ids \<Longrightarrow> ei_userId j = Some ''u'' \<Longrightarrow> ei_externalId j = ei_externalId (ident ''c'' ''1'' None (Some ''u'') (Some ''operator''))"
    "j \<in> set ?ids \<Longrightarrow> ei_userId j = Some ''v'' \<Longrightarrow> ei_externalId j = ei_externalId (ident ''c'' ''2'' None (Some ''v'') (Some ''operator''))" for j
    by (auto simp: ids ident_def)
  show ?thesis
    using walk_mirrors_source [OF run ext u(1) _ _ one(1)] walk_mirrors_source [OF run ext u(2) _ _ one(2)]
    by (simp add: ident_def)
qed

end
