(* ===== verification/MembershipCache.thy ===== *)
theory MembershipCache imports Membership begin

text \<open>
  The cache of expansions of one tenant on one replica (\<open>tagsFor\<close> and \<open>bump\<close> of
  \<open>src/auth/membership.service.ts\<close>), between the awaits of its calls: any number of calls are open, any
  writer changes the tuples, any replica moves the epoch.  The buckets are a heap, because a call keeps the one it
  saw while others replace it.  \<open>tw_past\<close> records the tables the tenant had and the epoch then; it is read by no
  operation.
\<close>

section \<open>The steps of the calls\<close>

record tags_bucket =
  bk_epoch :: nat
  bk_byUser :: "string \<Rightarrow> string list option"

datatype tags_call =
    EpochKnown string nat
  | Expanding string nat "nat option" nat "string list" "string list"

record tags_world =
  tw_tuples :: "member_tuple list"
  tw_epoch :: nat
  tw_buckets :: "tags_bucket list"
  tw_cache :: "nat option"
  tw_calls :: "nat \<Rightarrow> tags_call option"
  tw_past :: "(nat \<times> member_tuple list) list"

datatype tags_action = TuplesWritten "member_tuple list" | EpochMoved | CacheDropped | CallStarts nat string | CallProceeds nat

definition remember :: "tags_world \<Rightarrow> tags_world" where
  "remember w = w\<lparr>tw_past := (tw_epoch w, tw_tuples w) # tw_past w\<rparr>"

definition bucket_hit :: "nat \<Rightarrow> tags_world \<Rightarrow> nat option" where
  "bucket_hit epoch w =
     (case tw_cache w of None \<Rightarrow> None | Some b \<Rightarrow> if bk_epoch (tw_buckets w ! b) = epoch then Some b else None)"

definition cached_tags :: "nat \<Rightarrow> string \<Rightarrow> tags_world \<Rightarrow> string list option" where
  "cached_tags epoch userId w =
     (case bucket_hit epoch w of None \<Rightarrow> None | Some b \<Rightarrow> bk_byUser (tw_buckets w ! b) userId)"

definition store_tags :: "nat option \<Rightarrow> nat \<Rightarrow> string \<Rightarrow> string list \<Rightarrow> tags_world \<Rightarrow> tags_world" where
  "store_tags hit epoch userId tags w =
     (case hit of
        Some b \<Rightarrow> w\<lparr>tw_buckets := (tw_buckets w)[b := (tw_buckets w ! b)\<lparr>bk_byUser := (bk_byUser (tw_buckets w ! b))(userId \<mapsto> tags)\<rparr>],
                  tw_cache := Some b\<rparr>
      | None \<Rightarrow> w\<lparr>tw_buckets := tw_buckets w @ [\<lparr>bk_epoch = epoch, bk_byUser = [userId \<mapsto> tags]\<rparr>],
                  tw_cache := Some (length (tw_buckets w))\<rparr>)"

text \<open>What a call does between two awaits, and the tags it answers when it ends; a call that hit the cap has
  nothing left to read.\<close>

definition call_step :: "nat \<Rightarrow> tags_call \<Rightarrow> tags_world \<Rightarrow> (string \<times> nat \<times> string list) option \<times> tags_world" where
  "call_step k c w =
     (case c of
        EpochKnown userId epoch \<Rightarrow>
          (case cached_tags epoch userId w of
             Some tags \<Rightarrow> (Some (userId, epoch, tags), w\<lparr>tw_calls := (tw_calls w)(k := None)\<rparr>)
           | None \<Rightarrow> (None, w\<lparr>tw_calls := (tw_calls w)(k \<mapsto>
               Expanding userId epoch (bucket_hit epoch w) 0 [userTag userId] [userTag userId])\<rparr>))
      | Expanding userId epoch hit depth held frontier \<Rightarrow>
          if depth < MAX_DEPTH \<and> frontier \<noteq> []
          then (let (capped, held', new) = scan_level held [] (groups_of (tw_tuples w) frontier)
                in (None, w\<lparr>tw_calls := (tw_calls w)(k \<mapsto>
                     Expanding userId epoch hit (Suc depth) held' (if capped then [] else new))\<rparr>))
          else (Some (userId, epoch, held), store_tags hit epoch userId held (w\<lparr>tw_calls := (tw_calls w)(k := None)\<rparr>)))"

fun tags_move :: "tags_action \<Rightarrow> tags_world \<Rightarrow> (string \<times> nat \<times> string list) option \<times> tags_world" where
  "tags_move (TuplesWritten tb) w = (None, remember (w\<lparr>tw_tuples := tb\<rparr>))"
| "tags_move EpochMoved w = (None, remember (w\<lparr>tw_epoch := Suc (tw_epoch w)\<rparr>))"
| "tags_move CacheDropped w = (None, w\<lparr>tw_cache := None\<rparr>)"
| "tags_move (CallStarts k userId) w =
     (if tw_calls w k = None then (None, w\<lparr>tw_calls := (tw_calls w)(k \<mapsto> EpochKnown userId (tw_epoch w))\<rparr>) else (None, w))"
| "tags_move (CallProceeds k) w = (case tw_calls w k of None \<Rightarrow> (None, w) | Some c \<Rightarrow> call_step k c w)"

definition tags_run :: "tags_action list \<Rightarrow> tags_world \<Rightarrow> tags_world" where
  "tags_run actions w = fold (\<lambda>a w. snd (tags_move a w)) actions w"

definition tags_start :: "nat \<Rightarrow> member_tuple list \<Rightarrow> tags_world" where
  "tags_start epoch tb = \<lparr>tw_tuples = tb, tw_epoch = epoch, tw_buckets = [], tw_cache = None, tw_calls = Map.empty,
     tw_past = [(epoch, tb)]\<rparr>"

section \<open>What the cache holds\<close>

text \<open>Tables read no earlier than the epoch.\<close>

definition reads_since :: "nat \<Rightarrow> (nat \<times> member_tuple list) list \<Rightarrow> (nat \<Rightarrow> member_tuple list) \<Rightarrow> bool" where
  "reads_since epoch past reads \<longleftrightarrow> (\<forall>d. \<exists>e\<ge>epoch. (e, reads d) \<in> set past)"

definition fresh_tags :: "(nat \<times> member_tuple list) list \<Rightarrow> nat \<Rightarrow> string \<Rightarrow> string list \<Rightarrow> bool" where
  "fresh_tags past epoch userId tags \<longleftrightarrow> (\<exists>reads. reads_since epoch past reads \<and> tags = expand reads userId)"

definition partial_tags :: "(nat \<times> member_tuple list) list \<Rightarrow> nat \<Rightarrow> string \<Rightarrow> nat \<Rightarrow> string list \<Rightarrow> string list \<Rightarrow> bool" where
  "partial_tags past epoch userId depth held frontier \<longleftrightarrow>
     (\<exists>reads. reads_since epoch past reads \<and>
        (\<forall>reads'. (\<forall>d<depth. reads' d = reads d) \<longrightarrow>
           expand reads' userId = expand_from reads' (MAX_DEPTH - depth) depth held frontier))"

fun call_ok :: "tags_world \<Rightarrow> tags_call \<Rightarrow> bool" where
  "call_ok w (EpochKnown userId epoch) \<longleftrightarrow> epoch \<le> tw_epoch w"
| "call_ok w (Expanding userId epoch hit depth held frontier) \<longleftrightarrow> epoch \<le> tw_epoch w \<and>
     (\<forall>b. hit = Some b \<longrightarrow> b < length (tw_buckets w) \<and> bk_epoch (tw_buckets w ! b) = epoch) \<and>
     partial_tags (tw_past w) epoch userId depth held frontier"

definition bucket_ok :: "tags_world \<Rightarrow> tags_bucket \<Rightarrow> bool" where
  "bucket_ok w b \<longleftrightarrow> (\<forall>userId tags. bk_byUser b userId = Some tags \<longrightarrow> fresh_tags (tw_past w) (bk_epoch b) userId tags)"

definition cache_ok :: "tags_world \<Rightarrow> bool" where
  "cache_ok w \<longleftrightarrow> (tw_epoch w, tw_tuples w) \<in> set (tw_past w) \<and> (\<forall>b\<in>set (tw_buckets w). bucket_ok w b) \<and>
     (\<forall>b. tw_cache w = Some b \<longrightarrow> b < length (tw_buckets w)) \<and> (\<forall>k c. tw_calls w k = Some c \<longrightarrow> call_ok w c)"

lemma reads_since_mono: "reads_since e past reads \<Longrightarrow> set past \<subseteq> set past' \<Longrightarrow> reads_since e past' reads"
  by (meson reads_since_def subset_iff)

lemma fresh_tags_mono: "fresh_tags past e u tags \<Longrightarrow> set past \<subseteq> set past' \<Longrightarrow> fresh_tags past' e u tags"
  unfolding fresh_tags_def using reads_since_mono by blast

lemma partial_tags_mono: "partial_tags past e u d held f \<Longrightarrow> set past \<subseteq> set past' \<Longrightarrow> partial_tags past' e u d held f"
  unfolding partial_tags_def using reads_since_mono by (elim exE conjE) (intro exI conjI)

lemma partial_done:
  assumes "partial_tags past e u d held frontier" "\<not> (d < MAX_DEPTH \<and> frontier \<noteq> [])"
  shows "fresh_tags past e u held"
proof -
  obtain reads where r: "reads_since e past reads"
      "expand reads u = expand_from reads (MAX_DEPTH - d) d held frontier"
    using assms(1) unfolding partial_tags_def by blast
  have "expand_from reads (MAX_DEPTH - d) d held frontier = held"
    using assms(2) by (cases "MAX_DEPTH - d") auto
  with r show ?thesis by (auto simp: fresh_tags_def)
qed

lemma partial_start: "(e', tb) \<in> set past \<Longrightarrow> e \<le> e' \<Longrightarrow> partial_tags past e u 0 [userTag u] [userTag u]"
  by (auto simp: partial_tags_def reads_since_def expand_def intro!: exI [of _ "\<lambda>_. tb"])

lemma partial_level:
  assumes "partial_tags past e u d held frontier" "d < MAX_DEPTH" "frontier \<noteq> []" "(e', tb) \<in> set past" "e \<le> e'"
    "scan_level held [] (groups_of tb frontier) = (capped, held', new)"
  shows "partial_tags past e u (Suc d) held' (if capped then [] else new)"
proof -
  obtain reads where r: "reads_since e past reads"
      "\<And>reads'. (\<forall>i<d. reads' i = reads i) \<Longrightarrow> expand reads' u = expand_from reads' (MAX_DEPTH - d) d held frontier"
    using assms(1) unfolding partial_tags_def by blast
  have since: "reads_since e past (reads(d := tb))"
    using r(1) assms(4,5) by (auto simp: reads_since_def)
  have left: "MAX_DEPTH - d = Suc (MAX_DEPTH - Suc d)" using assms(2) by simp
  have "expand reads' u = expand_from reads' (MAX_DEPTH - Suc d) (Suc d) held' (if capped then [] else new)"
    if "\<forall>i<Suc d. reads' i = (reads(d := tb)) i" for reads'
  proof -
    have "reads' d = tb" "\<forall>i<d. reads' i = reads i" using that by (auto simp: less_Suc_eq)
    moreover have "expand_from reads' m i held' [] = held'" for m i by (cases m) simp_all
    ultimately show ?thesis using r(2) [of reads'] assms(3,6) by (cases capped) (simp_all add: left)
  qed
  with since show ?thesis unfolding partial_tags_def by blast
qed

lemma call_ok_mono:
  assumes "call_ok w c" "tw_epoch w \<le> tw_epoch w'" "set (tw_past w) \<subseteq> set (tw_past w')"
    "\<And>b. b < length (tw_buckets w) \<Longrightarrow> b < length (tw_buckets w') \<and> bk_epoch (tw_buckets w' ! b) = bk_epoch (tw_buckets w ! b)"
  shows "call_ok w' c"
  using assms(1,2,4) by (cases c) (auto intro: partial_tags_mono [OF _ assms(3)])

lemma bucket_ok_mono: "bucket_ok w b \<Longrightarrow> set (tw_past w) \<subseteq> set (tw_past w') \<Longrightarrow> bucket_ok w' b"
  unfolding bucket_ok_def using fresh_tags_mono by blast

lemma cache_ok_grow:
  assumes "cache_ok w" "tw_epoch w \<le> tw_epoch w'" "set (tw_past w) \<subseteq> set (tw_past w')" "(tw_epoch w', tw_tuples w') \<in> set (tw_past w')"
    "tw_buckets w' = tw_buckets w" "tw_cache w' = tw_cache w \<or> tw_cache w' = None" "tw_calls w' = tw_calls w"
  shows "cache_ok w'"
  using assms(1,4-7) call_ok_mono [OF _ assms(2,3)] bucket_ok_mono [OF _ assms(3)]
  unfolding cache_ok_def by (metis not_Some_eq)

lemma cache_ok_call:
  assumes "cache_ok w" "\<And>c. v = Some c \<Longrightarrow> call_ok w c"
  shows "cache_ok (w\<lparr>tw_calls := (tw_calls w)(k := v)\<rparr>)"
proof -
  have "call_ok (w\<lparr>tw_calls := f\<rparr>) c = call_ok w c" "bucket_ok (w\<lparr>tw_calls := f\<rparr>) b = bucket_ok w b" for f c b
    by (cases c) (simp_all add: bucket_ok_def)
  with assms show ?thesis by (simp add: cache_ok_def)
qed

lemma cache_ok_store:
  assumes "cache_ok w" "fresh_tags (tw_past w) e u tags"
    "\<And>b. hit = Some b \<Longrightarrow> b < length (tw_buckets w) \<and> bk_epoch (tw_buckets w ! b) = e"
  shows "cache_ok (store_tags hit e u tags w)"
proof -
  let ?w = "store_tags hit e u tags w"
  have same: "tw_epoch ?w = tw_epoch w" "tw_tuples ?w = tw_tuples w" "tw_past ?w = tw_past w" "tw_calls ?w = tw_calls w"
    by (simp_all add: store_tags_def split: option.split)
  have keep: "b < length (tw_buckets ?w) \<and> bk_epoch (tw_buckets ?w ! b) = bk_epoch (tw_buckets w ! b)" if "b < length (tw_buckets w)" for b
    using that assms(3) by (auto simp: store_tags_def nth_append nth_list_update split: option.split)
  have "bucket_ok w b" if "b \<in> set (tw_buckets ?w)" for b
  proof -
    have old: "\<And>b. b \<in> set (tw_buckets w) \<Longrightarrow> bucket_ok w b" using assms(1) by (simp add: cache_ok_def)
    show ?thesis
    proof (cases hit)
      case None
      with that have "b \<in> set (tw_buckets w) \<or> b = \<lparr>bk_epoch = e, bk_byUser = [u \<mapsto> tags]\<rparr>" by (auto simp: store_tags_def)
      with old assms(2) show ?thesis by (auto simp: bucket_ok_def split: if_splits)
    next
      case (Some n)
      note n = assms(3) [OF Some]
      from that Some have "b \<in> set (tw_buckets w) \<or> b = (tw_buckets w ! n)\<lparr>bk_byUser := (bk_byUser (tw_buckets w ! n))(u \<mapsto> tags)\<rparr>"
        by (auto simp: store_tags_def dest: set_update_subset_insert [THEN subsetD])
      moreover have "bucket_ok w (tw_buckets w ! n)" using n old by simp
      ultimately show ?thesis using old assms(2) n by (auto simp: bucket_ok_def split: if_splits)
    qed
  qed
  moreover have "\<And>b. bucket_ok ?w b = bucket_ok w b" by (simp add: bucket_ok_def same)
  moreover have "b < length (tw_buckets ?w)" if "tw_cache ?w = Some b" for b
    using that assms(3) by (auto simp: store_tags_def split: option.splits)
  moreover have "call_ok ?w c" if "tw_calls w k = Some c" for k c
  proof (rule call_ok_mono)
    show "call_ok w c" using that assms(1) unfolding cache_ok_def by blast
  qed (simp_all add: same keep)
  ultimately show ?thesis using assms(1) by (simp add: cache_ok_def same)
qed

lemma bucket_hit_ok: "cache_ok w \<Longrightarrow> bucket_hit e w = Some b \<Longrightarrow> b < length (tw_buckets w) \<and> bk_epoch (tw_buckets w ! b) = e"
  by (auto simp: bucket_hit_def cache_ok_def split: option.splits if_splits)

lemma call_step_ok:
  assumes "cache_ok w" "call_ok w c"
  shows "cache_ok (snd (call_step k c w))" "fst (call_step k c w) = Some (u, e, tags) \<Longrightarrow> fresh_tags (tw_past w) e u tags"
proof -
  have now: "(tw_epoch w, tw_tuples w) \<in> set (tw_past w)" using assms(1) by (simp add: cache_ok_def)
  have "cache_ok (snd (call_step k c w)) \<and> (fst (call_step k c w) = Some (u, e, tags) \<longrightarrow> fresh_tags (tw_past w) e u tags)"
  proof (cases c)
    case (EpochKnown v e')
    show ?thesis
    proof (cases "cached_tags e' v w")
      case None
      have c: "call_ok w (Expanding v e' (bucket_hit e' w) 0 [userTag v] [userTag v])"
        using assms(2) EpochKnown bucket_hit_ok [OF assms(1)] partial_start [OF now] by auto
      have "cache_ok (w\<lparr>tw_calls := (tw_calls w)(k \<mapsto> Expanding v e' (bucket_hit e' w) 0 [userTag v] [userTag v])\<rparr>)"
        using assms(1) by (rule cache_ok_call) (use c in \<open>simp only: option.inject\<close>)
      with None EpochKnown show ?thesis by (simp add: call_step_def)
    next
      case (Some ts)
      then obtain b where b: "bucket_hit e' w = Some b" "bk_byUser (tw_buckets w ! b) v = Some ts"
        by (auto simp: cached_tags_def split: option.splits)
      with bucket_hit_ok [OF assms(1)] assms(1) have "fresh_tags (tw_past w) e' v ts"
        by (force simp: cache_ok_def bucket_ok_def)
      moreover have "cache_ok (w\<lparr>tw_calls := (tw_calls w)(k := None)\<rparr>)" using assms(1) by (rule cache_ok_call) simp
      ultimately show ?thesis using Some EpochKnown by (auto simp: call_step_def)
    qed
  next
    case (Expanding v e' hit d held frontier)
    note ok = assms(2) [unfolded Expanding call_ok.simps]
    show ?thesis
    proof (cases "d < MAX_DEPTH \<and> frontier \<noteq> []")
      case True
      obtain capped held' new where sc: "scan_level held [] (groups_of (tw_tuples w) frontier) = (capped, held', new)" by (metis prod_cases3)
      have c: "call_ok w (Expanding v e' hit (Suc d) held' (if capped then [] else new))"
        using ok True partial_level [OF _ _ _ now _ sc] by simp
      have "cache_ok (w\<lparr>tw_calls := (tw_calls w)(k \<mapsto> Expanding v e' hit (Suc d) held' (if capped then [] else new))\<rparr>)"
        using assms(1) by (rule cache_ok_call) (use c in \<open>simp only: option.inject\<close>)
      with True Expanding sc show ?thesis by (simp add: call_step_def)
    next
      case False
      have fresh: "fresh_tags (tw_past w) e' v held" using ok False partial_done by blast
      have "cache_ok (w\<lparr>tw_calls := (tw_calls w)(k := None)\<rparr>)" using assms(1) by (rule cache_ok_call) simp
      then have "cache_ok (store_tags hit e' v held (w\<lparr>tw_calls := (tw_calls w)(k := None)\<rparr>))"
        by (rule cache_ok_store) (use fresh ok in simp_all)
      with False Expanding fresh show ?thesis by (auto simp: call_step_def)
    qed
  qed
  then show "cache_ok (snd (call_step k c w))" "fst (call_step k c w) = Some (u, e, tags) \<Longrightarrow> fresh_tags (tw_past w) e u tags" by blast+
qed

lemma tags_move_ok:
  assumes "cache_ok w"
  shows "cache_ok (snd (tags_move a w))"
proof (cases a)
  case (CallStarts k u)
  have "cache_ok (w\<lparr>tw_calls := (tw_calls w)(k \<mapsto> EpochKnown u (tw_epoch w))\<rparr>)"
    using assms by (rule cache_ok_call) auto
  with CallStarts assms show ?thesis by simp
next
  case (CallProceeds k)
  then show ?thesis using assms call_step_ok(1) [OF assms] by (simp add: cache_ok_def [of w] split: option.split)
next
  case (TuplesWritten tb)
  from assms show ?thesis unfolding TuplesWritten by (rule cache_ok_grow) (auto simp: remember_def)
next
  case EpochMoved
  from assms show ?thesis unfolding EpochMoved by (rule cache_ok_grow) (auto simp: remember_def)
next
  case CacheDropped
  from assms show ?thesis unfolding CacheDropped by (rule cache_ok_grow) (use assms in \<open>simp_all add: cache_ok_def\<close>)
qed

lemma tags_run_ok: "cache_ok (tags_run actions (tags_start e tb))"
proof -
  have "cache_ok w \<Longrightarrow> cache_ok (tags_run actions w)" for w
    unfolding tags_run_def by (induction actions arbitrary: w) (simp_all add: tags_move_ok)
  moreover have "cache_ok (tags_start e tb)" by (simp add: tags_start_def cache_ok_def)
  ultimately show ?thesis by blast
qed

lemma move_fresh:
  assumes "fst (tags_move a w) = Some (u, e, tags)" "cache_ok w"
  shows "fresh_tags (tw_past w) e u tags"
proof -
  from assms(1) obtain k c where c: "tw_calls w k = Some c" "fst (call_step k c w) = Some (u, e, tags)"
    by (cases a) (auto split: if_splits option.splits)
  with assms(2) have "call_ok w c" by (simp add: cache_ok_def)
  from call_step_ok(2) [OF assms(2) this c(2)] show ?thesis .
qed

lemmas answer_fresh = move_fresh [OF _ tags_run_ok]

lemma held_reached:
  assumes "t \<in> set (expand_from reads left d held frontier)"
  shows "t \<in> set held \<or> (\<exists>i a. member_edge (reads i) a t)"
  using assms
proof (induction left arbitrary: d held frontier)
  case (Suc left)
  have level: "t \<in> set held' \<Longrightarrow> t \<in> set held \<or> (group_tag_ok t \<and> t \<in> set gs)"
    if "scan_level held new gs = (c, held', new')" for held new gs c held' new'
    using that by (induction held new gs rule: scan_level.induct) (auto split: if_splits)
  obtain capped held' new where sc: "scan_level held [] (groups_of (reads d) frontier) = (capped, held', new)" by (metis prod_cases3)
  have "t \<in> set held \<or> t \<in> set held' \<or> (\<exists>i a. member_edge (reads i) a t)"
    using Suc.prems Suc.IH [of "Suc d" held' new] by (auto simp: sc split: if_splits bool.splits)
  moreover have "t \<in> set held' \<Longrightarrow> t \<in> set held \<or> (\<exists>a. member_edge (reads d) a t)"
    using level [OF sc] groups_of_edges [of "reads d" frontier] by auto
  ultimately show ?case by blast
qed simp

text \<open>C26: A group whose memberships were all revoked before the epoch moved to the one a call reads, and not
  granted since, is in no answer of that call, cached or not, whatever other calls and writers do in between.\<close>

theorem revoked_group_not_served:
  assumes "fst (tags_move a (tags_run actions (tags_start e0 tb0))) = Some (u, e, tags)"
    "\<And>e' tb s. (e', tb) \<in> set (tw_past (tags_run actions (tags_start e0 tb0))) \<Longrightarrow> e \<le> e' \<Longrightarrow> \<not> member_edge tb s g"
    "g \<noteq> userTag u"
  shows "g \<notin> set tags"
proof
  assume g: "g \<in> set tags"
  obtain reads where r: "reads_since e (tw_past (tags_run actions (tags_start e0 tb0))) reads" "tags = expand reads u"
    using answer_fresh [OF assms(1)] unfolding fresh_tags_def by blast
  from g have "g \<in> set [userTag u] \<or> (\<exists>i s. member_edge (reads i) s g)"
    unfolding r(2) expand_def by (rule held_reached)
  with assms(3) obtain i s where "member_edge (reads i) s g" by auto
  with r(1) assms(2) show False by (meson reads_since_def)
qed

text \<open>A call starts before the revocation and answers after it from what it read; the one that starts after
  the epoch moved reads the table again.\<close>

definition revocation_demo :: "tags_action list" where
  "revocation_demo = [CallStarts 0 ''u'', CallProceeds 0, CallProceeds 0,
     TuplesWritten [tuple_of ''c'' ''connector'' (userTag ''u'') (teamTag ''c'' ''dev'') 1 (Some 5)], EpochMoved,
     CallProceeds 0, CallProceeds 0, CallStarts 1 ''u'', CallProceeds 1, CallProceeds 1]"

definition revocation_world :: tags_world where
  "revocation_world = tags_run revocation_demo (tags_start 0 [tuple_of ''c'' ''connector'' (userTag ''u'') (teamTag ''c'' ''dev'') 1 None])"

theorem revoked_group_not_served_witness:
  "fst (tags_move (CallProceeds 1) revocation_world) = Some (''u'', 1, [userTag ''u'']) \<and> teamTag ''c'' ''dev'' \<notin> set [userTag ''u'']"
proof -
  have answer: "fst (tags_move (CallProceeds 1) revocation_world) = Some (''u'', 1, [userTag ''u''])" by code_simp
  have past: "tw_past revocation_world =
      [(1, [tuple_of ''c'' ''connector'' (userTag ''u'') (teamTag ''c'' ''dev'') 1 (Some 5)]),
       (0, [tuple_of ''c'' ''connector'' (userTag ''u'') (teamTag ''c'' ''dev'') 1 (Some 5)]),
       (0, [tuple_of ''c'' ''connector'' (userTag ''u'') (teamTag ''c'' ''dev'') 1 None])]" by code_simp
  have "teamTag ''c'' ''dev'' \<notin> set [userTag ''u'']"
  proof (rule revoked_group_not_served [OF answer [unfolded revocation_world_def]])
    show "\<not> member_edge tb s (teamTag ''c'' ''dev'')"
      if "(e', tb) \<in> set (tw_past (tags_run revocation_demo (tags_start 0 [tuple_of ''c'' ''connector'' (userTag ''u'') (teamTag ''c'' ''dev'') 1 None])))" "1 \<le> e'" for e' tb s
      using that unfolding revocation_world_def [symmetric] past by (auto simp: member_edge_def live_def tuple_of_def)
    show "teamTag ''c'' ''dev'' \<noteq> userTag ''u''" by code_simp
  qed
  with answer show ?thesis by blast
qed

end
