(* ===== verification/Spec2Isabelle.thy ===== *)
theory Spec2Isabelle
  imports LruCache EnvFlag ActionRegistry PolicyTypes PolicyCompile PolicyEngine DbFence RowFilter SourceMeta
    PolicyStore PolicyResolver MetaUnion PolicySimulation JobQueue LeaderLease BatchOutcome JobDispatch
    WorkerPoller JobWorkerPool CircuitBreaker TenantBudget ScopeTags ReadFences EvidenceRefs
    ProvenanceClosure Isotonic EvidenceLocator SignedTokens RevocationCache TokenClaims ParallelMap ReapSweep
    SourceVersion AliasUnion CandidateMerge BeliefFold BeliefRevision FactHistory KeyedMutex Idempotency
    ApiKeys Credentials TenantRoster Membership MembershipCache
begin

text \<open>
  A verification development for the brain service, a multi-tenant knowledge service on NestJS and SurrealDB
  (sources under \<open>src/src\<close>).  It models its two control planes, access policies and background
  jobs, the fences and tokens around every read, the knowledge plane from extracted candidates through facts
  and beliefs to provenance, and the guards around its model calls.

  \<^bold>\<open>Access policies\<close> (\<open>policy/\<close>).  Operators store policy documents; the
  schema accepts them (\<open>PolicyTypes\<close>: \<open>policy.types.ts\<close>), the compiler turns an
  accepted document into rules with closed conditions (\<open>PolicyCompile\<close>:
  \<open>policy-compile.ts\<close>, \<open>ActionRegistry\<close>: \<open>action-registry.ts\<close>), the
  engine decides actions and rows and explains its decisions (\<open>PolicyEngine\<close>:
  \<open>policy-engine.ts\<close>).  The gate throws on denied actions and the row filter drops denied rows
  (\<open>RowFilter\<close>: \<open>row-filter.ts\<close>, \<open>policy-gate.service.ts\<close>); the union
  pass drops rows whose confirming documents are denied (\<open>MetaUnion\<close>:
  \<open>meta-union.ts\<close>); a subset of the deny rules is pushed into the database
  (\<open>DbFence\<close>: \<open>db-fence.ts\<close> and migration 0057). Documents and their attachments to
  subjects live in tenant tables (\<open>PolicyStore\<close>: \<open>policy-store.service.ts\<close>); a
  request's context comes from a cached snapshot of them (\<open>PolicyResolver\<close>:
  \<open>policy-resolver.service.ts\<close>, on \<open>LruCache\<close>: \<open>common/lru-cache.ts\<close>).
  \<open>SourceMeta\<close> (\<open>source-meta.ts\<close>) sanitises the document metadata rules may name,
  and \<open>PolicySimulation\<close> (\<open>policy-simulation.service.ts\<close>) answers what-if questions
  with the engine.

  \<^bold>\<open>Background jobs\<close> (\<open>jobs/\<close>).  One job table per tenant with its writers
  (\<open>JobQueue\<close>: \<open>job-claim.service.ts\<close>, \<open>job-run.service.ts\<close>, migration
  0058), the leases that elect the process which may claim (\<open>LeaderLease\<close>:
  \<open>leader-lease.service.ts\<close>), the poll loops with their caps and fairness
  (\<open>WorkerPoller\<close>: \<open>worker-poller.service.ts\<close>), the running of one claimed job and
  the leadership of the loops (\<open>JobDispatch\<close>: \<open>job-dispatcher.service.ts\<close>,
  \<open>worker-loop.service.ts\<close>, with the batch outcomes of \<open>BatchOutcome\<close>:
  \<open>common/batch-outcome.ts\<close>), and the thread pool of CPU-bound handlers
  (\<open>JobWorkerPool\<close>: \<open>job-worker-pool.service.ts\<close>).

  The reaper's sweep over the tenants and the timers that start it are in \<open>ReapSweep\<close>
  (\<open>job-reaper.service.ts\<close>, \<open>lease-manager.service.ts\<close>).

  \<^bold>\<open>Who may read\<close> (\<open>auth/\<close>).  Scope tags, trust circles and the clause that
  hides rows (\<open>ScopeTags\<close>: \<open>scope-tags.ts\<close>, \<open>circle-scope.ts\<close>,
  \<open>write-scope.ts\<close>, \<open>scope-principal.ts\<close>, \<open>scope-visibility.ts\<close>); the
  user fence, the gates of segments and scenes and the tenant of an administrator (\<open>ReadFences\<close>:
  \<open>user-scope.ts\<close>, \<open>segment-scope.ts\<close>, \<open>tenant-scope.ts\<close>); the claims
  of a token (\<open>TokenClaims\<close>: \<open>claim-parsers.ts\<close>, \<open>token-audience.ts\<close>)
  and the deny-list of revoked ones (\<open>RevocationCache\<close>:
  \<open>revocation-cache.service.ts\<close>); secrets at rest and signed addresses and work tokens
  (\<open>SignedTokens\<close> on \<open>Codec\<close>: \<open>secret-cipher.ts\<close>,
  \<open>raw-url-token.ts\<close>, \<open>harness-work-token.ts\<close>).

  Who a user is in the connected systems: the tuples of one tenant, the accounts and their links, the bounded
  expansion of a user into tags and the walk that mirrors the groups of a source (\<open>Membership\<close>:
  \<open>membership.service.ts\<close>, \<open>source-plane/source-principals.service.ts\<close>), and the
  cache of expansions under the epoch of the tenant (\<open>MembershipCache\<close>).

  \<^bold>\<open>Credentials\<close> (\<open>auth/\<close>, \<open>keys/\<close>).  The keys the service
  issues, with the cache of every replica and the rules of issuing and revoking (\<open>ApiKeys\<close>:
  \<open>api-key-store.service.ts\<close>, \<open>keys/keys.service.ts\<close>,
  \<open>issuable-scopes.ts\<close>); the four sources a bearer token is looked up in, their order, and the
  guard that admits a request, from the scopes over the policy gate to the identity it stamps
  (\<open>Credentials\<close>: \<open>jwks.service.ts\<close>, \<open>introspection.client.ts\<close>,
  \<open>api-key.service.ts\<close>, \<open>credential-resolver.service.ts\<close>,
  \<open>api-key.guard.ts\<close>); the registry of tenants and the rosters of background work
  (\<open>TenantRoster\<close>: \<open>tenant-registry.service.ts\<close>, \<open>api-key.service.ts\<close>).

  \<^bold>\<open>Knowledge.\<close>  Candidates extracted from documents are merged over a union-find of
  aliases (\<open>SourceVersion\<close>, \<open>AliasUnion\<close>, \<open>CandidateMerge\<close>:
  \<open>documents/candidate-merge.ts\<close>).  A fact is written by the resolver
  (\<open>FactResolver\<close>: \<open>ingest/fact-resolver.service.ts\<close>), one at a time per slot
  (\<open>KeyedMutex\<close>: \<open>common/keyed-mutex.ts\<close>), through the stored function that settles
  it against the rows of its slot (\<open>FactTable\<close>: migrations 0177 and 0175); later a judge compares
  new facts and edges with their neighbours (\<open>FactResolution\<close>:
  \<open>dreams/fact-resolution.service.ts\<close>, \<open>edge-resolution.ts\<close>), and a caller may
  retract (\<open>FactRetract\<close>: \<open>facts/facts.service.ts\<close>, migration 0069).
  \<open>FactTimeline\<close> and \<open>FactJudged\<close> hold the invariants of the table and of the judged
  pass, \<open>FactHistory\<close> the histories of all writers together.  Scenes of a user fold into beliefs
  with a chain of revisions (\<open>BeliefFold\<close>, \<open>BeliefRevision\<close>:
  \<open>admin/belief-*.ts\<close>). What a fact rests on is referred to, located and walked in
  \<open>EvidenceRefs\<close> (\<open>common/evidence-ref.ts\<close>, \<open>support-edges.ts\<close>),
  \<open>EvidenceLocator\<close> (\<open>evidence/locator.ts\<close>) and \<open>ProvenanceClosure\<close>
  (\<open>facts/provenance-closure.ts\<close>).

  \<^bold>\<open>Retried writes.\<close>  A write that carries an \<open>Idempotency-Key\<close> runs once and
  answers its retries from the stored row (\<open>Idempotency\<close>:
  \<open>idempotency/idempotency.interceptor.ts\<close>, \<open>idempotency-store.service.ts\<close>).

  \<^bold>\<open>Model calls\<close> (\<open>ai/\<close>).  The circuit breaker of a route
  (\<open>CircuitBreaker\<close>: \<open>circuit-breaker.ts\<close>), the daily token budget of a tenant with
  the flush that shares it (\<open>TenantBudget\<close>: \<open>tenant-llm-budget.ts\<close>,
  \<open>tenant-spend-flush.service.ts\<close>), the calibration of confidences (\<open>Isotonic\<close>:
  \<open>calibration/isotonic.ts\<close>) and the bounded parallel map the batches run in
  (\<open>ParallelMap\<close>: \<open>common/parallel.ts\<close>).

  \<^bold>\<open>How the code is modelled.\<close>  Interfaces are records, unions are datatypes, JavaScript
  maps and sets are association lists and lists in insertion order, untyped values are the datatype
  \<open>jval\<close> of \<open>JsValue\<close>.  Numbers are exact: counters are naturals or integers, the
  few fractions are rationals.  A thrown exception is a value of a sum or an option, or an event. A database
  statement on one record is one atomic step on a table; statements of different processes interleave freely,
  as step relations (\<open>job_step\<close>, \<open>others_step\<close>, \<open>store_step\<close>,
  \<open>spend_step\<close>, \<open>belief_step\<close>, \<open>fact_step\<close>, \<open>idem_step\<close>,
  \<open>key_step\<close>, \<open>fleet_step\<close>) or, between a read and its compare-and-set, as an
  arbitrary function on the table.  A JavaScript process is a sequence of synchronous blocks between awaits
  (\<open>poll_step\<close>, \<open>pool_step\<close>, \<open>mutex_step\<close>, \<open>limit_step\<close>).
  Clock readings, random draws, new identifiers and whether the database answers are arguments.  Number
  formatting and number and date parsing of the runtime are the functions of \<open>js_lib\<close>, and
  \<open>parseInt\<close> is the argument \<open>parse\<close> where it is used. Loops are structural
  recursions where the source iterates over a list or counts up to a limit of its own (the three claim
  attempts of \<open>claimNext\<close>, the four pages of \<open>nextItems\<close>, the depth of the
  provenance walk, the eight levels of an expansion).  The cascade of a retraction is a
  \<open>function\<close> that ends because each level retracts a row; the parent walks of the union-find are
  \<open>partial_function (option)\<close>, shown to return on every forest the operations build.  The only
  fuel of our own is the number of statements \<open>run_call\<close> runs of a store call;
  \<open>call_measure\<close> of the call is enough (\<open>run_call_ends\<close>).

  \<^bold>\<open>What the lemmas show.\<close>  The shared contracts are locales, interpreted on the model:
  \<open>deny_overrides\<close> (a verdict per set, deny wins; actions and rows), \<open>bounded_cache\<close>
  (the LRU), \<open>claim_write\<close> (the five writes on a claim), \<open>state_machine\<close> and
  \<open>tracked_machine\<close> (invariants and relations along histories), \<open>narrowing_write\<close>
  (the writes that only end values).  On them rest the properties: the engine's decisions as first-order
  conditions, monotonicity and fail-closed resolution; schema soundness for the compiler; the filter, the
  gate, the fence, the union pass and the simulation agree with the engine; the unique rows of the store under
  overlapping calls, and its referential integrity while calls do not overlap; coherence of snapshots
  confirmed at a moment when every change had been followed by its bump; safety, exclusiveness, fencing,
  progress, deduplication and bounded attempts of the queue and its reaper; exclusion and fencing of leases;
  caps, exact counters and work conservation of the poller; soundness and conservation of calls in the thread
  pool; the breaker's behaviour; conservation of spend up to what a failed flush counts twice; agreement of
  the scope clause with the evaluator and isolation of circles; authenticity of tokens and rotation of keys; a
  revocation at every replica that read it; entities as classes of aliases and a merge that loses no
  candidate; one value at a time in a single-value slot outside circles and groups, along every interleaving
  of the writers' statements; no dispute without a rival by a settling; a record's authority over its own
  values; a retraction that reaches every descendant (but a row it revives) and undoes what the fact's
  settling had closed; one active revision per belief with disjoint periods; exclusion and service of the
  keyed mutex; at most one run per idempotency key and day while its row is not deleted, and replays of its
  answer only; issued keys never wider than their minter, and dead within half a minute of their revocation;
  the guard's exact condition, and that only a static key crosses tenants; the exact rosters of background
  work; the mirror of a source's groups for users of one listed account, and that no revoked group is served
  from the cache of expansions; bounds and termination of the provenance walk. Each theory ends with the cases
  in which the code departs from what its comments say, as lemmas on concrete states.

  \<^bold>\<open>Not modelled.\<close>  HTTP controllers, throttling, the database client and its retries,
  logging, metrics and tracing; ranking of search results, synthesis and the prompts of extraction, whose
  behaviour is that of models and embeddings; parsing and indexing of documents; domain packs; the patching of
  the model client; and the read-only listings that only project columns.  Of the fact resolver the
  supplementary stamps (language attribution, expectation, grounding), the support edges and the outcome
  telemetry are left out.  Embedding similarity, digests, ciphers, regular date formatting and the answers of
  models are arguments.
\<close>

end
